(* ===== verification/Prelude.thy ===== *)
theory Prelude
  imports Main "HOL-Library.Word"
begin

text \<open>
  Shared vocabulary of the development: machine integers, the faults a C++ statement can end
  in, the sequencing of operations that may fault, array access with its bounds, and generic
  lemmas on lists.  The named collections \<open>cxx_simps\<close> and \<open>pt_simps\<close> hold the rewrite
  rules that the component theories share.
\<close>

unbundle bit_operations_syntax

named_theorems cxx_simps "evaluation of sequenced operations and of array access"
named_theorems pt_simps "reading a page-table entry after an update"

type_synonym u8 = "8 word"
type_synonym u16 = "16 word"
type_synonym u32 = "32 word"
type_synonym u64 = "64 word"

section \<open>Faults and sequencing\<close>

text \<open>
  The build is a Debug build, so \<open>assert\<close> is active: a failing one aborts.  An access outside
  an array or through a null pointer and a division by zero are undefined behaviour in C++; \<open>ListArray::getValue\<close>
  throws.  Each is a value of the left summand.  \<open>OutOfFuel\<close> is the result of a loop that was
  given a bound on its iterations and reached it.
\<close>

datatype fault =
    AssertFail
  | OutOfBounds
  | NullDeref
  | DivZero
  | Thrown
  | OutOfFuel

type_synonym 'a res = "fault + 'a"

definition bindE :: "'e + 'a \<Rightarrow> ('a \<Rightarrow> 'e + 'b) \<Rightarrow> 'e + 'b" where
  "bindE m f = (case m of Inl e \<Rightarrow> Inl e | Inr x \<Rightarrow> f x)"

definition assertE :: "bool \<Rightarrow> unit res" where
  "assertE b = (if b then Inr () else Inl AssertFail)"

lemma bindE_Inr [simp, cxx_simps]: "bindE (Inr x) f = f x"
  by (simp add: bindE_def)

lemma bindE_Inl [simp, cxx_simps]: "bindE (Inl e) f = Inl e"
  by (simp add: bindE_def)

lemma bindE_eq_Inr: "bindE m f = Inr y \<longleftrightarrow> (\<exists>x. m = Inr x \<and> f x = Inr y)"
  by (cases m) simp_all

lemma bindE_assoc: "bindE (bindE m f) g = bindE m (\<lambda>x. bindE (f x) g)"
  by (cases m) simp_all

lemma assertE_True [simp, cxx_simps]: "assertE True = Inr ()"
  by (simp add: assertE_def)

lemma assertE_False [simp, cxx_simps]: "assertE False = Inl AssertFail"
  by (simp add: assertE_def)

lemma assertE_eq_Inr [simp]: "assertE b = Inr u \<longleftrightarrow> b"
  by (simp add: assertE_def)

section \<open>Arrays\<close>

definition arr_get :: "'a list \<Rightarrow> nat \<Rightarrow> 'a res" where
  "arr_get xs i = (if i < length xs then Inr (xs ! i) else Inl OutOfBounds)"

definition arr_set :: "'a list \<Rightarrow> nat \<Rightarrow> 'a \<Rightarrow> 'a list res" where
  "arr_set xs i x = (if i < length xs then Inr (xs[i := x]) else Inl OutOfBounds)"

lemma arr_get_in [simp, cxx_simps]: "i < length xs \<Longrightarrow> arr_get xs i = Inr (xs ! i)"
  by (simp add: arr_get_def)

lemma arr_set_in [simp, cxx_simps]: "i < length xs \<Longrightarrow> arr_set xs i x = Inr (xs[i := x])"
  by (simp add: arr_set_def)

lemma arr_get_eq_Inr: "arr_get xs i = Inr x \<longleftrightarrow> i < length xs \<and> x = xs ! i"
  by (auto simp: arr_get_def)

lemma arr_set_eq_Inr: "arr_set xs i x = Inr ys \<longleftrightarrow> i < length xs \<and> ys = xs[i := x]"
  by (auto simp: arr_set_def)

section \<open>Lists\<close>

lemma list_update_id_nth [simp]: "xs ! i = x \<Longrightarrow> xs[i := x] = xs"
  by (metis list_update_id)

lemma in_set_tlD: "x \<in> set (tl xs) \<Longrightarrow> x \<in> set xs"
  by (cases xs) auto

lemma sum_list_update_less:
  fixes f :: "'a \<Rightarrow> nat"
  assumes "i < length xs" and "f x < f (xs ! i)"
  shows "sum_list (map f (xs[i := x])) < sum_list (map f xs)"
  using assms
proof (induction xs arbitrary: i)
  case Nil
  then show ?case by simp
next
  case (Cons y ys)
  then show ?case by (cases i) auto
qed

section \<open>Adding one below a power of two\<close>

lemma div_mod_Suc:
  fixes k m :: nat
  assumes "k mod m + 1 < m"
  shows "(k + 1) div m = k div m" and "(k + 1) mod m = k mod m + 1"
proof -
  have e: "k + 1 = (k mod m + 1) + k div m * m" using div_mult_mod_eq [of k m] by linarith
  have "0 < m" using assms by simp
  then show "(k + 1) div m = k div m" and "(k + 1) mod m = k mod m + 1"
    unfolding e using assms by (simp_all only: div_mult_self1 mod_mult_self1 div_less mod_less)
qed

lemma div_mod_pred:
  fixes k m :: nat
  assumes "0 < k mod m" and "0 < m"
  shows "(k - 1) div m = k div m" and "(k - 1) mod m = k mod m - 1"
proof -
  have e: "k - 1 = (k mod m - 1) + k div m * m" using div_mult_mod_eq [of k m] assms by linarith
  have "k mod m - 1 < m" using mod_less_divisor [OF assms(2), of k] by linarith
  then show "(k - 1) div m = k div m" and "(k - 1) mod m = k mod m - 1"
    unfolding e using assms by (simp_all only: div_mult_self1 mod_mult_self1 div_less mod_less)
qed

lemma div_mod_carry:
  fixes k m :: nat
  assumes "k mod m + 1 = m"
  shows "(k + 1) div m = k div m + 1" and "(k + 1) mod m = 0"
proof -
  have "k + 1 = m * (k div m) + (k mod m + 1)" by simp
  also have "\<dots> = m * (k div m + 1)" unfolding assms by simp
  finally have e: "k + 1 = m * (k div m + 1)" .
  have "m \<noteq> 0" using assms by auto
  then show "(k + 1) div m = k div m + 1" unfolding e by (rule nonzero_mult_div_cancel_left)
  show "(k + 1) mod m = 0" unfolding e by (rule mod_mult_self1_is_0)
qed

section \<open>Machine integers as natural numbers\<close>

lemma u16_less: "unat (w :: u16) < 65536"
  using unsigned_less [of w, where 'a = nat] by simp

lemma u32_less: "unat (w :: u32) < 4294967296"
  using unsigned_less [of w, where 'a = nat] by simp

lemma u64_less: "unat (w :: u64) < 18446744073709551616"
  using unsigned_less [of w, where 'a = nat] by simp

lemma unat_add_mult_u32:
  assumes "unat a + unat b * unat c < 4294967296"
  shows "unat (a + b * c :: u32) = unat a + unat b * unat c"
proof -
  have "a + b * c = word_of_nat (unat a + unat b * unat c)" by simp
  then have "unat (a + b * c) = (unat a + unat b * unat c) mod 4294967296"
    by (simp only: unat_of_nat) simp
  then show ?thesis using assms by simp
qed

section \<open>Rounding up\<close>

text \<open>\<open>ceil\<close> and \<open>CEIL\<close> of \<^verbatim>\<open>include/utils.h\<close>, for a divisor that is not 0.\<close>

definition ceil_div :: "nat \<Rightarrow> nat \<Rightarrow> nat" where
  "ceil_div val mod_val = val div mod_val + (if val mod mod_val = 0 then 0 else 1)"

lemma ceil_div_bounds:
  assumes "0 < m"
  shows "v \<le> ceil_div v m * m" and "ceil_div v m * m < v + m"
proof -
  obtain a r where "v div m * m = a" "v mod m = r" by blast
  moreover have "a + r = v" "r < m"
    using assms mod_less_divisor [of m v] by (simp_all add: calculation [symmetric])
  ultimately show "v \<le> ceil_div v m * m" "ceil_div v m * m < v + m"
    by (simp_all add: ceil_div_def add_mult_distrib)
qed

end
