(* ===== verification/Cas.thy ===== *)
theory Cas
  imports Prelude
begin

text \<open>
  Read-modify-write loops over \<open>compare_exchange_weak\<close>.  The page table words of the buffer pool
  are updated by loops of one form: load the word, compute from it either a result that ends the
  loop or a new value to exchange, and retry with the value found when the exchange fails.
\<close>

text \<open>
  The body of a loop reads a value and either gives up with a result, or proposes a new value
  and the result to return when the exchange succeeds.
\<close>

datatype ('w, 'r) cas_body = GiveUp 'r | Propose 'w 'r

text \<open>Running a body when no other thread intervenes.\<close>

definition cas_seq :: "('w \<Rightarrow> ('w, 'r) cas_body) \<Rightarrow> 'w \<Rightarrow> 'r \<times> 'w" where
  "cas_seq body w = (case body w of GiveUp r \<Rightarrow> (r, w) | Propose w' r \<Rightarrow> (r, w'))"

text \<open>
  \<open>compare_exchange_weak\<close> stores the new value only if the memory still holds the expected one, and
  may fail without a reason; it returns whether it stored, and the memory afterwards, which is also
  what the caller's expected value becomes when it fails.
\<close>

definition compare_exchange_weak :: "'w \<Rightarrow> 'w \<Rightarrow> bool \<Rightarrow> 'w \<Rightarrow> bool \<times> 'w" where
  "compare_exchange_weak old new spurious cur =
     (if cur = old \<and> \<not> spurious then (True, new) else (False, cur))"

text \<open>
  \<open>cas_loop body old env\<close> runs the loop from the loaded value \<open>old\<close>.  Each entry of \<open>env\<close> is
  one \<open>compare_exchange_weak\<close>: the value then in memory, and whether the exchange fails
  spuriously.  The result carries the word in memory before and after the access that ended the
  loop; it is \<open>None\<close> when \<open>env\<close> ends while the loop is still running.
\<close>

fun cas_loop :: "('w \<Rightarrow> ('w, 'r) cas_body) \<Rightarrow> 'w \<Rightarrow> ('w \<times> bool) list \<Rightarrow> ('r \<times> 'w \<times> 'w) option" where
  "cas_loop body old env =
     (case body old of
        GiveUp r \<Rightarrow> Some (r, old, old)
      | Propose new r \<Rightarrow>
          (case env of
             [] \<Rightarrow> None
           | (cur, spurious) # env' \<Rightarrow>
               (case compare_exchange_weak old new spurious cur of
                  (True, w) \<Rightarrow> Some (r, cur, w)
                | (False, w) \<Rightarrow> cas_loop body w env')))"

declare cas_loop.simps [simp del]

text \<open>Linearization: the loop acts as one step at a value it observed.\<close>

lemma cas_loop_linearizes:
  "cas_loop body old env = Some (r, v, v') \<Longrightarrow>
     cas_seq body v = (r, v') \<and> v \<in> insert old (fst ` set env)"
proof (induction env arbitrary: old)
  case Nil
  then show ?case by (auto simp: cas_loop.simps cas_seq_def split: cas_body.splits)
next
  case (Cons e env)
  obtain cur spurious where e: "e = (cur, spurious)" by (cases e)
  show ?case
    using Cons.prems [unfolded e cas_loop.simps [of _ _ "_ # _"]] Cons.IH [of cur]
    by (auto simp: e cas_seq_def compare_exchange_weak_def split: cas_body.splits if_splits)
qed

text \<open>Progress: one exchange that is not disturbed ends the loop.\<close>

lemma cas_loop_returns:
  "cas_loop body old (env @ [(w, b), (w, False)]) \<noteq> None"
proof (induction env arbitrary: old)
  case Nil
  then show ?case by (auto simp: cas_loop.simps compare_exchange_weak_def split: cas_body.splits)
next
  case (Cons e env)
  then show ?case
    by (cases e) (subst cas_loop.simps, auto simp: compare_exchange_weak_def split: cas_body.splits)
qed

end
