(* ===== verification/PTE.thy ===== *)
theory PTE
  imports Cas
begin

text \<open>
  The page-table entry of \<^verbatim>\<open>include/page_table.h\<close>: one 64-bit word that the code reads and
  updates atomically.  From the low bits up: a 16-bit reference count, a 13-bit file handle, the
  flags \<open>initialized\<close>, \<open>dirty\<close> and \<open>busy\<close>, and a 32-bit file page number.  Read-modify-write
  loops are modelled by their bodies, run by \<open>cas_seq\<close> without and by \<open>cas_loop\<close> (theory \<open>Cas\<close>)
  with interference by other threads.
\<close>

type_synonym pte = u64
type_synonym fpage_id = u32
type_synonym file_handle = u32

section \<open>The bit fields\<close>

definition INVALID_FILE_HANDLE :: u16 where
  "INVALID_FILE_HANDLE = 65535"

definition INVALID_PAGE_ID :: u32 where
  "INVALID_PAGE_ID = 4294967295"

record UnpackedPTE =
  ref_count :: u16
  fd_cur :: file_handle
  initialized :: bool
  dirty :: bool
  busy :: bool
  fpage_id_cur :: fpage_id

definition pte_ref_count :: "pte \<Rightarrow> u16" where
  "pte_ref_count w = ucast w"

definition pte_fd_cur :: "pte \<Rightarrow> file_handle" where
  "pte_fd_cur w = ucast (take_bit 13 (drop_bit 16 w))"

definition pte_initialized :: "pte \<Rightarrow> bool" where
  "pte_initialized w = bit w 29"

definition pte_dirty :: "pte \<Rightarrow> bool" where
  "pte_dirty w = bit w 30"

definition pte_busy :: "pte \<Rightarrow> bool" where
  "pte_busy w = bit w 31"

definition pte_fpage_id_cur :: "pte \<Rightarrow> fpage_id" where
  "pte_fpage_id_cur w = ucast (drop_bit 32 w)"

text \<open>Assignments to a bit field keep the other bits and truncate the value to the field.\<close>

definition set_ref_count :: "u16 \<Rightarrow> pte \<Rightarrow> pte" where
  "set_ref_count r w = (w AND NOT (mask 16)) OR ucast r"

definition set_fd_cur :: "file_handle \<Rightarrow> pte \<Rightarrow> pte" where
  "set_fd_cur fd w = (w AND NOT (push_bit 16 (mask 13))) OR push_bit 16 (take_bit 13 (ucast fd))"

definition set_initialized :: "bool \<Rightarrow> pte \<Rightarrow> pte" where
  "set_initialized b w = (if b then set_bit 29 w else unset_bit 29 w)"

definition set_dirty :: "bool \<Rightarrow> pte \<Rightarrow> pte" where
  "set_dirty b w = (if b then set_bit 30 w else unset_bit 30 w)"

definition set_busy :: "bool \<Rightarrow> pte \<Rightarrow> pte" where
  "set_busy b w = (if b then set_bit 31 w else unset_bit 31 w)"

definition set_fpage_id_cur :: "fpage_id \<Rightarrow> pte \<Rightarrow> pte" where
  "set_fpage_id_cur p w = take_bit 32 w OR push_bit 32 (ucast p)"

definition ToUnpacked :: "pte \<Rightarrow> UnpackedPTE" where
  "ToUnpacked w = \<lparr>ref_count = pte_ref_count w, fd_cur = pte_fd_cur w,
     initialized = pte_initialized w, dirty = pte_dirty w, busy = pte_busy w,
     fpage_id_cur = pte_fpage_id_cur w\<rparr>"

text \<open>The brace initialiser \<open>PTE{...}\<close>: all fields, in declaration order.\<close>

definition mk_pte :: "u16 \<Rightarrow> file_handle \<Rightarrow> bool \<Rightarrow> bool \<Rightarrow> bool \<Rightarrow> fpage_id \<Rightarrow> pte" where
  "mk_pte r fd i d b p = set_ref_count r (set_fd_cur fd (set_initialized i (set_dirty d
     (set_busy b (set_fpage_id_cur p 0)))))"

text \<open>\<open>{0, INVALID_FILE_HANDLE >> 3, 0, 0, 0, INVALID_PAGE_ID}\<close>\<close>

definition EMPTY_PTE :: pte where
  "EMPTY_PTE = mk_pte 0 (ucast (drop_bit 3 INVALID_FILE_HANDLE)) False False False INVALID_PAGE_ID"

text \<open>\<open>Clean\<close> stores the empty entry over the word.\<close>

definition pte_Clean :: "pte \<Rightarrow> pte" where
  "pte_Clean w = EMPTY_PTE"

subsection \<open>Reading a field after writing one\<close>

lemma bit_set_ref_count:
  "bit (set_ref_count r w) n \<longleftrightarrow> (if n < 16 then bit r n else bit w n)"
  by (auto simp: set_ref_count_def bit_simps not_le dest: bit_imp_le_length)

lemma bit_set_fd_cur:
  "bit (set_fd_cur fd w) n \<longleftrightarrow> (if 16 \<le> n \<and> n < 29 then bit fd (n - 16) else bit w n)"
  by (auto simp: set_fd_cur_def bit_simps not_le dest: bit_imp_le_length)

lemma bit_set_fpage_id_cur:
  "bit (set_fpage_id_cur p w) n \<longleftrightarrow> (if 32 \<le> n then bit p (n - 32) else bit w n)"
  by (auto simp: set_fpage_id_cur_def bit_simps not_le dest: bit_imp_le_length)

lemmas field_bits =
  bit_set_ref_count bit_set_fd_cur bit_set_fpage_id_cur
  set_initialized_def set_dirty_def set_busy_def bit_simps


lemma bit_fields:
  "bit (pte_ref_count w) n \<longleftrightarrow> n < 16 \<and> bit w n"
  "bit (pte_fd_cur w) n \<longleftrightarrow> n < 13 \<and> bit w (n + 16)"
  "bit (pte_fpage_id_cur w) n \<longleftrightarrow> n < 32 \<and> bit w (n + 32)"
  by (auto simp: pte_ref_count_def pte_fd_cur_def pte_fpage_id_cur_def bit_simps add.commute)

lemma set_ref_count_fields [pt_simps]:
  "pte_ref_count (set_ref_count r w) = r"
  "pte_fd_cur (set_ref_count r w) = pte_fd_cur w"
  "pte_initialized (set_ref_count r w) = pte_initialized w"
  "pte_dirty (set_ref_count r w) = pte_dirty w"
  "pte_busy (set_ref_count r w) = pte_busy w"
  "pte_fpage_id_cur (set_ref_count r w) = pte_fpage_id_cur w"
  by (auto intro!: bit_word_eqI simp: bit_fields field_bits pte_initialized_def pte_dirty_def pte_busy_def)

lemma set_fd_cur_fields [pt_simps]:
  "pte_ref_count (set_fd_cur fd w) = pte_ref_count w"
  "pte_fd_cur (set_fd_cur fd w) = take_bit 13 fd"
  "pte_initialized (set_fd_cur fd w) = pte_initialized w"
  "pte_dirty (set_fd_cur fd w) = pte_dirty w"
  "pte_busy (set_fd_cur fd w) = pte_busy w"
  "pte_fpage_id_cur (set_fd_cur fd w) = pte_fpage_id_cur w"
  by (auto intro!: bit_word_eqI simp: bit_fields field_bits pte_initialized_def pte_dirty_def pte_busy_def)

lemma set_fpage_id_cur_fields [pt_simps]:
  "pte_ref_count (set_fpage_id_cur p w) = pte_ref_count w"
  "pte_fd_cur (set_fpage_id_cur p w) = pte_fd_cur w"
  "pte_initialized (set_fpage_id_cur p w) = pte_initialized w"
  "pte_dirty (set_fpage_id_cur p w) = pte_dirty w"
  "pte_busy (set_fpage_id_cur p w) = pte_busy w"
  "pte_fpage_id_cur (set_fpage_id_cur p w) = p"
  by (auto intro!: bit_word_eqI simp: bit_fields field_bits pte_initialized_def pte_dirty_def pte_busy_def)

lemma set_flags_fields [pt_simps]:
  "pte_ref_count (set_initialized b w) = pte_ref_count w"
  "pte_fd_cur (set_initialized b w) = pte_fd_cur w"
  "pte_initialized (set_initialized b w) = b"
  "pte_dirty (set_initialized b w) = pte_dirty w"
  "pte_busy (set_initialized b w) = pte_busy w"
  "pte_fpage_id_cur (set_initialized b w) = pte_fpage_id_cur w"
  "pte_ref_count (set_dirty b w) = pte_ref_count w"
  "pte_fd_cur (set_dirty b w) = pte_fd_cur w"
  "pte_initialized (set_dirty b w) = pte_initialized w"
  "pte_dirty (set_dirty b w) = b"
  "pte_busy (set_dirty b w) = pte_busy w"
  "pte_fpage_id_cur (set_dirty b w) = pte_fpage_id_cur w"
  "pte_ref_count (set_busy b w) = pte_ref_count w"
  "pte_fd_cur (set_busy b w) = pte_fd_cur w"
  "pte_initialized (set_busy b w) = pte_initialized w"
  "pte_dirty (set_busy b w) = pte_dirty w"
  "pte_busy (set_busy b w) = b"
  "pte_fpage_id_cur (set_busy b w) = pte_fpage_id_cur w"
  by (auto intro!: bit_word_eqI simp: bit_fields field_bits pte_initialized_def pte_dirty_def pte_busy_def)

lemma mk_pte_fields [pt_simps]:
  "pte_ref_count (mk_pte r fd i d b p) = r"
  "pte_fd_cur (mk_pte r fd i d b p) = take_bit 13 fd"
  "pte_initialized (mk_pte r fd i d b p) = i"
  "pte_dirty (mk_pte r fd i d b p) = d"
  "pte_busy (mk_pte r fd i d b p) = b"
  "pte_fpage_id_cur (mk_pte r fd i d b p) = p"
  by (simp_all add: mk_pte_def pt_simps)

lemma bit_mk_pte:
  "bit (mk_pte r fd i d b p) n \<longleftrightarrow>
     (if n < 16 then bit r n else if n < 29 then bit fd (n - 16)
      else if n = 29 then i else if n = 30 then d else if n = 31 then b
      else n < 64 \<and> bit p (n - 32))"
proof -
  have "n < 16 \<or> 16 \<le> n \<and> n < 29 \<or> n = 29 \<or> n = 30 \<or> n = 31 \<or> 32 \<le> n \<and> n < 64 \<or> 64 \<le> n"
    by arith
  then show ?thesis
    by (elim disjE) (auto simp: mk_pte_def field_bits dest: bit_imp_le_length)
qed

text \<open>The packed word and its unpacked view determine each other.\<close>

lemma mk_pte_of_fields:
  "mk_pte (pte_ref_count w) (pte_fd_cur w) (pte_initialized w) (pte_dirty w) (pte_busy w)
     (pte_fpage_id_cur w) = w"
proof (rule bit_word_eqI)
  fix n assume n: "n < LENGTH(64)"
  have "n < 16 \<or> 16 \<le> n \<and> n < 29 \<or> n = 29 \<or> n = 30 \<or> n = 31 \<or> 32 \<le> n" by arith
  then show "bit (mk_pte (pte_ref_count w) (pte_fd_cur w) (pte_initialized w) (pte_dirty w)
      (pte_busy w) (pte_fpage_id_cur w)) n = bit w n"
    using n by (elim disjE) (auto simp: bit_mk_pte bit_fields pte_initialized_def pte_dirty_def pte_busy_def)
qed

lemma ToUnpacked_inject: "ToUnpacked v = ToUnpacked w \<longleftrightarrow> v = w"
proof
  assume "ToUnpacked v = ToUnpacked w"
  then have e: "pte_ref_count v = pte_ref_count w" "pte_fd_cur v = pte_fd_cur w"
    "pte_initialized v = pte_initialized w" "pte_dirty v = pte_dirty w" "pte_busy v = pte_busy w"
    "pte_fpage_id_cur v = pte_fpage_id_cur w"
    by (simp_all add: ToUnpacked_def)
  have "v = mk_pte (pte_ref_count v) (pte_fd_cur v) (pte_initialized v) (pte_dirty v) (pte_busy v)
     (pte_fpage_id_cur v)" by (simp only: mk_pte_of_fields)
  also have "\<dots> = w" by (simp only: e mk_pte_of_fields)
  finally show "v = w" .
qed simp

lemma ToUnpacked_set:
  "ToUnpacked (set_ref_count r w) = (ToUnpacked w)\<lparr>ref_count := r\<rparr>"
  "ToUnpacked (set_fd_cur fd w) = (ToUnpacked w)\<lparr>fd_cur := take_bit 13 fd\<rparr>"
  "ToUnpacked (set_initialized b w) = (ToUnpacked w)\<lparr>initialized := b\<rparr>"
  "ToUnpacked (set_dirty b w) = (ToUnpacked w)\<lparr>dirty := b\<rparr>"
  "ToUnpacked (set_busy b w) = (ToUnpacked w)\<lparr>busy := b\<rparr>"
  "ToUnpacked (set_fpage_id_cur p w) = (ToUnpacked w)\<lparr>fpage_id_cur := p\<rparr>"
  by (simp_all add: ToUnpacked_def pt_simps)

lemma EMPTY_PTE_fields [pt_simps]:
  "pte_ref_count EMPTY_PTE = 0" "pte_fd_cur EMPTY_PTE = 8191"
  "\<not> pte_initialized EMPTY_PTE" "\<not> pte_dirty EMPTY_PTE" "\<not> pte_busy EMPTY_PTE"
  "pte_fpage_id_cur EMPTY_PTE = INVALID_PAGE_ID"
  by (simp_all add: EMPTY_PTE_def pt_simps INVALID_FILE_HANDLE_def)

section \<open>The reference count as the low 16 bits of a 64-bit addition\<close>

text \<open>
  \<open>fetch_add(1)\<close> and \<open>fetch_sub(1)\<close> act on the whole word.  As long as the count stays inside its
  field, no other field changes; at the ends of the range the carry goes into the file handle.
\<close>

lemma unat_pte_ref_count: "unat (pte_ref_count w) = unat w mod 2 ^ 16"
  by (simp add: pte_ref_count_def unsigned_ucast_eq take_bit_eq_mod)

lemma other_fields_cong:
  assumes "drop_bit 16 v = drop_bit 16 w"
  shows "pte_fd_cur v = pte_fd_cur w" "pte_initialized v = pte_initialized w"
    "pte_dirty v = pte_dirty w" "pte_busy v = pte_busy w" "pte_fpage_id_cur v = pte_fpage_id_cur w"
proof -
  have b: "bit v (n + 16) = bit w (n + 16)" for n
    using arg_cong [OF assms, of "\<lambda>x. bit x n"] by (simp add: bit_simps add.commute)
  show "pte_fd_cur v = pte_fd_cur w" using b by (auto intro!: bit_word_eqI simp: bit_fields)
  show "pte_fpage_id_cur v = pte_fpage_id_cur w"
  proof (rule bit_word_eqI)
    fix n assume "n < LENGTH(32)"
    then show "bit (pte_fpage_id_cur v) n = bit (pte_fpage_id_cur w) n"
      using b [of "n + 16"] by (simp add: bit_fields add.commute)
  qed
  show "pte_initialized v = pte_initialized w" "pte_dirty v = pte_dirty w" "pte_busy v = pte_busy w"
    using b [of 13] b [of 14] b [of 15] by (simp_all add: pte_initialized_def pte_dirty_def pte_busy_def)
qed

lemma drop_bit_add_one:
  fixes w :: pte
  assumes "unat w mod 2 ^ 16 < 65535"
  shows "drop_bit 16 (w + 1) = drop_bit 16 w" and "unat (w + 1) mod 2 ^ 16 = unat w mod 2 ^ 16 + 1"
proof -
  have nz: "unat w + 1 < 2 ^ 64"
  proof (rule ccontr)
    assume "\<not> unat w + 1 < 2 ^ 64"
    with unsigned_less [of w, where 'a = nat] have "unat w = 2 ^ 64 - 1" by simp
    then have "unat w mod 2 ^ 16 = 65535" by simp
    with assms show False by simp
  qed
  then have u: "unat (w + 1) = unat w + 1" by (simp add: unat_word_ariths)
  have "(unat w + 1) div 2 ^ 16 = unat w div 2 ^ 16" and m: "(unat w + 1) mod 2 ^ 16 = unat w mod 2 ^ 16 + 1"
    using div_mod_Suc [of "unat w" "2 ^ 16"] assms by simp_all
  then show "drop_bit 16 (w + 1) = drop_bit 16 w"
    by (simp add: word_unat_eq_iff unat_drop_bit_eq u drop_bit_eq_div unat_div_distrib)
  show "unat (w + 1) mod 2 ^ 16 = unat w mod 2 ^ 16 + 1" using m u by simp
qed

lemma drop_bit_sub_one:
  fixes w :: pte
  assumes "0 < unat w mod 2 ^ 16"
  shows "drop_bit 16 (w - 1) = drop_bit 16 w" and "unat (w - 1) mod 2 ^ 16 = unat w mod 2 ^ 16 - 1"
proof -
  have nz: "0 < unat w" using assms by (cases "unat w") auto
  then have w: "w \<noteq> 0" by auto
  have u: "unat (w - 1) = unat w - 1" using w by (rule unat_minus_one)
  have "(unat w - 1) div 2 ^ 16 = unat w div 2 ^ 16" and m: "(unat w - 1) mod 2 ^ 16 = unat w mod 2 ^ 16 - 1"
    using div_mod_pred [of "unat w" "2 ^ 16"] assms by simp_all
  then show "drop_bit 16 (w - 1) = drop_bit 16 w"
    by (simp add: word_unat_eq_iff unat_drop_bit_eq u drop_bit_eq_div unat_div_distrib)
  show "unat (w - 1) mod 2 ^ 16 = unat w mod 2 ^ 16 - 1" using m u by simp
qed

lemma ToUnpacked_add_one:
  assumes "pte_ref_count w < 65535"
  shows "ToUnpacked (w + 1) = (ToUnpacked w)\<lparr>ref_count := pte_ref_count w + 1\<rparr>"
proof -
  have a: "unat w mod 2 ^ 16 < 65535"
    using assms by (simp add: word_less_nat_alt unat_pte_ref_count)
  have "unat (pte_ref_count (w + 1)) = unat (pte_ref_count w + 1)"
    using drop_bit_add_one(2) [OF a] a by (simp add: unat_pte_ref_count unat_word_ariths)
  then have "pte_ref_count (w + 1) = pte_ref_count w + 1" by (simp only: word_unat_eq_iff)
  then show ?thesis
    using other_fields_cong [OF drop_bit_add_one(1) [OF a]] by (simp add: ToUnpacked_def)
qed

lemma ToUnpacked_sub_one:
  assumes "pte_ref_count w \<noteq> 0"
  shows "ToUnpacked (w - 1) = (ToUnpacked w)\<lparr>ref_count := pte_ref_count w - 1\<rparr>"
proof -
  have a: "0 < unat w mod 2 ^ 16"
    using assms by (simp add: word_unat_eq_iff unat_pte_ref_count)
  have "unat (pte_ref_count (w - 1)) = unat (pte_ref_count w - 1)"
    using drop_bit_sub_one(2) [OF a] unat_minus_one [OF assms] by (simp add: unat_pte_ref_count)
  then have "pte_ref_count (w - 1) = pte_ref_count w - 1" by (simp only: word_unat_eq_iff)
  then show ?thesis
    using other_fields_cong [OF drop_bit_sub_one(1) [OF a]] by (simp add: ToUnpacked_def)
qed

section \<open>The operations as single atomic steps\<close>

definition IncRefCount_body :: "fpage_id \<Rightarrow> file_handle \<Rightarrow> pte \<Rightarrow> (pte, bool) cas_body" where
  "IncRefCount_body fpage_id fd w =
     (if pte_busy w then GiveUp False
      else if pte_fpage_id_cur w \<noteq> fpage_id \<or> pte_fd_cur w \<noteq> fd then GiveUp False
      else Propose (w + 1) True)"

definition Lock_body :: "pte \<Rightarrow> (pte, bool) cas_body" where
  "Lock_body w =
     (if pte_ref_count w \<noteq> 0 \<and> pte_initialized w \<or> pte_busy w then GiveUp False
      else Propose (set_busy True w) True)"

definition UnLock_body :: "pte \<Rightarrow> (pte, bool) cas_body" where
  "UnLock_body w =
     (if \<not> pte_busy w then GiveUp False
      else Propose (set_ref_count 0 (set_busy False w)) True)"

definition IncRefCount :: "fpage_id \<Rightarrow> file_handle \<Rightarrow> pte \<Rightarrow> bool \<times> pte" where
  "IncRefCount fpage_id fd w = cas_seq (IncRefCount_body fpage_id fd) w"

definition pte_Lock :: "pte \<Rightarrow> bool \<times> pte" where
  "pte_Lock w = cas_seq Lock_body w"

definition pte_UnLock :: "pte \<Rightarrow> bool \<times> pte" where
  "pte_UnLock w = cas_seq UnLock_body w"

text \<open>
  \<open>IncRefCount1\<close> adds first; it leaves the increment in place on a busy entry, where \<open>UnLock\<close>
  clears the count.  \<open>IncRefCount2\<close> always takes it back.
\<close>

definition IncRefCount1 :: "fpage_id \<Rightarrow> file_handle \<Rightarrow> pte \<Rightarrow> bool \<times> pte" where
  "IncRefCount1 fpage_id fd w =
     (let w' = w + 1
      in if pte_busy w then (False, w')
         else if pte_fpage_id_cur w \<noteq> fpage_id \<or> pte_fd_cur w \<noteq> fd then (False, w' - 1)
         else (True, w'))"

definition IncRefCount2 :: "fpage_id \<Rightarrow> file_handle \<Rightarrow> pte \<Rightarrow> bool \<times> pte" where
  "IncRefCount2 fpage_id fd w =
     (let w' = w + 1
      in if pte_busy w \<or> pte_fpage_id_cur w \<noteq> fpage_id \<or> pte_fd_cur w \<noteq> fd then (False, w' - 1)
         else (True, w'))"

definition DIRTY_BIT :: pte where
  "DIRTY_BIT = push_bit 30 1"

definition DecRefCount_write :: "bool \<Rightarrow> bool \<Rightarrow> pte \<Rightarrow> pte" where
  "DecRefCount_write is_write write_to_ssd w =
     (let w = (if is_write then w OR DIRTY_BIT else w);
          w = (if write_to_ssd then w AND NOT DIRTY_BIT else w)
      in w - 1)"

definition DecRefCount :: "pte \<Rightarrow> pte" where
  "DecRefCount w = w - 1"

definition SetDirty :: "bool \<Rightarrow> pte \<Rightarrow> bool \<times> pte" where
  "SetDirty b w = (True, set_dirty b w)"

section \<open>What the operations promise of the unpacked entry\<close>

definition inc_spec :: "fpage_id \<Rightarrow> file_handle \<Rightarrow> UnpackedPTE \<Rightarrow> bool \<times> UnpackedPTE" where
  "inc_spec fpage_id fd u =
     (if \<not> busy u \<and> fpage_id_cur u = fpage_id \<and> fd_cur u = fd
      then (True, u\<lparr>ref_count := ref_count u + 1\<rparr>) else (False, u))"

definition lock_spec :: "UnpackedPTE \<Rightarrow> bool \<times> UnpackedPTE" where
  "lock_spec u = (if busy u \<or> initialized u \<and> ref_count u \<noteq> 0 then (False, u)
                  else (True, u\<lparr>busy := True\<rparr>))"

definition unlock_spec :: "UnpackedPTE \<Rightarrow> bool \<times> UnpackedPTE" where
  "unlock_spec u = (if busy u then (True, u\<lparr>busy := False, ref_count := 0\<rparr>) else (False, u))"

lemma ToUnpacked_sel [pt_simps]:
  "ref_count (ToUnpacked w) = pte_ref_count w" "fd_cur (ToUnpacked w) = pte_fd_cur w"
  "initialized (ToUnpacked w) = pte_initialized w" "dirty (ToUnpacked w) = pte_dirty w"
  "busy (ToUnpacked w) = pte_busy w" "fpage_id_cur (ToUnpacked w) = pte_fpage_id_cur w"
  by (simp_all add: ToUnpacked_def)

lemma inc_fields [pt_simps]:
  assumes "pte_ref_count w < 65535"
  shows "pte_ref_count (w + 1) = pte_ref_count w + 1" "pte_fd_cur (w + 1) = pte_fd_cur w"
    "pte_initialized (w + 1) = pte_initialized w" "pte_dirty (w + 1) = pte_dirty w"
    "pte_busy (w + 1) = pte_busy w" "pte_fpage_id_cur (w + 1) = pte_fpage_id_cur w"
  using ToUnpacked_add_one [OF assms] by (simp_all add: ToUnpacked_def)

lemma dec_fields [pt_simps]:
  assumes "pte_ref_count w \<noteq> 0"
  shows "pte_ref_count (w - 1) = pte_ref_count w - 1" "pte_fd_cur (w - 1) = pte_fd_cur w"
    "pte_initialized (w - 1) = pte_initialized w" "pte_dirty (w - 1) = pte_dirty w"
    "pte_busy (w - 1) = pte_busy w" "pte_fpage_id_cur (w - 1) = pte_fpage_id_cur w"
  using ToUnpacked_sub_one [OF assms] by (simp_all add: ToUnpacked_def)

lemma IncRefCount_spec:
  "pte_ref_count w < 65535 \<Longrightarrow>
   map_prod id ToUnpacked (IncRefCount p fd w) = inc_spec p fd (ToUnpacked w)"
  by (auto simp: IncRefCount_def cas_seq_def IncRefCount_body_def inc_spec_def pt_simps
      ToUnpacked_add_one)

lemma Lock_spec: "map_prod id ToUnpacked (pte_Lock w) = lock_spec (ToUnpacked w)"
  by (auto simp: pte_Lock_def cas_seq_def Lock_body_def lock_spec_def pt_simps ToUnpacked_set)

lemma UnLock_spec: "map_prod id ToUnpacked (pte_UnLock w) = unlock_spec (ToUnpacked w)"
  by (auto simp: pte_UnLock_def cas_seq_def UnLock_body_def unlock_spec_def pt_simps ToUnpacked_set)

lemma IncRefCount2_eq: "IncRefCount2 p fd w = IncRefCount p fd w"
  by (auto simp: IncRefCount2_def IncRefCount_def cas_seq_def IncRefCount_body_def Let_def)

lemma IncRefCount1_eq: "\<not> pte_busy w \<Longrightarrow> IncRefCount1 p fd w = IncRefCount p fd w"
  by (auto simp: IncRefCount1_def IncRefCount_def cas_seq_def IncRefCount_body_def Let_def)

lemma bit_DIRTY_BIT: "bit DIRTY_BIT n \<longleftrightarrow> n = 30"
  unfolding DIRTY_BIT_def by (subst bit_push_bit_iff) (auto simp: bit_simps)

lemma set_dirty_or: "w OR DIRTY_BIT = set_dirty True w"
  by (auto intro!: bit_word_eqI simp: set_dirty_def bit_simps bit_DIRTY_BIT)

lemma clear_dirty_and: "w AND NOT DIRTY_BIT = set_dirty False w"
  by (auto intro!: bit_word_eqI simp: set_dirty_def bit_simps bit_DIRTY_BIT)

lemma DecRefCount_write_unpacked:
  "pte_ref_count w \<noteq> 0 \<Longrightarrow>
   ToUnpacked (DecRefCount_write is_write write_to_ssd w) =
     (ToUnpacked w)\<lparr>ref_count := pte_ref_count w - 1,
       dirty := (pte_dirty w \<or> is_write) \<and> \<not> write_to_ssd\<rparr>"
  by (auto simp: DecRefCount_write_def Let_def set_dirty_or clear_dirty_and ToUnpacked_sub_one
      ToUnpacked_set pt_simps ToUnpacked_def)

section \<open>Past the ends of the fields\<close>

lemma unat_pte_fd_cur: "unat (pte_fd_cur w) = unat w div 2 ^ 16 mod 2 ^ 13"
proof -
  have "unat w div 65536 mod 8192 mod 4294967296 = unat w div 65536 mod (8192::nat)"
    by (rule mod_less) (simp add: less_le_trans [OF mod_less_divisor])
  then show ?thesis
    by (simp add: pte_fd_cur_def unsigned_ucast_eq unsigned_take_bit_eq unat_drop_bit_eq
        take_bit_eq_mod drop_bit_eq_div unat_mod_distrib unat_div_distrib)
qed

lemma high_fields_cong:
  assumes "drop_bit 29 v = drop_bit 29 w"
  shows "pte_initialized v = pte_initialized w" "pte_dirty v = pte_dirty w"
    "pte_busy v = pte_busy w" "pte_fpage_id_cur v = pte_fpage_id_cur w"
proof -
  have b: "bit v (29 + n) = bit w (29 + n)" for n
    using arg_cong [OF assms, of "\<lambda>x. bit x n"] by (simp add: bit_simps add.commute)
  show "pte_fpage_id_cur v = pte_fpage_id_cur w"
  proof (rule bit_word_eqI)
    fix n assume "n < LENGTH(32)"
    then show "bit (pte_fpage_id_cur v) n = bit (pte_fpage_id_cur w) n"
      using b [of "n + 3"] by (simp add: bit_fields add.commute)
  qed
  show "pte_initialized v = pte_initialized w" "pte_dirty v = pte_dirty w" "pte_busy v = pte_busy w"
    using b [of 0] b [of 1] b [of 2] by (simp_all add: pte_initialized_def pte_dirty_def pte_busy_def)
qed

lemma inc_carry:
  assumes r: "pte_ref_count w = 65535" and fd: "pte_fd_cur w < 8191"
  shows "ToUnpacked (w + 1) = (ToUnpacked w)\<lparr>ref_count := 0, fd_cur := pte_fd_cur w + 1\<rparr>"
proof -
  let ?u = "unat w"
  have m: "?u mod 65536 = 65535"
    using r unat_pte_ref_count [of w] by (simp add: word_unat_eq_iff)
  have d: "?u div 65536 mod 8192 + 1 < 8192"
    using fd by (simp add: word_less_nat_alt unat_pte_fd_cur)
  have s: "(?u + 1) div 65536 = ?u div 65536 + 1" and z: "(?u + 1) mod 65536 = 0"
    using div_mod_carry [of ?u 65536] m by simp_all
  have hi: "(?u + 1) div 2 ^ 29 = ?u div 2 ^ 29"
    using div_mod_Suc(1) [OF d] s div_mult2_eq [of "?u + 1" 65536 8192] div_mult2_eq [of ?u 65536 8192]
    by simp
  have "?u + 1 < 2 ^ 64"
  proof (rule ccontr)
    assume "\<not> ?u + 1 < 2 ^ 64"
    with unsigned_less [of w, where 'a = nat] have "?u = 2 ^ 64 - 1" by simp
    with d show False by simp
  qed
  then have u: "unat (w + 1) = ?u + 1" by (simp add: unat_word_ariths)
  have "pte_ref_count (w + 1) = 0"
    using z by (simp add: word_unat_eq_iff unat_pte_ref_count u)
  moreover have f: "unat (pte_fd_cur w + 1) = unat (pte_fd_cur w) + 1"
    using d by (simp add: unat_word_ariths unat_pte_fd_cur)
  have "pte_fd_cur (w + 1) = pte_fd_cur w + 1"
    using div_mod_Suc(2) [OF d] s d
    by (simp add: word_unat_eq_iff unat_pte_fd_cur u f)
  moreover have "drop_bit 29 (w + 1) = drop_bit 29 w"
    using hi by (simp add: word_unat_eq_iff unat_drop_bit_eq u drop_bit_eq_div unat_div_distrib)
  ultimately show ?thesis using high_fields_cong [of "w + 1" w] by (simp add: ToUnpacked_def)
qed

lemma pte_fd_cur_less: "pte_fd_cur w < 8192"
  by (simp add: word_less_nat_alt unat_pte_fd_cur)

section \<open>Properties\<close>

lemma IncRefCount1_busy_funpow:
  assumes "pte_busy w" "unat (pte_ref_count w) + n < 65536"
  shows "ToUnpacked (((\<lambda>w. snd (IncRefCount1 p fd w)) ^^ n) w) =
    (ToUnpacked w)\<lparr>ref_count := pte_ref_count w + of_nat n\<rparr>"
  using assms
proof (induction n)
  case 0
  then show ?case by (simp add: ToUnpacked_def)
next
  case (Suc n)
  define v where "v = ((\<lambda>w. snd (IncRefCount1 p fd w)) ^^ n) w"
  have v: "ToUnpacked v = (ToUnpacked w)\<lparr>ref_count := pte_ref_count w + of_nat n\<rparr>"
    using Suc unfolding v_def by simp
  have r: "pte_ref_count v = pte_ref_count w + of_nat n" and b: "pte_busy v"
    using arg_cong [OF v, of ref_count] arg_cong [OF v, of busy] Suc.prems
    by (simp_all add: ToUnpacked_def)
  have "unat (of_nat n :: u16) = n" using Suc.prems by (simp add: unat_of_nat)
  then have "unat (pte_ref_count v) = unat (pte_ref_count w) + n"
    using r Suc.prems by (simp add: unat_word_ariths)
  then have "pte_ref_count v < 65535" using Suc.prems by (simp add: word_less_nat_alt)
  then have "ToUnpacked (v + 1) = (ToUnpacked w)\<lparr>ref_count := pte_ref_count w + of_nat (Suc n)\<rparr>"
    using ToUnpacked_add_one [of v] v r by (simp add: add.commute add.left_commute)
  moreover have "snd (IncRefCount1 p fd v) = v + 1" using b by (simp add: IncRefCount1_def)
  ultimately show ?case by (simp add: v_def)
qed

lemma UnLock_forgets_count:
  assumes "ToUnpacked v = (ToUnpacked w)\<lparr>ref_count := r\<rparr>" "pte_busy w"
  shows "pte_UnLock v = pte_UnLock w"
proof -
  have "pte_busy v" using arg_cong [OF assms(1), of busy] assms(2) by (simp add: ToUnpacked_def)
  moreover have "ToUnpacked (snd (pte_UnLock v)) = ToUnpacked (snd (pte_UnLock w))"
    using UnLock_spec [of v] UnLock_spec [of w] assms \<open>pte_busy v\<close>
    by (auto simp: unlock_spec_def pt_simps pte_UnLock_def cas_seq_def UnLock_body_def)
  ultimately show ?thesis
    using assms(2) by (auto simp: ToUnpacked_inject pte_UnLock_def cas_seq_def UnLock_body_def)
qed

text \<open>Under any interference, incrementing the reference count behaves as one atomic step on the
  word found by the access that ends the loop: it succeeds exactly when the entry is not busy and holds the requested page.\<close>

theorem IncRefCount_loop:
  assumes "cas_loop (IncRefCount_body p fd) old env = Some (r, v, v')"
    and "pte_ref_count v < 65535"
  shows "(r, ToUnpacked v') = inc_spec p fd (ToUnpacked v) \<and> v \<in> insert old (fst ` set env)"
  using cas_loop_linearizes [OF assms(1)] IncRefCount_spec [OF assms(2), of p fd]
  by (auto simp: IncRefCount_def)

lemma IncRefCount_loop_witness:
  "(True, ToUnpacked (mk_pte 1 2 True False False 7)) = inc_spec 7 2 (ToUnpacked (mk_pte 0 2 True False False 7))"
proof -
  have "cas_loop (IncRefCount_body 7 2) (mk_pte 3 2 True False False 7)
      [(mk_pte 0 2 True False False 7, False), (mk_pte 0 2 True False False 7, True),
       (mk_pte 0 2 True False False 7, False)] =
    Some (True, mk_pte 0 2 True False False 7, mk_pte 1 2 True False False 7)"
    by code_simp
  from IncRefCount_loop [OF this] show ?thesis by (simp add: pt_simps)
qed

text \<open>Under any interference, \<open>Lock\<close> and \<open>UnLock\<close> behave as one atomic step each: \<open>Lock\<close> takes the
  entry exclusively, only when it is not busy and no initialised page in it is pinned; \<open>UnLock\<close> gives
  it back with a reference count of zero.\<close>

theorem Lock_UnLock_loops:
  "(cas_loop Lock_body old env = Some (r, v, v') \<longrightarrow> (r, ToUnpacked v') = lock_spec (ToUnpacked v)) \<and>
   (cas_loop UnLock_body old env = Some (r, v, v') \<longrightarrow> (r, ToUnpacked v') = unlock_spec (ToUnpacked v))"
  using cas_loop_linearizes [of Lock_body old env r v v'] Lock_spec [of v]
    cas_loop_linearizes [of UnLock_body old env r v v'] UnLock_spec [of v]
  by (auto simp: pte_Lock_def pte_UnLock_def)

lemma Lock_UnLock_loops_witness:
  "(False, ToUnpacked (mk_pte 1 2 True False False 7)) = lock_spec (ToUnpacked (mk_pte 1 2 True False False 7)) \<and>
   (True, ToUnpacked (mk_pte 0 2 True False False 7)) = unlock_spec (ToUnpacked (mk_pte 5 2 True False True 7))"
proof
  have "cas_loop Lock_body (mk_pte 1 2 True False False 7) [] =
    Some (False, mk_pte 1 2 True False False 7, mk_pte 1 2 True False False 7)" by code_simp
  from Lock_UnLock_loops [THEN conjunct1, THEN mp, OF this]
  show "(False, ToUnpacked (mk_pte 1 2 True False False 7)) = lock_spec (ToUnpacked (mk_pte 1 2 True False False 7))" .
  have "cas_loop UnLock_body (mk_pte 4 2 True False True 7)
      [(mk_pte 5 2 True False True 7, False), (mk_pte 5 2 True False True 7, False)] =
    Some (True, mk_pte 5 2 True False True 7, mk_pte 0 2 True False False 7)" by code_simp
  from Lock_UnLock_loops [THEN conjunct2, THEN mp, OF this]
  show "(True, ToUnpacked (mk_pte 0 2 True False False 7)) = unlock_spec (ToUnpacked (mk_pte 5 2 True False True 7))" .
qed

text \<open>The three read-modify-write loops are lock-free: each returns as soon as one exchange
  that does not fail spuriously finds the word as the exchange before it left it.\<close>

theorem pte_loops_return:
  "cas_loop (IncRefCount_body p fd) old (env @ [(w, b), (w, False)]) \<noteq> None \<and>
   cas_loop Lock_body old (env @ [(w, b), (w, False)]) \<noteq> None \<and>
   cas_loop UnLock_body old (env @ [(w, b), (w, False)]) \<noteq> None"
  by (simp only: cas_loop_returns simp_thms)

text \<open>The increments that failed pins leave on a busy entry are lost when it is unlocked: the
  holder of the lock hands back the same entry as if nobody had tried.\<close>

theorem failed_pins_erased_by_UnLock:
  assumes "pte_busy w" and "unat (pte_ref_count w) + n < 65536"
  shows "pte_UnLock (((\<lambda>w. snd (IncRefCount1 p fd w)) ^^ n) w) = pte_UnLock w \<and>
    \<not> fst (IncRefCount1 p fd w)"
  using UnLock_forgets_count [OF IncRefCount1_busy_funpow [OF assms] assms(1)] assms(1)
  by (simp add: IncRefCount1_def)

lemma failed_pins_erased_by_UnLock_witness:
  "pte_UnLock (((\<lambda>w. snd (IncRefCount1 7 2 w)) ^^ 3) (mk_pte 0 2 True False True 7)) =
   pte_UnLock (mk_pte 0 2 True False True 7)"
  using failed_pins_erased_by_UnLock [of "mk_pte 0 2 True False True 7" 3 7 2] by (simp add: pt_simps)

text \<open>The 65,536th simultaneous pin overflows the 16-bit count: the count becomes 0 and the carry
  changes the file handle, so the entry claims to hold a page of the next file.\<close>

theorem IncRefCount_overflow:
  assumes "pte_ref_count w = 65535" "pte_fd_cur w < 8191" "\<not> pte_busy w"
  shows "map_prod id ToUnpacked (IncRefCount (pte_fpage_id_cur w) (pte_fd_cur w) w) =
    (True, (ToUnpacked w)\<lparr>ref_count := 0, fd_cur := pte_fd_cur w + 1\<rparr>)"
  using inc_carry [OF assms(1,2)] assms(3)
  by (simp add: IncRefCount_def cas_seq_def IncRefCount_body_def)

lemma IncRefCount_overflow_witness:
  "map_prod id ToUnpacked (IncRefCount 7 2 (mk_pte 65535 2 True False False 7)) =
    (True, (ToUnpacked (mk_pte 65535 2 True False False 7))\<lparr>ref_count := 0, fd_cur := 3\<rparr>)"
  using IncRefCount_overflow [of "mk_pte 65535 2 True False False 7"] by (simp add: pt_simps)

text \<open>The file handle field has 13 bits, so a page of a file whose handle is 8192 or more can
  never be pinned, not even right after the entry has been filled for that file.\<close>

theorem wide_file_handle_never_pinned:
  assumes "8192 \<le> fd"
  shows "IncRefCount p fd (set_fpage_id_cur p (set_fd_cur fd w)) =
    (False, set_fpage_id_cur p (set_fd_cur fd w)) \<and> IncRefCount p fd v = (False, v)"
proof -
  have "pte_fd_cur u \<noteq> fd" for u using pte_fd_cur_less [of u] assms by auto
  then show ?thesis by (simp add: IncRefCount_def cas_seq_def IncRefCount_body_def)
qed

lemma wide_file_handle_never_pinned_witness:
  "IncRefCount 7 8192 (set_fpage_id_cur 7 (set_fd_cur 8192 0)) = (False, set_fpage_id_cur 7 (set_fd_cur 8192 0))"
  using wide_file_handle_never_pinned [of 8192 7 0] by simp

text \<open>A pin followed by an unpin leaves the entry as it was, except that the unpin of a writer
  marks it dirty.\<close>

theorem pin_unpin_roundtrip:
  assumes "IncRefCount p fd w = (True, w')" "pte_ref_count w < 65535"
  shows "DecRefCount w' = w \<and> DecRefCount_write False False w' = w \<and>
    DecRefCount_write True False w' = set_dirty True w"
proof -
  have w': "w' = w + 1"
    using assms(1) by (auto simp: IncRefCount_def cas_seq_def IncRefCount_body_def split: if_splits)
  have "pte_ref_count w' \<noteq> 0"
    using inc_fields(1) [OF assms(2)] assms(2) unfolding w'
    by (simp add: word_less_nat_alt word_unat_eq_iff unat_word_ariths)
  from DecRefCount_write_unpacked [OF this, of True False]
  have "ToUnpacked (DecRefCount_write True False w') = ToUnpacked (set_dirty True w)"
    using ToUnpacked_add_one [OF assms(2)] inc_fields [OF assms(2)]
    by (simp add: w' ToUnpacked_set) (simp add: ToUnpacked_def)
  then show ?thesis by (simp add: w' DecRefCount_def DecRefCount_write_def ToUnpacked_inject)
qed

lemma pin_unpin_roundtrip_witness:
  "DecRefCount_write True False (snd (IncRefCount 7 2 (mk_pte 4 2 True False False 7))) =
   mk_pte 4 2 True True False 7"
proof -
  have e: "IncRefCount 7 2 (mk_pte 4 2 True False False 7) = (True, mk_pte 5 2 True False False 7)"
    by code_simp
  show ?thesis
    using pin_unpin_roundtrip [OF e] unfolding e by (simp add: pt_simps) code_simp
qed

end
