(* ===== verification/Partitioner.thy ===== *)
theory Partitioner
  imports PTE
begin

text \<open>
  \<open>RoundRobinPartitioner\<close> of \<^verbatim>\<open>include/partitioner.h\<close>: file page \<open>p\<close> belongs to partition
  \<open>p mod n\<close> and is page \<open>p div n\<close> of that partition; the code computes both with a mask and a shift,
  which is the same for a power of two.
\<close>

type_synonym partition_id = u32

record partitioner =
  num_partitions :: u32
  log2_num_partitions :: u32

text \<open>\<open>std::log2\<close> rounded down to an integer, for a positive argument.\<close>

fun floor_log2 :: "nat \<Rightarrow> nat" where
  "floor_log2 n = (if n \<le> 1 then 0 else Suc (floor_log2 (n div 2)))"

declare floor_log2.simps [simp del]

definition partitioner_new :: "u32 \<Rightarrow> partitioner res" where
  "partitioner_new n =
     (let l = word_of_nat (floor_log2 (unat n)) in
      bindE (assertE (n = push_bit (unat l) 1)) (\<lambda>_.
      Inr \<lparr>num_partitions = n, log2_num_partitions = l\<rparr>))"

definition GetPartitionId :: "partitioner \<Rightarrow> fpage_id \<Rightarrow> partition_id" where
  "GetPartitionId pr p = p AND (num_partitions pr - 1)"

definition GetFPageIdInPartition :: "partitioner \<Rightarrow> fpage_id \<Rightarrow> fpage_id" where
  "GetFPageIdInPartition pr p = drop_bit (unat (log2_num_partitions pr)) p"

definition partition_of :: "partitioner \<Rightarrow> fpage_id \<Rightarrow> partition_id \<times> fpage_id" where
  "partition_of pr p =
     (p AND (num_partitions pr - 1), drop_bit (unat (log2_num_partitions pr)) p)"

definition GetFPageIdGlobal :: "partitioner \<Rightarrow> partition_id \<Rightarrow> fpage_id \<Rightarrow> fpage_id" where
  "GetFPageIdGlobal pr partition_id p = partition_id + p * num_partitions pr"

definition NumFPage :: "partitioner \<Rightarrow> partition_id \<Rightarrow> u32 res" where
  "NumFPage pr partition_id = bindE (assertE False) (\<lambda>_. Inr 100)"

section \<open>Mask and shift are remainder and quotient\<close>

definition partitioner_wf :: "partitioner \<Rightarrow> bool" where
  "partitioner_wf pr \<longleftrightarrow> unat (log2_num_partitions pr) < 32 \<and>
     num_partitions pr = push_bit (unat (log2_num_partitions pr)) 1"

lemma floor_log2_pow: "floor_log2 (2 ^ k) = k"
proof (induction k)
  case (Suc k)
  have "floor_log2 (2 ^ Suc k) = Suc (floor_log2 (2 ^ Suc k div 2))"
    using one_less_power [of "2::nat" "Suc k"] by (subst floor_log2.simps) simp
  then show ?case using Suc by simp
qed (simp add: floor_log2.simps)

lemma unat_push_bit_one: "k < 32 \<Longrightarrow> unat (push_bit k (1 :: u32)) = 2 ^ k"
proof -
  assume "k < 32"
  then have "(2::nat) ^ k < 2 ^ 32" by (rule power_strict_increasing) simp
  then show "unat (push_bit k (1 :: u32)) = 2 ^ k"
    by (subst unsigned_push_bit_eq) (simp add: take_bit_eq_mod)
qed

lemma floor_log2_le: "0 < n \<Longrightarrow> 2 ^ floor_log2 n \<le> n"
proof (induction n rule: floor_log2.induct)
  case (1 n)
  show ?case
  proof (cases "n \<le> 1")
    case False
    then have "2 ^ floor_log2 (n div 2) \<le> n div 2" using "1.IH" by simp
    then show ?thesis using False by (subst floor_log2.simps) simp
  qed (use "1.prems" in \<open>simp add: floor_log2.simps\<close>)
qed

lemma floor_log2_less: "n < 2 ^ k \<Longrightarrow> 0 < k \<Longrightarrow> floor_log2 n < k"
proof (cases "n = 0")
  case False
  assume "n < 2 ^ k"
  with floor_log2_le [of n] False have "(2::nat) ^ floor_log2 n < 2 ^ k" by linarith
  then show "floor_log2 n < k" by simp
qed (simp add: floor_log2.simps)

lemma partitioner_new_wf: "partitioner_new n = Inr pr \<Longrightarrow> partitioner_wf pr \<and> num_partitions pr = n"
proof -
  assume a: "partitioner_new n = Inr pr"
  have "floor_log2 (unat n) < 32"
    using unsigned_less [of n, where 'a = nat] by (intro floor_log2_less) simp_all
  then have "unat (word_of_nat (floor_log2 (unat n)) :: u32) = floor_log2 (unat n)"
    by (simp add: unat_of_nat)
  with a \<open>floor_log2 (unat n) < 32\<close> show ?thesis
    by (auto simp: partitioner_new_def Let_def bindE_eq_Inr partitioner_wf_def)
qed

lemma partitioner_new_fails:
  "(\<exists>pr. partitioner_new n = Inr pr) \<longleftrightarrow> (\<exists>k<32. unat n = 2 ^ k)"
proof
  assume "\<exists>pr. partitioner_new n = Inr pr"
  then obtain pr where "partitioner_wf pr" "num_partitions pr = n"
    using partitioner_new_wf by blast
  then show "\<exists>k<32. unat n = 2 ^ k"
    using unat_push_bit_one unfolding partitioner_wf_def by metis
next
  assume "\<exists>k<32. unat n = 2 ^ k"
  then obtain k where k: "k < 32" "unat n = 2 ^ k" by blast
  then have "n = push_bit k 1"
    using unat_push_bit_one by (metis word_unat_eq_iff)
  moreover have "unat (word_of_nat k :: u32) = k" using k by (simp add: unat_of_nat)
  ultimately show "\<exists>pr. partitioner_new n = Inr pr"
    using k by (simp add: partitioner_new_def floor_log2_pow Let_def)
qed

lemma unat_num_partitions:
  "partitioner_wf pr \<Longrightarrow> unat (num_partitions pr) = 2 ^ unat (log2_num_partitions pr)"
  using unat_push_bit_one by (simp add: partitioner_wf_def del: push_bit_of_1)

lemma unat_GetPartitionId:
  assumes "partitioner_wf pr"
  shows "unat (GetPartitionId pr p) = unat p mod unat (num_partitions pr)"
proof -
  have "num_partitions pr - 1 = mask (unat (log2_num_partitions pr))"
    using assms by (simp add: partitioner_wf_def mask_eq_exp_minus_1)
  then have "GetPartitionId pr p = take_bit (unat (log2_num_partitions pr)) p"
    by (simp only: GetPartitionId_def take_bit_eq_mask)
  then have "unat (GetPartitionId pr p) = take_bit (unat (log2_num_partitions pr)) (unat p)"
    by (simp only: unsigned_take_bit_eq)
  then show ?thesis by (simp only: unat_num_partitions [OF assms] take_bit_eq_mod)
qed

lemma unat_GetFPageIdInPartition:
  assumes "partitioner_wf pr"
  shows "unat (GetFPageIdInPartition pr p) = unat p div unat (num_partitions pr)"
proof -
  have "unat (GetFPageIdInPartition pr p) = drop_bit (unat (log2_num_partitions pr)) (unat p)"
    by (simp only: GetFPageIdInPartition_def unat_drop_bit_eq)
  then show ?thesis by (simp only: unat_num_partitions [OF assms] drop_bit_eq_div)
qed

section \<open>Properties\<close>

text \<open>C29: for a number of partitions that the constructor accepts, the mask and the shift split a file
  page number into remainder and quotient, the two partition functions agree, and
  \<open>GetFPageIdGlobal\<close> puts the number together again, in both directions.\<close>

theorem partition_roundtrip:
  assumes "partitioner_new n = Inr pr"
  shows "partition_of pr p = (GetPartitionId pr p, GetFPageIdInPartition pr p) \<and>
    unat (GetPartitionId pr p) = unat p mod unat n \<and>
    unat (GetFPageIdInPartition pr p) = unat p div unat n \<and>
    GetFPageIdGlobal pr (GetPartitionId pr p) (GetFPageIdInPartition pr p) = p \<and>
    (unat c < unat n \<and> unat q * unat n + unat c < 2 ^ 32 \<longrightarrow>
      partition_of pr (GetFPageIdGlobal pr c q) = (c, q))"
proof -
  have wf: "partitioner_wf pr" and n: "num_partitions pr = n"
    using partitioner_new_wf [OF assms] by auto
  note u = unat_GetPartitionId [OF wf] unat_GetFPageIdInPartition [OF wf]
  have o: "partition_of pr p = (GetPartitionId pr p, GetFPageIdInPartition pr p)" for p
    by (simp add: partition_of_def GetPartitionId_def GetFPageIdInPartition_def)
  have u1: "unat (GetPartitionId pr p) = unat p mod unat n"
    "unat (GetFPageIdInPartition pr p) = unat p div unat n"
    by (simp_all add: u n)
  have "unat (GetFPageIdGlobal pr (GetPartitionId pr p) (GetFPageIdInPartition pr p)) = unat p"
    unfolding GetFPageIdGlobal_def by (subst unat_add_mult_u32) (simp_all add: u n u32_less)
  then have glob: "GetFPageIdGlobal pr (GetPartitionId pr p) (GetFPageIdInPartition pr p) = p"
    by (simp only: word_unat_eq_iff)
  have "partition_of pr (GetFPageIdGlobal pr c q) = (c, q)"
    if c: "unat c < unat n" and q: "unat q * unat n + unat c < 2 ^ 32"
  proof -
  have g: "unat (GetFPageIdGlobal pr c q) = unat c + unat q * unat n"
    unfolding GetFPageIdGlobal_def n using q by (intro unat_add_mult_u32) simp
  have "unat (GetPartitionId pr (GetFPageIdGlobal pr c q)) = unat c"
    unfolding u g n using c by (simp only: mod_mult_self1 mod_less)
  moreover have "unat (GetFPageIdInPartition pr (GetFPageIdGlobal pr c q)) = unat q"
    unfolding u g n using c by (simp only: div_mult_self1 div_less add_0_right)
  ultimately show ?thesis unfolding o by (simp only: word_unat_eq_iff prod.inject)
  qed
  then show ?thesis using o u1 glob by blast
qed

lemma partition_roundtrip_witness:
  "unat (GetPartitionId \<lparr>num_partitions = 4, log2_num_partitions = 2\<rparr> 11) = 3 \<and>
   partition_of \<lparr>num_partitions = 4, log2_num_partitions = 2\<rparr>
     (GetFPageIdGlobal \<lparr>num_partitions = 4, log2_num_partitions = 2\<rparr> 3 2) = (3, 2)"
proof
  have e: "partitioner_new 4 = Inr \<lparr>num_partitions = 4, log2_num_partitions = 2\<rparr>" by code_simp
  show "unat (GetPartitionId \<lparr>num_partitions = 4, log2_num_partitions = 2\<rparr> 11) = 3"
    using partition_roundtrip [OF e, of 11] by simp
  show "partition_of \<lparr>num_partitions = 4, log2_num_partitions = 2\<rparr>
     (GetFPageIdGlobal \<lparr>num_partitions = 4, log2_num_partitions = 2\<rparr> 3 2) = (3, 2)"
    using partition_roundtrip [OF e, of 0 3 2] by simp
qed

text \<open>The constructor passes its assertion exactly for the powers of two below \<open>2 ^ 32\<close>.\<close>

theorem partitioner_accepts_powers_of_two:
  "(\<exists>pr. partitioner_new n = Inr pr) \<longleftrightarrow> (\<exists>k<32. unat n = 2 ^ k)"
  by (rule partitioner_new_fails)

end
