(* ===== verification/PageTable.thy ===== *)
theory PageTable
  imports Partitioner
begin

text \<open>
  The page table of one buffer pool (\<^verbatim>\<open>include/page_table.h\<close>): per registered file an array of
  32-bit mapping words (31 bits of memory page id and a \<open>visited\<close> bit), and one page-table entry
  per memory page.  Two reserved ids mean "not in memory" and "locked".  Frames (memory page ids)
  are natural numbers; a store into the 31-bit field truncates them.
\<close>

type_synonym mpage_id = nat
type_synonym mapping = u32

section \<open>Mapping words\<close>

definition EMPTY_VALUE :: mpage_id where
  "EMPTY_VALUE = 2147483647"

definition BUSY_VALUE :: mpage_id where
  "BUSY_VALUE = 2147483646"

definition map_mpage_id :: "mapping \<Rightarrow> mpage_id" where
  "map_mpage_id w = unat (take_bit 31 w)"

definition map_visited :: "mapping \<Rightarrow> bool" where
  "map_visited w = bit w 31"

definition set_mpage_id :: "mpage_id \<Rightarrow> mapping \<Rightarrow> mapping" where
  "set_mpage_id m w = (w AND NOT (mask 31)) OR take_bit 31 (word_of_nat m)"

definition set_visited :: "bool \<Rightarrow> mapping \<Rightarrow> mapping" where
  "set_visited b w = (if b then set_bit 31 w else unset_bit 31 w)"

definition EMPTY_MAPPING :: mapping where
  "EMPTY_MAPPING = set_mpage_id EMPTY_VALUE (set_visited False 0)"

definition mapping_Clean :: "mapping \<Rightarrow> bool \<times> mapping" where
  "mapping_Clean w = (True, EMPTY_MAPPING)"

definition FindMapping_word :: "mapping \<Rightarrow> bool \<times> mpage_id" where
  "FindMapping_word w =
     (if map_mpage_id w = EMPTY_VALUE \<or> map_mpage_id w = BUSY_VALUE then (False, map_mpage_id w)
      else (True, map_mpage_id w))"

definition CreateMapping_body :: "mpage_id \<Rightarrow> mapping \<Rightarrow> (mapping, bool) cas_body" where
  "CreateMapping_body m w =
     (if map_mpage_id w \<noteq> BUSY_VALUE then GiveUp False
      else Propose (set_visited False (set_mpage_id m w)) True)"

definition DeleteMapping_body :: "mapping \<Rightarrow> (mapping, bool) cas_body" where
  "DeleteMapping_body w =
     (if map_mpage_id w \<noteq> BUSY_VALUE then GiveUp False
      else Propose (set_mpage_id EMPTY_VALUE w) True)"

definition LockMapping_body :: "mapping \<Rightarrow> (mapping, bool \<times> mpage_id) cas_body" where
  "LockMapping_body w =
     (if map_mpage_id w = BUSY_VALUE then GiveUp (False, map_mpage_id w)
      else Propose (set_mpage_id BUSY_VALUE w) (True, map_mpage_id w))"

section \<open>The mapping array of a file\<close>

text \<open>
  The array is allocated in whole cache lines; the words past \<open>size_\<close> are never initialised, and
  reaching them counts as out of bounds.
\<close>

record page_mapping =
  pm_mappings :: "mapping list"
  pm_size :: u32

definition pm_update ::
  "page_mapping \<Rightarrow> fpage_id \<Rightarrow> (mapping \<Rightarrow> (mapping, 'r) cas_body) \<Rightarrow> ('r \<times> page_mapping) res" where
  "pm_update pm q body =
     bindE (arr_get (pm_mappings pm) (unat q)) (\<lambda>w.
     Inr (fst (cas_seq body w),
          pm\<lparr>pm_mappings := (pm_mappings pm)[unat q := snd (cas_seq body w)]\<rparr>))"

definition pm_FindMapping :: "page_mapping \<Rightarrow> fpage_id \<Rightarrow> (bool \<times> mpage_id) res" where
  "pm_FindMapping pm q = bindE (arr_get (pm_mappings pm) (unat q)) (\<lambda>w. Inr (FindMapping_word w))"

definition pm_CreateMapping :: "page_mapping \<Rightarrow> fpage_id \<Rightarrow> mpage_id \<Rightarrow> (bool \<times> page_mapping) res" where
  "pm_CreateMapping pm q m = pm_update pm q (CreateMapping_body m)"

definition pm_DeleteMapping :: "page_mapping \<Rightarrow> fpage_id \<Rightarrow> (bool \<times> page_mapping) res" where
  "pm_DeleteMapping pm q = pm_update pm q DeleteMapping_body"

definition pm_LockMapping :: "page_mapping \<Rightarrow> fpage_id \<Rightarrow> ((bool \<times> mpage_id) \<times> page_mapping) res" where
  "pm_LockMapping pm q = pm_update pm q LockMapping_body"

definition pm_Resize :: "page_mapping \<Rightarrow> u32 \<Rightarrow> bool \<times> page_mapping" where
  "pm_Resize pm new_size =
     (if new_size \<le> pm_size pm then (True, pm)
      else if new_size = 0 then (True, pm\<lparr>pm_mappings := [], pm_size := new_size\<rparr>)
      else (True, pm\<lparr>pm_mappings := map (\<lambda>i. if i < unat (pm_size pm) then pm_mappings pm ! i
                                             else snd (mapping_Clean 0)) [0..<unat new_size],
                     pm_size := new_size\<rparr>))"

definition pm_new :: "u32 \<Rightarrow> page_mapping" where
  "pm_new n = snd (pm_Resize \<lparr>pm_mappings = [], pm_size = 0\<rparr> n)"

definition pm_destroy :: "page_mapping \<Rightarrow> page_mapping" where
  "pm_destroy pm = snd (pm_Resize pm 0)"

definition pm_GetMemoryUsage :: "page_mapping \<Rightarrow> nat" where
  "pm_GetMemoryUsage pm = unat (pm_size pm) * 4"

section \<open>The table\<close>

record page_table_inner =
  pti_pool :: "pte list"
  pti_num_pages :: nat

definition pti_new :: "nat \<Rightarrow> page_table_inner" where
  "pti_new n = \<lparr>pti_pool = map (\<lambda>i. pte_Clean 0) [0..<n], pti_num_pages = n\<rparr>"

definition pti_GetMemoryUsage :: "page_table_inner \<Rightarrow> nat" where
  "pti_GetMemoryUsage pti = pti_num_pages pti * 8"

record page_table =
  pt_mappings :: "page_mapping option list"
  pt_partitioner :: partitioner
  pt_inner :: page_table_inner

definition pt_new :: "nat \<Rightarrow> partitioner \<Rightarrow> page_table" where
  "pt_new mpage_num pr = \<lparr>pt_mappings = [], pt_partitioner = pr, pt_inner = pti_new mpage_num\<rparr>"

definition FromPageId :: "page_table \<Rightarrow> mpage_id \<Rightarrow> pte res" where
  "FromPageId pt m = arr_get (pti_pool (pt_inner pt)) m"

text \<open>A store through the pointer that \<open>FromPageId\<close> returns.\<close>

definition put_pte :: "page_table \<Rightarrow> mpage_id \<Rightarrow> pte \<Rightarrow> page_table" where
  "put_pte pt m w = pt\<lparr>pt_inner := (pt_inner pt)\<lparr>pti_pool := (pti_pool (pt_inner pt))[m := w]\<rparr>\<rparr>"

definition pt_GetRefCount :: "page_table \<Rightarrow> mpage_id \<Rightarrow> u16 res" where
  "pt_GetRefCount pt m = bindE (FromPageId pt m) (\<lambda>w. Inr (pte_ref_count w))"

definition get_file :: "page_table \<Rightarrow> file_handle \<Rightarrow> page_mapping res" where
  "get_file pt fd = bindE (arr_get (pt_mappings pt) (unat fd))
     (\<lambda>f. case f of None \<Rightarrow> Inl NullDeref | Some pm \<Rightarrow> Inr pm)"

definition put_file :: "page_table \<Rightarrow> file_handle \<Rightarrow> page_mapping \<Rightarrow> page_table" where
  "put_file pt fd pm = pt\<lparr>pt_mappings := (pt_mappings pt)[unat fd := Some pm]\<rparr>"

text \<open>\<open>pool_num\<close> is the global number of pools, over which the pages of a file are spread.\<close>

definition pt_RegisterFile :: "nat \<Rightarrow> page_table \<Rightarrow> u32 \<Rightarrow> bool \<times> page_table" where
  "pt_RegisterFile pool_num pt file_size_in_page =
     (True, pt\<lparr>pt_mappings := pt_mappings pt @
        [Some (pm_new (word_of_nat (ceil_div (unat file_size_in_page) pool_num)))]\<rparr>)"

definition pt_DeregisterFile :: "page_table \<Rightarrow> file_handle \<Rightarrow> (bool \<times> page_table) res" where
  "pt_DeregisterFile pt fd =
     bindE (arr_set (pt_mappings pt) (unat fd) None) (\<lambda>ms. Inr (True, pt\<lparr>pt_mappings := ms\<rparr>))"

definition pt_ResizeFile :: "page_table \<Rightarrow> file_handle \<Rightarrow> u32 \<Rightarrow> (bool \<times> page_table) res" where
  "pt_ResizeFile pt fd n =
     bindE (get_file pt fd) (\<lambda>pm.
     Inr (fst (pm_Resize pm n), put_file pt fd (snd (pm_Resize pm n))))"

definition FindMapping :: "page_table \<Rightarrow> file_handle \<Rightarrow> fpage_id \<Rightarrow> (bool \<times> mpage_id) res" where
  "FindMapping pt fd p =
     bindE (get_file pt fd) (\<lambda>pm. pm_FindMapping pm (GetFPageIdInPartition (pt_partitioner pt) p))"

definition CreateMapping ::
  "page_table \<Rightarrow> file_handle \<Rightarrow> fpage_id \<Rightarrow> mpage_id \<Rightarrow> (bool \<times> page_table) res" where
  "CreateMapping pt fd p m =
     bindE (get_file pt fd) (\<lambda>pm.
     bindE (pm_CreateMapping pm (GetFPageIdInPartition (pt_partitioner pt) p) m) (\<lambda>(r, pm).
     Inr (r, put_file pt fd pm)))"

definition DeleteMapping ::
  "page_table \<Rightarrow> file_handle \<Rightarrow> fpage_id \<Rightarrow> mpage_id \<Rightarrow> (bool \<times> page_table) res" where
  "DeleteMapping pt fd p m =
     bindE (get_file pt fd) (\<lambda>pm.
     bindE (pm_DeleteMapping pm (GetFPageIdInPartition (pt_partitioner pt) p)) (\<lambda>(r, pm).
     Inr (r, put_file pt fd pm)))"

text \<open>
  \<open>LockMapping\<close> locks the mapping word, then the entry it points to; when the entry is pinned the
  mapping is put back, and the call inside \<open>assert\<close> is evaluated because the build keeps assertions.
\<close>

definition LockMapping ::
  "page_table \<Rightarrow> file_handle \<Rightarrow> fpage_id \<Rightarrow> ((bool \<times> mpage_id) \<times> page_table) res" where
  "LockMapping pt fd p =
     bindE (get_file pt fd) (\<lambda>pm.
     bindE (pm_LockMapping pm (GetFPageIdInPartition (pt_partitioner pt) p)) (\<lambda>((success, m), pm).
     let pt = put_file pt fd pm in
     if \<not> success then Inr ((False, 0), pt)
     else if m = EMPTY_VALUE then Inr ((True, m), pt)
     else bindE (FromPageId pt m) (\<lambda>w.
       let (locked, w') = pte_Lock w; pt = put_pte pt m w' in
       if \<not> locked then
         bindE (CreateMapping pt fd p m) (\<lambda>(ok, pt).
         bindE (assertE ok) (\<lambda>_. Inr ((False, 0), pt)))
       else Inr ((True, m), pt))))"

definition UnLockMapping ::
  "page_table \<Rightarrow> file_handle \<Rightarrow> fpage_id \<Rightarrow> mpage_id \<Rightarrow> (bool \<times> page_table) res" where
  "UnLockMapping pt fd p m =
     bindE (if m \<noteq> EMPTY_VALUE then
         bindE (FromPageId pt m) (\<lambda>w.
         if pte_fpage_id_cur w \<noteq> p \<and> pte_fd_cur w = fd then Inr (False, pt)
         else Inr (fst (pte_UnLock w), put_pte pt m (snd (pte_UnLock w))))
       else Inr (True, pt)) (\<lambda>(go_on, pt).
     if \<not> go_on then Inr (False, pt)
     else bindE (CreateMapping pt fd p m) (\<lambda>(ok, pt). Inr (ok, pt)))"

definition pt_GetMemoryUsage :: "page_table \<Rightarrow> nat" where
  "pt_GetMemoryUsage pt =
     sum_list (map (\<lambda>f. case f of None \<Rightarrow> 0 | Some pm \<Rightarrow> pm_GetMemoryUsage pm) (pt_mappings pt)) +
     pti_GetMemoryUsage (pt_inner pt)"

section \<open>Words that hold an id and no visited mark\<close>

text \<open>
  No operation sets the \<open>visited\<close> bit, so every mapping word of a running table is the number of
  the id it holds.
\<close>

definition mword :: "mpage_id \<Rightarrow> mapping" where
  "mword m = word_of_nat m"

lemma bit_set_mpage_id: "bit (set_mpage_id m w) n \<longleftrightarrow> (if n < 31 then bit (word_of_nat m :: u32) n else bit w n)"
  by (auto simp: set_mpage_id_def bit_simps not_le dest: bit_imp_le_length)

lemma bit_mword_31:
  assumes "m < 2147483648"
  shows "\<not> bit (mword m) 31"
proof -
  have "m div 2 ^ 31 = 0" using assms by simp
  then have "\<not> bit m 31" by (simp only: bit_iff_odd) simp
  then show ?thesis by (simp only: mword_def bit_of_nat_iff simp_thms)
qed

lemma map_mpage_id_mword [pt_simps]:
  assumes "m < 2147483648"
  shows "map_mpage_id (mword m) = m"
proof -
  have "m mod 2 ^ 32 = m" "m mod 2 ^ 31 = m" using assms by simp_all
  moreover have "unat (take_bit 31 (mword m)) = take_bit 31 (unat (mword m))"
    by (simp only: unsigned_take_bit_eq)
  ultimately show ?thesis by (simp add: map_mpage_id_def mword_def unat_of_nat take_bit_eq_mod)
qed

lemma set_mpage_id_mword [pt_simps]:
  assumes "m < 2147483648" "m' < 2147483648"
  shows "set_mpage_id m' (mword m) = mword m'"
proof (rule bit_word_eqI)
  fix n assume n: "n < LENGTH(32)"
  show "bit (set_mpage_id m' (mword m)) n = bit (mword m') n"
    using assms [THEN bit_mword_31] n
    by (cases "n = 31") (auto simp: bit_set_mpage_id mword_def)
qed

lemma set_visited_mword [pt_simps]: "m < 2147483648 \<Longrightarrow> set_visited False (mword m) = mword m"
  using bit_mword_31 [of m] by (auto intro!: bit_word_eqI simp: set_visited_def bit_simps)

lemma EMPTY_MAPPING_mword: "EMPTY_MAPPING = mword EMPTY_VALUE"
proof -
  have "set_visited False 0 = mword 0"
    by (auto intro!: bit_word_eqI simp: set_visited_def bit_simps mword_def)
  then show ?thesis by (simp add: EMPTY_MAPPING_def pt_simps EMPTY_VALUE_def)
qed

lemma ids_less [simp]: "EMPTY_VALUE < 2147483648" "BUSY_VALUE < 2147483648" "EMPTY_VALUE \<noteq> BUSY_VALUE"
  "BUSY_VALUE \<noteq> EMPTY_VALUE"
  by (simp_all add: EMPTY_VALUE_def BUSY_VALUE_def)

section \<open>The operations on the table as updates of one word and one entry\<close>

definition pt_word :: "page_table \<Rightarrow> file_handle \<Rightarrow> fpage_id \<Rightarrow> mapping option" where
  "pt_word pt fd p =
     (if unat fd < length (pt_mappings pt)
      then case pt_mappings pt ! unat fd of
          None \<Rightarrow> None
        | Some pm \<Rightarrow>
            let q = unat (GetFPageIdInPartition (pt_partitioner pt) p)
            in if q < length (pm_mappings pm) then Some (pm_mappings pm ! q) else None
      else None)"

definition set_word :: "page_table \<Rightarrow> file_handle \<Rightarrow> fpage_id \<Rightarrow> mapping \<Rightarrow> page_table" where
  "set_word pt fd p w =
     (case pt_mappings pt ! unat fd of
        None \<Rightarrow> pt
      | Some pm \<Rightarrow> put_file pt fd (pm\<lparr>pm_mappings :=
          (pm_mappings pm)[unat (GetFPageIdInPartition (pt_partitioner pt) p) := w]\<rparr>))"

definition same_slot :: "page_table \<Rightarrow> file_handle \<Rightarrow> fpage_id \<Rightarrow> file_handle \<Rightarrow> fpage_id \<Rightarrow> bool" where
  "same_slot pt fd p fd' p' \<longleftrightarrow> fd = fd' \<and>
     GetFPageIdInPartition (pt_partitioner pt) p = GetFPageIdInPartition (pt_partitioner pt) p'"

lemma same_slot_refl [simp]: "same_slot pt fd p fd p"
  by (simp add: same_slot_def)

lemma same_slot_word: "same_slot pt fd p fd' p' \<Longrightarrow> pt_word pt fd p = pt_word pt fd' p'"
  unfolding same_slot_def pt_word_def by (elim conjE) (simp only:)

lemma pt_word_SomeE:
  assumes "pt_word pt fd p = Some w"
  obtains pm where "unat fd < length (pt_mappings pt)" "pt_mappings pt ! unat fd = Some pm"
    "unat (GetFPageIdInPartition (pt_partitioner pt) p) < length (pm_mappings pm)"
    "pm_mappings pm ! unat (GetFPageIdInPartition (pt_partitioner pt) p) = w"
  using assms by (auto simp: pt_word_def Let_def split: if_splits option.splits)

lemma pt_word_set_word [pt_simps]:
  assumes "pt_word pt fd p = Some w"
  shows "pt_word (set_word pt fd p w') fd' p' =
    (if same_slot pt fd p fd' p' then Some w' else pt_word pt fd' p')"
  using assms
  by (elim pt_word_SomeE)
    (auto simp: pt_word_def set_word_def put_file_def same_slot_def Let_def nth_list_update
      word_unat_eq_iff split: option.split)

lemma set_word_same [pt_simps]: "pt_word pt fd p = Some w \<Longrightarrow> set_word pt fd p w = pt"
  by (elim pt_word_SomeE) (simp add: set_word_def put_file_def)

lemma set_word_set_word [pt_simps]:
  "pt_word pt fd p = Some w \<Longrightarrow> set_word (set_word pt fd p w1) fd p w2 = set_word pt fd p w2"
  by (elim pt_word_SomeE) (simp add: set_word_def put_file_def)

lemma set_word_fields [pt_simps]:
  "pt_partitioner (set_word pt fd p w) = pt_partitioner pt" "pt_inner (set_word pt fd p w) = pt_inner pt"
  "length (pt_mappings (set_word pt fd p w)) = length (pt_mappings pt)"
  by (simp_all add: set_word_def put_file_def split: option.splits)

lemma put_pte_fields [pt_simps]:
  "pt_partitioner (put_pte pt m v) = pt_partitioner pt" "pt_mappings (put_pte pt m v) = pt_mappings pt"
  "pt_word (put_pte pt m v) fd p = pt_word pt fd p"
  "set_word (put_pte pt m v) fd p w = put_pte (set_word pt fd p w) m v"
  by (simp_all add: put_pte_def pt_word_def set_word_def put_file_def split: option.splits)

definition frames :: "page_table \<Rightarrow> nat" where
  "frames pt = length (pti_pool (pt_inner pt))"

definition pte_of :: "page_table \<Rightarrow> mpage_id \<Rightarrow> pte" where
  "pte_of pt m = pti_pool (pt_inner pt) ! m"

lemma FromPageId_pte_of [pt_simps]: "m < frames pt \<Longrightarrow> FromPageId pt m = Inr (pte_of pt m)"
  by (simp add: FromPageId_def frames_def pte_of_def)

lemma frames_updates [pt_simps]:
  "frames (set_word pt fd p w) = frames pt" "frames (put_pte pt m v) = frames pt"
  by (simp_all add: frames_def pt_simps) (simp add: put_pte_def)

lemma pte_of_updates [pt_simps]:
  "pte_of (set_word pt fd p w) m = pte_of pt m"
  "m < frames pt \<Longrightarrow> pte_of (put_pte pt m v) m' = (if m = m' then v else pte_of pt m')"
  by (simp_all add: pte_of_def pt_simps) (simp add: put_pte_def frames_def nth_list_update)

lemma put_pte_same [pt_simps]: "pte_of pt m = v \<Longrightarrow> put_pte pt m v = pt"
  by (simp add: put_pte_def pte_of_def)

lemma put_pte_put_pte [pt_simps]: "put_pte (put_pte pt m v) m v' = put_pte pt m v'"
  by (simp add: put_pte_def)

lemma get_file_word:
  assumes "pt_word pt fd p = Some w"
  obtains pm where "get_file pt fd = Inr pm" "pt_mappings pt ! unat fd = Some pm"
    "unat (GetFPageIdInPartition (pt_partitioner pt) p) < length (pm_mappings pm)"
    "pm_mappings pm ! unat (GetFPageIdInPartition (pt_partitioner pt) p) = w"
    "\<And>w'. put_file pt fd (pm\<lparr>pm_mappings :=
        (pm_mappings pm)[unat (GetFPageIdInPartition (pt_partitioner pt) p) := w']\<rparr>) = set_word pt fd p w'"
  using assms by (elim pt_word_SomeE) (simp add: get_file_def set_word_def)

lemma FindMapping_eq [pt_simps]:
  "pt_word pt fd p = Some w \<Longrightarrow> FindMapping pt fd p = Inr (FindMapping_word w)"
  by (elim get_file_word) (simp add: FindMapping_def pm_FindMapping_def)

lemma CreateMapping_eq [pt_simps]:
  "pt_word pt fd p = Some w \<Longrightarrow> CreateMapping pt fd p m =
     (let (r, w') = cas_seq (CreateMapping_body m) w in Inr (r, set_word pt fd p w'))"
  by (elim get_file_word)
    (simp add: CreateMapping_def pm_CreateMapping_def pm_update_def Let_def case_prod_unfold)

lemma DeleteMapping_eq [pt_simps]:
  "pt_word pt fd p = Some w \<Longrightarrow> DeleteMapping pt fd p m =
     (let (r, w') = cas_seq DeleteMapping_body w in Inr (r, set_word pt fd p w'))"
  by (elim get_file_word)
    (simp add: DeleteMapping_def pm_DeleteMapping_def pm_update_def Let_def case_prod_unfold)

lemma cas_mapping [pt_simps]:
  "m < 2147483648 \<Longrightarrow> cas_seq (CreateMapping_body m) (mword BUSY_VALUE) = (True, mword m)"
  "m' < 2147483648 \<Longrightarrow> m' \<noteq> BUSY_VALUE \<Longrightarrow> cas_seq (CreateMapping_body m) (mword m') = (False, mword m')"
  "cas_seq DeleteMapping_body (mword BUSY_VALUE) = (True, mword EMPTY_VALUE)"
  "m' < 2147483648 \<Longrightarrow> m' \<noteq> BUSY_VALUE \<Longrightarrow> cas_seq DeleteMapping_body (mword m') = (False, mword m')"
  "m < 2147483648 \<Longrightarrow> m \<noteq> BUSY_VALUE \<Longrightarrow> cas_seq LockMapping_body (mword m) = ((True, m), mword BUSY_VALUE)"
  "cas_seq LockMapping_body (mword BUSY_VALUE) = ((False, BUSY_VALUE), mword BUSY_VALUE)"
  by (simp_all add: cas_seq_def CreateMapping_body_def DeleteMapping_body_def LockMapping_body_def
      pt_simps)

text \<open>Opening \<open>LockMapping\<close> after its first exchange.\<close>

lemma LockMapping_start:
  "pt_word pt fd p = Some w \<Longrightarrow> LockMapping pt fd p =
     (let ((success, m), w') = cas_seq LockMapping_body w; pt = set_word pt fd p w' in
      if \<not> success then Inr ((False, 0), pt)
      else if m = EMPTY_VALUE then Inr ((True, m), pt)
      else bindE (FromPageId pt m) (\<lambda>w.
        let (locked, w') = pte_Lock w; pt = put_pte pt m w' in
        if \<not> locked then
          bindE (CreateMapping pt fd p m) (\<lambda>(ok, pt).
          bindE (assertE ok) (\<lambda>_. Inr ((False, 0), pt)))
        else Inr ((True, m), pt)))"
  by (elim get_file_word)
    (simp add: LockMapping_def pm_LockMapping_def pm_update_def Let_def case_prod_unfold cong: if_cong)

lemma LockMapping_empty [pt_simps]:
  "pt_word pt fd p = Some (mword EMPTY_VALUE) \<Longrightarrow>
   LockMapping pt fd p = Inr ((True, EMPTY_VALUE), set_word pt fd p (mword BUSY_VALUE))"
  by (simp add: LockMapping_start pt_simps)

lemma LockMapping_busy [pt_simps]:
  "pt_word pt fd p = Some (mword BUSY_VALUE) \<Longrightarrow> LockMapping pt fd p = Inr ((False, 0), pt)"
  by (simp add: LockMapping_start pt_simps)

text \<open>A resident page: \<open>m\<close> is its frame.\<close>

definition lockable :: "pte \<Rightarrow> bool" where
  "lockable w \<longleftrightarrow> \<not> pte_busy w \<and> (pte_ref_count w = 0 \<or> \<not> pte_initialized w)"

lemma pte_Lock_eq: "pte_Lock w = (if lockable w then (True, set_busy True w) else (False, w))"
  by (auto simp: pte_Lock_def cas_seq_def Lock_body_def lockable_def)

lemma pte_UnLock_eq:
  "pte_UnLock w = (if pte_busy w then (True, set_ref_count 0 (set_busy False w)) else (False, w))"
  by (auto simp: pte_UnLock_def cas_seq_def UnLock_body_def)

lemma LockMapping_resident:
  assumes w: "pt_word pt fd p = Some (mword m)" and m: "m < frames pt" "frames pt \<le> BUSY_VALUE"
  shows "LockMapping pt fd p =
    (if lockable (pte_of pt m)
     then Inr ((True, m), put_pte (set_word pt fd p (mword BUSY_VALUE)) m (set_busy True (pte_of pt m)))
     else Inr ((False, 0), pt))"
proof -
  have l: "m < 2147483648" "m \<noteq> BUSY_VALUE" "m \<noteq> EMPTY_VALUE"
    using m by (simp_all add: BUSY_VALUE_def EMPTY_VALUE_def)
  then show ?thesis
    using m by (auto simp: LockMapping_start [OF w] pte_Lock_eq pt_simps w)
qed

lemma UnLockMapping_locked:
  assumes w: "pt_word pt fd p = Some (mword BUSY_VALUE)" and m: "m < frames pt" "frames pt \<le> BUSY_VALUE"
    and v: "pte_of pt m = set_busy True v" "pte_fpage_id_cur v = p" and nb: "\<not> pte_busy v"
  shows "UnLockMapping pt fd p m =
    Inr (True, put_pte (set_word pt fd p (mword m)) m (set_ref_count 0 v))"
proof -
  have l: "m < 2147483648" "m \<noteq> BUSY_VALUE" "m \<noteq> EMPTY_VALUE"
    using m by (simp_all add: BUSY_VALUE_def EMPTY_VALUE_def)
  have "set_ref_count 0 (set_busy False (set_busy True v)) = set_ref_count 0 v"
    using nb by (auto intro!: bit_word_eqI simp: field_bits pte_busy_def)
  then show ?thesis
    using l m v by (simp add: UnLockMapping_def pte_UnLock_eq pt_simps w)
qed

lemma UnLockMapping_empty:
  "pt_word pt fd p = Some (mword BUSY_VALUE) \<Longrightarrow>
   UnLockMapping pt fd p EMPTY_VALUE = Inr (True, set_word pt fd p (mword EMPTY_VALUE))"
  by (simp add: UnLockMapping_def pt_simps)

section \<open>Well-formed tables\<close>

text \<open>
  In a table of partition \<open>k\<close>, a mapping that names a frame is backed by an entry of that frame
  which holds exactly this page, is initialised and is not locked.
\<close>

definition backed :: "partition_id \<Rightarrow> page_table \<Rightarrow> file_handle \<Rightarrow> fpage_id \<Rightarrow> mpage_id \<Rightarrow> bool" where
  "backed k pt fd p m \<longleftrightarrow> m < frames pt \<and>
     (let w = pte_of pt m; q = pte_fpage_id_cur w in
      pte_fd_cur w = fd \<and> GetPartitionId (pt_partitioner pt) q = k \<and>
      GetFPageIdInPartition (pt_partitioner pt) q = GetFPageIdInPartition (pt_partitioner pt) p \<and>
      pte_initialized w \<and> \<not> pte_busy w)"

definition slot_ok :: "partition_id \<Rightarrow> page_table \<Rightarrow> file_handle \<Rightarrow> fpage_id \<Rightarrow> mapping \<Rightarrow> bool" where
  "slot_ok k pt fd p w \<longleftrightarrow> w = mword EMPTY_VALUE \<or> w = mword BUSY_VALUE \<or>
     (\<exists>m. w = mword m \<and> backed k pt fd p m)"

definition pt_wf :: "partition_id \<Rightarrow> page_table \<Rightarrow> bool" where
  "pt_wf k pt \<longleftrightarrow> partitioner_wf (pt_partitioner pt) \<and> frames pt \<le> BUSY_VALUE \<and>
     (\<forall>fd p w. pt_word pt fd p = Some w \<longrightarrow> slot_ok k pt fd p w)"

lemma pt_wfD:
  assumes "pt_wf k pt"
  shows "partitioner_wf (pt_partitioner pt)" "frames pt \<le> BUSY_VALUE"
    "pt_word pt fd p = Some w \<Longrightarrow> slot_ok k pt fd p w"
  using assms by (auto simp: pt_wf_def)

lemma partition_unique:
  assumes wf: "partitioner_wf pr" and "GetPartitionId pr p = GetPartitionId pr q"
    and "GetFPageIdInPartition pr p = GetFPageIdInPartition pr q"
  shows "p = q"
proof -
  have "unat p mod unat (num_partitions pr) = unat q mod unat (num_partitions pr)"
    using assms(2) by (metis unat_GetPartitionId [OF wf])
  moreover have "unat p div unat (num_partitions pr) = unat q div unat (num_partitions pr)"
    using assms(3) by (metis unat_GetFPageIdInPartition [OF wf])
  ultimately have "unat p = unat q" by (metis div_mod_decomp)
  then show ?thesis by (simp only: word_unat_eq_iff)
qed

lemma backed_page:
  assumes "pt_wf k pt" "backed k pt fd p m" "GetPartitionId (pt_partitioner pt) p = k"
  shows "pte_fpage_id_cur (pte_of pt m) = p"
  using partition_unique [OF pt_wfD(1) [OF assms(1)], of "pte_fpage_id_cur (pte_of pt m)" p] assms(2,3)
  by (simp add: backed_def Let_def)

lemma backed_less:
  assumes "pt_wf k pt" "backed k pt fd p m"
  shows "m < frames pt" "m < 2147483648" "m \<noteq> BUSY_VALUE" "m \<noteq> EMPTY_VALUE"
  using pt_wfD(2) [OF assms(1)] assms(2)
  by (auto simp: backed_def BUSY_VALUE_def EMPTY_VALUE_def Let_def)

text \<open>A frame backs at most one mapping.\<close>

lemma backed_inj:
  assumes "backed k pt fd p m" "backed k pt fd' p' m"
  shows "same_slot pt fd p fd' p'"
  using assms by (auto simp: backed_def same_slot_def Let_def)

lemma mword_inject:
  assumes "m < 2147483648" "m' < 2147483648"
  shows "mword m = mword m' \<longleftrightarrow> m = m'"
  using map_mpage_id_mword assms by metis

lemma backed_set_word [pt_simps]: "backed k (set_word pt fd' p' w) fd p m = backed k pt fd p m"
  by (simp add: backed_def pt_simps)

lemma backed_put_pte [pt_simps]:
  assumes "m < frames pt" "m' \<noteq> m"
  shows "backed k (put_pte pt m' v) fd p m = backed k pt fd p m"
proof (cases "m' < frames pt")
  case False
  then have "put_pte pt m' v = pt" by (simp add: put_pte_def frames_def list_update_beyond)
  then show ?thesis by simp
qed (use assms in \<open>simp add: backed_def pt_simps\<close>)

text \<open>Two ways to keep the invariant: change a mapping, or an entry that no mapping names.\<close>

lemma pt_wf_set_word:
  assumes wf: "pt_wf k pt" and w: "pt_word pt fd p = Some w0" and ok: "slot_ok k pt fd p w"
  shows "pt_wf k (set_word pt fd p w)"
  unfolding pt_wf_def
proof (intro conjI allI impI)
  fix fd' p' w' assume "pt_word (set_word pt fd p w) fd' p' = Some w'"
  then show "slot_ok k (set_word pt fd p w) fd' p' w'"
    using ok pt_wfD(3) [OF wf, of fd' p' w']
    by (auto simp: pt_simps w slot_ok_def same_slot_def backed_def split: if_splits)
qed (use pt_wfD [OF wf] in \<open>simp_all add: pt_simps\<close>)

definition unnamed :: "page_table \<Rightarrow> mpage_id \<Rightarrow> bool" where
  "unnamed pt m \<longleftrightarrow> (\<forall>fd p. pt_word pt fd p \<noteq> Some (mword m))"

lemma pt_wf_put_pte:
  assumes wf: "pt_wf k pt" and un: "unnamed pt m"
  shows "pt_wf k (put_pte pt m v)"
  unfolding pt_wf_def
proof (intro conjI allI impI)
  fix fd p w assume "pt_word (put_pte pt m v) fd p = Some w"
  then have w: "pt_word pt fd p = Some w" by (simp add: pt_simps)
  then have ok: "slot_ok k pt fd p w" by (rule pt_wfD [OF wf])
  have nm: "w \<noteq> mword m" using un w by (auto simp: unnamed_def)
  have "backed k (put_pte pt m v) fd p m'" if "w = mword m'" "backed k pt fd p m'" for m'
    using that nm backed_less(1) [OF wf that(2)] by (subst backed_put_pte) auto
  then show "slot_ok k (put_pte pt m v) fd p w"
    using ok unfolding slot_ok_def by blast
qed (use pt_wfD [OF wf] in \<open>simp_all add: pt_simps\<close>)

lemma pt_wf_cases:
  assumes "pt_wf k pt" "pt_word pt fd p = Some w"
  obtains "w = mword EMPTY_VALUE" | "w = mword BUSY_VALUE" | m where "w = mword m" "backed k pt fd p m"
  using pt_wfD(3) [OF assms] by (auto simp: slot_ok_def)

text \<open>Locking away the only mapping of a frame leaves the frame unnamed.\<close>

lemma unnamed_after_lock:
  assumes wf: "pt_wf k pt" and w: "pt_word pt fd p = Some (mword m)" and b: "backed k pt fd p m"
  shows "unnamed (set_word pt fd p (mword BUSY_VALUE)) m"
  unfolding unnamed_def
proof (intro allI notI)
  fix fd' p' assume a: "pt_word (set_word pt fd p (mword BUSY_VALUE)) fd' p' = Some (mword m)"
  note l = backed_less [OF wf b]
  show False
  proof (cases "same_slot pt fd p fd' p'")
    case True
    then have "mword BUSY_VALUE = mword m" using a by (simp add: pt_simps w)
    then show False using l by (metis mword_inject ids_less(2))
  next
    case False
    then have w': "pt_word pt fd' p' = Some (mword m)" using a by (simp add: pt_simps w)
    then have "slot_ok k pt fd' p' (mword m)" by (rule pt_wfD [OF wf])
    then obtain m' where "mword m = mword m'" "backed k pt fd' p' m'"
      using l mword_inject ids_less by (auto simp: slot_ok_def)
    then have "backed k pt fd' p' m" using backed_less(2) [OF wf] l mword_inject by metis
    then show False using backed_inj [OF b] False by blast
  qed
qed

lemma unnamed_updates [pt_simps]:
  "unnamed (put_pte pt m v) m' = unnamed pt m'"
  by (simp add: unnamed_def pt_simps)

lemma unnamed_set_word:
  assumes "pt_word pt fd p = Some w0" "unnamed pt m" "w \<noteq> mword m"
  shows "unnamed (set_word pt fd p w) m"
  using assms by (auto simp: unnamed_def pt_simps)

text \<open>Filling a locked mapping with a frame that holds the page, and emptying one.\<close>

lemma CreateMapping_busy:
  "pt_word pt fd p = Some (mword BUSY_VALUE) \<Longrightarrow> m < 2147483648 \<Longrightarrow>
   CreateMapping pt fd p m = Inr (True, set_word pt fd p (mword m))"
  by (simp add: pt_simps)

lemma DeleteMapping_busy:
  "pt_word pt fd p = Some (mword BUSY_VALUE) \<Longrightarrow>
   DeleteMapping pt fd p m = Inr (True, set_word pt fd p (mword EMPTY_VALUE))"
  by (simp add: pt_simps)

lemma DeleteMapping_wf:
  assumes "pt_wf k pt" "pt_word pt fd p = Some (mword BUSY_VALUE)"
  shows "pt_wf k (set_word pt fd p (mword EMPTY_VALUE))"
  using assms by (rule pt_wf_set_word) (simp add: slot_ok_def)

definition loaded_pte :: "file_handle \<Rightarrow> fpage_id \<Rightarrow> pte" where
  "loaded_pte fd p = set_fd_cur fd (set_fpage_id_cur p (set_ref_count 1 (set_initialized True EMPTY_PTE)))"

lemma take_bit_13_small: "fd < 8192 \<Longrightarrow> take_bit 13 (fd :: u32) = fd"
proof -
  assume "fd < 8192"
  then have "unat fd mod 2 ^ 13 = unat fd" by (simp add: word_less_nat_alt)
  moreover have "unat (take_bit 13 fd) = take_bit 13 (unat fd)" by (simp only: unsigned_take_bit_eq)
  ultimately show ?thesis by (simp add: word_unat_eq_iff take_bit_eq_mod)
qed

lemma loaded_pte_fields:
  "fd < 8192 \<Longrightarrow> pte_fd_cur (loaded_pte fd p) = fd" "pte_fpage_id_cur (loaded_pte fd p) = p"
  "pte_initialized (loaded_pte fd p)" "\<not> pte_dirty (loaded_pte fd p)" "\<not> pte_busy (loaded_pte fd p)"
  "pte_ref_count (loaded_pte fd p) = 1"
  by (simp_all add: loaded_pte_def pt_simps take_bit_13_small)

lemma fill_wf:
  assumes wf: "pt_wf k pt" and un: "unnamed pt m" and m: "m < frames pt" and fd: "fd < 8192"
    and p: "GetPartitionId (pt_partitioner pt) p = k" and w: "pt_word pt fd p = Some (mword BUSY_VALUE)"
  shows "pt_wf k (set_word (put_pte pt m (loaded_pte fd p)) fd p (mword m))"
proof (rule pt_wf_set_word)
  show "pt_wf k (put_pte pt m (loaded_pte fd p))" using wf un by (rule pt_wf_put_pte)
  show "pt_word (put_pte pt m (loaded_pte fd p)) fd p = Some (mword BUSY_VALUE)"
    using w by (simp add: pt_simps)
  have "backed k (put_pte pt m (loaded_pte fd p)) fd p m"
    using m fd p by (simp add: backed_def pt_simps loaded_pte_fields Let_def)
  then show "slot_ok k (put_pte pt m (loaded_pte fd p)) fd p (mword m)" by (auto simp: slot_ok_def)
qed

section \<open>A small table\<close>

text \<open>One file of two pages; page 0 is in frame 0, frame 1 is unused.\<close>

definition small_pt :: page_table where
  "small_pt = \<lparr>pt_mappings = [Some \<lparr>pm_mappings = [mword 0, mword EMPTY_VALUE], pm_size = 2\<rparr>],
     pt_partitioner = \<lparr>num_partitions = 1, log2_num_partitions = 0\<rparr>,
     pt_inner = \<lparr>pti_pool = [mk_pte 0 0 True True False 0, EMPTY_PTE], pti_num_pages = 2\<rparr>\<rparr>"

lemma small_pt_sel:
  "pt_partitioner small_pt = \<lparr>num_partitions = 1, log2_num_partitions = 0\<rparr>"
  "frames small_pt = 2" "pte_of small_pt 0 = mk_pte 0 0 True True False 0"
  "pte_of small_pt (Suc 0) = EMPTY_PTE"
  by (simp_all add: small_pt_def frames_def pte_of_def)

lemma small_pt_word:
  "pt_word small_pt fd p = (if fd = 0 \<and> p = 0 then Some (mword 0)
     else if fd = 0 \<and> p = 1 then Some (mword EMPTY_VALUE) else None)"
proof -
  have "unat p < 2 \<longleftrightarrow> p = 0 \<or> p = 1"
    by (auto simp: less_2_cases_iff word_unat_eq_iff)
  then show ?thesis
    by (auto simp: pt_word_def small_pt_def GetFPageIdInPartition_def unat_eq_0 Let_def)
qed

lemma small_pt_wf: "pt_wf 0 small_pt"
  by (auto simp: pt_wf_def small_pt_sel small_pt_word slot_ok_def backed_def partitioner_wf_def
      BUSY_VALUE_def pt_simps GetPartitionId_def GetFPageIdInPartition_def split: if_splits)

section \<open>Properties\<close>

lemma set_busy_set_busy [pt_simps]:
  "set_busy b (set_busy b' w) = set_busy b w"
  by (auto intro!: bit_word_eqI simp: set_busy_def bit_simps)

lemma set_fields_same:
  "pte_busy w = b \<Longrightarrow> set_busy b w = w" "pte_ref_count w = r \<Longrightarrow> set_ref_count r w = w"
  by (auto intro!: bit_word_eqI simp: set_busy_def pte_busy_def pte_ref_count_def bit_simps field_bits
      split: if_splits)

text \<open>C30: what \<open>LockMapping\<close> does in a well-formed table, on every branch: a page not in memory and an
  unpinned page are locked (the latter with its entry), a locked or pinned page is left alone.\<close>

theorem LockMapping_outcome:
  assumes wf: "pt_wf k pt" and w: "pt_word pt fd p = Some w"
  shows "LockMapping pt fd p =
    (if w = mword EMPTY_VALUE
     then Inr ((True, EMPTY_VALUE), set_word pt fd p (mword BUSY_VALUE))
     else if w = mword BUSY_VALUE \<or> pte_ref_count (pte_of pt (map_mpage_id w)) \<noteq> 0
     then Inr ((False, 0), pt)
     else Inr ((True, map_mpage_id w),
       put_pte (set_word pt fd p (mword BUSY_VALUE)) (map_mpage_id w)
         (set_busy True (pte_of pt (map_mpage_id w)))))"
  using wf w
proof (cases rule: pt_wf_cases)
  case (3 m)
  note l = backed_less [OF wf 3(2)]
  have "mword m \<noteq> mword EMPTY_VALUE" "mword m \<noteq> mword BUSY_VALUE" "map_mpage_id (mword m) = m"
    using l by (simp_all add: mword_inject map_mpage_id_mword)
  moreover have "lockable (pte_of pt m) \<longleftrightarrow> pte_ref_count (pte_of pt m) = 0"
    using 3(2) by (auto simp: lockable_def backed_def Let_def)
  ultimately show ?thesis
    using LockMapping_resident [of pt fd p m] w 3 l(1) pt_wfD(2) [OF wf] by simp
qed (use w in \<open>simp_all add: pt_simps mword_inject\<close>)

lemma LockMapping_outcome_witness:
  "LockMapping small_pt 0 0 = Inr ((True, 0), put_pte (set_word small_pt 0 0 (mword BUSY_VALUE)) 0
     (mk_pte 0 0 True True True 0))"
proof -
  have "set_busy True (mk_pte 0 0 True True False 0) = mk_pte 0 0 True True True 0" by code_simp
  moreover have "mword 0 \<noteq> mword EMPTY_VALUE" "mword 0 \<noteq> mword BUSY_VALUE"
    by (simp_all add: mword_inject) (simp_all add: EMPTY_VALUE_def BUSY_VALUE_def)
  ultimately show ?thesis
    using LockMapping_outcome [OF small_pt_wf, of 0 0 "mword 0"]
    by (simp add: small_pt_word small_pt_sel pt_simps)
qed

lemma lock_small_0: "LockMapping small_pt 0 0 = Inr ((True, 0),
    put_pte (set_word small_pt 0 0 (mword BUSY_VALUE)) 0 (set_busy True (mk_pte 0 0 True True False 0)))"
  using LockMapping_resident [of small_pt 0 0 0]
  by (simp add: small_pt_word small_pt_sel BUSY_VALUE_def lockable_def pt_simps)

text \<open>C31: \<open>LockMapping\<close> keeps the table well-formed.\<close>

theorem LockMapping_wf:
  assumes wf: "pt_wf k pt" and w: "pt_word pt fd p = Some w"
    and lock: "LockMapping pt fd p = Inr (r, pt')"
  shows "pt_wf k pt'"
  using wf w
proof (cases rule: pt_wf_cases)
  case (3 m)
  note l = backed_less [OF wf 3(2)]
  have "pt_wf k (set_word pt fd p (mword BUSY_VALUE))"
    using wf w by (rule pt_wf_set_word) (simp add: slot_ok_def)
  then have "pt_wf k (put_pte (set_word pt fd p (mword BUSY_VALUE)) m v)" for v
    using unnamed_after_lock [OF wf _ 3(2)] w 3(1) by (intro pt_wf_put_pte) simp_all
  then show ?thesis
    using LockMapping_resident [of pt fd p m] w 3 l(1) pt_wfD(2) [OF wf] lock wf
    by (auto split: if_splits)
next
  case 1
  have "pt_wf k (set_word pt fd p (mword BUSY_VALUE))"
    using wf w by (rule pt_wf_set_word) (simp add: slot_ok_def)
  then show ?thesis using w 1 lock by (simp add: pt_simps)
qed (use w lock wf in \<open>simp add: pt_simps\<close>)

lemma LockMapping_wf_witness:
  "pt_wf 0 (put_pte (set_word small_pt 0 0 (mword BUSY_VALUE)) 0 (set_busy True (mk_pte 0 0 True True False 0)))"
  using LockMapping_wf [OF small_pt_wf _ lock_small_0] by (simp add: small_pt_word)

text \<open>Unlocking what \<open>LockMapping\<close> locked gives back the table as it was before.\<close>

theorem Lock_UnLock_roundtrip:
  assumes wf: "pt_wf k pt" and w: "pt_word pt fd p = Some w"
    and p: "GetPartitionId (pt_partitioner pt) p = k"
    and lock: "LockMapping pt fd p = Inr ((True, m), pt')"
  shows "UnLockMapping pt' fd p m = Inr (True, pt)"
  using wf w
proof (cases rule: pt_wf_cases)
  case 1
  then have "m = EMPTY_VALUE" "pt' = set_word pt fd p (mword BUSY_VALUE)"
    using w lock by (simp_all add: pt_simps)
  then show ?thesis using w 1 by (simp add: UnLockMapping_empty pt_simps)
next
  case 2
  then show ?thesis using w lock by (simp add: pt_simps)
next
  case (3 m')
  note l = backed_less [OF wf 3(2)] and fr = pt_wfD(2) [OF wf]
  have m: "m = m'" "lockable (pte_of pt m)"
    and pt': "pt' = put_pte (set_word pt fd p (mword BUSY_VALUE)) m (set_busy True (pte_of pt m))"
    using LockMapping_resident [of pt fd p m'] w 3 l(1) fr lock by (auto split: if_splits)
  have nb: "\<not> pte_busy (pte_of pt m)" and rc: "pte_ref_count (pte_of pt m) = 0"
    using 3(2) m by (auto simp: lockable_def backed_def Let_def)
  have "UnLockMapping pt' fd p m =
      Inr (True, put_pte (set_word pt' fd p (mword m)) m (set_ref_count 0 (pte_of pt m)))"
    using l(1) fr m nb backed_page [OF wf 3(2) p] w
    by (intro UnLockMapping_locked) (simp_all add: pt' pt_simps)
  also have "put_pte (set_word pt' fd p (mword m)) m (set_ref_count 0 (pte_of pt m)) = pt"
    using w 3(1) m rc set_fields_same(2) [of "pte_of pt m" 0] by (simp add: pt' pt_simps)
  finally show ?thesis .
qed

lemma Lock_UnLock_roundtrip_witness:
  "UnLockMapping (put_pte (set_word small_pt 0 0 (mword BUSY_VALUE)) 0
     (set_busy True (mk_pte 0 0 True True False 0))) 0 0 0 = Inr (True, small_pt)"
  using Lock_UnLock_roundtrip [OF small_pt_wf _ _ lock_small_0]
  by (simp add: small_pt_word small_pt_sel GetPartitionId_def)

text \<open>Between locking and unlocking, a page is exclusive: it is not found, cannot be locked again, no
  mapping names its frame, and the frame's entry can be neither pinned nor locked.\<close>

theorem locked_page_is_exclusive:
  assumes wf: "pt_wf k pt" and w: "pt_word pt fd p = Some w"
    and lock: "LockMapping pt fd p = Inr ((True, m), pt')"
  shows "FindMapping pt' fd p = Inr (False, BUSY_VALUE) \<and> LockMapping pt' fd p = Inr ((False, 0), pt') \<and>
    (m \<noteq> EMPTY_VALUE \<longrightarrow> unnamed pt' m \<and> \<not> fst (IncRefCount q f (pte_of pt' m)) \<and>
       \<not> fst (IncRefCount1 q f (pte_of pt' m)) \<and> \<not> fst (pte_Lock (pte_of pt' m)))"
  using wf w
proof (cases rule: pt_wf_cases)
  case 1
  then show ?thesis using w lock by (auto simp: pt_simps FindMapping_word_def)
next
  case 2
  then show ?thesis using w lock by (simp add: pt_simps)
next
  case (3 m')
  note l = backed_less [OF wf 3(2)]
  have m: "m = m'"
    and pt': "pt' = put_pte (set_word pt fd p (mword BUSY_VALUE)) m (set_busy True (pte_of pt m))"
    using LockMapping_resident [of pt fd p m'] w 3 l(1) pt_wfD(2) [OF wf] lock by (auto split: if_splits)
  have b: "pt_word pt' fd p = Some (mword BUSY_VALUE)" using w by (simp add: pt' pt_simps)
  have e: "pte_busy (pte_of pt' m)" using l(1) m by (simp add: pt' pt_simps)
  have "unnamed pt' m" using unnamed_after_lock [OF wf _ 3(2)] w 3(1) m by (simp add: pt' pt_simps)
  then show ?thesis
    using b e by (simp add: pt_simps FindMapping_word_def IncRefCount_def IncRefCount1_def cas_seq_def
        IncRefCount_body_def pte_Lock_eq lockable_def)
qed

lemma locked_page_is_exclusive_witness:
  "FindMapping (put_pte (set_word small_pt 0 0 (mword BUSY_VALUE)) 0
     (set_busy True (mk_pte 0 0 True True False 0))) 0 0 = Inr (False, BUSY_VALUE)"
  using locked_page_is_exclusive [OF small_pt_wf _ lock_small_0] by (simp add: small_pt_word)

text \<open>Loading a page into an unused frame: after the entry is stored and the mapping created, the
  table is well-formed, the page is found in that frame and can be pinned there.\<close>

theorem load_page_then_pin:
  assumes wf: "pt_wf k pt" and un: "unnamed pt m" and m: "m < frames pt" and fd: "fd < 8192"
    and p: "GetPartitionId (pt_partitioner pt) p = k" and w: "pt_word pt fd p = Some (mword BUSY_VALUE)"
  shows "\<exists>pt'. CreateMapping (put_pte pt m (loaded_pte fd p)) fd p m = Inr (True, pt') \<and> pt_wf k pt' \<and>
    FindMapping pt' fd p = Inr (True, m) \<and> IncRefCount1 p fd (pte_of pt' m) = (True, loaded_pte fd p + 1)"
proof -
  have l: "m < 2147483648" "m \<noteq> EMPTY_VALUE" "m \<noteq> BUSY_VALUE"
    using m pt_wfD(2) [OF wf] by (simp_all add: EMPTY_VALUE_def BUSY_VALUE_def)
  let ?pt = "set_word (put_pte pt m (loaded_pte fd p)) fd p (mword m)"
  have "CreateMapping (put_pte pt m (loaded_pte fd p)) fd p m = Inr (True, ?pt)"
    using w l by (intro CreateMapping_busy) (simp_all add: pt_simps)
  moreover have "pt_wf k ?pt" using assms by (rule fill_wf)
  moreover have "FindMapping ?pt fd p = Inr (True, m)"
    using w l by (simp add: pt_simps FindMapping_word_def)
  moreover have "pte_of ?pt m = loaded_pte fd p" using m by (simp add: pt_simps)
  ultimately show ?thesis using fd by (auto simp: IncRefCount1_def loaded_pte_fields)
qed

lemma load_page_then_pin_witness:
  "\<exists>pt'. CreateMapping (put_pte (set_word small_pt 0 1 (mword BUSY_VALUE)) 1 (loaded_pte 0 1)) 0 1 1 = Inr (True, pt') \<and>
     FindMapping pt' 0 1 = Inr (True, 1)"
proof -
  let ?pt = "set_word small_pt 0 1 (mword BUSY_VALUE)"
  have w: "pt_word small_pt 0 1 = Some (mword EMPTY_VALUE)" by (simp add: small_pt_word)
  have "mword 1 \<noteq> mword EMPTY_VALUE" "mword 1 \<noteq> mword BUSY_VALUE" "mword 1 \<noteq> mword 0"
    by (simp_all add: mword_inject) (simp_all add: EMPTY_VALUE_def BUSY_VALUE_def)
  then have "unnamed small_pt 1" "mword BUSY_VALUE \<noteq> mword 1"
    by (auto simp: unnamed_def small_pt_word)
  then have un: "unnamed ?pt 1" using w by (intro unnamed_set_word)
  have wf: "pt_wf 0 ?pt" using small_pt_wf w by (rule pt_wf_set_word) (simp add: slot_ok_def)
  show ?thesis
    using load_page_then_pin [OF wf un, of 0 1] w by (auto simp: pt_simps small_pt_sel GetPartitionId_def)
qed

text \<open>The destructor of a mapping array calls \<open>Resize(0)\<close>, which returns before its branch that
  frees the array: the array is kept.\<close>

theorem destructor_keeps_mappings: "pm_destroy pm = pm"
  by (simp add: pm_destroy_def pm_Resize_def)

text \<open>Growing a file keeps every mapping it had and adds mappings for pages not in memory.\<close>

theorem ResizeFile_keeps_mappings:
  assumes "get_file pt fd = Inr pm" "length (pm_mappings pm) = unat (pm_size pm)" "pm_size pm < n"
    and "pt_ResizeFile pt fd n = Inr (r, pt')"
  shows "pt_word pt' fd p = (if pt_word pt fd p \<noteq> None then pt_word pt fd p
      else if unat (GetFPageIdInPartition (pt_partitioner pt) p) < unat n then Some (mword EMPTY_VALUE)
      else None)"
proof -
  have f: "unat fd < length (pt_mappings pt)" "pt_mappings pt ! unat fd = Some pm"
    using assms(1) by (auto simp: get_file_def bindE_eq_Inr arr_get_eq_Inr split: option.splits)
  have sz: "unat (pm_size pm) < unat n" "n \<noteq> 0"
    using assms(3) by (auto simp: word_less_nat_alt)
  then show ?thesis
    using assms f
    by (auto simp: pt_ResizeFile_def pm_Resize_def put_file_def pt_word_def Let_def mapping_Clean_def
        EMPTY_MAPPING_mword word_le_nat_alt)
qed

lemma ResizeFile_keeps_mappings_witness:
  "\<exists>pt'. pt_ResizeFile small_pt 0 3 = Inr (True, pt') \<and> pt_word pt' 0 0 = Some (mword 0) \<and>
     pt_word pt' 0 2 = Some (mword EMPTY_VALUE)"
proof -
  have f: "get_file small_pt 0 = Inr \<lparr>pm_mappings = [mword 0, mword EMPTY_VALUE], pm_size = 2\<rparr>"
    by (simp add: get_file_def small_pt_def)
  then obtain pt' where e: "pt_ResizeFile small_pt 0 3 = Inr (True, pt')"
    by (simp add: pt_ResizeFile_def pm_Resize_def)
  show ?thesis
    using ResizeFile_keeps_mappings [OF f _ _ e, of 0] ResizeFile_keeps_mappings [OF f _ _ e, of 2] e
    by (simp add: small_pt_word small_pt_sel GetFPageIdInPartition_def)
qed

end
