(* ===== verification/Dll.thy ===== *)
theory Dll
  imports Prelude
begin

text \<open>
  Doubly linked chains over two arbitrary link functions: the abstraction that the index-linked
  \<open>ListArray\<close> (node indices in an array) and the pointer-linked replacers (node addresses in a
  heap) share.  \<open>chain nxt prv xs\<close> says that consecutive members of \<open>xs\<close> point at each other.
\<close>

fun chain :: "('a \<Rightarrow> 'a) \<Rightarrow> ('a \<Rightarrow> 'a) \<Rightarrow> 'a list \<Rightarrow> bool" where
  "chain nxt prv [] = True"
| "chain nxt prv [x] = True"
| "chain nxt prv (x # y # ys) = (nxt x = y \<and> prv y = x \<and> chain nxt prv (y # ys))"

lemma chain_append:
  "chain nxt prv (xs @ y # ys) \<longleftrightarrow>
     chain nxt prv (xs @ [y]) \<and> chain nxt prv (y # ys)"
proof (induction xs)
  case Nil
  then show ?case by simp
next
  case (Cons x xs)
  then show ?case by (cases xs) auto
qed

lemma chain_append2:
  "chain nxt prv (xs @ y # z # zs) \<longleftrightarrow>
     chain nxt prv (xs @ [y]) \<and> nxt y = z \<and> prv z = y \<and> chain nxt prv (z # zs)"
  using chain_append [of nxt prv xs y "z # zs"] by simp

text \<open>A chain depends on \<open>nxt\<close> at all members but the last, on \<open>prv\<close> at all but the first.\<close>

lemma chain_cong:
  assumes "\<And>x. x \<in> set (butlast xs) \<Longrightarrow> nxt x = nxt' x"
    and "\<And>x. x \<in> set (tl xs) \<Longrightarrow> prv x = prv' x"
  shows "chain nxt prv xs = chain nxt' prv' xs"
  using assms
proof (induction nxt prv xs rule: chain.induct)
  case (3 nxt prv x y ys)
  from "3.prems"(2) have "\<And>z. z \<in> set (tl (y # ys)) \<Longrightarrow> prv z = prv' z" by simp
  with "3.IH" "3.prems" show ?case by auto
qed simp_all

lemma chain_upd_nxt [simp]:
  "a \<notin> set (butlast xs) \<Longrightarrow> chain (nxt(a := b)) prv xs = chain nxt prv xs"
  by (rule chain_cong) auto

lemma chain_upd_prv [simp]:
  "a \<notin> set (tl xs) \<Longrightarrow> chain nxt (prv(a := b)) xs = chain nxt prv xs"
  by (rule chain_cong) auto

lemma chain_nxt_nth:
  "chain nxt prv xs \<Longrightarrow> Suc i < length xs \<Longrightarrow> nxt (xs ! i) = xs ! Suc i"
proof (induction nxt prv xs arbitrary: i rule: chain.induct)
  case (3 nxt prv x y ys)
  then show ?case by (cases i) auto
qed simp_all

lemma chain_prv_nth:
  "chain nxt prv xs \<Longrightarrow> Suc i < length xs \<Longrightarrow> prv (xs ! Suc i) = xs ! i"
proof (induction nxt prv xs arbitrary: i rule: chain.induct)
  case (3 nxt prv x y ys)
  then show ?case by (cases i) auto
qed simp_all

text \<open>Unlinking an inner member: its two neighbours are joined.\<close>

lemma chain_unlink:
  assumes c: "chain nxt prv (xs @ a # n # b # ys)"
    and d: "distinct (xs @ a # n # b # ys)"
  shows "chain (nxt(a := b, n := u)) (prv(b := a, n := v)) (xs @ a # b # ys)"
proof -
  from c have l: "chain nxt prv (xs @ [a])" and r: "chain nxt prv (b # ys)"
    by (simp_all add: chain_append2)
  have "chain (nxt(a := b, n := u)) (prv(b := a, n := v)) (xs @ [a])"
    using l d by (subst chain_cong [where nxt' = nxt and prv' = prv])
      (auto simp: butlast_append dest: in_set_butlastD in_set_tlD split: if_splits)
  moreover have "chain (nxt(a := b, n := u)) (prv(b := a, n := v)) (b # ys)"
    using r d by (subst chain_cong [where nxt' = nxt and prv' = prv])
      (auto dest: in_set_butlastD in_set_tlD split: if_splits)
  ultimately show ?thesis using d by (auto simp: chain_append2)
qed

text \<open>Linking a fresh member between two neighbours.\<close>

lemma chain_link:
  assumes c: "chain nxt prv (xs @ a # b # ys)"
    and d: "distinct (xs @ a # b # ys)" and n: "n \<notin> set (xs @ a # b # ys)"
  shows "chain (nxt(a := n, n := b)) (prv(b := n, n := a)) (xs @ a # n # b # ys)"
proof -
  from c have l: "chain nxt prv (xs @ [a])" and r: "chain nxt prv (b # ys)"
    by (simp_all add: chain_append2)
  have "chain (nxt(a := n, n := b)) (prv(b := n, n := a)) (xs @ [a])"
    using l d n by (subst chain_cong [where nxt' = nxt and prv' = prv])
      (auto simp: butlast_append dest: in_set_butlastD in_set_tlD split: if_splits)
  moreover have "chain (nxt(a := n, n := b)) (prv(b := n, n := a)) (b # ys)"
    using r d n by (subst chain_cong [where nxt' = nxt and prv' = prv])
      (auto dest: in_set_butlastD in_set_tlD split: if_splits)
  ultimately show ?thesis using d n by (auto simp: chain_append2)
qed

end
