(* ===== verification/Replacer.thy ===== *)
theory Replacer
  imports PageTable ListArray
begin

text \<open>
  The interface of the page replacement policies (\<^verbatim>\<open>include/replacer/replacer.h\<close>), as the record of
  the virtual functions a policy overrides, and the laws that the buffer pool relies on, as the
  locale \<open>replacer\<close>.  A policy shares the page table with its pool, so \<open>Victim\<close> takes it and
  gives it back.  This theory also holds the step that every policy uses to claim a candidate
  frame, and the walk over the nodes of a list array.
\<close>

record 'r replacer_ops =
  op_Insert :: "'r \<Rightarrow> mpage_id \<Rightarrow> (bool \<times> 'r) res"
  op_Promote :: "'r \<Rightarrow> mpage_id \<Rightarrow> (bool \<times> 'r) res"
  op_Victim :: "'r \<Rightarrow> page_table \<Rightarrow> ((bool \<times> mpage_id) \<times> 'r \<times> page_table) res"
  op_Erase :: "'r \<Rightarrow> mpage_id \<Rightarrow> (bool \<times> 'r) res"
  op_Size :: "'r \<Rightarrow> u64 res"

text \<open>The default bodies of \<open>Replace\<close> and \<open>Clean\<close> in the base class.\<close>

definition default_Replace :: "'r \<Rightarrow> (bool \<times> 'r) res" where
  "default_Replace r = bindE (assertE False) (\<lambda>_. Inr (False, r))"

definition default_Clean :: "'r \<Rightarrow> (bool \<times> 'r) res" where
  "default_Clean r = bindE (assertE False) (\<lambda>_. Inr (False, r))"

section \<open>Claiming a candidate frame\<close>

text \<open>
  Lock the mapping that the entry of frame \<open>m\<close> names; keep the lock when the frame is still
  unpinned (and, where asked, not dirty) and the mapping was not empty, otherwise undo it.
\<close>

definition try_evict :: "bool \<Rightarrow> page_table \<Rightarrow> mpage_id \<Rightarrow> (bool \<times> page_table) res" where
  "try_evict skip_dirty pt m =
     bindE (FromPageId pt m) (\<lambda>w.
     bindE (LockMapping pt (pte_fd_cur w) (pte_fpage_id_cur w)) (\<lambda>((locked, m'), pt).
     bindE (FromPageId pt m) (\<lambda>w.
     if locked \<and> pte_ref_count w = 0 \<and> \<not> (skip_dirty \<and> pte_dirty w) \<and> m' \<noteq> EMPTY_VALUE then Inr (True, pt)
     else if locked then
       bindE (UnLockMapping pt (pte_fd_cur w) (pte_fpage_id_cur w) m') (\<lambda>(ok, pt).
       bindE (assertE ok) (\<lambda>_. Inr (False, pt)))
     else Inr (False, pt))))"

text \<open>A frame that holds the page its entry names.\<close>

definition held :: "page_table \<Rightarrow> mpage_id \<Rightarrow> bool" where
  "held pt m \<longleftrightarrow> m < frames pt \<and>
     pt_word pt (pte_fd_cur (pte_of pt m)) (pte_fpage_id_cur (pte_of pt m)) = Some (mword m)"

definition pinned :: "page_table \<Rightarrow> mpage_id \<Rightarrow> bool" where
  "pinned pt m \<longleftrightarrow> pte_ref_count (pte_of pt m) \<noteq> 0"

definition lock_frame :: "page_table \<Rightarrow> mpage_id \<Rightarrow> page_table" where
  "lock_frame pt m =
     (let w = pte_of pt m in
      put_pte (set_word pt (pte_fd_cur w) (pte_fpage_id_cur w) (mword BUSY_VALUE)) m (set_busy True w))"

text \<open>The frames that the batch forms take, and what they leave: the page is in memory no more.\<close>

definition clean_victim :: "page_table \<Rightarrow> mpage_id \<Rightarrow> bool" where
  "clean_victim pt m \<longleftrightarrow> \<not> pinned pt m \<and> \<not> pte_dirty (pte_of pt m)"

definition unmap_frame :: "page_table \<Rightarrow> mpage_id \<Rightarrow> page_table" where
  "unmap_frame pt m = set_word (lock_frame pt m) (pte_fd_cur (pte_of pt m)) (pte_fpage_id_cur (pte_of pt m))
     (mword EMPTY_VALUE)"

lemma held_backed:
  assumes wf: "pt_wf k pt" and h: "held pt m"
  shows "backed k pt (pte_fd_cur (pte_of pt m)) (pte_fpage_id_cur (pte_of pt m)) m"
proof -
  have m: "m < 2147483648" "m \<noteq> EMPTY_VALUE" "m \<noteq> BUSY_VALUE"
    using h pt_wfD(2) [OF wf] by (auto simp: held_def EMPTY_VALUE_def BUSY_VALUE_def)
  have "slot_ok k pt (pte_fd_cur (pte_of pt m)) (pte_fpage_id_cur (pte_of pt m)) (mword m)"
    using h pt_wfD(3) [OF wf] by (auto simp: held_def)
  then obtain m' where "mword m = mword m'"
    "backed k pt (pte_fd_cur (pte_of pt m)) (pte_fpage_id_cur (pte_of pt m)) m'"
    using m mword_inject ids_less by (auto simp: slot_ok_def)
  then show ?thesis using m mword_inject backed_less(2) [OF wf] by metis
qed

lemma try_evict_held:
  assumes wf: "pt_wf k pt" and h: "held pt m"
  shows "try_evict skip_dirty pt m =
    (if pinned pt m \<or> skip_dirty \<and> pte_dirty (pte_of pt m) then Inr (False, pt)
     else Inr (True, lock_frame pt m))"
proof -
  let ?fd = "pte_fd_cur (pte_of pt m)" and ?p = "pte_fpage_id_cur (pte_of pt m)"
  note b = held_backed [OF wf h]
  note l = backed_less [OF wf b] and fr = pt_wfD(2) [OF wf]
  have w: "pt_word pt ?fd ?p = Some (mword m)" using h by (simp add: held_def)
  have lock: "LockMapping pt ?fd ?p =
      (if pinned pt m then Inr ((False, 0), pt) else Inr ((True, m), lock_frame pt m))"
    using LockMapping_resident [OF w l(1) fr] b
    by (auto simp: lockable_def pinned_def lock_frame_def backed_def Let_def)
  have e: "FromPageId pt m = Inr (pte_of pt m)"
    "FromPageId (lock_frame pt m) m = Inr (set_busy True (pte_of pt m))"
    using l by (simp_all add: pt_simps lock_frame_def Let_def)
  have nb: "\<not> pte_busy (pte_of pt m)" "\<not> pinned pt m \<Longrightarrow> pte_ref_count (pte_of pt m) = 0"
    using b by (simp_all add: backed_def Let_def pinned_def)
  have un: "UnLockMapping (lock_frame pt m) ?fd ?p m = Inr (True, pt)" if "\<not> pinned pt m"
  proof -
    have "UnLockMapping (lock_frame pt m) ?fd ?p m =
        Inr (True, put_pte (set_word (lock_frame pt m) ?fd ?p (mword m)) m (set_ref_count 0 (pte_of pt m)))"
      using l(1) fr nb w by (intro UnLockMapping_locked) (simp_all add: lock_frame_def pt_simps Let_def)
    also have "set_ref_count 0 (pte_of pt m) = pte_of pt m"
      using nb(2) that by (simp add: set_fields_same)
    also have "put_pte (set_word (lock_frame pt m) ?fd ?p (mword m)) m (pte_of pt m) = pt"
      using w by (simp add: lock_frame_def pt_simps Let_def)
    finally show ?thesis .
  qed
  show ?thesis
    using lock e un nb(2) l(4) by (auto simp: try_evict_def pt_simps)
qed

text \<open>Locking one held frame keeps the table well-formed and the other held frames held.\<close>

lemma lock_frame_wf:
  assumes wf: "pt_wf k pt" and h: "held pt m"
  shows "pt_wf k (lock_frame pt m)" "unnamed (lock_frame pt m) m"
    "pt_word (lock_frame pt m) (pte_fd_cur (pte_of pt m)) (pte_fpage_id_cur (pte_of pt m)) = Some (mword BUSY_VALUE)"
    "frames (lock_frame pt m) = frames pt" "pt_partitioner (lock_frame pt m) = pt_partitioner pt"
    "pte_of (lock_frame pt m) m' = (if m' = m then set_busy True (pte_of pt m) else pte_of pt m')"
proof -
  note b = held_backed [OF wf h]
  have w: "pt_word pt (pte_fd_cur (pte_of pt m)) (pte_fpage_id_cur (pte_of pt m)) = Some (mword m)"
    using h by (simp add: held_def)
  note un = unnamed_after_lock [OF wf w b]
  show "pt_wf k (lock_frame pt m)"
    unfolding lock_frame_def Let_def
    by (rule pt_wf_put_pte [OF pt_wf_set_word [OF wf w] un]) (simp add: slot_ok_def)
  show "unnamed (lock_frame pt m) m"
    using un by (simp add: lock_frame_def pt_simps Let_def)
qed (use h in \<open>simp_all add: lock_frame_def pt_simps held_def Let_def\<close>)

lemma lock_frame_held:
  assumes wf: "pt_wf k pt" and h: "held pt m" "held pt m'" and ne: "m' \<noteq> m"
  shows "held (lock_frame pt m) m'"
proof -
  have "\<not> same_slot pt (pte_fd_cur (pte_of pt m)) (pte_fpage_id_cur (pte_of pt m))
      (pte_fd_cur (pte_of pt m')) (pte_fpage_id_cur (pte_of pt m'))"
  proof
    assume s: "same_slot pt (pte_fd_cur (pte_of pt m)) (pte_fpage_id_cur (pte_of pt m))
      (pte_fd_cur (pte_of pt m')) (pte_fpage_id_cur (pte_of pt m'))"
    then have "mword m = mword m'"
      using h same_slot_word [OF s] by (simp add: held_def)
    then show False
      using ne backed_less(2) [OF wf held_backed [OF wf h(1)]] backed_less(2) [OF wf held_backed [OF wf h(2)]]
      by (simp add: mword_inject)
  qed
  then show ?thesis
    using h ne by (simp add: held_def lock_frame_def pt_simps Let_def)
qed

section \<open>Walking a list array\<close>

text \<open>One step towards the front, from the front around to the back.\<close>

definition step_back :: "'v list_array \<Rightarrow> nat \<Rightarrow> nat res" where
  "step_back la i =
     bindE (getPrevNodeIndex la i) (\<lambda>p.
     if p = la_head la then GetTail la else getPrevNodeIndex la i)"

definition prv_pos :: "nat \<Rightarrow> nat \<Rightarrow> nat" where
  "prv_pos n k = (if k = 0 then n - 1 else k - 1)"

definition dist_back :: "nat \<Rightarrow> nat \<Rightarrow> nat \<Rightarrow> nat" where
  "dist_back n k t = (if t \<le> k then k - t else k + n - t)"

lemma prv_pos_less: "k < n \<Longrightarrow> prv_pos n k < n"
  by (cases k) (simp_all add: prv_pos_def)

lemma dist_back_step:
  "k < n \<Longrightarrow> t < n \<Longrightarrow> k \<noteq> t \<Longrightarrow> Suc (dist_back n (prv_pos n k) t) = dist_back n k t"
  "t < n \<Longrightarrow> dist_back n (prv_pos n t) t = n - 1"
  by (auto simp: dist_back_def prv_pos_def)

lemma dist_back_bounds: "k < n \<Longrightarrow> t < n \<Longrightarrow> dist_back n k t < n" "dist_back n k t = 0 \<Longrightarrow> k < n \<Longrightarrow> t < n \<Longrightarrow> k = t"
  by (auto simp: dist_back_def split: if_splits)

lemma step_back_rep:
  assumes r: "la_rep la xs" and k: "k < length xs"
  shows "step_back la (xs ! k) = Inr (xs ! prv_pos (length xs) k)"
proof -
  have p: "getPrevNodeIndex la (xs ! k) = Inr ((la_capacity la # xs) ! k)"
    using r k by (rule getPrevNodeIndex_rep)
  have h: "la_head la = la_capacity la" using la_repD(1) [OF r] by (simp add: la_simps)
  show ?thesis
  proof (cases k)
    case 0
    then show ?thesis
      using p h k GetTail_rep [OF r] by (auto simp: step_back_def prv_pos_def last_conv_nth)
  next
    case (Suc j)
    then have "xs ! j \<noteq> la_capacity la" using la_rep_lt [OF r, of "xs ! j"] k by simp
    then show ?thesis using p h Suc by (simp add: step_back_def prv_pos_def)
  qed
qed

section \<open>The contract of a policy\<close>

text \<open>
  \<open>rinv r S\<close> says that the state \<open>r\<close> is well-formed and manages the set \<open>S\<close> of frames, all below
  \<open>rcap r\<close>.  The laws: a frame that is not managed can be inserted, a managed one promoted, and as
  long as some managed frame is unpinned, \<open>Victim\<close> returns such a frame, locked and no longer
  managed, and changes nothing else in the page table.
\<close>

locale replacer =
  fixes ops :: "'r replacer_ops" and rinv :: "'r \<Rightarrow> mpage_id set \<Rightarrow> bool" and rcap :: "'r \<Rightarrow> nat"
  assumes members: "rinv r S \<Longrightarrow> S \<subseteq> {..<rcap r}"
    and Insert_law: "rinv r S \<Longrightarrow> m < rcap r \<Longrightarrow> m \<notin> S \<Longrightarrow>
      \<exists>r'. op_Insert ops r m = Inr (True, r') \<and> rinv r' (insert m S) \<and> rcap r' = rcap r"
    and Promote_law: "rinv r S \<Longrightarrow> m \<in> S \<Longrightarrow>
      \<exists>r'. op_Promote ops r m = Inr (True, r') \<and> rinv r' S \<and> rcap r' = rcap r"
    and Victim_law: "rinv r S \<Longrightarrow> pt_wf k pt \<Longrightarrow> (\<And>m. m \<in> S \<Longrightarrow> held pt m) \<Longrightarrow>
      m0 \<in> S \<Longrightarrow> \<not> pinned pt m0 \<Longrightarrow>
      \<exists>m r'. m \<in> S \<and> \<not> pinned pt m \<and> op_Victim ops r pt = Inr ((True, m), r', lock_frame pt m) \<and>
        rinv r' (S - {m}) \<and> rcap r' = rcap r"
begin

text \<open>What a client gets from the contract: a victim that leaves the other managed frames held.\<close>

lemma Victim_keeps:
  assumes i: "rinv r S" and wf: "pt_wf k pt" and h: "\<And>m. m \<in> S \<Longrightarrow> held pt m"
    and ex: "m0 \<in> S" "\<not> pinned pt m0"
  obtains m r' where "m \<in> S" "\<not> pinned pt m" "op_Victim ops r pt = Inr ((True, m), r', lock_frame pt m)"
    "rinv r' (S - {m})" "rcap r' = rcap r" "pt_wf k (lock_frame pt m)" "unnamed (lock_frame pt m) m"
    "\<And>m'. m' \<in> S - {m} \<Longrightarrow> held (lock_frame pt m) m'"
proof -
  obtain m r' where m: "m \<in> S" "\<not> pinned pt m" "op_Victim ops r pt = Inr ((True, m), r', lock_frame pt m)"
    "rinv r' (S - {m})" "rcap r' = rcap r"
    using Victim_law [OF i wf h ex] by blast
  show thesis
    using m lock_frame_wf(1,2) [OF wf h [OF m(1)]] lock_frame_held [OF wf h [OF m(1)] h]
    by (intro that [of m r']) auto
qed

text \<open>Inserting a list of fresh frames one by one.\<close>

lemma Insert_fresh:
  "rinv r S \<Longrightarrow> m < rcap r \<Longrightarrow> m \<notin> S \<Longrightarrow>
   \<exists>r'. op_Insert ops r m = Inr (True, r') \<and> rinv r' (insert m S) \<and> (\<forall>x\<in>insert m S. x < rcap r')"
  using Insert_law members by fastforce

end

text \<open>Policies that can also give up a frame on request.\<close>

locale erasable_replacer = replacer +
  assumes Erase_law: "rinv r S \<Longrightarrow> m \<in> S \<Longrightarrow>
      \<exists>r'. op_Erase ops r m = Inr (True, r') \<and> rinv r' (S - {m}) \<and> rcap r' = rcap r"
begin

lemma Insert_Erase:
  assumes "rinv r S" "m < rcap r" "m \<notin> S"
  obtains r1 r2 where "op_Insert ops r m = Inr (True, r1)" "op_Erase ops r1 m = Inr (True, r2)"
    "rinv r2 S" "rcap r2 = rcap r"
proof -
  obtain r1 where 1: "op_Insert ops r m = Inr (True, r1)" "rinv r1 (insert m S)" "rcap r1 = rcap r"
    using Insert_law [OF assms] by blast
  then obtain r2 where "op_Erase ops r1 m = Inr (True, r2)" "rinv r2 (insert m S - {m})" "rcap r2 = rcap r1"
    using Erase_law [OF 1(2), of m] by blast
  then show thesis using 1 assms(3) by (intro that [of r1 r2]) simp_all
qed

end

end
