(* ===== verification/Disk.thy ===== *)
theory Disk
  imports PTE
begin

text \<open>
  Files and synchronous I/O: \<open>DiskManager\<close> and the system-call backend \<open>RWSysCall\<close> of
  \<^verbatim>\<open>include/io_backend.h\<close>.  The operating system is a list of open file contents, read and
  written with the POSIX meaning of \<open>pread\<close>, \<open>pwrite\<close> and \<open>ftruncate\<close>; the only error it reports is the
  use of a closed handle (the backend ignores it, as its error checks are compiled out).
\<close>

type_synonym byte = u8

definition PAGE_SIZE_FILE :: nat where
  "PAGE_SIZE_FILE = 4096"

definition LOG_PAGE_SIZE_FILE :: nat where
  "LOG_PAGE_SIZE_FILE = 12"

section \<open>The operating system\<close>

definition pread :: "byte list \<Rightarrow> nat \<Rightarrow> nat \<Rightarrow> byte list" where
  "pread f n offset = take n (drop offset f)"

definition pwrite :: "byte list \<Rightarrow> byte list \<Rightarrow> nat \<Rightarrow> byte list" where
  "pwrite f data offset =
     take offset (f @ replicate (offset - length f) 0) @ data @ drop (offset + length data) f"

definition ftruncate :: "byte list \<Rightarrow> nat \<Rightarrow> byte list" where
  "ftruncate f n = take n f @ replicate (n - length f) 0"

section \<open>DiskManager\<close>

text \<open>
  \<open>fd_oss\<close> pairs an operating-system handle (here an index into \<open>os_files\<close>) with a validity mark,
  which \<open>CloseFile\<close> clears when it closes the handle.  File names and the access counters of the
  log output are left out.
\<close>

record disk =
  fd_oss :: "(nat \<times> bool) list"
  file_size_inBytes :: "u64 list"
  os_files :: "byte list list"

definition GetFileDescriptor :: "disk \<Rightarrow> file_handle \<Rightarrow> nat res" where
  "GetFileDescriptor d fd = bindE (arr_get (fd_oss d) (unat fd)) (\<lambda>(h, _). Inr h)"

definition GetFileSizeFast :: "disk \<Rightarrow> file_handle \<Rightarrow> u64 res" where
  "GetFileSizeFast d fd = arr_get (file_size_inBytes d) (unat fd)"

definition disk_Resize :: "disk \<Rightarrow> file_handle \<Rightarrow> u64 \<Rightarrow> disk res" where
  "disk_Resize d fd new_size_inByte =
     bindE (arr_get (fd_oss d) (unat fd)) (\<lambda>(h, valid).
     bindE (assertE valid) (\<lambda>_.
     bindE (arr_get (os_files d) h) (\<lambda>f.
     bindE (arr_set (os_files d) h (ftruncate f (unat new_size_inByte))) (\<lambda>fs.
     bindE (arr_set (file_size_inBytes d) (unat fd) new_size_inByte) (\<lambda>ss.
     Inr (d\<lparr>os_files := fs, file_size_inBytes := ss\<rparr>))))))"

text \<open>\<open>content\<close> is what the opened path holds.\<close>

definition OpenFile :: "disk \<Rightarrow> byte list \<Rightarrow> nat \<times> disk" where
  "OpenFile d content =
     (length (fd_oss d),
      d\<lparr>fd_oss := fd_oss d @ [(length (os_files d), True)],
        file_size_inBytes := file_size_inBytes d @ [word_of_nat (length content)],
        os_files := os_files d @ [content]\<rparr>)"

definition CloseFile :: "disk \<Rightarrow> file_handle \<Rightarrow> disk res" where
  "CloseFile d fd =
     bindE (GetFileDescriptor d fd) (\<lambda>h.
     bindE (arr_set (fd_oss d) (unat fd) (h, False)) (\<lambda>fs. Inr (d\<lparr>fd_oss := fs\<rparr>)))"

definition ValidFD :: "disk \<Rightarrow> file_handle \<Rightarrow> bool" where
  "ValidFD d fd \<longleftrightarrow> unat fd < length (fd_oss d) \<and> snd (fd_oss d ! unat fd)"

definition GetFileSize :: "disk \<Rightarrow> file_handle \<Rightarrow> nat res" where
  "GetFileSize d fd = bindE (GetFileDescriptor d fd) (\<lambda>h. bindE (arr_get (os_files d) h) (\<lambda>f. Inr (length f)))"

section \<open>RWSysCall\<close>

definition os_write :: "disk \<Rightarrow> nat \<Rightarrow> bool \<Rightarrow> byte list \<Rightarrow> nat \<Rightarrow> disk res" where
  "os_write d h valid data offset =
     (if \<not> valid then Inr d
      else bindE (arr_get (os_files d) h) (\<lambda>f.
        bindE (arr_set (os_files d) h (pwrite f data offset)) (\<lambda>fs. Inr (d\<lparr>os_files := fs\<rparr>))))"

text \<open>
  A write that reaches past the recorded size is cut back to it; the comparison is on unsigned
  64-bit numbers, so it misses a write that starts past the end.
\<close>

definition RWSysCall_Write :: "disk \<Rightarrow> u64 \<Rightarrow> byte list \<Rightarrow> file_handle \<Rightarrow> (bool \<times> disk) res" where
  "RWSysCall_Write d offset data fd =
     bindE (arr_get (fd_oss d) (unat fd)) (\<lambda>(h, valid).
     bindE (os_write d h valid data (unat offset)) (\<lambda>d.
     bindE (arr_get (file_size_inBytes d) (unat fd)) (\<lambda>sz.
     bindE (if sz - offset < word_of_nat (length data) then disk_Resize d fd sz else Inr d) (\<lambda>d.
     Inr (True, d)))))"

text \<open>The overload on a string view neither cuts the file back nor reports success.\<close>

definition RWSysCall_Write_view :: "disk \<Rightarrow> u64 \<Rightarrow> byte list \<Rightarrow> file_handle \<Rightarrow> (bool \<times> disk) res" where
  "RWSysCall_Write_view d offset data fd =
     bindE (arr_get (fd_oss d) (unat fd)) (\<lambda>(h, valid).
     bindE (os_write d h valid data (unat offset)) (\<lambda>d. Inr (False, d)))"

text \<open>
  \<open>buf\<close> is the destination before the call; a failed read leaves it as it is, a short one is
  filled up with zeros.
\<close>

definition RWSysCall_Read :: "disk \<Rightarrow> u64 \<Rightarrow> byte list \<Rightarrow> file_handle \<Rightarrow> (bool \<times> byte list) res" where
  "RWSysCall_Read d offset buf fd =
     bindE (arr_get (fd_oss d) (unat fd)) (\<lambda>(h, valid).
     if \<not> valid then Inr (True, buf)
     else bindE (arr_get (os_files d) h) (\<lambda>f.
       let r = pread f (length buf) (unat offset)
       in Inr (True, r @ replicate (length buf - length r) 0)))"

text \<open>
  The vectored read.  \<open>preadv\<close> fills the buffers in order from consecutive bytes and leaves what the
  file does not reach as it was; beyond 512 buffers the code calls it again for the rest.
\<close>

fun preadv :: "byte list \<Rightarrow> byte list list \<Rightarrow> nat \<Rightarrow> byte list list" where
  "preadv f [] offset = []"
| "preadv f (b # bs) offset =
     (let r = pread f (length b) offset
      in (r @ drop (length r) b) # preadv f bs (offset + length b))"

function readv_rest :: "byte list \<Rightarrow> byte list list \<Rightarrow> nat \<Rightarrow> byte list list" where
  "readv_rest f bs offset =
     (if bs = [] then []
      else preadv f (take 512 bs) offset @ readv_rest f (drop 512 bs) offset)"
  by pat_completeness auto
termination by (relation "measure (\<lambda>(f, bs, offset). length bs)") auto

definition RWSysCall_Readv :: "disk \<Rightarrow> u64 \<Rightarrow> byte list list \<Rightarrow> file_handle \<Rightarrow> (bool \<times> byte list list) res" where
  "RWSysCall_Readv d offset bufs fd =
     bindE (arr_get (fd_oss d) (unat fd)) (\<lambda>(h, valid).
     if \<not> valid then Inr (True, bufs)
     else bindE (arr_get (os_files d) h) (\<lambda>f.
       Inr (True, preadv f (take 512 bufs) (unat offset) @
         (if length bufs > 512 then readv_rest f (drop 512 bufs) (unat offset) else []))))"

declare readv_rest.simps [simp del]

section \<open>Pages of a file\<close>

definition page_at :: "byte list \<Rightarrow> nat \<Rightarrow> byte list" where
  "page_at f p = map (\<lambda>i. if p * PAGE_SIZE_FILE + i < length f then f ! (p * PAGE_SIZE_FILE + i) else 0)
     [0..<PAGE_SIZE_FILE]"

definition put_page :: "byte list \<Rightarrow> nat \<Rightarrow> byte list \<Rightarrow> byte list" where
  "put_page f p data = map (\<lambda>n. if n div PAGE_SIZE_FILE = p then data ! (n mod PAGE_SIZE_FILE) else f ! n)
     [0..<length f]"

lemma page_at_length [simp]: "length (page_at f p) = PAGE_SIZE_FILE"
  by (simp add: page_at_def)

lemma put_page_length [simp]: "length (put_page f p data) = length f"
  by (simp add: put_page_def)

lemma PAGE_pos [simp]: "0 < PAGE_SIZE_FILE"
  by (simp add: PAGE_SIZE_FILE_def)

lemma put_page_nth: "n < length f \<Longrightarrow>
    put_page f p data ! n = (if n div PAGE_SIZE_FILE = p then data ! (n mod PAGE_SIZE_FILE) else f ! n)"
  by (simp add: put_page_def)

lemma page_at_nth: "i < PAGE_SIZE_FILE \<Longrightarrow>
    page_at f p ! i = (if p * PAGE_SIZE_FILE + i < length f then f ! (p * PAGE_SIZE_FILE + i) else 0)"
  by (simp add: page_at_def)

text \<open>A file whose recorded size is its size.\<close>

definition file_ok :: "disk \<Rightarrow> file_handle \<Rightarrow> byte list \<Rightarrow> bool" where
  "file_ok d fd f \<longleftrightarrow> unat fd < length (fd_oss d) \<and> unat fd < length (file_size_inBytes d) \<and>
     snd (fd_oss d ! unat fd) \<and> fst (fd_oss d ! unat fd) < length (os_files d) \<and>
     os_files d ! fst (fd_oss d ! unat fd) = f \<and> unat (file_size_inBytes d ! unat fd) = length f"

text \<open>No two open files share their contents.\<close>

definition disk_wf :: "disk \<Rightarrow> bool" where
  "disk_wf d \<longleftrightarrow> (\<forall>fd fd'. ValidFD d fd \<longrightarrow> ValidFD d fd' \<longrightarrow>
     fst (fd_oss d ! unat fd) = fst (fd_oss d ! unat fd') \<longrightarrow> fd = fd')"

definition set_file :: "disk \<Rightarrow> file_handle \<Rightarrow> byte list \<Rightarrow> disk" where
  "set_file d fd f = d\<lparr>os_files := (os_files d)[fst (fd_oss d ! unat fd) := f]\<rparr>"

lemma file_ok_unique: "file_ok d fd f \<Longrightarrow> file_ok d fd g \<Longrightarrow> f = g"
  by (simp add: file_ok_def)

lemma set_file_ok:
  assumes "disk_wf d" "file_ok d fd f" "length g = length f"
  shows "file_ok (set_file d fd g) fd' h \<longleftrightarrow> (if fd' = fd then h = g else file_ok d fd' h)"
  using assms
  by (auto simp: file_ok_def set_file_def disk_wf_def ValidFD_def nth_list_update)

lemma set_file_wf [simp]: "disk_wf (set_file d fd g) = disk_wf d"
  by (simp add: disk_wf_def set_file_def ValidFD_def)

lemma Read_page:
  assumes "file_ok d fd f" "length buf = PAGE_SIZE_FILE" "unat offset = p * PAGE_SIZE_FILE"
  shows "RWSysCall_Read d offset buf fd = Inr (True, page_at f p)"
proof -
  let ?r = "pread f (length buf) (unat offset)"
  have "?r @ replicate (length buf - length ?r) 0 = page_at f p"
    using assms(2,3) by (intro nth_equalityI) (auto simp: pread_def page_at_nth nth_append)
  then show ?thesis using assms(1) by (auto simp: RWSysCall_Read_def file_ok_def Let_def split: prod.split)
qed

lemma page_number:
  "n div PAGE_SIZE_FILE = p \<longleftrightarrow> p * PAGE_SIZE_FILE \<le> n \<and> n < p * PAGE_SIZE_FILE + PAGE_SIZE_FILE"
  "n div PAGE_SIZE_FILE = p \<Longrightarrow> n mod PAGE_SIZE_FILE = n - p * PAGE_SIZE_FILE"
proof -
  show "n div PAGE_SIZE_FILE = p \<longleftrightarrow> p * PAGE_SIZE_FILE \<le> n \<and> n < p * PAGE_SIZE_FILE + PAGE_SIZE_FILE"
    using div_nat_eqI [of PAGE_SIZE_FILE p n] div_times_less_eq_dividend [of n PAGE_SIZE_FILE]
      dividend_less_div_times [OF PAGE_pos, of n]
    by (auto simp: mult.commute add.commute)
  show "n div PAGE_SIZE_FILE = p \<Longrightarrow> n mod PAGE_SIZE_FILE = n - p * PAGE_SIZE_FILE"
    using minus_div_mult_eq_mod [of n PAGE_SIZE_FILE] by simp
qed

lemma pwrite_page:
  assumes "length data = PAGE_SIZE_FILE" "p * PAGE_SIZE_FILE < length f"
  shows "take (length f) (pwrite f data (p * PAGE_SIZE_FILE)) = put_page f p data"
    and "length (pwrite f data (p * PAGE_SIZE_FILE)) = max (length f) (p * PAGE_SIZE_FILE + PAGE_SIZE_FILE)"
proof -
  let ?o = "p * PAGE_SIZE_FILE"
  show l: "length (pwrite f data ?o) = max (length f) (?o + PAGE_SIZE_FILE)"
    using assms by (simp add: pwrite_def max_def)
  show "take (length f) (pwrite f data ?o) = put_page f p data"
  proof (rule nth_equalityI)
    fix n assume "n < length (take (length f) (pwrite f data ?o))"
    then have n: "n < length f" by simp
    have "pwrite f data ?o ! n =
        (if n < ?o then f ! n else if n < ?o + PAGE_SIZE_FILE then data ! (n - ?o) else f ! n)"
      using assms n by (auto simp: pwrite_def nth_append)
    then show "take (length f) (pwrite f data ?o) ! n = put_page f p data ! n"
      using n page_number [of n p] by (auto simp: put_page_nth)
  qed (simp add: l)
qed

lemma Write_page:
  assumes ok: "file_ok d fd f" and data: "length data = PAGE_SIZE_FILE"
    and off: "unat offset = p * PAGE_SIZE_FILE" "p * PAGE_SIZE_FILE < length f"
  shows "RWSysCall_Write d offset data fd = Inr (True, set_file d fd (put_page f p data))"
proof -
  let ?h = "fst (fd_oss d ! unat fd)" and ?sz = "file_size_inBytes d ! unat fd"
  let ?g = "pwrite f data (p * PAGE_SIZE_FILE)"
  define d1 where "d1 = d\<lparr>os_files := (os_files d)[?h := ?g]\<rparr>"
  have fd: "arr_get (fd_oss d) (unat fd) = Inr (?h, True)" "?h < length (os_files d)" "os_files d ! ?h = f"
    "unat fd < length (file_size_inBytes d)" "unat ?sz = length f"
    using ok by (simp_all add: file_ok_def prod_eq_iff arr_get_eq_Inr)
  have w: "os_write d ?h True data (unat offset) = Inr d1"
    using fd off(1) by (simp add: os_write_def d1_def)
  have sub: "unat (?sz - offset) = length f - p * PAGE_SIZE_FILE"
    using off fd(5) by (simp add: unat_sub word_le_nat_alt)
  have lt: "?sz - offset < word_of_nat (length data) \<longleftrightarrow> length f < p * PAGE_SIZE_FILE + PAGE_SIZE_FILE"
    using off(2) by (auto simp: word_less_nat_alt sub data PAGE_SIZE_FILE_def)
  show ?thesis
  proof (cases "length f < p * PAGE_SIZE_FILE + PAGE_SIZE_FILE")
    case True
    have "ftruncate ?g (length f) = put_page f p data"
      using pwrite_page [OF data off(2)] by (simp add: ftruncate_def)
    then have "disk_Resize d1 fd ?sz = Inr (set_file d fd (put_page f p data))"
      using fd by (simp add: disk_Resize_def d1_def set_file_def)
    then show ?thesis using fd w lt True by (simp add: RWSysCall_Write_def d1_def)
  next
    case False
    then have "?g = put_page f p data"
      using pwrite_page [OF data off(2)] by (metis max.absorb1 not_less order_refl take_all)
    then show ?thesis using fd w lt False by (simp add: RWSysCall_Write_def d1_def set_file_def)
  qed
qed

section \<open>Properties\<close>

text \<open>Writing a page of an open file and reading any page back: the page written has the new bytes
  as far as the file reaches and zeros beyond, every other page of the file is unchanged, and the
  file keeps its size even when the last page is only partly inside it.\<close>

theorem write_read_page:
  assumes "file_ok d fd f" "length data = PAGE_SIZE_FILE" "length buf = PAGE_SIZE_FILE"
    and "unat offset = p * PAGE_SIZE_FILE" "p * PAGE_SIZE_FILE < length f"
    and "unat offset' = q * PAGE_SIZE_FILE"
    and "disk_wf d"
  shows "\<exists>d'. RWSysCall_Write d offset data fd = Inr (True, d') \<and> GetFileSize d' fd = Inr (length f) \<and>
    RWSysCall_Read d' offset' buf fd = Inr (True, if q = p
      then map (\<lambda>i. if p * PAGE_SIZE_FILE + i < length f then data ! i else 0) [0..<PAGE_SIZE_FILE]
      else page_at f q)"
proof -
  let ?g = "put_page f p data"
  have ok: "file_ok (set_file d fd ?g) fd ?g" using set_file_ok [OF assms(7,1)] by simp
  have "page_at ?g q = (if q = p
      then map (\<lambda>i. if p * PAGE_SIZE_FILE + i < length f then data ! i else 0) [0..<PAGE_SIZE_FILE]
      else page_at f q)"
    by (intro nth_equalityI) (auto simp: page_at_nth put_page_nth)
  moreover have "GetFileSize (set_file d fd ?g) fd = Inr (length f)"
    using ok by (auto simp: GetFileSize_def GetFileDescriptor_def file_ok_def split: prod.split)
  ultimately show ?thesis
    using Write_page [OF assms(1,2,4,5)] Read_page [OF ok assms(3,6)] by auto
qed

definition small_disk :: disk where
  "small_disk = snd (OpenFile \<lparr>fd_oss = [], file_size_inBytes = [], os_files = []\<rparr> (replicate 5000 7))"

lemma small_disk_ok: "file_ok small_disk 0 (replicate 5000 7)" "disk_wf small_disk"
  by (simp_all add: small_disk_def OpenFile_def file_ok_def disk_wf_def ValidFD_def word_unat_eq_iff)

lemma write_read_page_witness:
  "\<exists>d'. RWSysCall_Write small_disk 4096 (replicate 4096 9) 0 = Inr (True, d') \<and>
     GetFileSize d' 0 = Inr 5000"
  using write_read_page [OF small_disk_ok(1), of "replicate 4096 9" "replicate 4096 0" 4096 1 4096 1] small_disk_ok(2)
  by (auto simp: PAGE_SIZE_FILE_def)

text \<open>A vectored read of more than 512 buffers reads the file from the same offset again for every
  further group: buffer 512 is filled with what belongs into buffer 0.\<close>

lemma preadv_length: "length (preadv f bs offset) = length bs"
  by (induction bs arbitrary: offset) (simp_all add: Let_def)

theorem Readv_rereads:
  assumes "file_ok d fd f" "length bufs = 513" "length (bufs ! 0) = n" "length (bufs ! 512) = n"
    and "unat offset + n \<le> length f"
  shows "\<exists>bufs'. RWSysCall_Readv d offset bufs fd = Inr (True, bufs') \<and> bufs' ! 512 = bufs' ! 0 \<and>
    bufs' ! 0 = pread f n (unat offset)"
proof -
  have "take 512 bufs \<noteq> []" using assms(2) by auto
  then obtain b bs where b: "take 512 bufs = b # bs" by (cases "take 512 bufs") auto
  then have "b = bufs ! 0" using nth_take [of 0 512 bufs] by simp
  then have b0: "length b = n" using assms(3) by simp
  have d: "drop 512 bufs = [bufs ! 512]"
    using assms(2) by (intro nth_equalityI) auto
  have r: "readv_rest f [c] k = preadv f [c] k" for c k
    by (simp add: readv_rest.simps)
  have full: "length c = n \<Longrightarrow> preadv f (c # cs) (unat offset) ! 0 = pread f n (unat offset)" for c cs
    using assms(5) by (simp add: Let_def pread_def)
  have "RWSysCall_Readv d offset bufs fd =
      Inr (True, preadv f (b # bs) (unat offset) @ preadv f [bufs ! 512] (unat offset))"
    using assms(1,2) b d r by (auto simp: RWSysCall_Readv_def file_ok_def split: prod.split)
  moreover have "length (preadv f (b # bs) (unat offset)) = 512"
    unfolding preadv_length b [symmetric] using assms(2) by simp
  ultimately show ?thesis
    using full [OF b0, of bs] full [OF assms(4), of "[]"] by (auto simp: nth_append simp del: preadv.simps)
qed

lemma Readv_rereads_witness:
  "\<exists>bufs'. RWSysCall_Readv small_disk 10 (replicate 513 [0, 0]) 0 = Inr (True, bufs') \<and> bufs' ! 512 = bufs' ! 0"
  using Readv_rereads [OF small_disk_ok(1), of "replicate 513 [0, 0]" 2 10] by auto

end
