(* ===== verification/Utils.thy ===== *)
theory Utils
  imports PTE
begin

text \<open>
  Containers of \<^verbatim>\<open>include/utils.h\<close>: the free list of a pool (\<open>lockfree_queue_type\<close>), the bounded
  stack \<open>VectorSync\<close> and the growable bit set \<open>bitset_dynamic\<close>.  The free list wraps a queue of
  the Boost library, which is a parameter here: a record of its two operations, with the
  documented behaviour of a first-in first-out queue stated by \<open>fifo_laws\<close>.
\<close>

type_synonym frame = nat

section \<open>The free list\<close>

record 'q queue_ops =
  q_push :: "'q \<Rightarrow> frame \<Rightarrow> bool \<times> 'q"
  q_pop :: "'q \<Rightarrow> (frame \<times> 'q) option"

text \<open>\<open>qrep q xs\<close>: the queue \<open>q\<close> holds \<open>xs\<close>, the oldest first.\<close>

definition fifo_laws :: "'q queue_ops \<Rightarrow> ('q \<Rightarrow> frame list \<Rightarrow> bool) \<Rightarrow> bool" where
  "fifo_laws qops qrep \<longleftrightarrow>
     (\<forall>q xs x. qrep q xs \<longrightarrow> fst (q_push qops q x) \<and> qrep (snd (q_push qops q x)) (xs @ [x])) \<and>
     (\<forall>q. qrep q [] \<longrightarrow> q_pop qops q = None) \<and>
     (\<forall>q x xs. qrep q (x # xs) \<longrightarrow> (\<exists>q'. q_pop qops q = Some (x, q') \<and> qrep q' xs))"

record 'q lockfree_queue =
  lq_queue :: 'q
  lq_size :: u64
  lq_capacity :: u64

definition lq_new :: "'q \<Rightarrow> u64 \<Rightarrow> 'q lockfree_queue" where
  "lq_new queue capacity = \<lparr>lq_queue = queue, lq_size = 0, lq_capacity = capacity\<rparr>"

definition lq_Push :: "'q queue_ops \<Rightarrow> 'q lockfree_queue \<Rightarrow> frame \<Rightarrow> bool \<times> 'q lockfree_queue" where
  "lq_Push qops q item =
     (let q = q\<lparr>lq_size := lq_size q + 1\<rparr>; (ok, qq) = q_push qops (lq_queue q) item
      in (ok, q\<lparr>lq_queue := qq\<rparr>))"

definition lq_Poll :: "'q queue_ops \<Rightarrow> 'q lockfree_queue \<Rightarrow> frame option \<times> 'q lockfree_queue" where
  "lq_Poll qops q =
     (case q_pop qops (lq_queue q) of
        None \<Rightarrow> (None, q)
      | Some (item, qq) \<Rightarrow> (Some item, q\<lparr>lq_queue := qq, lq_size := lq_size q - 1\<rparr>))"

definition lq_Size :: "'q lockfree_queue \<Rightarrow> u64" where
  "lq_Size q = lq_size q"

definition lq_GetMemoryUsage :: "'q lockfree_queue \<Rightarrow> u64" where
  "lq_GetMemoryUsage q =
     (let element_size = 4; elements_memory = element_size * lq_capacity q;
          internal_overhead = 8 * lq_capacity q + 2 * 8
      in elements_memory + internal_overhead)"

definition lq_rep :: "('q \<Rightarrow> frame list \<Rightarrow> bool) \<Rightarrow> 'q lockfree_queue \<Rightarrow> frame list \<Rightarrow> bool" where
  "lq_rep qrep q xs \<longleftrightarrow> qrep (lq_queue q) xs \<and> lq_size q = word_of_nat (length xs)"

lemma lq_new_rep: "qrep q0 [] \<Longrightarrow> lq_rep qrep (lq_new q0 c) []"
  by (simp add: lq_rep_def lq_new_def)

lemma lq_Push_rep:
  assumes "fifo_laws qops qrep" "lq_rep qrep q xs"
  obtains q' where "lq_Push qops q x = (True, q')" "lq_rep qrep q' (xs @ [x])"
proof -
  obtain ok qq where p: "q_push qops (lq_queue q) x = (ok, qq)" by (cases "q_push qops (lq_queue q) x")
  have "fst (q_push qops (lq_queue q) x) \<and> qrep (snd (q_push qops (lq_queue q) x)) (xs @ [x])"
    using assms unfolding fifo_laws_def lq_rep_def by blast
  then have "ok" "qrep qq (xs @ [x])" by (simp_all add: p)
  moreover have "lq_size q = word_of_nat (length xs)" using assms(2) by (simp add: lq_rep_def)
  ultimately show thesis
    using p by (intro that [of "q\<lparr>lq_size := lq_size q + 1, lq_queue := qq\<rparr>"])
      (simp_all add: lq_Push_def lq_rep_def Let_def)
qed

lemma lq_Poll_empty:
  "fifo_laws qops qrep \<Longrightarrow> lq_rep qrep q [] \<Longrightarrow> lq_Poll qops q = (None, q)"
  by (simp add: fifo_laws_def lq_rep_def lq_Poll_def)

lemma lq_Poll_rep:
  assumes "fifo_laws qops qrep" "lq_rep qrep q (x # xs)"
  obtains q' where "lq_Poll qops q = (Some x, q')" "lq_rep qrep q' xs"
proof -
  obtain qq where "q_pop qops (lq_queue q) = Some (x, qq)" "qrep qq xs"
    using assms unfolding fifo_laws_def lq_rep_def by blast
  moreover have "lq_size q = word_of_nat (length xs) + 1" using assms(2) by (simp add: lq_rep_def)
  ultimately show thesis
    by (intro that [of "q\<lparr>lq_queue := qq, lq_size := lq_size q - 1\<rparr>"]) (simp_all add: lq_Poll_def lq_rep_def)
qed

text \<open>The laws can hold: a list is a queue.\<close>

definition list_queue :: "frame list queue_ops" where
  "list_queue = \<lparr>q_push = \<lambda>xs x. (True, xs @ [x]),
     q_pop = \<lambda>xs. case xs of [] \<Rightarrow> None | x # ys \<Rightarrow> Some (x, ys)\<rparr>"

lemma list_queue_laws: "fifo_laws list_queue (=)"
  by (simp add: fifo_laws_def list_queue_def)

section \<open>VectorSync\<close>

record 'a vector_sync =
  vs_data :: "'a list"
  vs_size :: nat
  vs_capacity :: nat

text \<open>\<open>dflt\<close> is the value-initialised element that \<open>resize\<close> fills the vector with.\<close>

definition vs_new :: "'a \<Rightarrow> nat \<Rightarrow> 'a vector_sync" where
  "vs_new dflt capacity = \<lparr>vs_data = replicate capacity dflt, vs_size = 0, vs_capacity = capacity\<rparr>"

definition vs_GetItem :: "'a vector_sync \<Rightarrow> ('a option \<times> 'a vector_sync) res" where
  "vs_GetItem v =
     (let size_now = vs_size v in
      if size_now = 0 then Inr (None, v)
      else bindE (arr_get (vs_data v) (size_now - 1)) (\<lambda>x. Inr (Some x, v\<lparr>vs_size := vs_size v - 1\<rparr>)))"

definition vs_InsertItem :: "'a vector_sync \<Rightarrow> 'a \<Rightarrow> (bool \<times> 'a vector_sync) res" where
  "vs_InsertItem v item =
     (let size_now = vs_size v in
      if vs_capacity v \<le> size_now then Inr (False, v)
      else bindE (arr_set (vs_data v) size_now item) (\<lambda>data.
        let v = v\<lparr>vs_data := data, vs_size := vs_size v + 1\<rparr> in
        bindE (arr_get (vs_data v) size_now) (\<lambda>x.
        bindE (assertE (x = item)) (\<lambda>_. Inr (True, v)))))"

definition vs_Empty :: "'a vector_sync \<Rightarrow> bool" where
  "vs_Empty v \<longleftrightarrow> vs_size v = 0"

definition vs_GetSize :: "'a vector_sync \<Rightarrow> nat" where
  "vs_GetSize v = vs_size v"

text \<open>The items from the one taken next to the one inserted first.\<close>

definition vs_stack :: "'a vector_sync \<Rightarrow> 'a list" where
  "vs_stack v = rev (take (vs_size v) (vs_data v))"

definition vs_wf :: "'a vector_sync \<Rightarrow> bool" where
  "vs_wf v \<longleftrightarrow> length (vs_data v) = vs_capacity v \<and> vs_size v \<le> vs_capacity v"

lemma vs_stack_length: "vs_wf v \<Longrightarrow> length (vs_stack v) = vs_size v"
  by (simp add: vs_stack_def vs_wf_def)

lemma vs_GetItem_stack:
  assumes "vs_wf v"
  shows "\<exists>v'. vs_wf v' \<and> vs_capacity v' = vs_capacity v \<and> vs_GetItem v =
    Inr (if vs_stack v = [] then None else Some (hd (vs_stack v)), v') \<and> vs_stack v' = tl (vs_stack v)"
proof (cases "vs_size v")
  case 0
  then show ?thesis using assms by (auto simp: vs_GetItem_def vs_stack_def)
next
  case (Suc n)
  then have n: "n < length (vs_data v)" using assms by (simp add: vs_wf_def)
  then have "vs_stack v = vs_data v ! n # rev (take n (vs_data v))"
    using Suc by (simp add: vs_stack_def take_Suc_conv_app_nth)
  then show ?thesis using Suc n assms by (auto simp: vs_GetItem_def vs_stack_def vs_wf_def)
qed

lemma vs_InsertItem_stack:
  assumes "vs_wf v"
  shows "\<exists>v'. vs_wf v' \<and> vs_capacity v' = vs_capacity v \<and>
    (if length (vs_stack v) < vs_capacity v
     then vs_InsertItem v x = Inr (True, v') \<and> vs_stack v' = x # vs_stack v
     else vs_InsertItem v x = Inr (False, v') \<and> v' = v)"
proof (cases "vs_size v < vs_capacity v")
  case True
  then have n: "vs_size v < length (vs_data v)" using assms by (simp add: vs_wf_def)
  then have "rev (take (Suc (vs_size v)) ((vs_data v)[vs_size v := x])) = x # vs_stack v"
    by (simp add: take_Suc_conv_app_nth vs_stack_def)
  then show ?thesis
    using True n assms vs_stack_length [OF assms]
    by (simp add: vs_InsertItem_def vs_stack_def vs_wf_def Let_def)
next
  case False
  then show ?thesis using assms vs_stack_length [OF assms] by (auto simp: vs_InsertItem_def)
qed

section \<open>bitset_dynamic\<close>

record bitset =
  bs_size :: nat
  bs_bits :: "u8 list"

definition bitset_new :: "nat \<Rightarrow> bitset" where
  "bitset_new n = \<lparr>bs_size = n, bs_bits = replicate (ceil_div n 8) 0\<rparr>"

definition bitset_resize :: "bitset \<Rightarrow> nat \<Rightarrow> bool \<times> bitset" where
  "bitset_resize b new_size =
     (if new_size \<le> bs_size b then (True, b)
      else (True, \<lparr>bs_size = new_size,
        bs_bits = take (ceil_div (bs_size b) 8) (bs_bits b) @
          replicate (ceil_div new_size 8 - ceil_div (bs_size b) 8) 0\<rparr>))"

definition bitset_get :: "bitset \<Rightarrow> nat \<Rightarrow> bool res" where
  "bitset_get b idx =
     bindE (assertE (idx < bs_size b)) (\<lambda>_.
     bindE (arr_get (bs_bits b) (idx div 8)) (\<lambda>x.
     Inr (drop_bit (idx mod 8) (x AND push_bit (idx mod 8) 1) \<noteq> 0)))"

definition bitset_set :: "bitset \<Rightarrow> nat \<Rightarrow> bool \<Rightarrow> (bool \<times> bitset) res" where
  "bitset_set b idx mark =
     bindE (assertE (idx < bs_size b)) (\<lambda>_.
     bindE (arr_get (bs_bits b) (idx div 8)) (\<lambda>x.
     bindE (arr_set (bs_bits b) (idx div 8)
       (if mark then x OR push_bit (idx mod 8) 1 else x AND NOT (push_bit (idx mod 8) 1))) (\<lambda>xs.
     Inr (True, b\<lparr>bs_bits := xs\<rparr>))))"

text \<open>The bits of the last byte that lie past the size are clear.\<close>

definition bitset_wf :: "bitset \<Rightarrow> bool" where
  "bitset_wf b \<longleftrightarrow> length (bs_bits b) = ceil_div (bs_size b) 8 \<and>
     (\<forall>k < length (bs_bits b) * 8. bs_size b \<le> k \<longrightarrow> \<not> bit (bs_bits b ! (k div 8)) (k mod 8))"

lemma bitset_index:
  assumes "bitset_wf b" "i < bs_size b"
  shows "i div 8 < length (bs_bits b)"
proof -
  have "i < length (bs_bits b) * 8"
    using ceil_div_bounds(1) [of 8 "bs_size b"] assms by (simp add: bitset_wf_def)
  then show ?thesis by (simp add: less_mult_imp_div_less)
qed

text \<open>A bit of the set, as a bit of the byte that holds it.\<close>

lemma bitset_get_bit:
  assumes "bitset_wf b" "i < bs_size b"
  shows "bitset_get b i = Inr (bit (bs_bits b ! (i div 8)) (i mod 8))"
proof -
  have "(drop_bit k (x AND push_bit k 1) \<noteq> 0) = bit x k" if "k < 8" for x :: u8 and k
  proof -
    have "bit (drop_bit k (x AND push_bit k 1)) n \<longleftrightarrow> n = 0 \<and> bit x k" for n
      using that by (auto simp: bit_simps)
    then show ?thesis by (metis bit_0_eq bit_eqI bot_apply bot_bool_def)
  qed
  then show ?thesis using bitset_index [OF assms] assms(2) by (simp add: bitset_get_def)
qed

lemma bitset_set_bits:
  assumes wf: "bitset_wf b" and i: "i < bs_size b"
  obtains b' where "bitset_set b i mark = Inr (True, b')" "bitset_wf b'" "bs_size b' = bs_size b"
    "\<And>k. k < length (bs_bits b) * 8 \<Longrightarrow> bit (bs_bits b' ! (k div 8)) (k mod 8) =
       (if k = i then mark else bit (bs_bits b ! (k div 8)) (k mod 8))"
proof -
  define x where "x = bs_bits b ! (i div 8)"
  define y where "y = (if mark then x OR push_bit (i mod 8) 1 else x AND NOT (push_bit (i mod 8) 1))"
  let ?b = "b\<lparr>bs_bits := (bs_bits b)[i div 8 := y]\<rparr>"
  have s: "bitset_set b i mark = Inr (True, ?b)"
    using bitset_index [OF wf i] i by (simp add: bitset_set_def x_def y_def)
  have y: "bit y n \<longleftrightarrow> (if n = i mod 8 then mark else bit x n)" if "n < 8" for n
    using that by (auto simp: y_def bit_simps)
  have bits: "bit (bs_bits ?b ! (k div 8)) (k mod 8) =
      (if k = i then mark else bit (bs_bits b ! (k div 8)) (k mod 8))" if "k < length (bs_bits b) * 8" for k
  proof (cases "k div 8 = i div 8")
    case True
    then have "k = i \<longleftrightarrow> k mod 8 = i mod 8" by (metis div_mult_mod_eq)
    then show ?thesis using True bitset_index [OF wf i] y [of "k mod 8"] by (simp add: x_def)
  qed auto
  have "bitset_wf ?b" using wf i bits by (simp add: bitset_wf_def)
  then show thesis using s bits by (intro that [of ?b]) simp_all
qed

lemma bitset_resize_bits:
  assumes wf: "bitset_wf b" and n: "bs_size b \<le> n"
  defines "c \<equiv> snd (bitset_resize b n)"
  shows "bs_size c = n" "bitset_wf c" "length (bs_bits c) = ceil_div n 8"
    "k < ceil_div n 8 * 8 \<Longrightarrow> bit (bs_bits c ! (k div 8)) (k mod 8) \<longleftrightarrow>
       k < bs_size b \<and> bit (bs_bits b ! (k div 8)) (k mod 8)"
proof -
  have mono: "ceil_div (bs_size b) 8 \<le> ceil_div n 8"
    using ceil_div_bounds [of 8 n] ceil_div_bounds [of 8 "bs_size b"] n by simp
  have len: "length (bs_bits b) = ceil_div (bs_size b) 8" using wf by (simp add: bitset_wf_def)
  show sz: "bs_size c = n" and l: "length (bs_bits c) = ceil_div n 8"
    using n mono len by (auto simp: c_def bitset_resize_def)
  have eq: "bs_bits c ! j = (if j < length (bs_bits b) then bs_bits b ! j else 0)" if "j < ceil_div n 8" for j
    using that n len by (auto simp: c_def bitset_resize_def nth_append)
  have bits: "bit (bs_bits c ! (k div 8)) (k mod 8) \<longleftrightarrow>
      k < bs_size b \<and> bit (bs_bits b ! (k div 8)) (k mod 8)" if "k < ceil_div n 8 * 8" for k
  proof (cases "k div 8 < length (bs_bits b)")
    case True
    then have "k < length (bs_bits b) * 8" by (simp add: div_less_iff_less_mult)
    then show ?thesis
      using wf eq [of "k div 8"] that True not_less [of k "bs_size b"]
      by (auto simp: bitset_wf_def less_mult_imp_div_less)
  next
    case False
    then have "\<not> k < bs_size b" using bitset_index [OF wf] by blast
    then show ?thesis using eq [of "k div 8"] that False by (simp add: less_mult_imp_div_less)
  qed
  then show "k < ceil_div n 8 * 8 \<Longrightarrow> bit (bs_bits c ! (k div 8)) (k mod 8) \<longleftrightarrow>
       k < bs_size b \<and> bit (bs_bits b ! (k div 8)) (k mod 8)" .
  show "bitset_wf c" using sz l n bits by (simp add: bitset_wf_def)
qed

text \<open>A bit set behaves as a function from indices to truth values: \<open>set\<close> changes the one bit it is
  given, growing the set keeps every bit and adds cleared ones, and both keep the set well-formed.\<close>

theorem bitset_refines_function:
  assumes "bitset_wf b" "i < bs_size b" "j < bs_size b" "bs_size b \<le> n" "k < n"
  shows "(\<exists>b'. bitset_set b i mark = Inr (True, b') \<and> bitset_wf b' \<and> bs_size b' = bs_size b \<and>
      bitset_get b' j = (if j = i then Inr mark else bitset_get b j)) \<and>
    bitset_wf (snd (bitset_resize b n)) \<and>
    bitset_get (snd (bitset_resize b n)) k = (if k < bs_size b then bitset_get b k else Inr False)"
proof (intro conjI)
  obtain b' where b': "bitset_set b i mark = Inr (True, b')" "bitset_wf b'" "bs_size b' = bs_size b"
    "\<And>k. k < length (bs_bits b) * 8 \<Longrightarrow> bit (bs_bits b' ! (k div 8)) (k mod 8) =
       (if k = i then mark else bit (bs_bits b ! (k div 8)) (k mod 8))"
    by (rule bitset_set_bits [OF assms(1,2), of mark]) blast
  have "j < length (bs_bits b) * 8"
    using bitset_index [OF assms(1,3)] by (simp add: div_less_iff_less_mult)
  then show "\<exists>b'. bitset_set b i mark = Inr (True, b') \<and> bitset_wf b' \<and> bs_size b' = bs_size b \<and>
      bitset_get b' j = (if j = i then Inr mark else bitset_get b j)"
    using b' assms(3) bitset_get_bit [OF b'(2), of j] by (auto simp: bitset_get_bit [OF assms(1,3)])
  note c = bitset_resize_bits [OF assms(1,4)]
  show "bitset_wf (snd (bitset_resize b n))" by (rule c)
  have "k < ceil_div n 8 * 8" using ceil_div_bounds(1) [of 8 n] assms(5) by simp
  then show "bitset_get (snd (bitset_resize b n)) k = (if k < bs_size b then bitset_get b k else Inr False)"
    using bitset_get_bit [OF c(2), of k] c(1) c(4) [of k] bitset_get_bit [OF assms(1), of k] assms(5) by simp
qed

lemma bitset_refines_function_witness:
  "\<exists>b'. bitset_set (bitset_new 10) 9 True = Inr (True, b') \<and> bitset_get b' 8 = Inr False"
proof -
  have "bitset_get (bitset_new 10) 8 = Inr False" by code_simp
  moreover have "bitset_wf (bitset_new 10)"
    by (auto simp: bitset_wf_def bitset_new_def ceil_div_def less_mult_imp_div_less)
  ultimately show ?thesis
    using bitset_refines_function [of "bitset_new 10" 9 8 20 11 True] by (auto simp: bitset_new_def)
qed

end
