(* ===== verification/BufferPool.thy ===== *)
theory BufferPool
  imports Replacer Disk Utils
begin

text \<open>
  One buffer pool (\<^verbatim>\<open>include/buffer_pool.h\<close>, \<^verbatim>\<open>src/buffer_pool.cpp\<close>).  A pool owns its frames (a part
  of the memory pool), a page table, a replacement policy and a list of free frames; it shares the
  files with the other pools, so every operation takes the disk and gives it back.  The policy is the
  record of operations \<open>ops\<close>; the code chooses \<open>SieveReplacer_v3\<close>.  A frame is named by its number,
  which stands for both pointers of \<open>pair_min<PTE*, char*>\<close>; \<open>None\<close> is the pair of null pointers.
  A reader, a writer and an eviction run one after the other here; interference between threads is
  the subject of the theories \<open>Cas\<close> and \<open>PTE\<close>.
\<close>

section \<open>Copying between a page and a buffer\<close>

definition memcpy :: "byte list \<Rightarrow> nat \<Rightarrow> byte list \<Rightarrow> nat \<Rightarrow> byte list res" where
  "memcpy dst offset src n =
     (if offset + n \<le> length dst \<and> n \<le> length src
      then Inr (take offset dst @ take n src @ drop (offset + n) dst) else Inl OutOfBounds)"

definition clip_to_page :: "u64 \<Rightarrow> u64 \<Rightarrow> u64" where
  "clip_to_page page_offset object_size =
     (if word_of_nat PAGE_SIZE_FILE < object_size + page_offset
      then word_of_nat PAGE_SIZE_FILE - page_offset else object_size)"

definition pti_SetObject :: "byte list \<Rightarrow> byte list \<Rightarrow> u64 \<Rightarrow> u64 \<Rightarrow> (u64 \<times> byte list) res" where
  "pti_SetObject buf dst page_offset object_size =
     (let object_size = clip_to_page page_offset object_size in
      bindE (memcpy dst (unat page_offset) buf (unat object_size)) (\<lambda>dst. Inr (object_size, dst)))"

definition pti_GetObject :: "byte list \<Rightarrow> byte list \<Rightarrow> u64 \<Rightarrow> u64 \<Rightarrow> (u64 \<times> byte list) res" where
  "pti_GetObject src buf page_offset object_size =
     (let object_size = clip_to_page page_offset object_size in
      bindE (memcpy buf 0 (drop (unat page_offset) src) (unat object_size)) (\<lambda>buf. Inr (object_size, buf)))"

section \<open>The state of a pool\<close>

record ('r, 'q) buffer_pool =
  bp_pool_ID :: u32
  bp_pool_size :: u32
  bp_memory_pool :: "byte list list"
  bp_page_table :: page_table
  bp_replacer :: 'r
  bp_free_list :: "'q lockfree_queue"

fun push_all :: "'q queue_ops \<Rightarrow> frame list \<Rightarrow> 'q lockfree_queue \<Rightarrow> 'q lockfree_queue" where
  "push_all qops [] q = q"
| "push_all qops (m # ms) q = push_all qops ms (snd (lq_Push qops q m))"

fun register_all :: "nat \<Rightarrow> nat list \<Rightarrow> page_table \<Rightarrow> page_table" where
  "register_all pool_num [] pt = pt"
| "register_all pool_num (n # ns) pt =
     register_all pool_num ns (snd (pt_RegisterFile pool_num pt (word_of_nat (ceil_div n PAGE_SIZE_FILE))))"

fun file_sizes :: "disk \<Rightarrow> nat \<Rightarrow> nat list res" where
  "file_sizes d 0 = Inr []"
| "file_sizes d (Suc n) =
     bindE (file_sizes d n) (\<lambda>ns. bindE (GetFileSize d (word_of_nat n)) (\<lambda>s. Inr (ns @ [s])))"

text \<open>
  \<open>rnew n\<close> constructs the policy for \<open>n\<close> frames and \<open>qnew\<close> is the empty queue; \<open>mem\<close> is the part
  of the memory pool that the manager gives to this pool.
\<close>

definition bp_init ::
  "(nat \<Rightarrow> 'r res) \<Rightarrow> 'q queue_ops \<Rightarrow> 'q \<Rightarrow> nat \<Rightarrow> u32 \<Rightarrow> u32 \<Rightarrow> byte list list \<Rightarrow> disk \<Rightarrow> partitioner \<Rightarrow>
   ('r, 'q) buffer_pool res" where
  "bp_init rnew qops qnew pool_num pool_ID pool_size mem d partitioner =
     (let pt = pt_new (unat pool_size) partitioner in
      bindE (rnew (unat pool_size)) (\<lambda>r.
      bindE (file_sizes d (length (fd_oss d))) (\<lambda>sizes.
      let pt = register_all pool_num sizes pt;
          free = push_all qops [0..<unat pool_size] (lq_new qnew (ucast pool_size))
      in Inr \<lparr>bp_pool_ID = pool_ID, bp_pool_size = pool_size, bp_memory_pool = mem, bp_page_table = pt,
              bp_replacer = r, bp_free_list = free\<rparr>)))"

definition bp_RegisterFile :: "nat \<Rightarrow> ('r, 'q) buffer_pool \<Rightarrow> disk \<Rightarrow> file_handle \<Rightarrow> ('r, 'q) buffer_pool res" where
  "bp_RegisterFile pool_num bp d fd =
     bindE (GetFileSizeFast d fd) (\<lambda>sz.
     Inr (bp\<lparr>bp_page_table := snd (pt_RegisterFile pool_num (bp_page_table bp)
       (word_of_nat (ceil_div (unat sz) PAGE_SIZE_FILE)))\<rparr>))"

definition bp_CloseFile :: "('r, 'q) buffer_pool \<Rightarrow> file_handle \<Rightarrow> ('r, 'q) buffer_pool res" where
  "bp_CloseFile bp fd =
     bindE (pt_DeregisterFile (bp_page_table bp) fd) (\<lambda>(_, pt). Inr (bp\<lparr>bp_page_table := pt\<rparr>))"

definition bp_Resize :: "('r, 'q) buffer_pool \<Rightarrow> file_handle \<Rightarrow> u64 \<Rightarrow> ('r, 'q) buffer_pool res" where
  "bp_Resize bp fd new_size =
     bindE (pt_ResizeFile (bp_page_table bp) fd (word_of_nat (ceil_div (unat new_size) PAGE_SIZE_FILE)))
       (\<lambda>(_, pt). Inr (bp\<lparr>bp_page_table := pt\<rparr>))"

definition GetFreePageNum :: "('r, 'q) buffer_pool \<Rightarrow> u64" where
  "GetFreePageNum bp = lq_Size (bp_free_list bp)"

text \<open>The file offset of a page, a product of 64-bit numbers.\<close>

definition page_offset_of :: "fpage_id \<Rightarrow> u64" where
  "page_offset_of p = ucast p * word_of_nat PAGE_SIZE_FILE"

text \<open>Synchronous I/O between a file and frame \<open>m\<close>.\<close>

definition ReadWriteSync ::
  "('r, 'q) buffer_pool \<Rightarrow> disk \<Rightarrow> u64 \<Rightarrow> mpage_id \<Rightarrow> file_handle \<Rightarrow> bool \<Rightarrow>
   (bool \<times> ('r, 'q) buffer_pool \<times> disk) res" where
  "ReadWriteSync bp d offset m fd is_read =
     bindE (arr_get (bp_memory_pool bp) m) (\<lambda>buf.
     if is_read then
       bindE (RWSysCall_Read d offset buf fd) (\<lambda>(ok, buf).
       bindE (arr_set (bp_memory_pool bp) m buf) (\<lambda>mem. Inr (ok, bp\<lparr>bp_memory_pool := mem\<rparr>, d)))
     else
       bindE (RWSysCall_Write d offset buf fd) (\<lambda>(ok, d). Inr (ok, bp, d)))"

section \<open>Pinning and flushing\<close>

definition Pin ::
  "'r replacer_ops \<Rightarrow> ('r, 'q) buffer_pool \<Rightarrow> fpage_id \<Rightarrow> file_handle \<Rightarrow>
   (mpage_id option \<times> ('r, 'q) buffer_pool) res" where
  "Pin ops bp p fd =
     bindE (FindMapping (bp_page_table bp) fd p) (\<lambda>(success, m).
     if success then
       bindE (FromPageId (bp_page_table bp) m) (\<lambda>w.
       let (has_inc, w') = IncRefCount1 p fd w;
           bp = bp\<lparr>bp_page_table := put_pte (bp_page_table bp) m w'\<rparr> in
       if has_inc then
         bindE (op_Promote ops (bp_replacer bp) m) (\<lambda>(ok, r).
         bindE (assertE ok) (\<lambda>_. Inr (Some m, bp\<lparr>bp_replacer := r\<rparr>)))
       else Inr (None, bp))
     else Inr (None, bp))"

definition FlushPage ::
  "'q queue_ops \<Rightarrow> ('r, 'q) buffer_pool \<Rightarrow> disk \<Rightarrow> fpage_id \<Rightarrow> file_handle \<Rightarrow> bool \<Rightarrow>
   (bool \<times> ('r, 'q) buffer_pool \<times> disk) res" where
  "FlushPage qops bp d p fd delete_from_memory =
     bindE (LockMapping (bp_page_table bp) fd p) (\<lambda>((locked, m), pt).
     let bp = bp\<lparr>bp_page_table := pt\<rparr> in
     if \<not> locked then Inr (False, bp, d)
     else if m \<noteq> EMPTY_VALUE then
       bindE (FromPageId (bp_page_table bp) m) (\<lambda>w.
       bindE (if pte_dirty w then
           bindE (ReadWriteSync bp d (page_offset_of p) m (pte_fd_cur w) False) (\<lambda>(ok, bp, d).
           bindE (assertE ok) (\<lambda>_.
           Inr (bp\<lparr>bp_page_table := put_pte (bp_page_table bp) m (set_dirty False w)\<rparr>, d)))
         else Inr (bp, d)) (\<lambda>(bp, d).
       if delete_from_memory then
         bindE (DeleteMapping (bp_page_table bp) fd p m) (\<lambda>(ok, pt).
         bindE (assertE ok) (\<lambda>_.
         Inr (True, bp\<lparr>bp_page_table := pt, bp_free_list := snd (lq_Push qops (bp_free_list bp) m)\<rparr>, d)))
       else Inr (True, bp, d)))
     else
       bindE (UnLockMapping (bp_page_table bp) fd p m) (\<lambda>(ok, pt).
       bindE (assertE ok) (\<lambda>_. Inr (True, bp\<lparr>bp_page_table := pt\<rparr>, d))))"

definition GetVictimPage ::
  "'r replacer_ops \<Rightarrow> ('r, 'q) buffer_pool \<Rightarrow> (mpage_id option \<times> ('r, 'q) buffer_pool) res" where
  "GetVictimPage ops bp =
     bindE (op_Size ops (bp_replacer bp)) (\<lambda>n.
     if n = 0 then Inr (None, bp)
     else bindE (op_Victim ops (bp_replacer bp) (bp_page_table bp)) (\<lambda>((ok, m), r, pt).
       Inr (if ok then Some m else None, bp\<lparr>bp_replacer := r, bp_page_table := pt\<rparr>)))"

section \<open>Fetching a page\<close>

datatype phase = Begin | ReBegin | Rebegin | Initing | Evicting | EvictingFinish | Loading
  | LoadingFinish | End

record ('r, 'q) fetch_state =
  fs_stat :: phase
  fs_ret :: "mpage_id option"
  fs_bp :: "('r, 'q) buffer_pool"
  fs_disk :: disk

definition fs_frame :: "('r, 'q) fetch_state \<Rightarrow> mpage_id res" where
  "fs_frame st = (case fs_ret st of None \<Rightarrow> Inl NullDeref | Some m \<Rightarrow> Inr m)"

definition pin_phase ::
  "'r replacer_ops \<Rightarrow> fpage_id \<Rightarrow> file_handle \<Rightarrow> ('r, 'q) fetch_state \<Rightarrow> ('r, 'q) fetch_state res" where
  "pin_phase ops p fd st =
     bindE (Pin ops (fs_bp st) p fd) (\<lambda>(ret, bp).
     Inr (st\<lparr>fs_ret := ret, fs_bp := bp, fs_stat := if ret \<noteq> None then End else fs_stat st\<rparr>))"

definition begin_phase ::
  "'r replacer_ops \<Rightarrow> fpage_id \<Rightarrow> file_handle \<Rightarrow> ('r, 'q) fetch_state \<Rightarrow> ('r, 'q) fetch_state res" where
  "begin_phase ops p fd st =
     bindE (LockMapping (bp_page_table (fs_bp st)) fd p) (\<lambda>((locked, m), pt).
     let st = st\<lparr>fs_bp := (fs_bp st)\<lparr>bp_page_table := pt\<rparr>\<rparr> in
     if locked then
       if m = EMPTY_VALUE then Inr (st\<lparr>fs_stat := Initing\<rparr>)
       else bindE (UnLockMapping pt fd p m) (\<lambda>(ok, pt).
         bindE (assertE ok) (\<lambda>_. pin_phase ops p fd (st\<lparr>fs_bp := (fs_bp st)\<lparr>bp_page_table := pt\<rparr>\<rparr>)))
     else if m \<noteq> BUSY_VALUE then pin_phase ops p fd st
     else Inr st)"

definition initing_phase ::
  "'r replacer_ops \<Rightarrow> 'q queue_ops \<Rightarrow> ('r, 'q) fetch_state \<Rightarrow> ('r, 'q) fetch_state res" where
  "initing_phase ops qops st =
     (let bp = fs_bp st; (polled, q) = lq_Poll qops (bp_free_list bp); bp = bp\<lparr>bp_free_list := q\<rparr> in
      case polled of
        Some m \<Rightarrow> Inr (st\<lparr>fs_stat := Loading, fs_ret := Some m, fs_bp := bp\<rparr>)
      | None \<Rightarrow>
          bindE (op_Victim ops (bp_replacer bp) (bp_page_table bp)) (\<lambda>((ok, m), r, pt).
          bindE (assertE ok) (\<lambda>_.
          Inr (st\<lparr>fs_stat := Evicting, fs_ret := Some m,
                  fs_bp := bp\<lparr>bp_replacer := r, bp_page_table := pt\<rparr>\<rparr>))))"

definition evicting_phase :: "('r, 'q) fetch_state \<Rightarrow> ('r, 'q) fetch_state res" where
  "evicting_phase st =
     bindE (fs_frame st) (\<lambda>m.
     bindE (FromPageId (bp_page_table (fs_bp st)) m) (\<lambda>w.
     bindE (if pte_dirty w then
         bindE (ReadWriteSync (fs_bp st) (fs_disk st) (page_offset_of (pte_fpage_id_cur w)) m
             (pte_fd_cur w) False) (\<lambda>(ok, bp, d). bindE (assertE ok) (\<lambda>_. Inr (bp, d)))
       else Inr (fs_bp st, fs_disk st)) (\<lambda>(bp, d).
     bindE (DeleteMapping (bp_page_table bp) (pte_fd_cur w) (pte_fpage_id_cur w) m) (\<lambda>(ok, pt).
     bindE (assertE ok) (\<lambda>_.
     Inr (st\<lparr>fs_stat := Loading, fs_bp := bp\<lparr>bp_page_table := pt\<rparr>, fs_disk := d\<rparr>))))))"

definition loading_phase ::
  "'r replacer_ops \<Rightarrow> fpage_id \<Rightarrow> file_handle \<Rightarrow> ('r, 'q) fetch_state \<Rightarrow> ('r, 'q) fetch_state res" where
  "loading_phase ops p fd st =
     bindE (fs_frame st) (\<lambda>m.
     bindE (ReadWriteSync (fs_bp st) (fs_disk st) (page_offset_of p) m fd True) (\<lambda>(ok, bp, d).
     bindE (assertE ok) (\<lambda>_.
     bindE (FromPageId (bp_page_table bp) m) (\<lambda>_.
     let tmp = set_fd_cur fd (set_fpage_id_cur p (set_ref_count 1 (set_initialized True (pte_Clean 0))));
         bp = bp\<lparr>bp_page_table := put_pte (bp_page_table bp) m tmp\<rparr> in
     bindE (op_Insert ops (bp_replacer bp) m) (\<lambda>(ok, r).
     bindE (assertE ok) (\<lambda>_.
     let bp = bp\<lparr>bp_replacer := r\<rparr> in
     bindE (CreateMapping (bp_page_table bp) fd p m) (\<lambda>(ok, pt).
     bindE (assertE ok) (\<lambda>_.
     Inr (st\<lparr>fs_stat := End, fs_bp := bp\<lparr>bp_page_table := pt\<rparr>, fs_disk := d\<rparr>)))))))))"

text \<open>One round of the loop; \<open>True\<close> when it returns.\<close>

definition fetch_step ::
  "'r replacer_ops \<Rightarrow> 'q queue_ops \<Rightarrow> fpage_id \<Rightarrow> file_handle \<Rightarrow> ('r, 'q) fetch_state \<Rightarrow>
   (bool \<times> ('r, 'q) fetch_state) res" where
  "fetch_step ops qops p fd st =
     (case fs_stat st of
        Begin \<Rightarrow> bindE (begin_phase ops p fd st) (\<lambda>st. Inr (False, st))
      | Initing \<Rightarrow> bindE (initing_phase ops qops st) (\<lambda>st. Inr (False, st))
      | Evicting \<Rightarrow> bindE (evicting_phase st) (\<lambda>st. Inr (False, st))
      | Loading \<Rightarrow> bindE (loading_phase ops p fd st) (\<lambda>st. Inr (True, st))
      | End \<Rightarrow> Inr (True, st)
      | _ \<Rightarrow> Inr (False, st))"

fun fetch_loop ::
  "nat \<Rightarrow> 'r replacer_ops \<Rightarrow> 'q queue_ops \<Rightarrow> fpage_id \<Rightarrow> file_handle \<Rightarrow> ('r, 'q) fetch_state \<Rightarrow>
   ('r, 'q) fetch_state res" where
  "fetch_loop 0 ops qops p fd st = Inl OutOfFuel"
| "fetch_loop (Suc fuel) ops qops p fd st =
     bindE (fetch_step ops qops p fd st) (\<lambda>(returned, st).
     if returned then Inr st else fetch_loop fuel ops qops p fd st)"

definition FetchPageSync ::
  "nat \<Rightarrow> 'r replacer_ops \<Rightarrow> 'q queue_ops \<Rightarrow> ('r, 'q) buffer_pool \<Rightarrow> disk \<Rightarrow> fpage_id \<Rightarrow> file_handle \<Rightarrow>
   (mpage_id option \<times> ('r, 'q) buffer_pool \<times> disk) res" where
  "FetchPageSync fuel ops qops bp d p fd =
     bindE (Pin ops bp p fd) (\<lambda>(ret, bp).
     if ret \<noteq> None then Inr (ret, bp, d)
     else bindE (fetch_loop fuel ops qops p fd \<lparr>fs_stat = Begin, fs_ret = ret, fs_bp = bp, fs_disk = d\<rparr>)
       (\<lambda>st. Inr (fs_ret st, fs_bp st, fs_disk st)))"

end
