(* ===== verification/PoolInv.thy ===== *)
theory PoolInv
  imports BufferPool
begin

text \<open>
  The invariant of a buffer pool and the contents it represents.  Between operations every frame is
  either managed by the replacement policy, and then holds the page its entry names, or is free and
  named by no mapping; a frame that is not dirty agrees with the file.  \<open>page_bytes\<close> is what a reader
  of a page is entitled to see: the frame's bytes when the page is in memory, the file's otherwise,
  in both cases only as far as the file reaches.
\<close>

section \<open>What a page contains\<close>

definition file_of :: "disk \<Rightarrow> file_handle \<Rightarrow> byte list" where
  "file_of d fd = os_files d ! fst (fd_oss d ! unat fd)"

definition opened :: "disk \<Rightarrow> file_handle \<Rightarrow> bool" where
  "opened d fd \<longleftrightarrow> file_ok d fd (file_of d fd)"

definition visible :: "byte list \<Rightarrow> fpage_id \<Rightarrow> byte list \<Rightarrow> byte list" where
  "visible f p b = take (length f - unat p * PAGE_SIZE_FILE) b"

definition in_file :: "disk \<Rightarrow> file_handle \<Rightarrow> fpage_id \<Rightarrow> bool" where
  "in_file d fd p \<longleftrightarrow> opened d fd \<and> unat p * PAGE_SIZE_FILE < length (file_of d fd)"

definition resident :: "page_table \<Rightarrow> file_handle \<Rightarrow> fpage_id \<Rightarrow> mpage_id option" where
  "resident pt fd p =
     (case pt_word pt fd p of
        None \<Rightarrow> None
      | Some w \<Rightarrow> if fst (FindMapping_word w) then Some (snd (FindMapping_word w)) else None)"

definition page_bytes :: "('r, 'q) buffer_pool \<Rightarrow> disk \<Rightarrow> file_handle \<Rightarrow> fpage_id \<Rightarrow> byte list" where
  "page_bytes bp d fd p = visible (file_of d fd) p
     (case resident (bp_page_table bp) fd p of
        Some m \<Rightarrow> bp_memory_pool bp ! m
      | None \<Rightarrow> page_at (file_of d fd) (unat p))"

lemma opened_iff: "file_ok d fd f \<longleftrightarrow> opened d fd \<and> f = file_of d fd"
  by (auto simp: opened_def file_of_def file_ok_def)

lemma resident_eq:
  assumes "pt_wf k pt"
  shows "resident pt fd p = Some m \<longleftrightarrow> m < frames pt \<and> pt_word pt fd p = Some (mword m)"
proof
  assume a: "resident pt fd p = Some m"
  then obtain w where w: "pt_word pt fd p = Some w" "fst (FindMapping_word w)" "m = snd (FindMapping_word w)"
    by (auto simp: resident_def split: option.splits if_splits)
  with assms w(1) show "m < frames pt \<and> pt_word pt fd p = Some (mword m)"
  proof (cases rule: pt_wf_cases)
    case (3 n)
    then show ?thesis
      using w backed_less [OF assms 3(2)] by (simp add: FindMapping_word_def map_mpage_id_mword)
  qed (simp_all add: FindMapping_word_def pt_simps)
next
  assume "m < frames pt \<and> pt_word pt fd p = Some (mword m)"
  moreover have "m < 2147483648 \<and> m \<noteq> EMPTY_VALUE \<and> m \<noteq> BUSY_VALUE" if "m < frames pt"
    using that pt_wfD(2) [OF assms] by (auto simp: EMPTY_VALUE_def BUSY_VALUE_def)
  ultimately show "resident pt fd p = Some m"
    by (simp add: resident_def FindMapping_word_def map_mpage_id_mword)
qed

lemma resident_None:
  assumes "pt_wf k pt" "pt_word pt fd p \<noteq> None"
  shows "resident pt fd p = None \<longleftrightarrow>
    pt_word pt fd p = Some (mword EMPTY_VALUE) \<or> pt_word pt fd p = Some (mword BUSY_VALUE)"
proof -
  obtain w where w: "pt_word pt fd p = Some w" using assms(2) by blast
  from assms(1) w show ?thesis
  proof (cases rule: pt_wf_cases)
    case (3 m)
    note l = backed_less [OF assms(1) 3(2)]
    then have "resident pt fd p = Some m" using w 3 by (simp add: resident_eq [OF assms(1)])
    then show ?thesis using w 3 l by (simp add: mword_inject)
  qed (use w in \<open>simp_all add: resident_def FindMapping_word_def pt_simps\<close>)
qed

lemma resident_backed:
  assumes wf: "pt_wf k pt" and r: "resident pt fd p = Some m" and p: "GetPartitionId (pt_partitioner pt) p = k"
  shows "backed k pt fd p m" "pte_fd_cur (pte_of pt m) = fd" "pte_fpage_id_cur (pte_of pt m) = p"
    "held pt m" "\<not> pte_busy (pte_of pt m)"
proof -
  have w: "m < frames pt" "pt_word pt fd p = Some (mword m)" using r by (simp_all add: resident_eq [OF wf])
  have "m < 2147483648 \<and> m \<noteq> EMPTY_VALUE \<and> m \<noteq> BUSY_VALUE"
    using w(1) pt_wfD(2) [OF wf] by (auto simp: EMPTY_VALUE_def BUSY_VALUE_def)
  moreover have "slot_ok k pt fd p (mword m)" using w(2) by (rule pt_wfD [OF wf])
  ultimately show b: "backed k pt fd p m"
    using backed_less(2) [OF wf] mword_inject ids_less by (auto simp: slot_ok_def)
  show fd: "pte_fd_cur (pte_of pt m) = fd" and "\<not> pte_busy (pte_of pt m)"
    using b by (simp_all add: backed_def Let_def)
  show q: "pte_fpage_id_cur (pte_of pt m) = p" using wf b p by (rule backed_page)
  show "held pt m" using w fd q by (simp add: held_def)
qed

lemma held_partition:
  "pt_wf k pt \<Longrightarrow> held pt m \<Longrightarrow> GetPartitionId (pt_partitioner pt) (pte_fpage_id_cur (pte_of pt m)) = k"
  using held_backed by (fastforce simp: backed_def Let_def)

section \<open>Changing an entry that keeps its page\<close>

definition same_page :: "pte \<Rightarrow> pte \<Rightarrow> bool" where
  "same_page v w \<longleftrightarrow> pte_fd_cur v = pte_fd_cur w \<and> pte_fpage_id_cur v = pte_fpage_id_cur w \<and>
     pte_initialized v = pte_initialized w \<and> pte_busy v = pte_busy w"

lemma put_same_page:
  assumes "same_page v (pte_of pt m)" "m < frames pt"
  shows "backed k (put_pte pt m v) fd p m' = backed k pt fd p m'"
    "pt_wf k (put_pte pt m v) = pt_wf k pt" "held (put_pte pt m v) m' = held pt m'"
    "resident (put_pte pt m v) fd p = resident pt fd p"
proof -
  show b: "backed k (put_pte pt m v) fd p m' = backed k pt fd p m'" for fd p m'
    using assms by (simp add: backed_def pt_simps same_page_def Let_def)
  have "slot_ok k (put_pte pt m v) fd p w = slot_ok k pt fd p w" for fd p w
    by (simp add: slot_ok_def b)
  then show "pt_wf k (put_pte pt m v) = pt_wf k pt" by (simp add: pt_wf_def pt_simps)
  show "held (put_pte pt m v) m' = held pt m'"
    using assms by (simp add: held_def pt_simps same_page_def)
  show "resident (put_pte pt m v) fd p = resident pt fd p" by (simp add: resident_def pt_simps)
qed

lemma same_page_refl [simp]: "same_page w w"
  by (simp add: same_page_def)

lemma same_page_set_dirty [simp]: "same_page (set_dirty b w) w"
  by (simp add: same_page_def pt_simps)

section \<open>The invariant\<close>

definition frame_ok :: "disk \<Rightarrow> page_table \<Rightarrow> byte list list \<Rightarrow> mpage_id \<Rightarrow> bool" where
  "frame_ok d pt mem m \<longleftrightarrow>
     (let w = pte_of pt m; fd = pte_fd_cur w; p = pte_fpage_id_cur w; f = file_of d fd in
      in_file d fd p \<and> (pte_dirty w \<or> visible f p (mem ! m) = visible f p (page_at f (unat p))))"

text \<open>\<open>S\<close> are the managed frames, \<open>free\<close> the free ones in the order of the list, \<open>T\<close> those in transit.\<close>

definition pool_core ::
  "('r \<Rightarrow> mpage_id set \<Rightarrow> bool) \<Rightarrow> ('r \<Rightarrow> nat) \<Rightarrow> ('q \<Rightarrow> frame list \<Rightarrow> bool) \<Rightarrow> partition_id \<Rightarrow>
   ('r, 'q) buffer_pool \<Rightarrow> disk \<Rightarrow> mpage_id set \<Rightarrow> frame list \<Rightarrow> mpage_id set \<Rightarrow> bool" where
  "pool_core rinv rcap qrep k bp d S free T \<longleftrightarrow>
     pt_wf k (bp_page_table bp) \<and> length (bp_memory_pool bp) = frames (bp_page_table bp) \<and>
     (\<forall>b\<in>set (bp_memory_pool bp). length b = PAGE_SIZE_FILE) \<and>
     rinv (bp_replacer bp) S \<and> rcap (bp_replacer bp) = frames (bp_page_table bp) \<and>
     lq_rep qrep (bp_free_list bp) free \<and> distinct free \<and>
     S \<inter> set free = {} \<and> S \<inter> T = {} \<and> T \<inter> set free = {} \<and>
     S \<union> set free \<union> T = {..<frames (bp_page_table bp)} \<and>
     (\<forall>m\<in>S. held (bp_page_table bp) m \<and> frame_ok d (bp_page_table bp) (bp_memory_pool bp) m) \<and>
     (\<forall>m\<in>set free. unnamed (bp_page_table bp) m \<and> \<not> pinned (bp_page_table bp) m) \<and>
     (\<forall>m\<in>T. unnamed (bp_page_table bp) m) \<and> disk_wf d"

definition quiet :: "page_table \<Rightarrow> bool" where
  "quiet pt \<longleftrightarrow> (\<forall>fd p. pt_word pt fd p \<noteq> Some (mword BUSY_VALUE))"

definition pool_ok ::
  "('r \<Rightarrow> mpage_id set \<Rightarrow> bool) \<Rightarrow> ('r \<Rightarrow> nat) \<Rightarrow> ('q \<Rightarrow> frame list \<Rightarrow> bool) \<Rightarrow> partition_id \<Rightarrow>
   ('r, 'q) buffer_pool \<Rightarrow> disk \<Rightarrow> bool" where
  "pool_ok rinv rcap qrep k bp d \<longleftrightarrow>
     (\<exists>S free. pool_core rinv rcap qrep k bp d S free {}) \<and> quiet (bp_page_table bp)"

lemma pool_coreD:
  assumes "pool_core rinv rcap qrep k bp d S free T"
  shows "pt_wf k (bp_page_table bp)" "length (bp_memory_pool bp) = frames (bp_page_table bp)"
    "m < frames (bp_page_table bp) \<Longrightarrow> length (bp_memory_pool bp ! m) = PAGE_SIZE_FILE"
    "rinv (bp_replacer bp) S" "rcap (bp_replacer bp) = frames (bp_page_table bp)"
    "lq_rep qrep (bp_free_list bp) free" "distinct free"
    "m \<in> S \<Longrightarrow> held (bp_page_table bp) m"
    "m \<in> S \<Longrightarrow> frame_ok d (bp_page_table bp) (bp_memory_pool bp) m"
    "m \<in> S \<Longrightarrow> m < frames (bp_page_table bp)" "disk_wf d"
  using assms by (auto simp: pool_core_def)

text \<open>A page in memory is in a managed frame.\<close>

lemma resident_managed:
  assumes c: "pool_core rinv rcap qrep k bp d S free T" and r: "resident (bp_page_table bp) fd p = Some m"
  shows "m \<in> S"
proof -
  have "m < frames (bp_page_table bp)" "pt_word (bp_page_table bp) fd p = Some (mword m)"
    using r resident_eq [OF pool_coreD(1) [OF c]] by auto
  then have "\<not> unnamed (bp_page_table bp) m" "m \<in> S \<union> set free \<union> T"
    using c by (auto simp: unnamed_def pool_core_def)
  then show ?thesis using c by (auto simp: pool_core_def)
qed

text \<open>Updating the entry of a managed frame.\<close>

lemma pool_core_put_pte:
  assumes c: "pool_core rinv rcap qrep k bp d S free T" and m: "m \<in> S"
    and v: "same_page v (pte_of (bp_page_table bp) m)" "pte_dirty (pte_of (bp_page_table bp) m) \<longrightarrow> pte_dirty v"
  shows "pool_core rinv rcap qrep k (bp\<lparr>bp_page_table := put_pte (bp_page_table bp) m v\<rparr>) d S free T"
    and "page_bytes (bp\<lparr>bp_page_table := put_pte (bp_page_table bp) m v\<rparr>) d fd p = page_bytes bp d fd p"
proof -
  note lt = pool_coreD(10) [OF c m]
  note p = put_same_page [OF v(1) lt]
  have f: "frame_ok d (put_pte (bp_page_table bp) m v) mem m'"
    if "frame_ok d (bp_page_table bp) mem m'" for mem m'
    using that v lt by (auto simp: frame_ok_def pt_simps same_page_def Let_def)
  have n: "m' \<in> set free \<Longrightarrow> pinned (put_pte (bp_page_table bp) m v) m' = pinned (bp_page_table bp) m'" for m'
    using c m lt by (auto simp: pool_core_def pinned_def pt_simps)
  show "pool_core rinv rcap qrep k (bp\<lparr>bp_page_table := put_pte (bp_page_table bp) m v\<rparr>) d S free T"
    using c p f n by (simp add: pool_core_def pt_simps)
  show "page_bytes (bp\<lparr>bp_page_table := put_pte (bp_page_table bp) m v\<rparr>) d fd p = page_bytes bp d fd p"
    by (simp add: page_bytes_def p(4) split: option.split)
qed

lemma quiet_put_pte [simp]: "quiet (put_pte pt m v) = quiet pt"
  by (simp add: quiet_def pt_simps)

section \<open>Writing a page back\<close>

lemma unat_page_offset: "unat (page_offset_of p) = unat p * PAGE_SIZE_FILE"
proof -
  have "unat p * 4096 < 18446744073709551616" using u32_less [of p] by simp
  moreover have "page_offset_of p = word_of_nat (unat p * 4096)"
    by (simp add: page_offset_of_def PAGE_SIZE_FILE_def)
  ultimately show ?thesis by (simp add: unat_of_nat PAGE_SIZE_FILE_def del: of_nat_mult)
qed

definition disk_put :: "disk \<Rightarrow> file_handle \<Rightarrow> fpage_id \<Rightarrow> byte list \<Rightarrow> disk" where
  "disk_put d fd p data = set_file d fd (put_page (file_of d fd) (unat p) data)"

text \<open>
  Two disks with the same open files of the same sizes that differ only in pages of partition \<open>k\<close>.
\<close>

definition disk_step :: "partitioner \<Rightarrow> partition_id \<Rightarrow> disk \<Rightarrow> disk \<Rightarrow> bool" where
  "disk_step pr k d d' \<longleftrightarrow> disk_wf d' \<and>
     (\<forall>fd. opened d' fd = opened d fd \<and> (opened d fd \<longrightarrow> length (file_of d' fd) = length (file_of d fd) \<and>
        (\<forall>q. GetPartitionId pr q \<noteq> k \<longrightarrow>
           page_at (file_of d' fd) (unat q) = page_at (file_of d fd) (unat q))))"

lemma disk_step_refl [simp]: "disk_wf d \<Longrightarrow> disk_step pr k d d"
  by (simp add: disk_step_def)

lemma disk_step_trans: "disk_step pr k d d1 \<Longrightarrow> disk_step pr k d1 d2 \<Longrightarrow> disk_step pr k d d2"
  by (auto simp: disk_step_def)

lemma disk_step_in_file: "disk_step pr k d d' \<Longrightarrow> in_file d' fd p = in_file d fd p"
  by (auto simp: disk_step_def in_file_def)

lemma page_at_put_page:
  "page_at (put_page f p data) q = (if q = p
     then map (\<lambda>i. if p * PAGE_SIZE_FILE + i < length f then data ! i else 0) [0..<PAGE_SIZE_FILE]
     else page_at f q)"
  by (intro nth_equalityI) (auto simp: page_at_nth put_page_nth)

lemma Write_page_put:
  assumes "in_file d fd p" "length data = PAGE_SIZE_FILE"
  shows "RWSysCall_Write d (page_offset_of p) data fd = Inr (True, disk_put d fd p data)"
  using assms Write_page [of d fd "file_of d fd" data "page_offset_of p" "unat p"]
  by (simp add: in_file_def opened_def unat_page_offset disk_put_def)

lemma disk_put_files:
  assumes wf: "disk_wf d" and i: "in_file d fd p"
  shows "opened (disk_put d fd p data) fd' = opened d fd'"
    and "opened d fd' \<Longrightarrow> file_of (disk_put d fd p data) fd' =
      (if fd' = fd then put_page (file_of d fd) (unat p) data else file_of d fd')"
    and "disk_wf (disk_put d fd p data)"
proof -
  have "file_ok d fd (file_of d fd)" using i by (simp add: in_file_def opened_def)
  note s = set_file_ok [OF wf this put_page_length]
  show e: "opened (disk_put d fd p data) fd' = opened d fd'" for fd'
    using s opened_iff i by (metis disk_put_def in_file_def opened_def)
  show "opened d fd' \<Longrightarrow> file_of (disk_put d fd p data) fd' =
      (if fd' = fd then put_page (file_of d fd) (unat p) data else file_of d fd')"
    using s opened_iff e by (metis disk_put_def)
  show "disk_wf (disk_put d fd p data)" using wf by (simp add: disk_put_def)
qed

lemma page_at_disk_put:
  assumes "disk_wf d" "in_file d fd p" "opened d fd'"
  shows "fd' \<noteq> fd \<or> q \<noteq> p \<Longrightarrow>
      page_at (file_of (disk_put d fd p data) fd') (unat q) = page_at (file_of d fd') (unat q)"
    and "length (file_of (disk_put d fd p data) fd') = length (file_of d fd')"
    and "length data = PAGE_SIZE_FILE \<Longrightarrow>
      visible (file_of d fd) p (page_at (file_of (disk_put d fd p data) fd) (unat p)) = visible (file_of d fd) p data"
proof -
  note fo = disk_put_files(2) [OF assms(1,2)]
  show "fd' \<noteq> fd \<or> q \<noteq> p \<Longrightarrow>
      page_at (file_of (disk_put d fd p data) fd') (unat q) = page_at (file_of d fd') (unat q)"
    using fo [OF assms(3)] by (cases "fd' = fd") (simp_all add: page_at_put_page word_unat_eq_iff [of q p])
  show "length (file_of (disk_put d fd p data) fd') = length (file_of d fd')"
    using fo [OF assms(3)] by simp
  show "length data = PAGE_SIZE_FILE \<Longrightarrow>
      visible (file_of d fd) p (page_at (file_of (disk_put d fd p data) fd) (unat p)) = visible (file_of d fd) p data"
    using fo [of fd] assms(2)
    by (intro nth_equalityI) (auto simp: in_file_def page_at_put_page visible_def)
qed

lemma disk_put_step:
  assumes "disk_wf d" "in_file d fd p" "GetPartitionId pr p = k"
  shows "disk_step pr k d (disk_put d fd p data)"
  unfolding disk_step_def
proof (intro conjI allI impI)
  fix fd' q assume o: "opened d fd'"
  show "length (file_of (disk_put d fd p data) fd') = length (file_of d fd')"
    by (rule page_at_disk_put(2) [OF assms(1,2) o])
  assume "GetPartitionId pr q \<noteq> k"
  then have "q \<noteq> p" using assms(3) by auto
  then show "page_at (file_of (disk_put d fd p data) fd') (unat q) = page_at (file_of d fd') (unat q)"
    by (intro page_at_disk_put(1) [OF assms(1,2) o] disjI2)
qed (simp_all add: disk_put_files(1,3) [OF assms(1,2)])

lemma visible_cong: "length f = length g \<Longrightarrow> visible f p = visible g p"
  by (simp add: visible_def fun_eq_iff)

text \<open>What a step of another partition leaves alone.\<close>

lemma frame_ok_step:
  assumes "frame_ok d pt mem m" "disk_step pr k d d'"
    and "page_at (file_of d' (pte_fd_cur (pte_of pt m))) (unat (pte_fpage_id_cur (pte_of pt m))) =
         page_at (file_of d (pte_fd_cur (pte_of pt m))) (unat (pte_fpage_id_cur (pte_of pt m)))"
  shows "frame_ok d' pt mem m"
proof -
  let ?fd = "pte_fd_cur (pte_of pt m)" and ?p = "pte_fpage_id_cur (pte_of pt m)"
  have i: "in_file d ?fd ?p" using assms(1) by (simp add: frame_ok_def Let_def)
  then have "length (file_of d' ?fd) = length (file_of d ?fd)"
    using assms(2) by (simp add: disk_step_def in_file_def)
  then have "visible (file_of d' ?fd) = visible (file_of d ?fd)" by (simp add: visible_def fun_eq_iff)
  then show ?thesis
    using assms(1,3) i disk_step_in_file [OF assms(2)] by (simp add: frame_ok_def Let_def)
qed

lemma pool_core_other:
  assumes c: "pool_core rinv rcap qrep k bp d S free T" and s: "disk_step pr k' d d'"
    and pr: "pr = pt_partitioner (bp_page_table bp)" and k: "k \<noteq> k'"
  shows "pool_core rinv rcap qrep k bp d' S free T"
proof -
  have "frame_ok d' (bp_page_table bp) (bp_memory_pool bp) m" if m: "m \<in> S" for m
  proof (rule frame_ok_step [OF pool_coreD(9) [OF c m] s])
    have "GetPartitionId pr (pte_fpage_id_cur (pte_of (bp_page_table bp) m)) \<noteq> k'"
      using held_partition [OF pool_coreD(1) [OF c] pool_coreD(8) [OF c m]] pr k by simp
    moreover have "opened d (pte_fd_cur (pte_of (bp_page_table bp) m))"
      using pool_coreD(9) [OF c m] by (simp add: frame_ok_def in_file_def Let_def)
    ultimately show "page_at (file_of d' (pte_fd_cur (pte_of (bp_page_table bp) m)))
        (unat (pte_fpage_id_cur (pte_of (bp_page_table bp) m))) =
      page_at (file_of d (pte_fd_cur (pte_of (bp_page_table bp) m)))
        (unat (pte_fpage_id_cur (pte_of (bp_page_table bp) m)))"
      using s by (simp add: disk_step_def)
  qed
  then show ?thesis using c s by (auto simp: pool_core_def disk_step_def)
qed

lemma pool_ok_other:
  "pool_ok rinv rcap qrep k bp d \<Longrightarrow> disk_step (pt_partitioner (bp_page_table bp)) k' d d' \<Longrightarrow> k \<noteq> k' \<Longrightarrow>
   pool_ok rinv rcap qrep k bp d'"
  unfolding pool_ok_def using pool_core_other by blast

lemma page_bytes_step:
  assumes "disk_step pr k' d d'" "opened d fd"
    and "page_at (file_of d' fd) (unat q) = page_at (file_of d fd) (unat q)"
  shows "page_bytes bp d' fd q = page_bytes bp d fd q"
  using assms visible_cong [of "file_of d' fd" "file_of d fd" q]
  by (simp add: page_bytes_def disk_step_def split: option.split)

lemma page_bytes_other:
  "disk_step pr k' d d' \<Longrightarrow> opened d fd \<Longrightarrow> GetPartitionId pr q \<noteq> k' \<Longrightarrow>
   page_bytes bp d' fd q = page_bytes bp d fd q"
  by (rule page_bytes_step [of pr k']) (simp_all add: disk_step_def)

end
