(* ===== verification/Sieve.thy ===== *)
theory Sieve
  imports Replacer
begin

text \<open>
  The SIEVE policies on list arrays, \<^verbatim>\<open>include/replacer/sieve_replacer_v3.h\<close> (the policy the buffer
  pool is built with) and \<^verbatim>\<open>sieve_replacer_v2.h\<close>.  A hand walks from the back of the list to the
  front and around; it lowers the mark of a marked node and passes on, and evicts the first
  unmarked node whose frame it can lock.  The scan is proved once, in the locale \<open>sieve_scan\<close>.
\<close>

section \<open>SieveReplacer_v3\<close>

record sieve3 =
  s3_list :: "u8 list_array"
  s3_pointer :: nat

definition s3_new :: "(nat \<Rightarrow> u8) \<Rightarrow> nat \<Rightarrow> sieve3 res" where
  "s3_new junk capacity =
     bindE (la_new junk capacity) (\<lambda>la. Inr \<lparr>s3_list = la, s3_pointer = la_head la\<rparr>)"

definition s3_Insert :: "sieve3 \<Rightarrow> mpage_id \<Rightarrow> (bool \<times> sieve3) res" where
  "s3_Insert r value =
     bindE (setValue (s3_list r) value 0) (\<lambda>la.
     bindE (moveToFront la value) (\<lambda>(ok, la).
     bindE (assertE ok) (\<lambda>_. Inr (True, r\<lparr>s3_list := la\<rparr>))))"

definition s3_Promote :: "sieve3 \<Rightarrow> mpage_id \<Rightarrow> (bool \<times> sieve3) res" where
  "s3_Promote r value =
     bindE (setValue (s3_list r) value 1) (\<lambda>la. Inr (True, r\<lparr>s3_list := la\<rparr>))"

text \<open>The inner loop of \<open>Victim\<close>: lower positive marks and step on.\<close>

function s3_skip :: "u8 list_array \<Rightarrow> nat \<Rightarrow> (u8 list_array \<times> nat) res" where
  "s3_skip la i =
     (case getValue la i of
        Inl e \<Rightarrow> Inl e
      | Inr v \<Rightarrow>
          if v > 0 then
            (case setValue la i (v - 1) of
               Inl e \<Rightarrow> Inl e
             | Inr la' \<Rightarrow> (case step_back la' i of Inl e \<Rightarrow> Inl e | Inr j \<Rightarrow> s3_skip la' j))
          else Inr (la, i))"
  by pat_completeness auto

lemma setValue_sum:
  fixes weight :: "'v \<Rightarrow> nat"
  assumes "getValue la i = Inr v" "setValue la i u = Inr la'" "weight u < weight v"
  shows "sum_list (map (weight \<circ> ln_val) (la_nodes la')) < sum_list (map (weight \<circ> ln_val) (la_nodes la))"
proof -
  have i: "i < length (la_nodes la)" and v: "v = ln_val (la_nodes la ! i)"
    using assms(1) by (auto simp: getValue_def get_node_def bindE_eq_Inr arr_get_eq_Inr split: if_splits)
  have "la_nodes la' = (la_nodes la)[i := (la_nodes la ! i)\<lparr>ln_val := u\<rparr>]"
    using assms(2) i by (auto simp: setValue_def get_node_def set_node_def split: if_splits)
  then show ?thesis
    using i v assms(3) by (simp add: sum_list_update_less)
qed

lemma unat_pred: "0 < (v :: 'a :: len word) \<Longrightarrow> unat (v - 1) = unat v - 1"
  by (rule unat_minus_one) auto

lemma unat_pred_less: "0 < (v :: 'a :: len word) \<Longrightarrow> unat (v - 1) < unat v"
  using unat_pred [of v] by (simp add: word_less_nat_alt)

termination s3_skip
proof (relation "measure (\<lambda>(la, i). sum_list (map (unat \<circ> ln_val) (la_nodes la)))")
  fix la :: "u8 list_array" and i v la' j
  assume "getValue la i = Inr v" "0 < v" "setValue la i (v - 1) = Inr la'"
  moreover have "unat (v - 1) < unat v"
    using unat_pred_less [OF \<open>0 < v\<close>] .
  ultimately show "((la', j), (la, i)) \<in> measure (\<lambda>(la, i). sum_list (map (unat \<circ> ln_val) (la_nodes la)))"
    using setValue_sum [of la i v "v - 1" la' unat] by simp
qed simp

declare s3_skip.simps [simp del]

text \<open>A candidate whose entry is pinned is passed over before its mapping is locked.\<close>

definition s3_candidate :: "page_table \<Rightarrow> mpage_id \<Rightarrow> (bool \<times> page_table) res" where
  "s3_candidate pt i =
     bindE (FromPageId pt i) (\<lambda>w.
     if pte_ref_count w \<noteq> 0 then Inr (False, pt) else try_evict False pt i)"

fun s3_loop :: "nat \<Rightarrow> u8 list_array \<Rightarrow> nat \<Rightarrow> page_table \<Rightarrow> (u8 list_array \<times> nat \<times> page_table) res" where
  "s3_loop 0 la i pt = Inl AssertFail"
| "s3_loop (Suc count) la i pt =
     bindE (s3_skip la i) (\<lambda>(la, i).
     bindE (s3_candidate pt i) (\<lambda>(found, pt).
     if found then Inr (la, i, pt)
     else bindE (step_back la i) (\<lambda>j. s3_loop count la j pt)))"

text \<open>Where the hand starts.\<close>

definition hand_start :: "'v list_array \<Rightarrow> nat \<Rightarrow> nat res" where
  "hand_start la pointer = (if pointer = la_head la then GetTail la else Inr pointer)"

definition s3_Victim :: "sieve3 \<Rightarrow> page_table \<Rightarrow> ((bool \<times> mpage_id) \<times> sieve3 \<times> page_table) res" where
  "s3_Victim r pt =
     bindE (hand_start (s3_list r) (s3_pointer r)) (\<lambda>i.
     if i = la_head (s3_list r) then Inl AssertFail
     else bindE (s3_loop (la_capacity (s3_list r) * 2) (s3_list r) i pt) (\<lambda>(la, i, pt).
       bindE (getPrevNodeIndex la i) (\<lambda>p.
       bindE (removeFromIndex la i) (\<lambda>(_, la).
       Inr ((True, i), r\<lparr>s3_list := la, s3_pointer := p\<rparr>, pt)))))"

definition s3_Clean :: "(nat \<Rightarrow> u8) \<Rightarrow> sieve3 \<Rightarrow> (bool \<times> sieve3) res" where
  "s3_Clean junk r = bindE (la_Clean junk (s3_list r)) (\<lambda>(_, la). Inr (True, r\<lparr>s3_list := la\<rparr>))"

definition s3_Erase :: "sieve3 \<Rightarrow> mpage_id \<Rightarrow> (bool \<times> sieve3) res" where
  "s3_Erase r value =
     bindE (removeFromIndex (s3_list r) value) (\<lambda>(_, la). Inr (True, r\<lparr>s3_list := la\<rparr>))"

definition s3_Size :: "sieve3 \<Rightarrow> u64 res" where
  "s3_Size r = Inr (la_size (s3_list r))"

definition s3_ops :: "sieve3 replacer_ops" where
  "s3_ops = \<lparr>op_Insert = s3_Insert, op_Promote = s3_Promote, op_Victim = s3_Victim,
     op_Erase = s3_Erase, op_Size = s3_Size\<rparr>"

text \<open>
  \<open>Victim\<close> for a batch: clean frames only, with their mappings deleted.  The code compares an
  uninitialised variable with the head first; its value is the argument \<open>junk\<close>.
\<close>

definition s3_batch_candidate :: "page_table \<Rightarrow> mpage_id \<Rightarrow> (bool \<times> page_table) res" where
  "s3_batch_candidate pt i =
     bindE (FromPageId pt i) (\<lambda>w.
     if pte_ref_count w \<noteq> 0 \<or> pte_dirty w then Inr (False, pt)
     else bindE (try_evict True pt i) (\<lambda>(found, pt).
       if found then
         bindE (DeleteMapping pt (pte_fd_cur w) (pte_fpage_id_cur w) i) (\<lambda>(ok, pt).
         bindE (assertE ok) (\<lambda>_. Inr (True, pt)))
       else Inr (False, pt)))"

fun s3_batch_loop ::
  "nat \<Rightarrow> u8 list_array \<Rightarrow> nat \<Rightarrow> page_table \<Rightarrow> (bool \<times> u8 list_array \<times> nat \<times> page_table) res" where
  "s3_batch_loop 0 la i pt = Inr (False, la, i, pt)"
| "s3_batch_loop (Suc count) la i pt =
     bindE (s3_skip la i) (\<lambda>(la, i).
     bindE (s3_batch_candidate pt i) (\<lambda>(found, pt).
     if found then Inr (True, la, i, pt)
     else bindE (step_back la i) (\<lambda>j. s3_batch_loop count la j pt)))"

fun s3_batch :: "sieve3 \<Rightarrow> page_table \<Rightarrow> mpage_id list \<Rightarrow> nat \<Rightarrow>
    (bool \<times> mpage_id list \<times> sieve3 \<times> page_table) res" where
  "s3_batch r pt mpage_ids 0 = Inr (True, mpage_ids, r, pt)"
| "s3_batch r pt mpage_ids (Suc page_num) =
     bindE (hand_start (s3_list r) (s3_pointer r)) (\<lambda>i.
     bindE (s3_batch_loop (la_capacity (s3_list r) * 2) (s3_list r) i pt) (\<lambda>(found, la, i, pt).
     if \<not> found then Inr (mpage_ids \<noteq> [], mpage_ids, r\<lparr>s3_list := la\<rparr>, pt)
     else bindE (getPrevNodeIndex la i) (\<lambda>p.
       bindE (removeFromIndex la i) (\<lambda>(_, la).
       s3_batch (r\<lparr>s3_list := la, s3_pointer := p\<rparr>) pt (mpage_ids @ [i]) page_num))))"

definition s3_Victim_batch :: "nat \<Rightarrow> sieve3 \<Rightarrow> page_table \<Rightarrow> mpage_id list \<Rightarrow> nat \<Rightarrow>
    (bool \<times> mpage_id list \<times> sieve3 \<times> page_table) res" where
  "s3_Victim_batch junk r pt mpage_ids page_num =
     (if junk = la_head (s3_list r) then Inr (False, mpage_ids, r, pt)
      else s3_batch r pt mpage_ids page_num)"

text \<open>
  \<open>Replace\<close> evicts without taking the frame out of the list.  Its inner loop lowers a mark only
  from 1 to 0, so it need not end; \<open>fuel\<close> bounds its iterations.
\<close>

fun s3_replace_skip :: "nat \<Rightarrow> u8 list_array \<Rightarrow> nat \<Rightarrow> (u8 list_array \<times> nat) res" where
  "s3_replace_skip 0 la i = Inl OutOfFuel"
| "s3_replace_skip (Suc fuel) la i =
     bindE (getValue la i) (\<lambda>v.
     if v > 0 then
       bindE (if v = 1 then setValue la i 0 else Inr la) (\<lambda>la.
       bindE (step_back la i) (\<lambda>j. s3_replace_skip fuel la j))
     else Inr (la, i))"

fun s3_replace_loop :: "nat \<Rightarrow> nat \<Rightarrow> u8 list_array \<Rightarrow> nat \<Rightarrow> page_table \<Rightarrow>
    (u8 list_array \<times> nat \<times> page_table) res" where
  "s3_replace_loop fuel 0 la i pt = Inl AssertFail"
| "s3_replace_loop fuel (Suc count) la i pt =
     bindE (s3_replace_skip fuel la i) (\<lambda>(la, i).
     bindE (s3_candidate pt i) (\<lambda>(found, pt).
     if found then Inr (la, i, pt)
     else bindE (step_back la i) (\<lambda>j. s3_replace_loop fuel count la j pt)))"

definition s3_Replace :: "nat \<Rightarrow> sieve3 \<Rightarrow> page_table \<Rightarrow> ((bool \<times> mpage_id) \<times> sieve3 \<times> page_table) res" where
  "s3_Replace fuel r pt =
     bindE (hand_start (s3_list r) (s3_pointer r)) (\<lambda>i.
     if i = la_head (s3_list r) then Inl AssertFail
     else bindE (s3_replace_loop fuel (la_capacity (s3_list r) * 2) (s3_list r) i pt) (\<lambda>(la, i, pt).
       bindE (getPrevNodeIndex la i) (\<lambda>p.
       bindE (setValue la i 2) (\<lambda>la.
       bindE (moveToFront la i) (\<lambda>(ok, la).
       bindE (assertE ok) (\<lambda>_.
       Inr ((True, i), r\<lparr>s3_list := la, s3_pointer := p\<rparr>, pt)))))))"

section \<open>SieveReplacer_v2\<close>

record sieve2 =
  s2_list :: "bool list_array"
  s2_pointer :: nat

definition s2_new :: "(nat \<Rightarrow> bool) \<Rightarrow> nat \<Rightarrow> sieve2 res" where
  "s2_new junk capacity =
     bindE (la_new junk capacity) (\<lambda>la. Inr \<lparr>s2_list = la, s2_pointer = la_head la\<rparr>)"

definition s2_Insert :: "sieve2 \<Rightarrow> mpage_id \<Rightarrow> (bool \<times> sieve2) res" where
  "s2_Insert r value =
     bindE (inList (s2_list r) value) (\<lambda>inside.
     if \<not> inside then
       bindE (setValue (s2_list r) value False) (\<lambda>la.
       bindE (moveToFront la value) (\<lambda>(ok, la).
       bindE (assertE ok) (\<lambda>_. Inr (True, r\<lparr>s2_list := la\<rparr>))))
     else Inr (False, r))"

definition s2_Promote :: "sieve2 \<Rightarrow> mpage_id \<Rightarrow> (bool \<times> sieve2) res" where
  "s2_Promote r value =
     bindE (inList (s2_list r) value) (\<lambda>inside.
     if inside then bindE (setValue (s2_list r) value True) (\<lambda>la. Inr (True, r\<lparr>s2_list := la\<rparr>))
     else Inr (False, r))"

function s2_skip :: "bool list_array \<Rightarrow> nat \<Rightarrow> (bool list_array \<times> nat) res" where
  "s2_skip la i =
     (case getValue la i of
        Inl e \<Rightarrow> Inl e
      | Inr v \<Rightarrow>
          if v then
            (case setValue la i False of
               Inl e \<Rightarrow> Inl e
             | Inr la' \<Rightarrow> (case step_back la' i of Inl e \<Rightarrow> Inl e | Inr j \<Rightarrow> s2_skip la' j))
          else Inr (la, i))"
  by pat_completeness auto

termination s2_skip
proof (relation "measure (\<lambda>(la, i). sum_list (map (of_bool \<circ> ln_val) (la_nodes la)))")
  fix la :: "bool list_array" and i v la' j
  assume "getValue la i = Inr v" "v" "setValue la i False = Inr la'"
  then show "((la', j), (la, i)) \<in> measure (\<lambda>(la, i). sum_list (map (of_bool \<circ> ln_val) (la_nodes la)))"
    using setValue_sum [of la i v False la' "of_bool :: bool \<Rightarrow> nat"] by simp
qed simp

declare s2_skip.simps [simp del]

fun s2_loop :: "nat \<Rightarrow> bool list_array \<Rightarrow> nat \<Rightarrow> page_table \<Rightarrow> (bool list_array \<times> nat \<times> page_table) res" where
  "s2_loop 0 la i pt = Inl AssertFail"
| "s2_loop (Suc count) la i pt =
     bindE (s2_skip la i) (\<lambda>(la, i).
     bindE (try_evict False pt i) (\<lambda>(found, pt).
     if found then Inr (la, i, pt)
     else bindE (step_back la i) (\<lambda>j. s2_loop count la j pt)))"

definition s2_Victim :: "sieve2 \<Rightarrow> page_table \<Rightarrow> ((bool \<times> mpage_id) \<times> sieve2 \<times> page_table) res" where
  "s2_Victim r pt =
     bindE (hand_start (s2_list r) (s2_pointer r)) (\<lambda>i.
     if i = la_head (s2_list r) then Inl AssertFail
     else bindE (s2_loop (la_capacity (s2_list r) * 2) (s2_list r) i pt) (\<lambda>(la, i, pt).
       bindE (getPrevNodeIndex la i) (\<lambda>p.
       bindE (removeFromIndex la i) (\<lambda>(_, la).
       Inr ((True, i), r\<lparr>s2_list := la, s2_pointer := p\<rparr>, pt)))))"

definition s2_Erase :: "sieve2 \<Rightarrow> mpage_id \<Rightarrow> (bool \<times> sieve2) res" where
  "s2_Erase r value =
     bindE (removeFromIndex (s2_list r) value) (\<lambda>(_, la). Inr (True, r\<lparr>s2_list := la\<rparr>))"

definition s2_Size :: "sieve2 \<Rightarrow> u64 res" where
  "s2_Size r = Inr (la_size (s2_list r))"

definition s2_ops :: "sieve2 replacer_ops" where
  "s2_ops = \<lparr>op_Insert = s2_Insert, op_Promote = s2_Promote, op_Victim = s2_Victim,
     op_Erase = s2_Erase, op_Size = s2_Size\<rparr>"

section \<open>The scan\<close>

lemma la_rep_length: "la_rep la xs \<Longrightarrow> length xs \<le> la_capacity la"
  using card_mono [of "{..<la_capacity la}" "set xs"] la_repD(2,3) [of la xs]
  by (simp add: distinct_card)

definition hand_ok :: "'v list_array \<Rightarrow> nat list \<Rightarrow> nat \<Rightarrow> bool" where
  "hand_ok la xs p \<longleftrightarrow> p = la_capacity la \<or> p \<in> set xs"

lemma hand_start_ok:
  assumes r: "la_rep la xs" and h: "hand_ok la xs p" and ne: "xs \<noteq> []"
  obtains k where "k < length xs" "hand_start la p = Inr (xs ! k)" "xs ! k \<noteq> la_head la"
proof -
  have head: "la_head la = la_capacity la" using la_repD(1) [OF r] by (simp add: la_simps)
  have "\<exists>k<length xs. hand_start la p = Inr (xs ! k)"
  proof (cases "p = la_capacity la")
    case True
    then have "hand_start la p = Inr (xs ! (length xs - 1))"
      using GetTail_rep [OF r] ne head by (simp add: hand_start_def last_conv_nth)
    then show ?thesis using ne by (intro exI [of _ "length xs - 1"]) simp
  next
    case False
    then obtain k where "k < length xs" "p = xs ! k"
      using h by (auto simp: hand_ok_def in_set_conv_nth)
    then show ?thesis using False head by (auto simp: hand_start_def)
  qed
  then obtain k where "k < length xs" "hand_start la p = Inr (xs ! k)" by blast
  then show thesis
    using la_rep_lt [OF r, of "xs ! k"] head by (intro that [of k]) simp_all
qed

text \<open>Taking the node under the hand out of the list leaves the hand on a member or at the front.\<close>

lemma take_out:
  assumes r: "la_rep la xs" and k: "k < length xs"
  obtains la' p where "removeFromIndex la (xs ! k) = Inr (True, la')" "getPrevNodeIndex la (xs ! k) = Inr p"
    "la_rep la' (remove1 (xs ! k) xs)" "hand_ok la' (remove1 (xs ! k) xs) p"
    "la_vals la' = la_vals la" "la_capacity la' = la_capacity la"
proof -
  have l: "xs ! k < la_capacity la" using la_rep_lt [OF r] k by simp
  obtain la' where la': "removeFromIndex la (xs ! k) = Inr (True, la')" "la_rep la' (remove1 (xs ! k) xs)"
    "la_vals la' = la_vals la" "la_capacity la' = la_capacity la"
    using removeFromIndex_rep [OF r l] by blast
  have p: "getPrevNodeIndex la (xs ! k) = Inr ((la_capacity la # xs) ! k)"
    using r k by (rule getPrevNodeIndex_rep)
  have "hand_ok la' (remove1 (xs ! k) xs) ((la_capacity la # xs) ! k)"
  proof (cases k)
    case (Suc j)
    then have "xs ! j \<in> set (remove1 (xs ! k) xs)"
      using k la_repD(2) [OF r] by (simp add: set_remove1_eq nth_eq_iff_index_eq)
    then show ?thesis using Suc by (simp add: hand_ok_def)
  qed (simp add: hand_ok_def la'(4))
  then show thesis using la' p by (intro that [of la' "(la_capacity la # xs) ! k"]) simp_all
qed

text \<open>
  \<open>weight\<close> is the number of times a mark can be lowered.  The equations are those of the two inner
  loops; \<open>cand\<close> claims a candidate.
\<close>

locale sieve_scan =
  fixes skip :: "'v list_array \<Rightarrow> nat \<Rightarrow> ('v list_array \<times> nat) res"
    and loop :: "nat \<Rightarrow> 'v list_array \<Rightarrow> nat \<Rightarrow> page_table \<Rightarrow> 'x res"
    and weight :: "'v \<Rightarrow> nat" and lower :: "'v \<Rightarrow> 'v"
    and cand :: "page_table \<Rightarrow> mpage_id \<Rightarrow> (bool \<times> page_table) res"
    and take_it :: "page_table \<Rightarrow> mpage_id \<Rightarrow> bool" and claim :: "page_table \<Rightarrow> mpage_id \<Rightarrow> page_table"
    and found :: "'v list_array \<Rightarrow> nat \<Rightarrow> page_table \<Rightarrow> 'x" and gone :: "'v list_array \<Rightarrow> nat \<Rightarrow> page_table \<Rightarrow> 'x res"
  assumes skip_stop: "getValue la i = Inr v \<Longrightarrow> weight v = 0 \<Longrightarrow> skip la i = Inr (la, i)"
    and skip_on: "getValue la i = Inr v \<Longrightarrow> 0 < weight v \<Longrightarrow> setValue la i (lower v) = Inr la' \<Longrightarrow>
      step_back la' i = Inr j \<Longrightarrow> skip la i = skip la' j"
    and lower_weight: "0 < weight v \<Longrightarrow> weight (lower v) = weight v - 1"
    and loop_0: "loop 0 la i pt = gone la i pt"
    and loop_Suc: "loop (Suc n) la i pt = bindE (skip la i) (\<lambda>(la, i).
      bindE (cand pt i) (\<lambda>(ok, pt).
      if ok then Inr (found la i pt) else bindE (step_back la i) (\<lambda>j. loop n la j pt)))"
    and cand_held: "pt_wf k pt \<Longrightarrow> held pt m \<Longrightarrow>
      cand pt m = (if take_it pt m then Inr (True, claim pt m) else Inr (False, pt))"
begin

text \<open>How many more steps the hand takes, at most, before it evicts the node at position \<open>t\<close>.\<close>

definition remaining :: "nat list \<Rightarrow> nat \<Rightarrow> 'v list_array \<Rightarrow> nat \<Rightarrow> nat" where
  "remaining xs t la k = weight (la_vals la (xs ! t)) * length xs + dist_back (length xs) k t"

definition same_list :: "'v list_array \<Rightarrow> 'v list_array \<Rightarrow> bool" where
  "same_list la la' \<longleftrightarrow> la_capacity la' = la_capacity la \<and> la_size la' = la_size la \<and>
     (\<forall>i. weight (la_vals la' i) \<le> weight (la_vals la i))"

lemma same_list_trans: "same_list la1 la2 \<Longrightarrow> same_list la2 la3 \<Longrightarrow> same_list la1 la3"
  by (auto simp: same_list_def intro: order_trans)

lemma step_remaining:
  assumes r: "la_rep la xs" and k: "k < length xs" and t: "t < length xs"
    and w: "0 < weight (la_vals la (xs ! k))"
  shows "remaining xs t (put_val la (xs ! k) (lower (la_vals la (xs ! k)))) (prv_pos (length xs) k) <
    remaining xs t la k"
proof -
  have l: "xs ! k < length (la_nodes la)" using la_rep_lt [OF r, of "xs ! k"] la_repD(5) [OF r] k by simp
  show ?thesis
  proof (cases "k = t")
    case True
    obtain v where v: "weight (la_vals la (xs ! t)) = Suc v" using w True by (cases "weight (la_vals la (xs ! t))") auto
    then show ?thesis
      using dist_back_step(2) [OF t] lower_weight [OF w] l t True
      by (simp add: remaining_def la_simps dist_back_def)
  next
    case False
    then have "xs ! k \<noteq> xs ! t" using la_repD(2) [OF r] k t by (simp add: nth_eq_iff_index_eq)
    then show ?thesis
      using dist_back_step(1) [OF k t False] l by (simp add: remaining_def la_simps)
  qed
qed

lemma skip_ok:
  assumes "la_rep la xs" "k < length xs" "t < length xs"
  shows "\<exists>la' k'. skip la (xs ! k) = Inr (la', xs ! k') \<and> la_rep la' xs \<and> k' < length xs \<and>
    weight (la_vals la' (xs ! k')) = 0 \<and> remaining xs t la' k' \<le> remaining xs t la k \<and> same_list la la'"
  using assms
proof (induction "remaining xs t la k" arbitrary: la k rule: less_induct)
  case less
  note r = less.prems(1) and k = less.prems(2) and t = less.prems(3)
  let ?v = "la_vals la (xs ! k)"
  have l: "xs ! k < la_capacity la" using la_rep_lt [OF r] k by simp
  have sh: "la_shape la" "length (la_nodes la) = la_capacity la + 2" using la_repD [OF r] by simp_all
  have g: "getValue la (xs ! k) = Inr ?v" using sh l by (simp add: la_simps)
  show ?case
  proof (cases "weight ?v = 0")
    case True
    then show ?thesis using skip_stop [OF g] r k by (auto simp: same_list_def)
  next
    case False
    let ?la = "put_val la (xs ! k) (lower ?v)"
    have s: "setValue la (xs ! k) (lower ?v) = Inr ?la" using sh l by (simp add: la_simps)
    have r': "la_rep ?la xs" using r l by (intro la_rep_put_val) simp_all
    have b: "step_back ?la (xs ! k) = Inr (xs ! prv_pos (length xs) k)" using r' k by (rule step_back_rep)
    have e: "skip la (xs ! k) = skip ?la (xs ! prv_pos (length xs) k)" using skip_on [OF g _ s b] False by simp
    have dec: "remaining xs t ?la (prv_pos (length xs) k) < remaining xs t la k"
      using step_remaining [OF r k t] False by simp
    have same: "same_list la ?la" using lower_weight [of ?v] False l sh
      by (auto simp: same_list_def la_simps)
    show ?thesis
      using less.hyps [OF dec r' prv_pos_less [OF k] t] dec e same_list_trans [OF same] by fastforce
  qed
qed

text \<open>With enough steps left the hand takes some node that may be taken.\<close>

lemma loop_ok:
  assumes "la_rep la xs" "k < length xs" "t < length xs" "pt_wf p pt" "\<And>m. m \<in> set xs \<Longrightarrow> held pt m"
    "take_it pt (xs ! t)" "remaining xs t la k < n"
  shows "\<exists>la' k'. loop n la (xs ! k) pt = Inr (found la' (xs ! k') (claim pt (xs ! k'))) \<and> la_rep la' xs \<and>
    k' < length xs \<and> take_it pt (xs ! k') \<and> same_list la la'"
  using assms
proof (induction n arbitrary: la k)
  case 0
  then show ?case by simp
next
  case (Suc n)
  obtain la1 k1 where 1: "skip la (xs ! k) = Inr (la1, xs ! k1)" "la_rep la1 xs" "k1 < length xs"
    "weight (la_vals la1 (xs ! k1)) = 0" "remaining xs t la1 k1 \<le> remaining xs t la k" "same_list la la1"
    using skip_ok [OF Suc.prems(1-3)] by blast
  have c: "cand pt (xs ! k1) =
      (if take_it pt (xs ! k1) then Inr (True, claim pt (xs ! k1)) else Inr (False, pt))"
    using cand_held [OF Suc.prems(4)] Suc.prems(5) 1(3) by simp
  show ?case
  proof (cases "take_it pt (xs ! k1)")
    case True
    then show ?thesis using 1 c by (auto simp: loop_Suc)
  next
    case False
    then have kt: "k1 \<noteq> t" using Suc.prems(6) by auto
    have b: "step_back la1 (xs ! k1) = Inr (xs ! prv_pos (length xs) k1)"
      using 1(2,3) by (rule step_back_rep)
    have "remaining xs t la1 (prv_pos (length xs) k1) < n"
      using dist_back_step(1) [OF 1(3) Suc.prems(3) kt] 1(5) Suc.prems(7) by (simp add: remaining_def)
    from Suc.IH [OF 1(2) prv_pos_less [OF 1(3)] Suc.prems(3-6) this]
    show ?thesis using 1(1,6) c False b same_list_trans [OF 1(6)] by (fastforce simp: loop_Suc)
  qed
qed

text \<open>When no frame may be taken the count runs out.\<close>

lemma loop_exhausts:
  assumes "la_rep la xs" "k < length xs" "pt_wf p pt" "\<And>m. m \<in> set xs \<Longrightarrow> held pt m"
    "\<And>m. m \<in> set xs \<Longrightarrow> \<not> take_it pt m"
  shows "\<exists>la' k'. loop n la (xs ! k) pt = gone la' (xs ! k') pt \<and> la_rep la' xs \<and> same_list la la'"
  using assms
proof (induction n arbitrary: la k)
  case 0
  then show ?case by (auto simp: loop_0 same_list_def)
next
  case (Suc n)
  obtain la1 k1 where 1: "skip la (xs ! k) = Inr (la1, xs ! k1)" "la_rep la1 xs" "k1 < length xs" "same_list la la1"
    using skip_ok [OF Suc.prems(1,2,2)] by blast
  then have "cand pt (xs ! k1) = Inr (False, pt)" "step_back la1 (xs ! k1) = Inr (xs ! prv_pos (length xs) k1)"
    using cand_held [OF Suc.prems(3)] Suc.prems(4,5) step_back_rep by simp_all
  then show ?case
    using 1(1) Suc.IH [OF 1(2) prv_pos_less [OF 1(3)] Suc.prems(3-5)] same_list_trans [OF 1(4)]
    by (fastforce simp: loop_Suc)
qed

lemma scan_succeeds:
  assumes r: "la_rep la xs" and k: "k < length xs" and wf: "pt_wf p pt" and h: "\<And>m. m \<in> set xs \<Longrightarrow> held pt m"
    and m: "m \<in> set xs" "take_it pt m" and low: "\<And>m. m \<in> set xs \<Longrightarrow> weight (la_vals la m) \<le> 1"
  shows "\<exists>la' k'. loop (la_capacity la * 2) la (xs ! k) pt = Inr (found la' (xs ! k') (claim pt (xs ! k'))) \<and>
    la_rep la' xs \<and> k' < length xs \<and> take_it pt (xs ! k') \<and> same_list la la'"
proof -
  obtain t where t: "t < length xs" "m = xs ! t" using m(1) by (auto simp: in_set_conv_nth)
  have "weight (la_vals la (xs ! t)) \<le> 1" using low t by simp
  then have "weight (la_vals la (xs ! t)) * length xs \<le> 1 * length xs" by (rule mult_le_mono1)
  then have "remaining xs t la k < la_capacity la * 2"
    using dist_back_bounds(1) [OF k t(1)] la_rep_length [OF r] unfolding remaining_def by linarith
  then show ?thesis using loop_ok [OF r k t(1) wf h] m(2) t(2) by simp
qed

text \<open>From the start of the hand to the node taken out: what the policies do around the loop.\<close>

lemma victim_core:
  assumes r: "la_rep la xs" and p: "hand_ok la xs pointer" and wf: "pt_wf k pt"
    and h: "\<And>m. m \<in> set xs \<Longrightarrow> held pt m" and m: "m \<in> set xs" "take_it pt m"
    and low: "\<And>m. m \<in> set xs \<Longrightarrow> weight (la_vals la m) \<le> 1"
  obtains i la1 v p' la2 where "hand_start la pointer = Inr i" "i \<noteq> la_head la"
    "loop (la_capacity la * 2) la i pt = Inr (found la1 v (claim pt v))" "getPrevNodeIndex la1 v = Inr p'"
    "removeFromIndex la1 v = Inr (True, la2)" "la_rep la2 (remove1 v xs)" "hand_ok la2 (remove1 v xs) p'"
    "v \<in> set xs" "take_it pt v" "set (remove1 v xs) = set xs - {v}" "la_capacity la2 = la_capacity la"
    "\<And>i. weight (la_vals la2 i) \<le> weight (la_vals la i)"
proof -
  have "xs \<noteq> []" using m(1) by auto
  from hand_start_ok [OF r p this] obtain j
    where j: "j < length xs" "hand_start la pointer = Inr (xs ! j)" "xs ! j \<noteq> la_head la" .
  obtain la1 t where t: "loop (la_capacity la * 2) la (xs ! j) pt = Inr (found la1 (xs ! t) (claim pt (xs ! t)))"
    "la_rep la1 xs" "t < length xs" "take_it pt (xs ! t)" "same_list la la1"
    using scan_succeeds [OF r j(1) wf h m low] by auto
  obtain la2 p' where p': "removeFromIndex la1 (xs ! t) = Inr (True, la2)" "getPrevNodeIndex la1 (xs ! t) = Inr p'"
    "la_rep la2 (remove1 (xs ! t) xs)" "hand_ok la2 (remove1 (xs ! t) xs) p'"
    "la_vals la2 = la_vals la1" "la_capacity la2 = la_capacity la1"
    using take_out [OF t(2,3)] by blast
  show thesis
    by (rule that [OF j(2,3) t(1) p'(2,1,3,4)])
      (use t p'(5,6) la_repD(2) [OF r] in \<open>auto simp: same_list_def\<close>)
qed

lemma exhausts_from_start:
  assumes r: "la_rep la xs" and p: "hand_ok la xs pointer" and wf: "pt_wf k pt" and ne: "xs \<noteq> []"
    and h: "\<And>m. m \<in> set xs \<Longrightarrow> held pt m" and pin: "\<And>m. m \<in> set xs \<Longrightarrow> \<not> take_it pt m"
  obtains i la' j where "hand_start la pointer = Inr i" "i \<noteq> la_head la" "loop n la i pt = gone la' j pt"
    "la_rep la' xs" "same_list la la'"
  using hand_start_ok [OF r p ne] loop_exhausts [OF r _ wf h pin] by metis

end

interpretation s3: sieve_scan s3_skip s3_loop unat "\<lambda>v. v - 1" s3_candidate "\<lambda>pt m. \<not> pinned pt m" lock_frame
  "\<lambda>la i pt. (la, i, pt)" "\<lambda>_ _ _. Inl AssertFail"
proof unfold_locales
  fix la :: "u8 list_array" and i v la' j
  assume "getValue la i = Inr v" "0 < unat v" "setValue la i (v - 1) = Inr la'" "step_back la' i = Inr j"
  then show "s3_skip la i = s3_skip la' j"
    by (subst s3_skip.simps) (simp add: word_less_nat_alt)
next
  fix k pt m assume wf: "pt_wf k pt" and h: "held pt m"
  have "FromPageId pt m = Inr (pte_of pt m)" using h by (simp add: held_def pt_simps)
  then show "s3_candidate pt m = (if \<not> pinned pt m then Inr (True, lock_frame pt m) else Inr (False, pt))"
    using try_evict_held [OF wf h, of False] by (simp add: s3_candidate_def pinned_def)
qed (simp_all add: s3_skip.simps unat_pred word_less_nat_alt)

text \<open>The batch form differs in the frames it takes, and gives up where \<open>Victim\<close> aborts.\<close>

interpretation s3b: sieve_scan s3_skip s3_batch_loop unat "\<lambda>v. v - 1" s3_batch_candidate clean_victim unmap_frame
  "\<lambda>la i pt. (True, la, i, pt)" "\<lambda>la i pt. Inr (False, la, i, pt)"
proof unfold_locales
  fix k pt m assume wf: "pt_wf k pt" and h: "held pt m"
  have "FromPageId pt m = Inr (pte_of pt m)" using h by (simp add: held_def pt_simps)
  then show "s3_batch_candidate pt m = (if clean_victim pt m then Inr (True, unmap_frame pt m) else Inr (False, pt))"
    using try_evict_held [OF wf h, of True] DeleteMapping_busy [OF lock_frame_wf(3) [OF wf h]]
    by (auto simp: s3_batch_candidate_def clean_victim_def unmap_frame_def pinned_def)
qed (use s3.skip_stop s3.skip_on in \<open>simp_all add: unat_pred word_less_nat_alt\<close>)

interpretation s2: sieve_scan s2_skip s2_loop of_bool "\<lambda>_. False" "try_evict False" "\<lambda>pt m. \<not> pinned pt m" lock_frame
  "\<lambda>la i pt. (la, i, pt)" "\<lambda>_ _ _. Inl AssertFail"
  by unfold_locales (auto simp: s2_skip.simps try_evict_held split: if_splits)

section \<open>Both policies keep the contract\<close>

definition s3_inv :: "sieve3 \<Rightarrow> mpage_id set \<Rightarrow> bool" where
  "s3_inv r S \<longleftrightarrow> (\<exists>xs. la_rep (s3_list r) xs \<and> set xs = S \<and> hand_ok (s3_list r) xs (s3_pointer r) \<and>
     (\<forall>m\<in>S. unat (la_vals (s3_list r) m) \<le> 1))"

definition s3_cap :: "sieve3 \<Rightarrow> nat" where
  "s3_cap r = la_capacity (s3_list r)"

lemma moveToFront_new:
  assumes r: "la_rep la xs" and m: "m < la_capacity la" "m \<notin> set xs"
  obtains la' where "moveToFront (put_val la m v) m = Inr (True, la')" "la_rep la' (m # xs)"
    "la_vals la' = (la_vals la)(m := v)" "la_capacity la' = la_capacity la"
proof -
  have "la_rep (put_val la m v) xs" using r m by (intro la_rep_put_val) simp_all
  from moveToFront_rep [OF this, of m] m that show thesis
    using la_repD(5) [OF r] by (auto simp: la_simps remove1_idem)
qed

lemma s3_Insert_ok:
  assumes "s3_inv r S" "m < s3_cap r" "m \<notin> S"
  shows "\<exists>r'. s3_Insert r m = Inr (True, r') \<and> s3_inv r' (insert m S) \<and> s3_cap r' = s3_cap r"
proof -
  obtain xs where xs: "la_rep (s3_list r) xs" "set xs = S" "hand_ok (s3_list r) xs (s3_pointer r)"
    "\<forall>m\<in>S. unat (la_vals (s3_list r) m) \<le> 1"
    using assms(1) by (auto simp: s3_inv_def)
  obtain la' where la': "moveToFront (put_val (s3_list r) m 0) m = Inr (True, la')" "la_rep la' (m # xs)"
    "la_vals la' = (la_vals (s3_list r))(m := 0)" "la_capacity la' = la_capacity (s3_list r)"
    using moveToFront_new [OF xs(1)] assms(2,3) xs(2) unfolding s3_cap_def by blast
  have "setValue (s3_list r) m 0 = Inr (put_val (s3_list r) m 0)"
    using assms(2) la_repD(1) [OF xs(1)] by (simp add: s3_cap_def la_simps)
  then have "s3_Insert r m = Inr (True, r\<lparr>s3_list := la'\<rparr>)"
    by (simp add: s3_Insert_def la'(1))
  moreover have "s3_inv (r\<lparr>s3_list := la'\<rparr>) (insert m S)"
    unfolding s3_inv_def using la' xs by (intro exI [of _ "m # xs"]) (auto simp: hand_ok_def)
  ultimately show ?thesis using la'(4) by (simp add: s3_cap_def)
qed

lemma s3_Promote_ok:
  assumes "s3_inv r S" "m \<in> S"
  shows "\<exists>r'. s3_Promote r m = Inr (True, r') \<and> s3_inv r' S \<and> s3_cap r' = s3_cap r"
proof -
  obtain xs where xs: "la_rep (s3_list r) xs" "set xs = S" "hand_ok (s3_list r) xs (s3_pointer r)"
    "\<forall>m\<in>S. unat (la_vals (s3_list r) m) \<le> 1"
    using assms(1) by (auto simp: s3_inv_def)
  have m: "m < la_capacity (s3_list r)" using la_rep_lt [OF xs(1)] xs(2) assms(2) by simp
  then have "s3_Promote r m = Inr (True, r\<lparr>s3_list := put_val (s3_list r) m 1\<rparr>)"
    using la_repD(1) [OF xs(1)] by (simp add: s3_Promote_def la_simps)
  moreover have "s3_inv (r\<lparr>s3_list := put_val (s3_list r) m 1\<rparr>) S"
    unfolding s3_inv_def using xs m la_rep_put_val [OF xs(1), of m 1] la_repD(5) [OF xs(1)]
    by (intro exI [of _ xs]) (simp add: la_simps hand_ok_def)
  ultimately show ?thesis by (simp add: s3_cap_def la_simps)
qed

lemma s3_Victim_ok:
  assumes i: "s3_inv r S" and wf: "pt_wf k pt" and h: "\<And>m. m \<in> S \<Longrightarrow> held pt m"
    and m0: "m0 \<in> S" "\<not> pinned pt m0"
  shows "\<exists>m r'. m \<in> S \<and> \<not> pinned pt m \<and> s3_Victim r pt = Inr ((True, m), r', lock_frame pt m) \<and>
    s3_inv r' (S - {m}) \<and> s3_cap r' = s3_cap r"
proof -
  let ?la = "s3_list r"
  obtain xs where xs: "la_rep ?la xs" "set xs = S" "hand_ok ?la xs (s3_pointer r)"
    "\<And>m. m \<in> set xs \<Longrightarrow> unat (la_vals ?la m) \<le> 1"
    using i by (auto simp: s3_inv_def)
  obtain i la1 v p la2 where c: "hand_start ?la (s3_pointer r) = Inr i" "i \<noteq> la_head ?la"
    "s3_loop (la_capacity ?la * 2) ?la i pt = Inr (la1, v, lock_frame pt v)" "getPrevNodeIndex la1 v = Inr p"
    "removeFromIndex la1 v = Inr (True, la2)" "la_rep la2 (remove1 v xs)" "hand_ok la2 (remove1 v xs) p"
    "v \<in> set xs" "\<not> pinned pt v" "set (remove1 v xs) = set xs - {v}" "la_capacity la2 = la_capacity ?la"
    "\<And>i. unat (la_vals la2 i) \<le> unat (la_vals ?la i)"
    using s3.victim_core [OF xs(1,3) wf, of m0] h m0 xs(2,4) by metis
  have "s3_Victim r pt = Inr ((True, v), r\<lparr>s3_list := la2, s3_pointer := p\<rparr>, lock_frame pt v)"
    using c(1-5) by (simp add: s3_Victim_def)
  moreover have "s3_inv (r\<lparr>s3_list := la2, s3_pointer := p\<rparr>) (S - {v})"
    unfolding s3_inv_def using c(6,7,10) xs(2) order_trans [OF c(12) xs(4)]
    by (intro exI [of _ "remove1 v xs"]) simp
  ultimately show ?thesis using c(8,9,11) xs(2) by (auto simp: s3_cap_def)
qed

interpretation sieve3: replacer s3_ops s3_inv s3_cap
proof (unfold_locales, unfold s3_ops_def replacer_ops.select_convs)
  show "s3_inv r S \<Longrightarrow> S \<subseteq> {..<s3_cap r}" for r S
    using la_repD(3) by (auto simp: s3_inv_def s3_cap_def)
qed (rule s3_Insert_ok s3_Promote_ok s3_Victim_ok; assumption)+

subsection \<open>SieveReplacer_v2\<close>

definition s2_inv :: "sieve2 \<Rightarrow> mpage_id set \<Rightarrow> bool" where
  "s2_inv r S \<longleftrightarrow> (\<exists>xs. la_rep (s2_list r) xs \<and> set xs = S \<and> hand_ok (s2_list r) xs (s2_pointer r))"

definition s2_cap :: "sieve2 \<Rightarrow> nat" where
  "s2_cap r = la_capacity (s2_list r)"

lemma s2_Insert_ok:
  assumes "s2_inv r S" "m < s2_cap r" "m \<notin> S"
  shows "\<exists>r'. s2_Insert r m = Inr (True, r') \<and> s2_inv r' (insert m S) \<and> s2_cap r' = s2_cap r"
proof -
  obtain xs where xs: "la_rep (s2_list r) xs" "set xs = S" "hand_ok (s2_list r) xs (s2_pointer r)"
    using assms(1) by (auto simp: s2_inv_def)
  obtain la' where la': "moveToFront (put_val (s2_list r) m False) m = Inr (True, la')" "la_rep la' (m # xs)"
    "la_capacity la' = la_capacity (s2_list r)"
    using moveToFront_new [OF xs(1)] assms(2,3) xs(2) unfolding s2_cap_def by metis
  have "s2_Insert r m = Inr (True, r\<lparr>s2_list := la'\<rparr>)"
    using assms(2,3) la_repD(1) [OF xs(1)] inList_rep [OF xs(1), of m] xs(2) la'(1)
    by (simp add: s2_Insert_def s2_cap_def la_simps)
  moreover have "s2_inv (r\<lparr>s2_list := la'\<rparr>) (insert m S)"
    unfolding s2_inv_def using la' xs by (intro exI [of _ "m # xs"]) (auto simp: hand_ok_def)
  ultimately show ?thesis using la'(3) by (simp add: s2_cap_def)
qed

lemma s2_Promote_ok:
  assumes "s2_inv r S" "m \<in> S"
  shows "\<exists>r'. s2_Promote r m = Inr (True, r') \<and> s2_inv r' S \<and> s2_cap r' = s2_cap r"
proof -
  obtain xs where xs: "la_rep (s2_list r) xs" "set xs = S" "hand_ok (s2_list r) xs (s2_pointer r)"
    using assms(1) by (auto simp: s2_inv_def)
  have m: "m < la_capacity (s2_list r)" using la_rep_lt [OF xs(1)] xs(2) assms(2) by simp
  then have "s2_Promote r m = Inr (True, r\<lparr>s2_list := put_val (s2_list r) m True\<rparr>)"
    using la_repD(1) [OF xs(1)] inList_rep [OF xs(1) m] assms(2) xs(2)
    by (simp add: s2_Promote_def la_simps)
  moreover have "s2_inv (r\<lparr>s2_list := put_val (s2_list r) m True\<rparr>) S"
    unfolding s2_inv_def using xs m la_rep_put_val [OF xs(1), of m True]
    by (intro exI [of _ xs]) (simp add: la_simps hand_ok_def)
  ultimately show ?thesis by (simp add: s2_cap_def la_simps)
qed

lemma s2_Victim_ok:
  assumes i: "s2_inv r S" and wf: "pt_wf k pt" and h: "\<And>m. m \<in> S \<Longrightarrow> held pt m"
    and m0: "m0 \<in> S" "\<not> pinned pt m0"
  shows "\<exists>m r'. m \<in> S \<and> \<not> pinned pt m \<and> s2_Victim r pt = Inr ((True, m), r', lock_frame pt m) \<and>
    s2_inv r' (S - {m}) \<and> s2_cap r' = s2_cap r"
proof -
  let ?la = "s2_list r"
  obtain xs where xs: "la_rep ?la xs" "set xs = S" "hand_ok ?la xs (s2_pointer r)"
    using i by (auto simp: s2_inv_def)
  have low: "of_bool (la_vals ?la m) \<le> (1 :: nat)" for m by simp
  obtain i la1 v p la2 where c: "hand_start ?la (s2_pointer r) = Inr i" "i \<noteq> la_head ?la"
    "s2_loop (la_capacity ?la * 2) ?la i pt = Inr (la1, v, lock_frame pt v)" "getPrevNodeIndex la1 v = Inr p"
    "removeFromIndex la1 v = Inr (True, la2)" "la_rep la2 (remove1 v xs)" "hand_ok la2 (remove1 v xs) p"
    "v \<in> set xs" "\<not> pinned pt v" "set (remove1 v xs) = set xs - {v}" "la_capacity la2 = la_capacity ?la"
    using s2.victim_core [OF xs(1,3) wf, of m0] h m0 xs(2) low by metis
  have "s2_Victim r pt = Inr ((True, v), r\<lparr>s2_list := la2, s2_pointer := p\<rparr>, lock_frame pt v)"
    using c(1-5) by (simp add: s2_Victim_def)
  moreover have "s2_inv (r\<lparr>s2_list := la2, s2_pointer := p\<rparr>) (S - {v})"
    unfolding s2_inv_def using c(6,7,10) xs(2) by (intro exI [of _ "remove1 v xs"]) simp
  ultimately show ?thesis using c(8,9,11) xs(2) by (auto simp: s2_cap_def)
qed

interpretation sieve2: replacer s2_ops s2_inv s2_cap
proof (unfold_locales, unfold s2_ops_def replacer_ops.select_convs)
  show "s2_inv r S \<Longrightarrow> S \<subseteq> {..<s2_cap r}" for r S
    using la_repD(3) by (auto simp: s2_inv_def s2_cap_def)
qed (rule s2_Insert_ok s2_Promote_ok s2_Victim_ok; assumption)+

section \<open>Properties\<close>

lemma s3_new_inv:
  assumes "capacity + 2 \<le> INVALID_INDEX"
  shows "\<exists>r. s3_new junk capacity = Inr r \<and> s3_inv r {} \<and> s3_cap r = capacity \<and> s3_Size r = Inr 0"
proof -
  obtain la where la: "la_new junk capacity = Inr la" "la_rep la []" "la_capacity la = capacity" "la_size la = 0"
    using la_new_rep [OF assms] by blast
  have "la_head la = la_capacity la" using la_repD(1) [OF la(2)] by (simp add: la_simps)
  then show ?thesis
    using la by (auto simp: s3_new_def s3_inv_def s3_cap_def hand_ok_def s3_Size_def)
qed

text \<open>A policy that manages frame 0 of the small table, built by its operations.\<close>

lemma s3_small:
  obtains r0 r where "s3_new (\<lambda>_. 0) 2 = Inr r0" "s3_Insert r0 0 = Inr (True, r)" "s3_inv r {0}" "s3_cap r = 2"
proof -
  obtain r0 where r0: "s3_new (\<lambda>_. 0) 2 = Inr r0" "s3_inv r0 {}" "s3_cap r0 = 2"
    using s3_new_inv [of 2 "\<lambda>_. 0"] by (auto simp: INVALID_INDEX_def)
  then obtain r where "s3_Insert r0 0 = Inr (True, r)" "s3_inv r {0}" "s3_cap r = 2"
    using s3_Insert_ok [of r0 "{}" 0] by auto
  then show thesis using r0(1) by (intro that)
qed

lemma s3_small_mark:
  assumes "s3_new (\<lambda>_. 0) 2 = Inr r0" "s3_Insert r0 0 = Inr (True, r)"
  shows "la_vals (s3_list r) 0 = 0"
proof -
  obtain r0' where "s3_new (\<lambda>_. 0) 2 = Inr r0'" "s3_inv r0' {}" "s3_cap r0' = 2"
    using s3_new_inv [of 2 "\<lambda>_. 0"] by (auto simp: INVALID_INDEX_def)
  with assms(1) have i: "s3_inv r0 {}" "s3_cap r0 = 2" by auto
  then have x: "la_rep (s3_list r0) []" "la_capacity (s3_list r0) = 2" by (auto simp: s3_inv_def s3_cap_def)
  obtain la' where la': "moveToFront (put_val (s3_list r0) 0 0) 0 = Inr (True, la')"
    "la_vals la' = (la_vals (s3_list r0))(0 := 0)"
    using moveToFront_new [OF x(1), of 0 0] x(2) by auto
  have "setValue (s3_list r0) 0 0 = Inr (put_val (s3_list r0) 0 0)"
    using x la_repD(1) [OF x(1)] by (simp add: setValue_in)
  then have "r = r0\<lparr>s3_list := la'\<rparr>" using assms(2) la'(1) by (simp add: s3_Insert_def)
  then show ?thesis using la'(2) by simp
qed

lemma small_pt_held: "held small_pt 0" "\<not> pinned small_pt 0"
  by (simp_all add: held_def pinned_def small_pt_sel small_pt_word pt_simps)

text \<open>C32: as long as one managed frame is unpinned, SIEVE finds a victim: \<open>Victim\<close> returns (it neither
  loops nor hits its assertions), with an unpinned managed frame that it has locked and taken out of
  the list, and with no other change to the page table.\<close>

theorem s3_Victim_evicts:
  assumes "s3_inv r S" "pt_wf k pt" "\<And>m. m \<in> S \<Longrightarrow> held pt m" "m0 \<in> S" "\<not> pinned pt m0"
  shows "\<exists>m r'. m \<in> S \<and> \<not> pinned pt m \<and> s3_Victim r pt = Inr ((True, m), r', lock_frame pt m) \<and>
    s3_inv r' (S - {m}) \<and> s3_cap r' = s3_cap r"
  using sieve3.Victim_law [OF assms] by (simp add: s3_ops_def)

lemma s3_Victim_evicts_witness:
  "\<exists>r0 r r'. s3_new (\<lambda>_. 0) 2 = Inr r0 \<and> s3_Insert r0 0 = Inr (True, r) \<and>
     s3_Victim r small_pt = Inr ((True, 0), r', lock_frame small_pt 0)"
proof -
  obtain r0 r where r: "s3_new (\<lambda>_. 0) 2 = Inr r0" "s3_Insert r0 0 = Inr (True, r)" "s3_inv r {0}"
    by (rule s3_small)
  show ?thesis
    using s3_Victim_evicts [OF r(3) small_pt_wf, of 0] small_pt_held r(1,2) by auto
qed

lemma s3_Victim_abort_law:
  assumes "s3_inv r S" "pt_wf k pt" "\<And>m. m \<in> S \<Longrightarrow> held pt m" "\<And>m. m \<in> S \<Longrightarrow> pinned pt m"
  shows "s3_Victim r pt = Inl AssertFail"
proof -
  obtain xs where xs: "la_rep (s3_list r) xs" "set xs = S" "hand_ok (s3_list r) xs (s3_pointer r)"
    using assms(1) by (auto simp: s3_inv_def)
  have head: "la_head (s3_list r) = la_capacity (s3_list r)"
    using la_repD(1) [OF xs(1)] by (simp add: la_simps)
  show ?thesis
  proof (cases "xs = []")
    case True
    then show ?thesis
      using xs(3) GetTail_rep [OF xs(1)] head by (simp add: s3_Victim_def hand_start_def hand_ok_def)
  next
    case False
    with xs assms obtain i where "hand_start (s3_list r) (s3_pointer r) = Inr i" "i \<noteq> la_head (s3_list r)"
      "s3_loop (la_capacity (s3_list r) * 2) (s3_list r) i pt = Inl AssertFail"
      using s3.exhausts_from_start [OF xs(1,3) assms(2)] by metis
    then show ?thesis by (simp add: s3_Victim_def)
  qed
qed

text \<open>When every managed frame is pinned, or none is managed, \<open>Victim\<close> does not report failure: it
  runs into its assertion and aborts the process.\<close>

theorem s3_Victim_aborts:
  assumes "s3_inv r S" "pt_wf k pt" "\<And>m. m \<in> S \<Longrightarrow> held pt m" "\<And>m. m \<in> S \<Longrightarrow> pinned pt m"
  shows "s3_Victim r pt = Inl AssertFail"
  using assms by (rule s3_Victim_abort_law)

lemma s3_Victim_aborts_witness:
  "\<exists>r. s3_new (\<lambda>_. 0) 2 = Inr r \<and> s3_Victim r small_pt = Inl AssertFail"
  using s3_new_inv [of 2 "\<lambda>_. 0"] s3_Victim_aborts [OF _ small_pt_wf, of _ "{}"]
  by (auto simp: INVALID_INDEX_def)

text \<open>The size a SIEVE policy reports is not the number of frames it manages: inserting does not
  count up and evicting counts down, from 0 to \<open>2 ^ 64 - 1\<close>.\<close>

theorem s3_Size_wrong:
  assumes "s3_inv r S" "m < s3_cap r" "m \<notin> S" "s3_Insert r m = Inr (True, r1)" "s3_Erase r1 m = Inr (ok, r2)"
  shows "s3_Size r1 = s3_Size r \<and> s3_Size r2 = Inr (la_size (s3_list r) - 1)"
proof -
  obtain xs where xs: "la_rep (s3_list r) xs" "set xs = S" using assms(1) by (auto simp: s3_inv_def)
  have m: "m < la_capacity (s3_list r)" using assms(2) by (simp add: s3_cap_def)
  let ?la = "put_val (s3_list r) m 0"
  have "la_rep ?la xs" using xs(1) m by (intro la_rep_put_val) simp_all
  from moveToFront_rep [OF this, of m] m obtain la1 where la1: "moveToFront ?la m = Inr (True, la1)"
    "la_rep la1 (m # remove1 m xs)" "la_size la1 = la_size (s3_list r)" "la_capacity la1 = la_capacity (s3_list r)"
    by (auto simp: la_simps)
  have r1: "r1 = r\<lparr>s3_list := la1\<rparr>"
    using assms(4) la1(1) m la_repD(1) [OF xs(1)] by (simp add: s3_Insert_def la_simps)
  then have "s3_Size r1 = s3_Size r" using la1(3) by (simp add: s3_Size_def)
  moreover have "s3_Size r2 = Inr (la_size (s3_list r) - 1)"
    using assms(5) removeFromIndex_rep [OF la1(2), of m] m la1(3,4) r1
    by (auto simp: s3_Size_def s3_Erase_def)
  ultimately show ?thesis ..
qed

lemma s3_Size_wrong_witness:
  "\<exists>r r1 r2. s3_new (\<lambda>_. 0) 2 = Inr r \<and> s3_Insert r 0 = Inr (True, r1) \<and> s3_Size r1 = Inr 0 \<and>
     s3_Erase r1 0 = Inr (True, r2) \<and> s3_Size r2 = Inr 18446744073709551615"
proof -
  obtain r where r: "s3_new (\<lambda>_. 0) 2 = Inr r" "s3_inv r {}" "s3_cap r = 2" "la_size (s3_list r) = 0"
    using s3_new_inv [of 2 "\<lambda>_. 0"] by (auto simp: INVALID_INDEX_def s3_Size_def)
  obtain r1 where r1: "s3_Insert r 0 = Inr (True, r1)" "s3_inv r1 {0}" "s3_cap r1 = 2"
    using s3_Insert_ok [of r "{}" 0] r by auto
  then obtain xs where "la_rep (s3_list r1) xs" by (auto simp: s3_inv_def)
  then obtain r2 where r2: "s3_Erase r1 0 = Inr (True, r2)"
    using removeFromIndex_rep [of "s3_list r1" xs 0] r1(3) by (auto simp: s3_Erase_def s3_cap_def)
  show ?thesis
    using s3_Size_wrong [OF r(2) _ _ r1(1) r2] r r1(1) r2 by (auto simp: s3_Size_def)
qed

lemma s3_replace_skip_diverges:
  assumes "la_rep la xs" "\<And>m. m \<in> set xs \<Longrightarrow> 1 < la_vals la m" "k < length xs"
  shows "s3_replace_skip fuel la (xs ! k) = Inl OutOfFuel"
  using assms(3)
proof (induction fuel arbitrary: k)
  case (Suc fuel)
  let ?v = "la_vals la (xs ! k)"
  have v: "1 < ?v" using assms(2) Suc.prems by simp
  then have nz: "0 < ?v" "?v \<noteq> 1" using word_less_nat_alt [of 1 ?v] by (auto simp: word_less_nat_alt)
  have "getValue la (xs ! k) = Inr ?v"
    using la_repD(1) [OF assms(1)] la_rep_lt [OF assms(1)] Suc.prems by (simp add: la_simps)
  then show ?case
    using nz step_back_rep [OF assms(1) Suc.prems] Suc.IH [OF prv_pos_less [OF Suc.prems]] by simp
qed simp

text \<open>\<open>Replace\<close> leaves a mark of 2 on its frame, and its scan lowers only marks of 1; once every
  managed frame has been replaced, \<open>Replace\<close> never returns, whatever bound is put on its loop.\<close>

theorem s3_Replace_diverges:
  assumes "la_rep (s3_list r) xs" "xs \<noteq> []" "hand_ok (s3_list r) xs (s3_pointer r)"
    and "\<And>m. m \<in> set xs \<Longrightarrow> 1 < la_vals (s3_list r) m"
  shows "s3_Replace fuel r pt = Inl OutOfFuel"
proof -
  obtain k where k: "k < length xs" "hand_start (s3_list r) (s3_pointer r) = Inr (xs ! k)"
    "xs ! k \<noteq> la_head (s3_list r)"
    using hand_start_ok [OF assms(1,3,2)] by blast
  obtain c where c: "la_capacity (s3_list r) * 2 = Suc c"
    using la_rep_lt [OF assms(1), of "hd xs"] assms(2) by (cases "la_capacity (s3_list r) * 2") auto
  show ?thesis
    using s3_replace_skip_diverges [OF assms(1,4) k(1)] k(2,3) by (simp add: s3_Replace_def c)
qed

lemma s3_Replace_diverges_witness:
  "\<exists>r0 r. s3_new (\<lambda>_. 0) 2 = Inr r0 \<and> s3_Insert r0 0 = Inr (True, r) \<and>
     (\<forall>fuel. s3_Replace fuel (r\<lparr>s3_list := put_val (s3_list r) 0 2\<rparr>) small_pt = Inl OutOfFuel)"
proof -
  obtain r0 r where r: "s3_new (\<lambda>_. 0) 2 = Inr r0" "s3_Insert r0 0 = Inr (True, r)" "s3_inv r {0}" "s3_cap r = 2"
    by (rule s3_small)
  then obtain xs where xs: "la_rep (s3_list r) xs" "set xs = {0}" "hand_ok (s3_list r) xs (s3_pointer r)"
    by (auto simp: s3_inv_def)
  let ?r = "r\<lparr>s3_list := put_val (s3_list r) 0 2\<rparr>"
  have 1: "la_rep (s3_list ?r) xs" "xs \<noteq> []" "hand_ok (s3_list ?r) xs (s3_pointer ?r)"
    "\<And>m. m \<in> set xs \<Longrightarrow> 1 < la_vals (s3_list ?r) m"
  proof -
    have c: "la_capacity (s3_list r) = 2" using r(4) by (simp add: s3_cap_def)
    then have "length (la_nodes (s3_list r)) = 4" using la_repD(5) [OF xs(1)] by simp
    then have v: "la_vals (put_val (s3_list r) 0 2) 0 = 2" by (simp add: la_simps)
    show "la_rep (s3_list ?r) xs" using la_rep_put_val [OF xs(1), of 0 2] by simp
    show "xs \<noteq> []" using xs(2) by (metis insert_not_empty list.set(1))
    show "hand_ok (s3_list ?r) xs (s3_pointer ?r)" using xs(3) by (simp add: hand_ok_def la_simps)
    show "1 < la_vals (s3_list ?r) m" if "m \<in> set xs" for m using that xs(2) v by simp
  qed
  then show ?thesis using s3_Replace_diverges [OF 1] r(1,2) by blast
qed

text \<open>\<open>Erase\<close> does not move the hand off the frame it takes out; the next \<open>Victim\<close> then returns
  that frame although the policy no longer manages it.\<close>

theorem s3_Erase_leaves_hand:
  assumes "s3_inv r S" "m \<in> S" "s3_pointer r = m" "la_vals (s3_list r) m = 0"
    and "pt_wf k pt" "held pt m" "\<not> pinned pt m"
  shows "\<exists>r' r''. s3_Erase r m = Inr (True, r') \<and> s3_Victim r' pt = Inr ((True, m), r'', lock_frame pt m) \<and>
    (\<exists>xs. la_rep (s3_list r') xs \<and> m \<notin> set xs)"
proof -
  obtain xs where xs: "la_rep (s3_list r) xs" "set xs = S" using assms(1) by (auto simp: s3_inv_def)
  have m: "m < la_capacity (s3_list r)" using la_rep_lt [OF xs(1)] xs(2) assms(2) by simp
  obtain la' where la': "removeFromIndex (s3_list r) m = Inr (True, la')" "la_rep la' (remove1 m xs)"
    "la_vals la' = la_vals (s3_list r)" "la_capacity la' = la_capacity (s3_list r)"
    using removeFromIndex_rep [OF xs(1) m] by blast
  let ?r = "r\<lparr>s3_list := la'\<rparr>"
  have e: "s3_Erase r m = Inr (True, ?r)" by (simp add: s3_Erase_def la'(1))
  have out: "m \<notin> set (remove1 m xs)" using la_repD(2) [OF xs(1)] by simp
  have head: "la_head la' = la_capacity la'" using la_repD(1) [OF la'(2)] by (simp add: la_simps)
  have skip: "s3_skip la' m = Inr (la', m)"
    using la_repD(1) [OF la'(2)] m la'(3,4) assms(4) by (simp add: s3_skip.simps la_simps)
  obtain c where c: "la_capacity la' * 2 = Suc c" using m la'(4) by (cases "la_capacity la' * 2") auto
  have cand: "s3_candidate pt m = Inr (True, lock_frame pt m)"
    using s3.cand_held [OF assms(5,6)] assms(7) by simp
  obtain la2 where la2: "removeFromIndex la' m = Inr (True, la2)"
    using removeFromIndex_rep [OF la'(2), of m] m la'(4) by auto
  have prev: "getPrevNodeIndex la' m = Inr INVALID_INDEX"
  proof -
    have "la_prv la' m = INVALID_INDEX" using la_rep_outside(2) [OF la'(2) _ out] m la'(4) by simp
    then have "ln_prev (la_nodes la' ! m) = INVALID_INDEX" by (simp only: la_prv_def)
    then show ?thesis using m la'(4) la_repD(5) [OF la'(2)] by (simp add: getPrevNodeIndex_def get_node_in)
  qed
  have loop: "s3_loop (la_capacity (s3_list r) * 2) la' m pt = Inr (la', m, lock_frame pt m)"
    using skip cand c la'(4) by simp
  have "s3_Victim ?r pt = Inr ((True, m), ?r\<lparr>s3_list := la2, s3_pointer := INVALID_INDEX\<rparr>, lock_frame pt m)"
    using loop la2 prev m la'(4) head by (simp add: s3_Victim_def hand_start_def assms(3))
  then show ?thesis using e la'(2) out by (intro exI conjI) auto
qed

lemma s3_Erase_leaves_hand_witness:
  "\<exists>r0 r r' r''. s3_new (\<lambda>_. 0) 2 = Inr r0 \<and> s3_Insert r0 0 = Inr (True, r) \<and>
     s3_Erase (r\<lparr>s3_pointer := 0\<rparr>) 0 = Inr (True, r') \<and> s3_Victim r' small_pt = Inr ((True, 0), r'', lock_frame small_pt 0)"
proof -
  obtain r0 r where r: "s3_new (\<lambda>_. 0) 2 = Inr r0" "s3_Insert r0 0 = Inr (True, r)" "s3_inv r {0}" "s3_cap r = 2"
    "la_vals (s3_list r) 0 = 0"
    using s3_small s3_small_mark by metis
  then obtain xs where xs: "la_rep (s3_list r) xs" "set xs = {0}" "\<forall>m\<in>{0}. unat (la_vals (s3_list r) m) \<le> 1"
    by (auto simp: s3_inv_def)
  have i: "s3_inv (r\<lparr>s3_pointer := 0\<rparr>) {0}"
    unfolding s3_inv_def using xs by (intro exI [of _ xs]) (simp add: hand_ok_def)
  show ?thesis
    using s3_Erase_leaves_hand [OF i _ _ _ small_pt_wf small_pt_held] r(1,2,5) by auto
qed

end
