(* ===== verification/QueuePolicies.thy ===== *)
theory QueuePolicies
  imports Replacer
begin

text \<open>
  \<open>FIFOReplacer_v2\<close> and \<open>LRUReplacer_v2\<close> (\<^verbatim>\<open>include/replacer/fifo_replacer_v2.h\<close>,
  \<^verbatim>\<open>lru_replacer_v2.h\<close>): a list array with new frames at the front and a scan from the back that
  stops at the first frame it can lock.  They differ in \<open>Promote\<close>.  Both are proved to implement
  a queue of frames from which the backmost unpinned one is evicted.
\<close>

section \<open>FIFOReplacer_v2\<close>

record fifo2 =
  f2_list :: "nat list_array"

definition f2_new :: "(nat \<Rightarrow> nat) \<Rightarrow> nat \<Rightarrow> fifo2 res" where
  "f2_new junk capacity = bindE (la_new junk capacity) (\<lambda>la. Inr \<lparr>f2_list = la\<rparr>)"

definition f2_Insert :: "fifo2 \<Rightarrow> mpage_id \<Rightarrow> (bool \<times> fifo2) res" where
  "f2_Insert r value =
     bindE (inList (f2_list r) value) (\<lambda>inside.
     if \<not> inside then
       bindE (moveToFront (f2_list r) value) (\<lambda>(ok, la).
       bindE (assertE ok) (\<lambda>_. Inr (True, r\<lparr>f2_list := la\<rparr>)))
     else Inr (False, r))"

definition f2_Promote :: "fifo2 \<Rightarrow> mpage_id \<Rightarrow> (bool \<times> fifo2) res" where
  "f2_Promote r value = Inr (True, r)"

text \<open>
  The loop of \<open>Victim\<close>: \<open>None\<close> is \<open>return false\<close>.  It visits each node of the list at most once, so
  one more iteration than there are nodes is enough fuel.
\<close>

fun f2_loop :: "nat \<Rightarrow> nat list_array \<Rightarrow> nat \<Rightarrow> page_table \<Rightarrow> (nat option \<times> page_table) res" where
  "f2_loop 0 la i pt = Inl OutOfFuel"
| "f2_loop (Suc fuel) la i pt =
     (if i = la_head la then Inr (None, pt)
      else bindE (try_evict False pt i) (\<lambda>(found, pt).
        if found then Inr (Some i, pt)
        else bindE (getPrevNodeIndex la i) (\<lambda>j. f2_loop fuel la j pt)))"

definition f2_Victim :: "fifo2 \<Rightarrow> page_table \<Rightarrow> ((bool \<times> mpage_id) \<times> fifo2 \<times> page_table) res" where
  "f2_Victim r pt =
     bindE (GetTail (f2_list r)) (\<lambda>i.
     bindE (f2_loop (la_capacity (f2_list r) + 1) (f2_list r) i pt) (\<lambda>(v, pt).
     case v of None \<Rightarrow> Inr ((False, 0), r, pt)
     | Some i \<Rightarrow> bindE (removeFromIndex (f2_list r) i) (\<lambda>(_, la).
         Inr ((True, i), r\<lparr>f2_list := la\<rparr>, pt))))"

text \<open>\<open>Victim\<close> for a batch takes clean frames and deletes their mappings.\<close>

fun f2_batch_loop :: "nat \<Rightarrow> nat list_array \<Rightarrow> nat \<Rightarrow> page_table \<Rightarrow> (nat option \<times> page_table) res" where
  "f2_batch_loop 0 la i pt = Inl OutOfFuel"
| "f2_batch_loop (Suc fuel) la i pt =
     (if i = la_head la then Inr (None, pt)
      else bindE (try_evict True pt i) (\<lambda>(found, pt).
        if found then
          bindE (FromPageId pt i) (\<lambda>w.
          bindE (DeleteMapping pt (pte_fd_cur w) (pte_fpage_id_cur w) i) (\<lambda>(ok, pt).
          bindE (assertE ok) (\<lambda>_. Inr (Some i, pt))))
        else bindE (getPrevNodeIndex la i) (\<lambda>j. f2_batch_loop fuel la j pt)))"

fun f2_Victim_batch :: "fifo2 \<Rightarrow> page_table \<Rightarrow> mpage_id list \<Rightarrow> nat \<Rightarrow>
    (bool \<times> mpage_id list \<times> fifo2 \<times> page_table) res" where
  "f2_Victim_batch r pt mpage_ids 0 = Inr (True, mpage_ids, r, pt)"
| "f2_Victim_batch r pt mpage_ids (Suc page_num) =
     bindE (GetTail (f2_list r)) (\<lambda>i.
     bindE (f2_batch_loop (la_capacity (f2_list r) + 1) (f2_list r) i pt) (\<lambda>(v, pt).
     case v of None \<Rightarrow> Inr (mpage_ids \<noteq> [], mpage_ids, r, pt)
     | Some i \<Rightarrow> bindE (removeFromIndex (f2_list r) i) (\<lambda>(_, la).
         f2_Victim_batch (r\<lparr>f2_list := la\<rparr>) pt (mpage_ids @ [i]) page_num)))"

definition f2_Clean :: "(nat \<Rightarrow> nat) \<Rightarrow> fifo2 \<Rightarrow> (bool \<times> fifo2) res" where
  "f2_Clean junk r = bindE (la_Clean junk (f2_list r)) (\<lambda>(_, la). Inr (True, r\<lparr>f2_list := la\<rparr>))"

definition f2_Erase :: "fifo2 \<Rightarrow> mpage_id \<Rightarrow> (bool \<times> fifo2) res" where
  "f2_Erase r value =
     bindE (removeFromIndex (f2_list r) value) (\<lambda>(_, la). Inr (True, r\<lparr>f2_list := la\<rparr>))"

definition f2_Size :: "fifo2 \<Rightarrow> u64 res" where
  "f2_Size r = Inr (la_size (f2_list r))"

definition f2_ops :: "fifo2 replacer_ops" where
  "f2_ops = \<lparr>op_Insert = f2_Insert, op_Promote = f2_Promote, op_Victim = f2_Victim,
     op_Erase = f2_Erase, op_Size = f2_Size\<rparr>"

section \<open>LRUReplacer_v2\<close>

record lru2 =
  l2_list :: "u8 list_array"

definition l2_new :: "(nat \<Rightarrow> u8) \<Rightarrow> nat \<Rightarrow> lru2 res" where
  "l2_new junk capacity = bindE (la_new junk capacity) (\<lambda>la. Inr \<lparr>l2_list = la\<rparr>)"

definition l2_Insert :: "lru2 \<Rightarrow> mpage_id \<Rightarrow> (bool \<times> lru2) res" where
  "l2_Insert r value =
     bindE (setValue (l2_list r) value 0) (\<lambda>la.
     bindE (moveToFront la value) (\<lambda>(ok, la).
     bindE (assertE ok) (\<lambda>_. Inr (True, r\<lparr>l2_list := la\<rparr>))))"

definition l2_Promote :: "lru2 \<Rightarrow> mpage_id \<Rightarrow> (bool \<times> lru2) res" where
  "l2_Promote r value =
     bindE (moveToFront (l2_list r) value) (\<lambda>(ok, la).
     bindE (assertE ok) (\<lambda>_. Inr (True, r\<lparr>l2_list := la\<rparr>)))"

fun l2_loop :: "nat \<Rightarrow> u8 list_array \<Rightarrow> nat \<Rightarrow> page_table \<Rightarrow> (nat option \<times> page_table) res" where
  "l2_loop 0 la i pt = Inl OutOfFuel"
| "l2_loop (Suc fuel) la i pt =
     (if i = la_head la then Inr (None, pt)
      else bindE (FromPageId pt i) (\<lambda>w.
        if pte_ref_count w \<noteq> 0 then bindE (getPrevNodeIndex la i) (\<lambda>j. l2_loop fuel la j pt)
        else bindE (try_evict False pt i) (\<lambda>(found, pt).
          if found then Inr (Some i, pt)
          else bindE (getPrevNodeIndex la i) (\<lambda>j. l2_loop fuel la j pt))))"

definition l2_Victim :: "lru2 \<Rightarrow> page_table \<Rightarrow> ((bool \<times> mpage_id) \<times> lru2 \<times> page_table) res" where
  "l2_Victim r pt =
     bindE (GetTail (l2_list r)) (\<lambda>i.
     bindE (l2_loop (la_capacity (l2_list r) + 1) (l2_list r) i pt) (\<lambda>(v, pt).
     case v of None \<Rightarrow> Inr ((False, 0), r, pt)
     | Some i \<Rightarrow> bindE (removeFromIndex (l2_list r) i) (\<lambda>(_, la).
         Inr ((True, i), r\<lparr>l2_list := la\<rparr>, pt))))"

definition l2_Victim_batch :: "lru2 \<Rightarrow> bool res" where
  "l2_Victim_batch r = bindE (assertE False) (\<lambda>_. Inr False)"

fun l2_traverse :: "nat \<Rightarrow> u8 list_array \<Rightarrow> nat \<Rightarrow> unit res" where
  "l2_traverse 0 la i = Inl OutOfFuel"
| "l2_traverse (Suc fuel) la i =
     (if i = la_tail la then Inr ()
      else bindE (getNextNodeIndex la i) (\<lambda>j. l2_traverse fuel la j))"

definition l2_traverse_node :: "lru2 \<Rightarrow> unit res" where
  "l2_traverse_node r =
     bindE (GetHead (l2_list r)) (\<lambda>i. l2_traverse (la_capacity (l2_list r) + 1) (l2_list r) i)"

definition l2_Erase :: "lru2 \<Rightarrow> mpage_id \<Rightarrow> (bool \<times> lru2) res" where
  "l2_Erase r value =
     bindE (removeFromIndex (l2_list r) value) (\<lambda>(_, la). Inr (True, r\<lparr>l2_list := la\<rparr>))"

definition l2_Size :: "lru2 \<Rightarrow> u64 res" where
  "l2_Size r = Inr (la_size (l2_list r))"

definition l2_ops :: "lru2 replacer_ops" where
  "l2_ops = \<lparr>op_Insert = l2_Insert, op_Promote = l2_Promote, op_Victim = l2_Victim,
     op_Erase = l2_Erase, op_Size = l2_Size\<rparr>"

section \<open>The scan from the back\<close>

text \<open>The queue that both implement: the victim is the backmost unpinned frame.\<close>

definition queue_victim :: "page_table \<Rightarrow> mpage_id list \<Rightarrow> mpage_id option" where
  "queue_victim pt xs = List.find (\<lambda>m. \<not> pinned pt m) (rev xs)"

lemma queue_victim_snoc [simp]:
  "queue_victim pt (xs @ [x]) = (if pinned pt x then queue_victim pt xs else Some x)"
  "queue_victim pt [] = None"
  by (simp_all add: queue_victim_def)

lemma queue_victim_SomeD:
  "queue_victim pt xs = Some m \<Longrightarrow> m \<in> set xs \<and> \<not> pinned pt m"
proof -
  assume "queue_victim pt xs = Some m"
  then obtain i where "i < length (rev xs)" "\<not> pinned pt m" "m = rev xs ! i"
    by (auto simp: queue_victim_def find_Some_iff)
  then show ?thesis using nth_mem [of i "rev xs"] by simp
qed

lemma queue_victim_exists:
  "m \<in> set xs \<Longrightarrow> \<not> pinned pt m \<Longrightarrow> \<exists>m'. queue_victim pt xs = Some m'"
  using find_None_iff [of "\<lambda>m. \<not> pinned pt m" "rev xs"] by (auto simp: queue_victim_def)

text \<open>The backmost frame with a property, which a scan from the back finds.\<close>

definition backmost :: "(mpage_id \<Rightarrow> bool) \<Rightarrow> mpage_id list \<Rightarrow> mpage_id option" where
  "backmost P xs = List.find P (rev xs)"

lemma backmost_snoc [simp]:
  "backmost P (xs @ [x]) = (if P x then Some x else backmost P xs)" "backmost P [] = None"
  by (simp_all add: backmost_def)

lemma backmost_unpinned: "backmost (\<lambda>m. \<not> pinned pt m) xs = queue_victim pt xs"
  by (simp add: backmost_def queue_victim_def)

lemma backmost_SomeD: "backmost P xs = Some m \<Longrightarrow> m \<in> set xs \<and> P m"
  by (induction xs rule: rev_induct) (auto split: if_splits)

lemma backmost_NoneD: "backmost P xs = None \<Longrightarrow> m \<in> set xs \<Longrightarrow> \<not> P m"
  by (induction xs rule: rev_induct) (auto split: if_splits)

text \<open>
  The scans of \<open>Victim\<close> and of its batch form differ in the frames they take and in what they do to
  the page table for the frame they take.
\<close>

locale queue_scan =
  fixes loop :: "nat \<Rightarrow> 'v list_array \<Rightarrow> nat \<Rightarrow> page_table \<Rightarrow> (nat option \<times> page_table) res"
    and take_it :: "page_table \<Rightarrow> mpage_id \<Rightarrow> bool" and claim :: "page_table \<Rightarrow> mpage_id \<Rightarrow> page_table"
  assumes loop_head: "loop (Suc fuel) la (la_head la) pt = Inr (None, pt)"
    and loop_held: "i \<noteq> la_head la \<Longrightarrow> pt_wf k pt \<Longrightarrow> held pt i \<Longrightarrow> loop (Suc fuel) la i pt =
      (if take_it pt i then Inr (Some i, claim pt i)
       else bindE (getPrevNodeIndex la i) (\<lambda>j. loop fuel la j pt))"
begin

lemma loop_finds:
  assumes r: "la_rep la xs" and wf: "pt_wf p pt" and h: "\<And>m. m \<in> set xs \<Longrightarrow> held pt m"
    and k: "k \<le> length xs" "k < fuel"
  shows "loop fuel la (if k = 0 then la_capacity la else xs ! (k - 1)) pt =
    (case backmost (take_it pt) (take k xs) of None \<Rightarrow> Inr (None, pt) | Some m \<Rightarrow> Inr (Some m, claim pt m))"
  using k
proof (induction k arbitrary: fuel)
  case 0
  have "la_head la = la_capacity la" using la_repD(1) [OF r] by (simp add: la_simps)
  then show ?case using loop_head [of "fuel - 1" la pt] 0 by simp
next
  case (Suc k)
  obtain n where n: "fuel = Suc n" "k < n" using Suc.prems by (cases fuel) auto
  have head: "la_head la = la_capacity la" using la_repD(1) [OF r] by (simp add: la_simps)
  have m: "xs ! k \<in> set xs" "xs ! k \<noteq> la_head la"
    using la_rep_lt [OF r, of "xs ! k"] Suc.prems head by simp_all
  have "getPrevNodeIndex la (xs ! k) = Inr (if k = 0 then la_capacity la else xs ! (k - 1))"
    using getPrevNodeIndex_rep [OF r, of k] Suc.prems(1) by (auto simp: nth_Cons')
  moreover have "take (Suc k) xs = take k xs @ [xs ! k]" using Suc.prems by (simp add: take_Suc_conv_app_nth)
  ultimately show ?case
    using loop_held [OF m(2) wf h [OF m(1)], of n] Suc.IH [of n] Suc.prems n by simp
qed

lemma scan_from_tail:
  assumes r: "la_rep la xs" and wf: "pt_wf p pt" and h: "\<And>m. m \<in> set xs \<Longrightarrow> held pt m"
  shows "bindE (GetTail la) (\<lambda>i. loop (la_capacity la + 1) la i pt) =
    (case backmost (take_it pt) xs of None \<Rightarrow> Inr (None, pt) | Some m \<Rightarrow> Inr (Some m, claim pt m))"
proof -
  have "length xs \<le> la_capacity la"
    using card_mono [of "{..<la_capacity la}" "set xs"] la_repD(2,3) [OF r] by (simp add: distinct_card)
  then have "loop (la_capacity la + 1) la (if length xs = 0 then la_capacity la else xs ! (length xs - 1)) pt =
    (case backmost (take_it pt) (take (length xs) xs) of None \<Rightarrow> Inr (None, pt) | Some m \<Rightarrow> Inr (Some m, claim pt m))"
    using loop_finds [OF r wf h, of "length xs" "la_capacity la + 1"] by simp
  moreover have "last (la_capacity la # xs) = (if length xs = 0 then la_capacity la else xs ! (length xs - 1))"
    by (simp add: last_conv_nth)
  ultimately show ?thesis using GetTail_rep [OF r] by simp
qed

end

interpretation f2: queue_scan f2_loop "\<lambda>pt m. \<not> pinned pt m" lock_frame
  by unfold_locales (simp_all add: try_evict_held)

interpretation l2: queue_scan l2_loop "\<lambda>pt m. \<not> pinned pt m" lock_frame
proof unfold_locales
  fix i la k pt fuel assume "i \<noteq> la_head (la :: u8 list_array)" "pt_wf k pt" "held pt i"
  moreover from this have "FromPageId pt i = Inr (pte_of pt i)" by (simp add: held_def pt_simps)
  ultimately show "l2_loop (Suc fuel) la i pt = (if \<not> pinned pt i then Inr (Some i, lock_frame pt i)
      else bindE (getPrevNodeIndex la i) (\<lambda>j. l2_loop fuel la j pt))"
    by (simp add: try_evict_held) (simp add: pinned_def)
qed simp

declare f2_loop.simps [simp del] l2_loop.simps [simp del]

lemmas f2_scan = f2.scan_from_tail [unfolded backmost_unpinned]
lemmas l2_scan = l2.scan_from_tail [unfolded backmost_unpinned]

section \<open>Both policies keep the contract\<close>

definition f2_inv :: "fifo2 \<Rightarrow> mpage_id set \<Rightarrow> bool" where
  "f2_inv r S \<longleftrightarrow> (\<exists>xs. la_rep (f2_list r) xs \<and> set xs = S)"

definition f2_cap :: "fifo2 \<Rightarrow> nat" where
  "f2_cap r = la_capacity (f2_list r)"

definition l2_inv :: "lru2 \<Rightarrow> mpage_id set \<Rightarrow> bool" where
  "l2_inv r S \<longleftrightarrow> (\<exists>xs. la_rep (l2_list r) xs \<and> set xs = S)"

definition l2_cap :: "lru2 \<Rightarrow> nat" where
  "l2_cap r = la_capacity (l2_list r)"

text \<open>The operations on the queue that the list array represents.\<close>

lemma f2_Insert_queue:
  assumes r: "la_rep (f2_list r) xs" and m: "m < f2_cap r" "m \<notin> set xs"
  shows "\<exists>r'. f2_Insert r m = Inr (True, r') \<and> la_rep (f2_list r') (m # xs) \<and> f2_cap r' = f2_cap r"
  using moveToFront_rep [OF r, of m] inList_rep [OF r, of m] m
  by (auto simp: f2_Insert_def f2_cap_def remove1_idem)

lemma f2_Victim_queue:
  assumes r: "la_rep (f2_list r) xs" and wf: "pt_wf k pt" and h: "\<And>m. m \<in> set xs \<Longrightarrow> held pt m"
  shows "case queue_victim pt xs of
      None \<Rightarrow> f2_Victim r pt = Inr ((False, 0), r, pt)
    | Some m \<Rightarrow> \<exists>r'. f2_Victim r pt = Inr ((True, m), r', lock_frame pt m) \<and>
        la_rep (f2_list r') (remove1 m xs) \<and> f2_cap r' = f2_cap r"
proof -
  have e: "f2_Victim r pt = bindE (bindE (GetTail (f2_list r)) (\<lambda>i. f2_loop (la_capacity (f2_list r) + 1) (f2_list r) i pt))
     (\<lambda>(v, pt). case v of None \<Rightarrow> Inr ((False, 0), r, pt)
      | Some i \<Rightarrow> bindE (removeFromIndex (f2_list r) i) (\<lambda>(_, la). Inr ((True, i), r\<lparr>f2_list := la\<rparr>, pt)))"
    by (simp only: f2_Victim_def bindE_assoc)
  show ?thesis
  proof (cases "queue_victim pt xs")
    case (Some m)
    then have "m < la_capacity (f2_list r)" using queue_victim_SomeD la_rep_lt [OF r] by blast
    moreover have "bindE (GetTail (f2_list r)) (\<lambda>i. f2_loop (la_capacity (f2_list r) + 1) (f2_list r) i pt) =
        Inr (Some m, lock_frame pt m)"
      using f2_scan [OF r wf h] Some by simp
    ultimately show ?thesis
      using removeFromIndex_rep [OF r, of m] Some unfolding e by (auto simp: f2_cap_def simp del: add_Suc_right)
  qed (simp only: e f2_scan [OF r wf h] bindE_Inr option.case prod.case)
qed

lemma l2_Victim_queue:
  assumes r: "la_rep (l2_list r) xs" and wf: "pt_wf k pt" and h: "\<And>m. m \<in> set xs \<Longrightarrow> held pt m"
  shows "case queue_victim pt xs of
      None \<Rightarrow> l2_Victim r pt = Inr ((False, 0), r, pt)
    | Some m \<Rightarrow> \<exists>r'. l2_Victim r pt = Inr ((True, m), r', lock_frame pt m) \<and>
        la_rep (l2_list r') (remove1 m xs) \<and> l2_cap r' = l2_cap r"
proof -
  have e: "l2_Victim r pt = bindE (bindE (GetTail (l2_list r)) (\<lambda>i. l2_loop (la_capacity (l2_list r) + 1) (l2_list r) i pt))
     (\<lambda>(v, pt). case v of None \<Rightarrow> Inr ((False, 0), r, pt)
      | Some i \<Rightarrow> bindE (removeFromIndex (l2_list r) i) (\<lambda>(_, la). Inr ((True, i), r\<lparr>l2_list := la\<rparr>, pt)))"
    by (simp only: l2_Victim_def bindE_assoc)
  show ?thesis
  proof (cases "queue_victim pt xs")
    case (Some m)
    then have "m < la_capacity (l2_list r)" using queue_victim_SomeD la_rep_lt [OF r] by blast
    moreover have "bindE (GetTail (l2_list r)) (\<lambda>i. l2_loop (la_capacity (l2_list r) + 1) (l2_list r) i pt) =
        Inr (Some m, lock_frame pt m)"
      using l2_scan [OF r wf h] Some by simp
    ultimately show ?thesis
      using removeFromIndex_rep [OF r, of m] Some unfolding e by (auto simp: l2_cap_def simp del: add_Suc_right)
  qed (simp only: e l2_scan [OF r wf h] bindE_Inr option.case prod.case)
qed

lemma l2_Insert_queue:
  assumes r: "la_rep (l2_list r) xs" and m: "m < l2_cap r" "m \<notin> set xs"
  shows "\<exists>r'. l2_Insert r m = Inr (True, r') \<and> la_rep (l2_list r') (m # xs) \<and> l2_cap r' = l2_cap r"
proof -
  have "la_rep (put_val (l2_list r) m 0) xs" using r m by (intro la_rep_put_val) (simp_all add: l2_cap_def)
  from moveToFront_rep [OF this, of m] show ?thesis
    using m la_repD(1) [OF r] by (auto simp: l2_Insert_def l2_cap_def la_simps remove1_idem)
qed

lemma l2_Promote_queue:
  assumes r: "la_rep (l2_list r) xs" and m: "m < l2_cap r"
  shows "\<exists>r'. l2_Promote r m = Inr (True, r') \<and> la_rep (l2_list r') (m # remove1 m xs) \<and> l2_cap r' = l2_cap r"
  using moveToFront_rep [OF r, of m] m by (auto simp: l2_Promote_def l2_cap_def)

lemma set_remove1_distinct: "la_rep la xs \<Longrightarrow> set (remove1 m xs) = set xs - {m}"
  using la_repD(2) [of la xs] by simp

lemma queue_Victim_contract:
  assumes q: "case queue_victim pt xs of None \<Rightarrow> P | Some m \<Rightarrow>
      \<exists>r'. V = Inr ((True, m), r', lock_frame pt m) \<and> R r' (remove1 m xs) \<and> cap r' = (c :: nat)"
    and d: "distinct xs" and m: "m0 \<in> set xs" "\<not> pinned pt m0"
  shows "\<exists>m r'. m \<in> set xs \<and> \<not> pinned pt m \<and> V = Inr ((True, m), r', lock_frame pt m) \<and>
    (\<exists>ys. R r' ys \<and> set ys = set xs - {m}) \<and> cap r' = c"
proof -
  obtain m where v: "queue_victim pt xs = Some m" using queue_victim_exists m by blast
  have "set (remove1 m xs) = set xs - {m}" using d by simp
  then show ?thesis using q v queue_victim_SomeD [OF v] by auto
qed

interpretation fifo2: erasable_replacer f2_ops f2_inv f2_cap
proof (unfold_locales, unfold f2_ops_def replacer_ops.select_convs f2_inv_def)
  fix r :: fifo2 and S m assume "\<exists>xs. la_rep (f2_list r) xs \<and> set xs = S" "m \<in> S"
  then obtain xs where xs: "la_rep (f2_list r) xs" "set xs = S" by blast
  with \<open>m \<in> S\<close> have "m < la_capacity (f2_list r)" using la_rep_lt by blast
  then show "\<exists>r'. f2_Erase r m = Inr (True, r') \<and> (\<exists>xs. la_rep (f2_list r') xs \<and> set xs = S - {m}) \<and> f2_cap r' = f2_cap r"
    using removeFromIndex_rep [OF xs(1), of m] xs(2) set_remove1_distinct [OF xs(1), of m]
    by (auto simp: f2_Erase_def f2_cap_def intro!: exI [of _ "remove1 m xs"])
next
  fix r :: fifo2 and S k pt m0
  assume "\<exists>xs. la_rep (f2_list r) xs \<and> set xs = S" and wf: "pt_wf k pt"
    and h: "\<And>m. m \<in> S \<Longrightarrow> held pt m" and m: "m0 \<in> S" "\<not> pinned pt m0"
  then obtain xs where xs: "la_rep (f2_list r) xs" "set xs = S" by blast
  show "\<exists>m r'. m \<in> S \<and> \<not> pinned pt m \<and> f2_Victim r pt = Inr ((True, m), r', lock_frame pt m) \<and>
      (\<exists>xs. la_rep (f2_list r') xs \<and> set xs = S - {m}) \<and> f2_cap r' = f2_cap r"
    using queue_Victim_contract [OF f2_Victim_queue [OF xs(1) wf] la_repD(2) [OF xs(1)]] h m xs(2) by blast
qed (use la_rep_lt f2_Insert_queue in \<open>fastforce simp: f2_cap_def f2_Promote_def\<close>)+

interpretation lru2: erasable_replacer l2_ops l2_inv l2_cap
proof (unfold_locales, unfold l2_ops_def replacer_ops.select_convs l2_inv_def)
  fix r :: lru2 and S m assume "\<exists>xs. la_rep (l2_list r) xs \<and> set xs = S" "m \<in> S"
  then obtain xs where xs: "la_rep (l2_list r) xs" "set xs = S" by blast
  with \<open>m \<in> S\<close> have m: "m < la_capacity (l2_list r)" using la_rep_lt by blast
  then show "\<exists>r'. l2_Erase r m = Inr (True, r') \<and> (\<exists>xs. la_rep (l2_list r') xs \<and> set xs = S - {m}) \<and> l2_cap r' = l2_cap r"
    using removeFromIndex_rep [OF xs(1), of m] xs(2) set_remove1_distinct [OF xs(1), of m]
    by (auto simp: l2_Erase_def l2_cap_def intro!: exI [of _ "remove1 m xs"])
  show "\<exists>r'. l2_Promote r m = Inr (True, r') \<and> (\<exists>xs. la_rep (l2_list r') xs \<and> set xs = S) \<and> l2_cap r' = l2_cap r"
    using l2_Promote_queue [OF xs(1), of m] m xs(2) \<open>m \<in> S\<close> set_remove1_distinct [OF xs(1), of m]
    by (auto simp: l2_cap_def intro!: exI [of _ "m # remove1 m xs"])
next
  fix r :: lru2 and S k pt m0
  assume "\<exists>xs. la_rep (l2_list r) xs \<and> set xs = S" and wf: "pt_wf k pt"
    and h: "\<And>m. m \<in> S \<Longrightarrow> held pt m" and m: "m0 \<in> S" "\<not> pinned pt m0"
  then obtain xs where xs: "la_rep (l2_list r) xs" "set xs = S" by blast
  show "\<exists>m r'. m \<in> S \<and> \<not> pinned pt m \<and> l2_Victim r pt = Inr ((True, m), r', lock_frame pt m) \<and>
      (\<exists>xs. la_rep (l2_list r') xs \<and> set xs = S - {m}) \<and> l2_cap r' = l2_cap r"
    using queue_Victim_contract [OF l2_Victim_queue [OF xs(1) wf] la_repD(2) [OF xs(1)]] h m xs(2) by blast
qed (use la_rep_lt l2_Insert_queue in \<open>fastforce simp: l2_cap_def\<close>)+

section \<open>Properties\<close>

text \<open>A run of accesses.\<close>

fun l2_Promotes :: "lru2 \<Rightarrow> mpage_id list \<Rightarrow> lru2 res" where
  "l2_Promotes r [] = Inr r"
| "l2_Promotes r (m # ms) = bindE (l2_Promote r m) (\<lambda>(_, r). l2_Promotes r ms)"

lemma remove1_filter_distinct:
  "distinct xs \<Longrightarrow> remove1 m (filter P xs) = filter (\<lambda>x. P x \<and> x \<noteq> m) xs"
  by (induction xs) (auto intro!: filter_cong remove1_idem)

lemma l2_Promotes_queue:
  assumes "la_rep (l2_list r) xs" "set ms \<subseteq> set xs"
  shows "\<exists>r' ys. l2_Promotes r ms = Inr r' \<and> la_rep (l2_list r') (ys @ filter (\<lambda>m. m \<notin> set ms) xs) \<and>
    set ys = set ms \<and> l2_cap r' = l2_cap r"
  using assms
proof (induction ms rule: rev_induct)
  case (snoc m ms)
  then obtain r1 ys where 1: "l2_Promotes r ms = Inr r1" "la_rep (l2_list r1) (ys @ filter (\<lambda>m. m \<notin> set ms) xs)"
    "set ys = set ms" "l2_cap r1 = l2_cap r"
    by auto
  have split: "l2_Promotes r (ms @ ks) = bindE (l2_Promotes r ms) (\<lambda>r. l2_Promotes r ks)" for r ms ks
    by (induction ms arbitrary: r) (simp_all add: bindE_def split: sum.splits)
  have "m < l2_cap r1" using la_rep_lt [OF snoc.prems(1)] snoc.prems(2) 1(4) by (simp add: l2_cap_def)
  from l2_Promote_queue [OF 1(2) this] obtain r2 where 2: "l2_Promote r1 m = Inr (True, r2)"
    "la_rep (l2_list r2) (m # remove1 m (ys @ filter (\<lambda>m. m \<notin> set ms) xs))" "l2_cap r2 = l2_cap r1" by blast
  note d = la_repD(2) [OF 1(2)] and dx = la_repD(2) [OF snoc.prems(1)]
  have "remove1 m (ys @ filter (\<lambda>m. m \<notin> set ms) xs) = remove1 m ys @ filter (\<lambda>x. x \<notin> set (ms @ [m])) xs"
  proof (cases "m \<in> set ys")
    case True
    then have "filter (\<lambda>x. x \<notin> set (ms @ [m])) xs = filter (\<lambda>m. m \<notin> set ms) xs"
      using 1(3) by (intro filter_cong) auto
    then show ?thesis using True by (simp add: remove1_append)
  next
    case False
    have "remove1 m (filter (\<lambda>m. m \<notin> set ms) xs) = filter (\<lambda>x. x \<notin> set (ms @ [m])) xs"
      using remove1_filter_distinct [OF dx, of m "\<lambda>m. m \<notin> set ms"] by (simp add: conj_commute)
    then show ?thesis using False by (simp add: remove1_append remove1_idem)
  qed
  moreover have "set (m # remove1 m ys) = set (ms @ [m])" using 1(3) d by auto
  ultimately show ?case
    using 1(1) 2 1(4) by (intro exI [of _ r2] exI [of _ "m # remove1 m ys"]) (simp add: split)
qed simp

text \<open>LRU: after a run of accesses, a frame that was accessed is not evicted while some unpinned
  managed frame was not.\<close>

theorem lru2_spares_accessed:
  assumes r: "la_rep (l2_list r) xs" and ms: "set ms \<subseteq> set xs"
    and m0: "m0 \<in> set xs - set ms" "\<not> pinned pt m0"
    and wf: "pt_wf k pt" and h: "\<And>m. m \<in> set xs \<Longrightarrow> held pt m"
  shows "\<exists>r1 m r2. l2_Promotes r ms = Inr r1 \<and> l2_Victim r1 pt = Inr ((True, m), r2, lock_frame pt m) \<and>
    m \<in> set xs - set ms \<and> \<not> pinned pt m"
proof -
  let ?rest = "filter (\<lambda>m. m \<notin> set ms) xs"
  obtain r1 ys where 1: "l2_Promotes r ms = Inr r1" "la_rep (l2_list r1) (ys @ ?rest)" "set ys = set ms"
    using l2_Promotes_queue [OF r ms] by blast
  obtain m where m: "queue_victim pt ?rest = Some m"
    using queue_victim_exists [of m0 ?rest pt] m0 by auto
  have app: "queue_victim pt zs = Some m \<Longrightarrow> queue_victim pt (ys @ zs) = Some m" for zs
    by (induction zs rule: rev_induct) (auto split: if_splits simp flip: append_assoc)
  have "\<And>m. m \<in> set (ys @ ?rest) \<Longrightarrow> held pt m" using h ms 1(3) by auto
  from l2_Victim_queue [OF 1(2) wf this] app [OF m] obtain r2
    where "l2_Victim r1 pt = Inr ((True, m), r2, lock_frame pt m)" by auto
  then show ?thesis using 1(1) queue_victim_SomeD [OF m] by auto
qed

text \<open>A policy that manages frame 0 of the small table.\<close>

lemma l2_small:
  obtains r0 r where "l2_new (\<lambda>_. 0) 2 = Inr r0" "l2_Insert r0 0 = Inr (True, r)" "la_rep (l2_list r) [0]"
proof -
  obtain la where "la_new (\<lambda>_. 0) 2 = Inr la" "la_rep la []" "la_capacity (la :: u8 list_array) = 2"
    using la_new_rep [of 2 "\<lambda>_. 0"] by (auto simp: INVALID_INDEX_def)
  then show thesis
    using l2_Insert_queue [of "\<lparr>l2_list = la\<rparr>" "[]" 0] that by (auto simp: l2_new_def l2_cap_def)
qed

lemma small_pt_frame0: "held small_pt 0" "\<not> pinned small_pt 0"
  by (simp_all add: held_def pinned_def small_pt_sel small_pt_word pt_simps)

lemma lru2_spares_accessed_witness:
  "\<exists>r0 r r2. l2_new (\<lambda>_. 0) 2 = Inr r0 \<and> l2_Insert r0 0 = Inr (True, r) \<and>
     l2_Victim r small_pt = Inr ((True, 0), r2, lock_frame small_pt 0)"
proof -
  obtain r0 r where r: "l2_new (\<lambda>_. 0) 2 = Inr r0" "l2_Insert r0 0 = Inr (True, r)" "la_rep (l2_list r) [0]"
    by (rule l2_small)
  show ?thesis
    using lru2_spares_accessed [OF r(3), of "[]" 0 small_pt 0] small_pt_wf small_pt_frame0 r(1,2) by auto
qed

text \<open>FIFO: the policy is a queue.  Frames enter at the front, accesses do not move them, the
  backmost unpinned frame is evicted, and when all are pinned the call reports failure and
  changes nothing.\<close>

theorem fifo2_is_queue:
  assumes r: "la_rep (f2_list r) xs" and wf: "pt_wf k pt" and h: "\<And>m. m \<in> set xs \<Longrightarrow> held pt m"
  shows "(m < f2_cap r \<and> m \<notin> set xs \<longrightarrow> (\<exists>r'. f2_Insert r m = Inr (True, r') \<and> la_rep (f2_list r') (m # xs))) \<and>
    f2_Promote r m = Inr (True, r) \<and>
    (case List.find (\<lambda>m. \<not> pinned pt m) (rev xs) of
        None \<Rightarrow> f2_Victim r pt = Inr ((False, 0), r, pt)
      | Some m \<Rightarrow> \<exists>r'. f2_Victim r pt = Inr ((True, m), r', lock_frame pt m) \<and> la_rep (f2_list r') (remove1 m xs))"
  using f2_Insert_queue [OF r, of m] f2_Victim_queue [OF r wf h]
  by (auto simp: f2_Promote_def queue_victim_def split: option.splits)

lemma fifo2_is_queue_witness:
  "\<exists>r0 r r'. f2_new (\<lambda>_. 0) 2 = Inr r0 \<and> f2_Insert r0 0 = Inr (True, r) \<and>
     f2_Victim r small_pt = Inr ((True, 0), r', lock_frame small_pt 0)"
proof -
  obtain la where la: "la_new (\<lambda>_. 0) 2 = Inr la" "la_rep la []" "la_capacity (la :: nat list_array) = 2"
    using la_new_rep [of 2 "\<lambda>_. 0 :: nat"] by (auto simp: INVALID_INDEX_def)
  let ?r0 = "\<lparr>f2_list = la\<rparr>"
  have r0: "la_rep (f2_list ?r0) []" using la(2) by simp
  obtain r where r: "f2_Insert ?r0 0 = Inr (True, r)" "la_rep (f2_list r) [0]"
    using fifo2_is_queue [OF r0 small_pt_wf, of 0] la(3) by (auto simp: f2_cap_def)
  then show ?thesis
    using fifo2_is_queue [OF r(2) small_pt_wf] small_pt_frame0 la(1) by (auto simp: f2_new_def)
qed

end
