(* ===== verification/Fetch.thy ===== *)
theory Fetch
  imports PoolInv Sieve QueuePolicies
begin

text \<open>
  Fetching a page, proved once for every policy that meets the contract \<open>replacer\<close>: the phases of
  \<open>FetchPageSync\<close> keep the pool invariant and the bytes of every page, whichever page they evict.
\<close>

section \<open>Changing one mapping\<close>

lemma resident_set_word:
  assumes "pt_word pt fd p = Some w0"
  shows "resident (set_word pt fd p w) fd' p' = (if same_slot pt fd p fd' p'
    then if fst (FindMapping_word w) then Some (snd (FindMapping_word w)) else None
    else resident pt fd' p')"
  using assms by (simp add: resident_def pt_simps)

lemma FindMapping_none [simp]:
  "\<not> fst (FindMapping_word (mword EMPTY_VALUE))" "\<not> fst (FindMapping_word (mword BUSY_VALUE))"
  by (simp_all add: FindMapping_word_def pt_simps)

lemma frame_id:
  assumes "pt_wf k pt" "m < frames pt"
  shows "m < 2147483648" "m \<noteq> EMPTY_VALUE" "m \<noteq> BUSY_VALUE" "mword m \<noteq> mword EMPTY_VALUE" "mword m \<noteq> mword BUSY_VALUE"
proof -
  show *: "m < 2147483648" "m \<noteq> EMPTY_VALUE" "m \<noteq> BUSY_VALUE"
    using assms(2) pt_wfD(2) [OF assms(1)] by (auto simp: EMPTY_VALUE_def BUSY_VALUE_def)
  then show "mword m \<noteq> mword EMPTY_VALUE" "mword m \<noteq> mword BUSY_VALUE" by (simp_all add: mword_inject)
qed

lemma held_set_word:
  assumes "pt_word pt fd p = Some w0" "held pt m" "w0 \<noteq> mword m"
  shows "held (set_word pt fd p w) m"
  using assms same_slot_word [of pt fd p "pte_fd_cur (pte_of pt m)" "pte_fpage_id_cur (pte_of pt m)"]
  by (auto simp: held_def pt_simps)

text \<open>Two different managed frames hold different pages.\<close>

lemma held_pages_differ:
  assumes "pt_wf k pt" "held pt m" "held pt m'" "m \<noteq> m'"
  shows "pte_fd_cur (pte_of pt m') \<noteq> pte_fd_cur (pte_of pt m) \<or>
    pte_fpage_id_cur (pte_of pt m') \<noteq> pte_fpage_id_cur (pte_of pt m)"
  using assms frame_id(1) [OF assms(1)] mword_inject by (metis held_def option.inject)

lemma frame_ok_pt:
  "pte_of pt' m = pte_of pt m \<Longrightarrow> mem' ! m = mem ! m \<Longrightarrow> frame_ok d pt' mem' m = frame_ok d pt mem m"
  by (simp add: frame_ok_def)

lemma page_bytes_eq:
  assumes "resident (bp_page_table bp') fd q = resident (bp_page_table bp) fd q"
    and "\<And>m. resident (bp_page_table bp) fd q = Some m \<Longrightarrow> bp_memory_pool bp' ! m = bp_memory_pool bp ! m"
  shows "page_bytes bp' d fd q = page_bytes bp d fd q"
  using assms by (simp add: page_bytes_def split: option.split)

text \<open>A mapping that names no frame can be locked and unlocked freely.\<close>

lemma pool_core_set_slot:
  assumes c: "pool_core rinv rcap qrep k bp d S free T"
    and w0: "pt_word (bp_page_table bp) fd p = Some w0" and r: "w0 = mword EMPTY_VALUE \<or> w0 = mword BUSY_VALUE"
    and w: "w = mword EMPTY_VALUE \<or> w = mword BUSY_VALUE"
  shows "pool_core rinv rcap qrep k (bp\<lparr>bp_page_table := set_word (bp_page_table bp) fd p w\<rparr>) d S free T"
    and "page_bytes (bp\<lparr>bp_page_table := set_word (bp_page_table bp) fd p w\<rparr>) d fd' p' = page_bytes bp d fd' p'"
proof -
  let ?pt = "bp_page_table bp"
  note wf = pool_coreD(1) [OF c]
  have slot: "pt_wf k (set_word ?pt fd p w)"
    using wf w0 w by (intro pt_wf_set_word) (auto simp: slot_ok_def)
  have un: "m < frames ?pt \<Longrightarrow> unnamed ?pt m \<Longrightarrow> unnamed (set_word ?pt fd p w) m" for m
    using w0 w frame_id(4,5) [OF wf] by (metis unnamed_set_word)
  have he: "m < frames ?pt \<Longrightarrow> held ?pt m \<Longrightarrow> held (set_word ?pt fd p w) m" for m
    using w0 r frame_id(4,5) [OF wf] held_set_word by metis
  have fo: "frame_ok d (set_word ?pt fd p w) mem m = frame_ok d ?pt mem m" for mem m
    by (simp add: frame_ok_def pt_simps)
  have lt: "S \<union> set free \<union> T = {..<frames ?pt}" using c by (simp add: pool_core_def)
  then have "m \<in> S \<union> set free \<union> T \<Longrightarrow> m < frames ?pt" for m by auto
  then show "pool_core rinv rcap qrep k (bp\<lparr>bp_page_table := set_word ?pt fd p w\<rparr>) d S free T"
    using c slot un he by (simp add: pool_core_def pt_simps fo pinned_def)
  have "resident ?pt fd' p' = None" if "same_slot ?pt fd p fd' p'"
    unfolding resident_def same_slot_word [OF that, symmetric] w0 using r by auto
  then have "resident (set_word ?pt fd p w) fd' p' = resident ?pt fd' p'"
    using w by (auto simp: resident_set_word [OF w0])
  then show "page_bytes (bp\<lparr>bp_page_table := set_word ?pt fd p w\<rparr>) d fd' p' = page_bytes bp d fd' p'"
    by (intro page_bytes_eq) simp_all
qed

section \<open>Pinning\<close>

lemma Pin_miss:
  assumes "pt_word (bp_page_table bp) fd p \<noteq> None" "resident (bp_page_table bp) fd p = None"
  shows "Pin ops bp p fd = Inr (None, bp)"
  using assms by (auto simp: Pin_def pt_simps resident_def split: if_splits prod.split)

text \<open>What every fetch leaves alone.\<close>

definition fetched ::
  "partition_id \<Rightarrow> ('r, 'q) buffer_pool \<Rightarrow> disk \<Rightarrow> file_handle \<Rightarrow> fpage_id \<Rightarrow> mpage_id \<Rightarrow>
   ('r, 'q) buffer_pool \<Rightarrow> disk \<Rightarrow> bool" where
  "fetched k bp d fd p m bp' d' \<longleftrightarrow>
     resident (bp_page_table bp') fd p = Some m \<and>
     (if resident (bp_page_table bp) fd p = Some m
      then pte_of (bp_page_table bp') m = pte_of (bp_page_table bp) m + 1
      else pte_of (bp_page_table bp') m = loaded_pte fd p \<and> \<not> pinned (bp_page_table bp) m) \<and>
     frames (bp_page_table bp') = frames (bp_page_table bp) \<and>
     pt_partitioner (bp_page_table bp') = pt_partitioner (bp_page_table bp) \<and>
     (\<forall>m'. m' \<noteq> m \<longrightarrow> pte_of (bp_page_table bp') m' = pte_of (bp_page_table bp) m' \<and>
        bp_memory_pool bp' ! m' = bp_memory_pool bp ! m') \<and>
     (\<forall>fd' q. pt_word (bp_page_table bp') fd' q = None \<longleftrightarrow> pt_word (bp_page_table bp) fd' q = None) \<and>
     disk_step (pt_partitioner (bp_page_table bp)) k d d' \<and>
     (\<forall>fd' q. opened d fd' \<longrightarrow> GetPartitionId (pt_partitioner (bp_page_table bp)) q = k \<longrightarrow>
        page_bytes bp' d' fd' q = page_bytes bp d fd' q)"

context replacer
begin

lemma Pin_hit:
  assumes c: "pool_core rinv rcap qrep k bp d S free T" and r: "resident (bp_page_table bp) fd p = Some m"
    and p: "GetPartitionId (pt_partitioner (bp_page_table bp)) p = k"
    and rc: "pte_ref_count (pte_of (bp_page_table bp) m) < 65535"
  obtains bp' where "Pin ops bp p fd = Inr (Some m, bp')" "pool_core rinv rcap qrep k bp' d S free T"
    "fetched k bp d fd p m bp' d" "quiet (bp_page_table bp') = quiet (bp_page_table bp)"
proof -
  let ?pt = "bp_page_table bp" and ?w = "pte_of (bp_page_table bp) m"
  let ?bp = "bp\<lparr>bp_page_table := put_pte ?pt m (?w + 1)\<rparr>"
  note wf = pool_coreD(1) [OF c]
  note b = resident_backed [OF wf r p]
  have lt: "m < frames ?pt" and w: "pt_word ?pt fd p = Some (mword m)"
    using r by (simp_all add: resident_eq [OF wf])
  note mS = resident_managed [OF c r]
  have sp: "same_page (?w + 1) ?w" using rc by (simp add: same_page_def pt_simps)
  have core: "pool_core rinv rcap qrep k ?bp d S free T"
    using rc by (intro pool_core_put_pte(1) [OF c mS sp]) (simp add: pt_simps)
  obtain r' where r': "op_Promote ops (bp_replacer bp) m = Inr (True, r')" "rinv r' S" "rcap r' = rcap (bp_replacer bp)"
    using Promote_law [OF pool_coreD(4) [OF c] mS] by blast
  let ?bp' = "?bp\<lparr>bp_replacer := r'\<rparr>"
  have "FindMapping ?pt fd p = Inr (True, m)"
    using w frame_id [OF wf lt] by (simp add: pt_simps FindMapping_word_def)
  moreover have "IncRefCount1 p fd ?w = (True, ?w + 1)" using b by (simp add: IncRefCount1_def)
  ultimately have "Pin ops bp p fd = Inr (Some m, ?bp')"
    using lt r' by (simp add: Pin_def pt_simps Let_def)
  moreover have "pool_core rinv rcap qrep k ?bp' d S free T" using core r' by (simp add: pool_core_def)
  moreover have "page_bytes ?bp' d fd' q = page_bytes bp d fd' q" for fd' q
    using put_same_page(4) [OF sp lt] by (intro page_bytes_eq) simp_all
  then have "fetched k bp d fd p m ?bp' d"
    using r lt put_same_page(4) [OF sp lt] pool_coreD(11) [OF c] by (simp add: fetched_def pt_simps)
  ultimately show thesis by (intro that [of ?bp']) simp_all
qed

text \<open>The victim is written back when it is dirty, and its page is then found in the file.\<close>

lemma evicting_ok:
  assumes c: "pool_core rinv rcap qrep k bp d S free {}" and m: "m \<in> S"
    and r': "rinv r' (S - {m})" "rcap r' = rcap (bp_replacer bp)"
  defines "w \<equiv> pte_of (bp_page_table bp) m"
  defines "pt' \<equiv> set_word (lock_frame (bp_page_table bp) m) (pte_fd_cur w) (pte_fpage_id_cur w) (mword EMPTY_VALUE)"
  defines "bp' \<equiv> bp\<lparr>bp_replacer := r', bp_page_table := pt'\<rparr>"
  obtains d' where
    "evicting_phase \<lparr>fs_stat = Evicting, fs_ret = Some m,
        fs_bp = bp\<lparr>bp_replacer := r', bp_page_table := lock_frame (bp_page_table bp) m\<rparr>, fs_disk = d\<rparr> =
      Inr \<lparr>fs_stat = Loading, fs_ret = Some m, fs_bp = bp', fs_disk = d'\<rparr>"
    "pool_core rinv rcap qrep k bp' d' (S - {m}) free {m}"
    "disk_step (pt_partitioner (bp_page_table bp)) k d d'"
    "\<And>fd' q. opened d fd' \<Longrightarrow> GetPartitionId (pt_partitioner (bp_page_table bp)) q = k \<Longrightarrow>
       page_bytes bp' d' fd' q = page_bytes bp d fd' q"
proof -
  let ?pt = "bp_page_table bp" and ?fd = "pte_fd_cur w" and ?p = "pte_fpage_id_cur w"
  let ?mem = "bp_memory_pool bp" and ?pt1 = "lock_frame (bp_page_table bp) m"
  note wf = pool_coreD(1) [OF c] and h = pool_coreD(8) [OF c m] and dwf = pool_coreD(11) [OF c]
  note lf = lock_frame_wf [OF wf h, folded w_def] and lt = pool_coreD(10) [OF c m]
  have part: "GetPartitionId (pt_partitioner ?pt) ?p = k" using held_partition [OF wf h] by (simp add: w_def)
  have fok: "in_file d ?fd ?p"
    "pte_dirty w \<or> visible (file_of d ?fd) ?p (?mem ! m) = visible (file_of d ?fd) ?p (page_at (file_of d ?fd) (unat ?p))"
    using pool_coreD(9) [OF c m] by (simp_all add: frame_ok_def w_def Let_def)
  have len: "length (?mem ! m) = PAGE_SIZE_FILE" by (rule pool_coreD(3) [OF c lt])
  define d' where "d' = (if pte_dirty w then disk_put d ?fd ?p (?mem ! m) else d)"
  have w1: "FromPageId ?pt1 m = Inr (set_busy True w)"
    using lt lf(4) lf(6) [of m] by (simp add: FromPageId_pte_of)
  have word1: "pt_word ?pt1 ?fd ?p = Some (mword BUSY_VALUE)" by (rule lf(3))
  have run: "evicting_phase \<lparr>fs_stat = Evicting, fs_ret = Some m,
        fs_bp = bp\<lparr>bp_replacer := r', bp_page_table := ?pt1\<rparr>, fs_disk = d\<rparr> =
      Inr \<lparr>fs_stat = Loading, fs_ret = Some m, fs_bp = bp', fs_disk = d'\<rparr>"
    using w1 word1 lt len pool_coreD(2) [OF c] Write_page_put [OF fok(1) len]
    by (simp add: evicting_phase_def fs_frame_def pt_simps ReadWriteSync_def d'_def bp'_def pt'_def)
  have step: "disk_step (pt_partitioner ?pt) k d d'"
    using disk_put_step [OF dwf fok(1) part] dwf by (simp add: d'_def)
  have same: "page_at (file_of d' fd') (unat q) = page_at (file_of d fd') (unat q)"
    if "opened d fd'" "fd' \<noteq> ?fd \<or> q \<noteq> ?p" for fd' q
    using page_at_disk_put(1) [OF dwf fok(1) that(1)] that(2) by (simp add: d'_def)
  have res: "resident pt' fd' q = (if fd' = ?fd \<and> q = ?p then None else resident ?pt fd' q)"
    if "GetPartitionId (pt_partitioner ?pt) q = k" for fd' q
  proof -
    have "same_slot ?pt ?fd ?p fd' q \<longleftrightarrow> fd' = ?fd \<and> q = ?p"
      using partition_unique [OF pt_wfD(1) [OF wf], of ?p q] that part by (auto simp: same_slot_def)
    moreover have "pt_word ?pt ?fd ?p = Some (mword m)" using h by (simp add: held_def w_def)
    ultimately show ?thesis
      by (simp add: pt'_def lock_frame_def resident_def pt_simps same_slot_def Let_def flip: w_def)
  qed
  have "page_bytes bp' d' fd' q = page_bytes bp d fd' q"
    if o: "opened d fd'" and q: "GetPartitionId (pt_partitioner ?pt) q = k" for fd' q
  proof (cases "fd' = ?fd \<and> q = ?p")
    case True
    have l: "length (file_of d' ?fd) = length (file_of d ?fd)"
      using step fok(1) by (simp add: disk_step_def in_file_def)
    have "resident ?pt ?fd ?p = Some m" using h by (simp add: resident_eq [OF wf] held_def w_def)
    moreover have "visible (file_of d ?fd) ?p (page_at (file_of d' ?fd) (unat ?p)) = visible (file_of d ?fd) ?p (?mem ! m)"
      using fok page_at_disk_put(3) [OF dwf fok(1) _ len] by (auto simp: d'_def in_file_def)
    ultimately show ?thesis
      using res [OF q, of fd'] True visible_cong [OF l] by (simp add: page_bytes_def bp'_def)
  next
    case False
    have "page_bytes bp' d' fd' q = page_bytes bp d' fd' q"
      using res [OF q, of fd'] False by (intro page_bytes_eq) (simp_all add: bp'_def)
    also have "\<dots> = page_bytes bp d fd' q"
      using same [OF o] False by (intro page_bytes_step [OF step o]) auto
    finally show ?thesis .
  qed
  moreover have "pool_core rinv rcap qrep k bp' d' (S - {m}) free {m}"
  proof -
    have fr: "frames pt' = frames ?pt" "pte_of pt' m' = (if m' = m then set_busy True w else pte_of ?pt m')" for m'
      using lf(4) lf(6) [of m'] by (simp_all add: pt'_def pt_simps)
    have "pt_wf k pt'" unfolding pt'_def by (rule DeleteMapping_wf [OF lf(1) word1])
    moreover have "held pt' m'" "frame_ok d' pt' ?mem m'" if "m' \<in> S - {m}" for m'
    proof -
      note h' = pool_coreD(8) [OF c, of m'] and f' = pool_coreD(9) [OF c, of m']
      have lt': "m' < frames ?pt" using that pool_coreD(10) [OF c] by auto
      have "held ?pt1 m'" using lock_frame_held [OF wf h h'] that by auto
      then show "held pt' m'"
        unfolding pt'_def using word1 frame_id(5) [OF wf lt'] by (metis held_set_word)
      have "frame_ok d' ?pt ?mem m'"
      proof (rule frame_ok_step [OF f' step])
        show "page_at (file_of d' (pte_fd_cur (pte_of ?pt m'))) (unat (pte_fpage_id_cur (pte_of ?pt m'))) =
          page_at (file_of d (pte_fd_cur (pte_of ?pt m'))) (unat (pte_fpage_id_cur (pte_of ?pt m')))"
          using f' that held_pages_differ [OF wf h h'] by (intro same) (auto simp: frame_ok_def in_file_def w_def Let_def)
      qed (use that in simp_all)
      then show "frame_ok d' pt' ?mem m'" using fr(2) [of m'] that frame_ok_pt [of pt' m' ?pt] by simp
    qed
    moreover have "unnamed pt' m'" if "m' < frames ?pt" "unnamed ?pt1 m'" for m'
      unfolding pt'_def using that word1 frame_id(4) [OF wf that(1)] by (metis unnamed_set_word)
    moreover have "unnamed ?pt1 m'" if "unnamed ?pt m'" "m' < frames ?pt" for m'
    proof -
      have "pt_word ?pt ?fd ?p = Some (mword m)" using h by (simp add: held_def w_def)
      then have "unnamed (set_word ?pt ?fd ?p (mword BUSY_VALUE)) m'"
        using that(1) frame_id(5) [OF wf that(2)] by (metis unnamed_set_word)
      then show ?thesis by (simp add: lock_frame_def pt_simps Let_def flip: w_def)
    qed
    ultimately show ?thesis
      using c m r' lf(2) fr step lt
      by (auto simp: pool_core_def bp'_def pinned_def disk_step_def)
  qed
  ultimately show thesis using run step that by blast
qed

text \<open>Reading the page into a frame in transit publishes it there.\<close>

lemma loading_ok:
  assumes c: "pool_core rinv rcap qrep k bp d S free {m}"
    and w: "pt_word (bp_page_table bp) fd p = Some (mword BUSY_VALUE)" and i: "in_file d fd p"
    and fd: "fd < 8192" and p: "GetPartitionId (pt_partitioner (bp_page_table bp)) p = k"
  defines "pt' \<equiv> set_word (put_pte (bp_page_table bp) m (loaded_pte fd p)) fd p (mword m)"
  defines "mem' \<equiv> (bp_memory_pool bp)[m := page_at (file_of d fd) (unat p)]"
  obtains bp' where
    "loading_phase ops p fd \<lparr>fs_stat = Loading, fs_ret = Some m, fs_bp = bp, fs_disk = d\<rparr> =
      Inr \<lparr>fs_stat = End, fs_ret = Some m, fs_bp = bp', fs_disk = d\<rparr>"
    "pool_core rinv rcap qrep k bp' d (insert m S) free {}"
    "bp_page_table bp' = pt'" "bp_memory_pool bp' = mem'"
    "\<And>fd' q. GetPartitionId (pt_partitioner (bp_page_table bp)) q = k \<Longrightarrow>
       page_bytes bp' d fd' q = page_bytes bp d fd' q"
proof -
  let ?pt = "bp_page_table bp" and ?mem = "bp_memory_pool bp" and ?f = "file_of d fd"
  note wf = pool_coreD(1) [OF c]
  have m: "m < frames ?pt" "unnamed ?pt m" "m \<notin> S" "m \<notin> set free"
    using c by (auto simp: pool_core_def)
  note id = frame_id [OF wf m(1)]
  obtain r' where r': "op_Insert ops (bp_replacer bp) m = Inr (True, r')" "rinv r' (insert m S)" "rcap r' = rcap (bp_replacer bp)"
    using Insert_law [OF pool_coreD(4) [OF c] _ m(3)] m(1) pool_coreD(5) [OF c] by auto
  let ?bp' = "bp\<lparr>bp_memory_pool := mem', bp_replacer := r', bp_page_table := pt'\<rparr>"
  have rd: "RWSysCall_Read d (page_offset_of p) (?mem ! m) fd = Inr (True, page_at ?f (unat p))"
    using i pool_coreD(3) [OF c m(1)] unat_page_offset by (intro Read_page) (simp_all add: in_file_def opened_def)
  have run: "loading_phase ops p fd \<lparr>fs_stat = Loading, fs_ret = Some m, fs_bp = bp, fs_disk = d\<rparr> =
      Inr \<lparr>fs_stat = End, fs_ret = Some m, fs_bp = ?bp', fs_disk = d\<rparr>"
    using m(1) pool_coreD(2) [OF c] rd r' w id
    by (simp add: loading_phase_def fs_frame_def ReadWriteSync_def pt_simps pte_Clean_def pt'_def mem'_def
        flip: loaded_pte_def)
  have wf': "pt_wf k pt'" unfolding pt'_def using wf m(2,1) fd p w by (rule fill_wf)
  have other: "pt_word ?pt (pte_fd_cur (pte_of ?pt m')) (pte_fpage_id_cur (pte_of ?pt m')) = Some (mword m')"
    "\<not> same_slot ?pt fd p (pte_fd_cur (pte_of ?pt m')) (pte_fpage_id_cur (pte_of ?pt m'))" "m' \<noteq> m"
    if "m' \<in> S" for m'
  proof -
    show *: "pt_word ?pt (pte_fd_cur (pte_of ?pt m')) (pte_fpage_id_cur (pte_of ?pt m')) = Some (mword m')"
      using pool_coreD(8) [OF c that] by (simp add: held_def)
    show "\<not> same_slot ?pt fd p (pte_fd_cur (pte_of ?pt m')) (pte_fpage_id_cur (pte_of ?pt m'))"
      using * w same_slot_word frame_id(5) [OF wf pool_coreD(10) [OF c that]] by (metis option.inject)
    show "m' \<noteq> m" using that m(3) by auto
  qed
  have fr: "frames pt' = frames ?pt" "pte_of pt' m' = (if m' = m then loaded_pte fd p else pte_of ?pt m')" for m'
    using m(1) by (simp_all add: pt'_def pt_simps)
  have S: "held pt' m'" "frame_ok d pt' mem' m'" if "m' \<in> S" for m'
  proof -
    show "held pt' m'"
      using pool_coreD(8) [OF c that] other [OF that] m(1) w
      by (auto simp: held_def pt'_def pt_simps same_slot_def)
    show "frame_ok d pt' mem' m'"
      using pool_coreD(9) [OF c that] other(3) [OF that] fr(2) [of m'] frame_ok_pt [of pt' m' ?pt]
      by (simp add: mem'_def)
  qed
  have M: "held pt' m" "frame_ok d pt' mem' m"
    using m(1) w fd i pool_coreD(2) [OF c]
    by (simp_all add: held_def frame_ok_def pt'_def mem'_def pt_simps loaded_pte_fields Let_def)
  have un: "unnamed pt' m'" if "m' < frames ?pt" "m' \<noteq> m" "unnamed ?pt m'" for m'
    unfolding pt'_def using that w id(1) frame_id(1) [OF wf that(1)]
    by (intro unnamed_set_word [of _ _ _ "mword BUSY_VALUE"]) (simp_all add: pt_simps mword_inject)
  have mem: "\<forall>b\<in>set mem'. length b = PAGE_SIZE_FILE"
    using c m(1) by (auto simp: mem'_def pool_core_def dest!: set_update_subset_insert [THEN subsetD])
  have lt: "m' < frames ?pt" if "m' \<in> set free" for m' using c that by (auto simp: pool_core_def)
  have parts: "insert m S \<union> set free = {..<frames ?pt}" "S \<inter> set free = {}" using c by (auto simp: pool_core_def)
  have core: "pool_core rinv rcap qrep k ?bp' d (insert m S) free {}"
    unfolding pool_core_def
  proof (intro conjI ballI)
    fix m' assume a: "m' \<in> set free"
    then have "unnamed ?pt m'" "\<not> pinned ?pt m'" "m' \<noteq> m" using c m(4) by (auto simp: pool_core_def)
    then show "unnamed (bp_page_table ?bp') m'" "\<not> pinned (bp_page_table ?bp') m'"
      using un lt [OF a] fr(2) by (auto simp: pinned_def)
  qed (use c wf' mem r' m S M fr parts in \<open>auto simp: pool_core_def mem'_def\<close>)
  have "page_bytes ?bp' d fd' q = page_bytes bp d fd' q"
    if q: "GetPartitionId (pt_partitioner ?pt) q = k" for fd' q
  proof (cases "same_slot ?pt fd p fd' q")
    case True
    then have "fd' = fd" "q = p" using partition_unique [OF pt_wfD(1) [OF wf], of p q] q p by (auto simp: same_slot_def)
    then show ?thesis
      using resident_None [OF wf, of fd p] w resident_eq [OF wf', of fd p m] m(1) pool_coreD(2) [OF c] fr(1)
      by (simp add: page_bytes_def mem'_def) (simp add: pt'_def pt_simps)
  next
    case False
    then have "resident pt' fd' q = resident ?pt fd' q"
      using w by (auto simp: resident_def pt'_def pt_simps same_slot_def)
    moreover have "n \<noteq> m" if "resident ?pt fd' q = Some n" for n
      using that m(2) by (auto simp: resident_eq [OF wf] unnamed_def)
    ultimately show ?thesis by (intro page_bytes_eq) (simp_all add: mem'_def)
  qed
  then show thesis using run core by (intro that [of ?bp']) auto
qed

text \<open>From the locked mapping on: a free frame if there is one, otherwise an eviction.\<close>

lemma fetch_from_free:
  assumes laws: "fifo_laws qops qrep" and c: "pool_core rinv rcap qrep k bp d S (m # free) {}"
    and w: "pt_word (bp_page_table bp) fd p = Some (mword BUSY_VALUE)" and i: "in_file d fd p"
    and fd: "fd < 8192" and p: "GetPartitionId (pt_partitioner (bp_page_table bp)) p = k"
  obtains bp' where
    "fetch_loop (Suc (Suc fuel)) ops qops p fd \<lparr>fs_stat = Initing, fs_ret = ret, fs_bp = bp, fs_disk = d\<rparr> =
      Inr \<lparr>fs_stat = End, fs_ret = Some m, fs_bp = bp', fs_disk = d\<rparr>"
    "pool_core rinv rcap qrep k bp' d (insert m S) free {}"
    "bp_page_table bp' = set_word (put_pte (bp_page_table bp) m (loaded_pte fd p)) fd p (mword m)"
    "bp_memory_pool bp' = (bp_memory_pool bp)[m := page_at (file_of d fd) (unat p)]"
    "\<And>fd' q. GetPartitionId (pt_partitioner (bp_page_table bp)) q = k \<Longrightarrow> page_bytes bp' d fd' q = page_bytes bp d fd' q"
proof -
  obtain fl where fl: "lq_Poll qops (bp_free_list bp) = (Some m, fl)" "lq_rep qrep fl free"
    by (rule lq_Poll_rep [OF laws pool_coreD(6) [OF c]])
  let ?bp = "bp\<lparr>bp_free_list := fl\<rparr>"
  have c1: "pool_core rinv rcap qrep k ?bp d S free {m}" using c fl(2) by (auto simp: pool_core_def)
  have b1: "page_bytes ?bp d fd' q = page_bytes bp d fd' q" for fd' q by (rule page_bytes_eq) simp_all
  have "pt_word (bp_page_table ?bp) fd p = Some (mword BUSY_VALUE)"
    "GetPartitionId (pt_partitioner (bp_page_table ?bp)) p = k" using w p by simp_all
  from loading_ok [OF c1 this(1) i fd this(2)] obtain bp' where
    "loading_phase ops p fd \<lparr>fs_stat = Loading, fs_ret = Some m, fs_bp = ?bp, fs_disk = d\<rparr> =
      Inr \<lparr>fs_stat = End, fs_ret = Some m, fs_bp = bp', fs_disk = d\<rparr>"
    "pool_core rinv rcap qrep k bp' d (insert m S) free {}"
    "bp_page_table bp' = set_word (put_pte (bp_page_table ?bp) m (loaded_pte fd p)) fd p (mword m)"
    "bp_memory_pool bp' = (bp_memory_pool ?bp)[m := page_at (file_of d fd) (unat p)]"
    "\<And>fd' q. GetPartitionId (pt_partitioner (bp_page_table ?bp)) q = k \<Longrightarrow>
       page_bytes bp' d fd' q = page_bytes ?bp d fd' q" by metis
  then show thesis
    using fl b1 by (intro that [of bp']) (simp_all add: fetch_step_def initing_phase_def)
qed

lemma fetch_by_eviction:
  assumes laws: "fifo_laws qops qrep" and c: "pool_core rinv rcap qrep k bp d S [] {}"
    and ex: "m0 \<in> S" "\<not> pinned (bp_page_table bp) m0"
    and w: "pt_word (bp_page_table bp) fd p = Some (mword BUSY_VALUE)" and i: "in_file d fd p"
    and fd: "fd < 8192" and p: "GetPartitionId (pt_partitioner (bp_page_table bp)) p = k"
  obtains m pt2 bp' d' where
    "fetch_loop (Suc (Suc (Suc fuel))) ops qops p fd \<lparr>fs_stat = Initing, fs_ret = ret, fs_bp = bp, fs_disk = d\<rparr> =
      Inr \<lparr>fs_stat = End, fs_ret = Some m, fs_bp = bp', fs_disk = d'\<rparr>"
    "m \<in> S" "\<not> pinned (bp_page_table bp) m" "pool_core rinv rcap qrep k bp' d' S [] {}"
    "pt2 = set_word (lock_frame (bp_page_table bp) m) (pte_fd_cur (pte_of (bp_page_table bp) m))
       (pte_fpage_id_cur (pte_of (bp_page_table bp) m)) (mword EMPTY_VALUE)"
    "bp_page_table bp' = set_word (put_pte pt2 m (loaded_pte fd p)) fd p (mword m)"
    "bp_memory_pool bp' = (bp_memory_pool bp)[m := page_at (file_of d' fd) (unat p)]"
    "disk_step (pt_partitioner (bp_page_table bp)) k d d'"
    "\<And>fd' q. opened d fd' \<Longrightarrow> GetPartitionId (pt_partitioner (bp_page_table bp)) q = k \<Longrightarrow>
       page_bytes bp' d' fd' q = page_bytes bp d fd' q"
proof -
  let ?pt = "bp_page_table bp"
  note wf = pool_coreD(1) [OF c]
  obtain m r' where m: "m \<in> S" "\<not> pinned ?pt m"
    "op_Victim ops (bp_replacer bp) ?pt = Inr ((True, m), r', lock_frame ?pt m)"
    "rinv r' (S - {m})" "rcap r' = rcap (bp_replacer bp)"
    using Victim_law [OF pool_coreD(4) [OF c] wf pool_coreD(8) [OF c] ex] by blast
  let ?v = "pte_of ?pt m"
  define pt2 where "pt2 = set_word (lock_frame ?pt m) (pte_fd_cur ?v) (pte_fpage_id_cur ?v) (mword EMPTY_VALUE)"
  define bp2 where "bp2 = bp\<lparr>bp_replacer := r', bp_page_table := pt2\<rparr>"
  obtain d' where d': "evicting_phase \<lparr>fs_stat = Evicting, fs_ret = Some m,
        fs_bp = bp\<lparr>bp_replacer := r', bp_page_table := lock_frame ?pt m\<rparr>, fs_disk = d\<rparr> =
      Inr \<lparr>fs_stat = Loading, fs_ret = Some m, fs_bp = bp2, fs_disk = d'\<rparr>"
    "pool_core rinv rcap qrep k bp2 d' (S - {m}) [] {m}" "disk_step (pt_partitioner ?pt) k d d'"
    "\<And>fd' q. opened d fd' \<Longrightarrow> GetPartitionId (pt_partitioner ?pt) q = k \<Longrightarrow>
       page_bytes bp2 d' fd' q = page_bytes bp d fd' q"
    unfolding bp2_def pt2_def by (rule evicting_ok [OF c m(1) m(4,5)]) blast
  have h: "pt_word ?pt (pte_fd_cur ?v) (pte_fpage_id_cur ?v) = Some (mword m)" "m < frames ?pt"
    using pool_coreD(8) [OF c m(1)] by (simp_all add: held_def)
  have "\<not> same_slot ?pt (pte_fd_cur ?v) (pte_fpage_id_cur ?v) fd p"
    using same_slot_word w h(1) frame_id(5) [OF wf h(2)] by (metis option.inject)
  then have w2: "pt_word pt2 fd p = Some (mword BUSY_VALUE)"
    using w h by (auto simp: pt2_def lock_frame_def pt_simps same_slot_def Let_def)
  have pr: "pt_partitioner pt2 = pt_partitioner ?pt"
    by (simp add: pt2_def lock_frame_def pt_simps Let_def)
  have p2: "GetPartitionId (pt_partitioner (bp_page_table bp2)) p = k" "pt_word (bp_page_table bp2) fd p = Some (mword BUSY_VALUE)"
    "in_file d' fd p"
    using p w2 pr i disk_step_in_file [OF d'(3)] by (simp_all add: bp2_def)
  from loading_ok [OF d'(2) p2(2,3) fd p2(1)] obtain bp' where r2:
    "loading_phase ops p fd \<lparr>fs_stat = Loading, fs_ret = Some m, fs_bp = bp2, fs_disk = d'\<rparr> =
      Inr \<lparr>fs_stat = End, fs_ret = Some m, fs_bp = bp', fs_disk = d'\<rparr>"
    "pool_core rinv rcap qrep k bp' d' (insert m (S - {m})) [] {}"
    "bp_page_table bp' = set_word (put_pte (bp_page_table bp2) m (loaded_pte fd p)) fd p (mword m)"
    "bp_memory_pool bp' = (bp_memory_pool bp2)[m := page_at (file_of d' fd) (unat p)]"
    "\<And>fd' q. GetPartitionId (pt_partitioner (bp_page_table bp2)) q = k \<Longrightarrow>
       page_bytes bp' d' fd' q = page_bytes bp2 d' fd' q" by metis
  have S: "insert m (S - {m}) = S" using m(1) by auto
  have b2: "bp_page_table bp2 = pt2" "bp_memory_pool bp2 = bp_memory_pool bp" by (simp_all add: bp2_def)
  have run: "fetch_loop (Suc (Suc (Suc fuel))) ops qops p fd
      \<lparr>fs_stat = Initing, fs_ret = ret, fs_bp = bp, fs_disk = d\<rparr> =
      Inr \<lparr>fs_stat = End, fs_ret = Some m, fs_bp = bp', fs_disk = d'\<rparr>"
    using m(3) d'(1) r2(1) lq_Poll_empty [OF laws pool_coreD(6) [OF c]]
    by (simp add: fetch_step_def initing_phase_def)
  show thesis
    using run m(1,2) r2(2) pt2_def r2(3,4) d'(3) unfolding S b2
    by (rule that) (simp_all add: r2(5) d'(4) b2 pr)
qed

lemma begin_empty:
  assumes "pt_word (bp_page_table bp) fd p = Some (mword EMPTY_VALUE)"
  shows "fetch_loop (Suc fuel) ops qops p fd \<lparr>fs_stat = Begin, fs_ret = ret, fs_bp = bp, fs_disk = d\<rparr> =
    fetch_loop fuel ops qops p fd \<lparr>fs_stat = Initing, fs_ret = ret,
      fs_bp = bp\<lparr>bp_page_table := set_word (bp_page_table bp) fd p (mword BUSY_VALUE)\<rparr>, fs_disk = d\<rparr>"
  using assms by (simp add: fetch_step_def begin_phase_def pt_simps)

text \<open>Four rounds of the loop are enough.\<close>

lemma fetch_miss:
  assumes laws: "fifo_laws qops qrep" and ok: "pool_ok rinv rcap qrep k bp d" and i: "in_file d fd p"
    and fd: "fd < 8192" and p: "GetPartitionId (pt_partitioner (bp_page_table bp)) p = k"
    and w: "pt_word (bp_page_table bp) fd p \<noteq> None" and miss: "resident (bp_page_table bp) fd p = None"
    and room: "m0 < frames (bp_page_table bp)" "\<not> pinned (bp_page_table bp) m0"
  obtains m bp' d' where
    "FetchPageSync (Suc (Suc (Suc (Suc fuel)))) ops qops bp d p fd = Inr (Some m, bp', d')"
    "pool_ok rinv rcap qrep k bp' d'" "fetched k bp d fd p m bp' d'"
proof -
  let ?pt = "bp_page_table bp" and ?s = "\<lambda>st bp. \<lparr>fs_stat = st, fs_ret = None, fs_bp = bp, fs_disk = d\<rparr>"
  obtain S free where c: "pool_core rinv rcap qrep k bp d S free {}" and q: "quiet ?pt"
    using ok by (auto simp: pool_ok_def)
  note wf = pool_coreD(1) [OF c]
  have w0: "pt_word ?pt fd p = Some (mword EMPTY_VALUE)"
    using resident_None [OF wf w] miss q by (auto simp: quiet_def)
  let ?bp = "bp\<lparr>bp_page_table := set_word ?pt fd p (mword BUSY_VALUE)\<rparr>"
  have c1: "pool_core rinv rcap qrep k ?bp d S free {}"
    and b1: "page_bytes ?bp d fd' q = page_bytes bp d fd' q" for fd' q
    by (rule pool_core_set_slot [OF c w0]; simp)+
  have w1: "pt_word (bp_page_table ?bp) fd p = Some (mword BUSY_VALUE)"
    and p1: "GetPartitionId (pt_partitioner (bp_page_table ?bp)) p = k"
    using w0 p by (simp_all add: pt_simps)
  have start: "FetchPageSync (Suc fuel') ops qops bp d p fd =
      bindE (fetch_loop fuel' ops qops p fd (?s Initing ?bp)) (\<lambda>st. Inr (fs_ret st, fs_bp st, fs_disk st))" for fuel'
    using Pin_miss [OF w miss, of ops] begin_empty [OF w0] by (simp add: FetchPageSync_def del: fetch_loop.simps)
  have slot: "pt_word ?pt fd' q = Some (mword EMPTY_VALUE)" if "same_slot ?pt fd p fd' q" for fd' q
    using same_slot_word [OF that] w0 by simp
  have nb: "mword m \<noteq> mword BUSY_VALUE" "mword EMPTY_VALUE \<noteq> mword BUSY_VALUE" if "m < frames ?pt" for m
    using frame_id(5) [OF wf that] by (simp_all add: mword_inject)
  have fid: "fst (FindMapping_word (mword m))" "snd (FindMapping_word (mword m)) = m" if "m < frames ?pt" for m
    using frame_id [OF wf that] by (simp_all add: FindMapping_word_def map_mpage_id_mword)
  show thesis
  proof (cases free)
    case (Cons m ms)
    have m: "m < frames ?pt" "\<not> pinned ?pt m" "unnamed ?pt m" using c Cons by (auto simp: pool_core_def)
    obtain bp' where r: "fetch_loop (Suc (Suc (Suc fuel))) ops qops p fd (?s Initing ?bp) =
        Inr \<lparr>fs_stat = End, fs_ret = Some m, fs_bp = bp', fs_disk = d\<rparr>"
      "pool_core rinv rcap qrep k bp' d (insert m S) ms {}"
      "bp_page_table bp' = set_word (put_pte (bp_page_table ?bp) m (loaded_pte fd p)) fd p (mword m)"
      "bp_memory_pool bp' = (bp_memory_pool ?bp)[m := page_at (file_of d fd) (unat p)]"
      "\<And>fd' q. GetPartitionId (pt_partitioner (bp_page_table ?bp)) q = k \<Longrightarrow> page_bytes bp' d fd' q = page_bytes ?bp d fd' q"
      using fetch_from_free [OF laws _ w1 i fd p1, of S m ms "Suc fuel" None] c1 Cons by metis
    have pt': "bp_page_table bp' = put_pte (set_word ?pt fd p (mword m)) m (loaded_pte fd p)"
      unfolding r(3) using w0 by (simp add: pt_simps)
    have "quiet (bp_page_table bp')"
      using q nb m(1) by (auto simp: quiet_def pt' pt_simps w0 split: if_splits)
    then have "pool_ok rinv rcap qrep k bp' d" using r(2) by (auto simp: pool_ok_def)
    moreover have "fetched k bp d fd p m bp' d"
      using miss m(1,2) fid [OF m(1)] r(4,5) b1 pool_coreD(11) [OF c]
      by (auto simp: fetched_def pt' pt_simps resident_def w0 slot)
    ultimately show thesis using start [of "Suc (Suc (Suc fuel))"] r(1) by (intro that) auto
  next
    case Nil
    have m0: "m0 \<in> S" using room(1) c Nil by (auto simp: pool_core_def)
    have np: "\<not> pinned (bp_page_table ?bp) m0" using room by (simp add: pinned_def pt_simps)
    from fetch_by_eviction [OF laws c1 [unfolded Nil] m0 np w1 i fd p1, of fuel None] obtain m pt2 bp' d' where
      r: "fetch_loop (Suc (Suc (Suc fuel))) ops qops p fd (?s Initing ?bp) =
        Inr \<lparr>fs_stat = End, fs_ret = Some m, fs_bp = bp', fs_disk = d'\<rparr>"
      "m \<in> S" "\<not> pinned (bp_page_table ?bp) m" "pool_core rinv rcap qrep k bp' d' S [] {}"
      "pt2 = set_word (lock_frame (bp_page_table ?bp) m) (pte_fd_cur (pte_of (bp_page_table ?bp) m))
         (pte_fpage_id_cur (pte_of (bp_page_table ?bp) m)) (mword EMPTY_VALUE)"
      "bp_page_table bp' = set_word (put_pte pt2 m (loaded_pte fd p)) fd p (mword m)"
      "bp_memory_pool bp' = (bp_memory_pool ?bp)[m := page_at (file_of d' fd) (unat p)]"
      "disk_step (pt_partitioner (bp_page_table ?bp)) k d d'"
      "\<And>fd' q. opened d fd' \<Longrightarrow> GetPartitionId (pt_partitioner (bp_page_table ?bp)) q = k \<Longrightarrow>
         page_bytes bp' d' fd' q = page_bytes ?bp d fd' q" by metis
    note m = pool_coreD(10) [OF c r(2)]
    let ?fd = "pte_fd_cur (pte_of ?pt m)" and ?p = "pte_fpage_id_cur (pte_of ?pt m)"
    have h: "pt_word ?pt ?fd ?p = Some (mword m)" using pool_coreD(8) [OF c r(2)] by (simp add: held_def)
    have vslot: "pt_word ?pt fd' q = Some (mword m)" if "same_slot ?pt ?fd ?p fd' q" for fd' q
      using same_slot_word [OF that] h by simp
    have ns: "\<not> same_slot ?pt fd p ?fd ?p"
      using same_slot_word w0 h frame_id(4) [OF wf m] by (metis option.inject)
    have word: "pt_word (bp_page_table bp') fd' q = (if same_slot ?pt fd p fd' q then Some (mword m)
        else if same_slot ?pt ?fd ?p fd' q then Some (mword EMPTY_VALUE) else pt_word ?pt fd' q)" for fd' q
      unfolding r(5,6) using w0 h ns by (auto simp: lock_frame_def pt_simps same_slot_def Let_def)
    have pte: "pte_of (bp_page_table bp') m' = (if m' = m then loaded_pte fd p else pte_of ?pt m')"
      "frames (bp_page_table bp') = frames ?pt" "pt_partitioner (bp_page_table bp') = pt_partitioner ?pt" for m'
      unfolding r(5,6) using m by (simp_all add: lock_frame_def pt_simps Let_def)
    have "quiet (bp_page_table bp')" using q nb m by (auto simp: quiet_def word split: if_splits)
    then have "pool_ok rinv rcap qrep k bp' d'" using r(4) by (auto simp: pool_ok_def)
    moreover have "fetched k bp d fd p m bp' d'"
      using miss r(3,7,8,9) fid [OF m] b1 w0 h
      by (auto simp: fetched_def pte word resident_def pinned_def pt_simps slot vslot)
    ultimately show thesis using start [of "Suc (Suc (Suc fuel))"] r(1) by (intro that) auto
  qed
qed

lemma fetch_hit:
  assumes ok: "pool_ok rinv rcap qrep k bp d" and r: "resident (bp_page_table bp) fd p = Some m"
    and p: "GetPartitionId (pt_partitioner (bp_page_table bp)) p = k"
    and rc: "pte_ref_count (pte_of (bp_page_table bp) m) < 65535"
  obtains bp' where "FetchPageSync fuel ops qops bp d p fd = Inr (Some m, bp', d)"
    "pool_ok rinv rcap qrep k bp' d" "fetched k bp d fd p m bp' d"
proof -
  obtain S free where c: "pool_core rinv rcap qrep k bp d S free {}" and q: "quiet (bp_page_table bp)"
    using ok by (auto simp: pool_ok_def)
  obtain bp' where "Pin ops bp p fd = Inr (Some m, bp')" "pool_core rinv rcap qrep k bp' d S free {}"
    "fetched k bp d fd p m bp' d" "quiet (bp_page_table bp') = quiet (bp_page_table bp)"
    by (rule Pin_hit [OF c r p rc])
  then show thesis using q by (intro that [of bp']) (auto simp: FetchPageSync_def pool_ok_def)
qed

text \<open>There is room when some frame is unpinned; then every page of the partition can be fetched.\<close>

lemma fetch_ok:
  assumes laws: "fifo_laws qops qrep" and ok: "pool_ok rinv rcap qrep k bp d" and i: "in_file d fd p"
    and fd: "fd < 8192" and p: "GetPartitionId (pt_partitioner (bp_page_table bp)) p = k"
    and w: "pt_word (bp_page_table bp) fd p \<noteq> None"
    and rc: "\<And>m. resident (bp_page_table bp) fd p = Some m \<Longrightarrow> pte_ref_count (pte_of (bp_page_table bp) m) < 65535"
    and room: "resident (bp_page_table bp) fd p = None \<Longrightarrow> \<exists>m0 < frames (bp_page_table bp). \<not> pinned (bp_page_table bp) m0"
    and fuel: "4 \<le> fuel"
  obtains m bp' d' where "FetchPageSync fuel ops qops bp d p fd = Inr (Some m, bp', d')"
    "pool_ok rinv rcap qrep k bp' d'" "fetched k bp d fd p m bp' d'"
proof (cases "resident (bp_page_table bp) fd p")
  case (Some m)
  show thesis
    by (rule fetch_hit [OF ok Some p rc [OF Some], of fuel qops]) (rule that)
next
  case None
  have n: "fuel = Suc (Suc (Suc (Suc (fuel - 4))))" using fuel by simp
  obtain m0 where "m0 < frames (bp_page_table bp)" "\<not> pinned (bp_page_table bp) m0" using room [OF None] by blast
  from fetch_miss [OF laws ok i fd p w None this, of "fuel - 4", folded n] show thesis using that by blast
qed

end

end
