(* ===== verification/Pool.thy ===== *)
theory Pool
  imports Fetch
begin

text \<open>
  The properties of one buffer pool.  They are stated for the policy the code configures,
  \<open>SieveReplacer_v3\<close>, and rest on the interpretation \<open>sieve3\<close> of the contract \<open>replacer\<close>.
\<close>

section \<open>A small pool\<close>

text \<open>The table \<open>small_pt\<close>: page 0 of the file is in frame 0 and dirty, frame 1 is free.\<close>

definition small_pool :: "sieve3 \<Rightarrow> (sieve3, frame list) buffer_pool" where
  "small_pool r = \<lparr>bp_pool_ID = 0, bp_pool_size = 2, bp_memory_pool = [replicate 4096 5, replicate 4096 0],
     bp_page_table = small_pt, bp_replacer = r,
     bp_free_list = \<lparr>lq_queue = [1], lq_size = 1, lq_capacity = 2\<rparr>\<rparr>"

lemma small_pt_unnamed: "unnamed small_pt 1"
proof -
  have "mword 1 \<noteq> mword EMPTY_VALUE" "mword 1 \<noteq> mword BUSY_VALUE" "mword 1 \<noteq> mword 0"
    by (simp_all add: mword_inject) (simp_all add: EMPTY_VALUE_def BUSY_VALUE_def)
  then show ?thesis by (auto simp: unnamed_def small_pt_word)
qed

lemma small_disk_file: "file_of small_disk 0 = replicate 5000 7" "opened small_disk 0"
  using opened_iff [THEN iffD1, OF small_disk_ok(1)] by (simp_all only: simp_thms)

lemma EMPTY_PTE_ref: "pte_ref_count EMPTY_PTE = 0"
  by (simp add: EMPTY_PTE_def mk_pte_def pt_simps)

lemma small_pool_core:
  assumes "s3_inv r {0}" "s3_cap r = 2"
  shows "pool_core s3_inv s3_cap (=) 0 (small_pool r) small_disk {0} [1] {}"
proof -
  have "frame_ok small_disk small_pt [replicate 4096 5, replicate 4096 0] 0"
    using small_disk_file by (simp add: frame_ok_def small_pt_sel in_file_def mk_pte_def pt_simps)
  moreover have "\<not> pinned small_pt 1" by (simp add: pinned_def small_pt_sel EMPTY_PTE_ref)
  ultimately show ?thesis
    using assms small_pt_wf small_pt_held(1) small_pt_unnamed small_disk_ok(2)
    by (auto simp: pool_core_def small_pool_def small_pt_sel lq_rep_def PAGE_SIZE_FILE_def)
qed

lemma small_words_ne: "mword 0 \<noteq> mword BUSY_VALUE" "mword EMPTY_VALUE \<noteq> mword BUSY_VALUE"
  by (simp_all add: mword_inject) (simp_all add: BUSY_VALUE_def)

lemma small_pool_ok:
  obtains r where "s3_inv r {0}" "s3_cap r = 2" "pool_ok s3_inv s3_cap (=) 0 (small_pool r) small_disk"
proof -
  obtain r0 r where r: "s3_new (\<lambda>_. 0) 2 = Inr r0" "s3_Insert r0 0 = Inr (True, r)" "s3_inv r {0}" "s3_cap r = 2"
    by (rule s3_small)
  have "quiet small_pt" using small_words_ne by (auto simp: quiet_def small_pt_word)
  then have "pool_ok s3_inv s3_cap (=) 0 (small_pool r) small_disk"
    using small_pool_core [OF r(3,4)] by (auto simp: pool_ok_def) (simp add: small_pool_def)
  then show thesis using r(3,4) by (rule that [rotated 2])
qed

lemma small_pool_sel [simp]: "bp_page_table (small_pool r) = small_pt"
  "bp_memory_pool (small_pool r) = [replicate 4096 5, replicate 4096 0]"
  by (simp_all add: small_pool_def)

lemma small_in_file: "in_file small_disk 0 0" "in_file small_disk 0 1"
  using small_disk_file by (simp_all add: in_file_def PAGE_SIZE_FILE_def)

lemma small_resident: "resident small_pt 0 0 = Some 0" "resident small_pt 0 1 = None"
  using resident_eq [OF small_pt_wf, of 0 0 0] resident_None [OF small_pt_wf, of 0 1]
  by (simp_all add: small_pt_word small_pt_sel)

section \<open>Fetching\<close>

text \<open>C13: fetching is transparent.  As long as a frame is unpinned, \<open>FetchPageSync\<close> returns within four
  rounds of its loop with the page pinned in a frame that shows the page's bytes; the pool invariant
  holds again, every page of the partition keeps its bytes (also the one evicted, which is written
  back if it is dirty), no other partition's part of the files changes, and no other frame that is
  pinned loses its contents or its entry.\<close>

theorem FetchPageSync_transparent:
  assumes "fifo_laws qops qrep" "pool_ok s3_inv s3_cap qrep k bp d" "in_file d fd p" "fd < 8192"
    and "GetPartitionId (pt_partitioner (bp_page_table bp)) p = k" "pt_word (bp_page_table bp) fd p \<noteq> None"
    and "\<And>m. resident (bp_page_table bp) fd p = Some m \<Longrightarrow> pte_ref_count (pte_of (bp_page_table bp) m) < 65535"
    and "m0 < frames (bp_page_table bp)" "\<not> pinned (bp_page_table bp) m0"
  shows "\<exists>m bp' d'. FetchPageSync 4 s3_ops qops bp d p fd = Inr (Some m, bp', d') \<and>
    pool_ok s3_inv s3_cap qrep k bp' d' \<and> pinned (bp_page_table bp') m \<and>
    visible (file_of d fd) p (bp_memory_pool bp' ! m) = page_bytes bp d fd p \<and>
    (\<forall>fd' q. opened d fd' \<longrightarrow> GetPartitionId (pt_partitioner (bp_page_table bp)) q = k \<longrightarrow>
       page_bytes bp' d' fd' q = page_bytes bp d fd' q) \<and>
    disk_step (pt_partitioner (bp_page_table bp)) k d d' \<and>
    (\<forall>m'. m' \<noteq> m \<and> pinned (bp_page_table bp) m' \<longrightarrow> pinned (bp_page_table bp') m' \<and>
       bp_memory_pool bp' ! m' = bp_memory_pool bp ! m')"
proof -
  obtain m bp' d' where r: "FetchPageSync 4 s3_ops qops bp d p fd = Inr (Some m, bp', d')"
    "pool_ok s3_inv s3_cap qrep k bp' d'" "fetched k bp d fd p m bp' d'"
    by (rule sieve3.fetch_ok [OF assms(1-7), of 4]) (use assms(8,9) in auto)
  have o: "opened d fd" using assms(3) by (simp add: in_file_def)
  have "visible (file_of d fd) p (bp_memory_pool bp' ! m) = page_bytes bp' d' fd p"
    using r(3) o visible_cong [of "file_of d fd" "file_of d' fd"]
    by (simp add: fetched_def page_bytes_def disk_step_def)
  moreover have "pinned (bp_page_table bp') m"
  proof (cases "resident (bp_page_table bp) fd p = Some m")
    case True
    then have e: "pte_ref_count (pte_of (bp_page_table bp) m) < 65535"
      "pte_of (bp_page_table bp') m = pte_of (bp_page_table bp) m + 1"
      using assms(7) r(3) by (simp_all add: fetched_def)
    then have "pte_ref_count (pte_of (bp_page_table bp') m) = pte_ref_count (pte_of (bp_page_table bp) m) + 1"
      by (simp add: inc_fields)
    moreover have "pte_ref_count (pte_of (bp_page_table bp) m) + 1 \<noteq> 0"
    proof
      assume "pte_ref_count (pte_of (bp_page_table bp) m) + 1 = 0"
      then have "pte_ref_count (pte_of (bp_page_table bp) m) = - 1" by (simp add: eq_neg_iff_add_eq_0)
      then show False using e(1) by simp
    qed
    ultimately show ?thesis by (simp add: pinned_def)
  qed (use r(3) in \<open>simp add: fetched_def pinned_def loaded_pte_fields\<close>)
  ultimately show ?thesis
    using r o assms(5) by (auto simp: fetched_def pinned_def)
qed

lemma FetchPageSync_transparent_witness:
  "\<exists>r m bp' d'. FetchPageSync 4 s3_ops list_queue (small_pool r) small_disk 1 0 = Inr (Some m, bp', d') \<and>
     pinned (bp_page_table bp') m \<and> page_bytes bp' d' 0 0 = page_bytes (small_pool r) small_disk 0 0"
proof -
  obtain r where r: "pool_ok s3_inv s3_cap (=) 0 (small_pool r) small_disk" by (rule small_pool_ok)
  have p: "GetPartitionId (pt_partitioner small_pt) q = 0" for q
    by (simp add: small_pt_sel GetPartitionId_def)
  show ?thesis
    using FetchPageSync_transparent [OF list_queue_laws r small_in_file(2), of 1]
      p small_disk_file(2) small_pt_held(2) small_resident
    by (simp add: small_pt_word small_pt_sel pinned_def EMPTY_PTE_ref) blast
qed

lemma pinned_no_free:
  assumes "pool_core rinv rcap qrep k bp d S free {}"
    and "\<And>m. m < frames (bp_page_table bp) \<Longrightarrow> pinned (bp_page_table bp) m"
  shows "free = []"
proof (rule ccontr)
  assume "free \<noteq> []"
  then obtain m where "m \<in> set free" by (cases free) auto
  then have "m < frames (bp_page_table bp)" "\<not> pinned (bp_page_table bp) m"
    using assms(1) by (auto simp: pool_core_def)
  then show False using assms(2) by blast
qed

text \<open>C17: when every frame of the pool is pinned, fetching a page that is not in memory does not report
  failure: the search for a victim runs into an assertion and aborts the process.\<close>

theorem FetchPageSync_aborts_when_pinned:
  assumes "fifo_laws qops qrep" "pool_ok s3_inv s3_cap qrep k bp d"
    and "pt_word (bp_page_table bp) fd p \<noteq> None" "resident (bp_page_table bp) fd p = None"
    and "\<And>m. m < frames (bp_page_table bp) \<Longrightarrow> pinned (bp_page_table bp) m"
  shows "FetchPageSync (Suc (Suc fuel)) s3_ops qops bp d p fd = Inl AssertFail"
proof -
  let ?pt = "bp_page_table bp"
  obtain S free where c: "pool_core s3_inv s3_cap qrep k bp d S free {}" and q: "quiet ?pt"
    using assms(2) by (auto simp: pool_ok_def)
  note wf = pool_coreD(1) [OF c]
  have w0: "pt_word ?pt fd p = Some (mword EMPTY_VALUE)"
    using resident_None [OF wf assms(3)] assms(4) q by (auto simp: quiet_def)
  let ?bp = "bp\<lparr>bp_page_table := set_word ?pt fd p (mword BUSY_VALUE)\<rparr>"
  have c1: "pool_core s3_inv s3_cap qrep k ?bp d S free {}"
    by (rule pool_core_set_slot(1) [OF c w0]; simp)
  have pin: "pinned (bp_page_table ?bp) m" if "m \<in> S" for m
    using assms(5) [OF pool_coreD(10) [OF c that]] by (simp add: pinned_def pt_simps)
  have f: "free = []" by (rule pinned_no_free [OF c assms(5)])
  have "s3_Victim (bp_replacer ?bp) (bp_page_table ?bp) = Inl AssertFail"
    by (rule s3_Victim_abort_law [OF pool_coreD(4,1) [OF c1] pool_coreD(8) [OF c1] pin])
  then have "initing_phase s3_ops qops \<lparr>fs_stat = Initing, fs_ret = None, fs_bp = ?bp, fs_disk = d\<rparr> = Inl AssertFail"
    using lq_Poll_empty [OF assms(1) pool_coreD(6) [OF c, unfolded f]]
    by (simp add: initing_phase_def s3_ops_def)
  then show ?thesis
    using Pin_miss [OF assms(3,4), of s3_ops] w0
    by (simp add: FetchPageSync_def fetch_step_def begin_phase_def pt_simps)
qed

text \<open>A pool of one frame, which holds page 0, pinned.\<close>

definition full_pt :: page_table where
  "full_pt = \<lparr>pt_mappings = [Some \<lparr>pm_mappings = [mword 0, mword EMPTY_VALUE], pm_size = 2\<rparr>],
     pt_partitioner = \<lparr>num_partitions = 1, log2_num_partitions = 0\<rparr>,
     pt_inner = \<lparr>pti_pool = [mk_pte 1 0 True True False 0], pti_num_pages = 1\<rparr>\<rparr>"

definition full_pool :: "sieve3 \<Rightarrow> (sieve3, frame list) buffer_pool" where
  "full_pool r = \<lparr>bp_pool_ID = 0, bp_pool_size = 1, bp_memory_pool = [replicate 4096 5],
     bp_page_table = full_pt, bp_replacer = r,
     bp_free_list = \<lparr>lq_queue = [], lq_size = 0, lq_capacity = 1\<rparr>\<rparr>"

lemma full_pt_sel:
  "pt_partitioner full_pt = \<lparr>num_partitions = 1, log2_num_partitions = 0\<rparr>"
  "frames full_pt = 1" "pte_of full_pt 0 = mk_pte 1 0 True True False 0"
  by (simp_all add: full_pt_def frames_def pte_of_def)

lemma full_pt_word: "pt_word full_pt fd p = pt_word small_pt fd p"
  by (simp add: pt_word_def full_pt_def small_pt_def)

lemmas full_pt_word' = full_pt_word [unfolded small_pt_word]

lemma full_pt_wf: "pt_wf 0 full_pt"
  by (auto simp: pt_wf_def full_pt_sel full_pt_word' slot_ok_def backed_def partitioner_wf_def
      BUSY_VALUE_def pt_simps GetPartitionId_def GetFPageIdInPartition_def mk_pte_def split: if_splits)

lemma s3_one:
  obtains r where "s3_inv r {0}" "s3_cap r = 1"
proof -
  obtain r0 where "s3_inv r0 {}" "s3_cap r0 = 1"
    using s3_new_inv [of 1 "\<lambda>_. 0"] by (auto simp: INVALID_INDEX_def)
  then show thesis using s3_Insert_ok [of r0 "{}" 0] that by auto
qed

lemma FetchPageSync_aborts_when_pinned_witness:
  "\<exists>bp. FetchPageSync 4 s3_ops list_queue bp small_disk 1 0 = Inl AssertFail"
proof -
  have f: "length (file_of small_disk 0) = 5000" "opened small_disk 0" "file_of small_disk 0 \<noteq> []"
    using small_disk_file by simp_all
  obtain r where r: "s3_inv r {0}" "s3_cap r = 1" by (rule s3_one)
  have fo: "frame_ok small_disk full_pt [replicate 4096 5] 0"
    using f by (simp add: frame_ok_def full_pt_sel in_file_def mk_pte_def pt_simps)
  have q: "quiet full_pt" "resident full_pt 0 1 = None" "pinned full_pt 0"
    using small_words_ne resident_None [OF full_pt_wf, of 0 1]
    by (auto simp: quiet_def full_pt_word' pinned_def full_pt_sel mk_pte_def pt_simps)
  have "pool_core s3_inv s3_cap (=) 0 (full_pool r) small_disk {0} [] {}"
    using r fo full_pt_wf small_disk_ok(2)
    by (auto simp: pool_core_def full_pool_def full_pt_sel lq_rep_def PAGE_SIZE_FILE_def held_def full_pt_word'
        mk_pte_def pt_simps)
  then have ok: "pool_ok s3_inv s3_cap (=) 0 (full_pool r) small_disk"
    using q by (auto simp: pool_ok_def) (simp add: full_pool_def)
  show ?thesis
    using FetchPageSync_aborts_when_pinned [OF list_queue_laws ok, of 0 1 2] q
    by (auto simp: full_pool_def full_pt_word' full_pt_sel numeral_eq_Suc)
qed

section \<open>Flushing\<close>

text \<open>A fetch of a page whose mapping is locked and stays locked never ends.\<close>

lemma fetch_busy:
  assumes "pt_word (bp_page_table bp) fd p = Some (mword BUSY_VALUE)"
  shows "FetchPageSync fuel ops qops bp d p fd = Inl OutOfFuel"
proof -
  have pin: "Pin ops bp p fd = Inr (None, bp)"
    using assms by (intro Pin_miss) (simp_all add: resident_def)
  have "fetch_loop fuel ops qops p fd \<lparr>fs_stat = Begin, fs_ret = None, fs_bp = bp, fs_disk = d\<rparr> = Inl OutOfFuel"
    using assms pin
    by (induction fuel) (simp_all add: fetch_step_def begin_phase_def pin_phase_def pt_simps BUSY_VALUE_def)
  then show ?thesis using pin by (simp add: FetchPageSync_def)
qed

text \<open>What flushing an unpinned page in memory does before it decides about deletion.\<close>

lemma flush_locked:
  assumes c: "pool_core rinv rcap qrep k bp d S free {}" and r: "resident (bp_page_table bp) fd p = Some m"
    and p: "GetPartitionId (pt_partitioner (bp_page_table bp)) p = k" and np: "\<not> pinned (bp_page_table bp) m"
  defines "w \<equiv> pte_of (bp_page_table bp) m"
  defines "pt' \<equiv> put_pte (set_word (bp_page_table bp) fd p (mword BUSY_VALUE)) m (set_dirty False (set_busy True w))"
  obtains d' where
    "FlushPage qops bp d p fd False = Inr (True, bp\<lparr>bp_page_table := pt'\<rparr>, d')"
    "FlushPage qops bp d p fd True = Inr (True, bp\<lparr>bp_page_table := set_word pt' fd p (mword EMPTY_VALUE),
       bp_free_list := snd (lq_Push qops (bp_free_list bp) m)\<rparr>, d')"
    "disk_step (pt_partitioner (bp_page_table bp)) k d d'"
    "visible (file_of d fd) p (page_at (file_of d' fd) (unat p)) = page_bytes bp d fd p"
    "\<And>fd' q. opened d fd' \<Longrightarrow> fd' \<noteq> fd \<or> q \<noteq> p \<Longrightarrow>
       page_at (file_of d' fd') (unat q) = page_at (file_of d fd') (unat q)"
proof -
  let ?pt = "bp_page_table bp"
  note wf = pool_coreD(1) [OF c] and dwf = pool_coreD(11) [OF c]
  note b = resident_backed [OF wf r p] and mS = resident_managed [OF c r]
  have m: "m < frames ?pt" and word: "pt_word ?pt fd p = Some (mword m)"
    using r by (simp_all add: resident_eq [OF wf])
  note id = frame_id [OF wf m]
  have len: "length (bp_memory_pool bp ! m) = PAGE_SIZE_FILE" by (rule pool_coreD(3) [OF c m])
  have fok: "in_file d fd p" "pte_dirty w \<or> visible (file_of d fd) p (bp_memory_pool bp ! m) =
      visible (file_of d fd) p (page_at (file_of d fd) (unat p))"
    using pool_coreD(9) [OF c mS] b(2,3) by (simp_all add: frame_ok_def w_def Let_def)
  have lock: "LockMapping ?pt fd p =
      Inr ((True, m), put_pte (set_word ?pt fd p (mword BUSY_VALUE)) m (set_busy True w))"
    using LockMapping_resident [OF word m pt_wfD(2) [OF wf]] b(5) np
    by (auto simp: lockable_def pinned_def w_def)
  define d' where "d' = (if pte_dirty w then disk_put d fd p (bp_memory_pool bp ! m) else d)"
  have clean: "set_dirty False (set_busy True w) = set_busy True w" if "\<not> pte_dirty w"
    using that by (auto intro!: bit_word_eqI simp: field_bits pte_dirty_def)
  have pages: "page_bytes bp d fd p = visible (file_of d fd) p (bp_memory_pool bp ! m)"
    by (simp add: page_bytes_def r)
  have o: "opened d fd" using fok(1) by (simp add: in_file_def)
  have busy: "pte_fd_cur (set_busy True w) = fd" "pte_dirty (set_busy True w) = pte_dirty w"
    using b(2) by (simp_all add: w_def pt_simps)
  show thesis
  proof (rule that [of d'])
    show "FlushPage qops bp d p fd False = Inr (True, bp\<lparr>bp_page_table := pt'\<rparr>, d')"
      "FlushPage qops bp d p fd True = Inr (True, bp\<lparr>bp_page_table := set_word pt' fd p (mword EMPTY_VALUE),
       bp_free_list := snd (lq_Push qops (bp_free_list bp) m)\<rparr>, d')"
      using lock m word id len clean busy pool_coreD(2) [OF c] Write_page_put [OF fok(1) len]
      by (simp_all add: FlushPage_def ReadWriteSync_def pt_simps pt'_def d'_def Let_def)
    show "disk_step (pt_partitioner ?pt) k d d'"
      using disk_put_step [OF dwf fok(1) p] dwf by (simp add: d'_def)
    show "visible (file_of d fd) p (page_at (file_of d' fd) (unat p)) = page_bytes bp d fd p"
      using fok page_at_disk_put(3) [OF dwf fok(1) o len] by (auto simp: d'_def pages)
    show "page_at (file_of d' fd') (unat q) = page_at (file_of d fd') (unat q)"
      if "opened d fd'" "fd' \<noteq> fd \<or> q \<noteq> p" for fd' q
      using page_at_disk_put(1) [OF dwf fok(1) that] by (simp add: d'_def)
  qed
qed

text \<open>C16: flushing an unpinned page in memory makes it persistent, but leaves its mapping locked: no later
  fetch of the page returns, however long its loop runs.\<close>

theorem FlushPage_leaves_page_locked:
  assumes "pool_ok s3_inv s3_cap qrep k bp d" "resident (bp_page_table bp) fd p = Some m"
    and "GetPartitionId (pt_partitioner (bp_page_table bp)) p = k" "\<not> pinned (bp_page_table bp) m"
  shows "\<exists>bp' d'. FlushPage qops bp d p fd False = Inr (True, bp', d') \<and>
    visible (file_of d fd) p (page_at (file_of d' fd) (unat p)) = page_bytes bp d fd p \<and>
    (\<forall>fuel. FetchPageSync fuel s3_ops qops bp' d' p fd = Inl OutOfFuel)"
proof -
  obtain S free where c: "pool_core s3_inv s3_cap qrep k bp d S free {}"
    using assms(1) by (auto simp: pool_ok_def)
  have "pt_word (bp_page_table bp) fd p = Some (mword m)"
    using assms(2) by (simp add: resident_eq [OF pool_coreD(1) [OF c]])
  then have "pt_word (put_pte (set_word (bp_page_table bp) fd p (mword BUSY_VALUE)) m v) fd p = Some (mword BUSY_VALUE)" for v
    by (simp add: pt_simps)
  then show ?thesis
    using flush_locked [OF c assms(2-4), of qops]
      fetch_busy [of "bp\<lparr>bp_page_table := put_pte (set_word (bp_page_table bp) fd p (mword BUSY_VALUE)) m v\<rparr>" fd p for v]
    by (metis buffer_pool.select_convs(4) buffer_pool.surjective buffer_pool.update_convs(4))
qed

lemma FlushPage_leaves_page_locked_witness:
  "\<exists>r bp' d'. FlushPage list_queue (small_pool r) small_disk 0 0 False = Inr (True, bp', d') \<and>
     (\<forall>fuel. FetchPageSync fuel s3_ops list_queue bp' d' 0 0 = Inl OutOfFuel)"
proof -
  obtain r where r: "pool_ok s3_inv s3_cap (=) 0 (small_pool r) small_disk" by (rule small_pool_ok)
  have "GetPartitionId (pt_partitioner small_pt) 0 = 0" by (simp add: small_pt_sel GetPartitionId_def)
  then show ?thesis
    using FlushPage_leaves_page_locked [OF r, of 0 0 0 list_queue] small_resident(1) small_pt_held(2) by auto
qed

end
