(* ===== verification/Requests.thy ===== *)
theory Requests
  imports Pool
begin

text \<open>
  The resumable fetches of a buffer pool (\<^verbatim>\<open>src/buffer_pool.cpp\<close>): \<open>FetchPageSync1\<close>, \<open>FetchPageSync2\<close>
  and \<open>FetchPageAsyncInner\<close> keep the state of one fetch in a request and return \<open>false\<close> where the
  caller may do other work; the caller calls again until they return \<open>true\<close>.  The last two leave the
  transfer to the I/O server (\<^verbatim>\<open>include/io_server.h\<close>), whose io_uring backend is a parameter: \<open>aio\<close>
  carries out a transfer, \<open>latency\<close> is the number of polls that find it unfinished.
\<close>

section \<open>Calls that are repeated until they are done\<close>

text \<open>
  A step answers \<open>None\<close> when the \<open>while (true) switch\<close> goes on, and \<open>Some b\<close> when the function returns
  \<open>b\<close>.  \<open>run_call\<close> is one call, \<open>run_until\<close> the loop \<open>while (!f(req));\<close> of the callers.
\<close>

fun run_call :: "nat \<Rightarrow> ('s \<Rightarrow> (bool option \<times> 's) res) \<Rightarrow> 's \<Rightarrow> (bool \<times> 's) res" where
  "run_call 0 step s = Inl OutOfFuel"
| "run_call (Suc fuel) step s =
     bindE (step s) (\<lambda>(r, s). case r of None \<Rightarrow> run_call fuel step s | Some b \<Rightarrow> Inr (b, s))"

fun run_until :: "nat \<Rightarrow> nat \<Rightarrow> ('s \<Rightarrow> (bool option \<times> 's) res) \<Rightarrow> 's \<Rightarrow> 's res" where
  "run_until 0 fuel step s = Inl OutOfFuel"
| "run_until (Suc n) fuel step s =
     bindE (run_call fuel step s) (\<lambda>(b, s). if b then Inr s else run_until n fuel step s)"

text \<open>\<open>runs step k s t\<close>: the \<open>k\<close>-th step from \<open>s\<close> is the first to return \<open>true\<close>, and ends in \<open>t\<close>.\<close>

inductive runs :: "('s \<Rightarrow> (bool option \<times> 's) res) \<Rightarrow> nat \<Rightarrow> 's \<Rightarrow> 's \<Rightarrow> bool"
  for step :: "'s \<Rightarrow> (bool option \<times> 's) res" where
  last: "step s = Inr (Some True, t) \<Longrightarrow> runs step 1 s t"
| more: "step s = Inr (r, s') \<Longrightarrow> r \<noteq> Some True \<Longrightarrow> runs step k s' t \<Longrightarrow> runs step (Suc k) s t"

lemmas runs_last = runs.last [unfolded One_nat_def]

inductive_cases runs_SucE: "runs step (Suc k) s t"

lemma runs_call:
  assumes "runs step k s t" "k \<le> j" "k \<le> fuel" "k \<le> n"
  shows "bindE (run_call j step s) (\<lambda>(b, s). if b then Inr s else run_until n fuel step s) = Inr t"
  using assms
proof (induction arbitrary: j n rule: runs.induct)
  case (last s t)
  then show ?case by (cases j) simp_all
next
  case (more s r s' k t)
  then obtain j' n' where jn: "j = Suc j'" "n = Suc n'" by (metis Suc_le_D)
  show ?case
  proof (cases r)
    case None
    with more jn show ?thesis by simp
  next
    case (Some b)
    with more have "\<not> b" by simp
    with more jn Some show ?thesis by simp
  qed
qed

lemma runs_until:
  assumes "runs step k s t" "k \<le> fuel" "k < n"
  shows "run_until n fuel step s = Inr t"
proof -
  obtain n' where "n = Suc n'" "k \<le> n'" using assms(3) by (metis Suc_le_eq less_eq_Suc_le lessE less_Suc_eq_le)
  then show ?thesis using runs_call [OF assms(1) assms(2,2)] by simp
qed

section \<open>The requests and their phases\<close>

datatype io_state = Commit | Poll | IO_End

record io_request =
  io_offset :: u64
  io_frame :: mpage_id
  io_fd :: file_handle
  io_read :: bool
  io_ctx :: io_state
  io_wait :: nat

record sync_request =
  sr_fd :: file_handle
  sr_fpage_id :: fpage_id
  sr_fpage_offset :: u64
  sr_page_id_in_block :: u32
  sr_runtime_phase :: phase
  sr_response :: "mpage_id option"
  sr_ssd_io_finished :: "io_request option"
  sr_is_inserted :: bool

definition sync_request_new :: "file_handle \<Rightarrow> fpage_id \<Rightarrow> u64 \<Rightarrow> u32 \<Rightarrow> sync_request" where
  "sync_request_new fd fpage_id fpage_offset page_id_in_block =
     \<lparr>sr_fd = fd, sr_fpage_id = fpage_id, sr_fpage_offset = fpage_offset,
      sr_page_id_in_block = page_id_in_block, sr_runtime_phase = Begin, sr_response = None,
      sr_ssd_io_finished = None, sr_is_inserted = False\<rparr>"

record async_request =
  ar_fd :: file_handle
  ar_file_offset :: u64
  ar_block_size :: u64
  ar_ssd_IO_req :: "io_request option"
  ar_runtime_phase :: phase
  ar_response :: "mpage_id option"
  ar_tmp :: pte

definition async_request_new :: "file_handle \<Rightarrow> u64 \<Rightarrow> u64 \<Rightarrow> async_request" where
  "async_request_new fd file_offset block_size =
     \<lparr>ar_fd = fd, ar_file_offset = file_offset, ar_block_size = block_size, ar_ssd_IO_req = None,
      ar_runtime_phase = Begin, ar_response = None, ar_tmp = 0\<rparr>"

text \<open>\<open>Init\<close> of a transfer between a file and a frame, and one round of the I/O server on it.\<close>

definition io_Init :: "(io_request \<Rightarrow> nat) \<Rightarrow> u64 \<Rightarrow> mpage_id \<Rightarrow> file_handle \<Rightarrow> bool \<Rightarrow> io_request" where
  "io_Init latency offset m fd is_read =
     (let io = \<lparr>io_offset = offset, io_frame = m, io_fd = fd, io_read = is_read, io_ctx = Commit, io_wait = 0\<rparr>
      in io\<lparr>io_wait := latency io\<rparr>)"

type_synonym ('r, 'q) aio = "('r, 'q) buffer_pool \<Rightarrow> disk \<Rightarrow> io_request \<Rightarrow> (('r, 'q) buffer_pool \<times> disk) res"

definition io_ProcessFunc ::
  "('r, 'q) aio \<Rightarrow> ('r, 'q) buffer_pool \<Rightarrow> disk \<Rightarrow> io_request \<Rightarrow>
   (bool \<times> io_request \<times> ('r, 'q) buffer_pool \<times> disk) res" where
  "io_ProcessFunc aio bp d io =
     (case io_ctx io of
        Commit \<Rightarrow> Inr (False, io\<lparr>io_ctx := Poll\<rparr>, bp, d)
      | Poll \<Rightarrow>
          if io_wait io = 0 then bindE (aio bp d io) (\<lambda>(bp, d). Inr (True, io\<lparr>io_ctx := IO_End\<rparr>, bp, d))
          else Inr (False, io\<lparr>io_wait := io_wait io - 1\<rparr>, bp, d)
      | IO_End \<Rightarrow> Inr (True, io, bp, d))"

definition ReadWriteAsync :: "(io_request \<Rightarrow> nat) \<Rightarrow> u64 \<Rightarrow> mpage_id \<Rightarrow> file_handle \<Rightarrow> bool \<Rightarrow> io_request" where
  "ReadWriteAsync latency offset m fd is_read = io_Init latency offset m fd is_read"

text \<open>The server runs the request until it posts the message that \<open>Wait\<close> is blocked on.\<close>

fun io_finish ::
  "nat \<Rightarrow> ('r, 'q) aio \<Rightarrow> ('r, 'q) buffer_pool \<Rightarrow> disk \<Rightarrow> io_request \<Rightarrow> (('r, 'q) buffer_pool \<times> disk) res" where
  "io_finish 0 aio bp d io = Inl OutOfFuel"
| "io_finish (Suc n) aio bp d io =
     bindE (io_ProcessFunc aio bp d io) (\<lambda>(finished, io, bp, d).
     if finished then Inr (bp, d) else io_finish n aio bp d io)"

definition io_Wait ::
  "('r, 'q) aio \<Rightarrow> ('r, 'q) buffer_pool \<Rightarrow> disk \<Rightarrow> io_request \<Rightarrow> (('r, 'q) buffer_pool \<times> disk) res" where
  "io_Wait aio bp d io = io_finish (io_wait io + 2) aio bp d io"

text \<open>Publishing a page that has been read: the second half of the phases that load.\<close>

definition publish_page ::
  "'r replacer_ops \<Rightarrow> fpage_id \<Rightarrow> file_handle \<Rightarrow> pte \<Rightarrow> ('r, 'q) fetch_state \<Rightarrow> ('r, 'q) fetch_state res" where
  "publish_page ops p fd tmp st =
     bindE (fs_frame st) (\<lambda>m.
     let bp = fs_bp st in
     bindE (FromPageId (bp_page_table bp) m) (\<lambda>_.
     let tmp = set_fd_cur fd (set_fpage_id_cur p (set_ref_count 1 tmp));
         bp = bp\<lparr>bp_page_table := put_pte (bp_page_table bp) m tmp\<rparr> in
     bindE (op_Insert ops (bp_replacer bp) m) (\<lambda>(ok, r).
     bindE (assertE ok) (\<lambda>_.
     let bp = bp\<lparr>bp_replacer := r\<rparr> in
     bindE (CreateMapping (bp_page_table bp) fd p m) (\<lambda>(ok, pt).
     bindE (assertE ok) (\<lambda>_.
     Inr (st\<lparr>fs_stat := End, fs_bp := bp\<lparr>bp_page_table := pt\<rparr>\<rparr>)))))))"

section \<open>The functions\<close>

definition begin_phase1 ::
  "'r replacer_ops \<Rightarrow> fpage_id \<Rightarrow> file_handle \<Rightarrow> bool option \<Rightarrow> ('r, 'q) fetch_state \<Rightarrow>
   (bool option \<times> ('r, 'q) fetch_state) res" where
  "begin_phase1 ops p fd after_pin st =
     bindE (LockMapping (bp_page_table (fs_bp st)) fd p) (\<lambda>((locked, m), pt).
     let st = st\<lparr>fs_bp := (fs_bp st)\<lparr>bp_page_table := pt\<rparr>\<rparr> in
     if locked then
       if m = EMPTY_VALUE then Inr (None, st\<lparr>fs_stat := Initing\<rparr>)
       else if m \<noteq> BUSY_VALUE then
         bindE (UnLockMapping pt fd p m) (\<lambda>(ok, pt).
         bindE (assertE ok) (\<lambda>_.
         bindE (pin_phase ops p fd (st\<lparr>fs_bp := (fs_bp st)\<lparr>bp_page_table := pt\<rparr>\<rparr>)) (\<lambda>st. Inr (None, st))))
       else Inl AssertFail
     else if m \<noteq> BUSY_VALUE then bindE (pin_phase ops p fd st) (\<lambda>st. Inr (after_pin, st))
     else Inr (None, st))"

text \<open>\<open>Initing\<close> with the answer given when a free frame was found.\<close>

definition initing_phase1 ::
  "'r replacer_ops \<Rightarrow> 'q queue_ops \<Rightarrow> bool option \<Rightarrow> ('r, 'q) fetch_state \<Rightarrow>
   (bool option \<times> ('r, 'q) fetch_state) res" where
  "initing_phase1 ops qops when_free st =
     bindE (initing_phase ops qops st) (\<lambda>st. Inr (if fs_stat st = Loading then when_free else None, st))"

definition fetch1_step ::
  "'r replacer_ops \<Rightarrow> 'q queue_ops \<Rightarrow> fpage_id \<Rightarrow> file_handle \<Rightarrow> ('r, 'q) fetch_state \<Rightarrow>
   (bool option \<times> ('r, 'q) fetch_state) res" where
  "fetch1_step ops qops p fd st =
     (case fs_stat st of
        Begin \<Rightarrow> begin_phase1 ops p fd None st
      | ReBegin \<Rightarrow> bindE (pin_phase ops p fd st) (\<lambda>st.
          Inr (if fs_ret st \<noteq> None then None else Some False, st))
      | Initing \<Rightarrow> initing_phase1 ops qops (Some False) st
      | Evicting \<Rightarrow> bindE (evicting_phase st) (\<lambda>st. Inr (Some False, st))
      | Loading \<Rightarrow> bindE (loading_phase ops p fd st) (\<lambda>st. Inr (Some True, st))
      | End \<Rightarrow> Inr (Some True, st)
      | _ \<Rightarrow> Inr (None, st))"

definition sr_state :: "sync_request \<Rightarrow> ('r, 'q) buffer_pool \<Rightarrow> disk \<Rightarrow> ('r, 'q) fetch_state" where
  "sr_state req bp d = \<lparr>fs_stat = sr_runtime_phase req, fs_ret = sr_response req, fs_bp = bp, fs_disk = d\<rparr>"

definition FetchPageSync1 ::
  "nat \<Rightarrow> 'r replacer_ops \<Rightarrow> 'q queue_ops \<Rightarrow> sync_request \<Rightarrow> ('r, 'q) buffer_pool \<Rightarrow> disk \<Rightarrow>
   (bool \<times> sync_request \<times> ('r, 'q) buffer_pool \<times> disk) res" where
  "FetchPageSync1 fuel ops qops req bp d =
     bindE (run_call fuel (fetch1_step ops qops (sr_fpage_id req) (sr_fd req)) (sr_state req bp d)) (\<lambda>(b, st).
     Inr (b, req\<lparr>sr_runtime_phase := fs_stat st, sr_response := fs_ret st\<rparr>, fs_bp st, fs_disk st))"

text \<open>The second form keeps the pending transfer beside the state of the fetch.\<close>

definition fetch2_step ::
  "('r, 'q) aio \<Rightarrow> (io_request \<Rightarrow> nat) \<Rightarrow> 'r replacer_ops \<Rightarrow> 'q queue_ops \<Rightarrow> fpage_id \<Rightarrow> file_handle \<Rightarrow>
   io_request option \<times> ('r, 'q) fetch_state \<Rightarrow> (bool option \<times> io_request option \<times> ('r, 'q) fetch_state) res" where
  "fetch2_step aio latency ops qops p fd = (\<lambda>(io, st).
     case fs_stat st of
        Begin \<Rightarrow> bindE (begin_phase1 ops p fd (Some False) st) (\<lambda>(r, st). Inr (r, io, st))
      | ReBegin \<Rightarrow> Inl AssertFail
      | Initing \<Rightarrow> bindE (initing_phase1 ops qops (Some False) st) (\<lambda>(r, st). Inr (r, io, st))
      | Evicting \<Rightarrow> bindE (evicting_phase st) (\<lambda>st. Inr (Some False, io, st))
      | Loading \<Rightarrow> bindE (fs_frame st) (\<lambda>m.
          Inr (Some False, Some (ReadWriteAsync latency (page_offset_of p) m fd True), st\<lparr>fs_stat := LoadingFinish\<rparr>))
      | LoadingFinish \<Rightarrow> (case io of None \<Rightarrow> Inl NullDeref | Some i \<Rightarrow>
          bindE (io_Wait aio (fs_bp st) (fs_disk st) i) (\<lambda>(bp, d).
          bindE (publish_page ops p fd (set_initialized True (pte_Clean 0)) (st\<lparr>fs_bp := bp, fs_disk := d\<rparr>)) (\<lambda>st.
          Inr (Some True, None, st))))
      | End \<Rightarrow> Inr (Some True, io, st)
      | _ \<Rightarrow> Inr (None, io, st))"

definition FetchPageSync2 ::
  "nat \<Rightarrow> ('r, 'q) aio \<Rightarrow> (io_request \<Rightarrow> nat) \<Rightarrow> 'r replacer_ops \<Rightarrow> 'q queue_ops \<Rightarrow> sync_request \<Rightarrow>
   ('r, 'q) buffer_pool \<Rightarrow> disk \<Rightarrow> (bool \<times> sync_request \<times> ('r, 'q) buffer_pool \<times> disk) res" where
  "FetchPageSync2 fuel aio latency ops qops req bp d =
     bindE (run_call fuel (fetch2_step aio latency ops qops (sr_fpage_id req) (sr_fd req))
       (sr_ssd_io_finished req, sr_state req bp d)) (\<lambda>(b, io, st).
     Inr (b, req\<lparr>sr_runtime_phase := fs_stat st, sr_response := fs_ret st, sr_ssd_io_finished := io\<rparr>,
       fs_bp st, fs_disk st))"

text \<open>The third form also leaves the write-back of a dirty victim to the I/O server.\<close>

type_synonym ('r, 'q) async_config = "async_request \<times> ('r, 'q) buffer_pool \<times> disk"

definition ar_state :: "('r, 'q) async_config \<Rightarrow> ('r, 'q) fetch_state" where
  "ar_state = (\<lambda>(req, bp, d). \<lparr>fs_stat = ar_runtime_phase req, fs_ret = ar_response req, fs_bp = bp, fs_disk = d\<rparr>)"

definition ar_put :: "async_request \<Rightarrow> ('r, 'q) fetch_state \<Rightarrow> ('r, 'q) async_config" where
  "ar_put req st = (req\<lparr>ar_runtime_phase := fs_stat st, ar_response := fs_ret st\<rparr>, fs_bp st, fs_disk st)"

definition ar_process ::
  "('r, 'q) aio \<Rightarrow> ('r, 'q) async_config \<Rightarrow> (bool \<times> ('r, 'q) async_config) res" where
  "ar_process aio = (\<lambda>(req, bp, d). case ar_ssd_IO_req req of None \<Rightarrow> Inl NullDeref | Some io \<Rightarrow>
     bindE (io_ProcessFunc aio bp d io) (\<lambda>(b, io, bp, d). Inr (b, req\<lparr>ar_ssd_IO_req := Some io\<rparr>, bp, d)))"

definition ar_victim :: "('r, 'q) async_config \<Rightarrow> (mpage_id \<times> pte) res" where
  "ar_victim c = bindE (fs_frame (ar_state c)) (\<lambda>m.
     bindE (FromPageId (bp_page_table (fst (snd c))) m) (\<lambda>w. Inr (m, w)))"

definition ar_unmap :: "('r, 'q) async_config \<Rightarrow> (bool option \<times> ('r, 'q) async_config) res" where
  "ar_unmap c = bindE (ar_victim c) (\<lambda>(m, w). case c of (req, bp, d) \<Rightarrow>
     bindE (DeleteMapping (bp_page_table bp) (pte_fd_cur w) (pte_fpage_id_cur w) m) (\<lambda>(ok, pt).
     bindE (assertE ok) (\<lambda>_.
     Inr (None, req\<lparr>ar_runtime_phase := Loading\<rparr>, bp\<lparr>bp_page_table := pt\<rparr>, d))))"

definition async_step ::
  "('r, 'q) aio \<Rightarrow> (io_request \<Rightarrow> nat) \<Rightarrow> 'r replacer_ops \<Rightarrow> 'q queue_ops \<Rightarrow> fpage_id \<Rightarrow> ('r, 'q) async_config \<Rightarrow>
   (bool option \<times> ('r, 'q) async_config) res" where
  "async_step aio latency ops qops p c =
     (case c of (req, bp, d) \<Rightarrow>
      case ar_runtime_phase req of
        Begin \<Rightarrow> bindE (begin_phase1 ops p (ar_fd req) (Some False) (ar_state c)) (\<lambda>(r, st). Inr (r, ar_put req st))
      | Rebegin \<Rightarrow> Inr (Some False, c)
      | Initing \<Rightarrow> bindE (initing_phase1 ops qops None (ar_state c)) (\<lambda>(r, st). Inr (r, ar_put req st))
      | Evicting \<Rightarrow> bindE (ar_victim c) (\<lambda>(m, w).
          if pte_dirty w then
            bindE (ar_process aio (req\<lparr>ar_ssd_IO_req := Some (io_Init latency (page_offset_of (pte_fpage_id_cur w)) m
              (pte_fd_cur w) False)\<rparr>, bp, d)) (\<lambda>(finished, req, bp, d).
            if \<not> finished then Inr (Some False, req\<lparr>ar_runtime_phase := EvictingFinish\<rparr>, bp, d)
            else ar_unmap (req, bp, d))
          else ar_unmap c)
      | EvictingFinish \<Rightarrow> bindE (ar_process aio c) (\<lambda>(finished, c).
          if \<not> finished then Inr (Some False, c) else ar_unmap c)
      | Loading \<Rightarrow> bindE (fs_frame (ar_state c)) (\<lambda>m.
          bindE (ar_process aio (req\<lparr>ar_tmp := pte_Clean (ar_tmp req), ar_runtime_phase := LoadingFinish,
            ar_ssd_IO_req := Some (io_Init latency (page_offset_of p) m (ar_fd req) True)\<rparr>, bp, d)) (\<lambda>(finished, c).
          bindE (assertE (\<not> finished)) (\<lambda>_. Inr (Some False, c))))
      | LoadingFinish \<Rightarrow> bindE (ar_process aio c) (\<lambda>(finished, c).
          if \<not> finished then Inr (Some False, c)
          else case c of (req, bp, d) \<Rightarrow>
            bindE (publish_page ops p (ar_fd req) (set_initialized True (ar_tmp req)) (ar_state c)) (\<lambda>st.
            Inr (None, ar_put (req\<lparr>ar_tmp := set_fd_cur (ar_fd req) (set_fpage_id_cur p
              (set_ref_count 1 (set_initialized True (ar_tmp req))))\<rparr>) st)))
      | End \<Rightarrow> Inr (Some True, c)
      | _ \<Rightarrow> Inr (None, c))"

definition FetchPageAsyncInner ::
  "nat \<Rightarrow> ('r, 'q) aio \<Rightarrow> (io_request \<Rightarrow> nat) \<Rightarrow> 'r replacer_ops \<Rightarrow> 'q queue_ops \<Rightarrow> ('r, 'q) async_config \<Rightarrow>
   (bool \<times> ('r, 'q) async_config) res" where
  "FetchPageAsyncInner fuel aio latency ops qops c =
     run_call fuel (async_step aio latency ops qops (ucast (drop_bit LOG_PAGE_SIZE_FILE (ar_file_offset (fst c))))) c"

section \<open>The callers' loops\<close>

fun fetch1_until ::
  "nat \<Rightarrow> nat \<Rightarrow> 'r replacer_ops \<Rightarrow> 'q queue_ops \<Rightarrow> sync_request \<Rightarrow> ('r, 'q) buffer_pool \<Rightarrow> disk \<Rightarrow>
   (sync_request \<times> ('r, 'q) buffer_pool \<times> disk) res" where
  "fetch1_until 0 fuel ops qops req bp d = Inl OutOfFuel"
| "fetch1_until (Suc n) fuel ops qops req bp d =
     bindE (FetchPageSync1 fuel ops qops req bp d) (\<lambda>(b, req, bp, d).
     if b then Inr (req, bp, d) else fetch1_until n fuel ops qops req bp d)"

fun fetch2_until ::
  "nat \<Rightarrow> nat \<Rightarrow> ('r, 'q) aio \<Rightarrow> (io_request \<Rightarrow> nat) \<Rightarrow> 'r replacer_ops \<Rightarrow> 'q queue_ops \<Rightarrow> sync_request \<Rightarrow>
   ('r, 'q) buffer_pool \<Rightarrow> disk \<Rightarrow> (sync_request \<times> ('r, 'q) buffer_pool \<times> disk) res" where
  "fetch2_until 0 fuel aio latency ops qops req bp d = Inl OutOfFuel"
| "fetch2_until (Suc n) fuel aio latency ops qops req bp d =
     bindE (FetchPageSync2 fuel aio latency ops qops req bp d) (\<lambda>(b, req, bp, d).
     if b then Inr (req, bp, d) else fetch2_until n fuel aio latency ops qops req bp d)"

fun async_until ::
  "nat \<Rightarrow> nat \<Rightarrow> ('r, 'q) aio \<Rightarrow> (io_request \<Rightarrow> nat) \<Rightarrow> 'r replacer_ops \<Rightarrow> 'q queue_ops \<Rightarrow>
   ('r, 'q) async_config \<Rightarrow> ('r, 'q) async_config res" where
  "async_until 0 fuel aio latency ops qops c = Inl OutOfFuel"
| "async_until (Suc n) fuel aio latency ops qops c =
     bindE (FetchPageAsyncInner fuel aio latency ops qops c) (\<lambda>(b, c).
     if b then Inr c else async_until n fuel aio latency ops qops c)"

lemma sr_state_put [simp]:
  "sr_state (req\<lparr>sr_runtime_phase := fs_stat st, sr_response := fs_ret st\<rparr>) (fs_bp st) (fs_disk st) = st"
  "sr_state (req\<lparr>sr_runtime_phase := fs_stat st, sr_response := fs_ret st, sr_ssd_io_finished := io\<rparr>)
     (fs_bp st) (fs_disk st) = st"
  by (simp_all add: sr_state_def)

lemma fetch1_until_eq:
  "fetch1_until n fuel ops qops req bp d =
     bindE (run_until n fuel (fetch1_step ops qops (sr_fpage_id req) (sr_fd req)) (sr_state req bp d)) (\<lambda>st.
     Inr (req\<lparr>sr_runtime_phase := fs_stat st, sr_response := fs_ret st\<rparr>, fs_bp st, fs_disk st))"
  by (induction n arbitrary: req bp d)
    (auto simp: FetchPageSync1_def bindE_assoc case_prod_unfold intro!: arg_cong2 [where f = bindE])

lemma fetch2_until_eq:
  "fetch2_until n fuel aio latency ops qops req bp d =
     bindE (run_until n fuel (fetch2_step aio latency ops qops (sr_fpage_id req) (sr_fd req))
       (sr_ssd_io_finished req, sr_state req bp d)) (\<lambda>(io, st).
     Inr (req\<lparr>sr_runtime_phase := fs_stat st, sr_response := fs_ret st, sr_ssd_io_finished := io\<rparr>, fs_bp st, fs_disk st))"
  by (induction n arbitrary: req bp d)
    (auto simp: FetchPageSync2_def bindE_assoc case_prod_unfold intro!: arg_cong2 [where f = bindE])

lemma async_step_keeps:
  "async_step aio latency ops qops p c = Inr (r, c') \<Longrightarrow> ar_file_offset (fst c') = ar_file_offset (fst c)"
  by (cases c) (auto simp: async_step_def bindE_eq_Inr ar_put_def ar_process_def ar_unmap_def
      split: phase.splits if_splits option.splits prod.splits)

section \<open>The three forms and \<open>FetchPageSync\<close> agree\<close>

lemma LockMapping_not_BUSY:
  assumes "LockMapping pt fd p = Inr ((True, m), pt')"
  shows "m \<noteq> BUSY_VALUE"
  using assms
  by (auto simp: LockMapping_def pm_LockMapping_def pm_update_def cas_seq_def LockMapping_body_def bindE_eq_Inr
      Let_def case_prod_unfold split: if_splits)

lemma begin_phase1_of:
  assumes "begin_phase ops p fd st = Inr st'"
  shows "\<exists>r. begin_phase1 ops p fd a st = Inr (r, st') \<and> (r = None \<or> r = a)"
proof -
  obtain locked m pt where l: "LockMapping (bp_page_table (fs_bp st)) fd p = Inr ((locked, m), pt)"
    using assms by (auto simp: begin_phase_def bindE_eq_Inr)
  then have "locked \<longrightarrow> m \<noteq> BUSY_VALUE" using LockMapping_not_BUSY by (cases locked) auto
  then show ?thesis
    using assms l by (cases locked) (auto simp: begin_phase_def begin_phase1_def bindE_eq_Inr Let_def split: if_splits)
qed

lemma begin_phase_next:
  "begin_phase ops p fd st = Inr st' \<Longrightarrow> fs_stat st = Begin \<Longrightarrow> fs_stat st' \<in> {Begin, Initing, End}"
  by (auto simp: begin_phase_def pin_phase_def bindE_eq_Inr Let_def split: if_splits prod.splits)

lemma initing_phase_next: "initing_phase ops qops st = Inr st' \<Longrightarrow> fs_stat st' \<in> {Loading, Evicting}"
  by (auto simp: initing_phase_def bindE_eq_Inr Let_def split: option.splits prod.splits)

lemma evicting_phase_next: "evicting_phase st = Inr st' \<Longrightarrow> fs_stat st' = Loading"
  by (auto simp: evicting_phase_def bindE_eq_Inr split: prod.splits)

lemma loading_phase_eq:
  "loading_phase ops p fd st =
     bindE (fs_frame st) (\<lambda>m.
     bindE (ReadWriteSync (fs_bp st) (fs_disk st) (page_offset_of p) m fd True) (\<lambda>(ok, bp, d).
     bindE (assertE ok) (\<lambda>_.
     publish_page ops p fd (set_initialized True (pte_Clean 0)) (st\<lparr>fs_bp := bp, fs_disk := d\<rparr>))))"
  by (cases "fs_ret st")
    (auto simp: loading_phase_def publish_page_def fs_frame_def Let_def case_prod_unfold bindE_assoc
      intro!: arg_cong2 [where f = bindE] ext)

lemma loading_phase_next: "loading_phase ops p fd st = Inr st' \<Longrightarrow> fs_stat st' = End"
  by (auto simp: loading_phase_def bindE_eq_Inr Let_def split: prod.splits)

text \<open>The phases that the loops pass through.\<close>

definition live :: "phase \<Rightarrow> bool" where
  "live ph \<longleftrightarrow> ph \<in> {Begin, Initing, Evicting, Loading, End}"

lemma fetch_step_cases:
  assumes "fetch_step ops qops p fd st = Inr (b, st')" "live (fs_stat st)"
  obtains "fs_stat st = Begin" "\<not> b" "begin_phase ops p fd st = Inr st'" "live (fs_stat st')"
  | "fs_stat st = Initing" "\<not> b" "initing_phase ops qops st = Inr st'" "live (fs_stat st')"
  | "fs_stat st = Evicting" "\<not> b" "evicting_phase st = Inr st'" "live (fs_stat st')"
  | "fs_stat st = Loading" b "loading_phase ops p fd st = Inr st'" "fs_stat st' = End"
  | "fs_stat st = End" b "st' = st"
proof (cases "fs_stat st")
  case Begin
  with assms begin_phase_next [of ops p fd st st'] show thesis
    by (intro that(1)) (auto simp: fetch_step_def live_def bindE_eq_Inr)
next
  case Initing
  with assms initing_phase_next [of ops qops st st'] show thesis
    by (intro that(2)) (auto simp: fetch_step_def live_def bindE_eq_Inr)
next
  case Evicting
  with assms evicting_phase_next [of st st'] show thesis
    by (intro that(3)) (auto simp: fetch_step_def live_def bindE_eq_Inr)
next
  case Loading
  with assms loading_phase_next [of ops p fd st st'] show thesis
    by (intro that(4)) (auto simp: fetch_step_def live_def bindE_eq_Inr)
next
  case End
  with assms show thesis by (intro that(5)) (simp_all add: fetch_step_def)
qed (use assms(2) in \<open>simp_all add: live_def\<close>)

lemma fetch_loop_end:
  "fetch_loop k ops qops p fd st = Inr st' \<Longrightarrow> live (fs_stat st) \<Longrightarrow> fs_stat st' = End"
proof (induction k arbitrary: st)
  case (Suc k)
  then obtain b s where s: "fetch_step ops qops p fd st = Inr (b, s)" "if b then st' = s else fetch_loop k ops qops p fd s = Inr st'"
    by (auto simp: bindE_eq_Inr split: if_splits)
  from s(1) Suc.prems(2) show ?case
    by (rule fetch_step_cases) (use s Suc.IH in auto)
qed simp

text \<open>One step of the plain loop is one step of the first form, which pauses where the code says so.\<close>

lemma fetch1_step_of:
  assumes "fetch_step ops qops p fd st = Inr (b, s)" "live (fs_stat st)"
  shows "\<exists>r. fetch1_step ops qops p fd st = Inr (r, s) \<and> (b \<longleftrightarrow> r = Some True)"
  using assms
proof (cases rule: fetch_step_cases)
  case 1
  then show ?thesis using begin_phase1_of [of ops p fd st s None] by (auto simp: fetch1_step_def)
qed (simp_all add: fetch1_step_def initing_phase1_def)

lemma fetch_loop_Suc:
  assumes "fetch_loop (Suc k) ops qops p fd st = Inr st'" "live (fs_stat st)"
  obtains b s where "fetch_step ops qops p fd st = Inr (b, s)" "live (fs_stat s)" "b \<Longrightarrow> s = st'"
    "\<not> b \<Longrightarrow> fetch_loop k ops qops p fd s = Inr st'"
proof -
  obtain b s where s: "fetch_step ops qops p fd st = Inr (b, s)"
    "if b then st' = s else fetch_loop k ops qops p fd s = Inr st'"
    using assms by (auto simp: bindE_eq_Inr split: if_splits)
  moreover have "live (fs_stat s)" using s(1) assms(2) by (cases rule: fetch_step_cases) (simp_all add: live_def)
  ultimately show thesis by (intro that [of b s]) auto
qed

lemma fetch1_runs:
  "fetch_loop k ops qops p fd st = Inr st' \<Longrightarrow> live (fs_stat st) \<Longrightarrow>
   \<exists>k'\<le>k. runs (fetch1_step ops qops p fd) k' st st'"
proof (induction k arbitrary: st)
  case (Suc k)
  obtain b s where s: "fetch_step ops qops p fd st = Inr (b, s)" "live (fs_stat s)" "b \<Longrightarrow> s = st'"
    "\<not> b \<Longrightarrow> fetch_loop k ops qops p fd s = Inr st'"
    using fetch_loop_Suc [OF Suc.prems] by blast
  obtain r where r: "fetch1_step ops qops p fd st = Inr (r, s)" "b \<longleftrightarrow> r = Some True"
    using fetch1_step_of [OF s(1) Suc.prems(2)] by blast
  show ?case
  proof (cases b)
    case True
    then show ?thesis using r s(3) runs.last [of "fetch1_step ops qops p fd"] by (intro exI [of _ 1]) simp
  next
    case False
    then show ?thesis using Suc.IH [OF s(4,2)] runs.more [of "fetch1_step ops qops p fd" st r s] r by (metis Suc_le_mono)
  qed
qed simp

text \<open>What the I/O server is relied on for: a transfer it carries out has the effect of the system call.\<close>

definition aio_ok :: "('r, 'q) aio \<Rightarrow> bool" where
  "aio_ok aio \<longleftrightarrow> (\<forall>bp d io bp' d'.
     ReadWriteSync bp d (io_offset io) (io_frame io) (io_fd io) (io_read io) = Inr (True, bp', d') \<longrightarrow>
     aio bp d io = Inr (bp', d'))"

definition syscall_aio :: "('r, 'q) aio" where
  "syscall_aio bp d io =
     bindE (ReadWriteSync bp d (io_offset io) (io_frame io) (io_fd io) (io_read io)) (\<lambda>(ok, bp, d).
     bindE (assertE ok) (\<lambda>_. Inr (bp, d)))"

lemma syscall_aio_ok: "aio_ok syscall_aio"
  by (simp add: aio_ok_def syscall_aio_def)

lemma io_finish_Poll:
  assumes "\<And>n. aio bp d (io\<lparr>io_ctx := Poll, io_wait := n\<rparr>) = Inr (bp', d')"
  shows "io_finish (Suc n) aio bp d (io\<lparr>io_ctx := Poll, io_wait := n\<rparr>) = Inr (bp', d')"
  using assms by (induction n) (simp_all add: io_ProcessFunc_def)

lemma io_Wait_ok:
  assumes "aio_ok aio" and "ReadWriteSync bp d offset m fd rd = Inr (True, bp', d')"
  shows "io_Wait aio bp d (ReadWriteAsync latency offset m fd rd) = Inr (bp', d')"
proof -
  have "aio bp d io = Inr (bp', d')" if "io_offset io = offset" "io_frame io = m" "io_fd io = fd" "io_read io = rd" for io
    using assms that by (auto simp: aio_ok_def)
  then show ?thesis
    using io_finish_Poll [of aio bp d "io_Init latency offset m fd rd" bp' d' "io_wait (io_Init latency offset m fd rd)"]
    by (simp add: io_Wait_def ReadWriteAsync_def io_ProcessFunc_def io_Init_def Let_def)
qed

lemma publish_page_stat:
  "publish_page ops p fd tmp (st\<lparr>fs_stat := ph, fs_bp := bp, fs_disk := d\<rparr>) =
   publish_page ops p fd tmp (st\<lparr>fs_bp := bp, fs_disk := d\<rparr>)"
  by (simp add: publish_page_def fs_frame_def cong: option.case_cong)

lemma loading_phase_parts:
  assumes "loading_phase ops p fd st = Inr st'"
  obtains m bp d where "fs_frame st = Inr m"
    "ReadWriteSync (fs_bp st) (fs_disk st) (page_offset_of p) m fd True = Inr (True, bp, d)"
    "publish_page ops p fd (set_initialized True (pte_Clean 0)) (st\<lparr>fs_bp := bp, fs_disk := d\<rparr>) = Inr st'"
  using assms by (auto simp: loading_phase_eq bindE_eq_Inr split: prod.splits)

lemma fetch2_step_of:
  assumes "fetch_step ops qops p fd st = Inr (b, s)" "live (fs_stat st)" "fs_stat st \<noteq> Loading"
  shows "\<exists>r. fetch2_step aio latency ops qops p fd (None, st) = Inr (r, None, s) \<and> (b \<longleftrightarrow> r = Some True)"
  using assms
proof (cases rule: fetch_step_cases)
  case 1
  then show ?thesis using begin_phase1_of [of ops p fd st s "Some False"] by (auto simp: fetch2_step_def)
qed (simp_all add: fetch2_step_def initing_phase1_def)

lemma fetch2_load:
  assumes "aio_ok aio" "fs_stat st = Loading" "loading_phase ops p fd st = Inr s"
  shows "runs (fetch2_step aio latency ops qops p fd) 2 (None, st) (None, s)"
proof -
  obtain m bp d where l: "fs_frame st = Inr m"
    "ReadWriteSync (fs_bp st) (fs_disk st) (page_offset_of p) m fd True = Inr (True, bp, d)"
    "publish_page ops p fd (set_initialized True (pte_Clean 0)) (st\<lparr>fs_bp := bp, fs_disk := d\<rparr>) = Inr s"
    using assms(3) by (rule loading_phase_parts)
  let ?io = "ReadWriteAsync latency (page_offset_of p) m fd True" and ?f = "fetch2_step aio latency ops qops p fd"
  have "?f (None, st) = Inr (Some False, Some ?io, st\<lparr>fs_stat := LoadingFinish\<rparr>)"
    using assms(2) l(1) by (simp add: fetch2_step_def)
  moreover have "?f (Some ?io, st\<lparr>fs_stat := LoadingFinish\<rparr>) = Inr (Some True, None, s)"
    using l io_Wait_ok [OF assms(1) l(2)] by (simp add: fetch2_step_def publish_page_stat)
  ultimately show ?thesis
    using runs.more [of ?f] runs.last [of ?f] by (metis Suc_1 option.inject)
qed

lemma fetch2_runs:
  assumes aio: "aio_ok aio"
  shows "fetch_loop k ops qops p fd st = Inr st' \<Longrightarrow> live (fs_stat st) \<Longrightarrow>
    \<exists>k'\<le>Suc k. runs (fetch2_step aio latency ops qops p fd) k' (None, st) (None, st')"
proof (induction k arbitrary: st)
  case (Suc k)
  let ?f = "fetch2_step aio latency ops qops p fd"
  obtain b s where s: "fetch_step ops qops p fd st = Inr (b, s)" "live (fs_stat s)" "b \<Longrightarrow> s = st'"
    "\<not> b \<Longrightarrow> fetch_loop k ops qops p fd s = Inr st'"
    using fetch_loop_Suc [OF Suc.prems] by blast
  show ?case
  proof (cases "fs_stat st = Loading")
    case True
    then have "loading_phase ops p fd st = Inr s" "b" using s(1) by (auto simp: fetch_step_def bindE_eq_Inr)
    then show ?thesis using fetch2_load [OF aio True] s(3) by (intro exI [of _ 2]) simp
  next
    case False
    then obtain r where r: "?f (None, st) = Inr (r, None, s)" "b \<longleftrightarrow> r = Some True"
      using fetch2_step_of [OF s(1) Suc.prems(2)] by blast
    show ?thesis
    proof (cases b)
      case True
      then show ?thesis using r s(3) runs.last [of ?f] by (intro exI [of _ 1]) simp
    next
      case False
      then show ?thesis using Suc.IH [OF s(4,2)] runs.more [of ?f "(None, st)" r "(None, s)"] r by (metis Suc_le_mono)
    qed
  qed
qed simp

text \<open>A fetch after a pin that failed.\<close>

lemma FetchPageSync_after_Pin:
  assumes "FetchPageSync k ops qops bp d p fd = Inr (ret, bp', d')" "Pin ops bp p fd = Inr (None, bp0)"
  shows "fetch_loop k ops qops p fd \<lparr>fs_stat = Begin, fs_ret = None, fs_bp = bp0, fs_disk = d\<rparr> =
    Inr \<lparr>fs_stat = End, fs_ret = ret, fs_bp = bp', fs_disk = d'\<rparr>"
  using assms fetch_loop_end [of k ops qops p fd "\<lparr>fs_stat = Begin, fs_ret = None, fs_bp = bp0, fs_disk = d\<rparr>"]
  by (auto simp: FetchPageSync_def bindE_eq_Inr live_def)

lemma fetch2_until_ok:
  assumes "aio_ok aio" "FetchPageSync k ops qops bp d p fd = Inr (ret, bp', d')" "Pin ops bp p fd = Inr (None, bp0)"
    and "k < fuel" "Suc k < n"
  shows "fetch2_until n fuel aio latency ops qops (sync_request_new fd p off i) bp0 d =
    Inr ((sync_request_new fd p off i)\<lparr>sr_runtime_phase := End, sr_response := ret\<rparr>, bp', d')"
proof -
  let ?st = "\<lparr>fs_stat = Begin, fs_ret = None, fs_bp = bp0, fs_disk = d\<rparr>"
  obtain k' where k': "k' \<le> Suc k" "runs (fetch2_step aio latency ops qops p fd) k' (None, ?st)
      (None, \<lparr>fs_stat = End, fs_ret = ret, fs_bp = bp', fs_disk = d'\<rparr>)"
    using fetch2_runs [OF assms(1) FetchPageSync_after_Pin [OF assms(2,3)]] by (auto simp: live_def)
  have "run_until n fuel (fetch2_step aio latency ops qops p fd) (None, ?st) =
      Inr (None, \<lparr>fs_stat = End, fs_ret = ret, fs_bp = bp', fs_disk = d'\<rparr>)"
    using k'(1) assms(4,5) by (intro runs_until [OF k'(2)]) simp_all
  then show ?thesis
    by (simp add: fetch2_until_eq sync_request_new_def sr_state_def)
qed

subsection \<open>The asynchronous form\<close>

lemma runs_polls:
  assumes "\<And>n. step (c (Suc n)) = Inr (Some False, c n)" "runs step k (c 0) t"
  shows "\<exists>k'. runs step k' (c n) t"
proof (induction n)
  case 0
  then show ?case using assms(2) by blast
next
  case (Suc n)
  then show ?case using runs.more [of step, OF assms(1)] by blast
qed

definition polling :: "async_request \<Rightarrow> io_request \<Rightarrow> nat \<Rightarrow> async_request" where
  "polling req io n = req\<lparr>ar_ssd_IO_req := Some (io\<lparr>io_ctx := Poll, io_wait := n\<rparr>)\<rparr>"

lemma polling_sel [simp]:
  "ar_runtime_phase (polling req io n) = ar_runtime_phase req" "ar_fd (polling req io n) = ar_fd req"
  "ar_response (polling req io n) = ar_response req" "ar_tmp (polling req io n) = ar_tmp req"
  by (simp_all add: polling_def)

lemma ar_process_polling:
  "ar_process aio (polling req io (Suc n), bp, d) = Inr (False, polling req io n, bp, d)"
  "(\<And>io'. io_offset io' = io_offset io \<Longrightarrow> io_frame io' = io_frame io \<Longrightarrow> io_fd io' = io_fd io \<Longrightarrow>
      io_read io' = io_read io \<Longrightarrow> aio bp d io' = Inr (bp', d')) \<Longrightarrow>
   ar_process aio (polling req io 0, bp, d) =
     Inr (True, req\<lparr>ar_ssd_IO_req := Some (io\<lparr>io_ctx := IO_End, io_wait := 0\<rparr>)\<rparr>, bp', d')"
  by (simp_all add: ar_process_def polling_def io_ProcessFunc_def)

lemma ar_process_Init:
  "ar_process aio (req\<lparr>ar_ssd_IO_req := Some (io_Init latency offset m fd rd)\<rparr>, bp, d) =
     Inr (False, polling req (io_Init latency offset m fd rd) (io_wait (io_Init latency offset m fd rd)), bp, d)"
  by (simp add: ar_process_def polling_def io_ProcessFunc_def io_Init_def Let_def)

lemma aio_of_sync:
  assumes "aio_ok aio" "ReadWriteSync bp d offset m fd rd = Inr (True, bp', d')"
    and "io_offset io = offset" "io_frame io = m" "io_fd io = fd" "io_read io = rd"
  shows "aio bp d io = Inr (bp', d')"
  using assms by (auto simp: aio_ok_def)

lemma io_Init_sel [simp]:
  "io_offset (io_Init latency offset m fd rd) = offset" "io_frame (io_Init latency offset m fd rd) = m"
  "io_fd (io_Init latency offset m fd rd) = fd" "io_read (io_Init latency offset m fd rd) = rd"
  by (simp_all add: io_Init_def Let_def)

lemma ReadWriteSync_write_pool:
  "ReadWriteSync bp d offset m fd False = Inr (ok, bp', d') \<Longrightarrow> bp' = bp"
  by (auto simp: ReadWriteSync_def bindE_eq_Inr)

lemma evicting_phase_parts:
  assumes "evicting_phase st = Inr st'"
  obtains m w d pt where "fs_frame st = Inr m" "FromPageId (bp_page_table (fs_bp st)) m = Inr w"
    "if pte_dirty w then ReadWriteSync (fs_bp st) (fs_disk st) (page_offset_of (pte_fpage_id_cur w)) m
       (pte_fd_cur w) False = Inr (True, fs_bp st, d) else d = fs_disk st"
    "DeleteMapping (bp_page_table (fs_bp st)) (pte_fd_cur w) (pte_fpage_id_cur w) m = Inr (True, pt)"
    "st' = st\<lparr>fs_stat := Loading, fs_bp := (fs_bp st)\<lparr>bp_page_table := pt\<rparr>, fs_disk := d\<rparr>"
proof -
  obtain m w where m: "fs_frame st = Inr m" "FromPageId (bp_page_table (fs_bp st)) m = Inr w"
    using assms by (auto simp: evicting_phase_def bindE_eq_Inr)
  show thesis
  proof (cases "pte_dirty w")
    case True
    then obtain bp d pt where *: "ReadWriteSync (fs_bp st) (fs_disk st) (page_offset_of (pte_fpage_id_cur w)) m
        (pte_fd_cur w) False = Inr (True, bp, d)"
      "DeleteMapping (bp_page_table bp) (pte_fd_cur w) (pte_fpage_id_cur w) m = Inr (True, pt)"
      "st' = st\<lparr>fs_stat := Loading, fs_bp := bp\<lparr>bp_page_table := pt\<rparr>, fs_disk := d\<rparr>"
      using assms m by (auto simp: evicting_phase_def bindE_eq_Inr)
    have "bp = fs_bp st" using *(1) by (rule ReadWriteSync_write_pool)
    then show thesis using m True * by (intro that [of m w d pt]) simp_all
  next
    case False
    then show thesis using assms m that [of m w "fs_disk st"] by (auto simp: evicting_phase_def bindE_eq_Inr)
  qed
qed

lemma async_evict:
  assumes aio: "aio_ok aio" and st: "ar_state (req, bp, d) = st" "fs_stat st = Evicting" and e: "evicting_phase st = Inr s"
    and cont: "\<And>req'. ar_fd req' = ar_fd req \<Longrightarrow> ar_state (req', fs_bp s, fs_disk s) = s \<Longrightarrow>
      \<exists>k t. runs (async_step aio latency ops qops p) k (req', fs_bp s, fs_disk s) t \<and> Q t"
  shows "\<exists>k t. runs (async_step aio latency ops qops p) k (req, bp, d) t \<and> Q t"
proof -
  let ?f = "async_step aio latency ops qops p"
  obtain m w d' pt where e': "fs_frame st = Inr m" "FromPageId (bp_page_table (fs_bp st)) m = Inr w"
    "if pte_dirty w then ReadWriteSync (fs_bp st) (fs_disk st) (page_offset_of (pte_fpage_id_cur w)) m
       (pte_fd_cur w) False = Inr (True, fs_bp st, d') else d' = fs_disk st"
    "DeleteMapping (bp_page_table (fs_bp st)) (pte_fd_cur w) (pte_fpage_id_cur w) m = Inr (True, pt)"
    "s = st\<lparr>fs_stat := Loading, fs_bp := (fs_bp st)\<lparr>bp_page_table := pt\<rparr>, fs_disk := d'\<rparr>"
    using e by (rule evicting_phase_parts)
  have bd: "fs_bp st = bp" "fs_disk st = d" "ar_runtime_phase req = Evicting" "ar_response req = fs_ret st"
    using st by (auto simp: ar_state_def)
  have unmap: "ar_unmap (req', bp, d') = Inr (None, req'\<lparr>ar_runtime_phase := Loading\<rparr>, fs_bp s, fs_disk s)"
    "\<exists>k t. runs ?f k (req'\<lparr>ar_runtime_phase := Loading\<rparr>, fs_bp s, fs_disk s) t \<and> Q t"
    if "ar_response req' = ar_response req" "ar_fd req' = ar_fd req" for req'
  proof -
    show "ar_unmap (req', bp, d') = Inr (None, req'\<lparr>ar_runtime_phase := Loading\<rparr>, fs_bp s, fs_disk s)"
      using e' that bd by (simp add: ar_unmap_def ar_victim_def ar_state_def fs_frame_def)
    show "\<exists>k t. runs ?f k (req'\<lparr>ar_runtime_phase := Loading\<rparr>, fs_bp s, fs_disk s) t \<and> Q t"
      using e'(5) that bd by (intro cont) (simp_all add: ar_state_def)
  qed
  have v: "ar_victim (req, bp, d) = Inr (m, w)"
    using e'(1,2) bd by (simp add: ar_victim_def ar_state_def fs_frame_def)
  show ?thesis
  proof (cases "pte_dirty w")
    case False
    then have "?f (req, bp, d) = ar_unmap (req, bp, d')" using v bd e'(3) by (simp add: async_step_def)
    then show ?thesis using unmap [of req] runs.more [of ?f] by (metis option.distinct(1))
  next
    case True
    let ?io = "io_Init latency (page_offset_of (pte_fpage_id_cur w)) m (pte_fd_cur w) False"
    let ?req = "req\<lparr>ar_runtime_phase := EvictingFinish\<rparr>"
    have "?f (req, bp, d) = Inr (Some False, polling ?req ?io (io_wait ?io), bp, d)"
      using v bd True by (simp add: async_step_def ar_process_Init polling_def)
    moreover have "?f (polling ?req ?io (Suc n), bp, d) = Inr (Some False, polling ?req ?io n, bp, d)" for n
      by (simp add: async_step_def ar_process_polling(1))
    moreover have "?f (polling ?req ?io 0, bp, d) =
        ar_unmap (?req\<lparr>ar_ssd_IO_req := Some (?io\<lparr>io_ctx := IO_End, io_wait := 0\<rparr>)\<rparr>, bp, d')"
      using True e'(3) bd
      by (subst async_step_def) (simp add: ar_process_polling(2) [OF aio_of_sync [OF aio]])
    ultimately show ?thesis
      using unmap [of "?req\<lparr>ar_ssd_IO_req := Some (?io\<lparr>io_ctx := IO_End, io_wait := 0\<rparr>)\<rparr>"]
        runs.more [of ?f] runs_polls [of ?f "\<lambda>n. (polling ?req ?io n, bp, d)"]
      by simp (metis option.distinct(1) option.inject)
  qed
qed

lemma async_load:
  assumes aio: "aio_ok aio" and st: "ar_state (req, bp, d) = st" "fs_stat st = Loading"
    and l: "loading_phase ops p (ar_fd req) st = Inr s"
  shows "\<exists>k req'. runs (async_step aio latency ops qops p) k (req, bp, d) (req', fs_bp s, fs_disk s) \<and>
    ar_state (req', fs_bp s, fs_disk s) = s"
proof -
  let ?f = "async_step aio latency ops qops p" and ?fd = "ar_fd req"
  obtain m bp1 d1 where l': "fs_frame st = Inr m"
    "ReadWriteSync (fs_bp st) (fs_disk st) (page_offset_of p) m ?fd True = Inr (True, bp1, d1)"
    "publish_page ops p ?fd (set_initialized True (pte_Clean 0)) (st\<lparr>fs_bp := bp1, fs_disk := d1\<rparr>) = Inr s"
    using l by (rule loading_phase_parts)
  have bd: "fs_bp st = bp" "fs_disk st = d" "ar_runtime_phase req = Loading" "ar_response req = fs_ret st"
    using st by (auto simp: ar_state_def)
  let ?io = "io_Init latency (page_offset_of p) m ?fd True"
  let ?req = "req\<lparr>ar_tmp := EMPTY_PTE, ar_runtime_phase := LoadingFinish\<rparr>"
  let ?req1 = "?req\<lparr>ar_ssd_IO_req := Some (?io\<lparr>io_ctx := IO_End, io_wait := 0\<rparr>),
    ar_tmp := set_fd_cur ?fd (set_fpage_id_cur p (set_ref_count 1 (set_initialized True EMPTY_PTE)))\<rparr>"
  have 1: "?f (req, bp, d) = Inr (Some False, polling ?req ?io (io_wait ?io), bp, d)"
    using l'(1) bd st(1) by (simp add: async_step_def ar_process_Init polling_def pte_Clean_def)
  have 2: "?f (polling ?req ?io (Suc n), bp, d) = Inr (Some False, polling ?req ?io n, bp, d)" for n
    by (simp add: async_step_def ar_process_polling(1))
  have fin: "st\<lparr>fs_stat := LoadingFinish, fs_bp := bp1, fs_disk := d1\<rparr> =
      \<lparr>fs_stat = LoadingFinish, fs_ret = fs_ret st, fs_bp = bp1, fs_disk = d1\<rparr>" by simp
  have pub: "publish_page ops p ?fd (set_initialized True EMPTY_PTE)
      \<lparr>fs_stat = LoadingFinish, fs_ret = fs_ret st, fs_bp = bp1, fs_disk = d1\<rparr> = Inr s"
    using l'(3) unfolding fin [symmetric] publish_page_stat pte_Clean_def .
  have 3: "?f (polling ?req ?io 0, bp, d) = Inr (None, ar_put ?req1 s)"
    using l'(2) bd pub
    by (subst async_step_def) (simp add: ar_process_polling(2) [OF aio_of_sync [OF aio]] ar_state_def)
  have e: "fs_stat s = End" using l by (rule loading_phase_next)
  have s': "ar_state (ar_put ?req1 s) = s" by (simp add: ar_state_def ar_put_def)
  have 4: "runs ?f 1 (ar_put ?req1 s) (ar_put ?req1 s)"
    using e by (intro runs.last) (simp add: async_step_def ar_put_def)
  have "\<exists>k. runs ?f k (polling ?req ?io (io_wait ?io), bp, d) (ar_put ?req1 s)"
    using 2 runs.more [of ?f, OF 3 _ 4] by (intro runs_polls [of ?f "\<lambda>n. (polling ?req ?io n, bp, d)"]) auto
  then have "\<exists>k. runs ?f k (req, bp, d) (ar_put ?req1 s)" using runs.more [of ?f, OF 1] by blast
  then show ?thesis using s' by (auto simp: ar_put_def)
qed

lemma async_step_other:
  assumes "fetch_step ops qops p (ar_fd req) st = Inr (b, s)" "live (fs_stat st)" "ar_state (req, bp, d) = st"
    and "fs_stat st \<notin> {Loading, Evicting}"
  shows "\<exists>r. async_step aio latency ops qops p (req, bp, d) = Inr (r, if b then (req, bp, d) else ar_put req s) \<and>
    (b \<longleftrightarrow> r = Some True)"
proof -
  have ph: "ar_runtime_phase req = fs_stat st" using assms(3) by (auto simp: ar_state_def)
  from assms(1,2) show ?thesis
  proof (cases rule: fetch_step_cases)
    case 1
    then show ?thesis
      using begin_phase1_of [of ops p "ar_fd req" st s "Some False"] ph assms(3) by (auto simp: async_step_def)
  qed (use ph assms(3,4) in \<open>simp_all add: async_step_def initing_phase1_def\<close>)
qed

lemma async_runs:
  assumes aio: "aio_ok aio"
  shows "fetch_loop k ops qops p fd st = Inr st' \<Longrightarrow> live (fs_stat st) \<Longrightarrow> ar_fd req = fd \<Longrightarrow>
    ar_state (req, bp, d) = st \<Longrightarrow>
    \<exists>k' req'. runs (async_step aio latency ops qops p) k' (req, bp, d) (req', fs_bp st', fs_disk st') \<and>
      ar_state (req', fs_bp st', fs_disk st') = st'"
proof (induction k arbitrary: st req bp d)
  case (Suc k)
  let ?f = "async_step aio latency ops qops p"
  let ?goal = "\<lambda>req bp d. \<exists>k' req'. runs ?f k' (req, bp, d) (req', fs_bp st', fs_disk st') \<and>
      ar_state (req', fs_bp st', fs_disk st') = st'"
  obtain b s where s: "fetch_step ops qops p fd st = Inr (b, s)" "live (fs_stat s)" "b \<Longrightarrow> s = st'"
    "\<not> b \<Longrightarrow> fetch_loop k ops qops p fd s = Inr st'"
    using fetch_loop_Suc [OF Suc.prems(1,2)] by blast
  consider "fs_stat st = Loading" | "fs_stat st = Evicting" | "fs_stat st \<notin> {Loading, Evicting}" by blast
  then show ?case
  proof cases
    case 1
    then have "loading_phase ops p fd st = Inr s" "b" using s(1) by (auto simp: fetch_step_def bindE_eq_Inr)
    then show ?thesis using async_load [OF aio Suc.prems(4) 1, of ops p s] Suc.prems(3) s(3) by blast
  next
    case 2
    then have e: "evicting_phase st = Inr s" "\<not> b" using s(1) by (auto simp: fetch_step_def bindE_eq_Inr)
    have g: "?goal req' (fs_bp s) (fs_disk s)" if "ar_fd req' = ar_fd req" "ar_state (req', fs_bp s, fs_disk s) = s" for req'
      using Suc.IH [OF s(4) [OF e(2)] s(2)] that Suc.prems(3) by simp
    have "\<exists>k' t. runs ?f k' (req, bp, d) t \<and> (\<exists>req'. t = (req', fs_bp st', fs_disk st') \<and>
        ar_state (req', fs_bp st', fs_disk st') = st')"
      by (rule async_evict [OF aio Suc.prems(4) 2 e(1)]) (use g in blast)
    then show ?thesis by blast
  next
    case 3
    then obtain r where r: "?f (req, bp, d) = Inr (r, if b then (req, bp, d) else ar_put req s)" "b \<longleftrightarrow> r = Some True"
      using async_step_other [of ops qops p req st b s bp d aio latency] s(1) Suc.prems by auto
    show ?thesis
    proof (cases b)
      case True
      then have "st = st'" using s(1,3) 3 by (auto simp: fetch_step_def bindE_eq_Inr split: phase.splits)
      then have e: "fs_bp st' = bp" "fs_disk st' = d" "ar_state (req, bp, d) = st'"
        using Suc.prems(4) by (auto simp: ar_state_def)
      have "runs ?f 1 (req, bp, d) (req, bp, d)" using r True by (intro runs.last) simp
      then show ?thesis using e by auto
    next
      case False
      have "?goal (req\<lparr>ar_runtime_phase := fs_stat s, ar_response := fs_ret s\<rparr>) (fs_bp s) (fs_disk s)"
        by (rule Suc.IH [OF s(4) [OF False] s(2)]) (use Suc.prems(3) in \<open>simp_all add: ar_state_def\<close>)
      then obtain k' req' where k: "runs ?f k' (ar_put req s) (req', fs_bp st', fs_disk st')"
        "ar_state (req', fs_bp st', fs_disk st') = st'" by (auto simp: ar_put_def)
      have "runs ?f (Suc k') (req, bp, d) (req', fs_bp st', fs_disk st')"
        using r False by (intro runs.more [OF _ _ k(1)]) auto
      then show ?thesis using k(2) by blast
    qed
  qed
qed simp

text \<open>The resumable fetch \<open>FetchPageSync1\<close>, called again until it returns \<open>true\<close>, gives the same frame, pool
  and files as one call of \<open>FetchPageSync\<close>.\<close>

theorem FetchPageSync1_equals_FetchPageSync:
  assumes "FetchPageSync k ops qops bp d p fd = Inr (ret, bp', d')" "Pin ops bp p fd = Inr (None, bp0)"
    and "k \<le> fuel" "k < n"
  shows "fetch1_until n fuel ops qops (sync_request_new fd p off i) bp0 d =
    Inr ((sync_request_new fd p off i)\<lparr>sr_runtime_phase := End, sr_response := ret\<rparr>, bp', d')"
proof -
  let ?st = "\<lparr>fs_stat = Begin, fs_ret = None, fs_bp = bp0, fs_disk = d\<rparr>"
  obtain k' where k': "k' \<le> k" "runs (fetch1_step ops qops p fd) k' ?st
      \<lparr>fs_stat = End, fs_ret = ret, fs_bp = bp', fs_disk = d'\<rparr>"
    using fetch1_runs [OF FetchPageSync_after_Pin [OF assms(1,2)]] by (auto simp: live_def)
  have "run_until n fuel (fetch1_step ops qops p fd) ?st = Inr \<lparr>fs_stat = End, fs_ret = ret, fs_bp = bp', fs_disk = d'\<rparr>"
    using k'(1) assms(3,4) by (intro runs_until [OF k'(2)]) simp_all
  then show ?thesis
    by (simp add: fetch1_until_eq sync_request_new_def sr_state_def)
qed

text \<open>A pool and a page that is not in memory, for the witnesses.\<close>

lemma small_fetch:
  obtains r m bp' d' where "FetchPageSync 4 s3_ops list_queue (small_pool r) small_disk 1 0 = Inr (Some m, bp', d')"
    "Pin s3_ops (small_pool r) 1 0 = Inr (None, small_pool r)"
proof -
  obtain r where r: "pool_ok s3_inv s3_cap (=) 0 (small_pool r) small_disk" by (rule small_pool_ok)
  have p: "GetPartitionId (pt_partitioner small_pt) q = 0" for q
    by (simp add: small_pt_sel GetPartitionId_def)
  have res: "resident small_pt 0 1 = None" using small_resident(2) by simp
  obtain m bp' d' where "FetchPageSync 4 s3_ops list_queue (small_pool r) small_disk 1 0 = Inr (Some m, bp', d')"
    by (rule sieve3.fetch_ok [OF list_queue_laws r small_in_file(2), of 4])
      (use p res small_pt_held(2) in \<open>auto simp: small_pt_word small_pt_sel pinned_def intro!: exI [of _ 0]\<close>)
  moreover have "Pin s3_ops (small_pool r) 1 0 = Inr (None, small_pool r)"
    using res by (intro Pin_miss) (simp_all add: small_pt_word)
  ultimately show thesis using that by blast
qed

lemma FetchPageSync1_equals_FetchPageSync_witness:
  "\<exists>r m bp' d'. fetch1_until 5 4 s3_ops list_queue (sync_request_new 0 1 0 0) (small_pool r) small_disk =
     Inr ((sync_request_new 0 1 0 0)\<lparr>sr_runtime_phase := End, sr_response := Some m\<rparr>, bp', d')"
proof -
  obtain r m bp' d' where f: "FetchPageSync 4 s3_ops list_queue (small_pool r) small_disk 1 0 = Inr (Some m, bp', d')"
    "Pin s3_ops (small_pool r) 1 0 = Inr (None, small_pool r)" by (rule small_fetch)
  show ?thesis
    using FetchPageSync1_equals_FetchPageSync [OF f, of 4 5 0 0] by auto
qed

text \<open>The same for \<open>FetchPageSync2\<close>, which leaves the read to the I/O server, however long the server takes.\<close>

theorem FetchPageSync2_equals_FetchPageSync:
  assumes "aio_ok aio" "FetchPageSync k ops qops bp d p fd = Inr (ret, bp', d')" "Pin ops bp p fd = Inr (None, bp0)"
    and "k < fuel" "Suc k < n"
  shows "fetch2_until n fuel aio latency ops qops (sync_request_new fd p off i) bp0 d =
    Inr ((sync_request_new fd p off i)\<lparr>sr_runtime_phase := End, sr_response := ret\<rparr>, bp', d')"
  by (rule fetch2_until_ok [OF assms])

lemma FetchPageSync2_equals_FetchPageSync_witness:
  "\<exists>r m bp' d'. fetch2_until 6 5 syscall_aio (\<lambda>_. 3) s3_ops list_queue (sync_request_new 0 1 0 0) (small_pool r)
     small_disk = Inr ((sync_request_new 0 1 0 0)\<lparr>sr_runtime_phase := End, sr_response := Some m\<rparr>, bp', d')"
proof -
  obtain r m bp' d' where f: "FetchPageSync 4 s3_ops list_queue (small_pool r) small_disk 1 0 = Inr (Some m, bp', d')"
    "Pin s3_ops (small_pool r) 1 0 = Inr (None, small_pool r)" by (rule small_fetch)
  show ?thesis
    using FetchPageSync2_equals_FetchPageSync [OF syscall_aio_ok f, of 5 6 "\<lambda>_. 3" 0 0] by auto
qed

lemma async_until_eq:
  "async_until n fuel aio latency ops qops c =
     run_until n fuel (async_step aio latency ops qops (ucast (drop_bit LOG_PAGE_SIZE_FILE (ar_file_offset (fst c))))) c"
proof (induction n arbitrary: c)
  case (Suc n)
  let ?f = "\<lambda>c. async_step aio latency ops qops (ucast (drop_bit LOG_PAGE_SIZE_FILE (ar_file_offset (fst c))))"
  have "run_call k (?f c0) c = Inr (b, c') \<Longrightarrow> ar_file_offset (fst c') = ar_file_offset (fst c)" for k b c c' c0
    by (induction k arbitrary: c) (auto simp: bindE_eq_Inr dest: async_step_keeps split: option.splits)
  then have "?f c' = ?f c" if "run_call fuel (?f c) c = Inr (b, c')" for b c' using that by metis
  then show ?case
    by (cases "run_call fuel (?f c) c") (auto simp: FetchPageAsyncInner_def Suc.IH)
qed simp

text \<open>The asynchronous fetch of a page that could not be pinned, as a run of its steps.\<close>

lemma async_fetch_runs:
  assumes "aio_ok aio" "FetchPageSync k ops qops bp d p fd = Inr (ret, bp', d')" "Pin ops bp p fd = Inr (None, bp0)"
  obtains k' req where "runs (async_step aio latency ops qops p) k' (async_request_new fd off bs, bp0, d) (req, bp', d')"
    "ar_response req = ret" "ar_runtime_phase req = End"
proof -
  let ?st = "\<lparr>fs_stat = Begin, fs_ret = None, fs_bp = bp0, fs_disk = d\<rparr>"
  let ?st' = "\<lparr>fs_stat = End, fs_ret = ret, fs_bp = bp', fs_disk = d'\<rparr>"
  have "ar_state (async_request_new fd off bs, bp0, d) = ?st"
    by (simp add: ar_state_def async_request_new_def)
  from async_runs [OF assms(1) FetchPageSync_after_Pin [OF assms(2,3)] _ _ this, where latency = latency]
  obtain k' req where "runs (async_step aio latency ops qops p) k' (async_request_new fd off bs, bp0, d) (req, bp', d')"
    "ar_state (req, bp', d') = ?st'"
    by (auto simp: live_def async_request_new_def)
  then show thesis using that [of k' req] by (simp add: ar_state_def)
qed



end
