(* ===== verification/Access.thy ===== *)
theory Access
  imports Fetch
begin

text \<open>
  One access to a page: fetch it, read or overwrite its frame, and release it.  Every operation of the
  buffer pool manager on blocks is a sequence of such accesses.  A pool has room when some frame is
  unpinned and no entry is at the limit of its reference count; an access keeps room.
\<close>

definition has_room :: "page_table \<Rightarrow> bool" where
  "has_room pt \<longleftrightarrow> (\<exists>m < frames pt. \<not> pinned pt m) \<and>
     (\<forall>m < frames pt. pte_ref_count (pte_of pt m) < 65535)"

lemma has_room_cong:
  assumes "frames pt' = frames pt" "\<And>m. m < frames pt \<Longrightarrow> pte_ref_count (pte_of pt' m) = pte_ref_count (pte_of pt m)"
  shows "has_room pt' = has_room pt"
  unfolding has_room_def pinned_def using assms by auto

text \<open>Releasing the entry that a fetch has pinned.\<close>

lemma release_pte:
  assumes "pte_ref_count w \<noteq> 0"
  shows "same_page (DecRefCount w) w" "pte_dirty (DecRefCount w) = pte_dirty w"
    "pte_ref_count (DecRefCount w) = pte_ref_count w - 1"
    "same_page (DecRefCount_write True False w) w" "pte_dirty (DecRefCount_write True False w)"
    "pte_ref_count (DecRefCount_write True False w) = pte_ref_count w - 1"
proof -
  show "same_page (DecRefCount w) w" "pte_dirty (DecRefCount w) = pte_dirty w"
    "pte_ref_count (DecRefCount w) = pte_ref_count w - 1"
    using dec_fields [OF assms] by (simp_all add: DecRefCount_def same_page_def)
  let ?v = "DecRefCount_write True False w"
  have "ToUnpacked ?v = (ToUnpacked w)\<lparr>ref_count := pte_ref_count w - 1, dirty := True\<rparr>"
    using DecRefCount_write_unpacked [OF assms, of True False] by simp
  then show "same_page ?v w" "pte_dirty ?v" "pte_ref_count ?v = pte_ref_count w - 1"
    by (simp_all add: ToUnpacked_def same_page_def)
qed

lemma pool_core_write:
  assumes c: "pool_core rinv rcap qrep k bp d S free T" and m: "m \<in> S"
    and v: "same_page v (pte_of (bp_page_table bp) m)" "pte_dirty v" and b: "length b = PAGE_SIZE_FILE"
  shows "pool_core rinv rcap qrep k
    (bp\<lparr>bp_memory_pool := (bp_memory_pool bp)[m := b], bp_page_table := put_pte (bp_page_table bp) m v\<rparr>) d S free T"
proof -
  let ?pt = "bp_page_table bp" and ?mem = "bp_memory_pool bp"
  note lt = pool_coreD(10) [OF c m]
  note p = put_same_page [OF v(1) lt]
  have f: "frame_ok d (put_pte ?pt m v) (?mem[m := b]) m'" if "m' \<in> S" for m'
  proof (cases "m' = m")
    case True
    then show ?thesis
      using v lt pool_coreD(9) [OF c m] by (simp add: frame_ok_def pt_simps same_page_def Let_def)
  next
    case False
    then show ?thesis
      using pool_coreD(9) [OF c that] lt frame_ok_pt [of "put_pte ?pt m v" m' ?pt "?mem[m := b]" ?mem]
      by (simp add: pt_simps)
  qed
  have n: "m' \<in> set free \<Longrightarrow> pinned (put_pte ?pt m v) m' = pinned ?pt m'" for m'
    using c m lt by (auto simp: pool_core_def pinned_def pt_simps)
  have "\<forall>x\<in>set (?mem[m := b]). length x = PAGE_SIZE_FILE"
    using c b by (auto simp: pool_core_def dest!: set_update_subset_insert [THEN subsetD])
  then show ?thesis using c p f n by (simp add: pool_core_def pt_simps)
qed

text \<open>What an access leaves behind; \<open>new\<close> is what the page then shows.\<close>

definition accessed ::
  "partition_id \<Rightarrow> ('r, 'q) buffer_pool \<Rightarrow> disk \<Rightarrow> file_handle \<Rightarrow> fpage_id \<Rightarrow> byte list \<Rightarrow>
   ('r, 'q) buffer_pool \<Rightarrow> disk \<Rightarrow> bool" where
  "accessed k bp d fd p new bp' d' \<longleftrightarrow>
     pt_partitioner (bp_page_table bp') = pt_partitioner (bp_page_table bp) \<and>
     (\<forall>fd' q. pt_word (bp_page_table bp') fd' q = None \<longleftrightarrow> pt_word (bp_page_table bp) fd' q = None) \<and>
     disk_step (pt_partitioner (bp_page_table bp)) k d d' \<and>
     (\<forall>fd' q. opened d fd' \<longrightarrow> GetPartitionId (pt_partitioner (bp_page_table bp)) q = k \<longrightarrow>
        page_bytes bp' d' fd' q = (if fd' = fd \<and> q = p then new else page_bytes bp d fd' q)) \<and>
     has_room (bp_page_table bp')"

lemma fetched_ref_count:
  assumes f: "fetched k bp d fd p m bp' d'" and r: "has_room (bp_page_table bp)" and m: "m < frames (bp_page_table bp)"
  shows "pte_ref_count (pte_of (bp_page_table bp') m) \<noteq> 0"
    "pte_ref_count (pte_of (bp_page_table bp') m) - 1 = pte_ref_count (pte_of (bp_page_table bp) m)"
proof -
  have lt: "pte_ref_count (pte_of (bp_page_table bp) m) < 65535" using r m by (simp add: has_room_def)
  have nz: "x + 1 \<noteq> 0" if "x < 65535" for x :: u16
  proof
    assume "x + 1 = 0"
    then have "x = - 1" by (simp add: eq_neg_iff_add_eq_0)
    then show False using that by simp
  qed
  show "pte_ref_count (pte_of (bp_page_table bp') m) \<noteq> 0"
    "pte_ref_count (pte_of (bp_page_table bp') m) - 1 = pte_ref_count (pte_of (bp_page_table bp) m)"
    using f lt nz [OF lt] inc_fields(1) [OF lt]
    by (auto simp: fetched_def loaded_pte_fields pinned_def split: if_splits)
qed

lemma fetched_resident_unique:
  assumes wf: "pt_wf k pt" and p: "GetPartitionId (pt_partitioner pt) p = k" "GetPartitionId (pt_partitioner pt) q = k"
    and "resident pt fd p = Some m" "resident pt fd' q = Some m"
  shows "fd' = fd \<and> q = p"
  using resident_backed(2,3) [OF wf assms(4) p(1)] resident_backed(2,3) [OF wf assms(5) p(2)] by simp

context replacer
begin

lemma access_ok:
  assumes laws: "fifo_laws qops qrep" and ok: "pool_ok rinv rcap qrep k bp d" and i: "in_file d fd p"
    and fd: "fd < 8192" and p: "GetPartitionId (pt_partitioner (bp_page_table bp)) p = k"
    and w: "pt_word (bp_page_table bp) fd p \<noteq> None" and room: "has_room (bp_page_table bp)" and fuel: "4 \<le> fuel"
  obtains m bp1 d' where "FetchPageSync fuel ops qops bp d p fd = Inr (Some m, bp1, d')"
    "m < frames (bp_page_table bp1)" "length (bp_memory_pool bp1) = frames (bp_page_table bp1)"
    "length (bp_memory_pool bp1 ! m) = PAGE_SIZE_FILE"
    "visible (file_of d fd) p (bp_memory_pool bp1 ! m) = page_bytes bp d fd p"
    "pool_ok rinv rcap qrep k (bp1\<lparr>bp_page_table := put_pte (bp_page_table bp1) m
       (DecRefCount (pte_of (bp_page_table bp1) m))\<rparr>) d'"
    "accessed k bp d fd p (page_bytes bp d fd p) (bp1\<lparr>bp_page_table := put_pte (bp_page_table bp1) m
       (DecRefCount (pte_of (bp_page_table bp1) m))\<rparr>) d'"
    "\<And>b. length b = PAGE_SIZE_FILE \<Longrightarrow> pool_ok rinv rcap qrep k (bp1\<lparr>bp_memory_pool := (bp_memory_pool bp1)[m := b],
       bp_page_table := put_pte (bp_page_table bp1) m (DecRefCount_write True False (pte_of (bp_page_table bp1) m))\<rparr>) d'"
    "\<And>b. length b = PAGE_SIZE_FILE \<Longrightarrow> accessed k bp d fd p (visible (file_of d fd) p b)
       (bp1\<lparr>bp_memory_pool := (bp_memory_pool bp1)[m := b],
       bp_page_table := put_pte (bp_page_table bp1) m (DecRefCount_write True False (pte_of (bp_page_table bp1) m))\<rparr>) d'"
proof -
  let ?pt = "bp_page_table bp"
  have "wf": "pt_wf k ?pt" using ok pool_coreD(1) by (auto simp: pool_ok_def)
  have rc: "resident ?pt fd p = Some m \<Longrightarrow> pte_ref_count (pte_of ?pt m) < 65535" for m
    using room resident_eq [OF wf] by (auto simp: has_room_def)
  have rm: "\<exists>m0 < frames ?pt. \<not> pinned ?pt m0" using room by (simp add: has_room_def)
  obtain m bp1 d' where f: "FetchPageSync fuel ops qops bp d p fd = Inr (Some m, bp1, d')"
    "pool_ok rinv rcap qrep k bp1 d'" "fetched k bp d fd p m bp1 d'"
    by (rule fetch_ok [OF laws ok i fd p w rc rm fuel])
  obtain S free where c: "pool_core rinv rcap qrep k bp1 d' S free {}" and q: "quiet (bp_page_table bp1)"
    using f(2) by (auto simp: pool_ok_def)
  note wf1 = pool_coreD(1) [OF c]
  let ?pt1 = "bp_page_table bp1" and ?w = "pte_of (bp_page_table bp1) m"
  have res: "resident ?pt1 fd p = Some m" and fr: "frames ?pt1 = frames ?pt"
    "pt_partitioner ?pt1 = pt_partitioner ?pt"
    "\<And>m'. m' \<noteq> m \<Longrightarrow> pte_of ?pt1 m' = pte_of ?pt m'"
    "\<And>fd' q. (pt_word ?pt1 fd' q = None) = (pt_word ?pt fd' q = None)"
    "disk_step (pt_partitioner ?pt) k d d'"
    "\<And>fd' q. opened d fd' \<Longrightarrow> GetPartitionId (pt_partitioner ?pt) q = k \<Longrightarrow> page_bytes bp1 d' fd' q = page_bytes bp d fd' q"
    using f(3) by (simp_all add: fetched_def)
  note mS = resident_managed [OF c res]
  note m = pool_coreD(10) [OF c mS]
  have nz: "pte_ref_count ?w \<noteq> 0" "pte_ref_count ?w - 1 = pte_ref_count (pte_of ?pt m)"
    using fetched_ref_count [OF f(3) room] m fr(1) by simp_all
  note rel = release_pte [OF nz(1)]
  have o: "opened d fd" using i by (simp add: in_file_def)
  have len: "length (file_of d' fd) = length (file_of d fd)" using fr(5) o by (simp add: disk_step_def)
  have vis: "visible (file_of d fd) p (bp_memory_pool bp1 ! m) = page_bytes bp d fd p"
    using fr(6) [OF o p] res visible_cong [OF len] by (simp add: page_bytes_def)
  have room': "has_room (put_pte ?pt1 m v)" if "pte_ref_count v = pte_ref_count ?w - 1" for v
    using room m fr nz(2) that has_room_cong [of "put_pte ?pt1 m v" ?pt] by (auto simp: pt_simps)
  let ?r = "bp1\<lparr>bp_page_table := put_pte ?pt1 m (DecRefCount ?w)\<rparr>"
  have core_r: "pool_core rinv rcap qrep k ?r d' S free {}"
    "page_bytes ?r d' fd' q = page_bytes bp1 d' fd' q" for fd' q
    using rel(2) by (auto intro!: pool_core_put_pte [OF c mS rel(1)])
  have acc_r: "accessed k bp d fd p (page_bytes bp d fd p) ?r d'"
    using fr core_r(2) room' [OF rel(3)] by (auto simp: accessed_def pt_simps)
  let ?v = "DecRefCount_write True False ?w"
  let ?s = "\<lambda>b. bp1\<lparr>bp_memory_pool := (bp_memory_pool bp1)[m := b], bp_page_table := put_pte ?pt1 m ?v\<rparr>"
  have core_s: "pool_core rinv rcap qrep k (?s b) d' S free {}" if "length b = PAGE_SIZE_FILE" for b
    by (rule pool_core_write [OF c mS rel(4,5) that])
  have acc_s: "accessed k bp d fd p (visible (file_of d fd) p b) (?s b) d'" if "length b = PAGE_SIZE_FILE" for b
  proof -
    note rs = put_same_page(4) [OF rel(4) m]
    have "page_bytes (?s b) d' fd' q = (if fd' = fd \<and> q = p then visible (file_of d fd) p b else page_bytes bp d fd' q)"
      if "opened d fd'" "GetPartitionId (pt_partitioner ?pt) q = k" for fd' q
    proof (cases "fd' = fd \<and> q = p")
      case True
      then show ?thesis
        using res m pool_coreD(2) [OF c] visible_cong [OF len] by (simp add: page_bytes_def rs)
    next
      case False
      have "page_bytes (?s b) d' fd' q = page_bytes bp1 d' fd' q"
      proof (rule page_bytes_eq)
        fix m' assume "resident ?pt1 fd' q = Some m'"
        then have "m' \<noteq> m"
          using fetched_resident_unique [OF wf1 _ _ res] False p that(2) fr(2) by auto
        then show "bp_memory_pool (?s b) ! m' = bp_memory_pool bp1 ! m'" by simp
      qed (simp add: rs)
      then show ?thesis using False fr(6) [OF that] by auto
    qed
    then show ?thesis using fr room' [OF rel(6)] by (auto simp: accessed_def pt_simps)
  qed
  show thesis
    by (rule that [OF f(1) m pool_coreD(2) [OF c] pool_coreD(3) [OF c m] vis _ acc_r _ acc_s])
      (use core_r(1) core_s q in \<open>auto simp: pool_ok_def\<close>)
qed

end

end
