(* ===== verification/Manager.thy ===== *)
theory Manager
  imports Access
begin

text \<open>
  The buffer pool manager (\<^verbatim>\<open>include/buffer_pool_manager.h\<close>, \<^verbatim>\<open>src/buffer_pool_manager.cpp\<close>): it spreads
  the pages of every file over its pools, page \<open>p\<close> going to the pool of partition \<open>GetPartitionId p\<close>,
  and offers blocks, which are ranges of bytes of a file.  The threads that \<open>Flush\<close> and \<open>WarmUp\<close> start
  are run one after the other.
\<close>

record ('r, 'q) manager =
  mg_pools :: "('r, 'q) buffer_pool list"
  mg_disk :: disk
  mg_partitioner :: partitioner
  mg_pool_num :: u16

section \<open>Opening, growing and closing files\<close>

definition empty_disk :: disk where
  "empty_disk = \<lparr>fd_oss = [], file_size_inBytes = [], os_files = []\<rparr>"

definition sub_pool :: "byte list list \<Rightarrow> nat \<Rightarrow> nat \<Rightarrow> byte list list" where
  "sub_pool mem start page_num = take page_num (drop start mem)"

fun init_pools ::
  "(nat \<Rightarrow> 'r res) \<Rightarrow> 'q queue_ops \<Rightarrow> 'q \<Rightarrow> nat \<Rightarrow> nat \<Rightarrow> byte list list \<Rightarrow> disk \<Rightarrow> partitioner \<Rightarrow> nat \<Rightarrow>
   ('r, 'q) buffer_pool list res" where
  "init_pools rnew qops qnew pool_num sz mem d pr 0 = Inr []"
| "init_pools rnew qops qnew pool_num sz mem d pr (Suc idx) =
     bindE (init_pools rnew qops qnew pool_num sz mem d pr idx) (\<lambda>bps.
     bindE (bp_init rnew qops qnew pool_num (word_of_nat idx) (word_of_nat sz)
       (sub_pool mem (sz * idx) sz) d pr) (\<lambda>bp. Inr (bps @ [bp])))"

text \<open>\<open>mem\<close> is the memory pool as it comes from the allocator, \<open>content\<close> what the named file holds.\<close>

definition mgr_init ::
  "(nat \<Rightarrow> 'r res) \<Rightarrow> 'q queue_ops \<Rightarrow> 'q \<Rightarrow> u16 \<Rightarrow> nat \<Rightarrow> byte list list \<Rightarrow> byte list \<Rightarrow> ('r, 'q) manager res" where
  "mgr_init rnew qops qnew pool_num pool_size_inpage_per_instance mem content =
     (let (fd, d) = OpenFile empty_disk content in
      bindE (partitioner_new (ucast pool_num)) (\<lambda>pr.
      bindE (init_pools rnew qops qnew (unat pool_num) pool_size_inpage_per_instance mem d pr (unat pool_num))
        (\<lambda>bps. Inr \<lparr>mg_pools = bps, mg_disk = d, mg_partitioner = pr, mg_pool_num = pool_num\<rparr>)))"

fun over_pools :: "(('r, 'q) buffer_pool \<Rightarrow> ('r, 'q) buffer_pool res) \<Rightarrow> ('r, 'q) buffer_pool list \<Rightarrow>
    ('r, 'q) buffer_pool list res" where
  "over_pools f [] = Inr []"
| "over_pools f (bp # bps) = bindE (f bp) (\<lambda>bp. bindE (over_pools f bps) (\<lambda>bps. Inr (bp # bps)))"

definition mgr_RegisterFile :: "('r, 'q) manager \<Rightarrow> file_handle \<Rightarrow> ('r, 'q) manager res" where
  "mgr_RegisterFile mg fd =
     bindE (over_pools (\<lambda>bp. bp_RegisterFile (unat (mg_pool_num mg)) bp (mg_disk mg) fd) (mg_pools mg))
       (\<lambda>bps. Inr (mg\<lparr>mg_pools := bps\<rparr>))"

definition mgr_OpenFile :: "('r, 'q) manager \<Rightarrow> byte list \<Rightarrow> (file_handle \<times> ('r, 'q) manager) res" where
  "mgr_OpenFile mg content =
     (let (fd, d) = OpenFile (mg_disk mg) content; fd = word_of_nat fd in
      bindE (mgr_RegisterFile (mg\<lparr>mg_disk := d\<rparr>) fd) (\<lambda>mg. Inr (fd, mg)))"

definition mgr_Resize :: "('r, 'q) manager \<Rightarrow> file_handle \<Rightarrow> u64 \<Rightarrow> ('r, 'q) manager res" where
  "mgr_Resize mg fd new_size_inByte =
     bindE (disk_Resize (mg_disk mg) fd new_size_inByte) (\<lambda>d.
     bindE (over_pools (\<lambda>bp. bp_Resize bp fd (word_of_nat (ceil_div (unat new_size_inByte) (unat (mg_pool_num mg)))))
       (mg_pools mg)) (\<lambda>bps. Inr (mg\<lparr>mg_disk := d, mg_pools := bps\<rparr>)))"

definition mgr_GetFreePageNum :: "('r, 'q) manager \<Rightarrow> u64" where
  "mgr_GetFreePageNum mg = sum_list (map GetFreePageNum (mg_pools mg))"

definition CheckValid :: "('r, 'q) manager \<Rightarrow> bool" where
  "CheckValid mg \<longleftrightarrow> (\<forall>bp\<in>set (mg_pools mg). \<forall>w\<in>set (pti_pool (pt_inner (bp_page_table bp))). pte_ref_count w = 0)"

section \<open>Access to the pool of a page\<close>

definition pool_of :: "('r, 'q) manager \<Rightarrow> fpage_id \<Rightarrow> nat" where
  "pool_of mg p = unat (GetPartitionId (mg_partitioner mg) p)"

definition on_pool ::
  "('r, 'q) manager \<Rightarrow> fpage_id \<Rightarrow>
   (('r, 'q) buffer_pool \<Rightarrow> disk \<Rightarrow> ('a \<times> ('r, 'q) buffer_pool \<times> disk) res) \<Rightarrow> ('a \<times> ('r, 'q) manager) res" where
  "on_pool mg p f =
     bindE (arr_get (mg_pools mg) (pool_of mg p)) (\<lambda>bp.
     bindE (f bp (mg_disk mg)) (\<lambda>(x, bp, d).
     Inr (x, mg\<lparr>mg_pools := (mg_pools mg)[pool_of mg p := bp], mg_disk := d\<rparr>)))"

definition mgr_FlushPage ::
  "'q queue_ops \<Rightarrow> ('r, 'q) manager \<Rightarrow> fpage_id \<Rightarrow> file_handle \<Rightarrow> bool \<Rightarrow> (bool \<times> ('r, 'q) manager) res" where
  "mgr_FlushPage qops mg p fd delete_from_memory =
     on_pool mg p (\<lambda>bp d. FlushPage qops bp d p fd delete_from_memory)"

fun flush_pages ::
  "'q queue_ops \<Rightarrow> file_handle \<Rightarrow> bool \<Rightarrow> nat list \<Rightarrow> bool \<Rightarrow> ('r, 'q) manager \<Rightarrow> (bool \<times> ('r, 'q) manager) res" where
  "flush_pages qops fd delete_from_memory [] ret mg = Inr (ret, mg)"
| "flush_pages qops fd delete_from_memory (p # ps) ret mg =
     bindE (mgr_FlushPage qops mg (word_of_nat p) fd delete_from_memory)
       (\<lambda>(ret, mg). flush_pages qops fd delete_from_memory ps ret mg)"

definition FlushFile ::
  "'q queue_ops \<Rightarrow> ('r, 'q) manager \<Rightarrow> file_handle \<Rightarrow> bool \<Rightarrow> (bool \<times> ('r, 'q) manager) res" where
  "FlushFile qops mg fd delete_from_memory =
     (if \<not> ValidFD (mg_disk mg) fd then Inr (True, mg)
      else bindE (GetFileSizeFast (mg_disk mg) fd) (\<lambda>sz.
        flush_pages qops fd delete_from_memory [0..<ceil_div (unat sz) PAGE_SIZE_FILE] True mg))"

fun flush_files :: "'q queue_ops \<Rightarrow> bool \<Rightarrow> nat list \<Rightarrow> ('r, 'q) manager \<Rightarrow> ('r, 'q) manager res" where
  "flush_files qops delete_from_memory [] mg = Inr mg"
| "flush_files qops delete_from_memory (fd # fds) mg =
     (if ValidFD (mg_disk mg) (word_of_nat fd) then
        bindE (FlushFile qops mg (word_of_nat fd) delete_from_memory) (\<lambda>(ok, mg).
        bindE (assertE ok) (\<lambda>_. flush_files qops delete_from_memory fds mg))
      else flush_files qops delete_from_memory fds mg)"

text \<open>\<open>clean\<close> is the \<open>Clean\<close> operation of the policy.\<close>

definition Flush ::
  "('r \<Rightarrow> (bool \<times> 'r) res) \<Rightarrow> 'q queue_ops \<Rightarrow> ('r, 'q) manager \<Rightarrow> bool \<Rightarrow> (bool \<times> ('r, 'q) manager) res" where
  "Flush clean qops mg delete_from_memory =
     bindE (flush_files qops delete_from_memory [0..<length (fd_oss (mg_disk mg))] mg) (\<lambda>mg.
     if delete_from_memory then
       bindE (over_pools (\<lambda>bp. bindE (clean (bp_replacer bp)) (\<lambda>(_, r). Inr (bp\<lparr>bp_replacer := r\<rparr>))) (mg_pools mg))
         (\<lambda>bps. Inr (True, mg\<lparr>mg_pools := bps\<rparr>))
     else Inr (True, mg))"

definition mgr_CloseFile ::
  "'q queue_ops \<Rightarrow> ('r, 'q) manager \<Rightarrow> file_handle \<Rightarrow> ('r, 'q) manager res" where
  "mgr_CloseFile qops mg fd =
     bindE (FlushFile qops mg fd False) (\<lambda>(ok, mg).
     bindE (assertE ok) (\<lambda>_.
     bindE (CloseFile (mg_disk mg) fd) (\<lambda>d.
     bindE (over_pools (\<lambda>bp. bp_CloseFile bp fd) (mg_pools mg)) (\<lambda>bps.
     Inr (mg\<lparr>mg_disk := d, mg_pools := bps\<rparr>)))))"

section \<open>Reading and writing blocks\<close>

text \<open>
  \<open>use_page\<close> is the body of the loops: fetch the page, let \<open>f\<close> work on the bytes of its frame, and
  release the entry with \<open>release\<close>.  A null pointer from the fetch is dereferenced.
\<close>

definition use_page ::
  "nat \<Rightarrow> 'r replacer_ops \<Rightarrow> 'q queue_ops \<Rightarrow> fpage_id \<Rightarrow> file_handle \<Rightarrow> (pte \<Rightarrow> pte) \<Rightarrow>
   (byte list \<Rightarrow> ('a \<times> byte list) res) \<Rightarrow> ('r, 'q) buffer_pool \<Rightarrow> disk \<Rightarrow>
   ('a \<times> ('r, 'q) buffer_pool \<times> disk) res" where
  "use_page fuel ops qops p fd release f bp d =
     bindE (FetchPageSync fuel ops qops bp d p fd) (\<lambda>(ret, bp, d).
     bindE (case ret of None \<Rightarrow> Inl NullDeref | Some m \<Rightarrow> Inr m) (\<lambda>m.
     bindE (arr_get (bp_memory_pool bp) m) (\<lambda>page.
     bindE (f page) (\<lambda>(x, page).
     bindE (arr_set (bp_memory_pool bp) m page) (\<lambda>mem.
     bindE (FromPageId (bp_page_table bp) m) (\<lambda>w.
     Inr (x, bp\<lparr>bp_memory_pool := mem, bp_page_table := put_pte (bp_page_table bp) m (release w)\<rparr>, d)))))))"

fun load_pages ::
  "nat \<Rightarrow> 'r replacer_ops \<Rightarrow> 'q queue_ops \<Rightarrow> file_handle \<Rightarrow> nat list \<Rightarrow> ('r, 'q) manager \<Rightarrow> ('r, 'q) manager res" where
  "load_pages fuel ops qops fd [] mg = Inr mg"
| "load_pages fuel ops qops fd (p # ps) mg =
     bindE (on_pool mg (word_of_nat p)
         (use_page fuel ops qops (word_of_nat p) fd DecRefCount (\<lambda>page. Inr ((), page))))
       (\<lambda>(_, mg). load_pages fuel ops qops fd ps mg)"

definition LoadFile ::
  "nat \<Rightarrow> 'r replacer_ops \<Rightarrow> 'q queue_ops \<Rightarrow> ('r, 'q) manager \<Rightarrow> file_handle \<Rightarrow> (bool \<times> ('r, 'q) manager) res" where
  "LoadFile fuel ops qops mg fd =
     bindE (GetFileSizeFast (mg_disk mg) fd) (\<lambda>sz.
     bindE (load_pages fuel ops qops fd [0..<ceil_div (unat sz) PAGE_SIZE_FILE] mg) (\<lambda>mg. Inr (True, mg)))"

fun get_loop ::
  "nat \<Rightarrow> nat \<Rightarrow> 'r replacer_ops \<Rightarrow> 'q queue_ops \<Rightarrow> file_handle \<Rightarrow> byte list \<Rightarrow> fpage_id \<Rightarrow> u64 \<Rightarrow> u64 \<Rightarrow>
   ('r, 'q) manager \<Rightarrow> (byte list \<times> ('r, 'q) manager) res" where
  "get_loop 0 fuel ops qops fd buf fpage_id fpage_offset block_size mg = Inl OutOfFuel"
| "get_loop (Suc n) fuel ops qops fd buf fpage_id fpage_offset block_size mg =
     (if block_size = 0 then Inr (buf, mg)
      else bindE (on_pool mg fpage_id (use_page fuel ops qops fpage_id fd DecRefCount
          (\<lambda>page. bindE (pti_GetObject page buf fpage_offset block_size) (\<lambda>r. Inr (r, page)))))
        (\<lambda>((object_size, buf), mg).
        bindE (get_loop n fuel ops qops fd (drop (unat object_size) buf) (fpage_id + 1) 0
            (block_size - object_size) mg) (\<lambda>(rest, mg).
        Inr (take (unat object_size) buf @ rest, mg))))"

definition GetBlock ::
  "nat \<Rightarrow> nat \<Rightarrow> 'r replacer_ops \<Rightarrow> 'q queue_ops \<Rightarrow> ('r, 'q) manager \<Rightarrow> byte list \<Rightarrow> u64 \<Rightarrow> u64 \<Rightarrow> file_handle \<Rightarrow>
   (u64 \<times> byte list \<times> ('r, 'q) manager) res" where
  "GetBlock n fuel ops qops mg buf file_offset block_size fd =
     bindE (get_loop n fuel ops qops fd buf (ucast (drop_bit LOG_PAGE_SIZE_FILE file_offset))
       (file_offset mod word_of_nat PAGE_SIZE_FILE) block_size mg) (\<lambda>(buf, mg). Inr (0, buf, mg))"

fun set_loop ::
  "nat \<Rightarrow> nat \<Rightarrow> 'r replacer_ops \<Rightarrow> 'q queue_ops \<Rightarrow> file_handle \<Rightarrow> bool \<Rightarrow> byte list \<Rightarrow> fpage_id \<Rightarrow> u64 \<Rightarrow> u64 \<Rightarrow>
   ('r, 'q) manager \<Rightarrow> (u64 \<times> ('r, 'q) manager) res" where
  "set_loop 0 fuel ops qops fd flush buf fpage_id fpage_offset block_size mg = Inl OutOfFuel"
| "set_loop (Suc n) fuel ops qops fd flush buf fpage_id fpage_offset block_size mg =
     (if block_size = 0 then Inr (block_size, mg)
      else bindE (on_pool mg fpage_id (use_page fuel ops qops fpage_id fd (DecRefCount_write True False)
          (\<lambda>page. pti_SetObject buf page fpage_offset block_size))) (\<lambda>(object_size, mg).
        bindE (if flush then
            bindE (mgr_FlushPage qops mg fpage_id fd False) (\<lambda>(ok, mg). bindE (assertE ok) (\<lambda>_. Inr mg))
          else Inr mg) (\<lambda>mg.
        set_loop n fuel ops qops fd flush (drop (unat object_size) buf) (fpage_id + 1) 0
          (block_size - object_size) mg)))"

definition SetBlock ::
  "nat \<Rightarrow> nat \<Rightarrow> 'r replacer_ops \<Rightarrow> 'q queue_ops \<Rightarrow> ('r, 'q) manager \<Rightarrow> byte list \<Rightarrow> u64 \<Rightarrow> u64 \<Rightarrow> file_handle \<Rightarrow>
   bool \<Rightarrow> (u64 \<times> ('r, 'q) manager) res" where
  "SetBlock n fuel ops qops mg buf file_offset block_size fd flush =
     set_loop n fuel ops qops fd flush buf (ucast (drop_bit LOG_PAGE_SIZE_FILE file_offset))
       (file_offset mod word_of_nat PAGE_SIZE_FILE) block_size mg"

section \<open>The number of pages of a block\<close>

definition num_page :: "u64 \<Rightarrow> u64 \<Rightarrow> nat" where
  "num_page file_offset block_size =
     (let fpage_offset = unat file_offset mod PAGE_SIZE_FILE; bs = unat block_size in
      if fpage_offset = 0 \<or> bs \<le> PAGE_SIZE_FILE - fpage_offset then ceil_div bs PAGE_SIZE_FILE
      else ceil_div (bs - (PAGE_SIZE_FILE - fpage_offset)) PAGE_SIZE_FILE + 1)"

end
