(* ===== verification/Blocks.thy ===== *)
theory Blocks
  imports Manager Pool
begin

text \<open>
  The contract of the buffer pool manager: to its clients every open file is an array of bytes,
  \<open>file_bytes\<close>, which \<open>GetBlock\<close> reads and \<open>SetBlock\<close> overwrites, whatever the pools hold and evict.
\<close>

definition page_of :: "('r, 'q) manager \<Rightarrow> file_handle \<Rightarrow> fpage_id \<Rightarrow> byte list" where
  "page_of mg fd p = page_bytes (mg_pools mg ! pool_of mg p) (mg_disk mg) fd p"

definition file_length :: "('r, 'q) manager \<Rightarrow> file_handle \<Rightarrow> nat" where
  "file_length mg fd = length (file_of (mg_disk mg) fd)"

definition file_bytes :: "('r, 'q) manager \<Rightarrow> file_handle \<Rightarrow> byte list" where
  "file_bytes mg fd = map (\<lambda>n. page_of mg fd (word_of_nat (n div PAGE_SIZE_FILE)) ! (n mod PAGE_SIZE_FILE))
     [0..<file_length mg fd]"

definition is_open :: "('r, 'q) manager \<Rightarrow> file_handle \<Rightarrow> bool" where
  "is_open mg fd = opened (mg_disk mg) fd"

text \<open>
  The invariant of the manager: every pool satisfies its own, has room, and uses the manager's
  partitioner; the pages of every open file have a mapping; file handles fit the page-table entry and
  page numbers 32 bits.
\<close>

definition mgr_ok ::
  "('r \<Rightarrow> mpage_id set \<Rightarrow> bool) \<Rightarrow> ('r \<Rightarrow> nat) \<Rightarrow> ('q \<Rightarrow> frame list \<Rightarrow> bool) \<Rightarrow> ('r, 'q) manager \<Rightarrow> bool" where
  "mgr_ok rinv rcap qrep mg \<longleftrightarrow> partitioner_wf (mg_partitioner mg) \<and>
     length (mg_pools mg) = unat (num_partitions (mg_partitioner mg)) \<and>
     (\<forall>k < length (mg_pools mg). pool_ok rinv rcap qrep (word_of_nat k) (mg_pools mg ! k) (mg_disk mg) \<and>
        pt_partitioner (bp_page_table (mg_pools mg ! k)) = mg_partitioner mg \<and>
        has_room (bp_page_table (mg_pools mg ! k))) \<and>
     (\<forall>fd p. in_file (mg_disk mg) fd p \<longrightarrow> fd < 8192 \<and>
        pt_word (bp_page_table (mg_pools mg ! pool_of mg p)) fd p \<noteq> None) \<and>
     (\<forall>fd. opened (mg_disk mg) fd \<longrightarrow> length (file_of (mg_disk mg) fd) \<le> PAGE_SIZE_FILE * 2 ^ 32)"

text \<open>One access to page \<open>p\<close> of file \<open>fd\<close>, which then shows \<open>new\<close>.\<close>

definition mgr_step ::
  "('r, 'q) manager \<Rightarrow> file_handle \<Rightarrow> fpage_id \<Rightarrow> byte list \<Rightarrow> ('r, 'q) manager \<Rightarrow> bool" where
  "mgr_step mg fd p new mg' \<longleftrightarrow> (\<forall>fd'. is_open mg' fd' = is_open mg fd' \<and> (is_open mg fd' \<longrightarrow>
     file_length mg' fd' = file_length mg fd' \<and>
     (\<forall>q. page_of mg' fd' q = (if fd' = fd \<and> q = p then new else page_of mg fd' q))))"

lemma pool_of_less:
  assumes "mgr_ok rinv rcap qrep mg"
  shows "pool_of mg p < length (mg_pools mg)"
proof -
  have wf: "partitioner_wf (mg_partitioner mg)" using assms by (simp add: mgr_ok_def)
  then have "unat (num_partitions (mg_partitioner mg)) = 2 ^ unat (log2_num_partitions (mg_partitioner mg))"
    by (metis partitioner_wf_def unat_push_bit_one)
  then have "unat p mod unat (num_partitions (mg_partitioner mg)) < unat (num_partitions (mg_partitioner mg))"
    by (intro mod_less_divisor) simp
  then show ?thesis
    using assms by (simp add: mgr_ok_def pool_of_def unat_GetPartitionId [OF wf])
qed

lemma mgr_ok_pool:
  assumes "mgr_ok rinv rcap qrep mg"
  shows "pool_ok rinv rcap qrep (GetPartitionId (mg_partitioner mg) p) (mg_pools mg ! pool_of mg p) (mg_disk mg)"
    "pt_partitioner (bp_page_table (mg_pools mg ! pool_of mg p)) = mg_partitioner mg"
    "has_room (bp_page_table (mg_pools mg ! pool_of mg p))"
proof -
  have "word_of_nat (pool_of mg p) = GetPartitionId (mg_partitioner mg) p" by (simp add: pool_of_def)
  then show "pool_ok rinv rcap qrep (GetPartitionId (mg_partitioner mg) p) (mg_pools mg ! pool_of mg p) (mg_disk mg)"
    "pt_partitioner (bp_page_table (mg_pools mg ! pool_of mg p)) = mg_partitioner mg"
    "has_room (bp_page_table (mg_pools mg ! pool_of mg p))"
    using assms pool_of_less [OF assms, of p] unfolding mgr_ok_def by metis+
qed

text \<open>Putting back the pool that an access has used.\<close>

lemma mgr_put_pool:
  assumes ok: "mgr_ok rinv rcap qrep mg"
    and b: "pool_ok rinv rcap qrep (GetPartitionId (mg_partitioner mg) p) bp' d'"
    and a: "accessed (GetPartitionId (mg_partitioner mg) p) (mg_pools mg ! pool_of mg p) (mg_disk mg) fd p new bp' d'"
  defines "mg' \<equiv> mg\<lparr>mg_pools := (mg_pools mg)[pool_of mg p := bp'], mg_disk := d'\<rparr>"
  shows "mgr_ok rinv rcap qrep mg'" "mgr_step mg fd p new mg'"
proof -
  let ?pr = "mg_partitioner mg" and ?k = "GetPartitionId (mg_partitioner mg) p" and ?n = "length (mg_pools mg)"
  note pk = pool_of_less [OF ok, of p] and mp = mgr_ok_pool [OF ok]
  have step: "disk_step ?pr ?k (mg_disk mg) d'" and pr: "pt_partitioner (bp_page_table bp') = ?pr"
    and room: "has_room (bp_page_table bp')"
    and words: "\<And>fd' q. pt_word (bp_page_table bp') fd' q = None \<longleftrightarrow>
      pt_word (bp_page_table (mg_pools mg ! pool_of mg p)) fd' q = None"
    and bytes: "\<And>fd' q. opened (mg_disk mg) fd' \<Longrightarrow> GetPartitionId ?pr q = ?k \<Longrightarrow> page_bytes bp' d' fd' q =
      (if fd' = fd \<and> q = p then new else page_bytes (mg_pools mg ! pool_of mg p) (mg_disk mg) fd' q)"
    using a mp(2) [of p] by (simp_all add: accessed_def)
  have part: "pool_of mg q = pool_of mg p \<longleftrightarrow> GetPartitionId ?pr q = ?k" for q
    by (simp add: pool_of_def word_unat_eq_iff)
  have pools: "mg_pools mg' ! j = (if j = pool_of mg p then bp' else mg_pools mg ! j)" if "j < ?n" for j
    using that pk by (simp add: mg'_def nth_list_update)
  have of': "pool_of mg' = pool_of mg" by (simp add: pool_of_def mg'_def fun_eq_iff)
  have disk: "mg_disk mg' = d'" "mg_partitioner mg' = ?pr" "length (mg_pools mg') = ?n" by (simp_all add: mg'_def)
  have op: "opened d' fd' = opened (mg_disk mg) fd'"
    "opened (mg_disk mg) fd' \<Longrightarrow> length (file_of d' fd') = length (file_of (mg_disk mg) fd')" for fd'
    using step by (auto simp: disk_step_def)
  show "mgr_ok rinv rcap qrep mg'"
    unfolding mgr_ok_def disk of'
  proof (intro conjI allI impI)
    fix j assume j: "j < ?n"
    have w: "pool_ok rinv rcap qrep (word_of_nat j) (mg_pools mg ! j) (mg_disk mg)"
      "pt_partitioner (bp_page_table (mg_pools mg ! j)) = ?pr" "has_room (bp_page_table (mg_pools mg ! j))"
      using ok j by (auto simp: mgr_ok_def)
    have "pool_ok rinv rcap qrep (word_of_nat j) (mg_pools mg ! j) d'" if "j \<noteq> pool_of mg p"
    proof (rule pool_ok_other [OF w(1)])
      show "disk_step (pt_partitioner (bp_page_table (mg_pools mg ! j))) ?k (mg_disk mg) d'" using step w(2) by simp
      have "unat (num_partitions ?pr) < 4294967296" by (rule u32_less)
      then have "unat (word_of_nat j :: u32) = j" using j ok by (simp add: mgr_ok_def unat_of_nat)
      then show "word_of_nat j \<noteq> ?k" using that by (auto simp: pool_of_def)
    qed
    moreover have "word_of_nat (pool_of mg p) = ?k" by (simp add: pool_of_def)
    ultimately show "pool_ok rinv rcap qrep (word_of_nat j) (mg_pools mg' ! j) d'"
      "pt_partitioner (bp_page_table (mg_pools mg' ! j)) = ?pr" "has_room (bp_page_table (mg_pools mg' ! j))"
      using b pr room w pools [OF j] by auto
  next
    fix fd' q assume "in_file d' fd' q"
    then have "in_file (mg_disk mg) fd' q" using disk_step_in_file [OF step] by simp
    then have w: "fd' < 8192" "pt_word (bp_page_table (mg_pools mg ! pool_of mg q)) fd' q \<noteq> None"
      using ok unfolding mgr_ok_def by blast+
    show "fd' < 8192" by (rule w(1))
    show "pt_word (bp_page_table (mg_pools mg' ! pool_of mg q)) fd' q \<noteq> None"
      using w(2) words [of fd' q] pools [OF pool_of_less [OF ok, of q]]
      by (cases "pool_of mg q = pool_of mg p") simp_all
  next
    fix fd' assume "opened d' fd'"
    then show "length (file_of d' fd') \<le> PAGE_SIZE_FILE * 2 ^ 32"
      using ok op [of fd'] unfolding mgr_ok_def by metis
  qed (use ok in \<open>simp_all add: mgr_ok_def\<close>)
  have "page_of mg' fd' q = (if fd' = fd \<and> q = p then new else page_of mg fd' q)"
    if "opened (mg_disk mg) fd'" for fd' q
    using bytes [OF that] page_bytes_other [OF step that, of q] pools [OF pool_of_less [OF ok, of q]] part [of q]
    by (auto simp: page_of_def of' disk)
  then show "mgr_step mg fd p new mg'"
    using op by (simp add: mgr_step_def is_open_def file_length_def disk)
qed

section \<open>Slices of a file\<close>

lemma clip_unat:
  assumes "unat page_offset < PAGE_SIZE_FILE" "unat object_size + unat page_offset < 18446744073709551616"
  shows "unat (clip_to_page page_offset object_size) = min (unat object_size) (PAGE_SIZE_FILE - unat page_offset)"
proof -
  have s: "unat (object_size + page_offset) = unat object_size + unat page_offset"
    using assms(2) by (subst unat_add_lem [THEN iffD1]) simp_all
  have d: "unat (4096 - page_offset) = 4096 - unat page_offset"
    using assms(1) by (subst unat_sub) (simp_all add: word_le_nat_alt PAGE_SIZE_FILE_def)
  show ?thesis
    using assms by (auto simp: clip_to_page_def PAGE_SIZE_FILE_def word_less_nat_alt s d min_def)
qed

lemma pti_GetObject_ok:
  assumes "length page = PAGE_SIZE_FILE" "unat off < PAGE_SIZE_FILE" "unat bs + unat off < 18446744073709551616"
    and "unat bs \<le> length buf"
  defines "n \<equiv> min (unat bs) (PAGE_SIZE_FILE - unat off)"
  shows "pti_GetObject page buf off bs = Inr (clip_to_page off bs, take n (drop (unat off) page) @ drop n buf)"
  using assms clip_unat [OF assms(2,3)] by (simp add: pti_GetObject_def memcpy_def min_def Let_def)

lemma pti_SetObject_ok:
  assumes "length page = PAGE_SIZE_FILE" "unat off < PAGE_SIZE_FILE" "unat bs + unat off < 18446744073709551616"
    and "unat bs \<le> length buf"
  defines "n \<equiv> min (unat bs) (PAGE_SIZE_FILE - unat off)"
  shows "pti_SetObject buf page off bs =
    Inr (clip_to_page off bs, take (unat off) page @ take n buf @ drop (unat off + n) page)"
  using assms(1,2,4) clip_unat [OF assms(2,3)]
  by (simp add: n_def pti_SetObject_def memcpy_def min_def Let_def) linarith

lemma visible_nth: "unat p * PAGE_SIZE_FILE + j < length f \<Longrightarrow> visible f p b ! j = b ! j"
  by (simp add: visible_def)

lemma file_bytes_length [simp]: "length (file_bytes mg fd) = file_length mg fd"
  by (simp add: file_bytes_def)

lemma file_bytes_nth:
  assumes "unat p * PAGE_SIZE_FILE + i < file_length mg fd" "i < PAGE_SIZE_FILE"
  shows "file_bytes mg fd ! (unat p * PAGE_SIZE_FILE + i) = page_of mg fd p ! i"
proof -
  have "(unat p * PAGE_SIZE_FILE + i) div PAGE_SIZE_FILE = unat p" "(unat p * PAGE_SIZE_FILE + i) mod PAGE_SIZE_FILE = i"
    using assms(2) by (simp_all add: PAGE_SIZE_FILE_def)
  then show ?thesis using assms(1) by (simp add: file_bytes_def)
qed

lemma file_bytes_slice:
  assumes "unat p * PAGE_SIZE_FILE + i + n \<le> file_length mg fd" "i + n \<le> PAGE_SIZE_FILE"
    and b: "visible (file_of (mg_disk mg) fd) p b = page_of mg fd p" "length b = PAGE_SIZE_FILE"
  shows "take n (drop i b) = take n (drop (unat p * PAGE_SIZE_FILE + i) (file_bytes mg fd))"
proof (rule nth_equalityI)
  fix j assume "j < length (take n (drop i b))"
  then have j: "j < n" by simp
  have "file_bytes mg fd ! (unat p * PAGE_SIZE_FILE + (i + j)) = page_of mg fd p ! (i + j)"
    using assms(1,2) j by (intro file_bytes_nth) simp_all
  also have "\<dots> = b ! (i + j)"
    unfolding b(1) [symmetric] using assms(1) j by (simp add: visible_def file_length_def)
  finally show "take n (drop i b) ! j = take n (drop (unat p * PAGE_SIZE_FILE + i) (file_bytes mg fd)) ! j"
    using assms j by (simp add: add.assoc)
qed (use assms in simp)

definition put_bytes :: "byte list \<Rightarrow> nat \<Rightarrow> byte list \<Rightarrow> byte list" where
  "put_bytes c pos data = take pos c @ data @ drop (pos + length data) c"

lemma put_bytes_length: "pos + length data \<le> length c \<Longrightarrow> length (put_bytes c pos data) = length c"
  by (simp add: put_bytes_def)

lemma put_bytes_nil [simp]: "put_bytes c pos [] = c"
  by (simp add: put_bytes_def)

lemma put_bytes_append:
  "pos + length xs \<le> length c \<Longrightarrow> put_bytes (put_bytes c pos xs) (pos + length xs) ys = put_bytes c pos (xs @ ys)"
  by (simp add: put_bytes_def ac_simps)

lemma put_bytes_nth:
  "n < length c \<Longrightarrow> pos + length data \<le> length c \<Longrightarrow>
   put_bytes c pos data ! n = (if pos \<le> n \<and> n < pos + length data then data ! (n - pos) else c ! n)"
  by (auto simp: put_bytes_def nth_append)

lemma file_bytes_put:
  assumes s: "mgr_step mg fd p (visible (file_of (mg_disk mg) fd) p (take i b @ data @ drop (i + length data) b)) mg'"
    and o: "is_open mg fd" and len: "file_length mg fd \<le> PAGE_SIZE_FILE * 2 ^ 32"
    and r: "unat p * PAGE_SIZE_FILE + i + length data \<le> file_length mg fd" "i + length data \<le> PAGE_SIZE_FILE"
    and b: "visible (file_of (mg_disk mg) fd) p b = page_of mg fd p" "length b = PAGE_SIZE_FILE"
  shows "file_bytes mg' fd = put_bytes (file_bytes mg fd) (unat p * PAGE_SIZE_FILE + i) data"
proof (rule nth_equalityI)
  have l: "file_length mg' fd = file_length mg fd" using s o by (simp add: mgr_step_def)
  then show "length (file_bytes mg' fd) = length (put_bytes (file_bytes mg fd) (unat p * PAGE_SIZE_FILE + i) data)"
    using r by (simp add: put_bytes_length)
  fix n assume "n < length (file_bytes mg' fd)"
  then have n: "n < file_length mg fd" using l by simp
  define q where "q = (word_of_nat (n div PAGE_SIZE_FILE) :: fpage_id)"
  define j where "j = n mod PAGE_SIZE_FILE"
  have "n div PAGE_SIZE_FILE < 4294967296" using n len by (simp add: PAGE_SIZE_FILE_def)
  then have q: "unat q = n div PAGE_SIZE_FILE" by (simp add: q_def unat_of_nat)
  then have e: "n = unat q * PAGE_SIZE_FILE + j" "j < PAGE_SIZE_FILE"
    by (simp_all add: j_def)
  have page: "page_of mg' fd q = (if q = p
      then visible (file_of (mg_disk mg) fd) p (take i b @ data @ drop (i + length data) b) else page_of mg fd q)"
    using s o by (simp add: mgr_step_def)
  have new: "file_bytes mg' fd ! n = page_of mg' fd q ! j"
    unfolding e(1) using e n l by (intro file_bytes_nth) simp_all
  have old: "file_bytes mg fd ! n = page_of mg fd q ! j"
    unfolding e(1) using e n by (intro file_bytes_nth) simp_all
  have put: "put_bytes (file_bytes mg fd) (unat p * PAGE_SIZE_FILE + i) data ! n =
      (if unat p * PAGE_SIZE_FILE + i \<le> n \<and> n < unat p * PAGE_SIZE_FILE + i + length data
       then data ! (n - (unat p * PAGE_SIZE_FILE + i)) else page_of mg fd q ! j)"
    using n r old by (subst put_bytes_nth) simp_all
  show "file_bytes mg' fd ! n = put_bytes (file_bytes mg fd) (unat p * PAGE_SIZE_FILE + i) data ! n"
  proof (cases "q = p")
    case True
    then have j: "n = unat p * PAGE_SIZE_FILE + j" using e by simp
    have "page_of mg fd q ! j = b ! j"
      unfolding True b(1) [symmetric] using n j by (simp add: visible_def file_length_def)
    moreover have "page_of mg' fd q ! j = (take i b @ data @ drop (i + length data) b) ! j"
      using page True n j visible_nth [of p j "file_of (mg_disk mg) fd"] by (simp add: file_length_def)
    moreover have "(take i b @ data @ drop (i + length data) b) ! j =
        (if i \<le> j \<and> j < i + length data then data ! (j - i) else b ! j)"
      using r(2) b(2) e(2) by (auto simp: nth_append)
    ultimately show ?thesis unfolding put new using j by simp
  next
    case False
    then have "unat q \<noteq> unat p" by (simp add: word_unat_eq_iff)
    then have "\<not> (unat p * PAGE_SIZE_FILE \<le> n \<and> n < unat p * PAGE_SIZE_FILE + PAGE_SIZE_FILE)"
      using page_number(1) [of n "unat p"] q by simp
    then show ?thesis unfolding put new using page False r(2) by auto
  qed
qed

lemma mgr_step_same:
  assumes "mgr_step mg fd p (page_of mg fd p) mg'" "is_open mg fd'"
  shows "file_bytes mg' fd' = file_bytes mg fd'"
proof -
  have "page_of mg' fd' q = page_of mg fd' q" for q using assms by (simp add: mgr_step_def)
  then show ?thesis using assms by (simp add: file_bytes_def mgr_step_def)
qed

lemma mgr_step_other:
  assumes "mgr_step mg fd p new mg'" "is_open mg fd'" "fd' \<noteq> fd"
  shows "file_bytes mg' fd' = file_bytes mg fd'"
proof -
  have "page_of mg' fd' q = page_of mg fd' q" for q using assms by (simp add: mgr_step_def)
  then show ?thesis using assms by (simp add: file_bytes_def mgr_step_def)
qed

lemma mgr_step_open: "mgr_step mg fd p new mg' \<Longrightarrow> is_open mg' fd' = is_open mg fd'"
  by (simp add: mgr_step_def)

context replacer
begin

lemma use_page_ok:
  assumes laws: "fifo_laws qops qrep" and ok: "mgr_ok rinv rcap qrep mg" and i: "in_file (mg_disk mg) fd p"
    and fuel: "4 \<le> fuel"
  obtains b where "length b = PAGE_SIZE_FILE" "visible (file_of (mg_disk mg) fd) p b = page_of mg fd p"
    "\<And>f x. f b = Inr (x, b) \<Longrightarrow> \<exists>mg'. on_pool mg p (use_page fuel ops qops p fd DecRefCount f) = Inr (x, mg') \<and>
       mgr_ok rinv rcap qrep mg' \<and> mgr_step mg fd p (page_of mg fd p) mg'"
    "\<And>f x b'. f b = Inr (x, b') \<Longrightarrow> length b' = PAGE_SIZE_FILE \<Longrightarrow>
       \<exists>mg'. on_pool mg p (use_page fuel ops qops p fd (DecRefCount_write True False) f) = Inr (x, mg') \<and>
       mgr_ok rinv rcap qrep mg' \<and> mgr_step mg fd p (visible (file_of (mg_disk mg) fd) p b') mg'"
proof -
  let ?bp = "mg_pools mg ! pool_of mg p" and ?k = "GetPartitionId (mg_partitioner mg) p" and ?d = "mg_disk mg"
  note pk = pool_of_less [OF ok, of p] and mp = mgr_ok_pool [OF ok, of p]
  have w: "fd < 8192" "pt_word (bp_page_table ?bp) fd p \<noteq> None" using ok i by (auto simp: mgr_ok_def)
  have part: "GetPartitionId (pt_partitioner (bp_page_table ?bp)) p = ?k" using mp(2) by simp
  obtain m bp1 d' where a: "FetchPageSync fuel ops qops ?bp ?d p fd = Inr (Some m, bp1, d')"
    "m < frames (bp_page_table bp1)" "length (bp_memory_pool bp1) = frames (bp_page_table bp1)"
    "length (bp_memory_pool bp1 ! m) = PAGE_SIZE_FILE"
    "visible (file_of ?d fd) p (bp_memory_pool bp1 ! m) = page_bytes ?bp ?d fd p"
    "pool_ok rinv rcap qrep ?k (bp1\<lparr>bp_page_table := put_pte (bp_page_table bp1) m
       (DecRefCount (pte_of (bp_page_table bp1) m))\<rparr>) d'"
    "accessed ?k ?bp ?d fd p (page_bytes ?bp ?d fd p) (bp1\<lparr>bp_page_table := put_pte (bp_page_table bp1) m
       (DecRefCount (pte_of (bp_page_table bp1) m))\<rparr>) d'"
    "\<And>b. length b = PAGE_SIZE_FILE \<Longrightarrow> pool_ok rinv rcap qrep ?k (bp1\<lparr>bp_memory_pool := (bp_memory_pool bp1)[m := b],
       bp_page_table := put_pte (bp_page_table bp1) m (DecRefCount_write True False (pte_of (bp_page_table bp1) m))\<rparr>) d'"
    "\<And>b. length b = PAGE_SIZE_FILE \<Longrightarrow> accessed ?k ?bp ?d fd p (visible (file_of ?d fd) p b)
       (bp1\<lparr>bp_memory_pool := (bp_memory_pool bp1)[m := b],
       bp_page_table := put_pte (bp_page_table bp1) m (DecRefCount_write True False (pte_of (bp_page_table bp1) m))\<rparr>) d'"
    by (rule access_ok [OF laws mp(1) i w(1) part w(2) mp(3) fuel]) blast
  let ?b = "bp_memory_pool bp1 ! m"
  have run: "on_pool mg p (use_page fuel ops qops p fd release f) =
      Inr (x, mg\<lparr>mg_pools := (mg_pools mg)[pool_of mg p := bp1\<lparr>bp_memory_pool := (bp_memory_pool bp1)[m := b'],
        bp_page_table := put_pte (bp_page_table bp1) m (release (pte_of (bp_page_table bp1) m))\<rparr>], mg_disk := d'\<rparr>)"
    if "f ?b = Inr (x, b')" for f release x b'
    using a(1-3) that pk by (simp add: on_pool_def use_page_def FromPageId_pte_of)
  have same: "bp1\<lparr>bp_memory_pool := (bp_memory_pool bp1)[m := ?b], bp_page_table := pt\<rparr> = bp1\<lparr>bp_page_table := pt\<rparr>" for pt
    by simp
  show thesis
  proof (rule that [OF a(4)])
    show "visible (file_of ?d fd) p ?b = page_of mg fd p" using a(5) by (simp add: page_of_def)
    show "\<exists>mg'. on_pool mg p (use_page fuel ops qops p fd DecRefCount f) = Inr (x, mg') \<and>
       mgr_ok rinv rcap qrep mg' \<and> mgr_step mg fd p (page_of mg fd p) mg'" if "f ?b = Inr (x, ?b)" for f x
      using mgr_put_pool [OF ok a(6,7)] unfolding run [of f x ?b DecRefCount, OF that] same page_of_def
      by blast
    show "\<exists>mg'. on_pool mg p (use_page fuel ops qops p fd (DecRefCount_write True False) f) = Inr (x, mg') \<and>
       mgr_ok rinv rcap qrep mg' \<and> mgr_step mg fd p (visible (file_of ?d fd) p b') mg'"
      if "f ?b = Inr (x, b')" "length b' = PAGE_SIZE_FILE" for f x b'
      using mgr_put_pool [OF ok a(8,9) [OF that(2)]]
      unfolding run [of f x b' "DecRefCount_write True False", OF that(1)]
      by blast
  qed
qed

lemma page_in_file:
  assumes "is_open mg fd" "mgr_ok rinv rcap qrep mg" "unat p * PAGE_SIZE_FILE < file_length mg fd"
  shows "in_file (mg_disk mg) fd p" "file_length mg fd \<le> PAGE_SIZE_FILE * 2 ^ 32"
  using assms by (auto simp: in_file_def is_open_def file_length_def mgr_ok_def)

text \<open>The page after \<open>p\<close>, as long as the file goes on.\<close>

lemma next_page:
  assumes "(unat p + 1) * PAGE_SIZE_FILE < L" "L \<le> PAGE_SIZE_FILE * 2 ^ 32"
  shows "unat (p + 1 :: fpage_id) = unat p + 1"
proof -
  have "unat p + 1 < 4294967296" using assms by (simp add: PAGE_SIZE_FILE_def)
  then show ?thesis by (subst unat_add_lem [THEN iffD1]) simp_all
qed

text \<open>One round covers \<open>sz\<close> bytes and leaves the rest for the following page.\<close>

lemma round_arith:
  assumes off: "unat off < PAGE_SIZE_FILE" and bs: "bs \<noteq> 0" and pos: "pos = unat (p :: fpage_id) * PAGE_SIZE_FILE + unat off"
    and le: "pos + unat bs \<le> L" "L \<le> PAGE_SIZE_FILE * 2 ^ 32"
    and fuel: "ceil_div (unat off + unat bs) PAGE_SIZE_FILE < Suc n"
  defines "sz \<equiv> min (unat bs) (PAGE_SIZE_FILE - unat off)"
  shows "unat (clip_to_page off bs) = sz" "unat (bs - clip_to_page off bs) = unat bs - sz"
    "unat bs + unat off < 18446744073709551616" "unat off + sz \<le> PAGE_SIZE_FILE" "sz \<le> unat bs"
    "bs - clip_to_page off bs \<noteq> 0 \<Longrightarrow> pos + sz = unat (p + 1) * PAGE_SIZE_FILE"
    "ceil_div (unat bs - sz) PAGE_SIZE_FILE < n"
proof -
  show lt: "unat bs + unat off < 18446744073709551616" using pos le by (simp add: PAGE_SIZE_FILE_def)
  show c: "unat (clip_to_page off bs) = sz" unfolding sz_def by (rule clip_unat [OF off lt])
  show szle: "unat off + sz \<le> PAGE_SIZE_FILE" "sz \<le> unat bs" using off by (auto simp: sz_def min_def)
  show d: "unat (bs - clip_to_page off bs) = unat bs - sz"
    using c szle(2) by (subst unat_sub) (simp_all add: word_le_nat_alt)
  have nz: "unat bs \<noteq> 0" using bs by (simp add: unat_eq_0)
  show "pos + sz = unat (p + 1) * PAGE_SIZE_FILE" if "bs - clip_to_page off bs \<noteq> 0"
  proof -
    have "unat bs - sz \<noteq> 0" using that d by (metis unat_eq_0)
    then have s: "sz = PAGE_SIZE_FILE - unat off" "PAGE_SIZE_FILE - unat off < unat bs" by (auto simp: sz_def min_def split: if_splits)
    then have "(unat p + 1) * PAGE_SIZE_FILE < L" using pos le off by simp
    then have "unat (p + 1) = unat p + 1" using le(2) by (rule next_page)
    then show ?thesis using pos s(1) off by simp
  qed
  show "ceil_div (unat bs - sz) PAGE_SIZE_FILE < n"
  proof (cases "unat bs \<le> PAGE_SIZE_FILE - unat off")
    case True
    then have "ceil_div (unat bs - sz) PAGE_SIZE_FILE = 0" by (simp add: sz_def ceil_div_def)
    moreover have "0 < ceil_div (unat off + unat bs) PAGE_SIZE_FILE"
      using nz ceil_div_bounds(1) [of PAGE_SIZE_FILE "unat off + unat bs"] by (metis PAGE_pos add_is_0 le_zero_eq mult_is_0 neq0_conv)
    ultimately show ?thesis using fuel by simp
  next
    case False
    then have e: "unat off + unat bs = (unat bs - sz) + PAGE_SIZE_FILE" using off by (simp add: sz_def)
    have "ceil_div (unat off + unat bs) PAGE_SIZE_FILE = ceil_div (unat bs - sz) PAGE_SIZE_FILE + 1"
      unfolding e by (simp add: ceil_div_def PAGE_SIZE_FILE_def)
    then show ?thesis using fuel by simp
  qed
qed

lemma get_loop_ok:
  assumes laws: "fifo_laws qops qrep" and fuel: "4 \<le> fuel"
  shows "mgr_ok rinv rcap qrep mg \<Longrightarrow> is_open mg fd \<Longrightarrow> unat off < PAGE_SIZE_FILE \<Longrightarrow>
    bs \<noteq> 0 \<longrightarrow> pos = unat p * PAGE_SIZE_FILE + unat off \<Longrightarrow> pos + unat bs \<le> file_length mg fd \<Longrightarrow>
    unat bs \<le> length buf \<Longrightarrow> ceil_div (unat off + unat bs) PAGE_SIZE_FILE < n \<Longrightarrow>
    \<exists>mg'. get_loop n fuel ops qops fd buf p off bs mg =
        Inr (take (unat bs) (drop pos (file_bytes mg fd)) @ drop (unat bs) buf, mg') \<and>
      mgr_ok rinv rcap qrep mg' \<and>
      (\<forall>fd'. is_open mg' fd' = is_open mg fd' \<and> (is_open mg fd' \<longrightarrow> file_bytes mg' fd' = file_bytes mg fd'))"
proof (induction n arbitrary: mg buf p off bs pos)
  case (Suc n)
  show ?case
  proof (cases "bs = 0")
    case False
    let ?c = "clip_to_page off bs"
    define sz where "sz = min (unat bs) (PAGE_SIZE_FILE - unat off)"
    have pos: "pos = unat p * PAGE_SIZE_FILE + unat off" using Suc.prems(4) False by simp
    have nz: "unat bs \<noteq> 0" using False by (simp add: unat_eq_0)
    have inf: "in_file (mg_disk mg) fd p" "file_length mg fd \<le> PAGE_SIZE_FILE * 2 ^ 32"
      using page_in_file [OF Suc.prems(2,1), of p] pos Suc.prems(5) nz by auto
    note ra = round_arith [OF Suc.prems(3) False pos Suc.prems(5) inf(2) Suc.prems(7), folded sz_def]
    obtain b where b: "length b = PAGE_SIZE_FILE" "visible (file_of (mg_disk mg) fd) p b = page_of mg fd p"
      "\<And>(f :: byte list \<Rightarrow> ((u64 \<times> byte list) \<times> byte list) res) x. f b = Inr (x, b) \<Longrightarrow>
         \<exists>mg'. on_pool mg p (use_page fuel ops qops p fd DecRefCount f) = Inr (x, mg') \<and>
         mgr_ok rinv rcap qrep mg' \<and> mgr_step mg fd p (page_of mg fd p) mg'"
      by (rule use_page_ok [OF laws Suc.prems(1) inf(1) fuel]) blast
    let ?f = "\<lambda>page. bindE (pti_GetObject page buf off bs) (\<lambda>r. Inr (r, page))"
    have "?f b = Inr ((?c, take sz (drop (unat off) b) @ drop sz buf), b)"
      using pti_GetObject_ok [OF b(1) Suc.prems(3) ra(3) Suc.prems(6)] by (simp add: sz_def)
    from b(3) [of ?f, OF this] obtain mg1 where m1:
      "on_pool mg p (use_page fuel ops qops p fd DecRefCount ?f) = Inr ((?c, take sz (drop (unat off) b) @ drop sz buf), mg1)"
      "mgr_ok rinv rcap qrep mg1" "mgr_step mg fd p (page_of mg fd p) mg1" by blast
    have o1: "is_open mg1 fd' = is_open mg fd'" for fd' using m1(3) by (rule mgr_step_open)
    have e1: "is_open mg fd' \<Longrightarrow> file_bytes mg1 fd' = file_bytes mg fd'" for fd' by (rule mgr_step_same [OF m1(3)])
    have len: "length (take sz (drop (unat off) b)) = sz" using b(1) ra(4) by simp
    have slice: "take sz (drop (unat off) b) = take sz (drop pos (file_bytes mg fd))"
      unfolding pos using b ra(4,5) Suc.prems(5) pos by (intro file_bytes_slice) simp_all
    have l1: "file_length mg1 fd = file_length mg fd" using m1(3) Suc.prems(2) by (simp add: mgr_step_def)
    have "\<exists>mg'. get_loop n fuel ops qops fd (drop sz buf) (p + 1) 0 (bs - ?c) mg1 =
        Inr (take (unat (bs - ?c)) (drop (pos + sz) (file_bytes mg1 fd)) @ drop (unat (bs - ?c)) (drop sz buf), mg') \<and>
      mgr_ok rinv rcap qrep mg' \<and>
      (\<forall>fd'. is_open mg' fd' = is_open mg1 fd' \<and> (is_open mg1 fd' \<longrightarrow> file_bytes mg' fd' = file_bytes mg1 fd'))"
    proof (rule Suc.IH [OF m1(2)])
      show "bs - ?c \<noteq> 0 \<longrightarrow> pos + sz = unat (p + 1) * PAGE_SIZE_FILE + unat (0 :: u64)" using ra(6) by simp
      show "pos + sz + unat (bs - ?c) \<le> file_length mg1 fd" using Suc.prems(5) ra(2,5) l1 by simp
    qed (use o1 Suc.prems ra in simp_all)
    then obtain mg' where m': "get_loop n fuel ops qops fd (drop sz buf) (p + 1) 0 (bs - ?c) mg1 =
        Inr (take (unat bs - sz) (drop (pos + sz) (file_bytes mg fd)) @ drop (unat bs) buf, mg')"
      "mgr_ok rinv rcap qrep mg'"
      "\<forall>fd'. is_open mg' fd' = is_open mg fd' \<and> (is_open mg fd' \<longrightarrow> file_bytes mg' fd' = file_bytes mg fd')"
      using o1 e1 Suc.prems(2) ra(2,5) by auto
    have "take (unat bs) (drop pos (file_bytes mg fd)) =
        take sz (drop pos (file_bytes mg fd)) @ take (unat bs - sz) (drop (pos + sz) (file_bytes mg fd))"
      using ra(5) take_add [of sz "unat bs - sz" "drop pos (file_bytes mg fd)"] by (simp add: add.commute)
    then show ?thesis
      using False m1(1) m' len ra(1) slice by (simp add: Let_def)
  qed (use Suc.prems in auto)
qed simp

lemma set_loop_ok:
  assumes laws: "fifo_laws qops qrep" and fuel: "4 \<le> fuel"
  shows "mgr_ok rinv rcap qrep mg \<Longrightarrow> is_open mg fd \<Longrightarrow> unat off < PAGE_SIZE_FILE \<Longrightarrow>
    bs \<noteq> 0 \<longrightarrow> pos = unat p * PAGE_SIZE_FILE + unat off \<Longrightarrow> pos + unat bs \<le> file_length mg fd \<Longrightarrow>
    unat bs \<le> length buf \<Longrightarrow> ceil_div (unat off + unat bs) PAGE_SIZE_FILE < n \<Longrightarrow>
    \<exists>mg'. set_loop n fuel ops qops fd False buf p off bs mg = Inr (0, mg') \<and>
      mgr_ok rinv rcap qrep mg' \<and>
      (\<forall>fd'. is_open mg' fd' = is_open mg fd' \<and> (is_open mg fd' \<longrightarrow> file_bytes mg' fd' =
         (if fd' = fd then put_bytes (file_bytes mg fd) pos (take (unat bs) buf) else file_bytes mg fd')))"
proof (induction n arbitrary: mg buf p off bs pos)
  case (Suc n)
  show ?case
  proof (cases "bs = 0")
    case False
    let ?c = "clip_to_page off bs"
    define sz where "sz = min (unat bs) (PAGE_SIZE_FILE - unat off)"
    have pos: "pos = unat p * PAGE_SIZE_FILE + unat off" using Suc.prems(4) False by simp
    have nz: "unat bs \<noteq> 0" using False by (simp add: unat_eq_0)
    have inf: "in_file (mg_disk mg) fd p" "file_length mg fd \<le> PAGE_SIZE_FILE * 2 ^ 32"
      using page_in_file [OF Suc.prems(2,1), of p] pos Suc.prems(5) nz by auto
    note ra = round_arith [OF Suc.prems(3) False pos Suc.prems(5) inf(2) Suc.prems(7), folded sz_def]
    obtain b where b: "length b = PAGE_SIZE_FILE" "visible (file_of (mg_disk mg) fd) p b = page_of mg fd p"
      "\<And>(f :: byte list \<Rightarrow> (u64 \<times> byte list) res) x b'. f b = Inr (x, b') \<Longrightarrow> length b' = PAGE_SIZE_FILE \<Longrightarrow>
         \<exists>mg'. on_pool mg p (use_page fuel ops qops p fd (DecRefCount_write True False) f) = Inr (x, mg') \<and>
         mgr_ok rinv rcap qrep mg' \<and> mgr_step mg fd p (visible (file_of (mg_disk mg) fd) p b') mg'"
      by (rule use_page_ok [OF laws Suc.prems(1) inf(1) fuel]) blast
    let ?f = "\<lambda>page. pti_SetObject buf page off bs"
    let ?b = "take (unat off) b @ take sz buf @ drop (unat off + length (take sz buf)) b"
    have sl: "length (take sz buf) = sz" using ra(5) Suc.prems(6) by simp
    have "?f b = Inr (?c, ?b)" "length ?b = PAGE_SIZE_FILE"
      using pti_SetObject_ok [OF b(1) Suc.prems(3) ra(3) Suc.prems(6)] sl b(1) ra(4) by (simp_all add: sz_def)
    from b(3) [of ?f, OF this] obtain mg1 where m1:
      "on_pool mg p (use_page fuel ops qops p fd (DecRefCount_write True False) ?f) = Inr (?c, mg1)"
      "mgr_ok rinv rcap qrep mg1" "mgr_step mg fd p (visible (file_of (mg_disk mg) fd) p ?b) mg1" by blast
    have o1: "is_open mg1 fd' = is_open mg fd'" for fd' using m1(3) by (rule mgr_step_open)
    have e1: "file_bytes mg1 fd = put_bytes (file_bytes mg fd) pos (take sz buf)"
      unfolding pos using b(1,2) sl ra(4,5) Suc.prems(2,5) inf(2) pos by (intro file_bytes_put [OF m1(3)]) simp_all
    have e2: "is_open mg fd' \<Longrightarrow> fd' \<noteq> fd \<Longrightarrow> file_bytes mg1 fd' = file_bytes mg fd'" for fd'
      by (rule mgr_step_other [OF m1(3)])
    have l1: "file_length mg1 fd = file_length mg fd" using m1(3) Suc.prems(2) by (simp add: mgr_step_def)
    have "\<exists>mg'. set_loop n fuel ops qops fd False (drop sz buf) (p + 1) 0 (bs - ?c) mg1 = Inr (0, mg') \<and>
      mgr_ok rinv rcap qrep mg' \<and>
      (\<forall>fd'. is_open mg' fd' = is_open mg1 fd' \<and> (is_open mg1 fd' \<longrightarrow> file_bytes mg' fd' =
         (if fd' = fd then put_bytes (file_bytes mg1 fd) (pos + sz) (take (unat (bs - ?c)) (drop sz buf))
          else file_bytes mg1 fd')))"
    proof (rule Suc.IH [OF m1(2)])
      show "bs - ?c \<noteq> 0 \<longrightarrow> pos + sz = unat (p + 1) * PAGE_SIZE_FILE + unat (0 :: u64)" using ra(6) by simp
      show "pos + sz + unat (bs - ?c) \<le> file_length mg1 fd" using Suc.prems(5) ra(2,5) l1 by simp
    qed (use o1 Suc.prems ra in simp_all)
    then obtain mg' where m': "set_loop n fuel ops qops fd False (drop sz buf) (p + 1) 0 (bs - ?c) mg1 = Inr (0, mg')"
      "mgr_ok rinv rcap qrep mg'" "\<And>fd'. is_open mg' fd' = is_open mg1 fd'"
      "\<And>fd'. is_open mg1 fd' \<Longrightarrow> file_bytes mg' fd' =
         (if fd' = fd then put_bytes (file_bytes mg1 fd) (pos + sz) (take (unat (bs - ?c)) (drop sz buf))
          else file_bytes mg1 fd')" by blast
    have "put_bytes (file_bytes mg1 fd) (pos + sz) (take (unat bs - sz) (drop sz buf)) =
        put_bytes (file_bytes mg fd) pos (take sz buf @ take (unat bs - sz) (drop sz buf))"
      unfolding e1 using put_bytes_append [of pos "take sz buf"] sl Suc.prems(5) ra(5) by simp
    also have "take sz buf @ take (unat bs - sz) (drop sz buf) = take (unat bs) buf"
      using ra(5) take_add [of sz "unat bs - sz" buf] by simp
    finally have "file_bytes mg' fd' = (if fd' = fd then put_bytes (file_bytes mg fd) pos (take (unat bs) buf)
        else file_bytes mg fd')" if "is_open mg fd'" for fd'
      using m'(4) [of fd'] that o1 e2 ra(2) by simp
    then show ?thesis
      using False m1(1) m'(1-3) ra(1) o1 by simp
  qed (use Suc.prems in auto)
qed simp

end

section \<open>Properties\<close>

lemma block_start:
  assumes "unat (file_offset :: u64) < PAGE_SIZE_FILE * 2 ^ 32"
  shows "unat file_offset = unat (ucast (drop_bit LOG_PAGE_SIZE_FILE file_offset) :: fpage_id) * PAGE_SIZE_FILE +
      unat (file_offset mod word_of_nat PAGE_SIZE_FILE)"
proof -
  have "unat file_offset div 4096 < 4294967296" using assms by (simp add: PAGE_SIZE_FILE_def)
  then have "unat (ucast (drop_bit LOG_PAGE_SIZE_FILE file_offset) :: fpage_id) = unat file_offset div 4096"
    by (simp add: LOG_PAGE_SIZE_FILE_def unsigned_ucast_eq unat_drop_bit_eq drop_bit_eq_div take_bit_eq_mod unat_div_distrib)
  moreover have "unat (file_offset mod word_of_nat PAGE_SIZE_FILE) = unat file_offset mod 4096"
    by (simp add: PAGE_SIZE_FILE_def unat_mod_distrib)
  ultimately show ?thesis by (simp add: PAGE_SIZE_FILE_def)
qed

lemma offset_in_page: "unat (file_offset mod word_of_nat PAGE_SIZE_FILE :: u64) < PAGE_SIZE_FILE"
  by (simp add: PAGE_SIZE_FILE_def unat_mod_distrib)

text \<open>Rounds of the loop that are enough: the pages the block touches, and one to find it done.\<close>

definition enough_rounds :: "nat \<Rightarrow> u64 \<Rightarrow> u64 \<Rightarrow> bool" where
  "enough_rounds n file_offset block_size \<longleftrightarrow>
     ceil_div (unat (file_offset mod word_of_nat PAGE_SIZE_FILE) + unat block_size) PAGE_SIZE_FILE < n"

lemma block_inside:
  assumes "mgr_ok rinv rcap qrep mg" "is_open mg fd" "unat (file_offset :: u64) + unat (bs :: u64) \<le> file_length mg fd"
  shows "bs \<noteq> 0 \<longrightarrow> unat file_offset = unat (ucast (drop_bit LOG_PAGE_SIZE_FILE file_offset) :: fpage_id) * PAGE_SIZE_FILE +
      unat (file_offset mod word_of_nat PAGE_SIZE_FILE)"
proof
  assume "bs \<noteq> 0"
  then have "unat bs \<noteq> 0" by (simp add: unat_eq_0)
  then have "unat file_offset < file_length mg fd" using assms(3) by simp
  also have "\<dots> \<le> PAGE_SIZE_FILE * 2 ^ 32"
    using assms(1,2) by (simp add: mgr_ok_def is_open_def file_length_def)
  finally have "unat file_offset < PAGE_SIZE_FILE * 2 ^ 32" .
  then show "unat file_offset = unat (ucast (drop_bit LOG_PAGE_SIZE_FILE file_offset) :: fpage_id) * PAGE_SIZE_FILE +
      unat (file_offset mod word_of_nat PAGE_SIZE_FILE)" by (rule block_start)
qed

text \<open>C1: reading a block returns the bytes of the file.  Within an open file, \<open>GetBlock\<close> returns 0, fills
  the buffer with exactly the requested range and nothing past it, keeps the invariant, and leaves
  the contents of every file as they are, whatever it loads and evicts.\<close>

theorem GetBlock_reads:
  assumes "fifo_laws qops qrep" "mgr_ok s3_inv s3_cap qrep mg" "is_open mg fd"
    and "unat file_offset + unat block_size \<le> file_length mg fd" "unat block_size \<le> length buf"
    and "enough_rounds n file_offset block_size"
  shows "\<exists>mg'. GetBlock n 4 s3_ops qops mg buf file_offset block_size fd =
      Inr (0, take (unat block_size) (drop (unat file_offset) (file_bytes mg fd)) @ drop (unat block_size) buf, mg') \<and>
    mgr_ok s3_inv s3_cap qrep mg' \<and>
    (\<forall>fd'. is_open mg fd' \<longrightarrow> is_open mg' fd' \<and> file_bytes mg' fd' = file_bytes mg fd')"
  using sieve3.get_loop_ok [OF assms(1) order_refl assms(2,3) offset_in_page block_inside [OF assms(2,3,4)]
      assms(4,5) assms(6) [unfolded enough_rounds_def]]
  by (auto simp: GetBlock_def)

text \<open>C2: writing a block replaces exactly the given range of the file.  Within an open file, \<open>SetBlock\<close>
  without flushing returns 0, keeps the invariant, and changes no other byte of this or any other
  file.\<close>

theorem SetBlock_writes:
  assumes "fifo_laws qops qrep" "mgr_ok s3_inv s3_cap qrep mg" "is_open mg fd"
    and "unat file_offset + unat block_size \<le> file_length mg fd" "unat block_size \<le> length buf"
    and "enough_rounds n file_offset block_size"
  shows "\<exists>mg'. SetBlock n 4 s3_ops qops mg buf file_offset block_size fd False = Inr (0, mg') \<and>
    mgr_ok s3_inv s3_cap qrep mg' \<and>
    (\<forall>fd'. is_open mg fd' \<longrightarrow> is_open mg' fd' \<and> file_bytes mg' fd' =
       (if fd' = fd then put_bytes (file_bytes mg fd) (unat file_offset) (take (unat block_size) buf)
        else file_bytes mg fd'))"
  using sieve3.set_loop_ok [OF assms(1) order_refl assms(2,3) offset_in_page block_inside [OF assms(2,3,4)]
      assms(4,5) assms(6) [unfolded enough_rounds_def]]
  by (auto simp: SetBlock_def)

text \<open>A manager of one pool, the small one.\<close>

definition small_mgr :: "sieve3 \<Rightarrow> (sieve3, frame list) manager" where
  "small_mgr r = \<lparr>mg_pools = [small_pool r], mg_disk = small_disk,
     mg_partitioner = \<lparr>num_partitions = 1, log2_num_partitions = 0\<rparr>, mg_pool_num = 1\<rparr>"

lemma small_opened: "opened small_disk fd \<longleftrightarrow> fd = 0"
proof
  assume "opened small_disk fd"
  then have "unat fd < 1" by (simp add: opened_def file_ok_def small_disk_def OpenFile_def)
  then show "fd = 0" by (simp add: unat_eq_0)
qed (simp add: small_disk_file)

lemma small_mgr_ok:
  obtains r where "mgr_ok s3_inv s3_cap (=) (small_mgr r)" "is_open (small_mgr r) 0" "file_length (small_mgr r) 0 = 5000"
proof -
  obtain r where r: "pool_ok s3_inv s3_cap (=) 0 (small_pool r) small_disk" by (rule small_pool_ok)
  have pool: "pool_of (small_mgr r) p = 0" for p
    by (simp add: pool_of_def small_mgr_def GetPartitionId_def)
  have len: "length (file_of small_disk 0) = 5000" using small_disk_file(1) by simp
  have word: "pt_word small_pt 0 p \<noteq> None" if "unat p * 4096 < 5000" for p
  proof -
    have "unat p = 0 \<or> unat p = 1" using that by auto
    then have "p = 0 \<or> p = 1" by (auto simp: word_unat_eq_iff)
    then show ?thesis by (auto simp: small_pt_word)
  qed
  have room: "has_room small_pt"
    using small_pt_held(2) by (auto simp: has_room_def small_pt_sel less_2_cases_iff mk_pte_def pt_simps EMPTY_PTE_ref)
  have "mgr_ok s3_inv s3_cap (=) (small_mgr r)"
    unfolding mgr_ok_def pool
    using r room len word
    by (auto simp: small_mgr_def partitioner_wf_def small_pt_sel in_file_def small_opened PAGE_SIZE_FILE_def)
  then show thesis
    using len by (intro that) (simp_all add: is_open_def file_length_def small_mgr_def small_opened)
qed

lemma GetBlock_reads_witness:
  "\<exists>r mg'. GetBlock 3 4 s3_ops list_queue (small_mgr r) (replicate 20 0) 4090 20 0 =
     Inr (0, take 20 (drop 4090 (file_bytes (small_mgr r) 0)), mg')"
proof -
  obtain r where r: "mgr_ok s3_inv s3_cap (=) (small_mgr r)" "is_open (small_mgr r) 0" "file_length (small_mgr r) 0 = 5000"
    by (rule small_mgr_ok)
  have "enough_rounds 3 4090 20" by code_simp
  then show ?thesis
    using GetBlock_reads [OF list_queue_laws r(1,2), of 4090 20 "replicate 20 0" 3] r(3) by auto
qed

lemma SetBlock_writes_witness:
  "\<exists>r mg'. SetBlock 3 4 s3_ops list_queue (small_mgr r) (replicate 20 1) 4090 20 0 False = Inr (0, mg') \<and>
     file_bytes mg' 0 = put_bytes (file_bytes (small_mgr r) 0) 4090 (replicate 20 1)"
proof -
  obtain r where r: "mgr_ok s3_inv s3_cap (=) (small_mgr r)" "is_open (small_mgr r) 0" "file_length (small_mgr r) 0 = 5000"
    by (rule small_mgr_ok)
  have "enough_rounds 3 4090 20" by code_simp
  then obtain mg' where mg': "SetBlock 3 4 s3_ops list_queue (small_mgr r) (replicate 20 1) 4090 20 0 False = Inr (0, mg')"
    "\<And>fd'. is_open (small_mgr r) fd' \<Longrightarrow> file_bytes mg' fd' =
       (if fd' = 0 then put_bytes (file_bytes (small_mgr r) 0) (unat (4090 :: u64)) (take (unat (20 :: u64)) (replicate 20 1))
        else file_bytes (small_mgr r) fd')"
    using SetBlock_writes [OF list_queue_laws r(1,2), of 4090 20 "replicate 20 1" 3] r(3) by auto
  show ?thesis using mg'(1) mg'(2) [OF r(2)] by auto
qed

end
