(* ===== verification/DirectCache.thy ===== *)
theory DirectCache
  imports PageTable
begin

text \<open>
  The per-thread caches of page-table entries (\<^verbatim>\<open>include/directcache/\<close>).  A cache is an array of nodes,
  indexed by a hash of the page; a node holds one pin on its entry, however many blocks use it, and
  counts those uses.  The code selects \<open>DirectCacheImpl1\<close>; the variants 2 to 5 are modelled beside it.
  An entry is named by the number of its pool and its frame; the entries themselves live in a store
  that the caches read and update through \<open>pte_store\<close> (the manager's pools, see theory \<open>CachedBlocks\<close>).
\<close>

datatype pte_ref = PTE_ref (ref_pool: nat) (ref_frame: mpage_id)

record 's pte_store =
  ps_get :: "'s \<Rightarrow> pte_ref \<Rightarrow> pte res"
  ps_put :: "'s \<Rightarrow> pte_ref \<Rightarrow> pte \<Rightarrow> 's"

definition DIRECT_CACHE_SIZE :: nat where
  "DIRECT_CACHE_SIZE = 256 * 8"

text \<open>The shift is by \<open>sizeof(fpage_id_type)\<close>, which is 4, in 32-bit arithmetic.\<close>

definition DirectCache_HASH_FUNC :: "file_handle \<Rightarrow> fpage_id \<Rightarrow> nat \<Rightarrow> nat" where
  "DirectCache_HASH_FUNC fd fpage_id capacity = unat (push_bit 4 fd + fpage_id) mod capacity"

text \<open>\<open>pte_cur->DecRefCount()\<close>\<close>

definition release_ref :: "'s pte_store \<Rightarrow> 's \<Rightarrow> pte_ref \<Rightarrow> 's res" where
  "release_ref st s r = bindE (ps_get st s r) (\<lambda>w. Inr (ps_put st s r (DecRefCount w)))"

section \<open>\<open>DirectCacheImpl1\<close>\<close>

record dc_node =
  dn_count :: u16
  dn_pte :: "pte_ref option"

record direct_cache =
  dc_nodes :: "dc_node list"
  dc_capacity :: nat

definition empty_node :: dc_node where
  "empty_node = \<lparr>dn_count = 0, dn_pte = None\<rparr>"

definition dc1_new :: "nat \<Rightarrow> direct_cache" where
  "dc1_new capacity = \<lparr>dc_nodes = replicate capacity empty_node, dc_capacity = capacity\<rparr>"

fun dc1_clean_nodes :: "'s pte_store \<Rightarrow> dc_node list \<Rightarrow> 's \<Rightarrow> (dc_node list \<times> 's) res" where
  "dc1_clean_nodes st [] s = Inr ([], s)"
| "dc1_clean_nodes st (n # ns) s =
     bindE (case dn_pte n of None \<Rightarrow> Inr s
       | Some r \<Rightarrow> bindE (assertE (dn_count n = 0)) (\<lambda>_. release_ref st s r)) (\<lambda>s.
     bindE (dc1_clean_nodes st ns s) (\<lambda>(ns, s). Inr (empty_node # ns, s)))"

definition dc1_Clean :: "'s pte_store \<Rightarrow> direct_cache \<Rightarrow> 's \<Rightarrow> (bool \<times> direct_cache \<times> 's) res" where
  "dc1_Clean st dc s =
     bindE (dc1_clean_nodes st (dc_nodes dc) s) (\<lambda>(ns, s). Inr (True, dc\<lparr>dc_nodes := ns\<rparr>, s))"

definition dc1_Insert ::
  "'s pte_store \<Rightarrow> direct_cache \<Rightarrow> 's \<Rightarrow> file_handle \<Rightarrow> fpage_id \<Rightarrow> pte_ref \<Rightarrow> (bool \<times> direct_cache \<times> 's) res" where
  "dc1_Insert st dc s fd p r =
     (let index = DirectCache_HASH_FUNC fd p (dc_capacity dc) in
      bindE (arr_get (dc_nodes dc) index) (\<lambda>n.
      if dn_pte n = None \<or> dn_count n = 0 then
        bindE (case dn_pte n of None \<Rightarrow> Inr s | Some r0 \<Rightarrow> release_ref st s r0) (\<lambda>s.
        Inr (True, dc\<lparr>dc_nodes := (dc_nodes dc)[index := \<lparr>dn_count = 1, dn_pte = Some r\<rparr>]\<rparr>, s))
      else Inr (False, dc, s)))"

definition dc1_Find ::
  "'s pte_store \<Rightarrow> direct_cache \<Rightarrow> 's \<Rightarrow> file_handle \<Rightarrow> fpage_id \<Rightarrow> (pte_ref option \<times> direct_cache) res" where
  "dc1_Find st dc s fd p =
     (let index = DirectCache_HASH_FUNC fd p (dc_capacity dc) in
      bindE (arr_get (dc_nodes dc) index) (\<lambda>n.
      case dn_pte n of None \<Rightarrow> Inr (None, dc)
      | Some r \<Rightarrow> bindE (ps_get st s r) (\<lambda>w.
          if pte_fd_cur w = fd \<and> pte_fpage_id_cur w = p
          then Inr (Some r, dc\<lparr>dc_nodes := (dc_nodes dc)[index := n\<lparr>dn_count := dn_count n + 1\<rparr>]\<rparr>)
          else Inr (None, dc))))"

definition dc1_Erase :: "direct_cache \<Rightarrow> file_handle \<Rightarrow> fpage_id \<Rightarrow> direct_cache res" where
  "dc1_Erase dc fd p =
     (let index = DirectCache_HASH_FUNC fd p (dc_capacity dc) in
      bindE (arr_get (dc_nodes dc) index) (\<lambda>n.
      if dn_pte n \<noteq> None then Inr (dc\<lparr>dc_nodes := (dc_nodes dc)[index := n\<lparr>dn_count := dn_count n - 1\<rparr>]\<rparr>)
      else Inr dc))"

definition dc1_GetIndex :: "direct_cache \<Rightarrow> file_handle \<Rightarrow> fpage_id \<Rightarrow> nat" where
  "dc1_GetIndex dc fd p = unat (push_bit 4 fd + p) mod dc_capacity dc"

section \<open>\<open>DirectCacheImpl3\<close>: a latch that is only ever released\<close>

record dc3_node = dc_node +
  dn_latch :: bool

record direct_cache3 =
  dc3_nodes :: "dc3_node list"
  dc3_capacity :: nat

definition dc3_Insert ::
  "'s pte_store \<Rightarrow> direct_cache3 \<Rightarrow> 's \<Rightarrow> file_handle \<Rightarrow> fpage_id \<Rightarrow> pte_ref \<Rightarrow> (bool \<times> direct_cache3 \<times> 's) res" where
  "dc3_Insert st dc s fd p r =
     (let index = DirectCache_HASH_FUNC fd p (dc3_capacity dc) in
      bindE (arr_get (dc3_nodes dc) index) (\<lambda>n.
      if dn_pte n = None \<or> dn_count n = 0 then
        bindE (case dn_pte n of None \<Rightarrow> Inr s | Some r0 \<Rightarrow> release_ref st s r0) (\<lambda>s.
        Inr (True, dc\<lparr>dc3_nodes := (dc3_nodes dc)[index := \<lparr>dn_count = 1, dn_pte = Some r, dn_latch = False\<rparr>]\<rparr>, s))
      else Inr (False, dc\<lparr>dc3_nodes := (dc3_nodes dc)[index := n\<lparr>dn_latch := False\<rparr>]\<rparr>, s)))"

definition dc3_Find ::
  "'s pte_store \<Rightarrow> direct_cache3 \<Rightarrow> 's \<Rightarrow> file_handle \<Rightarrow> fpage_id \<Rightarrow> (pte_ref option \<times> direct_cache3) res" where
  "dc3_Find st dc s fd p =
     (let index = DirectCache_HASH_FUNC fd p (dc3_capacity dc) in
      bindE (arr_get (dc3_nodes dc) index) (\<lambda>n.
      let unlatched = dc\<lparr>dc3_nodes := (dc3_nodes dc)[index := n\<lparr>dn_latch := False\<rparr>]\<rparr> in
      case dn_pte n of None \<Rightarrow> Inr (None, unlatched)
      | Some r \<Rightarrow> bindE (ps_get st s r) (\<lambda>w.
          if pte_fd_cur w = fd \<and> pte_fpage_id_cur w = p
          then Inr (Some r, dc\<lparr>dc3_nodes := (dc3_nodes dc)[index := n\<lparr>dn_count := dn_count n + 1, dn_latch := False\<rparr>]\<rparr>)
          else Inr (None, unlatched))))"

definition dc3_Erase :: "direct_cache3 \<Rightarrow> file_handle \<Rightarrow> fpage_id \<Rightarrow> direct_cache3 res" where
  "dc3_Erase dc fd p =
     (let index = DirectCache_HASH_FUNC fd p (dc3_capacity dc) in
      bindE (arr_get (dc3_nodes dc) index) (\<lambda>n.
      if dn_pte n \<noteq> None then Inr (dc\<lparr>dc3_nodes := (dc3_nodes dc)[index := n\<lparr>dn_count := dn_count n - 1\<rparr>]\<rparr>)
      else Inr dc))"

fun dc3_clean_nodes :: "'s pte_store \<Rightarrow> dc3_node list \<Rightarrow> 's \<Rightarrow> (dc3_node list \<times> 's) res" where
  "dc3_clean_nodes st [] s = Inr ([], s)"
| "dc3_clean_nodes st (n # ns) s =
     bindE (case dn_pte n of None \<Rightarrow> Inr s
       | Some r \<Rightarrow> bindE (assertE (dn_count n = 0)) (\<lambda>_. release_ref st s r)) (\<lambda>s.
     bindE (dc3_clean_nodes st ns s) (\<lambda>(ns, s). Inr (n\<lparr>dn_count := 0, dn_pte := None\<rparr> # ns, s)))"

definition dc3_Clean :: "'s pte_store \<Rightarrow> direct_cache3 \<Rightarrow> 's \<Rightarrow> (bool \<times> direct_cache3 \<times> 's) res" where
  "dc3_Clean st dc s =
     bindE (dc3_clean_nodes st (dc3_nodes dc) s) (\<lambda>(ns, s). Inr (True, dc\<lparr>dc3_nodes := ns\<rparr>, s))"

section \<open>\<open>DirectCacheImpl4\<close> and \<open>DirectCacheImpl5\<close>: the page is kept in the node\<close>

text \<open>\<open>GBPfile_handle_type fd_cur : 16\<close>; the constructor leaves the page fields uninitialised.\<close>

record dc4_node =
  d4_ref_count :: u16
  d4_fd_cur :: u16
  d4_fpage_id_cur :: fpage_id
  d4_pte :: "pte_ref option"

record direct_cache4 =
  dc4_nodes :: "dc4_node list"
  dc4_capacity :: nat

definition dc4_new :: "nat \<Rightarrow> (nat \<Rightarrow> u16 \<times> fpage_id) \<Rightarrow> direct_cache4" where
  "dc4_new capacity garbage =
     \<lparr>dc4_nodes = map (\<lambda>i. \<lparr>d4_ref_count = 0, d4_fd_cur = fst (garbage i), d4_fpage_id_cur = snd (garbage i),
        d4_pte = None\<rparr>) [0..<capacity], dc4_capacity = capacity\<rparr>"

fun dc4_clean_nodes :: "'s pte_store \<Rightarrow> dc4_node list \<Rightarrow> 's \<Rightarrow> (dc4_node list \<times> 's) res" where
  "dc4_clean_nodes st [] s = Inr ([], s)"
| "dc4_clean_nodes st (n # ns) s =
     bindE (case d4_pte n of None \<Rightarrow> Inr s
       | Some r \<Rightarrow> bindE (assertE (d4_ref_count n = 0)) (\<lambda>_. release_ref st s r)) (\<lambda>s.
     bindE (dc4_clean_nodes st ns s) (\<lambda>(ns, s). Inr (n\<lparr>d4_ref_count := 0, d4_pte := None\<rparr> # ns, s)))"

definition dc4_Clean :: "'s pte_store \<Rightarrow> direct_cache4 \<Rightarrow> 's \<Rightarrow> (bool \<times> direct_cache4 \<times> 's) res" where
  "dc4_Clean st dc s =
     bindE (dc4_clean_nodes st (dc4_nodes dc) s) (\<lambda>(ns, s). Inr (True, dc\<lparr>dc4_nodes := ns\<rparr>, s))"

definition dc4_Insert ::
  "'s pte_store \<Rightarrow> direct_cache4 \<Rightarrow> 's \<Rightarrow> file_handle \<Rightarrow> fpage_id \<Rightarrow> pte_ref \<Rightarrow> (bool \<times> direct_cache4 \<times> 's) res" where
  "dc4_Insert st dc s fd p r =
     (let index = DirectCache_HASH_FUNC fd p (dc4_capacity dc) in
      bindE (arr_get (dc4_nodes dc) index) (\<lambda>n.
      if d4_pte n = None \<or> d4_ref_count n = 0 then
        bindE (case d4_pte n of None \<Rightarrow> Inr s | Some r0 \<Rightarrow> release_ref st s r0) (\<lambda>s.
        bindE (ps_get st s r) (\<lambda>w.
        Inr (True, dc\<lparr>dc4_nodes := (dc4_nodes dc)[index := \<lparr>d4_ref_count = 1, d4_fd_cur = ucast (pte_fd_cur w),
          d4_fpage_id_cur = pte_fpage_id_cur w, d4_pte = Some r\<rparr>]\<rparr>, s)))
      else Inr (False, dc, s)))"

definition dc4_Find ::
  "direct_cache4 \<Rightarrow> file_handle \<Rightarrow> fpage_id \<Rightarrow> (pte_ref option \<times> direct_cache4) res" where
  "dc4_Find dc fd p =
     (let index = DirectCache_HASH_FUNC fd p (dc4_capacity dc) in
      bindE (arr_get (dc4_nodes dc) index) (\<lambda>n.
      if ucast (d4_fd_cur n) = fd \<and> d4_fpage_id_cur n = p
      then Inr (d4_pte n, dc\<lparr>dc4_nodes := (dc4_nodes dc)[index := n\<lparr>d4_ref_count := d4_ref_count n + 1\<rparr>]\<rparr>)
      else Inr (None, dc)))"

definition dc4_Erase :: "direct_cache4 \<Rightarrow> file_handle \<Rightarrow> fpage_id \<Rightarrow> direct_cache4 res" where
  "dc4_Erase dc fd p =
     (let index = DirectCache_HASH_FUNC fd p (dc4_capacity dc) in
      bindE (arr_get (dc4_nodes dc) index) (\<lambda>n.
      if d4_pte n \<noteq> None
      then Inr (dc\<lparr>dc4_nodes := (dc4_nodes dc)[index := n\<lparr>d4_ref_count := d4_ref_count n - 1\<rparr>]\<rparr>)
      else Inr dc))"

text \<open>The fifth variant aligns its nodes to 16 bytes and is otherwise the fourth.\<close>

definition dc5_new :: "nat \<Rightarrow> (nat \<Rightarrow> u16 \<times> fpage_id) \<Rightarrow> direct_cache4" where
  "dc5_new = dc4_new"

definition dc5_Clean :: "'s pte_store \<Rightarrow> direct_cache4 \<Rightarrow> 's \<Rightarrow> (bool \<times> direct_cache4 \<times> 's) res" where
  "dc5_Clean = dc4_Clean"

definition dc5_Insert ::
  "'s pte_store \<Rightarrow> direct_cache4 \<Rightarrow> 's \<Rightarrow> file_handle \<Rightarrow> fpage_id \<Rightarrow> pte_ref \<Rightarrow> (bool \<times> direct_cache4 \<times> 's) res" where
  "dc5_Insert = dc4_Insert"

definition dc5_Find :: "direct_cache4 \<Rightarrow> file_handle \<Rightarrow> fpage_id \<Rightarrow> (pte_ref option \<times> direct_cache4) res" where
  "dc5_Find = dc4_Find"

definition dc5_Erase :: "direct_cache4 \<Rightarrow> file_handle \<Rightarrow> fpage_id \<Rightarrow> direct_cache4 res" where
  "dc5_Erase = dc4_Erase"

section \<open>\<open>DirectCacheImpl2\<close>: eviction of the oldest insertion\<close>

definition CACHE_INDEX_MASK :: u16 where
  "CACHE_INDEX_MASK = 256 * 4"

definition INVALID_CACHE_INDEX :: u16 where
  "INVALID_CACHE_INDEX = 65535"

record dc2_node = dc_node +
  dn_global :: bool

record direct_cache2 =
  dc2_nodes :: "dc2_node list"
  dc2_capacity :: nat
  dc2_eviction :: "u16 list"
  dc2_pointer :: u16

definition dc2_new :: "nat \<Rightarrow> direct_cache2" where
  "dc2_new capacity =
     \<lparr>dc2_nodes = replicate capacity \<lparr>dn_count = 0, dn_pte = None, dn_global = False\<rparr>, dc2_capacity = capacity,
      dc2_eviction = replicate (unat CACHE_INDEX_MASK) INVALID_CACHE_INDEX, dc2_pointer = 0\<rparr>"

text \<open>The \<open>while\<close> loop of \<open>Insert\<close>; \<open>None\<close> is its \<open>return false\<close>.\<close>

fun dc2_scan :: "nat \<Rightarrow> direct_cache2 \<Rightarrow> u16 \<Rightarrow> (u16 option \<times> direct_cache2) res" where
  "dc2_scan 0 dc pointer_tmp = Inl OutOfFuel"
| "dc2_scan (Suc fuel) dc pointer_tmp =
     bindE (arr_get (dc2_eviction dc) (unat pointer_tmp)) (\<lambda>e.
     if e = INVALID_CACHE_INDEX then Inr (Some pointer_tmp, dc)
     else bindE (arr_get (dc2_nodes dc) (unat e)) (\<lambda>n.
       if \<not> dn_global n then Inr (Some pointer_tmp, dc)
       else
         let dc = (if dn_count n = 0 then dc\<lparr>dc2_nodes := (dc2_nodes dc)[unat e := n\<lparr>dn_global := False\<rparr>]\<rparr> else dc);
             pointer_tmp = (pointer_tmp + 1) AND CACHE_INDEX_MASK in
         if pointer_tmp = dc2_pointer dc then Inr (None, dc) else dc2_scan fuel dc pointer_tmp))"

definition dc2_evict :: "'s pte_store \<Rightarrow> direct_cache2 \<Rightarrow> 's \<Rightarrow> u16 \<Rightarrow> (direct_cache2 \<times> 's) res" where
  "dc2_evict st dc s pointer_tmp =
     bindE (arr_get (dc2_eviction dc) (unat pointer_tmp)) (\<lambda>e.
     if e = INVALID_CACHE_INDEX then Inr (dc, s)
     else bindE (arr_get (dc2_nodes dc) (unat e)) (\<lambda>n.
       case dn_pte n of None \<Rightarrow> Inr (dc, s)
       | Some r0 \<Rightarrow> bindE (release_ref st s r0) (\<lambda>s.
           Inr (dc\<lparr>dc2_nodes := (dc2_nodes dc)[unat e := n\<lparr>dn_pte := None\<rparr>]\<rparr>, s))))"

definition dc2_store :: "direct_cache2 \<Rightarrow> nat \<Rightarrow> pte_ref \<Rightarrow> direct_cache2" where
  "dc2_store dc index r =
     dc\<lparr>dc2_nodes := (dc2_nodes dc)[index := \<lparr>dn_count = 1, dn_pte = Some r, dn_global = True\<rparr>]\<rparr>"

definition dc2_Insert ::
  "nat \<Rightarrow> 's pte_store \<Rightarrow> direct_cache2 \<Rightarrow> 's \<Rightarrow> file_handle \<Rightarrow> fpage_id \<Rightarrow> pte_ref \<Rightarrow>
   (bool \<times> direct_cache2 \<times> 's) res" where
  "dc2_Insert fuel st dc s fd p r =
     (let index = DirectCache_HASH_FUNC fd p (dc2_capacity dc) in
      bindE (arr_get (dc2_nodes dc) index) (\<lambda>n.
      if dn_pte n = None \<or> dn_count n = 0 then
        (case dn_pte n of
           Some r0 \<Rightarrow> bindE (release_ref st s r0) (\<lambda>s. Inr (True, dc2_store dc index r, s))
         | None \<Rightarrow> bindE (dc2_scan fuel dc (dc2_pointer dc)) (\<lambda>(found, dc).
             case found of None \<Rightarrow> Inr (False, dc, s)
             | Some pointer_tmp \<Rightarrow> bindE (dc2_evict st dc s pointer_tmp) (\<lambda>(dc, s).
                 bindE (arr_set (dc2_eviction dc) (unat pointer_tmp) (word_of_nat index)) (\<lambda>ev.
                 Inr (True, dc2_store (dc\<lparr>dc2_eviction := ev,
                   dc2_pointer := (pointer_tmp + 1) AND CACHE_INDEX_MASK\<rparr>) index r, s)))))
      else Inr (False, dc, s)))"

definition dc2_Find ::
  "'s pte_store \<Rightarrow> direct_cache2 \<Rightarrow> 's \<Rightarrow> file_handle \<Rightarrow> fpage_id \<Rightarrow> (pte_ref option \<times> direct_cache2) res" where
  "dc2_Find st dc s fd p =
     (let index = DirectCache_HASH_FUNC fd p (dc2_capacity dc) in
      bindE (arr_get (dc2_nodes dc) index) (\<lambda>n.
      case dn_pte n of None \<Rightarrow> Inr (None, dc)
      | Some r \<Rightarrow> bindE (ps_get st s r) (\<lambda>w.
          if pte_fd_cur w = fd \<and> pte_fpage_id_cur w = p
          then Inr (Some r, dc\<lparr>dc2_nodes := (dc2_nodes dc)[index := n\<lparr>dn_count := dn_count n + 1, dn_global := True\<rparr>]\<rparr>)
          else Inr (None, dc))))"

definition dc2_Erase :: "direct_cache2 \<Rightarrow> file_handle \<Rightarrow> fpage_id \<Rightarrow> direct_cache2 res" where
  "dc2_Erase dc fd p =
     (let index = DirectCache_HASH_FUNC fd p (dc2_capacity dc) in
      bindE (arr_get (dc2_nodes dc) index) (\<lambda>n.
      if dn_pte n \<noteq> None then Inr (dc\<lparr>dc2_nodes := (dc2_nodes dc)[index := n\<lparr>dn_count := dn_count n - 1\<rparr>]\<rparr>)
      else Inr dc))"

fun dc2_clean_nodes :: "'s pte_store \<Rightarrow> dc2_node list \<Rightarrow> 's \<Rightarrow> (dc2_node list \<times> 's) res" where
  "dc2_clean_nodes st [] s = Inr ([], s)"
| "dc2_clean_nodes st (n # ns) s =
     bindE (case dn_pte n of None \<Rightarrow> Inr s
       | Some r \<Rightarrow> bindE (assertE (dn_count n = 0)) (\<lambda>_. release_ref st s r)) (\<lambda>s.
     bindE (dc2_clean_nodes st ns s) (\<lambda>(ns, s). Inr (n\<lparr>dn_count := 0, dn_pte := None\<rparr> # ns, s)))"

definition dc2_Clean :: "'s pte_store \<Rightarrow> direct_cache2 \<Rightarrow> 's \<Rightarrow> (bool \<times> direct_cache2 \<times> 's) res" where
  "dc2_Clean st dc s =
     bindE (dc2_clean_nodes st (dc2_nodes dc) s) (\<lambda>(ns, s). Inr (True, dc\<lparr>dc2_nodes := ns\<rparr>, s))"

section \<open>The caches of all threads\<close>

definition direct_cache_num :: nat where
  "direct_cache_num = 256"

definition direct_caches_init :: "direct_cache list" where
  "direct_caches_init = replicate direct_cache_num (dc1_new DIRECT_CACHE_SIZE)"

definition GetDirectCache :: "direct_cache list \<Rightarrow> nat \<Rightarrow> direct_cache res" where
  "GetDirectCache direct_caches thread_id = arr_get direct_caches (thread_id AND 255)"

fun CleanAllCache :: "'s pte_store \<Rightarrow> direct_cache list \<Rightarrow> 's \<Rightarrow> (bool \<times> direct_cache list \<times> 's) res" where
  "CleanAllCache st [] s = Inr (True, [], s)"
| "CleanAllCache st (dc # dcs) s =
     bindE (dc1_Clean st dc s) (\<lambda>(_, dc, s).
     bindE (CleanAllCache st dcs s) (\<lambda>(ok, dcs, s). Inr (ok, dc # dcs, s)))"

section \<open>What the store promises, and the invariant of a cache\<close>

definition store_laws :: "'s pte_store \<Rightarrow> bool" where
  "store_laws st \<longleftrightarrow> (\<forall>s r w v. ps_get st s r = Inr w \<longrightarrow>
     (\<forall>r'. ps_get st (ps_put st s r v) r' = (if r' = r then Inr v else ps_get st s r')))"

text \<open>Every cached entry is pinned and sits in the slot of its page.\<close>

definition dc_ok :: "'s pte_store \<Rightarrow> direct_cache \<Rightarrow> 's \<Rightarrow> bool" where
  "dc_ok st dc s \<longleftrightarrow> length (dc_nodes dc) = dc_capacity dc \<and> 0 < dc_capacity dc \<and>
     (\<forall>i<dc_capacity dc. \<forall>r. dn_pte (dc_nodes dc ! i) = Some r \<longrightarrow>
        (\<exists>w. ps_get st s r = Inr w \<and> pte_ref_count w \<noteq> 0 \<and>
           DirectCache_HASH_FUNC (pte_fd_cur w) (pte_fpage_id_cur w) (dc_capacity dc) = i))"

definition dc_cached :: "direct_cache \<Rightarrow> pte_ref set" where
  "dc_cached dc = {r. \<exists>i<length (dc_nodes dc). dn_pte (dc_nodes dc ! i) = Some r}"

locale pte_store_laws =
  fixes st :: "'s pte_store"
  assumes laws: "store_laws st"
begin

lemma get_put: "ps_get st s r = Inr w \<Longrightarrow> ps_get st (ps_put st s r v) r' = (if r' = r then Inr v else ps_get st s r')"
  using laws by (auto simp: store_laws_def)

lemma hash_less: "0 < cap \<Longrightarrow> DirectCache_HASH_FUNC fd p cap < cap"
  by (simp add: DirectCache_HASH_FUNC_def)

lemma dc_okD:
  assumes "dc_ok st dc s" "i < dc_capacity dc" "dn_pte (dc_nodes dc ! i) = Some r"
  obtains w where "ps_get st s r = Inr w" "pte_ref_count w \<noteq> 0"
    "DirectCache_HASH_FUNC (pte_fd_cur w) (pte_fpage_id_cur w) (dc_capacity dc) = i"
  using assms by (auto simp: dc_ok_def)

lemma release_ref_keeps:
  assumes "ps_get st s r = Inr w" "pte_ref_count w \<noteq> 0"
  obtains s' where "release_ref st s r = Inr s'" "s' = ps_put st s r (w - 1)"
    "\<And>r'. ps_get st s' r' = (if r' = r then Inr (w - 1) else ps_get st s r')"
  using assms get_put by (auto simp: release_ref_def DecRefCount_def)

text \<open>\<open>Find\<close> returns a cached entry of the page, or misses a page that is not cached.\<close>

lemma dc1_Find_cases:
  assumes ok: "dc_ok st dc s" and i_def: "i = DirectCache_HASH_FUNC fd p (dc_capacity dc)"
  obtains (hit) r w where "dc1_Find st dc s fd p =
        Inr (Some r, dc\<lparr>dc_nodes := (dc_nodes dc)[i := (dc_nodes dc ! i)\<lparr>dn_count := dn_count (dc_nodes dc ! i) + 1\<rparr>]\<rparr>)"
      "dn_pte (dc_nodes dc ! i) = Some r" "ps_get st s r = Inr w" "pte_fd_cur w = fd" "pte_fpage_id_cur w = p"
      "pte_ref_count w \<noteq> 0"
  | (miss) "dc1_Find st dc s fd p = Inr (None, dc)"
      "\<And>r w. r \<in> dc_cached dc \<Longrightarrow> ps_get st s r = Inr w \<Longrightarrow> \<not> (pte_fd_cur w = fd \<and> pte_fpage_id_cur w = p)"
proof -
  have len: "i < length (dc_nodes dc)" "i < dc_capacity dc" using ok hash_less by (simp_all add: dc_ok_def i_def)
  have missed: thesis if "dc1_Find st dc s fd p = Inr (None, dc)"
    "\<And>r w. dn_pte (dc_nodes dc ! i) = Some r \<Longrightarrow> ps_get st s r = Inr w \<Longrightarrow>
       \<not> (pte_fd_cur w = fd \<and> pte_fpage_id_cur w = p)"
  proof (rule miss [OF that(1)], intro notI)
    fix r w
    assume r: "r \<in> dc_cached dc" "ps_get st s r = Inr w" "pte_fd_cur w = fd \<and> pte_fpage_id_cur w = p"
    then obtain j where j: "j < dc_capacity dc" "dn_pte (dc_nodes dc ! j) = Some r"
      using ok by (auto simp: dc_cached_def dc_ok_def)
    from dc_okD [OF ok j] r(2,3) have "j = i" by (auto simp: i_def)
    then show False using that(2) j(2) r(2,3) by blast
  qed
  show thesis
  proof (cases "dn_pte (dc_nodes dc ! i)")
    case None
    then show thesis using len by (intro missed) (simp_all add: dc1_Find_def flip: i_def)
  next
    case (Some r)
    then obtain w where w: "ps_get st s r = Inr w" "pte_ref_count w \<noteq> 0"
      using dc_okD [OF ok len(2)] by blast
    show thesis
    proof (cases "pte_fd_cur w = fd \<and> pte_fpage_id_cur w = p")
      case True
      then show thesis using len Some w by (intro hit [of r w]) (simp_all add: dc1_Find_def flip: i_def)
    next
      case False
      then show thesis using len Some w by (intro missed) (auto simp add: dc1_Find_def simp flip: i_def)
    qed
  qed
qed

lemma dc_ok_count:
  assumes "dc_ok st dc s"
  shows "dc_ok st (dc\<lparr>dc_nodes := (dc_nodes dc)[i := (dc_nodes dc ! i)\<lparr>dn_count := c\<rparr>]\<rparr>) s"
proof -
  have "dn_pte ((dc_nodes dc)[i := (dc_nodes dc ! i)\<lparr>dn_count := c\<rparr>] ! j) = dn_pte (dc_nodes dc ! j)" for j
    by (cases "j = i"; cases "i < length (dc_nodes dc)") (simp_all add: not_less list_update_beyond)
  then show ?thesis using assms by (simp add: dc_ok_def)
qed

text \<open>Inserting an entry that is pinned and not cached.\<close>

lemma dc1_Insert_ok:
  assumes ok: "dc_ok st dc s" and w: "ps_get st s r = Inr w" "pte_ref_count w \<noteq> 0"
    and nc: "dn_pte (dc_nodes dc ! DirectCache_HASH_FUNC (pte_fd_cur w) (pte_fpage_id_cur w) (dc_capacity dc)) \<noteq> Some r"
  obtains b dc' s' where "dc1_Insert st dc s (pte_fd_cur w) (pte_fpage_id_cur w) r = Inr (b, dc', s')" "dc_ok st dc' s'"
proof -
  define i where "i = DirectCache_HASH_FUNC (pte_fd_cur w) (pte_fpage_id_cur w) (dc_capacity dc)"
  let ?n = "dc_nodes dc ! i" and ?new = "\<lparr>dn_count = 1, dn_pte = Some r\<rparr>"
  let ?dc = "dc\<lparr>dc_nodes := (dc_nodes dc)[i := ?new]\<rparr>"
  have len: "i < dc_capacity dc" "length (dc_nodes dc) = dc_capacity dc"
    using ok hash_less by (auto simp: dc_ok_def i_def)
  have stored: "dc_ok st ?dc s'" if "ps_get st s' r = Inr w"
    "\<And>j r'. j < dc_capacity dc \<Longrightarrow> j \<noteq> i \<Longrightarrow> dn_pte (dc_nodes dc ! j) = Some r' \<Longrightarrow> ps_get st s' r' = ps_get st s r'" for s'
    using ok len w that by (auto simp: dc_ok_def nth_list_update i_def [symmetric])
  show thesis
  proof (cases "dn_pte ?n = None \<or> dn_count ?n = 0")
    case False
    then have "dc1_Insert st dc s (pte_fd_cur w) (pte_fpage_id_cur w) r = Inr (False, dc, s)"
      using len by (simp add: dc1_Insert_def flip: i_def)
    then show thesis using ok by (rule that)
  next
    case True
    show thesis
    proof (cases "dn_pte ?n")
      case None
      have "dc_ok st ?dc s" using w(1) by (rule stored) simp
      then show thesis using len None by (intro that [of True ?dc s]) (simp_all add: dc1_Insert_def flip: i_def)
    next
      case (Some r0)
      then obtain w0 where w0: "ps_get st s r0 = Inr w0" "pte_ref_count w0 \<noteq> 0"
        "DirectCache_HASH_FUNC (pte_fd_cur w0) (pte_fpage_id_cur w0) (dc_capacity dc) = i"
        using dc_okD [OF ok len(1)] by blast
      obtain s' where s': "release_ref st s r0 = Inr s'"
        "\<And>r'. ps_get st s' r' = (if r' = r0 then Inr (w0 - 1) else ps_get st s r')"
        using release_ref_keeps [OF w0(1,2)] by blast
      have "dc_ok st ?dc s'"
      proof (rule stored)
        show "ps_get st s' r' = ps_get st s r'"
          if "j < dc_capacity dc" "j \<noteq> i" "dn_pte (dc_nodes dc ! j) = Some r'" for j r'
        proof -
          have "r' \<noteq> r0" using dc_okD [OF ok that(1,3)] that(2) w0 by fastforce
          then show ?thesis using s'(2) by simp
        qed
      qed (use s' Some nc w(1) i_def in auto)
      then show thesis using len True Some s' by (intro that [of True ?dc s']) (simp_all add: dc1_Insert_def flip: i_def)
    qed
  qed
qed

end

section \<open>The fourth variant computes what the first does\<close>

datatype dc_op =
    DcFind file_handle fpage_id
  | DcInsert file_handle fpage_id pte_ref
  | DcErase file_handle fpage_id
  | DcClean

datatype dc_answer = Found "pte_ref option" | Answer bool

definition exec1 :: "'s pte_store \<Rightarrow> dc_op \<Rightarrow> direct_cache \<Rightarrow> 's \<Rightarrow> (dc_answer \<times> direct_cache \<times> 's) res" where
  "exec1 st op dc s = (case op of
      DcFind fd p \<Rightarrow> bindE (dc1_Find st dc s fd p) (\<lambda>(r, dc). Inr (Found r, dc, s))
    | DcInsert fd p r \<Rightarrow> bindE (dc1_Insert st dc s fd p r) (\<lambda>(b, dc, s). Inr (Answer b, dc, s))
    | DcErase fd p \<Rightarrow> bindE (dc1_Erase dc fd p) (\<lambda>dc. Inr (Answer True, dc, s))
    | DcClean \<Rightarrow> bindE (dc1_Clean st dc s) (\<lambda>(b, dc, s). Inr (Answer b, dc, s)))"

definition exec4 :: "'s pte_store \<Rightarrow> dc_op \<Rightarrow> direct_cache4 \<Rightarrow> 's \<Rightarrow> (dc_answer \<times> direct_cache4 \<times> 's) res" where
  "exec4 st op dc s = (case op of
      DcFind fd p \<Rightarrow> bindE (dc4_Find dc fd p) (\<lambda>(r, dc). Inr (Found r, dc, s))
    | DcInsert fd p r \<Rightarrow> bindE (dc4_Insert st dc s fd p r) (\<lambda>(b, dc, s). Inr (Answer b, dc, s))
    | DcErase fd p \<Rightarrow> bindE (dc4_Erase dc fd p) (\<lambda>dc. Inr (Answer True, dc, s))
    | DcClean \<Rightarrow> bindE (dc4_Clean st dc s) (\<lambda>(b, dc, s). Inr (Answer b, dc, s)))"

text \<open>How \<open>Insert\<close> is called: with the page of a pinned entry that \<open>Find\<close> has just missed.\<close>

definition dc_op_ok :: "'s pte_store \<Rightarrow> dc_op \<Rightarrow> direct_cache \<Rightarrow> 's \<Rightarrow> bool" where
  "dc_op_ok st op dc s = (case op of
      DcInsert fd p r \<Rightarrow> r \<notin> dc_cached dc \<and> (\<exists>w. ps_get st s r = Inr w \<and> pte_ref_count w \<noteq> 0 \<and>
        pte_fd_cur w = fd \<and> pte_fpage_id_cur w = p)
    | _ \<Rightarrow> True)"

definition node_related :: "'s pte_store \<Rightarrow> 's \<Rightarrow> dc_node \<Rightarrow> dc4_node \<Rightarrow> bool" where
  "node_related st s n n4 \<longleftrightarrow> d4_pte n4 = dn_pte n \<and>
     (\<forall>r w. dn_pte n = Some r \<longrightarrow> ps_get st s r = Inr w \<longrightarrow> d4_ref_count n4 = dn_count n \<and>
        ucast (d4_fd_cur n4) = pte_fd_cur w \<and> d4_fpage_id_cur n4 = pte_fpage_id_cur w)"

definition dc_related :: "'s pte_store \<Rightarrow> 's \<Rightarrow> direct_cache \<Rightarrow> direct_cache4 \<Rightarrow> bool" where
  "dc_related st s dc dc4 \<longleftrightarrow> dc_ok st dc s \<and> dc4_capacity dc4 = dc_capacity dc \<and>
     list_all2 (node_related st s) (dc_nodes dc) (dc4_nodes dc4)"

definition in_step ::
  "'s pte_store \<Rightarrow> (dc_answer \<times> direct_cache \<times> 's) res \<Rightarrow> (dc_answer \<times> direct_cache4 \<times> 's) res \<Rightarrow> bool" where
  "in_step st x y = (case (x, y) of
      (Inr (a, dc, s), Inr (a4, dc4, s4)) \<Rightarrow> a4 = a \<and> s4 = s \<and> dc_related st s dc dc4
    | (Inl e, Inl e4) \<Rightarrow> e4 = e
    | _ \<Rightarrow> False)"

lemma ucast_pte_fd [simp]: "(ucast (ucast (pte_fd_cur w) :: u16) :: u32) = pte_fd_cur w"
  by (rule bit_word_eqI) (auto simp: bit_simps bit_fields)

context pte_store_laws
begin

lemma clean_related:
  "list_all2 (node_related st s0) ns ns4 \<Longrightarrow> (\<forall>n\<in>set ns. \<forall>r. dn_pte n = Some r \<longrightarrow> (\<exists>w. ps_get st s0 r = Inr w)) \<Longrightarrow>
   (case (dc1_clean_nodes st ns s, dc4_clean_nodes st ns4 s) of
      (Inr (ms, s'), Inr (ms4, s4)) \<Rightarrow> s4 = s' \<and> list_all2 (\<lambda>m m4. dn_pte m = None \<and> d4_pte m4 = None) ms ms4 \<and>
        length ms = length ns
    | (Inl e, Inl e4) \<Rightarrow> e4 = e
    | _ \<Rightarrow> False)"
proof (induction arbitrary: s rule: list_all2_induct)
  case (Cons n ns n4 ns4)
  have e: "d4_pte n4 = dn_pte n" "dn_pte n \<noteq> None \<Longrightarrow> d4_ref_count n4 = dn_count n"
    using Cons.hyps(1) Cons.prems by (auto simp: node_related_def)
  let ?rel = "\<lambda>s. case dn_pte n of None \<Rightarrow> Inr s
       | Some r \<Rightarrow> bindE (assertE (dn_count n = 0)) (\<lambda>_. release_ref st s r)"
  have "(case d4_pte n4 of None \<Rightarrow> Inr s
       | Some r \<Rightarrow> bindE (assertE (d4_ref_count n4 = 0)) (\<lambda>_. release_ref st s r)) = ?rel s"
    using e by (cases "dn_pte n") simp_all
  moreover have "(case (dc1_clean_nodes st ns s1, dc4_clean_nodes st ns4 s1) of
      (Inr (ms, s'), Inr (ms4, s4)) \<Rightarrow> s4 = s' \<and> list_all2 (\<lambda>m m4. dn_pte m = None \<and> d4_pte m4 = None) ms ms4 \<and>
        length ms = length ns
    | (Inl e, Inl e4) \<Rightarrow> e4 = e
    | _ \<Rightarrow> False)" for s1
    using Cons.IH Cons.prems by simp
  ultimately show ?case
    by (cases "?rel s") (force simp: empty_node_def bindE_def split: sum.splits)+
qed simp

lemma related_nth:
  assumes "dc_related st s dc dc4" "i < dc_capacity dc"
  shows "node_related st s (dc_nodes dc ! i) (dc4_nodes dc4 ! i)" "i < length (dc_nodes dc)" "i < length (dc4_nodes dc4)"
  using assms by (auto simp: dc_related_def dc_ok_def list_all2_conv_all_nth)

lemma related_update:
  "dc_related st s dc dc4 \<Longrightarrow> node_related st s x y \<Longrightarrow>
   list_all2 (node_related st s) ((dc_nodes dc)[i := x]) ((dc4_nodes dc4)[i := y])"
  by (intro list_all2_update_cong) (simp_all add: dc_related_def)

lemma in_step_Find: "dc_related st s dc dc4 \<Longrightarrow> in_step st (exec1 st (DcFind fd p) dc s) (exec4 st (DcFind fd p) dc4 s)"
proof -
  assume r: "dc_related st s dc dc4"
  define i where "i = DirectCache_HASH_FUNC fd p (dc_capacity dc)"
  have ok: "dc_ok st dc s" and cap: "dc4_capacity dc4 = dc_capacity dc" using r by (simp_all add: dc_related_def)
  have i: "i < dc_capacity dc" using ok hash_less by (simp add: dc_ok_def i_def)
  note n = related_nth [OF r i]
  let ?n = "dc_nodes dc ! i" and ?n4 = "dc4_nodes dc4 ! i"
  show ?thesis
  proof (cases "dn_pte ?n")
    case None
    then have "node_related st s ?n (?n4\<lparr>d4_ref_count := c\<rparr>)" for c using n(1) by (simp add: node_related_def)
    from related_update [OF r this, of i] show ?thesis
      using n r None cap by (auto simp: exec1_def exec4_def dc1_Find_def dc4_Find_def in_step_def dc_related_def
          node_related_def simp flip: i_def)
  next
    case (Some x)
    then obtain w where w: "ps_get st s x = Inr w" using dc_okD [OF ok i] by blast
    then have k: "d4_pte ?n4 = Some x" "d4_ref_count ?n4 = dn_count ?n" "ucast (d4_fd_cur ?n4) = pte_fd_cur w"
      "d4_fpage_id_cur ?n4 = pte_fpage_id_cur w"
      using n(1) Some by (auto simp: node_related_def)
    have "node_related st s (?n\<lparr>dn_count := dn_count ?n + 1\<rparr>) (?n4\<lparr>d4_ref_count := dn_count ?n + 1\<rparr>)"
      using n(1) w k Some by (simp add: node_related_def)
    from related_update [OF r this, of i] show ?thesis
      using n r Some w k cap dc_ok_count [OF ok]
      by (simp add: exec1_def exec4_def dc1_Find_def dc4_Find_def in_step_def dc_related_def flip: i_def)
  qed
qed

lemma in_step_Erase: "dc_related st s dc dc4 \<Longrightarrow> in_step st (exec1 st (DcErase fd p) dc s) (exec4 st (DcErase fd p) dc4 s)"
proof -
  assume r: "dc_related st s dc dc4"
  define i where "i = DirectCache_HASH_FUNC fd p (dc_capacity dc)"
  have ok: "dc_ok st dc s" and cap: "dc4_capacity dc4 = dc_capacity dc" using r by (simp_all add: dc_related_def)
  have i: "i < dc_capacity dc" using ok hash_less by (simp add: dc_ok_def i_def)
  note n = related_nth [OF r i]
  let ?n = "dc_nodes dc ! i" and ?n4 = "dc4_nodes dc4 ! i"
  have pte: "d4_pte ?n4 = dn_pte ?n" using n(1) by (simp add: node_related_def)
  show ?thesis
  proof (cases "dn_pte ?n")
    case None
    then show ?thesis
      using n r pte cap by (simp add: exec1_def exec4_def dc1_Erase_def dc4_Erase_def in_step_def flip: i_def)
  next
    case (Some x)
    then obtain w where w: "ps_get st s x = Inr w" using dc_okD [OF ok i] by blast
    then have "node_related st s (?n\<lparr>dn_count := dn_count ?n - 1\<rparr>) (?n4\<lparr>d4_ref_count := d4_ref_count ?n4 - 1\<rparr>)"
      using n(1) Some by (simp add: node_related_def)
    from related_update [OF r this, of i] show ?thesis
      using n r Some pte cap dc_ok_count [OF ok]
      by (simp add: exec1_def exec4_def dc1_Erase_def dc4_Erase_def in_step_def dc_related_def flip: i_def)
  qed
qed

lemma in_step_Clean: "dc_related st s dc dc4 \<Longrightarrow> in_step st (exec1 st DcClean dc s) (exec4 st DcClean dc4 s)"
proof -
  assume r: "dc_related st s dc dc4"
  have len: "length (dc_nodes dc) = dc_capacity dc" "0 < dc_capacity dc" using r by (auto simp: dc_related_def dc_ok_def)
  have got: "\<forall>n\<in>set (dc_nodes dc). \<forall>r. dn_pte n = Some r \<longrightarrow> (\<exists>w. ps_get st s r = Inr w)"
    using r by (fastforce simp: dc_related_def dc_ok_def in_set_conv_nth)
  have all: "list_all2 (node_related st s) (dc_nodes dc) (dc4_nodes dc4)" using r by (simp add: dc_related_def)
  show ?thesis
  proof (cases "dc1_clean_nodes st (dc_nodes dc) s")
    case (Inl e)
    then show ?thesis
      using clean_related [OF all got, of s]
      by (auto simp: exec1_def exec4_def dc1_Clean_def dc4_Clean_def in_step_def split: sum.splits prod.splits)
  next
    case (Inr x)
    obtain ms s' where x: "x = (ms, s')" by (cases x)
    then obtain ms4 where m: "dc4_clean_nodes st (dc4_nodes dc4) s = Inr (ms4, s')"
      "list_all2 (\<lambda>m m4. dn_pte m = None \<and> d4_pte m4 = None) ms ms4" "length ms = length (dc_nodes dc)"
      using clean_related [OF all got, of s] Inr by (auto split: sum.splits)
    have "list_all2 (node_related st s') ms ms4"
      using m(2) by (rule list_all2_mono) (simp add: node_related_def)
    moreover have "dc_ok st (dc\<lparr>dc_nodes := ms\<rparr>) s'"
      using len m(2,3) by (auto simp: dc_ok_def list_all2_conv_all_nth)
    ultimately show ?thesis
      using Inr x m(1) r
      by (simp add: exec1_def exec4_def dc1_Clean_def dc4_Clean_def in_step_def dc_related_def)
  qed
qed

lemma in_step_Insert:
  assumes r: "dc_related st s dc dc4" and o: "dc_op_ok st (DcInsert fd p x) dc s"
  shows "in_step st (exec1 st (DcInsert fd p x) dc s) (exec4 st (DcInsert fd p x) dc4 s)"
proof -
  define i where "i = DirectCache_HASH_FUNC fd p (dc_capacity dc)"
  have ok: "dc_ok st dc s" and cap: "dc4_capacity dc4 = dc_capacity dc" using r by (simp_all add: dc_related_def)
  have i: "i < dc_capacity dc" using ok hash_less by (simp add: dc_ok_def i_def)
  note n = related_nth [OF r i]
  let ?n = "dc_nodes dc ! i" and ?n4 = "dc4_nodes dc4 ! i"
  have pte: "d4_pte ?n4 = dn_pte ?n" using n(1) by (simp add: node_related_def)
  obtain w where w: "ps_get st s x = Inr w" "pte_ref_count w \<noteq> 0" "pte_fd_cur w = fd" "pte_fpage_id_cur w = p"
    "x \<notin> dc_cached dc" using o by (auto simp: dc_op_ok_def)
  have nx: "dn_pte ?n \<noteq> Some x" using w(5) i n(2) by (auto simp: dc_cached_def)
  obtain b dc' s' where ins: "dc1_Insert st dc s fd p x = Inr (b, dc', s')" "dc_ok st dc' s'"
    using dc1_Insert_ok [OF ok w(1,2)] nx w(3,4) by (auto simp: i_def)
  let ?new = "\<lparr>dn_count = 1, dn_pte = Some x\<rparr>"
  let ?new4 = "\<lparr>d4_ref_count = 1, d4_fd_cur = ucast fd, d4_fpage_id_cur = p, d4_pte = Some x\<rparr>"
  have new: "list_all2 (node_related st s1) ((dc_nodes dc)[i := ?new]) ((dc4_nodes dc4)[i := ?new4])"
    if "ps_get st s1 x = Inr w" "\<And>j r'. j < dc_capacity dc \<Longrightarrow> j \<noteq> i \<Longrightarrow> dn_pte (dc_nodes dc ! j) = Some r' \<Longrightarrow>
      ps_get st s1 r' = ps_get st s r'" for s1
    using r that w n(2,3) ok ucast_pte_fd [of w]
    by (auto simp: dc_related_def list_all2_conv_all_nth nth_list_update node_related_def dc_ok_def)
  show ?thesis
  proof (cases "dn_pte ?n")
    case None
    then have "b" "s' = s" "dc' = dc\<lparr>dc_nodes := (dc_nodes dc)[i := ?new]\<rparr>"
      using ins(1) n(2) by (simp_all add: dc1_Insert_def flip: i_def)
    then show ?thesis
      using new [OF w(1)] ins n None pte cap w
      by (simp add: exec1_def exec4_def dc4_Insert_def in_step_def dc_related_def flip: i_def)
  next
    case (Some r0)
    then obtain w0 where w0: "ps_get st s r0 = Inr w0" "pte_ref_count w0 \<noteq> 0"
      "DirectCache_HASH_FUNC (pte_fd_cur w0) (pte_fpage_id_cur w0) (dc_capacity dc) = i"
      using dc_okD [OF ok i] by blast
    obtain s1 where s1: "release_ref st s r0 = Inr s1"
      "\<And>r'. ps_get st s1 r' = (if r' = r0 then Inr (w0 - 1) else ps_get st s r')"
      using release_ref_keeps [OF w0(1,2)] by blast
    have cnt: "d4_ref_count ?n4 = dn_count ?n" using n(1) Some w0 by (simp add: node_related_def)
    show ?thesis
    proof (cases "dn_count ?n = 0")
      case False
      then show ?thesis
        using r n Some pte cap cnt by (simp add: exec1_def exec4_def dc1_Insert_def dc4_Insert_def in_step_def flip: i_def)
    next
      case True
      then have d: "b" "s' = s1" "dc' = dc\<lparr>dc_nodes := (dc_nodes dc)[i := ?new]\<rparr>"
        using ins(1) n(2) Some s1(1) by (simp_all add: dc1_Insert_def flip: i_def)
      have xs: "ps_get st s1 x = Inr w" using s1(2) nx Some w(1) by auto
      have "list_all2 (node_related st s1) ((dc_nodes dc)[i := ?new]) ((dc4_nodes dc4)[i := ?new4])"
      proof (rule new [OF xs])
        show "ps_get st s1 r' = ps_get st s r'"
          if "j < dc_capacity dc" "j \<noteq> i" "dn_pte (dc_nodes dc ! j) = Some r'" for j r'
        proof -
          have "r' \<noteq> r0" using dc_okD [OF ok that(1,3)] that(2) w0 by fastforce
          then show ?thesis using s1(2) by simp
        qed
      qed
      then show ?thesis
        using d ins n Some pte cap w s1(1) xs True cnt
        by (simp add: exec1_def exec4_def dc4_Insert_def in_step_def dc_related_def flip: i_def)
    qed
  qed
qed

lemma in_step_all:
  "dc_related st s dc dc4 \<Longrightarrow> dc_op_ok st op dc s \<Longrightarrow> in_step st (exec1 st op dc s) (exec4 st op dc4 s)"
  by (cases op) (simp_all add: in_step_Find in_step_Insert in_step_Erase in_step_Clean)

end

text \<open>A store that is a function, for the witnesses.\<close>

definition fun_store :: "(pte_ref \<Rightarrow> pte) pte_store" where
  "fun_store = \<lparr>ps_get = (\<lambda>s r. Inr (s r)), ps_put = (\<lambda>s r w. s(r := w))\<rparr>"

lemma fun_store_laws: "store_laws fun_store"
  by (simp add: store_laws_def fun_store_def)

text \<open>On every operation the fourth variant, which keeps the page in its node, answers as the first, which
  reads it through the pointer, and has the same effect on the entries.\<close>

theorem DirectCacheImpl4_equals_Impl1:
  assumes "store_laws st" "dc_related st s dc dc4" "dc_op_ok st op dc s"
  shows "in_step st (exec1 st op dc s) (exec4 st op dc4 s)"
  by (rule pte_store_laws.in_step_all [OF pte_store_laws.intro [OF assms(1)] assms(2,3)])

lemma DirectCacheImpl4_equals_Impl1_witness:
  "in_step fun_store (exec1 fun_store (DcInsert 3 0 (PTE_ref 0 0)) (dc1_new 2) (\<lambda>_. mk_pte 1 3 True False False 0))
     (exec4 fun_store (DcInsert 3 0 (PTE_ref 0 0)) (dc4_new 2 (\<lambda>_. (5, 6))) (\<lambda>_. mk_pte 1 3 True False False 0))"
proof (rule DirectCacheImpl4_equals_Impl1 [OF fun_store_laws])
  show "dc_related fun_store (\<lambda>_. mk_pte 1 3 True False False 0) (dc1_new 2) (dc4_new 2 (\<lambda>_. (5, 6)))"
    by (auto simp: dc_related_def dc_ok_def dc1_new_def dc4_new_def list_all2_conv_all_nth node_related_def empty_node_def)
  show "dc_op_ok fun_store (DcInsert 3 0 (PTE_ref 0 0)) (dc1_new 2) (\<lambda>_. mk_pte 1 3 True False False 0)"
    by (auto simp: dc_op_ok_def dc_cached_def dc1_new_def fun_store_def empty_node_def pt_simps take_bit_13_small)
qed

section \<open>The second variant holds one page\<close>

text \<open>
  The mask 1024 keeps one bit of the pointer, not ten: from 0 the pointer always comes back to 0, so
  one slot of the eviction structure is ever used.
\<close>

definition dc2_one :: "nat \<Rightarrow> direct_cache2 \<Rightarrow> bool" where
  "dc2_one cap dc \<longleftrightarrow> dc2_pointer dc = 0 \<and> length (dc2_nodes dc) = cap \<and> dc2_capacity dc = cap \<and>
     length (dc2_eviction dc) = 1024 \<and>
     (dc2_eviction dc ! 0 \<noteq> INVALID_CACHE_INDEX \<longrightarrow> unat (dc2_eviction dc ! 0) < cap) \<and>
     (\<forall>i<cap. dn_pte (dc2_nodes dc ! i) \<noteq> None \<longrightarrow>
        dc2_eviction dc ! 0 \<noteq> INVALID_CACHE_INDEX \<and> i = unat (dc2_eviction dc ! 0))"

lemma dc2_oneD:
  assumes "dc2_one cap dc"
  shows "dc2_pointer dc = 0" "length (dc2_nodes dc) = cap" "dc2_capacity dc = cap" "length (dc2_eviction dc) = 1024"
    "dc2_eviction dc ! 0 \<noteq> INVALID_CACHE_INDEX \<Longrightarrow> unat (dc2_eviction dc ! 0) < cap"
    "i < cap \<Longrightarrow> dn_pte (dc2_nodes dc ! i) \<noteq> None \<Longrightarrow> dc2_eviction dc ! 0 \<noteq> INVALID_CACHE_INDEX"
    "i < cap \<Longrightarrow> dn_pte (dc2_nodes dc ! i) \<noteq> None \<Longrightarrow> i = unat (dc2_eviction dc ! 0)"
  using assms by (simp_all add: dc2_one_def)

lemma dc2_masks [simp]: "(1 :: u16) AND CACHE_INDEX_MASK = 0" "unat CACHE_INDEX_MASK = 1024"
  by (simp_all add: CACHE_INDEX_MASK_def)

lemma dc2_new_one: "dc2_one capacity (dc2_new capacity)"
  by (simp add: dc2_one_def dc2_new_def)

lemma dc2_one_update:
  assumes "dc2_one cap dc" "\<And>i. i < cap \<Longrightarrow> dn_pte (ns ! i) \<noteq> None \<Longrightarrow> dn_pte (dc2_nodes dc ! i) \<noteq> None"
    and "length ns = cap"
  shows "dc2_one cap (dc\<lparr>dc2_nodes := ns\<rparr>)"
  using assms unfolding dc2_one_def by simp

lemma dc2_one_set_node:
  assumes "dc2_one cap dc" "dn_pte n \<noteq> None \<Longrightarrow> dn_pte (dc2_nodes dc ! i) \<noteq> None"
  shows "dc2_one cap (dc\<lparr>dc2_nodes := (dc2_nodes dc)[i := n]\<rparr>)"
proof (rule dc2_one_update [OF assms(1)])
  show "dn_pte (dc2_nodes dc ! j) \<noteq> None"
    if "j < cap" "dn_pte ((dc2_nodes dc)[i := n] ! j) \<noteq> None" for j
    using that assms dc2_oneD(2) [OF assms(1)] by (cases "j = i") simp_all
qed (simp add: dc2_oneD(2) [OF assms(1)])

lemma dc2_scan_one:
  assumes one: "dc2_one cap dc"
  obtains dc' found where "dc2_scan (Suc fuel) dc 0 = Inr (found, dc')" "dc2_one cap dc'" "found = None \<or> found = Some 0"
proof -
  let ?e = "dc2_eviction dc ! 0" and ?n = "dc2_nodes dc ! unat (dc2_eviction dc ! 0)"
  let ?dc = "dc\<lparr>dc2_nodes := (dc2_nodes dc)[unat ?e := ?n\<lparr>dn_global := False\<rparr>]\<rparr>"
  note d = dc2_oneD [OF one]
  have get: "arr_get (dc2_eviction dc) (unat 0) = Inr ?e" using d(4) by simp
  have dc: "dc2_one cap ?dc" by (rule dc2_one_set_node [OF one]) simp
  consider "?e = INVALID_CACHE_INDEX" | "?e \<noteq> INVALID_CACHE_INDEX" "\<not> dn_global ?n"
    | "?e \<noteq> INVALID_CACHE_INDEX" "dn_global ?n" "dn_count ?n = 0"
    | "?e \<noteq> INVALID_CACHE_INDEX" "dn_global ?n" "dn_count ?n \<noteq> 0" by blast
  then show thesis
  proof cases
    case 1
    then show thesis using d(4) one by (intro that [of "Some 0" dc]) simp_all
  next
    case 2
    then have "arr_get (dc2_nodes dc) (unat ?e) = Inr ?n" using d by simp
    then show thesis using 2 get one by (intro that [of "Some 0" dc]) simp_all
  next
    case 3
    then have "arr_get (dc2_nodes dc) (unat ?e) = Inr ?n" using d by simp
    then show thesis using 3 get dc d(1) by (intro that [of None ?dc]) simp_all
  next
    case 4
    then have "arr_get (dc2_nodes dc) (unat ?e) = Inr ?n" using d by simp
    then show thesis using 4 get one d(1) by (intro that [of None dc]) simp_all
  qed
qed

text \<open>Emptying the slot that the eviction structure names, and reusing it for \<open>index\<close>.\<close>

lemma dc2_evict_empties:
  assumes one: "dc2_one cap dc" and ev: "dc2_evict st dc s 0 = Inr (dc', s')"
  shows "i < cap \<Longrightarrow> dn_pte (dc2_nodes dc' ! i) = None" "dc2_one cap dc'"
proof -
  let ?e = "dc2_eviction dc ! 0" and ?n = "dc2_nodes dc ! unat (dc2_eviction dc ! 0)"
  note d = dc2_oneD [OF one]
  have get: "arr_get (dc2_eviction dc) (unat 0) = Inr ?e" using d(4) by simp
  consider (same) "dc' = dc" "?e = INVALID_CACHE_INDEX \<or> dn_pte ?n = None"
    | (set) "?e \<noteq> INVALID_CACHE_INDEX" "dc' = dc\<lparr>dc2_nodes := (dc2_nodes dc)[unat ?e := ?n\<lparr>dn_pte := None\<rparr>]\<rparr>"
    using ev get d(5) d(2) by (cases "?e = INVALID_CACHE_INDEX"; cases "dn_pte ?n") (auto simp: dc2_evict_def bindE_eq_Inr)
  then have "(i < cap \<longrightarrow> dn_pte (dc2_nodes dc' ! i) = None) \<and> dc2_one cap dc'"
  proof cases
    case same
    then show ?thesis using one d(6,7) by metis
  next
    case set
    have "dn_pte ((dc2_nodes dc)[unat ?e := ?n\<lparr>dn_pte := None\<rparr>] ! i) = None" if "i < cap"
    proof (cases "i = unat ?e")
      case False
      then show ?thesis using d(7) [OF that] by (cases "dn_pte (dc2_nodes dc ! i)") auto
    qed (use that d(2) in simp)
    then show ?thesis unfolding set(2) by (intro conjI impI dc2_one_set_node [OF one]) simp_all
  qed
  then show "i < cap \<Longrightarrow> dn_pte (dc2_nodes dc' ! i) = None" "dc2_one cap dc'" by blast+
qed

lemma dc2_reuse:
  assumes one: "dc2_one cap dc" and ev: "dc2_evict st dc s 0 = Inr (dc', s')" and index: "index < cap" "cap \<le> 65535"
  shows "dc2_one cap (dc2_store (dc'\<lparr>dc2_eviction := (dc2_eviction dc')[0 := word_of_nat index], dc2_pointer := 0\<rparr>) index r)"
proof -
  have w: "unat (word_of_nat index :: u16) = index" using index by (simp add: unat_of_nat)
  then have ne: "(word_of_nat index :: u16) \<noteq> INVALID_CACHE_INDEX" using index by (auto simp: INVALID_CACHE_INDEX_def)
  note e = dc2_evict_empties [OF one ev] and d = dc2_oneD [OF dc2_evict_empties(2) [OF one ev]]
  have "i = index" if "i < cap" "dn_pte ((dc2_nodes dc')[index := n] ! i) \<noteq> None" for i n
    using that e(1) [of i] by (cases "i = index") simp_all
  then show ?thesis
    using d(2,3,4) w ne index(1) by (simp add: dc2_one_def dc2_store_def)
qed

lemma dc2_Insert_one:
  assumes one: "dc2_one cap dc" and cap: "0 < cap" "cap \<le> 65535"
    and ins: "dc2_Insert (Suc fuel) st dc s fd p r = Inr (b, dc', s')"
  shows "dc2_one cap dc'"
proof -
  define index where "index = DirectCache_HASH_FUNC fd p (dc2_capacity dc)"
  note d = dc2_oneD [OF one]
  have i: "index < cap" using cap d(3) by (simp add: index_def DirectCache_HASH_FUNC_def)
  let ?n = "dc2_nodes dc ! index"
  have get: "arr_get (dc2_nodes dc) index = Inr ?n" using i d(2) by simp
  consider (keep) r0 where "dn_pte ?n = Some r0" "dn_count ?n \<noteq> 0" | (replace) r0 where "dn_pte ?n = Some r0" "dn_count ?n = 0"
    | (fresh) "dn_pte ?n = None" by auto
  then show ?thesis
  proof cases
    case keep
    then have "dc' = dc" using ins get by (simp add: dc2_Insert_def flip: index_def)
    then show ?thesis using one by simp
  next
    case replace
    then have "dc' = dc2_store dc index r" using ins get by (auto simp: dc2_Insert_def bindE_eq_Inr simp flip: index_def)
    then show ?thesis using dc2_one_set_node [OF one] replace by (simp add: dc2_store_def)
  next
    case fresh
    from one obtain dc1 found where sc: "dc2_scan (Suc fuel) dc 0 = Inr (found, dc1)" "dc2_one cap dc1"
      "found = None \<or> found = Some 0" by (rule dc2_scan_one)
    show ?thesis
    proof (cases found)
      case None
      then have "dc' = dc1" using ins fresh get d(1) sc(1) by (simp add: dc2_Insert_def del: dc2_scan.simps flip: index_def)
      then show ?thesis using sc(2) by simp
    next
      case (Some pt)
      then have "pt = 0" using sc(3) by simp
      then obtain dc2 s2 where e: "dc2_evict st dc1 s 0 = Inr (dc2, s2)"
        "dc' = dc2_store (dc2\<lparr>dc2_eviction := (dc2_eviction dc2)[0 := word_of_nat index], dc2_pointer := 0\<rparr>) index r"
        using ins fresh get d(1) sc(1) Some
        by (auto simp: dc2_Insert_def bindE_eq_Inr arr_set_eq_Inr simp del: dc2_scan.simps simp flip: index_def)
      show ?thesis unfolding e(2) by (rule dc2_reuse [OF sc(2) e(1) i cap(2)])
    qed
  qed
qed

lemma dc2_clean_nodes_None:
  "dc2_clean_nodes st ns s = Inr (ms, s') \<Longrightarrow> length ms = length ns \<and> (\<forall>m\<in>set ms. dn_pte m = None)"
  by (induction ns arbitrary: ms s) (auto simp: bindE_eq_Inr)

definition exec2 ::
  "nat \<Rightarrow> 's pte_store \<Rightarrow> dc_op \<Rightarrow> direct_cache2 \<Rightarrow> 's \<Rightarrow> (dc_answer \<times> direct_cache2 \<times> 's) res" where
  "exec2 fuel st op dc s = (case op of
      DcFind fd p \<Rightarrow> bindE (dc2_Find st dc s fd p) (\<lambda>(r, dc). Inr (Found r, dc, s))
    | DcInsert fd p r \<Rightarrow> bindE (dc2_Insert fuel st dc s fd p r) (\<lambda>(b, dc, s). Inr (Answer b, dc, s))
    | DcErase fd p \<Rightarrow> bindE (dc2_Erase dc fd p) (\<lambda>dc. Inr (Answer True, dc, s))
    | DcClean \<Rightarrow> bindE (dc2_Clean st dc s) (\<lambda>(b, dc, s). Inr (Answer b, dc, s)))"

fun run2 :: "nat \<Rightarrow> 's pte_store \<Rightarrow> dc_op list \<Rightarrow> direct_cache2 \<Rightarrow> 's \<Rightarrow> (direct_cache2 \<times> 's) res" where
  "run2 fuel st [] dc s = Inr (dc, s)"
| "run2 fuel st (op # ops) dc s = bindE (exec2 fuel st op dc s) (\<lambda>(_, dc, s). run2 fuel st ops dc s)"

lemma dc2_Find_one: "dc2_one cap dc \<Longrightarrow> dc2_Find st dc s fd p = Inr (r, dc') \<Longrightarrow> dc2_one cap dc'"
  by (auto simp: dc2_Find_def bindE_eq_Inr arr_get_eq_Inr Let_def intro!: dc2_one_set_node
      split: option.splits if_splits)

lemma dc2_Erase_one: "dc2_one cap dc \<Longrightarrow> dc2_Erase dc fd p = Inr dc' \<Longrightarrow> dc2_one cap dc'"
  by (auto simp: dc2_Erase_def bindE_eq_Inr arr_get_eq_Inr Let_def intro!: dc2_one_set_node split: if_splits)

lemma dc2_Clean_one:
  assumes "dc2_one cap dc" "dc2_Clean st dc s = Inr (b, dc', s')"
  shows "dc2_one cap dc'"
proof -
  obtain ns where ns: "dc2_clean_nodes st (dc2_nodes dc) s = Inr (ns, s')" "dc' = dc\<lparr>dc2_nodes := ns\<rparr>"
    using assms(2) by (auto simp: dc2_Clean_def bindE_eq_Inr)
  have "length ns = cap" "\<forall>m\<in>set ns. dn_pte m = None"
    using dc2_clean_nodes_None [OF ns(1)] dc2_oneD(2) [OF assms(1)] by simp_all
  then show ?thesis unfolding ns(2) by (intro dc2_one_update [OF assms(1)]) simp_all
qed

lemma exec2_one:
  assumes "dc2_one cap dc" "0 < cap" "cap \<le> 65535" "exec2 (Suc fuel) st op dc s = Inr (a, dc', s')"
  shows "dc2_one cap dc'"
proof (cases op)
  case (DcInsert fd p r)
  then show ?thesis using assms(4) dc2_Insert_one [OF assms(1-3)] by (auto simp: exec2_def bindE_eq_Inr)
next
  case (DcFind fd p)
  then show ?thesis using assms(4) dc2_Find_one [OF assms(1)] by (auto simp: exec2_def bindE_eq_Inr)
next
  case (DcErase fd p)
  then show ?thesis using assms(4) dc2_Erase_one [OF assms(1)] by (auto simp: exec2_def bindE_eq_Inr)
next
  case DcClean
  then show ?thesis using assms(4) dc2_Clean_one [OF assms(1)] by (auto simp: exec2_def bindE_eq_Inr)
qed

lemma run2_one:
  "dc2_one cap dc \<Longrightarrow> 0 < cap \<Longrightarrow> cap \<le> 65535 \<Longrightarrow> run2 (Suc fuel) st ops dc s = Inr (dc', s') \<Longrightarrow> dc2_one cap dc'"
proof (induction ops arbitrary: dc s)
  case (Cons op ops)
  then obtain a dc1 s1 where e: "exec2 (Suc fuel) st op dc s = Inr (a, dc1, s1)" "run2 (Suc fuel) st ops dc1 s1 = Inr (dc', s')"
    by (auto simp: bindE_eq_Inr)
  from Cons.IH [OF exec2_one [OF Cons.prems(1-3) e(1)] Cons.prems(2,3) e(2)] show ?case .
qed simp

text \<open>C26: whatever its capacity up to 65535, the second variant of the cache never holds more than one
  page.  (With a larger capacity the slot 65535, stored in 16 bits, is \<open>INVALID_CACHE_INDEX\<close>, the mark of an
  unused place of the hand, so the next insertion would evict nothing.)\<close>

theorem DirectCacheImpl2_holds_one_page:
  assumes "0 < capacity" "capacity \<le> 65535" "run2 (Suc fuel) st ops (dc2_new capacity) s = Inr (dc, s')"
  shows "card {i. i < capacity \<and> dn_pte (dc2_nodes dc ! i) \<noteq> None} \<le> 1"
proof -
  note d = dc2_oneD(7) [OF run2_one [OF dc2_new_one assms]]
  have "{i. i < capacity \<and> dn_pte (dc2_nodes dc ! i) \<noteq> None} \<subseteq> {unat (dc2_eviction dc ! 0)}"
    using d by auto
  from card_mono [OF _ this] show ?thesis by simp
qed

lemma DirectCacheImpl2_holds_one_page_witness:
  "\<exists>dc s. run2 1 fun_store [DcInsert 3 0 (PTE_ref 0 0), DcErase 3 0, DcInsert 3 1 (PTE_ref 0 1)]
      (dc2_new 4) (\<lambda>_. mk_pte 1 3 True False False 0) = Inr (dc, s) \<and>
    card {i. i < 4 \<and> dn_pte (dc2_nodes dc ! i) \<noteq> None} \<le> 1"
proof -
  let ?ops = "[DcInsert 3 0 (PTE_ref 0 0), DcErase 3 0, DcInsert 3 1 (PTE_ref 0 1)]"
  obtain dc s where "run2 1 fun_store ?ops (dc2_new 4) (\<lambda>_. mk_pte 1 3 True False False 0) = Inr (dc, s)"
    by (simp add: exec2_def dc2_Insert_def dc2_Erase_def dc2_new_def dc2_evict_def dc2_store_def arr_set_def arr_get_def
        DirectCache_HASH_FUNC_def INVALID_CACHE_INDEX_def Let_def)
  then show ?thesis
    using DirectCacheImpl2_holds_one_page [of 4 0 fun_store ?ops] by auto
qed

end
