(* ===== verification/BufferBlock.thy ===== *)
theory BufferBlock
  imports DirectCache Disk
begin

text \<open>
  The block handed to clients (\<^verbatim>\<open>include/bufferblock/buffer_block_imp9.h\<close>, the implementation that the
  configuration selects).  A block either owns its bytes or points into the frames of pinned pages: one
  slice per page, with the page-table entry to release and the mark that says whether the pin belongs to
  the direct cache.  A pointer into a frame is the frame and an offset; frames are aligned, so the offset
  is the address modulo the page size.  \<open>mem\<close> gives the bytes of every frame.
\<close>

type_synonym frame_mem = "pte_ref \<Rightarrow> byte list"

record slice =
  sl_frame :: pte_ref
  sl_off :: nat
  sl_pte :: pte_ref
  sl_mark :: bool

text \<open>The union of pointers; \<open>None\<close> is a slot of the arrays that no \<open>InsertPage\<close> has filled yet.\<close>

datatype block_data = Own "byte list" | Pages "slice option list"

record block =
  bb_size :: nat
  bb_page_num :: nat
  bb_data :: block_data

section \<open>Construction\<close>

definition bb_empty :: block where
  "bb_empty = \<lparr>bb_size = 0, bb_page_num = 0, bb_data = Own []\<rparr>"

definition bb_pages :: "nat \<Rightarrow> nat \<Rightarrow> block" where
  "bb_pages sz page_num = \<lparr>bb_size = sz, bb_page_num = page_num, bb_data = Pages (replicate page_num None)\<rparr>"

definition bb_own :: "nat \<Rightarrow> byte list \<Rightarrow> block" where
  "bb_own sz data = \<lparr>bb_size = sz, bb_page_num = 0, bb_data = Own (take sz data)\<rparr>"

definition bb_slot :: "block \<Rightarrow> nat \<Rightarrow> slice res" where
  "bb_slot b idx = (case bb_data b of
      Own _ \<Rightarrow> Inl NullDeref
    | Pages sls \<Rightarrow> bindE (arr_get sls idx) (\<lambda>x. case x of None \<Rightarrow> Inl NullDeref | Some sl \<Rightarrow> Inr sl))"

definition InsertPage :: "block \<Rightarrow> nat \<Rightarrow> pte_ref \<times> nat \<Rightarrow> pte_ref \<Rightarrow> bool \<Rightarrow> block res" where
  "InsertPage b idx data pte mark = (case bb_data b of
      Own _ \<Rightarrow> Inl NullDeref
    | Pages sls \<Rightarrow>
        bindE (arr_set sls (if bb_page_num b = 1 then 0 else idx)
          (Some \<lparr>sl_frame = fst data, sl_off = snd data, sl_pte = pte, sl_mark = mark\<rparr>)) (\<lambda>sls.
        Inr (b\<lparr>bb_data := Pages sls\<rparr>)))"

section \<open>Releasing a block\<close>

text \<open>A marked slice gives back a use of its node in the cache, another one its own pin.\<close>

definition free_slice ::
  "'s pte_store \<Rightarrow> slice \<Rightarrow> direct_cache \<Rightarrow> 's \<Rightarrow> (direct_cache \<times> 's) res" where
  "free_slice st sl dc s =
     (if \<not> sl_mark sl then bindE (release_ref st s (sl_pte sl)) (\<lambda>s. Inr (dc, s))
      else bindE (ps_get st s (sl_pte sl)) (\<lambda>w.
        bindE (dc1_Erase dc (pte_fd_cur w) (pte_fpage_id_cur w)) (\<lambda>dc. Inr (dc, s))))"

fun free_slices ::
  "'s pte_store \<Rightarrow> slice option list \<Rightarrow> direct_cache \<Rightarrow> 's \<Rightarrow> (direct_cache \<times> 's) res" where
  "free_slices st [] dc s = Inr (dc, s)"
| "free_slices st (None # sls) dc s = Inl NullDeref"
| "free_slices st (Some sl # sls) dc s =
     bindE (free_slice st sl dc s) (\<lambda>(dc, s). free_slices st sls dc s)"

definition bb_free ::
  "'s pte_store \<Rightarrow> block \<Rightarrow> direct_cache \<Rightarrow> 's \<Rightarrow> (block \<times> direct_cache \<times> 's) res" where
  "bb_free st b dc s =
     bindE (if bb_size b \<noteq> 0 then
         (case bb_data b of Own _ \<Rightarrow> Inr (dc, s) | Pages sls \<Rightarrow>
           if bb_page_num b = 0 then Inl NullDeref else free_slices st (rev sls) dc s)
       else Inr (dc, s)) (\<lambda>(dc, s).
     Inr (b\<lparr>bb_size := 0, bb_page_num := 0\<rparr>, dc, s))"

definition bb_Move ::
  "'s pte_store \<Rightarrow> block \<Rightarrow> block \<Rightarrow> direct_cache \<Rightarrow> 's \<Rightarrow> (block \<times> block \<times> direct_cache \<times> 's) res" where
  "bb_Move st src dst dc s =
     bindE (bb_free st dst dc s) (\<lambda>(_, dc, s). Inr (src\<lparr>bb_size := 0, bb_page_num := 0\<rparr>, src, dc, s))"

section \<open>Reading the bytes\<close>

definition read_at :: "frame_mem \<Rightarrow> pte_ref \<Rightarrow> nat \<Rightarrow> nat \<Rightarrow> byte list res" where
  "read_at mem r off n =
     (if off + n \<le> length (mem r) then Inr (take n (drop off (mem r))) else Inl OutOfBounds)"

text \<open>\<open>n\<close> bytes at \<open>datas_.data + off\<close>, for a block of fewer than two pages.\<close>

definition flat_read :: "frame_mem \<Rightarrow> block \<Rightarrow> nat \<Rightarrow> nat \<Rightarrow> byte list res" where
  "flat_read mem b off n = (case bb_data b of
      Own bs \<Rightarrow> if off + n \<le> length bs then Inr (take n (drop off bs)) else Inl OutOfBounds
    | Pages _ \<Rightarrow> bindE (bb_slot b 0) (\<lambda>sl. read_at mem (sl_frame sl) (sl_off sl + off) n))"

definition bb_slices :: "block \<Rightarrow> slice option list" where
  "bb_slices b = (case bb_data b of Own _ \<Rightarrow> [] | Pages sls \<Rightarrow> sls)"

definition loc_inpage :: "slice \<Rightarrow> nat \<Rightarrow> nat" where
  "loc_inpage sl off = PAGE_SIZE_FILE - (sl_off sl + off) mod PAGE_SIZE_FILE"

fun copy_slices :: "frame_mem \<Rightarrow> slice option list \<Rightarrow> nat \<Rightarrow> byte list res" where
  "copy_slices mem [] size_old = Inr []"
| "copy_slices mem (None # sls) size_old = Inl NullDeref"
| "copy_slices mem (Some sl # sls) size_old =
     (let slice_len = min (loc_inpage sl 0) size_old in
      bindE (read_at mem (sl_frame sl) (sl_off sl) slice_len) (\<lambda>bs.
      bindE (copy_slices mem sls (size_old - slice_len)) (\<lambda>rest. Inr (bs @ rest))))"

definition bb_Copy :: "frame_mem \<Rightarrow> block \<Rightarrow> block res" where
  "bb_Copy mem rhs =
     bindE (if bb_page_num rhs < 2 then flat_read mem rhs 0 (bb_size rhs)
       else copy_slices mem (bb_slices rhs) (bb_size rhs)) (\<lambda>bs. Inr (bb_own (bb_size rhs) bs))"

text \<open>
  \<open>Copy(buf, buf_size, offset)\<close>; the result is what has been written to \<open>buf\<close>.  The code resets
  \<open>offset\<close>, not \<open>offset_t\<close>, after the first page.
\<close>

fun skip_gt :: "slice option list \<Rightarrow> nat \<Rightarrow> (slice option list \<times> nat) res" where
  "skip_gt [] offset_t = Inr ([], offset_t)"
| "skip_gt (None # sls) offset_t = Inl NullDeref"
| "skip_gt (Some sl # sls) offset_t =
     (if offset_t > loc_inpage sl 0 then skip_gt sls (offset_t - loc_inpage sl 0) else Inr (Some sl # sls, offset_t))"

fun copy_from :: "frame_mem \<Rightarrow> slice option list \<Rightarrow> nat \<Rightarrow> nat \<Rightarrow> byte list res" where
  "copy_from mem [] offset_t size_old = Inr []"
| "copy_from mem (None # sls) offset_t size_old = Inl NullDeref"
| "copy_from mem (Some sl # sls) offset_t size_old =
     (let slice_len = min (loc_inpage sl offset_t) size_old in
      bindE (read_at mem (sl_frame sl) (sl_off sl + offset_t) slice_len) (\<lambda>bs.
      if size_old - slice_len = 0 then Inr bs
      else bindE (copy_from mem sls offset_t (size_old - slice_len)) (\<lambda>rest. Inr (bs @ rest))))"

definition bb_CopyTo :: "frame_mem \<Rightarrow> block \<Rightarrow> nat \<Rightarrow> nat \<Rightarrow> (nat \<times> byte list) res" where
  "bb_CopyTo mem b buf_size offset =
     (let ret = (if buf_size + offset > bb_size b then bb_size b else buf_size) in
      bindE (if bb_page_num b < 2 then flat_read mem b offset ret
        else bindE (skip_gt (bb_slices b) offset) (\<lambda>(sls, offset_t). copy_from mem sls offset_t ret)) (\<lambda>bs.
      Inr (ret, bs)))"

section \<open>Comparison\<close>

text \<open>\<open>strncmp\<close> on two arrays of the compared length: bytes as unsigned characters, up to a common 0.\<close>

fun strncmp :: "byte list \<Rightarrow> byte list \<Rightarrow> int" where
  "strncmp (a # as) (b # bs) = (if a \<noteq> b then uint a - uint b else if a = 0 then 0 else strncmp as bs)"
| "strncmp _ _ = 0"

text \<open>The conversion of a difference of \<open>size_t\<close> to \<open>int\<close>.\<close>

definition size_diff :: "nat \<Rightarrow> nat \<Rightarrow> int" where
  "size_diff a b = sint (word_of_int (int a - int b) :: u32)"

fun skip_ge :: "slice option list \<Rightarrow> nat \<Rightarrow> (slice option list \<times> nat) res" where
  "skip_ge [] offset_t = Inr ([], offset_t)"
| "skip_ge (None # sls) offset_t = Inl NullDeref"
| "skip_ge (Some sl # sls) offset_t =
     (if offset_t \<ge> loc_inpage sl 0 then skip_ge sls (offset_t - loc_inpage sl 0) else Inr (Some sl # sls, offset_t))"

fun cmp_slices :: "frame_mem \<Rightarrow> slice option list \<Rightarrow> nat \<Rightarrow> byte list \<Rightarrow> nat \<Rightarrow> int \<Rightarrow> int res" where
  "cmp_slices mem [] offset_t right size_left ret = Inr ret"
| "cmp_slices mem (None # sls) offset_t right size_left ret = Inl NullDeref"
| "cmp_slices mem (Some sl # sls) offset_t right size_left ret =
     (let slice_len = min (loc_inpage sl offset_t) size_left in
      bindE (read_at mem (sl_frame sl) (sl_off sl + offset_t) slice_len) (\<lambda>bs.
      let ret = strncmp bs (take slice_len right) in
      if ret \<noteq> 0 then Inr ret
      else cmp_slices mem sls 0 (drop slice_len right) (size_left - slice_len) ret))"

definition Compare_view :: "frame_mem \<Rightarrow> block \<Rightarrow> byte list \<Rightarrow> nat \<Rightarrow> int res" where
  "Compare_view mem b right offset =
     (let size_left = min (bb_size b - offset) (length right) in
      bindE (if bb_page_num b > 1 then
          bindE (if offset \<noteq> 0 then skip_ge (bb_slices b) offset else Inr (bb_slices b, offset)) (\<lambda>(sls, offset_t).
          cmp_slices mem sls offset_t right size_left (- 10))
        else bindE (flat_read mem b offset size_left) (\<lambda>bs. Inr (strncmp bs (take size_left right)))) (\<lambda>ret.
      if ret = 0 \<and> offset = 0 \<and> bb_size b - offset \<noteq> length right
      then Inr (size_diff (bb_size b) (length right)) else Inr ret))"

definition Compare_inner :: "frame_mem \<Rightarrow> block \<Rightarrow> byte list \<Rightarrow> nat \<Rightarrow> int res" where
  "Compare_inner mem b right offset =
     (let size_left = min (bb_size b - offset) (length right) in
      if bb_page_num b > 1 then
        bindE (skip_ge (bb_slices b) offset) (\<lambda>(sls, offset_t). cmp_slices mem sls offset_t right size_left 0)
      else bindE (flat_read mem b offset size_left) (\<lambda>bs. Inr (strncmp bs (take size_left right))))"

fun cmp_blocks :: "frame_mem \<Rightarrow> block \<Rightarrow> nat \<Rightarrow> slice option list \<Rightarrow> nat \<Rightarrow> int \<Rightarrow> int res" where
  "cmp_blocks mem b right_size [] len_right ret = Inr ret"
| "cmp_blocks mem b right_size (None # sls) len_right ret = Inl NullDeref"
| "cmp_blocks mem b right_size (Some sl # sls) len_right ret =
     (let loc = min (loc_inpage sl 0) (right_size - len_right) in
      bindE (read_at mem (sl_frame sl) (sl_off sl) loc) (\<lambda>bs.
      bindE (Compare_inner mem b bs len_right) (\<lambda>ret.
      if ret \<noteq> 0 then Inr ret else cmp_blocks mem b right_size sls (len_right + loc) ret)))"

definition Compare_block :: "frame_mem \<Rightarrow> block \<Rightarrow> block \<Rightarrow> int res" where
  "Compare_block mem b right =
     bindE (if bb_page_num b > 1 \<and> bb_page_num right > 1
       then cmp_blocks mem b (bb_size right) (bb_slices right) 0 0
       else if bb_page_num right < 2 then
         bindE (flat_read mem right 0 (bb_size right)) (\<lambda>bs. Compare_inner mem b bs 0)
       else bindE (flat_read mem b 0 (bb_size b)) (\<lambda>bs.
         bindE (Compare_inner mem right bs 0) (\<lambda>r. Inr (- r)))) (\<lambda>ret.
     if ret = 0 \<and> bb_size b \<noteq> bb_size right then Inr (size_diff (bb_size b) (bb_size right)) else Inr ret)"

text \<open>The comparison operators, with a string and with another block.\<close>

definition bb_ge :: "frame_mem \<Rightarrow> block \<Rightarrow> byte list \<Rightarrow> bool res" where
  "bb_ge mem b right = bindE (Compare_view mem b right 0) (\<lambda>r. Inr (r \<ge> 0))"

definition bb_gt :: "frame_mem \<Rightarrow> block \<Rightarrow> byte list \<Rightarrow> bool res" where
  "bb_gt mem b right = bindE (Compare_view mem b right 0) (\<lambda>r. Inr (r > 0))"

definition bb_le :: "frame_mem \<Rightarrow> block \<Rightarrow> byte list \<Rightarrow> bool res" where
  "bb_le mem b right = bindE (Compare_view mem b right 0) (\<lambda>r. Inr (r \<le> 0))"

definition bb_lt :: "frame_mem \<Rightarrow> block \<Rightarrow> byte list \<Rightarrow> bool res" where
  "bb_lt mem b right = bindE (Compare_view mem b right 0) (\<lambda>r. Inr (r < 0))"

definition bb_eq :: "frame_mem \<Rightarrow> block \<Rightarrow> byte list \<Rightarrow> bool res" where
  "bb_eq mem b right = bindE (Compare_view mem b right 0) (\<lambda>r. Inr (r = 0))"

definition bb_ge_block :: "frame_mem \<Rightarrow> block \<Rightarrow> block \<Rightarrow> bool res" where
  "bb_ge_block mem b right = bindE (Compare_block mem b right) (\<lambda>r. Inr (r \<ge> 0))"

definition bb_gt_block :: "frame_mem \<Rightarrow> block \<Rightarrow> block \<Rightarrow> bool res" where
  "bb_gt_block mem b right = bindE (Compare_block mem b right) (\<lambda>r. Inr (r > 0))"

definition bb_le_block :: "frame_mem \<Rightarrow> block \<Rightarrow> block \<Rightarrow> bool res" where
  "bb_le_block mem b right = bindE (Compare_block mem b right) (\<lambda>r. Inr (r \<le> 0))"

definition bb_lt_block :: "frame_mem \<Rightarrow> block \<Rightarrow> block \<Rightarrow> bool res" where
  "bb_lt_block mem b right = bindE (Compare_block mem b right) (\<lambda>r. Inr (r < 0))"

definition bb_eq_block :: "frame_mem \<Rightarrow> block \<Rightarrow> block \<Rightarrow> bool res" where
  "bb_eq_block mem b right = bindE (Compare_block mem b right) (\<lambda>r. Inr (r = 0))"

section \<open>Objects inside a block\<close>

text \<open>\<open>sz\<close> is \<open>sizeof(OBJ_Type)\<close>; a pointer into a frame, or an offset into the block's own memory.\<close>

datatype obj_ptr = In_frame pte_ref nat | In_own nat

definition DecodeWithPTE :: "nat \<Rightarrow> block \<Rightarrow> nat \<Rightarrow> (obj_ptr \<times> pte_ref option) res" where
  "DecodeWithPTE sz b idx =
     (let at = (\<lambda>page_id off. bindE (bb_slot b page_id) (\<lambda>sl.
          Inr (In_frame (sl_frame sl) (sl_off sl + off), Some (sl_pte sl)))) in
      if bb_page_num b < 2 then
        (case bb_data b of Own _ \<Rightarrow> Inr (In_own (idx * sz), None) | Pages _ \<Rightarrow> at 0 (idx * sz))
      else if idx = 0 then at 0 0
      else bindE (bb_slot b 0) (\<lambda>sl.
        let obj_num_curpage = loc_inpage sl 0 div sz; obj_num_perpage = PAGE_SIZE_FILE div sz in
        if obj_num_curpage > idx then at 0 (idx * sz)
        else let idx = idx - obj_num_curpage in
          at (idx div obj_num_perpage + 1) (idx mod obj_num_perpage * sz)))"

definition Decode :: "nat \<Rightarrow> block \<Rightarrow> nat \<Rightarrow> obj_ptr res" where
  "Decode sz b idx = bindE (DecodeWithPTE sz b idx) (\<lambda>(ptr, _). Inr ptr)"

definition read_obj :: "frame_mem \<Rightarrow> block \<Rightarrow> nat \<Rightarrow> obj_ptr \<Rightarrow> byte list res" where
  "read_obj mem b sz ptr = (case ptr of
      In_frame r off \<Rightarrow> read_at mem r off sz
    | In_own off \<Rightarrow> flat_read mem b off sz)"

text \<open>\<open>UpdateContent\<close> lets \<open>cb\<close> change one object and marks its page dirty.\<close>

definition UpdateContent ::
  "'s pte_store \<Rightarrow> (byte list \<Rightarrow> byte list) \<Rightarrow> nat \<Rightarrow> block \<Rightarrow> nat \<Rightarrow> frame_mem \<Rightarrow> 's \<Rightarrow> (frame_mem \<times> 's) res" where
  "UpdateContent st cb sz b idx mem s =
     bindE (DecodeWithPTE sz b idx) (\<lambda>(ptr, pte).
     bindE (read_obj mem b sz ptr) (\<lambda>bs.
     case (ptr, pte) of
       (In_frame r off, Some x) \<Rightarrow>
         bindE (ps_get st s x) (\<lambda>w.
         Inr (mem(r := take off (mem r) @ take sz (cb bs) @ drop (off + sz) (mem r)),
           ps_put st s x (snd (SetDirty True w))))
     | _ \<Rightarrow> Inl NullDeref))"

section \<open>The bytes of a block\<close>

fun slices_content :: "frame_mem \<Rightarrow> slice option list \<Rightarrow> nat \<Rightarrow> byte list" where
  "slices_content mem [] n = []"
| "slices_content mem (None # sls) n = []"
| "slices_content mem (Some sl # sls) n =
     take n (drop (sl_off sl) (mem (sl_frame sl))) @ slices_content mem sls (n - loc_inpage sl 0)"

fun slices_ok :: "frame_mem \<Rightarrow> slice option list \<Rightarrow> nat \<Rightarrow> bool" where
  "slices_ok mem [] n \<longleftrightarrow> n = 0"
| "slices_ok mem (None # sls) n \<longleftrightarrow> False"
| "slices_ok mem (Some sl # sls) n \<longleftrightarrow>
     sl_off sl < PAGE_SIZE_FILE \<and> length (mem (sl_frame sl)) = PAGE_SIZE_FILE \<and> slices_ok mem sls (n - loc_inpage sl 0)"

definition bb_content :: "frame_mem \<Rightarrow> block \<Rightarrow> byte list" where
  "bb_content mem b = (case bb_data b of Own bs \<Rightarrow> bs | Pages sls \<Rightarrow> slices_content mem sls (bb_size b))"

definition bb_wf :: "frame_mem \<Rightarrow> block \<Rightarrow> bool" where
  "bb_wf mem b \<longleftrightarrow> (case bb_data b of
      Own bs \<Rightarrow> bb_page_num b = 0 \<and> length bs = bb_size b
    | Pages sls \<Rightarrow> bb_page_num b = length sls \<and> 0 < length sls \<and> slices_ok mem sls (bb_size b))"

lemma loc_inpage_in:
  "sl_off sl + off < PAGE_SIZE_FILE \<Longrightarrow> loc_inpage sl off = PAGE_SIZE_FILE - (sl_off sl + off)"
  by (simp add: loc_inpage_def)

lemma slices_content_length: "slices_ok mem sls n \<Longrightarrow> length (slices_content mem sls n) = n"
  by (induction mem sls n rule: slices_ok.induct) (auto simp: loc_inpage_in)

lemma bb_content_length: "bb_wf mem b \<Longrightarrow> length (bb_content mem b) = bb_size b"
  by (simp add: bb_wf_def bb_content_def slices_content_length split: block_data.splits)

text \<open>What the loops see of one slice.\<close>

lemma slice_read:
  assumes "sl_off sl + off < PAGE_SIZE_FILE" "length (mem (sl_frame sl)) = PAGE_SIZE_FILE" "n \<le> loc_inpage sl off"
  shows "read_at mem (sl_frame sl) (sl_off sl + off) n = Inr (take n (drop (sl_off sl + off) (mem (sl_frame sl))))"
  using assms by (simp add: read_at_def loc_inpage_in)

lemma copy_slices_ok:
  "slices_ok mem sls n \<Longrightarrow> copy_slices mem sls n = Inr (slices_content mem sls n)"
proof (induction mem sls n rule: slices_ok.induct)
  case (3 mem sl sls n)
  let ?l = "min (loc_inpage sl 0) n"
  have "read_at mem (sl_frame sl) (sl_off sl) ?l = Inr (take ?l (drop (sl_off sl) (mem (sl_frame sl))))"
    using 3 slice_read [of sl 0 mem ?l] by simp
  moreover have "take ?l (drop (sl_off sl) (mem (sl_frame sl))) = take n (drop (sl_off sl) (mem (sl_frame sl)))"
    using 3 by (simp add: loc_inpage_in min_def)
  moreover have "n - ?l = n - loc_inpage sl 0" by (simp add: min_def)
  ultimately show ?case using 3 by (simp add: Let_def)
qed simp_all

lemma skip_ge_ok:
  "slices_ok mem sls n \<Longrightarrow> off < n \<Longrightarrow>
   \<exists>sl sls' n' off'. skip_ge sls off = Inr (Some sl # sls', off') \<and> slices_ok mem (Some sl # sls') n' \<and>
     sl_off sl + off' < PAGE_SIZE_FILE \<and> off' < n' \<and>
     drop off (slices_content mem sls n) = drop off' (slices_content mem (Some sl # sls') n') \<and>
     n' - off' = n - off"
proof (induction mem sls n arbitrary: off rule: slices_ok.induct)
  case (3 mem sl sls n)
  let ?loc = "loc_inpage sl 0"
  have loc: "?loc = PAGE_SIZE_FILE - sl_off sl" "sl_off sl < PAGE_SIZE_FILE" using 3 by (simp_all add: loc_inpage_in)
  show ?case
  proof (cases "?loc \<le> off")
    case True
    have "drop off (slices_content mem (Some sl # sls) n) = drop (off - ?loc) (slices_content mem sls (n - ?loc))"
      using True 3 loc by simp
    moreover have "n - ?loc - (off - ?loc) = n - off" "off - ?loc < n - ?loc" using True 3 by linarith+
    moreover have "slices_ok mem sls (n - ?loc)" using 3 by simp
    moreover have "skip_ge (Some sl # sls) off = skip_ge sls (off - ?loc)" using True by simp
    ultimately show ?thesis using "3.IH" [of "off - ?loc"] by metis
  next
    case False
    then show ?thesis
      using 3 loc by (intro exI [of _ sl] exI [of _ sls] exI [of _ n] exI [of _ off]) simp
  qed
qed simp_all

lemma strncmp_append:
  "length as = length bs \<Longrightarrow> 0 \<notin> set as \<Longrightarrow>
   strncmp (as @ as') (bs @ bs') = (if strncmp as bs \<noteq> 0 then strncmp as bs else strncmp as' bs')"
proof (induction as bs rule: list_induct2)
  case (Cons a as b bs)
  then show ?case by (cases "a = b") (auto simp: word_uint_eq_iff)
qed simp

lemma cmp_slices_ok:
  "slices_ok mem (Some sl # sls) n \<Longrightarrow> sl_off sl + off < PAGE_SIZE_FILE \<Longrightarrow> left + off \<le> n \<Longrightarrow> left \<le> length right \<Longrightarrow>
   0 \<notin> set (drop off (slices_content mem (Some sl # sls) n)) \<Longrightarrow>
   cmp_slices mem (Some sl # sls) off right left ret =
     Inr (strncmp (take left (drop off (slices_content mem (Some sl # sls) n))) (take left right))"
proof (induction sls arbitrary: sl n off left right ret)
  case Nil
  let ?f = "mem (sl_frame sl)" and ?l = "min (loc_inpage sl off) left"
  have fr: "length ?f = PAGE_SIZE_FILE" "n + sl_off sl \<le> PAGE_SIZE_FILE" using Nil by (simp_all add: loc_inpage_in)
  have l: "?l = left" using Nil.prems(2,3) fr by (simp add: loc_inpage_in)
  have "take left (drop off (take n (drop (sl_off sl) ?f))) = take left (drop (sl_off sl + off) ?f)"
    using Nil.prems(3) by (simp add: drop_take add.commute min_def)
  then show ?case
    using slice_read [of sl off mem left] Nil.prems(2) fr l by (simp add: Let_def)
next
  case (Cons x sls)
  obtain sl' where x: "x = Some sl'" using Cons.prems(1) by (cases x) simp_all
  let ?f = "mem (sl_frame sl)" and ?loc = "loc_inpage sl off" and ?c = "slices_content mem (x # sls) (n - loc_inpage sl 0)"
  let ?l = "min ?loc left"
  have fr: "length ?f = PAGE_SIZE_FILE" "sl_off sl < PAGE_SIZE_FILE" using Cons.prems(1) by simp_all
  have loc: "?loc = PAGE_SIZE_FILE - (sl_off sl + off)" "loc_inpage sl 0 = ?loc + off"
    using Cons.prems(2) fr by (simp_all add: loc_inpage_in)
  have c: "drop off (slices_content mem (Some sl # x # sls) n) = take (n - off) (drop (sl_off sl + off) ?f) @ ?c"
  proof (cases "n \<le> loc_inpage sl 0")
    case True
    then have "n - loc_inpage sl 0 = 0" by simp
    moreover have "slices_content mem (x # sls) 0 = []"
      using slices_content_length [of mem "x # sls" 0] Cons.prems(1) True by simp
    ultimately show ?thesis by (simp only: slices_content.simps) (simp add: drop_take add.commute)
  next
    case False
    moreover have "off \<le> PAGE_SIZE_FILE - sl_off sl" using Cons.prems(2) by linarith
    ultimately have "off \<le> length (take n (drop (sl_off sl) ?f))" using loc fr by simp
    then show ?thesis by (simp add: drop_take add.commute)
  qed
  have t: "take left (take (n - off) (drop (sl_off sl + off) ?f) @ ?c) =
      take ?l (drop (sl_off sl + off) ?f) @ take (left - ?l) ?c"
    using Cons.prems(3) fr loc by (simp add: min_def)
  have r: "take left right = take ?l right @ take (left - ?l) (drop ?l right)"
    by (metis add_diff_inverse_nat min.absorb_iff1 min_le_iff_disj not_less order_refl take_add)
  have rd: "read_at mem (sl_frame sl) (sl_off sl + off) ?l = Inr (take ?l (drop (sl_off sl + off) ?f))"
    using slice_read [of sl off mem ?l] Cons.prems(2) fr by simp
  have nz: "0 \<notin> set (take (n - off) (drop (sl_off sl + off) ?f))" "0 \<notin> set ?c"
    using Cons.prems(5) [unfolded c] by simp_all
  have nz1: "0 \<notin> set (take ?l (drop (sl_off sl + off) ?f))"
  proof -
    have "?l \<le> n - off" using Cons.prems(3) by simp
    from subsetD [OF set_take_subset_set_take [OF this]] nz(1) show ?thesis by metis
  qed
  have IH: "cmp_slices mem (x # sls) 0 (drop ?l right) (left - ?l) 0 =
      Inr (strncmp (take (left - ?l) ?c) (take (left - ?l) (drop ?l right)))"
    unfolding x
  proof (subst Cons.IH [where n = "n - loc_inpage sl 0"])
    show "slices_ok mem (Some sl' # sls) (n - loc_inpage sl 0)" using Cons.prems(1) x by simp
    show "sl_off sl' + 0 < PAGE_SIZE_FILE" using Cons.prems(1) x by simp
    show "left - ?l + 0 \<le> n - loc_inpage sl 0" using Cons.prems(3) loc(2) by (simp add: min_def) linarith
    show "left - ?l \<le> length (drop ?l right)" using Cons.prems(4) by simp
  qed (use nz x in simp_all)
  have len: "length (take ?l (drop (sl_off sl + off) ?f)) = length (take ?l right)"
    using fr loc Cons.prems(4) by (simp add: min_def)
  show ?case
    unfolding c t r strncmp_append [OF len nz1] using rd IH by (simp add: Let_def)
qed

lemma flat_read_wf:
  assumes wf: "bb_wf mem b" and p: "bb_page_num b < 2" and n: "off + n \<le> bb_size b"
  shows "flat_read mem b off n = Inr (take n (drop off (bb_content mem b)))"
proof (cases "bb_data b")
  case (Own bs)
  then show ?thesis using wf n by (simp add: flat_read_def bb_wf_def bb_content_def)
next
  case (Pages sls)
  then obtain x where x: "sls = [x]"
    using wf p by (cases sls rule: remdups_adj.cases) (auto simp: bb_wf_def)
  then obtain sl where sl: "x = Some sl" using wf Pages by (cases x) (auto simp: bb_wf_def)
  have f: "length (mem (sl_frame sl)) = PAGE_SIZE_FILE" "bb_size b + sl_off sl \<le> PAGE_SIZE_FILE"
    using wf Pages x sl by (auto simp: bb_wf_def loc_inpage_in)
  have "take n (drop off (take (bb_size b) (drop (sl_off sl) (mem (sl_frame sl))))) =
      take n (drop (sl_off sl + off) (mem (sl_frame sl)))"
    using n by (simp add: drop_take add.commute min_def)
  then show ?thesis
    using f n Pages x sl by (simp add: flat_read_def bb_slot_def arr_get_def read_at_def bb_content_def)
qed

lemma bb_own_content: "length bs = n \<Longrightarrow> bb_content mem (bb_own n bs) = bs"
  by (simp add: bb_content_def bb_own_def)

lemma bb_own_size [simp]: "bb_size (bb_own n bs) = n"
  by (simp add: bb_own_def)

lemma bb_own_wf: "length bs = n \<Longrightarrow> bb_wf mem (bb_own n bs)"
  by (simp add: bb_wf_def bb_own_def)

text \<open>The block and its flat copy have the same content, so one lemma covers \<open>Copy\<close>.\<close>

lemma bb_Copy_content:
  assumes wf: "bb_wf mem b"
  shows "bb_Copy mem b = Inr (bb_own (bb_size b) (bb_content mem b))"
proof (cases "bb_page_num b < 2")
  case True
  then show ?thesis using flat_read_wf [OF wf True, of 0] bb_content_length [OF wf] by (simp add: bb_Copy_def)
next
  case False
  then obtain sls where "bb_data b = Pages sls" using wf by (cases "bb_data b") (auto simp: bb_wf_def)
  then show ?thesis using wf False copy_slices_ok by (simp add: bb_Copy_def bb_wf_def bb_content_def bb_slices_def)
qed

text \<open>Comparison of a suffix, both layouts.\<close>

lemma skip_cmp:
  assumes ok: "slices_ok mem sls n" and off: "off < n" and nz: "0 \<notin> set (slices_content mem sls n)"
    and m: "m \<le> n - off" "m \<le> length right"
  shows "bindE (skip_ge sls off) (\<lambda>(sls, off). cmp_slices mem sls off right m ret) =
     Inr (strncmp (take m (drop off (slices_content mem sls n))) (take m right))"
proof -
  obtain sl sls' n' off' where s: "skip_ge sls off = Inr (Some sl # sls', off')"
    and ok': "slices_ok mem (Some sl # sls') n'" and i: "sl_off sl + off' < PAGE_SIZE_FILE" "off' < n'" "n' - off' = n - off"
    and d: "drop off (slices_content mem sls n) = drop off' (slices_content mem (Some sl # sls') n')"
    using skip_ge_ok [OF ok off] by blast
  have "0 \<notin> set (drop off' (slices_content mem (Some sl # sls') n'))"
    using nz unfolding d [symmetric] using set_drop_subset by fastforce
  moreover have "m + off' \<le> n'" using m i by linarith
  ultimately show ?thesis using cmp_slices_ok [OF ok' i(1)] m(2) unfolding s d by simp
qed

lemma Compare_inner_content:
  assumes wf: "bb_wf mem b" and off: "offset < bb_size b" and nz: "0 \<notin> set (bb_content mem b)"
  shows "Compare_inner mem b right offset =
     (let m = min (bb_size b - offset) (length right) in
      Inr (strncmp (take m (drop offset (bb_content mem b))) (take m right)))"
proof (cases "bb_page_num b < 2")
  case True
  then show ?thesis using flat_read_wf [OF wf True] off by (simp add: Compare_inner_def Let_def)
next
  case False
  then obtain sls where d: "bb_data b = Pages sls" using wf by (cases "bb_data b") (auto simp: bb_wf_def)
  have "slices_ok mem sls (bb_size b)" "bb_content mem b = slices_content mem sls (bb_size b)"
    using wf d by (simp_all add: bb_wf_def bb_content_def)
  then show ?thesis
    using False d off nz skip_cmp [of mem sls "bb_size b" offset "min (bb_size b - offset) (length right)" right 0]
    by (simp add: Compare_inner_def Let_def bb_slices_def)
qed

lemma skip_ge_0: "slices_ok mem sls n \<Longrightarrow> skip_ge sls 0 = Inr (sls, 0)"
  by (cases "(mem, sls, n)" rule: slices_ok.cases) (auto simp: loc_inpage_in)

text \<open>What \<open>Compare\<close> computes of two byte strings.\<close>

definition cmp_content :: "byte list \<Rightarrow> byte list \<Rightarrow> int" where
  "cmp_content xs ys =
     (let m = min (length xs) (length ys) in strncmp (take m xs) (take m ys))"

lemma Compare_view_content:
  assumes wf: "bb_wf mem b" and off: "offset < bb_size b" and nz: "0 \<notin> set (bb_content mem b)"
  shows "Compare_view mem b right offset =
     (let ret = cmp_content (drop offset (bb_content mem b)) right in
      if ret = 0 \<and> offset = 0 \<and> bb_size b \<noteq> length right
      then Inr (size_diff (bb_size b) (length right)) else Inr ret)"
proof (cases "bb_page_num b < 2")
  case True
  then show ?thesis using flat_read_wf [OF wf True] off bb_content_length [OF wf]
    by (cases "offset = 0") (simp_all add: Compare_view_def Let_def cmp_content_def)
next
  case False
  then obtain sls where d: "bb_data b = Pages sls" using wf by (cases "bb_data b") (auto simp: bb_wf_def)
  have ok: "slices_ok mem sls (bb_size b)" and c: "bb_content mem b = slices_content mem sls (bb_size b)"
    using wf d by (simp_all add: bb_wf_def bb_content_def)
  let ?m = "min (bb_size b - offset) (length right)"
  have k: "bindE (skip_ge sls offset) (\<lambda>(sls, off). cmp_slices mem sls off right ?m (- 10)) =
      Inr (cmp_content (drop offset (bb_content mem b)) right)"
    using skip_cmp [OF ok off, of ?m right "- 10"] nz bb_content_length [OF wf] c by (simp add: cmp_content_def Let_def)
  show ?thesis
  proof (cases "offset = 0")
    case True
    then show ?thesis using False d k skip_ge_0 [OF ok] by (simp add: Compare_view_def Let_def bb_slices_def)
  next
    case z: False
    then show ?thesis using False d k by (simp add: Compare_view_def Let_def bb_slices_def)
  qed
qed

lemma cmp_slices_nothing:
  "slices_ok mem sls n \<Longrightarrow> cmp_slices mem sls 0 right 0 0 = Inr 0"
  by (induction mem sls n arbitrary: right rule: slices_ok.induct) (auto simp: read_at_def)

lemma skip_ge_past:
  "slices_ok mem sls n \<Longrightarrow> bindE (skip_ge sls off) (\<lambda>(sls, off). cmp_slices mem sls off right 0 0) = Inr 0"
proof (induction mem sls n arbitrary: off rule: slices_ok.induct)
  case (3 mem sl sls n)
  show ?case
  proof (cases "loc_inpage sl 0 \<le> off")
    case True
    then show ?thesis using 3 by simp
  next
    case False
    then have "sl_off sl + off < PAGE_SIZE_FILE" using 3 by (simp add: loc_inpage_in)
    then show ?thesis using False 3 cmp_slices_nothing by (auto simp: read_at_def)
  qed
qed simp_all

lemma cmp_content_Nil [simp]: "cmp_content [] ys = 0" "cmp_content xs [] = 0"
  by (simp_all add: cmp_content_def)

lemma cmp_content_append:
  assumes "0 \<notin> set xs"
  shows "cmp_content xs (ys @ zs) =
     (if cmp_content xs ys \<noteq> 0 then cmp_content xs ys else cmp_content (drop (length ys) xs) zs)"
proof (cases "length xs \<le> length ys")
  case False
  let ?k = "min (length xs - length ys) (length zs)"
  have m: "min (length xs) (length (ys @ zs)) = length ys + ?k" using False by simp
  have "0 \<notin> set (take (length ys) xs)" using assms in_set_takeD by fastforce
  note strncmp_append [OF _ this, of ys "take ?k (drop (length ys) xs)" "take ?k zs"]
  moreover have "take (length ys + ?k) xs = take (length ys) xs @ take ?k (drop (length ys) xs)" by (rule take_add)
  moreover have "take (length ys + ?k) (ys @ zs) = ys @ take ?k zs" by simp
  moreover have "cmp_content xs ys = strncmp (take (length ys) xs) ys" using False by (simp add: cmp_content_def)
  moreover have "cmp_content (drop (length ys) xs) zs = strncmp (take ?k (drop (length ys) xs)) (take ?k zs)"
    by (simp add: cmp_content_def Let_def)
  ultimately show ?thesis using False unfolding cmp_content_def [of xs "ys @ zs"] m Let_def by simp
qed (simp add: cmp_content_def)

lemma strncmp_sym: "strncmp ys xs = - strncmp xs ys"
proof (induction xs ys rule: strncmp.induct)
  case (1 a as b bs)
  then show ?case by (cases "a = b") simp_all
qed simp_all

lemma cmp_content_sym: "cmp_content ys xs = - cmp_content xs ys"
  unfolding cmp_content_def Let_def min.commute [of "length ys"] by (rule strncmp_sym)

lemma Compare_inner_cmp:
  assumes wf: "bb_wf mem b" and nz: "0 \<notin> set (bb_content mem b)" and p: "offset < bb_size b \<or> 1 < bb_page_num b"
  shows "Compare_inner mem b right offset = Inr (cmp_content (drop offset (bb_content mem b)) right)"
proof (cases "offset < bb_size b")
  case True
  then show ?thesis
    using Compare_inner_content [OF wf True nz] bb_content_length [OF wf] by (simp add: cmp_content_def Let_def)
next
  case False
  then obtain sls where d: "bb_data b = Pages sls" using wf p by (cases "bb_data b") (auto simp: bb_wf_def)
  have "slices_ok mem sls (bb_size b)" using wf d by (simp add: bb_wf_def)
  then show ?thesis
    using False p d skip_ge_past bb_content_length [OF wf] by (simp add: Compare_inner_def bb_slices_def Let_def)
qed

lemma cmp_blocks_content:
  assumes wf: "bb_wf mem b" and p: "1 < bb_page_num b" and nz: "0 \<notin> set (bb_content mem b)"
  shows "slices_ok mem sls (rs - lr) \<Longrightarrow>
     cmp_blocks mem b rs sls lr 0 = Inr (cmp_content (drop lr (bb_content mem b)) (slices_content mem sls (rs - lr)))"
proof (induction sls arbitrary: lr)
  case (Cons x sls)
  obtain sl where x: "x = Some sl" using Cons.prems by (cases x) simp_all
  let ?L = "min (loc_inpage sl 0) (rs - lr)" and ?f = "mem (sl_frame sl)"
  have loc: "sl_off sl < PAGE_SIZE_FILE" "length ?f = PAGE_SIZE_FILE" "loc_inpage sl 0 = PAGE_SIZE_FILE - sl_off sl"
    using Cons.prems x by (simp_all add: loc_inpage_in)
  have rd: "read_at mem (sl_frame sl) (sl_off sl) ?L = Inr (take ?L (drop (sl_off sl) ?f))"
    using slice_read [of sl 0 mem ?L] loc by simp
  have eq: "take ?L (drop (sl_off sl) ?f) = take (rs - lr) (drop (sl_off sl) ?f)" using loc by (simp add: min_def)
  have n: "rs - lr - loc_inpage sl 0 = rs - (lr + ?L)" by (simp add: min_def)
  have IH: "cmp_blocks mem b rs sls (lr + ?L) 0 =
      Inr (cmp_content (drop (lr + ?L) (bb_content mem b)) (slices_content mem sls (rs - (lr + ?L))))"
    using Cons.IH [of "lr + ?L"] Cons.prems x n by simp
  have nz': "0 \<notin> set (drop lr (bb_content mem b))" using nz by (metis in_set_dropD)
  have len: "length (take ?L (drop (sl_off sl) ?f)) = ?L" using loc by simp
  have c: "slices_content mem (x # sls) (rs - lr) = take ?L (drop (sl_off sl) ?f) @ slices_content mem sls (rs - (lr + ?L))"
    by (simp only: x eq slices_content.simps n)
  show ?case
    unfolding c cmp_content_append [OF nz'] len
    using rd IH Compare_inner_cmp [OF wf nz, of lr "take ?L (drop (sl_off sl) ?f)"] p x
    by (simp add: Let_def add.commute)
qed simp

lemma Compare_block_content:
  assumes wf: "bb_wf mem b" "bb_wf mem r" and nz: "0 \<notin> set (bb_content mem b)" "0 \<notin> set (bb_content mem r)"
    and sz: "0 < bb_size b" "0 < bb_size r"
  shows "Compare_block mem b r =
     (let ret = cmp_content (bb_content mem b) (bb_content mem r) in
      if ret = 0 \<and> bb_size b \<noteq> bb_size r then Inr (size_diff (bb_size b) (bb_size r)) else Inr ret)"
proof (cases "bb_page_num r < 2")
  case True
  then show ?thesis
    using flat_read_wf [OF wf(2) True, of 0] Compare_inner_cmp [OF wf(1) nz(1), of 0] sz bb_content_length [OF wf(2)]
    by (simp add: Compare_block_def Let_def)
next
  case r: False
  show ?thesis
  proof (cases "bb_page_num b < 2")
    case True
    then show ?thesis
      using r flat_read_wf [OF wf(1) True, of 0] Compare_inner_cmp [OF wf(2) nz(2), of 0] sz bb_content_length [OF wf(1)]
        cmp_content_sym [of "bb_content mem r" "bb_content mem b"]
      by (simp add: Compare_block_def Let_def)
  next
    case False
    then obtain sls where d: "bb_data r = Pages sls" using wf r by (cases "bb_data r") (auto simp: bb_wf_def)
    then have "slices_ok mem sls (bb_size r - 0)" "bb_content mem r = slices_content mem sls (bb_size r - 0)"
      using wf(2) by (simp_all add: bb_wf_def bb_content_def)
    then show ?thesis
      using r False d cmp_blocks_content [OF wf(1) _ nz(1), of sls "bb_size r" 0]
      by (simp add: Compare_block_def bb_slices_def Let_def)
  qed
qed

text \<open>C20: comparing two blocks does not depend on how their bytes lie in pages: for non-empty blocks without
  a 0 byte, every layout on either side compares as the flat copies that \<open>Copy\<close> makes of them.\<close>

theorem Compare_block_equals_flat:
  assumes "bb_wf mem b" "bb_wf mem r" "0 < bb_size b" "0 < bb_size r"
    and "0 \<notin> set (bb_content mem b)" "0 \<notin> set (bb_content mem r)"
  shows "bindE (bb_Copy mem b) (\<lambda>b'. bindE (bb_Copy mem r) (\<lambda>r'. Compare_block mem b' r')) = Compare_block mem b r"
  using assms
  by (simp add: bb_Copy_content Compare_block_content bb_own_content bb_own_wf bb_content_length Let_def)

text \<open>Comparing a block with a string from an offset below its size gives the result of \<open>strncmp\<close> on the
  flat content, and, when that is 0 and the offset is 0, the difference of the two lengths.\<close>

theorem Compare_view_equals_flat:
  assumes "bb_wf mem b" "offset < bb_size b" "0 \<notin> set (bb_content mem b)"
  shows "bindE (bb_Copy mem b) (\<lambda>b'. Compare_view mem b' right offset) = Compare_view mem b right offset"
  using assms
  by (cases "offset = 0") (simp_all add: bb_Copy_content Compare_view_content bb_own_content bb_own_wf bb_content_length Let_def)

section \<open>Decoding\<close>

text \<open>The layout the pool's callers use: objects do not straddle pages, pages after the first start at 0.\<close>

definition obj_layout :: "nat \<Rightarrow> block \<Rightarrow> bool" where
  "obj_layout sz b \<longleftrightarrow> 0 < sz \<and> sz dvd PAGE_SIZE_FILE \<and> (case bb_slices b of
      Some sl # sls \<Rightarrow> sz dvd sl_off sl \<and> list_all (\<lambda>x. case x of None \<Rightarrow> False | Some sl \<Rightarrow> sl_off sl = 0) sls
    | _ \<Rightarrow> True)"

lemma slices_content_page:
  "slices_ok mem sls n \<Longrightarrow> list_all (\<lambda>x. case x of None \<Rightarrow> False | Some sl \<Rightarrow> sl_off sl = 0) sls \<Longrightarrow>
   p * PAGE_SIZE_FILE + o' + m \<le> n \<Longrightarrow> o' + m \<le> PAGE_SIZE_FILE \<Longrightarrow> 0 < m \<Longrightarrow>
   \<exists>sl. p < length sls \<and> sls ! p = Some sl \<and> sl_off sl = 0 \<and> length (mem (sl_frame sl)) = PAGE_SIZE_FILE \<and>
     take m (drop (p * PAGE_SIZE_FILE + o') (slices_content mem sls n)) = take m (drop o' (mem (sl_frame sl)))"
proof (induction mem sls n arbitrary: p rule: slices_ok.induct)
  case (3 mem sl sls n)
  have l: "sl_off sl = 0" "loc_inpage sl 0 = PAGE_SIZE_FILE" "length (mem (sl_frame sl)) = PAGE_SIZE_FILE"
    using 3 by (simp_all add: loc_inpage_def)
  show ?case
  proof (cases p)
    case 0
    then have le: "o' + m \<le> n" using 3 by simp
    let ?f = "mem (sl_frame sl)" and ?c = "slices_content mem sls (n - PAGE_SIZE_FILE)"
    have "m \<le> n - o'" "m \<le> PAGE_SIZE_FILE - o'" using le 3(5) by linarith+
    then have "take m (drop o' (take n ?f @ ?c)) = take m (drop o' ?f)"
      using le 3(5) l by (simp add: drop_take)
    then show ?thesis using 0 l by simp
  next
    case (Suc q)
    have "q * PAGE_SIZE_FILE + o' + m \<le> n - loc_inpage sl 0" using 3(4) Suc l by simp
    then obtain sl' where "q < length sls" "sls ! q = Some sl'" "sl_off sl' = 0"
      "length (mem (sl_frame sl')) = PAGE_SIZE_FILE"
      "take m (drop (q * PAGE_SIZE_FILE + o') (slices_content mem sls (n - loc_inpage sl 0))) =
         take m (drop o' (mem (sl_frame sl')))"
      using "3.IH" [of q] 3 by auto
    moreover have "drop (p * PAGE_SIZE_FILE + o') (slices_content mem (Some sl # sls) n) =
        drop (q * PAGE_SIZE_FILE + o') (slices_content mem sls (n - loc_inpage sl 0))"
    proof -
      have "PAGE_SIZE_FILE \<le> n" using 3(4) Suc by simp
      then show ?thesis using l Suc by simp
    qed
    ultimately show ?thesis using Suc by simp
  qed
qed simp_all

lemma slices_content_first:
  assumes "slices_ok mem (Some sl # sls) n" "k + m \<le> loc_inpage sl 0" "k + m \<le> n"
  shows "take m (drop k (slices_content mem (Some sl # sls) n)) = take m (drop (sl_off sl + k) (mem (sl_frame sl)))"
proof -
  have l: "loc_inpage sl 0 = PAGE_SIZE_FILE - sl_off sl" using assms by (simp add: loc_inpage_in)
  have "m \<le> n - k" "m \<le> PAGE_SIZE_FILE - (k + sl_off sl)" using assms(2,3) l by linarith+
  then show ?thesis using assms l by (simp add: drop_take add.commute)
qed

lemma read_at_in:
  "length (mem r) = PAGE_SIZE_FILE \<Longrightarrow> k + m \<le> PAGE_SIZE_FILE \<Longrightarrow> read_at mem r k m = Inr (take m (drop k (mem r)))"
  by (simp add: read_at_def)

lemma Decode_paged:
  assumes wf: "bb_wf mem b" and lay: "obj_layout sz b" and p: "\<not> bb_page_num b < 2" and idx: "idx * sz + sz \<le> bb_size b"
  shows "bindE (Decode sz b idx) (read_obj mem b sz) = Inr (take sz (drop (idx * sz) (bb_content mem b)))"
proof -
  obtain sl sls where d: "bb_data b = Pages (Some sl # sls)"
  proof (cases "bb_data b")
    case (Pages xs)
    then show thesis using wf that by (cases "(mem, xs, bb_size b)" rule: slices_ok.cases) (auto simp: bb_wf_def)
  qed (use wf p in \<open>simp add: bb_wf_def\<close>)
  have ok: "slices_ok mem (Some sl # sls) (bb_size b)" and c: "bb_content mem b = slices_content mem (Some sl # sls) (bb_size b)"
    using wf d by (simp_all add: bb_wf_def bb_content_def)
  have l: "loc_inpage sl 0 = PAGE_SIZE_FILE - sl_off sl" "sl_off sl < PAGE_SIZE_FILE" "length (mem (sl_frame sl)) = PAGE_SIZE_FILE"
    using ok by (simp_all add: loc_inpage_in)
  have sz: "0 < sz" "sz dvd PAGE_SIZE_FILE" "sz dvd sl_off sl"
    and zs: "list_all (\<lambda>x. case x of None \<Rightarrow> False | Some sl \<Rightarrow> sl_off sl = 0) sls"
    using lay d by (simp_all add: obj_layout_def bb_slices_def)
  let ?q = "loc_inpage sl 0 div sz"
  have q: "?q * sz = loc_inpage sl 0" using sz l by simp
  show ?thesis
  proof (cases "idx < ?q")
    case True
    then have "Suc idx * sz \<le> ?q * sz" by (intro mult_le_mono1) simp
    then have k: "idx * sz + sz \<le> loc_inpage sl 0" using q by simp
    have dec: "Decode sz b idx = Inr (In_frame (sl_frame sl) (sl_off sl + idx * sz))"
      using True p d by (simp add: Decode_def DecodeWithPTE_def bb_slot_def arr_get_def)
    have "sl_off sl + idx * sz + sz \<le> PAGE_SIZE_FILE" using k l by linarith
    then show ?thesis
      unfolding dec c slices_content_first [OF ok k idx] using l(3) by (simp add: read_obj_def read_at_in)
  next
    case False
    define j where "j = idx - ?q"
    let ?pp = "PAGE_SIZE_FILE div sz"
    have pp: "?pp * sz = PAGE_SIZE_FILE" using sz by simp
    have ij: "idx * sz = loc_inpage sl 0 + j * sz"
      using False q unfolding j_def by (metis add_mult_distrib le_add_diff_inverse linorder_not_less)
    have js: "j * sz = (j div ?pp) * PAGE_SIZE_FILE + (j mod ?pp) * sz"
    proof -
      have "j * sz = (j div ?pp * ?pp + j mod ?pp) * sz" by (simp only: div_mult_mod_eq)
      also have "\<dots> = (j div ?pp) * (?pp * sz) + (j mod ?pp) * sz" by (simp only: add_mult_distrib mult.assoc)
      finally show ?thesis unfolding pp .
    qed
    have "0 < ?pp" using pp by (cases "PAGE_SIZE_FILE div sz") (simp_all add: PAGE_SIZE_FILE_def)
    then have "Suc (j mod ?pp) * sz \<le> ?pp * sz" by (intro mult_le_mono1) (simp add: Suc_leI)
    then have o': "(j mod ?pp) * sz + sz \<le> PAGE_SIZE_FILE" using pp by simp
    have ok': "slices_ok mem sls (bb_size b - loc_inpage sl 0)" using ok by simp
    have "(j div ?pp) * PAGE_SIZE_FILE + (j mod ?pp) * sz + sz \<le> bb_size b - loc_inpage sl 0"
      using idx ij js by linarith
    then obtain sl' where s: "j div ?pp < length sls" "sls ! (j div ?pp) = Some sl'" "sl_off sl' = 0"
        "length (mem (sl_frame sl')) = PAGE_SIZE_FILE"
        "take sz (drop (j * sz) (slices_content mem sls (bb_size b - loc_inpage sl 0))) =
           take sz (drop ((j mod ?pp) * sz) (mem (sl_frame sl')))"
      using slices_content_page [OF ok' zs _ o' sz(1)] js by metis
    have "drop (idx * sz) (bb_content mem b) = drop (j * sz) (slices_content mem sls (bb_size b - loc_inpage sl 0))"
    proof -
      have "loc_inpage sl 0 \<le> bb_size b" using idx ij by linarith
      then show ?thesis using l ij unfolding c by simp
    qed
    moreover have "Decode sz b idx = Inr (In_frame (sl_frame sl') ((j mod ?pp) * sz))"
    proof -
      have "idx \<noteq> 0 \<or> ?q = 0" using False by auto
      moreover have "0 < ?q" using l sz q by (metis mult_is_0 gr0I zero_less_diff not_less0)
      ultimately show ?thesis
        using False p d s by (simp add: Decode_def DecodeWithPTE_def bb_slot_def arr_get_def Let_def flip: j_def)
    qed
    ultimately show ?thesis using s(4,5) o' by (simp add: read_obj_def read_at_in)
  qed
qed

text \<open>C19: in a well-formed block whose objects do not straddle pages, the pointer \<open>Decode\<close> computes for the
  object \<open>idx\<close> reads exactly the bytes of that object in the block's content, in every layout.\<close>

theorem Decode_reads_object:
  assumes "bb_wf mem b" "obj_layout sz b" "idx * sz + sz \<le> bb_size b"
  shows "bindE (Decode sz b idx) (read_obj mem b sz) = Inr (take sz (drop (idx * sz) (bb_content mem b)))"
proof (cases "bb_page_num b < 2")
  case True
  have "bindE (Decode sz b idx) (read_obj mem b sz) = flat_read mem b (idx * sz) sz"
    using True assms(1)
    by (auto simp: Decode_def DecodeWithPTE_def read_obj_def flat_read_def bb_slot_def arr_get_def bb_wf_def
        split: block_data.splits option.splits)
  then show ?thesis using flat_read_wf [OF assms(1) True assms(3)] by simp
qed (rule Decode_paged [OF assms(1,2) _ assms(3)])

section \<open>A block over two pages\<close>

definition two_frames :: frame_mem where
  "two_frames r = replicate PAGE_SIZE_FILE (if ref_frame r = 0 then 1 else 2)"

definition two_pages :: block where
  "two_pages = \<lparr>bb_size = 12, bb_page_num = 2, bb_data = Pages
     [Some \<lparr>sl_frame = PTE_ref 0 0, sl_off = 4088, sl_pte = PTE_ref 0 0, sl_mark = False\<rparr>,
      Some \<lparr>sl_frame = PTE_ref 0 1, sl_off = 0, sl_pte = PTE_ref 0 1, sl_mark = False\<rparr>]\<rparr>"

lemma two_pages_wf: "bb_wf two_frames two_pages"
  by (simp add: bb_wf_def two_pages_def two_frames_def loc_inpage_def PAGE_SIZE_FILE_def)

lemma two_pages_content: "bb_content two_frames two_pages = replicate 8 1 @ replicate 4 2"
  by (simp add: bb_content_def two_pages_def two_frames_def loc_inpage_def PAGE_SIZE_FILE_def min_def)

lemma two_pages_layout: "obj_layout 4 two_pages"
  by (simp add: obj_layout_def two_pages_def bb_slices_def PAGE_SIZE_FILE_def)

lemma Compare_block_equals_flat_witness:
  "bindE (bb_Copy two_frames two_pages) (\<lambda>b'. bindE (bb_Copy two_frames (bb_own 2 [1, 3])) (\<lambda>r'.
     Compare_block two_frames b' r')) = Compare_block two_frames two_pages (bb_own 2 [1, 3])"
proof (rule Compare_block_equals_flat)
  show "bb_wf two_frames (bb_own 2 [1, 3])" by (simp add: bb_own_wf)
  show "0 < bb_size two_pages" by (simp add: two_pages_def)
qed (simp_all add: two_pages_wf two_pages_content bb_own_content)

lemma Compare_view_equals_flat_witness:
  "bindE (bb_Copy two_frames two_pages) (\<lambda>b'. Compare_view two_frames b' [1, 2] 7) = Compare_view two_frames two_pages [1, 2] 7"
proof (rule Compare_view_equals_flat)
  show "7 < bb_size two_pages" by (simp add: two_pages_def)
qed (simp_all add: two_pages_wf two_pages_content)

lemma Decode_reads_object_witness:
  "bindE (Decode 4 two_pages 2) (read_obj two_frames two_pages 4) =
     Inr (take 4 (drop 8 (bb_content two_frames two_pages)))"
  using Decode_reads_object [OF two_pages_wf two_pages_layout, of 2] by (simp add: two_pages_def)

end
