(* ===== verification/BlockOps.thy ===== *)
theory BlockOps
  imports Blocks Requests BufferBlock
begin

text \<open>
  The operations of the buffer pool manager that hand out blocks (\<^verbatim>\<open>src/buffer_pool_manager.cpp\<close>): they
  pin the pages of a range of a file and return a block of pointers into the frames, with and without the
  direct cache of the running thread \<open>dc\<close>.  The manager is the store of entries that cache and blocks
  point into.  A null pointer from a fetch is an error where the code stores it in the block.
\<close>

section \<open>The manager as the store of entries and frames\<close>

definition mgr_get :: "('r, 'q) manager \<Rightarrow> pte_ref \<Rightarrow> pte res" where
  "mgr_get mg r =
     bindE (arr_get (mg_pools mg) (ref_pool r)) (\<lambda>bp. FromPageId (bp_page_table bp) (ref_frame r))"

definition mgr_put :: "('r, 'q) manager \<Rightarrow> pte_ref \<Rightarrow> pte \<Rightarrow> ('r, 'q) manager" where
  "mgr_put mg r w =
     (let bp = mg_pools mg ! ref_pool r in
      mg\<lparr>mg_pools := (mg_pools mg)[ref_pool r := bp\<lparr>bp_page_table := put_pte (bp_page_table bp) (ref_frame r) w\<rparr>]\<rparr>)"

definition mgr_store :: "('r, 'q) manager pte_store" where
  "mgr_store = \<lparr>ps_get = mgr_get, ps_put = mgr_put\<rparr>"

definition mgr_mem :: "('r, 'q) manager \<Rightarrow> frame_mem" where
  "mgr_mem mg r =
     (case arr_get (mg_pools mg) (ref_pool r) of Inl _ \<Rightarrow> []
      | Inr bp \<Rightarrow> (case arr_get (bp_memory_pool bp) (ref_frame r) of Inl _ \<Rightarrow> [] | Inr b \<Rightarrow> b))"

definition page_frame :: "('r, 'q) manager \<Rightarrow> fpage_id \<Rightarrow> mpage_id option \<Rightarrow> pte_ref res" where
  "page_frame mg p ret = (case ret of None \<Rightarrow> Inl NullDeref | Some m \<Rightarrow> Inr (PTE_ref (pool_of mg p) m))"

definition mgr_fetch ::
  "nat \<Rightarrow> 'r replacer_ops \<Rightarrow> 'q queue_ops \<Rightarrow> ('r, 'q) manager \<Rightarrow> fpage_id \<Rightarrow> file_handle \<Rightarrow>
   (pte_ref \<times> ('r, 'q) manager) res" where
  "mgr_fetch fuel ops qops mg p fd =
     bindE (on_pool mg p (\<lambda>bp d. FetchPageSync fuel ops qops bp d p fd)) (\<lambda>(ret, mg).
     bindE (page_frame mg p ret) (\<lambda>r. Inr (r, mg)))"

definition mgr_Pin ::
  "'r replacer_ops \<Rightarrow> ('r, 'q) manager \<Rightarrow> fpage_id \<Rightarrow> file_handle \<Rightarrow> (pte_ref option \<times> ('r, 'q) manager) res" where
  "mgr_Pin ops mg p fd =
     bindE (on_pool mg p (\<lambda>bp d. bindE (Pin ops bp p fd) (\<lambda>(ret, bp). Inr (ret, bp, d)))) (\<lambda>(ret, mg).
     Inr (map_option (PTE_ref (pool_of mg p)) ret, mg))"

text \<open>The first page of a range and the offset in it.\<close>

definition first_page :: "u64 \<Rightarrow> fpage_id" where
  "first_page file_offset = ucast (drop_bit LOG_PAGE_SIZE_FILE file_offset)"

definition first_offset :: "u64 \<Rightarrow> u64" where
  "first_offset file_offset = file_offset mod word_of_nat PAGE_SIZE_FILE"

section \<open>One page after the other\<close>

fun sync_pages ::
  "nat \<Rightarrow> 'r replacer_ops \<Rightarrow> 'q queue_ops \<Rightarrow> file_handle \<Rightarrow> nat \<Rightarrow> nat \<Rightarrow> fpage_id \<Rightarrow> u64 \<Rightarrow> block \<Rightarrow>
   ('r, 'q) manager \<Rightarrow> (block \<times> ('r, 'q) manager) res" where
  "sync_pages fuel ops qops fd 0 page_id fpage_id fpage_offset ret mg = Inr (ret, mg)"
| "sync_pages fuel ops qops fd (Suc n) page_id fpage_id fpage_offset ret mg =
     bindE (mgr_fetch fuel ops qops mg fpage_id fd) (\<lambda>(r, mg).
     bindE (InsertPage ret page_id (r, unat fpage_offset) r False) (\<lambda>ret.
     sync_pages fuel ops qops fd n (page_id + 1) (fpage_id + 1) 0 ret mg))"

definition GetBlockSync ::
  "nat \<Rightarrow> 'r replacer_ops \<Rightarrow> 'q queue_ops \<Rightarrow> ('r, 'q) manager \<Rightarrow> u64 \<Rightarrow> u64 \<Rightarrow> file_handle \<Rightarrow>
   (block \<times> ('r, 'q) manager) res" where
  "GetBlockSync fuel ops qops mg file_offset block_size fd =
     (if block_size = 0 then Inr (bb_empty, mg)
      else let num = num_page file_offset block_size; ret = bb_pages (unat block_size) num;
             fpage_id = first_page file_offset; fpage_offset = first_offset file_offset in
        if num = 1 then
          bindE (mgr_fetch fuel ops qops mg fpage_id fd) (\<lambda>(r, mg).
          bindE (InsertPage ret 0 (r, unat fpage_offset) r False) (\<lambda>ret. Inr (ret, mg)))
        else sync_pages fuel ops qops fd num 0 fpage_id fpage_offset ret mg)"

text \<open>
  With the direct cache: a cached page costs no pin of its own; another one is fetched, and its pin is
  given to the cache when the cache takes it.  The frame of a cached entry is looked up in the pool of
  the page.
\<close>

definition cached_page ::
  "nat \<Rightarrow> 'r replacer_ops \<Rightarrow> 'q queue_ops \<Rightarrow> fpage_id \<Rightarrow> file_handle \<Rightarrow> direct_cache \<Rightarrow> ('r, 'q) manager \<Rightarrow>
   ((pte_ref \<times> bool) \<times> direct_cache \<times> ('r, 'q) manager) res" where
  "cached_page fuel ops qops p fd dc mg =
     bindE (dc1_Find mgr_store dc mg fd p) (\<lambda>(found, dc).
     case found of
       Some r \<Rightarrow> if ref_pool r = pool_of mg p then Inr ((r, True), dc, mg) else Inl OutOfBounds
     | None \<Rightarrow>
         bindE (mgr_fetch fuel ops qops mg p fd) (\<lambda>(r, mg).
         bindE (dc1_Insert mgr_store dc mg fd p r) (\<lambda>(mark, dc, mg). Inr ((r, mark), dc, mg))))"

fun cached_pages ::
  "nat \<Rightarrow> 'r replacer_ops \<Rightarrow> 'q queue_ops \<Rightarrow> file_handle \<Rightarrow> nat \<Rightarrow> nat \<Rightarrow> fpage_id \<Rightarrow> u64 \<Rightarrow> block \<Rightarrow>
   direct_cache \<Rightarrow> ('r, 'q) manager \<Rightarrow> (block \<times> direct_cache \<times> ('r, 'q) manager) res" where
  "cached_pages fuel ops qops fd 0 page_id fpage_id fpage_offset ret dc mg = Inr (ret, dc, mg)"
| "cached_pages fuel ops qops fd (Suc n) page_id fpage_id fpage_offset ret dc mg =
     bindE (cached_page fuel ops qops fpage_id fd dc mg) (\<lambda>((r, mark), dc, mg).
     bindE (InsertPage ret page_id (r, unat fpage_offset) r mark) (\<lambda>ret.
     cached_pages fuel ops qops fd n (page_id + 1) (fpage_id + 1) 0 ret dc mg))"

definition GetBlockWithDirectCacheSync ::
  "nat \<Rightarrow> 'r replacer_ops \<Rightarrow> 'q queue_ops \<Rightarrow> ('r, 'q) manager \<Rightarrow> direct_cache \<Rightarrow> u64 \<Rightarrow> u64 \<Rightarrow> file_handle \<Rightarrow>
   (block \<times> direct_cache \<times> ('r, 'q) manager) res" where
  "GetBlockWithDirectCacheSync fuel ops qops mg dc file_offset block_size fd =
     (if block_size = 0 then Inr (bb_empty, dc, mg)
      else let num = num_page file_offset block_size; ret = bb_pages (unat block_size) num;
             fpage_id = first_page file_offset; fpage_offset = first_offset file_offset in
        if num = 1 then
          bindE (cached_page fuel ops qops fpage_id fd dc mg) (\<lambda>((r, mark), dc, mg).
          bindE (InsertPage ret 0 (r, unat fpage_offset) r mark) (\<lambda>ret. Inr (ret, dc, mg)))
        else cached_pages fuel ops qops fd num 0 fpage_id fpage_offset ret dc mg)"

section \<open>The resumable fetches\<close>

definition mgr_Fetch1 ::
  "nat \<Rightarrow> 'r replacer_ops \<Rightarrow> 'q queue_ops \<Rightarrow> sync_request \<Rightarrow> ('r, 'q) manager \<Rightarrow>
   (bool \<times> sync_request \<times> ('r, 'q) manager) res" where
  "mgr_Fetch1 fuel ops qops req mg =
     bindE (on_pool mg (sr_fpage_id req) (\<lambda>bp d.
       bindE (FetchPageSync1 fuel ops qops req bp d) (\<lambda>(b, req, bp, d). Inr ((b, req), bp, d))))
     (\<lambda>((b, req), mg). Inr (b, req, mg))"

definition mgr_Fetch2 ::
  "nat \<Rightarrow> ('r, 'q) aio \<Rightarrow> (io_request \<Rightarrow> nat) \<Rightarrow> 'r replacer_ops \<Rightarrow> 'q queue_ops \<Rightarrow> sync_request \<Rightarrow>
   ('r, 'q) manager \<Rightarrow> (bool \<times> sync_request \<times> ('r, 'q) manager) res" where
  "mgr_Fetch2 fuel aio latency ops qops req mg =
     bindE (on_pool mg (sr_fpage_id req) (\<lambda>bp d.
       bindE (FetchPageSync2 fuel aio latency ops qops req bp d) (\<lambda>(b, req, bp, d). Inr ((b, req), bp, d))))
     (\<lambda>((b, req), mg). Inr (b, req, mg))"

definition request_frame :: "('r, 'q) manager \<Rightarrow> sync_request \<Rightarrow> pte_ref res" where
  "request_frame mg req = page_frame mg (sr_fpage_id req) (sr_response req)"

text \<open>\<open>while (!FetchPageSync2(req));\<close> and the insertion of its answer.\<close>

fun finish_Fetch2 ::
  "nat \<Rightarrow> nat \<Rightarrow> ('r, 'q) aio \<Rightarrow> (io_request \<Rightarrow> nat) \<Rightarrow> 'r replacer_ops \<Rightarrow> 'q queue_ops \<Rightarrow> sync_request \<Rightarrow>
   ('r, 'q) manager \<Rightarrow> (sync_request \<times> ('r, 'q) manager) res" where
  "finish_Fetch2 0 fuel aio latency ops qops req mg = Inl OutOfFuel"
| "finish_Fetch2 (Suc n) fuel aio latency ops qops req mg =
     bindE (mgr_Fetch2 fuel aio latency ops qops req mg) (\<lambda>(b, req, mg).
     if b then Inr (req, mg) else finish_Fetch2 n fuel aio latency ops qops req mg)"

section \<open>Pinning first, reading the missing pages together\<close>

text \<open>Synchronous I/O of the manager between a file and a frame.\<close>

definition mgr_ReadWrite ::
  "('r, 'q) manager \<Rightarrow> u64 \<Rightarrow> pte_ref \<Rightarrow> file_handle \<Rightarrow> bool \<Rightarrow> (bool \<times> ('r, 'q) manager) res" where
  "mgr_ReadWrite mg offset r fd is_read =
     bindE (arr_get (mg_pools mg) (ref_pool r)) (\<lambda>bp.
     bindE (ReadWriteSync bp (mg_disk mg) offset (ref_frame r) fd is_read) (\<lambda>(ok, bp, d).
     Inr (ok, mg\<lparr>mg_pools := (mg_pools mg)[ref_pool r := bp], mg_disk := d\<rparr>)))"

definition put_frame :: "('r, 'q) manager \<Rightarrow> pte_ref \<Rightarrow> byte list \<Rightarrow> ('r, 'q) manager res" where
  "put_frame mg r b =
     bindE (arr_get (mg_pools mg) (ref_pool r)) (\<lambda>bp.
     bindE (arr_set (bp_memory_pool bp) (ref_frame r) b) (\<lambda>mem.
     Inr (mg\<lparr>mg_pools := (mg_pools mg)[ref_pool r := bp\<lparr>bp_memory_pool := mem\<rparr>]\<rparr>)))"

fun put_frames :: "('r, 'q) manager \<Rightarrow> pte_ref list \<Rightarrow> byte list list \<Rightarrow> ('r, 'q) manager res" where
  "put_frames mg (r # rs) (b # bs) = bindE (put_frame mg r b) (\<lambda>mg. put_frames mg rs bs)"
| "put_frames mg _ _ = Inr mg"

text \<open>
  The requests of a block; a page that was pinned at once has a request that has ended.  \<open>count_t\<close> counts
  the pages still to be read.
\<close>

fun sync1_pages ::
  "nat \<Rightarrow> 'r replacer_ops \<Rightarrow> 'q queue_ops \<Rightarrow> file_handle \<Rightarrow> nat \<Rightarrow> nat \<Rightarrow> fpage_id \<Rightarrow> u64 \<Rightarrow> block \<Rightarrow>
   sync_request list \<Rightarrow> nat \<Rightarrow> ('r, 'q) manager \<Rightarrow> (block \<times> sync_request list \<times> nat \<times> ('r, 'q) manager) res" where
  "sync1_pages fuel ops qops fd 0 page_id p fpage_offset ret buf count_t mg = Inr (ret, buf, count_t, mg)"
| "sync1_pages fuel ops qops fd (Suc n) page_id p fpage_offset ret buf count_t mg =
     bindE (mgr_Pin ops mg p fd) (\<lambda>(tmp, mg).
     case tmp of
       Some r \<Rightarrow>
         bindE (InsertPage ret page_id (r, unat fpage_offset) r False) (\<lambda>ret.
         sync1_pages fuel ops qops fd n (page_id + 1) (p + 1) 0 ret
           (buf @ [(sync_request_new fd p 0 0)\<lparr>sr_runtime_phase := End\<rparr>]) count_t mg)
     | None \<Rightarrow>
         bindE (mgr_Fetch1 fuel ops qops (sync_request_new fd p 0 0) mg) (\<lambda>(b, req, mg).
         bindE (request_frame mg req) (\<lambda>r.
         bindE (InsertPage ret page_id (r, unat fpage_offset) r False) (\<lambda>ret.
         sync1_pages fuel ops qops fd n (page_id + 1) (p + 1) 0 ret (buf @ [req])
           (if b then count_t else count_t + 1) mg))))"

fun request_frames :: "('r, 'q) manager \<Rightarrow> sync_request list \<Rightarrow> pte_ref list res" where
  "request_frames mg [] = Inr []"
| "request_frames mg (req # reqs) =
     bindE (request_frame mg req) (\<lambda>r. bindE (request_frames mg reqs) (\<lambda>rs. Inr (r # rs)))"

fun finish1_all ::
  "nat \<Rightarrow> 'r replacer_ops \<Rightarrow> 'q queue_ops \<Rightarrow> sync_request list \<Rightarrow> ('r, 'q) manager \<Rightarrow> ('r, 'q) manager res" where
  "finish1_all fuel ops qops [] mg = Inr mg"
| "finish1_all fuel ops qops (req # reqs) mg =
     bindE (mgr_Fetch1 fuel ops qops req mg) (\<lambda>(b, _, mg).
     bindE (assertE b) (\<lambda>_. finish1_all fuel ops qops reqs mg))"

fun read_each ::
  "nat \<Rightarrow> 'r replacer_ops \<Rightarrow> 'q queue_ops \<Rightarrow> sync_request list \<Rightarrow> ('r, 'q) manager \<Rightarrow> ('r, 'q) manager res" where
  "read_each fuel ops qops [] mg = Inr mg"
| "read_each fuel ops qops (req # reqs) mg =
     (if sr_runtime_phase req = End then read_each fuel ops qops reqs mg
      else bindE (request_frame mg req) (\<lambda>r.
        bindE (mgr_ReadWrite mg (page_offset_of (sr_fpage_id req)) r (sr_fd req) True) (\<lambda>(ok, mg).
        bindE (assertE ok) (\<lambda>_.
        bindE (mgr_Fetch1 fuel ops qops req mg) (\<lambda>(b, _, mg).
        bindE (assertE b) (\<lambda>_. read_each fuel ops qops reqs mg))))))"

definition GetBlockSync1 ::
  "nat \<Rightarrow> 'r replacer_ops \<Rightarrow> 'q queue_ops \<Rightarrow> ('r, 'q) manager \<Rightarrow> u64 \<Rightarrow> u64 \<Rightarrow> file_handle \<Rightarrow>
   (block \<times> ('r, 'q) manager) res" where
  "GetBlockSync1 fuel ops qops mg file_offset block_size fd =
     (if block_size = 0 then Inr (bb_empty, mg)
      else let num = num_page file_offset block_size; ret = bb_pages (unat block_size) num;
             fpage_id = first_page file_offset; fpage_offset = first_offset file_offset in
        if num = 1 then
          bindE (mgr_fetch fuel ops qops mg fpage_id fd) (\<lambda>(r, mg).
          bindE (InsertPage ret 0 (r, unat fpage_offset) r False) (\<lambda>ret. Inr (ret, mg)))
        else
          bindE (sync1_pages fuel ops qops fd num 0 fpage_id fpage_offset ret [] 0 mg) (\<lambda>(ret, buf, count_t, mg).
          if count_t = num then
            bindE (request_frames mg buf) (\<lambda>rs.
            bindE (RWSysCall_Readv (mg_disk mg) (page_offset_of fpage_id) (map (mgr_mem mg) rs) fd) (\<lambda>(ok, bs).
            bindE (assertE ok) (\<lambda>_.
            bindE (put_frames mg rs bs) (\<lambda>mg.
            bindE (finish1_all fuel ops qops buf mg) (\<lambda>mg. Inr (ret, mg))))))
          else bindE (read_each fuel ops qops buf mg) (\<lambda>mg. Inr (ret, mg))))"

section \<open>All pages in flight\<close>

text \<open>\<open>aio\<close> and \<open>latency\<close> are the I/O server, \<open>rounds\<close> bounds the loops that wait for it.\<close>

fun async1_pages ::
  "nat \<Rightarrow> ('r, 'q) aio \<Rightarrow> (io_request \<Rightarrow> nat) \<Rightarrow> 'r replacer_ops \<Rightarrow> 'q queue_ops \<Rightarrow> sync_request list \<Rightarrow>
   ('r, 'q) manager \<Rightarrow> (sync_request list \<times> ('r, 'q) manager) res" where
  "async1_pages fuel aio latency ops qops [] mg = Inr ([], mg)"
| "async1_pages fuel aio latency ops qops (req # reqs) mg =
     bindE (mgr_Pin ops mg (sr_fpage_id req) (sr_fd req)) (\<lambda>(found, mg).
     bindE (case found of
         Some r \<Rightarrow> Inr (req\<lparr>sr_response := Some (ref_frame r), sr_runtime_phase := End\<rparr>, mg)
       | None \<Rightarrow> bindE (mgr_Fetch2 fuel aio latency ops qops req mg) (\<lambda>(_, req, mg). Inr (req, mg))) (\<lambda>(req, mg).
     bindE (async1_pages fuel aio latency ops qops reqs mg) (\<lambda>(reqs, mg). Inr (req # reqs, mg))))"

fun async1_finish ::
  "nat \<Rightarrow> nat \<Rightarrow> ('r, 'q) aio \<Rightarrow> (io_request \<Rightarrow> nat) \<Rightarrow> 'r replacer_ops \<Rightarrow> 'q queue_ops \<Rightarrow> nat \<Rightarrow> u64 \<Rightarrow> block \<Rightarrow>
   sync_request list \<Rightarrow> ('r, 'q) manager \<Rightarrow> (block \<times> ('r, 'q) manager) res" where
  "async1_finish rounds fuel aio latency ops qops page_id fpage_offset ret [] mg = Inr (ret, mg)"
| "async1_finish rounds fuel aio latency ops qops page_id fpage_offset ret (req # reqs) mg =
     bindE (finish_Fetch2 rounds fuel aio latency ops qops req mg) (\<lambda>(req, mg).
     bindE (request_frame mg req) (\<lambda>r.
     bindE (InsertPage ret page_id (r, unat fpage_offset) r False) (\<lambda>ret.
     async1_finish rounds fuel aio latency ops qops (page_id + 1) 0 ret reqs mg)))"

definition GetBlockAsync1 ::
  "nat \<Rightarrow> nat \<Rightarrow> ('r, 'q) aio \<Rightarrow> (io_request \<Rightarrow> nat) \<Rightarrow> 'r replacer_ops \<Rightarrow> 'q queue_ops \<Rightarrow> ('r, 'q) manager \<Rightarrow>
   u64 \<Rightarrow> u64 \<Rightarrow> file_handle \<Rightarrow> (block \<times> ('r, 'q) manager) res" where
  "GetBlockAsync1 rounds fuel aio latency ops qops mg file_offset block_size fd =
     (if block_size = 0 then Inr (bb_empty, mg)
      else let num = num_page file_offset block_size in
        bindE (async1_pages fuel aio latency ops qops
          (map (\<lambda>i. sync_request_new fd (first_page file_offset + word_of_nat i) 0 0) [0..<num]) mg) (\<lambda>(buf, mg).
        async1_finish rounds fuel aio latency ops qops 0 (first_offset file_offset)
          (bb_pages (unat block_size) num) buf mg))"

section \<open>Batches of blocks\<close>

record batch_request =
  br_file_offset :: u64
  br_block_size :: u64
  br_fd :: file_handle

definition br_num_page :: "batch_request \<Rightarrow> nat" where
  "br_num_page rq = num_page (br_file_offset rq) (br_block_size rq)"

definition insert_result ::
  "block list \<Rightarrow> nat \<Rightarrow> sync_request \<Rightarrow> pte_ref \<Rightarrow> bool \<Rightarrow> block list res" where
  "insert_result results i req r mark =
     bindE (arr_get results i) (\<lambda>b.
     bindE (InsertPage b (unat (sr_page_id_in_block req)) (r, unat (sr_fpage_offset req)) r mark) (\<lambda>b.
     arr_set results i b))"

text \<open>The first form: every request with the index of its block.\<close>

fun batch_new_start ::
  "nat \<Rightarrow> ('r, 'q) aio \<Rightarrow> (io_request \<Rightarrow> nat) \<Rightarrow> 'r replacer_ops \<Rightarrow> 'q queue_ops \<Rightarrow> nat \<Rightarrow> batch_request list \<Rightarrow>
   ('r, 'q) manager \<Rightarrow> (block list \<times> (nat \<times> sync_request) list \<times> ('r, 'q) manager) res" where
  "batch_new_start fuel aio latency ops qops i [] mg = Inr ([], [], mg)"
| "batch_new_start fuel aio latency ops qops i (rq # rqs) mg =
     (if br_block_size rq = 0 then
        bindE (batch_new_start fuel aio latency ops qops (i + 1) rqs mg) (\<lambda>(rets, buf, mg).
        Inr (bb_empty # rets, buf, mg))
      else let num = br_num_page rq in
        bindE (async1_pages fuel aio latency ops qops
          (map (\<lambda>j. sync_request_new (br_fd rq) (first_page (br_file_offset rq) + word_of_nat j)
             (if j = 0 then first_offset (br_file_offset rq) else 0) (word_of_nat j)) [0..<num]) mg) (\<lambda>(reqs, mg).
        bindE (batch_new_start fuel aio latency ops qops (i + 1) rqs mg) (\<lambda>(rets, buf, mg).
        Inr (bb_pages (unat (br_block_size rq)) num # rets, map (Pair i) reqs @ buf, mg))))"

fun batch_new_finish ::
  "nat \<Rightarrow> nat \<Rightarrow> ('r, 'q) aio \<Rightarrow> (io_request \<Rightarrow> nat) \<Rightarrow> 'r replacer_ops \<Rightarrow> 'q queue_ops \<Rightarrow> (nat \<times> sync_request) list \<Rightarrow>
   block list \<Rightarrow> ('r, 'q) manager \<Rightarrow> (block list \<times> ('r, 'q) manager) res" where
  "batch_new_finish rounds fuel aio latency ops qops [] rets mg = Inr (rets, mg)"
| "batch_new_finish rounds fuel aio latency ops qops ((i, req) # buf) rets mg =
     bindE (finish_Fetch2 rounds fuel aio latency ops qops req mg) (\<lambda>(req, mg).
     bindE (request_frame mg req) (\<lambda>r.
     bindE (insert_result rets i req r False) (\<lambda>rets.
     batch_new_finish rounds fuel aio latency ops qops buf rets mg)))"

definition GetBlockBatch_new ::
  "nat \<Rightarrow> nat \<Rightarrow> ('r, 'q) aio \<Rightarrow> (io_request \<Rightarrow> nat) \<Rightarrow> 'r replacer_ops \<Rightarrow> 'q queue_ops \<Rightarrow> ('r, 'q) manager \<Rightarrow>
   batch_request list \<Rightarrow> (block list \<times> ('r, 'q) manager) res" where
  "GetBlockBatch_new rounds fuel aio latency ops qops mg requests =
     bindE (batch_new_start fuel aio latency ops qops 0 requests mg) (\<lambda>(rets, buf, mg).
     batch_new_finish rounds fuel aio latency ops qops buf rets mg)"

text \<open>
  The other forms differ in how a page is looked for (\<open>try\<close>) and in what happens to a pin when a page has
  been fetched (\<open>keep\<close>, which gives the mark of the slice).  A block of one page is the loop of one round.
\<close>

type_synonym ('r, 'q) try_page =
  "fpage_id \<Rightarrow> file_handle \<Rightarrow> direct_cache \<Rightarrow> ('r, 'q) manager \<Rightarrow>
   ((pte_ref \<times> bool) option \<times> direct_cache \<times> ('r, 'q) manager) res"

type_synonym ('r, 'q) keep_page =
  "fpage_id \<Rightarrow> file_handle \<Rightarrow> pte_ref \<Rightarrow> direct_cache \<Rightarrow> ('r, 'q) manager \<Rightarrow>
   (bool \<times> direct_cache \<times> ('r, 'q) manager) res"

definition try_uncached :: "'r replacer_ops \<Rightarrow> ('r, 'q) try_page" where
  "try_uncached ops p fd dc mg =
     bindE (mgr_Pin ops mg p fd) (\<lambda>(found, mg). Inr (map_option (\<lambda>r. (r, False)) found, dc, mg))"

definition keep_uncached :: "('r, 'q) keep_page" where
  "keep_uncached p fd r dc mg = Inr (False, dc, mg)"

definition keep_cached :: "('r, 'q) keep_page" where
  "keep_cached p fd r dc mg = dc1_Insert mgr_store dc mg fd p r"

definition try_cached :: "'r replacer_ops \<Rightarrow> ('r, 'q) try_page" where
  "try_cached ops p fd dc mg =
     bindE (dc1_Find mgr_store dc mg fd p) (\<lambda>(pte, dc).
     case pte of
       Some r \<Rightarrow> if ref_pool r = pool_of mg p then Inr (Some (r, True), dc, mg) else Inl OutOfBounds
     | None \<Rightarrow>
         bindE (mgr_Pin ops mg p fd) (\<lambda>(found, mg).
         case found of
           Some r \<Rightarrow> bindE (keep_cached p fd r dc mg) (\<lambda>(mark, dc, mg). Inr (Some (r, mark), dc, mg))
         | None \<Rightarrow> Inr (None, dc, mg)))"

fun batch_pages ::
  "('r, 'q) try_page \<Rightarrow> nat \<Rightarrow> ('r, 'q) aio \<Rightarrow> (io_request \<Rightarrow> nat) \<Rightarrow> 'r replacer_ops \<Rightarrow> 'q queue_ops \<Rightarrow> file_handle \<Rightarrow>
   nat \<Rightarrow> nat \<Rightarrow> fpage_id \<Rightarrow> u64 \<Rightarrow> nat \<Rightarrow> block \<Rightarrow> direct_cache \<Rightarrow> ('r, 'q) manager \<Rightarrow>
   (block \<times> (nat \<times> sync_request) list \<times> direct_cache \<times> ('r, 'q) manager) res" where
  "batch_pages try fuel aio latency ops qops fd 0 page_id p fpage_offset i b dc mg = Inr (b, [], dc, mg)"
| "batch_pages try fuel aio latency ops qops fd (Suc n) page_id p fpage_offset i b dc mg =
     bindE (try p fd dc mg) (\<lambda>(result, dc, mg).
     case result of
       Some (r, mark) \<Rightarrow>
         bindE (InsertPage b page_id (r, unat fpage_offset) r mark) (\<lambda>b.
         batch_pages try fuel aio latency ops qops fd n (page_id + 1) (p + 1) 0 i b dc mg)
     | None \<Rightarrow>
         bindE (mgr_Fetch2 fuel aio latency ops qops (sync_request_new fd p fpage_offset (word_of_nat page_id)) mg)
           (\<lambda>(_, req, mg).
         bindE (batch_pages try fuel aio latency ops qops fd n (page_id + 1) (p + 1) 0 i b dc mg)
           (\<lambda>(b, pend, dc, mg). Inr (b, (i, req) # pend, dc, mg))))"

fun batch_start ::
  "('r, 'q) try_page \<Rightarrow> nat \<Rightarrow> ('r, 'q) aio \<Rightarrow> (io_request \<Rightarrow> nat) \<Rightarrow> 'r replacer_ops \<Rightarrow> 'q queue_ops \<Rightarrow> nat \<Rightarrow>
   batch_request list \<Rightarrow> block list \<Rightarrow> direct_cache \<Rightarrow> ('r, 'q) manager \<Rightarrow>
   (block list \<times> (nat \<times> sync_request) list \<times> direct_cache \<times> ('r, 'q) manager) res" where
  "batch_start try fuel aio latency ops qops i [] results dc mg = Inr (results, [], dc, mg)"
| "batch_start try fuel aio latency ops qops i (rq # rqs) results dc mg =
     (if br_block_size rq = 0
      then batch_start try fuel aio latency ops qops (i + 1) rqs (results @ [bb_empty]) dc mg
      else
        bindE (batch_pages try fuel aio latency ops qops (br_fd rq) (br_num_page rq) 0
          (first_page (br_file_offset rq)) (first_offset (br_file_offset rq)) i
          (bb_pages (unat (br_block_size rq)) (br_num_page rq)) dc mg) (\<lambda>(b, pend, dc, mg).
        bindE (batch_start try fuel aio latency ops qops (i + 1) rqs (results @ [b]) dc mg)
          (\<lambda>(results, pend', dc, mg). Inr (results, pend @ pend', dc, mg))))"

fun batch_poll ::
  "nat \<Rightarrow> ('r, 'q) aio \<Rightarrow> (io_request \<Rightarrow> nat) \<Rightarrow> 'r replacer_ops \<Rightarrow> 'q queue_ops \<Rightarrow> (nat \<times> sync_request) list \<Rightarrow>
   ('r, 'q) manager \<Rightarrow> ((nat \<times> sync_request) list \<times> ('r, 'q) manager) res" where
  "batch_poll fuel aio latency ops qops [] mg = Inr ([], mg)"
| "batch_poll fuel aio latency ops qops ((i, req) # pend) mg =
     bindE (mgr_Fetch2 fuel aio latency ops qops req mg) (\<lambda>(_, req, mg).
     bindE (batch_poll fuel aio latency ops qops pend mg) (\<lambda>(pend, mg). Inr ((i, req) # pend, mg)))"

text \<open>One round of \<open>while (count != size)\<close>: a read in flight is waited for, another request is tried once.\<close>

definition batch_insert ::
  "('r, 'q) keep_page \<Rightarrow> nat \<Rightarrow> sync_request \<Rightarrow> block list \<Rightarrow> direct_cache \<Rightarrow> ('r, 'q) manager \<Rightarrow>
   (block list \<times> direct_cache \<times> ('r, 'q) manager) res" where
  "batch_insert keep i req results dc mg =
     bindE (request_frame mg req) (\<lambda>r.
     bindE (keep (sr_fpage_id req) (sr_fd req) r dc mg) (\<lambda>(mark, dc, mg).
     bindE (insert_result results i req r mark) (\<lambda>results. Inr (results, dc, mg))))"

fun batch_round ::
  "('r, 'q) keep_page \<Rightarrow> nat \<Rightarrow> nat \<Rightarrow> ('r, 'q) aio \<Rightarrow> (io_request \<Rightarrow> nat) \<Rightarrow> 'r replacer_ops \<Rightarrow> 'q queue_ops \<Rightarrow>
   (nat \<times> sync_request) list \<Rightarrow> block list \<Rightarrow> nat \<Rightarrow> direct_cache \<Rightarrow> ('r, 'q) manager \<Rightarrow>
   ((nat \<times> sync_request) list \<times> block list \<times> nat \<times> direct_cache \<times> ('r, 'q) manager) res" where
  "batch_round keep rounds fuel aio latency ops qops [] results count dc mg = Inr ([], results, count, dc, mg)"
| "batch_round keep rounds fuel aio latency ops qops ((i, req) # pend) results count dc mg =
     bindE (if sr_is_inserted req then Inr (req, results, count, dc, mg)
       else
         bindE (if sr_runtime_phase req = LoadingFinish
           then bindE (finish_Fetch2 rounds fuel aio latency ops qops req mg) (\<lambda>(req, mg). Inr (True, req, mg))
           else mgr_Fetch2 fuel aio latency ops qops req mg) (\<lambda>(b, req, mg).
         if b then bindE (batch_insert keep i req results dc mg) (\<lambda>(results, dc, mg).
           Inr (req\<lparr>sr_is_inserted := True\<rparr>, results, count + 1, dc, mg))
         else Inr (req, results, count, dc, mg))) (\<lambda>(req, results, count, dc, mg).
     bindE (batch_round keep rounds fuel aio latency ops qops pend results count dc mg)
       (\<lambda>(pend, results, count, dc, mg). Inr ((i, req) # pend, results, count, dc, mg)))"

fun batch_rounds ::
  "nat \<Rightarrow> ('r, 'q) keep_page \<Rightarrow> nat \<Rightarrow> nat \<Rightarrow> ('r, 'q) aio \<Rightarrow> (io_request \<Rightarrow> nat) \<Rightarrow> 'r replacer_ops \<Rightarrow> 'q queue_ops \<Rightarrow>
   (nat \<times> sync_request) list \<Rightarrow> block list \<Rightarrow> nat \<Rightarrow> direct_cache \<Rightarrow> ('r, 'q) manager \<Rightarrow>
   (block list \<times> direct_cache \<times> ('r, 'q) manager) res" where
  "batch_rounds 0 keep rounds fuel aio latency ops qops pend results count dc mg = Inl OutOfFuel"
| "batch_rounds (Suc n) keep rounds fuel aio latency ops qops pend results count dc mg =
     (if count = length pend then Inr (results, dc, mg)
      else bindE (batch_round keep rounds fuel aio latency ops qops pend results count dc mg)
        (\<lambda>(pend, results, count, dc, mg).
        batch_rounds n keep rounds fuel aio latency ops qops pend results count dc mg))"

definition batch_of ::
  "('r, 'q) try_page \<Rightarrow> ('r, 'q) keep_page \<Rightarrow> nat \<Rightarrow> nat \<Rightarrow> ('r, 'q) aio \<Rightarrow> (io_request \<Rightarrow> nat) \<Rightarrow> 'r replacer_ops \<Rightarrow> 'q queue_ops \<Rightarrow>
   batch_request list \<Rightarrow> block list \<Rightarrow> direct_cache \<Rightarrow> ('r, 'q) manager \<Rightarrow>
   (block list \<times> direct_cache \<times> ('r, 'q) manager) res" where
  "batch_of try keep rounds fuel aio latency ops qops batch_requests results dc mg =
     (if batch_requests = [] then Inr (results, dc, mg)
      else
        bindE (batch_start try fuel aio latency ops qops 0 batch_requests results dc mg) (\<lambda>(results, pend, dc, mg).
        bindE (batch_poll fuel aio latency ops qops pend mg) (\<lambda>(pend, mg).
        batch_rounds rounds keep rounds fuel aio latency ops qops pend results 0 dc mg)))"

definition GetBlockBatchWithoutDirectCache ::
  "nat \<Rightarrow> nat \<Rightarrow> ('r, 'q) aio \<Rightarrow> (io_request \<Rightarrow> nat) \<Rightarrow> 'r replacer_ops \<Rightarrow> 'q queue_ops \<Rightarrow> batch_request list \<Rightarrow> block list \<Rightarrow>
   direct_cache \<Rightarrow> ('r, 'q) manager \<Rightarrow> (block list \<times> direct_cache \<times> ('r, 'q) manager) res" where
  "GetBlockBatchWithoutDirectCache rounds fuel aio latency ops qops batch_requests results dc mg =
     batch_of (try_uncached ops) keep_uncached rounds fuel aio latency ops qops batch_requests results dc mg"

definition GetBlockBatchWithDirectCache ::
  "nat \<Rightarrow> nat \<Rightarrow> ('r, 'q) aio \<Rightarrow> (io_request \<Rightarrow> nat) \<Rightarrow> 'r replacer_ops \<Rightarrow> 'q queue_ops \<Rightarrow> batch_request list \<Rightarrow> block list \<Rightarrow>
   direct_cache \<Rightarrow> ('r, 'q) manager \<Rightarrow> (block list \<times> direct_cache \<times> ('r, 'q) manager) res" where
  "GetBlockBatchWithDirectCache rounds fuel aio latency ops qops batch_requests results dc mg =
     batch_of (try_cached ops) keep_cached rounds fuel aio latency ops qops batch_requests results dc mg"

text \<open>The configuration uses the direct cache.\<close>

definition GetBlockBatch ::
  "nat \<Rightarrow> nat \<Rightarrow> ('r, 'q) aio \<Rightarrow> (io_request \<Rightarrow> nat) \<Rightarrow> 'r replacer_ops \<Rightarrow> 'q queue_ops \<Rightarrow> batch_request list \<Rightarrow> block list \<Rightarrow>
   direct_cache \<Rightarrow> ('r, 'q) manager \<Rightarrow> (block list \<times> direct_cache \<times> ('r, 'q) manager) res" where
  "GetBlockBatch = GetBlockBatchWithDirectCache"

text \<open>One block: all its missing pages are started, then waited for in order.\<close>

fun batch1_finish ::
  "nat \<Rightarrow> nat \<Rightarrow> ('r, 'q) aio \<Rightarrow> (io_request \<Rightarrow> nat) \<Rightarrow> 'r replacer_ops \<Rightarrow> 'q queue_ops \<Rightarrow> (nat \<times> sync_request) list \<Rightarrow> block \<Rightarrow>
   ('r, 'q) manager \<Rightarrow> (block \<times> ('r, 'q) manager) res" where
  "batch1_finish rounds fuel aio latency ops qops [] ret mg = Inr (ret, mg)"
| "batch1_finish rounds fuel aio latency ops qops ((_, req) # pend) ret mg =
     bindE (finish_Fetch2 rounds fuel aio latency ops qops req mg) (\<lambda>(req, mg).
     bindE (request_frame mg req) (\<lambda>r.
     bindE (InsertPage ret (unat (sr_page_id_in_block req)) (r, unat (sr_fpage_offset req)) r False) (\<lambda>ret.
     batch1_finish rounds fuel aio latency ops qops pend ret mg)))"

definition GetBlockBatch1 ::
  "nat \<Rightarrow> nat \<Rightarrow> ('r, 'q) aio \<Rightarrow> (io_request \<Rightarrow> nat) \<Rightarrow> 'r replacer_ops \<Rightarrow> 'q queue_ops \<Rightarrow> direct_cache \<Rightarrow> ('r, 'q) manager \<Rightarrow> u64 \<Rightarrow> u64 \<Rightarrow>
   file_handle \<Rightarrow> (block \<times> ('r, 'q) manager) res" where
  "GetBlockBatch1 rounds fuel aio latency ops qops dc mg file_offset block_size fd =
     (if block_size = 0 then Inr (bb_empty, mg)
      else let num = num_page file_offset block_size; ret = bb_pages (unat block_size) num in
        if num = 1 then
          bindE (mgr_Pin ops mg (first_page file_offset) fd) (\<lambda>(result, mg).
          case result of
            Some r \<Rightarrow> bindE (InsertPage ret 0 (r, unat (first_offset file_offset)) r False) (\<lambda>ret. Inr (ret, mg))
          | None \<Rightarrow> batch1_finish rounds fuel aio latency ops qops
              [(0, sync_request_new fd (first_page file_offset) (first_offset file_offset) 0)] ret mg)
        else
        bindE (batch_pages (try_uncached ops) fuel aio latency ops qops fd num 0 (first_page file_offset)
          (first_offset file_offset) 0 ret dc mg) (\<lambda>(ret, pend, _, mg).
        batch1_finish rounds fuel aio latency ops qops pend ret mg))"

section \<open>Writing a block\<close>

text \<open>\<open>Copy\<close> writes into the frame at the offset; a copy that reaches past the frame is an error here.\<close>

fun set_block_loop ::
  "nat \<Rightarrow> nat \<Rightarrow> 'r replacer_ops \<Rightarrow> 'q queue_ops \<Rightarrow> file_handle \<Rightarrow> bool \<Rightarrow> block \<Rightarrow> fpage_id \<Rightarrow> nat \<Rightarrow> u64 \<Rightarrow> nat \<Rightarrow>
   ('r, 'q) manager \<Rightarrow> (nat \<times> ('r, 'q) manager) res" where
  "set_block_loop 0 fuel ops qops fd flush b p fpage_offset block_size buf_size mg = Inl OutOfFuel"
| "set_block_loop (Suc n) fuel ops qops fd flush b p fpage_offset block_size buf_size mg =
     (if block_size = 0 then Inr (buf_size, mg)
      else
        bindE (mgr_fetch fuel ops qops mg p fd) (\<lambda>(r, mg).
        bindE (bb_CopyTo (mgr_mem mg) b
          (if PAGE_SIZE_FILE - fpage_offset > unat block_size then unat block_size else PAGE_SIZE_FILE - fpage_offset) buf_size)
          (\<lambda>(object_size, bs).
        bindE (memcpy (mgr_mem mg r) fpage_offset bs object_size) (\<lambda>page.
        bindE (put_frame mg r page) (\<lambda>mg.
        bindE (mgr_get mg r) (\<lambda>w.
        let mg = mgr_put mg r (DecRefCount_write True False w) in
        bindE (if flush then
            bindE (mgr_FlushPage qops mg p fd False) (\<lambda>(ok, mg). bindE (assertE ok) (\<lambda>_. Inr mg))
          else Inr mg) (\<lambda>mg.
        set_block_loop n fuel ops qops fd flush b (p + 1) 0 (block_size - word_of_nat object_size) (buf_size + object_size) mg)))))))"

definition SetBlock_block ::
  "nat \<Rightarrow> nat \<Rightarrow> 'r replacer_ops \<Rightarrow> 'q queue_ops \<Rightarrow> ('r, 'q) manager \<Rightarrow> block \<Rightarrow> u64 \<Rightarrow> u64 \<Rightarrow> file_handle \<Rightarrow> bool \<Rightarrow>
   (nat \<times> ('r, 'q) manager) res" where
  "SetBlock_block n fuel ops qops mg b file_offset block_size fd flush =
     set_block_loop n fuel ops qops fd flush b (first_page file_offset) (unat (first_offset file_offset))
       block_size 0 mg"

end
