(* ===== verification/BlockPins.thy ===== *)
theory BlockPins
  imports BlockOps "HOL-Library.Multiset"
begin

text \<open>
  Pins and contents of blocks.  A pin is a unit of the reference count of an entry; it belongs to a slice
  of some block or to the direct cache.  \<open>balanced\<close> says that every pin has exactly one such owner, and the
  operations that hand out and take back blocks keep it; while a pin is held the frame keeps its page, so
  the block shows the bytes of the file.
\<close>

section \<open>The store of the manager\<close>

lemma mgr_get_eq:
  "mgr_get mg r = Inr w \<longleftrightarrow> ref_pool r < length (mg_pools mg) \<and>
     ref_frame r < frames (bp_page_table (mg_pools mg ! ref_pool r)) \<and>
     w = pte_of (bp_page_table (mg_pools mg ! ref_pool r)) (ref_frame r)"
  by (auto simp: mgr_get_def bindE_eq_Inr arr_get_eq_Inr FromPageId_def frames_def pte_of_def)

lemma mgr_get_put:
  assumes "mgr_get mg r = Inr w"
  shows "mgr_get (mgr_put mg r v) r' = (if r' = r then Inr v else mgr_get mg r')"
proof -
  let ?pt = "bp_page_table (mg_pools mg ! ref_pool r)"
  have r: "ref_pool r < length (mg_pools mg)" "ref_frame r < frames ?pt" using assms by (simp_all add: mgr_get_eq)
  have pt: "FromPageId (put_pte ?pt (ref_frame r) v) m = (if m = ref_frame r then Inr v else FromPageId ?pt m)" for m
    using r(2) by (simp add: FromPageId_def put_pte_def arr_get_def frames_def)
  show ?thesis
    using r(1) pt by (cases r'; cases r) (auto simp: mgr_get_def mgr_put_def Let_def arr_get_def nth_list_update)
qed

lemma mgr_store_laws: "store_laws mgr_store"
  by (simp add: store_laws_def mgr_store_def mgr_get_put)

interpretation mgr: pte_store_laws mgr_store
  by unfold_locales (rule mgr_store_laws)

lemma mgr_store_sel [simp]: "ps_get mgr_store = mgr_get" "ps_put mgr_store = mgr_put"
  by (simp_all add: mgr_store_def)

text \<open>The reference count and the page of an entry.\<close>

definition rc :: "('r, 'q) manager \<Rightarrow> pte_ref \<Rightarrow> nat" where
  "rc mg r = (case mgr_get mg r of Inl _ \<Rightarrow> 0 | Inr w \<Rightarrow> unat (pte_ref_count w))"

definition ident :: "('r, 'q) manager \<Rightarrow> pte_ref \<Rightarrow> file_handle \<times> fpage_id" where
  "ident mg r = (case mgr_get mg r of Inl _ \<Rightarrow> (0, 0) | Inr w \<Rightarrow> (pte_fd_cur w, pte_fpage_id_cur w))"

definition pins :: "('r, 'q) manager \<Rightarrow> file_handle \<Rightarrow> fpage_id \<Rightarrow> pte_ref \<Rightarrow> bool" where
  "pins mg fd p r \<longleftrightarrow> 0 < rc mg r \<and> ident mg r = (fd, p)"

lemma rc_pos:
  assumes "0 < rc mg r"
  obtains w where "mgr_get mg r = Inr w" "pte_ref_count w \<noteq> 0" "rc mg r = unat (pte_ref_count w)"
    "ident mg r = (pte_fd_cur w, pte_fpage_id_cur w)"
  using assms by (cases "mgr_get mg r") (auto simp: rc_def ident_def unat_gt_0)

section \<open>Managers that show the same files\<close>

definition mgr_same :: "('r, 'q) manager \<Rightarrow> ('r, 'q) manager \<Rightarrow> bool" where
  "mgr_same mg mg' \<longleftrightarrow> mg_partitioner mg' = mg_partitioner mg \<and>
     (\<forall>fd. is_open mg' fd = is_open mg fd \<and> (is_open mg fd \<longrightarrow>
       file_length mg' fd = file_length mg fd \<and> (\<forall>q. page_of mg' fd q = page_of mg fd q)))"

lemma mgr_same_refl [simp]: "mgr_same mg mg"
  by (simp add: mgr_same_def)

lemma mgr_same_trans [trans]: "mgr_same mg mg1 \<Longrightarrow> mgr_same mg1 mg2 \<Longrightarrow> mgr_same mg mg2"
  by (simp add: mgr_same_def)

lemma mgr_same_bytes: "mgr_same mg mg' \<Longrightarrow> is_open mg fd \<Longrightarrow> file_bytes mg' fd = file_bytes mg fd"
  by (simp add: mgr_same_def file_bytes_def)

lemma in_file_mgr: "in_file (mg_disk mg) fd p \<longleftrightarrow> is_open mg fd \<and> unat p * PAGE_SIZE_FILE < file_length mg fd"
  by (simp add: in_file_def is_open_def file_length_def)

lemma mgr_same_in_file: "mgr_same mg mg' \<Longrightarrow> in_file (mg_disk mg') fd p = in_file (mg_disk mg) fd p"
  by (auto simp: in_file_mgr mgr_same_def)

lemma mgr_step_same': "mgr_step mg fd p (page_of mg fd p) mg' \<Longrightarrow> mg_partitioner mg' = mg_partitioner mg \<Longrightarrow> mgr_same mg mg'"
  by (auto simp: mgr_step_def mgr_same_def)

section \<open>Pinned frames hold their page\<close>

lemma pinned_frame:
  assumes ok: "mgr_ok rinv rcap qrep mg" and r: "0 < rc mg r"
  defines "bp \<equiv> mg_pools mg ! ref_pool r" and "fd \<equiv> fst (ident mg r)" and "p \<equiv> snd (ident mg r)"
  shows "ref_pool r = pool_of mg p" "ref_pool r < length (mg_pools mg)"
    "resident (bp_page_table bp) fd p = Some (ref_frame r)"
    "\<exists>S free. pool_core rinv rcap qrep (GetPartitionId (mg_partitioner mg) p) bp (mg_disk mg) S free {} \<and> ref_frame r \<in> S"
proof -
  obtain w where w: "mgr_get mg r = Inr w" "pte_ref_count w \<noteq> 0" "ident mg r = (pte_fd_cur w, pte_fpage_id_cur w)"
    using rc_pos [OF r] by metis
  then have g: "ref_pool r < length (mg_pools mg)" "ref_frame r < frames (bp_page_table bp)"
    "w = pte_of (bp_page_table bp) (ref_frame r)" by (simp_all add: mgr_get_eq bp_def)
  let ?k = "word_of_nat (ref_pool r) :: partition_id"
  have po: "pool_ok rinv rcap qrep ?k bp (mg_disk mg)" and pr: "pt_partitioner (bp_page_table bp) = mg_partitioner mg"
    using ok g(1) by (auto simp: mgr_ok_def bp_def)
  then obtain S free where c: "pool_core rinv rcap qrep ?k bp (mg_disk mg) S free {}" by (auto simp: pool_ok_def)
  have "ref_frame r \<in> S \<union> set free" using c g(2) by (auto simp: pool_core_def)
  moreover have "ref_frame r \<notin> set free" using c w(2) g(3) by (auto simp: pool_core_def pinned_def)
  ultimately have S: "ref_frame r \<in> S" by blast
  have h: "held (bp_page_table bp) (ref_frame r)" by (rule pool_coreD(8) [OF c S])
  have k: "GetPartitionId (mg_partitioner mg) p = ?k"
    using held_partition [OF pool_coreD(1) [OF c] h] pr g(3) w(3) by (simp add: p_def)
  have "length (mg_pools mg) = unat (num_partitions (mg_partitioner mg))" using ok by (simp add: mgr_ok_def)
  then have "ref_pool r < 4294967296" using g(1) u32_less [of "num_partitions (mg_partitioner mg)"] by linarith
  then show "ref_pool r = pool_of mg p" using k by (simp add: pool_of_def unat_of_nat)
  show "ref_pool r < length (mg_pools mg)" by (rule g(1))
  show "resident (bp_page_table bp) fd p = Some (ref_frame r)"
    using h g w(3) by (simp add: resident_eq [OF pool_coreD(1) [OF c]] held_def fd_def p_def)
  show "\<exists>S free. pool_core rinv rcap qrep (GetPartitionId (mg_partitioner mg) p) bp (mg_disk mg) S free {} \<and> ref_frame r \<in> S"
    using c S k by auto
qed

lemma pins_content:
  assumes ok: "mgr_ok rinv rcap qrep mg" and r: "pins mg fd p r"
  shows "visible (file_of (mg_disk mg) fd) p (mgr_mem mg r) = page_of mg fd p" "length (mgr_mem mg r) = PAGE_SIZE_FILE"
proof -
  have i: "0 < rc mg r" "ident mg r = (fd, p)" using r by (simp_all add: pins_def)
  let ?bp = "mg_pools mg ! ref_pool r"
  note f = pinned_frame [OF ok i(1), unfolded i(2) fst_conv snd_conv]
  obtain S free where c: "pool_core rinv rcap qrep (GetPartitionId (mg_partitioner mg) p) ?bp (mg_disk mg) S free {}"
    "ref_frame r \<in> S" using f(4) by blast
  have m: "ref_frame r < frames (bp_page_table ?bp)" by (rule pool_coreD(10) [OF c])
  then have mem: "mgr_mem mg r = bp_memory_pool ?bp ! ref_frame r"
    using f(2) pool_coreD(2) [OF c(1)] by (simp add: mgr_mem_def)
  show "visible (file_of (mg_disk mg) fd) p (mgr_mem mg r) = page_of mg fd p"
    using f(1,3) by (simp add: page_of_def page_bytes_def mem)
  show "length (mgr_mem mg r) = PAGE_SIZE_FILE" using pool_coreD(3) [OF c(1) m] by (simp add: mem)
qed

section \<open>Room for more pins\<close>

definition room :: "page_table \<Rightarrow> nat \<Rightarrow> bool" where
  "room pt n \<longleftrightarrow> n \<le> card {m. m < frames pt \<and> \<not> pinned pt m} \<and>
     (\<forall>m < frames pt. unat (pte_ref_count (pte_of pt m)) + n \<le> 65535)"

definition mgr_room :: "('r, 'q) manager \<Rightarrow> nat \<Rightarrow> bool" where
  "mgr_room mg n \<longleftrightarrow> (\<forall>k < length (mg_pools mg). room (bp_page_table (mg_pools mg ! k)) n)"

lemma room_has:
  assumes "room pt (Suc n)"
  shows "has_room pt"
proof -
  have "0 < card {m. m < frames pt \<and> \<not> pinned pt m}" using assms unfolding room_def by linarith
  then have "\<exists>m < frames pt. \<not> pinned pt m" by (auto simp: card_gt_0_iff)
  moreover have "pte_ref_count (pte_of pt m) < 65535" if "m < frames pt" for m
  proof -
    have "unat (pte_ref_count (pte_of pt m)) + Suc n \<le> 65535" using assms that by (simp add: room_def)
    then show ?thesis by (simp add: word_less_nat_alt)
  qed
  ultimately show ?thesis by (auto simp: has_room_def)
qed

lemma has_room_room:
  assumes "has_room pt"
  shows "room pt 1"
proof -
  obtain m where "m < frames pt" "\<not> pinned pt m" using assms by (auto simp: has_room_def)
  then have "{m} \<subseteq> {m. m < frames pt \<and> \<not> pinned pt m}" by simp
  then have "card {m} \<le> card {m. m < frames pt \<and> \<not> pinned pt m}" by (intro card_mono) auto
  moreover have "unat (pte_ref_count (pte_of pt m)) + 1 \<le> 65535" if "m < frames pt" for m
  proof -
    have "unat (pte_ref_count (pte_of pt m)) < 65535" using assms that by (simp add: has_room_def word_less_nat_alt)
    then show ?thesis by linarith
  qed
  ultimately show ?thesis by (simp add: room_def)
qed

lemma room_mono: "room pt n \<Longrightarrow> k \<le> n \<Longrightarrow> room pt k"
  unfolding room_def by fastforce

lemma mgr_room_mono: "mgr_room mg n \<Longrightarrow> k \<le> n \<Longrightarrow> mgr_room mg k"
  unfolding mgr_room_def using room_mono by blast

lemma unat_inc: "(x :: u16) < 65535 \<Longrightarrow> unat (x + 1) = unat x + 1"
  by (subst unat_add_lem [THEN iffD1]) (simp_all add: word_less_nat_alt)

lemma fetched_room:
  assumes f: "fetched k bp d fd p m bp' d'" and r: "room (bp_page_table bp) (Suc n)" and m: "m < frames (bp_page_table bp)"
  shows "room (bp_page_table bp') n"
    "unat (pte_ref_count (pte_of (bp_page_table bp') m)) = unat (pte_ref_count (pte_of (bp_page_table bp) m)) + 1"
    "pinned (bp_page_table bp) m \<Longrightarrow> pte_fd_cur (pte_of (bp_page_table bp') m) = pte_fd_cur (pte_of (bp_page_table bp) m) \<and>
       pte_fpage_id_cur (pte_of (bp_page_table bp') m) = pte_fpage_id_cur (pte_of (bp_page_table bp) m)"
proof -
  let ?pt = "bp_page_table bp" and ?pt' = "bp_page_table bp'"
  have lt: "pte_ref_count (pte_of ?pt m) < 65535" using room_has [OF r] m by (simp add: has_room_def)
  have fr: "frames ?pt' = frames ?pt" "\<And>m'. m' \<noteq> m \<Longrightarrow> pte_of ?pt' m' = pte_of ?pt m'"
    using f by (simp_all add: fetched_def)
  show c: "unat (pte_ref_count (pte_of ?pt' m)) = unat (pte_ref_count (pte_of ?pt m)) + 1"
    using f inc_fields(1) [OF lt] unat_inc [OF lt]
    by (auto simp: fetched_def loaded_pte_fields pinned_def split: if_splits)
  show "pinned ?pt m \<Longrightarrow> pte_fd_cur (pte_of ?pt' m) = pte_fd_cur (pte_of ?pt m) \<and>
      pte_fpage_id_cur (pte_of ?pt' m) = pte_fpage_id_cur (pte_of ?pt m)"
    using f inc_fields [OF lt] by (auto simp: fetched_def split: if_splits)
  let ?A = "\<lambda>pt. {m. m < frames pt \<and> \<not> pinned pt m}"
  have "?A ?pt - {m} \<subseteq> ?A ?pt'" using fr by (auto simp: pinned_def)
  then have "card (?A ?pt - {m}) \<le> card (?A ?pt')" by (intro card_mono) auto
  moreover have "card (?A ?pt) - 1 \<le> card (?A ?pt - {m})"
    using diff_card_le_card_Diff [of "{m}" "?A ?pt"] by simp
  moreover have "Suc n \<le> card (?A ?pt)" using r by (simp add: room_def)
  moreover have "unat (pte_ref_count (pte_of ?pt' m')) + n \<le> 65535" if "m' < frames ?pt'" for m'
  proof -
    have "unat (pte_ref_count (pte_of ?pt m')) + Suc n \<le> 65535" using r that fr(1) by (simp add: room_def)
    then show ?thesis using c fr(2) [of m'] by (cases "m' = m") simp_all
  qed
  ultimately show "room ?pt' n" unfolding room_def by (intro conjI allI impI) linarith+
qed

text \<open>The two ways in which one pin comes and goes.\<close>

definition pin_added :: "('r, 'q) manager \<Rightarrow> pte_ref \<Rightarrow> ('r, 'q) manager \<Rightarrow> bool" where
  "pin_added mg r mg' \<longleftrightarrow> (\<forall>r'. rc mg' r' = rc mg r' + (if r' = r then 1 else 0) \<and>
     (0 < rc mg r' \<longrightarrow> ident mg' r' = ident mg r'))"

definition pin_removed :: "('r, 'q) manager \<Rightarrow> pte_ref \<Rightarrow> ('r, 'q) manager \<Rightarrow> bool" where
  "pin_removed mg r mg' \<longleftrightarrow> (\<forall>r'. rc mg' r' = rc mg r' - (if r' = r then 1 else 0) \<and> ident mg' r' = ident mg r')"

context replacer
begin

lemma mgr_fetch_ok:
  assumes laws: "fifo_laws qops qrep" and ok: "mgr_ok rinv rcap qrep mg" and i: "in_file (mg_disk mg) fd p"
    and rm: "mgr_room mg (Suc (Suc n))" and fuel: "4 \<le> fuel"
  obtains r mg' where "mgr_fetch fuel ops qops mg p fd = Inr (r, mg')" "mgr_ok rinv rcap qrep mg'" "mgr_same mg mg'"
    "mgr_room mg' (Suc n)" "pins mg' fd p r" "pin_added mg r mg'"
proof -
  let ?bp = "mg_pools mg ! pool_of mg p" and ?k = "GetPartitionId (mg_partitioner mg) p" and ?d = "mg_disk mg"
  note pk = pool_of_less [OF ok, of p] and mp = mgr_ok_pool [OF ok, of p]
  have w: "fd < 8192" "pt_word (bp_page_table ?bp) fd p \<noteq> None" using ok i by (auto simp: mgr_ok_def)
  have part: "GetPartitionId (pt_partitioner (bp_page_table ?bp)) p = ?k" using mp(2) by simp
  have r0: "room (bp_page_table ?bp) (Suc (Suc n))" using rm pk by (simp add: mgr_room_def)
  note hr = room_has [OF r0]
  have "wf": "pt_wf ?k (bp_page_table ?bp)" using mp(1) pool_coreD(1) by (auto simp: pool_ok_def)
  have rcl: "resident (bp_page_table ?bp) fd p = Some m \<Longrightarrow> pte_ref_count (pte_of (bp_page_table ?bp) m) < 65535" for m
    using hr resident_eq [OF wf] by (auto simp: has_room_def)
  obtain m bp' d' where f: "FetchPageSync fuel ops qops ?bp ?d p fd = Inr (Some m, bp', d')"
    "pool_ok rinv rcap qrep ?k bp' d'" "fetched ?k ?bp ?d fd p m bp' d'"
    by (rule fetch_ok [OF laws mp(1) i w(1) part w(2) rcl _ fuel]) (use hr in \<open>auto simp: has_room_def\<close>)
  have res: "resident (bp_page_table bp') fd p = Some m" and fr: "frames (bp_page_table bp') = frames (bp_page_table ?bp)"
    "pt_partitioner (bp_page_table bp') = mg_partitioner mg"
    "\<And>m'. m' \<noteq> m \<Longrightarrow> pte_of (bp_page_table bp') m' = pte_of (bp_page_table ?bp) m'"
    using f(3) mp(2) by (simp_all add: fetched_def)
  have wf': "pt_wf ?k (bp_page_table bp')" using f(2) pool_coreD(1) by (auto simp: pool_ok_def)
  have m: "m < frames (bp_page_table ?bp)" using res fr(1) by (simp add: resident_eq [OF wf'])
  note fm = fetched_room [OF f(3) r0 m]
  have acc: "accessed ?k ?bp ?d fd p (page_bytes ?bp ?d fd p) bp' d'"
    using f(3) room_has [OF fm(1)] by (auto simp: accessed_def fetched_def)
  let ?mg = "mg\<lparr>mg_pools := (mg_pools mg)[pool_of mg p := bp'], mg_disk := d'\<rparr>" and ?r = "PTE_ref (pool_of mg p) m"
  note put = mgr_put_pool [OF ok f(2) acc]
  have get: "mgr_get ?mg r' = (if ref_pool r' = pool_of mg p then FromPageId (bp_page_table bp') (ref_frame r') else mgr_get mg r')" for r'
    using pk by (auto simp: mgr_get_def arr_get_def nth_list_update)
  have get0: "mgr_get mg r' = FromPageId (bp_page_table ?bp) (ref_frame r')" if "ref_pool r' = pool_of mg p" for r'
    using pk that by (simp add: mgr_get_def)
  have same: "FromPageId (bp_page_table bp') m' = FromPageId (bp_page_table ?bp) m'" if "m' \<noteq> m" for m'
    using fr(1,3) that by (simp add: FromPageId_def arr_get_def frames_def pte_of_def)
  have one: "rc ?mg ?r = rc mg ?r + 1" "0 < rc mg ?r \<Longrightarrow> ident ?mg ?r = ident mg ?r" "ident ?mg ?r = (fd, p)"
  proof -
    have g: "mgr_get ?mg ?r = Inr (pte_of (bp_page_table bp') m)" "mgr_get mg ?r = Inr (pte_of (bp_page_table ?bp) m)"
      using get [of ?r] get0 [of ?r] m fr(1) by (simp_all add: FromPageId_pte_of)
    show "rc ?mg ?r = rc mg ?r + 1" using fm(2) by (simp add: rc_def g)
    show "0 < rc mg ?r \<Longrightarrow> ident ?mg ?r = ident mg ?r"
      using fm(3) by (simp add: ident_def rc_def g pinned_def unat_gt_0)
    show "ident ?mg ?r = (fd, p)"
      using resident_backed(2,3) [OF wf' res] fr(2) by (simp add: ident_def g)
  qed
  have other: "rc ?mg r' = rc mg r'" "ident ?mg r' = ident mg r'" if "r' \<noteq> ?r" for r'
  proof -
    have "mgr_get ?mg r' = mgr_get mg r'"
      using get [of r'] get0 [of r'] same [of "ref_frame r'"] that by (cases r') auto
    then show "rc ?mg r' = rc mg r'" "ident ?mg r' = ident mg r'" by (simp_all add: rc_def ident_def)
  qed
  show thesis
  proof (rule that [of ?r ?mg])
    show "mgr_fetch fuel ops qops mg p fd = Inr (?r, ?mg)"
      using f(1) pk by (simp add: mgr_fetch_def on_pool_def page_frame_def pool_of_def)
    show "mgr_ok rinv rcap qrep ?mg" by (rule put(1))
    show "mgr_same mg ?mg" using put(2) by (intro mgr_step_same') (simp_all add: page_of_def)
    show "mgr_room ?mg (Suc n)"
      using rm fm(1) room_mono [of _ "Suc (Suc n)" "Suc n"] pk by (auto simp: mgr_room_def nth_list_update)
    show "pins ?mg fd p ?r" using one by (simp add: pins_def)
    show "pin_added mg ?r ?mg" using one other by (auto simp: pin_added_def)
  qed
qed

lemma mgr_release_ok:
  assumes ok: "mgr_ok rinv rcap qrep mg" and r: "0 < rc mg r"
  obtains mg' where "release_ref mgr_store mg r = Inr mg'" "mgr_ok rinv rcap qrep mg'" "mgr_same mg mg'"
    "pin_removed mg r mg'" "\<And>n. mgr_room mg n \<Longrightarrow> mgr_room mg' n"
proof -
  obtain w where w: "mgr_get mg r = Inr w" "pte_ref_count w \<noteq> 0" using rc_pos [OF r] by metis
  let ?p = "snd (ident mg r)" and ?fd = "fst (ident mg r)" and ?bp = "mg_pools mg ! ref_pool r" and ?m = "ref_frame r"
  let ?pt = "bp_page_table ?bp" and ?k = "GetPartitionId (mg_partitioner mg) (snd (ident mg r))"
  note pf = pinned_frame [OF ok r]
  obtain S free where c: "pool_core rinv rcap qrep ?k ?bp (mg_disk mg) S free {}" and S: "?m \<in> S" using pf(4) by blast
  have we: "w = pte_of ?pt ?m" and lt: "?m < frames ?pt" using w(1) by (simp_all add: mgr_get_eq)
  note rel = release_pte [OF w(2)]
  let ?v = "DecRefCount w" and ?bp' = "?bp\<lparr>bp_page_table := put_pte ?pt ?m (DecRefCount w)\<rparr>"
  have sp: "same_page ?v (pte_of ?pt ?m)" "pte_dirty (pte_of ?pt ?m) \<longrightarrow> pte_dirty ?v" using rel(1,2) we by simp_all
  note core = pool_core_put_pte [OF c S sp]
  have cnt: "unat (pte_ref_count ?v) = unat (pte_ref_count w) - 1" using rel(3) w(2) by (simp add: unat_minus_one)
  note mp = mgr_ok_pool [OF ok, of ?p, folded pf(1)]
  have q: "quiet ?pt" using mp(1) by (simp add: pool_ok_def)
  have b: "pool_ok rinv rcap qrep ?k ?bp' (mg_disk mg)" using core(1) q by (auto simp: pool_ok_def)
  have room': "room (bp_page_table ?bp') n" if "room ?pt n" for n
  proof -
    let ?A = "\<lambda>pt. {m. m < frames pt \<and> \<not> pinned pt m}"
    have "?A ?pt \<subseteq> ?A (put_pte ?pt ?m ?v)" using lt w(2) we by (auto simp: pinned_def pt_simps)
    then have "card (?A ?pt) \<le> card (?A (put_pte ?pt ?m ?v))" by (intro card_mono) auto
    moreover have "unat (pte_ref_count (pte_of (put_pte ?pt ?m ?v) m)) + n \<le> 65535"
      if "m < frames (put_pte ?pt ?m ?v)" for m
    proof -
      have m: "m < frames ?pt" using that by (simp add: pt_simps)
      then have "unat (pte_ref_count (pte_of ?pt m)) + n \<le> 65535" using \<open>room ?pt n\<close> by (simp add: room_def)
      then show ?thesis using lt m cnt we by (cases "m = ?m") (simp_all add: pt_simps)
    qed
    ultimately show ?thesis using that by (simp add: room_def)
  qed
  have hr: "has_room (put_pte ?pt ?m ?v)"
    using room' [OF has_room_room [OF mp(3)]] room_has [of "put_pte ?pt ?m ?v" 0] by simp
  have acc: "accessed ?k ?bp (mg_disk mg) ?fd ?p (page_bytes ?bp (mg_disk mg) ?fd ?p) ?bp' (mg_disk mg)"
    using core(2) hr pool_coreD(11) [OF c] by (simp add: accessed_def pt_simps)
  let ?mg = "mgr_put mg r ?v"
  have mg': "?mg = mg\<lparr>mg_pools := (mg_pools mg)[pool_of mg ?p := ?bp'], mg_disk := mg_disk mg\<rparr>"
    using pf(1) by (simp add: mgr_put_def Let_def)
  note put = mgr_put_pool [OF ok b [unfolded pf(1)] acc [unfolded pf(1)], folded pf(1)]
  show thesis
  proof (rule that [of ?mg])
    show "release_ref mgr_store mg r = Inr ?mg" using w(1) by (simp add: release_ref_def)
    show "mgr_ok rinv rcap qrep ?mg" using put(1) pf(1) by (simp add: mg')
    show "mgr_same mg ?mg"
      unfolding mg' using put(2) pf(1) by (intro mgr_step_same' [of mg ?fd ?p]) (simp_all add: page_of_def)
    show "pin_removed mg r ?mg"
      using w(1) cnt dec_fields [OF w(2)] by (auto simp: pin_removed_def rc_def ident_def mgr_get_put [OF w(1)] DecRefCount_def)
    show "mgr_room ?mg n" if "mgr_room mg n" for n
      using that room' pf(2) by (auto simp: mgr_room_def mgr_put_def Let_def nth_list_update)
  qed
qed

end

section \<open>Every pin has an owner\<close>

text \<open>
  \<open>U\<close> are the slices that own their pin, \<open>M\<close> the marked ones, which use a node of the cache.  A cached entry
  holds one pin of its own, and its node counts its uses.
\<close>

definition cached_in :: "direct_cache \<Rightarrow> pte_ref \<Rightarrow> nat" where
  "cached_in dc r = (if r \<in> dc_cached dc then 1 else 0)"

definition balanced ::
  "('r, 'q) manager \<Rightarrow> direct_cache \<Rightarrow> pte_ref multiset \<Rightarrow> pte_ref multiset \<Rightarrow> bool" where
  "balanced mg dc U M \<longleftrightarrow> length (dc_nodes dc) = dc_capacity dc \<and> 0 < dc_capacity dc \<and>
     (\<forall>i < dc_capacity dc. \<forall>r. dn_pte (dc_nodes dc ! i) = Some r \<longrightarrow>
        DirectCache_HASH_FUNC (fst (ident mg r)) (snd (ident mg r)) (dc_capacity dc) = i \<and>
        unat (dn_count (dc_nodes dc ! i)) = count M r) \<and>
     set_mset M \<subseteq> dc_cached dc \<and> (\<forall>r. rc mg r = count U r + cached_in dc r) \<and> size M < 65536"

definition node_of :: "('r, 'q) manager \<Rightarrow> direct_cache \<Rightarrow> pte_ref \<Rightarrow> nat" where
  "node_of mg dc r = DirectCache_HASH_FUNC (fst (ident mg r)) (snd (ident mg r)) (dc_capacity dc)"

lemma balancedD:
  assumes "balanced mg dc U M"
  shows "length (dc_nodes dc) = dc_capacity dc" "0 < dc_capacity dc" "node_of mg dc r < dc_capacity dc"
    "i < dc_capacity dc \<Longrightarrow> dn_pte (dc_nodes dc ! i) = Some r \<Longrightarrow>
       node_of mg dc r = i \<and> unat (dn_count (dc_nodes dc ! i)) = count M r \<and> 0 < rc mg r"
    "r \<in> dc_cached dc \<longleftrightarrow> dn_pte (dc_nodes dc ! node_of mg dc r) = Some r"
    "rc mg r = count U r + cached_in dc r" "r \<in># M \<Longrightarrow> r \<in> dc_cached dc" "r \<in># U + M \<Longrightarrow> 0 < rc mg r"
    "size M < 65536"
proof -
  show l: "length (dc_nodes dc) = dc_capacity dc" "0 < dc_capacity dc" and "size M < 65536"
    using assms by (simp_all add: balanced_def)
  show c: "rc mg r = count U r + cached_in dc r" for r using assms by (simp add: balanced_def)
  show n: "node_of mg dc r < dc_capacity dc" using l(2) by (simp add: node_of_def mgr.hash_less)
  show s: "node_of mg dc r = i \<and> unat (dn_count (dc_nodes dc ! i)) = count M r \<and> 0 < rc mg r"
    if "i < dc_capacity dc" "dn_pte (dc_nodes dc ! i) = Some r" for i r
  proof -
    have "r \<in> dc_cached dc" using that l by (auto simp: dc_cached_def)
    then show ?thesis using assms that c by (auto simp: balanced_def node_of_def cached_in_def)
  qed
  show "r \<in> dc_cached dc \<longleftrightarrow> dn_pte (dc_nodes dc ! node_of mg dc r) = Some r"
    using l n s by (auto simp: dc_cached_def)
  show m: "r \<in># M \<Longrightarrow> r \<in> dc_cached dc" for r using assms by (auto simp: balanced_def)
  show "r \<in># U + M \<Longrightarrow> 0 < rc mg r" using m c by (auto simp: cached_in_def)
qed

lemma balanced_dc_ok:
  assumes "balanced mg dc U M"
  shows "dc_ok mgr_store dc mg"
  unfolding dc_ok_def
proof (intro conjI allI impI)
  fix i r assume i: "i < dc_capacity dc" "dn_pte (dc_nodes dc ! i) = Some r"
  then have "node_of mg dc r = i" "0 < rc mg r" using balancedD(4) [OF assms] by auto
  then show "\<exists>w. ps_get mgr_store mg r = Inr w \<and> pte_ref_count w \<noteq> 0 \<and>
      DirectCache_HASH_FUNC (pte_fd_cur w) (pte_fpage_id_cur w) (dc_capacity dc) = i"
    by (auto elim!: rc_pos simp: node_of_def)
qed (use balancedD(1,2) [OF assms] in simp_all)

text \<open>The four ways the owners change.\<close>

lemma balanced_pin:
  assumes b: "balanced mg dc U M" and a: "pin_added mg r mg'"
  shows "balanced mg' dc (add_mset r U) M" "r' \<in># U + M \<Longrightarrow> ident mg' r' = ident mg r'"
proof -
  have id: "0 < rc mg r' \<Longrightarrow> ident mg' r' = ident mg r'" and c: "rc mg' r' = rc mg r' + (if r' = r then 1 else 0)" for r'
    using a by (simp_all add: pin_added_def)
  show "r' \<in># U + M \<Longrightarrow> ident mg' r' = ident mg r'" using id balancedD(8) [OF b] by blast
  show "balanced mg' dc (add_mset r U) M"
    unfolding balanced_def
  proof (intro conjI allI impI)
    fix i r' assume i: "i < dc_capacity dc" "dn_pte (dc_nodes dc ! i) = Some r'"
    note n = balancedD(4) [OF b i]
    then show "DirectCache_HASH_FUNC (fst (ident mg' r')) (snd (ident mg' r')) (dc_capacity dc) = i"
      "unat (dn_count (dc_nodes dc ! i)) = count M r'" using id [of r'] by (auto simp: node_of_def)
  qed (use b c balancedD(6) [OF b] in \<open>auto simp: balanced_def\<close>)
qed

lemma balanced_unpin:
  assumes b: "balanced mg dc (add_mset r U) M" and a: "pin_removed mg r mg'"
  shows "balanced mg' dc U M" "ident mg' r' = ident mg r'"
proof -
  have id: "ident mg' = ident mg" and c: "rc mg' r' = rc mg r' - (if r' = r then 1 else 0)" for r'
    using a by (auto simp: pin_removed_def)
  show "ident mg' r' = ident mg r'" by (simp add: id)
  show "balanced mg' dc U M" using b c by (auto simp: balanced_def id)
qed

section \<open>The operations of the cache keep the balance\<close>

lemma dc_cached_count [simp]:
  "dc_cached (dc\<lparr>dc_nodes := (dc_nodes dc)[i := (dc_nodes dc ! i)\<lparr>dn_count := c\<rparr>]\<rparr>) = dc_cached dc"
proof -
  have "dn_pte ((dc_nodes dc)[i := (dc_nodes dc ! i)\<lparr>dn_count := c\<rparr>] ! j) = dn_pte (dc_nodes dc ! j)" for j
    by (cases "j = i"; cases "i < length (dc_nodes dc)") (simp_all add: not_less list_update_beyond)
  then show ?thesis by (simp add: dc_cached_def)
qed

lemma balanced_count:
  assumes b: "balanced mg dc U M" and r: "r \<in> dc_cached dc" and M': "count M' r = unat c" "size M' < 65536"
    "\<And>r'. r' \<noteq> r \<Longrightarrow> count M' r' = count M r'"
  defines "i \<equiv> node_of mg dc r"
  shows "balanced mg (dc\<lparr>dc_nodes := (dc_nodes dc)[i := (dc_nodes dc ! i)\<lparr>dn_count := c\<rparr>]\<rparr>) U M'"
proof -
  note d = balancedD [OF b]
  let ?n' = "(dc_nodes dc)[i := (dc_nodes dc ! i)\<lparr>dn_count := c\<rparr>]"
  have i: "i < dc_capacity dc" "dn_pte (dc_nodes dc ! i) = Some r" using d(3,5) r by (simp_all add: i_def)
  have "unat (dn_count (?n' ! j)) = count M' r'" "node_of mg dc r' = j"
    if "j < dc_capacity dc" "dn_pte (?n' ! j) = Some r'" for j r'
  proof -
    have r': "dn_pte (dc_nodes dc ! j) = Some r'" using that i d(1) by (cases "j = i") simp_all
    then show "node_of mg dc r' = j" using d(4) [OF that(1)] by simp
    show "unat (dn_count (?n' ! j)) = count M' r'"
    proof (cases "j = i")
      case True
      then show ?thesis using i r' d(1) M'(1) by simp
    next
      case False
      then have "r' \<noteq> r" using d(4) [OF that(1) r'] by (auto simp: i_def)
      then show ?thesis using False M'(3) d(4) [OF that(1) r'] by simp
    qed
  qed
  moreover have "set_mset M' \<subseteq> dc_cached dc"
  proof
    fix r' assume "r' \<in># M'"
    then show "r' \<in> dc_cached dc" using M'(3) [of r'] r d(7) [of r'] by (cases "r' = r") (auto simp flip: count_greater_zero_iff)
  qed
  ultimately show ?thesis using d M'(2) by (auto simp: balanced_def node_of_def cached_in_def)
qed

lemma balanced_Find:
  assumes b: "balanced mg dc U M" and M: "size M < 65535"
  obtains (hit) r dc' where "dc1_Find mgr_store dc mg fd p = Inr (Some r, dc')" "pins mg fd p r"
      "balanced mg dc' U (add_mset r M)" "r \<in> dc_cached dc"
  | (miss) "dc1_Find mgr_store dc mg fd p = Inr (None, dc)"
      "\<And>r. r \<in> dc_cached dc \<Longrightarrow> ident mg r \<noteq> (fd, p)"
proof (cases rule: mgr.dc1_Find_cases [OF balanced_dc_ok [OF b] refl, of fd p, case_names hit0 miss0])
  case (hit0 r w)
  let ?i = "DirectCache_HASH_FUNC fd p (dc_capacity dc)"
  have id: "ident mg r = (fd, p)" using hit0 by (simp add: ident_def)
  then have i: "node_of mg dc r = ?i" by (simp add: node_of_def)
  note d = balancedD [OF b]
  have c: "r \<in> dc_cached dc" using d(5) i hit0(2) by simp
  have "unat (dn_count (dc_nodes dc ! ?i)) = count M r" using d(4) hit0(2) d(3) [of r] i by simp
  moreover have "count M r < 65535" using M count_le_size [of M r] by linarith
  ultimately have "unat (dn_count (dc_nodes dc ! ?i) + 1) = count (add_mset r M) r"
    by (subst unat_add_lem [THEN iffD1]) simp_all
  then have "balanced mg (dc\<lparr>dc_nodes := (dc_nodes dc)[?i := (dc_nodes dc ! ?i)\<lparr>dn_count := dn_count (dc_nodes dc ! ?i) + 1\<rparr>]\<rparr>)
      U (add_mset r M)"
    using M unfolding i [symmetric] by (intro balanced_count [OF b c]) simp_all
  then show thesis using hit [OF hit0(1)] id c d(4) [OF _ hit0(2)] d(3) [of r] i by (simp add: pins_def)
next
  case miss0
  have "ident mg r \<noteq> (fd, p)" if "r \<in> dc_cached dc" for r
  proof
    assume e: "ident mg r = (fd, p)"
    have "0 < rc mg r" using balancedD(6) [OF b] that by (simp add: cached_in_def)
    then obtain w where "mgr_get mg r = Inr w" "ident mg r = (pte_fd_cur w, pte_fpage_id_cur w)" by (rule rc_pos)
    then show False using miss0(2) [OF that, of w] e by simp
  qed
  then show thesis using miss miss0(1) by blast
qed

lemma balanced_Erase:
  assumes b: "balanced mg dc U (add_mset r M)"
  obtains dc' where "dc1_Erase dc (fst (ident mg r)) (snd (ident mg r)) = Inr dc'" "balanced mg dc' U M"
proof -
  note d = balancedD [OF b]
  let ?i = "node_of mg dc r"
  have c: "r \<in> dc_cached dc" using d(7) by simp
  then have n: "dn_pte (dc_nodes dc ! ?i) = Some r" using d(5) by simp
  have "unat (dn_count (dc_nodes dc ! ?i)) = count (add_mset r M) r" using d(4) [OF d(3) n] by simp
  then have "unat (dn_count (dc_nodes dc ! ?i) - 1) = count M r"
    by (subst unat_minus_one) (auto simp: unat_eq_0 [symmetric])
  then have "balanced mg (dc\<lparr>dc_nodes := (dc_nodes dc)[?i := (dc_nodes dc ! ?i)\<lparr>dn_count := dn_count (dc_nodes dc ! ?i) - 1\<rparr>]\<rparr>) U M"
    using d(9) by (intro balanced_count [OF b c]) simp_all
  then show thesis
    using n d(1) d(3) [of r] by (intro that) (simp_all add: dc1_Erase_def Let_def flip: node_of_def)
qed

text \<open>A node whose page is not in use is given to another page.\<close>

lemma balanced_store:
  assumes b: "balanced mg dc (add_mset r U) M" and nc: "r \<notin> dc_cached dc" and M: "size M < 65535"
  defines "i \<equiv> node_of mg dc r"
  assumes free: "dn_pte (dc_nodes dc ! i) = None \<and> mg' = mg \<or>
    dn_pte (dc_nodes dc ! i) = Some rv \<and> dn_count (dc_nodes dc ! i) = 0 \<and> pin_removed mg rv mg'"
  shows "balanced mg' (dc\<lparr>dc_nodes := (dc_nodes dc)[i := \<lparr>dn_count = 1, dn_pte = Some r\<rparr>]\<rparr>) U (add_mset r M)"
proof -
  note d = balancedD [OF b]
  let ?n' = "(dc_nodes dc)[i := \<lparr>dn_count = 1, dn_pte = Some r\<rparr>]" let ?dc = "dc\<lparr>dc_nodes := ?n'\<rparr>"
  have i: "i < dc_capacity dc" using d(3) by (simp add: i_def)
  have id: "ident mg' = ident mg" using free by (auto simp: pin_removed_def)
  have M0: "count M r = 0" using nc d(7) by (metis count_inI)
  have at: "dn_pte (?n' ! j) = Some r' \<Longrightarrow> j \<noteq> i \<Longrightarrow> dn_pte (dc_nodes dc ! j) = Some r'" for j r' by simp
  have cached: "r' \<in> dc_cached ?dc \<longleftrightarrow> r' = r \<or> r' \<in> dc_cached dc \<and> dn_pte (dc_nodes dc ! i) \<noteq> Some r'" for r'
  proof
    assume "r' \<in> dc_cached ?dc"
    then obtain j where j: "j < dc_capacity dc" "dn_pte (?n' ! j) = Some r'" using d(1) by (auto simp: dc_cached_def)
    show "r' = r \<or> r' \<in> dc_cached dc \<and> dn_pte (dc_nodes dc ! i) \<noteq> Some r'"
    proof (cases "j = i")
      case False
      note a = at [OF j(2) False]
      then have "node_of mg dc r' = j" using d(4) [OF j(1)] by simp
      then show ?thesis using a False d(4) [OF i] d(5) [of r'] by auto
    qed (use j d(1) in simp)
  next
    assume "r' = r \<or> r' \<in> dc_cached dc \<and> dn_pte (dc_nodes dc ! i) \<noteq> Some r'"
    then show "r' \<in> dc_cached ?dc"
    proof
      assume "r' = r"
      then show ?thesis using i d(1) by (auto simp: dc_cached_def intro!: exI [of _ i])
    next
      assume c: "r' \<in> dc_cached dc \<and> dn_pte (dc_nodes dc ! i) \<noteq> Some r'"
      then have n: "dn_pte (dc_nodes dc ! node_of mg dc r') = Some r'" using d(5) by simp
      then have "node_of mg dc r' \<noteq> i" using c by auto
      then show ?thesis
        using n d(1) d(3) [of r'] by (auto simp: dc_cached_def intro!: exI [of _ "node_of mg dc r'"])
    qed
  qed
  have old: "count M r' = 0" "r' \<in> dc_cached dc" "r' \<noteq> r" if "dn_pte (dc_nodes dc ! i) = Some r'" for r'
  proof -
    have "unat (dn_count (dc_nodes dc ! i)) = count M r'" using d(4) [OF i that] by simp
    moreover have "dn_count (dc_nodes dc ! i) = 0" using free that by auto
    ultimately show "count M r' = 0" by simp
    show "r' \<in> dc_cached dc" using that i d(1) by (auto simp: dc_cached_def)
    then show "r' \<noteq> r" using nc by auto
  qed
  have nodes: "DirectCache_HASH_FUNC (fst (ident mg' r')) (snd (ident mg' r')) (dc_capacity dc) = j \<and>
      unat (dn_count (?n' ! j)) = count (add_mset r M) r'"
    if "j < dc_capacity dc" "dn_pte (?n' ! j) = Some r'" for j r'
  proof (cases "j = i")
    case True
    then have "r' = r" using that(2) d(1) i by simp
    then show ?thesis using True d(1) i M0 by (simp add: id i_def node_of_def)
  next
    case False
    note a = at [OF that(2) False]
    have "r' \<noteq> r" using a that(1) d(1) nc by (auto simp: dc_cached_def)
    then show ?thesis using d(4) [OF that(1) a] False by (simp add: id node_of_def)
  qed
  have "rc mg' r' = count U r' + cached_in ?dc r'" for r'
  proof -
    have e: "rc mg r' = count (add_mset r U) r' + cached_in dc r'" by (rule d(6))
    show ?thesis
    proof (cases "dn_pte (dc_nodes dc ! i)")
      case None
      then show ?thesis using e free nc cached [of r'] by (auto simp: cached_in_def)
    next
      case (Some r1)
      then have c: "rc mg' r' = rc mg r' - (if r' = r1 then 1 else 0)" using free by (simp add: pin_removed_def)
      have k: "cached_in ?dc r' = (if r' = r then 1 else if r' = r1 then 0 else cached_in dc r')"
        using Some cached [of r'] by (simp add: cached_in_def)
      have n: "cached_in dc r = 0" "cached_in dc r1 = 1" "r1 \<noteq> r" using nc old(2,3) [OF Some] by (simp_all add: cached_in_def)
      show ?thesis unfolding c e k using n by simp
    qed
  qed
  moreover have "set_mset (add_mset r M) \<subseteq> dc_cached ?dc"
  proof
    fix r' assume "r' \<in># add_mset r M"
    then have "r' = r \<or> r' \<in># M" by simp
    then show "r' \<in> dc_cached ?dc"
    proof
      assume "r' \<in># M"
      then have "dn_pte (dc_nodes dc ! i) \<noteq> Some r'" "r' \<in> dc_cached dc"
        using old(1) [of r'] d(7) [of r'] by (auto simp: count_eq_zero_iff)
      then show ?thesis by (simp add: cached)
    qed (simp add: cached)
  qed
  ultimately show ?thesis
    using d(1,2) nodes M by (simp add: balanced_def)
qed

lemma balanced_cong_node:
  "ident mg r = (fd, p) \<Longrightarrow> DirectCache_HASH_FUNC fd p (dc_capacity dc) = node_of mg dc r"
  by (simp add: node_of_def)

context replacer
begin

lemma balanced_Insert:
  assumes ok: "mgr_ok rinv rcap qrep mg" and b: "balanced mg dc (add_mset r U) M" and nc: "r \<notin> dc_cached dc"
    and M: "size M < 65535" and id: "ident mg r = (fd, p)"
  obtains mark dc' mg' where "dc1_Insert mgr_store dc mg fd p r = Inr (mark, dc', mg')" "mgr_ok rinv rcap qrep mg'"
    "mgr_same mg mg'" "\<And>n. mgr_room mg n \<Longrightarrow> mgr_room mg' n" "ident mg' = ident mg"
    "balanced mg' dc' (if mark then U else add_mset r U) (if mark then add_mset r M else M)"
proof -
  note d = balancedD [OF b]
  define i where "i = node_of mg dc r"
  have ix: "DirectCache_HASH_FUNC fd p (dc_capacity dc) = i" using id by (simp add: i_def balanced_cong_node)
  have i: "i < dc_capacity dc" "i < length (dc_nodes dc)" using d(1,3) by (simp_all add: i_def)
  let ?n = "dc_nodes dc ! i" and ?dc = "dc\<lparr>dc_nodes := (dc_nodes dc)[i := \<lparr>dn_count = 1, dn_pte = Some r\<rparr>]\<rparr>"
  show thesis
  proof (cases "dn_pte ?n = None \<or> dn_count ?n = 0")
    case False
    then have "dc1_Insert mgr_store dc mg fd p r = Inr (False, dc, mg)" using i by (simp add: dc1_Insert_def ix)
    then show thesis using ok b by (intro that [of False dc mg]) simp_all
  next
    case True
    show thesis
    proof (cases "dn_pte ?n")
      case None
      then have "dc1_Insert mgr_store dc mg fd p r = Inr (True, ?dc, mg)" using i by (simp add: dc1_Insert_def ix)
      moreover have "balanced mg ?dc U (add_mset r M)"
        unfolding i_def by (rule balanced_store [OF b nc M, where rv = r]) (use None in \<open>simp add: i_def\<close>)
      ultimately show thesis using ok by (intro that [of True ?dc mg]) simp_all
    next
      case (Some r0)
      then have "0 < rc mg r0" using d(4) [OF i(1)] by simp
      then obtain mg' where m: "release_ref mgr_store mg r0 = Inr mg'" "mgr_ok rinv rcap qrep mg'" "mgr_same mg mg'"
        "pin_removed mg r0 mg'" "\<And>n. mgr_room mg n \<Longrightarrow> mgr_room mg' n"
        by (rule mgr_release_ok [OF ok]) blast
      have "dc1_Insert mgr_store dc mg fd p r = Inr (True, ?dc, mg')" using i Some True m(1) by (simp add: dc1_Insert_def ix)
      moreover have "balanced mg' ?dc U (add_mset r M)"
        unfolding i_def by (rule balanced_store [OF b nc M, where rv = r0]) (use Some True m(4) in \<open>simp add: i_def\<close>)
      moreover have "ident mg' = ident mg" using m(4) by (auto simp: pin_removed_def)
      ultimately show thesis using m by (intro that [of True ?dc mg']) simp_all
    qed
  qed
qed

text \<open>One page through the cache.\<close>

lemma cached_page_ok:
  assumes laws: "fifo_laws qops qrep" and ok: "mgr_ok rinv rcap qrep mg" and i: "in_file (mg_disk mg) fd p"
    and rm: "mgr_room mg (Suc (Suc n))" and fuel: "4 \<le> fuel" and b: "balanced mg dc U M" and M: "size M < 65535"
  obtains r mark dc' mg' where "cached_page fuel ops qops p fd dc mg = Inr ((r, mark), dc', mg')"
    "mgr_ok rinv rcap qrep mg'" "mgr_same mg mg'" "mgr_room mg' (Suc n)" "pins mg' fd p r"
    "balanced mg' dc' (if mark then U else add_mset r U) (if mark then add_mset r M else M)"
    "\<And>r'. r' \<in># U + M \<Longrightarrow> ident mg' r' = ident mg r'"
proof (cases rule: balanced_Find [OF b M, of fd p, case_names hit miss])
  case (hit r dc')
  have "0 < rc mg r" "ident mg r = (fd, p)" using hit(2) by (simp_all add: pins_def)
  then have "ref_pool r = pool_of mg p" using pinned_frame(1) [OF ok] by fastforce
  then have "cached_page fuel ops qops p fd dc mg = Inr ((r, True), dc', mg)" using hit(1) by (simp add: cached_page_def)
  then show thesis using ok rm hit by (intro that) (auto elim: mgr_room_mono)
next
  case miss
  obtain r mg1 where f: "mgr_fetch fuel ops qops mg p fd = Inr (r, mg1)" "mgr_ok rinv rcap qrep mg1" "mgr_same mg mg1"
    "mgr_room mg1 (Suc n)" "pins mg1 fd p r" "pin_added mg r mg1"
    by (rule mgr_fetch_ok [OF laws ok i rm fuel])
  note b1 = balanced_pin [OF b f(6)]
  have id: "ident mg1 r = (fd, p)" "0 < rc mg1 r" using f(5) by (simp_all add: pins_def)
  have nc: "r \<notin> dc_cached dc"
  proof
    assume c: "r \<in> dc_cached dc"
    then have "0 < rc mg r" using balancedD(6) [OF b] by (simp add: cached_in_def)
    then have "ident mg r = (fd, p)" using f(6) id(1) by (simp add: pin_added_def)
    then show False using miss(2) [OF c] by simp
  qed
  obtain mark dc' mg' where k: "dc1_Insert mgr_store dc mg1 fd p r = Inr (mark, dc', mg')" "mgr_ok rinv rcap qrep mg'"
    "mgr_same mg1 mg'" "\<And>n. mgr_room mg1 n \<Longrightarrow> mgr_room mg' n" "ident mg' = ident mg1"
    "balanced mg' dc' (if mark then U else add_mset r U) (if mark then add_mset r M else M)"
    by (rule balanced_Insert [OF f(2) b1(1) nc M id(1)]) blast
  show thesis
  proof (rule that [OF _ k(2) mgr_same_trans [OF f(3) k(3)] k(4) [OF f(4)] _ k(6)])
    show "cached_page fuel ops qops p fd dc mg = Inr ((r, mark), dc', mg')"
      using miss(1) f(1) k(1) by (simp add: cached_page_def)
    have "r \<in># (if mark then U else add_mset r U) + (if mark then add_mset r M else M)" by simp
    then have "0 < rc mg' r" by (rule balancedD(8) [OF k(6)])
    then show "pins mg' fd p r" using id k(5) by (simp add: pins_def)
    show "ident mg' r' = ident mg r'" if "r' \<in># U + M" for r' using b1(2) [OF that] k(5) by simp
  qed
qed

text \<open>One slice given back.\<close>

lemma free_slice_ok:
  assumes ok: "mgr_ok rinv rcap qrep mg"
    and b: "balanced mg dc (if sl_mark sl then U else add_mset (sl_pte sl) U) (if sl_mark sl then add_mset (sl_pte sl) M else M)"
  obtains dc' mg' where "free_slice mgr_store sl dc mg = Inr (dc', mg')" "mgr_ok rinv rcap qrep mg'" "mgr_same mg mg'"
    "\<And>n. mgr_room mg n \<Longrightarrow> mgr_room mg' n" "balanced mg' dc' U M" "ident mg' = ident mg"
proof (cases "sl_mark sl")
  case True
  then have b': "balanced mg dc U (add_mset (sl_pte sl) M)" using b by simp
  then have "0 < rc mg (sl_pte sl)" using balancedD(8) [OF b', of "sl_pte sl"] by simp
  then obtain w where w: "mgr_get mg (sl_pte sl) = Inr w" "ident mg (sl_pte sl) = (pte_fd_cur w, pte_fpage_id_cur w)"
    by (rule rc_pos)
  obtain dc' where "dc1_Erase dc (pte_fd_cur w) (pte_fpage_id_cur w) = Inr dc'" "balanced mg dc' U M"
    using balanced_Erase [OF b'] w(2) by (metis fst_conv snd_conv)
  then show thesis using True w(1) ok by (intro that [of dc' mg]) (simp_all add: free_slice_def)
next
  case False
  then have b': "balanced mg dc (add_mset (sl_pte sl) U) M" using b by simp
  then have "0 < rc mg (sl_pte sl)" using balancedD(8) [OF b', of "sl_pte sl"] by simp
  then obtain mg' where m: "release_ref mgr_store mg (sl_pte sl) = Inr mg'" "mgr_ok rinv rcap qrep mg'" "mgr_same mg mg'"
    "pin_removed mg (sl_pte sl) mg'" "\<And>n. mgr_room mg n \<Longrightarrow> mgr_room mg' n"
    by (rule mgr_release_ok [OF ok]) blast
  have "ident mg' = ident mg" using m(4) by (auto simp: pin_removed_def)
  then show thesis
    using False m balanced_unpin(1) [OF b' m(4)] by (intro that [of dc mg']) (simp_all add: free_slice_def)
qed

end

end
