(* ===== verification/CachedBlocks.thy ===== *)
theory CachedBlocks
  imports BlockPins
begin

text \<open>
  Blocks obtained through the direct cache: they show the bytes of the file, they go on showing them while
  they are held, and giving them back leaves no pin behind.
\<close>

section \<open>The pages of a range\<close>

lemma ceil_div_unique:
  assumes "0 < m" "v \<le> c * m" "c * m < v + m"
  shows "ceil_div v m = c"
proof -
  note b = ceil_div_bounds [OF assms(1), of v]
  have "ceil_div v m * m < (c + 1) * m" "c * m < (ceil_div v m + 1) * m" using assms b by (simp_all add: add_mult_distrib)
  then have "ceil_div v m < c + 1" "c < ceil_div v m + 1" by (simp_all only: mult_less_cancel2)
  then show ?thesis by simp
qed

lemma num_page_eq:
  assumes "block_size \<noteq> 0"
  shows "num_page file_offset block_size = ceil_div (unat (first_offset file_offset) + unat block_size) PAGE_SIZE_FILE"
proof -
  have nz: "0 < unat block_size" using assms by (simp add: unat_gt_0)
  have off: "unat (first_offset file_offset) = unat file_offset mod 4096"
    by (simp add: first_offset_def PAGE_SIZE_FILE_def unat_mod_distrib)
  define o' where "o' = unat file_offset mod 4096"
  have lt: "o' < 4096" by (simp add: o'_def)
  have ne: "num_page file_offset block_size = (if o' = 0 \<or> unat block_size \<le> 4096 - o'
      then ceil_div (unat block_size) 4096 else ceil_div (unat block_size - (4096 - o')) 4096 + 1)"
    by (simp add: num_page_def PAGE_SIZE_FILE_def o'_def Let_def)
  consider "o' = 0" | "0 < o'" "unat block_size \<le> 4096 - o'" | "0 < o'" "4096 - o' < unat block_size" by linarith
  then have "num_page file_offset block_size = ceil_div (o' + unat block_size) 4096"
  proof cases
    case 2
    then have "ceil_div (o' + unat block_size) 4096 = 1" "ceil_div (unat block_size) 4096 = 1"
      using nz lt by (intro ceil_div_unique; simp)+
    then show ?thesis using 2 by (simp add: ne)
  next
    case 3
    then have "ceil_div (o' + unat block_size) 4096 = ceil_div (unat block_size - (4096 - o')) 4096 + 1"
    proof -
      have e: "o' + unat block_size = (unat block_size - (4096 - o')) + 4096" using 3 lt by simp
      show ?thesis unfolding e by (simp add: ceil_div_def)
    qed
    then show ?thesis using 3 by (simp add: ne)
  qed (simp add: ne)
  then show ?thesis by (simp add: off o'_def PAGE_SIZE_FILE_def)
qed

lemma num_page_covers:
  assumes "block_size \<noteq> 0"
  shows "unat (first_offset file_offset) + unat block_size \<le> PAGE_SIZE_FILE * num_page file_offset block_size"
    "i < num_page file_offset block_size \<Longrightarrow> i * PAGE_SIZE_FILE < unat (first_offset file_offset) + unat block_size"
proof -
  let ?n = "unat (first_offset file_offset) + unat block_size"
  note e = num_page_eq [OF assms, of file_offset] and b = ceil_div_bounds [OF PAGE_pos, of ?n]
  show "?n \<le> PAGE_SIZE_FILE * num_page file_offset block_size" using b(1) by (simp add: e mult.commute)
  assume "i < num_page file_offset block_size"
  then have "(i + 1) * PAGE_SIZE_FILE \<le> ceil_div ?n PAGE_SIZE_FILE * PAGE_SIZE_FILE"
    unfolding e by (intro mult_le_mono1) simp
  then show "i * PAGE_SIZE_FILE < ?n" using b(2) by (simp add: add_mult_distrib)
qed

lemma page_add:
  assumes "(unat p + i) * PAGE_SIZE_FILE < L" "L \<le> PAGE_SIZE_FILE * 2 ^ 32"
  shows "unat (p + word_of_nat i :: fpage_id) = unat p + i"
proof -
  have lt: "unat p + i < 4294967296" using assms by (simp add: PAGE_SIZE_FILE_def)
  then have "unat (word_of_nat i :: fpage_id) = i" by (simp add: unat_of_nat)
  then show ?thesis using lt by (subst unat_add_lem [THEN iffD1]) simp_all
qed

section \<open>Slices\<close>

definition slice_at :: "nat \<Rightarrow> pte_ref \<times> bool \<Rightarrow> slice" where
  "slice_at off = (\<lambda>(r, mark). \<lparr>sl_frame = r, sl_off = off, sl_pte = r, sl_mark = mark\<rparr>)"

fun slices :: "nat \<Rightarrow> (pte_ref \<times> bool) list \<Rightarrow> slice list" where
  "slices off [] = []"
| "slices off (rm # rms) = slice_at off rm # slices 0 rms"

definition unmarked :: "slice list \<Rightarrow> pte_ref multiset" where
  "unmarked sls = mset (map sl_pte (filter (\<lambda>sl. \<not> sl_mark sl) sls))"

definition marked :: "slice list \<Rightarrow> pte_ref multiset" where
  "marked sls = mset (map sl_pte (filter sl_mark sls))"

lemma marked_simps [simp]:
  "unmarked [] = {#}" "marked [] = {#}"
  "unmarked (sl # sls) = (if sl_mark sl then unmarked sls else add_mset (sl_pte sl) (unmarked sls))"
  "marked (sl # sls) = (if sl_mark sl then add_mset (sl_pte sl) (marked sls) else marked sls)"
  "unmarked (rev sls) = unmarked sls" "marked (rev sls) = marked sls"
  by (simp_all add: unmarked_def marked_def flip: rev_filter)

lemma slice_at_sel [simp]:
  "sl_frame (slice_at off (r, mark)) = r" "sl_off (slice_at off (r, mark)) = off"
  "sl_pte (slice_at off (r, mark)) = r" "sl_mark (slice_at off (r, mark)) = mark"
  by (simp_all add: slice_at_def)

lemma slices_length [simp]: "length (slices off rms) = length rms"
  by (induction off rms rule: slices.induct) simp_all

lemma slices_refs: "sl_pte ` set (slices off rms) = fst ` set rms"
  by (induction off rms rule: slices.induct) (auto simp: slice_at_def)

lemma marked_refs: "set_mset (unmarked sls) \<union> set_mset (marked sls) = sl_pte ` set sls"
  by (induction sls) auto

text \<open>Slices that pin consecutive pages show the bytes of the file.\<close>

definition pins_from :: "('r, 'q) manager \<Rightarrow> file_handle \<Rightarrow> fpage_id \<Rightarrow> pte_ref list \<Rightarrow> bool" where
  "pins_from mg fd p rs \<longleftrightarrow> (\<forall>i < length rs. pins mg fd (p + word_of_nat i) (rs ! i))"

lemma pins_from_Cons:
  "pins_from mg fd p (r # rs) \<longleftrightarrow> pins mg fd p r \<and> pins_from mg fd (p + 1) rs"
  unfolding pins_from_def by (simp add: All_less_Suc2 add.assoc)

lemma slices_file:
  assumes ok: "mgr_ok rinv rcap qrep mg" and o: "is_open mg fd"
  shows "pins_from mg fd p (map fst rms) \<Longrightarrow> off < PAGE_SIZE_FILE \<Longrightarrow> n + off \<le> PAGE_SIZE_FILE * length rms \<or> n = 0 \<Longrightarrow>
    n \<noteq> 0 \<longrightarrow> pos = unat p * PAGE_SIZE_FILE + off \<and> pos + n \<le> file_length mg fd \<Longrightarrow>
    slices_ok (mgr_mem mg) (map Some (slices off rms)) n \<and>
    slices_content (mgr_mem mg) (map Some (slices off rms)) n = take n (drop pos (file_bytes mg fd))"
proof (induction rms arbitrary: p off n pos)
  case (Cons rm rms)
  obtain r mark where rm: "rm = (r, mark)" by (cases rm)
  have r: "pins mg fd p r" "pins_from mg fd (p + 1) (map fst rms)" using Cons.prems(1) by (simp_all add: rm pins_from_Cons)
  note c = pins_content [OF ok r(1)]
  let ?l = "PAGE_SIZE_FILE - off" and ?b = "mgr_mem mg r"
  have L: "file_length mg fd \<le> PAGE_SIZE_FILE * 2 ^ 32" using ok o by (simp add: mgr_ok_def is_open_def file_length_def)
  have "n - ?l \<noteq> 0 \<longrightarrow> pos + ?l = unat (p + 1) * PAGE_SIZE_FILE + 0 \<and> pos + ?l + (n - ?l) \<le> file_length mg fd"
  proof
    assume "n - ?l \<noteq> 0"
    then have g: "?l < n" "n \<noteq> 0" by simp_all
    then have "pos = unat p * PAGE_SIZE_FILE + off" "pos + n \<le> file_length mg fd" using Cons.prems(4) by simp_all
    then have "(unat p + 1) * PAGE_SIZE_FILE < file_length mg fd"
      using g(1) Cons.prems(2) by (simp only: add_mult_distrib)
    then have "unat (p + 1) = unat p + 1" using page_add [of p 1] L by simp
    then show "pos + ?l = unat (p + 1) * PAGE_SIZE_FILE + 0 \<and> pos + ?l + (n - ?l) \<le> file_length mg fd"
      using g Cons.prems(2,4) by simp
  qed
  note nx = this
  have "n - ?l + 0 \<le> PAGE_SIZE_FILE * length rms \<or> n - ?l = 0"
  proof (cases "n = 0")
    case False
    then have "n + off \<le> PAGE_SIZE_FILE + PAGE_SIZE_FILE * length rms" using Cons.prems(3) by simp
    then show ?thesis using Cons.prems(2) by linarith
  qed simp
  from Cons.IH [OF r(2) PAGE_pos this nx] have IH: "slices_ok (mgr_mem mg) (map Some (slices 0 rms)) (n - ?l)"
    "slices_content (mgr_mem mg) (map Some (slices 0 rms)) (n - ?l) = take (n - ?l) (drop (pos + ?l) (file_bytes mg fd))"
    by simp_all
  have head: "take n (drop off ?b) = take (min n ?l) (drop pos (file_bytes mg fd))"
  proof (cases "n = 0")
    case False
    then have pos: "pos = unat p * PAGE_SIZE_FILE + off" "pos + n \<le> file_length mg fd" using Cons.prems(4) by simp_all
    have "take n (drop off ?b) = take (min n ?l) (drop off ?b)" using c(2) by (simp add: min_def)
    also have "\<dots> = take (min n ?l) (drop (unat p * PAGE_SIZE_FILE + off) (file_bytes mg fd))"
      using pos Cons.prems(2) c by (intro file_bytes_slice) auto
    finally show ?thesis by (simp only: pos)
  qed simp
  have "take n (drop pos (file_bytes mg fd)) =
      take (min n ?l) (drop pos (file_bytes mg fd)) @ take (n - ?l) (drop (pos + ?l) (file_bytes mg fd))"
  proof (cases "n \<le> ?l")
    case False
    then show ?thesis
      using take_add [of ?l "n - ?l" "drop pos (file_bytes mg fd)"] by (simp add: min_def add.commute)
  qed simp
  then show ?case
    using IH head Cons.prems(2) c(2) by (simp add: rm loc_inpage_in)
qed auto

section \<open>Acquiring and releasing\<close>

lemma pins_keep:
  assumes "balanced mg dc U M" "r \<in># U + M" "ident mg r = (fd, p)"
  shows "pins mg fd p r"
  using balancedD(8) [OF assms(1,2)] assms(3) by (simp add: pins_def)

context replacer
begin

lemma cached_pages_ok:
  assumes laws: "fifo_laws qops qrep" and fuel: "4 \<le> fuel"
  shows "mgr_ok rinv rcap qrep mg \<Longrightarrow> balanced mg dc U M \<Longrightarrow> mgr_room mg (n + Suc k) \<Longrightarrow> size M + n < 65536 \<Longrightarrow>
    (\<And>i. i < n \<Longrightarrow> in_file (mg_disk mg) fd (p + word_of_nat i)) \<Longrightarrow>
    bb_data b = Pages (ds @ replicate n None) \<Longrightarrow> bb_page_num b = length ds + n \<Longrightarrow>
    \<exists>rms dc' mg'. cached_pages fuel ops qops fd n (length ds) p off b dc mg =
        Inr (b\<lparr>bb_data := Pages (ds @ map Some (slices (unat off) rms))\<rparr>, dc', mg') \<and> length rms = n \<and>
      mgr_ok rinv rcap qrep mg' \<and> mgr_same mg mg' \<and> mgr_room mg' (Suc k) \<and>
      balanced mg' dc' (U + unmarked (slices (unat off) rms)) (M + marked (slices (unat off) rms)) \<and>
      (\<forall>r. r \<in># U + M \<longrightarrow> ident mg' r = ident mg r) \<and>
      pins_from mg' fd p (map fst rms)"
proof (induction n arbitrary: mg dc U M p off b ds)
  case 0
  then show ?case by (intro exI [of _ "[]"] exI [of _ dc] exI [of _ mg]) (simp add: pins_from_def)
next
  case (Suc n)
  have i0: "in_file (mg_disk mg) fd p" using Suc.prems(5) [of 0] by simp
  obtain r mark dc1 mg1 where c: "cached_page fuel ops qops p fd dc mg = Inr ((r, mark), dc1, mg1)"
    "mgr_ok rinv rcap qrep mg1" "mgr_same mg mg1" "mgr_room mg1 (Suc (n + k))" "pins mg1 fd p r"
    "balanced mg1 dc1 (if mark then U else add_mset r U) (if mark then add_mset r M else M)"
    "\<And>r'. r' \<in># U + M \<Longrightarrow> ident mg1 r' = ident mg r'"
    by (rule cached_page_ok [OF laws Suc.prems(1) i0, of "n + k" fuel dc U M]) (use Suc.prems fuel in auto)
  let ?U = "if mark then U else add_mset r U" and ?M = "if mark then add_mset r M else M"
  let ?sl = "slice_at (unat off) (r, mark)" let ?b = "b\<lparr>bb_data := Pages ((ds @ [Some ?sl]) @ replicate n None)\<rparr>"
  have ins: "InsertPage b (length ds) (r, unat off) r mark = Inr ?b"
    using Suc.prems(6,7) by (auto simp: InsertPage_def slice_at_def list_update_append arr_set_def)
  have "\<exists>rms dc' mg'. cached_pages fuel ops qops fd n (length (ds @ [Some ?sl])) (p + 1) 0 ?b dc1 mg1 =
        Inr (?b\<lparr>bb_data := Pages ((ds @ [Some ?sl]) @ map Some (slices (unat (0 :: u64)) rms))\<rparr>, dc', mg') \<and> length rms = n \<and>
      mgr_ok rinv rcap qrep mg' \<and> mgr_same mg1 mg' \<and> mgr_room mg' (Suc k) \<and>
      balanced mg' dc' (?U + unmarked (slices (unat (0 :: u64)) rms)) (?M + marked (slices (unat (0 :: u64)) rms)) \<and>
      (\<forall>r'. r' \<in># ?U + ?M \<longrightarrow> ident mg' r' = ident mg1 r') \<and>
      pins_from mg' fd (p + 1) (map fst rms)"
  proof (rule Suc.IH [OF c(2,6)])
    show "mgr_room mg1 (n + Suc k)" using c(4) by simp
    show "size ?M + n < 65536" using Suc.prems(4) by simp
    show "in_file (mg_disk mg1) fd (p + 1 + word_of_nat i)" if "i < n" for i
      using Suc.prems(5) [of "Suc i"] that mgr_same_in_file [OF c(3)] by (simp add: add.assoc)
  qed (use Suc.prems(7) in simp_all)
  then obtain rms dc' mg' where h: "cached_pages fuel ops qops fd n (Suc (length ds)) (p + 1) 0 ?b dc1 mg1 =
        Inr (b\<lparr>bb_data := Pages (ds @ Some ?sl # map Some (slices 0 rms))\<rparr>, dc', mg')" "length rms = n"
      "mgr_ok rinv rcap qrep mg'" "mgr_same mg1 mg'" "mgr_room mg' (Suc k)"
      "balanced mg' dc' (?U + unmarked (slices 0 rms)) (?M + marked (slices 0 rms))"
      "\<And>r'. r' \<in># ?U + ?M \<Longrightarrow> ident mg' r' = ident mg1 r'" "pins_from mg' fd (p + 1) (map fst rms)"
    by auto
  have rU: "r \<in># ?U + ?M" by simp
  have keep: "ident mg' r' = ident mg r'" if "r' \<in># U + M" for r'
    using that h(7) [of r'] c(7) [of r'] by (cases mark) auto
  have "ident mg' r = (fd, p)" using h(7) [OF rU] c(5) by (simp add: pins_def)
  then have "pins mg' fd p r" using rU by (intro pins_keep [OF h(6)]) auto
  then have "pins_from mg' fd p (map fst ((r, mark) # rms))" using h(8) by (simp add: pins_from_Cons)
  moreover have "balanced mg' dc' (U + unmarked (slices (unat off) ((r, mark) # rms))) (M + marked (slices (unat off) ((r, mark) # rms)))"
    using h(6) by (cases mark) simp_all
  ultimately show ?case
    using c(1) ins h keep mgr_same_trans [OF c(3) h(4)]
    by (intro exI [of _ "(r, mark) # rms"] exI [of _ dc'] exI [of _ mg']) simp
qed

lemma free_slices_ok:
  "mgr_ok rinv rcap qrep mg \<Longrightarrow> balanced mg dc (U + unmarked sls) (M + marked sls) \<Longrightarrow>
   \<exists>dc' mg'. free_slices mgr_store (map Some sls) dc mg = Inr (dc', mg') \<and> mgr_ok rinv rcap qrep mg' \<and>
     mgr_same mg mg' \<and> (\<forall>n. mgr_room mg n \<longrightarrow> mgr_room mg' n) \<and> balanced mg' dc' U M \<and> ident mg' = ident mg"
proof (induction sls arbitrary: mg dc)
  case (Cons sl sls)
  have b: "balanced mg dc (if sl_mark sl then U + unmarked sls else add_mset (sl_pte sl) (U + unmarked sls))
      (if sl_mark sl then add_mset (sl_pte sl) (M + marked sls) else M + marked sls)"
    using Cons.prems(2) by (simp split: if_splits)
  obtain dc1 mg1 where f: "free_slice mgr_store sl dc mg = Inr (dc1, mg1)" "mgr_ok rinv rcap qrep mg1" "mgr_same mg mg1"
    "\<And>n. mgr_room mg n \<Longrightarrow> mgr_room mg1 n" "balanced mg1 dc1 (U + unmarked sls) (M + marked sls)" "ident mg1 = ident mg"
    by (rule free_slice_ok [OF Cons.prems(1) b]) blast
  from Cons.IH [OF f(2,5)] obtain dc' mg' where "free_slices mgr_store (map Some sls) dc1 mg1 = Inr (dc', mg')"
    "mgr_ok rinv rcap qrep mg'" "mgr_same mg1 mg'" "\<And>n. mgr_room mg1 n \<Longrightarrow> mgr_room mg' n" "balanced mg' dc' U M"
    "ident mg' = ident mg1" by blast
  then show ?case using f mgr_same_trans [OF f(3)] by auto
qed simp

end

section \<open>A block and its pages\<close>

text \<open>\<open>shows_range\<close> is what a client may rely on while it holds the block: its slices pin the pages of the range.\<close>

definition shows_range :: "('r, 'q) manager \<Rightarrow> file_handle \<Rightarrow> u64 \<Rightarrow> u64 \<Rightarrow> block \<Rightarrow> bool" where
  "shows_range mg fd file_offset block_size b \<longleftrightarrow>
     (if block_size = 0 then b = bb_empty
      else \<exists>rms. b = \<lparr>bb_size = unat block_size, bb_page_num = length rms,
             bb_data = Pages (map Some (slices (unat (first_offset file_offset)) rms))\<rparr> \<and>
           length rms = num_page file_offset block_size \<and> pins_from mg fd (first_page file_offset) (map fst rms))"

definition block_slices :: "block \<Rightarrow> slice list" where
  "block_slices b = map the (bb_slices b)"

lemma shows_range_content:
  assumes ok: "mgr_ok rinv rcap qrep mg" and o: "is_open mg fd" and r: "unat file_offset + unat block_size \<le> file_length mg fd"
    and s: "shows_range mg fd file_offset block_size b"
  shows "bb_wf (mgr_mem mg) b" "bb_content (mgr_mem mg) b = take (unat block_size) (drop (unat file_offset) (file_bytes mg fd))"
proof -
  have "bb_wf (mgr_mem mg) b \<and>
    bb_content (mgr_mem mg) b = take (unat block_size) (drop (unat file_offset) (file_bytes mg fd))"
  proof (cases "block_size = 0")
    case True
    then show ?thesis using s by (simp add: shows_range_def bb_empty_def bb_wf_def bb_content_def)
  next
    case False
    then obtain rms where b: "b = \<lparr>bb_size = unat block_size, bb_page_num = length rms,
        bb_data = Pages (map Some (slices (unat (first_offset file_offset)) rms))\<rparr>"
      and n: "length rms = num_page file_offset block_size" and p: "pins_from mg fd (first_page file_offset) (map fst rms)"
      using s by (auto simp: shows_range_def)
    note c = num_page_covers(1) [OF False, of file_offset]
    have nz: "0 < unat block_size" using False by (simp add: unat_gt_0)
    have "unat file_offset = unat (first_page file_offset) * PAGE_SIZE_FILE + unat (first_offset file_offset)"
      using block_inside [OF ok o r] False by (simp add: first_page_def first_offset_def)
    then have "slices_ok (mgr_mem mg) (map Some (slices (unat (first_offset file_offset)) rms)) (unat block_size) \<and>
      slices_content (mgr_mem mg) (map Some (slices (unat (first_offset file_offset)) rms)) (unat block_size) =
        take (unat block_size) (drop (unat file_offset) (file_bytes mg fd))"
      using c r n offset_in_page [of file_offset]
      by (intro slices_file [OF ok o p]) (simp_all add: first_offset_def add.commute)
    moreover have "rms \<noteq> []" using c nz n by auto
    ultimately show ?thesis by (simp add: b bb_wf_def bb_content_def)
  qed
  then show "bb_wf (mgr_mem mg) b" "bb_content (mgr_mem mg) b = take (unat block_size) (drop (unat file_offset) (file_bytes mg fd))"
    by simp_all
qed

text \<open>The pages of the range are in the file.\<close>

lemma range_in_file:
  assumes ok: "mgr_ok rinv rcap qrep mg" and o: "is_open mg fd" and r: "unat file_offset + unat block_size \<le> file_length mg fd"
    and i: "i < num_page file_offset block_size" and nz: "block_size \<noteq> 0"
  shows "in_file (mg_disk mg) fd (first_page file_offset + word_of_nat i)"
proof -
  have L: "file_length mg fd \<le> PAGE_SIZE_FILE * 2 ^ 32" using ok o by (simp add: mgr_ok_def is_open_def file_length_def)
  have "unat file_offset = unat (first_page file_offset) * PAGE_SIZE_FILE + unat (first_offset file_offset)"
    using block_inside [OF ok o r] nz by (simp add: first_page_def first_offset_def)
  then have lt: "(unat (first_page file_offset) + i) * PAGE_SIZE_FILE < file_length mg fd"
    using num_page_covers(2) [OF nz i] r by (simp add: add_mult_distrib)
  then show ?thesis using page_add [OF lt L] o lt by (simp add: in_file_mgr)
qed

context replacer
begin

lemma GetBlockWithDirectCacheSync_ok:
  assumes laws: "fifo_laws qops qrep" and fuel: "4 \<le> fuel" and ok: "mgr_ok rinv rcap qrep mg" and o: "is_open mg fd"
    and r: "unat file_offset + unat block_size \<le> file_length mg fd" and b: "balanced mg dc U M"
    and rm: "mgr_room mg (num_page file_offset block_size + 1)" and M: "size M + num_page file_offset block_size < 65536"
  obtains blk dc' mg' where
    "GetBlockWithDirectCacheSync fuel ops qops mg dc file_offset block_size fd = Inr (blk, dc', mg')"
    "mgr_ok rinv rcap qrep mg'" "mgr_same mg mg'" "shows_range mg' fd file_offset block_size blk"
    "balanced mg' dc' (U + unmarked (block_slices blk)) (M + marked (block_slices blk))"
    "\<And>r. r \<in># U + M \<Longrightarrow> ident mg' r = ident mg r"
proof (cases "block_size = 0")
  case True
  then show thesis
    using ok b by (intro that [of bb_empty dc mg])
      (simp_all add: GetBlockWithDirectCacheSync_def shows_range_def block_slices_def bb_slices_def bb_empty_def)
next
  case False
  let ?n = "num_page file_offset block_size" and ?p = "first_page file_offset" and ?off = "first_offset file_offset"
  let ?b = "bb_pages (unat block_size) (num_page file_offset block_size)"
  have "\<exists>rms dc' mg'. cached_pages fuel ops qops fd ?n (length ([] :: slice option list)) ?p ?off ?b dc mg =
        Inr (?b\<lparr>bb_data := Pages ([] @ map Some (slices (unat ?off) rms))\<rparr>, dc', mg') \<and> length rms = ?n \<and>
      mgr_ok rinv rcap qrep mg' \<and> mgr_same mg mg' \<and> mgr_room mg' (Suc 0) \<and>
      balanced mg' dc' (U + unmarked (slices (unat ?off) rms)) (M + marked (slices (unat ?off) rms)) \<and>
      (\<forall>r. r \<in># U + M \<longrightarrow> ident mg' r = ident mg r) \<and> pins_from mg' fd ?p (map fst rms)"
    by (rule cached_pages_ok [OF laws fuel ok b])
      (use rm M range_in_file [OF ok o r _ False] in \<open>simp_all add: bb_pages_def\<close>)
  then obtain rms dc' mg' where c: "cached_pages fuel ops qops fd ?n 0 ?p ?off ?b dc mg =
        Inr (?b\<lparr>bb_data := Pages (map Some (slices (unat ?off) rms))\<rparr>, dc', mg')" "length rms = ?n"
      "mgr_ok rinv rcap qrep mg'" "mgr_same mg mg'"
      "balanced mg' dc' (U + unmarked (slices (unat ?off) rms)) (M + marked (slices (unat ?off) rms))"
      "\<And>r. r \<in># U + M \<Longrightarrow> ident mg' r = ident mg r" "pins_from mg' fd ?p (map fst rms)"
    by auto
  let ?blk = "?b\<lparr>bb_data := Pages (map Some (slices (unat ?off) rms))\<rparr>"
  have one: "cached_pages fuel ops qops fd 1 0 ?p ?off ?b dc mg =
      bindE (cached_page fuel ops qops ?p fd dc mg) (\<lambda>((r, mark), dc, mg).
      bindE (InsertPage ?b 0 (r, unat ?off) r mark) (\<lambda>ret. Inr (ret, dc, mg)))"
    by (simp split: prod.split)
  have "GetBlockWithDirectCacheSync fuel ops qops mg dc file_offset block_size fd =
      cached_pages fuel ops qops fd ?n 0 ?p ?off ?b dc mg"
    using False one by (simp only: GetBlockWithDirectCacheSync_def Let_def split: if_split) simp
  then have g: "GetBlockWithDirectCacheSync fuel ops qops mg dc file_offset block_size fd = Inr (?blk, dc', mg')"
    using c(1) by simp
  have sl: "block_slices ?blk = slices (unat ?off) rms"
    by (simp add: block_slices_def bb_slices_def comp_def)
  show thesis
  proof (rule that [OF g c(3,4)])
    show "shows_range mg' fd file_offset block_size ?blk"
      unfolding shows_range_def using c(2,7) False by (simp add: bb_pages_def) (rule exI [of _ rms]; simp)
  qed (use c(5,6) sl in simp_all)
qed

end

end
