(* ===== verification/Clients.thy ===== *)
theory Clients
  imports CachedBlocks
begin

text \<open>
  A client of the manager: it asks for blocks and gives them back, in any order and any number of times.
  \<open>client_step\<close> is one such call; the invariant is that every pin has its owner and that every block held
  shows its range of the file.
\<close>

section \<open>Giving a block back\<close>

lemma block_slices_pages: "bb_data b = Pages (map Some sls) \<Longrightarrow> block_slices b = sls"
  by (simp add: block_slices_def bb_slices_def comp_def)

context replacer
begin

lemma bb_free_ok:
  assumes ok: "mgr_ok rinv rcap qrep mg" and s: "shows_range mg fd file_offset block_size blk"
    and b: "balanced mg dc (U + unmarked (block_slices blk)) (M + marked (block_slices blk))"
  obtains blk' dc' mg' where "bb_free mgr_store blk dc mg = Inr (blk', dc', mg')" "mgr_ok rinv rcap qrep mg'"
    "mgr_same mg mg'" "balanced mg' dc' U M" "ident mg' = ident mg"
proof (cases "block_size = 0")
  case True
  then have e: "blk = bb_empty" using s by (simp add: shows_range_def)
  then have "block_slices blk = []" by (simp add: block_slices_def bb_slices_def bb_empty_def)
  then show thesis using e ok b by (intro that [of _ dc mg]) (simp_all add: bb_free_def bb_empty_def)
next
  case False
  then obtain rms where d: "bb_size blk = unat block_size" "bb_page_num blk = length rms" "length rms = num_page file_offset block_size"
    "bb_data blk = Pages (map Some (slices (unat (first_offset file_offset)) rms))"
    using s by (auto simp: shows_range_def)
  let ?sls = "slices (unat (first_offset file_offset)) rms"
  have nz: "unat block_size \<noteq> 0" using False by (simp add: unat_eq_0)
  have "length rms \<noteq> 0"
  proof
    assume "length rms = 0"
    then show False using num_page_covers(1) [OF False, of file_offset] nz by (simp flip: d(3))
  qed
  have sl: "block_slices blk = ?sls" by (rule block_slices_pages [OF d(4)])
  then have "balanced mg dc (U + unmarked (rev ?sls)) (M + marked (rev ?sls))" using b by simp
  from free_slices_ok [OF ok this] obtain dc' mg' where f: "free_slices mgr_store (map Some (rev ?sls)) dc mg = Inr (dc', mg')"
    "mgr_ok rinv rcap qrep mg'" "mgr_same mg mg'" "balanced mg' dc' U M" "ident mg' = ident mg" by blast
  have "bb_free mgr_store blk dc mg = Inr (blk\<lparr>bb_size := 0, bb_page_num := 0\<rparr>, dc', mg')"
    using f(1) d nz \<open>length rms \<noteq> 0\<close> by (simp add: bb_free_def rev_map)
  from that [OF this f(2-5)] show thesis .
qed

end

section \<open>Cleaning the cache\<close>

fun nodes_distinct :: "dc_node list \<Rightarrow> bool" where
  "nodes_distinct [] \<longleftrightarrow> True"
| "nodes_distinct (n # ns) \<longleftrightarrow> (\<forall>n'\<in>set ns. dn_pte n = None \<or> dn_pte n' \<noteq> dn_pte n) \<and> nodes_distinct ns"

lemma nodes_distinctI:
  "(\<And>i j. i < j \<Longrightarrow> j < length ns \<Longrightarrow> dn_pte (ns ! i) = None \<or> dn_pte (ns ! j) \<noteq> dn_pte (ns ! i)) \<Longrightarrow> nodes_distinct ns"
proof (induction ns)
  case (Cons n ns)
  have "nodes_distinct ns"
  proof (rule Cons.IH)
    show "dn_pte (ns ! i) = None \<or> dn_pte (ns ! j) \<noteq> dn_pte (ns ! i)" if "i < j" "j < length ns" for i j
      using Cons.prems [of "Suc i" "Suc j"] that by simp
  qed
  moreover have "dn_pte n = None \<or> dn_pte n' \<noteq> dn_pte n" if "n' \<in> set ns" for n'
  proof -
    obtain j where "j < length ns" "ns ! j = n'" using \<open>n' \<in> set ns\<close> by (auto simp: in_set_conv_nth)
    then show ?thesis using Cons.prems [of 0 "Suc j"] by simp
  qed
  ultimately show ?case by simp
qed simp

context replacer
begin

lemma dc1_clean_nodes_ok:
  "mgr_ok rinv rcap qrep mg \<Longrightarrow> nodes_distinct ns \<Longrightarrow>
   (\<And>n r. n \<in> set ns \<Longrightarrow> dn_pte n = Some r \<Longrightarrow> dn_count n = 0 \<and> 0 < rc mg r) \<Longrightarrow>
   \<exists>ns' mg'. dc1_clean_nodes mgr_store ns mg = Inr (ns', mg') \<and> mgr_ok rinv rcap qrep mg' \<and>
     (\<forall>r. rc mg' r = rc mg r - (if Some r \<in> dn_pte ` set ns then 1 else 0))"
proof (induction ns arbitrary: mg)
  case (Cons n ns)
  show ?case
  proof (cases "dn_pte n")
    case None
    then have "Some r \<in> dn_pte ` set (n # ns) \<longleftrightarrow> Some r \<in> dn_pte ` set ns" for r by auto
    moreover obtain ns' mg' where "dc1_clean_nodes mgr_store ns mg = Inr (ns', mg')" "mgr_ok rinv rcap qrep mg'"
      "\<And>r. rc mg' r = rc mg r - (if Some r \<in> dn_pte ` set ns then 1 else 0)"
      using Cons.IH [OF Cons.prems(1)] Cons.prems(2,3) by auto
    ultimately show ?thesis using None by simp
  next
    case (Some r)
    then have n: "dn_count n = 0" "0 < rc mg r" using Cons.prems(3) [of n r] by simp_all
    obtain mg1 where m: "release_ref mgr_store mg r = Inr mg1" "mgr_ok rinv rcap qrep mg1" "pin_removed mg r mg1"
      by (rule mgr_release_ok [OF Cons.prems(1) n(2)])
    have rc1: "rc mg1 r' = rc mg r' - (if r' = r then 1 else 0)" for r' using m(3) by (simp add: pin_removed_def)
    have notin: "Some r \<notin> dn_pte ` set ns" using Cons.prems(2) Some by auto
    have "\<exists>ns' mg'. dc1_clean_nodes mgr_store ns mg1 = Inr (ns', mg') \<and> mgr_ok rinv rcap qrep mg' \<and>
       (\<forall>r. rc mg' r = rc mg1 r - (if Some r \<in> dn_pte ` set ns then 1 else 0))"
    proof (rule Cons.IH [OF m(2)])
      fix n' r' assume a: "n' \<in> set ns" "dn_pte n' = Some r'"
      then have "r' \<noteq> r" using notin by force
      then show "dn_count n' = 0 \<and> 0 < rc mg1 r'" using Cons.prems(3) [of n' r'] a rc1 by simp
    qed (use Cons.prems(2) in simp)
    then obtain ns' mg' where c: "dc1_clean_nodes mgr_store ns mg1 = Inr (ns', mg')" "mgr_ok rinv rcap qrep mg'"
      "\<And>r. rc mg' r = rc mg1 r - (if Some r \<in> dn_pte ` set ns then 1 else 0)" by blast
    have "rc mg' r' = rc mg r' - (if Some r' \<in> dn_pte ` set (n # ns) then 1 else 0)" for r'
      using c(3) [of r'] rc1 [of r'] notin Some by (cases "r' = r") auto
    then show ?thesis using Some n(1) m(1) c(1,2) by simp
  qed
qed simp

lemma dc1_Clean_ok:
  assumes ok: "mgr_ok rinv rcap qrep mg" and b: "balanced mg dc {#} {#}"
  obtains dc' mg' where "dc1_Clean mgr_store dc mg = Inr (True, dc', mg')" "mgr_ok rinv rcap qrep mg'" "\<And>r. rc mg' r = 0"
proof -
  note d = balancedD [OF b]
  have "nodes_distinct (dc_nodes dc)"
  proof (rule nodes_distinctI)
    fix i j :: nat assume ij: "i < j" "j < length (dc_nodes dc)"
    show "dn_pte (dc_nodes dc ! i) = None \<or> dn_pte (dc_nodes dc ! j) \<noteq> dn_pte (dc_nodes dc ! i)"
      using d(4) [of i] d(4) [of j] ij d(1) by (cases "dn_pte (dc_nodes dc ! i)") force+
  qed
  moreover have "dn_count n = 0 \<and> 0 < rc mg r" if n: "n \<in> set (dc_nodes dc)" "dn_pte n = Some r" for n r
  proof -
    obtain i where i: "i < dc_capacity dc" "dc_nodes dc ! i = n" using n(1) d(1) by (auto simp: in_set_conv_nth)
    then show ?thesis using d(4) [OF i(1), of r] n(2) by (simp add: unat_eq_0)
  qed
  ultimately obtain ns' mg' where c: "dc1_clean_nodes mgr_store (dc_nodes dc) mg = Inr (ns', mg')" "mgr_ok rinv rcap qrep mg'"
    "\<And>r. rc mg' r = rc mg r - (if Some r \<in> dn_pte ` set (dc_nodes dc) then 1 else 0)"
    using dc1_clean_nodes_ok [OF ok, of "dc_nodes dc"] by blast
  have "rc mg' r = 0" for r
  proof -
    have "r \<in> dc_cached dc \<longleftrightarrow> Some r \<in> dn_pte ` set (dc_nodes dc)"
      by (auto simp: dc_cached_def image_iff) (metis nth_mem, metis in_set_conv_nth)
    then show ?thesis using c(3) [of r] d(6) [of r] by (simp add: cached_in_def)
  qed
  then show thesis using c(1,2) by (intro that) (simp_all add: dc1_Clean_def)
qed

end

lemma rc_CheckValid:
  assumes "\<And>r. rc mg r = 0"
  shows "CheckValid mg"
  unfolding CheckValid_def
proof (intro ballI)
  fix bp w assume "bp \<in> set (mg_pools mg)" "w \<in> set (pti_pool (pt_inner (bp_page_table bp)))"
  then obtain k m where k: "k < length (mg_pools mg)" "mg_pools mg ! k = bp"
    "m < length (pti_pool (pt_inner (bp_page_table bp)))" "pti_pool (pt_inner (bp_page_table bp)) ! m = w"
    by (auto simp: in_set_conv_nth)
  then have "mgr_get mg (PTE_ref k m) = Inr w" by (simp add: mgr_get_eq frames_def pte_of_def)
  then show "pte_ref_count w = 0" using assms [of "PTE_ref k m"] by (simp add: rc_def unat_eq_0)
qed

section \<open>A client\<close>

type_synonym held_block = "file_handle \<times> u64 \<times> u64 \<times> block"

type_synonym 'q client = "held_block list \<times> direct_cache \<times> (sieve3, 'q) manager"

definition held_block :: "held_block \<Rightarrow> block" where
  "held_block h = snd (snd (snd h))"

definition held_slices :: "held_block list \<Rightarrow> slice list" where
  "held_slices hs = concat (map (\<lambda>h. block_slices (held_block h)) hs)"

text \<open>
  A request must lie in an open file and leave a frame of every pool unpinned; the node of the cache counts
  with 16 bits.
\<close>

definition may_get :: "('r, 'q) manager \<Rightarrow> held_block list \<Rightarrow> file_handle \<Rightarrow> u64 \<Rightarrow> u64 \<Rightarrow> bool" where
  "may_get mg hs fd file_offset block_size \<longleftrightarrow> is_open mg fd \<and>
     unat file_offset + unat block_size \<le> file_length mg fd \<and>
     mgr_room mg (num_page file_offset block_size + 1) \<and>
     length (held_slices hs) + num_page file_offset block_size < 65536"

inductive client_step :: "'q queue_ops \<Rightarrow> 'q client \<Rightarrow> 'q client \<Rightarrow> bool" for qops where
  get: "may_get mg hs fd file_offset block_size \<Longrightarrow>
    GetBlockWithDirectCacheSync 4 s3_ops qops mg dc file_offset block_size fd = Inr (blk, dc', mg') \<Longrightarrow>
    client_step qops (hs, dc, mg) ((fd, file_offset, block_size, blk) # hs, dc', mg')"
| give_back: "bb_free mgr_store (held_block h) dc mg = Inr (blk, dc', mg') \<Longrightarrow>
    client_step qops (hs1 @ h # hs2, dc, mg) (hs1 @ hs2, dc', mg')"

inductive_cases client_stepE: "client_step qops c c'"

text \<open>\<open>mg0\<close> is the manager the client has started with; it only reads.\<close>

definition client_inv ::
  "('q \<Rightarrow> frame list \<Rightarrow> bool) \<Rightarrow> (sieve3, 'q) manager \<Rightarrow> 'q client \<Rightarrow> bool" where
  "client_inv qrep mg0 = (\<lambda>(hs, dc, mg).
     mgr_ok s3_inv s3_cap qrep mg \<and> mgr_same mg0 mg \<and>
     balanced mg dc (unmarked (held_slices hs)) (marked (held_slices hs)) \<and>
     (\<forall>(fd, file_offset, block_size, blk)\<in>set hs. is_open mg fd \<and>
        unat file_offset + unat block_size \<le> file_length mg fd \<and> shows_range mg fd file_offset block_size blk))"

lemma marked_append [simp]:
  "unmarked (sls @ sls') = unmarked sls + unmarked sls'" "marked (sls @ sls') = marked sls + marked sls'"
  by (simp_all add: unmarked_def marked_def)

lemma held_slices_simps [simp]:
  "held_slices [] = []" "held_slices (h # hs) = block_slices (held_block h) @ held_slices hs"
  "held_slices (hs @ hs') = held_slices hs @ held_slices hs'"
  by (simp_all add: held_slices_def)

lemma marked_size: "size (marked sls) \<le> length sls"
  by (induction sls) auto

lemma shows_range_keep:
  assumes s: "shows_range mg fd file_offset block_size blk"
    and k: "\<And>r. r \<in># unmarked (block_slices blk) + marked (block_slices blk) \<Longrightarrow> ident mg' r = ident mg r \<and> 0 < rc mg' r"
  shows "shows_range mg' fd file_offset block_size blk"
proof (cases "block_size = 0")
  case False
  then obtain rms where b: "blk = \<lparr>bb_size = unat block_size, bb_page_num = length rms,
        bb_data = Pages (map Some (slices (unat (first_offset file_offset)) rms))\<rparr>"
      "length rms = num_page file_offset block_size" "pins_from mg fd (first_page file_offset) (map fst rms)"
    using s by (auto simp: shows_range_def)
  have sl: "block_slices blk = slices (unat (first_offset file_offset)) rms" by (rule block_slices_pages) (simp add: b(1))
  have "pins_from mg' fd (first_page file_offset) (map fst rms)"
    unfolding pins_from_def
  proof (intro allI impI)
    fix i assume i: "i < length (map fst rms)"
    then have "map fst rms ! i \<in> fst ` set rms" by simp
    then have "map fst rms ! i \<in># unmarked (block_slices blk) + marked (block_slices blk)"
      using marked_refs [of "block_slices blk"] slices_refs [of "unat (first_offset file_offset)" rms] sl by auto
    then show "pins mg' fd (first_page file_offset + word_of_nat i) (map fst rms ! i)"
      using k b(3) i by (auto simp: pins_from_def pins_def)
  qed
  then show ?thesis unfolding shows_range_def using False b(1,2) by (auto intro!: exI [of _ rms])
qed (use s in \<open>simp add: shows_range_def\<close>)

lemma held_marked:
  assumes "h \<in> set hs" "r \<in># unmarked (block_slices (held_block h)) + marked (block_slices (held_block h))"
  shows "r \<in># unmarked (held_slices hs) + marked (held_slices hs)"
  using assms by (induction hs) auto

lemma client_step_inv:
  assumes laws: "fifo_laws qops qrep" and inv: "client_inv qrep mg0 c" and step: "client_step qops c c'"
  shows "client_inv qrep mg0 c'"
  using step inv
proof (cases rule: client_step.cases)
  case (get mg hs fd file_offset block_size dc blk dc' mg')
  let ?U = "unmarked (held_slices hs)" and ?M = "marked (held_slices hs)"
  have i: "mgr_ok s3_inv s3_cap qrep mg" "mgr_same mg0 mg" "balanced mg dc ?U ?M"
    and held: "\<And>fd fo bs b. (fd, fo, bs, b) \<in> set hs \<Longrightarrow> is_open mg fd \<and> unat fo + unat bs \<le> file_length mg fd \<and>
      shows_range mg fd fo bs b"
    using inv get(1) by (auto simp: client_inv_def)
  have m: "is_open mg fd" "unat file_offset + unat block_size \<le> file_length mg fd"
    "mgr_room mg (num_page file_offset block_size + 1)" "size ?M + num_page file_offset block_size < 65536"
    using get(3) marked_size [of "held_slices hs"] by (auto simp: may_get_def)
  obtain blk1 dc1 mg1 where g: "GetBlockWithDirectCacheSync 4 s3_ops qops mg dc file_offset block_size fd = Inr (blk1, dc1, mg1)"
    "mgr_ok s3_inv s3_cap qrep mg1" "mgr_same mg mg1" "shows_range mg1 fd file_offset block_size blk1"
    "balanced mg1 dc1 (?U + unmarked (block_slices blk1)) (?M + marked (block_slices blk1))"
    "\<And>r. r \<in># ?U + ?M \<Longrightarrow> ident mg1 r = ident mg r"
    by (rule sieve3.GetBlockWithDirectCacheSync_ok [OF laws order_refl i(1) m(1,2) i(3) m(3,4)]) blast
  have e: "blk1 = blk" "dc1 = dc'" "mg1 = mg'" using g(1) get(4) by simp_all
  have keep: "is_open mg' fd' \<and> unat fo + unat bs \<le> file_length mg' fd' \<and> shows_range mg' fd' fo bs b"
    if h: "(fd', fo, bs, b) \<in> set hs" for fd' fo bs b
  proof -
    have "shows_range mg' fd' fo bs b"
    proof (rule shows_range_keep)
      show "shows_range mg fd' fo bs b" using held [OF h] by simp
      fix r assume "r \<in># unmarked (block_slices b) + marked (block_slices b)"
      then have r: "r \<in># ?U + ?M" using held_marked [OF h, of r] by (simp add: held_block_def)
      then have "0 < rc mg' r" using balancedD(8) [OF g(5), of r] e by auto
      then show "ident mg' r = ident mg r \<and> 0 < rc mg' r" using g(6) [OF r] e by simp
    qed
    then show ?thesis using held [OF h] g(3) e by (simp add: mgr_same_def)
  qed
  have new: "is_open mg' fd" "unat file_offset + unat block_size \<le> file_length mg' fd"
    using m(1,2) g(3) e by (simp_all add: mgr_same_def)
  have "balanced mg' dc' (unmarked (held_slices ((fd, file_offset, block_size, blk) # hs)))
      (marked (held_slices ((fd, file_offset, block_size, blk) # hs)))"
    using g(5) e by (simp add: held_block_def add.commute)
  then show ?thesis
    unfolding get(2) client_inv_def prod.case
    using g(2,4) e new keep mgr_same_trans [OF i(2) g(3)] by auto
next
  case (give_back h dc mg blk dc' mg' hs1 hs2)
  obtain fd fo bs b where h: "h = (fd, fo, bs, b)" by (cases h)
  let ?hs = "hs1 @ hs2" let ?U = "unmarked (held_slices ?hs)" and ?M = "marked (held_slices ?hs)"
  have i: "mgr_ok s3_inv s3_cap qrep mg" "mgr_same mg0 mg"
    "balanced mg dc (unmarked (held_slices (hs1 @ h # hs2))) (marked (held_slices (hs1 @ h # hs2)))"
    and held: "\<And>fd fo bs b. (fd, fo, bs, b) \<in> set (hs1 @ h # hs2) \<Longrightarrow> is_open mg fd \<and>
      unat fo + unat bs \<le> file_length mg fd \<and> shows_range mg fd fo bs b"
    using inv unfolding give_back(1) client_inv_def prod.case by blast+
  have b: "balanced mg dc (?U + unmarked (block_slices b)) (?M + marked (block_slices b))"
    using i(3) by (simp add: h held_block_def ac_simps)
  have s: "shows_range mg fd fo bs b" using held [of fd fo bs b] h by simp
  obtain b1 dc1 mg1 where f: "bb_free mgr_store b dc mg = Inr (b1, dc1, mg1)" "mgr_ok s3_inv s3_cap qrep mg1"
    "mgr_same mg mg1" "balanced mg1 dc1 ?U ?M" "ident mg1 = ident mg"
    by (rule sieve3.bb_free_ok [OF i(1) s b])
  have e: "dc1 = dc'" "mg1 = mg'" using f(1) give_back(3) by (simp_all add: h held_block_def)
  have keep: "is_open mg' fd' \<and> unat fo' + unat bs' \<le> file_length mg' fd' \<and> shows_range mg' fd' fo' bs' b'"
    if h': "(fd', fo', bs', b') \<in> set ?hs" for fd' fo' bs' b'
  proof -
    have old: "is_open mg fd'" "unat fo' + unat bs' \<le> file_length mg fd'" "shows_range mg fd' fo' bs' b'"
      using held [of fd' fo' bs' b'] h' by auto
    have "shows_range mg' fd' fo' bs' b'"
    proof (rule shows_range_keep [OF old(3)])
      fix r assume "r \<in># unmarked (block_slices b') + marked (block_slices b')"
      then have "r \<in># ?U + ?M" using held_marked [OF h', of r] by (simp add: held_block_def)
      then have "0 < rc mg' r" using balancedD(8) [OF f(4), of r] e by simp
      then show "ident mg' r = ident mg r \<and> 0 < rc mg' r" using f(5) e by simp
    qed
    then show ?thesis using old f(3) e by (simp add: mgr_same_def)
  qed
  then show ?thesis
    unfolding give_back(2) client_inv_def prod.case
    using f(2,4) e mgr_same_trans [OF i(2) f(3)] by auto
qed

lemma client_steps_inv:
  assumes "fifo_laws qops qrep" "(client_step qops)\<^sup>*\<^sup>* c c'" "client_inv qrep mg0 c"
  shows "client_inv qrep mg0 c'"
  using assms(2,3) by (induction rule: rtranclp_induct) (auto intro: client_step_inv [OF assms(1)])

lemma client_start:
  "mgr_ok s3_inv s3_cap qrep mg0 \<Longrightarrow> balanced mg0 dc0 {#} {#} \<Longrightarrow> client_inv qrep mg0 ([], dc0, mg0)"
  by (simp add: client_inv_def)

lemma new_cache_balanced:
  assumes "CheckValid mg" "0 < cap"
  shows "balanced mg (dc1_new cap) {#} {#}"
proof -
  have "rc mg r = 0" for r
  proof (cases "mgr_get mg r")
    case (Inr w)
    then have "w \<in> set (pti_pool (pt_inner (bp_page_table (mg_pools mg ! ref_pool r))))" "ref_pool r < length (mg_pools mg)"
      by (auto simp: mgr_get_eq frames_def pte_of_def)
    then have "pte_ref_count w = 0" using assms(1) unfolding CheckValid_def by fastforce
    then show ?thesis using Inr by (simp add: rc_def)
  qed (simp add: rc_def)
  then show ?thesis
    using assms(2) by (simp add: balanced_def dc1_new_def cached_in_def dc_cached_def empty_node_def)
qed

section \<open>Properties\<close>

text \<open>C3: a block obtained through the direct cache shows the bytes of the file.  When every pin has an owner
  and enough frames are unpinned, \<open>GetBlockWithDirectCacheSync\<close> returns a block whose content is exactly the
  requested range, keeps the invariant and leaves every file as it is.\<close>

theorem GetBlockWithDirectCacheSync_reads:
  assumes "fifo_laws qops qrep" "mgr_ok s3_inv s3_cap qrep mg" "is_open mg fd"
    and "unat file_offset + unat block_size \<le> file_length mg fd" "balanced mg dc U M"
    and "mgr_room mg (num_page file_offset block_size + 1)" "size M + num_page file_offset block_size < 65536"
  shows "\<exists>blk dc' mg'. GetBlockWithDirectCacheSync 4 s3_ops qops mg dc file_offset block_size fd = Inr (blk, dc', mg') \<and>
    bb_content (mgr_mem mg') blk = take (unat block_size) (drop (unat file_offset) (file_bytes mg fd)) \<and>
    mgr_ok s3_inv s3_cap qrep mg' \<and> (\<forall>fd'. is_open mg fd' \<longrightarrow> file_bytes mg' fd' = file_bytes mg fd')"
proof -
  obtain blk dc' mg' where g: "GetBlockWithDirectCacheSync 4 s3_ops qops mg dc file_offset block_size fd = Inr (blk, dc', mg')"
    "mgr_ok s3_inv s3_cap qrep mg'" "mgr_same mg mg'" "shows_range mg' fd file_offset block_size blk"
    by (rule sieve3.GetBlockWithDirectCacheSync_ok [OF assms(1) order_refl assms(2-7)]) blast
  have o: "is_open mg' fd" "unat file_offset + unat block_size \<le> file_length mg' fd"
    using assms(3,4) g(3) by (simp_all add: mgr_same_def)
  show ?thesis
    using g shows_range_content(2) [OF g(2) o g(4)] mgr_same_bytes [OF g(3)] assms(3) by auto
qed

text \<open>C4: a block stays valid while it is held.  Whatever else a client gets and gives back, through evictions
  and reuse of cache nodes, every block in its hands shows the bytes its range had at the start.\<close>

theorem blocks_stay_valid:
  assumes "fifo_laws qops qrep" "mgr_ok s3_inv s3_cap qrep mg0" "CheckValid mg0" "0 < cap"
    and "(client_step qops)\<^sup>*\<^sup>* ([], dc1_new cap, mg0) (hs, dc, mg)" "(fd, file_offset, block_size, blk) \<in> set hs"
  shows "bb_content (mgr_mem mg) blk = take (unat block_size) (drop (unat file_offset) (file_bytes mg0 fd))"
proof -
  have inv: "client_inv qrep mg0 (hs, dc, mg)"
    by (rule client_steps_inv [OF assms(1,5) client_start [OF assms(2) new_cache_balanced [OF assms(3,4)]]])
  then have h: "mgr_ok s3_inv s3_cap qrep mg" "mgr_same mg0 mg" "is_open mg fd"
    "unat file_offset + unat block_size \<le> file_length mg fd" "shows_range mg fd file_offset block_size blk"
    using assms(6) by (auto simp: client_inv_def)
  have "is_open mg0 fd" using h(2,3) by (simp add: mgr_same_def)
  then show ?thesis using shows_range_content(2) [OF h(1,3-5)] mgr_same_bytes [OF h(2)] by simp
qed

text \<open>C5: no pin is lost.  Whenever a client has given back all its blocks, cleaning the direct cache
  leaves every reference count 0, which is what \<open>CheckValid\<close> asserts when the manager is destroyed.\<close>

theorem no_pin_leaks:
  assumes "fifo_laws qops qrep" "mgr_ok s3_inv s3_cap qrep mg0" "CheckValid mg0" "0 < cap"
    and "(client_step qops)\<^sup>*\<^sup>* ([], dc1_new cap, mg0) ([], dc, mg)"
  shows "\<exists>dc' mg'. dc1_Clean mgr_store dc mg = Inr (True, dc', mg') \<and> CheckValid mg'"
proof -
  have "client_inv qrep mg0 ([], dc, mg)"
    by (rule client_steps_inv [OF assms(1,5) client_start [OF assms(2) new_cache_balanced [OF assms(3,4)]]])
  then have i: "mgr_ok s3_inv s3_cap qrep mg" "balanced mg dc {#} {#}" by (simp_all add: client_inv_def)
  obtain dc' mg' where "dc1_Clean mgr_store dc mg = Inr (True, dc', mg')" "\<And>r. rc mg' r = 0"
    by (rule sieve3.dc1_Clean_ok [OF i]) blast
  then show ?thesis using rc_CheckValid by blast
qed

text \<open>A client of the small manager.\<close>

lemma small_client:
  obtains r blk dc mg dc' mg' where "mgr_ok s3_inv s3_cap (=) (small_mgr r)" "CheckValid (small_mgr r)"
    "is_open (small_mgr r) 0" "file_length (small_mgr r) 0 = 5000" "mgr_room (small_mgr r) (num_page 10 20 + 1)"
    "(client_step list_queue)\<^sup>*\<^sup>* ([], dc1_new 2048, small_mgr r) ([(0, 10, 20, blk)], dc, mg)"
    "(client_step list_queue)\<^sup>*\<^sup>* ([], dc1_new 2048, small_mgr r) ([], dc', mg')"
proof -
  obtain r where r: "mgr_ok s3_inv s3_cap (=) (small_mgr r)" "is_open (small_mgr r) 0" "file_length (small_mgr r) 0 = 5000"
    by (rule small_mgr_ok)
  have np: "num_page 10 20 = 1" by code_simp
  have un: "\<not> pinned small_pt m" if "m < 2" for m
    using that by (auto simp: pinned_def less_2_cases_iff small_pt_sel mk_pte_def pt_simps EMPTY_PTE_ref)
  have "{m. m < frames small_pt \<and> \<not> pinned small_pt m} = {..<2}" using un by (auto simp: small_pt_sel)
  then have "room small_pt 2" using un by (simp add: room_def small_pt_sel pinned_def)
  then have room: "mgr_room (small_mgr r) (num_page 10 20 + 1)" unfolding np by (simp add: mgr_room_def small_mgr_def numeral_2_eq_2)
  have cv: "CheckValid (small_mgr r)"
    by (simp add: CheckValid_def small_mgr_def small_pt_def mk_pte_def pt_simps EMPTY_PTE_ref)
  have b: "balanced (small_mgr r) (dc1_new 2048) {#} {#}" by (rule new_cache_balanced [OF cv]) simp
  have req: "unat (10 :: u64) + unat (20 :: u64) \<le> file_length (small_mgr r) 0" "size ({#} :: pte_ref multiset) + num_page 10 20 < 65536"
    using r(3) np by simp_all
  obtain blk dc mg where g: "GetBlockWithDirectCacheSync 4 s3_ops list_queue (small_mgr r) (dc1_new 2048) 10 20 0 = Inr (blk, dc, mg)"
    "mgr_ok s3_inv s3_cap (=) mg" "shows_range mg 0 10 20 blk"
    "balanced mg dc ({#} + unmarked (block_slices blk)) ({#} + marked (block_slices blk))"
    by (rule sieve3.GetBlockWithDirectCacheSync_ok [OF list_queue_laws order_refl r(1,2) req(1) b room req(2)]) blast
  have s1: "client_step list_queue ([], dc1_new 2048, small_mgr r) ([(0, 10, 20, blk)], dc, mg)"
    using r(2) req room g(1) by (intro client_step.get) (simp_all add: may_get_def)
  obtain blk' dc' mg' where f: "bb_free mgr_store blk dc mg = Inr (blk', dc', mg')"
    by (rule sieve3.bb_free_ok [OF g(2-4)])
  have s2: "client_step list_queue ([(0, 10, 20, blk)], dc, mg) ([], dc', mg')"
    using client_step.give_back [of "(0, 10, 20, blk)" dc mg blk' dc' mg' list_queue "[]" "[]"] f by (simp add: held_block_def)
  show thesis
    by (rule that [OF r(1) cv r(2,3) room _ _]) (use s1 s2 in \<open>auto intro: converse_rtranclp_into_rtranclp\<close>)
qed

lemma GetBlockWithDirectCacheSync_reads_witness:
  "\<exists>r blk dc' mg'. GetBlockWithDirectCacheSync 4 s3_ops list_queue (small_mgr r) (dc1_new 2048) 10 20 0 = Inr (blk, dc', mg') \<and>
     bb_content (mgr_mem mg') blk = take 20 (drop 10 (file_bytes (small_mgr r) 0))"
proof -
  obtain r where r: "mgr_ok s3_inv s3_cap (=) (small_mgr r)" "CheckValid (small_mgr r)" "is_open (small_mgr r) 0"
    "file_length (small_mgr r) 0 = 5000" "mgr_room (small_mgr r) (num_page 10 20 + 1)"
    by (rule small_client) blast
  have b: "balanced (small_mgr r) (dc1_new 2048) {#} {#}" by (rule new_cache_balanced [OF r(2)]) simp
  have np: "num_page 10 20 = 1" by code_simp
  have req: "unat (10 :: u64) + unat (20 :: u64) \<le> file_length (small_mgr r) 0" "size ({#} :: pte_ref multiset) + num_page 10 20 < 65536"
    using r(4) np by simp_all
  show ?thesis
    using GetBlockWithDirectCacheSync_reads [OF list_queue_laws r(1,3) req(1) b r(5) req(2)] by auto
qed

lemma blocks_stay_valid_witness:
  "\<exists>r blk dc mg. (client_step list_queue)\<^sup>*\<^sup>* ([], dc1_new 2048, small_mgr r) ([(0, 10, 20, blk)], dc, mg) \<and>
     bb_content (mgr_mem mg) blk = take 20 (drop 10 (file_bytes (small_mgr r) 0))"
proof -
  obtain r blk dc mg where r: "mgr_ok s3_inv s3_cap (=) (small_mgr r)" "CheckValid (small_mgr r)"
    "(client_step list_queue)\<^sup>*\<^sup>* ([], dc1_new 2048, small_mgr r) ([(0, 10, 20, blk)], dc, mg)"
    by (rule small_client) blast
  show ?thesis using blocks_stay_valid [OF list_queue_laws r(1,2) _ r(3), of 0 10 20 blk] r(3) by auto
qed

lemma no_pin_leaks_witness:
  "\<exists>r dc mg dc' mg'. (client_step list_queue)\<^sup>*\<^sup>* ([], dc1_new 2048, small_mgr r) ([], dc, mg) \<and>
     dc1_Clean mgr_store dc mg = Inr (True, dc', mg') \<and> CheckValid mg'"
proof -
  obtain r dc mg where r: "mgr_ok s3_inv s3_cap (=) (small_mgr r)" "CheckValid (small_mgr r)"
    "(client_step list_queue)\<^sup>*\<^sup>* ([], dc1_new 2048, small_mgr r) ([], dc, mg)"
    by (rule small_client) blast
  have "\<exists>dc' mg'. dc1_Clean mgr_store dc mg = Inr (True, dc', mg') \<and> CheckValid mg'"
    by (rule no_pin_leaks [OF list_queue_laws r(1,2) _ r(3)]) simp
  then show ?thesis using r(3) by blast
qed

end
