(* ===== verification/MemoryPool.thy ===== *)
theory MemoryPool
  imports Manager
begin

text \<open>
  The memory of the frames (\<^verbatim>\<open>include/memory_pool.h\<close>): one allocation that the manager cuts into the
  parts of its pools.  A pointer is a 64-bit address and the memory a function on addresses.  The other
  theories give a pool a list of frames instead; \<open>frames_of\<close> reads that list off the memory, and the lemmas
  show that cutting, reading and writing agree.
\<close>

section \<open>The class\<close>

record memory_pool =
  mp_num_pages :: u32
  mp_pool :: u64
  mp_need_free :: bool

definition mp_empty :: memory_pool where
  "mp_empty = \<lparr>mp_num_pages = 0, mp_pool = 0, mp_need_free = False\<rparr>"

text \<open>\<open>base\<close> is the address that \<open>aligned_alloc\<close> returned.\<close>

definition mp_new :: "u64 \<Rightarrow> u32 \<Rightarrow> memory_pool" where
  "mp_new base num_pages = \<lparr>mp_num_pages = num_pages, mp_pool = base, mp_need_free = True\<rparr>"

text \<open>\<open>Move\<close> gives the source and the destination; copying and assigning move, too.\<close>

definition mp_Move :: "memory_pool \<Rightarrow> memory_pool \<Rightarrow> memory_pool \<times> memory_pool" where
  "mp_Move src dst =
     (let dst = dst\<lparr>mp_num_pages := mp_num_pages src, mp_pool := mp_pool src, mp_need_free := mp_need_free src\<rparr>
      in (src\<lparr>mp_need_free := False, mp_pool := 0\<rparr>, dst))"

definition mp_copy :: "memory_pool \<Rightarrow> memory_pool \<times> memory_pool" where
  "mp_copy src = mp_Move src mp_empty"

text \<open>The address that the destructor frees.\<close>

definition mp_destroy :: "memory_pool \<Rightarrow> u64 option" where
  "mp_destroy mp = (if mp_need_free mp then Some (mp_pool mp) else None)"

definition GetSubPool :: "memory_pool \<Rightarrow> u32 \<Rightarrow> u32 \<Rightarrow> memory_pool" where
  "GetSubPool mp start_page_id page_num =
     \<lparr>mp_num_pages = page_num, mp_pool = mp_pool mp + ucast start_page_id * word_of_nat PAGE_SIZE_FILE,
      mp_need_free = False\<rparr>"

definition mp_FromPageId :: "memory_pool \<Rightarrow> u32 \<Rightarrow> u64" where
  "mp_FromPageId mp mpage_id = mp_pool mp + ucast mpage_id * word_of_nat PAGE_SIZE_FILE"

definition mp_ToPageId :: "memory_pool \<Rightarrow> u64 \<Rightarrow> u32" where
  "mp_ToPageId mp ptr = ucast (signed_drop_bit LOG_PAGE_SIZE_FILE (ptr - mp_pool mp))"

definition mp_GetSize :: "memory_pool \<Rightarrow> u32" where
  "mp_GetSize mp = mp_num_pages mp"

definition GetPool :: "memory_pool \<Rightarrow> u64" where
  "GetPool mp = mp_pool mp"

section \<open>Addresses\<close>

text \<open>The pool lies inside the address space.\<close>

definition mp_fits :: "memory_pool \<Rightarrow> bool" where
  "mp_fits mp \<longleftrightarrow> unat (mp_pool mp) + unat (mp_num_pages mp) * PAGE_SIZE_FILE \<le> 2 ^ 64"

definition frame_byte :: "memory_pool \<Rightarrow> nat \<Rightarrow> nat \<Rightarrow> u64" where
  "frame_byte mp m k = mp_FromPageId mp (word_of_nat m) + word_of_nat k"

definition frames_of :: "(u64 \<Rightarrow> byte) \<Rightarrow> memory_pool \<Rightarrow> byte list list" where
  "frames_of mem mp =
     map (\<lambda>m. map (\<lambda>k. mem (frame_byte mp m k)) [0..<PAGE_SIZE_FILE]) [0..<unat (mp_num_pages mp)]"

lemma unat_add_of_nat:
  assumes "unat (a :: u64) + n < 2 ^ 64"
  shows "unat (a + word_of_nat n) = unat a + n"
proof -
  have "unat (word_of_nat n :: u64) = n" using assms by (simp add: unat_of_nat)
  then show ?thesis using assms by (simp add: unat_word_ariths)
qed

lemma frame_byte_nat: "frame_byte mp m k = mp_pool mp + word_of_nat (m mod 2 ^ 32 * PAGE_SIZE_FILE + k)"
proof -
  have "(ucast (word_of_nat m :: u32) :: u64) = word_of_nat (m mod 2 ^ 32)"
    by (simp add: word_unat_eq_iff unsigned_ucast_eq unat_of_nat take_bit_eq_mod mod_mod_cancel)
  then show ?thesis by (simp add: frame_byte_def mp_FromPageId_def add.assoc)
qed

lemma unat_num_pages: "unat (mp_num_pages mp) < 2 ^ 32"
  by (rule order_less_le_trans [OF unsigned_less]) simp

lemma frame_byte_unat:
  assumes "mp_fits mp" "m < unat (mp_num_pages mp)" "k < PAGE_SIZE_FILE"
  shows "unat (frame_byte mp m k) = unat (mp_pool mp) + m * PAGE_SIZE_FILE + k"
proof -
  have m: "m < 2 ^ 32" using assms(2) unat_num_pages [of mp] by simp
  have "(m + 1) * PAGE_SIZE_FILE \<le> unat (mp_num_pages mp) * PAGE_SIZE_FILE" using assms(2) by (intro mult_le_mono1) simp
  then have lt: "unat (mp_pool mp) + (m * PAGE_SIZE_FILE + k) < 2 ^ 64" using assms(1,3) by (simp add: mp_fits_def)
  show ?thesis using m unat_add_of_nat [OF lt] by (simp add: frame_byte_nat del: of_nat_add of_nat_mult)
qed

text \<open>Frame \<open>m\<close> of a part is frame \<open>s + m\<close> of the whole, whatever wraps around.\<close>

lemma frame_byte_sub:
  assumes "unat s + m < 2 ^ 32"
  shows "frame_byte (GetSubPool mp s n) m k = frame_byte mp (unat s + m) k"
  using assms by (simp add: frame_byte_nat GetSubPool_def distrib_right)

lemma frames_of_sub:
  assumes "unat s + unat n \<le> unat (mp_num_pages mp)"
  shows "frames_of mem (GetSubPool mp s n) = sub_pool (frames_of mem mp) (unat s) (unat n)"
proof -
  have "frame_byte (GetSubPool mp s n) m k = frame_byte mp (unat s + m) k" if "m < unat n" for m k
    using assms that unat_num_pages [of mp] by (intro frame_byte_sub) simp
  then show ?thesis
    using assms by (intro nth_equalityI) (auto simp: frames_of_def sub_pool_def GetSubPool_def)
qed

section \<open>The parts of the pools\<close>

text \<open>What the manager gives to pool \<open>i\<close> of its pools of \<open>sz\<close> frames.\<close>

definition part :: "memory_pool \<Rightarrow> nat \<Rightarrow> nat \<Rightarrow> memory_pool" where
  "part mp sz i = GetSubPool mp (word_of_nat (sz * i)) (word_of_nat sz)"

lemma frame_byte_inj:
  assumes "mp_fits mp" "m < unat (mp_num_pages mp)" "m' < unat (mp_num_pages mp)"
    "k < PAGE_SIZE_FILE" "k' < PAGE_SIZE_FILE" "frame_byte mp m k = frame_byte mp m' k'"
  shows "m = m' \<and> k = k'"
proof -
  have "m * PAGE_SIZE_FILE + k = m' * PAGE_SIZE_FILE + k'"
    using frame_byte_unat [OF assms(1,2,4)] frame_byte_unat [OF assms(1,3,5)] assms(6) by simp
  then have "(m * PAGE_SIZE_FILE + k) div PAGE_SIZE_FILE = (m' * PAGE_SIZE_FILE + k') div PAGE_SIZE_FILE"
    "(m * PAGE_SIZE_FILE + k) mod PAGE_SIZE_FILE = (m' * PAGE_SIZE_FILE + k') mod PAGE_SIZE_FILE" by simp_all
  then show ?thesis using assms(4,5) by (simp add: PAGE_SIZE_FILE_def)
qed

lemma frames_of_write:
  assumes "mp_fits mp" "m < unat (mp_num_pages mp)" "k < PAGE_SIZE_FILE"
  shows "frames_of (mem(frame_byte mp m k := b)) mp =
    (frames_of mem mp)[m := (frames_of mem mp ! m)[k := b]]"
proof (rule nth_equalityI)
  fix i assume "i < length (frames_of (mem(frame_byte mp m k := b)) mp)"
  then have i: "i < unat (mp_num_pages mp)" by (simp add: frames_of_def)
  have e: "frame_byte mp i j = frame_byte mp m k \<longleftrightarrow> i = m \<and> j = k" if "j < PAGE_SIZE_FILE" for j
    using frame_byte_inj [OF assms(1) i assms(2) that assms(3)] by auto
  show "frames_of (mem(frame_byte mp m k := b)) mp ! i = (frames_of mem mp)[m := (frames_of mem mp ! m)[k := b]] ! i"
    using i e assms(2) by (intro nth_equalityI) (auto simp: frames_of_def nth_list_update)
qed (simp add: frames_of_def)

lemma signed_drop_bit_nonneg:
  fixes w :: u64
  assumes "unat w < 2 ^ 63"
  shows "signed_drop_bit n w = drop_bit n w"
proof (rule bit_word_eqI)
  fix i assume i: "i < LENGTH(64)"
  have high: "\<not> bit w j" if "63 \<le> j" for j
  proof -
    have "unat w < 2 ^ j" using assms that by (meson less_le_trans one_le_numeral power_increasing)
    then have "\<not> bit (unat w) j" by (simp add: bit_iff_odd)
    then show ?thesis by (auto simp: bit_unsigned_iff dest: bit_imp_le_length)
  qed
  show "bit (signed_drop_bit n w) i \<longleftrightarrow> bit (drop_bit n w) i"
    using i high [of 63] high [of "n + i"] by (auto simp: bit_signed_drop_bit_iff bit_drop_bit_eq)
qed

lemma ToPageId_FromPageId:
  assumes "k < PAGE_SIZE_FILE"
  shows "mp_ToPageId mp (mp_FromPageId mp m + word_of_nat k) = m"
proof -
  have m: "unat m < 2 ^ 32" by (rule order_less_le_trans [OF unsigned_less]) simp
  have e: "mp_FromPageId mp m + word_of_nat k - mp_pool mp = word_of_nat (unat m * PAGE_SIZE_FILE + k)"
    by (simp add: mp_FromPageId_def)
  have u: "unat (word_of_nat (unat m * PAGE_SIZE_FILE + k) :: u64) = unat m * PAGE_SIZE_FILE + k"
    unfolding unat_of_nat using m assms by (simp add: PAGE_SIZE_FILE_def)
  have "unat (drop_bit LOG_PAGE_SIZE_FILE (word_of_nat (unat m * PAGE_SIZE_FILE + k) :: u64)) = unat m"
    unfolding unsigned_drop_bit_eq u using m assms by (simp add: drop_bit_eq_div PAGE_SIZE_FILE_def LOG_PAGE_SIZE_FILE_def take_bit_eq_mod)
  then have "ucast (drop_bit LOG_PAGE_SIZE_FILE (word_of_nat (unat m * PAGE_SIZE_FILE + k) :: u64)) = m"
    by (simp only: word_unat_eq_iff unsigned_ucast_eq) (use m in \<open>simp add: take_bit_nat_eq_self_iff\<close>)
  moreover have "unat m * PAGE_SIZE_FILE + k < 2 ^ 63" using m assms by (simp add: PAGE_SIZE_FILE_def)
  ultimately show ?thesis unfolding mp_ToPageId_def e by (simp only: signed_drop_bit_nonneg u)
qed

lemma part_page:
  assumes size: "sz * n \<le> unat (mp_num_pages mp)" and "i < n" "m < sz"
  shows "frame_byte (part mp sz i) m k = frame_byte mp (sz * i + m) k"
    and "sz * i + m < unat (mp_num_pages mp)" and "unat (mp_num_pages (part mp sz i)) = sz"
proof -
  have "sz * (i + 1) \<le> sz * n" using assms(2) by (intro mult_le_mono2) simp
  then show lt: "sz * i + m < unat (mp_num_pages mp)" using assms(3) size by simp
  have b: "sz * i < 2 ^ 32" "sz * i + m < 2 ^ 32" "sz < 2 ^ 32"
    using lt \<open>sz * (i + 1) \<le> sz * n\<close> size unat_num_pages [of mp] by simp_all
  have u: "unat (word_of_nat (sz * i) :: u32) = sz * i" unfolding unat_of_nat using b(1) by simp
  show "frame_byte (part mp sz i) m k = frame_byte mp (sz * i + m) k"
    using frame_byte_sub [of "word_of_nat (sz * i)" m mp "word_of_nat sz" k] b(2) by (simp only: u part_def)
  show "unat (mp_num_pages (part mp sz i)) = sz"
    unfolding part_def GetSubPool_def using b(3) by (simp add: unat_of_nat)
qed

section \<open>Properties\<close>

text \<open>C34: the parts of the pools do not overlap.  Writing byte \<open>k\<close> of frame \<open>m\<close> of pool \<open>i\<close> changes that byte in
  the list of frames of pool \<open>i\<close> and no frame of another pool; and the list of a pool is the range of the
  list of the whole memory that the manager's model cuts out.\<close>

theorem pools_do_not_overlap:
  assumes "mp_fits mp" "sz * n \<le> unat (mp_num_pages mp)" "i < n" "j < n" "m < sz" "k < PAGE_SIZE_FILE"
  shows "frames_of (mem(frame_byte (part mp sz i) m k := b)) (part mp sz j) =
      (if j = i then (frames_of mem (part mp sz i))[m := (frames_of mem (part mp sz i) ! m)[k := b]]
       else frames_of mem (part mp sz j)) \<and>
    frames_of mem (part mp sz j) = sub_pool (frames_of mem mp) (sz * j) sz"
proof (rule conjI)
  note pi = part_page [OF assms(2,3)] and pj = part_page [OF assms(2,4)]
  have n: "length (frames_of mem (part mp sz l)) = sz" if "l = i \<or> l = j" for mem l
    using pi(3) [OF assms(5)] pj(3) [OF assms(5)] that by (auto simp: frames_of_def)
  have eq: "frame_byte (part mp sz j) m' k' = frame_byte (part mp sz i) m k \<longleftrightarrow> j = i \<and> m' = m \<and> k' = k"
    if "m' < sz" "k' < PAGE_SIZE_FILE" for m' k'
  proof
    assume "frame_byte (part mp sz j) m' k' = frame_byte (part mp sz i) m k"
    then have "sz * j + m' = sz * i + m \<and> k' = k"
      using frame_byte_inj [OF assms(1) pj(2) [OF that(1)] pi(2) [OF assms(5)] that(2) assms(6)]
        pj(1) [OF that(1), of k'] pi(1) [OF assms(5), of k] by simp
    moreover have "(sz * j + m') div sz = j" "(sz * i + m) div sz = i" "(sz * j + m') mod sz = m'" "(sz * i + m) mod sz = m"
      using that(1) assms(5) by simp_all
    ultimately show "j = i \<and> m' = m \<and> k' = k" by metis
  qed simp
  show "frames_of (mem(frame_byte (part mp sz i) m k := b)) (part mp sz j) =
      (if j = i then (frames_of mem (part mp sz i))[m := (frames_of mem (part mp sz i) ! m)[k := b]]
       else frames_of mem (part mp sz j))"
    (is "?l = ?r")
  proof (rule nth_equalityI)
    show "length ?l = length ?r" using n by simp
    fix l assume "l < length ?l"
    then have l: "l < sz" using n by simp
    show "?l ! l = ?r ! l"
      using l eq [OF l] pi(3) [OF assms(5)] pj(3) [OF assms(5)] assms(5)
      by (intro nth_equalityI) (auto simp: frames_of_def nth_list_update)
  qed
  have "sz * j < 2 ^ 32" using pj(2) [OF assms(5)] unat_num_pages [of mp] by simp
  then have u: "unat (word_of_nat (sz * j) :: u32) = sz * j" "unat (word_of_nat sz :: u32) = sz"
    using pj(3) [OF assms(5)] by (simp_all only: unat_of_nat part_def GetSubPool_def memory_pool.simps) simp_all
  have "sz * (j + 1) \<le> sz * n" using assms(4) by (intro mult_le_mono2) simp
  then show "frames_of mem (part mp sz j) = sub_pool (frames_of mem mp) (sz * j) sz"
    using frames_of_sub [of "word_of_nat (sz * j)" "word_of_nat sz" mp mem] assms(2) unfolding part_def u by simp
qed

lemma pools_do_not_overlap_witness:
  "frames_of ((\<lambda>_. 0)(frame_byte (part (mp_new 4096 8) 2 1) 0 5 := 9)) (part (mp_new 4096 8) 2 3) =
     frames_of (\<lambda>_. 0) (part (mp_new 4096 8) 2 3) \<and>
   frames_of (\<lambda>_. 0) (part (mp_new 4096 8) 2 3) = sub_pool (frames_of (\<lambda>_. 0) (mp_new 4096 8)) 6 2"
  using pools_do_not_overlap [of "mp_new 4096 8" 2 4 1 3 0 5 "\<lambda>_. 0" 9]
  by (simp add: mp_fits_def mp_new_def PAGE_SIZE_FILE_def)

text \<open>Turning a frame number into a pointer and any pointer into that frame back gives the number.\<close>

theorem frame_pointer_roundtrip:
  assumes "k < PAGE_SIZE_FILE"
  shows "mp_ToPageId mp (mp_FromPageId mp m + word_of_nat k) = m"
  using assms by (rule ToPageId_FromPageId)

lemma frame_pointer_roundtrip_witness:
  "mp_ToPageId (mp_new 8192 16) (mp_FromPageId (mp_new 8192 16) 7 + 100) = 7"
  using frame_pointer_roundtrip [of 100 "mp_new 8192 16" 7] by (simp add: PAGE_SIZE_FILE_def)

end
