(* ===== verification/Servers.thy ===== *)
theory Servers
  imports Requests Sieve "HOL-Library.Multiset"
begin

text \<open>
  The server threads: the I/O server (\<^verbatim>\<open>include/io_server.h\<close>), the request loop of a pool
  (\<^verbatim>\<open>include/buffer_pool.h\<close>) and the eviction server (\<^verbatim>\<open>include/eviction_server.h\<close>).  Each has a channel that
  its clients push requests into and a ring of slots with the requests in work; the thread goes round the
  slots, calls \<open>ProcessFunc\<close> on each request and replaces a request that is done by the next of the channel.
  The channel is a bounded queue of the Boost library: a parameter whose documented behaviour is
  \<open>channel_laws\<close>.  The locale \<open>request_server\<close> states what the loop needs of \<open>ProcessFunc\<close> and proves that no
  request is lost, answered twice or left waiting; it is interpreted on the I/O server.
\<close>

section \<open>Channels\<close>

record ('c, 'a) channel_ops =
  ch_push :: "'c \<Rightarrow> 'a \<Rightarrow> bool \<times> 'c"
  ch_pop :: "'c \<Rightarrow> ('a \<times> 'c) option"
  ch_empty :: "'c \<Rightarrow> bool"

text \<open>\<open>crep c xs\<close>: the channel holds \<open>xs\<close>, the oldest first; a push fails when \<open>cap\<close> requests are inside.\<close>

definition channel_laws :: "('c, 'a) channel_ops \<Rightarrow> ('c \<Rightarrow> 'a list \<Rightarrow> bool) \<Rightarrow> nat \<Rightarrow> bool" where
  "channel_laws cops crep cap \<longleftrightarrow>
     (\<forall>c xs x. crep c xs \<longrightarrow>
       (if length xs < cap then fst (ch_push cops c x) \<and> crep (snd (ch_push cops c x)) (xs @ [x])
        else ch_push cops c x = (False, c))) \<and>
     (\<forall>c. crep c [] \<longrightarrow> ch_pop cops c = None) \<and>
     (\<forall>c x xs. crep c (x # xs) \<longrightarrow> (\<exists>c'. ch_pop cops c = Some (x, c') \<and> crep c' xs)) \<and>
     (\<forall>c xs. crep c xs \<longrightarrow> (ch_empty cops c \<longleftrightarrow> xs = []))"

definition list_channel :: "nat \<Rightarrow> ('a list, 'a) channel_ops" where
  "list_channel cap =
     \<lparr>ch_push = (\<lambda>xs x. if length xs < cap then (True, xs @ [x]) else (False, xs)),
      ch_pop = (\<lambda>xs. case xs of [] \<Rightarrow> None | x # xs \<Rightarrow> Some (x, xs)), ch_empty = (\<lambda>xs. xs = [])\<rparr>"

lemma list_channel_laws: "channel_laws (list_channel cap) (=) cap"
  by (simp add: channel_laws_def list_channel_def)

text \<open>\<open>SendRequest\<close>: a blocked one tries until the push succeeds.\<close>

fun push_until :: "nat \<Rightarrow> ('c, 'a) channel_ops \<Rightarrow> 'c \<Rightarrow> 'a \<Rightarrow> 'c res" where
  "push_until 0 cops ch r = Inl OutOfFuel"
| "push_until (Suc fuel) cops ch r =
     (case ch_push cops ch r of (ok, ch) \<Rightarrow> if ok then Inr ch else push_until fuel cops ch r)"

lemma push_until_room:
  assumes "channel_laws cops crep cap" "crep c xs" "length xs < cap" "0 < fuel"
  obtains c' where "push_until fuel cops c x = Inr c'" "crep c' (xs @ [x])"
proof -
  have "fst (ch_push cops c x) \<and> crep (snd (ch_push cops c x)) (xs @ [x])"
    using assms(1-3) unfolding channel_laws_def by meson
  then show thesis using assms(4) that by (cases fuel; cases "ch_push cops c x") simp_all
qed

definition SendRequest :: "nat \<Rightarrow> ('c, 'a) channel_ops \<Rightarrow> 'c \<Rightarrow> 'a option \<Rightarrow> bool \<Rightarrow> (bool \<times> 'c) res" where
  "SendRequest fuel cops ch req blocked =
     (case req of None \<Rightarrow> Inr (False, ch)
      | Some r \<Rightarrow> if blocked then bindE (push_until fuel cops ch r) (\<lambda>ch. Inr (True, ch))
          else Inr (ch_push cops ch r))"

section \<open>One slot and one round\<close>

definition take_request :: "('c, 'a) channel_ops \<Rightarrow> 'a option \<Rightarrow> 'c \<Rightarrow> 'a option \<times> 'c" where
  "take_request cops slot ch =
     (case slot of Some r \<Rightarrow> (Some r, ch)
      | None \<Rightarrow> (case ch_pop cops ch of None \<Rightarrow> (None, ch) | Some (r, ch) \<Rightarrow> (Some r, ch)))"

type_synonym ('a, 's) process = "'a \<Rightarrow> 's \<Rightarrow> (bool \<times> 'a \<times> 's) res"

text \<open>\<open>post\<close> is what the loop does with a request that is done: it posts the message of the request,
  sets its flag or destroys it, which fulfils its promise.\<close>

definition serve_slot ::
  "('a, 's) process \<Rightarrow> ('a \<Rightarrow> 's \<Rightarrow> 's res) \<Rightarrow> ('c, 'a) channel_ops \<Rightarrow> 'a option \<Rightarrow> 'c \<Rightarrow> 's \<Rightarrow>
   ('a option \<times> 'c \<times> 's) res" where
  "serve_slot proc post cops slot ch s =
     (case take_request cops slot ch of
        (None, ch) \<Rightarrow> Inr (None, ch, s)
      | (Some r, ch) \<Rightarrow>
          bindE (proc r s) (\<lambda>(finished, r, s).
          if finished then bindE (post r s) (\<lambda>s.
            case take_request cops None ch of (slot, ch) \<Rightarrow> Inr (slot, ch, s))
          else Inr (Some r, ch, s)))"

text \<open>The loops of a pool and of the manager call \<open>ProcessFunc\<close> on the next request at once and drop its answer.\<close>

definition serve_slot_now ::
  "('a, 's) process \<Rightarrow> ('a \<Rightarrow> 's \<Rightarrow> 's res) \<Rightarrow> ('c, 'a) channel_ops \<Rightarrow> 'a option \<Rightarrow> 'c \<Rightarrow> 's \<Rightarrow>
   ('a option \<times> 'c \<times> 's) res" where
  "serve_slot_now proc post cops slot ch s =
     (case take_request cops slot ch of
        (None, ch) \<Rightarrow> Inr (None, ch, s)
      | (Some r, ch) \<Rightarrow>
          bindE (proc r s) (\<lambda>(finished, r, s).
          if finished then bindE (post r s) (\<lambda>s.
            case take_request cops None ch of
              (None, ch) \<Rightarrow> Inr (None, ch, s)
            | (Some r, ch) \<Rightarrow> bindE (proc r s) (\<lambda>(_, r, s). Inr (Some r, ch, s)))
          else Inr (Some r, ch, s)))"

fun sweep ::
  "('a option \<Rightarrow> 'c \<Rightarrow> 's \<Rightarrow> ('a option \<times> 'c \<times> 's) res) \<Rightarrow> 'a option list \<Rightarrow> 'c \<Rightarrow> 's \<Rightarrow>
   ('a option list \<times> 'c \<times> 's) res" where
  "sweep serve [] ch s = Inr ([], ch, s)"
| "sweep serve (slot # slots) ch s =
     bindE (serve slot ch s) (\<lambda>(slot, ch, s).
     bindE (sweep serve slots ch s) (\<lambda>(slots, ch, s). Inr (slot # slots, ch, s)))"

text \<open>\<open>n\<close> rounds of \<open>while (true)\<close>, after which \<open>stop_\<close> is set.\<close>

fun serve_rounds ::
  "nat \<Rightarrow> ('a option \<Rightarrow> 'c \<Rightarrow> 's \<Rightarrow> ('a option \<times> 'c \<times> 's) res) \<Rightarrow> 'a option list \<Rightarrow> 'c \<Rightarrow> 's \<Rightarrow>
   ('a option list \<times> 'c \<times> 's) res" where
  "serve_rounds 0 serve slots ch s = Inr (slots, ch, s)"
| "serve_rounds (Suc n) serve slots ch s =
     bindE (sweep serve slots ch s) (\<lambda>(slots, ch, s). serve_rounds n serve slots ch s)"

text \<open>
  The thread at slot \<open>i\<close> and its clients: a service of one slot, or a request pushed by a client.  The last
  component is the list of all requests sent.
\<close>

inductive server_step ::
  "('a option \<Rightarrow> 'c \<Rightarrow> 's \<Rightarrow> ('a option \<times> 'c \<times> 's) res) \<Rightarrow> ('c, 'a) channel_ops \<Rightarrow> ('a \<Rightarrow> bool) \<Rightarrow>
   'a option list \<times> nat \<times> 'c \<times> 's \<times> 'a list \<Rightarrow> 'a option list \<times> nat \<times> 'c \<times> 's \<times> 'a list \<Rightarrow> bool"
  for serve :: "'a option \<Rightarrow> 'c \<Rightarrow> 's \<Rightarrow> ('a option \<times> 'c \<times> 's) res" and cops :: "('c, 'a) channel_ops"
    and may :: "'a \<Rightarrow> bool" where
  serve: "i < length slots \<Longrightarrow> serve (slots ! i) ch s = Inr (slot', ch', s') \<Longrightarrow>
    server_step serve cops may (slots, i, ch, s, sent)
      (slots[i := slot'], (i + 1) mod length slots, ch', s', sent)"
| send: "may r \<Longrightarrow> ch_push cops ch r = (True, ch') \<Longrightarrow>
    server_step serve cops may (slots, i, ch, s, sent) (slots, i, ch', s, sent @ [r])"

section \<open>The I/O server\<close>

definition BATCH_SIZE_IO_SERVER :: nat where
  "BATCH_SIZE_IO_SERVER = 48"

definition IO_SERVER_CHANNEL_SIZE :: nat where
  "IO_SERVER_CHANNEL_SIZE = 72"

text \<open>The pool and the files the transfers work on, and the messages posted so far, named by their requests.\<close>

record ('r, 'q) io_world =
  iw_pool :: "('r, 'q) buffer_pool"
  iw_disk :: disk
  iw_posted :: "(u64 \<times> mpage_id \<times> file_handle \<times> bool) list"

definition io_key :: "io_request \<Rightarrow> u64 \<times> mpage_id \<times> file_handle \<times> bool" where
  "io_key io = (io_offset io, io_frame io, io_fd io, io_read io)"

definition io_process :: "('r, 'q) aio \<Rightarrow> (io_request, ('r, 'q) io_world) process" where
  "io_process aio io w =
     bindE (io_ProcessFunc aio (iw_pool w) (iw_disk w) io) (\<lambda>(finished, io, bp, d).
     Inr (finished, io, w\<lparr>iw_pool := bp, iw_disk := d\<rparr>))"

definition io_post :: "io_request \<Rightarrow> ('r, 'q) io_world \<Rightarrow> ('r, 'q) io_world res" where
  "io_post io w = Inr (w\<lparr>iw_posted := iw_posted w @ [io_key io]\<rparr>)"

definition io_serve ::
  "('r, 'q) aio \<Rightarrow> ('c, io_request) channel_ops \<Rightarrow> io_request option \<Rightarrow> 'c \<Rightarrow> ('r, 'q) io_world \<Rightarrow>
   (io_request option \<times> 'c \<times> ('r, 'q) io_world) res" where
  "io_serve aio cops = serve_slot (io_process aio) io_post cops"

definition io_Run ::
  "nat \<Rightarrow> ('r, 'q) aio \<Rightarrow> ('c, io_request) channel_ops \<Rightarrow> 'c \<Rightarrow> ('r, 'q) io_world \<Rightarrow>
   (io_request option list \<times> 'c \<times> ('r, 'q) io_world) res" where
  "io_Run rounds aio cops ch w =
     serve_rounds rounds (io_serve aio cops) (replicate BATCH_SIZE_IO_SERVER None) ch w"

definition io_SendRequest ::
  "nat \<Rightarrow> (io_request \<Rightarrow> nat) \<Rightarrow> ('c, io_request) channel_ops \<Rightarrow> 'c \<Rightarrow> file_handle \<Rightarrow> u64 \<Rightarrow> mpage_id \<Rightarrow> bool \<Rightarrow> bool \<Rightarrow>
   (bool \<times> 'c) res" where
  "io_SendRequest fuel latency cops ch fd offset m is_read blocked =
     SendRequest fuel cops ch (Some (io_Init latency offset m fd is_read)) blocked"

section \<open>What the loop needs of \<open>ProcessFunc\<close>, and what it gives\<close>

text \<open>The requests in slots and channel, in the order of the slots.\<close>

definition slot_list :: "'a option \<Rightarrow> 'a list" where
  "slot_list slot = (case slot of None \<Rightarrow> [] | Some r \<Rightarrow> [r])"

definition waiting :: "'a option list \<Rightarrow> 'a list \<Rightarrow> 'a list" where
  "waiting slots xs = concat (map slot_list slots) @ xs"

lemma slot_list_simps [simp]: "slot_list None = []" "slot_list (Some r) = [r]"
  by (simp_all add: slot_list_def)

lemma take_request_laws:
  assumes "channel_laws cops crep cap" "crep ch xs"
  obtains "take_request cops slot ch = (None, ch)" "slot = None" "xs = []"
  | r ch' xs' where "take_request cops slot ch = (Some r, ch')" "crep ch' xs'" "slot_list slot @ xs = r # xs'"
proof (cases slot)
  case (Some r)
  with assms(2) that(2) show ?thesis by (simp add: take_request_def)
next
  case None
  show ?thesis
  proof (cases xs)
    case Nil
    with None assms that(1) show ?thesis by (simp add: take_request_def channel_laws_def)
  next
    case (Cons x ys)
    have "\<exists>c'. ch_pop cops ch = Some (x, c') \<and> crep c' ys"
      using assms unfolding channel_laws_def Cons by blast
    then obtain c' where "ch_pop cops ch = Some (x, c')" "crep c' ys" by blast
    with None Cons that(2) show ?thesis by (simp add: take_request_def)
  qed
qed

lemma serve_slot_now_cases:
  assumes "serve_slot proc post cops slot ch s = Inr (slot1, ch1, s1)"
  shows "serve_slot_now proc post cops slot ch s = Inr (slot1, ch1, s1) \<or>
    (\<exists>r2. slot1 = Some r2 \<and> serve_slot_now proc post cops slot ch s =
      bindE (proc r2 s1) (\<lambda>(_, r2, s). Inr (Some r2, ch1, s)))"
proof -
  obtain sl c where t: "take_request cops slot ch = (sl, c)" by fastforce
  show ?thesis
  proof (cases sl)
    case None
    with assms t show ?thesis by (simp add: serve_slot_def serve_slot_now_def)
  next
    case (Some r)
    then obtain b r' s' where p: "proc r s = Inr (b, r', s')"
      "(if b then bindE (post r' s') (\<lambda>s. case take_request cops None c of (slot, ch) \<Rightarrow> Inr (slot, ch, s))
        else Inr (Some r', c, s')) = Inr (slot1, ch1, s1)"
      using assms t by (auto simp: serve_slot_def bindE_eq_Inr)
    obtain sl2 c2 where t2: "take_request cops None c = (sl2, c2)" by fastforce
    show ?thesis using p t t2 Some by (cases b; cases sl2) (auto simp: serve_slot_now_def bindE_eq_Inr)
  qed
qed

text \<open>
  \<open>m\<close> bounds the calls a request still takes, \<open>key\<close> names a request throughout its life, \<open>posted\<close> is the
  multiset of the names answered so far, \<open>inv\<close> what the requests keep true of the rest of the program.
\<close>

locale request_server =
  fixes proc :: "('a, 's) process" and post :: "'a \<Rightarrow> 's \<Rightarrow> 's res" and key :: "'a \<Rightarrow> 'k"
    and posted :: "'s \<Rightarrow> 'k multiset" and m :: "'a \<Rightarrow> nat" and inv :: "'s \<Rightarrow> bool" and ok :: "'a \<Rightarrow> bool"
  assumes proc_law: "inv s \<Longrightarrow> ok r \<Longrightarrow>
      \<exists>finished r' s'. proc r s = Inr (finished, r', s') \<and> inv s' \<and> ok r' \<and> key r' = key r \<and> posted s' = posted s \<and>
        (if finished then m r' \<le> m r else m r' < m r)"
    and post_law: "inv s \<Longrightarrow> ok r \<Longrightarrow>
      \<exists>s'. post r s = Inr s' \<and> inv s' \<and> posted s' = add_mset (key r) (posted s)"
begin

definition keys :: "'a list \<Rightarrow> 'k multiset" where
  "keys rs = mset (map key rs)"

definition calls_left :: "'a list \<Rightarrow> nat" where
  "calls_left rs = sum_list (map (\<lambda>r. m r + 1) rs)"

definition serves :: "('c \<Rightarrow> 'a list \<Rightarrow> bool) \<Rightarrow> ('a option \<Rightarrow> 'c \<Rightarrow> 's \<Rightarrow> ('a option \<times> 'c \<times> 's) res) \<Rightarrow> bool" where
  "serves crep serve \<longleftrightarrow>
     (\<forall>slot ch s xs. inv s \<longrightarrow> crep ch xs \<longrightarrow> (\<forall>r\<in>set (slot_list slot @ xs). ok r) \<longrightarrow>
       (\<exists>slot' ch' s' xs'. serve slot ch s = Inr (slot', ch', s') \<and> inv s' \<and> crep ch' xs' \<and>
         (\<forall>r\<in>set (slot_list slot' @ xs'). ok r) \<and>
         keys (slot_list slot' @ xs') + posted s' = keys (slot_list slot @ xs) + posted s \<and>
         (if slot_list slot @ xs = [] then slot' = None \<and> xs' = []
          else calls_left (slot_list slot' @ xs') < calls_left (slot_list slot @ xs))))"

lemma keys_simps [simp]: "keys [] = {#}" "keys (r # rs) = add_mset (key r) (keys rs)" "keys (rs @ qs) = keys rs + keys qs"
  by (simp_all add: keys_def)

lemma calls_left_simps [simp]:
  "calls_left [] = 0" "calls_left (r # rs) = m r + 1 + calls_left rs" "calls_left (rs @ qs) = calls_left rs + calls_left qs"
  by (simp_all add: calls_left_def)

lemma servesD:
  assumes "serves crep serve" "inv s" "crep ch xs" "\<forall>r\<in>set (slot_list slot @ xs). ok r"
  obtains slot' ch' s' xs' where "serve slot ch s = Inr (slot', ch', s')" "inv s'" "crep ch' xs'"
    "\<forall>r\<in>set (slot_list slot' @ xs'). ok r"
    "keys (slot_list slot' @ xs') + posted s' = keys (slot_list slot @ xs) + posted s"
    "if slot_list slot @ xs = [] then slot' = None \<and> xs' = []
     else calls_left (slot_list slot' @ xs') < calls_left (slot_list slot @ xs)"
  using assms unfolding serves_def by blast

lemma serve_slot_serves:
  assumes laws: "channel_laws cops crep cap"
  shows "serves crep (serve_slot proc post cops)"
  unfolding serves_def
proof (intro allI impI)
  fix slot ch s xs
  assume s: "inv s" "crep ch xs" "\<forall>r\<in>set (slot_list slot @ xs). ok r"
  show "\<exists>slot' ch' s' xs'. serve_slot proc post cops slot ch s = Inr (slot', ch', s') \<and> inv s' \<and> crep ch' xs' \<and>
         (\<forall>r\<in>set (slot_list slot' @ xs'). ok r) \<and>
         keys (slot_list slot' @ xs') + posted s' = keys (slot_list slot @ xs) + posted s \<and>
         (if slot_list slot @ xs = [] then slot' = None \<and> xs' = []
          else calls_left (slot_list slot' @ xs') < calls_left (slot_list slot @ xs))"
  proof (cases rule: take_request_laws [OF laws s(2), of slot])
    case 1
    with s show ?thesis by (intro exI [of _ None] exI [of _ ch] exI [of _ s] exI [of _ "[]"]) (simp add: serve_slot_def)
  next
    case (2 r ch1 ys)
    then have r: "ok r" "\<forall>r\<in>set ys. ok r" using s(3) by simp_all
    obtain b r1 s1 where p: "proc r s = Inr (b, r1, s1)" "inv s1" "ok r1" "key r1 = key r" "posted s1 = posted s"
      "if b then m r1 \<le> m r else m r1 < m r"
      using proc_law [OF s(1) r(1)] by blast
    show ?thesis
    proof (cases b)
      case False
      with 2 p r s show ?thesis
        by (intro exI [of _ "Some r1"] exI [of _ ch1] exI [of _ s1] exI [of _ ys]) (simp add: serve_slot_def)
    next
      case True
      obtain s2 where q: "post r1 s1 = Inr s2" "inv s2" "posted s2 = add_mset (key r1) (posted s1)"
        using post_law [OF p(2,3)] by blast
      show ?thesis
      proof (cases rule: take_request_laws [OF laws 2(2), of None])
        case n: 1
        with True 2 p q show ?thesis
          by (intro exI [of _ None] exI [of _ ch1] exI [of _ s2] exI [of _ "[]"]) (simp add: serve_slot_def)
      next
        case n: (2 r2 ch2 zs)
        with True 2 p q r show ?thesis
          by (intro exI [of _ "Some r2"] exI [of _ ch2] exI [of _ s2] exI [of _ zs]) (simp add: serve_slot_def)
      qed
    qed
  qed
qed

lemma serve_slot_now_serves:
  assumes laws: "channel_laws cops crep cap"
  shows "serves crep (serve_slot_now proc post cops)"
  unfolding serves_def
proof (intro allI impI)
  fix slot ch s xs
  assume s: "inv s" "crep ch xs" "\<forall>r\<in>set (slot_list slot @ xs). ok r"
  have slow: "serves crep (serve_slot proc post cops)" by (rule serve_slot_serves [OF laws])
  obtain slot1 ch1 s1 ys where f: "serve_slot proc post cops slot ch s = Inr (slot1, ch1, s1)" "inv s1" "crep ch1 ys"
    "\<forall>r\<in>set (slot_list slot1 @ ys). ok r"
    "keys (slot_list slot1 @ ys) + posted s1 = keys (slot_list slot @ xs) + posted s"
    "if slot_list slot @ xs = [] then slot1 = None \<and> ys = []
     else calls_left (slot_list slot1 @ ys) < calls_left (slot_list slot @ xs)"
    by (rule servesD [OF slow s])
  have now: "serve_slot_now proc post cops slot ch s = Inr (slot1, ch1, s1) \<or>
    (\<exists>r2. slot1 = Some r2 \<and> serve_slot_now proc post cops slot ch s =
      bindE (proc r2 s1) (\<lambda>(_, r2, s). Inr (Some r2, ch1, s)))"
    by (rule serve_slot_now_cases [OF f(1)])
  then show "\<exists>slot' ch' s' xs'. serve_slot_now proc post cops slot ch s = Inr (slot', ch', s') \<and> inv s' \<and> crep ch' xs' \<and>
         (\<forall>r\<in>set (slot_list slot' @ xs'). ok r) \<and>
         keys (slot_list slot' @ xs') + posted s' = keys (slot_list slot @ xs) + posted s \<and>
         (if slot_list slot @ xs = [] then slot' = None \<and> xs' = []
          else calls_left (slot_list slot' @ xs') < calls_left (slot_list slot @ xs))"
  proof (elim disjE exE conjE)
    assume "serve_slot_now proc post cops slot ch s = Inr (slot1, ch1, s1)"
    with f show ?thesis by blast
  next
    fix r2 assume n: "slot1 = Some r2" "serve_slot_now proc post cops slot ch s = bindE (proc r2 s1) (\<lambda>(_, r2, s). Inr (Some r2, ch1, s))"
    then have "ok r2" using f(4) by simp
    then obtain b r3 s2 where p: "proc r2 s1 = Inr (b, r3, s2)" "inv s2" "ok r3" "key r3 = key r2" "posted s2 = posted s1"
      "m r3 \<le> m r2"
      using proc_law [OF f(2)] by (metis less_imp_le)
    then show ?thesis
      using f n by (intro exI [of _ "Some r3"] exI [of _ ch1] exI [of _ s2] exI [of _ ys]) (auto split: if_splits)
  qed
qed

lemma sweep_ok:
  assumes sv: "serves crep serve"
  shows "inv s \<Longrightarrow> crep ch xs \<Longrightarrow> \<forall>r\<in>set (waiting slots xs). ok r \<Longrightarrow>
    \<exists>slots' ch' s' xs'. sweep serve slots ch s = Inr (slots', ch', s') \<and> inv s' \<and> crep ch' xs' \<and>
      length slots' = length slots \<and> (\<forall>r\<in>set (waiting slots' xs'). ok r) \<and>
      keys (waiting slots' xs') + posted s' = keys (waiting slots xs) + posted s \<and>
      (if slots = [] then xs' = xs else if waiting slots xs = [] then waiting slots' xs' = []
       else calls_left (waiting slots' xs') < calls_left (waiting slots xs))"
proof (induction slots arbitrary: ch s xs)
  case (Cons slot slots)
  obtain slot1 ch1 s1 ys where f: "serve slot ch s = Inr (slot1, ch1, s1)" "inv s1" "crep ch1 ys"
    "\<forall>r\<in>set (slot_list slot1 @ ys). ok r"
    "keys (slot_list slot1 @ ys) + posted s1 = keys (slot_list slot @ xs) + posted s"
    "if slot_list slot @ xs = [] then slot1 = None \<and> ys = []
     else calls_left (slot_list slot1 @ ys) < calls_left (slot_list slot @ xs)"
    by (rule servesD [OF sv Cons.prems(1,2), of slot]) (use Cons.prems(3) in \<open>auto simp: waiting_def\<close>)
  have "\<forall>r\<in>set (waiting slots ys). ok r" using Cons.prems(3) f(4) by (auto simp: waiting_def)
  then obtain slots2 ch2 s2 zs where g: "sweep serve slots ch1 s1 = Inr (slots2, ch2, s2)" "inv s2" "crep ch2 zs"
    "length slots2 = length slots" "\<forall>r\<in>set (waiting slots2 zs). ok r"
    "keys (waiting slots2 zs) + posted s2 = keys (waiting slots ys) + posted s1"
    "if slots = [] then zs = ys else if waiting slots ys = [] then waiting slots2 zs = []
     else calls_left (waiting slots2 zs) < calls_left (waiting slots ys)"
    using Cons.IH [OF f(2,3)] by blast
  have k: "keys (waiting (slot1 # slots2) zs) + posted s2 = keys (waiting (slot # slots) xs) + posted s"
  proof -
    have "keys (waiting (slot1 # slots2) zs) + posted s2 = keys (slot_list slot1) + (keys (waiting slots2 zs) + posted s2)"
      by (simp add: waiting_def ac_simps)
    also have "\<dots> = keys (concat (map slot_list slots)) + (keys (slot_list slot1 @ ys) + posted s1)"
      using g(6) by (simp add: waiting_def ac_simps)
    also have "\<dots> = keys (waiting (slot # slots) xs) + posted s" using f(5) by (simp add: waiting_def ac_simps)
    finally show ?thesis .
  qed
  have le: "calls_left (waiting slots2 zs) \<le> calls_left (waiting slots ys)"
    using g(4,7) by (auto split: if_splits)
  have c: "if waiting (slot # slots) xs = [] then waiting (slot1 # slots2) zs = []
     else calls_left (waiting (slot1 # slots2) zs) < calls_left (waiting (slot # slots) xs)"
    using f(6) g(4,7) le by (cases "slot_list slot @ xs = []") (auto simp: waiting_def split: if_splits)
  have "\<forall>r\<in>set (waiting (slot1 # slots2) zs). ok r" using f(4) g(5) by (auto simp: waiting_def)
  moreover have "sweep serve (slot # slots) ch s = Inr (slot1 # slots2, ch2, s2)" using f(1) g(1) by simp
  ultimately show ?case
    using g(2-4) k c by (intro exI [of _ "slot1 # slots2"] exI [of _ ch2] exI [of _ s2] exI [of _ zs]) simp
qed (auto simp: waiting_def)

text \<open>Enough rounds answer every request.\<close>

lemma rounds_ok:
  assumes sv: "serves crep serve"
  shows "inv s \<Longrightarrow> crep ch xs \<Longrightarrow> \<forall>r\<in>set (waiting slots xs). ok r \<Longrightarrow> slots \<noteq> [] \<Longrightarrow>
    calls_left (waiting slots xs) \<le> n \<Longrightarrow>
    \<exists>slots' ch' s'. serve_rounds n serve slots ch s = Inr (slots', ch', s') \<and> inv s' \<and> crep ch' [] \<and>
      slots' = replicate (length slots) None \<and> posted s' = keys (waiting slots xs) + posted s"
proof (induction n arbitrary: slots ch s xs)
  case 0
  then have e: "waiting slots xs = []" by (cases "waiting slots xs") simp_all
  then have "\<forall>slot\<in>set slots. slot = None" by (auto simp: waiting_def slot_list_def split: option.splits)
  then have "slots = replicate (length slots) None" by (induction slots) auto
  moreover have "crep ch []" using 0(2) e by (simp add: waiting_def)
  ultimately show ?case using 0(1) by (intro exI [of _ slots] exI [of _ ch] exI [of _ s]) (simp add: e)
next
  case (Suc n)
  obtain slots1 ch1 s1 ys where f: "sweep serve slots ch s = Inr (slots1, ch1, s1)" "inv s1" "crep ch1 ys"
    "length slots1 = length slots" "\<forall>r\<in>set (waiting slots1 ys). ok r"
    "keys (waiting slots1 ys) + posted s1 = keys (waiting slots xs) + posted s"
    "if waiting slots xs = [] then waiting slots1 ys = []
       else calls_left (waiting slots1 ys) < calls_left (waiting slots xs)"
    using sweep_ok [OF sv Suc.prems(1-3)] Suc.prems(4) by auto
  have "calls_left (waiting slots1 ys) \<le> n" using f(7) Suc.prems(5) by (auto split: if_splits)
  moreover have "slots1 \<noteq> []" using f(4) Suc.prems(4) by auto
  ultimately show ?case using Suc.IH [OF f(2,3,5)] f(1,4,6) by auto
qed

text \<open>Clients may push at any time, between any two services of a slot.\<close>

definition server_inv ::
  "('c \<Rightarrow> 'a list \<Rightarrow> bool) \<Rightarrow> 's \<Rightarrow> 'a option list \<times> nat \<times> 'c \<times> 's \<times> 'a list \<Rightarrow> bool" where
  "server_inv crep s0 = (\<lambda>(slots, i, ch, s, sent).
     inv s \<and> i < length slots \<and> (\<exists>xs. crep ch xs \<and> (\<forall>r\<in>set (waiting slots xs). ok r) \<and>
       keys (waiting slots xs) + posted s = keys sent + posted s0))"

lemma keys_update:
  assumes "i < length slots" "keys (slot_list slot' @ xs') + p' = keys (slot_list (slots ! i) @ xs) + p"
  shows "keys (waiting (slots[i := slot']) xs') + p' = keys (waiting slots xs) + p"
proof -
  define A B where "A = take i slots" and "B = drop (Suc i) slots"
  have a: "keys (waiting (slots[i := slot']) xs') = keys (slot_list slot' @ xs') + keys (waiting (A @ B) [])"
    using assms(1) by (simp add: upd_conv_take_nth_drop waiting_def A_def B_def ac_simps)
  have "slots = A @ slots ! i # B" using assms(1) by (simp add: A_def B_def flip: id_take_nth_drop)
  then have "keys (waiting slots xs) = keys (waiting (A @ slots ! i # B) xs)" by simp
  also have "\<dots> = keys (slot_list (slots ! i) @ xs) + keys (waiting (A @ B) [])" by (simp add: waiting_def ac_simps)
  finally have b: "keys (waiting slots xs) = keys (slot_list (slots ! i) @ xs) + keys (waiting (A @ B) [])" .
  show ?thesis unfolding a b using assms(2) by (metis add.assoc add.commute)
qed

lemma server_step_inv:
  assumes laws: "channel_laws cops crep cap" and sv: "serves crep serve"
    and step: "server_step serve cops ok c c'" and inv: "server_inv crep s0 c"
  shows "server_inv crep s0 c'"
  using step inv
proof (cases rule: server_step.cases)
  case (serve i slots ch s slot' ch' s' sent)
  then obtain xs where x: "inv s" "crep ch xs" "\<forall>r\<in>set (waiting slots xs). ok r"
    "keys (waiting slots xs) + posted s = keys sent + posted s0"
    using inv by (auto simp: server_inv_def)
  have o: "\<forall>r\<in>set (slot_list (slots ! i) @ xs). ok r" using x(3) nth_mem [OF serve(3)] by (auto simp: waiting_def)
  obtain slot1 ch1 s1 ys where f: "serve (slots ! i) ch s = Inr (slot1, ch1, s1)" "inv s1" "crep ch1 ys"
    "\<forall>r\<in>set (slot_list slot1 @ ys). ok r"
    "keys (slot_list slot1 @ ys) + posted s1 = keys (slot_list (slots ! i) @ xs) + posted s"
    by (rule servesD [OF sv x(1,2) o])
  have e: "slot1 = slot'" "ch1 = ch'" "s1 = s'" using f(1) serve(4) by simp_all
  have k: "keys (waiting (slots[i := slot']) ys) + posted s' = keys sent + posted s0"
    using keys_update [OF serve(3) f(5)] x(4) e by simp
  have "\<forall>r\<in>set (waiting (slots[i := slot']) ys). ok r"
    using x(3) f(4) e set_update_subset_insert [of slots i slot'] unfolding waiting_def by fastforce
  moreover have "(i + 1) mod length slots < length slots" using serve(3) by (intro mod_less_divisor) auto
  ultimately show ?thesis using f(2,3) serve e k by (auto simp: server_inv_def)
next
  case (send r ch ch' slots i s sent)
  then obtain xs where x: "inv s" "crep ch xs" "i < length slots" "\<forall>r\<in>set (waiting slots xs). ok r"
    "keys (waiting slots xs) + posted s = keys sent + posted s0"
    using inv by (auto simp: server_inv_def)
  have "crep ch' (xs @ [r])"
    using laws x(2) send(4) unfolding channel_laws_def by (metis fst_conv snd_conv)
  then show ?thesis using x send by (auto simp: server_inv_def waiting_def ac_simps intro!: exI [of _ "xs @ [r]"])
qed

lemma server_steps_inv:
  assumes "channel_laws cops crep cap" "serves crep serve" "(server_step serve cops ok)\<^sup>*\<^sup>* c c'" "server_inv crep s0 c"
  shows "server_inv crep s0 c'"
  using assms(3,4) by (induction rule: rtranclp_induct) (auto intro: server_step_inv [OF assms(1,2)])

lemma server_start:
  "inv s \<Longrightarrow> crep ch [] \<Longrightarrow> 0 < n \<Longrightarrow> server_inv crep s (replicate n None, 0, ch, s, [])"
  by (auto simp: server_inv_def waiting_def intro!: exI [of _ "[]"])

text \<open>From any reachable state, enough rounds answer everything that was sent, and nothing else.\<close>

lemma server_answers:
  assumes "channel_laws cops crep cap" "serves crep serve" "inv s0" "crep ch0 []" "0 < n"
    and "(server_step serve cops ok)\<^sup>*\<^sup>* (replicate n None, 0, ch0, s0, []) (slots, i, ch, s, sent)"
  shows "posted s \<subseteq># posted s0 + keys sent"
    and "\<exists>N. \<forall>k\<ge>N. \<exists>ch' s'. serve_rounds k serve slots ch s = Inr (replicate (length slots) None, ch', s') \<and>
      posted s' = posted s0 + keys sent"
proof -
  have "server_inv crep s0 (slots, i, ch, s, sent)"
    by (rule server_steps_inv [OF assms(1,2,6) server_start [of s0 crep ch0 n, OF assms(3-5)]])
  then obtain xs where x: "inv s" "crep ch xs" "i < length slots" "\<forall>r\<in>set (waiting slots xs). ok r"
    "keys (waiting slots xs) + posted s = keys sent + posted s0"
    by (auto simp: server_inv_def)
  show "posted s \<subseteq># posted s0 + keys sent" using x(5) by (metis add.commute mset_subset_eq_add_left)
  have "slots \<noteq> []" using x(3) by auto
  then have "\<exists>ch' s'. serve_rounds k serve slots ch s = Inr (replicate (length slots) None, ch', s') \<and>
      posted s' = posted s0 + keys sent" if "calls_left (waiting slots xs) \<le> k" for k
    using rounds_ok [OF assms(2) x(1,2,4) _ that] x(5) by (auto simp: add.commute)
  then show "\<exists>N. \<forall>k\<ge>N. \<exists>ch' s'. serve_rounds k serve slots ch s = Inr (replicate (length slots) None, ch', s') \<and>
      posted s' = posted s0 + keys sent" by blast
qed

lemma server_steps_length:
  "(server_step serve cops ok)\<^sup>*\<^sup>* (slots0, i0, ch0, s0, sent0) (slots, i, ch, s, sent) \<Longrightarrow> length slots = length slots0"
  by (induction "(slots, i, ch, s, sent)" arbitrary: slots i ch s sent rule: rtranclp_induct)
    (auto elim: server_step.cases)

end

text \<open>A single request in an otherwise idle server is worked on until it is done.\<close>

fun proc_until :: "nat \<Rightarrow> ('a, 's) process \<Rightarrow> 'a \<Rightarrow> 's \<Rightarrow> ('a \<times> 's) res" where
  "proc_until 0 proc r s = Inl OutOfFuel"
| "proc_until (Suc n) proc r s = bindE (proc r s) (\<lambda>(b, r, s). if b then Inr (r, s) else proc_until n proc r s)"

lemma sweep_idle:
  "channel_laws cops crep cap \<Longrightarrow> crep ch [] \<Longrightarrow>
   sweep (serve_slot_now proc post cops) (replicate k None) ch s = Inr (replicate k None, ch, s)"
  by (induction k) (simp_all add: serve_slot_now_def take_request_def channel_laws_def)

lemma rounds_idle:
  "channel_laws cops crep cap \<Longrightarrow> crep ch [] \<Longrightarrow>
   serve_rounds n (serve_slot_now proc post cops) (replicate k None) ch s = Inr (replicate k None, ch, s)"
  by (induction n) (simp_all add: sweep_idle)

lemma rounds_single:
  assumes laws: "channel_laws cops crep cap" and c: "crep ch []"
  shows "proc_until n proc r s = Inr (r', s') \<Longrightarrow> post r' s' = Inr t \<Longrightarrow> n \<le> k \<Longrightarrow>
    serve_rounds k (serve_slot_now proc post cops) (Some r # replicate j None) ch s = Inr (replicate (Suc j) None, ch, t)"
proof (induction n arbitrary: r s k)
  case (Suc n)
  then obtain k' where k: "k = Suc k'" "n \<le> k'" by (metis Suc_le_D Suc_le_mono)
  obtain b r1 s1 where p: "proc r s = Inr (b, r1, s1)" "(if b then Inr (r1, s1) else proc_until n proc r1 s1) = Inr (r', s')"
    using Suc.prems(1) by (auto simp: bindE_eq_Inr)
  have e: "ch_pop cops ch = None" using laws c by (simp add: channel_laws_def)
  show ?case
  proof (cases b)
    case True
    with p Suc.prems(2) have "serve_slot_now proc post cops (Some r) ch s = Inr (None, ch, t)"
      by (simp add: serve_slot_now_def take_request_def e)
    then show ?thesis
      using rounds_idle [OF laws c, of k' proc post "Suc j" t] by (simp add: k sweep_idle [OF laws c])
  next
    case False
    with p have "serve_slot_now proc post cops (Some r) ch s = Inr (Some r1, ch, s1)"
      by (simp add: serve_slot_now_def take_request_def)
    then show ?thesis using Suc.IH [OF _ Suc.prems(2) k(2), of r1 s1] p False by (simp add: k sweep_idle [OF laws c])
  qed
qed simp

lemma rounds_one_request:
  assumes laws: "channel_laws cops crep cap" and c: "crep ch [r]"
    and p: "proc_until n proc r s = Inr (r', s')" "post r' s' = Inr t" "n \<le> k"
  obtains ch' where "crep ch' []"
    "serve_rounds k (serve_slot_now proc post cops) (replicate (Suc j) None) ch s = Inr (replicate (Suc j) None, ch', t)"
proof -
  have "\<exists>ch'. ch_pop cops ch = Some (r, ch') \<and> crep ch' []" using laws c unfolding channel_laws_def by blast
  then obtain ch' where ch: "ch_pop cops ch = Some (r, ch')" "crep ch' []" by blast
  have "n \<noteq> 0" using p(1) by (intro notI) simp
  then obtain k' where k: "k = Suc k'" using p(3) by (cases k) simp_all
  have "serve_slot_now proc post cops None ch s = serve_slot_now proc post cops (Some r) ch' s"
    by (simp add: serve_slot_now_def take_request_def ch(1))
  then have "serve_rounds k (serve_slot_now proc post cops) (replicate (Suc j) None) ch s =
      serve_rounds k (serve_slot_now proc post cops) (Some r # replicate j None) ch' s"
    by (simp add: k)
  then show thesis using that [OF ch(2)] rounds_single [where proc = proc and post = post, OF laws ch(2) p] by simp
qed

section \<open>The I/O server answers\<close>

text \<open>
  The transfers of the requests that satisfy \<open>ok\<close> succeed as long as \<open>I\<close> holds of the pool and the files, and
  keep it true.
\<close>

definition aio_serves ::
  "('r, 'q) aio \<Rightarrow> (u64 \<times> mpage_id \<times> file_handle \<times> bool \<Rightarrow> bool) \<Rightarrow> (('r, 'q) buffer_pool \<Rightarrow> disk \<Rightarrow> bool) \<Rightarrow> bool" where
  "aio_serves aio ok I \<longleftrightarrow>
     (\<forall>bp d io. I bp d \<longrightarrow> ok (io_key io) \<longrightarrow> (\<exists>bp' d'. aio bp d io = Inr (bp', d') \<and> I bp' d'))"

definition io_calls :: "io_request \<Rightarrow> nat" where
  "io_calls io = (case io_ctx io of Commit \<Rightarrow> io_wait io + 2 | Poll \<Rightarrow> io_wait io + 1 | IO_End \<Rightarrow> 0)"

lemma io_key_upd [simp]: "io_key (io\<lparr>io_ctx := c\<rparr>) = io_key io" "io_key (io\<lparr>io_wait := n\<rparr>) = io_key io"
  by (simp_all add: io_key_def)

interpretation io: request_server "io_process aio" io_post io_key "\<lambda>w. mset (iw_posted w)" io_calls
  "\<lambda>w. aio_serves aio ok I \<and> I (iw_pool w) (iw_disk w)" "\<lambda>io. ok (io_key io)"
  for aio :: "('r, 'q) aio" and ok and I
proof unfold_locales
  fix w :: "('r, 'q) io_world" and io
  assume w: "aio_serves aio ok I \<and> I (iw_pool w) (iw_disk w)" and o: "ok (io_key io)"
  show "\<exists>finished r' s'. io_process aio io w = Inr (finished, r', s') \<and>
      (aio_serves aio ok I \<and> I (iw_pool s') (iw_disk s')) \<and> ok (io_key r') \<and> io_key r' = io_key io \<and>
      mset (iw_posted s') = mset (iw_posted w) \<and>
      (if finished then io_calls r' \<le> io_calls io else io_calls r' < io_calls io)"
  proof (cases "io_ctx io = Poll \<and> io_wait io = 0")
    case True
    obtain bp' d' where "aio (iw_pool w) (iw_disk w) io = Inr (bp', d')" "I bp' d'"
      using w o unfolding aio_serves_def by blast
    with True w o show ?thesis by (intro exI [of _ True]) (simp add: io_process_def io_ProcessFunc_def io_calls_def)
  next
    case False
    with w o show ?thesis
      by (cases "io_ctx io") (auto simp: io_process_def io_ProcessFunc_def io_calls_def)
  qed
  show "\<exists>s'. io_post io w = Inr s' \<and> (aio_serves aio ok I \<and> I (iw_pool s') (iw_disk s')) \<and>
      mset (iw_posted s') = add_mset (io_key io) (mset (iw_posted w))"
    using w by (simp add: io_post_def)
qed

text \<open>C11: the I/O server answers every request exactly once.  Whatever the clients send while it works, and
  however long each transfer takes, no message is posted that was not asked for or twice; and once the clients
  stop, enough rounds leave channel and slots empty with a message posted for each request sent.\<close>

theorem io_server_answers_once:
  assumes "channel_laws cops crep cap" "aio_serves aio ok I" "I (iw_pool w0) (iw_disk w0)" "iw_posted w0 = []" "crep ch0 []"
    and "(server_step (io_serve aio cops) cops (\<lambda>io. ok (io_key io)))\<^sup>*\<^sup>*
      (replicate BATCH_SIZE_IO_SERVER None, 0, ch0, w0, []) (slots, i, ch, w, sent)"
  shows "mset (iw_posted w) \<subseteq># mset (map io_key sent) \<and>
    (\<exists>N. \<forall>n\<ge>N. \<exists>ch' w'. serve_rounds n (io_serve aio cops) slots ch w =
        Inr (replicate BATCH_SIZE_IO_SERVER None, ch', w') \<and> mset (iw_posted w') = mset (map io_key sent))"
proof -
  have sv: "io.serves aio ok I crep (io_serve aio cops)"
    unfolding io_serve_def by (rule io.serve_slot_serves [OF assms(1)])
  have s: "aio_serves aio ok I \<and> I (iw_pool w0) (iw_disk w0)" "0 < BATCH_SIZE_IO_SERVER"
    using assms(2,3) by (simp_all add: BATCH_SIZE_IO_SERVER_def)
  have "length slots = BATCH_SIZE_IO_SERVER" using io.server_steps_length [OF assms(6)] by simp
  then show ?thesis
    using io.server_answers [OF assms(1) sv s(1) assms(5) s(2) assms(6)] assms(4) by (simp add: io.keys_def)
qed

lemma io_server_answers_once_witness:
  "\<exists>r ch w. (server_step (io_serve syscall_aio (list_channel IO_SERVER_CHANNEL_SIZE))
        (list_channel IO_SERVER_CHANNEL_SIZE) (\<lambda>io. io_key io = (0, 0, 0, True)))\<^sup>*\<^sup>*
      (replicate BATCH_SIZE_IO_SERVER None, 0, [], \<lparr>iw_pool = small_pool r, iw_disk = small_disk, iw_posted = []\<rparr>, [])
      (replicate BATCH_SIZE_IO_SERVER None, 0, ch, w, [io_Init (\<lambda>_. 4) 0 0 0 True]) \<and>
    (\<exists>N. \<forall>n\<ge>N. \<exists>ch' w'. serve_rounds n (io_serve syscall_aio (list_channel IO_SERVER_CHANNEL_SIZE))
        (replicate BATCH_SIZE_IO_SERVER None) ch w = Inr (replicate BATCH_SIZE_IO_SERVER None, ch', w') \<and>
        mset (iw_posted w') = {#(0, 0, 0, True)#})"
proof -
  let ?io = "io_Init (\<lambda>_. 4) 0 0 0 True" and ?cops = "list_channel IO_SERVER_CHANNEL_SIZE"
  let ?I = "\<lambda>(bp :: (sieve3, frame list) buffer_pool) d. d = small_disk \<and> 0 < length (bp_memory_pool bp)"
  let ?ok = "\<lambda>k. k = (0, 0, 0, True)"
  define w where "w = \<lparr>iw_pool = small_pool undefined, iw_disk = small_disk, iw_posted = []\<rparr>"
  have k: "io_key ?io = (0, 0, 0, True)" by (simp add: io_key_def io_Init_def Let_def)
  have a: "aio_serves syscall_aio ?ok ?I"
    by (auto simp: aio_serves_def io_key_def syscall_aio_def ReadWriteSync_def RWSysCall_Read_def small_disk_def
        OpenFile_def Let_def)
  have v: "?I (iw_pool w) (iw_disk w)" "iw_posted w = []" by (simp_all add: w_def small_pool_def)
  have st: "(server_step (io_serve syscall_aio ?cops) ?cops (\<lambda>io. ?ok (io_key io)))\<^sup>*\<^sup>*
      (replicate BATCH_SIZE_IO_SERVER None, 0, [], w, []) (replicate BATCH_SIZE_IO_SERVER None, 0, [?io], w, [?io])"
  proof -
    have "ch_push ?cops [] ?io = (True, [?io])" by (simp add: list_channel_def IO_SERVER_CHANNEL_SIZE_def)
    from server_step.send [where may = "\<lambda>io. ?ok (io_key io)" and sent = "[]", OF k this]
    show ?thesis by (intro r_into_rtranclp) simp
  qed
  have "\<exists>N. \<forall>n\<ge>N. \<exists>ch' w'. serve_rounds n (io_serve syscall_aio ?cops) (replicate BATCH_SIZE_IO_SERVER None)
      [?io] w = Inr (replicate BATCH_SIZE_IO_SERVER None, ch', w') \<and> mset (iw_posted w') = {#(0, 0, 0, True)#}"
    using io_server_answers_once [OF list_channel_laws a v refl st] k by simp
  then show ?thesis using st unfolding w_def by blast
qed

end
