(* ===== verification/AsyncBlocks.thy ===== *)
theory AsyncBlocks
  imports Servers Clients
begin

text \<open>
  Blocks that are fetched by the server threads: \<open>GetBlockAsync\<close> of the manager, the requests it hands to
  the pools, and the loops that work on them (\<^verbatim>\<open>src/buffer_pool_manager.cpp\<close>, \<^verbatim>\<open>include/buffer_pool_manager.h\<close>,
  \<^verbatim>\<open>include/buffer_pool.h\<close>).  A future is the number of its promise; the promises fulfilled so far are two
  maps, one for pages and one for blocks.  Nobody gets a future of the pools twice, so getting one leaves its
  value in the map and only marks the future as taken.
\<close>

section \<open>The requests of the pools\<close>

datatype in_req_type = Hit | Miss

text \<open>The two instances of the request template: a promise of a page or of a block.\<close>

datatype promise_kind = PagePromise | BlockPromise

record pool_request =
  pr_type :: in_req_type
  pr_req :: async_request
  pr_kind :: promise_kind
  pr_promise :: nat

datatype block_phase = BBegin | BWaiting | BFinishWaiting | BEnd

record block_request =
  bq_fd :: file_handle
  bq_file_offset :: u64
  bq_block_size :: u64
  bq_page_num :: nat
  bq_futures :: "nat option list"
  bq_curr_page_unfinished :: nat
  bq_response :: block
  bq_run_time_phase :: block_phase
  bq_promise :: nat

text \<open>The channels of the pools, the channel of the manager, and the promises.\<close>

record ('r, 'q, 'c, 'b) async_world =
  aw_mgr :: "('r, 'q) manager"
  aw_channels :: "'c list"
  aw_channel :: 'b
  aw_next :: nat
  aw_pages :: "nat \<rightharpoonup> pte_ref option"
  aw_blocks :: "nat \<rightharpoonup> block"

definition push_request ::
  "nat \<Rightarrow> ('c, pool_request) channel_ops \<Rightarrow> nat \<Rightarrow> promise_kind \<Rightarrow> file_handle \<Rightarrow> u64 \<Rightarrow> u64 \<Rightarrow>
   ('r, 'q, 'c, 'b) async_world \<Rightarrow> (nat \<times> ('r, 'q, 'c, 'b) async_world) res" where
  "push_request fuel cops i kind fd file_offset block_size w =
     (let req = \<lparr>pr_type = Miss, pr_req = async_request_new fd file_offset block_size, pr_kind = kind,
                 pr_promise = aw_next w\<rparr> in
      bindE (arr_get (aw_channels w) i) (\<lambda>ch.
      bindE (push_until fuel cops ch req) (\<lambda>ch.
      Inr (aw_next w, w\<lparr>aw_channels := (aw_channels w)[i := ch], aw_next := aw_next w + 1\<rparr>))))"

definition FetchPageAsync ::
  "nat \<Rightarrow> ('c, pool_request) channel_ops \<Rightarrow> nat \<Rightarrow> file_handle \<Rightarrow> u64 \<Rightarrow> u64 \<Rightarrow>
   ('r, 'q, 'c, 'b) async_world \<Rightarrow> (nat \<times> ('r, 'q, 'c, 'b) async_world) res" where
  "FetchPageAsync fuel cops i fd file_offset block_size w = push_request fuel cops i PagePromise fd file_offset block_size w"

definition FetchBlockAsync ::
  "nat \<Rightarrow> ('c, pool_request) channel_ops \<Rightarrow> nat \<Rightarrow> file_handle \<Rightarrow> u64 \<Rightarrow> u64 \<Rightarrow>
   ('r, 'q, 'c, 'b) async_world \<Rightarrow> (nat \<times> ('r, 'q, 'c, 'b) async_world) res" where
  "FetchBlockAsync fuel cops i fd file_offset block_size w = push_request fuel cops i BlockPromise fd file_offset block_size w"

text \<open>The destructor of a request fulfils its promise; \<open>i\<close> is the pool the request belongs to.\<close>

definition PromiseSetValue ::
  "nat \<Rightarrow> pool_request \<Rightarrow> ('r, 'q, 'c, 'b) async_world \<Rightarrow> ('r, 'q, 'c, 'b) async_world res" where
  "PromiseSetValue i r w =
     (let req = pr_req r in
      case pr_kind r of
        PagePromise \<Rightarrow> Inr (w\<lparr>aw_pages := (aw_pages w)(pr_promise r \<mapsto> map_option (PTE_ref i) (ar_response req))\<rparr>)
      | BlockPromise \<Rightarrow>
          (case ar_response req of None \<Rightarrow> Inl NullDeref
           | Some m \<Rightarrow>
               bindE (InsertPage (bb_pages (unat (ar_block_size req)) 1) 0
                 (PTE_ref i m, unat (ar_file_offset req mod word_of_nat PAGE_SIZE_FILE)) (PTE_ref i m) False) (\<lambda>b.
               Inr (w\<lparr>aw_blocks := (aw_blocks w)(pr_promise r \<mapsto> b)\<rparr>))))"

definition pool_ProcessFunc ::
  "nat \<Rightarrow> ('r, 'q) aio \<Rightarrow> (io_request \<Rightarrow> nat) \<Rightarrow> 'r replacer_ops \<Rightarrow> 'q queue_ops \<Rightarrow> nat \<Rightarrow>
   (pool_request, ('r, 'q, 'c, 'b) async_world) process" where
  "pool_ProcessFunc fuel aio latency ops qops i r w =
     (case pr_type r of
        Hit \<Rightarrow> Inl AssertFail
      | Miss \<Rightarrow>
          bindE (arr_get (mg_pools (aw_mgr w)) i) (\<lambda>bp.
          bindE (FetchPageAsyncInner fuel aio latency ops qops (pr_req r, bp, mg_disk (aw_mgr w))) (\<lambda>(b, req, bp, d).
          Inr (b, r\<lparr>pr_req := req\<rparr>,
            w\<lparr>aw_mgr := (aw_mgr w)\<lparr>mg_pools := (mg_pools (aw_mgr w))[i := bp], mg_disk := d\<rparr>\<rparr>))))"

definition BATCH_SIZE_BUFFER_POOL :: nat where
  "BATCH_SIZE_BUFFER_POOL = 48"

definition pool_serve ::
  "nat \<Rightarrow> ('r, 'q) aio \<Rightarrow> (io_request \<Rightarrow> nat) \<Rightarrow> 'r replacer_ops \<Rightarrow> 'q queue_ops \<Rightarrow> ('c, pool_request) channel_ops \<Rightarrow> nat \<Rightarrow>
   pool_request option \<Rightarrow> 'c \<Rightarrow> ('r, 'q, 'c, 'b) async_world \<Rightarrow>
   (pool_request option \<times> 'c \<times> ('r, 'q, 'c, 'b) async_world) res" where
  "pool_serve fuel aio latency ops qops cops i =
     serve_slot_now (pool_ProcessFunc fuel aio latency ops qops i) (PromiseSetValue i) cops"

definition pool_Run ::
  "nat \<Rightarrow> nat \<Rightarrow> ('r, 'q) aio \<Rightarrow> (io_request \<Rightarrow> nat) \<Rightarrow> 'r replacer_ops \<Rightarrow> 'q queue_ops \<Rightarrow> ('c, pool_request) channel_ops \<Rightarrow> nat \<Rightarrow>
   ('r, 'q, 'c, 'b) async_world \<Rightarrow> (pool_request option list \<times> ('r, 'q, 'c, 'b) async_world) res" where
  "pool_Run rounds fuel aio latency ops qops cops i w =
     bindE (arr_get (aw_channels w) i) (\<lambda>ch.
     bindE (serve_rounds rounds (pool_serve fuel aio latency ops qops cops i) (replicate BATCH_SIZE_BUFFER_POOL None) ch w)
       (\<lambda>(slots, ch, w). Inr (slots, w\<lparr>aw_channels := (aw_channels w)[i := ch]\<rparr>)))"

section \<open>The requests of the manager\<close>

definition block_request_new :: "nat \<Rightarrow> file_handle \<Rightarrow> u64 \<Rightarrow> u64 \<Rightarrow> nat \<Rightarrow> block_request" where
  "block_request_new promise fd file_offset block_size page_num =
     \<lparr>bq_fd = fd, bq_file_offset = file_offset, bq_block_size = block_size, bq_page_num = page_num,
      bq_futures = replicate page_num None, bq_curr_page_unfinished = 0,
      bq_response = bb_pages (unat block_size) page_num, bq_run_time_phase = BBegin, bq_promise = promise\<rparr>"

fun begin_pages ::
  "nat \<Rightarrow> 'r replacer_ops \<Rightarrow> ('c, pool_request) channel_ops \<Rightarrow> nat \<Rightarrow> nat \<Rightarrow> fpage_id \<Rightarrow> u64 \<Rightarrow> block_request \<Rightarrow>
   ('r, 'q, 'c, 'b) async_world \<Rightarrow> (block_request \<times> ('r, 'q, 'c, 'b) async_world) res" where
  "begin_pages fuel ops cops 0 page_id p fpage_offset req w = Inr (req, w)"
| "begin_pages fuel ops cops (Suc n) page_id p fpage_offset req w =
     bindE (mgr_Pin ops (aw_mgr w) p (bq_fd req)) (\<lambda>(mpage, mg).
     let w = w\<lparr>aw_mgr := mg\<rparr> in
     bindE (case mpage of
         Some r \<Rightarrow> bindE (InsertPage (bq_response req) page_id (r, unat fpage_offset) r False) (\<lambda>b.
           Inr (req\<lparr>bq_response := b\<rparr>, w))
       | None \<Rightarrow>
           bindE (FetchPageAsync fuel cops (pool_of mg p) (bq_fd req) (ucast p * word_of_nat PAGE_SIZE_FILE) 0 w)
             (\<lambda>(future, w).
           bindE (arr_set (bq_futures req) page_id (Some future)) (\<lambda>futures.
           Inr (req\<lparr>bq_futures := futures, bq_run_time_phase := BWaiting\<rparr>, w)))) (\<lambda>(req, w).
     begin_pages fuel ops cops n (page_id + 1) (p + 1) 0 req w))"

fun first_unready :: "(nat \<rightharpoonup> pte_ref option) \<Rightarrow> nat option list \<Rightarrow> nat \<Rightarrow> nat \<Rightarrow> (bool \<times> nat) res" where
  "first_unready pages futures 0 cur = Inr (True, cur)"
| "first_unready pages futures (Suc n) cur =
     bindE (arr_get futures cur) (\<lambda>future.
     case future of
       None \<Rightarrow> first_unready pages futures n (cur + 1)
     | Some f \<Rightarrow> if pages f = None then Inr (False, cur) else first_unready pages futures n (cur + 1))"

fun finish_pages ::
  "(nat \<rightharpoonup> pte_ref option) \<Rightarrow> nat \<Rightarrow> nat \<Rightarrow> u64 \<Rightarrow> block_request \<Rightarrow> block_request res" where
  "finish_pages pages 0 page_id fpage_offset req = Inr req"
| "finish_pages pages (Suc n) page_id fpage_offset req =
     bindE (arr_get (bq_futures req) page_id) (\<lambda>future.
     bindE (case future of
         None \<Rightarrow> Inr req
       | Some f \<Rightarrow> (case pages f of
             Some (Some r) \<Rightarrow> bindE (InsertPage (bq_response req) page_id (r, unat fpage_offset) r False) (\<lambda>b.
               Inr (req\<lparr>bq_response := b, bq_futures := (bq_futures req)[page_id := None]\<rparr>))
           | Some None \<Rightarrow> Inl NullDeref
           | None \<Rightarrow> Inl OutOfFuel)) (\<lambda>req.
     finish_pages pages n (page_id + 1) 0 req))"

text \<open>One turn of \<open>while (true) switch\<close>.\<close>

definition block_step ::
  "nat \<Rightarrow> 'r replacer_ops \<Rightarrow> ('c, pool_request) channel_ops \<Rightarrow> block_request \<times> ('r, 'q, 'c, 'b) async_world \<Rightarrow>
   (bool option \<times> block_request \<times> ('r, 'q, 'c, 'b) async_world) res" where
  "block_step fuel ops cops = (\<lambda>(req, w).
     case bq_run_time_phase req of
       BBegin \<Rightarrow>
         bindE (begin_pages fuel ops cops (bq_page_num req) 0 (first_page (bq_file_offset req))
           (first_offset (bq_file_offset req)) (req\<lparr>bq_run_time_phase := BEnd\<rparr>) w) (\<lambda>(req, w). Inr (None, req, w))
     | BWaiting \<Rightarrow>
         bindE (first_unready (aw_pages w) (bq_futures req) (bq_page_num req - bq_curr_page_unfinished req)
           (bq_curr_page_unfinished req)) (\<lambda>(ready, cur).
         let req = req\<lparr>bq_curr_page_unfinished := cur\<rparr> in
         if ready then Inr (None, req\<lparr>bq_run_time_phase := BFinishWaiting\<rparr>, w) else Inr (Some False, req, w))
     | BFinishWaiting \<Rightarrow>
         bindE (finish_pages (aw_pages w) (bq_page_num req) 0 (first_offset (bq_file_offset req)) req) (\<lambda>req.
         Inr (None, req\<lparr>bq_run_time_phase := BEnd\<rparr>, w))
     | BEnd \<Rightarrow> Inr (Some True, req, w))"

text \<open>Each turn but the last moves to a later phase, so four turns are enough.\<close>

definition mgr_ProcessFunc ::
  "nat \<Rightarrow> 'r replacer_ops \<Rightarrow> ('c, pool_request) channel_ops \<Rightarrow> (block_request, ('r, 'q, 'c, 'b) async_world) process" where
  "mgr_ProcessFunc fuel ops cops req w = run_call 4 (block_step fuel ops cops) (req, w)"

definition block_post :: "block_request \<Rightarrow> ('r, 'q, 'c, 'b) async_world \<Rightarrow> ('r, 'q, 'c, 'b) async_world res" where
  "block_post req w = Inr (w\<lparr>aw_blocks := (aw_blocks w)(bq_promise req \<mapsto> bq_response req)\<rparr>)"

definition BATCH_SIZE_BUFFER_POOL_MANAGER :: nat where
  "BATCH_SIZE_BUFFER_POOL_MANAGER = 20"

text \<open>Only this loop pops from the channel, so a channel that is not empty gives a request.\<close>

definition mgr_Run ::
  "nat \<Rightarrow> nat \<Rightarrow> 'r replacer_ops \<Rightarrow> ('c, pool_request) channel_ops \<Rightarrow> ('b, block_request) channel_ops \<Rightarrow>
   ('r, 'q, 'c, 'b) async_world \<Rightarrow> (block_request option list \<times> ('r, 'q, 'c, 'b) async_world) res" where
  "mgr_Run rounds fuel ops cops bops w =
     bindE (serve_rounds rounds (serve_slot_now (mgr_ProcessFunc fuel ops cops) block_post bops)
       (replicate BATCH_SIZE_BUFFER_POOL_MANAGER None) (aw_channel w) w)
       (\<lambda>(slots, ch, w). Inr (slots, w\<lparr>aw_channel := ch\<rparr>))"

definition GetBlockAsync ::
  "nat \<Rightarrow> 'r replacer_ops \<Rightarrow> ('c, pool_request) channel_ops \<Rightarrow> ('b, block_request) channel_ops \<Rightarrow>
   ('r, 'q, 'c, 'b) async_world \<Rightarrow> u64 \<Rightarrow> u64 \<Rightarrow> file_handle \<Rightarrow> (nat \<times> ('r, 'q, 'c, 'b) async_world) res" where
  "GetBlockAsync fuel ops cops bops w file_offset block_size fd =
     (let num = num_page file_offset block_size; fpage_id = first_page file_offset; pid = aw_next w in
      if num = 1 then
        bindE (mgr_Pin ops (aw_mgr w) fpage_id fd) (\<lambda>(mpage, mg).
        let w = w\<lparr>aw_mgr := mg\<rparr> in
        case mpage of
          Some r \<Rightarrow>
            bindE (InsertPage (bb_pages (unat block_size) 1) 0 (r, unat (first_offset file_offset)) r False) (\<lambda>b.
            Inr (pid, w\<lparr>aw_blocks := (aw_blocks w)(pid \<mapsto> b), aw_next := pid + 1\<rparr>))
        | None \<Rightarrow> FetchBlockAsync fuel cops (pool_of mg fpage_id) fd file_offset block_size w)
      else
        bindE (mgr_ProcessFunc fuel ops cops (block_request_new pid fd file_offset block_size num) (w\<lparr>aw_next := pid + 1\<rparr>))
          (\<lambda>(b, req, w).
        if \<not> b then
          bindE (assertE (bq_run_time_phase req \<noteq> BEnd)) (\<lambda>_.
          bindE (push_until fuel bops (aw_channel w) req) (\<lambda>ch. Inr (pid, w\<lparr>aw_channel := ch\<rparr>)))
        else bindE (block_post req w) (\<lambda>w. Inr (pid, w))))"

section \<open>A block of one page\<close>

lemma proc_until_pool:
  assumes "i < length (mg_pools (aw_mgr w))" "pr_type r = Miss"
    and "async_until n fuel aio latency ops qops (pr_req r, mg_pools (aw_mgr w) ! i, mg_disk (aw_mgr w)) = Inr (req, bp, d)"
  shows "proc_until n (pool_ProcessFunc fuel aio latency ops qops i) r w =
    Inr (r\<lparr>pr_req := req\<rparr>, w\<lparr>aw_mgr := (aw_mgr w)\<lparr>mg_pools := (mg_pools (aw_mgr w))[i := bp], mg_disk := d\<rparr>\<rparr>)"
  using assms
proof (induction n arbitrary: r w)
  case (Suc n)
  obtain b req1 bp1 d1 where f: "FetchPageAsyncInner fuel aio latency ops qops
      (pr_req r, mg_pools (aw_mgr w) ! i, mg_disk (aw_mgr w)) = Inr (b, req1, bp1, d1)"
    "(if b then Inr (req1, bp1, d1) else async_until n fuel aio latency ops qops (req1, bp1, d1)) = Inr (req, bp, d)"
    using Suc.prems(3) by (auto simp: bindE_eq_Inr)
  let ?w = "w\<lparr>aw_mgr := (aw_mgr w)\<lparr>mg_pools := (mg_pools (aw_mgr w))[i := bp1], mg_disk := d1\<rparr>\<rparr>"
  have p: "pool_ProcessFunc fuel aio latency ops qops i r w = Inr (b, r\<lparr>pr_req := req1\<rparr>, ?w)"
    using Suc.prems(1,2) f(1) by (simp add: pool_ProcessFunc_def)
  show ?case
  proof (cases b)
    case False
    have "proc_until n (pool_ProcessFunc fuel aio latency ops qops i) (r\<lparr>pr_req := req1\<rparr>) ?w =
      Inr (r\<lparr>pr_req := req\<rparr>, w\<lparr>aw_mgr := (aw_mgr w)\<lparr>mg_pools := (mg_pools (aw_mgr w))[i := bp], mg_disk := d\<rparr>\<rparr>)"
      using Suc.IH [of ?w "r\<lparr>pr_req := req1\<rparr>"] Suc.prems(1,2) f(2) False by simp
    then show ?thesis using p False by simp
  qed (use p f in simp)
qed simp

lemma mgr_fetch_parts:
  assumes "mgr_fetch fuel ops qops mg p fd = Inr (r, mg')"
  obtains m bp' d' where "pool_of mg p < length (mg_pools mg)"
    "FetchPageSync fuel ops qops (mg_pools mg ! pool_of mg p) (mg_disk mg) p fd = Inr (Some m, bp', d')"
    "r = PTE_ref (pool_of mg p) m" "mg' = mg\<lparr>mg_pools := (mg_pools mg)[pool_of mg p := bp'], mg_disk := d'\<rparr>"
proof -
  obtain ret bp' d' where f: "pool_of mg p < length (mg_pools mg)"
    "FetchPageSync fuel ops qops (mg_pools mg ! pool_of mg p) (mg_disk mg) p fd = Inr (ret, bp', d')"
    "mg' = mg\<lparr>mg_pools := (mg_pools mg)[pool_of mg p := bp'], mg_disk := d'\<rparr>"
    "page_frame mg' p ret = Inr r"
    using assms by (auto simp: mgr_fetch_def on_pool_def bindE_eq_Inr arr_get_eq_Inr)
  moreover have "pool_of mg' p = pool_of mg p" by (simp add: f(3) pool_of_def)
  ultimately show thesis using that by (cases ret) (auto simp: page_frame_def)
qed

lemma mgr_Pin_of:
  assumes "pool_of mg p < length (mg_pools mg)" "Pin ops (mg_pools mg ! pool_of mg p) p fd = Inr (ret, bp)"
  shows "mgr_Pin ops mg p fd =
    Inr (map_option (PTE_ref (pool_of mg p)) ret, mg\<lparr>mg_pools := (mg_pools mg)[pool_of mg p := bp]\<rparr>)"
  using assms by (simp add: mgr_Pin_def on_pool_def pool_of_def)

text \<open>A block of one page that was pinned shows its range.\<close>

definition one_page :: "u64 \<Rightarrow> u64 \<Rightarrow> pte_ref \<Rightarrow> block" where
  "one_page file_offset block_size r =
     (bb_pages (unat block_size) 1)\<lparr>bb_data := Pages [Some (slice_at (unat (first_offset file_offset)) (r, False))]\<rparr>"

lemma one_page_insert:
  "InsertPage (bb_pages (unat block_size) 1) 0 (r, unat (first_offset file_offset)) r False =
    Inr (one_page file_offset block_size r)"
  by (simp add: InsertPage_def bb_pages_def one_page_def slice_at_def)

lemma one_page_shows:
  assumes "num_page file_offset block_size = 1" "pins mg fd (first_page file_offset) r"
  shows "shows_range mg fd file_offset block_size (one_page file_offset block_size r)"
proof -
  have "block_size \<noteq> 0" using assms(1) by (auto simp: num_page_def ceil_div_def)
  then show ?thesis
    using assms by (auto simp: shows_range_def one_page_def bb_pages_def pins_from_Cons pins_from_def intro!: exI [of _ "[(r, False)]"])
qed

lemma idle_pool_Run:
  assumes "channel_laws cops crep cap" "i < length (aw_channels w)" "crep (aw_channels w ! i) []"
  shows "pool_Run rounds fuel aio latency ops qops cops i w = Inr (replicate BATCH_SIZE_BUFFER_POOL None, w)"
  using assms by (simp add: pool_Run_def pool_serve_def rounds_idle)

lemma async_step_keeps_size:
  "async_step aio latency ops qops p c = Inr (r, c') \<Longrightarrow> ar_block_size (fst c') = ar_block_size (fst c)"
  by (cases c) (auto simp: async_step_def bindE_eq_Inr ar_put_def ar_process_def ar_unmap_def
      split: phase.splits if_splits option.splits prod.splits)

lemma async_runs_keeps:
  "runs (async_step aio latency ops qops p) k c c' \<Longrightarrow>
   ar_block_size (fst c') = ar_block_size (fst c) \<and> ar_file_offset (fst c') = ar_file_offset (fst c)"
  by (induction rule: runs.induct) (auto dest: async_step_keeps_size async_step_keeps)

text \<open>The request of one page, from the channel of its pool to its promise.\<close>

lemma pool_Run_block:
  assumes laws: "channel_laws cops crep cap" "aio_ok aio"
    and i: "i = pool_of (aw_mgr w) p" "i < length (aw_channels w)" "crep (aw_channels w ! i) [r]"
    and r: "r = \<lparr>pr_type = Miss, pr_req = async_request_new fd file_offset block_size, pr_kind = BlockPromise, pr_promise = pid\<rparr>"
    and p: "p = first_page file_offset" "i < length (mg_pools mg)"
    and f: "FetchPageSync k ops qops (mg_pools mg ! i) (mg_disk mg) p fd = Inr (Some m, bp', d')"
      "Pin ops (mg_pools mg ! i) p fd = Inr (None, bp0)" "aw_mgr w = mg\<lparr>mg_pools := (mg_pools mg)[i := bp0]\<rparr>"
  shows "\<exists>N. \<forall>rounds\<ge>N. \<forall>fuel\<ge>N. \<exists>w'. pool_Run rounds fuel aio latency ops qops cops i w =
      Inr (replicate BATCH_SIZE_BUFFER_POOL None, w') \<and>
    aw_mgr w' = mg\<lparr>mg_pools := (mg_pools mg)[i := bp'], mg_disk := d'\<rparr> \<and>
    aw_blocks w' = (aw_blocks w)(pid \<mapsto> one_page file_offset block_size (PTE_ref i m))"
proof -
  obtain k' req where a: "runs (async_step aio latency ops qops p) k'
      (async_request_new fd file_offset block_size, bp0, mg_disk mg) (req, bp', d')" "ar_response req = Some m"
    by (rule async_fetch_runs [OF laws(2) f(1,2)])
  have keep: "ar_block_size req = block_size" "ar_file_offset req = file_offset"
    using async_runs_keeps [OF a(1)] by (simp_all add: async_request_new_def)
  obtain J where J: "BATCH_SIZE_BUFFER_POOL = Suc J" by (simp add: BATCH_SIZE_BUFFER_POOL_def)
  let ?mg = "mg\<lparr>mg_pools := (mg_pools mg)[i := bp'], mg_disk := d'\<rparr>"
  let ?b = "one_page file_offset block_size (PTE_ref i m)"
  have run: "\<exists>w'. pool_Run rounds fuel aio latency ops qops cops i w = Inr (replicate BATCH_SIZE_BUFFER_POOL None, w') \<and>
      aw_mgr w' = ?mg \<and> aw_blocks w' = (aw_blocks w)(pid \<mapsto> ?b)" if le: "Suc k' \<le> rounds" "Suc k' \<le> fuel" for rounds fuel
  proof -
    have "async_until (Suc k') fuel aio latency ops qops (async_request_new fd file_offset block_size, bp0, mg_disk mg) =
        Inr (req, bp', d')"
      using runs_until [OF a(1), of fuel "Suc k'"] le
      by (simp add: async_until_eq p(1) async_request_new_def first_page_def)
    then have u: "proc_until (Suc k') (pool_ProcessFunc fuel aio latency ops qops i) r w =
        Inr (r\<lparr>pr_req := req\<rparr>, w\<lparr>aw_mgr := ?mg\<rparr>)"
      using proc_until_pool [of i w r "Suc k'" fuel aio latency ops qops req bp' d'] p(2) r f(3) by simp
    have q: "PromiseSetValue i (r\<lparr>pr_req := req\<rparr>) (w\<lparr>aw_mgr := ?mg\<rparr>) =
        Inr (w\<lparr>aw_mgr := ?mg, aw_blocks := (aw_blocks w)(pid \<mapsto> ?b)\<rparr>)"
      using a(2) keep one_page_insert [of block_size "PTE_ref i m" file_offset]
      by (simp add: PromiseSetValue_def r first_offset_def Let_def)
    obtain ch' where "serve_rounds rounds (serve_slot_now (pool_ProcessFunc fuel aio latency ops qops i) (PromiseSetValue i) cops)
        (replicate (Suc J) None) (aw_channels w ! i) w =
        Inr (replicate (Suc J) None, ch', w\<lparr>aw_mgr := ?mg, aw_blocks := (aw_blocks w)(pid \<mapsto> ?b)\<rparr>)"
      by (rule rounds_one_request [where crep = crep and post = "PromiseSetValue i", OF laws(1) i(3) u q le(1)])
    then show ?thesis using i(2) by (simp add: pool_Run_def pool_serve_def J)
  qed
  then show ?thesis by blast
qed

section \<open>Waiting for the pages of a block\<close>

definition ready :: "(nat \<rightharpoonup> pte_ref option) \<Rightarrow> nat option \<Rightarrow> bool" where
  "ready pages future = (case future of None \<Rightarrow> True | Some f \<Rightarrow> pages f \<noteq> None)"

lemma first_unready_eq:
  "cur + n = length futures \<Longrightarrow>
   if \<forall>j. cur \<le> j \<and> j < length futures \<longrightarrow> ready pages (futures ! j)
   then first_unready pages futures n cur = Inr (True, length futures)
   else \<exists>j. first_unready pages futures n cur = Inr (False, j) \<and> cur \<le> j \<and> j < length futures \<and>
     \<not> ready pages (futures ! j) \<and> (\<forall>i. cur \<le> i \<and> i < j \<longrightarrow> ready pages (futures ! i))"
proof (induction n arbitrary: cur)
  case (Suc n)
  then have lt: "cur < length futures" by simp
  show ?case
  proof (cases "ready pages (futures ! cur)")
    case True
    have all: "(\<forall>j. cur \<le> j \<and> j < m \<longrightarrow> ready pages (futures ! j)) \<longleftrightarrow> (\<forall>j. cur + 1 \<le> j \<and> j < m \<longrightarrow> ready pages (futures ! j))" for m
      using True by (auto simp: Suc_le_eq dest: le_neq_implies_less)
    have "first_unready pages futures (Suc n) cur = first_unready pages futures n (cur + 1)"
      using True lt by (auto simp: ready_def split: option.splits)
    then show ?thesis using Suc.IH [of "cur + 1"] Suc.prems unfolding all by (auto simp: Suc_le_eq split: if_splits)
  next
    case False
    then have "first_unready pages futures (Suc n) cur = Inr (False, cur)"
      using lt by (auto simp: ready_def split: option.splits)
    then show ?thesis using False lt by (auto intro!: exI [of _ cur])
  qed
qed simp

text \<open>What \<open>FinishWaiting\<close> puts into the slot of a page; \<open>off\<close> is the offset in that page.\<close>

definition filled :: "(nat \<rightharpoonup> pte_ref option) \<Rightarrow> nat option \<Rightarrow> slice option \<Rightarrow> nat \<Rightarrow> slice option" where
  "filled pages future slot off =
     (case future of None \<Rightarrow> slot
      | Some f \<Rightarrow> map_option (\<lambda>r. slice_at off (r, False)) (Option.bind (pages f) (\<lambda>x. x)))"

lemma finish_pages_eq:
  "k + n = length (bq_futures req) \<Longrightarrow> bb_data (bq_response req) = Pages sls \<Longrightarrow> length sls = length (bq_futures req) \<Longrightarrow>
   bb_page_num (bq_response req) = length sls \<Longrightarrow>
   (\<And>j f. k \<le> j \<Longrightarrow> j < length sls \<Longrightarrow> bq_futures req ! j = Some f \<Longrightarrow> \<exists>r. pages f = Some (Some r)) \<Longrightarrow>
   finish_pages pages n k off req = Inr (req\<lparr>bq_response := (bq_response req)\<lparr>bb_data := Pages (take k sls @
       map (\<lambda>j. filled pages (bq_futures req ! j) (sls ! j) (if j = k then unat off else 0)) [k..<length sls])\<rparr>,
     bq_futures := take k (bq_futures req) @ replicate n None\<rparr>)"
proof (induction n arbitrary: k off req sls)
  case (Suc n)
  let ?new = "filled pages (bq_futures req ! k) (sls ! k) (unat off)"
  let ?req = "req\<lparr>bq_response := (bq_response req)\<lparr>bb_data := Pages (sls[k := ?new])\<rparr>, bq_futures := (bq_futures req)[k := None]\<rparr>"
  have lt: "k < length sls" using Suc.prems(1,3) by simp
  have one: "(if bb_page_num (bq_response req) = 1 then 0 else k) = k" using lt Suc.prems(4) by simp
  have step: "finish_pages pages (Suc n) k off req = finish_pages pages n (k + 1) 0 ?req"
  proof (cases "bq_futures req ! k")
    case None
    then have e: "(bq_futures req)[k := None] = bq_futures req" "sls[k := ?new] = sls" by (simp_all add: filled_def)
    have "?req = req" unfolding e using Suc.prems(2) by simp
    then show ?thesis using None lt Suc.prems(3) by simp
  next
    case (Some f)
    then obtain r where "pages f = Some (Some r)" using Suc.prems(5) [of k f] lt by auto
    then show ?thesis
      using Some lt Suc.prems(2,3) by (simp only: finish_pages.simps InsertPage_def one) (simp add: filled_def slice_at_def)
  qed
  have "finish_pages pages n (k + 1) 0 ?req = Inr (?req\<lparr>bq_response := (bq_response ?req)\<lparr>bb_data := Pages (take (k + 1) (sls[k := ?new]) @
       map (\<lambda>j. filled pages (bq_futures ?req ! j) (sls[k := ?new] ! j) (if j = k + 1 then unat (0 :: u64) else 0)) [k + 1..<length sls])\<rparr>,
     bq_futures := take (k + 1) (bq_futures ?req) @ replicate n None\<rparr>)"
  proof (subst Suc.IH [of "k + 1" ?req "sls[k := ?new]"])
    fix j f assume "k + 1 \<le> j" "j < length (sls[k := ?new])" "bq_futures ?req ! j = Some f"
    then show "\<exists>r. pages f = Some (Some r)" using Suc.prems(5) [of j f] by simp
  qed (use Suc.prems in simp_all)
  moreover have "take (k + 1) (sls[k := ?new]) = take k sls @ [?new]" "take (k + 1) (bq_futures ?req) = take k (bq_futures req) @ [None]"
    using lt Suc.prems(3) by (simp_all add: take_Suc_conv_app_nth)
  moreover have "[k..<length sls] = k # [k + 1..<length sls]" using lt by (simp add: upt_rec)
  ultimately show ?case unfolding step by (auto simp: replicate_app_Cons_same)
qed simp

section \<open>Properties\<close>

text \<open>The request of a block waits for exactly its pages.  While some future is not ready \<open>ProcessFunc\<close>
  answers \<open>false\<close> and remembers the first such page; once all are ready one call fills the slots of these pages
  with the frames of their futures, with the offset of the range in the first page only, and answers \<open>true\<close>.\<close>

theorem mgr_ProcessFunc_waits:
  assumes "bq_run_time_phase req = BWaiting" "length (bq_futures req) = bq_page_num req"
    and "bq_response req = \<lparr>bb_size = sz, bb_page_num = bq_page_num req, bb_data = Pages sls\<rparr>" "length sls = bq_page_num req"
    and "bq_curr_page_unfinished req \<le> bq_page_num req"
    and "\<forall>j < bq_curr_page_unfinished req. ready (aw_pages w) (bq_futures req ! j)" "\<forall>f. aw_pages w f \<noteq> Some None"
  shows "if \<forall>j < bq_page_num req. ready (aw_pages w) (bq_futures req ! j)
    then mgr_ProcessFunc fuel ops cops req w = Inr (True, req\<lparr>bq_curr_page_unfinished := bq_page_num req,
      bq_response := \<lparr>bb_size = sz, bb_page_num = bq_page_num req,
        bb_data = Pages (map (\<lambda>j. filled (aw_pages w) (bq_futures req ! j) (sls ! j)
          (if j = 0 then unat (first_offset (bq_file_offset req)) else 0)) [0..<bq_page_num req])\<rparr>,
      bq_futures := replicate (bq_page_num req) None, bq_run_time_phase := BEnd\<rparr>, w)
    else \<exists>j < bq_page_num req. mgr_ProcessFunc fuel ops cops req w = Inr (False, req\<lparr>bq_curr_page_unfinished := j\<rparr>, w) \<and>
      \<not> ready (aw_pages w) (bq_futures req ! j) \<and> (\<forall>i < j. ready (aw_pages w) (bq_futures req ! i))"
proof -
  let ?n = "bq_page_num req" and ?c = "bq_curr_page_unfinished req" and ?P = "\<lambda>j. ready (aw_pages w) (bq_futures req ! j)"
  have all: "(\<forall>j. ?c \<le> j \<and> j < m \<longrightarrow> ?P j) \<longleftrightarrow> (\<forall>j < m. ?P j)" for m using assms(6) by (meson not_le)
  note f = first_unready_eq [of ?c "?n - ?c" "bq_futures req" "aw_pages w", unfolded all assms(2)]
  show ?thesis
  proof (cases "\<forall>j < ?n. ?P j")
    case True
    then have f1: "first_unready (aw_pages w) (bq_futures req) (?n - ?c) ?c = Inr (True, ?n)"
      using f assms(5) by simp
    let ?req = "req\<lparr>bq_curr_page_unfinished := ?n, bq_run_time_phase := BFinishWaiting\<rparr>"
    have "\<exists>r. aw_pages w g = Some (Some r)" if "j < ?n" "bq_futures req ! j = Some g" for j g
    proof -
      have "ready (aw_pages w) (Some g)" "aw_pages w g \<noteq> Some None" using True that assms(7) by (simp_all flip: that(2))
      then show ?thesis by (auto simp: ready_def)
    qed
    then have "finish_pages (aw_pages w) ?n 0 (first_offset (bq_file_offset req)) ?req =
      Inr (?req\<lparr>bq_response := (bq_response req)\<lparr>bb_data := Pages (map (\<lambda>j. filled (aw_pages w) (bq_futures req ! j) (sls ! j)
          (if j = 0 then unat (first_offset (bq_file_offset req)) else 0)) [0..<?n])\<rparr>, bq_futures := replicate ?n None\<rparr>)"
      using finish_pages_eq [of 0 ?n ?req sls "aw_pages w" "first_offset (bq_file_offset req)"] assms(2-4) by simp
    then show ?thesis
      using True f1 assms(1,3) by (simp add: mgr_ProcessFunc_def block_step_def numeral_nat Let_def)
  next
    case False
    have "?c + (?n - ?c) = ?n" using assms(5) by simp
    then obtain j where j: "first_unready (aw_pages w) (bq_futures req) (?n - ?c) ?c = Inr (False, j)" "?c \<le> j" "j < ?n"
      "\<not> ?P j" "\<forall>i < j. ?P i"
      using f [unfolded if_not_P [OF False]] by blast
    then have "mgr_ProcessFunc fuel ops cops req w = Inr (False, req\<lparr>bq_curr_page_unfinished := j\<rparr>, w)"
      using assms(1) by (simp add: mgr_ProcessFunc_def block_step_def numeral_nat Let_def)
    then show ?thesis using False j(3-5) by auto
  qed
qed

lemma mgr_ProcessFunc_waits_witness:
  "\<exists>r. mgr_ProcessFunc 1 s3_ops (list_channel 4 :: (pool_request list, pool_request) channel_ops)
      ((block_request_new 7 0 100 8000 2)\<lparr>bq_futures := [Some 0, Some 1], bq_run_time_phase := BWaiting\<rparr>)
      \<lparr>aw_mgr = small_mgr r, aw_channels = [[]], aw_channel = (), aw_next = 2, aw_pages = [0 \<mapsto> Some (PTE_ref 0 1)],
        aw_blocks = Map.empty\<rparr> =
    Inr (False, (block_request_new 7 0 100 8000 2)\<lparr>bq_futures := [Some 0, Some 1], bq_run_time_phase := BWaiting,
        bq_curr_page_unfinished := 1\<rparr>,
      \<lparr>aw_mgr = small_mgr r, aw_channels = [[]], aw_channel = (), aw_next = 2, aw_pages = [0 \<mapsto> Some (PTE_ref 0 1)],
        aw_blocks = Map.empty\<rparr>)"
proof -
  let ?req = "(block_request_new 7 0 100 8000 2)\<lparr>bq_futures := [Some 0, Some 1], bq_run_time_phase := BWaiting\<rparr>"
  define w :: "(sieve3, frame list, pool_request list, unit) async_world" where
    "w = \<lparr>aw_mgr = small_mgr undefined, aw_channels = [[]], aw_channel = (), aw_next = 2,
      aw_pages = [0 \<mapsto> Some (PTE_ref 0 1)], aw_blocks = Map.empty\<rparr>"
  have n: "\<not> (\<forall>j < bq_page_num ?req. ready (aw_pages w) (bq_futures ?req ! j))"
    by (auto simp: block_request_new_def w_def ready_def intro!: exI [of _ 1])
  have r: "bq_response ?req = \<lparr>bb_size = 8000, bb_page_num = bq_page_num ?req, bb_data = Pages (replicate 2 None)\<rparr>"
    by (simp add: block_request_new_def bb_pages_def)
  have p: "bq_run_time_phase ?req = BWaiting" "length (bq_futures ?req) = bq_page_num ?req"
    "length (replicate 2 (None :: slice option)) = bq_page_num ?req" "bq_curr_page_unfinished ?req \<le> bq_page_num ?req"
    "\<forall>j < bq_curr_page_unfinished ?req. ready (aw_pages w) (bq_futures ?req ! j)" "\<forall>f. aw_pages w f \<noteq> Some None"
    by (simp_all add: block_request_new_def w_def)
  obtain j where "j < bq_page_num ?req"
    "mgr_ProcessFunc 1 s3_ops (list_channel 4 :: (pool_request list, pool_request) channel_ops) ?req w =
      Inr (False, ?req\<lparr>bq_curr_page_unfinished := j\<rparr>, w)"
    "\<not> ready (aw_pages w) (bq_futures ?req ! j)"
    using mgr_ProcessFunc_waits [OF p(1,2) r p(3-6), unfolded if_not_P [OF n]] by blast
  then have j: "j < 2" "mgr_ProcessFunc 1 s3_ops (list_channel 4 :: (pool_request list, pool_request) channel_ops) ?req w =
      Inr (False, ?req\<lparr>bq_curr_page_unfinished := j\<rparr>, w)" "\<not> ready (aw_pages w) ([Some 0, Some 1] ! j)"
    by (simp_all add: block_request_new_def)
  then have "j = 1" by (cases j) (auto simp: ready_def w_def less_Suc_eq)
  then show ?thesis using j(2) unfolding w_def by blast
qed



end
