(* ===== verification/NodeHeap.thy ===== *)
theory NodeHeap
  imports Dll PageTable "HOL-Library.AList_Mapping"
begin

text \<open>
  The heap of list nodes that the pointer-linked replacers share (\<open>struct ListNode\<close> of
  \<^verbatim>\<open>lru_replacer.h\<close>, \<^verbatim>\<open>fifo_replacer.h\<close>, \<^verbatim>\<open>clock_replacer.h\<close>): nodes at addresses, allocated by
  \<open>new\<close> and removed by \<open>delete\<close>, so that reading through a dangling or null pointer is a fault.
  The members \<open>head_\<close> and \<open>tail_\<close> are sentinel nodes at two fixed addresses.
  \<open>list_shape h ps\<close> says that the nodes between them are \<open>ps\<close>, front first; linking and unlinking
  are proved to act on \<open>ps\<close>, with the lemmas on chains that the array-linked lists use too.
\<close>

section \<open>Nodes and heaps\<close>

record ptr_node =
  pn_val :: mpage_id
  pn_prev :: nat
  pn_next :: nat

record 'n node_heap =
  nh_nodes :: "nat \<Rightarrow> 'n option"
  nh_fresh :: nat

definition NULL_ADDR :: nat where "NULL_ADDR = 0"
definition HEAD_ADDR :: nat where "HEAD_ADDR = 1"
definition TAIL_ADDR :: nat where "TAIL_ADDR = 2"

definition nh_get :: "'n node_heap \<Rightarrow> nat \<Rightarrow> 'n res" where
  "nh_get h p = (case nh_nodes h p of None \<Rightarrow> Inl NullDeref | Some n \<Rightarrow> Inr n)"

definition nh_put :: "'n node_heap \<Rightarrow> nat \<Rightarrow> 'n \<Rightarrow> 'n node_heap" where
  "nh_put h p n = h\<lparr>nh_nodes := (nh_nodes h)(p := Some n)\<rparr>"

definition nh_upd :: "('n \<Rightarrow> 'n) \<Rightarrow> 'n node_heap \<Rightarrow> nat \<Rightarrow> 'n node_heap res" where
  "nh_upd f h p = bindE (nh_get h p) (\<lambda>n. Inr (nh_put h p (f n)))"

definition nh_set_next :: "('a ptr_node_scheme) node_heap \<Rightarrow> nat \<Rightarrow> nat \<Rightarrow> ('a ptr_node_scheme) node_heap res" where
  "nh_set_next h p q = nh_upd (\<lambda>n. n\<lparr>pn_next := q\<rparr>) h p"

definition nh_set_prev :: "('a ptr_node_scheme) node_heap \<Rightarrow> nat \<Rightarrow> nat \<Rightarrow> ('a ptr_node_scheme) node_heap res" where
  "nh_set_prev h p q = nh_upd (\<lambda>n. n\<lparr>pn_prev := q\<rparr>) h p"

definition nh_new :: "'n node_heap \<Rightarrow> 'n \<Rightarrow> nat \<times> 'n node_heap" where
  "nh_new h n = (nh_fresh h, h\<lparr>nh_nodes := (nh_nodes h)(nh_fresh h := Some n), nh_fresh := Suc (nh_fresh h)\<rparr>)"

definition nh_delete :: "'n node_heap \<Rightarrow> nat \<Rightarrow> 'n node_heap res" where
  "nh_delete h p = bindE (nh_get h p) (\<lambda>_. Inr (h\<lparr>nh_nodes := (nh_nodes h)(p := None)\<rparr>))"

text \<open>The sentinels: their links as the constructors set them, the other members uninitialised.\<close>

definition nh_sentinels :: "(nat \<Rightarrow> 'a ptr_node_scheme) \<Rightarrow> ('a ptr_node_scheme) node_heap" where
  "nh_sentinels junk = \<lparr>nh_nodes = (\<lambda>_. None)
      (HEAD_ADDR := Some ((junk HEAD_ADDR)\<lparr>pn_next := TAIL_ADDR, pn_prev := NULL_ADDR\<rparr>),
       TAIL_ADDR := Some ((junk TAIL_ADDR)\<lparr>pn_prev := HEAD_ADDR, pn_next := NULL_ADDR\<rparr>)),
     nh_fresh = 3\<rparr>"

text \<open>\<open>cur->prev->next = cur->next; cur->next->prev = cur->prev;\<close>\<close>

definition unlink_node :: "('a ptr_node_scheme) node_heap \<Rightarrow> nat \<Rightarrow> ('a ptr_node_scheme) node_heap res" where
  "unlink_node h cur =
     bindE (nh_get h cur) (\<lambda>n.
     bindE (nh_set_next h (pn_prev n) (pn_next n)) (\<lambda>h.
     bindE (nh_get h cur) (\<lambda>n.
     nh_set_prev h (pn_next n) (pn_prev n))))"

text \<open>\<open>cur->next = head_.next; cur->prev = &head_; head_.next->prev = cur; head_.next = cur;\<close>\<close>

definition link_front :: "('a ptr_node_scheme) node_heap \<Rightarrow> nat \<Rightarrow> ('a ptr_node_scheme) node_heap res" where
  "link_front h cur =
     bindE (nh_get h HEAD_ADDR) (\<lambda>hd.
     bindE (nh_set_next h cur (pn_next hd)) (\<lambda>h.
     bindE (nh_set_prev h cur HEAD_ADDR) (\<lambda>h.
     bindE (nh_get h HEAD_ADDR) (\<lambda>hd.
     bindE (nh_set_prev h (pn_next hd) cur) (\<lambda>h.
     nh_set_next h HEAD_ADDR cur)))))"

section \<open>Reading a heap\<close>

definition nh_nxt :: "('a ptr_node_scheme) node_heap \<Rightarrow> nat \<Rightarrow> nat" where
  "nh_nxt h p = pn_next (the (nh_nodes h p))"

definition nh_prv :: "('a ptr_node_scheme) node_heap \<Rightarrow> nat \<Rightarrow> nat" where
  "nh_prv h p = pn_prev (the (nh_nodes h p))"

definition nh_val :: "('a ptr_node_scheme) node_heap \<Rightarrow> nat \<Rightarrow> mpage_id" where
  "nh_val h p = pn_val (the (nh_nodes h p))"

definition nh_dom :: "'n node_heap \<Rightarrow> nat set" where
  "nh_dom h = dom (nh_nodes h)"

text \<open>The total versions of the two link updates.\<close>

definition put_nxt :: "('a ptr_node_scheme) node_heap \<Rightarrow> nat \<Rightarrow> nat \<Rightarrow> ('a ptr_node_scheme) node_heap" where
  "put_nxt h p q = nh_put h p ((the (nh_nodes h p))\<lparr>pn_next := q\<rparr>)"

definition put_prv :: "('a ptr_node_scheme) node_heap \<Rightarrow> nat \<Rightarrow> nat \<Rightarrow> ('a ptr_node_scheme) node_heap" where
  "put_prv h p q = nh_put h p ((the (nh_nodes h p))\<lparr>pn_prev := q\<rparr>)"

named_theorems nh_simps "links and values of a heap of nodes after an update"

lemma nh_get_in [nh_simps]: "p \<in> nh_dom h \<Longrightarrow> nh_get h p = Inr (the (nh_nodes h p))"
  by (auto simp: nh_get_def nh_dom_def)

lemma nh_set_in [nh_simps]:
  "p \<in> nh_dom h \<Longrightarrow> nh_set_next h p q = Inr (put_nxt h p q)"
  "p \<in> nh_dom h \<Longrightarrow> nh_set_prev h p q = Inr (put_prv h p q)"
  by (simp_all add: nh_set_next_def nh_set_prev_def nh_upd_def nh_simps put_nxt_def put_prv_def)

lemma nh_delete_in [nh_simps]:
  "p \<in> nh_dom h \<Longrightarrow> nh_delete h p = Inr (h\<lparr>nh_nodes := (nh_nodes h)(p := None)\<rparr>)"
  by (simp add: nh_delete_def nh_simps)

lemma nh_reads [nh_simps]:
  "pn_next (the (nh_nodes h p)) = nh_nxt h p" "pn_prev (the (nh_nodes h p)) = nh_prv h p"
  "pn_val (the (nh_nodes h p)) = nh_val h p"
  by (simp_all add: nh_nxt_def nh_prv_def nh_val_def)

lemma nh_put_links [nh_simps]:
  "nh_nxt (put_nxt h p q) = (nh_nxt h)(p := q)" "nh_nxt (put_prv h p q) = nh_nxt h"
  "nh_prv (put_prv h p q) = (nh_prv h)(p := q)" "nh_prv (put_nxt h p q) = nh_prv h"
  "nh_val (put_nxt h p q) = nh_val h" "nh_val (put_prv h p q) = nh_val h"
  by (auto simp: put_nxt_def put_prv_def nh_put_def nh_nxt_def nh_prv_def nh_val_def)

lemma nh_put_rest [nh_simps]:
  "p \<in> nh_dom h \<Longrightarrow> nh_dom (put_nxt h p q) = nh_dom h" "p \<in> nh_dom h \<Longrightarrow> nh_dom (put_prv h p q) = nh_dom h"
  "nh_fresh (put_nxt h p q) = nh_fresh h" "nh_fresh (put_prv h p q) = nh_fresh h"
  by (auto simp: put_nxt_def put_prv_def nh_put_def nh_dom_def)

section \<open>The list between the sentinels\<close>

definition list_shape :: "('a ptr_node_scheme) node_heap \<Rightarrow> nat list \<Rightarrow> bool" where
  "list_shape h ps \<longleftrightarrow> chain (nh_nxt h) (nh_prv h) (HEAD_ADDR # ps @ [TAIL_ADDR]) \<and>
     distinct (HEAD_ADDR # ps @ [TAIL_ADDR]) \<and> set (HEAD_ADDR # ps @ [TAIL_ADDR]) \<subseteq> nh_dom h"

lemma list_shapeD:
  assumes "list_shape h ps"
  shows "distinct ps" "HEAD_ADDR \<notin> set ps" "TAIL_ADDR \<notin> set ps" "HEAD_ADDR \<in> nh_dom h" "TAIL_ADDR \<in> nh_dom h"
    "p \<in> set ps \<Longrightarrow> p \<in> nh_dom h"
  using assms by (auto simp: list_shape_def)

lemma list_shape_cong:
  assumes "list_shape h ps" "set (HEAD_ADDR # ps @ [TAIL_ADDR]) \<subseteq> nh_dom h'"
    "\<And>p. p \<in> set (HEAD_ADDR # ps @ [TAIL_ADDR]) \<Longrightarrow> nh_nxt h' p = nh_nxt h p \<and> nh_prv h' p = nh_prv h p"
  shows "list_shape h' ps"
proof -
  let ?c = "HEAD_ADDR # ps @ [TAIL_ADDR]"
  have c: "nh_nxt h' p = nh_nxt h p \<and> nh_prv h' p = nh_prv h p" if "p \<in> set ?c" for p
    using assms(3) that by blast
  have "p \<in> set ?c" if "p \<in> set (butlast ?c)" for p using that by (rule in_set_butlastD)
  moreover have "p \<in> set ?c" if "p \<in> set (tl ?c)" for p using that by (rule in_set_tlD)
  ultimately have "chain (nh_nxt h') (nh_prv h') ?c = chain (nh_nxt h) (nh_prv h) ?c"
    using c by (intro chain_cong) blast+
  then show ?thesis using assms(1,2) by (simp add: list_shape_def)
qed

lemma list_shape_links:
  assumes s: "list_shape h ps"
  shows "k < length ps \<Longrightarrow> nh_prv h (ps ! k) = (HEAD_ADDR # ps) ! k"
    and "nh_prv h TAIL_ADDR = last (HEAD_ADDR # ps)"
proof -
  let ?c = "HEAD_ADDR # ps @ [TAIL_ADDR]"
  have c: "chain (nh_nxt h) (nh_prv h) ?c" using s by (simp add: list_shape_def)
  show "nh_prv h (ps ! k) = (HEAD_ADDR # ps) ! k" if "k < length ps"
    using chain_prv_nth [OF c, of k] that by (cases k) (simp_all add: nth_append)
  show "nh_prv h TAIL_ADDR = last (HEAD_ADDR # ps)"
    using chain_prv_nth [OF c, of "length ps"]
    by (cases ps rule: rev_cases) (simp_all add: nth_append nth_Cons')
qed

lemma unlink_node_shape:
  assumes s: "list_shape h ps" and p: "p \<in> set ps"
  shows "\<exists>h'. unlink_node h p = Inr h' \<and> list_shape h' (remove1 p ps) \<and> nh_val h' = nh_val h \<and>
    nh_dom h' = nh_dom h \<and> nh_fresh h' = nh_fresh h"
proof -
  obtain ys zs where ps: "ps = ys @ p # zs" "p \<notin> set ys" "p \<notin> set zs"
    using p list_shapeD(1) [OF s] by (metis distinct.simps(2) distinct_append in_set_conv_decomp_first)
  obtain as a where a: "HEAD_ADDR # ys = as @ [a]" by (metis append_butlast_last_id list.distinct(1))
  obtain b bs where b: "zs @ [TAIL_ADDR] = b # bs" by (cases zs) auto
  have e1: "HEAD_ADDR # ps @ [TAIL_ADDR] = as @ a # p # b # bs"
    using ps a b by (metis append.assoc append_Cons append_Nil)
  have e2: "HEAD_ADDR # remove1 p ps @ [TAIL_ADDR] = as @ a # b # bs"
    using ps a b by (simp add: remove1_append)
  have c: "chain (nh_nxt h) (nh_prv h) (as @ a # p # b # bs)" and d: "distinct (as @ a # p # b # bs)"
    and m: "set (as @ a # p # b # bs) \<subseteq> nh_dom h"
    using s unfolding list_shape_def e1 by blast+
  have ab: "nh_prv h p = a" "nh_nxt h p = b"
    using c chain_append2 [of "nh_nxt h" "nh_prv h" as a p "b # bs"] by simp_all
  have u: "unlink_node h p = Inr (put_prv (put_nxt h a b) b a)"
    using m ab d by (auto simp: unlink_node_def nh_simps)
  have "chain ((nh_nxt h)(a := b, p := nh_nxt h p)) ((nh_prv h)(b := a, p := nh_prv h p)) (as @ a # b # bs)"
    using chain_unlink [OF c d] .
  moreover have "(nh_nxt h)(a := b, p := nh_nxt h p) = (nh_nxt h)(a := b)"
    "(nh_prv h)(b := a, p := nh_prv h p) = (nh_prv h)(b := a)" using d by auto
  ultimately show ?thesis
    using u m d unfolding list_shape_def e2 by (simp add: nh_simps)
qed

lemma link_front_shape:
  assumes s: "list_shape h ps" and p: "p \<in> nh_dom h" "p \<notin> set (HEAD_ADDR # ps @ [TAIL_ADDR])"
  shows "\<exists>h'. link_front h p = Inr h' \<and> list_shape h' (p # ps) \<and> nh_val h' = nh_val h \<and>
    nh_dom h' = nh_dom h \<and> nh_fresh h' = nh_fresh h"
proof -
  obtain b bs where b: "ps @ [TAIL_ADDR] = b # bs" by (cases ps) auto
  have c: "chain (nh_nxt h) (nh_prv h) (HEAD_ADDR # b # bs)" and d: "distinct (HEAD_ADDR # b # bs)"
    and m: "set (HEAD_ADDR # b # bs) \<subseteq> nh_dom h" and n: "p \<notin> set (HEAD_ADDR # b # bs)"
    using s p(2) unfolding list_shape_def b by blast+
  have hb: "nh_nxt h HEAD_ADDR = b" using c by simp
  have l: "link_front h p = Inr (put_nxt (put_prv (put_prv (put_nxt h p b) p HEAD_ADDR) b p) HEAD_ADDR p)"
    using m p(1) n hb by (simp add: link_front_def nh_simps)
  have "chain ((nh_nxt h)(HEAD_ADDR := p, p := b)) ((nh_prv h)(b := p, p := HEAD_ADDR)) ([] @ HEAD_ADDR # p # b # bs)"
    by (rule chain_link) (use c d n in simp_all)
  moreover have "(nh_nxt h)(HEAD_ADDR := p, p := b) = (nh_nxt h)(p := b, HEAD_ADDR := p)"
    "(nh_prv h)(b := p, p := HEAD_ADDR) = (nh_prv h)(p := HEAD_ADDR, b := p)"
    using n by (auto simp: fun_eq_iff)
  ultimately show ?thesis
    using l m p(1) n d unfolding list_shape_def append_Cons b by (simp add: nh_simps)
qed

lemma nh_new_shape:
  assumes s: "list_shape h ps" and f: "\<forall>p\<in>nh_dom h. p < nh_fresh h" and n: "nh_new h n = (p, h')"
  shows "list_shape h' ps" "nh_dom h' = insert p (nh_dom h)" "p \<notin> nh_dom h" "p = nh_fresh h"
    "nh_fresh h' = Suc (nh_fresh h)" "nh_val h' = (nh_val h)(p := pn_val n)"
proof -
  have p: "p = nh_fresh h" "p \<notin> nh_dom h" using n f by (auto simp: nh_new_def)
  then show "p = nh_fresh h" "p \<notin> nh_dom h" by blast+
  show "nh_dom h' = insert p (nh_dom h)" "nh_fresh h' = Suc (nh_fresh h)"
    "nh_val h' = (nh_val h)(p := pn_val n)"
    using n by (auto simp: nh_new_def nh_dom_def nh_val_def)
  have "nh_nxt h' q = nh_nxt h q \<and> nh_prv h' q = nh_prv h q" if "q \<in> nh_dom h" for q
    using n p(2) that by (auto simp: nh_new_def nh_nxt_def nh_prv_def)
  then show "list_shape h' ps"
    using s n by (intro list_shape_cong [OF s]) (auto simp: list_shape_def nh_new_def nh_dom_def)
qed

lemma nh_delete_shape:
  assumes s: "list_shape h ps" and p: "p \<in> nh_dom h" "p \<notin> set (HEAD_ADDR # ps @ [TAIL_ADDR])"
  shows "\<exists>h'. nh_delete h p = Inr h' \<and> list_shape h' ps \<and> nh_dom h' = nh_dom h - {p} \<and>
    nh_fresh h' = nh_fresh h \<and> (\<forall>q. q \<noteq> p \<longrightarrow> nh_val h' q = nh_val h q)"
proof -
  let ?h = "h\<lparr>nh_nodes := (nh_nodes h)(p := None)\<rparr>"
  have "list_shape ?h ps"
    using s p(2) by (intro list_shape_cong [OF s]) (auto simp: list_shape_def nh_dom_def nh_nxt_def nh_prv_def)
  then show ?thesis using p(1) by (auto simp: nh_simps) (auto simp: nh_dom_def nh_val_def)
qed

lemma nh_sentinels_shape: "list_shape (nh_sentinels junk) []" "nh_dom (nh_sentinels junk) = {HEAD_ADDR, TAIL_ADDR}"
  "nh_fresh (nh_sentinels junk) = 3"
  by (auto simp: list_shape_def nh_sentinels_def nh_dom_def nh_nxt_def nh_prv_def HEAD_ADDR_def TAIL_ADDR_def NULL_ADDR_def)

end
