(* ===== verification/PtrPolicies.thy ===== *)
theory PtrPolicies
  imports NodeHeap QueuePolicies
begin

text \<open>
  \<open>LRUReplacer\<close> and \<open>FIFOReplacer\<close> (\<^verbatim>\<open>include/replacer/lru_replacer.h\<close>, \<^verbatim>\<open>fifo_replacer.h\<close>): a
  list of heap nodes between two sentinel members, and a hash map from frames to their nodes.
  Both are proved to implement the same queue as the policies over a list array, so that the two
  versions of each policy cannot be told apart (see \<open>QueueVersions\<close>), except that the batch form
  of \<open>LRUReplacer\<close> loses the frames it skips (see \<open>BatchVictims\<close>).
\<close>

section \<open>The state and the operations that the two classes share\<close>

record 'n ptr_list =
  pl_heap :: "'n node_heap"
  pl_map :: "(mpage_id, nat) mapping"

definition pl_new :: "(nat \<Rightarrow> 'a ptr_node_scheme) \<Rightarrow> ('a ptr_node_scheme) ptr_list" where
  "pl_new junk = \<lparr>pl_heap = nh_sentinels junk, pl_map = Mapping.empty\<rparr>"

text \<open>The links of a new node are written by \<open>link_front\<close> before they are read.\<close>

definition ListNode_ptr :: "mpage_id \<Rightarrow> ptr_node" where
  "ListNode_ptr value = \<lparr>pn_val = value, pn_prev = NULL_ADDR, pn_next = NULL_ADDR\<rparr>"

definition pl_Insert :: "ptr_node ptr_list \<Rightarrow> mpage_id \<Rightarrow> (bool \<times> ptr_node ptr_list) res" where
  "pl_Insert r value =
     (if Mapping.lookup (pl_map r) value \<noteq> None then Inr (False, r)
      else let (cur, h) = nh_new (pl_heap r) (ListNode_ptr value) in
        bindE (link_front h cur) (\<lambda>h.
        Inr (True, \<lparr>pl_heap = h, pl_map = Mapping.update value cur (pl_map r)\<rparr>)))"

text \<open>Taking a node out: its neighbours joined, its map entry erased, the node deleted.\<close>

definition pl_take :: "('a ptr_node_scheme) ptr_list \<Rightarrow> nat \<Rightarrow> (mpage_id \<times> ('a ptr_node_scheme) ptr_list) res" where
  "pl_take r cur =
     bindE (unlink_node (pl_heap r) cur) (\<lambda>h.
     bindE (nh_get h cur) (\<lambda>n.
     bindE (nh_delete h cur) (\<lambda>h.
     Inr (pn_val n, \<lparr>pl_heap = h, pl_map = Mapping.delete (pn_val n) (pl_map r)\<rparr>))))"

definition pl_Erase :: "('a ptr_node_scheme) ptr_list \<Rightarrow> mpage_id \<Rightarrow> (bool \<times> ('a ptr_node_scheme) ptr_list) res" where
  "pl_Erase r value =
     (case Mapping.lookup (pl_map r) value of
        Some cur \<Rightarrow> bindE (pl_take r cur) (\<lambda>(_, r). Inr (True, r))
      | None \<Rightarrow> Inr (False, r))"

definition pl_Size :: "'n ptr_list \<Rightarrow> u64 res" where
  "pl_Size r = Inr (of_nat (Mapping.size (pl_map r)))"

text \<open>\<open>bucket_count\<close> and the sizes of the classes belong to the compiler and its library.\<close>

definition pl_GetMemoryUsage :: "nat \<Rightarrow> nat \<Rightarrow> nat \<Rightarrow> 'n ptr_list \<Rightarrow> nat" where
  "pl_GetMemoryUsage element_size bucket_count sizeof_map r =
     element_size * Mapping.size (pl_map r) + 8 * bucket_count + (sizeof_map + 8 * 2)"

text \<open>The destructor deletes the nodes from the back; each round is one node.\<close>

fun pl_destroy :: "nat \<Rightarrow> ('a ptr_node_scheme) node_heap \<Rightarrow> ('a ptr_node_scheme) node_heap res" where
  "pl_destroy 0 h = Inl OutOfFuel"
| "pl_destroy (Suc fuel) h =
     bindE (nh_get h TAIL_ADDR) (\<lambda>t.
     if pn_prev t = HEAD_ADDR then Inr h
     else bindE (nh_get h (pn_prev t)) (\<lambda>n.
       bindE (nh_delete h (pn_prev t)) (\<lambda>h.
       bindE (nh_set_prev h TAIL_ADDR (pn_prev n)) (\<lambda>h. pl_destroy fuel h))))"

text \<open>The node behind a given one, towards the front.\<close>

definition node_before :: "('a ptr_node_scheme) node_heap \<Rightarrow> nat \<Rightarrow> nat res" where
  "node_before h p = bindE (nh_get h p) (\<lambda>n. Inr (pn_prev n))"

text \<open>The end of \<open>Victim\<close>: take the frame the scan found, or report that there is none.\<close>

definition pl_evict :: "('a ptr_node_scheme) ptr_list \<Rightarrow> nat option \<times> page_table \<Rightarrow>
    ((bool \<times> mpage_id) \<times> ('a ptr_node_scheme) ptr_list \<times> page_table) res" where
  "pl_evict r = (\<lambda>(v, pt). case v of
      None \<Rightarrow> Inr ((False, 0), r, pt)
    | Some p \<Rightarrow> bindE (pl_take r p) (\<lambda>(m, r). Inr ((True, m), r, pt)))"

section \<open>LRUReplacer\<close>

definition l1_Promote :: "ptr_node ptr_list \<Rightarrow> mpage_id \<Rightarrow> (bool \<times> ptr_node ptr_list) res" where
  "l1_Promote r value =
     (case Mapping.lookup (pl_map r) value of
        Some cur \<Rightarrow> bindE (unlink_node (pl_heap r) cur) (\<lambda>h.
          bindE (link_front h cur) (\<lambda>h. Inr (True, r\<lparr>pl_heap := h\<rparr>)))
      | None \<Rightarrow> Inr (False, r))"

text \<open>
  The loop of \<open>Victim\<close>, which skips pinned frames before it tries to lock: \<open>None\<close> is \<open>return
  false\<close>.  One more iteration than there are nodes is enough fuel.
\<close>

fun l1_loop :: "nat \<Rightarrow> ptr_node node_heap \<Rightarrow> nat \<Rightarrow> page_table \<Rightarrow> (nat option \<times> page_table) res" where
  "l1_loop 0 h p pt = Inl OutOfFuel"
| "l1_loop (Suc fuel) h p pt =
     (if p = HEAD_ADDR then Inr (None, pt)
      else bindE (nh_get h p) (\<lambda>n.
        bindE (FromPageId pt (pn_val n)) (\<lambda>w.
        if pte_ref_count w \<noteq> 0 then bindE (node_before h p) (\<lambda>p. l1_loop fuel h p pt)
        else bindE (try_evict False pt (pn_val n)) (\<lambda>(found, pt).
          if found then Inr (Some p, pt)
          else bindE (node_before h p) (\<lambda>p. l1_loop fuel h p pt)))))"

definition l1_Victim :: "ptr_node ptr_list \<Rightarrow> page_table \<Rightarrow>
    ((bool \<times> mpage_id) \<times> ptr_node ptr_list \<times> page_table) res" where
  "l1_Victim r pt =
     bindE (node_before (pl_heap r) TAIL_ADDR) (\<lambda>p.
     bindE (l1_loop (Suc (Mapping.size (pl_map r))) (pl_heap r) p pt) (pl_evict r))"

text \<open>
  The scan of the batch form: clean frames only, and the mapping of the frame found is deleted,
  its result unused in \<open>LRUReplacer\<close>, asserted in \<open>FIFOReplacer\<close>.
\<close>

fun l1_batch_loop :: "nat \<Rightarrow> ptr_node node_heap \<Rightarrow> nat \<Rightarrow> page_table \<Rightarrow> (nat option \<times> page_table) res" where
  "l1_batch_loop 0 h p pt = Inl OutOfFuel"
| "l1_batch_loop (Suc fuel) h p pt =
     (if p = HEAD_ADDR then Inr (None, pt)
      else bindE (nh_get h p) (\<lambda>n.
        bindE (try_evict True pt (pn_val n)) (\<lambda>(found, pt).
        if found then
          bindE (FromPageId pt (pn_val n)) (\<lambda>w.
          bindE (DeleteMapping pt (pte_fd_cur w) (pte_fpage_id_cur w) (pn_val n)) (\<lambda>(_, pt).
          Inr (Some p, pt)))
        else bindE (node_before h p) (\<lambda>p. l1_batch_loop fuel h p pt))))"

text \<open>
  The batch form joins the victim's front neighbour to the tail, \<open>tail_.prev = victim->prev;
  victim->prev->next = &tail_\<close>, wherever in the list the victim is.
\<close>

definition l1_cut_tail :: "ptr_node ptr_list \<Rightarrow> nat \<Rightarrow> (mpage_id \<times> ptr_node ptr_list) res" where
  "l1_cut_tail r victim =
     bindE (nh_get (pl_heap r) victim) (\<lambda>n.
     bindE (nh_set_prev (pl_heap r) TAIL_ADDR (pn_prev n)) (\<lambda>h.
     bindE (nh_set_next h (pn_prev n) TAIL_ADDR) (\<lambda>h.
     bindE (nh_delete h victim) (\<lambda>h.
     Inr (pn_val n, \<lparr>pl_heap = h, pl_map = Mapping.delete (pn_val n) (pl_map r)\<rparr>)))))"

fun l1_Victim_batch :: "ptr_node ptr_list \<Rightarrow> page_table \<Rightarrow> mpage_id list \<Rightarrow> nat \<Rightarrow>
    (bool \<times> mpage_id list \<times> ptr_node ptr_list \<times> page_table) res" where
  "l1_Victim_batch r pt mpage_ids 0 = Inr (True, mpage_ids, r, pt)"
| "l1_Victim_batch r pt mpage_ids (Suc page_num) =
     bindE (node_before (pl_heap r) TAIL_ADDR) (\<lambda>p.
     bindE (l1_batch_loop (Suc (Mapping.size (pl_map r))) (pl_heap r) p pt) (\<lambda>(v, pt).
     case v of None \<Rightarrow> Inr (False, mpage_ids, r, pt)
     | Some p \<Rightarrow> bindE (l1_cut_tail r p) (\<lambda>(m, r).
         l1_Victim_batch r pt (mpage_ids @ [m]) page_num)))"

definition l1_ops :: "ptr_node ptr_list replacer_ops" where
  "l1_ops = \<lparr>op_Insert = pl_Insert, op_Promote = l1_Promote, op_Victim = l1_Victim,
     op_Erase = pl_Erase, op_Size = pl_Size\<rparr>"

section \<open>FIFOReplacer\<close>

text \<open>Its constructor, \<open>Insert\<close>, \<open>Erase\<close> and \<open>Size\<close> are word for word those of \<open>LRUReplacer\<close>.\<close>

definition f1_new :: "(nat \<Rightarrow> ptr_node) \<Rightarrow> ptr_node ptr_list" where
  "f1_new junk = pl_new junk"

definition f1_Insert :: "ptr_node ptr_list \<Rightarrow> mpage_id \<Rightarrow> (bool \<times> ptr_node ptr_list) res" where
  "f1_Insert r value = pl_Insert r value"

definition f1_Promote :: "ptr_node ptr_list \<Rightarrow> mpage_id \<Rightarrow> (bool \<times> ptr_node ptr_list) res" where
  "f1_Promote r value = Inr (True, r)"

fun f1_loop :: "nat \<Rightarrow> ptr_node node_heap \<Rightarrow> nat \<Rightarrow> page_table \<Rightarrow> (nat option \<times> page_table) res" where
  "f1_loop 0 h p pt = Inl OutOfFuel"
| "f1_loop (Suc fuel) h p pt =
     (if p = HEAD_ADDR then Inr (None, pt)
      else bindE (nh_get h p) (\<lambda>n.
        bindE (try_evict False pt (pn_val n)) (\<lambda>(found, pt).
        if found then Inr (Some p, pt)
        else bindE (node_before h p) (\<lambda>p. f1_loop fuel h p pt))))"

definition f1_Victim :: "ptr_node ptr_list \<Rightarrow> page_table \<Rightarrow>
    ((bool \<times> mpage_id) \<times> ptr_node ptr_list \<times> page_table) res" where
  "f1_Victim r pt =
     bindE (node_before (pl_heap r) TAIL_ADDR) (\<lambda>p.
     bindE (f1_loop (Suc (Mapping.size (pl_map r))) (pl_heap r) p pt) (pl_evict r))"

fun f1_batch_loop :: "nat \<Rightarrow> ptr_node node_heap \<Rightarrow> nat \<Rightarrow> page_table \<Rightarrow> (nat option \<times> page_table) res" where
  "f1_batch_loop 0 h p pt = Inl OutOfFuel"
| "f1_batch_loop (Suc fuel) h p pt =
     (if p = HEAD_ADDR then Inr (None, pt)
      else bindE (nh_get h p) (\<lambda>n.
        bindE (try_evict True pt (pn_val n)) (\<lambda>(found, pt).
        if found then
          bindE (FromPageId pt (pn_val n)) (\<lambda>w.
          bindE (DeleteMapping pt (pte_fd_cur w) (pte_fpage_id_cur w) (pn_val n)) (\<lambda>(ok, pt).
          bindE (assertE ok) (\<lambda>_. Inr (Some p, pt))))
        else bindE (node_before h p) (\<lambda>p. f1_batch_loop fuel h p pt))))"

fun f1_Victim_batch :: "ptr_node ptr_list \<Rightarrow> page_table \<Rightarrow> mpage_id list \<Rightarrow> nat \<Rightarrow>
    (bool \<times> mpage_id list \<times> ptr_node ptr_list \<times> page_table) res" where
  "f1_Victim_batch r pt mpage_ids 0 = Inr (True, mpage_ids, r, pt)"
| "f1_Victim_batch r pt mpage_ids (Suc page_num) =
     bindE (node_before (pl_heap r) TAIL_ADDR) (\<lambda>p.
     bindE (f1_batch_loop (Suc (Mapping.size (pl_map r))) (pl_heap r) p pt) (\<lambda>(v, pt).
     case v of None \<Rightarrow> Inr (mpage_ids \<noteq> [], mpage_ids, r, pt)
     | Some p \<Rightarrow> bindE (pl_take r p) (\<lambda>(m, r).
         f1_Victim_batch r pt (mpage_ids @ [m]) page_num)))"

definition f1_Erase :: "ptr_node ptr_list \<Rightarrow> mpage_id \<Rightarrow> (bool \<times> ptr_node ptr_list) res" where
  "f1_Erase r value = pl_Erase r value"

definition f1_Size :: "ptr_node ptr_list \<Rightarrow> u64 res" where
  "f1_Size r = pl_Size r"

definition f1_ops :: "ptr_node ptr_list replacer_ops" where
  "f1_ops = \<lparr>op_Insert = f1_Insert, op_Promote = f1_Promote, op_Victim = f1_Victim,
     op_Erase = f1_Erase, op_Size = f1_Size\<rparr>"

section \<open>The queue in the heap\<close>

definition pl_shape :: "('a ptr_node_scheme) ptr_list \<Rightarrow> nat list \<Rightarrow> mpage_id list \<Rightarrow> bool" where
  "pl_shape r ps xs \<longleftrightarrow> list_shape (pl_heap r) ps \<and> nh_dom (pl_heap r) = set (HEAD_ADDR # ps @ [TAIL_ADDR]) \<and>
     (\<forall>p\<in>nh_dom (pl_heap r). p < nh_fresh (pl_heap r)) \<and> map (nh_val (pl_heap r)) ps = xs \<and> distinct xs \<and>
     (\<forall>m p. Mapping.lookup (pl_map r) m = Some p \<longleftrightarrow> p \<in> set ps \<and> nh_val (pl_heap r) p = m)"

definition pl_rep :: "('a ptr_node_scheme) ptr_list \<Rightarrow> mpage_id list \<Rightarrow> bool" where
  "pl_rep r xs \<longleftrightarrow> (\<exists>ps. pl_shape r ps xs)"

lemma pl_shapeD:
  assumes "pl_shape r ps xs"
  shows "list_shape (pl_heap r) ps" "nh_dom (pl_heap r) = set (HEAD_ADDR # ps @ [TAIL_ADDR])"
    "\<forall>p\<in>nh_dom (pl_heap r). p < nh_fresh (pl_heap r)" "map (nh_val (pl_heap r)) ps = xs" "distinct xs"
    "Mapping.lookup (pl_map r) m = Some p \<longleftrightarrow> p \<in> set ps \<and> nh_val (pl_heap r) p = m"
    "distinct ps" "HEAD_ADDR \<notin> set ps" "TAIL_ADDR \<notin> set ps" "length xs = length ps"
  using assms list_shapeD [of "pl_heap r" ps] by (auto simp: pl_shape_def)

lemma pl_lookup:
  assumes s: "pl_shape r ps xs"
  shows "m \<notin> set xs \<Longrightarrow> Mapping.lookup (pl_map r) m = None"
    and "m \<in> set xs \<Longrightarrow> \<exists>p\<in>set ps. Mapping.lookup (pl_map r) m = Some p \<and> nh_val (pl_heap r) p = m"
  using pl_shapeD(6) [OF s, of m] pl_shapeD(4) [OF s] by (cases "Mapping.lookup (pl_map r) m"; force)+

lemma pl_size: "pl_shape r ps xs \<Longrightarrow> Mapping.size (pl_map r) = length xs"
proof -
  assume s: "pl_shape r ps xs"
  have "Mapping.keys (pl_map r) = set xs"
    using pl_lookup [OF s] by (force simp: keys_is_none_rep Option.is_none_def)
  then show ?thesis using pl_shapeD(5) [OF s] by (simp add: Mapping.size_def distinct_card)
qed

lemma remove1_map_val:
  assumes "distinct (map f ps)" "p \<in> set ps"
  shows "map f (remove1 p ps) = remove1 (f p) (map f ps)"
  using assms by (induction ps) (auto simp: rev_image_eqI)

lemma pl_new_rep: "pl_rep (pl_new junk) []"
  using nh_sentinels_shape [of junk]
  by (auto simp: pl_rep_def pl_shape_def pl_new_def HEAD_ADDR_def TAIL_ADDR_def intro!: exI [of _ "[]"])

text \<open>Linking a new node at the front and entering it into the map.\<close>

lemma pl_push_rep:
  assumes s: "pl_shape r ps xs" and m: "pn_val n \<notin> set xs" and n: "nh_new (pl_heap r) n = (p, h)"
  shows "\<exists>h'. link_front h p = Inr h' \<and>
    pl_rep \<lparr>pl_heap = h', pl_map = Mapping.update (pn_val n) p (pl_map r)\<rparr> (pn_val n # xs)"
proof -
  let ?m = "pn_val n"
  note d = pl_shapeD [OF s]
  note h = nh_new_shape [OF d(1,3) n]
  have "p \<notin> set (HEAD_ADDR # ps @ [TAIL_ADDR])" using h(3) d(2) by simp
  then obtain h' where h': "link_front h p = Inr h'" "list_shape h' (p # ps)" "nh_val h' = nh_val h"
    "nh_dom h' = nh_dom h" "nh_fresh h' = nh_fresh h"
    using link_front_shape [OF h(1), of p] h(2) by auto
  have v: "nh_val h' q = (if q = p then ?m else nh_val (pl_heap r) q)" for q
    using h(6) h'(3) by simp
  have "map (nh_val h') ps = xs" using d(4) h(3) d(2) v by (auto simp: map_eq_conv)
  moreover have "Mapping.lookup (Mapping.update ?m p (pl_map r)) m' = Some q \<longleftrightarrow>
      q \<in> set (p # ps) \<and> nh_val h' q = m'" for m' q
    using d(6) [of m' q] pl_lookup(1) [OF s m] d(4) m h(3) d(2) v by (auto simp: lookup_update')
  ultimately have "pl_shape \<lparr>pl_heap = h', pl_map = Mapping.update ?m p (pl_map r)\<rparr> (p # ps) (?m # xs)"
    using h'(2,4,5) h(2,4,5) d(2,3,5) m v by (auto simp: pl_shape_def)
  then show ?thesis using h'(1) by (auto simp: pl_rep_def)
qed

lemma pl_Insert_rep:
  assumes r: "pl_rep r xs"
  shows "m \<in> set xs \<Longrightarrow> pl_Insert r m = Inr (False, r)"
    and "m \<notin> set xs \<Longrightarrow> \<exists>r'. pl_Insert r m = Inr (True, r') \<and> pl_rep r' (m # xs)"
proof -
  obtain ps where s: "pl_shape r ps xs" using r by (auto simp: pl_rep_def)
  show "pl_Insert r m = Inr (False, r)" if "m \<in> set xs"
    using pl_lookup(2) [OF s that] by (auto simp: pl_Insert_def)
  assume m: "m \<notin> set xs"
  obtain p h where n: "nh_new (pl_heap r) (ListNode_ptr m) = (p, h)" by fastforce
  then show "\<exists>r'. pl_Insert r m = Inr (True, r') \<and> pl_rep r' (m # xs)"
    using pl_push_rep [OF s _ n] pl_lookup(1) [OF s m] m by (auto simp: pl_Insert_def ListNode_ptr_def)
qed

lemma pl_take_rep:
  assumes s: "pl_shape r ps xs" and p: "p \<in> set ps"
  shows "\<exists>r'. pl_take r p = Inr (nh_val (pl_heap r) p, r') \<and> pl_rep r' (remove1 (nh_val (pl_heap r) p) xs)"
proof -
  note d = pl_shapeD [OF s]
  let ?m = "nh_val (pl_heap r) p"
  obtain h where h: "unlink_node (pl_heap r) p = Inr h" "list_shape h (remove1 p ps)"
    "nh_val h = nh_val (pl_heap r)" "nh_dom h = nh_dom (pl_heap r)" "nh_fresh h = nh_fresh (pl_heap r)"
    using unlink_node_shape [OF d(1) p] by blast
  have pd: "p \<in> nh_dom h" "p \<notin> set (HEAD_ADDR # remove1 p ps @ [TAIL_ADDR])"
    using p d(2,7,8,9) h(4) by auto
  obtain h' where h': "nh_delete h p = Inr h'" "list_shape h' (remove1 p ps)" "nh_dom h' = nh_dom h - {p}"
    "nh_fresh h' = nh_fresh h" "\<forall>q. q \<noteq> p \<longrightarrow> nh_val h' q = nh_val h q"
    using nh_delete_shape [OF h(2) pd] by blast
  have x: "map (nh_val (pl_heap r)) (remove1 p ps) = remove1 ?m xs"
    using remove1_map_val [of "nh_val (pl_heap r)" ps p] d(4,5) p by simp
  then have v: "map (nh_val h') (remove1 p ps) = remove1 ?m xs"
    using h'(5) h(3) d(7) by (auto simp: map_eq_conv simp flip: x)
  have inj: "q = p" if "q \<in> set ps" "nh_val (pl_heap r) q = ?m" for q
    using d(4,5) p that by (auto simp: distinct_map inj_on_def)
  have l: "Mapping.lookup (Mapping.delete ?m (pl_map r)) m' = Some q \<longleftrightarrow>
      q \<in> set (remove1 p ps) \<and> nh_val h' q = m'" for m' q
    using d(6) [of m' q] d(7) h'(5) h(3) inj [of q]
    by (cases "m' = ?m"; cases "q = p") (auto simp: lookup_delete_neq)
  have "pl_shape \<lparr>pl_heap = h', pl_map = Mapping.delete ?m (pl_map r)\<rparr> (remove1 p ps) (remove1 ?m xs)"
    using h'(2,3,4) h(4,5) d(2,3,5,7,8,9) v l p by (auto simp: pl_shape_def)
  then show ?thesis
    using h(1,3) h'(1) pd(1) by (auto simp: pl_take_def nh_simps pl_rep_def)
qed

lemma pl_Erase_rep:
  assumes r: "pl_rep r xs"
  shows "m \<in> set xs \<Longrightarrow> \<exists>r'. pl_Erase r m = Inr (True, r') \<and> pl_rep r' (remove1 m xs)"
    and "m \<notin> set xs \<Longrightarrow> pl_Erase r m = Inr (False, r)"
proof -
  obtain ps where s: "pl_shape r ps xs" using r by (auto simp: pl_rep_def)
  show "\<exists>r'. pl_Erase r m = Inr (True, r') \<and> pl_rep r' (remove1 m xs)" if m: "m \<in> set xs"
    using pl_lookup(2) [OF s m] pl_take_rep [OF s] by (fastforce simp: pl_Erase_def)
  show "pl_Erase r m = Inr (False, r)" if "m \<notin> set xs"
    using pl_lookup(1) [OF s that] by (simp add: pl_Erase_def)
qed

lemma l1_Promote_rep:
  assumes r: "pl_rep r xs"
  shows "m \<in> set xs \<Longrightarrow> \<exists>r'. l1_Promote r m = Inr (True, r') \<and> pl_rep r' (m # remove1 m xs)"
    and "m \<notin> set xs \<Longrightarrow> l1_Promote r m = Inr (False, r)"
proof -
  obtain ps where s: "pl_shape r ps xs" using r by (auto simp: pl_rep_def)
  note d = pl_shapeD [OF s]
  show "l1_Promote r m = Inr (False, r)" if "m \<notin> set xs"
    using pl_lookup(1) [OF s that] by (simp add: l1_Promote_def)
  assume m: "m \<in> set xs"
  obtain p where p: "p \<in> set ps" "Mapping.lookup (pl_map r) m = Some p" "nh_val (pl_heap r) p = m"
    using pl_lookup(2) [OF s m] by blast
  obtain h where h: "unlink_node (pl_heap r) p = Inr h" "list_shape h (remove1 p ps)"
    "nh_val h = nh_val (pl_heap r)" "nh_dom h = nh_dom (pl_heap r)" "nh_fresh h = nh_fresh (pl_heap r)"
    using unlink_node_shape [OF d(1) p(1)] by blast
  have pd: "p \<in> nh_dom h" "p \<notin> set (HEAD_ADDR # remove1 p ps @ [TAIL_ADDR])"
    using p d(2,7,8,9) h(4) by auto
  obtain h' where h': "link_front h p = Inr h'" "list_shape h' (p # remove1 p ps)" "nh_val h' = nh_val h"
    "nh_dom h' = nh_dom h" "nh_fresh h' = nh_fresh h"
    using link_front_shape [OF h(2) pd] by blast
  have "map (nh_val (pl_heap r)) (remove1 p ps) = remove1 m xs"
    using remove1_map_val [of "nh_val (pl_heap r)" ps p] d(4,5) p by simp
  moreover have "set (p # remove1 p ps) = set ps" "distinct (m # remove1 m xs)"
    using p(1) d(5,7) by (auto simp: distinct_remove1)
  ultimately have "pl_shape (r\<lparr>pl_heap := h'\<rparr>) (p # remove1 p ps) (m # remove1 m xs)"
    using h'(2-5) h(3-5) d(2,3,6,7) p by (auto simp: pl_shape_def)
  then show "\<exists>r'. l1_Promote r m = Inr (True, r') \<and> pl_rep r' (m # remove1 m xs)"
    using h(1) h'(1) p(2) by (auto simp: l1_Promote_def pl_rep_def)
qed

section \<open>The scan from the back\<close>

text \<open>The backmost node whose frame has a property.\<close>

definition node_victim :: "(mpage_id \<Rightarrow> bool) \<Rightarrow> ('a ptr_node_scheme) node_heap \<Rightarrow> nat list \<Rightarrow> nat option" where
  "node_victim P h ps = List.find (\<lambda>p. P (nh_val h p)) (rev ps)"

lemma node_victim_snoc [simp]:
  "node_victim P h (ps @ [p]) = (if P (nh_val h p) then Some p else node_victim P h ps)"
  "node_victim P h [] = None"
  by (simp_all add: node_victim_def)

lemma node_victim_queue: "backmost P (map (nh_val h) ps) = map_option (nh_val h) (node_victim P h ps)"
  by (induction ps rule: rev_induct) simp_all

lemma node_victim_in: "node_victim P h ps = Some p \<Longrightarrow> p \<in> set ps"
  by (induction ps rule: rev_induct) (auto split: if_splits)

locale ptr_scan =
  fixes loop :: "nat \<Rightarrow> ('a ptr_node_scheme) node_heap \<Rightarrow> nat \<Rightarrow> page_table \<Rightarrow> (nat option \<times> page_table) res"
    and take_it :: "page_table \<Rightarrow> mpage_id \<Rightarrow> bool" and claim :: "page_table \<Rightarrow> mpage_id \<Rightarrow> page_table"
  assumes loop_head: "loop (Suc fuel) h HEAD_ADDR pt = Inr (None, pt)"
    and loop_held: "p \<noteq> HEAD_ADDR \<Longrightarrow> p \<in> nh_dom h \<Longrightarrow> pt_wf k pt \<Longrightarrow> held pt (nh_val h p) \<Longrightarrow>
      loop (Suc fuel) h p pt = (if take_it pt (nh_val h p) then Inr (Some p, claim pt (nh_val h p))
        else loop fuel h (nh_prv h p) pt)"
begin

lemma loop_finds:
  assumes s: "list_shape h ps" and wf: "pt_wf c pt" and held: "\<And>p. p \<in> set ps \<Longrightarrow> held pt (nh_val h p)"
    and k: "k \<le> length ps" "k < fuel"
  shows "loop fuel h ((HEAD_ADDR # ps) ! k) pt = Inr (case node_victim (take_it pt) h (take k ps) of
      None \<Rightarrow> (None, pt) | Some p \<Rightarrow> (Some p, claim pt (nh_val h p)))"
  using k
proof (induction k arbitrary: fuel)
  case 0
  then obtain n where "fuel = Suc n" by (cases fuel) auto
  then show ?case using loop_head by simp
next
  case (Suc k)
  obtain n where n: "fuel = Suc n" "k < n" using Suc.prems by (cases fuel) auto
  have p: "ps ! k \<in> set ps" "ps ! k \<noteq> HEAD_ADDR" "ps ! k \<in> nh_dom h"
    using Suc.prems list_shapeD(2,6) [OF s] by (auto simp: Suc_le_eq dest: nth_mem)
  have "take (Suc k) ps = take k ps @ [ps ! k]" using Suc.prems by (simp add: take_Suc_conv_app_nth)
  then show ?case
    using loop_held [OF p(2,3) wf held [OF p(1)], of n] Suc.IH [of n] Suc.prems n list_shape_links(1) [OF s, of k]
    by simp
qed

lemma scan_from_tail:
  assumes s: "list_shape h ps" and wf: "pt_wf c pt" and held: "\<And>p. p \<in> set ps \<Longrightarrow> held pt (nh_val h p)"
    and fuel: "length ps < fuel"
  shows "bindE (node_before h TAIL_ADDR) (\<lambda>p. bindE (loop fuel h p pt) f) =
    f (case node_victim (take_it pt) h ps of None \<Rightarrow> (None, pt) | Some p \<Rightarrow> (Some p, claim pt (nh_val h p)))"
proof -
  have "node_before h TAIL_ADDR = Inr ((HEAD_ADDR # ps) ! length ps)"
    using list_shapeD(5) [OF s] list_shape_links(2) [OF s] by (simp add: node_before_def nh_simps last_conv_nth)
  then show ?thesis using loop_finds [OF s wf held, of "length ps" fuel] fuel by simp
qed

lemma Victim_queue:
  assumes r: "pl_rep r xs" and wf: "pt_wf c pt" and held: "\<And>m. m \<in> set xs \<Longrightarrow> held pt m"
  shows "case backmost (take_it pt) xs of
      None \<Rightarrow> bindE (node_before (pl_heap r) TAIL_ADDR) (\<lambda>p.
        bindE (loop (Suc (Mapping.size (pl_map r))) (pl_heap r) p pt) (pl_evict r)) = Inr ((False, 0), r, pt)
    | Some m \<Rightarrow> \<exists>r'. bindE (node_before (pl_heap r) TAIL_ADDR) (\<lambda>p.
        bindE (loop (Suc (Mapping.size (pl_map r))) (pl_heap r) p pt) (pl_evict r)) =
          Inr ((True, m), r', claim pt m) \<and> pl_rep r' (remove1 m xs)"
proof -
  obtain ps where s: "pl_shape r ps xs" using r by (auto simp: pl_rep_def)
  note d = pl_shapeD [OF s]
  have "bindE (node_before (pl_heap r) TAIL_ADDR) (\<lambda>p.
      bindE (loop (Suc (Mapping.size (pl_map r))) (pl_heap r) p pt) (pl_evict r)) =
    pl_evict r (case node_victim (take_it pt) (pl_heap r) ps of
        None \<Rightarrow> (None, pt) | Some p \<Rightarrow> (Some p, claim pt (nh_val (pl_heap r) p)))"
    using held d(4,10) pl_size [OF s] by (intro scan_from_tail [OF d(1) wf]) auto
  moreover have "backmost (take_it pt) xs = map_option (nh_val (pl_heap r)) (node_victim (take_it pt) (pl_heap r) ps)"
    using node_victim_queue [of "take_it pt" "pl_heap r" ps] d(4) by simp
  ultimately show ?thesis
    using pl_take_rep [OF s node_victim_in]
    by (cases "node_victim (take_it pt) (pl_heap r) ps") (fastforce simp: pl_evict_def)+
qed

end

interpretation l1: ptr_scan l1_loop "\<lambda>pt m. \<not> pinned pt m" lock_frame
proof unfold_locales
  fix p and h :: "ptr_node node_heap" and k pt fuel
  assume "p \<noteq> HEAD_ADDR" "p \<in> nh_dom h" "pt_wf k pt" "held pt (nh_val h p)"
  moreover from this have "FromPageId pt (nh_val h p) = Inr (pte_of pt (nh_val h p))" by (simp add: held_def pt_simps)
  ultimately show "l1_loop (Suc fuel) h p pt = (if \<not> pinned pt (nh_val h p)
      then Inr (Some p, lock_frame pt (nh_val h p)) else l1_loop fuel h (nh_prv h p) pt)"
    by (simp add: try_evict_held nh_simps node_before_def) (simp add: pinned_def)
qed simp

interpretation f1: ptr_scan f1_loop "\<lambda>pt m. \<not> pinned pt m" lock_frame
  by unfold_locales (simp_all add: try_evict_held nh_simps node_before_def)

declare l1_loop.simps [simp del] f1_loop.simps [simp del]

lemmas l1_Victim_queue = l1.Victim_queue [folded l1_Victim_def, unfolded backmost_unpinned]
lemmas f1_Victim_queue = f1.Victim_queue [folded f1_Victim_def, unfolded backmost_unpinned]

section \<open>Both policies keep the contract\<close>

text \<open>The policies have no capacity of their own: they manage the frames of any pool, \<open>c\<close> frames say.\<close>

definition pl_cap :: "nat \<Rightarrow> ptr_node ptr_list \<Rightarrow> nat" where
  "pl_cap c r = c"

definition pl_inv :: "nat \<Rightarrow> ptr_node ptr_list \<Rightarrow> mpage_id set \<Rightarrow> bool" where
  "pl_inv c r S \<longleftrightarrow> (\<exists>xs. pl_rep r xs \<and> set xs = S \<and> S \<subseteq> {..<c})"

lemma pl_rep_distinct: "pl_rep r xs \<Longrightarrow> distinct xs"
  by (auto simp: pl_rep_def pl_shape_def)

lemma pl_Insert_inv:
  "pl_inv c r S \<Longrightarrow> m < pl_cap c r \<Longrightarrow> m \<notin> S \<Longrightarrow>
     \<exists>r'. pl_Insert r m = Inr (True, r') \<and> pl_inv c r' (insert m S) \<and> pl_cap c r' = pl_cap c r"
  using pl_Insert_rep(2) by (fastforce simp: pl_inv_def pl_cap_def)

lemma pl_Erase_inv:
  assumes "pl_inv c r S" "m \<in> S"
  shows "\<exists>r'. pl_Erase r m = Inr (True, r') \<and> pl_inv c r' (S - {m}) \<and> pl_cap c r' = pl_cap c r"
proof -
  obtain xs where xs: "pl_rep r xs" "set xs = S" "S \<subseteq> {..<c}" using assms(1) by (auto simp: pl_inv_def)
  then have "set (remove1 m xs) = S - {m}" using pl_rep_distinct [OF xs(1)] by simp
  then show ?thesis
    using pl_Erase_rep(1) [OF xs(1), of m] assms(2) xs by (fastforce simp: pl_inv_def pl_cap_def)
qed

lemma pl_Victim_inv:
  assumes i: "pl_inv c r S" and m: "m0 \<in> S" "\<not> pinned pt m0"
    and q: "\<And>xs. pl_rep r xs \<Longrightarrow> set xs = S \<Longrightarrow> case queue_victim pt xs of None \<Rightarrow> P xs | Some m \<Rightarrow>
      \<exists>r'. V = Inr ((True, m), r', lock_frame pt m) \<and> pl_rep r' (remove1 m xs)"
  shows "\<exists>m r'. m \<in> S \<and> \<not> pinned pt m \<and> V = Inr ((True, m), r', lock_frame pt m) \<and>
    pl_inv c r' (S - {m}) \<and> pl_cap c r' = pl_cap c r"
proof -
  obtain xs where xs: "pl_rep r xs" "set xs = S" "S \<subseteq> {..<c}" using i by (auto simp: pl_inv_def)
  obtain m where v: "queue_victim pt xs = Some m" using queue_victim_exists m xs(2) by blast
  have "set (remove1 m xs) = S - {m}" using pl_rep_distinct [OF xs(1)] xs(2) by simp
  then show ?thesis
    using q [OF xs(1,2)] v queue_victim_SomeD [OF v] xs(2,3) by (fastforce simp: pl_inv_def pl_cap_def)
qed

interpretation fifo1: erasable_replacer f1_ops "pl_inv c" "pl_cap c" for c
proof (unfold_locales, unfold f1_ops_def replacer_ops.select_convs f1_Insert_def f1_Erase_def)
  fix r S k pt m0
  assume i: "pl_inv c r S" and wf: "pt_wf k pt" and h: "\<And>m. m \<in> S \<Longrightarrow> held pt m" and m: "m0 \<in> S" "\<not> pinned pt m0"
  show "\<exists>m r'. m \<in> S \<and> \<not> pinned pt m \<and> f1_Victim r pt = Inr ((True, m), r', lock_frame pt m) \<and>
      pl_inv c r' (S - {m}) \<and> pl_cap c r' = pl_cap c r"
    using f1_Victim_queue [OF _ wf] h by (intro pl_Victim_inv [OF i m]) blast
qed (use pl_Insert_inv pl_Erase_inv in \<open>auto simp: f1_Promote_def pl_inv_def pl_cap_def\<close>)

interpretation lru1: erasable_replacer l1_ops "pl_inv c" "pl_cap c" for c
proof (unfold_locales, unfold l1_ops_def replacer_ops.select_convs)
  fix r S k pt m0
  assume i: "pl_inv c r S" and wf: "pt_wf k pt" and h: "\<And>m. m \<in> S \<Longrightarrow> held pt m" and m: "m0 \<in> S" "\<not> pinned pt m0"
  show "\<exists>m r'. m \<in> S \<and> \<not> pinned pt m \<and> l1_Victim r pt = Inr ((True, m), r', lock_frame pt m) \<and>
      pl_inv c r' (S - {m}) \<and> pl_cap c r' = pl_cap c r"
    using l1_Victim_queue [OF _ wf] h by (intro pl_Victim_inv [OF i m]) blast
next
  fix r S m assume "pl_inv c r S" "m \<in> S"
  then obtain xs where xs: "pl_rep r xs" "set xs = S" "S \<subseteq> {..<c}" "m \<in> set xs" by (auto simp: pl_inv_def)
  moreover have "set (m # remove1 m xs) = S" using xs pl_rep_distinct [OF xs(1)] by auto
  ultimately show "\<exists>r'. l1_Promote r m = Inr (True, r') \<and> pl_inv c r' S \<and> pl_cap c r' = pl_cap c r"
    using l1_Promote_rep(1) [OF xs(1,4)] by (fastforce simp: pl_inv_def pl_cap_def)
qed (use pl_Insert_inv pl_Erase_inv in \<open>auto simp: pl_inv_def pl_cap_def\<close>)

end
