(* ===== verification/QueueVersions.thy ===== *)
theory QueueVersions
  imports PtrPolicies
begin

text \<open>
  The repository has each of its queue policies twice: over heap nodes (\<open>LRUReplacer\<close>,
  \<open>FIFOReplacer\<close>) and over a list array (\<open>LRUReplacer_v2\<close>, \<open>FIFOReplacer_v2\<close>).  This theory runs
  sequences of calls and proves that the two versions of a policy answer alike, each being an
  implementation of one queue of frames (the locale \<open>queue_policy\<close>).
\<close>

section \<open>Sequences of calls\<close>

text \<open>A call of \<open>Victim\<close> carries the page table it finds, and its reply the one it leaves.\<close>

datatype policy_call =
    Call_Insert mpage_id
  | Call_Promote mpage_id
  | Call_Erase mpage_id
  | Call_Victim page_table

datatype policy_reply =
    Done bool
  | Evicted bool mpage_id page_table

fun do_call :: "'r replacer_ops \<Rightarrow> 'r \<Rightarrow> policy_call \<Rightarrow> (policy_reply \<times> 'r) res" where
  "do_call ops r (Call_Insert m) = bindE (op_Insert ops r m) (\<lambda>(b, r). Inr (Done b, r))"
| "do_call ops r (Call_Promote m) = bindE (op_Promote ops r m) (\<lambda>(b, r). Inr (Done b, r))"
| "do_call ops r (Call_Erase m) = bindE (op_Erase ops r m) (\<lambda>(b, r). Inr (Done b, r))"
| "do_call ops r (Call_Victim pt) =
     bindE (op_Victim ops r pt) (\<lambda>((b, m), r, pt). Inr (Evicted b m pt, r))"

fun run_calls :: "'r replacer_ops \<Rightarrow> 'r \<Rightarrow> policy_call list \<Rightarrow> policy_reply list res" where
  "run_calls ops r [] = Inr []"
| "run_calls ops r (c # cs) =
     bindE (do_call ops r c) (\<lambda>(a, r). bindE (run_calls ops r cs) (\<lambda>as. Inr (a # as)))"

section \<open>The queue\<close>

text \<open>
  Frames enter at the front; with \<open>lru\<close> an access moves a frame to the front; the backmost
  frame that is not pinned leaves.
\<close>

fun queue_step :: "bool \<Rightarrow> mpage_id list \<Rightarrow> policy_call \<Rightarrow> policy_reply \<times> mpage_id list" where
  "queue_step lru xs (Call_Insert m) = (Done True, m # xs)"
| "queue_step lru xs (Call_Promote m) = (Done True, if lru then m # remove1 m xs else xs)"
| "queue_step lru xs (Call_Erase m) = (Done True, remove1 m xs)"
| "queue_step lru xs (Call_Victim pt) = (case queue_victim pt xs of
      None \<Rightarrow> (Evicted False 0 pt, xs)
    | Some m \<Rightarrow> (Evicted True m (lock_frame pt m), remove1 m xs))"

fun queue_run :: "bool \<Rightarrow> mpage_id list \<Rightarrow> policy_call list \<Rightarrow> policy_reply list" where
  "queue_run lru xs [] = []"
| "queue_run lru xs (c # cs) = (let (a, xs) = queue_step lru xs c in a # queue_run lru xs cs)"

text \<open>
  The calls the pool makes: it inserts frames that are not managed, promotes and erases managed
  ones, and asks for a victim with a page table in which the managed frames hold their pages.
\<close>

fun legal_call :: "u32 \<Rightarrow> nat \<Rightarrow> mpage_id list \<Rightarrow> policy_call \<Rightarrow> bool" where
  "legal_call k cap xs (Call_Insert m) = (m < cap \<and> m \<notin> set xs)"
| "legal_call k cap xs (Call_Promote m) = (m \<in> set xs)"
| "legal_call k cap xs (Call_Erase m) = (m \<in> set xs)"
| "legal_call k cap xs (Call_Victim pt) = (pt_wf k pt \<and> (\<forall>m\<in>set xs. held pt m))"

fun legal_calls :: "u32 \<Rightarrow> nat \<Rightarrow> bool \<Rightarrow> mpage_id list \<Rightarrow> policy_call list \<Rightarrow> bool" where
  "legal_calls k cap lru xs [] = True"
| "legal_calls k cap lru xs (c # cs) =
     (legal_call k cap xs c \<and> legal_calls k cap lru (snd (queue_step lru xs c)) cs)"

section \<open>Policies that implement the queue\<close>

locale queue_policy =
  fixes ops :: "'r replacer_ops" and lru :: bool and rep :: "'r \<Rightarrow> mpage_id list \<Rightarrow> bool" and cap :: "'r \<Rightarrow> nat"
  assumes Insert_q: "rep r xs \<Longrightarrow> m < cap r \<Longrightarrow> m \<notin> set xs \<Longrightarrow>
      \<exists>r'. op_Insert ops r m = Inr (True, r') \<and> rep r' (m # xs) \<and> cap r' = cap r"
    and Promote_q: "rep r xs \<Longrightarrow> m \<in> set xs \<Longrightarrow>
      \<exists>r'. op_Promote ops r m = Inr (True, r') \<and> rep r' (if lru then m # remove1 m xs else xs) \<and> cap r' = cap r"
    and Erase_q: "rep r xs \<Longrightarrow> m \<in> set xs \<Longrightarrow>
      \<exists>r'. op_Erase ops r m = Inr (True, r') \<and> rep r' (remove1 m xs) \<and> cap r' = cap r"
    and Victim_q: "rep r xs \<Longrightarrow> pt_wf k pt \<Longrightarrow> (\<And>m. m \<in> set xs \<Longrightarrow> held pt m) \<Longrightarrow>
      case queue_victim pt xs of
        None \<Rightarrow> op_Victim ops r pt = Inr ((False, 0), r, pt)
      | Some m \<Rightarrow> \<exists>r'. op_Victim ops r pt = Inr ((True, m), r', lock_frame pt m) \<and>
          rep r' (remove1 m xs) \<and> cap r' = cap r"
begin

lemma do_call_queue:
  assumes r: "rep r xs" and l: "legal_call k c xs call" and c: "c \<le> cap r"
  shows "\<exists>r'. do_call ops r call = Inr (fst (queue_step lru xs call), r') \<and>
    rep r' (snd (queue_step lru xs call)) \<and> cap r' = cap r"
proof (cases call)
  case (Call_Insert m)
  then show ?thesis using Insert_q [OF r, of m] l c by auto
next
  case (Call_Promote m)
  then show ?thesis using Promote_q [OF r, of m] l by auto
next
  case (Call_Erase m)
  then show ?thesis using Erase_q [OF r, of m] l by auto
next
  case (Call_Victim pt)
  then have "pt_wf k pt" "\<And>m. m \<in> set xs \<Longrightarrow> held pt m" using l by auto
  from Victim_q [OF r this] show ?thesis using Call_Victim r by (auto split: option.splits)
qed

lemma run_calls_queue:
  "rep r xs \<Longrightarrow> legal_calls k c lru xs calls \<Longrightarrow> c \<le> cap r \<Longrightarrow>
   run_calls ops r calls = Inr (queue_run lru xs calls)"
proof (induction calls arbitrary: r xs)
  case (Cons call calls)
  then obtain r' where "do_call ops r call = Inr (fst (queue_step lru xs call), r')"
    "rep r' (snd (queue_step lru xs call))" "cap r' = cap r"
    using do_call_queue [of r xs k c call] by auto
  then show ?case using Cons by (simp add: case_prod_beta Let_def)
qed simp

end

definition f2_rep :: "fifo2 \<Rightarrow> mpage_id list \<Rightarrow> bool" where
  "f2_rep r xs \<longleftrightarrow> la_rep (f2_list r) xs"

definition l2_rep :: "lru2 \<Rightarrow> mpage_id list \<Rightarrow> bool" where
  "l2_rep r xs \<longleftrightarrow> la_rep (l2_list r) xs"

definition p1_rep :: "ptr_node ptr_list \<Rightarrow> mpage_id list \<Rightarrow> bool" where
  "p1_rep r xs \<longleftrightarrow> pl_rep r xs"

lemma victim_cong:
  assumes "case v of None \<Rightarrow> V = A | Some m \<Rightarrow> \<exists>r'. V = B m r' \<and> R r' m"
    "\<And>m r'. v = Some m \<Longrightarrow> R r' m \<Longrightarrow> R' r' m"
  shows "case v of None \<Rightarrow> V = A | Some m \<Rightarrow> \<exists>r'. V = B m r' \<and> R' r' m"
  using assms by (auto split: option.splits)

interpretation q_fifo2: queue_policy f2_ops False f2_rep f2_cap
proof (unfold_locales, unfold f2_ops_def replacer_ops.select_convs f2_rep_def)
  fix r :: fifo2 and xs m assume r: "la_rep (f2_list r) xs" "m \<in> set xs"
  then show "\<exists>r'. f2_Erase r m = Inr (True, r') \<and> la_rep (f2_list r') (remove1 m xs) \<and> f2_cap r' = f2_cap r"
    using removeFromIndex_rep [OF r(1), of m] la_rep_lt [OF r] by (auto simp: f2_Erase_def f2_cap_def)
qed (use f2_Insert_queue f2_Victim_queue in \<open>auto simp: f2_Promote_def\<close>)

interpretation q_lru2: queue_policy l2_ops True l2_rep l2_cap
proof (unfold_locales, unfold l2_ops_def replacer_ops.select_convs l2_rep_def)
  fix r :: lru2 and xs m assume r: "la_rep (l2_list r) xs" "m \<in> set xs"
  then show "\<exists>r'. l2_Erase r m = Inr (True, r') \<and> la_rep (l2_list r') (remove1 m xs) \<and> l2_cap r' = l2_cap r"
    using removeFromIndex_rep [OF r(1), of m] la_rep_lt [OF r] by (auto simp: l2_Erase_def l2_cap_def)
  show "\<exists>r'. l2_Promote r m = Inr (True, r') \<and> la_rep (l2_list r') (if True then m # remove1 m xs else xs) \<and> l2_cap r' = l2_cap r"
    using l2_Promote_queue [OF r(1), of m] la_rep_lt [OF r] by (auto simp: l2_cap_def)
qed (use l2_Insert_queue l2_Victim_queue in auto)

interpretation q_fifo1: queue_policy f1_ops False p1_rep "pl_cap c" for c
proof (unfold_locales, unfold f1_ops_def replacer_ops.select_convs f1_Insert_def f1_Erase_def p1_rep_def)
  fix r :: "ptr_node ptr_list" and xs k pt
  assume "pl_rep r xs" "pt_wf k pt" "\<And>m. m \<in> set xs \<Longrightarrow> held pt m"
  from f1_Victim_queue [OF this] show "case queue_victim pt xs of
      None \<Rightarrow> f1_Victim r pt = Inr ((False, 0), r, pt)
    | Some m \<Rightarrow> \<exists>r'. f1_Victim r pt = Inr ((True, m), r', lock_frame pt m) \<and> pl_rep r' (remove1 m xs) \<and> pl_cap c r' = pl_cap c r"
    by (auto simp: pl_cap_def split: option.splits)
qed (use pl_Insert_rep pl_Erase_rep in \<open>auto simp: f1_Promote_def pl_cap_def\<close>)

interpretation q_lru1: queue_policy l1_ops True p1_rep "pl_cap c" for c
proof (unfold_locales, unfold l1_ops_def replacer_ops.select_convs p1_rep_def)
  fix r :: "ptr_node ptr_list" and xs k pt
  assume "pl_rep r xs" "pt_wf k pt" "\<And>m. m \<in> set xs \<Longrightarrow> held pt m"
  from l1_Victim_queue [OF this] show "case queue_victim pt xs of
      None \<Rightarrow> l1_Victim r pt = Inr ((False, 0), r, pt)
    | Some m \<Rightarrow> \<exists>r'. l1_Victim r pt = Inr ((True, m), r', lock_frame pt m) \<and> pl_rep r' (remove1 m xs) \<and> pl_cap c r' = pl_cap c r"
    by (auto simp: pl_cap_def split: option.splits)
qed (use pl_Insert_rep pl_Erase_rep l1_Promote_rep in \<open>auto simp: pl_cap_def\<close>)

section \<open>Properties\<close>

text \<open>LRU in two versions: over any sequence of calls that the pool makes, \<open>LRUReplacer\<close> and
  \<open>LRUReplacer_v2\<close> give the same replies, and leave the same page tables, as the queue in which an
  access moves a frame to the front and the backmost unpinned frame is evicted.\<close>

theorem lru_versions_agree:
  assumes calls: "legal_calls k cap True [] calls" and cap: "cap + 2 \<le> INVALID_INDEX"
  shows "run_calls l1_ops (pl_new junk) calls = Inr (queue_run True [] calls) \<and>
    (\<exists>r. l2_new junk' cap = Inr r \<and> run_calls l2_ops r calls = Inr (queue_run True [] calls))"
proof -
  obtain la where la: "la_new junk' cap = Inr la" "la_rep la []" "la_capacity la = cap"
    using la_new_rep [OF cap] by blast
  then show ?thesis
    using q_lru1.run_calls_queue [OF _ calls, of "pl_new junk" cap] q_lru2.run_calls_queue [OF _ calls, of "\<lparr>l2_list = la\<rparr>"]
      pl_new_rep [of junk] cap
    by (auto simp: p1_rep_def l2_rep_def pl_cap_def l2_cap_def l2_new_def INVALID_INDEX_def)
qed

lemma small_calls:
  "legal_calls 0 4 lru [] [Call_Insert 0, Call_Promote 0, Call_Victim small_pt, Call_Insert 1, Call_Insert 2, Call_Erase 1]"
  "queue_run lru [] [Call_Insert 0, Call_Promote 0, Call_Victim small_pt, Call_Insert 1, Call_Insert 2, Call_Erase 1] =
     [Done True, Done True, Evicted True 0 (lock_frame small_pt 0), Done True, Done True, Done True]"
  using small_pt_wf small_pt_frame0 by (auto simp: queue_victim_def)

lemma lru_versions_agree_witness:
  "\<exists>r. l2_new (\<lambda>_. 0) 4 = Inr r \<and>
     run_calls l2_ops r [Call_Insert 0, Call_Promote 0, Call_Victim small_pt, Call_Insert 1, Call_Insert 2, Call_Erase 1] =
       Inr [Done True, Done True, Evicted True 0 (lock_frame small_pt 0), Done True, Done True, Done True] \<and>
     run_calls l1_ops (pl_new (\<lambda>_. ListNode_ptr 7)) [Call_Insert 0, Call_Promote 0, Call_Victim small_pt, Call_Insert 1, Call_Insert 2, Call_Erase 1] =
       Inr [Done True, Done True, Evicted True 0 (lock_frame small_pt 0), Done True, Done True, Done True]"
  using lru_versions_agree [OF small_calls(1), of "\<lambda>_. ListNode_ptr 7" "\<lambda>_. 0"]
  unfolding small_calls(2) by (auto simp: INVALID_INDEX_def)

text \<open>FIFO in two versions: \<open>FIFOReplacer\<close> and \<open>FIFOReplacer_v2\<close> give the same replies as the
  queue in which accesses move nothing and the backmost unpinned frame is evicted; when all are
  pinned the call reports failure and changes nothing.\<close>

theorem fifo_versions_agree:
  assumes calls: "legal_calls k cap False [] calls" and cap: "cap + 2 \<le> INVALID_INDEX"
  shows "run_calls f1_ops (f1_new junk) calls = Inr (queue_run False [] calls) \<and>
    (\<exists>r. f2_new junk' cap = Inr r \<and> run_calls f2_ops r calls = Inr (queue_run False [] calls))"
proof -
  obtain la where la: "la_new junk' cap = Inr la" "la_rep la []" "la_capacity la = cap"
    using la_new_rep [OF cap] by blast
  then show ?thesis
    using q_fifo1.run_calls_queue [OF _ calls, of "f1_new junk" cap] q_fifo2.run_calls_queue [OF _ calls, of "\<lparr>f2_list = la\<rparr>"]
      pl_new_rep [of junk] cap
    by (auto simp: p1_rep_def f2_rep_def pl_cap_def f2_cap_def f2_new_def f1_new_def INVALID_INDEX_def)
qed

lemma fifo_versions_agree_witness:
  "\<exists>r. f2_new (\<lambda>_. 0) 4 = Inr r \<and>
     run_calls f2_ops r [Call_Insert 0, Call_Promote 0, Call_Victim small_pt, Call_Insert 1, Call_Insert 2, Call_Erase 1] =
       Inr [Done True, Done True, Evicted True 0 (lock_frame small_pt 0), Done True, Done True, Done True] \<and>
     run_calls f1_ops (f1_new (\<lambda>_. ListNode_ptr 7)) [Call_Insert 0, Call_Promote 0, Call_Victim small_pt, Call_Insert 1, Call_Insert 2, Call_Erase 1] =
       Inr [Done True, Done True, Evicted True 0 (lock_frame small_pt 0), Done True, Done True, Done True]"
  using fifo_versions_agree [OF small_calls(1), of "\<lambda>_. ListNode_ptr 7" "\<lambda>_. 0"]
  unfolding small_calls(2) by (auto simp: INVALID_INDEX_def)

end
