(* ===== verification/BatchVictims.thy ===== *)
theory BatchVictims
  imports PtrPolicies
begin

text \<open>
  The batch form of \<open>Victim\<close> in the pointer-linked policies, which the eviction server calls: it
  takes clean unpinned frames and deletes their mappings.  \<open>FIFOReplacer\<close> takes them out of its
  list; \<open>LRUReplacer\<close> cuts the list behind the victim, so that the frames that its scan skipped stay
  in the hash map but can no longer be reached, and the node of the last of them points at freed
  memory.
\<close>

lemma batch_step:
  assumes p: "p \<noteq> HEAD_ADDR" "p \<in> nh_dom h" and wf: "pt_wf k pt" and hd: "held pt (nh_val h p)"
  shows "l1_batch_loop (Suc fuel) h p pt =
      (if clean_victim pt (nh_val h p) then Inr (Some p, unmap_frame pt (nh_val h p))
       else l1_batch_loop fuel h (nh_prv h p) pt)"
    and "f1_batch_loop (Suc fuel) h p pt =
      (if clean_victim pt (nh_val h p) then Inr (Some p, unmap_frame pt (nh_val h p))
       else f1_batch_loop fuel h (nh_prv h p) pt)"
proof -
  let ?m = "nh_val h p"
  have "frames (lock_frame pt ?m) = frames pt" "?m < frames pt"
    using lock_frame_wf(4) [OF wf hd] hd by (simp_all add: held_def)
  then have "FromPageId (lock_frame pt ?m) ?m = Inr (set_busy True (pte_of pt ?m))"
    using lock_frame_wf(6) [OF wf hd] by (simp add: pt_simps)
  moreover note DeleteMapping_busy [OF lock_frame_wf(3) [OF wf hd]]
  ultimately show "l1_batch_loop (Suc fuel) h p pt =
      (if clean_victim pt ?m then Inr (Some p, unmap_frame pt ?m) else l1_batch_loop fuel h (nh_prv h p) pt)"
    and "f1_batch_loop (Suc fuel) h p pt =
      (if clean_victim pt ?m then Inr (Some p, unmap_frame pt ?m) else f1_batch_loop fuel h (nh_prv h p) pt)"
    using p try_evict_held [OF wf hd, of True]
    by (auto simp: clean_victim_def unmap_frame_def nh_simps node_before_def pt_simps)
qed

lemma f2_batch_step:
  assumes i: "i \<noteq> la_head la" and wf: "pt_wf k pt" and hd: "held pt i"
  shows "f2_batch_loop (Suc fuel) la i pt = (if clean_victim pt i then Inr (Some i, unmap_frame pt i)
     else bindE (getPrevNodeIndex la i) (\<lambda>j. f2_batch_loop fuel la j pt))"
proof -
  have "frames (lock_frame pt i) = frames pt" "i < frames pt"
    using lock_frame_wf(4) [OF wf hd] hd by (simp_all add: held_def)
  then have "FromPageId (lock_frame pt i) i = Inr (set_busy True (pte_of pt i))"
    using lock_frame_wf(6) [OF wf hd] by (simp add: pt_simps)
  then show ?thesis
    using i try_evict_held [OF wf hd, of True] DeleteMapping_busy [OF lock_frame_wf(3) [OF wf hd]]
    by (auto simp: clean_victim_def unmap_frame_def pt_simps)
qed

declare f2_batch_loop.simps(2) [simp del]

interpretation f2_batch: queue_scan f2_batch_loop clean_victim unmap_frame
  by unfold_locales (simp add: f2_batch_loop.simps(2), rule f2_batch_step)

declare l1_batch_loop.simps(2) [simp del] f1_batch_loop.simps(2) [simp del]

interpretation l1_batch: ptr_scan l1_batch_loop clean_victim unmap_frame
  by unfold_locales (simp add: l1_batch_loop.simps(2), rule batch_step(1))

interpretation f1_batch: ptr_scan f1_batch_loop clean_victim unmap_frame
  by unfold_locales (simp add: f1_batch_loop.simps(2), rule batch_step(2))

text \<open>Cutting a chain behind one of its members.\<close>

lemma chain_cut:
  assumes c: "chain nxt prv (cs @ a # rest)" and d: "distinct (cs @ [a])" and t: "t \<notin> set (cs @ [a])"
  shows "chain (nxt(a := t)) (prv(t := a)) (cs @ [a, t])"
proof -
  have "chain nxt prv (cs @ [a])" using iffD1 [OF chain_append c] by simp
  moreover have "chain nxt prv (cs @ [a]) = chain (nxt(a := t)) (prv(t := a)) (cs @ [a])"
    using d t by (intro chain_cong) (auto simp: butlast_append dest: in_set_butlastD in_set_tlD split: if_splits)
  ultimately have "chain (nxt(a := t)) (prv(t := a)) (cs @ [a])" by simp
  then show ?thesis by (simp add: chain_append2)
qed

text \<open>What cutting the list behind the victim leaves.\<close>

lemma l1_cut_tail_shape:
  assumes s: "pl_shape r (as @ p # qs) xs"
  shows "\<exists>h. l1_cut_tail r p = Inr (nh_val (pl_heap r) p,
      \<lparr>pl_heap = h, pl_map = Mapping.delete (nh_val (pl_heap r) p) (pl_map r)\<rparr>) \<and>
    list_shape h as \<and> nh_dom h = nh_dom (pl_heap r) - {p} \<and>
    (\<forall>q. q \<noteq> p \<longrightarrow> nh_val h q = nh_val (pl_heap r) q) \<and> (\<forall>q\<in>set qs. nh_prv h q = nh_prv (pl_heap r) q)"
proof -
  let ?h = "pl_heap r"
  note d = pl_shapeD [OF s]
  obtain cs a where cs: "HEAD_ADDR # as = cs @ [a]" by (metis append_butlast_last_id list.distinct(1))
  have all: "HEAD_ADDR # (as @ p # qs) @ [TAIL_ADDR] = cs @ a # p # qs @ [TAIL_ADDR]"
    using cs by (metis append.assoc append_Cons append_Nil)
  have dist: "distinct (cs @ a # p # qs @ [TAIL_ADDR])" and
    ch: "chain (nh_nxt ?h) (nh_prv ?h) (cs @ a # p # qs @ [TAIL_ADDR])" and
    dom: "nh_dom ?h = set (cs @ a # p # qs @ [TAIL_ADDR])"
    using d(1,2) unfolding list_shape_def all by blast+
  have pa: "nh_prv ?h p = a" using ch by (simp add: chain_append2)
  define h1 where "h1 = put_nxt (put_prv ?h TAIL_ADDR a) a TAIL_ADDR"
  have h1: "nh_dom h1 = nh_dom ?h" "nh_val h1 = nh_val ?h" "nh_nxt h1 = (nh_nxt ?h)(a := TAIL_ADDR)"
    "nh_prv h1 = (nh_prv ?h)(TAIL_ADDR := a)"
    using dom by (simp_all add: h1_def nh_simps)
  have "chain (nh_nxt h1) (nh_prv h1) (cs @ [a, TAIL_ADDR])"
    unfolding h1 by (rule chain_cut [OF ch]) (use dist in auto)
  moreover have hat: "HEAD_ADDR # as @ [TAIL_ADDR] = cs @ [a, TAIL_ADDR]" using cs by simp
  ultimately have sh: "list_shape h1 as"
    unfolding list_shape_def hat using dist dom h1(1) by auto
  have "p \<in> nh_dom h1" "p \<notin> set (HEAD_ADDR # as @ [TAIL_ADDR])"
    unfolding hat using dist dom h1(1) by auto
  from nh_delete_shape [OF sh this] obtain h where h: "nh_delete h1 p = Inr h" "list_shape h as"
    "nh_dom h = nh_dom h1 - {p}" "\<forall>q. q \<noteq> p \<longrightarrow> nh_val h q = nh_val h1 q"
    by blast
  have he: "h = h1\<lparr>nh_nodes := (nh_nodes h1)(p := None)\<rparr>" using h(1) \<open>p \<in> nh_dom h1\<close> by (simp add: nh_simps)
  have "nh_prv h q = nh_prv h1 q" if "q \<noteq> p" for q using that by (simp add: he nh_prv_def)
  moreover have "q \<noteq> p \<and> q \<noteq> TAIL_ADDR" if "q \<in> set qs" for q using that dist by auto
  ultimately have "\<forall>q\<in>set qs. nh_prv h q = nh_prv ?h q" by (simp add: h1(4))
  moreover have "l1_cut_tail r p = Inr (nh_val ?h p, \<lparr>pl_heap = h, pl_map = Mapping.delete (nh_val ?h p) (pl_map r)\<rparr>)"
    using h(1) dom pa by (simp add: l1_cut_tail_def nh_simps h1_def)
  moreover have "list_shape h as \<and> nh_dom h = nh_dom ?h - {p} \<and> (\<forall>q. q \<noteq> p \<longrightarrow> nh_val h q = nh_val ?h q)"
    using h(2-4) h1(1,2) by simp
  ultimately show ?thesis by blast
qed

section \<open>Properties\<close>

text \<open>When the batch eviction of \<open>LRUReplacer\<close> skips frames behind its victim, it takes them
  out of its list but not out of its hash map: inserting one again is refused, accessing the one
  next to the victim writes through the deleted node, and \<open>Victim\<close> reports that nothing can be
  evicted as long as the frames in front of the victim are pinned, whatever becomes of the
  skipped ones.\<close>

theorem LRU_batch_loses_skipped_frames:
  assumes r: "pl_rep r (ys @ m # z # zs)" and wf: "pt_wf k pt"
    and held: "\<And>x. x \<in> set (ys @ m # z # zs) \<Longrightarrow> held pt x"
    and m: "\<not> pinned pt m" "\<not> pte_dirty (pte_of pt m)"
    and z: "\<And>x. x \<in> set (z # zs) \<Longrightarrow> pinned pt x \<or> pte_dirty (pte_of pt x)"
  shows "\<exists>r' pt'. l1_Victim_batch r pt [] 1 = Inr (True, [m], r', pt') \<and>
    pl_Insert r' z = Inr (False, r') \<and> l1_Promote r' z = Inl NullDeref \<and>
    (\<forall>k pt. pt_wf k pt \<longrightarrow> (\<forall>y\<in>set ys. held pt y \<and> pinned pt y) \<longrightarrow>
      l1_Victim r' pt = Inr ((False, 0), r', pt))"
proof -
  obtain ps where s: "pl_shape r ps (ys @ m # z # zs)" using r by (auto simp: pl_rep_def)
  from pl_shapeD(4) [OF s] obtain as p q qs where ps: "ps = as @ p # q # qs" and
    v: "map (nh_val (pl_heap r)) as = ys" "nh_val (pl_heap r) p = m" "nh_val (pl_heap r) q = z"
    "map (nh_val (pl_heap r)) qs = zs"
    by (auto simp: map_eq_append_conv map_eq_Cons_conv)
  note s = s [unfolded ps]
  note d = pl_shapeD [OF s]
  obtain h where h: "l1_cut_tail r p = Inr (m, \<lparr>pl_heap = h, pl_map = Mapping.delete m (pl_map r)\<rparr>)"
    "list_shape h as" "nh_dom h = nh_dom (pl_heap r) - {p}"
    "\<forall>q. q \<noteq> p \<longrightarrow> nh_val h q = nh_val (pl_heap r) q" "\<forall>q\<in>set (q # qs). nh_prv h q = nh_prv (pl_heap r) q"
    using l1_cut_tail_shape [OF s] v(2) by auto
  let ?r = "\<lparr>pl_heap = h, pl_map = Mapping.delete m (pl_map r)\<rparr>"
  have hs: "held pt (nh_val (pl_heap r) x)" if "x \<in> set (as @ p # q # qs)" for x
    using that by (intro held) (auto simp flip: v)
  have cp: "clean_victim pt (nh_val (pl_heap r) p)" using m v(2) by (simp add: clean_victim_def)
  have vs: "\<not> clean_victim pt (nh_val (pl_heap r) x)" if "x \<in> set (q # qs)" for x
    using that z by (auto simp: clean_victim_def simp flip: v)
  have nv: "node_victim (clean_victim pt) (pl_heap r) (as @ p # qs') = Some p" if "set qs' \<subseteq> set (q # qs)" for qs'
    using that cp vs by (induction qs' rule: rev_induct) (auto simp flip: append_assoc append_Cons)
  have "length (as @ p # q # qs) < Suc (Mapping.size (pl_map r))" using pl_size [OF s] d(10) by simp
  then have scan: "bindE (node_before (pl_heap r) TAIL_ADDR)
      (\<lambda>p. bindE (l1_batch_loop (Suc (Mapping.size (pl_map r))) (pl_heap r) p pt) f) = f (Some p, unmap_frame pt m)"
    for f :: "nat option \<times> page_table \<Rightarrow> (bool \<times> mpage_id list \<times> ptr_node ptr_list \<times> page_table) res"
    using l1_batch.scan_from_tail [OF d(1) wf, of "Suc (Mapping.size (pl_map r))" f] hs nv [of "q # qs"] v(2) by simp
  have batch: "l1_Victim_batch r pt [] 1 = Inr (True, [m], ?r, unmap_frame pt m)"
    using h(1) by (simp add: numeral_nat scan)
  have "Mapping.lookup (pl_map r) z = Some q" "z \<noteq> m" using d(5,6) v(3) by auto
  then have l: "Mapping.lookup (pl_map ?r) z = Some q" by (simp add: lookup_delete_neq)
  have qp: "nh_prv h q = p" "q \<in> nh_dom h" "p \<notin> nh_dom h"
    using h(3,5) list_shape_links(1) [OF d(1), of "Suc (length as)"] d(2,7)
    by (auto simp: nth_append nth_Cons')
  then have "nh_get h p = Inl NullDeref" by (auto simp: nh_get_def nh_dom_def split: option.splits)
  then have "l1_Promote ?r z = Inl NullDeref"
    using l qp by (simp add: l1_Promote_def unlink_node_def nh_simps nh_set_next_def nh_upd_def)
  moreover have "pl_Insert ?r z = Inr (False, ?r)" using l by (simp add: pl_Insert_def)
  moreover have "l1_Victim ?r pt = Inr ((False, 0), ?r, pt)"
    if wf: "pt_wf k pt" and ys: "\<forall>y\<in>set ys. held pt y \<and> pinned pt y" for k pt
  proof -
    have as: "held pt (nh_val h a)" "pinned pt (nh_val h a)" if "a \<in> set as" for a
      using that ys v(1) h(4) d(7) by auto
    have "node_victim (\<lambda>m. \<not> pinned pt m) h as = None" using as(2) by (auto simp: node_victim_def find_None_iff)
    moreover have "length as < Suc (Mapping.size (pl_map ?r))"
      using pl_size [OF s] d(10) by (simp add: size_delete)
    ultimately show ?thesis
      using l1.scan_from_tail [OF h(2) wf as(1), where f = "pl_evict ?r"] by (simp add: l1_Victim_def pl_evict_def)
  qed
  ultimately show ?thesis using batch by blast
qed

text \<open>A table of two frames whose pages are in memory, the first of them pinned once.\<close>

definition two_pt :: page_table where
  "two_pt = \<lparr>pt_mappings = [Some \<lparr>pm_mappings = [mword 0, mword 1], pm_size = 2\<rparr>],
     pt_partitioner = \<lparr>num_partitions = 1, log2_num_partitions = 0\<rparr>,
     pt_inner = \<lparr>pti_pool = [mk_pte 1 0 True True False 0, mk_pte 0 0 True False False 1], pti_num_pages = 2\<rparr>\<rparr>"

lemma two_pt_sel:
  "pt_partitioner two_pt = \<lparr>num_partitions = 1, log2_num_partitions = 0\<rparr>" "frames two_pt = 2"
  "pte_of two_pt 0 = mk_pte 1 0 True True False 0" "pte_of two_pt (Suc 0) = mk_pte 0 0 True False False 1"
  by (simp_all add: two_pt_def frames_def pte_of_def)

lemma two_pt_word:
  "pt_word two_pt fd p = (if fd = 0 \<and> p = 0 then Some (mword 0) else if fd = 0 \<and> p = 1 then Some (mword 1) else None)"
proof -
  have "unat p < 2 \<longleftrightarrow> p = 0 \<or> p = 1" by (auto simp: less_2_cases_iff word_unat_eq_iff)
  then show ?thesis
    by (auto simp: pt_word_def two_pt_def GetFPageIdInPartition_def unat_eq_0 Let_def)
qed

lemma two_pt_wf: "pt_wf 0 two_pt"
  by (auto simp: pt_wf_def two_pt_sel two_pt_word slot_ok_def backed_def partitioner_wf_def
      BUSY_VALUE_def pt_simps GetPartitionId_def GetFPageIdInPartition_def split: if_splits)

lemma two_pt_frames:
  "held two_pt 0" "held two_pt 1" "pinned two_pt 0" "\<not> pinned two_pt 1" "\<not> pte_dirty (pte_of two_pt 1)"
  by (simp_all add: held_def pinned_def two_pt_sel two_pt_word pt_simps)

lemma LRU_batch_loses_skipped_frames_witness:
  "\<exists>r0 r r' pt'. pl_Insert (pl_new (\<lambda>_. ListNode_ptr 7)) 0 = Inr (True, r0) \<and> pl_Insert r0 1 = Inr (True, r) \<and>
     l1_Victim_batch r two_pt [] 1 = Inr (True, [1], r', pt') \<and> pl_Insert r' 0 = Inr (False, r') \<and>
     l1_Promote r' 0 = Inl NullDeref"
proof -
  obtain r0 where r0: "pl_Insert (pl_new (\<lambda>_. ListNode_ptr 7)) 0 = Inr (True, r0)" "pl_rep r0 [0]"
    using pl_Insert_rep(2) [OF pl_new_rep, of 0 "\<lambda>_. ListNode_ptr 7"] by auto
  obtain r where r: "pl_Insert r0 1 = Inr (True, r)" "pl_rep r ([] @ 1 # 0 # [])"
    using pl_Insert_rep(2) [OF r0(2), of 1] by auto
  show ?thesis
    using LRU_batch_loses_skipped_frames [OF r(2) two_pt_wf] two_pt_frames r0(1) r(1) by auto
qed

end
