(* ===== verification/Clock.thy ===== *)
theory Clock
  imports BatchVictims
begin

text \<open>
  \<open>ClockReplacer\<close> (\<^verbatim>\<open>include/replacer/clock_replacer.h\<close>): the list of heap nodes of
  \<open>PtrPolicies\<close> with a frequency in each node.  \<open>Victim\<close> moves frames with a positive frequency to
  the front, lowering it, and looks for an unpinned frame among the others.  Proved: it finds one
  whenever there is one, whatever the frequencies (which the constructor of a node leaves
  uninitialised), and it runs past the front of the list when there is none.
\<close>

section \<open>State and operations\<close>

record clock_node = ptr_node +
  cn_freq :: u32

type_synonym clock = "clock_node ptr_list"

definition MAX_FREQ :: u32 where
  "MAX_FREQ = 100"

definition ck_new :: "(nat \<Rightarrow> clock_node) \<Rightarrow> clock" where
  "ck_new junk = pl_new junk"

text \<open>The constructor of a node leaves \<open>freq\<close> uninitialised: it is the argument \<open>junk\<close>.\<close>

definition ListNode_clock :: "u32 \<Rightarrow> mpage_id \<Rightarrow> clock_node" where
  "ListNode_clock junk value = \<lparr>pn_val = value, pn_prev = NULL_ADDR, pn_next = NULL_ADDR, cn_freq = junk\<rparr>"

definition ck_link_front :: "clock_node node_heap \<Rightarrow> nat \<Rightarrow> clock_node node_heap res" where
  "ck_link_front h cur =
     bindE (nh_get h HEAD_ADDR) (\<lambda>hd.
     bindE (nh_set_next h cur (pn_next hd)) (\<lambda>h.
     bindE (nh_get h HEAD_ADDR) (\<lambda>hd.
     bindE (nh_set_prev h (pn_next hd) cur) (\<lambda>h.
     bindE (nh_set_prev h cur HEAD_ADDR) (\<lambda>h.
     nh_set_next h HEAD_ADDR cur)))))"

definition ck_Insert :: "u32 \<Rightarrow> clock \<Rightarrow> mpage_id \<Rightarrow> (bool \<times> clock) res" where
  "ck_Insert junk r value =
     (if Mapping.lookup (pl_map r) value \<noteq> None then Inr (False, r)
      else let (cur, h) = nh_new (pl_heap r) (ListNode_clock junk value) in
        bindE (ck_link_front h cur) (\<lambda>h.
        Inr (True, \<lparr>pl_heap = h, pl_map = Mapping.update value cur (pl_map r)\<rparr>)))"

definition ck_Promote :: "clock \<Rightarrow> mpage_id \<Rightarrow> (bool \<times> clock) res" where
  "ck_Promote r value =
     (case Mapping.lookup (pl_map r) value of
        None \<Rightarrow> Inr (False, r)
      | Some cur \<Rightarrow> bindE (nh_get (pl_heap r) cur) (\<lambda>n.
          if cn_freq n < MAX_FREQ then
            bindE (nh_upd (\<lambda>n. n\<lparr>cn_freq := cn_freq n + 1\<rparr>) (pl_heap r) cur) (\<lambda>h.
            Inr (True, r\<lparr>pl_heap := h\<rparr>))
          else Inr (False, r)))"

definition move_node_to_head :: "clock_node node_heap \<Rightarrow> nat \<Rightarrow> nat \<Rightarrow> clock_node node_heap res" where
  "move_node_to_head h head node =
     bindE (nh_get h node) (\<lambda>n.
     bindE (nh_set_prev h (pn_next n) (pn_prev n)) (\<lambda>h.
     bindE (nh_get h node) (\<lambda>n.
     bindE (nh_set_next h (pn_prev n) (pn_next n)) (\<lambda>h.
     bindE (nh_get h head) (\<lambda>hd.
     bindE (nh_set_prev h (pn_next hd) node) (\<lambda>h.
     bindE (nh_get h head) (\<lambda>hd.
     bindE (nh_set_next h node (pn_next hd)) (\<lambda>h.
     bindE (nh_set_prev h node head) (\<lambda>h.
     nh_set_next h head node)))))))))"

text \<open>
  The inner loop of \<open>Victim\<close>: while the candidate has a positive frequency, lower it, move the node
  to the front and take the node at the back.
\<close>

fun ck_demote :: "nat \<Rightarrow> clock_node node_heap \<Rightarrow> nat \<Rightarrow> (clock_node node_heap \<times> nat) res" where
  "ck_demote 0 h p = Inl OutOfFuel"
| "ck_demote (Suc fuel) h p =
     bindE (nh_get h p) (\<lambda>n.
     if cn_freq n \<ge> 1 then
       bindE (nh_upd (\<lambda>n. n\<lparr>cn_freq := cn_freq n - 1\<rparr>) h p) (\<lambda>h.
       bindE (move_node_to_head h HEAD_ADDR p) (\<lambda>h.
       bindE (node_before h TAIL_ADDR) (\<lambda>p. ck_demote fuel h p)))
     else Inr (h, p))"

text \<open>The outer loop has no test for the front of the list.\<close>

fun ck_loop :: "nat \<Rightarrow> clock_node node_heap \<Rightarrow> nat \<Rightarrow> page_table \<Rightarrow> (nat \<times> clock_node node_heap \<times> page_table) res" where
  "ck_loop 0 h p pt = Inl OutOfFuel"
| "ck_loop (Suc fuel) h p pt =
     bindE (ck_demote fuel h p) (\<lambda>(h, p).
     bindE (nh_get h p) (\<lambda>n.
     bindE (try_evict False pt (pn_val n)) (\<lambda>(found, pt).
     if found then Inr (p, h, pt)
     else bindE (node_before h p) (\<lambda>p. ck_loop fuel h p pt))))"

definition ck_Victim :: "nat \<Rightarrow> clock \<Rightarrow> page_table \<Rightarrow> ((bool \<times> mpage_id) \<times> clock \<times> page_table) res" where
  "ck_Victim fuel r pt =
     bindE (node_before (pl_heap r) TAIL_ADDR) (\<lambda>p.
     if p = HEAD_ADDR then Inr ((False, 0), r, pt)
     else bindE (ck_loop fuel (pl_heap r) p pt) (\<lambda>(p, h, pt).
       bindE (pl_take (r\<lparr>pl_heap := h\<rparr>) p) (\<lambda>(m, r). Inr ((True, m), r, pt))))"

definition ck_Victim_batch :: "clock \<Rightarrow> bool res" where
  "ck_Victim_batch r = bindE (assertE False) (\<lambda>_. Inr False)"

definition ck_Erase :: "clock \<Rightarrow> mpage_id \<Rightarrow> (bool \<times> clock) res" where
  "ck_Erase r value = pl_Erase r value"

definition ck_Size :: "clock \<Rightarrow> u64 res" where
  "ck_Size r = pl_Size r"

section \<open>Frequencies and moves\<close>

definition nh_frq :: "clock_node node_heap \<Rightarrow> nat \<Rightarrow> u32" where
  "nh_frq h p = cn_freq (the (nh_nodes h p))"

definition put_frq :: "clock_node node_heap \<Rightarrow> nat \<Rightarrow> u32 \<Rightarrow> clock_node node_heap" where
  "put_frq h p f = nh_put h p ((the (nh_nodes h p))\<lparr>cn_freq := f\<rparr>)"

lemma frq_reads [nh_simps]: "cn_freq (the (nh_nodes h p)) = nh_frq h p"
  by (simp add: nh_frq_def)

lemma frq_puts [nh_simps]:
  "nh_frq (put_nxt h p q) = nh_frq h" "nh_frq (put_prv h p q) = nh_frq h" "nh_frq (put_frq h p f) = (nh_frq h)(p := f)"
  "nh_nxt (put_frq h p f) = nh_nxt h" "nh_prv (put_frq h p f) = nh_prv h" "nh_val (put_frq h p f) = nh_val h"
  "nh_fresh (put_frq h p f) = nh_fresh h"
  by (auto simp: nh_frq_def put_nxt_def put_prv_def put_frq_def nh_put_def nh_nxt_def nh_prv_def nh_val_def)

lemma frq_dom [nh_simps]: "p \<in> nh_dom h \<Longrightarrow> nh_dom (put_frq h p f) = nh_dom h"
  by (auto simp: put_frq_def nh_put_def nh_dom_def)

lemma list_shape_same:
  "nh_nxt h' = nh_nxt h \<Longrightarrow> nh_prv h' = nh_prv h \<Longrightarrow> nh_dom h' = nh_dom h \<Longrightarrow> list_shape h' ps = list_shape h ps"
  by (simp add: list_shape_def)

lemma list_shape_neighbours:
  assumes s: "list_shape h ps" and p: "p \<in> set ps"
  shows "nh_prv h p \<in> nh_dom h" "nh_prv h p \<noteq> TAIL_ADDR" "nh_prv h p \<noteq> p"
    "nh_nxt h p \<in> nh_dom h" "nh_nxt h p \<noteq> HEAD_ADDR" "nh_nxt h p \<noteq> p"
proof -
  obtain ys zs where ps: "ps = ys @ p # zs" using p by (auto dest: split_list)
  obtain as a where a: "HEAD_ADDR # ys = as @ [a]" by (metis append_butlast_last_id list.distinct(1))
  obtain b bs where b: "zs @ [TAIL_ADDR] = b # bs" by (cases zs) auto
  have e: "HEAD_ADDR # ps @ [TAIL_ADDR] = as @ a # p # b # bs"
    using ps a b by (metis append.assoc append_Cons append_Nil)
  have c: "chain (nh_nxt h) (nh_prv h) (as @ a # p # b # bs)" and d: "distinct (as @ a # p # b # bs)"
    and m: "set (as @ a # p # b # bs) \<subseteq> nh_dom h"
    using s unfolding list_shape_def e by blast+
  have ab: "nh_prv h p = a" "nh_nxt h p = b"
    using c chain_append2 [of "nh_nxt h" "nh_prv h" as a p "b # bs"] by simp_all
  have "TAIL_ADDR \<in> set (b # bs)" "HEAD_ADDR \<in> set (as @ [a])" by (simp_all flip: a b)
  then show "nh_prv h p \<in> nh_dom h" "nh_prv h p \<noteq> TAIL_ADDR" "nh_prv h p \<noteq> p"
    "nh_nxt h p \<in> nh_dom h" "nh_nxt h p \<noteq> HEAD_ADDR" "nh_nxt h p \<noteq> p"
    unfolding ab using m d by auto
qed

lemma move_node_to_head_shape:
  assumes s: "list_shape h ps" and p: "p \<in> set ps"
  shows "\<exists>h'. move_node_to_head h HEAD_ADDR p = Inr h' \<and> list_shape h' (p # remove1 p ps) \<and>
    nh_val h' = nh_val h \<and> nh_frq h' = nh_frq h \<and> nh_dom h' = nh_dom h \<and> nh_fresh h' = nh_fresh h"
proof -
  let ?a = "nh_prv h p" and ?b = "nh_nxt h p"
  obtain h1 where h1: "unlink_node h p = Inr h1" "list_shape h1 (remove1 p ps)" "nh_dom h1 = nh_dom h"
    using unlink_node_shape [OF s p] by blast
  note d = list_shapeD [OF s] and nb = list_shape_neighbours [OF s p]
  have a: "?a \<in> nh_dom h" "?a \<noteq> TAIL_ADDR" and b: "?b \<in> nh_dom h" "?b \<noteq> HEAD_ADDR"
    and ne: "?a \<noteq> p" "?b \<noteq> p" and pd: "p \<in> nh_dom h"
    using nb d(6) p by blast+
  define g1 where "g1 = put_nxt (put_prv h ?b ?a) ?a ?b"
  have g1: "nh_dom g1 = nh_dom h" "nh_val g1 = nh_val h" "nh_frq g1 = nh_frq h" "nh_fresh g1 = nh_fresh h"
    "nh_nxt g1 = (nh_nxt h)(?a := ?b)" "nh_prv g1 = (nh_prv h)(?b := ?a)"
    using a b by (simp_all add: g1_def nh_simps)
  have u: "h1 = put_prv (put_nxt h ?a ?b) ?b ?a"
    using h1(1) a b ne pd by (simp add: unlink_node_def nh_simps)
  have "list_shape g1 (remove1 p ps)"
    using h1(2) g1(1,5,6) a b by (subst list_shape_same [of g1 h1]) (simp_all add: u nh_simps)
  moreover have "p \<in> nh_dom g1" "p \<notin> set (HEAD_ADDR # remove1 p ps @ [TAIL_ADDR])"
    using pd g1(1) d(1,2,3) p by auto
  ultimately obtain h2 where h2: "link_front g1 p = Inr h2" "list_shape h2 (p # remove1 p ps)"
    "nh_val h2 = nh_val g1" "nh_dom h2 = nh_dom g1" "nh_fresh h2 = nh_fresh g1"
    using link_front_shape [of g1 "remove1 p ps" p] by blast
  let ?c = "nh_nxt g1 HEAD_ADDR"
  have hp: "HEAD_ADDR \<noteq> p" "p \<noteq> TAIL_ADDR" using d(2,3) p by auto
  have c: "?c \<in> nh_dom h" "?c \<noteq> HEAD_ADDR" "?c \<noteq> p"
  proof -
    have g: "list_shape g1 (remove1 p ps)"
      using h1(2) g1(1,5,6) a b by (subst list_shape_same [of g1 h1]) (simp_all add: u nh_simps)
    have "?c = (remove1 p ps @ [TAIL_ADDR]) ! 0"
      using chain_nxt_nth [of "nh_nxt g1" "nh_prv g1" "HEAD_ADDR # remove1 p ps @ [TAIL_ADDR]" 0] g
      by (simp add: list_shape_def)
    then have "?c \<in> set (remove1 p ps @ [TAIL_ADDR])" by (simp add: nth_append split: if_splits)
    then show "?c \<in> nh_dom h" "?c \<noteq> HEAD_ADDR" "?c \<noteq> p" using g g1(1) hp d(1) by (auto simp: list_shape_def)
  qed
  define g2 where "g2 = put_nxt (put_prv (put_nxt (put_prv g1 ?c p) p ?c) p HEAD_ADDR) HEAD_ADDR p"
  have lf: "h2 = put_nxt (put_prv (put_prv (put_nxt g1 p ?c) p HEAD_ADDR) ?c p) HEAD_ADDR p"
    using h2(1) c pd hp d(4) g1(1) by (simp add: link_front_def nh_simps)
  have "move_node_to_head h HEAD_ADDR p = Inr g2"
    using a b c pd ne hp d(4) g1 by (simp add: move_node_to_head_def nh_simps g2_def g1_def [symmetric])
  moreover have "list_shape g2 (p # remove1 p ps)"
    using h2(2) c pd d(4) g1(1) by (subst list_shape_same [of g2 h2]) (simp_all add: lf g2_def nh_simps fun_upd_twist)
  ultimately show ?thesis using g1 c pd d(4) by (simp add: g2_def nh_simps)
qed

section \<open>The loops\<close>

text \<open>The sum of the frequencies, which the inner loop lowers.\<close>

definition frq_sum :: "clock_node node_heap \<Rightarrow> nat list \<Rightarrow> nat" where
  "frq_sum h ps = (\<Sum>p\<in>set ps. unat (nh_frq h p))"

text \<open>What the moves keep: the nodes of the list, their values, and the sentinel.\<close>

definition same_nodes :: "clock_node node_heap \<Rightarrow> nat list \<Rightarrow> clock_node node_heap \<Rightarrow> nat list \<Rightarrow> bool" where
  "same_nodes h ps h' ps' \<longleftrightarrow> list_shape h' ps' \<and> set ps' = set ps \<and> length ps' = length ps \<and>
     nh_val h' = nh_val h \<and> nh_dom h' = nh_dom h \<and> nh_fresh h' = nh_fresh h \<and> nh_frq h' HEAD_ADDR = nh_frq h HEAD_ADDR"

lemma same_nodes_trans: "same_nodes h ps h1 ps1 \<Longrightarrow> same_nodes h1 ps1 h2 ps2 \<Longrightarrow> same_nodes h ps h2 ps2"
  by (simp add: same_nodes_def)

lemma demote_once:
  assumes s: "list_shape h ps" and p: "p \<in> set ps" and f: "1 \<le> nh_frq h p"
  shows "\<exists>h' ps'. ck_demote (Suc fuel) h p = ck_demote fuel h' (last ps') \<and> same_nodes h ps h' ps' \<and> ps' \<noteq> [] \<and>
    Suc (frq_sum h' ps') = frq_sum h ps"
proof -
  have pd: "p \<in> nh_dom h" "p \<noteq> HEAD_ADDR" using list_shapeD [OF s] p by auto
  let ?h = "put_frq h p (nh_frq h p - 1)"
  have "list_shape ?h ps" using s pd by (subst list_shape_same [of ?h h]) (simp_all add: nh_simps)
  from move_node_to_head_shape [OF this p] obtain h' where h': "move_node_to_head ?h HEAD_ADDR p = Inr h'"
    "list_shape h' (p # remove1 p ps)" "nh_val h' = nh_val h" "nh_frq h' = (nh_frq h)(p := nh_frq h p - 1)"
    "nh_dom h' = nh_dom h" "nh_fresh h' = nh_fresh h"
    using pd by (auto simp: nh_simps)
  let ?ps = "p # remove1 p ps"
  have ps: "set ?ps = set ps" "length ?ps = length ps"
    using p list_shapeD(1) [OF s] length_pos_if_in_set [OF p] by (auto simp: length_remove1)
  have "nh_get h p = Inr (the (nh_nodes h p))" using pd by (simp add: nh_simps)
  then have "ck_demote (Suc fuel) h p = bindE (node_before h' TAIL_ADDR) (\<lambda>p. ck_demote fuel h' p)"
    using f h'(1) by (simp add: nh_upd_def nh_simps put_frq_def)
  moreover have "node_before h' TAIL_ADDR = Inr (last ?ps)"
    using list_shapeD(5) [OF h'(2)] list_shape_links(2) [OF h'(2)] by (simp add: node_before_def nh_simps)
  moreover have "Suc (frq_sum h' ?ps) = frq_sum h ps"
  proof -
    have "unat (nh_frq h p - 1) = unat (nh_frq h p) - 1" "unat (nh_frq h p) \<ge> 1"
      using f by (simp_all add: unat_sub word_le_nat_alt)
    then have "Suc (unat (nh_frq h p - 1)) = unat (nh_frq h p)" by simp
    then show ?thesis
      unfolding frq_sum_def ps(1) using p h'(4)
      by (simp add: sum.remove [of "set ps" p])
  qed
  ultimately show ?thesis using h' ps pd by (intro exI [of _ h'] exI [of _ ?ps]) (simp add: same_nodes_def)
qed

lemma ck_demote_stops: "p \<in> nh_dom h \<Longrightarrow> nh_frq h p = 0 \<Longrightarrow> ck_demote (Suc fuel) h p = Inr (h, p)"
  by (simp add: nh_simps)

declare ck_demote.simps(2) [simp del]

text \<open>The inner loop ends at a node with frequency 0: the one it began with, or the last one.\<close>

lemma ck_demote_ends:
  assumes "list_shape h ps" "p \<in> set ps" "frq_sum h ps < fuel"
  shows "\<exists>h' ps' p'. ck_demote fuel h p = Inr (h', p') \<and> same_nodes h ps h' ps' \<and> p' \<in> set ps' \<and>
    (h' = h \<and> ps' = ps \<and> p' = p \<or> frq_sum h' ps' < frq_sum h ps \<and> p' = last ps')"
  using assms
proof (induction fuel arbitrary: h ps p)
  case (Suc fuel)
  have pd: "p \<in> nh_dom h" using list_shapeD(6) [OF Suc.prems(1)] Suc.prems(2) by blast
  show ?case
  proof (cases "nh_frq h p = 0")
    case True
    then have "ck_demote (Suc fuel) h p = Inr (h, p)" using pd by (intro ck_demote_stops)
    then show ?thesis using Suc.prems by (intro exI [of _ h] exI [of _ ps] exI [of _ p]) (simp add: same_nodes_def)
  next
    case False
    then have "1 \<le> nh_frq h p" by (simp add: word_le_nat_alt unat_eq_zero Suc_le_eq unat_gt_0)
    from demote_once [OF Suc.prems(1,2) this, of fuel] obtain h1 ps1 where
      1: "ck_demote (Suc fuel) h p = ck_demote fuel h1 (last ps1)" "same_nodes h ps h1 ps1" "ps1 \<noteq> []"
        "Suc (frq_sum h1 ps1) = frq_sum h ps" by blast
    have "list_shape h1 ps1" "last ps1 \<in> set ps1"
      using 1(2) last_in_set [OF 1(3)] unfolding same_nodes_def by blast+
    from Suc.IH [OF this] obtain h' ps' p' where
      2: "ck_demote fuel h1 (last ps1) = Inr (h', p')" "same_nodes h1 ps1 h' ps'" "p' \<in> set ps'"
        "h' = h1 \<and> ps' = ps1 \<and> p' = last ps1 \<or> frq_sum h' ps' < frq_sum h1 ps1 \<and> p' = last ps'"
      using 1(4) Suc.prems(3) by auto
    then have "frq_sum h' ps' < frq_sum h ps \<and> p' = last ps'" using 1(4) by auto
    then show ?thesis using 1(1) 2(1,3) same_nodes_trans [OF 1(2) 2(2)] by auto
  qed
qed simp

text \<open>
  The outer loop, begun at position \<open>k\<close> with the frames behind it pinned, finds an unpinned frame or
  reaches the sentinel at the front.
\<close>

lemma ck_loop_ends:
  assumes s: "list_shape h ps" and wf: "pt_wf c pt" and held: "\<And>p. p \<in> set ps \<Longrightarrow> held pt (nh_val h p)"
    and k: "k < length ps" "\<And>j. k < j \<Longrightarrow> j < length ps \<Longrightarrow> pinned pt (nh_val h (ps ! j))"
    and fuel: "frq_sum h ps * (length ps + 2) + k + 3 < fuel"
  shows "(\<exists>h' ps' p. same_nodes h ps h' ps' \<and> p \<in> set ps' \<and> \<not> pinned pt (nh_val h p) \<and>
      ck_loop fuel h (ps ! k) pt = Inr (p, h', lock_frame pt (nh_val h p))) \<or>
    (\<forall>p\<in>set ps. pinned pt (nh_val h p)) \<and>
      (\<exists>h' ps' n. same_nodes h ps h' ps' \<and> ck_loop fuel h (ps ! k) pt = ck_loop (Suc (Suc n)) h' HEAD_ADDR pt)"
  using assms
proof (induction fuel arbitrary: h ps k)
  case (Suc fuel)
  let ?S = "frq_sum h ps" and ?N = "length ps"
  have pk: "ps ! k \<in> set ps" using Suc.prems(4) by simp
  have "?S \<le> ?S * (?N + 2)" by simp
  then have "?S < fuel" using Suc.prems(6) by linarith
  from ck_demote_ends [OF Suc.prems(1) pk this] obtain h1 ps1 p1 where
    1: "ck_demote fuel h (ps ! k) = Inr (h1, p1)" "same_nodes h ps h1 ps1" "p1 \<in> set ps1"
      "h1 = h \<and> ps1 = ps \<and> p1 = ps ! k \<or> frq_sum h1 ps1 < ?S \<and> p1 = last ps1" by blast
  have n1: "list_shape h1 ps1" "set ps1 = set ps" "length ps1 = ?N" "nh_val h1 = nh_val h"
    using 1(2) by (simp_all add: same_nodes_def)
  have p1d: "p1 \<in> nh_dom h1" using list_shapeD(6) [OF n1(1) 1(3)] .
  have h1: "held pt (nh_val h1 p1)" using Suc.prems(3) 1(3) n1(2,4) by simp
  have step: "ck_loop (Suc fuel) h (ps ! k) pt =
      (if pinned pt (nh_val h p1) then ck_loop fuel h1 (nh_prv h1 p1) pt
       else Inr (p1, h1, lock_frame pt (nh_val h p1)))"
    using 1(1) p1d try_evict_held [OF wf h1, of False] n1(4) by (simp add: nh_simps node_before_def)
  show ?case
  proof (cases "pinned pt (nh_val h p1)")
    case False
    then show ?thesis using step 1(2,3) by auto
  next
    case True
    text \<open>The position reached, and the room left for the rest of the scan.\<close>
    obtain j where j: "j < ?N" "p1 = ps1 ! j" "\<And>i. j < i \<Longrightarrow> i < ?N \<Longrightarrow> pinned pt (nh_val h (ps1 ! i))"
      "frq_sum h1 ps1 * (?N + 2) + j + 3 \<le> fuel"
    proof (cases "h1 = h \<and> ps1 = ps \<and> p1 = ps ! k")
      case True
      then show thesis using that [of k] Suc.prems(4,5,6) by simp
    next
      case False
      then have l: "frq_sum h1 ps1 < ?S" "p1 = last ps1" using 1(4) by auto
      then have "frq_sum h1 ps1 * (?N + 2) + (?N + 2) \<le> ?S * (?N + 2)"
        using mult_le_mono1 [of "Suc (frq_sum h1 ps1)" ?S "?N + 2"] by simp
      moreover have "?N > 0" using pk by (cases ps) simp_all
      ultimately have "frq_sum h1 ps1 * (?N + 2) + (?N - 1) + 3 \<le> fuel" using Suc.prems(6) by linarith
      moreover have "ps1 \<noteq> []" using \<open>?N > 0\<close> n1(3) by auto
      then have "p1 = ps1 ! (?N - 1)" using l(2) n1(3) by (simp add: last_conv_nth)
      ultimately show thesis using that [of "?N - 1"] \<open>?N > 0\<close> by simp
    qed
    have pinned_behind: "\<And>i. j \<le> i \<Longrightarrow> i < ?N \<Longrightarrow> pinned pt (nh_val h (ps1 ! i))"
      using j(2,3) True by (metis le_neq_implies_less)
    have prv: "nh_prv h1 p1 = (HEAD_ADDR # ps1) ! j" using list_shape_links(1) [OF n1(1)] j(1,2) n1(3) by simp
    show ?thesis
    proof (cases j)
      case 0
      then have "\<forall>p\<in>set ps. pinned pt (nh_val h p)"
        using pinned_behind n1(2,3) by (metis in_set_conv_nth le0)
      moreover obtain n where "fuel = Suc (Suc n)" using j(4) by (metis add_Suc_right le_Suc_ex numeral_3_eq_3 add_Suc)
      ultimately show ?thesis using step True prv 0 1(2) by auto
    next
      case (Suc i)
      have "frq_sum h1 ps1 * (length ps1 + 2) + i + 3 < fuel" using j(4) Suc n1(3) by simp
      from Suc.IH [OF n1(1) wf _ _ _ this]
      have "(\<exists>h' ps' p. same_nodes h1 ps1 h' ps' \<and> p \<in> set ps' \<and> \<not> pinned pt (nh_val h1 p) \<and>
          ck_loop fuel h1 (ps1 ! i) pt = Inr (p, h', lock_frame pt (nh_val h1 p))) \<or>
        (\<forall>p\<in>set ps1. pinned pt (nh_val h1 p)) \<and>
          (\<exists>h' ps' n. same_nodes h1 ps1 h' ps' \<and> ck_loop fuel h1 (ps1 ! i) pt = ck_loop (Suc (Suc n)) h' HEAD_ADDR pt)"
        using Suc.prems(3) n1 j(1) Suc pinned_behind by simp
      then show ?thesis
        using step True prv Suc n1(2,4) same_nodes_trans [OF 1(2)] by auto blast+
    qed
  qed
qed simp

section \<open>The operations act on the list of frames\<close>

lemma ck_link_front_eq:
  assumes s: "list_shape h ps" and p: "p \<in> nh_dom h" "p \<notin> set (HEAD_ADDR # ps @ [TAIL_ADDR])"
  shows "ck_link_front h p = link_front h p"
proof -
  let ?c = "nh_nxt h HEAD_ADDR"
  have "?c = (ps @ [TAIL_ADDR]) ! 0"
    using chain_nxt_nth [of "nh_nxt h" "nh_prv h" "HEAD_ADDR # ps @ [TAIL_ADDR]" 0] s by (simp add: list_shape_def)
  then have "?c \<in> set (ps @ [TAIL_ADDR])" by (simp add: nth_append split: if_splits)
  then have c: "?c \<in> nh_dom h" "?c \<noteq> p" using s p(2) by (auto simp: list_shape_def)
  have "put_prv (put_prv g a x) b y = put_prv (put_prv g b y) a x" if "a \<noteq> b" for g :: "clock_node node_heap" and a b x y
    using that by (simp add: put_prv_def nh_put_def fun_upd_twist)
  then show ?thesis
    using c p list_shapeD(4) [OF s] by (simp add: ck_link_front_def link_front_def nh_simps)
qed

lemma ck_Insert_rep:
  assumes r: "pl_rep r xs"
  shows "m \<in> set xs \<Longrightarrow> ck_Insert junk r m = Inr (False, r)"
    and "m \<notin> set xs \<Longrightarrow> \<exists>r'. ck_Insert junk r m = Inr (True, r') \<and> pl_rep r' (m # xs)"
proof -
  obtain ps where s: "pl_shape r ps xs" using r by (auto simp: pl_rep_def)
  show "ck_Insert junk r m = Inr (False, r)" if "m \<in> set xs"
    using pl_lookup(2) [OF s that] by (auto simp: ck_Insert_def)
  assume m: "m \<notin> set xs"
  obtain p h where n: "nh_new (pl_heap r) (ListNode_clock junk m) = (p, h)" by fastforce
  note d = pl_shapeD [OF s] and h = nh_new_shape [OF pl_shapeD(1,3) [OF s] n]
  have "ck_link_front h p = link_front h p" using h(1,2,3) d(2) by (intro ck_link_front_eq) auto
  then show "\<exists>r'. ck_Insert junk r m = Inr (True, r') \<and> pl_rep r' (m # xs)"
    using pl_push_rep [OF s _ n] pl_lookup(1) [OF s m] m n by (auto simp: ck_Insert_def ListNode_clock_def)
qed

lemma ck_Promote_rep:
  assumes s: "pl_shape r ps xs" and m: "m \<in> set xs"
  shows "\<exists>p\<in>set ps. nh_val (pl_heap r) p = m \<and>
    ck_Promote r m = (if nh_frq (pl_heap r) p < MAX_FREQ
      then Inr (True, r\<lparr>pl_heap := put_frq (pl_heap r) p (nh_frq (pl_heap r) p + 1)\<rparr>) else Inr (False, r)) \<and>
    pl_shape (r\<lparr>pl_heap := put_frq (pl_heap r) p f\<rparr>) ps xs"
proof -
  note d = pl_shapeD [OF s]
  obtain p where p: "p \<in> set ps" "Mapping.lookup (pl_map r) m = Some p" "nh_val (pl_heap r) p = m"
    using pl_lookup(2) [OF s m] by blast
  have pd: "p \<in> nh_dom (pl_heap r)" using p(1) d(2) by simp
  have "pl_shape (r\<lparr>pl_heap := put_frq (pl_heap r) p f\<rparr>) ps xs"
    using s pd list_shape_same [of "put_frq (pl_heap r) p f" "pl_heap r" ps] by (simp add: pl_shape_def nh_simps)
  moreover have "ck_Promote r m = (if nh_frq (pl_heap r) p < MAX_FREQ
      then Inr (True, r\<lparr>pl_heap := put_frq (pl_heap r) p (nh_frq (pl_heap r) p + 1)\<rparr>) else Inr (False, r))"
    using p(2) pd by (simp add: ck_Promote_def nh_upd_def nh_simps put_frq_def)
  ultimately show ?thesis using p(1,3) by blast
qed

lemma pl_shape_moved:
  assumes s: "pl_shape r ps xs" and n: "same_nodes (pl_heap r) ps h' ps'"
  shows "pl_shape (r\<lparr>pl_heap := h'\<rparr>) ps' (map (nh_val h') ps')" "set (map (nh_val h') ps') = set xs"
proof -
  note d = pl_shapeD [OF s]
  have e: "list_shape h' ps'" "set ps' = set ps" "length ps' = length ps" "nh_val h' = nh_val (pl_heap r)"
    "nh_dom h' = nh_dom (pl_heap r)" "nh_fresh h' = nh_fresh (pl_heap r)"
    using n by (simp_all add: same_nodes_def)
  have "inj_on (nh_val h') (set ps')" using d(4,5) e by (auto simp: distinct_map)
  then have "distinct (map (nh_val h') ps')" using list_shapeD(1) [OF e(1)] by (simp add: distinct_map)
  then show "pl_shape (r\<lparr>pl_heap := h'\<rparr>) ps' (map (nh_val h') ps')"
    using s e by (simp add: pl_shape_def)
  show "set (map (nh_val h') ps') = set xs" using d(4) e by auto
qed

text \<open>The start of \<open>Victim\<close> on a list that is not empty.\<close>

lemma ck_Victim_start:
  assumes s: "pl_shape r ps xs" and ne: "ps \<noteq> []"
  shows "ck_Victim fuel r pt = bindE (ck_loop fuel (pl_heap r) (ps ! (length ps - 1)) pt) (\<lambda>(p, h, pt).
       bindE (pl_take (r\<lparr>pl_heap := h\<rparr>) p) (\<lambda>(m, r). Inr ((True, m), r, pt)))"
proof -
  note d = pl_shapeD [OF s]
  have l: "last (HEAD_ADDR # ps) = ps ! (length ps - 1)" using ne by (simp add: last_conv_nth)
  moreover have "ps ! (length ps - 1) \<noteq> HEAD_ADDR" using ne d(8) by (metis diff_less length_greater_0_conv nth_mem zero_less_one)
  moreover have "node_before (pl_heap r) TAIL_ADDR = Inr (last (HEAD_ADDR # ps))"
    using list_shapeD(5) [OF d(1)] list_shape_links(2) [OF d(1)] by (simp add: node_before_def nh_simps)
  ultimately show ?thesis by (simp add: ck_Victim_def)
qed

section \<open>Properties\<close>

text \<open>C38: As long as some managed frame is unpinned, and whatever the frequencies of the nodes,
  \<open>ClockReplacer::Victim\<close> ends, and returns an unpinned managed frame, locked and no longer
  managed.\<close>

theorem Clock_Victim_evicts:
  assumes r: "pl_rep r xs" and wf: "pt_wf c pt" and held: "\<And>m. m \<in> set xs \<Longrightarrow> held pt m"
    and ex: "m0 \<in> set xs" "\<not> pinned pt m0"
  shows "\<exists>n. \<forall>fuel>n. \<exists>m r' ys. ck_Victim fuel r pt = Inr ((True, m), r', lock_frame pt m) \<and>
    m \<in> set xs \<and> \<not> pinned pt m \<and> pl_rep r' ys \<and> set ys = set xs - {m}"
proof -
  obtain ps where s: "pl_shape r ps xs" using r by (auto simp: pl_rep_def)
  note d = pl_shapeD [OF s]
  have ne: "ps \<noteq> []" and hd: "\<And>p. p \<in> set ps \<Longrightarrow> held pt (nh_val (pl_heap r) p)"
    and un: "\<not> (\<forall>p\<in>set ps. pinned pt (nh_val (pl_heap r) p))"
    using held ex d(4) by auto
  have behind: "\<And>j. length ps - 1 < j \<Longrightarrow> j < length ps \<Longrightarrow> pinned pt (nh_val (pl_heap r) (ps ! j))" by simp
  let ?n = "frq_sum (pl_heap r) ps * (length ps + 2) + (length ps - 1) + 3"
  have "\<exists>m r' ys. ck_Victim fuel r pt = Inr ((True, m), r', lock_frame pt m) \<and>
    m \<in> set xs \<and> \<not> pinned pt m \<and> pl_rep r' ys \<and> set ys = set xs - {m}" if f: "?n < fuel" for fuel
  proof -
    obtain h' ps' p where l: "same_nodes (pl_heap r) ps h' ps'" "p \<in> set ps'" "\<not> pinned pt (nh_val (pl_heap r) p)"
      "ck_loop fuel (pl_heap r) (ps ! (length ps - 1)) pt = Inr (p, h', lock_frame pt (nh_val (pl_heap r) p))"
      using ck_loop_ends [OF d(1) wf hd _ behind f] ne un by auto
    note mv = pl_shape_moved [OF s l(1)]
    have v: "nh_val h' = nh_val (pl_heap r)" using l(1) by (simp add: same_nodes_def)
    obtain r' where r': "pl_take (r\<lparr>pl_heap := h'\<rparr>) p = Inr (nh_val (pl_heap r) p, r')"
      "pl_rep r' (remove1 (nh_val (pl_heap r) p) (map (nh_val h') ps'))"
      using pl_take_rep [OF mv(1) l(2)] v by auto
    have "set (remove1 (nh_val (pl_heap r) p) (map (nh_val h') ps')) = set xs - {nh_val (pl_heap r) p}"
      using pl_shapeD(5) [OF mv(1)] mv(2) by simp
    moreover have "nh_val (pl_heap r) p \<in> set xs" using mv(2) l(2) v by auto
    ultimately show ?thesis using ck_Victim_start [OF s ne] l(3,4) r' by auto
  qed
  then show ?thesis by blast
qed

lemma Clock_Victim_evicts_witness:
  "\<exists>r n. ck_Insert 5 (ck_new (ListNode_clock 0)) 0 = Inr (True, r) \<and>
     (\<forall>fuel>n. \<exists>r'. ck_Victim fuel r small_pt = Inr ((True, 0), r', lock_frame small_pt 0) \<and> pl_rep r' [])"
proof -
  obtain r where r: "ck_Insert 5 (ck_new (ListNode_clock 0)) 0 = Inr (True, r)" "pl_rep r [0]"
    using ck_Insert_rep(2) [of "ck_new (ListNode_clock 0)" "[]" 0] pl_new_rep [of "ListNode_clock 0"] by (auto simp: ck_new_def)
  then show ?thesis
    using Clock_Victim_evicts [OF r(2) small_pt_wf, of 0] small_pt_frame0 by auto
qed

text \<open>When every managed frame is pinned, \<open>ClockReplacer::Victim\<close> does not report failure: its loop
  has no test for the front of the list, so it goes on to the sentinel and uses the sentinel's
  uninitialised frame number; outside the pool, this is an access out of bounds.\<close>

theorem Clock_Victim_runs_past_the_front:
  assumes r: "pl_rep r xs" and ne: "xs \<noteq> []" and wf: "pt_wf c pt"
    and held: "\<And>m. m \<in> set xs \<Longrightarrow> held pt m \<and> pinned pt m"
    and sentinel: "nh_frq (pl_heap r) HEAD_ADDR = 0" "frames pt \<le> nh_val (pl_heap r) HEAD_ADDR"
  shows "\<exists>n. \<forall>fuel>n. ck_Victim fuel r pt = Inl OutOfBounds"
proof -
  obtain ps where s: "pl_shape r ps xs" using r by (auto simp: pl_rep_def)
  note d = pl_shapeD [OF s]
  have nps: "ps \<noteq> []" and hd: "\<And>p. p \<in> set ps \<Longrightarrow> held pt (nh_val (pl_heap r) p)"
    and pin: "\<And>p. p \<in> set ps \<Longrightarrow> pinned pt (nh_val (pl_heap r) p)"
    using held ne d(4) by auto
  have behind: "\<And>j. length ps - 1 < j \<Longrightarrow> j < length ps \<Longrightarrow> pinned pt (nh_val (pl_heap r) (ps ! j))" by simp
  let ?n = "frq_sum (pl_heap r) ps * (length ps + 2) + (length ps - 1) + 3"
  have "ck_Victim fuel r pt = Inl OutOfBounds" if f: "?n < fuel" for fuel
  proof -
    have "\<And>p. same_nodes (pl_heap r) ps h' ps' \<Longrightarrow> p \<in> set ps' \<Longrightarrow> pinned pt (nh_val (pl_heap r) p)" for h' ps'
      using pin by (simp add: same_nodes_def)
    then obtain h' ps' n where l: "same_nodes (pl_heap r) ps h' ps'"
      "ck_loop fuel (pl_heap r) (ps ! (length ps - 1)) pt = ck_loop (Suc (Suc n)) h' HEAD_ADDR pt"
      using ck_loop_ends [OF d(1) wf hd _ behind f] nps by auto
    have h: "HEAD_ADDR \<in> nh_dom h'" "nh_frq h' HEAD_ADDR = 0" "frames pt \<le> nh_val h' HEAD_ADDR"
      using l(1) sentinel list_shapeD(4) [of h' ps'] by (simp_all add: same_nodes_def)
    then have "FromPageId pt (nh_val h' HEAD_ADDR) = Inl OutOfBounds"
      by (simp add: FromPageId_def arr_get_def frames_def)
    then have "ck_loop (Suc (Suc n)) h' HEAD_ADDR pt = Inl OutOfBounds"
      using ck_demote_stops [OF h(1,2), of n] h(1) by (simp add: nh_simps try_evict_def)
    then show ?thesis using ck_Victim_start [OF s nps] l(2) by simp
  qed
  then show ?thesis by blast
qed

lemma clock_sentinel:
  "case ck_Insert 5 (ck_new (\<lambda>_. ListNode_clock 0 7)) 0 of
     Inr (b, r) \<Rightarrow> nh_frq (pl_heap r) HEAD_ADDR = 0 \<and> nh_val (pl_heap r) HEAD_ADDR = 7 | _ \<Rightarrow> False"
  by code_simp

lemma Clock_Victim_runs_past_the_front_witness:
  "\<exists>r n. ck_Insert 5 (ck_new (\<lambda>_. ListNode_clock 0 7)) 0 = Inr (True, r) \<and>
     (\<forall>fuel>n. ck_Victim fuel r two_pt = Inl OutOfBounds)"
proof -
  obtain r where r: "ck_Insert 5 (ck_new (\<lambda>_. ListNode_clock 0 7)) 0 = Inr (True, r)" "pl_rep r [0]"
    using ck_Insert_rep(2) [of "ck_new (\<lambda>_. ListNode_clock 0 7)" "[]" 0] pl_new_rep [of "\<lambda>_. ListNode_clock 0 7"]
    by (auto simp: ck_new_def)
  then show ?thesis
    using Clock_Victim_runs_past_the_front [OF r(2) _ two_pt_wf] two_pt_frames clock_sentinel by (auto simp: two_pt_sel)
qed

end
