(* ===== verification/ClockArray.thy ===== *)
theory ClockArray
  imports BatchVictims
begin

text \<open>
  \<open>ClockReplacer_v2\<close> (\<^verbatim>\<open>include/replacer/clock_replacer_v2.h\<close>): one pair of flags per frame and a hand
  that goes around.  Proved: the policy keeps the contract of a policy, \<open>Victim\<close> needing at most
  two turns of the hand; and when every evictable frame is pinned \<open>Victim\<close> never returns.
\<close>

section \<open>State and operations\<close>

record clock2_node =
  evictable :: bool
  visited :: bool

record clock2 =
  c2_capacity :: nat
  c2_cache :: "clock2_node list"
  c2_hand :: nat

definition c2_new :: "nat \<Rightarrow> clock2" where
  "c2_new capacity = \<lparr>c2_capacity = capacity,
     c2_cache = replicate capacity \<lparr>evictable = False, visited = False\<rparr>, c2_hand = 0\<rparr>"

definition c2_Insert :: "clock2 \<Rightarrow> mpage_id \<Rightarrow> (bool \<times> clock2) res" where
  "c2_Insert r value =
     bindE (arr_set (c2_cache r) value \<lparr>evictable = True, visited = False\<rparr>) (\<lambda>c.
     Inr (True, r\<lparr>c2_cache := c\<rparr>))"

definition c2_Promote :: "clock2 \<Rightarrow> mpage_id \<Rightarrow> (bool \<times> clock2) res" where
  "c2_Promote r value =
     bindE (arr_get (c2_cache r) value) (\<lambda>n.
     bindE (arr_set (c2_cache r) value (n\<lparr>visited := True\<rparr>)) (\<lambda>c.
     Inr (True, r\<lparr>c2_cache := c\<rparr>)))"

text \<open>\<open>while (!evictable || visited) { visited = false; to_evict = (to_evict + 1) % capacity_; }\<close>\<close>

fun c2_skip :: "nat \<Rightarrow> nat \<Rightarrow> clock2_node list \<Rightarrow> nat \<Rightarrow> (clock2_node list \<times> nat) res" where
  "c2_skip 0 cap c i = Inl OutOfFuel"
| "c2_skip (Suc fuel) cap c i =
     bindE (arr_get c i) (\<lambda>n.
     if \<not> evictable n \<or> visited n then
       bindE (arr_set c i (n\<lparr>visited := False\<rparr>)) (\<lambda>c. c2_skip fuel cap c ((i + 1) mod cap))
     else Inr (c, i))"

fun c2_loop :: "nat \<Rightarrow> nat \<Rightarrow> clock2_node list \<Rightarrow> nat \<Rightarrow> page_table \<Rightarrow>
    (nat \<times> clock2_node list \<times> page_table) res" where
  "c2_loop 0 cap c i pt = Inl OutOfFuel"
| "c2_loop (Suc fuel) cap c i pt =
     bindE (c2_skip (Suc fuel) cap c i) (\<lambda>(c, i).
     bindE (FromPageId pt i) (\<lambda>w.
     if pte_ref_count w \<noteq> 0 then c2_loop fuel cap c ((i + 1) mod cap) pt
     else bindE (try_evict False pt i) (\<lambda>(found, pt).
       if found then Inr (i, c, pt) else c2_loop fuel cap c ((i + 1) mod cap) pt)))"

text \<open>The remainder by a capacity of 0 is undefined.\<close>

definition c2_Victim :: "nat \<Rightarrow> clock2 \<Rightarrow> page_table \<Rightarrow> ((bool \<times> mpage_id) \<times> clock2 \<times> page_table) res" where
  "c2_Victim fuel r pt =
     (if c2_capacity r = 0 then Inl OutOfBounds
      else bindE (c2_loop fuel (c2_capacity r) (c2_cache r) (c2_hand r mod c2_capacity r) pt) (\<lambda>(i, c, pt).
        bindE (arr_get c i) (\<lambda>n.
        bindE (arr_set c i (n\<lparr>evictable := False\<rparr>)) (\<lambda>c.
        Inr ((True, i), r\<lparr>c2_cache := c, c2_hand := (i + 1) mod c2_capacity r\<rparr>, pt)))))"

definition c2_Victim_batch :: "clock2 \<Rightarrow> bool res" where
  "c2_Victim_batch r = bindE (assertE False) (\<lambda>_. Inr True)"

definition c2_Erase :: "clock2 \<Rightarrow> mpage_id \<Rightarrow> (bool \<times> clock2) res" where
  "c2_Erase r value = bindE (assertE False) (\<lambda>_. Inr (False, r))"

definition c2_Size :: "clock2 \<Rightarrow> u64 res" where
  "c2_Size r = bindE (assertE False) (\<lambda>_. Inr 0)"

definition c2_Clean :: "clock2 \<Rightarrow> bool \<times> clock2" where
  "c2_Clean r = (True, r\<lparr>c2_cache := map (\<lambda>n. n\<lparr>evictable := False, visited := False\<rparr>) (c2_cache r)\<rparr>)"

definition c2_GetMemoryUsage :: "nat \<Rightarrow> nat \<Rightarrow> clock2 \<Rightarrow> nat" where
  "c2_GetMemoryUsage sizeof_ListNode sizeof_mutex r =
     8 + sizeof_ListNode * length (c2_cache r) + 8 + sizeof_mutex + 8"

text \<open>As a policy, with two turns of the hand as the bound on the search.\<close>

definition c2_ops :: "clock2 replacer_ops" where
  "c2_ops = \<lparr>op_Insert = c2_Insert, op_Promote = c2_Promote,
     op_Victim = (\<lambda>r. c2_Victim (2 * c2_capacity r) r), op_Erase = c2_Erase, op_Size = c2_Size\<rparr>"

section \<open>The hand\<close>

text \<open>The steps the hand takes from \<open>i\<close> to \<open>t\<close>, and to find \<open>t\<close> without its mark.\<close>

definition hand_dist :: "nat \<Rightarrow> nat \<Rightarrow> nat \<Rightarrow> nat" where
  "hand_dist cap i t = (if i \<le> t then t - i else t + cap - i)"

definition search_dist :: "nat \<Rightarrow> clock2_node list \<Rightarrow> nat \<Rightarrow> nat \<Rightarrow> nat" where
  "search_dist cap c i t = hand_dist cap i t + (if visited (c ! t) then cap else 0)"

lemma hand_dist_step:
  "i < cap \<Longrightarrow> t < cap \<Longrightarrow> i \<noteq> t \<Longrightarrow> Suc (hand_dist cap ((i + 1) mod cap) t) = hand_dist cap i t"
  "t < cap \<Longrightarrow> Suc (hand_dist cap ((t + 1) mod cap) t) = cap"
  by (cases "i + 1 = cap"; auto simp: hand_dist_def) (cases "t + 1 = cap"; auto simp: hand_dist_def)

lemma search_dist_le: "i < cap \<Longrightarrow> t < cap \<Longrightarrow> search_dist cap c i t < 2 * cap"
  by (auto simp: search_dist_def hand_dist_def)

lemma search_dist_skip:
  assumes "length c = cap" "i < cap" "t < cap" "evictable (c ! t)" "\<not> evictable (c ! i) \<or> visited (c ! i)"
  shows "Suc (search_dist cap (c[i := (c ! i)\<lparr>visited := False\<rparr>]) ((i + 1) mod cap) t) = search_dist cap c i t"
proof (cases "i = t")
  case True
  then show ?thesis using assms hand_dist_step(2) [of t cap] by (simp add: search_dist_def hand_dist_def)
next
  case False
  then show ?thesis using assms hand_dist_step(1) [of i cap t] by (simp add: search_dist_def)
qed

definition same_evictable :: "clock2_node list \<Rightarrow> clock2_node list \<Rightarrow> bool" where
  "same_evictable c c' \<longleftrightarrow> length c' = length c \<and> (\<forall>i<length c. evictable (c' ! i) = evictable (c ! i))"

lemma c2_skip_ends:
  assumes "length c = cap" "i < cap" "t < cap" "evictable (c ! t)" "search_dist cap c i t < fuel"
  shows "\<exists>c' i'. c2_skip fuel cap c i = Inr (c', i') \<and> same_evictable c c' \<and> i' < cap \<and> evictable (c' ! i') \<and>
    \<not> visited (c' ! i') \<and> search_dist cap c' i' t \<le> search_dist cap c i t"
  using assms
proof (induction fuel arbitrary: c i)
  case (Suc fuel)
  show ?case
  proof (cases "\<not> evictable (c ! i) \<or> visited (c ! i)")
    case True
    let ?c = "c[i := (c ! i)\<lparr>visited := False\<rparr>]"
    have d: "Suc (search_dist cap ?c ((i + 1) mod cap) t) = search_dist cap c i t"
      using Suc.prems True by (intro search_dist_skip)
    have e: "evictable (?c ! j) = evictable (c ! j)" for j
      using Suc.prems(1,2) by (cases "j = i") simp_all
    have "0 < cap" using Suc.prems(2) by simp
    then obtain c' i' where "c2_skip fuel cap ?c ((i + 1) mod cap) = Inr (c', i')" "same_evictable ?c c'" "i' < cap"
      "evictable (c' ! i')" "\<not> visited (c' ! i')" "search_dist cap c' i' t \<le> search_dist cap ?c ((i + 1) mod cap) t"
      using Suc.IH [of ?c "(i + 1) mod cap"] Suc.prems d e by auto
    then show ?thesis using Suc.prems(1,2) True d e by (auto simp: same_evictable_def)
  qed (use Suc.prems in \<open>auto simp: same_evictable_def\<close>)
qed simp

lemma c2_loop_finds:
  assumes "length c = cap" "i < cap" "t < cap" "evictable (c ! t)" "\<not> pinned pt t" "search_dist cap c i t < fuel"
    and wf: "pt_wf k pt" and held: "\<And>j. j < cap \<Longrightarrow> evictable (c ! j) \<Longrightarrow> held pt j"
  shows "\<exists>m c'. c2_loop fuel cap c i pt = Inr (m, c', lock_frame pt m) \<and> same_evictable c c' \<and> m < cap \<and>
    evictable (c ! m) \<and> \<not> pinned pt m"
  using assms(1-6) held
proof (induction fuel arbitrary: c i)
  case (Suc fuel)
  obtain c1 i1 where 1: "c2_skip (Suc fuel) cap c i = Inr (c1, i1)" "same_evictable c c1" "i1 < cap" "evictable (c1 ! i1)"
    "\<not> visited (c1 ! i1)" "search_dist cap c1 i1 t \<le> search_dist cap c i t"
    using c2_skip_ends [of c cap i t "Suc fuel"] Suc.prems by auto
  have e1: "length c1 = cap" "\<And>j. j < cap \<Longrightarrow> evictable (c1 ! j) = evictable (c ! j)"
    using 1(2) Suc.prems(1) by (simp_all add: same_evictable_def)
  have h: "held pt i1" using Suc.prems(7) 1(3,4) e1 by simp
  then have fp: "FromPageId pt i1 = Inr (pte_of pt i1)" by (simp add: held_def pt_simps)
  show ?case
  proof (cases "pinned pt i1")
    case False
    then show ?thesis
      using 1 fp try_evict_held [OF wf h, of False] e1 by (simp add: pinned_def)
  next
    case True
    then have "i1 \<noteq> t" using Suc.prems(5) by auto
    then have "Suc (search_dist cap c1 ((i1 + 1) mod cap) t) = search_dist cap c1 i1 t"
      using hand_dist_step(1) [of i1 cap t] 1(3) Suc.prems(3) by (simp add: search_dist_def)
    then have "search_dist cap c1 ((i1 + 1) mod cap) t < fuel" using 1(6) Suc.prems(6) by simp
    moreover have "(i1 + 1) mod cap < cap" using 1(3) by simp
    ultimately obtain m c' where "c2_loop fuel cap c1 ((i1 + 1) mod cap) pt = Inr (m, c', lock_frame pt m)"
      "same_evictable c1 c'" "m < cap" "evictable (c1 ! m)" "\<not> pinned pt m"
      using Suc.IH [of c1 "(i1 + 1) mod cap"] Suc.prems e1 by auto
    then show ?thesis using 1(1) fp True e1 by (auto simp: pinned_def same_evictable_def Suc.prems(1))
  qed
qed simp

section \<open>The policy keeps the contract\<close>

definition c2_inv :: "clock2 \<Rightarrow> mpage_id set \<Rightarrow> bool" where
  "c2_inv r S \<longleftrightarrow> length (c2_cache r) = c2_capacity r \<and> S = {i. i < c2_capacity r \<and> evictable (c2_cache r ! i)}"

lemma c2_Victim_finds:
  assumes i: "c2_inv r S" and wf: "pt_wf k pt" and h: "\<And>m. m \<in> S \<Longrightarrow> held pt m" and t: "t \<in> S" "\<not> pinned pt t"
    and f: "2 * c2_capacity r \<le> fuel"
  shows "\<exists>m r'. m \<in> S \<and> \<not> pinned pt m \<and> c2_Victim fuel r pt = Inr ((True, m), r', lock_frame pt m) \<and>
    c2_inv r' (S - {m}) \<and> c2_capacity r' = c2_capacity r"
proof -
  let ?cap = "c2_capacity r" and ?i = "c2_hand r mod c2_capacity r"
  have c: "length (c2_cache r) = ?cap" "S = {i. i < ?cap \<and> evictable (c2_cache r ! i)}" using i by (simp_all add: c2_inv_def)
  have t': "t < ?cap" "evictable (c2_cache r ! t)" using t c by auto
  then have "?i < ?cap" by simp
  moreover have "search_dist ?cap (c2_cache r) ?i t < fuel"
    using search_dist_le [OF calculation t'(1), of "c2_cache r"] f by simp
  ultimately obtain m c' where m: "c2_loop fuel ?cap (c2_cache r) ?i pt = Inr (m, c', lock_frame pt m)"
    "same_evictable (c2_cache r) c'" "m < ?cap" "evictable (c2_cache r ! m)" "\<not> pinned pt m"
    using c2_loop_finds [OF c(1) _ t' t(2) _ wf] h c(2) by blast
  let ?r = "r\<lparr>c2_cache := c'[m := (c' ! m)\<lparr>evictable := False\<rparr>], c2_hand := (m + 1) mod ?cap\<rparr>"
  have "c2_Victim fuel r pt = Inr ((True, m), ?r, lock_frame pt m)"
    using m c(1) t'(1) by (simp add: c2_Victim_def same_evictable_def)
  moreover have "c2_inv ?r (S - {m})"
    using m(2,3) c by (auto simp: c2_inv_def same_evictable_def nth_list_update)
  ultimately show ?thesis using m c by (intro exI [of _ m] exI [of _ ?r]) simp
qed

interpretation clock2: replacer c2_ops c2_inv c2_capacity
proof (unfold_locales, unfold c2_ops_def replacer_ops.select_convs)
  fix r S k pt m0
  assume "c2_inv r S" "pt_wf k pt" "\<And>m. m \<in> S \<Longrightarrow> held pt m" "m0 \<in> S" "\<not> pinned pt m0"
  then show "\<exists>m r'. m \<in> S \<and> \<not> pinned pt m \<and> c2_Victim (2 * c2_capacity r) r pt = Inr ((True, m), r', lock_frame pt m) \<and>
      c2_inv r' (S - {m}) \<and> c2_capacity r' = c2_capacity r"
    by (intro c2_Victim_finds) auto
qed (auto simp: c2_inv_def c2_Insert_def c2_Promote_def nth_list_update)

section \<open>When nothing can be evicted\<close>

lemma c2_skip_range:
  "c2_skip fuel cap c i = Inr (c', i') \<Longrightarrow> length c = cap \<Longrightarrow> i < cap \<Longrightarrow>
   same_evictable c c' \<and> i' < cap \<and> evictable (c' ! i')"
proof (induction fuel arbitrary: c i)
  case (Suc fuel)
  show ?case
  proof (cases "\<not> evictable (c ! i) \<or> visited (c ! i)")
    case True
    let ?c = "c[i := (c ! i)\<lparr>visited := False\<rparr>]"
    have e: "evictable (?c ! j) = evictable (c ! j)" for j
      using Suc.prems by (cases "j = i") simp_all
    have "0 < cap" using Suc.prems by simp
    then have "same_evictable ?c c' \<and> i' < cap \<and> evictable (c' ! i')"
      using Suc.IH [of ?c "(i + 1) mod cap"] Suc.prems True by simp
    then show ?thesis using e by (simp add: same_evictable_def)
  qed (use Suc.prems in \<open>auto simp: same_evictable_def\<close>)
qed simp

lemma c2_skip_fuel: "length c = cap \<Longrightarrow> i < cap \<Longrightarrow> c2_skip fuel cap c i = Inl e \<Longrightarrow> e = OutOfFuel"
proof (induction fuel arbitrary: c i)
  case (Suc fuel)
  have "0 < cap" using Suc.prems by simp
  then show ?case using Suc.IH [of "c[i := (c ! i)\<lparr>visited := False\<rparr>]" "(i + 1) mod cap"] Suc.prems
    by (auto split: if_splits)
qed simp

lemma c2_loop_diverges:
  assumes "length c = cap" "i < cap" and wf: "pt_wf k pt"
    and pins: "\<And>j. j < cap \<Longrightarrow> evictable (c ! j) \<Longrightarrow> held pt j \<and> pinned pt j"
  shows "c2_loop fuel cap c i pt = Inl OutOfFuel"
  using assms(1,2) pins
proof (induction fuel arbitrary: c i)
  case (Suc fuel)
  show ?case
  proof (cases "c2_skip (Suc fuel) cap c i")
    case (Inl e)
    then show ?thesis using c2_skip_fuel Suc.prems by (simp del: c2_skip.simps)
  next
    case (Inr v)
    then obtain c1 i1 where s: "c2_skip (Suc fuel) cap c i = Inr (c1, i1)" by (cases v) auto
    note 1 = c2_skip_range [OF s Suc.prems(1,2)]
    have e: "length c1 = cap" "\<And>j. j < cap \<Longrightarrow> evictable (c1 ! j) = evictable (c ! j)"
      using 1 Suc.prems(1) by (simp_all add: same_evictable_def)
    have p: "held pt i1" "pinned pt i1" using Suc.prems(3) 1 e by auto
    then have "FromPageId pt i1 = Inr (pte_of pt i1)" by (simp add: held_def pt_simps)
    moreover have "c2_loop fuel cap c1 ((i1 + 1) mod cap) pt = Inl OutOfFuel"
    proof (rule Suc.IH [OF e(1)])
      show "(i1 + 1) mod cap < cap" using 1 by simp
      show "held pt j \<and> pinned pt j" if "j < cap" "evictable (c1 ! j)" for j
        using Suc.prems(3) e(2) that by simp
    qed
    ultimately show ?thesis using s p(2) by (simp add: pinned_def del: c2_skip.simps)
  qed
qed simp

section \<open>Properties\<close>

text \<open>When every managed frame is pinned (or none is managed), \<open>ClockReplacer_v2::Victim\<close> does not
  return: no number of iterations is enough.\<close>

theorem Clock2_Victim_diverges:
  assumes i: "c2_inv r S" and cap: "0 < c2_capacity r" and wf: "pt_wf k pt"
    and pins: "\<And>m. m \<in> S \<Longrightarrow> held pt m \<and> pinned pt m"
  shows "c2_Victim fuel r pt = Inl OutOfFuel"
  using c2_loop_diverges [of "c2_cache r" "c2_capacity r" "c2_hand r mod c2_capacity r" k pt fuel] i cap wf pins
  by (auto simp: c2_Victim_def c2_inv_def)

lemma Clock2_Victim_diverges_witness:
  "\<exists>r. c2_Insert (c2_new 2) 0 = Inr (True, r) \<and> (\<forall>fuel. c2_Victim fuel r two_pt = Inl OutOfFuel)"
proof -
  obtain r where r: "c2_Insert (c2_new 2) 0 = Inr (True, r)" "c2_inv r {0}" "c2_capacity r = 2"
    using clock2.Insert_law [of "c2_new 2" "{}" 0] by (auto simp: c2_ops_def c2_inv_def c2_new_def)
  then show ?thesis
    using Clock2_Victim_diverges [OF r(2) _ two_pt_wf] two_pt_frames by auto
qed

end
