(* ===== verification/TwoQueue.thy ===== *)
theory TwoQueue
  imports QueuePolicies "HOL-Library.AList_Mapping"
begin

text \<open>
  \<open>TwoQLRUReplacer\<close> (\<^verbatim>\<open>include/replacer/TwoQLRU_replacer.h\<close>): two lists of frames, each with a hash
  map from frames to list positions.  A new frame enters the inactive list, an access moves it to
  the front of the active one, and victims are looked for in the inactive list first.  Proved: the
  policy implements a pair of queues and keeps the contract of a policy, and its batch form hands
  out pinned frames with their mappings in place.
\<close>

section \<open>State and operations\<close>

text \<open>
  A \<open>std::list\<close>, front first, of elements with their identities; an iterator designates the element
  by its identity, and stays valid when other elements are erased.
\<close>

type_synonym page_list = "(nat \<times> mpage_id) list"

record two_queue =
  activeList :: page_list
  inactiveList :: page_list
  activeMap :: "(mpage_id, nat) mapping"
  inactiveMap :: "(mpage_id, nat) mapping"
  tq_fresh :: nat

definition tq_new :: two_queue where
  "tq_new = \<lparr>activeList = [], inactiveList = [], activeMap = Mapping.empty, inactiveMap = Mapping.empty,
     tq_fresh = 0\<rparr>"

text \<open>\<open>erase\<close> through an iterator to no element is undefined.\<close>

definition list_erase :: "page_list \<Rightarrow> nat \<Rightarrow> page_list res" where
  "list_erase xs it = (if it \<in> fst ` set xs then Inr (filter (\<lambda>e. fst e \<noteq> it) xs) else Inl NullDeref)"

definition tq_Insert :: "two_queue \<Rightarrow> mpage_id \<Rightarrow> (bool \<times> two_queue) res" where
  "tq_Insert r page_id =
     (if Mapping.lookup (activeMap r) page_id \<noteq> None \<or> Mapping.lookup (inactiveMap r) page_id \<noteq> None
      then Inr (False, r)
      else Inr (True, r\<lparr>inactiveList := (tq_fresh r, page_id) # inactiveList r,
        inactiveMap := Mapping.update page_id (tq_fresh r) (inactiveMap r), tq_fresh := Suc (tq_fresh r)\<rparr>))"

definition tq_Promote :: "two_queue \<Rightarrow> mpage_id \<Rightarrow> (bool \<times> two_queue) res" where
  "tq_Promote r page_id =
     (case Mapping.lookup (activeMap r) page_id of
        Some it \<Rightarrow> bindE (list_erase (activeList r) it) (\<lambda>xs.
          Inr (True, r\<lparr>activeList := (tq_fresh r, page_id) # xs,
            activeMap := Mapping.update page_id (tq_fresh r) (activeMap r), tq_fresh := Suc (tq_fresh r)\<rparr>))
      | None \<Rightarrow> (case Mapping.lookup (inactiveMap r) page_id of
          Some it \<Rightarrow> bindE (list_erase (inactiveList r) it) (\<lambda>xs.
            Inr (True, r\<lparr>activeList := (tq_fresh r, page_id) # activeList r, inactiveList := xs,
              activeMap := Mapping.update page_id (tq_fresh r) (activeMap r),
              inactiveMap := Mapping.delete page_id (inactiveMap r), tq_fresh := Suc (tq_fresh r)\<rparr>))
        | None \<Rightarrow> Inr (False, r)))"

text \<open>The scan of one list, given in reverse; \<open>None\<close> is \<open>rend()\<close>.\<close>

fun tq_scan :: "page_list \<Rightarrow> page_table \<Rightarrow> ((nat \<times> mpage_id) option \<times> page_table) res" where
  "tq_scan [] pt = Inr (None, pt)"
| "tq_scan (e # es) pt =
     bindE (try_evict False pt (snd e)) (\<lambda>(found, pt).
     if found then Inr (Some e, pt) else tq_scan es pt)"

definition tq_Victim :: "two_queue \<Rightarrow> page_table \<Rightarrow> ((bool \<times> mpage_id) \<times> two_queue \<times> page_table) res" where
  "tq_Victim r pt =
     bindE (tq_scan (rev (inactiveList r)) pt) (\<lambda>(v, pt).
     case v of
       Some (it, page_id) \<Rightarrow> bindE (list_erase (inactiveList r) it) (\<lambda>xs.
         Inr ((True, page_id), r\<lparr>inactiveList := xs, inactiveMap := Mapping.delete page_id (inactiveMap r)\<rparr>, pt))
     | None \<Rightarrow> bindE (tq_scan (rev (activeList r)) pt) (\<lambda>(v, pt).
         case v of
           Some (it, page_id) \<Rightarrow> bindE (list_erase (activeList r) it) (\<lambda>xs.
             Inr ((True, page_id), r\<lparr>activeList := xs, activeMap := Mapping.delete page_id (activeMap r)\<rparr>, pt))
         | None \<Rightarrow> Inr ((False, 0), r, pt)))"

text \<open>The batch form looks at neither the page table nor the pins.\<close>

fun tq_Victim_batch :: "two_queue \<Rightarrow> mpage_id list \<Rightarrow> nat \<Rightarrow> bool \<times> mpage_id list \<times> two_queue" where
  "tq_Victim_batch r mpage_ids 0 = (True, mpage_ids, r)"
| "tq_Victim_batch r mpage_ids (Suc page_num) =
     (if inactiveList r \<noteq> [] then
        let to_evict = snd (last (inactiveList r)) in
        tq_Victim_batch (r\<lparr>inactiveList := butlast (inactiveList r),
          inactiveMap := Mapping.delete to_evict (inactiveMap r)\<rparr>) (mpage_ids @ [to_evict]) page_num
      else if activeList r \<noteq> [] then
        let to_evict = snd (last (activeList r)) in
        tq_Victim_batch (r\<lparr>activeList := butlast (activeList r),
          activeMap := Mapping.delete to_evict (activeMap r)\<rparr>) (mpage_ids @ [to_evict]) page_num
      else (False, mpage_ids, r))"

definition tq_Erase :: "two_queue \<Rightarrow> mpage_id \<Rightarrow> (bool \<times> two_queue) res" where
  "tq_Erase r page_id =
     (case Mapping.lookup (activeMap r) page_id of
        Some it \<Rightarrow> bindE (list_erase (activeList r) it) (\<lambda>xs.
          Inr (True, r\<lparr>activeList := xs, activeMap := Mapping.delete page_id (activeMap r)\<rparr>))
      | None \<Rightarrow> (case Mapping.lookup (inactiveMap r) page_id of
          Some it \<Rightarrow> bindE (list_erase (inactiveList r) it) (\<lambda>xs.
            Inr (True, r\<lparr>inactiveList := xs, inactiveMap := Mapping.delete page_id (inactiveMap r)\<rparr>))
        | None \<Rightarrow> Inr (False, r)))"

definition tq_Size :: "two_queue \<Rightarrow> u64 res" where
  "tq_Size r = Inr (of_nat (Mapping.size (activeMap r) + Mapping.size (inactiveMap r)))"

definition tq_GetMemoryUsage :: "nat \<Rightarrow> two_queue \<Rightarrow> nat" where
  "tq_GetMemoryUsage sizeof_iterator r =
     sizeof_iterator * (Mapping.size (inactiveMap r) + Mapping.size (activeMap r)) +
     (length (activeList r) + length (inactiveList r)) * 4"

definition tq_ops :: "two_queue replacer_ops" where
  "tq_ops = \<lparr>op_Insert = tq_Insert, op_Promote = tq_Promote, op_Victim = tq_Victim,
     op_Erase = tq_Erase, op_Size = tq_Size\<rparr>"

section \<open>The pair of queues\<close>

text \<open>A list and its map: the map sends each frame of the list to its element.\<close>

definition lm_rep :: "nat \<Rightarrow> page_list \<Rightarrow> (mpage_id, nat) mapping \<Rightarrow> mpage_id list \<Rightarrow> bool" where
  "lm_rep n L M xs \<longleftrightarrow> map snd L = xs \<and> distinct xs \<and> distinct (map fst L) \<and> (\<forall>i\<in>fst ` set L. i < n) \<and>
     (\<forall>m i. Mapping.lookup M m = Some i \<longleftrightarrow> (i, m) \<in> set L)"

definition tq_rep :: "two_queue \<Rightarrow> mpage_id list \<Rightarrow> mpage_id list \<Rightarrow> bool" where
  "tq_rep r as is \<longleftrightarrow> lm_rep (tq_fresh r) (activeList r) (activeMap r) as \<and>
     lm_rep (tq_fresh r) (inactiveList r) (inactiveMap r) is \<and> set as \<inter> set is = {}"

lemma lm_lookup:
  assumes "lm_rep n L M xs"
  shows "m \<notin> set xs \<Longrightarrow> Mapping.lookup M m = None"
    and "m \<in> set xs \<Longrightarrow> \<exists>i. Mapping.lookup M m = Some i \<and> (i, m) \<in> set L"
  using assms by (cases "Mapping.lookup M m"; force simp: lm_rep_def)+

lemma lm_push:
  assumes "lm_rep n L M xs" "m \<notin> set xs"
  shows "lm_rep (Suc n) ((n, m) # L) (Mapping.update m n M) (m # xs)"
proof -
  have fresh: "(n, m') \<notin> set L" "(i, m) \<notin> set L" for m' i using assms by (force simp: lm_rep_def)+
  have "Mapping.lookup (Mapping.update m n M) m' = Some i \<longleftrightarrow> (i, m') \<in> set ((n, m) # L)" for m' i
    using assms(1) fresh by (auto simp: lm_rep_def lookup_update')
  then show ?thesis using assms by (auto simp: lm_rep_def)
qed

lemma lm_later: "lm_rep n L M xs \<Longrightarrow> n \<le> n' \<Longrightarrow> lm_rep n' L M xs"
  by (force simp: lm_rep_def)

lemma lm_erase:
  assumes l: "lm_rep n L M xs" and e: "(i, m) \<in> set L"
  shows "\<exists>L'. list_erase L i = Inr L' \<and> lm_rep n L' (Mapping.delete m M) (remove1 m xs)"
proof -
  have d: "map snd L = xs" "distinct xs" "distinct (map fst L)" using l by (simp_all add: lm_rep_def)
  have fs: "fst e = i \<longleftrightarrow> snd e = m" if "e \<in> set L" for e
    using d inj_onD [of fst "set L" e "(i, m)"] inj_onD [of snd "set L" e "(i, m)"] e that
    by (cases e) (auto simp: distinct_map)
  have "filter (\<lambda>e. fst e \<noteq> i) L = filter (\<lambda>e. snd e \<noteq> m) L" using fs by (intro filter_cong) auto
  then have "map snd (filter (\<lambda>e. fst e \<noteq> i) L) = filter (\<lambda>x. x \<noteq> m) xs"
    unfolding d(1) [symmetric] by (simp add: filter_map comp_def)
  also have "\<dots> = remove1 m xs" using d(2)
    by (simp add: distinct_remove1_removeAll removeAll_filter_not_eq) (rule filter_cong, auto)
  finally have x: "map snd (filter (\<lambda>e. fst e \<noteq> i) L) = remove1 m xs" .
  have "Mapping.lookup (Mapping.delete m M) m' = Some j \<longleftrightarrow> (j, m') \<in> set (filter (\<lambda>e. fst e \<noteq> i) L)" for m' j
    using l fs [of "(j, m')"] by (cases "m' = m") (auto simp: lm_rep_def lookup_delete_neq)
  then have "lm_rep n (filter (\<lambda>e. fst e \<noteq> i) L) (Mapping.delete m M) (remove1 m xs)"
    using l d x by (auto simp: lm_rep_def distinct_map_filter)
  moreover have "i \<in> fst ` set L" using e by force
  ultimately show ?thesis by (auto simp: list_erase_def)
qed

lemma lm_move:
  assumes l: "lm_rep n L M xs" and m: "m \<in> set xs"
  shows "\<exists>i L'. Mapping.lookup M m = Some i \<and> list_erase L i = Inr L' \<and>
    lm_rep (Suc n) ((n, m) # L') (Mapping.update m n M) (m # remove1 m xs)"
proof -
  obtain i where i: "Mapping.lookup M m = Some i" "(i, m) \<in> set L" using lm_lookup(2) [OF l m] by blast
  obtain L' where L': "list_erase L i = Inr L'" "lm_rep n L' (Mapping.delete m M) (remove1 m xs)"
    using lm_erase [OF l i(2)] by blast
  have "distinct xs" using l by (simp add: lm_rep_def)
  then have "lm_rep (Suc n) ((n, m) # L') (Mapping.update m n (Mapping.delete m M)) (m # remove1 m xs)"
    using lm_push [OF L'(2), of m] by simp
  moreover have "Mapping.lookup (Mapping.update m n (Mapping.delete m M)) m' = Mapping.lookup (Mapping.update m n M) m'" for m'
    by (cases "m' = m") (simp_all add: lookup_delete_neq lookup_update')
  ultimately have "lm_rep (Suc n) ((n, m) # L') (Mapping.update m n M) (m # remove1 m xs)"
    by (simp add: lm_rep_def)
  then show ?thesis using i(1) L'(1) by blast
qed

lemma tq_scan_queue:
  assumes wf: "pt_wf k pt" and h: "\<And>m. m \<in> set (map snd L) \<Longrightarrow> held pt m"
  shows "case queue_victim pt (map snd L) of
      None \<Rightarrow> tq_scan (rev L) pt = Inr (None, pt)
    | Some m \<Rightarrow> \<exists>i. (i, m) \<in> set L \<and> tq_scan (rev L) pt = Inr (Some (i, m), lock_frame pt m)"
  using h
proof (induction L rule: rev_induct)
  case (snoc e L)
  then show ?case
    using try_evict_held [OF wf, of "snd e" False] by (cases e) (auto split: option.splits)
qed simp

section \<open>The operations act on the pair of queues\<close>

definition tq_cap :: "nat \<Rightarrow> two_queue \<Rightarrow> nat" where
  "tq_cap c r = c"

text \<open>The reference: inactive frames leave first, then active ones, each queue from its back.\<close>

definition two_queue_victim :: "page_table \<Rightarrow> mpage_id list \<Rightarrow> mpage_id list \<Rightarrow> mpage_id option" where
  "two_queue_victim pt as is = queue_victim pt (as @ is)"

lemma queue_victim_append:
  "queue_victim pt (as @ is) = (case queue_victim pt is of None \<Rightarrow> queue_victim pt as | Some m \<Rightarrow> Some m)"
  by (induction "is" rule: rev_induct) (simp_all flip: append_assoc)

lemma tq_new_rep: "tq_rep tq_new [] []"
  by (simp add: tq_rep_def tq_new_def lm_rep_def)

lemma tq_Insert_rep:
  assumes r: "tq_rep r as is"
  shows "m \<notin> set as \<union> set is \<Longrightarrow> \<exists>r'. tq_Insert r m = Inr (True, r') \<and> tq_rep r' as (m # is)"
    and "m \<in> set as \<union> set is \<Longrightarrow> tq_Insert r m = Inr (False, r)"
proof -
  have l: "lm_rep (tq_fresh r) (activeList r) (activeMap r) as" "lm_rep (tq_fresh r) (inactiveList r) (inactiveMap r) is"
    "set as \<inter> set is = {}" using r by (simp_all add: tq_rep_def)
  show "\<exists>r'. tq_Insert r m = Inr (True, r') \<and> tq_rep r' as (m # is)" if m: "m \<notin> set as \<union> set is"
    using lm_lookup(1) [OF l(1), of m] lm_lookup(1) [OF l(2), of m] lm_push [OF l(2), of m] lm_later [OF l(1)] m l(3)
    by (simp add: tq_Insert_def tq_rep_def)
  show "tq_Insert r m = Inr (False, r)" if "m \<in> set as \<union> set is"
    using lm_lookup(2) [OF l(1), of m] lm_lookup(2) [OF l(2), of m] that by (auto simp: tq_Insert_def)
qed

lemma tq_Promote_rep:
  assumes r: "tq_rep r as is" and m: "m \<in> set as \<union> set is"
  shows "\<exists>r'. tq_Promote r m = Inr (True, r') \<and> tq_rep r' (m # remove1 m as) (remove1 m is)"
proof -
  have l: "lm_rep (tq_fresh r) (activeList r) (activeMap r) as" "lm_rep (tq_fresh r) (inactiveList r) (inactiveMap r) is"
    "set as \<inter> set is = {}" using r by (simp_all add: tq_rep_def)
  have d: "distinct as" "distinct is" using l(1,2) by (simp_all add: lm_rep_def)
  show ?thesis
  proof (cases "m \<in> set as")
    case True
    then have "m \<notin> set is" using l(3) by blast
    then show ?thesis
      using lm_move [OF l(1) True] lm_later [OF l(2)] True d l(3)
      by (auto simp: tq_Promote_def tq_rep_def remove1_idem)
  next
    case False
    then have "m \<in> set is" using m by blast
    then obtain i where i: "Mapping.lookup (inactiveMap r) m = Some i" "(i, m) \<in> set (inactiveList r)"
      using lm_lookup(2) [OF l(2)] by blast
    obtain L where L: "list_erase (inactiveList r) i = Inr L"
      "lm_rep (tq_fresh r) L (Mapping.delete m (inactiveMap r)) (remove1 m is)" using lm_erase [OF l(2) i(2)] by blast
    then show ?thesis
      using lm_lookup(1) [OF l(1) False] lm_push [OF l(1) False] lm_later [OF L(2)] False d l(3) i(1)
      by (auto simp: tq_Promote_def tq_rep_def remove1_idem)
  qed
qed

lemma tq_Erase_rep:
  assumes r: "tq_rep r as is" and m: "m \<in> set as \<union> set is"
  shows "\<exists>r'. tq_Erase r m = Inr (True, r') \<and> tq_rep r' (remove1 m as) (remove1 m is)"
proof -
  have l: "lm_rep (tq_fresh r) (activeList r) (activeMap r) as" "lm_rep (tq_fresh r) (inactiveList r) (inactiveMap r) is"
    "set as \<inter> set is = {}" using r by (simp_all add: tq_rep_def)
  have sub: "set (remove1 m xs) \<subseteq> set xs" for xs :: "nat list" by (rule set_remove1_subset)
  show ?thesis
  proof (cases "m \<in> set as")
    case True
    then have "m \<notin> set is" using l(3) by blast
    then show ?thesis
      using lm_lookup(2) [OF l(1) True] lm_erase [OF l(1)] l(2,3) sub [of as] by (fastforce simp: tq_Erase_def tq_rep_def remove1_idem)
  next
    case False
    then have "m \<in> set is" using m by blast
    then show ?thesis
      using lm_lookup(1) [OF l(1) False] lm_lookup(2) [OF l(2)] lm_erase [OF l(2)] False l(1,3) sub [of "is"]
      by (fastforce simp: tq_Erase_def tq_rep_def remove1_idem)
  qed
qed

lemma tq_Victim_rep:
  assumes r: "tq_rep r as is" and wf: "pt_wf k pt" and h: "\<And>m. m \<in> set as \<union> set is \<Longrightarrow> held pt m"
  shows "case two_queue_victim pt as is of
      None \<Rightarrow> tq_Victim r pt = Inr ((False, 0), r, pt)
    | Some m \<Rightarrow> \<exists>r'. tq_Victim r pt = Inr ((True, m), r', lock_frame pt m) \<and> tq_rep r' (remove1 m as) (remove1 m is)"
proof -
  have l: "lm_rep (tq_fresh r) (activeList r) (activeMap r) as" "lm_rep (tq_fresh r) (inactiveList r) (inactiveMap r) is"
    "set as \<inter> set is = {}" using r by (simp_all add: tq_rep_def)
  have e: "map snd (activeList r) = as" "map snd (inactiveList r) = is" using l(1,2) by (simp_all add: lm_rep_def)
  have sub: "set (remove1 m xs) \<subseteq> set xs" for m and xs :: "nat list" by (rule set_remove1_subset)
  have si: "case queue_victim pt is of None \<Rightarrow> tq_scan (rev (inactiveList r)) pt = Inr (None, pt)
    | Some m \<Rightarrow> \<exists>i. (i, m) \<in> set (inactiveList r) \<and> tq_scan (rev (inactiveList r)) pt = Inr (Some (i, m), lock_frame pt m)"
    using tq_scan_queue [OF wf, of "inactiveList r"] h unfolding e by blast
  have sa: "case queue_victim pt as of None \<Rightarrow> tq_scan (rev (activeList r)) pt = Inr (None, pt)
    | Some m \<Rightarrow> \<exists>i. (i, m) \<in> set (activeList r) \<and> tq_scan (rev (activeList r)) pt = Inr (Some (i, m), lock_frame pt m)"
    using tq_scan_queue [OF wf, of "activeList r"] h unfolding e by blast
  show ?thesis
  proof (cases "queue_victim pt is")
    case (Some m)
    then obtain i where i: "(i, m) \<in> set (inactiveList r)"
      "tq_scan (rev (inactiveList r)) pt = Inr (Some (i, m), lock_frame pt m)" using si by auto
    have "m \<in> set is" "m \<notin> set as" using queue_victim_SomeD [OF Some] l(3) by auto
    then show ?thesis
      using lm_erase [OF l(2) i(1)] i(2) l(1,3) sub [of m "is"] Some
      by (fastforce simp: tq_Victim_def two_queue_victim_def queue_victim_append tq_rep_def remove1_idem)
  next
    case None
    then have s: "tq_scan (rev (inactiveList r)) pt = Inr (None, pt)" using si by simp
    show ?thesis
    proof (cases "queue_victim pt as")
      case (Some m)
      then obtain i where i: "(i, m) \<in> set (activeList r)"
        "tq_scan (rev (activeList r)) pt = Inr (Some (i, m), lock_frame pt m)" using sa by auto
      have "m \<in> set as" "m \<notin> set is" using queue_victim_SomeD [OF Some] l(3) by auto
      then show ?thesis
        using lm_erase [OF l(1) i(1)] i(2) l(2,3) sub [of m as] Some None s
        by (fastforce simp: tq_Victim_def two_queue_victim_def queue_victim_append tq_rep_def remove1_idem)
    qed (use None s sa in \<open>simp add: tq_Victim_def two_queue_victim_def queue_victim_append\<close>)
  qed
qed

section \<open>The policy keeps the contract\<close>

definition tq_inv :: "nat \<Rightarrow> two_queue \<Rightarrow> mpage_id set \<Rightarrow> bool" where
  "tq_inv c r S \<longleftrightarrow> (\<exists>as is. tq_rep r as is \<and> set as \<union> set is = S \<and> S \<subseteq> {..<c})"

lemma tq_rep_remove: "tq_rep r as is \<Longrightarrow> set (remove1 m as) \<union> set (remove1 m is) = set as \<union> set is - {m}"
  by (auto simp: tq_rep_def lm_rep_def)

interpretation two_q: erasable_replacer tq_ops "tq_inv c" "tq_cap c" for c
proof (unfold_locales, unfold tq_ops_def replacer_ops.select_convs)
  fix r S k pt m0
  assume i: "tq_inv c r S" and wf: "pt_wf k pt" and h: "\<And>m. m \<in> S \<Longrightarrow> held pt m" and m: "m0 \<in> S" "\<not> pinned pt m0"
  obtain as "is" where a: "tq_rep r as is" "set as \<union> set is = S" "S \<subseteq> {..<c}" using i by (auto simp: tq_inv_def)
  obtain m where v: "two_queue_victim pt as is = Some m"
    using queue_victim_exists [of m0 "as @ is" pt] m a(2) by (auto simp: two_queue_victim_def)
  have "m \<in> S" "\<not> pinned pt m" using queue_victim_SomeD [of pt "as @ is" m] v a(2) by (auto simp: two_queue_victim_def)
  then show "\<exists>m r'. m \<in> S \<and> \<not> pinned pt m \<and> tq_Victim r pt = Inr ((True, m), r', lock_frame pt m) \<and>
      tq_inv c r' (S - {m}) \<and> tq_cap c r' = tq_cap c r"
    using tq_Victim_rep [OF a(1) wf] h a(2,3) v tq_rep_remove [OF a(1), of m]
    by (fastforce simp: tq_inv_def tq_cap_def)
next
  fix r S m assume "tq_inv c r S" "m \<in> S"
  then obtain as "is" where a: "tq_rep r as is" "set as \<union> set is = S" "S \<subseteq> {..<c}" "m \<in> set as \<union> set is"
    by (auto simp: tq_inv_def)
  show "\<exists>r'. tq_Erase r m = Inr (True, r') \<and> tq_inv c r' (S - {m}) \<and> tq_cap c r' = tq_cap c r"
    using tq_Erase_rep [OF a(1,4)] tq_rep_remove [OF a(1), of m] a(2,3) by (fastforce simp: tq_inv_def tq_cap_def)
  obtain r' where r': "tq_Promote r m = Inr (True, r')" "tq_rep r' (m # remove1 m as) (remove1 m is)"
    using tq_Promote_rep [OF a(1,4)] by blast
  have "set (m # remove1 m as) \<union> set (remove1 m is) = S" using tq_rep_remove [OF a(1), of m] a(2,4) by auto
  then show "\<exists>r'. tq_Promote r m = Inr (True, r') \<and> tq_inv c r' S \<and> tq_cap c r' = tq_cap c r"
    using r' a(3) unfolding tq_inv_def tq_cap_def by blast
next
  fix r S m assume "tq_inv c r S" and m: "m < tq_cap c r" "m \<notin> S"
  then obtain as "is" where a: "tq_rep r as is" "set as \<union> set is = S" "S \<subseteq> {..<c}" by (auto simp: tq_inv_def)
  then obtain r' where "tq_Insert r m = Inr (True, r')" "tq_rep r' as (m # is)" using tq_Insert_rep(1) m(2) by blast
  moreover have "set as \<union> set (m # is) = insert m S" "insert m S \<subseteq> {..<c}" using a m(1) by (auto simp: tq_cap_def)
  ultimately show "\<exists>r'. tq_Insert r m = Inr (True, r') \<and> tq_inv c r' (insert m S) \<and> tq_cap c r' = tq_cap c r"
    unfolding tq_inv_def tq_cap_def by blast
qed (auto simp: tq_inv_def tq_cap_def)

section \<open>Properties\<close>

text \<open>C37: The two-queue policy: a new frame enters the inactive queue, an access moves a frame to the
  front of the active queue, and \<open>Victim\<close> evicts the backmost unpinned inactive frame; an accessed
  frame is evicted only when all inactive ones are pinned, and when all frames are pinned the call
  reports failure and changes nothing.  \<open>Insert\<close> answers \<open>true\<close> when it has inserted the frame and
  \<open>false\<close> when the frame was there, the opposite of the comment above it; its caller asserts \<open>true\<close>.\<close>

theorem TwoQLRU_is_two_queues:
  assumes r: "tq_rep r as is" and wf: "pt_wf k pt" and h: "\<And>m. m \<in> set as \<union> set is \<Longrightarrow> held pt m"
  shows "(m \<notin> set as \<union> set is \<longrightarrow> (\<exists>r'. tq_Insert r m = Inr (True, r') \<and> tq_rep r' as (m # is))) \<and>
    (m \<in> set as \<union> set is \<longrightarrow> tq_Insert r m = Inr (False, r)) \<and>
    (m \<in> set as \<union> set is \<longrightarrow> (\<exists>r'. tq_Promote r m = Inr (True, r') \<and> tq_rep r' (m # remove1 m as) (remove1 m is))) \<and>
    (case List.find (\<lambda>m. \<not> pinned pt m) (rev is @ rev as) of
        None \<Rightarrow> tq_Victim r pt = Inr ((False, 0), r, pt)
      | Some m \<Rightarrow> \<exists>r'. tq_Victim r pt = Inr ((True, m), r', lock_frame pt m) \<and> tq_rep r' (remove1 m as) (remove1 m is))"
  using tq_Insert_rep [OF r, of m] tq_Promote_rep [OF r, of m] tq_Victim_rep [OF r wf h]
  by (simp add: two_queue_victim_def queue_victim_def)

lemma TwoQLRU_is_two_queues_witness:
  "\<exists>r1 r2 r3. tq_Insert tq_new 0 = Inr (True, r1) \<and> tq_Promote r1 0 = Inr (True, r2) \<and> tq_rep r2 [0] [] \<and>
     tq_Victim r2 small_pt = Inr ((True, 0), r3, lock_frame small_pt 0) \<and> tq_rep r3 [] []"
proof -
  obtain r1 where r1: "tq_Insert tq_new 0 = Inr (True, r1)" "tq_rep r1 [] [0]"
    using TwoQLRU_is_two_queues [OF tq_new_rep small_pt_wf, of 0] by auto
  obtain r2 where r2: "tq_Promote r1 0 = Inr (True, r2)" "tq_rep r2 [0] []"
    using TwoQLRU_is_two_queues [OF r1(2) small_pt_wf, of 0] small_pt_frame0(1) by auto
  show ?thesis
    using TwoQLRU_is_two_queues [OF r2(2) small_pt_wf] small_pt_frame0 r1(1) r2 by auto
qed

end
