(* ===== verification/Eviction.thy ===== *)
theory Eviction
  imports Pool BatchVictims Servers
begin

text \<open>
  The eviction server (\<^verbatim>\<open>include/eviction_server.h\<close>): a client asks for a number of frames, the
  server calls the batch form of \<open>Victim\<close>, pushes the victims to the free list of the pool and keeps
  the request until the number is reached.  The locale \<open>batch_policy\<close> states what the batch form
  must promise; it is interpreted on both FIFO policies, and a request is proved to keep the
  invariant of the pool and the contents of every page.
\<close>

section \<open>Requests and the server\<close>

text \<open>The replacer and the free list of a request are those of the pool that sent it.\<close>

record eviction_request =
  er_page_num :: u32

type_synonym 'r batch_victim =
  "'r \<Rightarrow> page_table \<Rightarrow> mpage_id list \<Rightarrow> nat \<Rightarrow> (bool \<times> mpage_id list \<times> 'r \<times> page_table) res"

fun push_pages :: "'q queue_ops \<Rightarrow> mpage_id list \<Rightarrow> 'q lockfree_queue \<Rightarrow> 'q lockfree_queue res" where
  "push_pages qops [] q = Inr q"
| "push_pages qops (m # ms) q =
     (let (ok, q) = lq_Push qops q m in bindE (assertE ok) (\<lambda>_. push_pages qops ms q))"

definition ev_ProcessFunc :: "'r batch_victim \<Rightarrow> 'q queue_ops \<Rightarrow> (eviction_request, ('r, 'q) buffer_pool) process" where
  "ev_ProcessFunc batch qops req bp =
     bindE (batch (bp_replacer bp) (bp_page_table bp) [] (unat (er_page_num req))) (\<lambda>(_, pages, r, pt).
     bindE (push_pages qops pages (bp_free_list bp)) (\<lambda>q.
     let n = er_page_num req - of_nat (length pages) in
     Inr (n = 0, req\<lparr>er_page_num := n\<rparr>, bp\<lparr>bp_replacer := r, bp_page_table := pt, bp_free_list := q\<rparr>)))"

text \<open>
  The body of the loop for one slot.  When a request is done and the channel has another one, the
  loop stays at the slot; each iteration but the last takes a request out of the channel.
\<close>

fun serve_slot_again ::
  "nat \<Rightarrow> ('a, 's) process \<Rightarrow> ('a \<Rightarrow> 's \<Rightarrow> 's res) \<Rightarrow> ('c, 'a) channel_ops \<Rightarrow> 'a option \<Rightarrow> 'c \<Rightarrow> 's \<Rightarrow>
   ('a option \<times> 'c \<times> 's) res" where
  "serve_slot_again 0 proc post cops slot ch s = Inl OutOfFuel"
| "serve_slot_again (Suc fuel) proc post cops slot ch s =
     (case take_request cops slot ch of
        (None, ch) \<Rightarrow> Inr (None, ch, s)
      | (Some r, ch) \<Rightarrow>
          bindE (proc r s) (\<lambda>(finished, r, s).
          if finished then bindE (post r s) (\<lambda>s.
            case take_request cops None ch of
              (None, ch) \<Rightarrow> Inr (None, ch, s)
            | (Some r, ch) \<Rightarrow> serve_slot_again fuel proc post cops (Some r) ch s)
          else Inr (Some r, ch, s)))"

definition BATCH_SIZE_EVICTION_SERVER :: nat where
  "BATCH_SIZE_EVICTION_SERVER = 15"

definition EVICTION_FIBER_CHANNEL_DEPTH :: nat where
  "EVICTION_FIBER_CHANNEL_DEPTH = 10"

text \<open>\<open>finish->store(true)\<close>: the flags raised so far are counted.\<close>

type_synonym ('r, 'q) ev_world = "('r, 'q) buffer_pool \<times> nat"

definition ev_process :: "'r batch_victim \<Rightarrow> 'q queue_ops \<Rightarrow> (eviction_request, ('r, 'q) ev_world) process" where
  "ev_process batch qops req = (\<lambda>(bp, n).
     bindE (ev_ProcessFunc batch qops req bp) (\<lambda>(finished, req, bp). Inr (finished, req, bp, n)))"

definition ev_post :: "eviction_request \<Rightarrow> ('r, 'q) ev_world \<Rightarrow> ('r, 'q) ev_world res" where
  "ev_post req = (\<lambda>(bp, n). Inr (bp, Suc n))"

text \<open>Only the first \<open>EVICTION_FIBER_CHANNEL_DEPTH\<close> of the slots are served.\<close>

fun ev_rounds :: "nat \<Rightarrow> nat \<Rightarrow> 'r batch_victim \<Rightarrow> 'q queue_ops \<Rightarrow> ('c, eviction_request) channel_ops \<Rightarrow>
    eviction_request option list \<Rightarrow> 'c \<Rightarrow> ('r, 'q) ev_world \<Rightarrow>
    (eviction_request option list \<times> 'c \<times> ('r, 'q) ev_world) res" where
  "ev_rounds 0 fuel batch qops cops slots ch w = Inr (slots, ch, w)"
| "ev_rounds (Suc n) fuel batch qops cops slots ch w =
     bindE (sweep (serve_slot_again fuel (ev_process batch qops) ev_post cops)
       (take EVICTION_FIBER_CHANNEL_DEPTH slots) ch w) (\<lambda>(served, ch, w).
     ev_rounds n fuel batch qops cops (served @ drop EVICTION_FIBER_CHANNEL_DEPTH slots) ch w)"

definition ev_Run :: "nat \<Rightarrow> nat \<Rightarrow> 'r batch_victim \<Rightarrow> 'q queue_ops \<Rightarrow> ('c, eviction_request) channel_ops \<Rightarrow>
    'c \<Rightarrow> ('r, 'q) ev_world \<Rightarrow> (eviction_request option list \<times> 'c \<times> ('r, 'q) ev_world) res" where
  "ev_Run n fuel batch qops cops ch w =
     ev_rounds n fuel batch qops cops (replicate BATCH_SIZE_EVICTION_SERVER None) ch w"

section \<open>What the batch form of a policy promises\<close>

definition clean_ones :: "page_table \<Rightarrow> mpage_id set \<Rightarrow> mpage_id set" where
  "clean_ones pt S = {m \<in> S. clean_victim pt m}"

locale batch_policy = replacer ops rinv rcap
  for ops :: "'r replacer_ops" and rinv rcap +
  fixes batch :: "'r batch_victim"
  assumes batch_0: "batch r pt ms 0 = Inr (True, ms, r, pt)"
    and batch_found: "rinv r S \<Longrightarrow> pt_wf k pt \<Longrightarrow> (\<And>m. m \<in> S \<Longrightarrow> held pt m) \<Longrightarrow> m0 \<in> S \<Longrightarrow> clean_victim pt m0 \<Longrightarrow>
      \<exists>m r'. m \<in> S \<and> clean_victim pt m \<and> rinv r' (S - {m}) \<and> rcap r' = rcap r \<and>
        (\<forall>ms n. batch r pt ms (Suc n) = batch r' (unmap_frame pt m) (ms @ [m]) n)"
    and batch_none: "rinv r S \<Longrightarrow> pt_wf k pt \<Longrightarrow> (\<And>m. m \<in> S \<Longrightarrow> held pt m) \<Longrightarrow> S \<noteq> {} \<Longrightarrow>
      (\<And>m. m \<in> S \<Longrightarrow> \<not> clean_victim pt m) \<Longrightarrow>
      \<exists>b r'. rinv r' S \<and> rcap r' = rcap r \<and> batch r pt ms (Suc n) = Inr (b, ms, r', pt)"
begin

text \<open>Moving one clean frame to the free list.\<close>

lemma free_one:
  assumes laws: "fifo_laws qops qrep" and c: "pool_core rinv rcap qrep k bp d S free {}"
    and m: "m \<in> S" "clean_victim (bp_page_table bp) m" and r': "rinv r' (S - {m})" "rcap r' = rcap (bp_replacer bp)"
    and qt: "quiet (bp_page_table bp)"
  obtains q' bp' where "lq_Push qops (bp_free_list bp) m = (True, q')"
    "bp' = bp\<lparr>bp_replacer := r', bp_page_table := unmap_frame (bp_page_table bp) m, bp_free_list := q'\<rparr>"
    "pool_core rinv rcap qrep k bp' d (S - {m}) (free @ [m]) {}" "quiet (bp_page_table bp')"
    "pt_partitioner (bp_page_table bp') = pt_partitioner (bp_page_table bp)"
    "\<And>m'. m' \<noteq> m \<Longrightarrow> clean_victim (bp_page_table bp') m' = clean_victim (bp_page_table bp) m'"
    "\<And>fd q. opened d fd \<Longrightarrow> GetPartitionId (pt_partitioner (bp_page_table bp)) q = k \<Longrightarrow>
       page_bytes bp' d fd q = page_bytes bp d fd q"
proof -
  let ?pt = "bp_page_table bp"
  note wf = pool_coreD(1) [OF c] and h = pool_coreD(8) [OF c m(1)]
  have lt: "m < frames ?pt" and um: "pt_word ?pt (pte_fd_cur (pte_of ?pt m)) (pte_fpage_id_cur (pte_of ?pt m)) = Some (mword m)"
    using h by (simp_all add: held_def)
  obtain d' where d': "evicting_phase \<lparr>fs_stat = Evicting, fs_ret = Some m,
        fs_bp = bp\<lparr>bp_replacer := r', bp_page_table := lock_frame ?pt m\<rparr>, fs_disk = d\<rparr> =
      Inr \<lparr>fs_stat = Loading, fs_ret = Some m, fs_bp = bp\<lparr>bp_replacer := r', bp_page_table := unmap_frame ?pt m\<rparr>, fs_disk = d'\<rparr>"
    "pool_core rinv rcap qrep k (bp\<lparr>bp_replacer := r', bp_page_table := unmap_frame ?pt m\<rparr>) d' (S - {m}) free {m}"
    "\<And>fd' q. opened d fd' \<Longrightarrow> GetPartitionId (pt_partitioner ?pt) q = k \<Longrightarrow>
       page_bytes (bp\<lparr>bp_replacer := r', bp_page_table := unmap_frame ?pt m\<rparr>) d' fd' q = page_bytes bp d fd' q"
    unfolding unmap_frame_def by (rule evicting_ok [OF c m(1) r']) blast
  have "FromPageId (lock_frame ?pt m) m = Inr (set_busy True (pte_of ?pt m))"
    using lock_frame_wf(4,6) [OF wf h] lt by (simp add: pt_simps)
  then have "d' = d"
    using d'(1) m(2) DeleteMapping_busy [OF lock_frame_wf(3) [OF wf h]]
    by (simp add: evicting_phase_def fs_frame_def clean_victim_def pt_simps)
  note d' = d'(2,3) [unfolded \<open>d' = d\<close>]
  have e: "frames (unmap_frame ?pt m) = frames ?pt" "pt_partitioner (unmap_frame ?pt m) = pt_partitioner ?pt"
    "pte_of (unmap_frame ?pt m) m' = (if m' = m then set_busy True (pte_of ?pt m) else pte_of ?pt m')" for m'
    using lock_frame_wf(4,5,6) [OF wf h] by (simp_all add: unmap_frame_def pt_simps)
  obtain q' where q': "lq_Push qops (bp_free_list bp) m = (True, q')" "lq_rep qrep q' (free @ [m])"
    using lq_Push_rep [OF laws pool_coreD(6) [OF c]] by blast
  let ?bp = "bp\<lparr>bp_replacer := r', bp_page_table := unmap_frame ?pt m, bp_free_list := q'\<rparr>"
  have np: "\<not> pinned (unmap_frame ?pt m) m" using m(2) e(3) by (simp add: pinned_def clean_victim_def pt_simps)
  have "pool_core rinv rcap qrep k ?bp d (S - {m}) (free @ [m]) {}"
    using d'(1) q'(2) np unfolding pool_core_def by auto
  moreover have "quiet (unmap_frame ?pt m)"
    unfolding quiet_def
  proof (intro allI notI)
    fix fd p assume a: "pt_word (unmap_frame ?pt m) fd p = Some (mword BUSY_VALUE)"
    have "pt_word (unmap_frame ?pt m) fd p =
        (if same_slot ?pt (pte_fd_cur (pte_of ?pt m)) (pte_fpage_id_cur (pte_of ?pt m)) fd p
         then Some (mword EMPTY_VALUE) else pt_word ?pt fd p)"
      using um by (simp add: unmap_frame_def lock_frame_def pt_simps same_slot_def Let_def)
    then show False using a qt by (auto simp: quiet_def mword_inject EMPTY_VALUE_def BUSY_VALUE_def split: if_splits)
  qed
  moreover have "clean_victim (unmap_frame ?pt m) m' = clean_victim ?pt m'" if "m' \<noteq> m" for m'
    using e(3) [of m'] that by (simp add: clean_victim_def pinned_def)
  moreover have "page_bytes ?bp d fd q = page_bytes bp d fd q"
    if "opened d fd" "GetPartitionId (pt_partitioner ?pt) q = k" for fd q
    using d'(2) [OF that] page_bytes_eq [of ?bp fd q "bp\<lparr>bp_replacer := r', bp_page_table := unmap_frame ?pt m\<rparr>"] by simp
  ultimately show thesis using q'(1) e(2) by (intro that [of q' ?bp]) simp_all
qed

text \<open>A batch, and the pushes that follow it.\<close>

lemma batch_run:
  assumes laws: "fifo_laws qops qrep" and "pool_core rinv rcap qrep k bp d S free {}" "quiet (bp_page_table bp)"
    and "n \<le> card S \<or> (\<exists>m\<in>S. \<not> clean_victim (bp_page_table bp) m)"
  shows "\<exists>b vs r' pt' q'. batch (bp_replacer bp) (bp_page_table bp) ms n = Inr (b, ms @ vs, r', pt') \<and>
    push_pages qops vs (bp_free_list bp) = Inr q' \<and> distinct vs \<and> set vs \<subseteq> clean_ones (bp_page_table bp) S \<and>
    length vs = min n (card (clean_ones (bp_page_table bp) S)) \<and>
    pool_core rinv rcap qrep k (bp\<lparr>bp_replacer := r', bp_page_table := pt', bp_free_list := q'\<rparr>) d (S - set vs) (free @ vs) {} \<and>
    quiet pt' \<and> (\<forall>fd q. opened d fd \<longrightarrow> GetPartitionId (pt_partitioner (bp_page_table bp)) q = k \<longrightarrow>
       page_bytes (bp\<lparr>bp_replacer := r', bp_page_table := pt', bp_free_list := q'\<rparr>) d fd q = page_bytes bp d fd q)"
  using assms(2-4)
proof (induction n arbitrary: bp S free ms)
  case 0
  then show ?case
    by (intro exI [of _ True] exI [of _ "[]"] exI [of _ "bp_replacer bp"] exI [of _ "bp_page_table bp"]
        exI [of _ "bp_free_list bp"]) (simp add: batch_0)
next
  case (Suc n)
  let ?pt = "bp_page_table bp"
  note c = Suc.prems(1) and qt = Suc.prems(2)
  note wf = pool_coreD(1) [OF c] and h = pool_coreD(8) [OF c] and i = pool_coreD(4) [OF c]
  have fin: "finite S" using members [OF i] finite_subset by blast
  have ne: "S \<noteq> {}" using Suc.prems(3) by auto
  show ?case
  proof (cases "clean_ones ?pt S = {}")
    case True
    then have "\<And>m. m \<in> S \<Longrightarrow> \<not> clean_victim ?pt m" by (auto simp: clean_ones_def)
    then obtain b r' where r': "rinv r' S" "rcap r' = rcap (bp_replacer bp)"
      "batch (bp_replacer bp) ?pt ms (Suc n) = Inr (b, ms, r', ?pt)"
      using batch_none [OF i wf h ne] by blast
    have "pool_core rinv rcap qrep k (bp\<lparr>bp_replacer := r'\<rparr>) d S free {}"
      using c r'(1,2) by (simp add: pool_core_def)
    moreover have "page_bytes (bp\<lparr>bp_replacer := r'\<rparr>) d fd q = page_bytes bp d fd q" for fd q by (rule page_bytes_eq) simp_all
    ultimately show ?thesis
      using r'(3) True qt
      by (intro exI [of _ b] exI [of _ "[]"] exI [of _ r'] exI [of _ ?pt] exI [of _ "bp_free_list bp"])
        simp
  next
    case False
    then obtain m0 where "m0 \<in> S" "clean_victim ?pt m0" by (auto simp: clean_ones_def)
    from batch_found [OF i wf h this] obtain m r1 where m: "m \<in> S" "clean_victim ?pt m"
      "rinv r1 (S - {m})" "rcap r1 = rcap (bp_replacer bp)"
      "\<And>ms n. batch (bp_replacer bp) ?pt ms (Suc n) = batch r1 (unmap_frame ?pt m) (ms @ [m]) n" by blast
    obtain q1 bp1 where 1: "lq_Push qops (bp_free_list bp) m = (True, q1)"
      "bp1 = bp\<lparr>bp_replacer := r1, bp_page_table := unmap_frame ?pt m, bp_free_list := q1\<rparr>"
      "pool_core rinv rcap qrep k bp1 d (S - {m}) (free @ [m]) {}" "quiet (bp_page_table bp1)"
      "pt_partitioner (bp_page_table bp1) = pt_partitioner ?pt"
      "\<And>m'. m' \<noteq> m \<Longrightarrow> clean_victim (bp_page_table bp1) m' = clean_victim ?pt m'"
      "\<And>fd q. opened d fd \<Longrightarrow> GetPartitionId (pt_partitioner ?pt) q = k \<Longrightarrow> page_bytes bp1 d fd q = page_bytes bp d fd q"
      by (rule free_one [OF laws c m(1-4) qt]) blast
    have co: "clean_ones (bp_page_table bp1) (S - {m}) = clean_ones ?pt S - {m}"
      using 1(6) by (auto simp: clean_ones_def)
    have "n \<le> card (S - {m}) \<or> (\<exists>m'\<in>S - {m}. \<not> clean_victim (bp_page_table bp1) m')"
      using Suc.prems(3) fin m(1,2) 1(6) by auto
    from Suc.IH [OF 1(3,4) this, of "ms @ [m]"] obtain b vs r' pt' q' where
      2: "batch (bp_replacer bp1) (bp_page_table bp1) (ms @ [m]) n = Inr (b, (ms @ [m]) @ vs, r', pt')"
        "push_pages qops vs (bp_free_list bp1) = Inr q'" "distinct vs" "set vs \<subseteq> clean_ones ?pt S - {m}"
        "length vs = min n (card (clean_ones ?pt S - {m}))"
        "pool_core rinv rcap qrep k (bp1\<lparr>bp_replacer := r', bp_page_table := pt', bp_free_list := q'\<rparr>) d
           (S - {m} - set vs) ((free @ [m]) @ vs) {}" "quiet pt'"
        "\<And>fd q. opened d fd \<Longrightarrow> GetPartitionId (pt_partitioner ?pt) q = k \<Longrightarrow>
           page_bytes (bp1\<lparr>bp_replacer := r', bp_page_table := pt', bp_free_list := q'\<rparr>) d fd q = page_bytes bp1 d fd q"
      unfolding co 1(5) by blast
    have mc: "m \<in> clean_ones ?pt S" "finite (clean_ones ?pt S)" using m(1,2) fin by (simp_all add: clean_ones_def)
    then have len: "length (m # vs) = min (Suc n) (card (clean_ones ?pt S))"
      using 2(5) card_Suc_Diff1 [OF mc(2,1)] by simp
    have bp1: "bp1\<lparr>bp_replacer := r', bp_page_table := pt', bp_free_list := q'\<rparr> =
        bp\<lparr>bp_replacer := r', bp_page_table := pt', bp_free_list := q'\<rparr>" by (simp add: 1(2))
    have S: "S - {m} - set vs = S - set (m # vs)" by auto
    show ?thesis
    proof (intro exI conjI)
      show "batch (bp_replacer bp) ?pt ms (Suc n) = Inr (b, ms @ (m # vs), r', pt')"
        using 2(1) by (simp add: m(5) 1(2))
      show "push_pages qops (m # vs) (bp_free_list bp) = Inr q'" using 1(1,2) 2(2) by simp
      show "pool_core rinv rcap qrep k (bp\<lparr>bp_replacer := r', bp_page_table := pt', bp_free_list := q'\<rparr>) d
          (S - set (m # vs)) (free @ (m # vs)) {}" using 2(6) unfolding bp1 S by simp
      show "\<forall>fd q. opened d fd \<longrightarrow> GetPartitionId (pt_partitioner ?pt) q = k \<longrightarrow>
          page_bytes (bp\<lparr>bp_replacer := r', bp_page_table := pt', bp_free_list := q'\<rparr>) d fd q = page_bytes bp d fd q"
        using 2(8) 1(7) unfolding bp1 by simp
    qed (use 2(3,4,7) len mc(1) in auto)
  qed
qed

end

section \<open>Both FIFO policies keep the promise\<close>

lemma backmost_exists: "m \<in> set xs \<Longrightarrow> P m \<Longrightarrow> \<exists>m'. backmost P xs = Some m'"
  using backmost_NoneD by fastforce

lemma f1_batch_step:
  assumes r: "pl_rep r xs" and wf: "pt_wf k pt" and h: "\<And>m. m \<in> set xs \<Longrightarrow> held pt m"
  shows "case backmost (clean_victim pt) xs of
      None \<Rightarrow> f1_Victim_batch r pt ms (Suc n) = Inr (ms \<noteq> [], ms, r, pt)
    | Some m \<Rightarrow> \<exists>r'. pl_rep r' (remove1 m xs) \<and>
        (\<forall>ms n. f1_Victim_batch r pt ms (Suc n) = f1_Victim_batch r' (unmap_frame pt m) (ms @ [m]) n)"
proof -
  obtain ps where s: "pl_shape r ps xs" using r by (auto simp: pl_rep_def)
  note d = pl_shapeD [OF s]
  let ?v = "node_victim (clean_victim pt) (pl_heap r) ps"
  have scan: "bindE (node_before (pl_heap r) TAIL_ADDR)
      (\<lambda>p. bindE (f1_batch_loop (Suc (Mapping.size (pl_map r))) (pl_heap r) p pt) f) =
    f (case ?v of None \<Rightarrow> (None, pt) | Some p \<Rightarrow> (Some p, unmap_frame pt (nh_val (pl_heap r) p)))"
    for f :: "nat option \<times> page_table \<Rightarrow> (bool \<times> mpage_id list \<times> ptr_node ptr_list \<times> page_table) res"
    using h d(4,10) pl_size [OF s] by (intro f1_batch.scan_from_tail [OF d(1) wf]) auto
  have b: "backmost (clean_victim pt) xs = map_option (nh_val (pl_heap r)) ?v"
    using node_victim_queue [of "clean_victim pt" "pl_heap r" ps] d(4) by simp
  show ?thesis
  proof (cases ?v)
    case None
    then show ?thesis using b scan by simp
  next
    case (Some p)
    obtain r' where "pl_take r p = Inr (nh_val (pl_heap r) p, r')" "pl_rep r' (remove1 (nh_val (pl_heap r) p) xs)"
      using pl_take_rep [OF s node_victim_in [OF Some]] by blast
    then show ?thesis using b scan Some by auto
  qed
qed

lemma f2_batch_victims:
  assumes r: "la_rep (f2_list r) xs" and wf: "pt_wf k pt" and h: "\<And>m. m \<in> set xs \<Longrightarrow> held pt m"
  shows "case backmost (clean_victim pt) xs of
      None \<Rightarrow> f2_Victim_batch r pt ms (Suc n) = Inr (ms \<noteq> [], ms, r, pt)
    | Some m \<Rightarrow> \<exists>r'. la_rep (f2_list r') (remove1 m xs) \<and> f2_cap r' = f2_cap r \<and>
        (\<forall>ms n. f2_Victim_batch r pt ms (Suc n) = f2_Victim_batch r' (unmap_frame pt m) (ms @ [m]) n)"
proof -
  have e: "f2_Victim_batch r pt ms (Suc n) =
      bindE (bindE (GetTail (f2_list r)) (\<lambda>i. f2_batch_loop (la_capacity (f2_list r) + 1) (f2_list r) i pt)) (\<lambda>(v, pt).
      case v of None \<Rightarrow> Inr (ms \<noteq> [], ms, r, pt)
      | Some i \<Rightarrow> bindE (removeFromIndex (f2_list r) i) (\<lambda>(_, la).
          f2_Victim_batch (r\<lparr>f2_list := la\<rparr>) pt (ms @ [i]) n))" for ms n
    by (simp only: f2_Victim_batch.simps bindE_assoc)
  show ?thesis
  proof (cases "backmost (clean_victim pt) xs")
    case None
    then show ?thesis unfolding e by (simp only: f2_batch.scan_from_tail [OF r wf h] option.case bindE_Inr prod.case)
  next
    case (Some m)
    then have m: "m < la_capacity (f2_list r)" using backmost_SomeD la_rep_lt [OF r] by blast
    obtain la where la: "removeFromIndex (f2_list r) m = Inr (True, la)" "la_rep la (remove1 m xs)"
      "la_capacity la = la_capacity (f2_list r)"
      using removeFromIndex_rep [OF r m] by blast
    have "\<forall>ms n. f2_Victim_batch r pt ms (Suc n) = f2_Victim_batch (r\<lparr>f2_list := la\<rparr>) (unmap_frame pt m) (ms @ [m]) n"
      using la(1) unfolding e by (simp only: f2_batch.scan_from_tail [OF r wf h] Some option.case bindE_Inr prod.case simp_thms)
    then show ?thesis using Some la(2,3) by (auto simp: f2_cap_def intro!: exI [of _ "r\<lparr>f2_list := la\<rparr>"])
  qed
qed

interpretation fifo1_batch: batch_policy f1_ops "pl_inv c" "pl_cap c" f1_Victim_batch for c
proof unfold_locales
  fix r S k pt assume i: "pl_inv c r S" and wf: "pt_wf k pt" and h: "\<And>m. m \<in> S \<Longrightarrow> held pt m"
  obtain xs where xs: "pl_rep r xs" "set xs = S" "S \<subseteq> {..<c}" using i by (auto simp: pl_inv_def)
  note step = f1_batch_step [OF xs(1) wf, unfolded xs(2), OF h]
  show "\<exists>m r'. m \<in> S \<and> clean_victim pt m \<and> pl_inv c r' (S - {m}) \<and> pl_cap c r' = pl_cap c r \<and>
      (\<forall>ms n. f1_Victim_batch r pt ms (Suc n) = f1_Victim_batch r' (unmap_frame pt m) (ms @ [m]) n)"
    if m0: "m0 \<in> S" "clean_victim pt m0" for m0
  proof -
    obtain m where v: "backmost (clean_victim pt) xs = Some m"
      using backmost_exists [of m0 xs "clean_victim pt"] m0 xs(2) by auto
    obtain r' where r': "pl_rep r' (remove1 m xs)"
      "\<forall>ms n. f1_Victim_batch r pt ms (Suc n) = f1_Victim_batch r' (unmap_frame pt m) (ms @ [m]) n"
      using step [of undefined undefined] v by auto
    have "set (remove1 m xs) = S - {m}" using pl_rep_distinct [OF xs(1)] xs(2) by simp
    then show ?thesis using backmost_SomeD [OF v] r' xs(2,3) unfolding pl_inv_def pl_cap_def by blast
  qed
  show "\<exists>b r'. pl_inv c r' S \<and> pl_cap c r' = pl_cap c r \<and> f1_Victim_batch r pt ms (Suc n) = Inr (b, ms, r', pt)"
    if "\<And>m. m \<in> S \<Longrightarrow> \<not> clean_victim pt m" for ms n
  proof -
    have "backmost (clean_victim pt) xs = None" using that backmost_SomeD xs(2) by (cases "backmost (clean_victim pt) xs") blast+
    then show ?thesis using step [of ms n] i by auto
  qed
qed simp

interpretation fifo2_batch: batch_policy f2_ops f2_inv f2_cap f2_Victim_batch
proof unfold_locales
  fix r S k pt assume i: "f2_inv r S" and wf: "pt_wf k pt" and h: "\<And>m. m \<in> S \<Longrightarrow> held pt m"
  obtain xs where xs: "la_rep (f2_list r) xs" "set xs = S" using i by (auto simp: f2_inv_def)
  note step = f2_batch_victims [OF xs(1) wf, unfolded xs(2), OF h]
  show "\<exists>m r'. m \<in> S \<and> clean_victim pt m \<and> f2_inv r' (S - {m}) \<and> f2_cap r' = f2_cap r \<and>
      (\<forall>ms n. f2_Victim_batch r pt ms (Suc n) = f2_Victim_batch r' (unmap_frame pt m) (ms @ [m]) n)"
    if m0: "m0 \<in> S" "clean_victim pt m0" for m0
  proof -
    obtain m where v: "backmost (clean_victim pt) xs = Some m"
      using backmost_exists [of m0 xs "clean_victim pt"] m0 xs(2) by auto
    obtain r' where r': "la_rep (f2_list r') (remove1 m xs)" "f2_cap r' = f2_cap r"
      "\<forall>ms n. f2_Victim_batch r pt ms (Suc n) = f2_Victim_batch r' (unmap_frame pt m) (ms @ [m]) n"
      using step [of undefined undefined] v by auto
    have "set (remove1 m xs) = S - {m}" using la_repD(2) [OF xs(1)] xs(2) by simp
    then show ?thesis using backmost_SomeD [OF v] r' xs(2) unfolding f2_inv_def by blast
  qed
  show "\<exists>b r'. f2_inv r' S \<and> f2_cap r' = f2_cap r \<and> f2_Victim_batch r pt ms (Suc n) = Inr (b, ms, r', pt)"
    if "\<And>m. m \<in> S \<Longrightarrow> \<not> clean_victim pt m" for ms n
  proof -
    have "backmost (clean_victim pt) xs = None" using that backmost_SomeD xs(2) by (cases "backmost (clean_victim pt) xs") blast+
    then show ?thesis using step [of ms n] i by auto
  qed
qed simp

section \<open>The batch form of SIEVE keeps it too\<close>

lemma s3_batch_found:
  assumes i: "s3_inv r S" and wf: "pt_wf k pt" and h: "\<And>m. m \<in> S \<Longrightarrow> held pt m"
    and m0: "m0 \<in> S" "clean_victim pt m0"
  shows "\<exists>m r'. m \<in> S \<and> clean_victim pt m \<and> s3_inv r' (S - {m}) \<and> s3_cap r' = s3_cap r \<and>
    (\<forall>ms n. s3_batch r pt ms (Suc n) = s3_batch r' (unmap_frame pt m) (ms @ [m]) n)"
proof -
  obtain xs where xs: "la_rep (s3_list r) xs" "set xs = S" "hand_ok (s3_list r) xs (s3_pointer r)"
    "\<forall>m\<in>S. unat (la_vals (s3_list r) m) \<le> 1" using i by (auto simp: s3_inv_def)
  obtain i la1 v p la2 where v: "hand_start (s3_list r) (s3_pointer r) = Inr i"
    "s3_batch_loop (la_capacity (s3_list r) * 2) (s3_list r) i pt = Inr (True, la1, v, unmap_frame pt v)"
    "getPrevNodeIndex la1 v = Inr p" "removeFromIndex la1 v = Inr (True, la2)"
    "la_rep la2 (remove1 v xs)" "hand_ok la2 (remove1 v xs) p" "v \<in> set xs" "clean_victim pt v"
    "set (remove1 v xs) = set xs - {v}" "la_capacity la2 = la_capacity (s3_list r)"
    "\<And>i. unat (la_vals la2 i) \<le> unat (la_vals (s3_list r) i)"
    using s3b.victim_core [OF xs(1,3) wf, of m0] h m0 xs(2,4) by metis
  let ?r = "r\<lparr>s3_list := la2, s3_pointer := p\<rparr>"
  have "s3_inv ?r (S - {v})" unfolding s3_inv_def
    by (intro exI [of _ "remove1 v xs"]) (use v(5,6,9,11) xs(2,4) in \<open>auto intro: order_trans\<close>)
  moreover have "s3_batch r pt ms (Suc n) = s3_batch ?r (unmap_frame pt v) (ms @ [v]) n" for ms n
    using v(1-4) by simp
  moreover have "s3_cap ?r = s3_cap r" using v(10) by (simp add: s3_cap_def)
  ultimately show ?thesis using v(7,8) xs(2) by blast
qed

lemma s3_batch_none:
  assumes i: "s3_inv r S" and wf: "pt_wf k pt" and h: "\<And>m. m \<in> S \<Longrightarrow> held pt m" and ne: "S \<noteq> {}"
    and no: "\<And>m. m \<in> S \<Longrightarrow> \<not> clean_victim pt m"
  shows "\<exists>b r'. s3_inv r' S \<and> s3_cap r' = s3_cap r \<and> s3_batch r pt ms (Suc n) = Inr (b, ms, r', pt)"
proof -
  obtain xs where xs: "la_rep (s3_list r) xs" "set xs = S" "hand_ok (s3_list r) xs (s3_pointer r)"
    "\<forall>m\<in>S. unat (la_vals (s3_list r) m) \<le> 1" using i by (auto simp: s3_inv_def)
  have "xs \<noteq> []" using xs(2) ne by auto
  then obtain i la j where l: "hand_start (s3_list r) (s3_pointer r) = Inr i"
    "s3_batch_loop (la_capacity (s3_list r) * 2) (s3_list r) i pt = Inr (False, la, j, pt)"
    "la_rep la xs" "s3b.same_list (s3_list r) la"
    using s3b.exhausts_from_start [OF xs(1,3) wf, of "la_capacity (s3_list r) * 2"] h no xs(2) by metis
  have "s3_inv (r\<lparr>s3_list := la\<rparr>) S \<and> s3_cap (r\<lparr>s3_list := la\<rparr>) = s3_cap r"
    using l(3,4) xs(2-4) by (auto simp: s3_inv_def s3_cap_def s3b.same_list_def hand_ok_def intro: order_trans)
  then show ?thesis using l(1,2) by auto
qed

interpretation sieve3_batch: batch_policy s3_ops s3_inv s3_cap s3_batch
  by unfold_locales (use s3_batch_found s3_batch_none in \<open>simp_all del: s3_batch.simps(2)\<close>)

section \<open>Serving a request\<close>

lemma request_done:
  fixes w :: u32
  assumes "l \<le> unat w"
  shows "w - of_nat l = 0 \<longleftrightarrow> unat w \<le> l"
proof
  assume "w - of_nat l = 0"
  then have "unat w = l mod 2 ^ 32" by (simp add: unat_of_nat take_bit_eq_mod)
  then show "unat w \<le> l" by simp
next
  assume "unat w \<le> l"
  then have "l = unat w" using assms by simp
  then show "w - of_nat l = 0" by simp
qed

context batch_policy
begin

lemma ProcessFunc_ok:
  assumes "fifo_laws qops qrep" "pool_core rinv rcap qrep k bp d S free {}" "quiet (bp_page_table bp)"
    and "unat (er_page_num req) \<le> card S \<or> (\<exists>m\<in>S. \<not> clean_victim (bp_page_table bp) m)"
  shows "\<exists>vs bp'. ev_ProcessFunc batch qops req bp =
      Inr (unat (er_page_num req) \<le> card (clean_ones (bp_page_table bp) S),
        \<lparr>er_page_num = er_page_num req - of_nat (length vs)\<rparr>, bp') \<and>
    distinct vs \<and> set vs \<subseteq> clean_ones (bp_page_table bp) S \<and>
    length vs = min (unat (er_page_num req)) (card (clean_ones (bp_page_table bp) S)) \<and>
    pool_core rinv rcap qrep k bp' d (S - set vs) (free @ vs) {} \<and> quiet (bp_page_table bp') \<and>
    (\<forall>fd q. opened d fd \<longrightarrow> GetPartitionId (pt_partitioner (bp_page_table bp)) q = k \<longrightarrow>
       page_bytes bp' d fd q = page_bytes bp d fd q)"
proof -
  let ?n = "unat (er_page_num req)"
  from batch_run [OF assms, of "[]"] obtain b vs r' pt' q' where
    v: "batch (bp_replacer bp) (bp_page_table bp) [] ?n = Inr (b, vs, r', pt')"
      "push_pages qops vs (bp_free_list bp) = Inr q'" "distinct vs" "set vs \<subseteq> clean_ones (bp_page_table bp) S"
      "length vs = min ?n (card (clean_ones (bp_page_table bp) S))" "quiet pt'"
      "pool_core rinv rcap qrep k (bp\<lparr>bp_replacer := r', bp_page_table := pt', bp_free_list := q'\<rparr>) d (S - set vs) (free @ vs) {}"
      "\<And>fd q. opened d fd \<Longrightarrow> GetPartitionId (pt_partitioner (bp_page_table bp)) q = k \<Longrightarrow>
         page_bytes (bp\<lparr>bp_replacer := r', bp_page_table := pt', bp_free_list := q'\<rparr>) d fd q = page_bytes bp d fd q"
    by auto
  have le: "length vs \<le> ?n" using v(5) by simp
  moreover have "?n \<le> length vs \<longleftrightarrow> ?n \<le> card (clean_ones (bp_page_table bp) S)" using v(5) by auto
  ultimately have z: "er_page_num req - of_nat (length vs) = 0 \<longleftrightarrow> ?n \<le> card (clean_ones (bp_page_table bp) S)"
    by (simp only: request_done)
  have "ev_ProcessFunc batch qops req bp =
      Inr (?n \<le> card (clean_ones (bp_page_table bp) S), \<lparr>er_page_num = er_page_num req - of_nat (length vs)\<rparr>,
        bp\<lparr>bp_replacer := r', bp_page_table := pt', bp_free_list := q'\<rparr>)"
    unfolding ev_ProcessFunc_def v(1) v(2) bindE_Inr prod.case Let_def z by (cases req) simp
  then show ?thesis using v(3-8)
    by (intro exI [of _ vs] exI [of _ "bp\<lparr>bp_replacer := r', bp_page_table := pt', bp_free_list := q'\<rparr>"]) simp
qed

end

text \<open>C35: serving one eviction request of a pool that runs the SIEVE policy, for a request of at most as
  many frames as the policy manages, or of any number when one of them is pinned or dirty.  The batch form
  of \<open>Victim\<close> starts by comparing the uninitialised variable \<open>to_evict\<close> with the head of the list: when it
  happens to hold that value the server frees nothing.  Otherwise the server moves clean, unpinned frames from the policy to the
  end of the free list, the number it was asked for or, when there are fewer, all of them.  In both cases it reports the
  request finished exactly when it has freed enough frames and otherwise keeps the missing number in it, the
  invariant of the pool holds again, and every page of the partition still reads the same.\<close>

theorem eviction_request_frees_clean_frames:
  assumes "fifo_laws qops qrep" "pool_core s3_inv s3_cap qrep k bp d S free {}" "quiet (bp_page_table bp)"
    and "unat (er_page_num req) \<le> card S \<or> (\<exists>m\<in>S. \<not> clean_victim (bp_page_table bp) m)"
  shows "\<exists>vs bp'. ev_ProcessFunc (s3_Victim_batch junk) qops req bp =
      Inr (unat (er_page_num req) \<le> length vs, \<lparr>er_page_num = er_page_num req - of_nat (length vs)\<rparr>, bp') \<and>
    distinct vs \<and> set vs \<subseteq> clean_ones (bp_page_table bp) S \<and>
    length vs = (if junk = la_head (s3_list (bp_replacer bp)) then 0
      else min (unat (er_page_num req)) (card (clean_ones (bp_page_table bp) S))) \<and>
    pool_core s3_inv s3_cap qrep k bp' d (S - set vs) (free @ vs) {} \<and> quiet (bp_page_table bp') \<and>
    (\<forall>fd q. opened d fd \<longrightarrow> GetPartitionId (pt_partitioner (bp_page_table bp)) q = k \<longrightarrow>
       page_bytes bp' d fd q = page_bytes bp d fd q)"
proof (cases "junk = la_head (s3_list (bp_replacer bp))")
  case True
  then have "ev_ProcessFunc (s3_Victim_batch junk) qops req bp = Inr (er_page_num req = 0, req, bp)"
    by (simp add: ev_ProcessFunc_def s3_Victim_batch_def)
  moreover have "er_page_num req = 0 \<longleftrightarrow> unat (er_page_num req) \<le> 0" by (simp add: word_unat_eq_iff)
  ultimately show ?thesis
    using True assms(2,3) by (intro exI [of _ "[]"] exI [of _ bp]) (simp add: clean_ones_def)
next
  case False
  then have e: "ev_ProcessFunc (s3_Victim_batch junk) qops req bp = ev_ProcessFunc s3_batch qops req bp"
    by (simp add: ev_ProcessFunc_def s3_Victim_batch_def)
  obtain vs bp' where v: "ev_ProcessFunc s3_batch qops req bp =
      Inr (unat (er_page_num req) \<le> card (clean_ones (bp_page_table bp) S),
        \<lparr>er_page_num = er_page_num req - of_nat (length vs)\<rparr>, bp')"
    "distinct vs" "set vs \<subseteq> clean_ones (bp_page_table bp) S"
    "length vs = min (unat (er_page_num req)) (card (clean_ones (bp_page_table bp) S))"
    "pool_core s3_inv s3_cap qrep k bp' d (S - set vs) (free @ vs) {}" "quiet (bp_page_table bp')"
    "\<forall>fd q. opened d fd \<longrightarrow> GetPartitionId (pt_partitioner (bp_page_table bp)) q = k \<longrightarrow>
       page_bytes bp' d fd q = page_bytes bp d fd q"
    using sieve3_batch.ProcessFunc_ok [OF assms] by blast
  have "unat (er_page_num req) \<le> card (clean_ones (bp_page_table bp) S) \<longleftrightarrow> unat (er_page_num req) \<le> length vs"
    using v(4) by simp
  then show ?thesis using v False unfolding e by (intro exI [of _ vs] exI [of _ bp']) simp
qed

text \<open>Two pages in memory, one of them pinned and dirty, and a request for one frame.\<close>

definition two_pool :: "sieve3 \<Rightarrow> (sieve3, frame list) buffer_pool" where
  "two_pool r = \<lparr>bp_pool_ID = 0, bp_pool_size = 2, bp_memory_pool = [replicate 4096 5, replicate 4096 7],
     bp_page_table = two_pt, bp_replacer = r, bp_free_list = \<lparr>lq_queue = [], lq_size = 0, lq_capacity = 2\<rparr>\<rparr>"

lemma s3_two:
  obtains r where "s3_inv r {0, 1}" "s3_cap r = 2"
proof -
  obtain r0 where r0: "s3_inv r0 {0}" "s3_cap r0 = 2" by (rule s3_small)
  then show thesis using s3_Insert_ok [of r0 "{0}" 1] that by (auto simp: insert_commute)
qed

lemma two_pool_core:
  assumes "s3_inv r {0, 1}" "s3_cap r = 2"
  shows "pool_core s3_inv s3_cap (=) 0 (two_pool r) small_disk {0, 1} [] {}"
proof -
  have "frame_ok small_disk two_pt [replicate 4096 5, replicate 4096 7] 0"
    using small_disk_file by (simp add: frame_ok_def two_pt_sel in_file_def mk_pte_def pt_simps)
  moreover have "frame_ok small_disk two_pt [replicate 4096 5, replicate 4096 7] 1"
  proof -
    have "visible (replicate 5000 7) 1 (replicate 4096 7) = visible (replicate 5000 7) 1 (page_at (replicate 5000 7) 1)"
      by (rule nth_equalityI) (auto simp: visible_def page_at_def PAGE_SIZE_FILE_def)
    then show ?thesis
      using small_disk_file by (simp add: frame_ok_def two_pt_sel in_file_def mk_pte_def pt_simps PAGE_SIZE_FILE_def Let_def)
  qed
  ultimately show ?thesis
    using assms two_pt_wf two_pt_frames small_disk_ok(2)
    by (auto simp: pool_core_def two_pool_def two_pt_sel lq_rep_def PAGE_SIZE_FILE_def)
qed

lemma eviction_request_frees_clean_frames_witness:
  "\<exists>r bp'. ev_ProcessFunc (s3_Victim_batch 0) list_queue \<lparr>er_page_num = 1\<rparr> (two_pool r) = Inr (True, \<lparr>er_page_num = 0\<rparr>, bp') \<and>
     pool_core s3_inv s3_cap (=) 0 bp' small_disk {0} [1] {}"
proof -
  obtain r where r: "s3_inv r {0, 1}" "s3_cap r = 2" by (rule s3_two)
  have q: "quiet two_pt" by (auto simp: quiet_def two_pt_word mword_inject BUSY_VALUE_def)
  have co: "clean_ones two_pt {0, 1} = {1}" using two_pt_frames by (auto simp: clean_ones_def clean_victim_def)
  obtain xs where "la_rep (s3_list r) xs" using r(1) unfolding s3_inv_def by blast
  then have j: "0 \<noteq> la_head (s3_list r)" using la_repD(1) r(2) by (fastforce simp: s3_cap_def la_simps)
  have sel: "bp_page_table (two_pool r) = two_pt" "bp_replacer (two_pool r) = r" by (simp_all add: two_pool_def)
  have n: "unat (er_page_num \<lparr>er_page_num = 1\<rparr>) = 1" "card {0, 1 :: nat} = 2" "card {1 :: nat} = 1" by simp_all
  have "\<exists>vs bp'. ev_ProcessFunc (s3_Victim_batch 0) list_queue \<lparr>er_page_num = 1\<rparr> (two_pool r) =
      Inr (1 \<le> length vs, \<lparr>er_page_num = 1 - of_nat (length vs)\<rparr>, bp') \<and> distinct vs \<and> set vs \<subseteq> {1} \<and>
      length vs = (if 0 = la_head (s3_list r) then 0 else min 1 1) \<and> pool_core s3_inv s3_cap (=) 0 bp' small_disk ({0, 1} - set vs) ([] @ vs) {} \<and>
      quiet (bp_page_table bp')"
    using eviction_request_frees_clean_frames [OF list_queue_laws two_pool_core [OF r], of "\<lparr>er_page_num = 1\<rparr>",
        unfolded sel co n eviction_request.select_convs unsigned_1, OF q disjI1 [OF one_le_numeral], of 0]
    by (elim exE conjE) (intro exI conjI; assumption)
  with j obtain vs bp' where v: "ev_ProcessFunc (s3_Victim_batch 0) list_queue \<lparr>er_page_num = 1\<rparr> (two_pool r) =
      Inr (True, \<lparr>er_page_num = 1 - of_nat (length vs)\<rparr>, bp')" "set vs \<subseteq> {1}" "length vs = 1"
      "pool_core s3_inv s3_cap (=) 0 bp' small_disk ({0, 1} - set vs) ([] @ vs) {}" by auto
  moreover from v(2,3) have "vs = [1]" by (cases vs) auto
  moreover have "{0, 1} - {1 :: nat} = {0}" by auto
  ultimately show ?thesis by auto
qed

end
