(* ===== verification/ExtendibleHash.thy ===== *)
theory ExtendibleHash
  imports Prelude "HOL-Library.AList_Mapping"
begin

text \<open>
  \<open>ExtendibleHash\<close> (\<^verbatim>\<open>include/extendible_hash.h\<close>, \<^verbatim>\<open>src/extendible_hash.cpp\<close>): a directory of
  shared pointers to buckets, doubled when a full bucket of maximal depth is split.  The hash
  function, \<^verbatim>\<open>std::hash\<close>, is a parameter.  Proved: the table implements a finite map as long as no
  more keys than a bucket holds agree on the 30 low bits of their hash.
\<close>

section \<open>State\<close>

text \<open>
  Buckets are shared between the entries of the directory: the directory holds their numbers, and
  \<open>eh_store\<close> the buckets by number.
\<close>

record ('k, 'v) eh_bucket =
  localDepth :: nat
  kmap :: "('k, 'v) mapping"

record ('k, 'v) ext_hash =
  globalDepth :: nat
  bucketSize :: nat
  bucketNum :: nat
  buckets :: "nat list"
  eh_store :: "('k, 'v) eh_bucket list"

definition eh_new :: "nat \<Rightarrow> ('k, 'v) ext_hash" where
  "eh_new n = \<lparr>globalDepth = 0, bucketSize = n, bucketNum = 1, buckets = [0],
     eh_store = [\<lparr>localDepth = 0, kmap = Mapping.empty\<rparr>]\<rparr>"

text \<open>
  The constructor without arguments builds a temporary table of size 64 and discards it; its own
  numbers are those found in memory, and it has no buckets.
\<close>

definition eh_default :: "nat \<Rightarrow> nat \<Rightarrow> nat \<Rightarrow> ('k, 'v) ext_hash" where
  "eh_default depth n num = \<lparr>globalDepth = depth, bucketSize = n, bucketNum = num, buckets = [], eh_store = []\<rparr>"

section \<open>Operations\<close>

text \<open>\<open>1 << d\<close> on \<open>int\<close>, which overflows from 31 on.\<close>

definition shl1 :: "nat \<Rightarrow> nat res" where
  "shl1 d = (if d < 31 then Inr (2 ^ d) else Inl OutOfBounds)"

definition getIdx :: "('k \<Rightarrow> u64) \<Rightarrow> ('k, 'v) ext_hash \<Rightarrow> 'k \<Rightarrow> nat res" where
  "getIdx HashKey t key =
     bindE (shl1 (globalDepth t)) (\<lambda>p. Inr (unat (HashKey key AND of_nat (p - 1))))"

definition eh_bucket_at :: "('k, 'v) ext_hash \<Rightarrow> nat \<Rightarrow> (nat \<times> ('k, 'v) eh_bucket) res" where
  "eh_bucket_at t i =
     bindE (arr_get (buckets t) i) (\<lambda>b. bindE (arr_get (eh_store t) b) (\<lambda>cur. Inr (b, cur)))"

definition GetLocalDepth :: "('k, 'v) ext_hash \<Rightarrow> nat \<Rightarrow> int res" where
  "GetLocalDepth t bucket_id =
     bindE (eh_bucket_at t bucket_id) (\<lambda>(_, cur).
     Inr (if Mapping.size (kmap cur) = 0 then - 1 else int (localDepth cur)))"

definition eh_Find :: "('k \<Rightarrow> u64) \<Rightarrow> ('k, 'v) ext_hash \<Rightarrow> 'k \<Rightarrow> 'v option res" where
  "eh_Find HashKey t key =
     bindE (getIdx HashKey t key) (\<lambda>idx.
     bindE (eh_bucket_at t idx) (\<lambda>(_, cur). Inr (Mapping.lookup (kmap cur) key)))"

definition eh_Remove :: "('k \<Rightarrow> u64) \<Rightarrow> ('k, 'v) ext_hash \<Rightarrow> 'k \<Rightarrow> (bool \<times> ('k, 'v) ext_hash) res" where
  "eh_Remove HashKey t key =
     bindE (getIdx HashKey t key) (\<lambda>idx.
     bindE (eh_bucket_at t idx) (\<lambda>(b, cur).
     if Mapping.lookup (kmap cur) key = None then Inr (False, t)
     else Inr (True, t\<lparr>eh_store := (eh_store t)[b := cur\<lparr>kmap := Mapping.delete key (kmap cur)\<rparr>]\<rparr>)))"

text \<open>Splitting the full bucket \<open>cur\<close>, whose number is \<open>b\<close>.\<close>

definition eh_split :: "('k \<Rightarrow> u64) \<Rightarrow> ('k, 'v) ext_hash \<Rightarrow> nat \<Rightarrow> ('k, 'v) eh_bucket \<Rightarrow> ('k, 'v) ext_hash res" where
  "eh_split HashKey t b cur =
     bindE (shl1 (localDepth cur)) (\<lambda>mask.
     let ld = localDepth cur + 1;
         double = ld > globalDepth t;
         dir = (if double then buckets t @ buckets t else buckets t);
         moved = (\<lambda>k. HashKey k AND of_nat mask \<noteq> 0);
         newBuc = \<lparr>localDepth = ld, kmap = Mapping.filter (\<lambda>k _. moved k) (kmap cur)\<rparr>;
         cur' = \<lparr>localDepth = ld, kmap = Mapping.filter (\<lambda>k _. \<not> moved k) (kmap cur)\<rparr>;
         n = length (eh_store t)
     in Inr (t\<lparr>globalDepth := globalDepth t + (if double then 1 else 0), bucketNum := bucketNum t + 1,
          buckets := map (\<lambda>i. if dir ! i = b \<and> i AND mask \<noteq> 0 then n else dir ! i) [0..<length dir],
          eh_store := (eh_store t)[b := cur'] @ [newBuc]\<rparr>))"

fun eh_insert_loop ::
  "nat \<Rightarrow> ('k \<Rightarrow> u64) \<Rightarrow> ('k, 'v) ext_hash \<Rightarrow> 'k \<Rightarrow> 'v \<Rightarrow> nat \<Rightarrow> ('k, 'v) ext_hash res" where
  "eh_insert_loop 0 HashKey t key value idx = Inl OutOfFuel"
| "eh_insert_loop (Suc fuel) HashKey t key value idx =
     bindE (eh_bucket_at t idx) (\<lambda>(b, cur).
     if Mapping.lookup (kmap cur) key \<noteq> None \<or> Mapping.size (kmap cur) < bucketSize t then
       Inr (t\<lparr>eh_store := (eh_store t)[b := cur\<lparr>kmap := Mapping.update key value (kmap cur)\<rparr>]\<rparr>)
     else bindE (eh_split HashKey t b cur) (\<lambda>t.
          bindE (getIdx HashKey t key) (\<lambda>idx. eh_insert_loop fuel HashKey t key value idx)))"

text \<open>A bucket is split at most 31 times before the shift overflows.\<close>

definition eh_Insert :: "('k \<Rightarrow> u64) \<Rightarrow> ('k, 'v) ext_hash \<Rightarrow> 'k \<Rightarrow> 'v \<Rightarrow> ('k, 'v) ext_hash res" where
  "eh_Insert HashKey t key value =
     bindE (getIdx HashKey t key) (\<lambda>idx. eh_insert_loop 32 HashKey t key value idx)"

section \<open>The map a table stands for\<close>

text \<open>The bucket of a hash, for all natural numbers: the directory repeats with its size.\<close>

definition entry :: "('k, 'v) ext_hash \<Rightarrow> nat \<Rightarrow> nat" where
  "entry t i = buckets t ! take_bit (globalDepth t) i"

definition bucket_of :: "('k, 'v) ext_hash \<Rightarrow> nat \<Rightarrow> ('k, 'v) eh_bucket" where
  "bucket_of t i = eh_store t ! entry t i"

definition eh_map :: "('k \<Rightarrow> u64) \<Rightarrow> ('k, 'v) ext_hash \<Rightarrow> 'k \<Rightarrow> 'v option" where
  "eh_map H t k = Mapping.lookup (kmap (bucket_of t (unat (H k)))) k"

definition agree :: "nat \<Rightarrow> nat \<Rightarrow> nat \<Rightarrow> bool" where
  "agree d i j \<longleftrightarrow> take_bit d i = take_bit d j"

definition eh_inv :: "('k \<Rightarrow> u64) \<Rightarrow> ('k, 'v) ext_hash \<Rightarrow> bool" where
  "eh_inv H t \<longleftrightarrow> globalDepth t \<le> 30 \<and> length (buckets t) = 2 ^ globalDepth t \<and>
     bucketNum t = length (eh_store t) \<and> (\<forall>i. entry t i < length (eh_store t)) \<and>
     (\<forall>i. localDepth (bucket_of t i) \<le> globalDepth t) \<and>
     (\<forall>i j. entry t i = entry t j \<longleftrightarrow> agree (localDepth (bucket_of t i)) i j) \<and>
     (\<forall>i. finite (Mapping.keys (kmap (bucket_of t i)))) \<and>
     (\<forall>i k. k \<in> Mapping.keys (kmap (bucket_of t i)) \<longrightarrow> agree (localDepth (bucket_of t i)) (unat (H k)) i)"

lemma agree_Suc: "agree (Suc d) i j \<longleftrightarrow> agree d i j \<and> (bit i d \<longleftrightarrow> bit j d)"
  unfolding agree_def bit_eq_iff by (auto simp: bit_take_bit_iff less_Suc_eq)

lemma agree_sym: "agree d i j \<longleftrightarrow> agree d j i"
  by (auto simp: agree_def)

lemma agree_trans: "agree d i j \<Longrightarrow> agree d j k \<Longrightarrow> agree d i k"
  by (simp add: agree_def)

lemma agree_mono: "agree d i j \<Longrightarrow> d' \<le> d \<Longrightarrow> agree d' i j"
  unfolding agree_def by (metis min_def take_bit_take_bit)

lemma agree_take: "d \<le> g \<Longrightarrow> agree d (take_bit g i) i"
  by (simp add: agree_def min_def)

lemma eh_invD:
  assumes "eh_inv H t"
  shows "globalDepth t \<le> 30" "length (buckets t) = 2 ^ globalDepth t" "entry t i < length (eh_store t)"
    "localDepth (bucket_of t i) \<le> globalDepth t" "finite (Mapping.keys (kmap (bucket_of t i)))"
    "entry t i = entry t j \<longleftrightarrow> agree (localDepth (bucket_of t i)) i j"
    "k \<in> Mapping.keys (kmap (bucket_of t i)) \<Longrightarrow> agree (localDepth (bucket_of t i)) (unat (H k)) i"
    "bucketNum t = length (eh_store t)"
  using assms unfolding eh_inv_def by blast+

lemma hash_bit: "w AND of_nat (2 ^ d) = 0 \<longleftrightarrow> \<not> bit (unat (w :: u64)) d"
  by (simp add: bit_unsigned_iff) (metis and_exp_eq_0_iff_not_bit)

lemma getIdx_ok:
  assumes "globalDepth t \<le> 30"
  shows "getIdx H t k = Inr (take_bit (globalDepth t) (unat (H k)))"
proof -
  have "(of_nat (2 ^ globalDepth t - 1) :: u64) = mask (globalDepth t)" by (simp add: mask_eq_exp_minus_1 of_nat_diff)
  then show ?thesis using assms by (simp add: getIdx_def shl1_def take_bit_eq_mask [symmetric] unsigned_take_bit_eq)
qed

lemma eh_bucket_at_ok:
  assumes "eh_inv H t"
  shows "eh_bucket_at t (take_bit (globalDepth t) i) = Inr (entry t i, bucket_of t i)"
  using eh_invD(2) [OF assms] eh_invD(3) [OF assms, of i] by (simp add: eh_bucket_at_def entry_def bucket_of_def)

section \<open>Replacing the contents of one bucket\<close>

lemma put_bucket:
  fixes H :: "'k \<Rightarrow> u64" and t :: "('k, 'v) ext_hash"
  assumes inv: "eh_inv H t" and fin: "finite (Mapping.keys M)"
    and keys: "\<And>k. k \<in> Mapping.keys M \<Longrightarrow> agree (localDepth (bucket_of t x)) (unat (H k)) x"
  defines "t' \<equiv> t\<lparr>eh_store := (eh_store t)[entry t x := (bucket_of t x)\<lparr>kmap := M\<rparr>]\<rparr>"
  shows "eh_inv H t'"
    and "eh_map H t' k = (if entry t (unat (H k)) = entry t x then Mapping.lookup M k else eh_map H t k)"
proof -
  note d = eh_invD [OF inv]
  have e: "entry t' i = entry t i" for i by (simp add: t'_def entry_def)
  have b: "bucket_of t' i = (if entry t i = entry t x then (bucket_of t x)\<lparr>kmap := M\<rparr> else bucket_of t i)" for i
    using d(3) [of i] by (simp add: bucket_of_def e) (simp add: t'_def bucket_of_def)
  have same: "bucket_of t i = bucket_of t x" if "entry t i = entry t x" for i
    using that by (simp add: bucket_of_def)
  show "eh_map H t' k = (if entry t (unat (H k)) = entry t x then Mapping.lookup M k else eh_map H t k)"
    by (simp add: eh_map_def b)
  have ld: "localDepth (bucket_of t' i) = localDepth (bucket_of t i)" for i using same [of i] by (simp add: b)
  have kx: "agree (localDepth (bucket_of t i)) (unat (H k)) i" if "k \<in> Mapping.keys M" "entry t i = entry t x" for i k
  proof -
    have "agree (localDepth (bucket_of t i)) x i"
      using d(6) [of i x] that(2) by (simp add: agree_sym)
    then show ?thesis using keys [OF that(1)] same [OF that(2)] by (auto intro: agree_trans)
  qed
  have sel: "globalDepth t' = globalDepth t" "buckets t' = buckets t" "bucketNum t' = bucketNum t"
    "length (eh_store t') = length (eh_store t)" by (simp_all add: t'_def)
  have "finite (Mapping.keys (kmap (bucket_of t' i)))" for i using d(5) fin by (simp add: b)
  moreover have "agree (localDepth (bucket_of t i)) (unat (H k)) i"
    if "k \<in> Mapping.keys (kmap (bucket_of t' i))" for i k
    using that d(7) kx by (auto simp: b split: if_splits)
  ultimately show "eh_inv H t'"
    unfolding eh_inv_def e ld sel using d(1-4,6,8) by blast
qed

section \<open>Splitting\<close>

lemma double_nth:
  assumes "length xs = 2 ^ g"
  shows "(xs @ xs) ! take_bit (Suc g) i = xs ! take_bit g (i :: nat)"
proof -
  have "take_bit (Suc g) i = 2 ^ g * of_bool (bit i g) + take_bit g i" by (rule take_bit_Suc_from_most)
  then show ?thesis using assms take_bit_nat_less_exp [of g i] by (simp add: nth_append)
qed

lemma eh_split_ok:
  fixes H :: "'k \<Rightarrow> u64" and t :: "('k, 'v) ext_hash"
  assumes inv: "eh_inv H t" and ld: "localDepth (bucket_of t x) < 30"
  obtains t' where "eh_split H t (entry t x) (bucket_of t x) = Inr t'" "eh_inv H t'" "eh_map H t' = eh_map H t"
    "localDepth (bucket_of t' x) = Suc (localDepth (bucket_of t x))" "bucketSize t' = bucketSize t"
proof -
  note d = eh_invD [OF inv]
  let ?cur = "bucket_of t x" and ?b = "entry t x" and ?ld = "localDepth (bucket_of t x)" and ?n = "length (eh_store t)"
  let ?double = "globalDepth t < Suc ?ld"
  let ?g = "globalDepth t + (if ?double then 1 else 0)"
  let ?dir = "if ?double then buckets t @ buckets t else buckets t"
  let ?part = "\<lambda>P. \<lparr>localDepth = Suc ?ld, kmap = Mapping.filter (\<lambda>k _. P (bit (unat (H k)) ?ld)) (kmap ?cur)\<rparr>"
  define t' where "t' = t\<lparr>globalDepth := ?g, bucketNum := bucketNum t + 1,
    buckets := map (\<lambda>i. if ?dir ! i = ?b \<and> i AND 2 ^ ?ld \<noteq> 0 then ?n else ?dir ! i) [0..<length ?dir],
    eh_store := (eh_store t)[?b := ?part Not] @ [?part id]\<rparr>"
  have shl: "shl1 ?ld = Inr (2 ^ ?ld)" using ld by (simp add: shl1_def)
  have run: "eh_split H t ?b ?cur = Inr t'"
    unfolding t'_def eh_split_def shl
    by (simp only: bindE_Inr Let_def hash_bit not_not Suc_eq_plus1 id_apply)
  have g: "?ld < ?g" "?g \<le> 30" "length ?dir = 2 ^ ?g" using d(1,2) d(4) [of x] ld by auto
  have dir: "?dir ! take_bit ?g i = entry t i" for i
    using double_nth [OF d(2), of i] by (simp add: entry_def)
  have e: "entry t' i = (if entry t i = ?b \<and> bit i ?ld then ?n else entry t i)" for i
  proof -
    have "take_bit ?g i < 2 ^ ?g" by simp
    moreover have "take_bit ?g i AND 2 ^ ?ld \<noteq> 0 \<longleftrightarrow> bit i ?ld"
      using g(1) by (simp only: and_exp_eq_0_iff_not_bit bit_take_bit_iff simp_thms)
    ultimately show ?thesis
      using g(3) dir [of i] unfolding entry_def [of t'] by (simp add: t'_def del: take_bit_nat_less_exp)
  qed
  have b: "bucket_of t' i = (if entry t i = ?b then ?part (if bit i ?ld then id else Not) else bucket_of t i)" for i
    using d(3) [of i] by (auto simp: bucket_of_def e) (auto simp: t'_def nth_append bucket_of_def)
  have same: "bucket_of t i = ?cur" if "entry t i = ?b" for i using that by (simp add: bucket_of_def)
  have ne: "entry t i \<noteq> ?n" for i using d(3) [of i] by simp
  have ldi: "localDepth (bucket_of t' i) = (if entry t i = ?b then Suc ?ld else localDepth (bucket_of t i))" for i
    by (simp add: b)
  have "entry t' i = entry t' j \<longleftrightarrow> agree (localDepth (bucket_of t' i)) i j" for i j
  proof (cases "entry t i = ?b")
    case True
    then have "entry t j = ?b \<longleftrightarrow> agree ?ld i j" using d(6) [of i j] same [OF True] by auto
    then show ?thesis using True ne [of i] ne [of j] by (auto simp: e ldi agree_Suc)
  next
    case False
    then show ?thesis using d(6) [of i j] ne [of i] ne [of j] by (auto simp: e ldi)
  qed
  moreover have "finite (Mapping.keys (kmap (bucket_of t' i)))" for i
    using d(5) by (auto simp: b intro: finite_subset [OF Mapping.keys_filter])
  moreover have "agree (localDepth (bucket_of t' i)) (unat (H k)) i"
    if k: "k \<in> Mapping.keys (kmap (bucket_of t' i))" for i k
  proof (cases "entry t i = ?b")
    case True
    then have "Mapping.lookup (kmap ?cur) k \<noteq> None" "bit (unat (H k)) ?ld \<longleftrightarrow> bit i ?ld"
      using k by (auto simp: b Mapping.keys_is_none_rep lookup_filter split: option.splits if_splits)
    then show ?thesis using d(7) [of k i] True same [OF True] by (auto simp: ldi agree_Suc keys_dom_lookup)
  qed (use k d(7) in \<open>simp add: b\<close>)
  moreover have "length (buckets t') = 2 ^ ?g" "globalDepth t' = ?g" "bucketNum t' = length (eh_store t')"
    using g(3) d(8) by (simp_all add: t'_def)
  moreover have "entry t' i < length (eh_store t')" for i using d(3) [of i] by (simp add: e) (simp add: t'_def)
  moreover have "localDepth (bucket_of t' i) \<le> ?g" for i using g(1) d(4) [of i] by (auto simp: ldi)
  ultimately have "eh_inv H t'" using g(2) unfolding eh_inv_def by auto
  moreover have "eh_map H t' k = eh_map H t k" for k
    using same [of "unat (H k)"] by (auto simp: eh_map_def b lookup_filter split: option.splits)
  moreover have "localDepth (bucket_of t' x) = Suc ?ld" "bucketSize t' = bucketSize t"
    by (simp_all add: ldi) (simp add: t'_def)
  ultimately show thesis using run by (intro that [of t']) blast+
qed

section \<open>The operations on the map\<close>

lemma eh_Find_ok:
  assumes "eh_inv H t"
  shows "eh_Find H t k = Inr (eh_map H t k)"
  using eh_invD(1) [OF assms] eh_bucket_at_ok [OF assms]
  by (simp add: eh_Find_def getIdx_ok eh_map_def)

lemma same_entry_bucket: "entry t i = entry t j \<Longrightarrow> bucket_of t i = bucket_of t j"
  by (simp add: bucket_of_def)

lemma eh_Remove_ok:
  assumes inv: "eh_inv H t"
  shows "\<exists>t'. eh_Remove H t k = Inr (eh_map H t k \<noteq> None, t') \<and> eh_inv H t' \<and> eh_map H t' = (eh_map H t)(k := None) \<and>
    bucketSize t' = bucketSize t"
proof (cases "eh_map H t k = None")
  case True
  then have "(eh_map H t)(k := None) = eh_map H t" by auto
  then show ?thesis
    using True inv eh_invD(1) [OF inv] eh_bucket_at_ok [OF inv] by (auto simp: eh_Remove_def getIdx_ok eh_map_def)
next
  case False
  let ?x = "unat (H k)"
  let ?M = "Mapping.delete k (kmap (bucket_of t ?x))"
  let ?t = "t\<lparr>eh_store := (eh_store t)[entry t ?x := (bucket_of t ?x)\<lparr>kmap := ?M\<rparr>]\<rparr>"
  have M: "finite (Mapping.keys ?M)"
    "\<And>k. k \<in> Mapping.keys ?M \<Longrightarrow> agree (localDepth (bucket_of t ?x)) (unat (H k)) ?x"
    using eh_invD(5,7) [OF inv] by auto
  have "eh_map H ?t k' = ((eh_map H t)(k := None)) k'" for k'
    using same_entry_bucket [of t "unat (H k')" ?x] put_bucket(2) [OF inv M, of k']
    by (cases "k' = k") (auto simp: eh_map_def)
  moreover have "eh_Remove H t k = Inr (True, ?t)"
    using False eh_invD(1) [OF inv] eh_bucket_at_ok [OF inv] by (simp add: eh_Remove_def getIdx_ok eh_map_def)
  ultimately show ?thesis using put_bucket(1) [OF inv M] False by auto
qed

lemma eh_put_ok:
  fixes H :: "'k \<Rightarrow> u64" and k :: 'k and v :: 'v and t :: "('k, 'v) ext_hash"
  assumes inv: "eh_inv H t"
  defines "x \<equiv> unat (H k)"
  defines "t' \<equiv> t\<lparr>eh_store := (eh_store t)[entry t x := (bucket_of t x)\<lparr>kmap := Mapping.update k v (kmap (bucket_of t x))\<rparr>]\<rparr>"
  shows "eh_inv H t'" "eh_map H t' = (eh_map H t)(k \<mapsto> v)"
proof -
  let ?M = "Mapping.update k v (kmap (bucket_of t x))"
  have M: "finite (Mapping.keys ?M)"
    "\<And>k. k \<in> Mapping.keys ?M \<Longrightarrow> agree (localDepth (bucket_of t x)) (unat (H k)) x"
    using eh_invD(5,7) [OF inv] by (auto simp: x_def agree_def)
  show "eh_inv H t'" unfolding t'_def by (rule put_bucket(1) [OF inv M])
  have "eh_map H t' k' = ((eh_map H t)(k \<mapsto> v)) k'" for k'
    using same_entry_bucket [of t "unat (H k')" x] put_bucket(2) [OF inv M, of k']
    by (cases "k' = k") (auto simp: t'_def eh_map_def x_def)
  then show "eh_map H t' = (eh_map H t)(k \<mapsto> v)" by blast
qed

text \<open>The keys whose hash agrees with that of \<open>k\<close> in the 30 low bits.\<close>

definition colliding :: "('k \<Rightarrow> u64) \<Rightarrow> ('k, 'v) ext_hash \<Rightarrow> 'k \<Rightarrow> 'k set" where
  "colliding H t k = {k' \<in> dom (eh_map H t). agree 30 (unat (H k')) (unat (H k))}"

lemma bucket_keys_dom:
  assumes inv: "eh_inv H t" and k': "k' \<in> Mapping.keys (kmap (bucket_of t i))"
  shows "k' \<in> dom (eh_map H t)"
proof -
  have "entry t (unat (H k')) = entry t i"
    using eh_invD(7) [OF inv k'] eh_invD(6) [OF inv, of i "unat (H k')"] by (simp add: agree_sym)
  then show ?thesis using k' same_entry_bucket by (fastforce simp: eh_map_def keys_dom_lookup)
qed

lemma finite_dom_eh_map:
  assumes inv: "eh_inv H t"
  shows "finite (dom (eh_map H t))"
proof (rule finite_subset)
  show "dom (eh_map H t) \<subseteq> (\<Union>i<2 ^ globalDepth t. Mapping.keys (kmap (bucket_of t i)))"
  proof
    fix k assume "k \<in> dom (eh_map H t)"
    then have "k \<in> Mapping.keys (kmap (bucket_of t (take_bit (globalDepth t) (unat (H k)))))"
      by (simp add: eh_map_def keys_dom_lookup bucket_of_def entry_def domIff)
    then show "k \<in> (\<Union>i<2 ^ globalDepth t. Mapping.keys (kmap (bucket_of t i)))"
      using take_bit_nat_less_exp [of "globalDepth t" "unat (H k)"] by blast
  qed
qed (use eh_invD(5) [OF inv] in simp)

lemma eh_insert_loop_ok:
  assumes "eh_inv H t" "30 - localDepth (bucket_of t (unat (H k))) < fuel"
    and "eh_map H t k \<noteq> None \<or> card (colliding H t k) < bucketSize t"
  shows "\<exists>t'. eh_insert_loop fuel H t k v (take_bit (globalDepth t) (unat (H k))) = Inr t' \<and>
    eh_inv H t' \<and> eh_map H t' = (eh_map H t)(k \<mapsto> v) \<and> bucketSize t' = bucketSize t"
  using assms
proof (induction fuel arbitrary: t)
  case 0
  then show ?case by simp
next
  case (Suc fuel)
  let ?x = "unat (H k)"
  let ?cur = "bucket_of t ?x"
  note inv = Suc.prems(1)
  note at = eh_bucket_at_ok [OF inv, of ?x]
  show ?case
  proof (cases "Mapping.lookup (kmap ?cur) k \<noteq> None \<or> Mapping.size (kmap ?cur) < bucketSize t")
    case True
    then show ?thesis using at eh_put_ok [OF inv, of k v] by auto
  next
    case False
    then have no: "eh_map H t k = None" "card (colliding H t k) < Mapping.size (kmap ?cur)"
      using Suc.prems(3) by (auto simp: eh_map_def)
    have ld: "localDepth ?cur < 30"
    proof (rule ccontr)
      assume "\<not> localDepth ?cur < 30"
      then have "Mapping.keys (kmap ?cur) \<subseteq> colliding H t k"
        using eh_invD(7) [OF inv, of _ ?x] bucket_keys_dom [OF inv, of _ ?x] agree_mono
        by (fastforce simp: colliding_def)
      moreover have "finite (colliding H t k)" using finite_dom_eh_map [OF inv] by (simp add: colliding_def)
      ultimately have "Mapping.size (kmap ?cur) \<le> card (colliding H t k)"
        using eh_invD(5) [OF inv, of ?x] by (simp add: Mapping.size_def card_mono)
      then show False using no(2) by simp
    qed
    obtain t1 where t1: "eh_split H t (entry t ?x) ?cur = Inr t1" "eh_inv H t1" "eh_map H t1 = eh_map H t"
      "localDepth (bucket_of t1 ?x) = Suc (localDepth ?cur)" "bucketSize t1 = bucketSize t"
      by (rule eh_split_ok [OF inv ld])
    have "colliding H t1 k = colliding H t k" by (simp add: colliding_def t1(3))
    then have "eh_map H t1 k \<noteq> None \<or> card (colliding H t1 k) < bucketSize t1"
      using Suc.prems(3) by (simp add: t1(3,5))
    moreover have "30 - localDepth (bucket_of t1 ?x) < fuel" using Suc.prems(2) ld by (simp add: t1(4))
    ultimately have "\<exists>t'. eh_insert_loop fuel H t1 k v (take_bit (globalDepth t1) ?x) = Inr t' \<and>
      eh_inv H t' \<and> eh_map H t' = (eh_map H t1)(k \<mapsto> v) \<and> bucketSize t' = bucketSize t1"
      using Suc.IH [OF t1(2)] by blast
    note ih = this [unfolded t1(3,5)]
    have "eh_insert_loop (Suc fuel) H t k v (take_bit (globalDepth t) ?x) =
        eh_insert_loop fuel H t1 k v (take_bit (globalDepth t1) ?x)"
      using False at t1(1) getIdx_ok [OF eh_invD(1) [OF t1(2)], of H k] by simp
    with ih show ?thesis by (simp only:)
  qed
qed

section \<open>Properties\<close>

text \<open>C25: the extendible hash table is a finite map.  \<open>Find\<close> returns the value stored for the key, \<open>Remove\<close> reports
  whether the key was there and removes it, and \<open>Insert\<close>, through any number of splits of buckets and
  doublings of the directory, stores the value and changes no other key, provided fewer keys than a
  bucket holds agree with the new one in the 30 low bits of their hash.\<close>

theorem ExtendibleHash_is_map:
  assumes inv: "eh_inv H t"
    and room: "k \<in> dom (eh_map H t) \<or> card {k' \<in> dom (eh_map H t). take_bit 30 (H k') = take_bit 30 (H k)} < bucketSize t"
  shows "eh_Find H t k = Inr (eh_map H t k) \<and>
    (\<exists>t'. eh_Remove H t k = Inr (k \<in> dom (eh_map H t), t') \<and> eh_inv H t' \<and> eh_map H t' = (eh_map H t)(k := None)) \<and>
    (\<exists>t'. eh_Insert H t k v = Inr t' \<and> eh_inv H t' \<and> eh_map H t' = (eh_map H t)(k \<mapsto> v) \<and> bucketSize t' = bucketSize t)"
proof (intro conjI)
  have "take_bit 30 (H k') = take_bit 30 (H k) \<longleftrightarrow> agree 30 (unat (H k')) (unat (H k))" for k'
    unfolding agree_def unsigned_take_bit_eq [symmetric] by (simp add: word_unat_eq_iff)
  then have "eh_map H t k \<noteq> None \<or> card (colliding H t k) < bucketSize t"
    using room by (auto simp: colliding_def)
  moreover have "30 - localDepth (bucket_of t (unat (H k))) < 32" by arith
  ultimately show "\<exists>t'. eh_Insert H t k v = Inr t' \<and> eh_inv H t' \<and> eh_map H t' = (eh_map H t)(k \<mapsto> v) \<and> bucketSize t' = bucketSize t"
    using eh_insert_loop_ok [OF inv, of k 32 v] getIdx_ok [OF eh_invD(1) [OF inv], of H k] by (auto simp: eh_Insert_def)
  show "eh_Find H t k = Inr (eh_map H t k)" by (rule eh_Find_ok [OF inv])
  show "\<exists>t'. eh_Remove H t k = Inr (k \<in> dom (eh_map H t), t') \<and> eh_inv H t' \<and> eh_map H t' = (eh_map H t)(k := None)"
    using eh_Remove_ok [OF inv, of k] by (auto simp: domIff)
qed

text \<open>A table of one bucket with room for one key, and a hash that keeps two keys apart in the second bit.\<close>

lemma eh_new_inv: "eh_inv H (eh_new n)" "eh_map H (eh_new n) = Map.empty"
  by (auto simp: eh_inv_def eh_new_def entry_def bucket_of_def agree_def eh_map_def)

lemma ExtendibleHash_is_map_witness:
  "\<exists>t1 t2. eh_Insert of_nat (eh_new 1) (1 :: nat) ''a'' = Inr t1 \<and> eh_Insert of_nat t1 3 ''b'' = Inr t2 \<and>
     eh_Find of_nat t2 1 = Inr (Some ''a'') \<and> eh_Find of_nat t2 3 = Inr (Some ''b'')"
proof -
  let ?H = "of_nat :: nat \<Rightarrow> u64" and ?t0 = "eh_new 1 :: (nat, string) ext_hash"
  have 0: "eh_inv ?H ?t0" "eh_map ?H ?t0 = Map.empty" "bucketSize ?t0 = 1" by (rule eh_new_inv)+ (simp add: eh_new_def)
  obtain t1 where t1: "eh_Insert ?H ?t0 1 ''a'' = Inr t1" "eh_inv ?H t1" "eh_map ?H t1 = [1 \<mapsto> ''a'']" "bucketSize t1 = 1"
    using ExtendibleHash_is_map [OF 0(1), of 1 "''a''"] 0(2,3) by auto
  have "{k \<in> {1}. take_bit 30 (?H k) = take_bit 30 (?H 3)} = {}" by (auto simp: take_bit_eq_mod)
  then obtain t2 where t2: "eh_Insert ?H t1 3 ''b'' = Inr t2" "eh_inv ?H t2" "eh_map ?H t2 = [1 \<mapsto> ''a'', 3 \<mapsto> ''b'']"
    using ExtendibleHash_is_map [OF t1(2), of 3 "''b''"] t1(3,4) by auto
  have "eh_Find ?H t2 k = Inr (eh_map ?H t2 k)" if "k \<in> {1, 3}" for k
    using ExtendibleHash_is_map [OF t2(2), of k "''c''"] t2(3) that by auto
  then show ?thesis using t1(1) t2(1,3) by auto
qed

text \<open>The constructor without arguments leaves a table that cannot be used: looking up any key reads past
  the end of the empty directory.\<close>

lemma eh_default_unusable: "depth < 31 \<Longrightarrow> eh_Find H (eh_default depth n num) k = Inl OutOfBounds"
  by (simp add: eh_Find_def getIdx_def shl1_def eh_default_def eh_bucket_at_def arr_get_def)

end
