(* ===== verification/RWLocks.thy ===== *)
theory RWLocks
  imports Prelude
begin

text \<open>
  The reader-writer locks (\<^verbatim>\<open>include/rw_lock.h\<close>, \<^verbatim>\<open>include/rwmutex.h\<close>).  Any number of threads run
  lock and unlock operations; a thread is its program counter, and a step of the system is one atomic
  action of one thread.  The locale \<open>rw_protocol\<close> states what a lock promises; it is interpreted on the
  spinning lock, the lock with a condition variable, and the mutex with two of them.
\<close>

section \<open>Threads\<close>

text \<open>\<open>nxt i l p\<close> lists what thread \<open>i\<close> at \<open>p\<close> can do: the state of the lock and its next place.\<close>

type_synonym ('l, 'p) thread_code = "nat \<Rightarrow> 'l \<Rightarrow> 'p \<Rightarrow> ('l \<times> 'p) list"

inductive thread_step :: "('l, 'p) thread_code \<Rightarrow> 'l \<times> 'p list \<Rightarrow> 'l \<times> 'p list \<Rightarrow> bool" for nxt where
  act: "i < length ps \<Longrightarrow> (l', p') \<in> set (nxt i l (ps ! i)) \<Longrightarrow> thread_step nxt (l, ps) (l', ps[i := p'])"

inductive_cases thread_stepE: "thread_step nxt (l, ps) s"

definition cnt :: "('p \<Rightarrow> bool) \<Rightarrow> 'p list \<Rightarrow> nat" where
  "cnt P ps = length (filter P ps)"

lemma cnt_update:
  "i < length ps \<Longrightarrow> cnt P (ps[i := q]) + of_bool (P (ps ! i)) = cnt P ps + of_bool (P q)"
proof (induction ps arbitrary: i)
  case (Cons p ps)
  show ?case
  proof (cases i)
    case (Suc j)
    then have "cnt P (ps[j := q]) + of_bool (P (ps ! j)) = cnt P ps + of_bool (P q)" using Cons by simp
    then show ?thesis using Suc by (simp add: cnt_def)
  qed (simp add: cnt_def)
qed simp

lemma cnt_le: "cnt P ps \<le> length ps"
  by (simp add: cnt_def)

lemma cnt_mono: "(\<And>p. P p \<Longrightarrow> Q p) \<Longrightarrow> cnt P ps \<le> cnt Q ps"
  unfolding cnt_def by (induction ps) auto

lemma cnt_0_iff: "cnt P ps = 0 \<longleftrightarrow> (\<forall>i<length ps. \<not> P (ps ! i))"
  by (simp add: cnt_def filter_empty_conv all_set_conv_all_nth)

lemma cnt_pos: "i < length ps \<Longrightarrow> P (ps ! i) \<Longrightarrow> 0 < cnt P ps"
  using cnt_0_iff [of P ps] by auto

lemma cnt_replicate: "\<not> P p \<Longrightarrow> cnt P (replicate n p) = 0"
  by (simp add: cnt_def)

lemma cnt_unique:
  assumes "cnt P ps \<le> 1" "i < length ps" "j < length ps" "P (ps ! i)" "P (ps ! j)"
  shows "i = j"
proof -
  have "card {i. i < length ps \<and> P (ps ! i)} \<le> Suc 0"
    using assms(1) by (simp add: cnt_def length_filter_conv_card)
  then show ?thesis using assms(2-) by (subst (asm) card_le_Suc0_iff_eq) auto
qed

section \<open>What a lock promises\<close>

text \<open>
  \<open>bound\<close> is the number of threads its counters can take.  While a thread is in a writing section
  no other thread is in a reading or a writing one.
\<close>

locale rw_protocol =
  fixes nxt :: "('l, 'p) thread_code" and init :: 'l and idle :: 'p
    and reads writes :: "'p \<Rightarrow> bool" and inv :: "'l \<Rightarrow> 'p list \<Rightarrow> bool" and bound :: nat
  assumes inv_init: "inv init (replicate n idle)"
    and inv_step: "inv l ps \<Longrightarrow> length ps < bound \<Longrightarrow> i < length ps \<Longrightarrow> (l', p') \<in> set (nxt i l (ps ! i)) \<Longrightarrow>
      inv l' (ps[i := p'])"
    and inv_excl: "inv l ps \<Longrightarrow> i < length ps \<Longrightarrow> j < length ps \<Longrightarrow> i \<noteq> j \<Longrightarrow> writes (ps ! i) \<Longrightarrow>
      \<not> reads (ps ! j) \<and> \<not> writes (ps ! j)"
begin

lemma reachable_inv:
  assumes "(thread_step nxt)\<^sup>*\<^sup>* (init, replicate n idle) (l, ps)" "n < bound"
  shows "inv l ps \<and> length ps = n"
  using assms
proof (induction "(l, ps)" arbitrary: l ps rule: rtranclp_induct)
  case base
  then show ?case using inv_init by simp
next
  case (step s)
  then show ?case using inv_step by (cases s) (auto elim!: thread_stepE)
qed

lemma exclusive:
  assumes "(thread_step nxt)\<^sup>*\<^sup>* (init, replicate n idle) (l, ps)" "n < bound"
    and "i < n" "j < n" "i \<noteq> j" "writes (ps ! i)"
  shows "\<not> reads (ps ! j) \<and> \<not> writes (ps ! j)"
  using reachable_inv [OF assms(1,2)] inv_excl [of l ps i j] assms(3-) by simp

end

section \<open>SpinningRWLock\<close>

record spin_lock =
  n_readers :: u64
  writing :: bool

definition spin_init :: spin_lock where
  "spin_init = \<lparr>n_readers = 0, writing = False\<rparr>"

text \<open>
  Where a thread can be: outside; in \<open>ReadLock\<close> before the increment, before the test, before the
  decrement, and in the waiting loop; in a reading section; in \<open>WriteLock\<close> before the exchange
  and in the loop that waits for the readers; in a writing section.
\<close>

datatype spin_pc = Outside | R_Add | R_Test | R_Sub | R_Spin | R_In | W_Cas | W_Drain | W_In

fun spin_next :: "(spin_lock, spin_pc) thread_code" where
  "spin_next i l Outside = [(l, R_Add), (l, W_Cas)]"
| "spin_next i l R_Add = [(l\<lparr>n_readers := n_readers l + 1\<rparr>, R_Test)]"
| "spin_next i l R_Test = [(l, if \<not> writing l then R_In else R_Sub)]"
| "spin_next i l R_Sub = [(l\<lparr>n_readers := n_readers l - 1\<rparr>, R_Spin)]"
| "spin_next i l R_Spin = [(l, if writing l then R_Spin else R_Add)]"
| "spin_next i l R_In = [(l\<lparr>n_readers := n_readers l - 1\<rparr>, Outside)]"
| "spin_next i l W_Cas = [if writing l then (l, W_Cas) else (l\<lparr>writing := True\<rparr>, W_Drain)]"
| "spin_next i l W_Drain = [(l, if n_readers l \<noteq> 0 then W_Drain else W_In)]"
| "spin_next i l W_In = [(l\<lparr>writing := False\<rparr>, Outside)]"

definition spin_inv :: "spin_lock \<Rightarrow> spin_pc list \<Rightarrow> bool" where
  "spin_inv l ps \<longleftrightarrow> unat (n_readers l) = cnt (\<lambda>p. p \<in> {R_Test, R_Sub, R_In}) ps \<and>
     of_bool (writing l) = cnt (\<lambda>p. p \<in> {W_Drain, W_In}) ps \<and>
     (0 < cnt (\<lambda>p. p = W_In) ps \<longrightarrow> cnt (\<lambda>p. p = R_In) ps = 0)"

lemma unat_succ: "unat (w :: 'a::len word) + 1 < 2 ^ LENGTH('a) \<Longrightarrow> unat (w + 1) = unat w + 1"
  by (simp add: unat_word_ariths)

lemma unat_dec: "0 < unat (w :: 'a::len word) \<Longrightarrow> unat (w - 1) = unat w - 1"
  by (metis unat_eq_zero unat_minus_one less_not_refl)

lemma spin_inv_step:
  assumes inv: "spin_inv l ps" and n: "length ps < 2 ^ 64" and i: "i < length ps"
    and st: "(l', p') \<in> set (spin_next i l (ps ! i))"
  shows "spin_inv l' (ps[i := p'])"
proof -
  let ?R = "\<lambda>p. p \<in> {R_Test, R_Sub, R_In}" and ?W = "\<lambda>p. p \<in> {W_Drain, W_In}"
  note u = cnt_update [OF i, of ?R p'] cnt_update [OF i, of ?W p']
    cnt_update [OF i, of "\<lambda>p. p = W_In" p'] cnt_update [OF i, of "\<lambda>p. p = R_In" p']
  have le: "cnt (\<lambda>p. p = W_In) ps \<le> cnt ?W ps" "cnt (\<lambda>p. p = R_In) ps \<le> cnt ?R ps"
    by (rule cnt_mono; simp)+
  have lt: "cnt ?R ps < length ps" if "\<not> ?R (ps ! i)"
    using u(1) that cnt_le [of ?R "ps[i := R_Test]"] cnt_update [OF i, of ?R R_Test] by simp
  have inc: "unat (n_readers l + 1) = cnt ?R ps + 1" if "\<not> ?R (ps ! i)"
    using lt [OF that] n inv unat_succ [of "n_readers l"] by (simp add: spin_inv_def)
  have dec: "unat (n_readers l - 1) = cnt ?R ps - 1" "0 < cnt ?R ps" if "?R (ps ! i)"
    using inv cnt_pos [OF i, of ?R] that unat_dec [of "n_readers l"] by (auto simp: spin_inv_def)
  show ?thesis
  proof (cases "ps ! i")
    case R_Add
    then show ?thesis using st inv u inc by (auto simp: spin_inv_def)
  next
    case R_Sub
    then show ?thesis using st inv u dec by (auto simp: spin_inv_def)
  next
    case R_In
    then show ?thesis using st inv u dec by (auto simp: spin_inv_def)
  next
    case R_Test
    then show ?thesis using st inv u le by (auto simp: spin_inv_def)
  next
    case W_Drain
    then show ?thesis using st inv u le by (auto simp: spin_inv_def unat_eq_0)
  next
    case W_Cas
    then show ?thesis using st inv u le by (auto simp: spin_inv_def split: if_splits)
  next
    case W_In
    then show ?thesis using st inv u le by (cases "writing l") (auto simp: spin_inv_def)
  qed (use st inv u in \<open>auto simp: spin_inv_def\<close>)
qed

interpretation spin: rw_protocol spin_next spin_init Outside "\<lambda>p. p = R_In" "\<lambda>p. p = W_In" spin_inv "2 ^ 64"
proof unfold_locales
  show "spin_inv spin_init (replicate n Outside)" for n
    by (simp add: spin_inv_def spin_init_def cnt_replicate)
  fix l ps i j
  assume inv: "spin_inv l ps" and ij: "i < length ps" "j < length ps" "i \<noteq> j" "ps ! i = W_In"
  have w: "0 < cnt (\<lambda>p. p = W_In) ps" using cnt_pos [OF ij(1), of "\<lambda>p. p = W_In"] ij(4) by simp
  have "cnt (\<lambda>p. p = W_In) ps \<le> cnt (\<lambda>p. p \<in> {W_Drain, W_In}) ps" by (rule cnt_mono) simp
  also have "\<dots> \<le> 1" using inv by (cases "writing l") (auto simp: spin_inv_def)
  finally have "ps ! j \<noteq> W_In" using cnt_unique [OF _ ij(1,2), of "\<lambda>p. p = W_In"] ij(3,4) by auto
  moreover have "ps ! j \<noteq> R_In" using inv w cnt_0_iff [of "\<lambda>p. p = R_In" ps] ij(2) by (simp add: spin_inv_def)
  ultimately show "ps ! j \<noteq> R_In \<and> ps ! j \<noteq> W_In" by simp
qed (rule spin_inv_step)

section \<open>RWLock\<close>

text \<open>
  The bodies run under the mutex, so each is one action; waiting on the condition variable puts the
  thread in the list of waiting ones and frees the mutex.  A waiting thread may also wake without
  being notified.
\<close>

record cv_lock =
  rl_n_readers :: u64
  rl_writing :: bool
  cv_waiting :: "nat list"

definition cv_init :: cv_lock where
  "cv_init = \<lparr>rl_n_readers = 0, rl_writing = False, cv_waiting = []\<rparr>"

datatype cv_pc = CV_Outside | CR_Try | CR_Sleep | CR_In | CW_Try | CW_Sleep | CW_In

fun cv_next :: "(cv_lock, cv_pc) thread_code" where
  "cv_next i l CV_Outside = [(l, CR_Try), (l, CW_Try)]"
| "cv_next i l CR_Try =
     [if \<not> rl_writing l then (l\<lparr>rl_n_readers := rl_n_readers l + 1\<rparr>, CR_In)
      else (l\<lparr>cv_waiting := i # cv_waiting l\<rparr>, CR_Sleep)]"
| "cv_next i l CR_Sleep = [(l\<lparr>cv_waiting := removeAll i (cv_waiting l)\<rparr>, CR_Try)]"
| "cv_next i l CW_Try =
     [if rl_n_readers l = 0 \<and> \<not> rl_writing l then (l\<lparr>rl_writing := True\<rparr>, CW_In)
      else (l\<lparr>cv_waiting := i # cv_waiting l\<rparr>, CW_Sleep)]"
| "cv_next i l CW_Sleep = [(l\<lparr>cv_waiting := removeAll i (cv_waiting l)\<rparr>, CW_Try)]"
| "cv_next i l CR_In = [(l\<lparr>rl_n_readers := rl_n_readers l - 1, cv_waiting := []\<rparr>, CV_Outside)]"
| "cv_next i l CW_In = [(l\<lparr>rl_writing := False, cv_waiting := []\<rparr>, CV_Outside)]"

definition cv_blocked :: "cv_lock \<Rightarrow> cv_pc \<Rightarrow> bool" where
  "cv_blocked l p \<longleftrightarrow> p = CR_Sleep \<and> rl_writing l \<or> p = CW_Sleep \<and> (rl_writing l \<or> rl_n_readers l \<noteq> 0)"

text \<open>A thread that waits has a reason to.\<close>

definition cv_inv :: "cv_lock \<Rightarrow> cv_pc list \<Rightarrow> bool" where
  "cv_inv l ps \<longleftrightarrow> unat (rl_n_readers l) = cnt (\<lambda>p. p = CR_In) ps \<and> of_bool (rl_writing l) = cnt (\<lambda>p. p = CW_In) ps \<and>
     (rl_writing l \<longrightarrow> rl_n_readers l = 0) \<and>
     (\<forall>j\<in>set (cv_waiting l). j < length ps \<and> cv_blocked l (ps ! j))"

lemma cv_inv_step:
  assumes inv: "cv_inv l ps" and n: "length ps < 2 ^ 64" and i: "i < length ps"
    and st: "(l', p') \<in> set (cv_next i l (ps ! i))"
  shows "cv_inv l' (ps[i := p'])"
proof -
  note u = cnt_update [OF i, of "\<lambda>p. p = CR_In" p'] cnt_update [OF i, of "\<lambda>p. p = CW_In" p']
  have no: "i \<notin> set (cv_waiting l)" if "ps ! i \<noteq> CR_Sleep" "ps ! i \<noteq> CW_Sleep"
    using inv that by (auto simp: cv_inv_def cv_blocked_def)
  have up: "unat (rl_n_readers l + 1) = cnt (\<lambda>p. p = CR_In) ps + 1" "rl_n_readers l + 1 \<noteq> 0" if "ps ! i \<noteq> CR_In"
  proof -
    have "cnt (\<lambda>p. p = CR_In) ps + 1 = cnt (\<lambda>p. p = CR_In) (ps[i := CR_In])"
      using cnt_update [OF i, of "\<lambda>p. p = CR_In" CR_In] that by simp
    then have "unat (rl_n_readers l) + 1 < 2 ^ LENGTH(64)"
      using n inv cnt_le [of "\<lambda>p. p = CR_In" "ps[i := CR_In]"] by (simp add: cv_inv_def)
    then show "unat (rl_n_readers l + 1) = cnt (\<lambda>p. p = CR_In) ps + 1"
      using unat_succ [of "rl_n_readers l"] inv by (simp add: cv_inv_def)
    then show "rl_n_readers l + 1 \<noteq> 0" by auto
  qed
  have down: "unat (rl_n_readers l - 1) = cnt (\<lambda>p. p = CR_In) ps - 1" "0 < cnt (\<lambda>p. p = CR_In) ps" if "ps ! i = CR_In"
    using inv cnt_pos [OF i, of "\<lambda>p. p = CR_In"] that unat_dec [of "rl_n_readers l"] by (auto simp: cv_inv_def)
  show ?thesis
  proof (cases "ps ! i")
    case CR_Try
    then show ?thesis using st inv u up no i
      by (auto simp: cv_inv_def cv_blocked_def nth_list_update split: if_splits)
  next
    case CR_In
    then have "\<not> rl_writing l" using inv down by (auto simp: cv_inv_def)
    then show ?thesis using CR_In st inv u down by (auto simp: cv_inv_def)
  next
    case CW_Try
    then show ?thesis using st inv u no i
      by (auto simp: cv_inv_def cv_blocked_def nth_list_update split: if_splits)
  next
    case CW_In
    then show ?thesis using st inv u by (cases "rl_writing l") (auto simp: cv_inv_def)
  qed (use st inv u no i in \<open>auto simp: cv_inv_def cv_blocked_def nth_list_update\<close>)
qed

interpretation cv: rw_protocol cv_next cv_init CV_Outside "\<lambda>p. p = CR_In" "\<lambda>p. p = CW_In" cv_inv "2 ^ 64"
proof unfold_locales
  show "cv_inv cv_init (replicate n CV_Outside)" for n
    by (simp add: cv_inv_def cv_init_def cnt_replicate)
  fix l ps i j
  assume inv: "cv_inv l ps" and ij: "i < length ps" "j < length ps" "i \<noteq> j" "ps ! i = CW_In"
  have w: "rl_writing l" "cnt (\<lambda>p. p = CW_In) ps \<le> 1"
    using cnt_pos [OF ij(1), of "\<lambda>p. p = CW_In"] ij(4) inv by (cases "rl_writing l"; simp add: cv_inv_def)+
  then have "ps ! j \<noteq> CW_In" using cnt_unique [OF _ ij(1,2), of "\<lambda>p. p = CW_In"] ij(3,4) by auto
  moreover have "ps ! j \<noteq> CR_In" using inv w cnt_0_iff [of "\<lambda>p. p = CR_In" ps] ij(2) by (auto simp: cv_inv_def)
  ultimately show "ps ! j \<noteq> CR_In \<and> ps ! j \<noteq> CW_In" by simp
qed (rule cv_inv_step)

section \<open>RWMutex\<close>

text \<open>A writer first closes the door for all that come after it, and then waits for the readers to leave.\<close>

record rw_mutex =
  reader_count :: u32
  writer_entered :: bool
  reader_waiting :: "nat list"
  writer_waiting :: "nat list"

definition max_readers :: u32 where
  "max_readers = - 1"

definition mutex_init :: rw_mutex where
  "mutex_init = \<lparr>reader_count = 0, writer_entered = False, reader_waiting = [], writer_waiting = []\<rparr>"

datatype mutex_pc = M_Outside | MR_Try | MR_Sleep | MR_In | MW_Try | MW_Sleep | MW_Drain | MW_DSleep | MW_In

text \<open>The lists that \<open>notify_one\<close> can leave: one waiting thread, any, is woken.\<close>

definition notify_one :: "nat list \<Rightarrow> nat list list" where
  "notify_one ws = (if ws = [] then [[]] else map (\<lambda>w. removeAll w ws) ws)"

fun mutex_next :: "(rw_mutex, mutex_pc) thread_code" where
  "mutex_next i l M_Outside = [(l, MR_Try), (l, MW_Try)]"
| "mutex_next i l MW_Try =
     [if writer_entered l then (l\<lparr>reader_waiting := i # reader_waiting l\<rparr>, MW_Sleep)
      else if reader_count l > 0 then
        (l\<lparr>writer_entered := True, writer_waiting := i # writer_waiting l\<rparr>, MW_DSleep)
      else (l\<lparr>writer_entered := True\<rparr>, MW_In)]"
| "mutex_next i l MW_Sleep = [(l\<lparr>reader_waiting := removeAll i (reader_waiting l)\<rparr>, MW_Try)]"
| "mutex_next i l MW_DSleep = [(l\<lparr>writer_waiting := removeAll i (writer_waiting l)\<rparr>, MW_Drain)]"
| "mutex_next i l MW_Drain =
     [if reader_count l > 0 then (l\<lparr>writer_waiting := i # writer_waiting l\<rparr>, MW_DSleep) else (l, MW_In)]"
| "mutex_next i l MW_In = [(l\<lparr>writer_entered := False, reader_waiting := []\<rparr>, M_Outside)]"
| "mutex_next i l MR_Try =
     [if writer_entered l \<or> reader_count l = max_readers then
        (l\<lparr>reader_waiting := i # reader_waiting l\<rparr>, MR_Sleep)
      else (l\<lparr>reader_count := reader_count l + 1\<rparr>, MR_In)]"
| "mutex_next i l MR_Sleep = [(l\<lparr>reader_waiting := removeAll i (reader_waiting l)\<rparr>, MR_Try)]"
| "mutex_next i l MR_In =
     (let l = l\<lparr>reader_count := reader_count l - 1\<rparr> in
      if writer_entered l then
        if reader_count l = 0 then map (\<lambda>ws. (l\<lparr>writer_waiting := ws\<rparr>, M_Outside)) (notify_one (writer_waiting l))
        else [(l, M_Outside)]
      else if reader_count l = max_readers - 1 then
        map (\<lambda>ws. (l\<lparr>reader_waiting := ws\<rparr>, M_Outside)) (notify_one (reader_waiting l))
      else [(l, M_Outside)])"

abbreviation entered :: "mutex_pc \<Rightarrow> bool" where
  "entered p \<equiv> p \<in> {MW_Drain, MW_DSleep, MW_In}"

definition mutex_inv :: "rw_mutex \<Rightarrow> mutex_pc list \<Rightarrow> bool" where
  "mutex_inv l ps \<longleftrightarrow> unat (reader_count l) = cnt (\<lambda>p. p = MR_In) ps \<and> of_bool (writer_entered l) = cnt entered ps \<and>
     (0 < cnt (\<lambda>p. p = MW_In) ps \<longrightarrow> reader_count l = 0) \<and>
     (\<forall>j\<in>set (reader_waiting l). j < length ps \<and> ps ! j \<in> {MR_Sleep, MW_Sleep} \<and> writer_entered l) \<and>
     (\<forall>j\<in>set (writer_waiting l). j < length ps \<and> ps ! j = MW_DSleep \<and> reader_count l \<noteq> 0)"

lemma notify_one_singleton: "(\<And>x y. x \<in> set ws \<Longrightarrow> y \<in> set ws \<Longrightarrow> x = y) \<Longrightarrow> ws' \<in> set (notify_one ws) \<Longrightarrow> ws' = []"
  by (auto simp: notify_one_def removeAll_filter_not_eq filter_empty_conv split: if_splits)

lemma mutex_inv_step:
  assumes inv: "mutex_inv l ps" and n: "length ps < 2 ^ 32 - 1" and i: "i < length ps"
    and st: "(l', p') \<in> set (mutex_next i l (ps ! i))"
  shows "mutex_inv l' (ps[i := p'])"
proof -
  let ?R = "\<lambda>p. p = MR_In" and ?I = "\<lambda>p. p = MW_In"
  note u = cnt_update [OF i, of ?R p'] cnt_update [OF i, of entered p'] cnt_update [OF i, of ?I p']
  note d = inv [unfolded mutex_inv_def]
  have le: "cnt ?I ps \<le> cnt entered ps" by (rule cnt_mono) simp
  have no: "i \<notin> set (reader_waiting l)" if "ps ! i \<noteq> MR_Sleep" "ps ! i \<noteq> MW_Sleep" using d that by auto
  have no': "i \<notin> set (writer_waiting l)" if "ps ! i \<noteq> MW_DSleep" using d that by auto
  have lt: "unat (reader_count l) < 2 ^ 32 - 1"
    using d n cnt_le [of ?R ps] by simp
  then have max: "reader_count l \<noteq> max_readers" by (auto simp: max_readers_def unsigned_minus_1_eq_mask mask_eq_exp_minus_1)
  have up: "unat (reader_count l + 1) = cnt ?R ps + 1"
    using d lt unat_succ [of "reader_count l"] by simp
  have down: "unat (reader_count l - 1) = cnt ?R ps - 1" "0 < cnt ?R ps" if "ps ! i = MR_In"
    using d cnt_pos [OF i, of ?R] that unat_dec [of "reader_count l"] by auto
  have one: "j = k" if "j \<in> set (writer_waiting l)" "k \<in> set (writer_waiting l)" for j k
  proof -
    have "cnt entered ps \<le> 1" using d by (cases "writer_entered l") auto
    then show ?thesis using cnt_unique [of entered ps j k] d that by auto
  qed
  have ww: "writer_entered l" if ne: "writer_waiting l \<noteq> []"
  proof -
    obtain j where "j < length ps" "entered (ps ! j)" using ne d by (cases "writer_waiting l") auto
    then show ?thesis using d cnt_pos [of j ps entered] by (cases "writer_entered l") auto
  qed
  show ?thesis
  proof (cases "ps ! i")
    case MR_In
    have rc: "reader_count l - 1 \<noteq> max_readers - 1" using max by simp
    show ?thesis
    proof (cases "writer_entered l \<and> reader_count l - 1 = 0")
      case True
      then obtain ws where "ws \<in> set (notify_one (writer_waiting l))"
        "l' = l\<lparr>reader_count := reader_count l - 1, writer_waiting := ws\<rparr>" "p' = M_Outside"
        using st MR_In by (auto simp: Let_def)
      moreover from this have "ws = []" using one by (blast intro: notify_one_singleton)
      ultimately show ?thesis using d u down MR_In True no i
        by (auto simp: mutex_inv_def nth_list_update)
    next
      case False
      then have "l' = l\<lparr>reader_count := reader_count l - 1\<rparr>" "p' = M_Outside"
        using st MR_In rc by (auto simp: Let_def split: if_splits)
      then show ?thesis using False d u down MR_In no no' ww i
        by (cases "writer_entered l"; cases "writer_waiting l = []") (auto simp: mutex_inv_def nth_list_update)
    qed
  next
    case MR_Try
    then show ?thesis using st d u le up no no' ww max i
      by (auto simp: mutex_inv_def nth_list_update split: if_splits)
  next
    case MW_Try
    then show ?thesis using st d u le no no' i
      by (auto simp: mutex_inv_def nth_list_update word_gt_0 split: if_splits)
  next
    case MW_Drain
    then show ?thesis using st d u le no no' i
      by (auto simp: mutex_inv_def nth_list_update word_gt_0 split: if_splits)
  next
    case MW_In
    then show ?thesis using st d u le no no' ww i
      by (cases "writer_entered l") (auto simp: mutex_inv_def nth_list_update)
  qed (use st d u no no' i in \<open>auto simp: mutex_inv_def nth_list_update\<close>)
qed

interpretation mutex: rw_protocol mutex_next mutex_init M_Outside "\<lambda>p. p = MR_In" "\<lambda>p. p = MW_In" mutex_inv "2 ^ 32 - 1"
proof unfold_locales
  show "mutex_inv mutex_init (replicate n M_Outside)" for n
    by (simp add: mutex_inv_def mutex_init_def cnt_replicate)
  fix l ps i j
  assume inv: "mutex_inv l ps" and ij: "i < length ps" "j < length ps" "i \<noteq> j" "ps ! i = MW_In"
  have "cnt entered ps \<le> 1" using inv by (cases "writer_entered l") (auto simp: mutex_inv_def)
  then have "ps ! j \<noteq> MW_In" using cnt_unique [OF _ ij(1,2), of entered] ij(3,4) by auto
  moreover have "ps ! j \<noteq> MR_In"
    using inv cnt_pos [OF ij(1), of "\<lambda>p. p = MW_In"] cnt_0_iff [of "\<lambda>p. p = MR_In" ps] ij(2,4) by (auto simp: mutex_inv_def)
  ultimately show "ps ! j \<noteq> MR_In \<and> ps ! j \<noteq> MW_In" by simp
qed (rule mutex_inv_step)

section \<open>Properties\<close>

text \<open>C23: the spinning lock excludes.  However the atomic actions of the threads interleave, a thread in
  a writing section is alone: no other thread is in a writing or a reading one.\<close>

theorem SpinningRWLock_excludes:
  assumes run: "(thread_step spin_next)\<^sup>*\<^sup>* (spin_init, replicate n Outside) (l, ps)" and n: "n < 2 ^ 64"
    and ij: "i < n" "j < n" "i \<noteq> j" "ps ! i = W_In"
  shows "ps ! j \<noteq> R_In \<and> ps ! j \<noteq> W_In"
  by (rule spin.exclusive [OF run n ij])

text \<open>Two threads: the second tries to read while the first writes.\<close>

lemma run_act:
  assumes "(thread_step nxt)\<^sup>*\<^sup>* s (l, ps)" "i < length ps" "(l', p') \<in> set (nxt i l (ps ! i))"
  shows "(thread_step nxt)\<^sup>*\<^sup>* s (l', ps[i := p'])"
  using assms(1) act [of i ps l' p' nxt, OF assms(2,3)] by (rule rtranclp.rtrancl_into_rtrancl)

lemma SpinningRWLock_excludes_witness:
  "\<exists>l ps. (thread_step spin_next)\<^sup>*\<^sup>* (spin_init, [Outside, Outside]) (l, ps) \<and> ps ! 0 = W_In \<and> ps ! 1 \<noteq> R_In"
proof -
  let ?s = "(spin_init, [Outside, Outside])"
  have "(thread_step spin_next)\<^sup>*\<^sup>* ?s ?s" by simp
  note run_act [OF this, of 0 spin_init W_Cas]
  note run_act [OF this, of 0 "spin_init\<lparr>writing := True\<rparr>" W_Drain]
  note run_act [OF this, of 0 "spin_init\<lparr>writing := True\<rparr>" W_In]
  note run_act [OF this, of 1 "spin_init\<lparr>writing := True\<rparr>" R_Add]
  note run_act [OF this, of 1 "\<lparr>n_readers = 1, writing = True\<rparr>" R_Test]
  then have r: "(thread_step spin_next)\<^sup>*\<^sup>* (spin_init, replicate 2 Outside) (\<lparr>n_readers = 1, writing = True\<rparr>, [W_In, R_Test])"
    by (simp add: spin_init_def numeral_2_eq_2)
  show ?thesis
    using SpinningRWLock_excludes [OF r, of 0 1] r [unfolded numeral_2_eq_2 replicate.simps]
    by (intro exI [of _ "\<lparr>n_readers = 1, writing = True\<rparr>"] exI [of _ "[W_In, R_Test]"]) simp
qed

text \<open>C24: \<open>RWMutex\<close> excludes and loses no wake-up.  With fewer threads than its counter can take, a thread in a
  writing section is alone; a thread that waits at the door waits only while a writer is inside or
  waiting for the readers to leave, and a writer waits inside only while there are readers.\<close>

theorem RWMutex_excludes_and_wakes:
  assumes run: "(thread_step mutex_next)\<^sup>*\<^sup>* (mutex_init, replicate n M_Outside) (l, ps)" and n: "n < 2 ^ 32 - 1"
    and i: "i < n"
  shows "(ps ! i = MW_In \<longrightarrow> (\<forall>j<n. j \<noteq> i \<longrightarrow> ps ! j \<noteq> MR_In \<and> ps ! j \<noteq> MW_In)) \<and>
    (i \<in> set (reader_waiting l) \<longrightarrow> (\<exists>j<n. ps ! j \<in> {MW_Drain, MW_DSleep, MW_In})) \<and>
    (i \<in> set (writer_waiting l) \<longrightarrow> (\<exists>j<n. ps ! j = MR_In))"
proof -
  have inv: "mutex_inv l ps" "length ps = n" using mutex.reachable_inv [OF run n] by simp_all
  have "ps ! i = MW_In \<longrightarrow> (\<forall>j<n. j \<noteq> i \<longrightarrow> ps ! j \<noteq> MR_In \<and> ps ! j \<noteq> MW_In)"
    using mutex.exclusive [OF run n i] by auto
  moreover have "\<exists>j<n. entered (ps ! j)" if "i \<in> set (reader_waiting l)"
    using inv that cnt_0_iff [of entered ps] by (auto simp: mutex_inv_def)
  moreover have "\<exists>j<n. ps ! j = MR_In" if "i \<in> set (writer_waiting l)"
    using inv that cnt_0_iff [of "\<lambda>p. p = MR_In" ps] by (auto simp: mutex_inv_def unat_eq_0 [symmetric])
  ultimately show ?thesis by blast
qed

lemma RWMutex_excludes_and_wakes_witness:
  "\<exists>l ps. (thread_step mutex_next)\<^sup>*\<^sup>* (mutex_init, [M_Outside, M_Outside]) (l, ps) \<and> ps ! 1 = MW_DSleep \<and>
     1 \<in> set (writer_waiting l) \<and> (\<exists>j<2. ps ! j = MR_In)"
proof -
  let ?s = "(mutex_init, [M_Outside, M_Outside])"
  let ?l = "\<lparr>reader_count = 1, writer_entered = False, reader_waiting = [], writer_waiting = []\<rparr>"
  let ?l' = "\<lparr>reader_count = 1, writer_entered = True, reader_waiting = [], writer_waiting = [1]\<rparr>"
  have "(thread_step mutex_next)\<^sup>*\<^sup>* ?s ?s" by simp
  note run_act [OF this, of 0 mutex_init MR_Try]
  note run_act [OF this, of 0 ?l MR_In]
  note run_act [OF this, of 1 ?l MW_Try]
  note run_act [OF this, of 1 ?l' MW_DSleep]
  then have r: "(thread_step mutex_next)\<^sup>*\<^sup>* (mutex_init, replicate 2 M_Outside) (?l', [MR_In, MW_DSleep])"
    by (simp add: mutex_init_def numeral_2_eq_2 max_readers_def)
  show ?thesis
    using RWMutex_excludes_and_wakes [OF r, of 1] r [unfolded numeral_2_eq_2 replicate.simps]
    by (intro exI [of _ ?l'] exI [of _ "[MR_In, MW_DSleep]"]) simp
qed

end
