(* ===== verification/RingQueue.thy ===== *)
theory RingQueue
  imports Prelude
begin

text \<open>
  \<open>LockFreeQueue\<close> (\<^verbatim>\<open>include/lockfree_queue.h\<close>): a ring buffer with one producer and one consumer, who
  share nothing but the buffer and its two indices.  Each load, store and buffer access is one
  step.  Proved: whatever the interleaving, the items come out in the order they went in, each once.
\<close>

section \<open>The queue and its operations\<close>

record 'a ring =
  rq_capacity :: nat
  rq_buffer :: "'a list"
  rq_head :: nat
  rq_tail :: nat

text \<open>The constructor throws on a capacity of 0; \<open>x0\<close> is the default value of the elements.\<close>

definition rq_new :: "'a \<Rightarrow> nat \<Rightarrow> 'a ring res" where
  "rq_new x0 capacity =
     (if capacity < 1 then Inl Thrown
      else Inr \<lparr>rq_capacity = capacity, rq_buffer = replicate capacity x0, rq_head = 0, rq_tail = 0\<rparr>)"

definition rq_increment :: "'a ring \<Rightarrow> nat \<Rightarrow> nat" where
  "rq_increment q idx = (idx + 1) mod rq_capacity q"

definition rq_empty :: "'a ring \<Rightarrow> bool" where
  "rq_empty q \<longleftrightarrow> rq_head q = rq_tail q"

text \<open>Where the producer is in \<open>push\<close>, with its local variables, and what it does next.\<close>

datatype 'a push_pc = P_Idle | P_Load 'a | P_Check 'a nat nat | P_Write 'a nat nat | P_Publish 'a nat

fun push_act :: "'a ring \<Rightarrow> 'a push_pc \<Rightarrow> ('a ring \<times> 'a push_pc) res" where
  "push_act q P_Idle = Inr (q, P_Idle)"
| "push_act q (P_Load x) = (let t = rq_tail q in Inr (q, P_Check x t (rq_increment q t)))"
| "push_act q (P_Check x t nt) = Inr (q, if nt = rq_head q then P_Idle else P_Write x t nt)"
| "push_act q (P_Write x t nt) =
     bindE (arr_set (rq_buffer q) t x) (\<lambda>b. Inr (q\<lparr>rq_buffer := b\<rparr>, P_Publish x nt))"
| "push_act q (P_Publish x nt) = Inr (q\<lparr>rq_tail := nt\<rparr>, P_Idle)"

datatype 'a pop_pc = C_Idle | C_Load | C_Check nat | C_Read nat | C_Publish nat 'a

fun pop_act :: "'a ring \<Rightarrow> 'a pop_pc \<Rightarrow> ('a ring \<times> 'a pop_pc) res" where
  "pop_act q C_Idle = Inr (q, C_Idle)"
| "pop_act q C_Load = Inr (q, C_Check (rq_head q))"
| "pop_act q (C_Check h) = Inr (q, if h = rq_tail q then C_Idle else C_Read h)"
| "pop_act q (C_Read h) = bindE (arr_get (rq_buffer q) h) (\<lambda>x. Inr (q, C_Publish h x))"
| "pop_act q (C_Publish h x) = Inr (q\<lparr>rq_head := rq_increment q h\<rparr>, C_Idle)"

section \<open>One producer and one consumer\<close>

text \<open>The last two components collect the items pushed and popped so far.\<close>

type_synonym 'a ring_state = "'a ring \<times> 'a push_pc \<times> 'a pop_pc \<times> 'a list \<times> 'a list"

fun published :: "'a push_pc \<Rightarrow> 'a list" where
  "published (P_Publish x nt) = [x]"
| "published _ = []"

fun taken :: "'a pop_pc \<Rightarrow> 'a list" where
  "taken (C_Publish h x) = [x]"
| "taken _ = []"

inductive ring_step :: "'a ring_state \<Rightarrow> 'a ring_state \<Rightarrow> bool" where
  call_push: "ring_step (q, P_Idle, c, ins, outs) (q, P_Load x, c, ins, outs)"
| call_pop: "ring_step (q, p, C_Idle, ins, outs) (q, p, C_Load, ins, outs)"
| push: "push_act q p = Inr (q', p') \<Longrightarrow> ring_step (q, p, c, ins, outs) (q', p', c, ins @ published p, outs)"
| pop: "pop_act q c = Inr (q', c') \<Longrightarrow> ring_step (q, p, c, ins, outs) (q', p, c', ins, outs @ taken c)"

inductive_cases ring_stepE: "ring_step (q, p, c, ins, outs) s"

section \<open>The invariant\<close>

text \<open>
  The indices are the numbers of items pushed and popped, modulo the capacity; what is between them
  is in the buffer.
\<close>

definition ring_shape :: "'a ring \<Rightarrow> 'a list \<Rightarrow> 'a list \<Rightarrow> bool" where
  "ring_shape q ins outs \<longleftrightarrow> 0 < rq_capacity q \<and> length (rq_buffer q) = rq_capacity q \<and>
     rq_head q = length outs mod rq_capacity q \<and> rq_tail q = length ins mod rq_capacity q \<and>
     length outs \<le> length ins \<and> length ins < length outs + rq_capacity q \<and>
     outs = take (length outs) ins \<and>
     (\<forall>i. length outs \<le> i \<longrightarrow> i < length ins \<longrightarrow> rq_buffer q ! (i mod rq_capacity q) = ins ! i)"

fun push_local :: "'a ring \<Rightarrow> 'a list \<Rightarrow> 'a list \<Rightarrow> 'a push_pc \<Rightarrow> bool" where
  "push_local q ins outs (P_Check x t nt) \<longleftrightarrow> t = rq_tail q \<and> nt = rq_increment q t"
| "push_local q ins outs (P_Write x t nt) \<longleftrightarrow>
     t = rq_tail q \<and> nt = rq_increment q t \<and> length ins + 1 < length outs + rq_capacity q"
| "push_local q ins outs (P_Publish x nt) \<longleftrightarrow>
     nt = rq_increment q (rq_tail q) \<and> length ins + 1 < length outs + rq_capacity q \<and> rq_buffer q ! rq_tail q = x"
| "push_local q ins outs _ \<longleftrightarrow> True"

fun pop_local :: "'a ring \<Rightarrow> 'a list \<Rightarrow> 'a list \<Rightarrow> 'a pop_pc \<Rightarrow> bool" where
  "pop_local q ins outs (C_Check h) \<longleftrightarrow> h = rq_head q"
| "pop_local q ins outs (C_Read h) \<longleftrightarrow> h = rq_head q \<and> length outs < length ins"
| "pop_local q ins outs (C_Publish h x) \<longleftrightarrow> h = rq_head q \<and> length outs < length ins \<and> x = ins ! length outs"
| "pop_local q ins outs _ \<longleftrightarrow> True"

definition ring_inv :: "'a ring_state \<Rightarrow> bool" where
  "ring_inv = (\<lambda>(q, p, c, ins, outs). ring_shape q ins outs \<and> push_local q ins outs p \<and> pop_local q ins outs c)"

lemma mod_window:
  fixes i j n :: nat
  assumes "i \<le> j" "j < i + n" "i mod n = j mod n"
  shows "i = j"
proof -
  have "(j - i) mod n = 0" using assms(1,3) by (simp add: mod_eq_dvd_iff_nat [symmetric] mod_0_imp_dvd dvd_imp_mod_0)
  then show ?thesis using assms(1,2) by (simp add: mod_less)
qed

lemma ring_shapeD:
  assumes "ring_shape q ins outs"
  shows "rq_head q < rq_capacity q" "rq_tail q < rq_capacity q" "length (rq_buffer q) = rq_capacity q"
    "rq_increment q (rq_tail q) = Suc (length ins) mod rq_capacity q"
    "rq_increment q (rq_head q) = Suc (length outs) mod rq_capacity q"
  using assms by (simp_all add: ring_shape_def rq_increment_def mod_Suc_eq)

text \<open>The tests of the indices say what they are meant to.\<close>

lemma ring_tests:
  assumes "ring_shape q ins outs"
  shows "rq_increment q (rq_tail q) = rq_head q \<longleftrightarrow> length ins + 1 = length outs + rq_capacity q"
    and "rq_empty q \<longleftrightarrow> outs = ins"
proof -
  let ?n = "rq_capacity q"
  note d = assms [unfolded ring_shape_def]
  have "Suc (length ins) mod ?n = length outs mod ?n \<longleftrightarrow> Suc (length ins) = length outs + ?n"
  proof
    assume e: "Suc (length ins) mod ?n = length outs mod ?n"
    then have "length outs + ?n = Suc (length ins)"
    proof -
      have "Suc (length ins) \<le> length outs + ?n" "length outs + ?n < Suc (length ins) + ?n" using d by auto
      moreover have "Suc (length ins) mod ?n = (length outs + ?n) mod ?n" using e by simp
      ultimately show ?thesis using mod_window by metis
    qed
    then show "Suc (length ins) = length outs + ?n" by simp
  qed simp
  then show "rq_increment q (rq_tail q) = rq_head q \<longleftrightarrow> length ins + 1 = length outs + ?n"
    using ring_shapeD(4) [OF assms] d by simp
  have "length outs mod ?n = length ins mod ?n \<longleftrightarrow> length outs = length ins"
    using mod_window [of "length outs" "length ins" ?n] d by auto
  then show "rq_empty q \<longleftrightarrow> outs = ins"
    using d by (auto simp: rq_empty_def)
qed

text \<open>Writing the cell behind the last item, and moving the indices.\<close>

lemma ring_write:
  assumes r: "ring_shape q ins outs" and room: "length ins + 1 < length outs + rq_capacity q"
  shows "ring_shape (q\<lparr>rq_buffer := (rq_buffer q)[rq_tail q := x]\<rparr>) ins outs"
proof -
  have "rq_tail q \<noteq> i mod rq_capacity q" if "length outs \<le> i" "i < length ins" for i
    using mod_window [of i "length ins" "rq_capacity q"] that room r by (auto simp: ring_shape_def)
  then show ?thesis using r by (auto simp: ring_shape_def)
qed

lemma ring_publish:
  assumes r: "ring_shape q ins outs" and room: "length ins + 1 < length outs + rq_capacity q"
    and x: "rq_buffer q ! rq_tail q = x"
  shows "ring_shape (q\<lparr>rq_tail := rq_increment q (rq_tail q)\<rparr>) (ins @ [x]) outs"
  using r room x ring_shapeD(4) [OF r] by (auto simp: ring_shape_def nth_append less_Suc_eq)

lemma ring_release:
  assumes r: "ring_shape q ins outs" and ne: "length outs < length ins"
  shows "ring_shape (q\<lparr>rq_head := rq_increment q (rq_head q)\<rparr>) ins (outs @ [ins ! length outs])"
  using r ne ring_shapeD(5) [OF r] by (auto simp: ring_shape_def take_Suc_conv_app_nth)

lemma push_act_inv:
  assumes "ring_inv (q, p, c, ins, outs)" "push_act q p = Inr (q', p')"
  shows "ring_inv (q', p', c, ins @ published p, outs)"
proof (cases p)
  case (P_Check x t nt)
  then show ?thesis
    using assms ring_tests(1) [of q ins outs] by (auto simp: ring_inv_def ring_shape_def split: if_splits)
next
  case (P_Write x t nt)
  then have t: "t = rq_tail q" "nt = rq_increment q (rq_tail q)" "ring_shape q ins outs"
    "length ins + 1 < length outs + rq_capacity q"
    using assms(1) by (auto simp: ring_inv_def)
  then have e: "q' = q\<lparr>rq_buffer := (rq_buffer q)[rq_tail q := x]\<rparr>" "p' = P_Publish x nt"
    using assms(2) P_Write ring_shapeD(2,3) [OF t(3)] by auto
  have "pop_local q' ins outs c" using assms(1) e(1) by (cases c) (auto simp: ring_inv_def)
  then show ?thesis
    using ring_write [OF t(3,4), of x] t P_Write ring_shapeD(2,3) [OF t(3)] by (auto simp: ring_inv_def e rq_increment_def)
next
  case (P_Publish x nt)
  then have t: "nt = rq_increment q (rq_tail q)" "ring_shape q ins outs" "rq_buffer q ! rq_tail q = x"
    "length ins + 1 < length outs + rq_capacity q"
    using assms(1) by (auto simp: ring_inv_def)
  have e: "q' = q\<lparr>rq_tail := rq_increment q (rq_tail q)\<rparr>" "p' = P_Idle" using assms(2) P_Publish t(1) by auto
  have "pop_local q' (ins @ [x]) outs c" using assms(1) e(1) by (cases c) (auto simp: ring_inv_def nth_append)
  then show ?thesis using ring_publish [OF t(2,4,3)] P_Publish by (simp add: ring_inv_def e)
qed (use assms in \<open>auto simp: ring_inv_def Let_def\<close>)

lemma pop_act_inv:
  assumes "ring_inv (q, p, c, ins, outs)" "pop_act q c = Inr (q', c')"
  shows "ring_inv (q', p, c', ins, outs @ taken c)"
proof (cases c)
  case (C_Check h)
  then show ?thesis
    using assms ring_tests(2) [of q ins outs]
    by (auto simp: ring_inv_def ring_shape_def rq_empty_def le_less split: if_splits)
next
  case (C_Read h)
  then have "h = rq_head q" "ring_shape q ins outs" "length outs < length ins"
    using assms(1) by (auto simp: ring_inv_def)
  moreover from this have "rq_buffer q ! rq_head q = ins ! length outs" by (simp add: ring_shape_def)
  ultimately show ?thesis
    using assms C_Read ring_shapeD(1,3) [of q ins outs] by (auto simp: ring_inv_def)
next
  case (C_Publish h x)
  then have t: "h = rq_head q" "ring_shape q ins outs" "length outs < length ins" "x = ins ! length outs"
    using assms(1) by (auto simp: ring_inv_def)
  have e: "q' = q\<lparr>rq_head := rq_increment q (rq_head q)\<rparr>" "c' = C_Idle" using assms(2) C_Publish t(1) by auto
  have "push_local q' ins (outs @ [x]) p" using assms(1) e(1) by (cases p) (auto simp: ring_inv_def rq_increment_def)
  then show ?thesis using ring_release [OF t(2,3)] C_Publish t(4) by (simp add: ring_inv_def e)
qed (use assms in \<open>auto simp: ring_inv_def\<close>)

lemma ring_step_inv: "ring_step s s' \<Longrightarrow> ring_inv s \<Longrightarrow> ring_inv s'"
proof (induction rule: ring_step.induct)
  case (push q p q' p' c ins outs)
  then show ?case by (rule push_act_inv [rotated])
next
  case (pop q c q' c' p ins outs)
  then show ?case by (rule pop_act_inv [rotated])
qed (simp_all add: ring_inv_def)

lemma ring_new_inv: "rq_new x0 n = Inr q \<Longrightarrow> ring_inv (q, P_Idle, C_Idle, [], [])"
  by (auto simp: rq_new_def ring_inv_def ring_shape_def split: if_splits)

lemma ring_step_capacity: "ring_step s s' \<Longrightarrow> rq_capacity (fst s') = rq_capacity (fst s)"
proof (induction rule: ring_step.induct)
  case (push q p q' p' c ins outs)
  then show ?case by (cases p) (auto simp: bindE_eq_Inr Let_def)
next
  case (pop q c q' c' p ins outs)
  then show ?case by (cases c) (auto simp: bindE_eq_Inr)
qed simp_all

section \<open>Properties\<close>

text \<open>C22: the ring buffer between one producer and one consumer.  However their loads, stores and buffer accesses
  interleave, no access is out of bounds, the items popped are the first of those pushed, in the same order and
  each once, and at most one item fewer than the capacity is waiting.\<close>

theorem LockFreeQueue_is_fifo:
  assumes new: "rq_new x0 n = Inr q0"
    and run: "ring_step\<^sup>*\<^sup>* (q0, P_Idle, C_Idle, [], []) (q, p, c, ins, outs)"
  shows "(\<exists>q' p'. push_act q p = Inr (q', p')) \<and> (\<exists>q' c'. pop_act q c = Inr (q', c')) \<and>
    (\<exists>waiting. ins = outs @ waiting \<and> length waiting < n)"
proof -
  have "ring_inv (q, p, c, ins, outs) \<and> rq_capacity q = n"
    using run
  proof (induction "(q, p, c, ins, outs)" arbitrary: q p c ins outs rule: rtranclp_induct)
    case base
    then show ?case using ring_new_inv [OF new] new by (auto simp: rq_new_def split: if_splits)
  next
    case (step s)
    then show ?case using ring_step_inv ring_step_capacity by (cases s) fastforce
  qed
  then have inv: "ring_shape q ins outs" "push_local q ins outs p" "pop_local q ins outs c" "rq_capacity q = n"
    by (simp_all add: ring_inv_def)
  have "\<exists>q' p'. push_act q p = Inr (q', p')"
    using inv ring_shapeD(2,3) [OF inv(1)] by (cases p) (auto simp: Let_def)
  moreover have "\<exists>q' c'. pop_act q c = Inr (q', c')"
    using inv ring_shapeD(1,3) [OF inv(1)] by (cases c) auto
  moreover have "ins = outs @ drop (length outs) ins" "length (drop (length outs) ins) < n"
    using inv(1,4) by (auto simp: ring_shape_def) (metis append_take_drop_id)
  ultimately show ?thesis by blast
qed

text \<open>A queue of capacity 2 with one item in it, whose slot has been read.\<close>

lemma LockFreeQueue_is_fifo_witness:
  "\<exists>q0 q. rq_new 0 2 = Inr q0 \<and> ring_step\<^sup>*\<^sup>* (q0, P_Idle, C_Idle, [], []) (q, P_Idle, C_Publish 0 (7 :: nat), [7], []) \<and>
     (\<exists>q' c'. pop_act q (C_Publish 0 (7 :: nat)) = Inr (q', c'))"
proof -
  let ?q = "\<lambda>b t. \<lparr>rq_capacity = 2, rq_buffer = b, rq_head = 0, rq_tail = t\<rparr> :: nat ring"
  have n: "rq_new 0 2 = Inr (?q [0, 0] 0)" by (simp add: rq_new_def numeral_2_eq_2)
  let ?s = "(?q [0, 0] 0, P_Idle, C_Idle, [], [])"
  have "ring_step\<^sup>*\<^sup>* ?s ?s" by simp
  note rtranclp.rtrancl_into_rtrancl [OF this call_push [of _ _ _ _ 7]]
  note rtranclp.rtrancl_into_rtrancl [OF this push [of _ _ "?q [0, 0] 0" "P_Check 7 0 1"]]
  note rtranclp.rtrancl_into_rtrancl [OF this push [of _ _ "?q [0, 0] 0" "P_Write 7 0 1"]]
  note rtranclp.rtrancl_into_rtrancl [OF this push [of _ _ "?q [7, 0] 0" "P_Publish 7 1"]]
  note rtranclp.rtrancl_into_rtrancl [OF this push [of _ _ "?q [7, 0] 1" P_Idle]]
  note rtranclp.rtrancl_into_rtrancl [OF this call_pop]
  note rtranclp.rtrancl_into_rtrancl [OF this pop [of _ _ "?q [7, 0] 1" "C_Check 0"]]
  note rtranclp.rtrancl_into_rtrancl [OF this pop [of _ _ "?q [7, 0] 1" "C_Read 0"]]
  note rtranclp.rtrancl_into_rtrancl [OF this pop [of _ _ "?q [7, 0] 1" "C_Publish 0 7"]]
  then have "ring_step\<^sup>*\<^sup>* ?s (?q [7, 0] 1, P_Idle, C_Publish 0 7, [7], [])"
    by (simp add: rq_increment_def Let_def)
  then show ?thesis using LockFreeQueue_is_fifo [OF n] n by blast
qed

end
