(* ===== verification/SyncBlocks.thy ===== *)
theory SyncBlocks
  imports CachedBlocks
begin

text \<open>
  \<open>GetBlockSync\<close> without the direct cache: the block it returns pins the pages of the range once each
  and shows the bytes of the file; no other pin comes or goes.
\<close>

definition no_marks :: "pte_ref list \<Rightarrow> (pte_ref \<times> bool) list" where
  "no_marks rs = map (\<lambda>r. (r, False)) rs"

lemma no_marks_simps [simp]:
  "no_marks [] = []" "no_marks (r # rs) = (r, False) # no_marks rs" "length (no_marks rs) = length rs"
  "map fst (no_marks rs) = rs"
  by (simp_all add: no_marks_def comp_def)

definition pins_added :: "('r, 'q) manager \<Rightarrow> pte_ref list \<Rightarrow> ('r, 'q) manager \<Rightarrow> bool" where
  "pins_added mg rs mg' \<longleftrightarrow> (\<forall>r. rc mg' r = rc mg r + count_list rs r \<and> (0 < rc mg r \<longrightarrow> ident mg' r = ident mg r))"

lemma pins_added_Cons:
  assumes "pin_added mg r mg1" "pins_added mg1 rs mg2"
  shows "pins_added mg (r # rs) mg2"
  using assms by (auto simp: pin_added_def pins_added_def)

lemma pins_added_keep:
  assumes "pins_added mg rs mg'" "pins mg fd p r"
  shows "pins mg' fd p r"
  using assms by (auto simp: pins_added_def pins_def)

context replacer
begin

lemma sync_pages_ok:
  assumes laws: "fifo_laws qops qrep" and fuel: "4 \<le> fuel"
  shows "mgr_ok rinv rcap qrep mg \<Longrightarrow> mgr_room mg (n + Suc k) \<Longrightarrow>
    (\<And>i. i < n \<Longrightarrow> in_file (mg_disk mg) fd (p + word_of_nat i)) \<Longrightarrow>
    bb_data b = Pages (ds @ replicate n None) \<Longrightarrow> bb_page_num b = length ds + n \<Longrightarrow>
    \<exists>rs mg'. sync_pages fuel ops qops fd n (length ds) p off b mg =
        Inr (b\<lparr>bb_data := Pages (ds @ map Some (slices (unat off) (no_marks rs)))\<rparr>, mg') \<and> length rs = n \<and>
      mgr_ok rinv rcap qrep mg' \<and> mgr_same mg mg' \<and> mgr_room mg' (Suc k) \<and> pins_added mg rs mg' \<and>
      pins_from mg' fd p rs"
proof (induction n arbitrary: mg p off b ds)
  case 0
  then show ?case by (intro exI [of _ "[]"] exI [of _ mg]) (simp add: pins_from_def pins_added_def)
next
  case (Suc n)
  have i0: "in_file (mg_disk mg) fd p" using Suc.prems(3) [of 0] by simp
  have rm: "mgr_room mg (Suc (Suc (n + k)))" using Suc.prems(2) by simp
  obtain r mg1 where f: "mgr_fetch fuel ops qops mg p fd = Inr (r, mg1)" "mgr_ok rinv rcap qrep mg1" "mgr_same mg mg1"
    "mgr_room mg1 (Suc (n + k))" "pins mg1 fd p r" "pin_added mg r mg1"
    by (rule mgr_fetch_ok [OF laws Suc.prems(1) i0 rm fuel])
  let ?sl = "slice_at (unat off) (r, False)" let ?b = "b\<lparr>bb_data := Pages ((ds @ [Some ?sl]) @ replicate n None)\<rparr>"
  have ins: "InsertPage b (length ds) (r, unat off) r False = Inr ?b"
    using Suc.prems(4,5) by (auto simp: InsertPage_def slice_at_def list_update_append arr_set_def)
  have "\<exists>rs mg'. sync_pages fuel ops qops fd n (length (ds @ [Some ?sl])) (p + 1) 0 ?b mg1 =
        Inr (?b\<lparr>bb_data := Pages ((ds @ [Some ?sl]) @ map Some (slices (unat (0 :: u64)) (no_marks rs)))\<rparr>, mg') \<and> length rs = n \<and>
      mgr_ok rinv rcap qrep mg' \<and> mgr_same mg1 mg' \<and> mgr_room mg' (Suc k) \<and> pins_added mg1 rs mg' \<and>
      pins_from mg' fd (p + 1) rs"
  proof (rule Suc.IH [OF f(2)])
    show "mgr_room mg1 (n + Suc k)" using f(4) by simp
    show "in_file (mg_disk mg1) fd (p + 1 + word_of_nat i)" if "i < n" for i
      using Suc.prems(3) [of "Suc i"] that mgr_same_in_file [OF f(3)] by (simp add: add.assoc)
  qed (use Suc.prems(5) in simp_all)
  then obtain rs mg' where h: "sync_pages fuel ops qops fd n (Suc (length ds)) (p + 1) 0 ?b mg1 =
        Inr (b\<lparr>bb_data := Pages (ds @ Some ?sl # map Some (slices 0 (no_marks rs)))\<rparr>, mg')" "length rs = n"
      "mgr_ok rinv rcap qrep mg'" "mgr_same mg1 mg'" "mgr_room mg' (Suc k)" "pins_added mg1 rs mg'" "pins_from mg' fd (p + 1) rs"
    by auto
  have "pins_from mg' fd p (r # rs)" using h(7) pins_added_keep [OF h(6) f(5)] by (simp add: pins_from_Cons)
  then show ?case
    using f(1) ins h pins_added_Cons [OF f(6) h(6)] mgr_same_trans [OF f(3) h(4)]
    by (intro exI [of _ "r # rs"] exI [of _ mg']) simp
qed

lemma GetBlockSync_ok:
  assumes laws: "fifo_laws qops qrep" and fuel: "4 \<le> fuel" and ok: "mgr_ok rinv rcap qrep mg" and o: "is_open mg fd"
    and r: "unat file_offset + unat block_size \<le> file_length mg fd"
    and rm: "mgr_room mg (num_page file_offset block_size + 1)"
  obtains blk mg' rs where "GetBlockSync fuel ops qops mg file_offset block_size fd = Inr (blk, mg')"
    "mgr_ok rinv rcap qrep mg'" "mgr_same mg mg'" "shows_range mg' fd file_offset block_size blk" "pins_added mg rs mg'"
    "block_slices blk = slices (unat (first_offset file_offset)) (no_marks rs)"
proof (cases "block_size = 0")
  case True
  then show thesis
    using ok by (intro that [of bb_empty mg "[]"])
      (simp_all add: GetBlockSync_def shows_range_def block_slices_def bb_slices_def bb_empty_def pins_added_def)
next
  case False
  let ?n = "num_page file_offset block_size" and ?p = "first_page file_offset" and ?off = "first_offset file_offset"
  let ?b = "bb_pages (unat block_size) (num_page file_offset block_size)"
  have "\<exists>rs mg'. sync_pages fuel ops qops fd ?n (length ([] :: slice option list)) ?p ?off ?b mg =
        Inr (?b\<lparr>bb_data := Pages ([] @ map Some (slices (unat ?off) (no_marks rs)))\<rparr>, mg') \<and> length rs = ?n \<and>
      mgr_ok rinv rcap qrep mg' \<and> mgr_same mg mg' \<and> mgr_room mg' (Suc 0) \<and> pins_added mg rs mg' \<and>
      pins_from mg' fd ?p rs"
    by (rule sync_pages_ok [OF laws fuel ok])
      (use rm range_in_file [OF ok o r _ False] in \<open>simp_all add: bb_pages_def\<close>)
  then obtain rs mg' where c: "sync_pages fuel ops qops fd ?n 0 ?p ?off ?b mg =
        Inr (?b\<lparr>bb_data := Pages (map Some (slices (unat ?off) (no_marks rs)))\<rparr>, mg')" "length rs = ?n"
      "mgr_ok rinv rcap qrep mg'" "mgr_same mg mg'" "pins_added mg rs mg'" "pins_from mg' fd ?p rs"
    by auto
  let ?blk = "?b\<lparr>bb_data := Pages (map Some (slices (unat ?off) (no_marks rs)))\<rparr>"
  have one: "sync_pages fuel ops qops fd 1 0 ?p ?off ?b mg =
      bindE (mgr_fetch fuel ops qops mg ?p fd) (\<lambda>(r, mg).
      bindE (InsertPage ?b 0 (r, unat ?off) r False) (\<lambda>ret. Inr (ret, mg)))"
    by (simp split: prod.split)
  have "GetBlockSync fuel ops qops mg file_offset block_size fd = sync_pages fuel ops qops fd ?n 0 ?p ?off ?b mg"
    using False one by (simp only: GetBlockSync_def Let_def split: if_split) simp
  then have g: "GetBlockSync fuel ops qops mg file_offset block_size fd = Inr (?blk, mg')" using c(1) by simp
  show thesis
  proof (rule that [OF g c(3,4) _ c(5)])
    show "shows_range mg' fd file_offset block_size ?blk"
      unfolding shows_range_def using c(2,6) False by (simp add: bb_pages_def) (rule exI [of _ "no_marks rs"]; simp)
    show "block_slices ?blk = slices (unat ?off) (no_marks rs)"
      by (simp add: block_slices_def bb_slices_def comp_def)
  qed
qed

end

end
