(* ===== verification/MmapArray.thy ===== *)
theory MmapArray
  imports SyncBlocks Clients
begin

text \<open>
  \<open>mmap_array\<close> (src/include/mmap_array.h, the buffer-pool branch of its \<open>#if OV\<close>): an array of
  fixed-size items in a file, read and written through the buffer pool manager.  A page of 4096 bytes
  holds \<open>4096 / item_size\<close> items and items never straddle pages.  The manager is passed from one
  operation to the next; \<open>content\<close> is what the file system holds under the name that is opened.
\<close>

section \<open>The array and its operations\<close>

record mmap_array =
  ma_fd :: file_handle
  ma_filename :: string
  ma_size :: u64
  ma_read_only :: bool
  ma_chunk_size :: u64
  ma_item_size :: u64
  ma_per_page :: u16

definition no_file :: file_handle where
  "no_file = ucast INVALID_FILE_HANDLE"

definition page_size :: u64 where
  "page_size = word_of_nat PAGE_SIZE_FILE"

text \<open>The constructor leaves the last three fields uninitialised.\<close>

definition ma_new :: "u64 \<Rightarrow> u64 \<Rightarrow> u16 \<Rightarrow> mmap_array" where
  "ma_new c i n = \<lparr>ma_fd = no_file, ma_filename = [], ma_size = 0, ma_read_only = True,
     ma_chunk_size = c, ma_item_size = i, ma_per_page = n\<rparr>"

definition ma_swap :: "mmap_array \<Rightarrow> mmap_array \<Rightarrow> mmap_array \<times> mmap_array" where
  "ma_swap a rhs =
     (a\<lparr>ma_filename := ma_filename rhs, ma_fd := ma_fd rhs, ma_size := ma_size rhs, ma_chunk_size := ma_chunk_size rhs\<rparr>,
      rhs\<lparr>ma_filename := ma_filename a, ma_fd := no_file, ma_size := ma_size a, ma_chunk_size := ma_chunk_size a\<rparr>)"

text \<open>The moving constructor: a new array, then \<open>swap\<close>.\<close>

definition ma_move :: "u64 \<Rightarrow> u64 \<Rightarrow> u16 \<Rightarrow> mmap_array \<Rightarrow> mmap_array \<times> mmap_array" where
  "ma_move c i n rhs = ma_swap (ma_new c i n) rhs"

definition ma_close ::
  "'q queue_ops \<Rightarrow> ('r, 'q) manager \<Rightarrow> mmap_array \<Rightarrow> (mmap_array \<times> ('r, 'q) manager) res" where
  "ma_close qops mg a =
     (if ma_fd a \<noteq> no_file then
        bindE (mgr_CloseFile qops mg (ma_fd a)) (\<lambda>mg. Inr (a\<lparr>ma_fd := no_file\<rparr>, mg))
      else Inr (a, mg))"

definition ma_reset ::
  "'q queue_ops \<Rightarrow> ('r, 'q) manager \<Rightarrow> mmap_array \<Rightarrow> (mmap_array \<times> ('r, 'q) manager) res" where
  "ma_reset qops mg a =
     bindE (ma_close qops mg (a\<lparr>ma_filename := []\<rparr>)) (\<lambda>(a, mg). Inr (a\<lparr>ma_read_only := True\<rparr>, mg))"

definition divE :: "u64 \<Rightarrow> u64 \<Rightarrow> u64 res" where
  "divE x y = (if y = 0 then Inl DivZero else Inr (x div y))"

definition ma_per :: "mmap_array \<Rightarrow> u64" where
  "ma_per a = ucast (ma_per_page a)"

definition ma_open ::
  "'q queue_ops \<Rightarrow> ('r, 'q) manager \<Rightarrow> mmap_array \<Rightarrow> string \<Rightarrow> bool \<Rightarrow> u64 \<Rightarrow> u64 \<Rightarrow> byte list option \<Rightarrow>
   (mmap_array \<times> ('r, 'q) manager) res" where
  "ma_open qops mg a filename read_only item_size chunk_size content =
     bindE (divE page_size item_size) (\<lambda>n.
     bindE (ma_reset qops mg (a\<lparr>ma_chunk_size := chunk_size, ma_item_size := item_size, ma_per_page := ucast n\<rparr>)) (\<lambda>(a, mg).
     let a = a\<lparr>ma_filename := filename, ma_read_only := read_only\<rparr> in
     if read_only \<and> content = None then Inr (a\<lparr>ma_fd := - 1, ma_size := 0\<rparr>, mg)
     else
       let bytes = (case content of None \<Rightarrow> [] | Some f \<Rightarrow> f); file_size = word_of_nat (length bytes) in
       bindE (mgr_OpenFile mg bytes) (\<lambda>(fd, mg).
       Inr (a\<lparr>ma_fd := fd, ma_size := file_size div page_size * ma_per a + file_size mod page_size div item_size\<rparr>, mg))))"

definition ma_resize ::
  "('r, 'q) manager \<Rightarrow> mmap_array \<Rightarrow> u64 \<Rightarrow> (mmap_array \<times> ('r, 'q) manager) res" where
  "ma_resize mg a sz =
     bindE (assertE (ma_fd a \<noteq> - 1)) (\<lambda>_.
     if sz = ma_size a then Inr (a, mg)
     else if ma_read_only a then Inr (if sz < ma_size a then a\<lparr>ma_size := sz\<rparr> else a, mg)
     else bindE (divE sz (ma_per a)) (\<lambda>pages.
       bindE (mgr_Resize mg (ma_fd a) (sz mod ma_per a * ma_item_size a + pages * page_size)) (\<lambda>mg.
       Inr (a\<lparr>ma_size := sz\<rparr>, mg))))"

text \<open>\<open>copied\<close> is the content of the file that \<open>copy_file\<close> writes.\<close>

definition ma_touch ::
  "'q queue_ops \<Rightarrow> ('r, 'q) manager \<Rightarrow> mmap_array \<Rightarrow> string \<Rightarrow> byte list \<Rightarrow> (mmap_array \<times> ('r, 'q) manager) res" where
  "ma_touch qops mg a filename copied =
     bindE (ma_close qops mg a) (\<lambda>(a, mg). ma_open qops mg a filename False 1 4096 (Some copied))"

datatype dump_action = Hard_link string string | Rename string string

definition ma_dump ::
  "'q queue_ops \<Rightarrow> ('r, 'q) manager \<Rightarrow> mmap_array \<Rightarrow> string \<Rightarrow> bool \<Rightarrow> (dump_action \<times> mmap_array \<times> ('r, 'q) manager) res" where
  "ma_dump qops mg a filename file_exists =
     bindE (assertE (ma_filename a \<noteq> [])) (\<lambda>_.
     bindE (assertE file_exists) (\<lambda>_.
     let old_filename = ma_filename a in
     bindE (ma_reset qops mg a) (\<lambda>(a, mg).
     Inr (if ma_read_only a then Hard_link old_filename filename else Rename old_filename filename, a, mg))))"

definition ma_get_size_in_byte :: "mmap_array \<Rightarrow> u64 res" where
  "ma_get_size_in_byte a =
     bindE (divE (ma_size a) (ma_per a)) (\<lambda>pages. Inr (ma_size a mod ma_per a * ma_item_size a + pages * page_size))"

definition ma_file_offset :: "mmap_array \<Rightarrow> u64 \<Rightarrow> u64 res" where
  "ma_file_offset a idx =
     bindE (divE idx (ma_per a)) (\<lambda>page. Inr (page * page_size + idx mod ma_per a * ma_item_size a))"

text \<open>The block size that \<open>get\<close> and \<open>get_async\<close> compute for \<open>len\<close> items from \<open>file_offset\<close> on.\<close>

definition ma_buf_size :: "mmap_array \<Rightarrow> u64 \<Rightarrow> u64 \<Rightarrow> u64 res" where
  "ma_buf_size a file_offset len =
     (let rest_filelen_firstpage = page_size - file_offset mod page_size in
      if rest_filelen_firstpage > len * ma_item_size a then Inr (ma_item_size a * len)
      else
        bindE (divE rest_filelen_firstpage (ma_item_size a)) (\<lambda>n.
        let len = len - n in
        bindE (divE len (ma_per a)) (\<lambda>pages.
        Inr (rest_filelen_firstpage + (pages * page_size + len mod ma_per a * ma_item_size a)))))"

definition ma_get ::
  "nat \<Rightarrow> 'r replacer_ops \<Rightarrow> 'q queue_ops \<Rightarrow> ('r, 'q) manager \<Rightarrow> mmap_array \<Rightarrow> u64 \<Rightarrow> u64 \<Rightarrow> (block \<times> ('r, 'q) manager) res" where
  "ma_get fuel ops qops mg a idx len =
     bindE (ma_file_offset a idx) (\<lambda>file_offset.
     bindE (ma_buf_size a file_offset len) (\<lambda>buf_size.
     GetBlockSync fuel ops qops mg file_offset buf_size (ma_fd a)))"

definition ma_get_partial ::
  "nat \<Rightarrow> 'r replacer_ops \<Rightarrow> 'q queue_ops \<Rightarrow> ('r, 'q) manager \<Rightarrow> mmap_array \<Rightarrow> u64 \<Rightarrow> u64 \<Rightarrow> u64 \<Rightarrow>
   (block \<times> ('r, 'q) manager) res" where
  "ma_get_partial fuel ops qops mg a idx offset_in_item len_in_byte =
     bindE (ma_file_offset a idx) (\<lambda>file_offset.
     bindE (assertE (page_size - file_offset mod page_size - offset_in_item \<ge> len_in_byte)) (\<lambda>_.
     GetBlockSync fuel ops qops mg (file_offset + offset_in_item) len_in_byte (ma_fd a)))"

text \<open>\<open>get_async\<close> begins with \<open>assert(false)\<close>.\<close>

definition ma_get_async ::
  "('r, 'q) manager \<Rightarrow> mmap_array \<Rightarrow> u64 \<Rightarrow> u64 \<Rightarrow> (block \<times> ('r, 'q) manager) res" where
  "ma_get_async mg a idx len = Inl AssertFail"

text \<open>\<open>n\<close> bounds the rounds of the loop in \<open>SetBlock\<close>.\<close>

definition ma_set ::
  "nat \<Rightarrow> nat \<Rightarrow> 'r replacer_ops \<Rightarrow> 'q queue_ops \<Rightarrow> ('r, 'q) manager \<Rightarrow> mmap_array \<Rightarrow> u64 \<Rightarrow> byte list \<Rightarrow> u64 \<Rightarrow>
   ('r, 'q) manager res" where
  "ma_set n fuel ops qops mg a idx val len =
     bindE (SetBlock n fuel ops qops mg val (idx * ma_item_size a) (len * ma_item_size a) (ma_fd a) False) (\<lambda>(_, mg). Inr mg)"

definition ma_set_partial ::
  "nat \<Rightarrow> nat \<Rightarrow> 'r replacer_ops \<Rightarrow> 'q queue_ops \<Rightarrow> ('r, 'q) manager \<Rightarrow> mmap_array \<Rightarrow> u64 \<Rightarrow> u64 \<Rightarrow> byte list \<Rightarrow>
   ('r, 'q) manager res" where
  "ma_set_partial n fuel ops qops mg a idx offset_in_item val =
     bindE (ma_file_offset a idx) (\<lambda>file_offset.
     bindE (SetBlock n fuel ops qops mg val (file_offset + offset_in_item) (word_of_nat (length val)) (ma_fd a) False)
       (\<lambda>(_, mg). Inr mg))"

section \<open>Where the items are\<close>

text \<open>The byte at which item \<open>i\<close> starts, for items of \<open>s\<close> bytes.\<close>

definition item_pos :: "nat \<Rightarrow> nat \<Rightarrow> nat" where
  "item_pos s i = i div (PAGE_SIZE_FILE div s) * PAGE_SIZE_FILE + i mod (PAGE_SIZE_FILE div s) * s"

lemma per_page:
  assumes "0 < s" "s \<le> PAGE_SIZE_FILE"
  shows "0 < PAGE_SIZE_FILE div s" "j < PAGE_SIZE_FILE div s \<Longrightarrow> j * s + s \<le> PAGE_SIZE_FILE"
proof -
  show "0 < PAGE_SIZE_FILE div s" using assms by (simp add: div_greater_zero_iff)
  assume "j < PAGE_SIZE_FILE div s"
  then have "Suc j * s \<le> PAGE_SIZE_FILE div s * s" by (intro mult_le_mono1) simp
  then show "j * s + s \<le> PAGE_SIZE_FILE" using div_times_less_eq_dividend [of PAGE_SIZE_FILE s] unfolding mult_Suc by linarith
qed

lemma item_pos_add:
  assumes "0 < s" "s \<le> PAGE_SIZE_FILE"
  defines "N \<equiv> PAGE_SIZE_FILE div s"
  shows "i mod N + k < N \<Longrightarrow> item_pos s (i + k) = item_pos s i + k * s"
    "N \<le> i mod N + k \<Longrightarrow> item_pos s (i + k) = item_pos s i + (PAGE_SIZE_FILE - i mod N * s) + item_pos s (k - (N - i mod N))"
proof -
  have N: "0 < N" using per_page(1) [OF assms(1,2)] by (simp add: N_def)
  have e: "i + k = i div N * N + (i mod N + k)" by simp
  have P: "item_pos s n = n div N * PAGE_SIZE_FILE + n mod N * s" for n by (simp add: item_pos_def N_def)
  have D: "(q * N + r) div N = q + r div N" "(q * N + r) mod N = r mod N" for q r using N by simp_all
  show "item_pos s (i + k) = item_pos s i + k * s" if "i mod N + k < N"
  proof -
    have "(i + k) div N = i div N" "(i + k) mod N = i mod N + k"
      using D [of "i div N" "i mod N + k"] that unfolding e [symmetric] by simp_all
    then show ?thesis by (simp add: P add_mult_distrib)
  qed
  show "item_pos s (i + k) = item_pos s i + (PAGE_SIZE_FILE - i mod N * s) + item_pos s (k - (N - i mod N))" if "N \<le> i mod N + k"
  proof -
    define j where "j = k - (N - i mod N)"
    have lt: "i mod N < N" using N by simp
    then have "i mod N + k = 1 * N + j" using that by (simp add: j_def)
    then have "i + k = (i div N + 1) * N + j" using e by (simp add: add_mult_distrib)
    then have "(i + k) div N = i div N + 1 + j div N" "(i + k) mod N = j mod N"
      using D [of "i div N + 1" j] by simp_all
    moreover have "i mod N * s + s \<le> PAGE_SIZE_FILE" using per_page(2) [OF assms(1,2)] lt by (simp add: N_def)
    ultimately show ?thesis unfolding j_def [symmetric] by (simp add: P add_mult_distrib)
  qed
qed

lemma item_pos_less:
  assumes "0 < s" "s \<le> PAGE_SIZE_FILE" "i < m"
  shows "item_pos s i + s \<le> item_pos s m"
proof -
  let ?N = "PAGE_SIZE_FILE div s"
  have fit: "i mod ?N * s + s \<le> PAGE_SIZE_FILE" using per_page [OF assms(1,2)] by simp
  show ?thesis
  proof (cases "i div ?N = m div ?N")
    case True
    have "i mod ?N < m mod ?N" using True assms(3) by (metis div_mult_mod_eq nat_add_left_cancel_less)
    then have "Suc (i mod ?N) * s \<le> m mod ?N * s" by (intro mult_le_mono1) simp
    then show ?thesis using True by (simp add: item_pos_def)
  next
    case False
    then have "i div ?N + 1 \<le> m div ?N" using div_le_mono [of i m ?N] assms(3) by linarith
    then have "(i div ?N + 1) * PAGE_SIZE_FILE \<le> m div ?N * PAGE_SIZE_FILE" by (rule mult_le_mono1)
    then show ?thesis using fit by (simp add: item_pos_def add_mult_distrib)
  qed
qed

lemma item_pos_mono: "0 < s \<Longrightarrow> s \<le> PAGE_SIZE_FILE \<Longrightarrow> i \<le> m \<Longrightarrow> item_pos s i \<le> item_pos s m"
  using item_pos_less [of s i m] by (cases "i = m") auto

lemma item_pos_ge: "0 < s \<Longrightarrow> s \<le> PAGE_SIZE_FILE \<Longrightarrow> n * s \<le> item_pos s n"
proof (induction n)
  case (Suc n)
  then show ?case using item_pos_less [of s n "Suc n"] by simp
qed simp

lemma item_pos_dvd:
  assumes "s dvd PAGE_SIZE_FILE" "0 < s"
  shows "item_pos s n = n * s"
proof -
  let ?N = "PAGE_SIZE_FILE div s"
  have "n * s = (n div ?N * ?N + n mod ?N) * s" by (simp only: div_mult_mod_eq)
  also have "\<dots> = n div ?N * (?N * s) + n mod ?N * s" by (simp only: add_mult_distrib mult.assoc)
  finally show ?thesis using assms by (simp add: item_pos_def)
qed

section \<open>Decoding items of a block\<close>

text \<open>Items whose size need not divide the page size: where \<open>Decode\<close> looks in a block of several pages.\<close>

definition in_block :: "nat \<Rightarrow> nat \<Rightarrow> nat \<Rightarrow> nat" where
  "in_block s off k = (let q = (PAGE_SIZE_FILE - off) div s in
     if k < q then k * s else PAGE_SIZE_FILE - off + item_pos s (k - q))"

lemma Decode_item:
  assumes wf: "bb_wf mem b" and s: "0 < s" "s \<le> PAGE_SIZE_FILE" and p: "\<not> bb_page_num b < 2"
    and d: "bb_slices b = Some sl # sls" "list_all (\<lambda>x. case x of None \<Rightarrow> False | Some sl \<Rightarrow> sl_off sl = 0) sls"
    and q0: "0 < (PAGE_SIZE_FILE - sl_off sl) div s" and k: "in_block s (sl_off sl) k + s \<le> bb_size b"
  shows "bindE (Decode s b k) (read_obj mem b s) = Inr (take s (drop (in_block s (sl_off sl) k) (bb_content mem b)))"
proof -
  have dd: "bb_data b = Pages (Some sl # sls)" using d(1) by (cases "bb_data b") (simp_all add: bb_slices_def)
  have ok: "slices_ok mem (Some sl # sls) (bb_size b)" and c: "bb_content mem b = slices_content mem (Some sl # sls) (bb_size b)"
    using wf dd by (simp_all add: bb_wf_def bb_content_def)
  have l: "loc_inpage sl 0 = PAGE_SIZE_FILE - sl_off sl" "sl_off sl < PAGE_SIZE_FILE" "length (mem (sl_frame sl)) = PAGE_SIZE_FILE"
    using ok by (simp_all add: loc_inpage_in)
  let ?q = "loc_inpage sl 0 div s"
  show ?thesis
  proof (cases "k < ?q")
    case True
    then have "Suc k * s \<le> ?q * s" by (intro mult_le_mono1) simp
    then have in1: "k * s + s \<le> loc_inpage sl 0" using div_times_less_eq_dividend [of "loc_inpage sl 0" s] unfolding mult_Suc by linarith
    have ib: "in_block s (sl_off sl) k = k * s" using True l(1) by (simp add: in_block_def)
    have dec: "Decode s b k = Inr (In_frame (sl_frame sl) (sl_off sl + k * s))"
      using True p dd by (simp add: Decode_def DecodeWithPTE_def bb_slot_def arr_get_def)
    have "sl_off sl + k * s + s \<le> PAGE_SIZE_FILE" using in1 l by linarith
    then show ?thesis
      unfolding dec c ib slices_content_first [OF ok in1 k [unfolded ib]] using l(3) by (simp add: read_obj_def read_at_in)
  next
    case False
    define j where "j = k - ?q"
    let ?N = "PAGE_SIZE_FILE div s"
    have ib: "in_block s (sl_off sl) k = loc_inpage sl 0 + item_pos s j" using False l(1) by (simp add: in_block_def j_def)
    have o': "(j mod ?N) * s + s \<le> PAGE_SIZE_FILE" using per_page [OF s] by simp
    have ok': "slices_ok mem sls (bb_size b - loc_inpage sl 0)" using ok by simp
    have "(j div ?N) * PAGE_SIZE_FILE + (j mod ?N) * s + s \<le> bb_size b - loc_inpage sl 0"
      using k unfolding ib by (simp add: item_pos_def)
    then obtain sl' where s': "j div ?N < length sls" "sls ! (j div ?N) = Some sl'" "sl_off sl' = 0"
        "length (mem (sl_frame sl')) = PAGE_SIZE_FILE"
        "take s (drop (item_pos s j) (slices_content mem sls (bb_size b - loc_inpage sl 0))) =
           take s (drop ((j mod ?N) * s) (mem (sl_frame sl')))"
      using slices_content_page [OF ok' d(2) _ o' s(1)] unfolding item_pos_def by metis
    have "drop (in_block s (sl_off sl) k) (bb_content mem b) = drop (item_pos s j) (slices_content mem sls (bb_size b - loc_inpage sl 0))"
      using l k unfolding ib c by simp
    moreover have "Decode s b k = Inr (In_frame (sl_frame sl') ((j mod ?N) * s))"
      using False p dd s' q0 [folded l(1)] by (simp add: Decode_def DecodeWithPTE_def bb_slot_def arr_get_def Let_def flip: j_def)
    ultimately show ?thesis using s'(4,5) o' by (simp add: read_obj_def read_at_in)
  qed
qed

text \<open>A block that shows a range of a file, seen as items that start at \<open>item_pos s i\<close>.\<close>

lemma slices_offsets:
  "list_all (\<lambda>x. case x of None \<Rightarrow> False | Some sl \<Rightarrow> sl_off sl = 0) (map Some (slices 0 rms))"
  by (induction rms) (auto simp: slice_at_def split: prod.splits)

lemma slices_Suc: "0 < length rms \<Longrightarrow> \<exists>rm rest. slices off rms = slice_at off rm # slices 0 rest"
  by (cases rms) auto

lemma range_item:
  assumes ok: "mgr_ok rinv rcap qrep mg" and o: "is_open mg fd" and r: "unat file_offset + unat block_size \<le> file_length mg fd"
    and sh: "shows_range mg fd file_offset block_size b" and s: "0 < s" "s \<le> PAGE_SIZE_FILE"
    and off: "unat (first_offset file_offset) + s \<le> PAGE_SIZE_FILE"
    and k: "in_block s (unat (first_offset file_offset)) k + s \<le> unat block_size"
  shows "bindE (Decode s b k) (read_obj (mgr_mem mg) b s) =
    Inr (take s (drop (unat file_offset + in_block s (unat (first_offset file_offset)) k) (file_bytes mg fd)))"
proof -
  let ?o = "unat (first_offset file_offset)" and ?ib = "in_block s (unat (first_offset file_offset)) k"
  note wf = shows_range_content [OF ok o r sh]
  have nz: "block_size \<noteq> 0" using k s by auto
  then obtain rms where b: "b = \<lparr>bb_size = unat block_size, bb_page_num = length rms, bb_data = Pages (map Some (slices ?o rms))\<rparr>"
    and n: "length rms = num_page file_offset block_size"
    using sh by (auto simp: shows_range_def)
  have "0 < length rms" using wf(1) by (simp add: b bb_wf_def)
  then obtain rm rest where sl: "slices ?o rms = slice_at ?o rm # slices 0 rest" using slices_Suc by blast
  have q0: "0 < (PAGE_SIZE_FILE - ?o) div s" using off s by (simp add: div_greater_zero_iff)
  have so: "sl_off (slice_at ?o rm) = ?o" by (cases rm) simp
  have "bindE (Decode s b k) (read_obj (mgr_mem mg) b s) = Inr (take s (drop ?ib (bb_content (mgr_mem mg) b)))"
  proof (cases "bb_page_num b < 2")
    case True
    then have "num_page file_offset block_size = 1" using n b wf(1) by (simp add: bb_wf_def)
    then have "unat block_size \<le> PAGE_SIZE_FILE - ?o" using num_page_covers(1) [OF nz, of file_offset] by simp
    then have "?ib = k * s" using k s by (auto simp: in_block_def Let_def split: if_splits)
    moreover have "bindE (Decode s b k) (read_obj (mgr_mem mg) b s) = flat_read (mgr_mem mg) b (k * s) s"
      using True sl by (simp add: b Decode_def DecodeWithPTE_def read_obj_def flat_read_def bb_slot_def arr_get_def)
    ultimately show ?thesis using flat_read_wf [OF wf(1) True, of ?ib s] k by (simp add: b)
  next
    case False
    have "bindE (Decode s b k) (read_obj (mgr_mem mg) b s) =
        Inr (take s (drop (in_block s (sl_off (slice_at ?o rm)) k) (bb_content (mgr_mem mg) b)))"
      by (rule Decode_item [OF wf(1) s False _ slices_offsets])
        (use q0 k so sl in \<open>simp_all add: b bb_slices_def\<close>)
    then show ?thesis by (simp only: so)
  qed
  moreover have "take s (drop ?ib (take (unat block_size) xs)) = take s (drop ?ib xs)" for xs :: "byte list"
    using k by (simp add: drop_take min_def)
  ultimately show ?thesis unfolding wf(2) by (simp add: add.commute)
qed

section \<open>Offsets and sizes\<close>

text \<open>What \<open>open\<close> and \<open>resize\<close> establish: the layout of the items, and a file that holds them.\<close>

definition item_size :: "mmap_array \<Rightarrow> nat" where
  "item_size a = unat (ma_item_size a)"

definition ma_layout :: "mmap_array \<Rightarrow> bool" where
  "ma_layout a \<longleftrightarrow> 0 < item_size a \<and> item_size a \<le> PAGE_SIZE_FILE \<and> unat (ma_per_page a) = PAGE_SIZE_FILE div item_size a"

definition ma_inv :: "('r, 'q) manager \<Rightarrow> mmap_array \<Rightarrow> bool" where
  "ma_inv mg a \<longleftrightarrow> ma_layout a \<and> is_open mg (ma_fd a) \<and>
     item_pos (item_size a) (unat (ma_size a)) \<le> file_length mg (ma_fd a)"

lemma ma_layoutD:
  assumes "ma_layout a"
  shows "0 < item_size a" "item_size a \<le> PAGE_SIZE_FILE" "unat (ma_per a) = PAGE_SIZE_FILE div item_size a" "ma_per a \<noteq> 0"
    "unat (ma_item_size a) = item_size a" "ma_item_size a \<noteq> 0"
proof -
  show s: "0 < item_size a" "item_size a \<le> PAGE_SIZE_FILE" using assms by (simp_all add: ma_layout_def)
  have "unat (ma_per_page a) < 2 ^ 64" using unsigned_less [of "ma_per_page a", where 'a = nat] by simp
  then show p: "unat (ma_per a) = PAGE_SIZE_FILE div item_size a"
    using assms by (simp add: ma_layout_def ma_per_def unsigned_ucast_eq take_bit_nat_eq_self_iff)
  show "ma_per a \<noteq> 0" using p per_page(1) [OF s] by auto
  show "unat (ma_item_size a) = item_size a" by (simp add: item_size_def)
  show "ma_item_size a \<noteq> 0" using s(1) by (auto simp: item_size_def)
qed

lemma unat_page_size [simp]: "unat page_size = PAGE_SIZE_FILE"
  by (simp add: page_size_def PAGE_SIZE_FILE_def)

lemma unat_mult_small: "unat x * unat y < 2 ^ 64 \<Longrightarrow> unat (x * y :: u64) = unat x * unat y"
  using unat_mult_lem [of x y] by simp

lemma unat_add_small: "unat x + unat y < 2 ^ 64 \<Longrightarrow> unat (x + y :: u64) = unat x + unat y"
  using unat_add_lem [of x y] by simp

lemma unat_sub_small: "unat y \<le> unat x \<Longrightarrow> unat (x - y :: u64) = unat x - unat y"
  by (simp add: unat_sub word_le_nat_alt)

text \<open>The offset in whole pages plus a number of items, as \<open>get\<close>, \<open>resize\<close> and the others compute it.\<close>

lemma unat_item_pos:
  assumes "ma_layout a" "item_pos (item_size a) (unat n) < 2 ^ 64"
  shows "unat (n div ma_per a * page_size + n mod ma_per a * ma_item_size a) = item_pos (item_size a) (unat n)"
    "unat (n mod ma_per a * ma_item_size a) = unat n mod (PAGE_SIZE_FILE div item_size a) * item_size a"
proof -
  note l = ma_layoutD [OF assms(1)]
  let ?N = "PAGE_SIZE_FILE div item_size a"
  have dm: "unat (n div ma_per a) = unat n div ?N" "unat (n mod ma_per a) = unat n mod ?N"
    by (simp_all add: unat_div_distrib unat_mod_distrib l)
  have b: "unat n div ?N * PAGE_SIZE_FILE + unat n mod ?N * item_size a < 2 ^ 64"
    using assms(2) by (simp add: item_pos_def)
  have "unat (n div ma_per a * page_size) = unat n div ?N * PAGE_SIZE_FILE"
    using b by (subst unat_mult_small) (simp_all add: dm)
  moreover show m: "unat (n mod ma_per a * ma_item_size a) = unat n mod ?N * item_size a"
    using b by (subst unat_mult_small) (simp_all add: dm l)
  ultimately show "unat (n div ma_per a * page_size + n mod ma_per a * ma_item_size a) = item_pos (item_size a) (unat n)"
    using b by (subst unat_add_small) (simp_all add: item_pos_def)
qed

lemma ma_inv_bound:
  assumes "mgr_ok rinv rcap qrep mg" "ma_inv mg a" "n \<le> unat (ma_size a)"
  shows "item_pos (item_size a) n \<le> file_length mg (ma_fd a)" "item_pos (item_size a) n < 2 ^ 64" "n * item_size a < 2 ^ 64"
proof -
  have l: "0 < item_size a" "item_size a \<le> PAGE_SIZE_FILE" using assms(2) by (simp_all add: ma_inv_def ma_layout_def)
  show f: "item_pos (item_size a) n \<le> file_length mg (ma_fd a)"
    using item_pos_mono [OF l assms(3)] assms(2) by (simp add: ma_inv_def)
  have "file_length mg (ma_fd a) \<le> PAGE_SIZE_FILE * 2 ^ 32"
    using assms(1,2) by (simp add: mgr_ok_def ma_inv_def is_open_def file_length_def)
  then show p: "item_pos (item_size a) n < 2 ^ 64" using f by (simp add: PAGE_SIZE_FILE_def)
  then show "n * item_size a < 2 ^ 64" using item_pos_ge [OF l, of n] by linarith
qed

lemma ma_file_offset_ok:
  assumes "mgr_ok rinv rcap qrep mg" "ma_inv mg a" "unat idx \<le> unat (ma_size a)"
  obtains off where "ma_file_offset a idx = Inr off" "unat off = item_pos (item_size a) (unat idx)"
    "unat (first_offset off) = unat idx mod (PAGE_SIZE_FILE div item_size a) * item_size a"
proof -
  have lay: "ma_layout a" using assms(2) by (simp add: ma_inv_def)
  note l = ma_layoutD [OF lay]
  let ?off = "idx div ma_per a * page_size + idx mod ma_per a * ma_item_size a"
  have u: "unat ?off = item_pos (item_size a) (unat idx)"
    by (rule unat_item_pos [OF lay ma_inv_bound(2) [OF assms]])
  have "unat idx mod (PAGE_SIZE_FILE div item_size a) * item_size a + item_size a \<le> PAGE_SIZE_FILE"
    using per_page [OF l(1,2)] by simp
  then have "unat (first_offset ?off) = unat idx mod (PAGE_SIZE_FILE div item_size a) * item_size a"
    using l(1) by (simp add: first_offset_def unat_mod_distrib u flip: page_size_def) (simp add: item_pos_def)
  then show thesis using u l(4) by (intro that [of ?off]) (simp_all add: ma_file_offset_def divE_def)
qed

lemma item_quot:
  assumes "0 < s" "j \<le> PAGE_SIZE_FILE div s"
  shows "(PAGE_SIZE_FILE - j * s) div s = PAGE_SIZE_FILE div s - j"
proof -
  have "j * s \<le> PAGE_SIZE_FILE div s * s" using assms(2) by (rule mult_le_mono1)
  also have "\<dots> \<le> PAGE_SIZE_FILE" by (rule div_times_less_eq_dividend)
  finally have e: "PAGE_SIZE_FILE = PAGE_SIZE_FILE - j * s + j * s" by simp
  have "PAGE_SIZE_FILE div s = j + (PAGE_SIZE_FILE - j * s) div s"
    using div_mult_self1 [of s "PAGE_SIZE_FILE - j * s" j] assms(1) by (subst e) simp
  then show ?thesis by simp
qed

lemma in_block_pos:
  assumes "0 < s" "s \<le> PAGE_SIZE_FILE"
  shows "item_pos s i + in_block s (i mod (PAGE_SIZE_FILE div s) * s) k = item_pos s (i + k)"
proof -
  let ?N = "PAGE_SIZE_FILE div s"
  have lt: "i mod ?N < ?N" using per_page(1) [OF assms] by simp
  have q: "(PAGE_SIZE_FILE - i mod ?N * s) div s = ?N - i mod ?N"
    by (rule item_quot) (use assms lt in simp_all)
  show ?thesis
  proof (cases "k < ?N - i mod ?N")
    case True
    then show ?thesis using item_pos_add(1) [OF assms, of i k] by (simp add: in_block_def q)
  next
    case False
    then have "?N \<le> i mod ?N + k" using lt by linarith
    from item_pos_add(2) [OF assms this] show ?thesis using False by (simp add: in_block_def q)
  qed
qed

lemma ma_buf_size_ok:
  assumes ok: "mgr_ok rinv rcap qrep mg" and inv: "ma_inv mg a" and le: "unat idx + unat len \<le> unat (ma_size a)"
    and off: "unat off = item_pos (item_size a) (unat idx)"
      "unat (first_offset off) = unat idx mod (PAGE_SIZE_FILE div item_size a) * item_size a"
  obtains sz where "ma_buf_size a off len = Inr sz"
    "unat off + unat sz \<le> item_pos (item_size a) (unat idx + unat len)"
    "\<And>k. k < unat len \<Longrightarrow> in_block (item_size a) (unat (first_offset off)) k + item_size a \<le> unat sz"
proof -
  have lay: "ma_layout a" using inv by (simp add: ma_inv_def)
  note l = ma_layoutD [OF lay]
  let ?s = "item_size a" and ?i = "unat idx" and ?l = "unat len" and ?o = "unat (first_offset off)"
  let ?N = "PAGE_SIZE_FILE div ?s" let ?rest = "PAGE_SIZE_FILE - ?o" let ?q = "?rest div ?s"
  have lt: "?i mod ?N < ?N" using per_page(1) [OF l(1,2)] by simp
  then have fit: "?o + ?s \<le> PAGE_SIZE_FILE" using per_page(2) [OF l(1,2)] by (simp add: off(2))
  have q: "?q = ?N - ?i mod ?N" unfolding off(2) by (rule item_quot) (use l(1) lt in simp_all)
  have "?l \<le> unat (ma_size a)" using le by simp
  note b = ma_inv_bound [OF ok inv this]
  have mul: "unat (len * ma_item_size a) = ?l * ?s" "unat (ma_item_size a * len) = ?l * ?s"
    using b(3) by (simp_all add: unat_mult_small l mult.commute)
  have fo: "first_offset off = off mod page_size" by (simp add: first_offset_def page_size_def)
  have rest: "unat (page_size - off mod page_size) = ?rest"
    using fit by (subst unat_sub_small) (simp_all add: fo)
  have P: "item_pos ?s ?i + in_block ?s ?o k = item_pos ?s (?i + k)" for k
    unfolding off(2) by (rule in_block_pos [OF l(1,2)])
  show thesis
  proof (cases "?l * ?s < ?rest")
    case True
    then have e: "ma_buf_size a off len = Inr (ma_item_size a * len)"
      by (simp add: ma_buf_size_def word_less_nat_alt rest mul)
    have ib: "in_block ?s ?o k = k * ?s" if "k < ?l" for k
    proof -
      have "Suc k * ?s \<le> ?l * ?s" by (rule mult_le_mono1) (use that in simp)
      then have "Suc k * ?s \<le> ?rest" using True by linarith
      then have "Suc k \<le> ?q" using l(1) by (simp only: less_eq_div_iff_mult_less_eq)
      then show ?thesis by (simp add: in_block_def)
    qed
    have le1: "in_block ?s ?o k + ?s \<le> ?l * ?s" if "k < ?l" for k
    proof -
      have "Suc k * ?s \<le> ?l * ?s" by (rule mult_le_mono1) (use that in simp)
      then show ?thesis using ib [OF that] by simp
    qed
    have "item_pos ?s ?i + ?l * ?s \<le> item_pos ?s (?i + ?l)"
    proof -
      have "?l * ?s \<le> in_block ?s ?o ?l"
      proof (cases "?l < ?q")
        case False
        then show ?thesis using True by (simp add: in_block_def Let_def)
      qed (simp add: in_block_def)
      then show ?thesis using P [of ?l] by linarith
    qed
    then show thesis using le1 by (intro that [OF e]) (simp_all add: mul off(1))
  next
    case False
    let ?m = "len - (page_size - off mod page_size) div ma_item_size a"
    have ql: "?q \<le> ?l"
    proof -
      have "?q \<le> ?l * ?s div ?s" by (rule div_le_mono) (use False in simp)
      then show ?thesis using l(1) by simp
    qed
    have dq: "unat ((page_size - off mod page_size) div ma_item_size a) = ?q"
      by (simp add: unat_div_distrib rest l)
    have m: "unat ?m = ?l - ?q" using ql by (subst unat_sub_small) (simp_all add: dq)
    have mb: "item_pos ?s (unat ?m) < 2 ^ 64"
      using item_pos_mono [OF l(1,2), of "unat ?m" ?l] b(2) by (simp add: m)
    let ?sz = "(page_size - off mod page_size) + (?m div ma_per a * page_size + ?m mod ma_per a * ma_item_size a)"
    have e: "ma_buf_size a off len = Inr ?sz"
      using False l(4,6) by (simp add: ma_buf_size_def word_less_nat_alt rest mul divE_def Let_def)
    have ib: "in_block ?s ?o k = (if k < ?q then k * ?s else ?rest + item_pos ?s (k - ?q))" for k
      by (simp add: in_block_def)
    have tot: "item_pos ?s ?i + (?rest + item_pos ?s (unat ?m)) = item_pos ?s (?i + ?l)"
      using P [of ?l] ql by (simp add: ib m)
    have lt64: "?rest + item_pos ?s (unat ?m) < 2 ^ 64"
      using ma_inv_bound(2) [OF ok inv le] tot by linarith
    have sz: "unat ?sz = ?rest + item_pos ?s (unat ?m)"
      using lt64 by (subst unat_add_small) (simp_all only: rest unat_item_pos(1) [OF lay mb])
    have fin: "in_block ?s ?o k + ?s \<le> ?rest + item_pos ?s (unat ?m)" if k: "k < ?l" for k
    proof (cases "k < ?q")
      case True
      then have "Suc k * ?s \<le> ?q * ?s" by (intro mult_le_mono1) simp
      then have "k * ?s + ?s \<le> ?rest" using div_times_less_eq_dividend [of ?rest ?s] unfolding mult_Suc by linarith
      then show ?thesis using True by (simp add: ib)
    next
      case False
      then show ?thesis using item_pos_less [OF l(1,2), of "k - ?q" "unat ?m"] k by (simp add: ib m)
    qed
    show thesis by (rule that [OF e]) (use tot fin in \<open>simp_all only: sz off(1) order_refl\<close>)
  qed
qed

section \<open>The items as a list\<close>

definition ma_items :: "('r, 'q) manager \<Rightarrow> mmap_array \<Rightarrow> byte list list" where
  "ma_items mg a = map (\<lambda>i. take (item_size a) (drop (item_pos (item_size a) i) (file_bytes mg (ma_fd a)))) [0..<unat (ma_size a)]"

definition ma_get_pages :: "mmap_array \<Rightarrow> u64 \<Rightarrow> u64 \<Rightarrow> nat" where
  "ma_get_pages a idx len =
     (case bindE (ma_file_offset a idx) (\<lambda>off. bindE (ma_buf_size a off len) (\<lambda>sz. Inr (num_page off sz))) of
        Inl e \<Rightarrow> 0 | Inr n \<Rightarrow> n)"

lemma ma_items_length [simp]: "length (ma_items mg a) = unat (ma_size a)"
  by (simp add: ma_items_def)

lemma ma_items_nth: "i < unat (ma_size a) \<Longrightarrow>
  ma_items mg a ! i = take (item_size a) (drop (item_pos (item_size a) i) (file_bytes mg (ma_fd a)))"
  by (simp add: ma_items_def)

lemma ma_item_in_file:
  assumes "ma_inv mg a" "i < unat (ma_size a)"
  shows "item_pos (item_size a) i + item_size a \<le> file_length mg (ma_fd a)"
  using item_pos_less [of "item_size a" i "unat (ma_size a)"] assms by (simp add: ma_inv_def ma_layout_def)

text \<open>Two writes into the file, seen through a window that holds the written range, or misses it.\<close>

lemma put_bytes_window:
  assumes "p \<le> pos" "pos + length d \<le> p + n" "p + n \<le> length c"
  shows "take n (drop p (put_bytes c pos d)) = put_bytes (take n (drop p c)) (pos - p) d"
  using assms by (intro nth_equalityI) (auto simp: put_bytes_length put_bytes_nth add.commute)

lemma put_bytes_other:
  assumes "p + n \<le> pos \<or> pos + length d \<le> p" "pos + length d \<le> length c" "p + n \<le> length c"
  shows "take n (drop p (put_bytes c pos d)) = take n (drop p c)"
  using assms by (intro nth_equalityI) (auto simp: put_bytes_length put_bytes_nth add.commute)

lemma put_bytes_inside:
  assumes "pos \<le> p" "p + n \<le> pos + length d" "pos + length d \<le> length c"
  shows "take n (drop p (put_bytes c pos d)) = take n (drop (p - pos) d)"
  using assms by (intro nth_equalityI) (auto simp: put_bytes_length put_bytes_nth add.commute)

section \<open>Properties\<close>

text \<open>C9: \<open>get(idx, len)\<close> of \<open>mmap_array\<close> returns a block that holds the items \<open>idx, .., idx + len - 1\<close>: for every item
  size up to a page, the block's \<open>Decode\<close> of \<open>k\<close> reads item \<open>idx + k\<close>, although items never straddle pages and the
  tail of a page may be unused; no file changes and no index computation wraps around.\<close>

theorem ma_get_reads_items:
  assumes "fifo_laws qops qrep" "mgr_ok s3_inv s3_cap qrep mg" "ma_inv mg a" "unat idx + unat len \<le> unat (ma_size a)"
    and "mgr_room mg (ma_get_pages a idx len + 1)"
  shows "\<exists>blk mg'. ma_get 4 s3_ops qops mg a idx len = Inr (blk, mg') \<and> mgr_ok s3_inv s3_cap qrep mg' \<and>
    (\<forall>k < unat len. bindE (Decode (item_size a) blk k) (read_obj (mgr_mem mg') blk (item_size a)) =
       Inr (ma_items mg a ! (unat idx + k))) \<and>
    (\<forall>fd. is_open mg fd \<longrightarrow> file_bytes mg' fd = file_bytes mg fd)"
proof -
  have lay: "ma_layout a" "is_open mg (ma_fd a)" using assms(3) by (simp_all add: ma_inv_def)
  note l = ma_layoutD [OF lay(1)]
  have le: "unat idx \<le> unat (ma_size a)" using assms(4) by simp
  obtain off where off: "ma_file_offset a idx = Inr off" "unat off = item_pos (item_size a) (unat idx)"
    "unat (first_offset off) = unat idx mod (PAGE_SIZE_FILE div item_size a) * item_size a"
    by (rule ma_file_offset_ok [OF assms(2,3) le])
  obtain sz where sz: "ma_buf_size a off len = Inr sz" "unat off + unat sz \<le> item_pos (item_size a) (unat idx + unat len)"
    "\<And>k. k < unat len \<Longrightarrow> in_block (item_size a) (unat (first_offset off)) k + item_size a \<le> unat sz"
    by (rule ma_buf_size_ok [OF assms(2-4) off(2,3)]) blast
  have r: "unat off + unat sz \<le> file_length mg (ma_fd a)"
    using sz(2) ma_inv_bound(1) [OF assms(2,3,4)] by linarith
  have rm: "mgr_room mg (num_page off sz + 1)" using assms(5) by (simp add: ma_get_pages_def off(1) sz(1))
  obtain blk mg' rs where g: "GetBlockSync 4 s3_ops qops mg off sz (ma_fd a) = Inr (blk, mg')" "mgr_ok s3_inv s3_cap qrep mg'"
    "mgr_same mg mg'" "shows_range mg' (ma_fd a) off sz blk"
    by (rule sieve3.GetBlockSync_ok [OF assms(1) order_refl assms(2) lay(2) r rm])
  have o: "is_open mg' (ma_fd a)" "unat off + unat sz \<le> file_length mg' (ma_fd a)"
    using lay(2) r g(3) by (simp_all add: mgr_same_def)
  have fb: "file_bytes mg' (ma_fd a) = file_bytes mg (ma_fd a)" by (rule mgr_same_bytes [OF g(3) lay(2)])
  have fit: "unat (first_offset off) + item_size a \<le> PAGE_SIZE_FILE" using per_page [OF l(1,2)] by (simp add: off(3))
  have "bindE (Decode (item_size a) blk k) (read_obj (mgr_mem mg') blk (item_size a)) = Inr (ma_items mg a ! (unat idx + k))"
    if "k < unat len" for k
    using range_item [OF g(2) o g(4) l(1,2) fit sz(3) [OF that]] that assms(4)
    by (simp add: fb ma_items_nth off(2) in_block_pos [OF l(1,2)] off(3))
  then show ?thesis
    using g(1,2) mgr_same_bytes [OF g(3)] off(1) sz(1) by (simp add: ma_get_def)
qed

lemma ma_get_partial_reads:
  assumes "fifo_laws qops qrep" "mgr_ok s3_inv s3_cap qrep mg" "ma_inv mg a" "unat idx < unat (ma_size a)"
    and "unat offset_in_item + unat n \<le> item_size a" "mgr_room mg 2"
  shows "\<exists>blk mg'. ma_get_partial 4 s3_ops qops mg a idx offset_in_item n = Inr (blk, mg') \<and> mgr_ok s3_inv s3_cap qrep mg' \<and>
    bb_content (mgr_mem mg') blk = take (unat n) (drop (unat offset_in_item) (ma_items mg a ! unat idx))"
proof -
  have lay: "ma_layout a" "is_open mg (ma_fd a)" using assms(3) by (simp_all add: ma_inv_def)
  note l = ma_layoutD [OF lay(1)]
  obtain off where off: "ma_file_offset a idx = Inr off" "unat off = item_pos (item_size a) (unat idx)"
    "unat (first_offset off) = unat idx mod (PAGE_SIZE_FILE div item_size a) * item_size a"
    by (rule ma_file_offset_ok [OF assms(2,3) less_imp_le [OF assms(4)]])
  note fl = ma_item_in_file [OF assms(3,4)]
  have L: "file_length mg (ma_fd a) \<le> PAGE_SIZE_FILE * 2 ^ 32"
    using assms(2) lay(2) by (simp add: mgr_ok_def is_open_def file_length_def)
  have fo: "first_offset off = off mod page_size" by (simp add: first_offset_def page_size_def)
  have fit: "unat (first_offset off) + item_size a \<le> PAGE_SIZE_FILE" using per_page [OF l(1,2)] by (simp add: off(3))
  have rest: "unat (page_size - off mod page_size - offset_in_item) = PAGE_SIZE_FILE - unat (first_offset off) - unat offset_in_item"
    using fit assms(5) by (subst unat_sub_small; subst unat_sub_small; simp add: fo)
  have st: "unat (off + offset_in_item) = item_pos (item_size a) (unat idx) + unat offset_in_item"
    using fl L assms(5) off(2) by (subst unat_add_small) (simp_all add: PAGE_SIZE_FILE_def)
  have r: "unat (off + offset_in_item) + unat n \<le> file_length mg (ma_fd a)" using fl assms(5) st by linarith
  have in1: "unat (first_offset (off + offset_in_item)) + unat n \<le> PAGE_SIZE_FILE"
  proof -
    have "unat (first_offset (off + offset_in_item)) \<le> unat (first_offset off) + unat offset_in_item"
      by (simp add: first_offset_def unat_mod_distrib st off(2) flip: page_size_def)
        (metis add_right_mono mod_add_left_eq mod_less_eq_dividend)
    then show ?thesis using fit assms(5) by linarith
  qed
  have "num_page (off + offset_in_item) n \<le> 1"
  proof (cases "n = 0")
    case True
    then show ?thesis by (simp add: num_page_def ceil_div_def PAGE_SIZE_FILE_def)
  next
    case False
    show ?thesis
    proof (rule ccontr)
      assume "\<not> num_page (off + offset_in_item) n \<le> 1"
      then show False using num_page_covers(2) [OF False, of 1 "off + offset_in_item"] in1 by simp
    qed
  qed
  then have rm: "mgr_room mg (num_page (off + offset_in_item) n + 1)" by (intro mgr_room_mono [OF assms(6)]) simp
  obtain blk mg' rs where g: "GetBlockSync 4 s3_ops qops mg (off + offset_in_item) n (ma_fd a) = Inr (blk, mg')"
    "mgr_ok s3_inv s3_cap qrep mg'" "mgr_same mg mg'" "shows_range mg' (ma_fd a) (off + offset_in_item) n blk"
    by (rule sieve3.GetBlockSync_ok [OF assms(1) order_refl assms(2) lay(2) r rm])
  have o: "is_open mg' (ma_fd a)" "unat (off + offset_in_item) + unat n \<le> file_length mg' (ma_fd a)"
    using lay(2) r g(3) by (simp_all add: mgr_same_def)
  have "bb_content (mgr_mem mg') blk = take (unat n) (drop (unat offset_in_item) (ma_items mg a ! unat idx))"
    unfolding shows_range_content(2) [OF g(2) o g(4)] mgr_same_bytes [OF g(3) lay(2)] st
    using assms(4,5) by (simp add: ma_items_nth drop_take min_def add.commute)
  moreover have "assertE (page_size - off mod page_size - offset_in_item \<ge> n) = Inr ()"
    using fit assms(5) by (simp add: word_le_nat_alt rest)
  ultimately show ?thesis using g(1,2) off(1) by (simp add: ma_get_partial_def)
qed

lemma ma_set_block:
  assumes "fifo_laws qops qrep" "mgr_ok s3_inv s3_cap qrep mg" "is_open mg fd"
    "unat pos + length val \<le> file_length mg fd" "unat sz = length val" "enough_rounds n pos sz"
  obtains r mg' where "SetBlock n 4 s3_ops qops mg val pos sz fd False = Inr (r, mg')" "mgr_ok s3_inv s3_cap qrep mg'"
    "file_bytes mg' fd = put_bytes (file_bytes mg fd) (unat pos) val"
    "\<forall>fd'. is_open mg fd' \<and> fd' \<noteq> fd \<longrightarrow> file_bytes mg' fd' = file_bytes mg fd'"
proof -
  have r: "unat pos + unat sz \<le> file_length mg fd" "unat sz \<le> length val" using assms(4,5) by simp_all
  have "\<exists>mg'. SetBlock n 4 s3_ops qops mg val pos sz fd False = Inr (0, mg') \<and> mgr_ok s3_inv s3_cap qrep mg' \<and>
    (\<forall>fd'. is_open mg fd' \<longrightarrow> is_open mg' fd' \<and> file_bytes mg' fd' =
       (if fd' = fd then put_bytes (file_bytes mg fd) (unat pos) (take (unat sz) val) else file_bytes mg fd'))"
    using sieve3.set_loop_ok [OF assms(1) order_refl assms(2,3) offset_in_page block_inside [OF assms(2,3) r(1)]
        r assms(6) [unfolded enough_rounds_def]]
    by (auto simp: SetBlock_def)
  then show thesis using that assms(3,5) by auto
qed

text \<open>\<open>set_partial\<close> of \<open>mmap_array\<close> changes exactly the given bytes of one item: as a list of items, the array
  after it is the array before with that item overwritten from \<open>offset_in_item\<close> on; no other file changes.\<close>

theorem ma_set_partial_updates_item:
  assumes "fifo_laws qops qrep" "mgr_ok s3_inv s3_cap qrep mg" "ma_inv mg a" "unat idx < unat (ma_size a)"
    and "unat offset_in_item + length val \<le> item_size a" "2 \<le> n"
  shows "\<exists>mg'. ma_set_partial n 4 s3_ops qops mg a idx offset_in_item val = Inr mg' \<and> mgr_ok s3_inv s3_cap qrep mg' \<and>
    ma_items mg' a = (ma_items mg a)[unat idx := put_bytes (ma_items mg a ! unat idx) (unat offset_in_item) val] \<and>
    (\<forall>fd. is_open mg fd \<and> fd \<noteq> ma_fd a \<longrightarrow> file_bytes mg' fd = file_bytes mg fd)"
proof -
  have lay: "ma_layout a" "is_open mg (ma_fd a)" using assms(3) by (simp_all add: ma_inv_def)
  note l = ma_layoutD [OF lay(1)]
  let ?s = "item_size a" and ?f = "file_bytes mg (ma_fd a)"
  obtain off where off: "ma_file_offset a idx = Inr off" "unat off = item_pos ?s (unat idx)"
    "unat (first_offset off) = unat idx mod (PAGE_SIZE_FILE div ?s) * ?s"
    by (rule ma_file_offset_ok [OF assms(2,3) less_imp_le [OF assms(4)]])
  note fl = ma_item_in_file [OF assms(3)]
  have L: "file_length mg (ma_fd a) \<le> PAGE_SIZE_FILE * 2 ^ 32"
    using assms(2) lay(2) by (simp add: mgr_ok_def is_open_def file_length_def)
  let ?pos = "off + offset_in_item" and ?sz = "word_of_nat (length val) :: u64"
  have st: "unat ?pos = item_pos ?s (unat idx) + unat offset_in_item"
    using fl [OF assms(4)] L assms(5) off(2) by (subst unat_add_small) (simp_all add: PAGE_SIZE_FILE_def)
  have sz: "unat ?sz = length val" using assms(5) l(2) by (simp add: unat_of_nat PAGE_SIZE_FILE_def)
  have fit: "unat (first_offset off) + ?s \<le> PAGE_SIZE_FILE" using per_page [OF l(1,2)] by (simp add: off(3))
  have "unat (first_offset ?pos) \<le> unat (first_offset off) + unat offset_in_item"
    by (simp add: first_offset_def unat_mod_distrib st off(2) flip: page_size_def)
      (metis add_right_mono mod_add_left_eq mod_less_eq_dividend)
  then have "unat (?pos mod word_of_nat PAGE_SIZE_FILE) + unat ?sz \<le> PAGE_SIZE_FILE"
    using fit assms(5) sz by (simp add: first_offset_def)
  then have "ceil_div (unat (?pos mod word_of_nat PAGE_SIZE_FILE) + unat ?sz) PAGE_SIZE_FILE < 2"
    using ceil_div_bounds(2) [OF PAGE_pos, of "unat (?pos mod word_of_nat PAGE_SIZE_FILE) + unat ?sz"]
    by (rule_tac ccontr) (simp add: PAGE_SIZE_FILE_def)
  then have en: "enough_rounds n ?pos ?sz" using assms(6) by (simp add: enough_rounds_def)
  have r: "unat ?pos + length val \<le> file_length mg (ma_fd a)" using fl [OF assms(4)] assms(5) st by linarith
  obtain x mg' where w: "SetBlock n 4 s3_ops qops mg val ?pos ?sz (ma_fd a) False = Inr (x, mg')" "mgr_ok s3_inv s3_cap qrep mg'"
    "file_bytes mg' (ma_fd a) = put_bytes ?f (unat ?pos) val"
    "\<forall>fd'. is_open mg fd' \<and> fd' \<noteq> ma_fd a \<longrightarrow> file_bytes mg' fd' = file_bytes mg fd'"
    by (rule ma_set_block [OF assms(1,2) lay(2) r sz en])
  have "ma_items mg' a = (ma_items mg a)[unat idx := put_bytes (ma_items mg a ! unat idx) (unat offset_in_item) val]"
  proof (rule nth_equalityI)
    fix i assume "i < length (ma_items mg' a)"
    then have i: "i < unat (ma_size a)" by simp
    show "ma_items mg' a ! i = (ma_items mg a)[unat idx := put_bytes (ma_items mg a ! unat idx) (unat offset_in_item) val] ! i"
    proof (cases "i = unat idx")
      case True
      then show ?thesis
        using put_bytes_window [of "item_pos ?s i" "unat ?pos" val ?s ?f] fl [OF i] i assms(5) st
        by (simp add: ma_items_nth w(3))
    next
      case False
      then have "item_pos ?s i + ?s \<le> item_pos ?s (unat idx) \<or> item_pos ?s (unat idx) + ?s \<le> item_pos ?s i"
        using item_pos_less [OF l(1,2)] by (cases "i < unat idx") simp_all
      then have "item_pos ?s i + ?s \<le> unat ?pos \<or> unat ?pos + length val \<le> item_pos ?s i" using st assms(5) by linarith
      then show ?thesis
        using put_bytes_other [of "item_pos ?s i" ?s "unat ?pos" val ?f] fl [OF i] r i False
        by (simp add: ma_items_nth w(3))
    qed
  qed simp
  then show ?thesis using w(1,2,4) off(1) by (simp add: ma_set_partial_def)
qed

text \<open>What \<open>set\<close> writes: the bytes from \<open>idx * item_size\<close> on.\<close>

lemma ma_set_bytes:
  assumes "fifo_laws qops qrep" "mgr_ok s3_inv s3_cap qrep mg" "ma_inv mg a" "unat idx + unat len \<le> unat (ma_size a)"
    and "length val = unat len * item_size a" "enough_rounds n (idx * ma_item_size a) (len * ma_item_size a)"
  obtains mg' where "ma_set n 4 s3_ops qops mg a idx val len = Inr mg'" "mgr_ok s3_inv s3_cap qrep mg'"
    "file_bytes mg' (ma_fd a) = put_bytes (file_bytes mg (ma_fd a)) (unat idx * item_size a) val"
    "unat idx * item_size a + length val \<le> file_length mg (ma_fd a)"
proof -
  have lay: "ma_layout a" "is_open mg (ma_fd a)" using assms(3) by (simp_all add: ma_inv_def)
  note l = ma_layoutD [OF lay(1)]
  have "unat idx \<le> unat (ma_size a)" "unat len \<le> unat (ma_size a)" using assms(4) by simp_all
  then have u: "unat (idx * ma_item_size a) = unat idx * item_size a" "unat (len * ma_item_size a) = unat len * item_size a"
    using ma_inv_bound(3) [OF assms(2,3)] by (simp_all add: unat_mult_small l)
  have r: "unat idx * item_size a + length val \<le> file_length mg (ma_fd a)"
    using item_pos_ge [OF l(1,2), of "unat idx + unat len"] ma_inv_bound(1) [OF assms(2-4)] assms(5)
    by (simp add: add_mult_distrib)
  obtain x mg' where "SetBlock n 4 s3_ops qops mg val (idx * ma_item_size a) (len * ma_item_size a) (ma_fd a) False = Inr (x, mg')"
    "mgr_ok s3_inv s3_cap qrep mg'" "file_bytes mg' (ma_fd a) = put_bytes (file_bytes mg (ma_fd a)) (unat (idx * ma_item_size a)) val"
    by (rule ma_set_block [OF assms(1,2) lay(2) r [folded u(1)] u(2) [folded assms(5)] assms(6)])
  then show thesis using r by (intro that) (simp_all add: ma_set_def u)
qed

text \<open>When the item size divides the page size, \<open>set(idx, val, len)\<close> of \<open>mmap_array\<close> replaces exactly the items
  \<open>idx, .., idx + len - 1\<close> by the pieces of \<open>val\<close> and keeps every other item.\<close>

theorem ma_set_updates_items:
  assumes "fifo_laws qops qrep" "mgr_ok s3_inv s3_cap qrep mg" "ma_inv mg a" "unat idx + unat len \<le> unat (ma_size a)"
    and "length val = unat len * item_size a" "enough_rounds n (idx * ma_item_size a) (len * ma_item_size a)"
    and "item_size a dvd PAGE_SIZE_FILE"
  shows "\<exists>mg'. ma_set n 4 s3_ops qops mg a idx val len = Inr mg' \<and> mgr_ok s3_inv s3_cap qrep mg' \<and>
    ma_items mg' a = take (unat idx) (ma_items mg a) @
      map (\<lambda>k. take (item_size a) (drop (k * item_size a) val)) [0..<unat len] @ drop (unat idx + unat len) (ma_items mg a)"
proof -
  let ?s = "item_size a" and ?f = "file_bytes mg (ma_fd a)"
  obtain mg' where w: "ma_set n 4 s3_ops qops mg a idx val len = Inr mg'" "mgr_ok s3_inv s3_cap qrep mg'"
    "file_bytes mg' (ma_fd a) = put_bytes ?f (unat idx * ?s) val" "unat idx * ?s + length val \<le> file_length mg (ma_fd a)"
    by (rule ma_set_bytes [OF assms(1-6)])
  have s: "0 < ?s" using assms(3) by (simp add: ma_inv_def ma_layout_def)
  note ip = item_pos_dvd [OF assms(7) s]
  have "ma_items mg' a = take (unat idx) (ma_items mg a) @
      map (\<lambda>k. take ?s (drop (k * ?s) val)) [0..<unat len] @ drop (unat idx + unat len) (ma_items mg a)"
  proof (rule nth_equalityI)
    fix i assume "i < length (ma_items mg' a)"
    then have i: "i < unat (ma_size a)" by simp
    have fl: "i * ?s + ?s \<le> file_length mg (ma_fd a)" using ma_item_in_file [OF assms(3) i] by (simp add: ip)
    consider "i < unat idx" | "unat idx \<le> i" "i < unat idx + unat len" | "unat idx + unat len \<le> i" by linarith
    then show "ma_items mg' a ! i = (take (unat idx) (ma_items mg a) @
      map (\<lambda>k. take ?s (drop (k * ?s) val)) [0..<unat len] @ drop (unat idx + unat len) (ma_items mg a)) ! i"
    proof cases
      case 1
      then have "Suc i * ?s \<le> unat idx * ?s" by (intro mult_le_mono1) simp
      then show ?thesis
        using put_bytes_other [of "i * ?s" ?s "unat idx * ?s" val ?f] 1 i fl w(4)
        by (simp add: ma_items_nth ip w(3) nth_append add.commute)
    next
      case 2
      then have "Suc i * ?s \<le> (unat idx + unat len) * ?s" "unat idx * ?s \<le> i * ?s" by (intro mult_le_mono1; simp)+
      moreover have "i - unat idx < unat len" using 2 by linarith
      ultimately show ?thesis
        using put_bytes_inside [of "unat idx * ?s" "i * ?s" ?s val ?f] 2 i w(4) assms(4,5)
        by (simp add: ma_items_nth ip w(3) nth_append add_mult_distrib diff_mult_distrib add.commute min_def)
    next
      case 3
      then have "(unat idx + unat len) * ?s \<le> i * ?s" by (intro mult_le_mono1)
      moreover have "\<not> i - unat idx < unat len" using 3 by linarith
      ultimately show ?thesis
        using put_bytes_other [of "i * ?s" ?s "unat idx * ?s" val ?f] 3 i fl w(4) assms(4,5)
        by (simp add: ma_items_nth ip w(3) nth_append add_mult_distrib)
    qed
  qed (use assms(4) in simp)
  then show ?thesis using w(1,2) by blast
qed

text \<open>C10: when the item size does not divide the page size, \<open>set\<close> of \<open>mmap_array\<close> puts the items from the second page on
  at another place than the one \<open>get\<close> and \<open>set_partial\<close> use: it writes the given bytes at \<open>idx * item_size\<close>, which lies
  before the item.\<close>

theorem ma_set_misplaces_items:
  assumes "fifo_laws qops qrep" "mgr_ok s3_inv s3_cap qrep mg" "ma_inv mg a" "unat idx + unat len \<le> unat (ma_size a)"
    and "length val = unat len * item_size a" "enough_rounds n (idx * ma_item_size a) (len * ma_item_size a)"
    and "\<not> item_size a dvd PAGE_SIZE_FILE" "PAGE_SIZE_FILE div item_size a \<le> unat idx"
  shows "\<exists>mg'. ma_set n 4 s3_ops qops mg a idx val len = Inr mg' \<and>
    file_bytes mg' (ma_fd a) = put_bytes (file_bytes mg (ma_fd a)) (unat idx * item_size a) val \<and>
    unat idx * item_size a < item_pos (item_size a) (unat idx)"
proof -
  let ?s = "item_size a" and ?i = "unat idx" let ?N = "PAGE_SIZE_FILE div ?s"
  obtain mg' where w: "ma_set n 4 s3_ops qops mg a idx val len = Inr mg'"
    "file_bytes mg' (ma_fd a) = put_bytes (file_bytes mg (ma_fd a)) (?i * ?s) val"
    by (rule ma_set_bytes [OF assms(1-6)])
  have s: "0 < ?s" "?s \<le> PAGE_SIZE_FILE" using assms(3) by (simp_all add: ma_inv_def ma_layout_def)
  have "?N * ?s < PAGE_SIZE_FILE"
    using div_times_less_eq_dividend [of PAGE_SIZE_FILE ?s] assms(7) by (metis dvd_triv_right le_neq_implies_less)
  moreover have "0 < ?i div ?N" using assms(8) per_page(1) [OF s] by (simp add: div_greater_zero_iff)
  ultimately have "?i div ?N * (?N * ?s) < ?i div ?N * PAGE_SIZE_FILE" by simp
  moreover have "?i * ?s = ?i div ?N * (?N * ?s) + ?i mod ?N * ?s"
    by (metis add_mult_distrib div_mult_mod_eq mult.assoc)
  ultimately have "?i * ?s < item_pos ?s ?i" by (simp add: item_pos_def)
  then show ?thesis using w by blast
qed

text \<open>An array of items of 400 bytes over the file of the small manager, ten to a page, and one of 8 bytes.\<close>

definition small_array :: "u64 \<Rightarrow> u64 \<Rightarrow> u16 \<Rightarrow> mmap_array" where
  "small_array sz item per = \<lparr>ma_fd = 0, ma_filename = ''f'', ma_size = sz, ma_read_only = False,
     ma_chunk_size = 4096, ma_item_size = item, ma_per_page = per\<rparr>"

lemma small_array_inv:
  assumes "is_open (small_mgr r) 0" "file_length (small_mgr r) 0 = 5000"
  shows "ma_inv (small_mgr r) (small_array 12 400 10)" "ma_inv (small_mgr r) (small_array 600 8 512)"
  using assms by (simp_all add: ma_inv_def ma_layout_def small_array_def item_size_def item_pos_def PAGE_SIZE_FILE_def)

lemma small_room:
  assumes "mgr_room (small_mgr r) (num_page 10 20 + 1)"
  shows "mgr_room (small_mgr r) 2"
proof -
  have "num_page 10 20 = 1" by code_simp
  then show ?thesis using assms by (simp add: numeral_2_eq_2)
qed

lemma ma_get_reads_items_witness:
  "\<exists>r blk mg'. ma_get 4 s3_ops list_queue (small_mgr r) (small_array 12 400 10) 10 2 = Inr (blk, mg') \<and>
     bindE (Decode 400 blk 1) (read_obj (mgr_mem mg') blk 400) = Inr (ma_items (small_mgr r) (small_array 12 400 10) ! 11)"
proof -
  obtain r where r: "mgr_ok s3_inv s3_cap (=) (small_mgr r)" "is_open (small_mgr r) 0"
    "file_length (small_mgr r) 0 = 5000" "mgr_room (small_mgr r) (num_page 10 20 + 1)"
    by (rule small_client) blast
  have n: "ma_get_pages (small_array 12 400 10) 10 2 = 1" by code_simp
  have rm: "mgr_room (small_mgr r) (ma_get_pages (small_array 12 400 10) 10 2 + 1)"
    using small_room [OF r(4)] unfolding n by (simp add: numeral_2_eq_2)
  have "unat (10 :: u64) + unat (2 :: u64) \<le> unat (ma_size (small_array 12 400 10))" by (simp add: small_array_def)
  from ma_get_reads_items [OF list_queue_laws r(1) small_array_inv(1) [OF r(2,3)] this rm]
  show ?thesis by (fastforce simp: item_size_def small_array_def)
qed

lemma ma_set_partial_updates_item_witness:
  "\<exists>r mg'. ma_set_partial 2 4 s3_ops list_queue (small_mgr r) (small_array 12 400 10) 11 398 [1, 2] = Inr mg' \<and>
     ma_items mg' (small_array 12 400 10) = (ma_items (small_mgr r) (small_array 12 400 10))
       [11 := put_bytes (ma_items (small_mgr r) (small_array 12 400 10) ! 11) 398 [1, 2]]"
proof -
  obtain r where r: "mgr_ok s3_inv s3_cap (=) (small_mgr r)" "is_open (small_mgr r) 0" "file_length (small_mgr r) 0 = 5000"
    by (rule small_mgr_ok)
  have "unat (11 :: u64) < unat (ma_size (small_array 12 400 10))"
    "unat (398 :: u64) + length [1, 2 :: u8] \<le> item_size (small_array 12 400 10)"
    by (simp_all add: small_array_def item_size_def)
  from ma_set_partial_updates_item [OF list_queue_laws r(1) small_array_inv(1) [OF r(2,3)] this order_refl]
  show ?thesis by auto
qed

lemma ma_set_updates_items_witness:
  "\<exists>r mg'. ma_set 2 4 s3_ops list_queue (small_mgr r) (small_array 600 8 512) 512 (replicate 16 1) 2 = Inr mg' \<and>
     ma_items mg' (small_array 600 8 512) = take 512 (ma_items (small_mgr r) (small_array 600 8 512)) @
       [replicate 8 1, replicate 8 1] @ drop 514 (ma_items (small_mgr r) (small_array 600 8 512))"
proof -
  obtain r where r: "mgr_ok s3_inv s3_cap (=) (small_mgr r)" "is_open (small_mgr r) 0" "file_length (small_mgr r) 0 = 5000"
    by (rule small_mgr_ok)
  have "enough_rounds 2 4096 16" by code_simp
  then have en: "enough_rounds 2 (512 * ma_item_size (small_array 600 8 512)) (2 * ma_item_size (small_array 600 8 512))"
    by (simp add: small_array_def)
  have h: "unat (512 :: u64) + unat (2 :: u64) \<le> unat (ma_size (small_array 600 8 512))"
    "length (replicate 16 (1 :: u8)) = unat (2 :: u64) * item_size (small_array 600 8 512)"
    "item_size (small_array 600 8 512) dvd PAGE_SIZE_FILE"
    by (simp_all add: small_array_def item_size_def PAGE_SIZE_FILE_def)
  have e: "map (\<lambda>k. take (item_size (small_array 600 8 512)) (drop (k * item_size (small_array 600 8 512)) (replicate 16 (1 :: u8))))
      [0..<unat (2 :: u64)] = [replicate 8 1, replicate 8 1]"
    by (simp add: small_array_def item_size_def upt_rec)
  show ?thesis
    using ma_set_updates_items [OF list_queue_laws r(1) small_array_inv(2) [OF r(2,3)] h(1,2) en h(3)] unfolding e by auto
qed

lemma ma_set_misplaces_items_witness:
  "\<exists>r mg'. ma_set 3 4 s3_ops list_queue (small_mgr r) (small_array 12 400 10) 10 (replicate 400 1) 1 = Inr mg' \<and>
     file_bytes mg' 0 = put_bytes (file_bytes (small_mgr r) 0) 4000 (replicate 400 1) \<and> 4000 < item_pos 400 10"
proof -
  obtain r where r: "mgr_ok s3_inv s3_cap (=) (small_mgr r)" "is_open (small_mgr r) 0" "file_length (small_mgr r) 0 = 5000"
    by (rule small_mgr_ok)
  have "enough_rounds 3 4000 400" by code_simp
  then have en: "enough_rounds 3 (10 * ma_item_size (small_array 12 400 10)) (1 * ma_item_size (small_array 12 400 10))"
    by (simp add: small_array_def)
  have h: "unat (10 :: u64) + unat (1 :: u64) \<le> unat (ma_size (small_array 12 400 10))"
    "length (replicate 400 (1 :: u8)) = unat (1 :: u64) * item_size (small_array 12 400 10)"
    "\<not> item_size (small_array 12 400 10) dvd PAGE_SIZE_FILE"
    "PAGE_SIZE_FILE div item_size (small_array 12 400 10) \<le> unat (10 :: u64)"
    by (simp_all add: small_array_def item_size_def PAGE_SIZE_FILE_def)
  have e: "ma_fd (small_array 12 400 10) = 0" "item_size (small_array 12 400 10) = 400" by (simp_all add: small_array_def item_size_def)
  show ?thesis
    using ma_set_misplaces_items [OF list_queue_laws r(1) small_array_inv(1) [OF r(2,3)] h(1,2) en h(3,4)] unfolding e by auto
qed

section \<open>Opening, growing, moving and linking\<close>

text \<open>What \<open>open\<close> leaves: the layout of the items; the file holds them all, unless the tail of its last page is a
  page's worth of items with some bytes missing at the end.\<close>

lemma ma_open_layout:
  assumes "ma_open qops mg a filename ro isz chunk (Some content) = Inr (a', mg')"
    and "unat isz \<le> PAGE_SIZE_FILE" "length content < 2 ^ 62"
  shows "ma_layout a'" "item_size a' = unat isz"
    "unat (ma_size a') = length content div PAGE_SIZE_FILE * (PAGE_SIZE_FILE div unat isz) +
       length content mod PAGE_SIZE_FILE div unat isz"
    "length content mod PAGE_SIZE_FILE < PAGE_SIZE_FILE div unat isz * unat isz \<Longrightarrow>
       item_pos (unat isz) (unat (ma_size a')) \<le> length content"
proof -
  let ?s = "unat isz" let ?N = "PAGE_SIZE_FILE div ?s" let ?n = "length content"
  have nz: "isz \<noteq> 0" using assms(1) by (auto simp: ma_open_def divE_def)
  then have s: "0 < ?s" by (simp add: unat_gt_0)
  obtain a1 mg1 fd where a': "a' = a1\<lparr>ma_filename := filename, ma_read_only := ro, ma_fd := fd,
      ma_size := word_of_nat ?n div page_size * ma_per a1 + word_of_nat ?n mod page_size div isz\<rparr>"
    and a1: "ma_item_size a1 = isz" "ma_per_page a1 = ucast (page_size div isz)"
    using assms(1) nz
    by (auto simp: ma_open_def divE_def bindE_eq_Inr ma_reset_def ma_close_def Let_def ma_per_def split: if_splits prod.splits)
  have N: "?N \<le> 4096" using div_le_dividend [of PAGE_SIZE_FILE ?s] by (simp add: PAGE_SIZE_FILE_def)
  have "unat (page_size div isz) = ?N" by (simp add: unat_div_distrib)
  then have p: "unat (ma_per_page a1) = ?N" using N by (simp add: a1 unsigned_ucast_eq take_bit_nat_eq_self_iff)
  then have pa: "unat (ma_per a1) = ?N" using N by (simp add: ma_per_def unsigned_ucast_eq take_bit_nat_eq_self_iff)
  show lay: "ma_layout a'" using s assms(2) p by (simp add: ma_layout_def item_size_def a' a1)
  show "item_size a' = ?s" by (simp add: item_size_def a' a1)
  have n: "unat (word_of_nat ?n :: u64) = ?n" using assms(3) by (simp add: unat_of_nat)
  have "?n div PAGE_SIZE_FILE * ?N \<le> ?n div PAGE_SIZE_FILE * PAGE_SIZE_FILE"
    using N by (intro mult_le_mono2) (simp add: PAGE_SIZE_FILE_def)
  also have "\<dots> \<le> ?n" by (rule div_times_less_eq_dividend)
  finally have b: "?n div PAGE_SIZE_FILE * ?N < 2 ^ 62" using assms(3) by linarith
  have c: "?n mod PAGE_SIZE_FILE div ?s < 2 ^ 62"
    using order.trans [OF div_le_dividend [of "?n mod PAGE_SIZE_FILE" ?s] mod_le_divisor [OF PAGE_pos, of ?n]]
    unfolding PAGE_SIZE_FILE_def by (rule le_less_trans) simp
  have 1: "unat (word_of_nat ?n div page_size * ma_per a1) = ?n div PAGE_SIZE_FILE * ?N"
    using b by (subst unat_mult_small) (simp_all add: unat_div_distrib n pa)
  have 2: "unat (word_of_nat ?n mod page_size div isz) = ?n mod PAGE_SIZE_FILE div ?s"
    by (simp add: unat_div_distrib unat_mod_distrib n)
  have "unat (word_of_nat ?n div page_size * ma_per a1 + word_of_nat ?n mod page_size div isz) =
      ?n div PAGE_SIZE_FILE * ?N + ?n mod PAGE_SIZE_FILE div ?s"
    using b c by (subst unat_add_small) (simp add: 1 2, simp add: 1 2)
  then show sz: "unat (ma_size a') = ?n div PAGE_SIZE_FILE * ?N + ?n mod PAGE_SIZE_FILE div ?s" by (simp add: a')
  show "item_pos ?s (unat (ma_size a')) \<le> ?n" if tail: "?n mod PAGE_SIZE_FILE < ?N * ?s"
  proof -
    have lt: "?n mod PAGE_SIZE_FILE div ?s < ?N" using tail s by (simp add: div_less_iff_less_mult)
    then have "item_pos ?s (unat (ma_size a')) = ?n div PAGE_SIZE_FILE * PAGE_SIZE_FILE + ?n mod PAGE_SIZE_FILE div ?s * ?s"
      by (simp add: item_pos_def sz)
    also have "\<dots> \<le> ?n div PAGE_SIZE_FILE * PAGE_SIZE_FILE + ?n mod PAGE_SIZE_FILE"
      by (intro add_left_mono div_times_less_eq_dividend)
    finally show ?thesis by simp
  qed
qed

text \<open>A writable array grows its file to exactly the items it is to hold.\<close>

lemma ma_resize_length:
  assumes "ma_layout a" "\<not> ma_read_only a" "ma_fd a \<noteq> - 1" "sz \<noteq> ma_size a" "item_pos (item_size a) (unat sz) < 2 ^ 64"
  obtains bytes where "ma_resize mg a sz = bindE (mgr_Resize mg (ma_fd a) bytes) (\<lambda>mg. Inr (a\<lparr>ma_size := sz\<rparr>, mg))"
    "unat bytes = item_pos (item_size a) (unat sz)"
  using assms ma_layoutD(4) [OF assms(1)] unat_item_pos(1) [OF assms(1,5)]
  by (intro that) (simp_all add: ma_resize_def divE_def add.commute)

text \<open>A moved array has the items' number and file of the old one, but not their size.\<close>

lemma ma_move_loses_layout:
  "fst (ma_move c i n a) = a\<lparr>ma_read_only := True, ma_item_size := i, ma_per_page := n\<rparr>"
  by (simp add: ma_move_def ma_swap_def ma_new_def)

text \<open>\<open>dump\<close> asks \<open>read_only_\<close> only after \<open>reset\<close> has set it: it always links and never renames.\<close>

lemma ma_dump_links:
  assumes "ma_dump qops mg a filename ex = Inr (act, a', mg')"
  shows "act = Hard_link (ma_filename a) filename"
  using assms by (auto simp: ma_dump_def bindE_eq_Inr ma_reset_def Let_def)

text \<open>After a read-only \<open>open\<close> of a file that does not exist, \<open>close\<close> hands the handle -1 to the manager.\<close>

lemma ma_open_missing:
  assumes "ma_open qops mg a filename True isz chunk None = Inr (a', mg')"
  shows "ma_fd a' = - 1" "length (fd_oss (mg_disk mg')) \<le> 4294967295 \<Longrightarrow> ma_close qops mg' a' = Inl OutOfBounds"
proof -
  show fd: "ma_fd a' = - 1" using assms by (auto simp: ma_open_def bindE_eq_Inr Let_def)
  assume "length (fd_oss (mg_disk mg')) \<le> 4294967295"
  moreover have "unat (- 1 :: u32) = 4294967295" by (simp add: unsigned_minus_1_eq_mask mask_eq_exp_minus_1)
  ultimately have "\<not> unat (- 1 :: u32) < length (fd_oss (mg_disk mg'))" by simp
  then show "ma_close qops mg' a' = Inl OutOfBounds"
    by (simp add: ma_close_def fd no_file_def INVALID_FILE_HANDLE_def mgr_CloseFile_def FlushFile_def ValidFD_def CloseFile_def
        GetFileDescriptor_def arr_get_def)
qed

end
