(* ===== verification/PoolObjects.thy ===== *)
theory PoolObjects
  imports BlockOps Blocks
begin

text \<open>
  The operations of one buffer pool on ranges of a file (\<open>BufferPool::GetObject\<close>, \<open>SetObject\<close> in
  \<^verbatim>\<open>src/buffer_pool.cpp\<close>) and its \<open>WarmUp\<close>, \<open>GetMemoryUsage\<close> and victim selection
  (\<^verbatim>\<open>include/buffer_pool.h\<close>).  \<open>WarmUp\<close> is proved to leave every page as it is; \<open>GetObject\<close> is
  proved to overwrite the page that it is meant to read.
\<close>

section \<open>Objects\<close>

text \<open>\<open>n\<close> bounds the rounds of the loops; each round accesses one page.\<close>

fun get_object_loop ::
  "nat \<Rightarrow> nat \<Rightarrow> 'r replacer_ops \<Rightarrow> 'q queue_ops \<Rightarrow> file_handle \<Rightarrow> byte list \<Rightarrow> fpage_id \<Rightarrow> u64 \<Rightarrow> u64 \<Rightarrow>
   ('r, 'q) buffer_pool \<Rightarrow> disk \<Rightarrow> (('r, 'q) buffer_pool \<times> disk) res" where
  "get_object_loop 0 fuel ops qops fd buf page_id page_offset block_size bp d = Inl OutOfFuel"
| "get_object_loop (Suc n) fuel ops qops fd buf page_id page_offset block_size bp d =
     (if block_size = 0 then Inr (bp, d)
      else bindE (use_page fuel ops qops page_id fd (DecRefCount_write True False)
          (\<lambda>page. pti_SetObject buf page page_offset block_size) bp d) (\<lambda>(object_size, bp, d).
        get_object_loop n fuel ops qops fd (drop (unat object_size) buf) (page_id + 1) 0
          (block_size - object_size) bp d))"

text \<open>The buffer is not written, so it is what it was.\<close>

definition bp_GetObject ::
  "nat \<Rightarrow> nat \<Rightarrow> 'r replacer_ops \<Rightarrow> 'q queue_ops \<Rightarrow> ('r, 'q) buffer_pool \<Rightarrow> disk \<Rightarrow> byte list \<Rightarrow> u64 \<Rightarrow> u64 \<Rightarrow>
   file_handle \<Rightarrow> (int \<times> byte list \<times> ('r, 'q) buffer_pool \<times> disk) res" where
  "bp_GetObject n fuel ops qops bp d buf file_offset block_size fd =
     bindE (get_object_loop n fuel ops qops fd buf (ucast (drop_bit LOG_PAGE_SIZE_FILE file_offset))
       (file_offset mod word_of_nat PAGE_SIZE_FILE) block_size bp d) (\<lambda>(bp, d). Inr (0, buf, bp, d))"

fun set_object_loop ::
  "nat \<Rightarrow> nat \<Rightarrow> 'r replacer_ops \<Rightarrow> 'q queue_ops \<Rightarrow> file_handle \<Rightarrow> bool \<Rightarrow> byte list \<Rightarrow> fpage_id \<Rightarrow> u64 \<Rightarrow> u64 \<Rightarrow>
   ('r, 'q) buffer_pool \<Rightarrow> disk \<Rightarrow> (('r, 'q) buffer_pool \<times> disk) res" where
  "set_object_loop 0 fuel ops qops fd flush buf fpage_id page_offset block_size bp d = Inl OutOfFuel"
| "set_object_loop (Suc n) fuel ops qops fd flush buf fpage_id page_offset block_size bp d =
     (if block_size = 0 then Inr (bp, d)
      else bindE (use_page fuel ops qops fpage_id fd (DecRefCount_write True False)
          (\<lambda>page. pti_SetObject buf page page_offset block_size) bp d) (\<lambda>(object_size, bp, d).
        bindE (if flush then bindE (FlushPage qops bp d fpage_id fd False) (\<lambda>(_, bp, d). Inr (bp, d))
          else Inr (bp, d)) (\<lambda>(bp, d).
        set_object_loop n fuel ops qops fd flush (drop (unat object_size) buf) (fpage_id + 1) 0
          (block_size - object_size) bp d)))"

definition bp_SetObject ::
  "nat \<Rightarrow> nat \<Rightarrow> 'r replacer_ops \<Rightarrow> 'q queue_ops \<Rightarrow> ('r, 'q) buffer_pool \<Rightarrow> disk \<Rightarrow> byte list \<Rightarrow> u64 \<Rightarrow> u64 \<Rightarrow>
   file_handle \<Rightarrow> bool \<Rightarrow> (int \<times> ('r, 'q) buffer_pool \<times> disk) res" where
  "bp_SetObject n fuel ops qops bp d buf file_offset block_size fd flush =
     bindE (set_object_loop n fuel ops qops fd flush buf (ucast (drop_bit LOG_PAGE_SIZE_FILE file_offset))
       (file_offset mod word_of_nat PAGE_SIZE_FILE) block_size bp d) (\<lambda>(bp, d). Inr (0, bp, d))"

section \<open>Warming up\<close>

text \<open>
  The pages of one file, then the files one after the other.  The results say whether the pool
  returned because its count of free pages reached 0; the count is a 64-bit number.
\<close>

fun warm_pages ::
  "nat \<Rightarrow> 'r replacer_ops \<Rightarrow> 'q queue_ops \<Rightarrow> file_handle \<Rightarrow> nat list \<Rightarrow> u64 \<Rightarrow> ('r, 'q) buffer_pool \<Rightarrow> disk \<Rightarrow>
   (bool \<times> u64 \<times> ('r, 'q) buffer_pool \<times> disk) res" where
  "warm_pages fuel ops qops fd [] free_page_num bp d = Inr (False, free_page_num, bp, d)"
| "warm_pages fuel ops qops fd (p # ps) free_page_num bp d =
     (if GetPartitionId (pt_partitioner (bp_page_table bp)) (word_of_nat p) \<noteq> bp_pool_ID bp
      then warm_pages fuel ops qops fd ps free_page_num bp d
      else bindE (use_page fuel ops qops (word_of_nat p) fd DecRefCount (\<lambda>page. Inr ((), page)) bp d) (\<lambda>(_, bp, d).
        let free_page_num = free_page_num - 1 in
        if free_page_num = 0 then Inr (True, free_page_num, bp, d)
        else warm_pages fuel ops qops fd ps free_page_num bp d))"

fun warm_files ::
  "nat \<Rightarrow> 'r replacer_ops \<Rightarrow> 'q queue_ops \<Rightarrow> nat list \<Rightarrow> u64 \<Rightarrow> ('r, 'q) buffer_pool \<Rightarrow> disk \<Rightarrow>
   (('r, 'q) buffer_pool \<times> disk) res" where
  "warm_files fuel ops qops [] free_page_num bp d = Inr (bp, d)"
| "warm_files fuel ops qops (fd # fds) free_page_num bp d =
     bindE (arr_get (fd_oss d) fd) (\<lambda>(_, valid).
     if \<not> valid then warm_files fuel ops qops fds free_page_num bp d
     else bindE (arr_get (file_size_inBytes d) fd) (\<lambda>sz.
       bindE (warm_pages fuel ops qops (word_of_nat fd) [0..<ceil_div (unat sz) PAGE_SIZE_FILE] free_page_num bp d)
         (\<lambda>(returned, free_page_num, bp, d).
       if returned then Inr (bp, d) else warm_files fuel ops qops fds free_page_num bp d)))"

definition bp_WarmUp ::
  "nat \<Rightarrow> 'r replacer_ops \<Rightarrow> 'q queue_ops \<Rightarrow> ('r, 'q) buffer_pool \<Rightarrow> disk \<Rightarrow> (('r, 'q) buffer_pool \<times> disk) res" where
  "bp_WarmUp fuel ops qops bp d =
     warm_files fuel ops qops [0..<length (file_size_inBytes d)] (GetFreePageNum bp) bp d"

text \<open>The memory of the page table and of the policy are given by their own operations.\<close>

definition bp_GetMemoryUsage ::
  "u64 \<Rightarrow> u64 \<Rightarrow> ('r, 'q) buffer_pool \<Rightarrow> u64 \<times> u64 \<times> u64 \<times> u64 \<times> u64" where
  "bp_GetMemoryUsage page_table_usage replacer_usage bp =
     (let free_list_usage = lq_GetMemoryUsage (bp_free_list bp) in
      ((word_of_nat (length (bp_memory_pool bp)) - lq_Size (bp_free_list bp)) * word_of_nat PAGE_SIZE_FILE,
       page_table_usage + replacer_usage + free_list_usage, page_table_usage, replacer_usage, free_list_usage))"

section \<open>A fetch leaves the table of files alone\<close>

definition same_table :: "disk \<Rightarrow> disk \<Rightarrow> bool" where
  "same_table d d' \<longleftrightarrow> fd_oss d' = fd_oss d \<and> file_size_inBytes d' = file_size_inBytes d"

lemma same_table_refl [simp]: "same_table d d"
  by (simp add: same_table_def)

lemma same_table_trans: "same_table d d1 \<Longrightarrow> same_table d1 d2 \<Longrightarrow> same_table d d2"
  by (simp add: same_table_def)

lemma Write_table: "RWSysCall_Write d offset data fd = Inr (ok, d') \<Longrightarrow> same_table d d'"
  by (auto simp: RWSysCall_Write_def os_write_def disk_Resize_def bindE_eq_Inr arr_get_eq_Inr arr_set_eq_Inr same_table_def
      case_prod_beta split: if_splits)

lemma ReadWrite_table:
  "ReadWriteSync bp d offset m fd is_read = Inr (ok, bp', d') \<Longrightarrow> same_table d d' \<and> bp_pool_ID bp' = bp_pool_ID bp"
  by (auto simp: ReadWriteSync_def bindE_eq_Inr Write_table split: if_splits)

lemma Pin_table: "Pin ops bp p fd = Inr (ret, bp') \<Longrightarrow> bp_pool_ID bp' = bp_pool_ID bp"
  by (auto simp: Pin_def bindE_eq_Inr Let_def case_prod_beta split: if_splits)

definition same_ids :: "('r, 'q) fetch_state \<Rightarrow> ('r, 'q) fetch_state \<Rightarrow> bool" where
  "same_ids st st' \<longleftrightarrow> same_table (fs_disk st) (fs_disk st') \<and> bp_pool_ID (fs_bp st') = bp_pool_ID (fs_bp st)"

lemma same_ids_refl [simp]: "same_ids st st"
  by (simp add: same_ids_def)

lemma pin_phase_table: "pin_phase ops p fd st = Inr st' \<Longrightarrow> same_ids st st'"
  by (auto simp: pin_phase_def bindE_eq_Inr same_ids_def dest: Pin_table)

lemma begin_phase_table: "begin_phase ops p fd st = Inr st' \<Longrightarrow> same_ids st st'"
  by (auto simp: begin_phase_def bindE_eq_Inr Let_def same_ids_def split: if_splits prod.splits
      dest!: pin_phase_table)

lemma initing_phase_table: "initing_phase ops qops st = Inr st' \<Longrightarrow> same_ids st st'"
  by (auto simp: initing_phase_def bindE_eq_Inr Let_def same_ids_def split: prod.splits option.splits)

lemma evicting_phase_table: "evicting_phase st = Inr st' \<Longrightarrow> same_ids st st'"
  by (auto simp: evicting_phase_def bindE_eq_Inr same_ids_def split: if_splits dest: ReadWrite_table)

lemma loading_phase_table: "loading_phase ops p fd st = Inr st' \<Longrightarrow> same_ids st st'"
  by (auto simp: loading_phase_def bindE_eq_Inr Let_def same_ids_def dest!: ReadWrite_table)

lemma fetch_step_table: "fetch_step ops qops p fd st = Inr (b, st') \<Longrightarrow> same_ids st st'"
  by (cases "fs_stat st")
    (auto simp: fetch_step_def bindE_eq_Inr
      dest: begin_phase_table initing_phase_table evicting_phase_table loading_phase_table)

lemma fetch_loop_table: "fetch_loop fuel ops qops p fd st = Inr st' \<Longrightarrow> same_ids st st'"
proof (induction fuel arbitrary: st)
  case (Suc fuel)
  then obtain b st1 where s: "fetch_step ops qops p fd st = Inr (b, st1)" "b \<and> st' = st1 \<or> fetch_loop fuel ops qops p fd st1 = Inr st'"
    by (auto simp: bindE_eq_Inr split: if_splits)
  then show ?case using fetch_step_table [OF s(1)] Suc.IH [of st1] same_table_trans by (auto simp: same_ids_def)
qed simp

lemma FetchPageSync_table:
  "FetchPageSync fuel ops qops bp d p fd = Inr (ret, bp', d') \<Longrightarrow> same_table d d' \<and> bp_pool_ID bp' = bp_pool_ID bp"
  by (auto simp: FetchPageSync_def bindE_eq_Inr same_ids_def split: if_splits dest!: Pin_table fetch_loop_table)

lemma use_page_table:
  "use_page fuel ops qops p fd release f bp d = Inr (x, bp', d') \<Longrightarrow> same_table d d' \<and> bp_pool_ID bp' = bp_pool_ID bp"
  by (auto simp: use_page_def bindE_eq_Inr dest!: FetchPageSync_table)

section \<open>Accesses of one pool\<close>

text \<open>Every page of an open file that belongs to the pool has a mapping.\<close>

definition pages_known :: "partition_id \<Rightarrow> ('r, 'q) buffer_pool \<Rightarrow> disk \<Rightarrow> bool" where
  "pages_known k bp d \<longleftrightarrow> (\<forall>fd p. in_file d fd p \<and> GetPartitionId (pt_partitioner (bp_page_table bp)) p = k \<longrightarrow>
     fd < 8192 \<and> pt_word (bp_page_table bp) fd p \<noteq> None)"

text \<open>What operations that only read leave behind.\<close>

definition undisturbed ::
  "partition_id \<Rightarrow> ('r, 'q) buffer_pool \<Rightarrow> disk \<Rightarrow> ('r, 'q) buffer_pool \<Rightarrow> disk \<Rightarrow> bool" where
  "undisturbed k bp d bp' d' \<longleftrightarrow> same_table d d' \<and> bp_pool_ID bp' = bp_pool_ID bp \<and>
     pt_partitioner (bp_page_table bp') = pt_partitioner (bp_page_table bp) \<and>
     (\<forall>fd q. pt_word (bp_page_table bp') fd q = None \<longleftrightarrow> pt_word (bp_page_table bp) fd q = None) \<and>
     disk_step (pt_partitioner (bp_page_table bp)) k d d' \<and>
     (\<forall>fd q. opened d fd \<longrightarrow> GetPartitionId (pt_partitioner (bp_page_table bp)) q = k \<longrightarrow>
        page_bytes bp' d' fd q = page_bytes bp d fd q) \<and>
     has_room (bp_page_table bp')"

lemma undisturbed_refl: "pool_ok rinv rcap qrep k bp d \<Longrightarrow> has_room (bp_page_table bp) \<Longrightarrow> undisturbed k bp d bp d"
  by (auto simp: undisturbed_def pool_ok_def dest: pool_coreD(11))

lemma undisturbed_trans:
  assumes "undisturbed k bp d bp1 d1" "undisturbed k bp1 d1 bp2 d2"
  shows "undisturbed k bp d bp2 d2"
  using assms disk_step_trans [of "pt_partitioner (bp_page_table bp)" k d d1 d2]
  by (auto simp: undisturbed_def same_table_def disk_step_def)

lemma undisturbed_known:
  assumes "undisturbed k bp d bp' d'" "pages_known k bp d"
  shows "pages_known k bp' d'"
proof -
  have "in_file d' fd p = in_file d fd p" for fd p
    using assms(1) disk_step_in_file by (auto simp: undisturbed_def)
  then show ?thesis using assms by (simp add: pages_known_def undisturbed_def)
qed

text \<open>The table of files has no more entries than handles, and its valid ones are open files.\<close>

definition files_listed :: "disk \<Rightarrow> bool" where
  "files_listed d \<longleftrightarrow> length (file_size_inBytes d) \<le> length (fd_oss d) \<and> length (file_size_inBytes d) \<le> 2 ^ 32 \<and>
     (\<forall>fd < length (file_size_inBytes d). snd (fd_oss d ! fd) \<longrightarrow> opened d (word_of_nat fd) \<and>
        length (file_of d (word_of_nat fd)) \<le> PAGE_SIZE_FILE * 2 ^ 32)"

lemma files_listed_step:
  assumes "files_listed d" "same_table d d'" "disk_step pr k d d'"
  shows "files_listed d'"
  using assms by (auto simp: files_listed_def same_table_def disk_step_def)

lemma use_page_run:
  assumes "FetchPageSync fuel ops qops bp d p fd = Inr (Some m, bp1, d')" "m < frames (bp_page_table bp1)"
    "length (bp_memory_pool bp1) = frames (bp_page_table bp1)" "f (bp_memory_pool bp1 ! m) = Inr (x, b')"
  shows "use_page fuel ops qops p fd release f bp d = Inr (x, bp1\<lparr>bp_memory_pool := (bp_memory_pool bp1)[m := b'],
        bp_page_table := put_pte (bp_page_table bp1) m (release (pte_of (bp_page_table bp1) m))\<rparr>, d')"
  using assms by (simp add: use_page_def FromPageId_pte_of)

context replacer
begin

lemma pool_read_page:
  assumes laws: "fifo_laws qops qrep" and ok: "pool_ok rinv rcap qrep k bp d" and i: "in_file d fd p"
    and kn: "pages_known k bp d" and p: "GetPartitionId (pt_partitioner (bp_page_table bp)) p = k"
    and room: "has_room (bp_page_table bp)" and fuel: "4 \<le> fuel"
  obtains bp' d' where "use_page fuel ops qops p fd DecRefCount (\<lambda>page. Inr ((), page)) bp d = Inr ((), bp', d')"
    "pool_ok rinv rcap qrep k bp' d'" "undisturbed k bp d bp' d'"
proof -
  have w: "fd < 8192" "pt_word (bp_page_table bp) fd p \<noteq> None" using kn i p by (auto simp: pages_known_def)
  obtain m bp1 d' where a: "FetchPageSync fuel ops qops bp d p fd = Inr (Some m, bp1, d')"
    "m < frames (bp_page_table bp1)" "length (bp_memory_pool bp1) = frames (bp_page_table bp1)"
    "pool_ok rinv rcap qrep k (bp1\<lparr>bp_page_table := put_pte (bp_page_table bp1) m
       (DecRefCount (pte_of (bp_page_table bp1) m))\<rparr>) d'"
    "accessed k bp d fd p (page_bytes bp d fd p) (bp1\<lparr>bp_page_table := put_pte (bp_page_table bp1) m
       (DecRefCount (pte_of (bp_page_table bp1) m))\<rparr>) d'"
    by (rule access_ok [OF laws ok i w(1) p w(2) room fuel]) blast
  let ?bp = "bp1\<lparr>bp_page_table := put_pte (bp_page_table bp1) m (DecRefCount (pte_of (bp_page_table bp1) m))\<rparr>"
  have run: "use_page fuel ops qops p fd DecRefCount (\<lambda>page. Inr ((), page)) bp d = Inr ((), ?bp, d')"
    using use_page_run [OF a(1-3), of "\<lambda>page. Inr ((), page)" "()"] by simp
  show thesis
    by (rule that [OF run a(4)])
      (use a(5) use_page_table [OF run] in \<open>simp add: undisturbed_def accessed_def\<close>)
qed

lemma pool_write_page:
  assumes laws: "fifo_laws qops qrep" and ok: "pool_ok rinv rcap qrep k bp d" and i: "in_file d fd p"
    and kn: "pages_known k bp d" and p: "GetPartitionId (pt_partitioner (bp_page_table bp)) p = k"
    and room: "has_room (bp_page_table bp)" and fuel: "4 \<le> fuel"
    and len: "off + length buf \<le> PAGE_SIZE_FILE" "off + length buf \<le> length (file_of d fd) - unat p * PAGE_SIZE_FILE"
    and f: "\<And>page. length page = PAGE_SIZE_FILE \<Longrightarrow> f page = Inr (x, put_bytes page off buf)"
  obtains bp' d' where "use_page fuel ops qops p fd (DecRefCount_write True False) f bp d = Inr (x, bp', d')"
    "pool_ok rinv rcap qrep k bp' d'" "accessed k bp d fd p (put_bytes (page_bytes bp d fd p) off buf) bp' d'"
proof -
  have w: "fd < 8192" "pt_word (bp_page_table bp) fd p \<noteq> None" using kn i p by (auto simp: pages_known_def)
  obtain m bp1 d' where a: "FetchPageSync fuel ops qops bp d p fd = Inr (Some m, bp1, d')"
    "m < frames (bp_page_table bp1)" "length (bp_memory_pool bp1) = frames (bp_page_table bp1)"
    "length (bp_memory_pool bp1 ! m) = PAGE_SIZE_FILE"
    "visible (file_of d fd) p (bp_memory_pool bp1 ! m) = page_bytes bp d fd p"
    "\<And>b. length b = PAGE_SIZE_FILE \<Longrightarrow> pool_ok rinv rcap qrep k (bp1\<lparr>bp_memory_pool := (bp_memory_pool bp1)[m := b],
       bp_page_table := put_pte (bp_page_table bp1) m (DecRefCount_write True False (pte_of (bp_page_table bp1) m))\<rparr>) d'"
    "\<And>b. length b = PAGE_SIZE_FILE \<Longrightarrow> accessed k bp d fd p (visible (file_of d fd) p b)
       (bp1\<lparr>bp_memory_pool := (bp_memory_pool bp1)[m := b],
       bp_page_table := put_pte (bp_page_table bp1) m (DecRefCount_write True False (pte_of (bp_page_table bp1) m))\<rparr>) d'"
    by (rule access_ok [OF laws ok i w(1) p w(2) room fuel]) blast
  let ?b = "bp_memory_pool bp1 ! m" let ?b' = "put_bytes ?b off buf"
  have l: "length ?b' = PAGE_SIZE_FILE" using a(4) len(1) by (simp add: put_bytes_length)
  have "visible (file_of d fd) p ?b' = put_bytes (visible (file_of d fd) p ?b) off buf"
    using a(4) len by (intro nth_equalityI) (auto simp: visible_def put_bytes_length put_bytes_nth)
  then have v: "visible (file_of d fd) p ?b' = put_bytes (page_bytes bp d fd p) off buf" by (simp only: a(5))
  show thesis
    by (rule that [OF use_page_run [where f = f, OF a(1-3) f [OF a(4)]] a(6) [OF l] a(7) [OF l, unfolded v]])
qed

lemma warm_pages_ok:
  assumes laws: "fifo_laws qops qrep" and fuel: "4 \<le> fuel"
  shows "pool_ok rinv rcap qrep k bp d \<Longrightarrow> pages_known k bp d \<Longrightarrow> bp_pool_ID bp = k \<Longrightarrow> has_room (bp_page_table bp) \<Longrightarrow>
    undisturbed k bp0 d0 bp d \<Longrightarrow> (\<And>p. p \<in> set ps \<Longrightarrow> in_file d fd (word_of_nat p)) \<Longrightarrow>
    \<exists>ret n' bp' d'. warm_pages fuel ops qops fd ps n bp d = Inr (ret, n', bp', d') \<and> pool_ok rinv rcap qrep k bp' d' \<and>
      undisturbed k bp0 d0 bp' d'"
proof (induction ps arbitrary: n bp d)
  case (Cons p ps)
  show ?case
  proof (cases "GetPartitionId (pt_partitioner (bp_page_table bp)) (word_of_nat p) = k")
    case True
    obtain bp1 d1 where s: "use_page fuel ops qops (word_of_nat p) fd DecRefCount (\<lambda>page. Inr ((), page)) bp d = Inr ((), bp1, d1)"
      "pool_ok rinv rcap qrep k bp1 d1" "undisturbed k bp d bp1 d1"
      by (rule pool_read_page [OF laws Cons.prems(1) Cons.prems(6) Cons.prems(2) True Cons.prems(4) fuel]) simp
    have u: "undisturbed k bp0 d0 bp1 d1" by (rule undisturbed_trans [OF Cons.prems(5) s(3)])
    have "\<exists>ret n' bp' d'. warm_pages fuel ops qops fd ps (n - 1) bp1 d1 = Inr (ret, n', bp', d') \<and> pool_ok rinv rcap qrep k bp' d' \<and>
        undisturbed k bp0 d0 bp' d'"
    proof (rule Cons.IH [OF s(2) undisturbed_known [OF s(3) Cons.prems(2)] _ _ u])
      show "bp_pool_ID bp1 = k" "has_room (bp_page_table bp1)" using s(3) Cons.prems(3) by (simp_all add: undisturbed_def)
      show "in_file d1 fd (word_of_nat q)" if "q \<in> set ps" for q
        using Cons.prems(6) [of q] that s(3) disk_step_in_file by (auto simp: undisturbed_def)
    qed
    then show ?thesis using True s(1,2) u Cons.prems(3) by (auto simp: Let_def)
  next
    case False
    have "\<exists>ret n' bp' d'. warm_pages fuel ops qops fd ps n bp d = Inr (ret, n', bp', d') \<and> pool_ok rinv rcap qrep k bp' d' \<and>
        undisturbed k bp0 d0 bp' d'"
      by (rule Cons.IH [OF Cons.prems(1-5)]) (use Cons.prems(6) in simp)
    then show ?thesis using False Cons.prems(3) by simp
  qed
qed auto

lemma warm_files_ok:
  assumes laws: "fifo_laws qops qrep" and fuel: "4 \<le> fuel"
  shows "pool_ok rinv rcap qrep k bp d \<Longrightarrow> pages_known k bp d \<Longrightarrow> bp_pool_ID bp = k \<Longrightarrow> has_room (bp_page_table bp) \<Longrightarrow>
    undisturbed k bp0 d0 bp d \<Longrightarrow> files_listed d \<Longrightarrow> \<forall>fd\<in>set fds. fd < length (file_size_inBytes d) \<Longrightarrow>
    \<exists>bp' d'. warm_files fuel ops qops fds n bp d = Inr (bp', d') \<and> pool_ok rinv rcap qrep k bp' d' \<and>
      undisturbed k bp0 d0 bp' d'"
proof (induction fds arbitrary: n bp d)
  case (Cons fd fds)
  have fl: "fd < length (file_size_inBytes d)" "files_listed d" using Cons.prems(6,7) by auto
  then have lt: "fd < length (fd_oss d)" "unat (word_of_nat fd :: file_handle) = fd"
    by (auto simp: files_listed_def unat_of_nat)
  obtain h valid where e: "fd_oss d ! fd = (h, valid)" by (cases "fd_oss d ! fd")
  show ?case
  proof (cases valid)
    case False
    have "\<exists>bp' d'. warm_files fuel ops qops fds n bp d = Inr (bp', d') \<and> pool_ok rinv rcap qrep k bp' d' \<and>
        undisturbed k bp0 d0 bp' d'"
      by (rule Cons.IH [OF Cons.prems(1-6)]) (use Cons.prems(7) in simp)
    then show ?thesis using False lt e by simp
  next
    case True
    let ?fd = "word_of_nat fd :: file_handle"
    have o: "opened d ?fd" "length (file_of d ?fd) \<le> PAGE_SIZE_FILE * 2 ^ 32"
      using fl True e by (auto simp: files_listed_def)
    have sz: "unat (file_size_inBytes d ! fd) = length (file_of d ?fd)" using o(1) lt(2) by (simp add: opened_def file_ok_def)
    have inf: "in_file d ?fd (word_of_nat p)" if p: "p < ceil_div (unat (file_size_inBytes d ! fd)) PAGE_SIZE_FILE" for p
    proof -
      have "(p + 1) * PAGE_SIZE_FILE \<le> ceil_div (length (file_of d ?fd)) PAGE_SIZE_FILE * PAGE_SIZE_FILE"
        using p unfolding sz by (intro mult_le_mono1) simp
      then have "p * PAGE_SIZE_FILE < length (file_of d ?fd)"
        using ceil_div_bounds(2) [OF PAGE_pos, of "length (file_of d ?fd)"] by (simp add: add_mult_distrib)
      then show ?thesis using o by (simp add: in_file_def unat_of_nat PAGE_SIZE_FILE_def)
    qed
    obtain ret n' bp1 d1 where w: "warm_pages fuel ops qops ?fd [0..<ceil_div (unat (file_size_inBytes d ! fd)) PAGE_SIZE_FILE] n bp d =
        Inr (ret, n', bp1, d1)" "pool_ok rinv rcap qrep k bp1 d1" "undisturbed k bp d bp1 d1"
      using warm_pages_ok [OF laws fuel Cons.prems(1-4) undisturbed_refl [OF Cons.prems(1,4)],
          of "[0..<ceil_div (unat (file_size_inBytes d ! fd)) PAGE_SIZE_FILE]" ?fd n] inf by auto
    have u: "undisturbed k bp0 d0 bp1 d1" by (rule undisturbed_trans [OF Cons.prems(5) w(3)])
    have t: "same_table d d1" "pt_partitioner (bp_page_table bp1) = pt_partitioner (bp_page_table bp)"
      "disk_step (pt_partitioner (bp_page_table bp)) k d d1" using w(3) by (simp_all add: undisturbed_def)
    have "\<exists>bp' d'. warm_files fuel ops qops fds n' bp1 d1 = Inr (bp', d') \<and> pool_ok rinv rcap qrep k bp' d' \<and>
        undisturbed k bp0 d0 bp' d'"
    proof (rule Cons.IH [OF w(2) undisturbed_known [OF w(3) Cons.prems(2)] _ _ u])
      show "bp_pool_ID bp1 = k" "has_room (bp_page_table bp1)" using w(3) Cons.prems(3) by (simp_all add: undisturbed_def)
      show "files_listed d1" by (rule files_listed_step [OF fl(2) t(1,3)])
      show "\<forall>x\<in>set fds. x < length (file_size_inBytes d1)" using Cons.prems(7) t(1) by (simp add: same_table_def)
    qed
    then show ?thesis using True lt fl(1) e w(1,2) u by (cases ret) auto
  qed
qed auto

end

section \<open>Properties\<close>

text \<open>C14: warming up a pool changes nothing that a reader can see.  \<open>WarmUp\<close> returns, keeps the invariant of the pool, and
  every page of the pool shows the bytes it showed before, however many pages it loads and evicts on the way.\<close>

theorem WarmUp_keeps_pages:
  assumes "fifo_laws qops qrep" "pool_ok s3_inv s3_cap qrep k bp d" "bp_pool_ID bp = k" "has_room (bp_page_table bp)"
    and "pages_known k bp d" "files_listed d"
  shows "\<exists>bp' d'. bp_WarmUp 4 s3_ops qops bp d = Inr (bp', d') \<and> pool_ok s3_inv s3_cap qrep k bp' d' \<and>
    (\<forall>fd p. opened d fd \<longrightarrow> GetPartitionId (pt_partitioner (bp_page_table bp)) p = k \<longrightarrow>
       page_bytes bp' d' fd p = page_bytes bp d fd p)"
proof -
  note u = undisturbed_refl [OF assms(2,4)]
  have "\<exists>bp' d'. warm_files 4 s3_ops qops [0..<length (file_size_inBytes d)] (GetFreePageNum bp) bp d = Inr (bp', d') \<and>
      pool_ok s3_inv s3_cap qrep k bp' d' \<and> undisturbed k bp d bp' d'"
    by (rule sieve3.warm_files_ok [OF assms(1) order_refl assms(2,5,3,4) u assms(6)]) simp
  then show ?thesis by (auto simp: bp_WarmUp_def undisturbed_def)
qed

text \<open>C15: \<open>BufferPool::GetObject\<close> does the opposite of what it is called for.  For a range within one page of an open file it
  returns 0, leaves the caller's buffer as it was, and replaces the bytes of the range in the page by the buffer.\<close>

theorem GetObject_overwrites_page:
  assumes "fifo_laws qops qrep" "pool_ok s3_inv s3_cap qrep k bp d" "has_room (bp_page_table bp)" "pages_known k bp d"
    and "opened d fd" "unat file_offset + length buf \<le> length (file_of d fd)" "length (file_of d fd) \<le> PAGE_SIZE_FILE * 2 ^ 32"
    and "unat (first_offset file_offset) + length buf \<le> PAGE_SIZE_FILE" "buf \<noteq> []"
    and "GetPartitionId (pt_partitioner (bp_page_table bp)) (first_page file_offset) = k"
  shows "\<exists>bp' d'. bp_GetObject 2 4 s3_ops qops bp d buf file_offset (word_of_nat (length buf)) fd = Inr (0, buf, bp', d') \<and>
    pool_ok s3_inv s3_cap qrep k bp' d' \<and>
    page_bytes bp' d' fd (first_page file_offset) =
      put_bytes (page_bytes bp d fd (first_page file_offset)) (unat (first_offset file_offset)) buf"
proof -
  let ?p = "first_page file_offset" and ?o = "first_offset file_offset" and ?n = "word_of_nat (length buf) :: u64"
  have lt: "unat file_offset < PAGE_SIZE_FILE * 2 ^ 32"
  proof -
    have "0 < length buf" using assms(9) by simp
    then show ?thesis using assms(6,7) by linarith
  qed
  have st: "unat file_offset = unat ?p * PAGE_SIZE_FILE + unat ?o"
    using block_start [OF lt] by (simp add: first_page_def first_offset_def)
  have lb: "length buf \<le> 4096" using assms(8) by (simp add: PAGE_SIZE_FILE_def)
  then have n: "unat ?n = length buf" by (simp add: unat_of_nat)
  then have nz: "?n \<noteq> 0" using assms(9) by auto
  have i: "in_file d fd ?p" using assms(5,6,9) st by (cases buf) (auto simp: in_file_def)
  have "?o + ?n \<le> 4096"
    using assms(8) n lb by (simp add: word_le_nat_alt unat_word_ariths PAGE_SIZE_FILE_def)
  then have c: "clip_to_page ?o ?n = ?n" by (simp add: clip_to_page_def PAGE_SIZE_FILE_def add.commute flip: not_le)
  have f: "pti_SetObject buf page ?o ?n = Inr (?n, put_bytes page (unat ?o) buf)" if "length page = PAGE_SIZE_FILE" for page
    using assms(8) that by (simp add: pti_SetObject_def c memcpy_def put_bytes_def n)
  have "unat ?o + length buf \<le> length (file_of d fd) - unat ?p * PAGE_SIZE_FILE" using assms(6) st by linarith
  then obtain bp' d' where r: "use_page 4 s3_ops qops ?p fd (DecRefCount_write True False) (\<lambda>page. pti_SetObject buf page ?o ?n) bp d =
      Inr (?n, bp', d')" "pool_ok s3_inv s3_cap qrep k bp' d'"
    "accessed k bp d fd ?p (put_bytes (page_bytes bp d fd ?p) (unat ?o) buf) bp' d'"
    by (rule sieve3.pool_write_page [OF assms(1,2) i assms(4,10,3) order_refl assms(8) _ f])
  have "bp_GetObject 2 4 s3_ops qops bp d buf file_offset ?n fd = Inr (0, buf, bp', d')"
    using r(1) nz by (simp add: bp_GetObject_def numeral_2_eq_2 first_page_def first_offset_def)
  then show ?thesis using r(2,3) assms(5,10) by (auto simp: accessed_def)
qed

text \<open>The small pool, which holds one page of a file of two.\<close>

lemma small_warm:
  obtains r where "pool_ok s3_inv s3_cap (=) 0 (small_pool r) small_disk" "pages_known 0 (small_pool r) small_disk"
    "has_room (bp_page_table (small_pool r))" "files_listed small_disk" "bp_pool_ID (small_pool r) = 0"
proof -
  obtain r where r: "mgr_ok s3_inv s3_cap (=) (small_mgr r)" by (rule small_mgr_ok)
  have p: "pool_of (small_mgr r) p = 0" "GetPartitionId (mg_partitioner (small_mgr r)) p = 0"
    "mg_pools (small_mgr r) ! 0 = small_pool r" "mg_disk (small_mgr r) = small_disk" for p
    by (simp_all add: pool_of_def small_mgr_def GetPartitionId_def)
  note m = mgr_ok_pool [OF r, of 0, unfolded p]
  have "pages_known 0 (small_pool r) small_disk"
    using r unfolding mgr_ok_def pages_known_def by (metis p(1,3,4))
  moreover have "files_listed small_disk"
    using small_disk_file by (auto simp: files_listed_def small_disk_def OpenFile_def opened_def file_of_def file_ok_def PAGE_SIZE_FILE_def)
  ultimately show thesis using m by (intro that [of r]) (simp_all add: small_pool_def)
qed

lemma WarmUp_keeps_pages_witness:
  "\<exists>r bp' d'. bp_WarmUp 4 s3_ops list_queue (small_pool r) small_disk = Inr (bp', d') \<and>
     page_bytes bp' d' 0 1 = page_bytes (small_pool r) small_disk 0 1"
proof -
  obtain r where r: "pool_ok s3_inv s3_cap (=) 0 (small_pool r) small_disk" "pages_known 0 (small_pool r) small_disk"
    "has_room (bp_page_table (small_pool r))" "files_listed small_disk" "bp_pool_ID (small_pool r) = 0"
    by (rule small_warm)
  have "GetPartitionId (pt_partitioner (bp_page_table (small_pool r))) 1 = 0" by (simp add: small_pt_sel GetPartitionId_def)
  then show ?thesis
    using WarmUp_keeps_pages [OF list_queue_laws r(1,5,3,2,4)] small_disk_file(2) by blast
qed

lemma GetObject_overwrites_page_witness:
  "\<exists>r bp' d'. bp_GetObject 2 4 s3_ops list_queue (small_pool r) small_disk [1, 2] 100 2 0 = Inr (0, [1, 2], bp', d') \<and>
     page_bytes bp' d' 0 0 = put_bytes (page_bytes (small_pool r) small_disk 0 0) 100 [1, 2]"
proof -
  obtain r where r: "pool_ok s3_inv s3_cap (=) 0 (small_pool r) small_disk" "pages_known 0 (small_pool r) small_disk"
    "has_room (bp_page_table (small_pool r))"
    by (rule small_warm)
  have f: "unat (100 :: u64) + length [1, 2 :: u8] \<le> length (file_of small_disk 0)"
    "length (file_of small_disk 0) \<le> PAGE_SIZE_FILE * 2 ^ 32"
    using small_disk_file(1) by (simp_all add: PAGE_SIZE_FILE_def)
  have o: "first_page 100 = 0" "first_offset 100 = 100" by code_simp+
  have l: "unat (first_offset 100) + length [1, 2 :: u8] \<le> PAGE_SIZE_FILE" by (simp add: o PAGE_SIZE_FILE_def)
  have g: "GetPartitionId (pt_partitioner (bp_page_table (small_pool r))) (first_page 100) = 0"
    by (simp add: small_pt_sel GetPartitionId_def)
  show ?thesis
    using GetObject_overwrites_page [OF list_queue_laws r(1,3,2) small_disk_file(2) f l _ g] by (auto simp: o)
qed

end
