(* ===== verification/NullList.thy ===== *)
theory NullList
  imports Clock
begin

text \<open>
  Lists of heap nodes between two null pointers, with pointers to the first and the last node: the
  lists of \<open>SieveReplacer\<close> and \<open>LFUReplacer\<close> (\<^verbatim>\<open>include/replacer/sieve_replacer.h\<close>,
  \<^verbatim>\<open>LFU_replacer.h\<close>), whose nodes carry a frequency as those of \<open>ClockReplacer\<close> do.  Inserting at either
  end and removing a node are proved to act on the list of addresses.
\<close>

section \<open>The operations\<close>

definition null_heap :: "clock_node node_heap" where
  "null_heap = \<lparr>nh_nodes = (\<lambda>_. None), nh_fresh = 1\<rparr>"

definition nl_prepend :: "clock_node node_heap \<Rightarrow> nat \<Rightarrow> nat \<Rightarrow> nat \<Rightarrow> (clock_node node_heap \<times> nat \<times> nat) res" where
  "nl_prepend h front rear target =
     bindE (nh_set_prev h target NULL_ADDR) (\<lambda>h.
     bindE (nh_set_next h target front) (\<lambda>h.
     let rear = (if rear = NULL_ADDR then target else rear) in
     bindE (if front \<noteq> NULL_ADDR then nh_set_prev h front target else Inr h) (\<lambda>h.
     Inr (h, target, rear))))"

definition nl_append :: "clock_node node_heap \<Rightarrow> nat \<Rightarrow> nat \<Rightarrow> nat \<Rightarrow> (clock_node node_heap \<times> nat \<times> nat) res" where
  "nl_append h front rear target =
     bindE (nh_set_next h target NULL_ADDR) (\<lambda>h.
     bindE (nh_set_prev h target rear) (\<lambda>h.
     let front = (if front = NULL_ADDR then target else front) in
     bindE (if rear \<noteq> NULL_ADDR then nh_set_next h rear target else Inr h) (\<lambda>h.
     Inr (h, front, target))))"

definition nl_remove :: "clock_node node_heap \<Rightarrow> nat \<Rightarrow> nat \<Rightarrow> nat \<Rightarrow> (clock_node node_heap \<times> nat \<times> nat) res" where
  "nl_remove h front rear target =
     bindE (nh_get h target) (\<lambda>n.
     bindE (if target = front then
         bindE (if pn_next n \<noteq> NULL_ADDR then nh_set_prev h (pn_next n) NULL_ADDR else Inr h) (\<lambda>h. Inr (h, pn_next n))
       else Inr (h, front)) (\<lambda>(h, front).
     bindE (nh_get h target) (\<lambda>n.
     bindE (if target = rear then
         bindE (if pn_prev n \<noteq> NULL_ADDR then nh_set_next h (pn_prev n) NULL_ADDR else Inr h) (\<lambda>h. Inr (h, pn_prev n))
       else Inr (h, rear)) (\<lambda>(h, rear).
     bindE (nh_get h target) (\<lambda>n.
     bindE (if pn_prev n \<noteq> NULL_ADDR then nh_set_next h (pn_prev n) (pn_next n) else Inr h) (\<lambda>h.
     bindE (nh_get h target) (\<lambda>n.
     bindE (if pn_next n \<noteq> NULL_ADDR then nh_set_prev h (pn_next n) (pn_prev n) else Inr h) (\<lambda>h.
     bindE (nh_set_prev h target NULL_ADDR) (\<lambda>h.
     bindE (nh_set_next h target NULL_ADDR) (\<lambda>h.
     Inr (h, front, rear)))))))))))"

lemma put_twice [nh_simps]:
  "put_nxt (put_nxt h p q) p r = put_nxt h p r" "put_prv (put_prv h p q) p r = put_prv h p r"
  by (simp_all add: put_nxt_def put_prv_def nh_put_def)

section \<open>Segments\<close>

text \<open>\<open>seg nxt prv b ps a\<close>: the nodes \<open>ps\<close> are linked in both directions, \<open>b\<close> before and \<open>a\<close> after them.\<close>

definition first_of :: "nat \<Rightarrow> nat list \<Rightarrow> nat" where
  "first_of a ps = (case ps of [] \<Rightarrow> a | p # _ \<Rightarrow> p)"

definition last_of :: "nat \<Rightarrow> nat list \<Rightarrow> nat" where
  "last_of b ps = (if ps = [] then b else last ps)"

lemma first_of_simps [simp]: "first_of a [] = a" "first_of a (p # ps) = p"
  by (simp_all add: first_of_def)

lemma last_of_simps [simp]: "last_of b [] = b" "last_of b (p # ps) = last_of p ps" "last_of b (ps @ [q]) = q"
  by (auto simp: last_of_def)

lemma first_last_append: "first_of a (ys @ zs) = first_of (first_of a zs) ys" "last_of b (ys @ zs) = last_of (last_of b ys) zs"
  by (cases ys; simp) (auto simp: last_of_def)

lemma first_of_any: "ps \<noteq> [] \<Longrightarrow> first_of a ps = first_of b ps"
  by (cases ps) simp_all

lemma first_of_in: "first_of a ps \<in> insert a (set ps)"
  by (cases ps) simp_all

lemma last_of_in: "last_of b ps \<in> insert b (set ps)"
  by (auto simp: last_of_def)

fun seg :: "(nat \<Rightarrow> nat) \<Rightarrow> (nat \<Rightarrow> nat) \<Rightarrow> nat \<Rightarrow> nat list \<Rightarrow> nat \<Rightarrow> bool" where
  "seg nxt prv b [] a \<longleftrightarrow> True"
| "seg nxt prv b (p # ps) a \<longleftrightarrow> prv p = b \<and> nxt p = first_of a ps \<and> seg nxt prv p ps a"

lemma seg_append: "seg nxt prv b (ys @ zs) a \<longleftrightarrow> seg nxt prv b ys (first_of a zs) \<and> seg nxt prv (last_of b ys) zs a"
  by (induction ys arbitrary: b) (auto simp: first_last_append)

lemma seg_cong:
  "(\<And>p. p \<in> set ps \<Longrightarrow> nxt' p = nxt p \<and> prv' p = prv p) \<Longrightarrow> seg nxt' prv' b ps a = seg nxt prv b ps a"
  by (induction ps arbitrary: b) auto

lemma seg_after:
  assumes "seg nxt prv b ys a" "distinct ys"
  shows "seg (nxt(last_of x ys := a')) prv b ys a'"
proof (cases ys rule: rev_cases)
  case (snoc us u)
  then have "seg (nxt(u := a')) prv b us u = seg nxt prv b us u" using assms(2) by (intro seg_cong) auto
  then show ?thesis using assms snoc by (simp add: seg_append)
qed simp

lemma seg_before:
  assumes "seg nxt prv b zs a" "distinct zs"
  shows "seg nxt (prv(first_of x zs := b')) b' zs a"
proof (cases zs)
  case (Cons u us)
  then have "seg nxt (prv(u := b')) u us a = seg nxt prv u us a" using assms(2) by (intro seg_cong) auto
  then show ?thesis using assms Cons by simp
qed simp

lemma seg_nth:
  "seg nxt prv b ps a \<Longrightarrow> k < length ps \<Longrightarrow> prv (ps ! k) = (b # ps) ! k"
proof (induction ps arbitrary: b k)
  case (Cons p ps)
  then show ?case by (cases k) auto
qed simp

section \<open>Lists in the heap\<close>

definition null_shape :: "clock_node node_heap \<Rightarrow> nat list \<Rightarrow> bool" where
  "null_shape h ps \<longleftrightarrow> seg (nh_nxt h) (nh_prv h) NULL_ADDR ps NULL_ADDR \<and> distinct ps \<and> set ps \<subseteq> nh_dom h \<and>
     NULL_ADDR \<notin> nh_dom h"

text \<open>What the operations on links keep.\<close>

definition same_data :: "clock_node node_heap \<Rightarrow> clock_node node_heap \<Rightarrow> bool" where
  "same_data h h' \<longleftrightarrow> nh_val h' = nh_val h \<and> nh_frq h' = nh_frq h \<and> nh_dom h' = nh_dom h \<and> nh_fresh h' = nh_fresh h"

lemma same_data_simps [simp]: "same_data h h"
  by (simp add: same_data_def)

lemma null_heap_shape [simp]: "null_shape null_heap []" "nh_dom null_heap = {}" "nh_fresh null_heap = 1"
  by (simp_all add: null_shape_def null_heap_def nh_dom_def)

lemma nl_remove_shape:
  assumes s: "null_shape h (ys @ t # zs)"
  shows "\<exists>h'. nl_remove h (first_of NULL_ADDR (ys @ t # zs)) (last_of NULL_ADDR (ys @ t # zs)) t =
      Inr (h', first_of NULL_ADDR (ys @ zs), last_of NULL_ADDR (ys @ zs)) \<and> null_shape h' (ys @ zs) \<and> same_data h h' \<and>
    (\<forall>q. q \<notin> set (ys @ t # zs) \<longrightarrow> nh_nxt h' q = nh_nxt h q \<and> nh_prv h' q = nh_prv h q)"
proof -
  let ?a = "last_of NULL_ADDR ys" and ?b = "first_of NULL_ADDR zs"
  have d: "distinct (ys @ t # zs)" "set (ys @ t # zs) \<subseteq> nh_dom h" "NULL_ADDR \<notin> nh_dom h"
    and sg: "seg (nh_nxt h) (nh_prv h) NULL_ADDR ys t" "nh_prv h t = ?a" "nh_nxt h t = ?b" "seg (nh_nxt h) (nh_prv h) t zs NULL_ADDR"
    using s by (simp_all add: null_shape_def seg_append)
  have t: "t \<in> nh_dom h" "t \<noteq> NULL_ADDR" using d by auto
  have a: "?a = NULL_ADDR \<and> ys = [] \<or> ?a \<in> set ys \<and> ?a \<in> nh_dom h \<and> ?a \<noteq> NULL_ADDR \<and> ?a \<noteq> t \<and> ys \<noteq> []"
    using d by (cases ys rule: rev_cases) auto
  have b: "?b = NULL_ADDR \<and> zs = [] \<or> ?b \<in> set zs \<and> ?b \<in> nh_dom h \<and> ?b \<noteq> NULL_ADDR \<and> ?b \<noteq> t \<and> zs \<noteq> []"
    using d by (cases zs) auto
  have ab: "?a = ?b \<Longrightarrow> ?a = NULL_ADDR" using a b d(1) by auto
  have hd: "first_of NULL_ADDR (ys @ t # zs) = (if ys = [] then t else first_of NULL_ADDR ys)"
    "ys \<noteq> [] \<Longrightarrow> first_of NULL_ADDR ys \<noteq> t" "first_of NULL_ADDR (ys @ zs) = (if ys = [] then ?b else first_of NULL_ADDR ys)"
    using d(1) by (cases ys; auto)+
  have tl: "last_of NULL_ADDR (ys @ t # zs) = (if zs = [] then t else last zs)" "zs \<noteq> [] \<Longrightarrow> last zs \<noteq> t"
    "last_of NULL_ADDR (ys @ zs) = (if zs = [] then ?a else last zs)"
    using d(1) last_in_set [of zs] by (auto simp: last_of_def)
  define h1 where "h1 = (if ?a = NULL_ADDR then h else put_nxt h ?a ?b)"
  define h2 where "h2 = (if ?b = NULL_ADDR then h1 else put_prv h1 ?b ?a)"
  define h3 where "h3 = put_nxt (put_prv h2 t NULL_ADDR) t NULL_ADDR"
  have dom: "nh_dom h1 = nh_dom h" "nh_dom h2 = nh_dom h" "nh_dom h3 = nh_dom h"
    using a b t(1) by (auto simp: h1_def h2_def h3_def nh_simps)
  have same: "same_data h h3"
    using dom by (auto simp: same_data_def h1_def h2_def h3_def nh_simps)
  have nx: "nh_nxt h3 = (if ys = [] then nh_nxt h else (nh_nxt h)(?a := ?b))(t := NULL_ADDR)"
    and pv: "nh_prv h3 = (if zs = [] then nh_prv h else (nh_prv h)(?b := ?a))(t := NULL_ADDR)"
    using a b by (auto simp: h1_def h2_def h3_def nh_simps)
  have ret: "nl_remove h (first_of NULL_ADDR (ys @ t # zs)) (last_of NULL_ADDR (ys @ t # zs)) t =
      Inr (h3, first_of NULL_ADDR (ys @ zs), last_of NULL_ADDR (ys @ zs))"
    unfolding hd(1,3) tl(1,3) using a b ab t sg(2,3) hd(2) tl(2) d(2,3) dom
    by (cases "ys = []"; cases "zs = []") (simp_all add: nl_remove_def nh_simps h1_def h2_def h3_def)
  have "seg (nh_nxt h3) (nh_prv h3) NULL_ADDR ys ?b"
  proof (cases "ys = []")
    case False
    have "seg ((nh_nxt h)(?a := ?b)) (nh_prv h) NULL_ADDR ys ?b" using seg_after [OF sg(1)] d(1) by simp
    moreover have "seg (nh_nxt h3) (nh_prv h3) NULL_ADDR ys ?b = seg ((nh_nxt h)(?a := ?b)) (nh_prv h) NULL_ADDR ys ?b"
      using d(1) b False by (intro seg_cong) (auto simp: nx pv)
    ultimately show ?thesis by simp
  qed simp
  moreover have "seg (nh_nxt h3) (nh_prv h3) ?a zs NULL_ADDR"
  proof (cases "zs = []")
    case False
    have "seg (nh_nxt h) ((nh_prv h)(?b := ?a)) ?a zs NULL_ADDR" using seg_before [OF sg(4)] d(1) by simp
    moreover have "seg (nh_nxt h3) (nh_prv h3) ?a zs NULL_ADDR = seg (nh_nxt h) ((nh_prv h)(?b := ?a)) ?a zs NULL_ADDR"
      using d(1) a False by (intro seg_cong) (auto simp: nx pv)
    ultimately show ?thesis by simp
  qed simp
  ultimately have "null_shape h3 (ys @ zs)" using d dom by (auto simp: null_shape_def seg_append)
  moreover have "nh_nxt h3 q = nh_nxt h q \<and> nh_prv h3 q = nh_prv h q" if "q \<notin> set (ys @ t # zs)" for q
    using that a b by (auto simp: nx pv)
  ultimately show ?thesis using ret same by blast
qed

lemma nl_add_shape:
  assumes s: "null_shape h ps" and t: "t \<in> nh_dom h" "t \<notin> set ps"
  shows "\<exists>h'. nl_prepend h (first_of NULL_ADDR ps) (last_of NULL_ADDR ps) t = Inr (h', t, last_of NULL_ADDR (t # ps)) \<and>
      null_shape h' (t # ps) \<and> same_data h h' \<and> (\<forall>q. q \<notin> set (t # ps) \<longrightarrow> nh_nxt h' q = nh_nxt h q \<and> nh_prv h' q = nh_prv h q)"
    "\<exists>h'. nl_append h (first_of NULL_ADDR ps) (last_of NULL_ADDR ps) t = Inr (h', first_of NULL_ADDR (ps @ [t]), t) \<and>
      null_shape h' (ps @ [t]) \<and> same_data h h' \<and> (\<forall>q. q \<notin> set (ps @ [t]) \<longrightarrow> nh_nxt h' q = nh_nxt h q \<and> nh_prv h' q = nh_prv h q)"
proof -
  let ?f = "first_of NULL_ADDR ps" and ?l = "last_of NULL_ADDR ps"
  have d: "distinct ps" "set ps \<subseteq> nh_dom h" "NULL_ADDR \<notin> nh_dom h" "seg (nh_nxt h) (nh_prv h) NULL_ADDR ps NULL_ADDR"
    using s by (simp_all add: null_shape_def)
  have f: "ps = [] \<and> ?f = NULL_ADDR \<or> ps \<noteq> [] \<and> ?f \<in> set ps \<and> ?f \<in> nh_dom h \<and> ?f \<noteq> NULL_ADDR \<and> ?f \<noteq> t"
    using d t by (cases ps) auto
  have l: "ps = [] \<and> ?l = NULL_ADDR \<or> ps \<noteq> [] \<and> ?l \<in> set ps \<and> ?l \<in> nh_dom h \<and> ?l \<noteq> NULL_ADDR \<and> ?l \<noteq> t"
    using d t by (cases ps rule: rev_cases) auto
  let ?g = "put_nxt (put_prv h t NULL_ADDR) t ?f"
  define h1 where "h1 = (if ps = [] then ?g else put_prv ?g ?f t)"
  have dom: "nh_dom h1 = nh_dom h" "same_data h h1" using t(1) f by (auto simp: h1_def nh_simps same_data_def)
  have nx: "nh_nxt h1 = (nh_nxt h)(t := ?f)"
    and pv: "nh_prv h1 = (if ps = [] then (nh_prv h)(t := NULL_ADDR) else (nh_prv h)(t := NULL_ADDR, ?f := t))"
    by (auto simp: h1_def nh_simps)
  have "seg (nh_nxt h1) (nh_prv h1) t ps NULL_ADDR"
  proof (cases "ps = []")
    case False
    have "seg (nh_nxt h) ((nh_prv h)(?f := t)) t ps NULL_ADDR" by (rule seg_before [OF d(4,1)])
    moreover have "seg (nh_nxt h1) (nh_prv h1) t ps NULL_ADDR = seg (nh_nxt h) ((nh_prv h)(?f := t)) t ps NULL_ADDR"
      using t(2) False by (intro seg_cong) (auto simp: nx pv)
    ultimately show ?thesis by simp
  qed simp
  then have "null_shape h1 (t # ps)" using d(1-3) t f by (auto simp: null_shape_def dom nx pv)
  moreover have "nl_prepend h ?f ?l t = Inr (h1, t, last_of NULL_ADDR (t # ps))"
    using t(1) f l by (cases "ps = []") (auto simp: nl_prepend_def nh_simps h1_def last_of_def)
  moreover have "nh_nxt h1 q = nh_nxt h q \<and> nh_prv h1 q = nh_prv h q" if "q \<notin> set (t # ps)" for q
    using that f by (auto simp: nx pv)
  ultimately show "\<exists>h'. nl_prepend h ?f ?l t = Inr (h', t, last_of NULL_ADDR (t # ps)) \<and> null_shape h' (t # ps) \<and> same_data h h' \<and>
      (\<forall>q. q \<notin> set (t # ps) \<longrightarrow> nh_nxt h' q = nh_nxt h q \<and> nh_prv h' q = nh_prv h q)"
    using dom(2) by blast
  let ?k = "put_prv (put_nxt h t NULL_ADDR) t ?l"
  define h2 where "h2 = (if ps = [] then ?k else put_nxt ?k ?l t)"
  have dom2: "nh_dom h2 = nh_dom h" "same_data h h2" using t(1) l by (auto simp: h2_def nh_simps same_data_def)
  have nx2: "nh_nxt h2 = (if ps = [] then (nh_nxt h)(t := NULL_ADDR) else (nh_nxt h)(t := NULL_ADDR, ?l := t))"
    and pv2: "nh_prv h2 = (nh_prv h)(t := ?l)"
    by (auto simp: h2_def nh_simps)
  have "seg (nh_nxt h2) (nh_prv h2) NULL_ADDR ps t"
  proof (cases "ps = []")
    case False
    have "seg ((nh_nxt h)(?l := t)) (nh_prv h) NULL_ADDR ps t" by (rule seg_after [OF d(4,1)])
    moreover have "seg (nh_nxt h2) (nh_prv h2) NULL_ADDR ps t = seg ((nh_nxt h)(?l := t)) (nh_prv h) NULL_ADDR ps t"
      using t(2) False by (intro seg_cong) (auto simp: nx2 pv2)
    ultimately show ?thesis by simp
  qed simp
  then have "null_shape h2 (ps @ [t])" using d(1-3) t l by (auto simp: null_shape_def dom2 nx2 pv2 seg_append)
  moreover have "nl_append h ?f ?l t = Inr (h2, first_of NULL_ADDR (ps @ [t]), t)"
    using t(1) f l first_of_any [of ps NULL_ADDR t] by (cases "ps = []") (auto simp: nl_append_def nh_simps h2_def first_last_append)
  moreover have "nh_nxt h2 q = nh_nxt h q \<and> nh_prv h2 q = nh_prv h q" if "q \<notin> set (ps @ [t])" for q
    using that l by (auto simp: nx2 pv2)
  ultimately show "\<exists>h'. nl_append h ?f ?l t = Inr (h', first_of NULL_ADDR (ps @ [t]), t) \<and> null_shape h' (ps @ [t]) \<and> same_data h h' \<and>
      (\<forall>q. q \<notin> set (ps @ [t]) \<longrightarrow> nh_nxt h' q = nh_nxt h q \<and> nh_prv h' q = nh_prv h q)"
    using dom2(2) by blast
qed

text \<open>Lists over other nodes, allocation, deletion and frequencies do not disturb a list.\<close>

lemma null_shape_cong:
  assumes "null_shape h ps" "set ps \<subseteq> nh_dom h'" "NULL_ADDR \<notin> nh_dom h'"
    "\<And>p. p \<in> set ps \<Longrightarrow> nh_nxt h' p = nh_nxt h p \<and> nh_prv h' p = nh_prv h p"
  shows "null_shape h' ps"
  using assms seg_cong [of ps "nh_nxt h'" "nh_nxt h" "nh_prv h'" "nh_prv h" NULL_ADDR NULL_ADDR] by (simp add: null_shape_def)

lemma null_shape_frq: "p \<in> nh_dom h \<Longrightarrow> null_shape (put_frq h p f) ps = null_shape h ps"
  by (simp add: null_shape_def nh_simps)

lemma nl_new:
  assumes f: "\<forall>p\<in>nh_dom h. p < nh_fresh h" and nz: "0 < nh_fresh h" and n: "nh_new h n = (p, h')"
  shows "nh_dom h' = insert p (nh_dom h)" "p \<notin> nh_dom h" "p = nh_fresh h" "nh_fresh h' = Suc p"
    "nh_val h' = (nh_val h)(p := pn_val n)" "nh_frq h' = (nh_frq h)(p := cn_freq n)"
    "null_shape h ps \<Longrightarrow> null_shape h' ps"
proof -
  have p: "p = nh_fresh h" "p \<notin> nh_dom h" using n f by (auto simp: nh_new_def)
  then show "p = nh_fresh h" "p \<notin> nh_dom h" by blast+
  show d: "nh_dom h' = insert p (nh_dom h)" and "nh_fresh h' = Suc p"
    "nh_val h' = (nh_val h)(p := pn_val n)" "nh_frq h' = (nh_frq h)(p := cn_freq n)"
    using n by (auto simp: nh_new_def nh_dom_def nh_val_def nh_frq_def)
  show "null_shape h' ps" if s: "null_shape h ps"
  proof (rule null_shape_cong [OF s])
    show "nh_nxt h' q = nh_nxt h q \<and> nh_prv h' q = nh_prv h q" if "q \<in> set ps" for q
      using that s p n by (auto simp: nh_new_def nh_nxt_def nh_prv_def null_shape_def)
  qed (use s d p nz in \<open>auto simp: null_shape_def NULL_ADDR_def\<close>)
qed

lemma nl_delete:
  assumes p: "p \<in> nh_dom h"
  obtains h' where "nh_delete h p = Inr h'" "nh_dom h' = nh_dom h - {p}" "nh_fresh h' = nh_fresh h"
    "\<And>q. q \<noteq> p \<Longrightarrow> nh_val h' q = nh_val h q \<and> nh_frq h' q = nh_frq h q"
    "\<And>ps. null_shape h ps \<Longrightarrow> p \<notin> set ps \<Longrightarrow> null_shape h' ps"
proof -
  let ?h = "h\<lparr>nh_nodes := (nh_nodes h)(p := None)\<rparr>"
  have "null_shape ?h ps" if s: "null_shape h ps" "p \<notin> set ps" for ps
    using that by (intro null_shape_cong [OF s(1)]) (auto simp: nh_dom_def nh_nxt_def nh_prv_def null_shape_def)
  then show thesis
    using p by (intro that [of ?h]) (auto simp: nh_simps, auto simp: nh_dom_def nh_val_def nh_frq_def)
qed

end
