(* ===== verification/LFU.thy ===== *)
theory LFU
  imports NullList
begin

text \<open>
  \<open>LFUReplacer\<close> (\<^verbatim>\<open>include/replacer/LFU_replacer.h\<close>): for every frequency a list of heap nodes, the
  least recently arrived first, a map from frequencies to these lists, and the least frequency in use, 0 when it
  has to be searched for.  The policy is not connected to a page table, so it knows nothing of pins.
  Proved: over any sequence of calls it behaves as one list of frames with their frequencies, from which
  \<open>Victim\<close> takes the first of the least frequency.
\<close>

section \<open>State and operations\<close>

record freq_node =
  fn_first :: nat
  fn_last :: nat
  fn_freq :: u64
  fn_n_obj :: u32

definition FreqNode :: "u64 \<Rightarrow> freq_node" where
  "FreqNode new_freq = \<lparr>fn_first = NULL_ADDR, fn_last = NULL_ADDR, fn_freq = new_freq, fn_n_obj = 0\<rparr>"

text \<open>
  The nodes of \<open>freq_map_\<close> are kept under their key, \<open>None\<close> for a null pointer; \<open>freq_one_node\<close> is the one
  under 1, which no operation erases.
\<close>

record lfu =
  lf_heap :: "clock_node node_heap"
  lf_map :: "(mpage_id, nat) mapping"
  lf_freq_map :: "(u64, freq_node option) mapping"
  lf_max :: u64
  lf_min :: u64

definition lf_new :: lfu where
  "lf_new = \<lparr>lf_heap = null_heap, lf_map = Mapping.empty, lf_freq_map = Mapping.update 1 (Some (FreqNode 1)) Mapping.empty,
     lf_max = 1, lf_min = 1\<rparr>"

definition lf_node :: "lfu \<Rightarrow> u64 \<Rightarrow> freq_node res" where
  "lf_node r f = (case Mapping.lookup (lf_freq_map r) f of Some (Some n) \<Rightarrow> Inr n | _ \<Rightarrow> Inl NullDeref)"

definition lf_put :: "lfu \<Rightarrow> u64 \<Rightarrow> freq_node \<Rightarrow> lfu" where
  "lf_put r f n = r\<lparr>lf_freq_map := Mapping.update f (Some n) (lf_freq_map r)\<rparr>"

text \<open>A frequency of a node as a key.\<close>

abbreviation wide :: "u32 \<Rightarrow> u64" where
  "wide \<equiv> ucast"

text \<open>An object joins or leaves the list of a frequency, which counts it.\<close>

definition lf_join :: "lfu \<Rightarrow> u64 \<Rightarrow> nat \<Rightarrow> lfu res" where
  "lf_join r f p =
     bindE (lf_node r f) (\<lambda>n.
     bindE (nl_append (lf_heap r) (fn_first n) (fn_last n) p) (\<lambda>(h, front, rear).
     Inr (lf_put (r\<lparr>lf_heap := h\<rparr>) f (n\<lparr>fn_first := front, fn_last := rear, fn_n_obj := fn_n_obj n + 1\<rparr>))))"

definition lf_leave :: "lfu \<Rightarrow> u64 \<Rightarrow> nat \<Rightarrow> lfu res" where
  "lf_leave r f p =
     bindE (lf_node r f) (\<lambda>n.
     bindE (nl_remove (lf_heap r) (fn_first n) (fn_last n) p) (\<lambda>(h, front, rear).
     Inr (lf_put (r\<lparr>lf_heap := h\<rparr>) f (n\<lparr>fn_first := front, fn_last := rear, fn_n_obj := fn_n_obj n - 1\<rparr>))))"

definition lf_Insert :: "lfu \<Rightarrow> mpage_id \<Rightarrow> (bool \<times> lfu) res" where
  "lf_Insert r value =
     (if Mapping.lookup (lf_map r) value \<noteq> None then Inr (False, r)
      else let (cur, h) = nh_new (lf_heap r) (ListNode_clock 1 value) in
        bindE (lf_join (r\<lparr>lf_heap := h, lf_map := Mapping.update value cur (lf_map r), lf_min := 1\<rparr>) 1 cur) (\<lambda>r.
        Inr (True, r)))"

text \<open>The search of \<open>update_min_freq\<close>, which leaves \<open>min_freq\<close> as it is when it finds nothing.\<close>

fun least_from :: "(u64, freq_node option) mapping \<Rightarrow> u64 \<Rightarrow> nat \<Rightarrow> u64 option res" where
  "least_from fm freq 0 = Inr None"
| "least_from fm freq (Suc n) =
     (case Mapping.lookup fm freq of
        None \<Rightarrow> least_from fm (freq + 1) n
      | Some None \<Rightarrow> Inl NullDeref
      | Some (Some nd) \<Rightarrow> if fn_n_obj nd > 0 then Inr (Some freq) else least_from fm (freq + 1) n)"

definition update_min_freq :: "lfu \<Rightarrow> lfu res" where
  "update_min_freq r =
     bindE (least_from (lf_freq_map r) (lf_min r + 1) (unat (lf_max r) - unat (lf_min r))) (\<lambda>f.
     Inr (case f of None \<Rightarrow> r | Some f \<Rightarrow> r\<lparr>lf_min := f\<rparr>))"

text \<open>\<open>freq_map_[min_freq]\<close> stores a null pointer when there is no entry.\<close>

definition get_min_freq_node :: "lfu \<Rightarrow> (freq_node option \<times> lfu) res" where
  "get_min_freq_node r =
     (if lf_min r = 1 then bindE (lf_node r 1) (\<lambda>n. Inr (Some n, r))
      else bindE (if lf_min r = 0 then update_min_freq r else Inr r) (\<lambda>r.
        case Mapping.lookup (lf_freq_map r) (lf_min r) of
          None \<Rightarrow> Inr (None, r\<lparr>lf_freq_map := Mapping.update (lf_min r) None (lf_freq_map r)\<rparr>)
        | Some n \<Rightarrow> Inr (n, r)))"

definition lf_Promote :: "lfu \<Rightarrow> mpage_id \<Rightarrow> (bool \<times> lfu) res" where
  "lf_Promote r value =
     (case Mapping.lookup (lf_map r) value of
        None \<Rightarrow> Inr (False, r)
      | Some cur \<Rightarrow>
          bindE (nh_upd (\<lambda>n. n\<lparr>cn_freq := cn_freq n + 1\<rparr>) (lf_heap r) cur) (\<lambda>h.
          bindE (nh_get h cur) (\<lambda>n.
          let freq = cn_freq n; new_freq = wide freq; old_freq = wide (freq - 1);
            r = r\<lparr>lf_heap := h, lf_max := if lf_max r < new_freq then new_freq else lf_max r\<rparr> in
          bindE (lf_leave r old_freq cur) (\<lambda>r.
          let r = (if Mapping.lookup (lf_freq_map r) new_freq = None then lf_put r new_freq (FreqNode new_freq) else r) in
          bindE (lf_join r new_freq cur) (\<lambda>r.
          bindE (lf_node r old_freq) (\<lambda>old.
          if fn_n_obj old = 0 then
            bindE (if lf_min r = fn_freq old then update_min_freq r else Inr r) (\<lambda>r.
            Inr (True, if fn_freq old \<noteq> 1 then r\<lparr>lf_freq_map := Mapping.delete old_freq (lf_freq_map r)\<rparr> else r))
          else Inr (True, r)))))))"

text \<open>Removing an object from its list, erasing it from the map and deleting its node.\<close>

definition lf_take :: "lfu \<Rightarrow> u64 \<Rightarrow> nat \<Rightarrow> (mpage_id \<times> lfu) res" where
  "lf_take r f p =
     bindE (lf_leave r f p) (\<lambda>r.
     bindE (nh_get (lf_heap r) p) (\<lambda>n.
     bindE (nh_delete (lf_heap r) p) (\<lambda>h.
     Inr (pn_val n, r\<lparr>lf_heap := h, lf_map := Mapping.delete (pn_val n) (lf_map r)\<rparr>))))"

definition lf_Victim :: "lfu \<Rightarrow> ((bool \<times> mpage_id) \<times> lfu) res" where
  "lf_Victim r =
     bindE (get_min_freq_node r) (\<lambda>(nd, r).
     case nd of
       None \<Rightarrow> Inr ((False, 0), r)
     | Some nd \<Rightarrow>
         if fn_n_obj nd = 0 then Inr ((False, 0), r)
         else bindE (lf_take r (fn_freq nd) (fn_first nd)) (\<lambda>(mpage_id, r).
           bindE (lf_node r (fn_freq nd)) (\<lambda>nd.
           Inr ((True, mpage_id), if fn_n_obj nd = 0 then r\<lparr>lf_min := 0\<rparr> else r))))"

definition lf_Erase :: "lfu \<Rightarrow> mpage_id \<Rightarrow> (bool \<times> lfu) res" where
  "lf_Erase r value =
     (case Mapping.lookup (lf_map r) value of
        None \<Rightarrow> Inr (False, r)
      | Some cur \<Rightarrow>
          bindE (nh_get (lf_heap r) cur) (\<lambda>n.
          let f = wide (cn_freq n) in
          bindE (lf_take r f cur) (\<lambda>(_, r).
          bindE (lf_node r f) (\<lambda>nd.
          bindE (if fn_freq nd = lf_min r \<and> fn_n_obj nd = 0 then update_min_freq r else Inr r) (\<lambda>r.
          Inr (True, r))))))"

definition lf_Size :: "lfu \<Rightarrow> u64" where
  "lf_Size r = of_nat (Mapping.size (lf_map r))"

text \<open>The batch form of \<open>Victim\<close> begins with \<open>assert(false)\<close>.\<close>

definition lf_Victim_batch :: "lfu \<Rightarrow> mpage_id list \<Rightarrow> nat \<Rightarrow> (bool \<times> mpage_id list \<times> lfu) res" where
  "lf_Victim_batch r mpage_ids page_num = bindE (assertE False) (\<lambda>_. Inr (False, mpage_ids, r))"

section \<open>The lists of the frequencies\<close>

text \<open>The nodes of frequency \<open>f\<close>, in the order in which they got it.\<close>

definition lane :: "(nat \<Rightarrow> u64) \<Rightarrow> nat list \<Rightarrow> u64 \<Rightarrow> nat list" where
  "lane g ps f = filter (\<lambda>p. g p = f) ps"

definition lane_node :: "(nat \<Rightarrow> u64) \<Rightarrow> nat list \<Rightarrow> u64 \<Rightarrow> freq_node" where
  "lane_node g ps f = \<lparr>fn_first = first_of NULL_ADDR (lane g ps f), fn_last = last_of NULL_ADDR (lane g ps f), fn_freq = f,
     fn_n_obj = of_nat (length (lane g ps f))\<rparr>"

lemma lane_cong: "(\<And>p. p \<in> set ps \<Longrightarrow> g' p = g p) \<Longrightarrow> lane g' ps = lane g ps"
  by (auto simp: lane_def fun_eq_iff intro: filter_cong)

lemma lane_set [simp]: "set (lane g ps f) = {p \<in> set ps. g p = f}"
  by (auto simp: lane_def)

lemma lane_Nil [simp]: "lane g [] f = []"
  by (simp add: lane_def)

lemma lane_remove: "lane g (remove1 t ps) f = (if g t = f then remove1 t (lane g ps f) else lane g ps f)"
  by (induction ps) (auto simp: lane_def)

lemma lane_snoc: "t \<notin> set ps \<Longrightarrow> lane (g(t := F)) (ps @ [t]) f = (if F = f then lane g ps f @ [t] else lane g ps f)"
  by (auto simp: lane_def intro: filter_cong)

lemma lane_length: "length (lane g ps f) \<le> length ps"
  by (simp add: lane_def)

lemma lane_distinct: "distinct ps \<Longrightarrow> distinct (lane g ps f)"
  by (simp add: lane_def)

definition lanes :: "clock_node node_heap \<Rightarrow> (nat \<Rightarrow> u64) \<Rightarrow> nat list \<Rightarrow> bool" where
  "lanes h g ps \<longleftrightarrow> distinct ps \<and> (\<forall>f. null_shape h (lane g ps f))"

lemma lanes_cong: "(\<And>p. p \<in> set ps \<Longrightarrow> g' p = g p) \<Longrightarrow> lanes h g' ps = lanes h g ps"
  using lane_cong [of ps g' g] by (simp add: lanes_def)

lemma lanes_dom: "lanes h g ps \<Longrightarrow> set ps \<subseteq> nh_dom h"
  by (auto simp: lanes_def null_shape_def)

lemma lanes_leave:
  assumes l: "lanes h g ps" and t: "t \<in> set ps"
  obtains h' where "nl_remove h (fn_first (lane_node g ps (g t))) (fn_last (lane_node g ps (g t))) t =
      Inr (h', fn_first (lane_node g (remove1 t ps) (g t)), fn_last (lane_node g (remove1 t ps) (g t)))"
    "lanes h' g (remove1 t ps)" "same_data h h'"
proof -
  have d: "distinct ps" "distinct (lane g ps (g t))" "t \<in> set (lane g ps (g t))" using l t by (auto simp: lanes_def lane_distinct)
  obtain ys zs where yz: "lane g ps (g t) = ys @ t # zs" "t \<notin> set ys" "t \<notin> set zs"
    using d(2,3) by (metis distinct.simps(2) distinct_append in_set_conv_decomp_first)
  have r1: "lane g (remove1 t ps) (g t) = ys @ zs" using yz by (simp add: lane_remove remove1_append)
  have "null_shape h (ys @ t # zs)" using l yz(1) unfolding lanes_def by metis
  then obtain h' where h': "nl_remove h (first_of NULL_ADDR (ys @ t # zs)) (last_of NULL_ADDR (ys @ t # zs)) t =
      Inr (h', first_of NULL_ADDR (ys @ zs), last_of NULL_ADDR (ys @ zs))" "null_shape h' (ys @ zs)" "same_data h h'"
    "\<And>q. q \<notin> set (ys @ t # zs) \<Longrightarrow> nh_nxt h' q = nh_nxt h q \<and> nh_prv h' q = nh_prv h q"
    using nl_remove_shape by blast
  have "null_shape h' (lane g (remove1 t ps) f)" for f
  proof (cases "f = g t")
    case False
    then have e: "lane g (remove1 t ps) f = lane g ps f" by (simp add: lane_remove)
    show ?thesis unfolding e
    proof (rule null_shape_cong)
      show "null_shape h (lane g ps f)" using l by (simp add: lanes_def)
      then show "set (lane g ps f) \<subseteq> nh_dom h'" "NULL_ADDR \<notin> nh_dom h'" using h'(3) by (simp_all add: null_shape_def same_data_def)
      show "nh_nxt h' p = nh_nxt h p \<and> nh_prv h' p = nh_prv h p" if "p \<in> set (lane g ps f)" for p
        using that False by (intro h'(4)) (simp flip: yz(1))
    qed
  qed (use h'(2) r1 in simp)
  then show thesis using that h'(1,3) d(1) by (simp add: lane_node_def lanes_def r1 yz(1))
qed

lemma lanes_join:
  assumes l: "lanes h g ps" and t: "t \<in> nh_dom h" "t \<notin> set ps"
  obtains h' where "nl_append h (fn_first (lane_node g ps f)) (fn_last (lane_node g ps f)) t =
      Inr (h', fn_first (lane_node (g(t := f)) (ps @ [t]) f), fn_last (lane_node (g(t := f)) (ps @ [t]) f))"
    "lanes h' (g(t := f)) (ps @ [t])" "same_data h h'"
proof -
  have e: "lane (g(t := f)) (ps @ [t]) f = lane g ps f @ [t]" using t(2) by (simp add: lane_snoc)
  have "null_shape h (lane g ps f)" "t \<notin> set (lane g ps f)" using l t(2) by (auto simp: lanes_def)
  from nl_add_shape(2) [OF this(1) t(1) this(2)] obtain h' where
    h': "nl_append h (first_of NULL_ADDR (lane g ps f)) (last_of NULL_ADDR (lane g ps f)) t =
      Inr (h', first_of NULL_ADDR (lane g ps f @ [t]), t)"
    "null_shape h' (lane g ps f @ [t])" "same_data h h'"
    "\<And>q. q \<notin> set (lane g ps f @ [t]) \<Longrightarrow> nh_nxt h' q = nh_nxt h q \<and> nh_prv h' q = nh_prv h q" by blast
  have "null_shape h' (lane (g(t := f)) (ps @ [t]) f')" for f'
  proof (cases "f' = f")
    case False
    then have e': "lane (g(t := f)) (ps @ [t]) f' = lane g ps f'" using t(2) by (auto simp: lane_snoc)
    show ?thesis unfolding e'
    proof (rule null_shape_cong)
      show "null_shape h (lane g ps f')" using l by (simp add: lanes_def)
      then show "set (lane g ps f') \<subseteq> nh_dom h'" "NULL_ADDR \<notin> nh_dom h'" using h'(3) by (simp_all add: null_shape_def same_data_def)
      show "nh_nxt h' p = nh_nxt h p \<and> nh_prv h' p = nh_prv h p" if "p \<in> set (lane g ps f')" for p
        using that False t(2) by (intro h'(4)) auto
    qed
  qed (use h'(2) e in simp)
  then show thesis using that h'(1,3) l t(2) by (simp add: lane_node_def lanes_def e)
qed

section \<open>The map of frequencies\<close>

definition fm_ok :: "(nat \<Rightarrow> u64) \<Rightarrow> nat list \<Rightarrow> (u64, freq_node option) mapping \<Rightarrow> bool" where
  "fm_ok g ps fm \<longleftrightarrow> length ps < 4294967296 \<and> (\<forall>f. case Mapping.lookup fm f of
      None \<Rightarrow> lane g ps f = [] \<and> f \<noteq> 1
    | Some None \<Rightarrow> lane g ps f = [] \<and> f = 0
    | Some (Some n) \<Rightarrow> n = lane_node g ps f)"

lemma fm_ok_cases:
  assumes "fm_ok g ps fm"
  obtains "Mapping.lookup fm f = None" "lane g ps f = []" "f \<noteq> 1"
  | "Mapping.lookup fm f = Some None" "lane g ps f = []" "f = 0"
  | "Mapping.lookup fm f = Some (Some (lane_node g ps f))"
proof (cases "Mapping.lookup fm f")
  case None
  then show thesis using that(1) assms unfolding fm_ok_def by (auto dest!: spec [of _ f])
next
  case (Some x)
  then show thesis using that(2,3) assms unfolding fm_ok_def by (cases x) (auto dest!: spec [of _ f])
qed

lemma fm_ok_used:
  assumes "fm_ok g ps fm" "lane g ps f \<noteq> [] \<or> f = 1"
  shows "Mapping.lookup fm f = Some (Some (lane_node g ps f))"
  using assms by (cases rule: fm_ok_cases [of g ps fm f]) auto

lemma lane_node_n_obj:
  assumes "length ps < 4294967296"
  shows "fn_n_obj (lane_node g ps f) = 0 \<longleftrightarrow> lane g ps f = []"
proof -
  have "unat (of_nat (length (lane g ps f)) :: u32) = length (lane g ps f)"
    using lane_length [of g ps f] assms by (simp add: unat_of_nat)
  moreover have "(of_nat (length (lane g ps f)) :: u32) = 0 \<longleftrightarrow> unat (of_nat (length (lane g ps f)) :: u32) = 0"
    by (simp only: unat_eq_zero)
  ultimately show ?thesis by (simp add: lane_node_def)
qed

lemma lane_node_freq [simp]: "fn_freq (lane_node g ps f) = f"
  by (simp add: lane_node_def)

lemma lane_node_other:
  "f \<noteq> g t \<Longrightarrow> lane_node g (remove1 t ps) f = lane_node g ps f"
  "t \<notin> set ps \<Longrightarrow> f \<noteq> F \<Longrightarrow> lane_node (g(t := F)) (ps @ [t]) f = lane_node g ps f"
  by (auto simp: lane_node_def lane_remove lane_snoc)

lemma lane_node_counts:
  "t \<in> set ps \<Longrightarrow> fn_n_obj (lane_node g (remove1 t ps) (g t)) = fn_n_obj (lane_node g ps (g t)) - 1"
  "t \<notin> set ps \<Longrightarrow> fn_n_obj (lane_node (g(t := F)) (ps @ [t]) F) = fn_n_obj (lane_node g ps F) + 1"
proof -
  assume t: "t \<in> set ps"
  then have "t \<in> set (lane g ps (g t))" by simp
  then have "length (lane g ps (g t)) > 0" by (metis length_pos_if_in_set)
  then show "fn_n_obj (lane_node g (remove1 t ps) (g t)) = fn_n_obj (lane_node g ps (g t)) - 1"
    using t of_nat_diff [of 1 "length (lane g ps (g t))", where 'a = u32]
    by (simp add: lane_node_def lane_remove length_remove1 Suc_le_eq)
qed (simp add: lane_node_def lane_snoc)

lemma fm_ok_leave:
  assumes "fm_ok g ps fm" "t \<in> set ps"
  shows "fm_ok g (remove1 t ps) (Mapping.update (g t) (Some (lane_node g (remove1 t ps) (g t))) fm)"
  unfolding fm_ok_def
proof (intro conjI allI)
  show "length (remove1 t ps) < 4294967296" using assms by (auto simp: fm_ok_def length_remove1)
  fix f
  show "case Mapping.lookup (Mapping.update (g t) (Some (lane_node g (remove1 t ps) (g t))) fm) f of
      None \<Rightarrow> lane g (remove1 t ps) f = [] \<and> f \<noteq> 1
    | Some None \<Rightarrow> lane g (remove1 t ps) f = [] \<and> f = 0
    | Some (Some n) \<Rightarrow> n = lane_node g (remove1 t ps) f"
    by (cases "f = g t"; cases rule: fm_ok_cases [OF assms(1), of f]) (simp_all add: lookup_update' lane_remove lane_node_other(1))
qed

lemma fm_ok_join:
  assumes "fm_ok g ps fm" "t \<notin> set ps" "length ps < 4294967295"
  shows "fm_ok (g(t := F)) (ps @ [t]) (Mapping.update F (Some (lane_node (g(t := F)) (ps @ [t]) F)) fm)"
  unfolding fm_ok_def
proof (intro conjI allI)
  show "length (ps @ [t]) < 4294967296" using assms by simp
  fix f
  show "case Mapping.lookup (Mapping.update F (Some (lane_node (g(t := F)) (ps @ [t]) F)) fm) f of
      None \<Rightarrow> lane (g(t := F)) (ps @ [t]) f = [] \<and> f \<noteq> 1
    | Some None \<Rightarrow> lane (g(t := F)) (ps @ [t]) f = [] \<and> f = 0
    | Some (Some n) \<Rightarrow> n = lane_node (g(t := F)) (ps @ [t]) f"
    by (cases "f = F"; cases rule: fm_ok_cases [OF assms(1), of f])
      (use assms(2) in \<open>simp_all add: lookup_update' lane_snoc lane_node_other(2)\<close>)
qed

lemma fm_ok_fresh:
  assumes "fm_ok g ps fm" "Mapping.lookup fm f = None"
  shows "fm_ok g ps (Mapping.update f (Some (FreqNode f)) fm)"
  unfolding fm_ok_def
proof (intro conjI allI)
  show "length ps < 4294967296" using assms by (simp add: fm_ok_def)
  fix f'
  show "case Mapping.lookup (Mapping.update f (Some (FreqNode f)) fm) f' of
      None \<Rightarrow> lane g ps f' = [] \<and> f' \<noteq> 1
    | Some None \<Rightarrow> lane g ps f' = [] \<and> f' = 0
    | Some (Some n) \<Rightarrow> n = lane_node g ps f'"
    by (cases "f' = f"; cases rule: fm_ok_cases [OF assms(1), of f'])
      (use assms(2) in \<open>simp_all add: lookup_update' FreqNode_def lane_node_def\<close>)
qed

lemma lookup_delete_cases: "Mapping.lookup (Mapping.delete k m) k' = (if k' = k then None else Mapping.lookup m k')"
  by (simp add: lookup_delete_neq)

lemma fm_ok_erase:
  assumes "fm_ok g ps fm" "lane g ps f = []" "f \<noteq> 1"
  shows "fm_ok g ps (Mapping.delete f fm)"
  using assms by (auto simp: fm_ok_def lookup_delete_cases)

lemma fm_ok_null:
  assumes "fm_ok g ps fm" "lane g ps 0 = []"
  shows "fm_ok g ps (Mapping.update 0 None fm)"
  using assms by (auto simp: fm_ok_def lookup_update')

text \<open>The search finds the first frequency in use.\<close>

lemma least_from_ok:
  assumes "fm_ok g ps fm" "0 < f" "unat f + n \<le> 2 ^ 64"
  shows "(\<exists>f'. least_from fm f n = Inr (Some f') \<and> f \<le> f' \<and> unat f' < unat f + n \<and> lane g ps f' \<noteq> [] \<and>
      (\<forall>p\<in>set ps. f \<le> g p \<longrightarrow> f' \<le> g p)) \<or>
    least_from fm f n = Inr None \<and> (\<forall>p\<in>set ps. \<not> (f \<le> g p \<and> unat (g p) < unat f + n))"
  using assms(2,3)
proof (induction n arbitrary: f)
  case 0
  then show ?case by (auto simp: word_le_nat_alt)
next
  case (Suc n)
  show ?case
  proof (cases "lane g ps f = []")
    case False
    then have "least_from fm f (Suc n) = Inr (Some f)"
      using fm_ok_used [OF assms(1)] lane_node_n_obj [of ps g f] assms(1) by (simp add: fm_ok_def word_gt_0)
    then show ?thesis using False by auto
  next
    case True
    then have l: "least_from fm f (Suc n) = least_from fm (f + 1) n"
      using Suc.prems(1) lane_node_n_obj [of ps g f] assms(1)
      by (cases rule: fm_ok_cases [OF assms(1), of f]) (simp_all add: fm_ok_def)
    have ne: "g p \<noteq> f" if "p \<in> set ps" for p using True that by (auto simp: lane_def filter_empty_conv)
    show ?thesis
    proof (cases n)
      case 0
      have "\<not> (f \<le> g p \<and> unat (g p) < unat f + Suc n)" if "p \<in> set ps" for p
        using ne [OF that] 0 by (auto simp: word_le_nat_alt word_unat_eq_iff)
      then show ?thesis using l 0 by auto
    next
      case (Suc m)
      then have u: "unat (f + 1) = Suc (unat f)" using Suc.prems(2) by (simp add: unat_word_ariths)
      have le: "f \<le> g p \<longleftrightarrow> f + 1 \<le> g p" if "p \<in> set ps" for p
        using ne [OF that] u by (auto simp: word_le_nat_alt word_unat_eq_iff)
      have "0 < f + 1" "unat (f + 1) + n \<le> 2 ^ 64" using u Suc.prems(2) by (auto simp: word_less_nat_alt)
      from Suc.IH [OF this] show ?thesis
        using l le u by (auto simp: word_le_nat_alt)
    qed
  qed
qed

section \<open>The state\<close>

definition lf_core :: "lfu \<Rightarrow> (nat \<Rightarrow> u64) \<Rightarrow> nat list \<Rightarrow> bool" where
  "lf_core r g ps \<longleftrightarrow> lanes (lf_heap r) g ps \<and> fm_ok g ps (lf_freq_map r)"

lemma lf_node_core:
  assumes "lf_core r g ps" "lane g ps f \<noteq> [] \<or> Mapping.lookup (lf_freq_map r) f \<noteq> None \<and> f \<noteq> 0 \<or> f = 1"
  shows "lf_node r f = Inr (lane_node g ps f)" "Mapping.lookup (lf_freq_map r) f = Some (Some (lane_node g ps f))"
proof -
  have "fm_ok g ps (lf_freq_map r)" using assms(1) by (simp add: lf_core_def)
  then show "Mapping.lookup (lf_freq_map r) f = Some (Some (lane_node g ps f))"
    using assms(2) by (cases rule: fm_ok_cases [of g ps "lf_freq_map r" f]) auto
  then show "lf_node r f = Inr (lane_node g ps f)" by (simp add: lf_node_def)
qed

lemma lf_leave_core:
  assumes c: "lf_core r g ps" and t: "t \<in> set ps"
  obtains h where "lf_leave r (g t) t = Inr (lf_put (r\<lparr>lf_heap := h\<rparr>) (g t) (lane_node g (remove1 t ps) (g t)))"
    "lf_core (lf_put (r\<lparr>lf_heap := h\<rparr>) (g t) (lane_node g (remove1 t ps) (g t))) g (remove1 t ps)" "same_data (lf_heap r) h"
proof -
  have l: "lanes (lf_heap r) g ps" "fm_ok g ps (lf_freq_map r)" using c by (simp_all add: lf_core_def)
  have "t \<in> set (lane g ps (g t))" using t by simp
  then have "lane g ps (g t) \<noteq> []" by (metis empty_iff list.set(1))
  note n = lf_node_core(1) [OF c disjI1, OF this]
  obtain h where h: "nl_remove (lf_heap r) (fn_first (lane_node g ps (g t))) (fn_last (lane_node g ps (g t))) t =
      Inr (h, fn_first (lane_node g (remove1 t ps) (g t)), fn_last (lane_node g (remove1 t ps) (g t)))"
    "lanes h g (remove1 t ps)" "same_data (lf_heap r) h"
    by (rule lanes_leave [OF l(1) t])
  have e: "(lane_node g ps (g t))\<lparr>fn_first := fn_first (lane_node g (remove1 t ps) (g t)),
      fn_last := fn_last (lane_node g (remove1 t ps) (g t)), fn_n_obj := fn_n_obj (lane_node g ps (g t)) - 1\<rparr> =
      lane_node g (remove1 t ps) (g t)"
    using lane_node_counts(1) [OF t, of g] by simp
  show thesis
    using that [of h] n h e fm_ok_leave [OF l(2) t] by (simp add: lf_leave_def lf_core_def lf_put_def)
qed

lemma lf_join_core:
  assumes c: "lf_core r g ps" and t: "t \<in> nh_dom (lf_heap r)" "t \<notin> set ps" and l: "length ps < 4294967295"
    and f: "Mapping.lookup (lf_freq_map r) f \<noteq> None \<and> f \<noteq> 0 \<or> f = 1"
  obtains h where "lf_join r f t = Inr (lf_put (r\<lparr>lf_heap := h\<rparr>) f (lane_node (g(t := f)) (ps @ [t]) f))"
    "lf_core (lf_put (r\<lparr>lf_heap := h\<rparr>) f (lane_node (g(t := f)) (ps @ [t]) f)) (g(t := f)) (ps @ [t])" "same_data (lf_heap r) h"
proof -
  have l': "lanes (lf_heap r) g ps" "fm_ok g ps (lf_freq_map r)" using c by (simp_all add: lf_core_def)
  note n = lf_node_core(1) [OF c disjI2, OF f]
  obtain h where h: "nl_append (lf_heap r) (fn_first (lane_node g ps f)) (fn_last (lane_node g ps f)) t =
      Inr (h, fn_first (lane_node (g(t := f)) (ps @ [t]) f), fn_last (lane_node (g(t := f)) (ps @ [t]) f))"
    "lanes h (g(t := f)) (ps @ [t])" "same_data (lf_heap r) h"
    by (rule lanes_join [OF l'(1) t])
  have e: "(lane_node g ps f)\<lparr>fn_first := fn_first (lane_node (g(t := f)) (ps @ [t]) f),
      fn_last := fn_last (lane_node (g(t := f)) (ps @ [t]) f), fn_n_obj := fn_n_obj (lane_node g ps f) + 1\<rparr> =
      lane_node (g(t := f)) (ps @ [t]) f"
    using lane_node_counts(2) [OF t(2), of g f] by simp
  show thesis
    using that [of h] n h e fm_ok_join [OF l'(2) t(2) l] by (simp add: lf_join_def lf_core_def lf_put_def)
qed

text \<open>What \<open>min_freq\<close> says, unless it is 0.\<close>

definition min_ok :: "(nat \<Rightarrow> u64) \<Rightarrow> nat list \<Rightarrow> (u64, freq_node option) mapping \<Rightarrow> u64 \<Rightarrow> bool" where
  "min_ok g ps fm f \<longleftrightarrow> Mapping.lookup fm f \<noteq> None \<and> (\<forall>p\<in>set ps. f \<le> g p) \<and> (ps \<noteq> [] \<longrightarrow> lane g ps f \<noteq> [])"

lemma update_min_ok:
  assumes c: "lf_core r g ps" and b: "\<And>p. p \<in> set ps \<Longrightarrow> lf_min r < g p \<and> g p \<le> lf_max r"
  obtains f where "update_min_freq r = Inr (r\<lparr>lf_min := f\<rparr>)" "ps = [] \<Longrightarrow> f = lf_min r"
    "ps \<noteq> [] \<Longrightarrow> min_ok g ps (lf_freq_map r) f"
proof (cases "lf_min r < lf_max r")
  case False
  then have "ps = []" using b by (cases ps) force+
  moreover have "unat (lf_max r) - unat (lf_min r) = 0" using False by (simp add: word_less_nat_alt)
  ultimately show thesis using that [of "lf_min r"] by (simp add: update_min_freq_def)
next
  case True
  let ?f = "lf_min r + 1" and ?n = "unat (lf_max r) - unat (lf_min r)"
  have fm: "fm_ok g ps (lf_freq_map r)" using c by (simp add: lf_core_def)
  have "unat (lf_max r) < 2 ^ LENGTH(64)" by (rule unsigned_less)
  then have lt: "unat (lf_min r) < unat (lf_max r)" "unat (lf_max r) < 2 ^ 64"
    using True by (simp_all add: word_less_nat_alt)
  then have u: "unat ?f = Suc (unat (lf_min r))" by (simp add: unat_word_ariths)
  have f: "0 < ?f" "unat ?f + ?n \<le> 2 ^ 64" using u lt by (simp_all add: word_less_nat_alt)
  have in_range: "?f \<le> g p" "unat (g p) < unat ?f + ?n" if "p \<in> set ps" for p
    using b [OF that] u lt by (simp_all add: word_less_nat_alt word_le_nat_alt)
  from least_from_ok [OF fm f] show thesis
  proof (elim disjE exE conjE)
    fix f' assume a: "least_from (lf_freq_map r) ?f ?n = Inr (Some f')" "lane g ps f' \<noteq> []"
      "\<forall>p\<in>set ps. ?f \<le> g p \<longrightarrow> f' \<le> g p"
    have "ps \<noteq> []" using a(2) by auto
    moreover have "min_ok g ps (lf_freq_map r) f'"
      using a(2,3) in_range(1) lf_node_core(2) [OF c disjI1, OF a(2)] by (simp add: min_ok_def)
    ultimately show thesis using a(1) that [of f'] by (simp add: update_min_freq_def)
  next
    assume a: "least_from (lf_freq_map r) ?f ?n = Inr None" "\<forall>p\<in>set ps. \<not> (?f \<le> g p \<and> unat (g p) < unat ?f + ?n)"
    then have "ps = []" using in_range by (cases ps) force+
    then show thesis using a(1) that [of "lf_min r"] by (simp add: update_min_freq_def)
  qed
qed

definition lf_frq :: "lfu \<Rightarrow> nat \<Rightarrow> u64" where
  "lf_frq r p = wide (nh_frq (lf_heap r) p)"

definition lf_body :: "lfu \<Rightarrow> nat list \<Rightarrow> bool" where
  "lf_body r ps \<longleftrightarrow> lf_core r (lf_frq r) ps \<and> nh_dom (lf_heap r) = set ps \<and> 0 < nh_fresh (lf_heap r) \<and>
     (\<forall>p\<in>set ps. p < nh_fresh (lf_heap r)) \<and>
     (\<forall>m p. Mapping.lookup (lf_map r) m = Some p \<longleftrightarrow> p \<in> set ps \<and> nh_val (lf_heap r) p = m) \<and>
     1 \<le> lf_max r \<and> (\<forall>p\<in>set ps. 1 \<le> lf_frq r p \<and> lf_frq r p \<le> lf_max r)"

definition lf_shape :: "lfu \<Rightarrow> nat list \<Rightarrow> bool" where
  "lf_shape r ps \<longleftrightarrow> lf_body r ps \<and> (lf_min r \<noteq> 0 \<longrightarrow> min_ok (lf_frq r) ps (lf_freq_map r) (lf_min r))"

text \<open>The contents: frames with their frequencies, the latest arrival at its frequency last.\<close>

definition lf_abs :: "lfu \<Rightarrow> nat list \<Rightarrow> (mpage_id \<times> nat) list" where
  "lf_abs r ps = map (\<lambda>p. (nh_val (lf_heap r) p, unat (nh_frq (lf_heap r) p))) ps"

lemma lf_new_shape: "lf_shape lf_new []" "lf_abs lf_new [] = []"
  by (auto simp: lf_shape_def lf_body_def lf_core_def lf_new_def lf_abs_def lanes_def fm_ok_def min_ok_def lookup_update' lane_node_def FreqNode_def)

lemma lf_bodyD:
  assumes "lf_body r ps"
  shows "lf_core r (lf_frq r) ps" "nh_dom (lf_heap r) = set ps" "0 < nh_fresh (lf_heap r)"
    "\<And>p. p \<in> set ps \<Longrightarrow> p < nh_fresh (lf_heap r)"
    "\<And>m p. Mapping.lookup (lf_map r) m = Some p \<longleftrightarrow> p \<in> set ps \<and> nh_val (lf_heap r) p = m"
    "1 \<le> lf_max r" "\<And>p. p \<in> set ps \<Longrightarrow> 1 \<le> lf_frq r p \<and> lf_frq r p \<le> lf_max r"
    "distinct ps" "length ps < 4294967296"
  using assms by (auto simp: lf_body_def lf_core_def lanes_def fm_ok_def)

lemma lf_body_min [simp]: "lf_body (r\<lparr>lf_min := f\<rparr>) ps = lf_body r ps" "lf_frq (r\<lparr>lf_min := f\<rparr>) = lf_frq r"
  "lf_abs (r\<lparr>lf_min := f\<rparr>) ps = lf_abs r ps" "lf_core (r\<lparr>lf_min := f\<rparr>) = lf_core r"
  by (simp_all add: lf_body_def lf_frq_def [abs_def] lf_core_def [abs_def] lf_abs_def)

lemma lf_lookup:
  assumes s: "lf_body r ps"
  shows "m \<notin> fst ` set (lf_abs r ps) \<Longrightarrow> Mapping.lookup (lf_map r) m = None"
    "m \<in> fst ` set (lf_abs r ps) \<Longrightarrow> \<exists>p\<in>set ps. Mapping.lookup (lf_map r) m = Some p \<and> nh_val (lf_heap r) p = m"
  using lf_bodyD(5) [OF s, of m] by (cases "Mapping.lookup (lf_map r) m"; force simp: lf_abs_def)+

lemma lf_vals_inj: "lf_body r ps \<Longrightarrow> inj_on (nh_val (lf_heap r)) (set ps)"
  by (intro inj_onI) (metis lf_bodyD(5) option.inject)

section \<open>The reference\<close>

text \<open>Frames with their frequencies, in the order of their latest arrival or promotion.\<close>

type_synonym lfu_list = "(mpage_id \<times> nat) list"

definition without :: "mpage_id \<Rightarrow> lfu_list \<Rightarrow> lfu_list" where
  "without m xs = filter (\<lambda>x. fst x \<noteq> m) xs"

definition ref_insert :: "mpage_id \<Rightarrow> lfu_list \<Rightarrow> bool \<times> lfu_list" where
  "ref_insert m xs = (if m \<in> fst ` set xs then (False, xs) else (True, xs @ [(m, 1)]))"

definition ref_promote :: "mpage_id \<Rightarrow> lfu_list \<Rightarrow> bool \<times> lfu_list" where
  "ref_promote m xs = (case map_of xs m of None \<Rightarrow> (False, xs) | Some f \<Rightarrow> (True, without m xs @ [(m, Suc f)]))"

definition ref_erase :: "mpage_id \<Rightarrow> lfu_list \<Rightarrow> bool \<times> lfu_list" where
  "ref_erase m xs = (m \<in> fst ` set xs, without m xs)"

definition first_least :: "lfu_list \<Rightarrow> mpage_id" where
  "first_least xs = (case filter (\<lambda>x. snd x = Min (snd ` set xs)) xs of [] \<Rightarrow> 0 | x # _ \<Rightarrow> fst x)"

definition ref_victim :: "lfu_list \<Rightarrow> (bool \<times> mpage_id) \<times> lfu_list" where
  "ref_victim xs = (if xs = [] then ((False, 0), xs) else ((True, first_least xs), without (first_least xs) xs))"

section \<open>The operations keep the shape\<close>

lemma lf_sel [simp]:
  "lf_map (lf_put r f n) = lf_map r" "lf_heap (lf_put r f n) = lf_heap r" "lf_min (lf_put r f n) = lf_min r"
  "lf_max (lf_put r f n) = lf_max r" "lf_freq_map (lf_put r f n) = Mapping.update f (Some n) (lf_freq_map r)"
  by (simp_all add: lf_put_def)

lemma wide_unat [simp]: "unat (wide a) = unat a"
proof -
  have "unat a < 2 ^ LENGTH(32)" by (rule unsigned_less)
  then show ?thesis by (simp add: unsigned_ucast_eq take_bit_nat_eq_self)
qed

lemma wide_less: "wide a < wide b \<longleftrightarrow> a < b" "wide a \<le> wide b \<longleftrightarrow> a \<le> b" "wide a = wide b \<longleftrightarrow> a = b"
  by (simp_all only: word_less_nat_alt word_le_nat_alt word_unat_eq_iff wide_unat)

lemma wide_1 [simp]: "wide 1 = 1"
  by simp

lemma lf_Insert_shape:
  assumes s: "lf_shape r ps" and m: "m \<notin> fst ` set (lf_abs r ps)" and l: "length ps < 4294967295"
  obtains r' p where "lf_Insert r m = Inr (True, r')" "lf_shape r' (ps @ [p])" "lf_abs r' (ps @ [p]) = lf_abs r ps @ [(m, 1)]"
proof -
  have b: "lf_body r ps" using s by (simp add: lf_shape_def)
  note d = lf_bodyD [OF b]
  obtain p h where n: "nh_new (lf_heap r) (ListNode_clock 1 m) = (p, h)" by fastforce
  have "\<forall>p\<in>nh_dom (lf_heap r). p < nh_fresh (lf_heap r)" using d(2,4) by simp
  note h = nl_new [OF this d(3) n]
  have p: "p \<notin> set ps" "p \<in> nh_dom h" using h(1,2) d(2) by auto
  let ?g = "lf_frq r"
  let ?r = "r\<lparr>lf_heap := h, lf_map := Mapping.update m p (lf_map r), lf_min := 1\<rparr>"
  have c: "lf_core ?r ?g ps" using d(1) h(7) by (simp add: lf_core_def lanes_def)
  obtain h' where h': "lf_join ?r 1 p = Inr (lf_put (?r\<lparr>lf_heap := h'\<rparr>) 1 (lane_node (?g(p := 1)) (ps @ [p]) 1))"
    "lf_core (lf_put (?r\<lparr>lf_heap := h'\<rparr>) 1 (lane_node (?g(p := 1)) (ps @ [p]) 1)) (?g(p := 1)) (ps @ [p])" "same_data h h'"
    using lf_join_core [OF c, of p 1] p l by auto
  let ?r' = "lf_put (?r\<lparr>lf_heap := h'\<rparr>) 1 (lane_node (?g(p := 1)) (ps @ [p]) 1)"
  have v: "nh_val h' = (nh_val (lf_heap r))(p := m)" "nh_frq h' = (nh_frq (lf_heap r))(p := 1)" "nh_dom h' = insert p (set ps)"
    "nh_fresh h' = Suc p"
    using h'(3) h(1,4,5,6) d(2) by (simp_all add: same_data_def ListNode_clock_def)
  have g: "lf_frq ?r' = ?g(p := 1)" using v(2) by (auto simp: lf_frq_def fun_eq_iff)
  have mk: "Mapping.lookup (lf_map ?r') m' = Some q \<longleftrightarrow> q \<in> set (ps @ [p]) \<and> nh_val h' q = m'" for m' q
    using d(5) [of m' q] lf_lookup(1) [OF b m] m p(1) v(1) by (auto simp: lookup_update' lf_abs_def)
  have "min_ok (?g(p := 1)) (ps @ [p]) (lf_freq_map ?r') 1"
    using d(7) p(1) by (auto simp: min_ok_def lookup_update' lane_snoc)
  then have "lf_shape ?r' (ps @ [p])"
    unfolding lf_shape_def lf_body_def g using h'(2) v(3,4) d(4,6,7) mk p(1) h(3) by (auto simp: less_SucI)
  moreover have "lf_Insert r m = Inr (True, ?r')"
    using n h'(1) lf_lookup(1) [OF b m] by (simp add: lf_Insert_def)
  moreover have "lf_abs ?r' (ps @ [p]) = lf_abs r ps @ [(m, 1)]" using v(1,2) p(1) by (auto simp: lf_abs_def)
  ultimately show thesis using that by blast
qed

lemma without_remove:
  assumes s: "lf_body r ps" and t: "t \<in> set ps"
    and e: "\<And>q. q \<noteq> t \<Longrightarrow> nh_val h q = nh_val (lf_heap r) q \<and> nh_frq h q = nh_frq (lf_heap r) q"
  shows "map (\<lambda>p. (nh_val h p, unat (nh_frq h p))) (remove1 t ps) = without (nh_val (lf_heap r) t) (lf_abs r ps)"
proof -
  have d: "distinct ps" by (rule lf_bodyD(8) [OF s])
  have "without (nh_val (lf_heap r) t) (lf_abs r ps) = map (\<lambda>p. (nh_val (lf_heap r) p, unat (nh_frq (lf_heap r) p)))
      (filter (\<lambda>p. nh_val (lf_heap r) p \<noteq> nh_val (lf_heap r) t) ps)"
    by (simp add: without_def lf_abs_def filter_map o_def)
  also have "filter (\<lambda>p. nh_val (lf_heap r) p \<noteq> nh_val (lf_heap r) t) ps = filter (\<lambda>p. p \<noteq> t) ps"
    using inj_onD [OF lf_vals_inj [OF s]] t by (intro filter_cong) auto
  also have "filter (\<lambda>p. p \<noteq> t) ps = remove1 t ps"
    using d by (simp add: distinct_remove1_removeAll removeAll_filter_not_eq eq_commute [of t])
  finally show ?thesis using e d by simp
qed

lemma lf_core_cong:
  assumes "\<And>p. p \<in> set ps \<Longrightarrow> g' p = g p"
  shows "lf_core r g' ps = lf_core r g ps"
proof -
  have "lane g' ps = lane g ps" by (rule lane_cong) (rule assms)
  moreover have "lanes (lf_heap r) g' ps = lanes (lf_heap r) g ps" by (rule lanes_cong) (rule assms)
  moreover from calculation(1) have "lane_node g' ps = lane_node g ps" by (simp add: lane_node_def fun_eq_iff)
  ultimately show ?thesis unfolding lf_core_def fm_ok_def by (simp split: option.splits)
qed

lemma min_ok_cong:
  assumes "\<And>p. p \<in> set ps \<Longrightarrow> g' p = g p"
  shows "min_ok g' ps fm f = min_ok g ps fm f"
proof -
  have "lane g' ps = lane g ps" by (rule lane_cong) (rule assms)
  then show ?thesis using assms by (simp add: min_ok_def)
qed

lemma lf_take_shape:
  assumes b: "lf_body r ps" and t: "t \<in> set ps"
  obtains r' where "lf_take r (lf_frq r t) t = Inr (nh_val (lf_heap r) t, r')" "lf_body r' (remove1 t ps)"
    "lf_abs r' (remove1 t ps) = without (nh_val (lf_heap r) t) (lf_abs r ps)" "lf_min r' = lf_min r"
    "\<And>q. q \<in> set (remove1 t ps) \<Longrightarrow> lf_frq r' q = lf_frq r q"
    "\<And>f. Mapping.lookup (lf_freq_map r) f \<noteq> None \<Longrightarrow> Mapping.lookup (lf_freq_map r') f \<noteq> None"
    "lf_node r' (lf_frq r t) = Inr (lane_node (lf_frq r) (remove1 t ps) (lf_frq r t))"
proof -
  note d = lf_bodyD [OF b]
  let ?g = "lf_frq r" and ?ps = "remove1 t ps" and ?m = "nh_val (lf_heap r) t"
  obtain h where h: "lf_leave r (?g t) t = Inr (lf_put (r\<lparr>lf_heap := h\<rparr>) (?g t) (lane_node ?g ?ps (?g t)))"
    "lf_core (lf_put (r\<lparr>lf_heap := h\<rparr>) (?g t) (lane_node ?g ?ps (?g t))) ?g ?ps" "same_data (lf_heap r) h"
    by (rule lf_leave_core [OF d(1) t])
  let ?r1 = "lf_put (r\<lparr>lf_heap := h\<rparr>) (?g t) (lane_node ?g ?ps (?g t))"
  have td: "t \<in> nh_dom h" and tn: "t \<notin> set ?ps" using h(3) d(2,8) t by (simp_all add: same_data_def)
  obtain h' where h': "nh_delete h t = Inr h'" "nh_dom h' = nh_dom h - {t}" "nh_fresh h' = nh_fresh h"
    "\<And>q. q \<noteq> t \<Longrightarrow> nh_val h' q = nh_val h q \<and> nh_frq h' q = nh_frq h q"
    "\<And>ps. null_shape h ps \<Longrightarrow> t \<notin> set ps \<Longrightarrow> null_shape h' ps" by (rule nl_delete [OF td]) blast
  let ?r2 = "?r1\<lparr>lf_heap := h', lf_map := Mapping.delete ?m (lf_map r)\<rparr>"
  have v: "nh_val h' q = nh_val (lf_heap r) q" "nh_frq h' q = nh_frq (lf_heap r) q" if "q \<noteq> t" for q
    using h'(4) [OF that] h(3) by (simp_all add: same_data_def)
  have g: "lf_frq ?r2 q = ?g q" if "q \<in> set ?ps" for q
  proof -
    have "q \<noteq> t" using that tn by metis
    then show ?thesis using v(2) by (simp add: lf_frq_def)
  qed
  have "lanes h' ?g ?ps" using h(2) h'(5) tn by (auto simp: lf_core_def lanes_def)
  then have "lf_core ?r2 ?g ?ps" using h(2) by (simp add: lf_core_def)
  moreover have "lf_core ?r2 (lf_frq ?r2) ?ps = lf_core ?r2 ?g ?ps" by (rule lf_core_cong) (rule g)
  ultimately have c: "lf_core ?r2 (lf_frq ?r2) ?ps" by (simp only:)
  have sp: "set ?ps = set ps - {t}" using d(8) by simp
  have l: "Mapping.lookup (Mapping.delete ?m (lf_map r)) m = Some q \<longleftrightarrow> q \<in> set ?ps \<and> nh_val h' q = m" for m q
  proof -
    have "q \<in> set ps \<Longrightarrow> q \<noteq> t \<Longrightarrow> nh_val (lf_heap r) q \<noteq> ?m" using inj_onD [OF lf_vals_inj [OF b], of q t] t by blast
    then show ?thesis
      using d(5) [of m q] v(1) [of q] sp t by (cases "m = ?m"; cases "q = t") (auto simp: lookup_delete_cases)
  qed
  have "lf_body ?r2 ?ps"
    unfolding lf_body_def using c l d(3,4,6,7) g sp h(3) h'(2,3) d(2) by (auto simp: same_data_def)
  moreover have "lf_abs ?r2 ?ps = without ?m (lf_abs r ps)"
    using without_remove [OF b t, of h'] v by (simp add: lf_abs_def)
  moreover have "lf_take r (?g t) t = Inr (?m, ?r2)"
    using h(1,3) h'(1) td by (simp add: lf_take_def nh_simps same_data_def)
  moreover have "lf_node ?r2 (?g t) = Inr (lane_node ?g ?ps (?g t))" by (simp add: lf_node_def)
  ultimately show thesis using that [of ?r2] g by (simp add: lookup_update')
qed

lemma min_ok_remove:
  assumes "min_ok g ps fm f" "\<And>q. q \<in> set (remove1 t ps) \<Longrightarrow> g' q = g q" "Mapping.lookup fm' f \<noteq> None"
    "g t = f \<Longrightarrow> lane g (remove1 t ps) f = [] \<Longrightarrow> remove1 t ps = []"
  shows "min_ok g' (remove1 t ps) fm' f"
proof -
  have e: "min_ok g' (remove1 t ps) fm' f = min_ok g (remove1 t ps) fm' f" by (rule min_ok_cong) (rule assms(2))
  have "lane g (remove1 t ps) f \<noteq> []" if "remove1 t ps \<noteq> []"
    using assms(1,4) that by (cases "g t = f") (auto simp: min_ok_def lane_remove)
  moreover have "f \<le> g p" if "p \<in> set (remove1 t ps)" for p
    using assms(1) that notin_set_remove1 [of p ps t] by (auto simp: min_ok_def)
  ultimately show ?thesis unfolding e using assms(3) by (simp add: min_ok_def)
qed

lemma lf_Erase_shape:
  assumes s: "lf_shape r ps" and m: "m \<in> fst ` set (lf_abs r ps)"
  obtains r' ps' where "lf_Erase r m = Inr (True, r')" "lf_shape r' ps'" "lf_abs r' ps' = without m (lf_abs r ps)"
    "length ps' \<le> length ps"
proof -
  have b: "lf_body r ps" using s by (simp add: lf_shape_def)
  obtain t where t: "t \<in> set ps" "Mapping.lookup (lf_map r) m = Some t" "nh_val (lf_heap r) t = m"
    using lf_lookup(2) [OF b m] by blast
  let ?f = "lf_frq r t" and ?ps = "remove1 t ps"
  obtain r1 where r1: "lf_take r ?f t = Inr (m, r1)" "lf_body r1 ?ps" "lf_abs r1 ?ps = without m (lf_abs r ps)"
    "lf_min r1 = lf_min r" and g: "\<And>q. q \<in> set ?ps \<Longrightarrow> lf_frq r1 q = lf_frq r q"
    and fm: "\<And>f. Mapping.lookup (lf_freq_map r) f \<noteq> None \<Longrightarrow> Mapping.lookup (lf_freq_map r1) f \<noteq> None"
    and n: "lf_node r1 ?f = Inr (lane_node (lf_frq r) ?ps ?f)"
    by (rule lf_take_shape [OF b t(1), unfolded t(3)]) (rule that; (assumption | blast))
  have td: "t \<in> nh_dom (lf_heap r)" using lf_bodyD(2) [OF b] t(1) by simp
  have f: "nh_frq (lf_heap r) t = x \<Longrightarrow> wide x = ?f" for x by (simp add: lf_frq_def)
  have len: "length ?ps < 4294967296" using lf_bodyD(9) [OF r1(2)] .
  have le: "length ?ps \<le> length ps" by (simp add: length_remove1)
  show thesis
  proof (cases "?f = lf_min r \<and> lane (lf_frq r) ?ps ?f = []")
    case True
    then have nz: "lf_min r \<noteq> 0" using lf_bodyD(7) [OF b t(1)] by auto
    then have mo: "min_ok (lf_frq r) ps (lf_freq_map r) (lf_min r)" using s by (simp add: lf_shape_def)
    have bd: "lf_min r1 < lf_frq r1 p \<and> lf_frq r1 p \<le> lf_max r1" if "p \<in> set ?ps" for p
    proof -
      have "lf_frq r p \<noteq> ?f" using True that by (auto simp: lane_def filter_empty_conv)
      moreover have "lf_min r \<le> lf_frq r p" using mo notin_set_remove1 that by (fastforce simp: min_ok_def)
      ultimately show ?thesis using lf_bodyD(7) [OF r1(2) that] r1(4) True g [OF that] by (simp add: order.order_iff_strict)
    qed
    obtain f' where f': "update_min_freq r1 = Inr (r1\<lparr>lf_min := f'\<rparr>)" "?ps = [] \<Longrightarrow> f' = lf_min r1"
      "?ps \<noteq> [] \<Longrightarrow> min_ok (lf_frq r1) ?ps (lf_freq_map r1) f'"
      by (rule update_min_ok [OF lf_bodyD(1) [OF r1(2)] bd]) (assumption | rule that; (assumption | blast))+
    have "min_ok (lf_frq r1) ?ps (lf_freq_map r1) f'"
    proof (cases "?ps = []")
      case e: True
      have "Mapping.lookup (lf_freq_map r1) f' \<noteq> None" using fm [of f'] mo f'(2) [OF e] r1(4) by (simp add: min_ok_def)
      then show ?thesis by (simp add: min_ok_def e)
    qed (use f'(3) in simp)
    then have "lf_shape (r1\<lparr>lf_min := f'\<rparr>) ?ps" using r1(2) by (simp add: lf_shape_def)
    moreover have "lane (lf_frq r) ?ps (lf_min r) = []" using True by metis
    then have "lf_Erase r m = Inr (True, r1\<lparr>lf_min := f'\<rparr>)"
      using t(2) td f r1(1,4) n f'(1) True lane_node_n_obj [OF len] by (simp add: lf_Erase_def nh_simps)
    ultimately show thesis using that r1(3) le by simp
  next
    case False
    have "min_ok (lf_frq r1) ?ps (lf_freq_map r1) (lf_min r)" if "lf_min r \<noteq> 0"
      using s that False fm by (intro min_ok_remove [of "lf_frq r" ps "lf_freq_map r"] g) (auto simp: lf_shape_def min_ok_def)
    then have "lf_shape r1 ?ps" using r1(2,4) by (simp add: lf_shape_def)
    moreover have "lf_Erase r m = Inr (True, r1)"
      using t(2) td f r1(1,4) n False lane_node_n_obj [OF len] by (auto simp: lf_Erase_def nh_simps Let_def)
    ultimately show thesis using that r1(3) le by blast
  qed
qed

text \<open>The list that \<open>Victim\<close> takes from.\<close>

lemma get_min_empty:
  assumes s: "lf_shape r []"
  obtains nd r' where "get_min_freq_node r = Inr (nd, r')" "lf_shape r' []" "nd = None \<or> (\<exists>n. nd = Some n \<and> fn_n_obj n = 0)"
proof -
  have b: "lf_body r []" using s by (simp add: lf_shape_def)
  have fm: "fm_ok (lf_frq r) [] (lf_freq_map r)" using b by (simp add: lf_body_def lf_core_def)
  have z: "fn_n_obj (lane_node (lf_frq r) [] f) = 0" for f by (simp add: lane_node_def)
  obtain f where u: "update_min_freq r = Inr (r\<lparr>lf_min := f\<rparr>)" "f = lf_min r"
    by (rule update_min_ok [OF lf_bodyD(1) [OF b]]) auto
  then have u: "update_min_freq r = Inr r" by simp
  have bn: "lf_body (r\<lparr>lf_freq_map := Mapping.update 0 None (lf_freq_map r)\<rparr>) []"
    using b fm_ok_null [OF fm] by (simp add: lf_body_def lf_core_def lf_frq_def [abs_def])
  show thesis
  proof (cases "lf_min r = 1")
    case True
    then show thesis
      using that s lf_node_core(1) [OF lf_bodyD(1) [OF b], of 1] z by (simp add: get_min_freq_node_def)
  next
    case n1: False
    show thesis
    proof (cases rule: fm_ok_cases [OF fm, of "lf_min r"])
      case 1
      then have m0: "lf_min r = 0" using s by (auto simp: lf_shape_def min_ok_def)
      then have "get_min_freq_node r = Inr (None, r\<lparr>lf_freq_map := Mapping.update 0 None (lf_freq_map r)\<rparr>)"
        using u 1(1) by (simp add: get_min_freq_node_def)
      then show thesis using that bn m0 by (simp add: lf_shape_def)
    next
      case 2
      then show thesis using that s u n1 by (simp add: get_min_freq_node_def)
    next
      case 3
      then show thesis using that s u n1 z by (cases "lf_min r = 0") (simp_all add: get_min_freq_node_def)
    qed
  qed
qed

lemma get_min_node:
  assumes s: "lf_shape r ps" and ne: "ps \<noteq> []"
  obtains f where "get_min_freq_node r = Inr (Some (lane_node (lf_frq r) ps f), r\<lparr>lf_min := f\<rparr>)"
    "min_ok (lf_frq r) ps (lf_freq_map r) f" "lane (lf_frq r) ps f \<noteq> []"
proof -
  have b: "lf_body r ps" using s by (simp add: lf_shape_def)
  note c = lf_bodyD(1) [OF b]
  have m: "min_ok (lf_frq r) ps (lf_freq_map r) f \<Longrightarrow> lane (lf_frq r) ps f \<noteq> []" for f using ne by (simp add: min_ok_def)
  show thesis
  proof (cases "lf_min r = 0")
    case True
    have bd: "lf_min r < lf_frq r p \<and> lf_frq r p \<le> lf_max r" if "p \<in> set ps" for p
      using lf_bodyD(7) [OF b that] True by (auto simp: word_less_nat_alt word_le_nat_alt)
    obtain f where f: "update_min_freq r = Inr (r\<lparr>lf_min := f\<rparr>)" "ps \<noteq> [] \<Longrightarrow> min_ok (lf_frq r) ps (lf_freq_map r) f"
      by (rule update_min_ok [OF c bd]) (assumption | rule that; (assumption | blast))+
    note f = f(1) f(2) [OF ne]
    then have "get_min_freq_node r = Inr (Some (lane_node (lf_frq r) ps f), r\<lparr>lf_min := f\<rparr>)"
      using True lf_node_core(2) [OF c disjI1, OF m, OF f(2)] by (simp add: get_min_freq_node_def)
    then show thesis using that f(2) m by blast
  next
    case False
    then have mo: "min_ok (lf_frq r) ps (lf_freq_map r) (lf_min r)" using s by (simp add: lf_shape_def)
    then have "get_min_freq_node r = Inr (Some (lane_node (lf_frq r) ps (lf_min r)), r\<lparr>lf_min := lf_min r\<rparr>)"
      using False lf_node_core [OF c disjI1, OF m, OF mo] by (auto simp: get_min_freq_node_def)
    then show thesis using that mo m by blast
  qed
qed

lemma first_least_lane:
  assumes "min_ok (lf_frq r) ps fm f" "lane (lf_frq r) ps f = t # ts"
  shows "first_least (lf_abs r ps) = nh_val (lf_heap r) t" "t \<in> set ps" "lf_frq r t = f"
proof -
  have "t \<in> set (lane (lf_frq r) ps f)" using assms(2) by simp
  then show t: "t \<in> set ps" "lf_frq r t = f" by auto
  have "Min ((\<lambda>p. unat (nh_frq (lf_heap r) p)) ` set ps) = unat f"
  proof (rule Min_eqI)
    show "unat f \<in> (\<lambda>p. unat (nh_frq (lf_heap r) p)) ` set ps" using t by (auto simp: lf_frq_def)
    show "unat f \<le> y" if "y \<in> (\<lambda>p. unat (nh_frq (lf_heap r) p)) ` set ps" for y
      using that assms(1) by (auto simp: min_ok_def lf_frq_def word_le_nat_alt)
  qed simp
  moreover have "filter (\<lambda>p. unat (nh_frq (lf_heap r) p) = unat f) ps = t # ts"
    using assms(2) by (simp add: lane_def lf_frq_def word_unat_eq_iff)
  ultimately show "first_least (lf_abs r ps) = nh_val (lf_heap r) t"
    by (simp add: first_least_def lf_abs_def filter_map o_def image_image)
qed

lemma lf_Victim_shape:
  assumes s: "lf_shape r ps"
  obtains r' ps' where "lf_Victim r = Inr (fst (ref_victim (lf_abs r ps)), r')" "lf_shape r' ps'"
    "lf_abs r' ps' = snd (ref_victim (lf_abs r ps))" "length ps' \<le> length ps"
proof (cases "ps = []")
  case True
  obtain nd r' where g: "get_min_freq_node r = Inr (nd, r')" "lf_shape r' []" "nd = None \<or> (\<exists>n. nd = Some n \<and> fn_n_obj n = 0)"
    by (rule get_min_empty [OF s [unfolded True]])
  then have "lf_Victim r = Inr ((False, 0), r')" by (auto simp: lf_Victim_def)
  then show thesis using that g(2) True by (simp add: ref_victim_def lf_abs_def)
next
  case False
  have b: "lf_body r ps" using s by (simp add: lf_shape_def)
  obtain f where f: "get_min_freq_node r = Inr (Some (lane_node (lf_frq r) ps f), r\<lparr>lf_min := f\<rparr>)"
    "min_ok (lf_frq r) ps (lf_freq_map r) f" "lane (lf_frq r) ps f \<noteq> []" by (rule get_min_node [OF s False])
  obtain t ts where t: "lane (lf_frq r) ps f = t # ts" using f(3) by (cases "lane (lf_frq r) ps f") auto
  note fl = first_least_lane [OF f(2) t]
  let ?m = "nh_val (lf_heap r) t" and ?ps = "remove1 t ps" and ?r = "r\<lparr>lf_min := f\<rparr>"
  have b': "lf_body ?r ps" using b by simp
  obtain r1 where r1: "lf_take ?r f t = Inr (?m, r1)" "lf_body r1 ?ps" "lf_abs r1 ?ps = without ?m (lf_abs r ps)"
    "lf_min r1 = f" and g: "\<And>q. q \<in> set ?ps \<Longrightarrow> lf_frq r1 q = lf_frq r q"
    and fm: "\<And>f. Mapping.lookup (lf_freq_map r) f \<noteq> None \<Longrightarrow> Mapping.lookup (lf_freq_map r1) f \<noteq> None"
    and n: "lf_node r1 f = Inr (lane_node (lf_frq r) ?ps f)"
    using lf_take_shape [OF b' fl(2)] fl(3) by auto
  let ?r2 = "if lane (lf_frq r) ?ps f = [] then r1\<lparr>lf_min := 0\<rparr> else r1"
  have len: "length ?ps < 4294967296" by (rule lf_bodyD(9) [OF r1(2)])
  have no: "fn_n_obj (lane_node (lf_frq r) ps f) \<noteq> 0" using f(3) lane_node_n_obj [OF lf_bodyD(9) [OF b]] by simp
  have "lf_Victim r = Inr ((True, ?m), ?r2)"
    using f(1) no r1(1) n t lane_node_n_obj [OF len] by (simp add: lf_Victim_def) (simp add: lane_node_def)
  moreover have "min_ok (lf_frq r1) ?ps (lf_freq_map r1) f" if "lane (lf_frq r) ?ps f \<noteq> []"
    using f(2) that fm [of f] by (intro min_ok_remove [of "lf_frq r" ps "lf_freq_map r"] g) (auto simp: min_ok_def)
  then have "lf_shape ?r2 ?ps" using r1(2,4) by (simp add: lf_shape_def)
  moreover have "lf_abs ?r2 ?ps = without ?m (lf_abs r ps)" using r1(3) by simp
  moreover have "lf_abs r ps \<noteq> []" using False by (simp add: lf_abs_def)
  ultimately show thesis using that fl(1) by (simp add: ref_victim_def length_remove1)
qed

text \<open>A promoted object leaves its list and joins the next one.\<close>

lemma map_of_abs: "lf_body r ps \<Longrightarrow> t \<in> set ps \<Longrightarrow> map_of (lf_abs r ps) (nh_val (lf_heap r) t) = Some (unat (nh_frq (lf_heap r) t))"
  using lf_vals_inj [of r ps] lf_bodyD(8) [of r ps] by (simp add: lf_abs_def distinct_map map_of_eq_Some_iff o_def)

lemma lf_shape_erase:
  assumes "lf_shape r ps" "lane (lf_frq r) ps f = []" "f \<noteq> 1" "ps \<noteq> []"
  shows "lf_shape (r\<lparr>lf_freq_map := Mapping.delete f (lf_freq_map r)\<rparr>) ps"
proof -
  have "lf_frq (r\<lparr>lf_freq_map := Mapping.delete f (lf_freq_map r)\<rparr>) = lf_frq r" by (simp add: lf_frq_def [abs_def])
  then show ?thesis
    using assms fm_ok_erase [of "lf_frq r" ps "lf_freq_map r" f]
    by (auto simp: lf_shape_def lf_body_def lf_core_def min_ok_def lookup_delete_cases)
qed

lemma lf_Promote_shape:
  assumes s: "lf_shape r ps" and m: "map_of (lf_abs r ps) m = Some f" and f: "f < 4294967295"
  obtains r' ps' where "lf_Promote r m = Inr (True, r')" "lf_shape r' ps'" "lf_abs r' ps' = without m (lf_abs r ps) @ [(m, Suc f)]"
    "length ps' \<le> length ps"
proof -
  have b: "lf_body r ps" using s by (simp add: lf_shape_def)
  note d = lf_bodyD [OF b]
  have "m \<in> fst ` set (lf_abs r ps)" using m by (metis map_of_SomeD fst_conv image_eqI)
  then obtain t where t: "t \<in> set ps" "Mapping.lookup (lf_map r) m = Some t" "nh_val (lf_heap r) t = m"
    using lf_lookup(2) [OF b] by blast
  let ?w = "nh_frq (lf_heap r) t" and ?g = "lf_frq r" and ?ps = "remove1 t ps"
  let ?F = "wide (?w + 1)"
  have w: "unat ?w = f" using map_of_abs [OF b t(1)] m t(3) by simp
  then have w1: "unat (?w + 1) = Suc f" using f by (simp add: unat_word_ariths)
  have g: "?g t = wide ?w" "?F \<noteq> wide ?w" "?F \<noteq> 0" "wide ?w < ?F"
    using w w1 by (auto simp: lf_frq_def wide_less word_less_nat_alt word_unat_eq_iff)
  have td: "t \<in> nh_dom (lf_heap r)" using d(2) t(1) by simp
  let ?h = "put_frq (lf_heap r) t (?w + 1)"
  let ?r = "r\<lparr>lf_heap := ?h, lf_max := if lf_max r < ?F then ?F else lf_max r\<rparr>"
  have "lanes ?h ?g ps" using d(1) null_shape_frq [OF td] by (simp add: lf_core_def lanes_def)
  then have c: "lf_core ?r ?g ps" using d(1) by (simp add: lf_core_def)
  obtain h1 where h1: "lf_leave ?r (?g t) t = Inr (lf_put (?r\<lparr>lf_heap := h1\<rparr>) (?g t) (lane_node ?g ?ps (?g t)))"
    "lf_core (lf_put (?r\<lparr>lf_heap := h1\<rparr>) (?g t) (lane_node ?g ?ps (?g t))) ?g ?ps" "same_data (lf_heap ?r) h1"
    by (rule lf_leave_core [OF c t(1)])
  let ?r1 = "lf_put (?r\<lparr>lf_heap := h1\<rparr>) (?g t) (lane_node ?g ?ps (?g t))"
  let ?r2 = "if Mapping.lookup (lf_freq_map ?r1) ?F = None then lf_put ?r1 ?F (FreqNode ?F) else ?r1"
  have c2: "lf_core ?r2 ?g ?ps" "Mapping.lookup (lf_freq_map ?r2) ?F \<noteq> None \<and> ?F \<noteq> 0 \<or> ?F = 1" "lf_heap ?r2 = h1"
    using h1(2) fm_ok_fresh [of ?g ?ps "lf_freq_map ?r1" ?F] g(3) by (auto simp: lf_core_def lookup_update')
  have tp: "t \<in> nh_dom (lf_heap ?r2)" "t \<notin> set ?ps" using h1(3) c2(3) td d(8) by (simp_all add: same_data_def nh_simps)
  have "length ps > 0" using t(1) by (metis length_pos_if_in_set)
  then have len: "length ?ps < 4294967295" using d(9) t(1) by (simp add: length_remove1)
  let ?g' = "?g(t := ?F)" and ?qs = "?ps @ [t]"
  obtain h3 where h3: "lf_join ?r2 ?F t = Inr (lf_put (?r2\<lparr>lf_heap := h3\<rparr>) ?F (lane_node ?g' ?qs ?F))"
    "lf_core (lf_put (?r2\<lparr>lf_heap := h3\<rparr>) ?F (lane_node ?g' ?qs ?F)) ?g' ?qs" "same_data (lf_heap ?r2) h3"
    by (rule lf_join_core [OF c2(1) tp len c2(2)])
  define r3 where "r3 = lf_put (?r2\<lparr>lf_heap := h3\<rparr>) ?F (lane_node ?g' ?qs ?F)"
  have v: "nh_val h3 = nh_val (lf_heap r)" "nh_frq h3 = (nh_frq (lf_heap r))(t := ?w + 1)" "nh_dom h3 = set ps"
    "nh_fresh h3 = nh_fresh (lf_heap r)"
    using h3(3) h1(3) c2(3) d(2) td by (simp_all add: same_data_def nh_simps)
  have sel: "lf_map r3 = lf_map r" "lf_min r3 = lf_min r" "lf_max r3 = (if lf_max r < ?F then ?F else lf_max r)" "lf_heap r3 = h3"
    by (simp_all add: r3_def)
  have keep: "Mapping.lookup (lf_freq_map r) x \<noteq> None \<Longrightarrow> Mapping.lookup (lf_freq_map r3) x \<noteq> None"
    "Mapping.lookup (lf_freq_map r3) (?g t) \<noteq> None" for x
    by (simp_all add: r3_def lookup_update')
  have gq: "lf_frq r3 = ?g'" using v(2) sel(4) by (auto simp: lf_frq_def fun_eq_iff)
  have core: "lf_core r3 ?g' ?qs" and join: "lf_join ?r2 ?F t = Inr r3" using h3(1,2) by (simp_all only: r3_def)
  have sq: "set ?qs = set ps" using d(8) t(1) by auto
  have mx: "lf_max r \<le> lf_max r3" "?F \<le> lf_max r3" using sel(3) by (auto simp: word_le_nat_alt word_less_nat_alt)
  have qb: "1 \<le> ?g' p \<and> ?g' p \<le> lf_max r3" if "p \<in> set ?qs" for p
  proof (cases "p = t")
    case True
    have "1 \<le> unat ?F" using w1 by simp
    then show ?thesis using True mx(2) by (simp add: word_le_nat_alt)
  next
    case False
    then show ?thesis using d(7) [of p] that sq mx(1) order_trans by auto
  qed
  have body: "lf_body r3 ?qs"
    unfolding lf_body_def gq
  proof (intro conjI)
    show "1 \<le> lf_max r3" using d(6) mx(1) by (rule order_trans)
    show "\<forall>p\<in>set ?qs. 1 \<le> ?g' p \<and> ?g' p \<le> lf_max r3" using qb by blast
  qed (use core v(1,3,4) d(3,4,5) sq sel(1,4) in simp_all)
  have abs: "lf_abs r3 ?qs = without m (lf_abs r ps) @ [(m, Suc f)]"
    using without_remove [OF b t(1), of h3] v(1,2) t(3) w1 sel(4) by (simp add: lf_abs_def)
  have old: "lf_node r3 (?g t) = Inr (lane_node ?g' ?qs (?g t))"
  proof -
    have "?g t \<noteq> 0" using d(7) [OF t(1)] by auto
    then show ?thesis by (intro lf_node_core(1) [OF core]) (use keep(2) in simp)
  qed
  have lane_old: "lane ?g' ?qs x = (if ?F = x then lane ?g ?ps x @ [t] else lane ?g ?ps x)" for x
    using tp(2) by (rule lane_snoc)
  have mn: "min_ok ?g' ?qs (lf_freq_map r3) (lf_min r)" if "lf_min r \<noteq> 0" "lf_min r = ?g t \<Longrightarrow> lane ?g' ?qs (?g t) \<noteq> []"
  proof -
    have mo: "min_ok ?g ps (lf_freq_map r) (lf_min r)" using s that(1) by (simp add: lf_shape_def)
    have "lane ?g' ?qs (lf_min r) \<noteq> []"
      using mo that(2) lane_old [of "lf_min r"] t(1) by (cases "lf_min r = ?g t") (auto simp: min_ok_def lane_remove)
    moreover have "lf_min r \<le> ?g' p" if "p \<in> set ?qs" for p
    proof (cases "p = t")
      case True
      have "lf_min r \<le> ?g t" using mo t(1) by (simp add: min_ok_def)
      then show ?thesis using True g(1,4) by (simp add: word_le_nat_alt word_less_nat_alt)
    qed (use mo that sq in \<open>auto simp: min_ok_def\<close>)
    ultimately show ?thesis using mo keep(1) [of "lf_min r"] by (simp add: min_ok_def)
  qed
  have go: "lf_Promote r m = bindE (lf_node r3 (?g t)) (\<lambda>old.
      if fn_n_obj old = 0 then
        bindE (if lf_min r3 = fn_freq old then update_min_freq r3 else Inr r3) (\<lambda>r.
        Inr (True, if fn_freq old \<noteq> 1 then r\<lparr>lf_freq_map := Mapping.delete (?g t) (lf_freq_map r)\<rparr> else r))
      else Inr (True, r3))"
  proof -
    have u1: "nh_upd (\<lambda>n. n\<lparr>cn_freq := cn_freq n + 1\<rparr>) (lf_heap r) t = Inr ?h"
      using td by (simp add: nh_upd_def nh_simps put_frq_def)
    obtain n where u2: "nh_get ?h t = Inr n" "cn_freq n = ?w + 1" using td by (simp add: nh_simps)
    have u3: "?w + 1 - 1 = ?w" by simp
    show ?thesis
      by (simp only: lf_Promote_def t(2) option.case u1 u2 u3 bindE_Inr Let_def g(1) [symmetric] h1(1) join)
  qed
  have no: "fn_n_obj (lane_node ?g' ?qs (?g t)) = 0 \<longleftrightarrow> lane ?g' ?qs (?g t) = []"
    using lane_node_n_obj lf_bodyD(9) [OF body] by blast
  have le: "length ?qs \<le> length ps" using t(1) length_pos_if_in_set [OF t(1)] by (simp add: length_remove1 Suc_le_eq)
  show thesis
  proof (cases "lane ?g' ?qs (?g t) = []")
    case False
    then have "lf_shape r3 ?qs" using body mn sel(2) by (simp add: lf_shape_def gq)
    then show thesis using that go old no False abs le by simp
  next
    case True
    obtain r4 where r4: "(if lf_min r3 = ?g t then update_min_freq r3 else Inr r3) = Inr r4" "lf_shape r4 ?qs"
      "lf_abs r4 ?qs = lf_abs r3 ?qs" "lf_frq r4 = ?g'"
    proof (cases "lf_min r = ?g t")
      case mt: True
      then have "lf_min r \<noteq> 0" using d(7) [OF t(1)] by auto
      then have mo: "min_ok ?g ps (lf_freq_map r) (lf_min r)" using s by (simp add: lf_shape_def)
      have bd: "lf_min r3 < ?g' p \<and> ?g' p \<le> lf_max r3" if "p \<in> set ?qs" for p
      proof -
        have "?g' p \<noteq> ?g t" using True that by (auto simp: lane_def filter_empty_conv)
        moreover have "?g t \<le> ?g' p"
          using mo mt that sq g(1,4) by (cases "p = t") (auto simp: min_ok_def)
        ultimately show ?thesis using qb [OF that] mt sel(2) by (simp add: order.order_iff_strict)
      qed
      obtain x where x: "update_min_freq r3 = Inr (r3\<lparr>lf_min := x\<rparr>)" "?qs \<noteq> [] \<Longrightarrow> min_ok ?g' ?qs (lf_freq_map r3) x"
        by (rule update_min_ok [OF core bd]) (assumption | rule that; (assumption | blast))+
      show thesis using that [of "r3\<lparr>lf_min := x\<rparr>"] x body mt sel(2) by (simp add: lf_shape_def gq)
    next
      case False
      then show thesis using that [of r3] body mn sel(2) by (simp add: lf_shape_def gq)
    qed
    show thesis
    proof (cases "?g t = 1")
      case one: True
      then show thesis using that [of r4 ?qs] go old no True r4 abs le by simp
    next
      case False
      have "lf_shape (r4\<lparr>lf_freq_map := Mapping.delete (?g t) (lf_freq_map r4)\<rparr>) ?qs"
        by (rule lf_shape_erase) (use r4(2,4) True False in simp_all)
      moreover have "lf_abs (r4\<lparr>lf_freq_map := Mapping.delete (?g t) (lf_freq_map r4)\<rparr>) ?qs = lf_abs r4 ?qs"
        by (simp add: lf_abs_def)
      ultimately show thesis
        using that [of "r4\<lparr>lf_freq_map := Mapping.delete (?g t) (lf_freq_map r4)\<rparr>" ?qs] go old no True r4(1,3) abs le False
        by simp
    qed
  qed
qed

section \<open>Sequences of calls\<close>

datatype lfu_call = Insert_call mpage_id | Promote_call mpage_id | Victim_call | Erase_call mpage_id

fun lf_call :: "lfu \<Rightarrow> lfu_call \<Rightarrow> ((bool \<times> mpage_id) \<times> lfu) res" where
  "lf_call r (Insert_call m) = bindE (lf_Insert r m) (\<lambda>(ok, r). Inr ((ok, 0), r))"
| "lf_call r (Promote_call m) = bindE (lf_Promote r m) (\<lambda>(ok, r). Inr ((ok, 0), r))"
| "lf_call r Victim_call = lf_Victim r"
| "lf_call r (Erase_call m) = bindE (lf_Erase r m) (\<lambda>(ok, r). Inr ((ok, 0), r))"

fun lf_run :: "lfu \<Rightarrow> lfu_call list \<Rightarrow> ((bool \<times> mpage_id) list \<times> lfu) res" where
  "lf_run r [] = Inr ([], r)"
| "lf_run r (c # cs) = bindE (lf_call r c) (\<lambda>(x, r). bindE (lf_run r cs) (\<lambda>(xs, r). Inr (x # xs, r)))"

fun ref_call :: "lfu_list \<Rightarrow> lfu_call \<Rightarrow> (bool \<times> mpage_id) \<times> lfu_list" where
  "ref_call xs (Insert_call m) = (case ref_insert m xs of (ok, xs) \<Rightarrow> ((ok, 0), xs))"
| "ref_call xs (Promote_call m) = (case ref_promote m xs of (ok, xs) \<Rightarrow> ((ok, 0), xs))"
| "ref_call xs Victim_call = ref_victim xs"
| "ref_call xs (Erase_call m) = (case ref_erase m xs of (ok, xs) \<Rightarrow> ((ok, 0), xs))"

fun ref_run :: "lfu_list \<Rightarrow> lfu_call list \<Rightarrow> (bool \<times> mpage_id) list \<times> lfu_list" where
  "ref_run xs [] = ([], xs)"
| "ref_run xs (c # cs) = (case ref_call xs c of (x, xs) \<Rightarrow> case ref_run xs cs of (rs, xs) \<Rightarrow> (x # rs, xs))"

lemma without_absent: "m \<notin> fst ` set xs \<Longrightarrow> without m xs = xs"
  by (auto simp: without_def filter_id_conv)

lemma set_without: "set (without m xs) \<subseteq> set xs"
  by (auto simp: without_def)

lemma lf_size: "lf_shape r ps \<Longrightarrow> lf_Size r = of_nat (length (lf_abs r ps))"
proof -
  assume "lf_shape r ps"
  then have b: "lf_body r ps" by (simp add: lf_shape_def)
  have "Mapping.keys (lf_map r) = nh_val (lf_heap r) ` set ps"
    using lf_lookup [OF b] by (force simp: keys_is_none_rep Option.is_none_def lf_abs_def)
  then show ?thesis
    using lf_vals_inj [OF b] lf_bodyD(8) [OF b] by (simp add: lf_Size_def Mapping.size_def card_image distinct_card lf_abs_def)
qed

text \<open>After \<open>n\<close> calls there are at most \<open>n\<close> frames, of frequencies up to \<open>n\<close>.\<close>

definition lf_ok :: "lfu \<Rightarrow> lfu_list \<Rightarrow> nat \<Rightarrow> bool" where
  "lf_ok r xs n \<longleftrightarrow> (\<exists>ps. lf_shape r ps \<and> lf_abs r ps = xs) \<and> length xs \<le> n \<and> (\<forall>x\<in>set xs. snd x \<le> n)"

lemma lf_okI: "lf_shape r ps \<Longrightarrow> lf_abs r ps = xs \<Longrightarrow> length ps \<le> n \<Longrightarrow> (\<And>x. x \<in> set xs \<Longrightarrow> snd x \<le> n) \<Longrightarrow> lf_ok r xs n"
  by (auto simp: lf_ok_def) (auto simp: lf_abs_def)

lemma lf_call_refines:
  assumes ok: "lf_ok r xs n" and n: "n < 4294967295"
  shows "\<exists>r'. lf_call r c = Inr (fst (ref_call xs c), r') \<and> lf_ok r' (snd (ref_call xs c)) (Suc n)"
proof -
  obtain ps where s: "lf_shape r ps" and xs: "lf_abs r ps = xs" using ok by (auto simp: lf_ok_def)
  have b: "lf_body r ps" using s by (simp add: lf_shape_def)
  have len: "length ps \<le> n" using ok xs by (auto simp: lf_ok_def lf_abs_def)
  have fr: "snd x \<le> Suc n" if "x \<in> set xs" for x using ok that by (auto simp: lf_ok_def intro: le_SucI)
  have same: "lf_ok r xs (Suc n)" using lf_okI [OF s xs] len fr by simp
  show ?thesis
  proof (cases c)
    case (Insert_call m)
    show ?thesis
    proof (cases "m \<in> fst ` set xs")
      case True
      then show ?thesis using lf_lookup(2) [OF b, of m] same xs Insert_call by (auto simp: lf_Insert_def ref_insert_def)
    next
      case False
      obtain r' p where i: "lf_Insert r m = Inr (True, r')" "lf_shape r' (ps @ [p])" "lf_abs r' (ps @ [p]) = xs @ [(m, 1)]"
        by (rule lf_Insert_shape [OF s]) (use False xs len n in auto)
      have "lf_ok r' (xs @ [(m, 1)]) (Suc n)" by (rule lf_okI [OF i(2,3)]) (use len fr in auto)
      then show ?thesis using i(1) False Insert_call by (simp add: ref_insert_def)
    qed
  next
    case (Promote_call m)
    show ?thesis
    proof (cases "map_of xs m")
      case None
      have "Mapping.lookup (lf_map r) m = None" using lf_lookup(1) [OF b, of m] None xs by (simp add: map_of_eq_None_iff)
      then show ?thesis using same None Promote_call by (simp add: lf_Promote_def ref_promote_def)
    next
      case (Some f)
      then have f: "f \<le> n" using ok map_of_SomeD by (fastforce simp: lf_ok_def)
      obtain r' ps' where p: "lf_Promote r m = Inr (True, r')" "lf_shape r' ps'" "lf_abs r' ps' = without m xs @ [(m, Suc f)]"
        "length ps' \<le> length ps"
        by (rule lf_Promote_shape [OF s, of m f]) (use Some xs f n in auto)
      have "lf_ok r' (without m xs @ [(m, Suc f)]) (Suc n)"
        by (rule lf_okI [OF p(2,3)]) (use len fr f p(4) set_without [of m xs] in auto)
      then show ?thesis using p(1) Some Promote_call by (simp add: ref_promote_def)
    qed
  next
    case Victim_call
    obtain r' ps' where v: "lf_Victim r = Inr (fst (ref_victim xs), r')" "lf_shape r' ps'" "lf_abs r' ps' = snd (ref_victim xs)"
      "length ps' \<le> length ps"
      using lf_Victim_shape [OF s] unfolding xs by blast
    have "set (snd (ref_victim xs)) \<subseteq> set xs" using set_without by (auto simp: ref_victim_def)
    then have "lf_ok r' (snd (ref_victim xs)) (Suc n)" by (intro lf_okI [OF v(2,3)]) (use len fr v(4) in auto)
    then show ?thesis using v(1) Victim_call by simp
  next
    case (Erase_call m)
    show ?thesis
    proof (cases "m \<in> fst ` set xs")
      case True
      obtain r' ps' where e: "lf_Erase r m = Inr (True, r')" "lf_shape r' ps'" "lf_abs r' ps' = without m xs" "length ps' \<le> length ps"
        by (rule lf_Erase_shape [OF s, of m]) (use True xs in auto)
      have "lf_ok r' (without m xs) (Suc n)" by (rule lf_okI [OF e(2,3)]) (use len fr e(4) set_without [of m xs] in auto)
      then show ?thesis using e(1) True Erase_call by (simp add: ref_erase_def)
    next
      case False
      then show ?thesis
        using lf_lookup(1) [OF b, of m] same xs Erase_call by (simp add: lf_Erase_def ref_erase_def without_absent)
    qed
  qed
qed

lemma lf_run_refines:
  assumes "lf_ok r xs n" "n + length cs < 4294967296"
  shows "\<exists>r'. lf_run r cs = Inr (fst (ref_run xs cs), r') \<and> lf_ok r' (snd (ref_run xs cs)) (n + length cs)"
  using assms
proof (induction cs arbitrary: r xs n)
  case (Cons c cs)
  obtain r1 where r1: "lf_call r c = Inr (fst (ref_call xs c), r1)" "lf_ok r1 (snd (ref_call xs c)) (Suc n)"
    using lf_call_refines [OF Cons.prems(1), of c] Cons.prems(2) by auto
  then show ?case using Cons.IH [OF r1(2)] Cons.prems(2) by (auto simp: case_prod_unfold)
qed simp

text \<open>C36: \<open>LFUReplacer\<close> is a least-frequently-used policy.  Over any sequence of calls on a new object, up to the
  width of a frequency, every call returns and answers as the reference does: a list of the frames with the number of their
  uses, from which \<open>Victim\<close> takes, among those with the fewest, the one that has had that number longest.\<close>

theorem LFUReplacer_evicts_least_used:
  assumes "length cs < 4294967296"
  shows "\<exists>r. lf_run lf_new cs = Inr (fst (ref_run [] cs), r) \<and> lf_Size r = of_nat (length (snd (ref_run [] cs)))"
proof -
  have "lf_ok lf_new [] 0" using lf_okI [OF lf_new_shape] by simp
  from lf_run_refines [OF this, of cs] obtain r where
    "lf_run lf_new cs = Inr (fst (ref_run [] cs), r)" "lf_ok r (snd (ref_run [] cs)) (length cs)" using assms by auto
  then show ?thesis using lf_size by (auto simp: lf_ok_def)
qed

lemma LFUReplacer_evicts_least_used_witness:
  "\<exists>r. lf_run lf_new [Insert_call 5, Insert_call 7, Promote_call 5, Victim_call, Insert_call 9, Victim_call, Victim_call, Victim_call] =
    Inr ([(True, 0), (True, 0), (True, 0), (True, 7), (True, 0), (True, 9), (True, 5), (False, 0)], r) \<and> lf_Size r = 0"
  using LFUReplacer_evicts_least_used [of "[Insert_call 5, Insert_call 7, Promote_call 5, Victim_call, Insert_call 9, Victim_call,
    Victim_call, Victim_call]"]
  by (simp add: ref_insert_def ref_promote_def ref_victim_def first_least_def without_def)

end
