(* ===== verification/SievePtr.thy ===== *)
theory SievePtr
  imports NullList
begin

text \<open>
  \<open>SieveReplacer\<close> (\<^verbatim>\<open>include/replacer/sieve_replacer.h\<close>): the first version of the SIEVE policy, a list
  of heap nodes between null pointers with a hand that moves towards the front.  Unlike its third
  version its \<open>Victim\<close> gives up and reports so when it has passed three times as many frames as there
  are, and its \<open>Erase\<close> moves the hand off the frame it removes.  It is proved to satisfy the contract of
  a policy, so the theorems about the pool hold with it too.
\<close>

section \<open>State and operations\<close>

record sieve1 =
  sv_heap :: "clock_node node_heap"
  sv_head :: nat
  sv_tail :: nat
  sv_pointer :: nat
  sv_map :: "(mpage_id, nat) mapping"

definition sv_new :: sieve1 where
  "sv_new = \<lparr>sv_heap = null_heap, sv_head = NULL_ADDR, sv_tail = NULL_ADDR, sv_pointer = NULL_ADDR, sv_map = Mapping.empty\<rparr>"

text \<open>The frequency, which the constructor of a node leaves uninitialised, is set to 0 before it is read.\<close>

definition sv_Insert :: "sieve1 \<Rightarrow> mpage_id \<Rightarrow> (bool \<times> sieve1) res" where
  "sv_Insert r value =
     (if Mapping.lookup (sv_map r) value = None then
        let (cur, h) = nh_new (sv_heap r) (ListNode_clock 0 value); mp = Mapping.update value cur (sv_map r) in
        bindE (nl_prepend h (sv_head r) (sv_tail r) cur) (\<lambda>(h, front, rear).
        bindE (assertE (Mapping.lookup mp value \<noteq> None)) (\<lambda>_.
        Inr (True, r\<lparr>sv_heap := h, sv_head := front, sv_tail := rear, sv_map := mp\<rparr>)))
      else Inr (False, r))"

definition sv_Promote :: "sieve1 \<Rightarrow> mpage_id \<Rightarrow> (bool \<times> sieve1) res" where
  "sv_Promote r value =
     (case Mapping.lookup (sv_map r) value of
        None \<Rightarrow> Inr (False, r)
      | Some p \<Rightarrow> bindE (nh_upd (\<lambda>n. n\<lparr>cn_freq := 1\<rparr>) (sv_heap r) p) (\<lambda>h. Inr (True, r\<lparr>sv_heap := h\<rparr>)))"

definition sv_step :: "clock_node node_heap \<Rightarrow> nat \<Rightarrow> nat \<Rightarrow> nat res" where
  "sv_step h rear target = bindE (node_before h target) (\<lambda>p. Inr (if p = NULL_ADDR then rear else p))"

text \<open>
  The two nested loops of \<open>Victim\<close> as one: a frame with a positive frequency is aged and passed without
  being counted, another one is tried, and counted when it cannot be taken.  \<open>skip_dirty\<close> is the batch
  form.  \<open>None\<close> says that the count has run out.
\<close>

fun sv_loop :: "bool \<Rightarrow> nat \<Rightarrow> nat \<Rightarrow> clock_node node_heap \<Rightarrow> nat \<Rightarrow> nat \<Rightarrow> page_table \<Rightarrow>
    (nat option \<times> clock_node node_heap \<times> page_table) res" where
  "sv_loop skip_dirty 0 count h rear target pt = Inl OutOfFuel"
| "sv_loop skip_dirty (Suc fuel) count h rear target pt =
     (if count = 0 then Inr (None, h, pt)
      else bindE (nh_get h target) (\<lambda>n.
        if cn_freq n > 0 then
          bindE (nh_upd (\<lambda>n. n\<lparr>cn_freq := cn_freq n - 1\<rparr>) h target) (\<lambda>h.
          bindE (sv_step h rear target) (\<lambda>target. sv_loop skip_dirty fuel count h rear target pt))
        else bindE (try_evict skip_dirty pt (pn_val n)) (\<lambda>(found, pt).
          if found then Inr (Some target, h, pt)
          else bindE (sv_step h rear target) (\<lambda>target. sv_loop skip_dirty fuel (count - 1) h rear target pt))))"

text \<open>Taking a node out of the list, the map and the heap.\<close>

definition sv_take :: "sieve1 \<Rightarrow> nat \<Rightarrow> (mpage_id \<times> sieve1) res" where
  "sv_take r target =
     bindE (nl_remove (sv_heap r) (sv_head r) (sv_tail r) target) (\<lambda>(h, front, rear).
     bindE (nh_get h target) (\<lambda>n.
     bindE (nh_delete h target) (\<lambda>h.
     Inr (pn_val n, r\<lparr>sv_heap := h, sv_head := front, sv_tail := rear, sv_map := Mapping.delete (pn_val n) (sv_map r)\<rparr>))))"

definition sv_start :: "sieve1 \<Rightarrow> nat" where
  "sv_start r = (if sv_pointer r = NULL_ADDR then sv_tail r else sv_pointer r)"

text \<open>Fuel: every frame is aged at most once, and counted frames are passed until the count runs out.\<close>

definition sv_scan :: "bool \<Rightarrow> sieve1 \<Rightarrow> page_table \<Rightarrow> (nat option \<times> clock_node node_heap \<times> page_table) res" where
  "sv_scan skip_dirty r pt =
     (let n = Mapping.size (sv_map r) in sv_loop skip_dirty (4 * n + 1) (n * 3) (sv_heap r) (sv_tail r) (sv_start r) pt)"

definition sv_Victim :: "sieve1 \<Rightarrow> page_table \<Rightarrow> ((bool \<times> mpage_id) \<times> sieve1 \<times> page_table) res" where
  "sv_Victim r pt =
     (if sv_start r = NULL_ADDR then Inr ((False, 0), r, pt)
      else bindE (sv_scan False r pt) (\<lambda>(v, h, pt).
        let r = r\<lparr>sv_heap := h\<rparr> in
        case v of
          None \<Rightarrow> Inr ((False, 0), r, pt)
        | Some target \<Rightarrow>
            bindE (node_before (sv_heap r) target) (\<lambda>p.
            bindE (sv_take (r\<lparr>sv_pointer := p\<rparr>) target) (\<lambda>(m, r). Inr ((True, m), r, pt)))))"

text \<open>The batch form: clean frames, whose mapping it deletes; the scan begins where the last one ended.\<close>

fun sv_batch :: "sieve1 \<Rightarrow> page_table \<Rightarrow> mpage_id list \<Rightarrow> nat \<Rightarrow> (bool \<times> mpage_id list \<times> sieve1 \<times> page_table) res" where
  "sv_batch r pt mpage_ids 0 = Inr (True, mpage_ids, r, pt)"
| "sv_batch r pt mpage_ids (Suc page_num) =
     bindE (sv_scan True r pt) (\<lambda>(v, h, pt).
     let r = r\<lparr>sv_heap := h\<rparr> in
     case v of
       None \<Rightarrow> Inr (mpage_ids \<noteq> [], mpage_ids, r, pt)
     | Some target \<Rightarrow>
         bindE (nh_get h target) (\<lambda>n.
         bindE (FromPageId pt (pn_val n)) (\<lambda>w.
         bindE (DeleteMapping pt (pte_fd_cur w) (pte_fpage_id_cur w) (pn_val n)) (\<lambda>(ok, pt).
         bindE (assertE ok) (\<lambda>_.
         bindE (sv_take (r\<lparr>sv_pointer := pn_prev n\<rparr>) target) (\<lambda>(m, r).
         sv_batch r pt (mpage_ids @ [m]) page_num))))))"

definition sv_Victim_batch :: "sieve1 \<Rightarrow> page_table \<Rightarrow> mpage_id list \<Rightarrow> nat \<Rightarrow>
    (bool \<times> mpage_id list \<times> sieve1 \<times> page_table) res" where
  "sv_Victim_batch r pt mpage_ids page_num =
     bindE (assertE (sv_start r \<noteq> NULL_ADDR)) (\<lambda>_. sv_batch r pt mpage_ids page_num)"

definition sv_Erase :: "sieve1 \<Rightarrow> mpage_id \<Rightarrow> (bool \<times> sieve1) res" where
  "sv_Erase r value =
     (case Mapping.lookup (sv_map r) value of
        None \<Rightarrow> Inr (False, r)
      | Some cur \<Rightarrow>
          bindE (node_before (sv_heap r) cur) (\<lambda>p.
          bindE (sv_take (if cur = sv_pointer r then r\<lparr>sv_pointer := p\<rparr> else r) cur) (\<lambda>(_, r). Inr (True, r))))"

definition sv_Size :: "sieve1 \<Rightarrow> u64 res" where
  "sv_Size r = Inr (of_nat (Mapping.size (sv_map r)))"

definition sv_ops :: "sieve1 replacer_ops" where
  "sv_ops = \<lparr>op_Insert = sv_Insert, op_Promote = sv_Promote, op_Victim = sv_Victim, op_Erase = sv_Erase, op_Size = sv_Size\<rparr>"

section \<open>The shape of the state\<close>

definition sv_shape :: "sieve1 \<Rightarrow> nat list \<Rightarrow> bool" where
  "sv_shape r ps \<longleftrightarrow> null_shape (sv_heap r) ps \<and> nh_dom (sv_heap r) = set ps \<and> 0 < nh_fresh (sv_heap r) \<and>
     (\<forall>p\<in>set ps. p < nh_fresh (sv_heap r)) \<and>
     sv_head r = first_of NULL_ADDR ps \<and> sv_tail r = last_of NULL_ADDR ps \<and> sv_pointer r \<in> insert NULL_ADDR (set ps) \<and>
     distinct (map (nh_val (sv_heap r)) ps) \<and> (\<forall>p\<in>set ps. nh_frq (sv_heap r) p \<le> 1) \<and>
     (\<forall>m p. Mapping.lookup (sv_map r) m = Some p \<longleftrightarrow> p \<in> set ps \<and> nh_val (sv_heap r) p = m)"

lemma sv_shapeD:
  assumes "sv_shape r ps"
  shows "null_shape (sv_heap r) ps" "nh_dom (sv_heap r) = set ps" "0 < nh_fresh (sv_heap r)"
    "\<And>p. p \<in> set ps \<Longrightarrow> p < nh_fresh (sv_heap r)" "sv_head r = first_of NULL_ADDR ps" "sv_tail r = last_of NULL_ADDR ps"
    "sv_pointer r \<in> insert NULL_ADDR (set ps)" "inj_on (nh_val (sv_heap r)) (set ps)" "distinct ps"
    "\<And>p. p \<in> set ps \<Longrightarrow> nh_frq (sv_heap r) p \<le> 1" "NULL_ADDR \<notin> set ps"
    "\<And>m p. Mapping.lookup (sv_map r) m = Some p \<longleftrightarrow> p \<in> set ps \<and> nh_val (sv_heap r) p = m"
  using assms by (auto simp: sv_shape_def null_shape_def distinct_map)

definition sv_frames :: "sieve1 \<Rightarrow> nat list \<Rightarrow> mpage_id set" where
  "sv_frames r ps = nh_val (sv_heap r) ` set ps"

lemma sv_lookup:
  assumes s: "sv_shape r ps"
  shows "m \<notin> sv_frames r ps \<Longrightarrow> Mapping.lookup (sv_map r) m = None"
    "m \<in> sv_frames r ps \<Longrightarrow> \<exists>p\<in>set ps. Mapping.lookup (sv_map r) m = Some p \<and> nh_val (sv_heap r) p = m"
  using sv_shapeD(12) [OF s, of m] by (cases "Mapping.lookup (sv_map r) m"; force simp: sv_frames_def)+

lemma sv_size: "sv_shape r ps \<Longrightarrow> Mapping.size (sv_map r) = length ps"
proof -
  assume s: "sv_shape r ps"
  have "Mapping.keys (sv_map r) = sv_frames r ps"
    using sv_lookup [OF s] by (force simp: keys_is_none_rep Option.is_none_def)
  then show ?thesis
    using sv_shapeD(8,9) [OF s] by (simp add: Mapping.size_def sv_frames_def card_image distinct_card)
qed

lemma sv_new_shape: "sv_shape sv_new []"
  by (simp add: sv_shape_def sv_new_def)

lemma sv_Insert_shape:
  assumes s: "sv_shape r ps" and m: "m \<notin> sv_frames r ps"
  shows "\<exists>r' ps'. sv_Insert r m = Inr (True, r') \<and> sv_shape r' ps' \<and> sv_frames r' ps' = insert m (sv_frames r ps)"
proof -
  note d = sv_shapeD [OF s]
  obtain p h where n: "nh_new (sv_heap r) (ListNode_clock 0 m) = (p, h)" by fastforce
  have "\<forall>p\<in>nh_dom (sv_heap r). p < nh_fresh (sv_heap r)" using d(2,4) by simp
  note h = nl_new [OF this d(3) n]
  have ps: "p \<notin> set ps" "p \<noteq> NULL_ADDR" using h(2,3) d(2,3) by (auto simp: NULL_ADDR_def)
  obtain h' where h': "nl_prepend h (first_of NULL_ADDR ps) (last_of NULL_ADDR ps) p = Inr (h', p, last_of NULL_ADDR (p # ps))"
    "null_shape h' (p # ps)" "same_data h h'"
    using nl_add_shape(1) [OF h(7) [OF d(1)], of p] h(1) ps by auto
  have v: "nh_val h' = (nh_val (sv_heap r))(p := m)" "nh_frq h' = (nh_frq (sv_heap r))(p := 0)" "nh_dom h' = insert p (set ps)"
    "nh_fresh h' = Suc p"
    using h'(3) h(1,4,5,6) d(2) by (simp_all add: same_data_def ListNode_clock_def)
  let ?r = "r\<lparr>sv_heap := h', sv_head := p, sv_tail := last_of NULL_ADDR (p # ps), sv_map := Mapping.update m p (sv_map r)\<rparr>"
  have l: "Mapping.lookup (Mapping.update m p (sv_map r)) m' = Some q \<longleftrightarrow> q \<in> set (p # ps) \<and> nh_val h' q = m'" for m' q
    using d(12) [of m' q] m ps v(1) sv_lookup(1) [OF s m] by (auto simp: lookup_update' sv_frames_def)
  have "sv_shape ?r (p # ps)"
    unfolding sv_shape_def using h'(2) v d(4,7,8,9,10) ps h(3) m l
    by (auto simp: distinct_map sv_frames_def inj_on_def less_SucI)
  moreover have "sv_Insert r m = Inr (True, ?r)"
    using n h'(1) d(5,6) sv_lookup(1) [OF s m] by (simp add: sv_Insert_def)
  moreover have "sv_frames ?r (p # ps) = insert m (sv_frames r ps)" using ps v(1) by (auto simp: sv_frames_def)
  ultimately show ?thesis by blast
qed

lemma sv_Promote_shape:
  assumes s: "sv_shape r ps" and m: "m \<in> sv_frames r ps"
  shows "\<exists>r'. sv_Promote r m = Inr (True, r') \<and> sv_shape r' ps \<and> sv_frames r' ps = sv_frames r ps"
proof -
  note d = sv_shapeD [OF s]
  obtain p where p: "p \<in> set ps" "Mapping.lookup (sv_map r) m = Some p" using sv_lookup(2) [OF s m] by blast
  then have pd: "p \<in> nh_dom (sv_heap r)" using d(2) by simp
  have "sv_shape (r\<lparr>sv_heap := put_frq (sv_heap r) p 1\<rparr>) ps"
    using s pd by (auto simp: sv_shape_def null_shape_frq nh_simps)
  then show ?thesis
    using p(2) pd by (simp add: sv_Promote_def nh_upd_def nh_simps sv_frames_def put_frq_def [symmetric])
qed

lemma sv_take_shape:
  assumes s: "sv_shape r ps" and t: "t \<in> set ps" and p: "sv_pointer r \<noteq> t"
  shows "\<exists>r'. sv_take r t = Inr (nh_val (sv_heap r) t, r') \<and> sv_shape r' (remove1 t ps) \<and>
    sv_frames r' (remove1 t ps) = sv_frames r ps - {nh_val (sv_heap r) t}"
proof -
  note d = sv_shapeD [OF s]
  obtain ys zs where ps: "ps = ys @ t # zs" "t \<notin> set ys" "t \<notin> set zs"
    using t d(9) by (metis distinct.simps(2) distinct_append in_set_conv_decomp_first)
  have r1: "remove1 t ps = ys @ zs" using ps by (simp add: remove1_append)
  obtain h where h: "nl_remove (sv_heap r) (sv_head r) (sv_tail r) t =
      Inr (h, first_of NULL_ADDR (ys @ zs), last_of NULL_ADDR (ys @ zs))" "null_shape h (ys @ zs)" "same_data (sv_heap r) h"
    using nl_remove_shape [of "sv_heap r" ys t zs] d(1,5,6) unfolding ps(1) by auto
  have td: "t \<in> nh_dom h" using h(3) d(2) t by (simp add: same_data_def)
  obtain h' where h': "nh_delete h t = Inr h'" "nh_dom h' = nh_dom h - {t}" "nh_fresh h' = nh_fresh h"
    "\<And>q. q \<noteq> t \<Longrightarrow> nh_val h' q = nh_val h q \<and> nh_frq h' q = nh_frq h q" "null_shape h' (ys @ zs)"
    by (rule nl_delete [OF td]) (use h(2) ps in auto)
  let ?m = "nh_val (sv_heap r) t"
  let ?r = "r\<lparr>sv_heap := h', sv_head := first_of NULL_ADDR (ys @ zs), sv_tail := last_of NULL_ADDR (ys @ zs),
    sv_map := Mapping.delete ?m (sv_map r)\<rparr>"
  have v: "q \<noteq> t \<Longrightarrow> nh_val h' q = nh_val (sv_heap r) q \<and> nh_frq h' q = nh_frq (sv_heap r) q" for q
    using h'(4) h(3) by (simp add: same_data_def)
  have sp: "set ps = insert t (set (ys @ zs))" "t \<notin> set (ys @ zs)" using ps by auto
  have mv: "map (nh_val h') (ys @ zs) = map (nh_val (sv_heap r)) (ys @ zs)" 
    by (simp only: map_eq_conv) (metis v sp(2))
  have dm: "distinct (map (nh_val (sv_heap r)) (ys @ zs))" "?m \<notin> nh_val (sv_heap r) ` set (ys @ zs)"
    using s unfolding sv_shape_def ps(1) by auto
  have l: "Mapping.lookup (Mapping.delete ?m (sv_map r)) m = Some q \<longleftrightarrow> q \<in> set (ys @ zs) \<and> nh_val h' q = m" for m q
  proof -
    have "q \<in> set (ys @ zs) \<Longrightarrow> nh_val (sv_heap r) q \<noteq> ?m" using dm(2) by (metis imageI)
    then show ?thesis
      using d(12) [of m q] v [of q] sp by (cases "m = ?m"; cases "q = t") (auto simp: lookup_delete_neq)
  qed
  have "nh_dom h' = set (ys @ zs)" using h'(2) h(3) d(2) sp by (auto simp: same_data_def)
  moreover have "0 < nh_fresh h'" using h'(3) h(3) d(3) by (simp add: same_data_def)
  moreover have "q < nh_fresh h'" if "q \<in> set (ys @ zs)" for q
    using h'(3) h(3) d(4) [of q] that sp(1) by (simp add: same_data_def)
  moreover have "sv_pointer r \<in> insert NULL_ADDR (set (ys @ zs))" using d(7) p sp by auto
  moreover have "distinct (map (nh_val h') (ys @ zs))" using dm(1) by (simp only: mv)
  moreover have "nh_frq h' q \<le> 1" if "q \<in> set (ys @ zs)" for q
    using v [of q] d(10) [of q] that sp by (metis insertCI)
  ultimately have "sv_shape ?r (ys @ zs)" using h'(5) l unfolding sv_shape_def by simp
  moreover have "sv_take r t = Inr (?m, ?r)"
    using h(1) h'(1) td h(3) by (simp add: sv_take_def nh_simps same_data_def)
  moreover have "sv_frames ?r (ys @ zs) = sv_frames r ps - {?m}"
    using mv dm(2) by (simp add: sv_frames_def sp(1) image_iff) (metis (no_types, lifting) image_cong sp(2) v)
  ultimately show ?thesis unfolding r1 by blast
qed

section \<open>The scan\<close>

lemma sv_step_nth:
  assumes s: "null_shape h ps" and k: "k < length ps"
  shows "sv_step h (last_of NULL_ADDR ps) (ps ! k) = Inr (ps ! prv_pos (length ps) k)"
proof -
  have m: "ps ! k \<in> nh_dom h" "ps ! (k - 1) \<noteq> NULL_ADDR"
    using s k by (auto simp: null_shape_def) (metis Suc_lessD Suc_pred k less_imp_diff_less nth_mem subsetD)
  have "nh_prv h (ps ! k) = (NULL_ADDR # ps) ! k" using s k seg_nth unfolding null_shape_def by blast
  then show ?thesis
    using m k by (cases k) (auto simp: sv_step_def node_before_def nh_simps prv_pos_def last_of_def last_conv_nth)
qed

text \<open>What ageing keeps.\<close>

definition aged :: "clock_node node_heap \<Rightarrow> clock_node node_heap \<Rightarrow> nat list \<Rightarrow> bool" where
  "aged h h' ps \<longleftrightarrow> null_shape h' ps \<and> nh_val h' = nh_val h \<and> nh_dom h' = nh_dom h \<and> nh_fresh h' = nh_fresh h \<and>
     (\<forall>p\<in>set ps. nh_frq h' p \<le> 1)"

lemma aged_trans: "aged h h1 ps \<Longrightarrow> aged h1 h2 ps \<Longrightarrow> aged h h2 ps"
  by (simp add: aged_def)

lemma word_le_1: "(w :: u32) \<le> 1 \<Longrightarrow> w > 0 \<Longrightarrow> w = 1"
  by (simp add: word_le_nat_alt word_less_nat_alt word_unat_eq_iff)

lemma age_once:
  assumes a: "aged h h ps" and p: "p \<in> set ps"
  shows "aged h (put_frq h p 0) ps"
proof -
  have "p \<in> nh_dom h" using assms by (auto simp: aged_def null_shape_def)
  then show ?thesis using a by (simp add: aged_def null_shape_frq nh_simps)
qed

text \<open>One round of the loop at position \<open>k\<close>.\<close>

lemma sv_loop_round:
  assumes a: "aged h h ps" and k: "k < length ps" and wf: "pt_wf c pt" and h: "held pt (nh_val h (ps ! k))"
    and c: "0 < count"
  shows "sv_loop False (Suc fuel) count h (last_of NULL_ADDR ps) (ps ! k) pt =
    (if nh_frq h (ps ! k) > 0 then
       sv_loop False fuel count (put_frq h (ps ! k) 0) (last_of NULL_ADDR ps) (ps ! prv_pos (length ps) k) pt
     else if pinned pt (nh_val h (ps ! k)) then
       sv_loop False fuel (count - 1) h (last_of NULL_ADDR ps) (ps ! prv_pos (length ps) k) pt
     else Inr (Some (ps ! k), h, lock_frame pt (nh_val h (ps ! k))))"
proof -
  have p: "ps ! k \<in> set ps" "ps ! k \<in> nh_dom h" using a k by (auto simp: aged_def null_shape_def)
  have f: "cn_freq (the (nh_nodes h (ps ! k))) = nh_frq h (ps ! k)" by (simp add: nh_frq_def)
  have "nh_frq h (ps ! k) > 0 \<Longrightarrow> nh_frq h (ps ! k) = 1" using a p(1) word_le_1 by (auto simp: aged_def)
  then have z: "nh_frq h (ps ! k) > 0 \<Longrightarrow> nh_frq h (ps ! k) - 1 = 0" by simp
  have s: "sv_step h (last_of NULL_ADDR ps) (ps ! k) = Inr (ps ! prv_pos (length ps) k)"
    using a k by (simp add: aged_def sv_step_nth)
  have s': "sv_step (put_frq h (ps ! k) 0) (last_of NULL_ADDR ps) (ps ! k) = Inr (ps ! prv_pos (length ps) k)"
    using age_once [OF a p(1)] k by (simp add: aged_def sv_step_nth)
  show ?thesis
    using p(2) c s s' z try_evict_held [OF wf h, of False]
    by (cases "nh_frq h (ps ! k) > 0") (simp_all add: nh_simps nh_upd_def put_frq_def f)
qed

text \<open>The frames still to be passed before an unpinned one at position \<open>u\<close> is taken.\<close>

definition sv_need :: "clock_node node_heap \<Rightarrow> nat list \<Rightarrow> nat \<Rightarrow> nat \<Rightarrow> nat" where
  "sv_need h ps u k = dist_back (length ps) k u + (if nh_frq h (ps ! u) > 0 then length ps else 0)"

lemma sv_need_decreases:
  assumes k: "k < length ps" and u: "u < length ps" and d: "distinct ps"
  shows "k \<noteq> u \<Longrightarrow> Suc (sv_need h ps u (prv_pos (length ps) k)) = sv_need h ps u k"
    "nh_frq h (ps ! k) > 0 \<Longrightarrow> Suc (sv_need (put_frq h (ps ! k) 0) ps u (prv_pos (length ps) k)) = sv_need h ps u k"
proof -
  show 1: "k \<noteq> u \<Longrightarrow> Suc (sv_need h ps u (prv_pos (length ps) k)) = sv_need h ps u k"
    using dist_back_step(1) [OF k u] by (simp add: sv_need_def)
  show "nh_frq h (ps ! k) > 0 \<Longrightarrow> Suc (sv_need (put_frq h (ps ! k) 0) ps u (prv_pos (length ps) k)) = sv_need h ps u k"
  proof (cases "k = u")
    case True
    assume "nh_frq h (ps ! k) > 0"
    then show ?thesis using dist_back_step(2) [OF u] u True by (simp add: sv_need_def nh_simps dist_back_def)
  next
    case False
    then have "ps ! k \<noteq> ps ! u" using k u d by (simp add: nth_eq_iff_index_eq)
    then show ?thesis using 1 False by (simp add: sv_need_def nh_simps)
  qed
qed

lemma sv_loop_finds:
  assumes "aged h h ps" "k < length ps" "pt_wf c pt" "\<And>p. p \<in> set ps \<Longrightarrow> held pt (nh_val h p)"
    "u < length ps" "\<not> pinned pt (nh_val h (ps ! u))" "sv_need h ps u k < count" "sv_need h ps u k < fuel"
  shows "\<exists>p h'. sv_loop False fuel count h (last_of NULL_ADDR ps) (ps ! k) pt =
      Inr (Some p, h', lock_frame pt (nh_val h p)) \<and> p \<in> set ps \<and> \<not> pinned pt (nh_val h p) \<and> aged h h' ps"
  using assms
proof (induction fuel arbitrary: h k count)
  case (Suc fuel)
  have d: "distinct ps" using Suc.prems(1) by (simp add: aged_def null_shape_def)
  have p: "ps ! k \<in> set ps" using Suc.prems(2) by simp
  note n = sv_need_decreases [OF Suc.prems(2,5) d]
  note r = sv_loop_round [OF Suc.prems(1,2,3) Suc.prems(4) [OF p], of count fuel]
  note pl = prv_pos_less [OF Suc.prems(2)]
  show ?case
  proof (cases "nh_frq h (ps ! k) > 0")
    case True
    let ?h = "put_frq h (ps ! k) 0"
    have a: "aged h ?h ps" using age_once [OF Suc.prems(1) p] .
    have a': "aged ?h ?h ps" and v: "nh_val ?h = nh_val h" using a by (simp_all add: aged_def)
    have "sv_need ?h ps u (prv_pos (length ps) k) < count" "sv_need ?h ps u (prv_pos (length ps) k) < fuel"
      using n(2) [OF True] Suc.prems(7,8) by linarith+
    from Suc.IH [OF a' pl Suc.prems(3), unfolded v, OF Suc.prems(4) _ _ this] Suc.prems(5,6)
    obtain q h' where "sv_loop False fuel count ?h (last_of NULL_ADDR ps) (ps ! prv_pos (length ps) k) pt =
      Inr (Some q, h', lock_frame pt (nh_val h q))" "q \<in> set ps" "\<not> pinned pt (nh_val h q)" "aged ?h h' ps" by blast
    then show ?thesis using r True Suc.prems(7) aged_trans [OF a] by auto
  next
    case False
    show ?thesis
    proof (cases "pinned pt (nh_val h (ps ! k))")
      case True
      then have "k \<noteq> u" using Suc.prems(6) by auto
      then show ?thesis
        using Suc.IH [OF Suc.prems(1) pl Suc.prems(3) Suc.prems(4) Suc.prems(5,6), of "count - 1"] n(1) [of h]
          Suc.prems(7,8) r False True by simp
    qed (use r False Suc.prems(1,7) p in auto)
  qed
qed simp

text \<open>When all frames are pinned the scan ages them all and gives up.\<close>

definition frqs :: "clock_node node_heap \<Rightarrow> nat list \<Rightarrow> nat" where
  "frqs h ps = (\<Sum>p\<in>set ps. unat (nh_frq h p))"

lemma frqs_age:
  assumes "p \<in> set ps" "nh_frq h p > 0" "aged h h ps"
  shows "Suc (frqs (put_frq h p 0) ps) = frqs h ps"
proof -
  have "nh_frq h p = 1" using assms word_le_1 by (auto simp: aged_def)
  moreover have "(\<Sum>q\<in>set ps - {p}. unat (nh_frq (put_frq h p 0) q)) = (\<Sum>q\<in>set ps - {p}. unat (nh_frq h q))"
    by (rule sum.cong) (auto simp: nh_simps)
  ultimately show ?thesis
    using assms(1) by (simp add: frqs_def sum.remove [of "set ps" p] nh_simps)
qed

lemma sv_loop_gives_up:
  assumes "aged h h ps" "k < length ps" "pt_wf c pt" "\<And>p. p \<in> set ps \<Longrightarrow> held pt (nh_val h p)"
    "\<And>p. p \<in> set ps \<Longrightarrow> pinned pt (nh_val h p)" "count + frqs h ps < fuel"
  shows "\<exists>h'. sv_loop False fuel count h (last_of NULL_ADDR ps) (ps ! k) pt = Inr (None, h', pt) \<and> aged h h' ps"
  using assms
proof (induction fuel arbitrary: h k count)
  case (Suc fuel)
  have p: "ps ! k \<in> set ps" using Suc.prems(2) by simp
  note r = sv_loop_round [OF Suc.prems(1,2,3) Suc.prems(4) [OF p], of count fuel]
  note pl = prv_pos_less [OF Suc.prems(2)]
  show ?case
  proof (cases "count = 0")
    case True
    then show ?thesis using Suc.prems(1) by simp
  next
    case c: False
    show ?thesis
    proof (cases "nh_frq h (ps ! k) > 0")
      case True
      let ?h = "put_frq h (ps ! k) 0"
      have a: "aged h ?h ps" using age_once [OF Suc.prems(1) p] .
      have a': "aged ?h ?h ps" and v: "nh_val ?h = nh_val h" using a by (simp_all add: aged_def)
      have "count + frqs ?h ps < fuel" using frqs_age [OF p True Suc.prems(1)] Suc.prems(6) by linarith
      from Suc.IH [OF a' pl Suc.prems(3), unfolded v, OF Suc.prems(4,5) this]
      obtain h' where "sv_loop False fuel count ?h (last_of NULL_ADDR ps) (ps ! prv_pos (length ps) k) pt = Inr (None, h', pt)"
        "aged ?h h' ps" by blast
      then show ?thesis using r True c aged_trans [OF a] by auto
    next
      case False
      then show ?thesis
        using Suc.IH [OF Suc.prems(1) pl Suc.prems(3-5), of "count - 1"] r c Suc.prems(5,6) p by auto
    qed
  qed
qed simp

section \<open>The operations on the shape\<close>

lemma sv_shape_aged:
  assumes s: "sv_shape r ps"
  shows "aged (sv_heap r) (sv_heap r) ps"
    "aged (sv_heap r) h ps \<Longrightarrow> sv_shape (r\<lparr>sv_heap := h\<rparr>) ps \<and> sv_frames (r\<lparr>sv_heap := h\<rparr>) ps = sv_frames r ps"
  using s by (auto simp: sv_shape_def aged_def sv_frames_def)

lemma sv_before:
  assumes s: "sv_shape r ps" and t: "t \<in> set ps"
  obtains p where "node_before (sv_heap r) t = Inr p" "p \<noteq> t" "sv_shape (r\<lparr>sv_pointer := p\<rparr>) ps"
    "sv_frames (r\<lparr>sv_pointer := p\<rparr>) ps = sv_frames r ps"
proof -
  note d = sv_shapeD [OF s]
  obtain k where k: "k < length ps" "t = ps ! k" using t by (auto simp: in_set_conv_nth)
  have prv: "nh_prv (sv_heap r) t = (NULL_ADDR # ps) ! k" using d(1) k seg_nth unfolding null_shape_def by blast
  have "node_before (sv_heap r) t = Inr ((NULL_ADDR # ps) ! k)" using t d(2) prv by (simp add: node_before_def nh_simps)
  moreover have "(NULL_ADDR # ps) ! k \<in> insert NULL_ADDR (set ps)" using k(1) by (cases k) simp_all
  moreover have "distinct (NULL_ADDR # ps)" using d(9,11) by simp
  then have "(NULL_ADDR # ps) ! k \<noteq> (NULL_ADDR # ps) ! Suc k" using k(1) by (subst nth_eq_iff_index_eq) simp_all
  then have "(NULL_ADDR # ps) ! k \<noteq> t" using k(2) by simp
  ultimately show thesis using that s by (auto simp: sv_shape_def sv_frames_def)
qed

lemma sv_start_shape:
  assumes s: "sv_shape r ps"
  shows "sv_start r = NULL_ADDR \<longleftrightarrow> ps = []" "ps \<noteq> [] \<Longrightarrow> \<exists>k<length ps. sv_start r = ps ! k"
proof -
  note d = sv_shapeD [OF s]
  have "ps \<noteq> [] \<Longrightarrow> last ps \<in> set ps" by simp
  then have *: "ps \<noteq> [] \<Longrightarrow> sv_start r \<in> set ps" using d(6,7) by (auto simp: sv_start_def last_of_def)
  then show "ps \<noteq> [] \<Longrightarrow> \<exists>k<length ps. sv_start r = ps ! k" by (metis in_set_conv_nth)
  show "sv_start r = NULL_ADDR \<longleftrightarrow> ps = []" using * d(6,7,11) by (cases "ps = []") (auto simp: sv_start_def)
qed

lemma sv_Victim_finds:
  assumes s: "sv_shape r ps" and wf: "pt_wf c pt" and h: "\<And>m. m \<in> sv_frames r ps \<Longrightarrow> held pt m"
    and m: "m0 \<in> sv_frames r ps" "\<not> pinned pt m0"
  shows "\<exists>m r' ps'. m \<in> sv_frames r ps \<and> \<not> pinned pt m \<and> sv_Victim r pt = Inr ((True, m), r', lock_frame pt m) \<and>
    sv_shape r' ps' \<and> sv_frames r' ps' = sv_frames r ps - {m}"
proof -
  note d = sv_shapeD [OF s]
  obtain u where u: "u < length ps" "m0 = nh_val (sv_heap r) (ps ! u)"
    using m(1) by (auto simp: sv_frames_def in_set_conv_nth)
  then have ne: "ps \<noteq> []" by auto
  obtain k where k: "k < length ps" "sv_start r = ps ! k" using sv_start_shape(2) [OF s ne] by blast
  have hd: "\<And>p. p \<in> set ps \<Longrightarrow> held pt (nh_val (sv_heap r) p)" using h by (simp add: sv_frames_def)
  have "sv_need (sv_heap r) ps u k < 2 * length ps" using dist_back_bounds(1) [OF k(1) u(1)] by (simp add: sv_need_def)
  then have need: "sv_need (sv_heap r) ps u k < length ps * 3" "sv_need (sv_heap r) ps u k < 4 * length ps + 1" by linarith+
  obtain t h1 where 1: "sv_scan False r pt = Inr (Some t, h1, lock_frame pt (nh_val (sv_heap r) t))" "t \<in> set ps"
    "\<not> pinned pt (nh_val (sv_heap r) t)" "aged (sv_heap r) h1 ps"
    using sv_loop_finds [OF sv_shape_aged(1) [OF s] k(1) wf hd u(1) _ need] m(2) u(2) d(6) k(2) sv_size [OF s]
    by (auto simp: sv_scan_def Let_def)
  let ?r = "r\<lparr>sv_heap := h1\<rparr>" and ?m = "nh_val (sv_heap r) t"
  have r1: "sv_shape ?r ps" "sv_frames ?r ps = sv_frames r ps" using sv_shape_aged(2) [OF s 1(4)] by simp_all
  obtain p where p: "node_before (sv_heap ?r) t = Inr p" "p \<noteq> t" "sv_shape (?r\<lparr>sv_pointer := p\<rparr>) ps"
    "sv_frames (?r\<lparr>sv_pointer := p\<rparr>) ps = sv_frames ?r ps" by (rule sv_before [OF r1(1) 1(2)])
  obtain r' where r': "sv_take (?r\<lparr>sv_pointer := p\<rparr>) t = Inr (?m, r')" "sv_shape r' (remove1 t ps)"
    "sv_frames r' (remove1 t ps) = sv_frames r ps - {?m}"
    using sv_take_shape [OF p(3) 1(2)] p(2,4) r1(2) 1(4) by (auto simp: aged_def)
  have "sv_Victim r pt = Inr ((True, ?m), r', lock_frame pt ?m)"
    using 1(1) p(1) r'(1) sv_start_shape(1) [OF s] ne by (simp add: sv_Victim_def Let_def)
  moreover have "?m \<in> sv_frames r ps" using 1(2) by (simp add: sv_frames_def)
  ultimately show ?thesis using 1(3) r'(2,3) by blast
qed

lemma sv_Victim_none:
  assumes s: "sv_shape r ps" and wf: "pt_wf c pt"
    and h: "\<And>m. m \<in> sv_frames r ps \<Longrightarrow> held pt m" "\<And>m. m \<in> sv_frames r ps \<Longrightarrow> pinned pt m"
  shows "\<exists>r'. sv_Victim r pt = Inr ((False, 0), r', pt) \<and> sv_shape r' ps \<and> sv_frames r' ps = sv_frames r ps"
proof (cases "ps = []")
  case True
  then show ?thesis using s sv_start_shape(1) [OF s] by (auto simp: sv_Victim_def)
next
  case False
  note d = sv_shapeD [OF s]
  obtain k where k: "k < length ps" "sv_start r = ps ! k" using sv_start_shape(2) [OF s False] by blast
  have hd: "\<And>p. p \<in> set ps \<Longrightarrow> held pt (nh_val (sv_heap r) p)" "\<And>p. p \<in> set ps \<Longrightarrow> pinned pt (nh_val (sv_heap r) p)"
    using h by (simp_all add: sv_frames_def)
  have "frqs (sv_heap r) ps \<le> (\<Sum>p\<in>set ps. 1)" unfolding frqs_def
    by (rule sum_mono) (use d(10) in \<open>simp add: word_le_nat_alt\<close>)
  then have "frqs (sv_heap r) ps \<le> length ps" using d(9) by (simp add: distinct_card)
  then have fuel: "length ps * 3 + frqs (sv_heap r) ps < 4 * length ps + 1" by linarith
  obtain h1 where 1: "sv_scan False r pt = Inr (None, h1, pt)" "aged (sv_heap r) h1 ps"
    using sv_loop_gives_up [OF sv_shape_aged(1) [OF s] k(1) wf hd fuel] d(6) k(2) sv_size [OF s]
    by (auto simp: sv_scan_def Let_def)
  then show ?thesis
    using sv_shape_aged(2) [OF s 1(2)] sv_start_shape(1) [OF s] False by (auto simp: sv_Victim_def Let_def)
qed

lemma sv_Erase_shape:
  assumes s: "sv_shape r ps" and m: "m \<in> sv_frames r ps"
  shows "\<exists>r' ps'. sv_Erase r m = Inr (True, r') \<and> sv_shape r' ps' \<and> sv_frames r' ps' = sv_frames r ps - {m}"
proof -
  obtain t where t: "t \<in> set ps" "Mapping.lookup (sv_map r) m = Some t" "nh_val (sv_heap r) t = m"
    using sv_lookup(2) [OF s m] by blast
  obtain p where p: "node_before (sv_heap r) t = Inr p" "p \<noteq> t" "sv_shape (r\<lparr>sv_pointer := p\<rparr>) ps"
    "sv_frames (r\<lparr>sv_pointer := p\<rparr>) ps = sv_frames r ps" by (rule sv_before [OF s t(1)])
  let ?r = "if t = sv_pointer r then r\<lparr>sv_pointer := p\<rparr> else r"
  have r1: "sv_shape ?r ps" "sv_frames ?r ps = sv_frames r ps" "sv_pointer ?r \<noteq> t" "nh_val (sv_heap ?r) t = m"
    using s p t by auto
  then show ?thesis
    using sv_take_shape [OF r1(1) t(1) r1(3)] p(1) t(2) by (auto simp: sv_Erase_def)
qed

section \<open>The policy keeps the contract\<close>

definition sv_inv :: "nat \<Rightarrow> sieve1 \<Rightarrow> mpage_id set \<Rightarrow> bool" where
  "sv_inv c r S \<longleftrightarrow> (\<exists>ps. sv_shape r ps \<and> sv_frames r ps = S \<and> S \<subseteq> {..<c})"

lemma sv_inv_new: "sv_inv c sv_new {}"
  using sv_new_shape by (auto simp: sv_inv_def sv_frames_def)

interpretation sieve1: erasable_replacer sv_ops "sv_inv c" "\<lambda>_. c" for c
proof (unfold_locales, unfold sv_ops_def replacer_ops.select_convs)
  fix r S k pt m0
  assume i: "sv_inv c r S" and wf: "pt_wf k pt" and h: "\<And>m. m \<in> S \<Longrightarrow> held pt m" and m: "m0 \<in> S" "\<not> pinned pt m0"
  obtain ps where a: "sv_shape r ps" "sv_frames r ps = S" "S \<subseteq> {..<c}" using i by (auto simp: sv_inv_def)
  show "\<exists>m r'. m \<in> S \<and> \<not> pinned pt m \<and> sv_Victim r pt = Inr ((True, m), r', lock_frame pt m) \<and>
      sv_inv c r' (S - {m}) \<and> c = c"
    using sv_Victim_finds [OF a(1) wf _ _ m(2)] h m(1) a(2,3) unfolding sv_inv_def by blast
next
  fix r S m assume "sv_inv c r S" "m \<in> S"
  then obtain ps where a: "sv_shape r ps" "sv_frames r ps = S" "S \<subseteq> {..<c}" "m \<in> sv_frames r ps"
    by (auto simp: sv_inv_def)
  show "\<exists>r'. sv_Erase r m = Inr (True, r') \<and> sv_inv c r' (S - {m}) \<and> c = c"
    using sv_Erase_shape [OF a(1,4)] a(2,3) unfolding sv_inv_def by blast
  show "\<exists>r'. sv_Promote r m = Inr (True, r') \<and> sv_inv c r' S \<and> c = c"
    using sv_Promote_shape [OF a(1,4)] a(2,3) unfolding sv_inv_def by blast
next
  fix r S m assume "sv_inv c r S" and m: "m < c" "m \<notin> S"
  then obtain ps where a: "sv_shape r ps" "sv_frames r ps = S" "S \<subseteq> {..<c}" by (auto simp: sv_inv_def)
  then obtain r' ps' where "sv_Insert r m = Inr (True, r')" "sv_shape r' ps'" "sv_frames r' ps' = insert m S"
    using sv_Insert_shape m(2) by blast
  moreover have "insert m S \<subseteq> {..<c}" using a m(1) by auto
  ultimately show "\<exists>r'. sv_Insert r m = Inr (True, r') \<and> sv_inv c r' (insert m S) \<and> c = c"
    unfolding sv_inv_def by blast
qed (auto simp: sv_inv_def)

section \<open>Properties\<close>

text \<open>C33: \<open>SieveReplacer::Victim\<close> always returns: it evicts an unpinned managed frame, whose page it leaves
  locked, when there is one, and otherwise reports failure and leaves the page table and the managed
  frames as they are.\<close>

theorem SieveReplacer_Victim_total:
  assumes i: "sv_inv c r S" and wf: "pt_wf k pt" and h: "\<And>m. m \<in> S \<Longrightarrow> held pt m"
  shows "if \<exists>m\<in>S. \<not> pinned pt m
    then \<exists>m r'. m \<in> S \<and> \<not> pinned pt m \<and> sv_Victim r pt = Inr ((True, m), r', lock_frame pt m) \<and> sv_inv c r' (S - {m})
    else \<exists>r'. sv_Victim r pt = Inr ((False, 0), r', pt) \<and> sv_inv c r' S"
proof -
  obtain ps where a: "sv_shape r ps" "sv_frames r ps = S" "S \<subseteq> {..<c}" using i by (auto simp: sv_inv_def)
  show ?thesis
  proof (cases "\<exists>m\<in>S. \<not> pinned pt m")
    case True
    then show ?thesis using sv_Victim_finds [OF a(1) wf] h a(2,3) by (fastforce simp: sv_inv_def)
  next
    case False
    then show ?thesis using sv_Victim_none [OF a(1) wf] h a(2,3) by (auto simp: sv_inv_def)
  qed
qed

lemma SieveReplacer_Victim_total_witness:
  "\<exists>r r1 r2. sv_Insert sv_new 0 = Inr (True, r) \<and> sv_Victim r small_pt = Inr ((True, 0), r1, lock_frame small_pt 0) \<and>
     sv_Victim sv_new small_pt = Inr ((False, 0), r2, small_pt)"
proof -
  obtain r where r: "sv_Insert sv_new 0 = Inr (True, r)" "sv_inv 1 r {0}"
    using sv_Insert_shape [OF sv_new_shape, of 0] by (auto simp: sv_inv_def sv_frames_def)
  show ?thesis
    using SieveReplacer_Victim_total [OF r(2) small_pt_wf] SieveReplacer_Victim_total [OF sv_inv_new [of 1] small_pt_wf]
      small_pt_frame0 r(1) by auto
qed

end
