(* ===== verification/BlockVariants.thy ===== *)
theory BlockVariants
  imports BufferBlock
begin

text \<open>
  The block that is selected without the direct cache, \<open>BufferBlockImp7\<close>, and its wrapper \<open>BufferBlockImp8\<close>
  (\<^verbatim>\<open>include/bufferblock/buffer_block_imp8.h\<close>).  \<open>BufferBlockImp7\<close> has no marks: every slice
  holds a pin of its own.  Its operations are proved to do what those of \<open>BufferBlockImp9\<close> do on unmarked
  slices; the comparison of an empty block returns other numbers, but the comparison operators agree.
\<close>

section \<open>\<open>BufferBlockImp7\<close>\<close>

record slice7 =
  s7_frame :: pte_ref
  s7_off :: nat
  s7_pte :: pte_ref

datatype data7 = Own7 "byte list" | Pages7 "slice7 option list"

record block7 =
  b7_size :: nat
  b7_page_num :: nat
  b7_data :: data7

definition b7_empty :: block7 where
  "b7_empty = \<lparr>b7_size = 0, b7_page_num = 0, b7_data = Own7 []\<rparr>"

definition b7_pages :: "nat \<Rightarrow> nat \<Rightarrow> block7" where
  "b7_pages sz page_num = \<lparr>b7_size = sz, b7_page_num = page_num, b7_data = Pages7 (replicate page_num None)\<rparr>"

definition b7_own :: "nat \<Rightarrow> byte list \<Rightarrow> block7" where
  "b7_own sz data = \<lparr>b7_size = sz, b7_page_num = 0, b7_data = Own7 (take sz data)\<rparr>"

definition b7_slot :: "block7 \<Rightarrow> nat \<Rightarrow> slice7 res" where
  "b7_slot b idx = (case b7_data b of
      Own7 _ \<Rightarrow> Inl NullDeref
    | Pages7 sls \<Rightarrow> bindE (arr_get sls idx) (\<lambda>x. case x of None \<Rightarrow> Inl NullDeref | Some sl \<Rightarrow> Inr sl))"

definition b7_InsertPage :: "block7 \<Rightarrow> nat \<Rightarrow> pte_ref \<times> nat \<Rightarrow> pte_ref \<Rightarrow> block7 res" where
  "b7_InsertPage b idx data pte = (case b7_data b of
      Own7 _ \<Rightarrow> Inl NullDeref
    | Pages7 sls \<Rightarrow>
        bindE (arr_set sls (if b7_page_num b = 1 then 0 else idx)
          (Some \<lparr>s7_frame = fst data, s7_off = snd data, s7_pte = pte\<rparr>)) (\<lambda>sls.
        Inr (b\<lparr>b7_data := Pages7 sls\<rparr>)))"

text \<open>The form with a mark begins with \<open>assert(false)\<close>.\<close>

definition b7_InsertPage_marked :: "block7 \<Rightarrow> nat \<Rightarrow> pte_ref \<times> nat \<Rightarrow> pte_ref \<Rightarrow> bool \<Rightarrow> block7 res" where
  "b7_InsertPage_marked b idx data pte mark = bindE (assertE False) (\<lambda>_. Inr b)"

text \<open>\<open>free\<close> resets the number of pages only when it has counted it down.\<close>

fun b7_release :: "'s pte_store \<Rightarrow> slice7 option list \<Rightarrow> 's \<Rightarrow> 's res" where
  "b7_release st [] s = Inr s"
| "b7_release st (None # sls) s = Inl NullDeref"
| "b7_release st (Some sl # sls) s = bindE (release_ref st s (s7_pte sl)) (\<lambda>s. b7_release st sls s)"

definition b7_free :: "'s pte_store \<Rightarrow> block7 \<Rightarrow> 's \<Rightarrow> (block7 \<times> 's) res" where
  "b7_free st b s =
     bindE (if b7_size b \<noteq> 0 then
         (case b7_data b of Own7 _ \<Rightarrow> Inr s | Pages7 sls \<Rightarrow>
           if b7_page_num b = 0 then Inl NullDeref else b7_release st (rev sls) s)
       else Inr s) (\<lambda>s.
     Inr (b\<lparr>b7_size := 0, b7_page_num := if b7_size b \<noteq> 0 \<and> b7_page_num b > 1 then 0 else b7_page_num b\<rparr>, s))"

definition b7_Move :: "'s pte_store \<Rightarrow> block7 \<Rightarrow> block7 \<Rightarrow> 's \<Rightarrow> (block7 \<times> block7 \<times> 's) res" where
  "b7_Move st src dst s = bindE (b7_free st dst s) (\<lambda>(_, s). Inr (src\<lparr>b7_size := 0\<rparr>, src, s))"

definition b7_flat_read :: "frame_mem \<Rightarrow> block7 \<Rightarrow> nat \<Rightarrow> nat \<Rightarrow> byte list res" where
  "b7_flat_read mem b off n = (case b7_data b of
      Own7 bs \<Rightarrow> if off + n \<le> length bs then Inr (take n (drop off bs)) else Inl OutOfBounds
    | Pages7 _ \<Rightarrow> bindE (b7_slot b 0) (\<lambda>sl. read_at mem (s7_frame sl) (s7_off sl + off) n))"

definition b7_slices :: "block7 \<Rightarrow> slice7 option list" where
  "b7_slices b = (case b7_data b of Own7 _ \<Rightarrow> [] | Pages7 sls \<Rightarrow> sls)"

definition loc7 :: "slice7 \<Rightarrow> nat \<Rightarrow> nat" where
  "loc7 sl off = PAGE_SIZE_FILE - (s7_off sl + off) mod PAGE_SIZE_FILE"

fun b7_copy_slices :: "frame_mem \<Rightarrow> slice7 option list \<Rightarrow> nat \<Rightarrow> byte list res" where
  "b7_copy_slices mem [] size_old = Inr []"
| "b7_copy_slices mem (None # sls) size_old = Inl NullDeref"
| "b7_copy_slices mem (Some sl # sls) size_old =
     (let slice_len = min (loc7 sl 0) size_old in
      bindE (read_at mem (s7_frame sl) (s7_off sl) slice_len) (\<lambda>bs.
      bindE (b7_copy_slices mem sls (size_old - slice_len)) (\<lambda>rest. Inr (bs @ rest))))"

definition b7_Copy :: "frame_mem \<Rightarrow> block7 \<Rightarrow> block7 res" where
  "b7_Copy mem rhs =
     bindE (if b7_page_num rhs < 2 then b7_flat_read mem rhs 0 (b7_size rhs)
       else b7_copy_slices mem (b7_slices rhs) (b7_size rhs)) (\<lambda>bs. Inr (b7_own (b7_size rhs) bs))"

fun b7_skip_gt :: "slice7 option list \<Rightarrow> nat \<Rightarrow> (slice7 option list \<times> nat) res" where
  "b7_skip_gt [] offset_t = Inr ([], offset_t)"
| "b7_skip_gt (None # sls) offset_t = Inl NullDeref"
| "b7_skip_gt (Some sl # sls) offset_t =
     (if offset_t > loc7 sl 0 then b7_skip_gt sls (offset_t - loc7 sl 0) else Inr (Some sl # sls, offset_t))"

fun b7_copy_from :: "frame_mem \<Rightarrow> slice7 option list \<Rightarrow> nat \<Rightarrow> nat \<Rightarrow> byte list res" where
  "b7_copy_from mem [] offset_t size_old = Inr []"
| "b7_copy_from mem (None # sls) offset_t size_old = Inl NullDeref"
| "b7_copy_from mem (Some sl # sls) offset_t size_old =
     (let slice_len = min (loc7 sl offset_t) size_old in
      bindE (read_at mem (s7_frame sl) (s7_off sl + offset_t) slice_len) (\<lambda>bs.
      if size_old - slice_len = 0 then Inr bs
      else bindE (b7_copy_from mem sls offset_t (size_old - slice_len)) (\<lambda>rest. Inr (bs @ rest))))"

definition b7_CopyTo :: "frame_mem \<Rightarrow> block7 \<Rightarrow> nat \<Rightarrow> nat \<Rightarrow> (nat \<times> byte list) res" where
  "b7_CopyTo mem b buf_size offset =
     (let ret = (if buf_size + offset > b7_size b then b7_size b else buf_size) in
      bindE (if b7_page_num b < 2 then b7_flat_read mem b offset ret
        else bindE (b7_skip_gt (b7_slices b) offset) (\<lambda>(sls, offset_t). b7_copy_from mem sls offset_t ret)) (\<lambda>bs.
      Inr (ret, bs)))"

fun b7_skip_ge :: "slice7 option list \<Rightarrow> nat \<Rightarrow> (slice7 option list \<times> nat) res" where
  "b7_skip_ge [] offset_t = Inr ([], offset_t)"
| "b7_skip_ge (None # sls) offset_t = Inl NullDeref"
| "b7_skip_ge (Some sl # sls) offset_t =
     (if offset_t \<ge> loc7 sl 0 then b7_skip_ge sls (offset_t - loc7 sl 0) else Inr (Some sl # sls, offset_t))"

fun b7_cmp_slices :: "frame_mem \<Rightarrow> slice7 option list \<Rightarrow> nat \<Rightarrow> byte list \<Rightarrow> nat \<Rightarrow> int \<Rightarrow> int res" where
  "b7_cmp_slices mem [] offset_t right size_left ret = Inr ret"
| "b7_cmp_slices mem (None # sls) offset_t right size_left ret = Inl NullDeref"
| "b7_cmp_slices mem (Some sl # sls) offset_t right size_left ret =
     (let slice_len = min (loc7 sl offset_t) size_left in
      bindE (read_at mem (s7_frame sl) (s7_off sl + offset_t) slice_len) (\<lambda>bs.
      let ret = strncmp bs (take slice_len right) in
      if ret \<noteq> 0 then Inr ret
      else b7_cmp_slices mem sls 0 (drop slice_len right) (size_left - slice_len) ret))"

text \<open>\<open>Compare\<close> with a string answers for an empty rest of the block before it looks at the bytes.\<close>

definition b7_Compare_view :: "frame_mem \<Rightarrow> block7 \<Rightarrow> byte list \<Rightarrow> nat \<Rightarrow> int res" where
  "b7_Compare_view mem b right offset =
     (if b7_size b = 0 \<or> offset = b7_size b then Inr (if right = [] then 0 else - 10)
      else let size_left = min (b7_size b - offset) (length right) in
      bindE (if b7_page_num b > 1 then
          bindE (if offset \<noteq> 0 then b7_skip_ge (b7_slices b) offset else Inr (b7_slices b, offset)) (\<lambda>(sls, offset_t).
          b7_cmp_slices mem sls offset_t right size_left (- 10))
        else bindE (b7_flat_read mem b offset size_left) (\<lambda>bs. Inr (strncmp bs (take size_left right)))) (\<lambda>ret.
      if ret = 0 \<and> offset = 0 \<and> b7_size b - offset \<noteq> length right
      then Inr (size_diff (b7_size b) (length right)) else Inr ret))"

definition b7_Compare_inner :: "frame_mem \<Rightarrow> block7 \<Rightarrow> byte list \<Rightarrow> nat \<Rightarrow> int res" where
  "b7_Compare_inner mem b right offset =
     (let size_left = min (b7_size b - offset) (length right) in
      if b7_page_num b > 1 then
        bindE (b7_skip_ge (b7_slices b) offset) (\<lambda>(sls, offset_t). b7_cmp_slices mem sls offset_t right size_left 0)
      else bindE (b7_flat_read mem b offset size_left) (\<lambda>bs. Inr (strncmp bs (take size_left right))))"

fun b7_cmp_blocks :: "frame_mem \<Rightarrow> block7 \<Rightarrow> nat \<Rightarrow> slice7 option list \<Rightarrow> nat \<Rightarrow> int \<Rightarrow> int res" where
  "b7_cmp_blocks mem b right_size [] len_right ret = Inr ret"
| "b7_cmp_blocks mem b right_size (None # sls) len_right ret = Inl NullDeref"
| "b7_cmp_blocks mem b right_size (Some sl # sls) len_right ret =
     (let loc = min (loc7 sl 0) (right_size - len_right) in
      bindE (read_at mem (s7_frame sl) (s7_off sl) loc) (\<lambda>bs.
      bindE (b7_Compare_inner mem b bs len_right) (\<lambda>ret.
      if ret \<noteq> 0 then Inr ret else b7_cmp_blocks mem b right_size sls (len_right + loc) ret)))"

definition b7_Compare_block :: "frame_mem \<Rightarrow> block7 \<Rightarrow> block7 \<Rightarrow> int res" where
  "b7_Compare_block mem b right =
     bindE (if b7_page_num b > 1 \<and> b7_page_num right > 1
       then b7_cmp_blocks mem b (b7_size right) (b7_slices right) 0 0
       else if b7_page_num right < 2 then
         bindE (b7_flat_read mem right 0 (b7_size right)) (\<lambda>bs. b7_Compare_inner mem b bs 0)
       else bindE (b7_flat_read mem b 0 (b7_size b)) (\<lambda>bs.
         bindE (b7_Compare_inner mem right bs 0) (\<lambda>r. Inr (- r)))) (\<lambda>ret.
     if ret = 0 \<and> b7_size b \<noteq> b7_size right then Inr (size_diff (b7_size b) (b7_size right)) else Inr ret)"

definition b7_ge :: "frame_mem \<Rightarrow> block7 \<Rightarrow> byte list \<Rightarrow> bool res" where
  "b7_ge mem b right = bindE (b7_Compare_view mem b right 0) (\<lambda>r. Inr (r \<ge> 0))"

definition b7_gt :: "frame_mem \<Rightarrow> block7 \<Rightarrow> byte list \<Rightarrow> bool res" where
  "b7_gt mem b right = bindE (b7_Compare_view mem b right 0) (\<lambda>r. Inr (r > 0))"

definition b7_le :: "frame_mem \<Rightarrow> block7 \<Rightarrow> byte list \<Rightarrow> bool res" where
  "b7_le mem b right = bindE (b7_Compare_view mem b right 0) (\<lambda>r. Inr (r \<le> 0))"

definition b7_lt :: "frame_mem \<Rightarrow> block7 \<Rightarrow> byte list \<Rightarrow> bool res" where
  "b7_lt mem b right = bindE (b7_Compare_view mem b right 0) (\<lambda>r. Inr (r < 0))"

definition b7_eq :: "frame_mem \<Rightarrow> block7 \<Rightarrow> byte list \<Rightarrow> bool res" where
  "b7_eq mem b right = bindE (b7_Compare_view mem b right 0) (\<lambda>r. Inr (r = 0))"

definition b7_DecodeWithPTE :: "nat \<Rightarrow> block7 \<Rightarrow> nat \<Rightarrow> (obj_ptr \<times> pte_ref option) res" where
  "b7_DecodeWithPTE sz b idx =
     (let at = (\<lambda>page_id off. bindE (b7_slot b page_id) (\<lambda>sl.
          Inr (In_frame (s7_frame sl) (s7_off sl + off), Some (s7_pte sl)))) in
      if b7_page_num b < 2 then
        (case b7_data b of Own7 _ \<Rightarrow> Inr (In_own (idx * sz), None) | Pages7 _ \<Rightarrow> at 0 (idx * sz))
      else if idx = 0 then at 0 0
      else bindE (b7_slot b 0) (\<lambda>sl.
        let obj_num_curpage = loc7 sl 0 div sz; obj_num_perpage = PAGE_SIZE_FILE div sz in
        if obj_num_curpage > idx then at 0 (idx * sz)
        else let idx = idx - obj_num_curpage in
          at (idx div obj_num_perpage + 1) (idx mod obj_num_perpage * sz)))"

definition b7_Decode :: "nat \<Rightarrow> block7 \<Rightarrow> nat \<Rightarrow> obj_ptr res" where
  "b7_Decode sz b idx = bindE (b7_DecodeWithPTE sz b idx) (\<lambda>(ptr, _). Inr ptr)"

definition b7_read_obj :: "frame_mem \<Rightarrow> block7 \<Rightarrow> nat \<Rightarrow> obj_ptr \<Rightarrow> byte list res" where
  "b7_read_obj mem b sz ptr = (case ptr of
      In_frame r off \<Rightarrow> read_at mem r off sz
    | In_own off \<Rightarrow> b7_flat_read mem b off sz)"

definition b7_UpdateContent ::
  "'s pte_store \<Rightarrow> (byte list \<Rightarrow> byte list) \<Rightarrow> nat \<Rightarrow> block7 \<Rightarrow> nat \<Rightarrow> frame_mem \<Rightarrow> 's \<Rightarrow> (frame_mem \<times> 's) res" where
  "b7_UpdateContent st cb sz b idx mem s =
     bindE (b7_DecodeWithPTE sz b idx) (\<lambda>(ptr, pte).
     bindE (b7_read_obj mem b sz ptr) (\<lambda>bs.
     case (ptr, pte) of
       (In_frame r off, Some x) \<Rightarrow>
         bindE (ps_get st s x) (\<lambda>w.
         Inr (mem(r := take off (mem r) @ take sz (cb bs) @ drop (off + sz) (mem r)),
           ps_put st s x (snd (SetDirty True w))))
     | _ \<Rightarrow> Inl NullDeref))"

text \<open>\<open>OperateContentAtomic\<close> calls \<open>cb\<close> on the object, without a lock and without marking the page dirty.\<close>

definition b7_OperateContentAtomic ::
  "(byte list \<Rightarrow> byte list) \<Rightarrow> nat \<Rightarrow> block7 \<Rightarrow> nat \<Rightarrow> frame_mem \<Rightarrow> (block7 \<times> frame_mem) res" where
  "b7_OperateContentAtomic cb sz b idx mem =
     bindE (b7_Decode sz b idx) (\<lambda>ptr.
     bindE (b7_read_obj mem b sz ptr) (\<lambda>bs.
     case ptr of
       In_frame r off \<Rightarrow> Inr (b, mem(r := take off (mem r) @ take sz (cb bs) @ drop (off + sz) (mem r)))
     | In_own off \<Rightarrow> (case b7_data b of
         Own7 own \<Rightarrow> Inr (b\<lparr>b7_data := Own7 (take off own @ take sz (cb bs) @ drop (off + sz) own)\<rparr>, mem)
       | Pages7 _ \<Rightarrow> Inl NullDeref)))"

section \<open>\<open>BufferBlockImp8\<close>\<close>

text \<open>A pointer to a \<open>BufferBlockImp7\<close> of its own; it is null after a move or \<open>free\<close>.\<close>

type_synonym block8 = "block7 option"

definition b8_inner :: "block8 \<Rightarrow> block7 res" where
  "b8_inner b = (case b of None \<Rightarrow> Inl NullDeref | Some x \<Rightarrow> Inr x)"

definition b8_empty :: block8 where
  "b8_empty = Some b7_empty"

definition b8_pages :: "nat \<Rightarrow> nat \<Rightarrow> block8" where
  "b8_pages sz page_num = Some (b7_pages sz page_num)"

definition b8_own :: "nat \<Rightarrow> byte list \<Rightarrow> block8" where
  "b8_own sz data = Some (b7_own sz data)"

definition b8_InsertPage :: "block8 \<Rightarrow> nat \<Rightarrow> pte_ref \<times> nat \<Rightarrow> pte_ref \<Rightarrow> block8 res" where
  "b8_InsertPage b idx data pte = bindE (b8_inner b) (\<lambda>x. bindE (b7_InsertPage x idx data pte) (\<lambda>x. Inr (Some x)))"

definition b8_Copy :: "frame_mem \<Rightarrow> block8 \<Rightarrow> block8 res" where
  "b8_Copy mem rhs = bindE (assertE False) (\<lambda>_. Inr b8_empty)"

definition b8_CopyTo :: "frame_mem \<Rightarrow> block8 \<Rightarrow> nat \<Rightarrow> nat \<Rightarrow> (nat \<times> byte list) res" where
  "b8_CopyTo mem b buf_size offset = bindE (b8_inner b) (\<lambda>x. b7_CopyTo mem x buf_size offset)"

text \<open>Deleting the inner block frees it.\<close>

definition b8_free :: "'s pte_store \<Rightarrow> block8 \<Rightarrow> 's \<Rightarrow> (block8 \<times> 's) res" where
  "b8_free st b s = (case b of None \<Rightarrow> Inr (None, s) | Some x \<Rightarrow> bindE (b7_free st x s) (\<lambda>(_, s). Inr (None, s)))"

definition b8_Move :: "'s pte_store \<Rightarrow> block8 \<Rightarrow> block8 \<Rightarrow> 's \<Rightarrow> (block8 \<times> block8 \<times> 's) res" where
  "b8_Move st src dst s = bindE (b8_free st dst s) (\<lambda>(_, s). Inr (None, src, s))"

definition b8_UpdateContent ::
  "'s pte_store \<Rightarrow> (byte list \<Rightarrow> byte list) \<Rightarrow> nat \<Rightarrow> block8 \<Rightarrow> nat \<Rightarrow> frame_mem \<Rightarrow> 's \<Rightarrow> (frame_mem \<times> 's) res" where
  "b8_UpdateContent st cb sz b idx mem s = bindE (b8_inner b) (\<lambda>x. b7_UpdateContent st cb sz x idx mem s)"

definition b8_Decode :: "nat \<Rightarrow> block8 \<Rightarrow> nat \<Rightarrow> obj_ptr res" where
  "b8_Decode sz b idx = bindE (b8_inner b) (\<lambda>x. b7_Decode sz x idx)"

definition b8_Compare_view :: "frame_mem \<Rightarrow> block8 \<Rightarrow> byte list \<Rightarrow> nat \<Rightarrow> int res" where
  "b8_Compare_view mem b right offset = bindE (b8_inner b) (\<lambda>x. b7_Compare_view mem x right offset)"

definition b8_Compare_block :: "frame_mem \<Rightarrow> block8 \<Rightarrow> block8 \<Rightarrow> int res" where
  "b8_Compare_block mem b right = bindE (b8_inner b) (\<lambda>x. bindE (b8_inner right) (\<lambda>y. b7_Compare_block mem x y))"

section \<open>The blocks with marks\<close>

definition slice9 :: "slice7 \<Rightarrow> slice" where
  "slice9 sl = \<lparr>sl_frame = s7_frame sl, sl_off = s7_off sl, sl_pte = s7_pte sl, sl_mark = False\<rparr>"

definition data9 :: "data7 \<Rightarrow> block_data" where
  "data9 x = (case x of Own7 bs \<Rightarrow> Own bs | Pages7 sls \<Rightarrow> Pages (map (map_option slice9) sls))"

definition block9 :: "block7 \<Rightarrow> block" where
  "block9 b = \<lparr>bb_size = b7_size b, bb_page_num = b7_page_num b, bb_data = data9 (b7_data b)\<rparr>"

definition mapE :: "('a \<Rightarrow> 'b) \<Rightarrow> 'a res \<Rightarrow> 'b res" where
  "mapE f x = bindE x (\<lambda>y. Inr (f y))"

lemma slice9_simps [simp]:
  "sl_frame (slice9 sl) = s7_frame sl" "sl_off (slice9 sl) = s7_off sl" "sl_pte (slice9 sl) = s7_pte sl" "\<not> sl_mark (slice9 sl)"
  "loc_inpage (slice9 sl) off = loc7 sl off"
  by (simp_all add: slice9_def loc_inpage_def loc7_def)

lemma block9_simps [simp]:
  "bb_size (block9 b) = b7_size b" "bb_page_num (block9 b) = b7_page_num b" "bb_data (block9 b) = data9 (b7_data b)"
  "data9 (Own7 bs) = Own bs" "data9 (Pages7 sls) = Pages (map (map_option slice9) sls)"
  by (simp_all add: block9_def data9_def)

lemma mapE_simps [simp]: "mapE f (Inr x) = Inr (f x)" "mapE f (Inl e) = Inl e" "bindE (mapE f r) g = bindE r (\<lambda>y. g (f y))"
  by (simp_all add: mapE_def) (cases r; simp)

lemma mapE_bindE: "mapE f (bindE x g) = bindE x (\<lambda>y. mapE f (g y))"
  by (cases x) simp_all

lemma block9_new: "block9 b7_empty = bb_empty" "block9 (b7_pages sz n) = bb_pages sz n" "block9 (b7_own sz data) = bb_own sz data"
  by (simp_all add: block9_def b7_empty_def bb_empty_def b7_pages_def bb_pages_def b7_own_def bb_own_def)

lemma arr9: "arr_get (map f xs) i = mapE f (arr_get xs i)" "arr_set (map f xs) i (f x) = mapE (map f) (arr_set xs i x)"
  by (simp_all add: arr_get_def arr_set_def map_update)

lemma bb_slot_9: "bb_slot (block9 b) i = mapE slice9 (b7_slot b i)"
  by (cases "b7_data b") (auto simp: bb_slot_def b7_slot_def arr9 mapE_bindE intro!: arg_cong [where f = "bindE _"] split: option.splits)

lemma bb_slices_9: "bb_slices (block9 b) = map (map_option slice9) (b7_slices b)"
  by (cases "b7_data b") (simp_all add: bb_slices_def b7_slices_def)

lemma flat_read_9: "flat_read mem (block9 b) off n = b7_flat_read mem b off n"
  by (cases "b7_data b") (simp_all add: flat_read_def b7_flat_read_def bb_slot_9)

lemma copy_9: "copy_slices mem (map (map_option slice9) sls) n = b7_copy_slices mem sls n"
proof (induction sls arbitrary: n)
  case (Cons x sls)
  then show ?case by (cases x) (simp_all add: Let_def cong: if_cong)
qed simp

lemma skip_gt_9: "skip_gt (map (map_option slice9) sls) off = mapE (apfst (map (map_option slice9))) (b7_skip_gt sls off)"
proof (induction sls arbitrary: off)
  case (Cons x sls)
  then show ?case by (cases x) (simp_all add: Let_def cong: if_cong)
qed simp

lemma copy_from_9: "copy_from mem (map (map_option slice9) sls) off n = b7_copy_from mem sls off n"
proof (induction sls arbitrary: n)
  case (Cons x sls)
  then show ?case by (cases x) (simp_all add: Let_def cong: if_cong)
qed simp

lemma skip_ge_9: "skip_ge (map (map_option slice9) sls) off = mapE (apfst (map (map_option slice9))) (b7_skip_ge sls off)"
proof (induction sls arbitrary: off)
  case (Cons x sls)
  then show ?case by (cases x) (simp_all add: Let_def cong: if_cong)
qed simp

lemma cmp_slices_9: "cmp_slices mem (map (map_option slice9) sls) off right left ret = b7_cmp_slices mem sls off right left ret"
proof (induction sls arbitrary: off right left ret)
  case (Cons x sls)
  then show ?case by (cases x) (simp_all add: Let_def cong: if_cong)
qed simp

lemma Compare_inner_9: "Compare_inner mem (block9 b) right off = b7_Compare_inner mem b right off"
  by (simp add: Compare_inner_def b7_Compare_inner_def bb_slices_9 skip_ge_9 flat_read_9 cmp_slices_9 case_prod_unfold Let_def cong: if_cong)

lemma cmp_blocks_9: "cmp_blocks mem (block9 b) n (map (map_option slice9) sls) len ret = b7_cmp_blocks mem b n sls len ret"
proof (induction sls arbitrary: len ret)
  case (Cons x sls)
  then show ?case by (cases x) (simp_all add: Let_def Compare_inner_9 cong: if_cong)
qed simp

lemma Compare_view_9:
  "0 < b7_size b \<Longrightarrow> off \<noteq> b7_size b \<Longrightarrow> Compare_view mem (block9 b) right off = b7_Compare_view mem b right off"
  by (cases "off = 0")
    (simp_all add: Compare_view_def b7_Compare_view_def bb_slices_9 skip_ge_9 flat_read_9 cmp_slices_9 case_prod_unfold Let_def
      cong: if_cong)

lemma Compare_block_9: "Compare_block mem (block9 b) (block9 c) = b7_Compare_block mem b c"
  by (simp add: Compare_block_def b7_Compare_block_def bb_slices_9 flat_read_9 Compare_inner_9 cmp_blocks_9 cong: if_cong)

lemma DecodeWithPTE_9: "DecodeWithPTE sz (block9 b) idx = b7_DecodeWithPTE sz b idx"
  by (cases "b7_data b") (simp_all add: DecodeWithPTE_def b7_DecodeWithPTE_def bb_slot_9 Let_def cong: if_cong)

lemma read_obj_9: "read_obj mem (block9 b) sz ptr = b7_read_obj mem b sz ptr"
  by (cases ptr) (simp_all add: read_obj_def b7_read_obj_def flat_read_9)

lemma free_slices_9:
  "free_slices st (map (map_option slice9) sls) dc s = mapE (\<lambda>s. (dc, s)) (b7_release st sls s)"
  by (induction st sls s rule: b7_release.induct) (simp_all add: free_slice_def mapE_bindE bindE_assoc)

section \<open>Equivalence\<close>

lemma InsertPage_9: "mapE block9 (b7_InsertPage b idx data pte) = InsertPage (block9 b) idx data pte False"
proof (cases "b7_data b")
  case (Pages7 sls)
  let ?sl = "\<lparr>s7_frame = fst data, s7_off = snd data, s7_pte = pte\<rparr>"
  have "arr_set (map (map_option slice9) sls) i (map_option slice9 (Some ?sl)) = mapE (map (map_option slice9)) (arr_set sls i (Some ?sl))"
    for i by (rule arr9)
  then show ?thesis
    using Pages7 by (simp add: b7_InsertPage_def InsertPage_def mapE_bindE slice9_def) (simp add: block9_def)
qed (simp add: b7_InsertPage_def InsertPage_def)

lemma free_9:
  "bindE (bb_free st (block9 b) dc s) (\<lambda>(b', dc', s'). Inr (bb_size b', dc', s')) =
    mapE (\<lambda>(b', s'). (b7_size b', dc, s')) (b7_free st b s)"
  by (cases "b7_data b") (simp_all add: bb_free_def b7_free_def rev_map free_slices_9 mapE_bindE bindE_assoc)

lemma copies_9:
  "bb_Copy mem (block9 b) = mapE block9 (b7_Copy mem b)" "bb_CopyTo mem (block9 b) n off = b7_CopyTo mem b n off"
  by (simp_all add: bb_Copy_def b7_Copy_def bb_CopyTo_def b7_CopyTo_def mapE_bindE block9_new bb_slices_9 flat_read_9 copy_9 skip_gt_9
      copy_from_9 case_prod_unfold Let_def cong: if_cong)

lemma objects_9:
  "Decode sz (block9 b) idx = b7_Decode sz b idx"
  "UpdateContent st cb sz (block9 b) idx mem s = b7_UpdateContent st cb sz b idx mem s"
  by (simp_all add: Decode_def b7_Decode_def UpdateContent_def b7_UpdateContent_def DecodeWithPTE_9 read_obj_9)

text \<open>An empty block is below every string but the empty one.\<close>

lemma size_diff_negative: "0 < n \<Longrightarrow> n < 2147483648 \<Longrightarrow> size_diff 0 n = - int n"
  unfolding size_diff_def signed_of_int by (subst signed_take_bit_int_eq_self) simp_all

lemma Compare_view_empty:
  assumes "bb_wf mem b" "bb_size b = 0"
  shows "Compare_view mem b right 0 = Inr (if right = [] then 0 else size_diff 0 (length right))"
proof (cases "bb_data b")
  case (Own bs)
  then show ?thesis using assms by (simp add: bb_wf_def Compare_view_def flat_read_def)
next
  case (Pages sls)
  then have w: "bb_page_num b = length sls" "0 < length sls" "slices_ok mem sls 0" using assms by (simp_all add: bb_wf_def)
  then obtain sl sls' where sl: "sls = Some sl # sls'" by (cases "(mem, sls, 0::nat)" rule: slices_ok.cases) auto
  have r: "read_at mem (sl_frame sl) (sl_off sl) 0 = Inr []" using w(3) sl by (simp add: read_at_def)
  show ?thesis
    using assms Pages w sl r cmp_slices_nothing [of mem sls' 0 right]
    by (cases "length sls > 1") (simp_all add: Compare_view_def flat_read_def bb_slot_def bb_slices_def arr_get_def Let_def)
qed

lemma Compare_sign_9:
  assumes "bb_wf mem (block9 b)" "length right < 2147483648"
  shows "mapE sgn (Compare_view mem (block9 b) right 0) = mapE sgn (b7_Compare_view mem b right 0)"
proof (cases "b7_size b = 0")
  case True
  then show ?thesis
    using Compare_view_empty [OF assms(1), of right] assms(2) size_diff_negative [of "length right"]
    by (cases "right = []") (simp_all add: b7_Compare_view_def)
qed (simp add: Compare_view_9)

lemma sign_tests:
  assumes "mapE sgn r = mapE sgn (r' :: int res)"
  shows "bindE r (\<lambda>x. Inr (P (sgn x))) = bindE r' (\<lambda>x. Inr (P (sgn x)))"
  using assms by (cases r; cases r') (simp_all add: mapE_def)

lemma sgn_tests: "0 \<le> sgn x \<longleftrightarrow> 0 \<le> x" "sgn x \<le> 0 \<longleftrightarrow> x \<le> 0" "sgn x = 0 \<longleftrightarrow> x = 0" for x :: int
  by (auto simp: sgn_if)

lemma operators_9:
  assumes "bb_wf mem (block9 b)" "length right < 2147483648"
  shows "bb_ge mem (block9 b) right = b7_ge mem b right" "bb_gt mem (block9 b) right = b7_gt mem b right"
    "bb_le mem (block9 b) right = b7_le mem b right" "bb_lt mem (block9 b) right = b7_lt mem b right"
    "bb_eq mem (block9 b) right = b7_eq mem b right"
  using sign_tests [OF Compare_sign_9 [OF assms], of "\<lambda>x. x \<ge> 0"] sign_tests [OF Compare_sign_9 [OF assms], of "\<lambda>x. x > 0"]
    sign_tests [OF Compare_sign_9 [OF assms], of "\<lambda>x. x \<le> 0"] sign_tests [OF Compare_sign_9 [OF assms], of "\<lambda>x. x < 0"]
    sign_tests [OF Compare_sign_9 [OF assms], of "\<lambda>x. x = 0"]
  by (simp_all add: bb_ge_def b7_ge_def bb_gt_def b7_gt_def bb_le_def b7_le_def bb_lt_def b7_lt_def bb_eq_def b7_eq_def sgn_tests)

text \<open>C21: the two implementations of a block are interchangeable.  On slices without marks, \<open>BufferBlockImp7\<close> inserts pages,
  gives back pins, copies, compares blocks, decodes and updates objects as \<open>BufferBlockImp9\<close> does, faults included; the
  comparison operators with a string agree, although \<open>Compare\<close> itself answers differently for an empty block.\<close>

theorem BufferBlockImp7_equals_Imp9:
  assumes "bb_wf mem (block9 b)" "length right < 2147483648"
  shows "mapE block9 (b7_InsertPage b idx data pte) = InsertPage (block9 b) idx data pte False \<and>
    bindE (bb_free st (block9 b) dc s) (\<lambda>(b', dc', s'). Inr (bb_size b', dc', s')) =
      mapE (\<lambda>(b', s'). (b7_size b', dc, s')) (b7_free st b s) \<and>
    bb_Copy mem (block9 b) = mapE block9 (b7_Copy mem b) \<and>
    bb_CopyTo mem (block9 b) n off = b7_CopyTo mem b n off \<and>
    Compare_block mem (block9 b) (block9 c) = b7_Compare_block mem b c \<and>
    Decode sz (block9 b) idx = b7_Decode sz b idx \<and>
    UpdateContent st cb sz (block9 b) idx mem s = b7_UpdateContent st cb sz b idx mem s \<and>
    bb_ge mem (block9 b) right = b7_ge mem b right \<and> bb_gt mem (block9 b) right = b7_gt mem b right \<and>
    bb_le mem (block9 b) right = b7_le mem b right \<and> bb_lt mem (block9 b) right = b7_lt mem b right \<and>
    bb_eq mem (block9 b) right = b7_eq mem b right"
  by (intro conjI operators_9 [OF assms] InsertPage_9 free_9 copies_9 Compare_block_9 objects_9)

text \<open>The block over two pages of \<open>BufferBlock\<close>.\<close>

definition two_pages7 :: block7 where
  "two_pages7 = \<lparr>b7_size = 12, b7_page_num = 2, b7_data = Pages7
     [Some \<lparr>s7_frame = PTE_ref 0 0, s7_off = 4088, s7_pte = PTE_ref 0 0\<rparr>,
      Some \<lparr>s7_frame = PTE_ref 0 1, s7_off = 0, s7_pte = PTE_ref 0 1\<rparr>]\<rparr>"

lemma BufferBlockImp7_equals_Imp9_witness:
  "bb_lt two_frames (block9 two_pages7) [1, 2] = b7_lt two_frames two_pages7 [1, 2] \<and>
   bb_Copy two_frames (block9 two_pages7) = mapE block9 (b7_Copy two_frames two_pages7) \<and>
   b7_Compare_view two_frames b7_empty [1] 0 = Inr (- 10) \<and> Compare_view two_frames (block9 b7_empty) [1] 0 = Inr (- 1)"
proof -
  have e: "block9 two_pages7 = two_pages" by (simp add: block9_def two_pages7_def two_pages_def slice9_def)
  have "bb_wf two_frames (block9 two_pages7)" unfolding e by (rule two_pages_wf)
  note t = BufferBlockImp7_equals_Imp9 [OF this, where right = "[1, 2]" and idx = 0 and data = "(PTE_ref 0 0, 0)" and pte = "PTE_ref 0 0"
      and st = "undefined :: unit pte_store" and dc = undefined and s = "()" and c = two_pages7 and sz = 1 and n = 0 and off = 0 and cb = id]
  have "bb_lt two_frames (block9 two_pages7) [1, 2] = b7_lt two_frames two_pages7 [1, 2]"
    "bb_Copy two_frames (block9 two_pages7) = mapE block9 (b7_Copy two_frames two_pages7)"
    by (rule t [THEN conjunct2, THEN conjunct2, THEN conjunct2, THEN conjunct2, THEN conjunct2, THEN conjunct2, THEN conjunct2,
        THEN conjunct2, THEN conjunct2, THEN conjunct2, THEN conjunct1], simp)
      (rule t [THEN conjunct2, THEN conjunct2, THEN conjunct1], simp)
  moreover have "Compare_view two_frames bb_empty [1] 0 = Inr (- 1)"
    by (simp add: Compare_view_def bb_empty_def flat_read_def size_diff_def)
  ultimately show ?thesis by (simp add: block9_new(1)) (simp add: b7_Compare_view_def b7_empty_def)
qed

end
