(* ===== verification/Signals.thy ===== *)
theory Signals
  imports Cas
begin

text \<open>
  Small shared objects of \<^verbatim>\<open>include/utils.h\<close>: the messages between threads \<open>AsyncMesg1\<close> to \<open>AsyncMesg4\<close>, the
  numbers with a flag in their highest bit, the pointers with or without an owner, and the counter with an upper bound.  Proved: which messages
  answer \<open>TryWait\<close> by whether there has been a \<open>Post\<close>, that \<open>AsyncMesg2\<close> loses no wakeup, that a flag and its
  number are independent and one thread alone sets the flag, that no object is deleted twice, and that the counter
  adds atomically.
\<close>

unbundle bit_operations_syntax

section \<open>Messages\<close>

text \<open>\<open>AsyncMesg1\<close>: an atomic flag.  Its \<open>Wait\<close> does not block.\<close>

definition mesg1_new :: bool where
  "mesg1_new = False"

definition mesg1_Post :: "bool \<Rightarrow> bool" where
  "mesg1_Post finish = True"

definition mesg1_Wait :: "bool \<Rightarrow> bool" where
  "mesg1_Wait finish = finish"

definition mesg1_TryWait :: "bool \<Rightarrow> bool" where
  "mesg1_TryWait finish = finish"

definition mesg1_Reset :: "bool \<Rightarrow> bool" where
  "mesg1_Reset finish = False"

text \<open>
  \<open>AsyncMesg2\<close>: a flag under a mutex and a condition variable.  \<open>Post\<close> takes two steps, as it notifies after
  it has released the mutex; a waiter tests the flag under the mutex and blocks, to test again when it is notified
  or wakes spuriously.
\<close>

datatype waiter = Outside | Blocked | Notified | Returned

record mesg2 =
  m2_finish :: bool
  m2_posting :: nat
  m2_waiters :: "waiter list"

definition mesg2_new :: "nat \<Rightarrow> mesg2" where
  "mesg2_new n = \<lparr>m2_finish = False, m2_posting = 0, m2_waiters = replicate n Outside\<rparr>"

definition mesg2_Post_set :: "mesg2 \<Rightarrow> mesg2" where
  "mesg2_Post_set m = m\<lparr>m2_finish := True, m2_posting := Suc (m2_posting m)\<rparr>"

definition mesg2_Post_notify :: "mesg2 \<Rightarrow> mesg2" where
  "mesg2_Post_notify m = (if m2_posting m = 0 then m
     else m\<lparr>m2_posting := m2_posting m - 1, m2_waiters := map (\<lambda>w. if w = Blocked then Notified else w) (m2_waiters m)\<rparr>)"

definition mesg2_Wait_test :: "nat \<Rightarrow> mesg2 \<Rightarrow> mesg2" where
  "mesg2_Wait_test i m =
     (if i < length (m2_waiters m) \<and> m2_waiters m ! i \<in> {Outside, Notified}
      then m\<lparr>m2_waiters := (m2_waiters m)[i := if m2_finish m then Returned else Blocked]\<rparr> else m)"

definition mesg2_TryWait :: "mesg2 \<Rightarrow> bool" where
  "mesg2_TryWait m = m2_finish m"

definition mesg2_Reset :: "mesg2 \<Rightarrow> mesg2" where
  "mesg2_Reset m = m\<lparr>m2_finish := False\<rparr>"

definition mesg2_spurious :: "nat \<Rightarrow> mesg2 \<Rightarrow> mesg2" where
  "mesg2_spurious i m =
     (if i < length (m2_waiters m) \<and> m2_waiters m ! i = Blocked then m\<lparr>m2_waiters := (m2_waiters m)[i := Notified]\<rparr> else m)"

text \<open>
  \<open>AsyncMesg3\<close>: a promise and its future.  Setting the promise twice and using a future after \<open>get\<close> throw; \<open>Wait\<close>
  before \<open>Post\<close> blocks (\<open>None\<close>).  \<open>TryWait\<close> compares the state with \<open>ready\<close> the wrong way round.
\<close>

record mesg3 =
  m3_set :: bool
  m3_valid :: bool

datatype future_error = promise_already_satisfied | no_state

definition mesg3_new :: mesg3 where
  "mesg3_new = \<lparr>m3_set = False, m3_valid = True\<rparr>"

definition mesg3_Post :: "mesg3 \<Rightarrow> future_error + mesg3" where
  "mesg3_Post m = (if m3_set m then Inl promise_already_satisfied else Inr (m\<lparr>m3_set := True\<rparr>))"

definition mesg3_Wait :: "mesg3 \<Rightarrow> (future_error + bool \<times> mesg3) option" where
  "mesg3_Wait m = (if \<not> m3_valid m then Some (Inl no_state)
     else if m3_set m then Some (Inr (True, m\<lparr>m3_valid := False\<rparr>)) else None)"

definition mesg3_TryWait :: "mesg3 \<Rightarrow> future_error + bool" where
  "mesg3_TryWait m = (if \<not> m3_valid m then Inl no_state else Inr (\<not> m3_set m))"

definition mesg3_Reset :: "mesg3 \<Rightarrow> mesg3" where
  "mesg3_Reset m = mesg3_new"

text \<open>\<open>AsyncMesg4\<close>: a semaphore; \<open>Wait\<close> blocks at 0, \<open>Reset\<close> ends in \<open>assert(false)\<close>.\<close>

definition mesg4_Post :: "nat \<Rightarrow> nat" where
  "mesg4_Post sem = Suc sem"

definition mesg4_Wait :: "nat \<Rightarrow> (bool \<times> nat) option" where
  "mesg4_Wait sem = (if sem = 0 then None else Some (True, sem - 1))"

definition mesg4_TryWait :: "nat \<Rightarrow> bool \<times> nat" where
  "mesg4_TryWait sem = (if sem = 0 then (False, 0) else (True, sem - 1))"

definition mesg4_Reset :: "nat \<Rightarrow> nat res" where
  "mesg4_Reset sem = bindE (assertE False) (\<lambda>_. Inr sem)"

section \<open>The contract of a message\<close>

locale message =
  fixes fresh :: 'm and post :: "'m \<Rightarrow> 'm" and try_wait :: "'m \<Rightarrow> bool" and reset :: "'m \<Rightarrow> 'm"
  assumes fresh_law: "\<not> try_wait fresh" and post_law: "try_wait (post m)" and reset_law: "\<not> try_wait (reset m)"
begin

lemma posted: "try_wait (foldl (\<lambda>m p. if p then post m else reset m) fresh ps) \<longleftrightarrow> ps \<noteq> [] \<and> last ps"
  by (cases ps rule: rev_cases) (simp_all add: fresh_law post_law reset_law)

end

interpretation mesg1: message mesg1_new mesg1_Post mesg1_TryWait mesg1_Reset
  by unfold_locales (simp_all add: mesg1_new_def mesg1_Post_def mesg1_TryWait_def mesg1_Reset_def)

interpretation mesg2: message "mesg2_new n" "\<lambda>m. mesg2_Post_notify (mesg2_Post_set m)" mesg2_TryWait mesg2_Reset for n
  by unfold_locales
    (simp_all add: mesg2_new_def mesg2_Post_set_def mesg2_Post_notify_def mesg2_TryWait_def mesg2_Reset_def)

text \<open>\<open>AsyncMesg3\<close> answers the opposite, \<open>AsyncMesg4\<close> as often as there were posts.\<close>

lemma mesg3_TryWait_inverted:
  "mesg3_TryWait mesg3_new = Inr True" "mesg3_Post mesg3_new = Inr m \<Longrightarrow> mesg3_TryWait m = Inr False"
  by (auto simp: mesg3_TryWait_def mesg3_new_def mesg3_Post_def)

lemma mesg4_counts: "mesg4_TryWait ((mesg4_Post ^^ n) 0) = (n > 0, n - 1)"
  by (induction n) (auto simp: mesg4_TryWait_def mesg4_Post_def)

section \<open>No lost wakeup\<close>

datatype mesg2_act = Post_set | Post_notify | Wait_test nat | Reset_flag | Spurious nat

fun mesg2_step :: "mesg2_act \<Rightarrow> mesg2 \<Rightarrow> mesg2" where
  "mesg2_step Post_set m = mesg2_Post_set m"
| "mesg2_step Post_notify m = mesg2_Post_notify m"
| "mesg2_step (Wait_test i) m = mesg2_Wait_test i m"
| "mesg2_step Reset_flag m = mesg2_Reset m"
| "mesg2_step (Spurious i) m = mesg2_spurious i m"

definition no_lost_waiter :: "mesg2 \<Rightarrow> bool" where
  "no_lost_waiter m \<longleftrightarrow> (m2_finish m \<and> m2_posting m = 0 \<longrightarrow> Blocked \<notin> set (m2_waiters m))"

lemma set_update_subset: "x \<in> set (xs[i := y]) \<Longrightarrow> x \<noteq> y \<Longrightarrow> x \<in> set xs"
  by (meson insertE set_update_subset_insert subsetD)

lemma mesg2_step_keeps: "no_lost_waiter m \<Longrightarrow> no_lost_waiter (mesg2_step a m)"
proof (cases a)
  case Post_notify
  assume "no_lost_waiter m"
  then show ?thesis using Post_notify by (auto simp: no_lost_waiter_def mesg2_Post_notify_def)
next
  case (Wait_test i)
  assume "no_lost_waiter m"
  then show ?thesis using Wait_test set_update_subset [of Blocked "m2_waiters m" i Returned]
    by (auto simp: no_lost_waiter_def mesg2_Wait_test_def)
next
  case (Spurious i)
  assume "no_lost_waiter m"
  then show ?thesis using Spurious set_update_subset [of Blocked "m2_waiters m" i Notified]
    by (auto simp: no_lost_waiter_def mesg2_spurious_def)
qed (simp_all add: no_lost_waiter_def mesg2_Post_set_def mesg2_Reset_def)

text \<open>However posts, waits, resets and spurious wakeups interleave, a waiter is blocked only while the flag is
  unset or a \<open>Post\<close> has yet to notify; a notified one returns when it tests a set flag.\<close>

theorem AsyncMesg2_no_lost_wakeup:
  "no_lost_waiter (fold mesg2_step acts (mesg2_new n))"
proof -
  have "no_lost_waiter m \<Longrightarrow> no_lost_waiter (fold mesg2_step acts m)" for m
    by (induction acts arbitrary: m) (simp_all add: mesg2_step_keeps)
  then show ?thesis by (simp add: no_lost_waiter_def mesg2_new_def)
qed

lemma notified_returns:
  "m2_finish m \<Longrightarrow> i < length (m2_waiters m) \<Longrightarrow> m2_waiters m ! i = Notified \<Longrightarrow> m2_waiters (mesg2_Wait_test i m) ! i = Returned"
  by (simp add: mesg2_Wait_test_def)

section \<open>Numbers with a flag\<close>

text \<open>\<open>FlaggedNumber\<close> over an unsigned type of any width.\<close>

definition flag_mask :: "'a::len word" where
  "flag_mask = push_bit (LENGTH('a) - 1) 1"

definition fn_isFlagSet :: "'a::len word \<Rightarrow> bool" where
  "fn_isFlagSet v \<longleftrightarrow> v AND flag_mask \<noteq> 0"

definition fn_getData :: "'a::len word \<Rightarrow> 'a word" where
  "fn_getData v = v AND (flag_mask - 1)"

definition fn_setData :: "'a::len word \<Rightarrow> 'a word \<Rightarrow> 'a word" where
  "fn_setData v data =
     (let new = data AND (flag_mask - 1) in if fn_isFlagSet v then new OR flag_mask else new)"

definition fn_setFlag :: "'a::len word \<Rightarrow> bool \<Rightarrow> 'a word" where
  "fn_setFlag v flag = (if flag then v OR flag_mask else v AND NOT flag_mask)"

definition fn_setFlagIfNotSet :: "'a::len word \<Rightarrow> bool \<times> 'a word" where
  "fn_setFlagIfNotSet v = (v AND flag_mask = 0, v OR flag_mask)"

text \<open>The constructor starts from the uninitialised value \<open>junk\<close>.\<close>

definition fn_new :: "'a::len word \<Rightarrow> 'a word \<Rightarrow> bool \<Rightarrow> 'a word" where
  "fn_new junk data flag = fn_setFlag (fn_setData junk data) flag"

text \<open>\<open>FlaggedUINT64\<close>, with its masks written out.\<close>

definition fu_isFlagSet :: "u64 \<Rightarrow> bool" where
  "fu_isFlagSet v \<longleftrightarrow> v AND 0x8000000000000000 \<noteq> 0"

definition fu_getData :: "u64 \<Rightarrow> u64" where
  "fu_getData v = v AND 0x7FFFFFFFFFFFFFFF"

definition fu_setData :: "u64 \<Rightarrow> u64 \<Rightarrow> u64" where
  "fu_setData v data =
     (let new = data AND 0x7FFFFFFFFFFFFFFF in if fu_isFlagSet v then new OR 0x8000000000000000 else new)"

definition fu_setFlag :: "u64 \<Rightarrow> bool \<Rightarrow> u64" where
  "fu_setFlag v flag = (if flag then v OR 0x8000000000000000 else v AND 0x7FFFFFFFFFFFFFFF)"

definition fu_setFlagIfNotSet :: "u64 \<Rightarrow> bool \<times> u64" where
  "fu_setFlagIfNotSet v = (v AND 0x8000000000000000 = 0, v OR 0x8000000000000000)"

definition fu_new :: "u64 \<Rightarrow> u64 \<Rightarrow> bool \<Rightarrow> u64" where
  "fu_new junk data flag = fu_setFlag (fu_setData junk data) flag"

lemma fu_equals_fn:
  "fu_isFlagSet = fn_isFlagSet" "fu_getData = fn_getData" "fu_setData = fn_setData" "fu_setFlag = fn_setFlag"
  "fu_setFlagIfNotSet = fn_setFlagIfNotSet" "fu_new = fn_new"
proof -
  have m: "(flag_mask :: u64) = 0x8000000000000000" "(flag_mask :: u64) - 1 = 0x7FFFFFFFFFFFFFFF"
    "NOT (flag_mask :: u64) = 0x7FFFFFFFFFFFFFFF"
    by (simp_all add: flag_mask_def)
  show f: "fu_isFlagSet = fn_isFlagSet" "fu_getData = fn_getData" "fu_setFlagIfNotSet = fn_setFlagIfNotSet"
    by (simp_all add: fun_eq_iff fu_isFlagSet_def fn_isFlagSet_def fu_getData_def fn_getData_def
        fu_setFlagIfNotSet_def fn_setFlagIfNotSet_def m)
  show g: "fu_setFlag = fn_setFlag"
    by (simp only: fun_eq_iff fu_setFlag_def fn_setFlag_def m(3)) (simp only: m(1) simp_thms)
  show "fu_setData = fn_setData" by (simp add: fun_eq_iff fu_setData_def fn_setData_def f m Let_def)
  then show "fu_new = fn_new" by (simp add: fun_eq_iff fu_new_def fn_new_def g)
qed

text \<open>In bits.\<close>

lemma flag_mask_bit: "bit (flag_mask :: 'a::len word) i \<longleftrightarrow> i = LENGTH('a) - 1"
  by (auto simp: flag_mask_def bit_simps)

lemma data_mask: "flag_mask - 1 = (mask (LENGTH('a) - 1) :: 'a::len word)"
  by (simp add: flag_mask_def mask_eq_exp_minus_1 push_bit_eq_mult)

lemma isFlagSet_bit: "fn_isFlagSet v \<longleftrightarrow> bit (v :: 'a::len word) (LENGTH('a) - 1)"
proof -
  have "v AND flag_mask = (if bit v (LENGTH('a) - 1) then flag_mask else 0)"
    by (rule bit_word_eqI) (auto simp: bit_simps flag_mask_bit)
  moreover have "(flag_mask :: 'a word) \<noteq> 0" using flag_mask_bit [of "LENGTH('a) - 1", where 'a = 'a] by auto
  ultimately show ?thesis by (simp add: fn_isFlagSet_def)
qed

lemma getData_bit: "bit (fn_getData v) i \<longleftrightarrow> i < LENGTH('a) - 1 \<and> bit (v :: 'a::len word) i"
  by (auto simp: fn_getData_def data_mask bit_simps)

lemma setData_bit: "i < LENGTH('a) \<Longrightarrow> bit (fn_setData v d) i \<longleftrightarrow> (if i = LENGTH('a) - 1 then bit (v :: 'a::len word) i else bit d i)"
  by (auto simp: fn_setData_def data_mask isFlagSet_bit flag_mask_bit bit_simps Let_def)

lemma setFlag_bit: "i < LENGTH('a) \<Longrightarrow> bit (fn_setFlag v f) i \<longleftrightarrow> (if i = LENGTH('a) - 1 then f else bit (v :: 'a::len word) i)"
  by (auto simp: fn_setFlag_def flag_mask_bit bit_simps)

text \<open>A number and its flag in one word are independent.  Whatever was in the memory, a new object has the data it was
  given, less the highest bit, and the flag; setting the data keeps the flag, setting the flag keeps the data; and of
  threads that set the flag if it is not set, exactly the first succeeds.\<close>

theorem FlaggedUINT64_roundtrip:
  "fu_getData (fu_new junk d f) = d AND mask 63 \<and> fu_isFlagSet (fu_new junk d f) = f \<and>
   fu_getData (fu_setData v d) = d AND mask 63 \<and> fu_isFlagSet (fu_setData v d) = fu_isFlagSet v \<and>
   fu_getData (fu_setFlag v f) = fu_getData v \<and> fu_isFlagSet (fu_setFlag v f) = f \<and>
   fst (fu_setFlagIfNotSet v) = (\<not> fu_isFlagSet v) \<and> snd (fu_setFlagIfNotSet v) = fu_setFlag v True \<and>
   \<not> fst (fu_setFlagIfNotSet (snd (fu_setFlagIfNotSet v)))"
proof -
  have s: "fn_setFlagIfNotSet w = (\<not> fn_isFlagSet w, fn_setFlag w True)" for w :: u64
    by (simp add: fn_setFlagIfNotSet_def fn_isFlagSet_def fn_setFlag_def)
  have f: "fn_isFlagSet (fn_setFlag w g) = g" "fn_isFlagSet (fn_setData w e) = fn_isFlagSet w" for w e :: u64 and g
    by (simp_all add: isFlagSet_bit setFlag_bit setData_bit)
  have g: "fn_getData (fn_setFlag w g) = fn_getData w" "fn_getData (fn_setData w e) = e AND mask 63" for w e :: u64 and g
    by (rule bit_word_eqI; auto simp: getData_bit setFlag_bit setData_bit bit_simps)+
  show ?thesis unfolding fu_equals_fn s f fst_conv snd_conv fn_new_def g by simp
qed

section \<open>Owning pointers\<close>

text \<open>
  \<open>PointerWrapper\<close>: a pointer and whether the wrapper deletes its object.  The wrappers of a program are a list, the
  objects that have not been deleted a set.  Copies and assignments move the object out of their source
  (constructors go to a place of the list that holds no wrapper: \<open>None\<close>).  The move constructor leaves the pointer, but not the
  duty to delete, in the source.
\<close>

record pointer_wrapper =
  pw_object :: "nat option"
  pw_need_delete :: bool

type_synonym wrappers = "pointer_wrapper option list"

definition pw_new :: "nat option \<Rightarrow> bool \<Rightarrow> pointer_wrapper" where
  "pw_new object need_delete = \<lparr>pw_object = object, pw_need_delete = need_delete\<rparr>"

definition pw_Move :: "nat \<Rightarrow> nat \<Rightarrow> wrappers \<Rightarrow> wrappers" where
  "pw_Move src dst ws =
     (let ws = ws[dst := ws ! src]
      in ws[src := Some \<lparr>pw_object = None, pw_need_delete = False\<rparr>])"

definition pw_copy :: "nat \<Rightarrow> nat \<Rightarrow> wrappers \<Rightarrow> wrappers" where
  "pw_copy src dst ws = pw_Move src dst ws"

definition pw_assign :: "nat \<Rightarrow> nat \<Rightarrow> wrappers \<Rightarrow> wrappers" where
  "pw_assign src dst ws = pw_Move src dst ws"

definition pw_move_construct :: "nat \<Rightarrow> nat \<Rightarrow> wrappers \<Rightarrow> wrappers" where
  "pw_move_construct src dst ws =
     ws[dst := ws ! src, src := map_option (\<lambda>w. w\<lparr>pw_need_delete := False\<rparr>) (ws ! src)]"

definition pw_Inner :: "pointer_wrapper \<Rightarrow> nat res" where
  "pw_Inner w = (case pw_object w of None \<Rightarrow> Inl AssertFail | Some x \<Rightarrow> Inr x)"

text \<open>The destructor; deleting what is already deleted is a fault.\<close>

definition pw_destroy :: "nat \<Rightarrow> wrappers \<times> nat set \<Rightarrow> (wrappers \<times> nat set) res" where
  "pw_destroy i = (\<lambda>(ws, alive).
     case ws ! i of
       None \<Rightarrow> Inr (ws, alive)
     | Some w \<Rightarrow>
         (case pw_object w of
            Some x \<Rightarrow> if \<not> pw_need_delete w then Inr (ws[i := None], alive)
                      else if x \<in> alive then Inr (ws[i := None], alive - {x}) else Inl OutOfBounds
          | None \<Rightarrow> Inr (ws[i := None], alive)))"

text \<open>An object has at most one wrapper that deletes it, so none is deleted twice.\<close>

definition owns :: "pointer_wrapper option \<Rightarrow> nat option" where
  "owns p = (case p of Some w \<Rightarrow> if pw_need_delete w then pw_object w else None | None \<Rightarrow> None)"

definition wrappers_ok :: "wrappers \<Rightarrow> nat set \<Rightarrow> bool" where
  "wrappers_ok ws alive \<longleftrightarrow> (\<forall>i < length ws. \<forall>x. owns (ws ! i) = Some x \<longrightarrow> x \<in> alive) \<and>
     (\<forall>i < length ws. \<forall>j < length ws. \<forall>x. owns (ws ! i) = Some x \<and> owns (ws ! j) = Some x \<longrightarrow> i = j)"

lemma owns_simps [simp]: "owns None = None" "owns (Some \<lparr>pw_object = None, pw_need_delete = b\<rparr>) = None"
  "owns (map_option (\<lambda>w. w\<lparr>pw_need_delete := False\<rparr>) p) = None"
  by (auto simp: owns_def split: option.splits)

lemma wrapper_ops_ok:
  assumes "wrappers_ok ws alive" "i < length ws" "j < length ws"
  shows "wrappers_ok (pw_Move i j ws) alive" "wrappers_ok (pw_move_construct i j ws) alive"
    "\<exists>ws' alive'. pw_destroy i (ws, alive) = Inr (ws', alive') \<and> wrappers_ok ws' alive'"
proof -
  show "wrappers_ok (pw_Move i j ws) alive" "wrappers_ok (pw_move_construct i j ws) alive"
    using assms by (auto simp: wrappers_ok_def pw_Move_def pw_move_construct_def Let_def nth_list_update)
  have o: "wrappers_ok (ws[i := None]) A" if "A = alive \<or> (\<exists>x. owns (ws ! i) = Some x \<and> A = alive - {x})" for A
    using that assms by (fastforce simp: wrappers_ok_def nth_list_update)
  show "\<exists>ws' alive'. pw_destroy i (ws, alive) = Inr (ws', alive') \<and> wrappers_ok ws' alive'"
  proof (cases "owns (ws ! i)")
    case None
    then have "ws ! i = None \<or> pw_destroy i (ws, alive) = Inr (ws[i := None], alive)"
      by (auto simp: pw_destroy_def owns_def split: option.splits if_splits)
    then show ?thesis using o [of alive] assms(1) by (auto simp: pw_destroy_def)
  next
    case (Some x)
    then have "x \<in> alive" using assms by (auto simp: wrappers_ok_def)
    then have "pw_destroy i (ws, alive) = Inr (ws[i := None], alive - {x})"
      using Some by (auto simp: pw_destroy_def owns_def split: option.splits if_splits)
    then show ?thesis using o [of "alive - {x}"] Some by blast
  qed
qed

text \<open>Assignment forgets the object that its destination owned: it stays alive without an owner.\<close>

lemma pw_assign_leaks:
  assumes "wrappers_ok ws alive" "i < length ws" "j < length ws" "owns (ws ! j) = Some x"
  shows "\<forall>k < length ws. owns (pw_assign i j ws ! k) \<noteq> Some x"
  using assms by (auto simp: wrappers_ok_def pw_assign_def pw_Move_def Let_def nth_list_update)

section \<open>The bounded counter\<close>

text \<open>\<open>atomic_add\<close> over an unsigned type: the sum wraps before it is compared with the bound.\<close>

definition atomic_add_body :: "'a::len word \<Rightarrow> 'a word \<Rightarrow> 'a word \<Rightarrow> ('a word, bool \<times> 'a word) cas_body" where
  "atomic_add_body add_data upper_bound old =
     (if old + add_data > upper_bound then GiveUp (False, 0) else Propose (old + add_data) (True, old))"

definition atomic_add :: "'a::len word \<Rightarrow> 'a word \<Rightarrow> 'a word \<Rightarrow> (bool \<times> 'a word) \<times> 'a word" where
  "atomic_add data add_data upper_bound = cas_seq (atomic_add_body add_data upper_bound) data"

lemma atomic_add_bounded:
  assumes "cas_loop (atomic_add_body x b) old env = Some (r, v, v')" "v \<le> b" "unat v + unat x < 2 ^ LENGTH('a)"
  shows "r = (if unat v + unat x \<le> unat b then (True, v) else (False, 0)) \<and> v' \<le> b \<and>
    unat v' = (if fst r then unat v + unat x else unat (v :: 'a::len word))"
proof -
  have u: "unat (v + x) = unat v + unat x" using assms(3) by (simp add: unat_word_ariths)
  have "cas_seq (atomic_add_body x b) v = (r, v')" using cas_loop_linearizes [OF assms(1)] by simp
  then show ?thesis using u assms(2)
    by (auto simp: cas_seq_def atomic_add_body_def word_less_nat_alt word_le_nat_alt split: if_splits)
qed

end
