(* ===== verification/Concurrent.thy ===== *)
theory Concurrent
  imports Access Pool
begin

text \<open>
  Concurrent fetches.  Several threads call \<open>FetchPageSync\<close> of one pool (\<^verbatim>\<open>src/buffer_pool.cpp\<close>), write into
  the pages they got and release them; a scheduler decides whose phase runs next.  A phase is one atomic step here (the
  interleaving inside the words of the page table is the subject of \<open>PTE\<close>); between two phases of
  one fetch all the others may run.  The mapping of a page is locked from the phase that found it
  absent to the one that publishes it, and so is that of a victim while it is written back.  Proved: no schedule
  makes a phase fault when there are as many frames as threads, every thread gets a pinned frame with the
  bytes of its page as the updates made so far have left them, no page is lost or in two frames, no update is
  lost, and there is always a thread that can go on.
\<close>

section \<open>Threads and schedules\<close>

text \<open>The part of the state of \<open>FetchPageSync\<close> that is the thread's own, and what it holds after its return.\<close>

record fetcher =
  ft_fd :: file_handle
  ft_page :: fpage_id
  ft_stat :: phase
  ft_ret :: "mpage_id option"

definition idle_fetcher :: fetcher where
  "idle_fetcher = \<lparr>ft_fd = 0, ft_page = 0, ft_stat = End, ft_ret = None\<rparr>"

definition idle :: "fetcher \<Rightarrow> bool" where
  "idle t \<longleftrightarrow> ft_stat t = End \<and> ft_ret t = None"

type_synonym ('r, 'q) fetch_system = "('r, 'q) buffer_pool \<times> disk \<times> fetcher list"

datatype fetch_action = Call nat file_handle fpage_id | Round nat | Update nat nat "byte list" | Release nat

text \<open>What an action has written: bytes at an offset of a page.\<close>

type_synonym page_update = "file_handle \<times> fpage_id \<times> nat \<times> byte list"

text \<open>
  A call begins with an attempt to pin the page; a round is one turn of the loop; an update writes into the
  frame that the thread has pinned and marks it dirty, as \<open>UpdateContent\<close> of a block does; a release gives the pin
  back.  An action of a thread that is not in a position to do it changes nothing.
\<close>

fun do_action :: "'r replacer_ops \<Rightarrow> 'q queue_ops \<Rightarrow> fetch_action \<Rightarrow> ('r, 'q) fetch_system \<Rightarrow>
    (page_update list \<times> ('r, 'q) fetch_system) res" where
  "do_action ops qops (Call i fd p) (bp, d, ths) =
     (if i < length ths \<and> idle (ths ! i) then
        bindE (Pin ops bp p fd) (\<lambda>(ret, bp).
        Inr ([], bp, d, ths[i := \<lparr>ft_fd = fd, ft_page = p, ft_stat = if ret \<noteq> None then End else Begin, ft_ret = ret\<rparr>]))
      else Inr ([], bp, d, ths))"
| "do_action ops qops (Round i) (bp, d, ths) =
     (if i < length ths \<and> ft_stat (ths ! i) \<noteq> End then
        let t = ths ! i in
        bindE (fetch_step ops qops (ft_page t) (ft_fd t)
          \<lparr>fs_stat = ft_stat t, fs_ret = ft_ret t, fs_bp = bp, fs_disk = d\<rparr>) (\<lambda>(_, st).
        Inr ([], fs_bp st, fs_disk st, ths[i := t\<lparr>ft_stat := fs_stat st, ft_ret := fs_ret st\<rparr>]))
      else Inr ([], bp, d, ths))"
| "do_action ops qops (Update i off data) (bp, d, ths) =
     (if i < length ths \<and> ft_stat (ths ! i) = End then
        (case ft_ret (ths ! i) of
           None \<Rightarrow> Inr ([], bp, d, ths)
         | Some m \<Rightarrow>
             bindE (FromPageId (bp_page_table bp) m) (\<lambda>w.
             bindE (arr_get (bp_memory_pool bp) m) (\<lambda>f.
             if off + length data \<le> length f then
               Inr ([(ft_fd (ths ! i), ft_page (ths ! i), off, data)],
                 bp\<lparr>bp_memory_pool := (bp_memory_pool bp)[m := take off f @ data @ drop (off + length data) f],
                    bp_page_table := put_pte (bp_page_table bp) m (snd (SetDirty True w))\<rparr>, d, ths)
             else Inl OutOfBounds)))
      else Inr ([], bp, d, ths))"
| "do_action ops qops (Release i) (bp, d, ths) =
     (if i < length ths \<and> ft_stat (ths ! i) = End then
        (case ft_ret (ths ! i) of
           None \<Rightarrow> Inr ([], bp, d, ths)
         | Some m \<Rightarrow>
             bindE (FromPageId (bp_page_table bp) m) (\<lambda>w.
             Inr ([], bp\<lparr>bp_page_table := put_pte (bp_page_table bp) m (DecRefCount w)\<rparr>, d, ths[i := (ths ! i)\<lparr>ft_ret := None\<rparr>])))
      else Inr ([], bp, d, ths))"

text \<open>A schedule, with the updates in the order in which they were made.\<close>

fun run_schedule :: "'r replacer_ops \<Rightarrow> 'q queue_ops \<Rightarrow> fetch_action list \<Rightarrow> ('r, 'q) fetch_system \<Rightarrow>
    (page_update list \<times> ('r, 'q) fetch_system) res" where
  "run_schedule ops qops [] s = Inr ([], s)"
| "run_schedule ops qops (a # as) s =
     bindE (do_action ops qops a s) (\<lambda>(us, s). bindE (run_schedule ops qops as s) (\<lambda>(us', s). Inr (us @ us', s)))"

text \<open>The reference: pages as lists of bytes, which an update overwrites as far as the file goes.\<close>

definition overlay :: "nat \<Rightarrow> byte list \<Rightarrow> byte list \<Rightarrow> byte list" where
  "overlay off data xs = map (\<lambda>i. if off \<le> i \<and> i < off + length data then data ! (i - off) else xs ! i) [0..<length xs]"

fun apply_update :: "page_update \<Rightarrow> (file_handle \<Rightarrow> fpage_id \<Rightarrow> byte list) \<Rightarrow> file_handle \<Rightarrow> fpage_id \<Rightarrow> byte list" where
  "apply_update (fd, p, off, data) B = B(fd := (B fd)(p := overlay off data (B fd p)))"

definition apply_updates :: "page_update list \<Rightarrow> (file_handle \<Rightarrow> fpage_id \<Rightarrow> byte list) \<Rightarrow> file_handle \<Rightarrow> fpage_id \<Rightarrow> byte list" where
  "apply_updates us B = fold apply_update us B"

lemma apply_updates_simps [simp]: "apply_updates [] B = B" "apply_updates (us @ us') B = apply_updates us' (apply_updates us B)"
  by (simp_all add: apply_updates_def)

lemma overlay_frame:
  assumes "off + length data \<le> length f"
  shows "take off f @ data @ drop (off + length data) f = overlay off data f"
  by (rule nth_equalityI) (use assms in \<open>auto simp: overlay_def nth_append\<close>)

lemma overlay_take: "take n (overlay off data f) = overlay off data (take n f)"
  by (rule nth_equalityI) (auto simp: overlay_def)

lemma overlay_length [simp]: "length (overlay off data f) = length f"
  by (simp add: overlay_def)

section \<open>The phases beside others\<close>

text \<open>A victim goes into transit.\<close>

lemma chosen_core:
  assumes c: "pool_core rinv rcap qrep k bp d S free T" and m: "m \<in> S"
    and r': "rinv r' (S - {m})" "rcap r' = rcap (bp_replacer bp)"
  shows "pool_core rinv rcap qrep k (bp\<lparr>bp_replacer := r', bp_page_table := lock_frame (bp_page_table bp) m\<rparr>) d
    (S - {m}) free (insert m T)"
proof -
  let ?pt = "bp_page_table bp" and ?pt1 = "lock_frame (bp_page_table bp) m"
  note wf = pool_coreD(1) [OF c] and h = pool_coreD(8) [OF c m]
  note lf = lock_frame_wf [OF wf h] and lt = pool_coreD(10) [OF c m]
  have "held ?pt1 m'" "frame_ok d ?pt1 (bp_memory_pool bp) m'" if "m' \<in> S - {m}" for m'
    using lock_frame_held [OF wf h pool_coreD(8) [OF c], of m'] pool_coreD(9) [OF c, of m'] that lf(6) [of m']
      frame_ok_pt [of ?pt1 m' ?pt] by auto
  moreover have "unnamed ?pt1 m'" if "unnamed ?pt m'" "m' < frames ?pt" for m'
  proof -
    have "pt_word ?pt (pte_fd_cur (pte_of ?pt m)) (pte_fpage_id_cur (pte_of ?pt m)) = Some (mword m)"
      using h by (simp add: held_def)
    then have "unnamed (set_word ?pt (pte_fd_cur (pte_of ?pt m)) (pte_fpage_id_cur (pte_of ?pt m)) (mword BUSY_VALUE)) m'"
      using that(1) frame_id(5) [OF wf that(2)] by (metis unnamed_set_word)
    then show ?thesis by (simp add: lock_frame_def pt_simps Let_def)
  qed
  moreover have "S \<union> set free \<union> T = {..<frames ?pt}" using c by (simp add: pool_core_def)
  then have "m' \<in> set free \<union> T \<Longrightarrow> m' < frames ?pt" for m' by auto
  ultimately show ?thesis
    using c m r' lf lt by (auto simp: pool_core_def pinned_def)
qed

text \<open>Writing a victim in transit back and giving its page up.\<close>

lemma evict_core:
  assumes c: "pool_core rinv rcap qrep k bp d S free T" and m: "m \<in> T"
    and f: "frame_ok d (bp_page_table bp) (bp_memory_pool bp) m"
  defines "w \<equiv> pte_of (bp_page_table bp) m"
  assumes busy: "pt_word (bp_page_table bp) (pte_fd_cur w) (pte_fpage_id_cur w) = Some (mword BUSY_VALUE)"
    and part: "GetPartitionId (pt_partitioner (bp_page_table bp)) (pte_fpage_id_cur w) = k"
  defines "bp' \<equiv> bp\<lparr>bp_page_table := set_word (bp_page_table bp) (pte_fd_cur w) (pte_fpage_id_cur w) (mword EMPTY_VALUE)\<rparr>"
  obtains d' where
    "evicting_phase \<lparr>fs_stat = Evicting, fs_ret = Some m, fs_bp = bp, fs_disk = d\<rparr> =
      Inr \<lparr>fs_stat = Loading, fs_ret = Some m, fs_bp = bp', fs_disk = d'\<rparr>"
    "pool_core rinv rcap qrep k bp' d' S free T" "disk_step (pt_partitioner (bp_page_table bp)) k d d'"
    "\<And>fd q. opened d fd \<Longrightarrow> (fd, q) \<noteq> (pte_fd_cur w, pte_fpage_id_cur w) \<Longrightarrow>
      page_at (file_of d' fd) (unat q) = page_at (file_of d fd) (unat q)"
    "visible (file_of d' (pte_fd_cur w)) (pte_fpage_id_cur w) (page_at (file_of d' (pte_fd_cur w)) (unat (pte_fpage_id_cur w))) =
      visible (file_of d (pte_fd_cur w)) (pte_fpage_id_cur w) (bp_memory_pool bp ! m)"
proof -
  let ?pt = "bp_page_table bp" and ?fd = "pte_fd_cur w" and ?p = "pte_fpage_id_cur w" and ?mem = "bp_memory_pool bp"
  note wf = pool_coreD(1) [OF c] and dwf = pool_coreD(11) [OF c]
  have lt: "m < frames ?pt" using c m by (auto simp: pool_core_def)
  have fok: "in_file d ?fd ?p"
    "pte_dirty w \<or> visible (file_of d ?fd) ?p (?mem ! m) = visible (file_of d ?fd) ?p (page_at (file_of d ?fd) (unat ?p))"
    using f by (simp_all add: frame_ok_def w_def Let_def)
  have len: "length (?mem ! m) = PAGE_SIZE_FILE" by (rule pool_coreD(3) [OF c lt])
  define d' where "d' = (if pte_dirty w then disk_put d ?fd ?p (?mem ! m) else d)"
  have run: "evicting_phase \<lparr>fs_stat = Evicting, fs_ret = Some m, fs_bp = bp, fs_disk = d\<rparr> =
      Inr \<lparr>fs_stat = Loading, fs_ret = Some m, fs_bp = bp', fs_disk = d'\<rparr>"
    using busy lt len pool_coreD(2) [OF c] Write_page_put [OF fok(1) len]
    by (simp add: evicting_phase_def fs_frame_def pt_simps ReadWriteSync_def d'_def bp'_def flip: w_def)
  have step: "disk_step (pt_partitioner ?pt) k d d'"
    using disk_put_step [OF dwf fok(1) part] dwf by (simp add: d'_def)
  have same: "page_at (file_of d' fd) (unat q) = page_at (file_of d fd) (unat q)"
    if "opened d fd" "(fd, q) \<noteq> (?fd, ?p)" for fd q
    using page_at_disk_put(1) [OF dwf fok(1) that(1)] that(2) by (auto simp: d'_def)
  have l: "length (file_of d' ?fd) = length (file_of d ?fd)" using step fok(1) by (simp add: disk_step_def in_file_def)
  have vis: "visible (file_of d' ?fd) ?p (page_at (file_of d' ?fd) (unat ?p)) = visible (file_of d ?fd) ?p (?mem ! m)"
    using fok page_at_disk_put(3) [OF dwf fok(1) _ len] visible_cong [OF l] by (auto simp: d'_def in_file_def)
  note c1 = pool_core_set_slot(1) [OF c busy [unfolded w_def], of "mword EMPTY_VALUE", folded w_def]
  have c2: "pool_core rinv rcap qrep k bp' d S free T" unfolding bp'_def by (rule c1) simp_all
  have "frame_ok d' (bp_page_table bp') (bp_memory_pool bp') m'" if m': "m' \<in> S" for m'
  proof (rule frame_ok_step [OF pool_coreD(9) [OF c2 m'] step])
    let ?w' = "pte_of ?pt m'"
    have "pt_word ?pt (pte_fd_cur ?w') (pte_fpage_id_cur ?w') = Some (mword m')"
      using pool_coreD(8) [OF c m'] by (simp add: held_def)
    then have "(pte_fd_cur ?w', pte_fpage_id_cur ?w') \<noteq> (?fd, ?p)"
      using busy frame_id(5) [OF wf pool_coreD(10) [OF c m']] by auto
    moreover have "opened d (pte_fd_cur ?w')" using pool_coreD(9) [OF c m'] by (simp add: frame_ok_def in_file_def Let_def)
    ultimately show "page_at (file_of d' (pte_fd_cur (pte_of (bp_page_table bp') m'))) (unat (pte_fpage_id_cur (pte_of (bp_page_table bp') m'))) =
        page_at (file_of d (pte_fd_cur (pte_of (bp_page_table bp') m'))) (unat (pte_fpage_id_cur (pte_of (bp_page_table bp') m')))"
      using same by (simp add: bp'_def pt_simps)
  qed
  then have "pool_core rinv rcap qrep k bp' d' S free T" using c2 step by (simp add: pool_core_def disk_step_def)
  then show thesis using run step same vis that by blast
qed

context replacer
begin

text \<open>Publishing a page in a frame in transit.\<close>

lemma load_core:
  assumes c: "pool_core rinv rcap qrep k bp d S free (insert m T)" and mT: "m \<notin> T"
    and w: "pt_word (bp_page_table bp) fd p = Some (mword BUSY_VALUE)" and i: "in_file d fd p"
    and fd: "fd < 8192" and p: "GetPartitionId (pt_partitioner (bp_page_table bp)) p = k"
  defines "pt' \<equiv> set_word (put_pte (bp_page_table bp) m (loaded_pte fd p)) fd p (mword m)"
  defines "mem' \<equiv> (bp_memory_pool bp)[m := page_at (file_of d fd) (unat p)]"
  obtains bp' where
    "loading_phase ops p fd \<lparr>fs_stat = Loading, fs_ret = Some m, fs_bp = bp, fs_disk = d\<rparr> =
      Inr \<lparr>fs_stat = End, fs_ret = Some m, fs_bp = bp', fs_disk = d\<rparr>"
    "pool_core rinv rcap qrep k bp' d (insert m S) free T" "bp_page_table bp' = pt'" "bp_memory_pool bp' = mem'"
proof -
  let ?pt = "bp_page_table bp" and ?mem = "bp_memory_pool bp" and ?f = "file_of d fd"
  note wf = pool_coreD(1) [OF c]
  have m: "m < frames ?pt" "unnamed ?pt m" "m \<notin> S" "m \<notin> set free"
    using c by (auto simp: pool_core_def)
  note id = frame_id [OF wf m(1)]
  obtain r' where r': "op_Insert ops (bp_replacer bp) m = Inr (True, r')" "rinv r' (insert m S)" "rcap r' = rcap (bp_replacer bp)"
    using Insert_law [OF pool_coreD(4) [OF c] _ m(3)] m(1) pool_coreD(5) [OF c] by auto
  let ?bp' = "bp\<lparr>bp_memory_pool := mem', bp_replacer := r', bp_page_table := pt'\<rparr>"
  have rd: "RWSysCall_Read d (page_offset_of p) (?mem ! m) fd = Inr (True, page_at ?f (unat p))"
    using i pool_coreD(3) [OF c m(1)] unat_page_offset by (intro Read_page) (simp_all add: in_file_def opened_def)
  have run: "loading_phase ops p fd \<lparr>fs_stat = Loading, fs_ret = Some m, fs_bp = bp, fs_disk = d\<rparr> =
      Inr \<lparr>fs_stat = End, fs_ret = Some m, fs_bp = ?bp', fs_disk = d\<rparr>"
    using m(1) pool_coreD(2) [OF c] rd r' w id
    by (simp add: loading_phase_def fs_frame_def ReadWriteSync_def pt_simps pte_Clean_def pt'_def mem'_def
        flip: loaded_pte_def)
  have wf': "pt_wf k pt'" unfolding pt'_def using wf m(2,1) fd p w by (rule fill_wf)
  have other: "pt_word ?pt (pte_fd_cur (pte_of ?pt m')) (pte_fpage_id_cur (pte_of ?pt m')) = Some (mword m')"
    "\<not> same_slot ?pt fd p (pte_fd_cur (pte_of ?pt m')) (pte_fpage_id_cur (pte_of ?pt m'))" "m' \<noteq> m"
    if "m' \<in> S" for m'
  proof -
    show *: "pt_word ?pt (pte_fd_cur (pte_of ?pt m')) (pte_fpage_id_cur (pte_of ?pt m')) = Some (mword m')"
      using pool_coreD(8) [OF c that] by (simp add: held_def)
    show "\<not> same_slot ?pt fd p (pte_fd_cur (pte_of ?pt m')) (pte_fpage_id_cur (pte_of ?pt m'))"
      using * w same_slot_word frame_id(5) [OF wf pool_coreD(10) [OF c that]] by (metis option.inject)
    show "m' \<noteq> m" using that m(3) by auto
  qed
  have fr: "frames pt' = frames ?pt" "pte_of pt' m' = (if m' = m then loaded_pte fd p else pte_of ?pt m')" for m'
    using m(1) by (simp_all add: pt'_def pt_simps)
  have S: "held pt' m'" "frame_ok d pt' mem' m'" if "m' \<in> S" for m'
  proof -
    show "held pt' m'"
      using pool_coreD(8) [OF c that] other [OF that] m(1) w
      by (auto simp: held_def pt'_def pt_simps same_slot_def)
    show "frame_ok d pt' mem' m'"
      using pool_coreD(9) [OF c that] other(3) [OF that] fr(2) [of m'] frame_ok_pt [of pt' m' ?pt]
      by (simp add: mem'_def)
  qed
  have M: "held pt' m" "frame_ok d pt' mem' m"
    using m(1) w fd i pool_coreD(2) [OF c]
    by (simp_all add: held_def frame_ok_def pt'_def mem'_def pt_simps loaded_pte_fields Let_def)
  have un: "unnamed pt' m'" if "m' < frames ?pt" "m' \<noteq> m" "unnamed ?pt m'" for m'
    unfolding pt'_def using that w id(1) frame_id(1) [OF wf that(1)]
    by (intro unnamed_set_word [of _ _ _ "mword BUSY_VALUE"]) (simp_all add: pt_simps mword_inject)
  have mem: "\<forall>b\<in>set mem'. length b = PAGE_SIZE_FILE"
    using c m(1) by (auto simp: mem'_def pool_core_def dest!: set_update_subset_insert [THEN subsetD])
  have lt: "m' < frames ?pt" if "m' \<in> set free \<union> T" for m' using c that by (auto simp: pool_core_def)
  have parts: "insert m S \<union> set free \<union> T = {..<frames ?pt}" "S \<inter> set free = {}" "S \<inter> T = {}" "T \<inter> set free = {}"
    using c by (auto simp: pool_core_def)
  have "pool_core rinv rcap qrep k ?bp' d (insert m S) free T"
    unfolding pool_core_def
  proof (intro conjI ballI)
    fix m' assume a: "m' \<in> set free"
    then have "unnamed ?pt m'" "\<not> pinned ?pt m'" "m' \<noteq> m" using c m(4) by (auto simp: pool_core_def)
    then show "unnamed (bp_page_table ?bp') m'" "\<not> pinned (bp_page_table ?bp') m'"
      using un lt a fr(2) by (auto simp: pinned_def)
  next
    fix m' assume a: "m' \<in> T"
    then have "unnamed ?pt m'" "m' \<noteq> m" using c mT by (auto simp: pool_core_def)
    then show "unnamed (bp_page_table ?bp') m'" using un lt a by auto
  qed (use c wf' mem r' m mT S M fr parts in \<open>auto simp: pool_core_def mem'_def\<close>)
  then show thesis using run by (intro that [of ?bp']) auto
qed

text \<open>Pinning a page in memory changes its entry and the order of the policy.\<close>

lemma Pin_core:
  assumes c: "pool_core rinv rcap qrep k bp d S free T" and r: "resident (bp_page_table bp) fd p = Some m"
    and p: "GetPartitionId (pt_partitioner (bp_page_table bp)) p = k"
    and rc: "pte_ref_count (pte_of (bp_page_table bp) m) < 65535"
  obtains r' where "Pin ops bp p fd = Inr (Some m, bp\<lparr>bp_page_table := put_pte (bp_page_table bp) m
      (pte_of (bp_page_table bp) m + 1), bp_replacer := r'\<rparr>)"
    "pool_core rinv rcap qrep k (bp\<lparr>bp_page_table := put_pte (bp_page_table bp) m
      (pte_of (bp_page_table bp) m + 1), bp_replacer := r'\<rparr>) d S free T"
    "same_page (pte_of (bp_page_table bp) m + 1) (pte_of (bp_page_table bp) m)"
proof -
  let ?pt = "bp_page_table bp" and ?w = "pte_of (bp_page_table bp) m"
  let ?bp = "bp\<lparr>bp_page_table := put_pte ?pt m (?w + 1)\<rparr>"
  note wf = pool_coreD(1) [OF c]
  note b = resident_backed [OF wf r p]
  have lt: "m < frames ?pt" and w: "pt_word ?pt fd p = Some (mword m)"
    using r by (simp_all add: resident_eq [OF wf])
  note mS = resident_managed [OF c r]
  have sp: "same_page (?w + 1) ?w" using rc by (simp add: same_page_def pt_simps)
  have core: "pool_core rinv rcap qrep k ?bp d S free T"
    using rc by (intro pool_core_put_pte(1) [OF c mS sp]) (simp add: pt_simps)
  obtain r' where r': "op_Promote ops (bp_replacer bp) m = Inr (True, r')" "rinv r' S" "rcap r' = rcap (bp_replacer bp)"
    using Promote_law [OF pool_coreD(4) [OF c] mS] by blast
  let ?bp' = "?bp\<lparr>bp_replacer := r'\<rparr>"
  have "FindMapping ?pt fd p = Inr (True, m)"
    using w frame_id [OF wf lt] by (simp add: pt_simps FindMapping_word_def)
  moreover have "IncRefCount1 p fd ?w = (True, ?w + 1)" using b by (simp add: IncRefCount1_def)
  ultimately have "Pin ops bp p fd = Inr (Some m, ?bp')"
    using lt r' by (simp add: Pin_def pt_simps Let_def)
  moreover have "pool_core rinv rcap qrep k ?bp' d S free T" using core r' by (simp add: pool_core_def)
  ultimately show thesis using sp by (intro that) auto
qed

end

text \<open>Locking a mapping whose page is in memory either fails or is undone.\<close>

lemma Lock_resident:
  assumes wf: "pt_wf k pt" and r: "resident pt fd p = Some m" and p: "GetPartitionId (pt_partitioner pt) p = k"
  shows "(if pinned pt m then LockMapping pt fd p = Inr ((False, 0), pt)
    else LockMapping pt fd p = Inr ((True, m), lock_frame pt m) \<and> UnLockMapping (lock_frame pt m) fd p m = Inr (True, pt))"
    "m \<noteq> EMPTY_VALUE" "m \<noteq> BUSY_VALUE"
proof -
  note b = resident_backed [OF wf r p] and fr = pt_wfD(2) [OF wf]
  have w: "m < frames pt" "pt_word pt fd p = Some (mword m)" using r by (simp_all add: resident_eq [OF wf])
  note id = frame_id [OF wf w(1)]
  show "m \<noteq> EMPTY_VALUE" "m \<noteq> BUSY_VALUE" using id by simp_all
  have lf: "lock_frame pt m = put_pte (set_word pt fd p (mword BUSY_VALUE)) m (set_busy True (pte_of pt m))"
    using b by (simp add: lock_frame_def Let_def)
  have lock: "LockMapping pt fd p =
      (if pinned pt m then Inr ((False, 0), pt) else Inr ((True, m), lock_frame pt m))"
    using LockMapping_resident [OF w(2,1) fr] b(1,5) lf
    by (auto simp: lockable_def pinned_def backed_def Let_def)
  have "UnLockMapping (lock_frame pt m) fd p m = Inr (True, pt)" if np: "\<not> pinned pt m"
  proof -
    have rc: "set_ref_count 0 (pte_of pt m) = pte_of pt m" using np by (simp add: set_fields_same pinned_def)
    have "UnLockMapping (lock_frame pt m) fd p m =
        Inr (True, put_pte (set_word (lock_frame pt m) fd p (mword m)) m (set_ref_count 0 (pte_of pt m)))"
      using w fr b(3,5) by (intro UnLockMapping_locked) (simp_all add: lf pt_simps)
    then show ?thesis unfolding rc using w by (simp add: lf pt_simps)
  qed
  then show "(if pinned pt m then LockMapping pt fd p = Inr ((False, 0), pt)
    else LockMapping pt fd p = Inr ((True, m), lock_frame pt m) \<and> UnLockMapping (lock_frame pt m) fd p m = Inr (True, pt))"
    using lock by simp
qed

section \<open>The invariant\<close>

text \<open>The frames a thread has in transit, those it has pinned, and the pages whose mappings it has locked.\<close>

definition moving :: "fetcher \<Rightarrow> mpage_id list" where
  "moving t = (if ft_stat t \<in> {Evicting, Loading} then (case ft_ret t of None \<Rightarrow> [] | Some m \<Rightarrow> [m]) else [])"

definition pins_held :: "fetcher \<Rightarrow> mpage_id list" where
  "pins_held t = (if ft_stat t = End then (case ft_ret t of None \<Rightarrow> [] | Some m \<Rightarrow> [m]) else [])"

definition victim_page :: "page_table \<Rightarrow> mpage_id \<Rightarrow> file_handle \<times> fpage_id" where
  "victim_page pt m = (pte_fd_cur (pte_of pt m), pte_fpage_id_cur (pte_of pt m))"

definition victims :: "page_table \<Rightarrow> fetcher \<Rightarrow> (file_handle \<times> fpage_id) list" where
  "victims pt t = (if ft_stat t = Evicting then map (victim_page pt) (moving t) else [])"

definition locks :: "page_table \<Rightarrow> fetcher \<Rightarrow> (file_handle \<times> fpage_id) list" where
  "locks pt t = (if ft_stat t \<in> {Initing, Evicting, Loading} then [(ft_fd t, ft_page t)] else []) @ victims pt t"

abbreviation gather :: "(fetcher \<Rightarrow> 'a list) \<Rightarrow> fetcher list \<Rightarrow> 'a list" where
  "gather f ts \<equiv> concat (map f ts)"

definition request_ok :: "partition_id \<Rightarrow> ('r, 'q) buffer_pool \<Rightarrow> disk \<Rightarrow> file_handle \<Rightarrow> fpage_id \<Rightarrow> bool" where
  "request_ok k bp d fd p \<longleftrightarrow> in_file d fd p \<and> fd < 8192 \<and> GetPartitionId (pt_partitioner (bp_page_table bp)) p = k \<and>
     pt_word (bp_page_table bp) fd p \<noteq> None"

text \<open>\<open>B\<close> is what each page contains; a victim's page is in the frame until it has been written back.\<close>

definition thread_ok :: "partition_id \<Rightarrow> (file_handle \<Rightarrow> fpage_id \<Rightarrow> byte list) \<Rightarrow> ('r, 'q) buffer_pool \<Rightarrow> disk \<Rightarrow> fetcher \<Rightarrow> bool" where
  "thread_ok k B bp d t \<longleftrightarrow>
     (ft_stat t = End \<and> ft_ret t = None \<or> request_ok k bp d (ft_fd t) (ft_page t)) \<and>
     (case ft_stat t of
        Begin \<Rightarrow> ft_ret t = None
      | Initing \<Rightarrow> ft_ret t = None
      | Evicting \<Rightarrow> (\<exists>m fd q. ft_ret t = Some m \<and> victim_page (bp_page_table bp) m = (fd, q) \<and>
          frame_ok d (bp_page_table bp) (bp_memory_pool bp) m \<and> GetPartitionId (pt_partitioner (bp_page_table bp)) q = k \<and>
          visible (file_of d fd) q (bp_memory_pool bp ! m) = B fd q)
      | Loading \<Rightarrow> ft_ret t \<noteq> None
      | End \<Rightarrow> (\<forall>m. ft_ret t = Some m \<longrightarrow> resident (bp_page_table bp) (ft_fd t) (ft_page t) = Some m)
      | _ \<Rightarrow> False)"

text \<open>A slot of the table that belongs to a page of the partition; only such slots are ever locked.\<close>

definition shared_slot :: "partition_id \<Rightarrow> page_table \<Rightarrow> file_handle \<Rightarrow> fpage_id \<Rightarrow> bool" where
  "shared_slot k pt fd p \<longleftrightarrow> (\<exists>q. GetPartitionId (pt_partitioner pt) q = k \<and> same_slot pt fd q fd p)"

lemma shared_slot_self: "GetPartitionId (pt_partitioner pt) p = k \<Longrightarrow> shared_slot k pt fd p"
  by (auto simp: shared_slot_def)

lemma shared_slot_cong: "pt_partitioner pt' = pt_partitioner pt \<Longrightarrow> shared_slot k pt' = shared_slot k pt"
  by (simp add: shared_slot_def same_slot_def fun_eq_iff)

lemma shared_slot_set:
  assumes "pt_word pt fd0 p0 = Some w0" "GetPartitionId (pt_partitioner pt) p0 = k" "pt_word (set_word pt fd0 p0 w) fd p = Some v"
  shows "pt_word pt fd p = Some v \<or> shared_slot k pt fd p"
  using assms by (auto simp: pt_word_set_word [OF assms(1)] shared_slot_def same_slot_def split: if_splits)

definition sys_inv where
  "sys_inv rinv rcap qrep k B S free bp d ths \<longleftrightarrow>
     pool_core rinv rcap qrep k bp d S free (set (gather moving ths)) \<and> distinct (gather moving ths) \<and>
     distinct (gather (locks (bp_page_table bp)) ths) \<and>
     (\<forall>fd p. GetPartitionId (pt_partitioner (bp_page_table bp)) p = k \<longrightarrow>
        (pt_word (bp_page_table bp) fd p = Some (mword BUSY_VALUE) \<longleftrightarrow> (fd, p) \<in> set (gather (locks (bp_page_table bp)) ths))) \<and>
     (\<forall>fd p. pt_word (bp_page_table bp) fd p = Some (mword BUSY_VALUE) \<longrightarrow> shared_slot k (bp_page_table bp) fd p) \<and>
     (\<forall>t\<in>set ths. thread_ok k B bp d t) \<and>
     (\<forall>m\<in>S. unat (pte_ref_count (pte_of (bp_page_table bp) m)) = count_list (gather pins_held ths) m) \<and>
     (\<forall>fd p. opened d fd \<longrightarrow> GetPartitionId (pt_partitioner (bp_page_table bp)) p = k \<longrightarrow>
        (fd, p) \<notin> set (gather (victims (bp_page_table bp)) ths) \<longrightarrow> page_bytes bp d fd p = B fd p)"

lemma sys_inv_focus: "sys_inv rinv rcap qrep k B S free bp d (xs @ t # ys) = sys_inv rinv rcap qrep k B S free bp d (t # xs @ ys)"
proof -
  have s: "set (gather f (xs @ t # ys)) = set (gather f (t # xs @ ys))" for f :: "fetcher \<Rightarrow> 'x list" by auto
  have d: "distinct (gather f (xs @ t # ys)) = distinct (gather f (t # xs @ ys))" for f :: "fetcher \<Rightarrow> 'x list" by auto
  have c: "count_list (gather pins_held (xs @ t # ys)) m = count_list (gather pins_held (t # xs @ ys)) m" for m by simp
  have t: "set (xs @ t # ys) = set (t # xs @ ys)" by auto
  show ?thesis unfolding sys_inv_def s d c t ..
qed

text \<open>What every step keeps of the pool and the disk.\<close>

definition kept :: "partition_id \<Rightarrow> ('r, 'q) buffer_pool \<Rightarrow> disk \<Rightarrow> ('r, 'q) buffer_pool \<Rightarrow> disk \<Rightarrow> bool" where
  "kept k bp d bp' d' \<longleftrightarrow> frames (bp_page_table bp') = frames (bp_page_table bp) \<and>
     pt_partitioner (bp_page_table bp') = pt_partitioner (bp_page_table bp) \<and>
     (\<forall>fd p. pt_word (bp_page_table bp') fd p = None \<longleftrightarrow> pt_word (bp_page_table bp) fd p = None) \<and>
     disk_step (pt_partitioner (bp_page_table bp)) k d d'"

lemma kept_trans: "kept k bp d bp1 d1 \<Longrightarrow> kept k bp1 d1 bp2 d2 \<Longrightarrow> kept k bp d bp2 d2"
  unfolding kept_def using disk_step_trans by metis

lemma kept_refl: "disk_wf d \<Longrightarrow> kept k bp d bp d"
  by (simp add: kept_def)

lemma kept_request: "kept k bp d bp' d' \<Longrightarrow> request_ok k bp' d' fd p = request_ok k bp d fd p"
  using disk_step_in_file by (auto simp: kept_def request_ok_def)

lemma kept_visible: "kept k bp d bp' d' \<Longrightarrow> opened d fd \<Longrightarrow> visible (file_of d' fd) = visible (file_of d fd)"
  by (simp add: kept_def disk_step_def visible_def fun_eq_iff)

text \<open>The state of the other threads after a step.\<close>

lemma thread_ok_kept:
  assumes u: "thread_ok k B bp d u" and s: "kept k bp d bp' d'"
    and moving: "\<And>m. m \<in> set (moving u) \<Longrightarrow> pte_of (bp_page_table bp') m = pte_of (bp_page_table bp) m \<and>
        bp_memory_pool bp' ! m = bp_memory_pool bp ! m"
    and disk: "\<And>fd q. (fd, q) \<in> set (victims (bp_page_table bp) u) \<Longrightarrow> opened d fd \<Longrightarrow>
        page_at (file_of d' fd) (unat q) = page_at (file_of d fd) (unat q)"
    and pins: "\<And>m. m \<in> set (pins_held u) \<Longrightarrow> resident (bp_page_table bp') (ft_fd u) (ft_page u) = Some m"
    and agree: "\<And>fd q. (fd, q) \<in> set (victims (bp_page_table bp) u) \<Longrightarrow> B' fd q = B fd q"
  shows "thread_ok k B' bp' d' u" "victims (bp_page_table bp') u = victims (bp_page_table bp) u"
    "locks (bp_page_table bp') u = locks (bp_page_table bp) u"
proof -
  show v: "victims (bp_page_table bp') u = victims (bp_page_table bp) u"
    using moving by (auto simp: victims_def victim_page_def)
  then show "locks (bp_page_table bp') u = locks (bp_page_table bp) u" by (simp add: locks_def)
  show "thread_ok k B' bp' d' u"
  proof (cases "ft_stat u")
    case Evicting
    then obtain m fd q where m: "ft_ret u = Some m" "victim_page (bp_page_table bp) m = (fd, q)"
      "frame_ok d (bp_page_table bp) (bp_memory_pool bp) m" "GetPartitionId (pt_partitioner (bp_page_table bp)) q = k"
      "visible (file_of d fd) q (bp_memory_pool bp ! m) = B fd q"
      using u by (auto simp: thread_ok_def)
    have i: "in_file d fd q" using m(2,3) by (simp add: frame_ok_def victim_page_def Let_def)
    have ds: "disk_step (pt_partitioner (bp_page_table bp)) k d d'" using s by (simp add: kept_def)
    have e: "pte_of (bp_page_table bp') m = pte_of (bp_page_table bp) m" "bp_memory_pool bp' ! m = bp_memory_pool bp ! m"
      using moving [of m] m(1) Evicting by (simp_all add: moving_def)
    have vq: "(fd, q) \<in> set (victims (bp_page_table bp) u)" using m(1,2) Evicting by (simp add: victims_def moving_def)
    then have "page_at (file_of d' fd) (unat q) = page_at (file_of d fd) (unat q)" using disk i by (simp add: in_file_def)
    then have "frame_ok d' (bp_page_table bp) (bp_memory_pool bp) m"
      using frame_ok_step [OF m(3) ds] m(2) by (simp add: victim_page_def)
    then have "frame_ok d' (bp_page_table bp') (bp_memory_pool bp') m" using frame_ok_pt [OF e] by simp
    moreover have "victim_page (bp_page_table bp') m = (fd, q)" using m(2) e(1) by (simp add: victim_page_def)
    moreover have "visible (file_of d' fd) q (bp_memory_pool bp' ! m) = B' fd q"
      using m(5) e(2) agree [OF vq] kept_visible [OF s] i by (simp add: in_file_def)
    moreover have "GetPartitionId (pt_partitioner (bp_page_table bp')) q = k" using m(4) s by (simp add: kept_def)
    moreover have "request_ok k bp' d' (ft_fd u) (ft_page u)" using u kept_request [OF s] Evicting by (simp add: thread_ok_def)
    ultimately show ?thesis using Evicting m(1) by (simp add: thread_ok_def)
  next
    case End
    then show ?thesis
      using u kept_request [OF s] pins by (auto simp: thread_ok_def pins_held_def)
  qed (use u kept_request [OF s] in \<open>auto simp: thread_ok_def\<close>)
qed

text \<open>One thread moves from \<open>t\<close> to \<open>t'\<close>; the others stay where they are.\<close>

lemma sys_inv_step:
  assumes inv: "sys_inv rinv rcap qrep k B S free bp d (t # rest)"
    and core: "pool_core rinv rcap qrep k bp' d' S' free' (set (moving t') \<union> set (gather moving rest))"
    and s: "kept k bp d bp' d'"
    and moving: "\<And>m. m \<in> set (gather moving rest) \<Longrightarrow> pte_of (bp_page_table bp') m = pte_of (bp_page_table bp) m \<and>
        bp_memory_pool bp' ! m = bp_memory_pool bp ! m"
    and disk: "\<And>fd q. (fd, q) \<in> set (gather (victims (bp_page_table bp)) rest) \<Longrightarrow> opened d fd \<Longrightarrow>
        page_at (file_of d' fd) (unat q) = page_at (file_of d fd) (unat q)"
    and agree: "\<And>fd q. (fd, q) \<in> set (gather (victims (bp_page_table bp)) rest) \<Longrightarrow> B' fd q = B fd q"
    and pins: "\<And>u m. u \<in> set rest \<Longrightarrow> m \<in> set (pins_held u) \<Longrightarrow> resident (bp_page_table bp) (ft_fd u) (ft_page u) = Some m \<Longrightarrow>
        resident (bp_page_table bp') (ft_fd u) (ft_page u) = Some m"
    and words: "\<And>fd p. GetPartitionId (pt_partitioner (bp_page_table bp)) p = k \<Longrightarrow>
        pt_word (bp_page_table bp') fd p = Some (mword BUSY_VALUE) \<longleftrightarrow>
        (fd, p) \<in> set (locks (bp_page_table bp') t') \<union> set (gather (locks (bp_page_table bp)) rest)"
    and slots: "\<And>fd p. pt_word (bp_page_table bp') fd p = Some (mword BUSY_VALUE) \<Longrightarrow>
        pt_word (bp_page_table bp) fd p = Some (mword BUSY_VALUE) \<or> shared_slot k (bp_page_table bp) fd p"
    and dist: "distinct (moving t')" "set (moving t') \<inter> set (gather moving rest) = {}"
      "distinct (locks (bp_page_table bp') t')"
      "set (locks (bp_page_table bp') t') \<inter> set (gather (locks (bp_page_table bp)) rest) = {}"
    and t': "thread_ok k B' bp' d' t'"
    and refs: "\<And>m. m \<in> S' \<Longrightarrow> unat (pte_ref_count (pte_of (bp_page_table bp') m)) =
        count_list (pins_held t') m + count_list (gather pins_held rest) m"
    and bytes: "\<And>fd p. opened d fd \<Longrightarrow> GetPartitionId (pt_partitioner (bp_page_table bp)) p = k \<Longrightarrow>
        (fd, p) \<notin> set (victims (bp_page_table bp') t') \<union> set (gather (victims (bp_page_table bp)) rest) \<Longrightarrow>
        page_bytes bp' d' fd p = B' fd p"
  shows "sys_inv rinv rcap qrep k B' S' free' bp' d' (t' # rest)"
proof -
  let ?pt = "bp_page_table bp" and ?pt' = "bp_page_table bp'"
  have ok: "thread_ok k B' bp' d' u" "victims ?pt' u = victims ?pt u" "locks ?pt' u = locks ?pt u" if u: "u \<in> set rest" for u
  proof -
    have i: "thread_ok k B bp d u" using inv u by (simp add: sys_inv_def)
    have r: "resident ?pt (ft_fd u) (ft_page u) = Some m" if "m \<in> set (pins_held u)" for m
      using i that by (cases "ft_stat u = End"; cases "ft_ret u") (auto simp: thread_ok_def pins_held_def)
    have sub: "m \<in> set (moving u) \<Longrightarrow> m \<in> set (gather moving rest)"
      "x \<in> set (victims ?pt u) \<Longrightarrow> x \<in> set (gather (victims ?pt) rest)" for m x using u by auto
    have *: "\<And>m. m \<in> set (moving u) \<Longrightarrow> pte_of ?pt' m = pte_of ?pt m \<and> bp_memory_pool bp' ! m = bp_memory_pool bp ! m"
      "\<And>fd q. (fd, q) \<in> set (victims ?pt u) \<Longrightarrow> opened d fd \<Longrightarrow> page_at (file_of d' fd) (unat q) = page_at (file_of d fd) (unat q)"
      "\<And>m. m \<in> set (pins_held u) \<Longrightarrow> resident ?pt' (ft_fd u) (ft_page u) = Some m"
      "\<And>fd q. (fd, q) \<in> set (victims ?pt u) \<Longrightarrow> B' fd q = B fd q"
      using moving [OF sub(1)] disk [OF sub(2)] pins [OF u _ r] agree [OF sub(2)] by blast+
    show "thread_ok k B' bp' d' u" "victims ?pt' u = victims ?pt u" "locks ?pt' u = locks ?pt u"
      using thread_ok_kept [OF i s *] by simp_all
  qed
  have g: "gather (victims ?pt') rest = gather (victims ?pt) rest" "gather (locks ?pt') rest = gather (locks ?pt) rest"
    using ok(2,3) by (auto intro!: arg_cong [of _ _ concat] map_cong)
  have d: "distinct (gather moving rest)" "distinct (gather (locks ?pt) rest)" using inv by (simp_all add: sys_inv_def)
  have o: "pt_partitioner ?pt' = pt_partitioner ?pt" "opened d' fd = opened d fd" for fd
    using s by (simp_all add: kept_def disk_step_def)
  show ?thesis
    unfolding sys_inv_def
  proof (intro conjI allI impI)
    show "pool_core rinv rcap qrep k bp' d' S' free' (set (gather moving (t' # rest)))" using core by simp
    show "distinct (gather moving (t' # rest))" using d(1) dist(1,2) by simp
    show "distinct (gather (locks ?pt') (t' # rest))" using d(2) dist(3,4) g(2) by simp
    show "\<forall>u\<in>set (t' # rest). thread_ok k B' bp' d' u" using ok(1) t' by simp
    show "shared_slot k ?pt' fd p" if "pt_word ?pt' fd p = Some (mword BUSY_VALUE)" for fd p
      using slots [OF that] inv shared_slot_cong [OF o(1), of k] by (auto simp: sys_inv_def)
    show "\<forall>m\<in>S'. unat (pte_ref_count (pte_of ?pt' m)) = count_list (gather pins_held (t' # rest)) m" using refs by simp
  next
    fix fd p assume "GetPartitionId (pt_partitioner ?pt') p = k"
    then show "pt_word ?pt' fd p = Some (mword BUSY_VALUE) \<longleftrightarrow> (fd, p) \<in> set (gather (locks ?pt') (t' # rest))"
      using words [of p fd] o(1) g(2) by simp
  next
    fix fd p assume "opened d' fd" "GetPartitionId (pt_partitioner ?pt') p = k" "(fd, p) \<notin> set (gather (victims ?pt') (t' # rest))"
    then show "page_bytes bp' d' fd p = B' fd p" using bytes o g(1) by simp
  qed
qed

section \<open>Single steps\<close>

lemma slot_of_partition:
  assumes wf: "pt_wf k pt" and w: "pt_word pt fd p = Some w0"
    and p: "GetPartitionId (pt_partitioner pt) p = k" and q: "GetPartitionId (pt_partitioner pt) q = k"
  shows "pt_word (set_word pt fd p w) fd' q = (if (fd', q) = (fd, p) then Some w else pt_word pt fd' q)"
    "resident (set_word pt fd p w) fd' q = (if (fd', q) = (fd, p)
       then (if fst (FindMapping_word w) then Some (snd (FindMapping_word w)) else None) else resident pt fd' q)"
proof -
  have "same_slot pt fd p fd' q \<longleftrightarrow> (fd', q) = (fd, p)"
    using partition_unique [OF pt_wfD(1) [OF wf], of p q] p q by (auto simp: same_slot_def)
  then show "pt_word (set_word pt fd p w) fd' q = (if (fd', q) = (fd, p) then Some w else pt_word pt fd' q)"
    "resident (set_word pt fd p w) fd' q = (if (fd', q) = (fd, p)
       then (if fst (FindMapping_word w) then Some (snd (FindMapping_word w)) else None) else resident pt fd' q)"
    using pt_word_set_word [OF w] resident_set_word [OF w] by (simp_all del: prod.inject)
qed

lemma sys_invD:
  assumes "sys_inv rinv rcap qrep k B S free bp d (t # rest)"
  shows "pool_core rinv rcap qrep k bp d S free (set (moving t) \<union> set (gather moving rest))"
    "distinct (moving t)" "set (moving t) \<inter> set (gather moving rest) = {}"
    "distinct (locks (bp_page_table bp) t)" "set (locks (bp_page_table bp) t) \<inter> set (gather (locks (bp_page_table bp)) rest) = {}"
    "\<And>fd p. GetPartitionId (pt_partitioner (bp_page_table bp)) p = k \<Longrightarrow>
      pt_word (bp_page_table bp) fd p = Some (mword BUSY_VALUE) \<longleftrightarrow>
      (fd, p) \<in> set (locks (bp_page_table bp) t) \<union> set (gather (locks (bp_page_table bp)) rest)"
    "thread_ok k B bp d t" "\<And>u. u \<in> set rest \<Longrightarrow> thread_ok k B bp d u"
    "\<And>m. m \<in> S \<Longrightarrow> unat (pte_ref_count (pte_of (bp_page_table bp) m)) =
      count_list (pins_held t) m + count_list (gather pins_held rest) m"
    "\<And>fd p. opened d fd \<Longrightarrow> GetPartitionId (pt_partitioner (bp_page_table bp)) p = k \<Longrightarrow>
      (fd, p) \<notin> set (victims (bp_page_table bp) t) \<union> set (gather (victims (bp_page_table bp)) rest) \<Longrightarrow> page_bytes bp d fd p = B fd p"
  using assms by (simp_all add: sys_inv_def)

lemma victims_locks: "set (victims pt t) \<subseteq> set (locks pt t)" "set (gather (victims pt) ts) \<subseteq> set (gather (locks pt) ts)"
  by (auto simp: locks_def)

text \<open>The page that a thread has pinned is in memory, in its frame; a locked page is not.\<close>

lemma pinned_resident:
  assumes "sys_inv rinv rcap qrep k B S free bp d ts" "u \<in> set ts" "m \<in> set (pins_held u)"
  shows "resident (bp_page_table bp) (ft_fd u) (ft_page u) = Some m" "m \<in> S"
    "GetPartitionId (pt_partitioner (bp_page_table bp)) (ft_page u) = k"
proof -
  have "thread_ok k B bp d u" using assms(1,2) by (simp add: sys_inv_def)
  then have "resident (bp_page_table bp) (ft_fd u) (ft_page u) = Some m \<and>
      GetPartitionId (pt_partitioner (bp_page_table bp)) (ft_page u) = k"
    using assms(3) by (cases "ft_stat u = End"; cases "ft_ret u") (auto simp: thread_ok_def pins_held_def request_ok_def)
  then show r: "resident (bp_page_table bp) (ft_fd u) (ft_page u) = Some m"
    and "GetPartitionId (pt_partitioner (bp_page_table bp)) (ft_page u) = k" by simp_all
  show "m \<in> S" using resident_managed [OF _ r] assms(1) by (auto simp: sys_inv_def)
qed

lemma lock_partition:
  assumes "sys_inv rinv rcap qrep k B S free bp d ts" "(fd, p) \<in> set (gather (locks (bp_page_table bp)) ts)"
  shows "GetPartitionId (pt_partitioner (bp_page_table bp)) p = k" "pt_word (bp_page_table bp) fd p = Some (mword BUSY_VALUE)"
    "resident (bp_page_table bp) fd p = None"
proof -
  obtain u where u: "u \<in> set ts" "(fd, p) \<in> set (locks (bp_page_table bp) u)" using assms(2) by auto
  have "thread_ok k B bp d u" using assms(1) u(1) by (simp add: sys_inv_def)
  then show p: "GetPartitionId (pt_partitioner (bp_page_table bp)) p = k"
    using u(2) by (cases "ft_stat u") (auto simp: thread_ok_def locks_def victims_def moving_def request_ok_def)
  then show w: "pt_word (bp_page_table bp) fd p = Some (mword BUSY_VALUE)" using assms by (simp add: sys_inv_def)
  then show "resident (bp_page_table bp) fd p = None" by (simp add: resident_def)
qed

lemma lock_opened:
  assumes "sys_inv rinv rcap qrep k B S free bp d ts" "(fd, p) \<in> set (gather (victims (bp_page_table bp)) ts)"
  shows "in_file d fd p"
proof -
  obtain u where u: "u \<in> set ts" "(fd, p) \<in> set (victims (bp_page_table bp) u)" using assms(2) by auto
  have "thread_ok k B bp d u" using assms(1) u(1) by (simp add: sys_inv_def)
  then show ?thesis
    using u(2) by (cases "ft_stat u") (auto simp: thread_ok_def victims_def moving_def frame_ok_def victim_page_def Let_def)
qed

lemma count_gather: "count_list (gather pins_held ts) m \<le> length ts"
proof (induction ts)
  case (Cons t ts)
  moreover have "length (pins_held t) \<le> 1" by (cases "ft_ret t") (auto simp: pins_held_def)
  then have "count_list (pins_held t) m \<le> 1" using count_le_length [of "pins_held t" m] by linarith
  ultimately show ?case by simp
qed simp

lemma empty_busy: "mword EMPTY_VALUE \<noteq> mword BUSY_VALUE"
  by (simp add: mword_inject EMPTY_VALUE_def BUSY_VALUE_def)

lemma ref_overflow: "unat (pte_ref_count w) < 65535 \<Longrightarrow> pte_ref_count w < 65535"
  by (simp add: word_less_nat_alt)

context replacer
begin

lemma sys_hit:
  assumes inv: "sys_inv rinv rcap qrep k B S free bp d (t # rest)" and t: "moving t = []" "locks (bp_page_table bp) t = []" "pins_held t = []"
    and q: "request_ok k bp d fd p" and r: "resident (bp_page_table bp) fd p = Some m" and n: "length rest < 65535"
  obtains bp' where "Pin ops bp p fd = Inr (Some m, bp')" "kept k bp d bp' d"
    "sys_inv rinv rcap qrep k B S free bp' d (\<lparr>ft_fd = fd, ft_page = p, ft_stat = End, ft_ret = Some m\<rparr> # rest)"
proof -
  let ?pt = "bp_page_table bp" and ?w = "pte_of (bp_page_table bp) m"
  let ?t = "\<lparr>ft_fd = fd, ft_page = p, ft_stat = End, ft_ret = Some m\<rparr>"
  note D = sys_invD [OF inv]
  have p: "GetPartitionId (pt_partitioner ?pt) p = k" using q by (simp add: request_ok_def)
  note mS = resident_managed [OF D(1) r] and lt = pool_coreD(10) [OF D(1) resident_managed [OF D(1) r]]
  have cnt: "unat (pte_ref_count ?w) = count_list (gather pins_held rest) m" using D(9) [OF mS] t(3) by simp
  then have rc: "pte_ref_count ?w < 65535" using count_gather [of rest m] n by (intro ref_overflow) linarith
  obtain r' where P: "Pin ops bp p fd = Inr (Some m, bp\<lparr>bp_page_table := put_pte ?pt m (?w + 1), bp_replacer := r'\<rparr>)"
    "pool_core rinv rcap qrep k (bp\<lparr>bp_page_table := put_pte ?pt m (?w + 1), bp_replacer := r'\<rparr>) d S free
      (set (moving t) \<union> set (gather moving rest))" "same_page (?w + 1) ?w"
    by (rule Pin_core [OF D(1) r p rc])
  let ?bp = "bp\<lparr>bp_page_table := put_pte ?pt m (?w + 1), bp_replacer := r'\<rparr>"
  have res: "resident (put_pte ?pt m (?w + 1)) fd' p' = resident ?pt fd' p'" for fd' p'
    by (rule put_same_page(4) [OF P(3) lt])
  have k: "kept k bp d ?bp d" using lt pool_coreD(11) [OF D(1)] by (simp add: kept_def pt_simps)
  have v: "victims ?pt t = []" using t(2) by (simp add: locks_def)
  have t': "moving ?t = []" "pins_held ?t = [m]" "locks (bp_page_table ?bp) ?t = []" "victims (bp_page_table ?bp) ?t = []"
    by (simp_all add: moving_def pins_held_def locks_def victims_def)
  have mT: "m \<notin> set (gather moving rest)" using D(1) mS by (auto simp: pool_core_def)
  have "sys_inv rinv rcap qrep k B S free ?bp d (?t # rest)"
  proof (rule sys_inv_step [OF inv _ k])
    show "pool_core rinv rcap qrep k ?bp d S free (set (moving ?t) \<union> set (gather moving rest))"
      using P(2) t(1) t'(1) by simp
    show "pte_of (bp_page_table ?bp) m' = pte_of ?pt m' \<and> bp_memory_pool ?bp ! m' = bp_memory_pool bp ! m'"
      if "m' \<in> set (gather moving rest)" for m'
      using that mT lt by (auto simp: pt_simps)
    show "thread_ok k B ?bp d ?t" using q r res kept_request [OF k] by (simp add: thread_ok_def)
    show "unat (pte_ref_count (pte_of (bp_page_table ?bp) m')) = count_list (pins_held ?t) m' + count_list (gather pins_held rest) m'"
      if "m' \<in> S" for m'
    proof (cases "m' = m")
      case True
      have "pte_ref_count (?w + 1) = pte_ref_count ?w + 1" using rc by (simp add: pt_simps)
      moreover have "unat (pte_ref_count ?w + 1) = unat (pte_ref_count ?w) + 1"
        using rc by (simp add: word_less_nat_alt unat_word_ariths)
      ultimately show ?thesis using cnt t'(2) lt True by (simp add: pt_simps)
    next
      case False
      then show ?thesis using D(9) [OF that] t(3) t'(2) lt by (simp add: pt_simps)
    qed
    show "page_bytes ?bp d fd' q = B fd' q"
      if "opened d fd'" "GetPartitionId (pt_partitioner ?pt) q = k"
        "(fd', q) \<notin> set (victims (bp_page_table ?bp) ?t) \<union> set (gather (victims ?pt) rest)" for fd' q
      using D(10) [OF that(1,2)] that(3) v t'(4) res page_bytes_eq [of ?bp fd' q bp d] by simp
  qed (use D(6) t(2) t' res in \<open>simp_all add: pt_simps\<close>)
  then show thesis using P(1) k that by blast
qed

end

lemma sys_lock:
  assumes inv: "sys_inv rinv rcap qrep k B S free bp d (t # rest)" and t: "ft_stat t = Begin"
    and w: "pt_word (bp_page_table bp) (ft_fd t) (ft_page t) = Some (mword EMPTY_VALUE)"
  defines "bp' \<equiv> bp\<lparr>bp_page_table := set_word (bp_page_table bp) (ft_fd t) (ft_page t) (mword BUSY_VALUE)\<rparr>"
  shows "kept k bp d bp' d" "sys_inv rinv rcap qrep k B S free bp' d (t\<lparr>ft_stat := Initing\<rparr> # rest)"
proof -
  let ?pt = "bp_page_table bp" and ?t = "t\<lparr>ft_stat := Initing\<rparr>" and ?fd = "ft_fd t" and ?p = "ft_page t"
  note D = sys_invD [OF inv] and wf = pool_coreD(1) [OF sys_invD(1) [OF inv]]
  have q: "request_ok k bp d ?fd ?p" "ft_ret t = None" using D(7) t by (auto simp: thread_ok_def)
  have p: "GetPartitionId (pt_partitioner ?pt) ?p = k" using q by (simp add: request_ok_def)
  note core = pool_core_set_slot [OF D(1) w, of "mword BUSY_VALUE", simplified, folded bp'_def]
  note sl = slot_of_partition [OF wf w p, of _ "mword BUSY_VALUE"]
  show k: "kept k bp d bp' d" using w pool_coreD(11) [OF D(1)]
    by (auto simp: kept_def bp'_def pt_simps same_slot_word split: if_splits)
  have t0: "moving t = []" "locks ?pt t = []" "pins_held t = []" "victims ?pt t = []"
    using t by (simp_all add: moving_def locks_def victims_def pins_held_def)
  have t': "moving ?t = []" "locks pt ?t = [(?fd, ?p)]" "pins_held ?t = []" "victims pt ?t = []" for pt
    by (simp_all add: moving_def locks_def victims_def pins_held_def)
  have free: "(?fd, ?p) \<notin> set (gather (locks ?pt) rest)"
    using D(6) [OF p, of ?fd] w t0(2) empty_busy by auto
  show "sys_inv rinv rcap qrep k B S free bp' d (?t # rest)"
  proof (rule sys_inv_step [OF inv _ k])
    show "pool_core rinv rcap qrep k bp' d S free (set (moving ?t) \<union> set (gather moving rest))" using core(1) t0(1) t'(1) by simp
    show "resident (bp_page_table bp') (ft_fd u) (ft_page u) = Some m"
      if "u \<in> set rest" "m \<in> set (pins_held u)" "resident ?pt (ft_fd u) (ft_page u) = Some m" for u m
    proof -
      have "GetPartitionId (pt_partitioner ?pt) (ft_page u) = k" using pinned_resident(3) [OF inv] that(1,2) by simp
      moreover have "resident ?pt ?fd ?p = None" using w by (simp add: resident_def)
      ultimately show ?thesis using that(3) sl(2) [of "ft_page u" "ft_fd u"] by (auto simp: bp'_def)
    qed
    show "pt_word (bp_page_table bp') fd q = Some (mword BUSY_VALUE) \<longleftrightarrow>
        (fd, q) \<in> set (locks (bp_page_table bp') ?t) \<union> set (gather (locks ?pt) rest)"
      if "GetPartitionId (pt_partitioner ?pt) q = k" for fd q
      using sl(1) [OF that, of fd] D(6) [OF that, of fd] t0(2) t'(2) by (auto simp: bp'_def)
    show "thread_ok k B bp' d ?t" using q kept_request [OF k] by (simp add: thread_ok_def)
    show "page_bytes bp' d fd q = B fd q"
      if "opened d fd" "GetPartitionId (pt_partitioner ?pt) q = k"
        "(fd, q) \<notin> set (victims (bp_page_table bp') ?t) \<union> set (gather (victims ?pt) rest)" for fd q
      using D(10) [OF that(1,2)] that(3) t0(4) t'(4) core(2) by simp
    show "pt_word ?pt fd q = Some (mword BUSY_VALUE) \<or> shared_slot k ?pt fd q"
      if "pt_word (bp_page_table bp') fd q = Some (mword BUSY_VALUE)" for fd q
      using shared_slot_set [OF w p] that by (simp add: bp'_def)
  qed (use D(9) t0 t' free in \<open>auto simp: bp'_def pt_simps\<close>)
qed

lemma sys_free:
  assumes laws: "fifo_laws qops qrep" and inv: "sys_inv rinv rcap qrep k B S (x # free) bp d (t # rest)" and t: "ft_stat t = Initing"
  obtains q where "lq_Poll qops (bp_free_list bp) = (Some x, q)" "kept k bp d (bp\<lparr>bp_free_list := q\<rparr>) d"
    "sys_inv rinv rcap qrep k B S free (bp\<lparr>bp_free_list := q\<rparr>) d (t\<lparr>ft_stat := Loading, ft_ret := Some x\<rparr> # rest)"
proof -
  let ?t = "t\<lparr>ft_stat := Loading, ft_ret := Some x\<rparr>"
  note D = sys_invD [OF inv]
  obtain q where q: "lq_Poll qops (bp_free_list bp) = (Some x, q)" "lq_rep qrep q free"
    by (rule lq_Poll_rep [OF laws pool_coreD(6) [OF D(1)]])
  let ?bp = "bp\<lparr>bp_free_list := q\<rparr>"
  have k: "kept k bp d ?bp d" using pool_coreD(11) [OF D(1)] by (simp add: kept_def)
  have t0: "moving t = []" "locks pt t = [(ft_fd t, ft_page t)]" "pins_held t = []" "victims pt t = []" for pt
    using t by (simp_all add: moving_def locks_def victims_def pins_held_def)
  have t': "moving ?t = [x]" "locks pt ?t = [(ft_fd t, ft_page t)]" "pins_held ?t = []" "victims pt ?t = []" for pt
    by (simp_all add: moving_def locks_def victims_def pins_held_def)
  have "sys_inv rinv rcap qrep k B S free ?bp d (?t # rest)"
  proof (rule sys_inv_step [OF inv _ k])
    show "pool_core rinv rcap qrep k ?bp d S free (set (moving ?t) \<union> set (gather moving rest))"
      using D(1) t0(1) t'(1) q(2) by (auto simp: pool_core_def)
    show "set (moving ?t) \<inter> set (gather moving rest) = {}" using D(1) t0(1) t'(1) by (auto simp: pool_core_def)
    show "thread_ok k B ?bp d ?t" using D(7) t kept_request [OF k] by (auto simp: thread_ok_def)
    show "page_bytes ?bp d fd p = B fd p"
      if "opened d fd" "GetPartitionId (pt_partitioner (bp_page_table bp)) p = k"
        "(fd, p) \<notin> set (victims (bp_page_table ?bp) ?t) \<union> set (gather (victims (bp_page_table bp)) rest)" for fd p
      using D(10) [OF that(1,2)] that(3) t0(4) t'(4) page_bytes_eq [of ?bp fd p bp d] by simp
  qed (use D(5,6,9) t0 t' in simp_all)
  then show thesis using q(1) k that by blast
qed

lemma sys_evict:
  assumes inv: "sys_inv rinv rcap qrep k B S free bp d (t # rest)" and t: "ft_stat t = Evicting" "ft_ret t = Some m"
  obtains bp' d' where
    "evicting_phase \<lparr>fs_stat = Evicting, fs_ret = Some m, fs_bp = bp, fs_disk = d\<rparr> =
      Inr \<lparr>fs_stat = Loading, fs_ret = Some m, fs_bp = bp', fs_disk = d'\<rparr>"
    "kept k bp d bp' d'" "sys_inv rinv rcap qrep k B S free bp' d' (t\<lparr>ft_stat := Loading\<rparr> # rest)"
proof -
  let ?pt = "bp_page_table bp" and ?t = "t\<lparr>ft_stat := Loading\<rparr>" and ?w = "pte_of (bp_page_table bp) m"
  let ?fd = "pte_fd_cur ?w" and ?p = "pte_fpage_id_cur ?w" and ?own = "(ft_fd t, ft_page t)"
  note D = sys_invD [OF inv] and wf = pool_coreD(1) [OF sys_invD(1) [OF inv]]
  have f: "frame_ok d ?pt (bp_memory_pool bp) m" "GetPartitionId (pt_partitioner ?pt) ?p = k"
    "visible (file_of d ?fd) ?p (bp_memory_pool bp ! m) = B ?fd ?p"
    using D(7) t by (auto simp: thread_ok_def victim_page_def)
  have t0: "moving t = [m]" "locks ?pt t = [?own, (?fd, ?p)]" "pins_held t = []" "victims ?pt t = [(?fd, ?p)]"
    using t by (simp_all add: moving_def locks_def victims_def pins_held_def victim_page_def)
  have t': "moving ?t = [m]" "locks pt ?t = [?own]" "pins_held ?t = []" "victims pt ?t = []" for pt
    using t by (simp_all add: moving_def locks_def victims_def pins_held_def)
  have busy: "pt_word ?pt ?fd ?p = Some (mword BUSY_VALUE)" using D(6) [OF f(2), of ?fd] t0(2) by simp
  let ?bp = "bp\<lparr>bp_page_table := set_word ?pt ?fd ?p (mword EMPTY_VALUE)\<rparr>"
  obtain d' where e: "evicting_phase \<lparr>fs_stat = Evicting, fs_ret = Some m, fs_bp = bp, fs_disk = d\<rparr> =
      Inr \<lparr>fs_stat = Loading, fs_ret = Some m, fs_bp = ?bp, fs_disk = d'\<rparr>"
    "pool_core rinv rcap qrep k ?bp d' S free (set (moving t) \<union> set (gather moving rest))"
    "disk_step (pt_partitioner ?pt) k d d'"
    "\<And>fd q. opened d fd \<Longrightarrow> (fd, q) \<noteq> (?fd, ?p) \<Longrightarrow> page_at (file_of d' fd) (unat q) = page_at (file_of d fd) (unat q)"
    "visible (file_of d' ?fd) ?p (page_at (file_of d' ?fd) (unat ?p)) = visible (file_of d ?fd) ?p (bp_memory_pool bp ! m)"
    by (rule evict_core [OF D(1) _ f(1) busy f(2)]) (simp_all add: t0)
  have k: "kept k bp d ?bp d'" using busy e(3) by (auto simp: kept_def pt_simps same_slot_word split: if_splits)
  note sl = slot_of_partition [OF wf busy f(2), of _ "mword EMPTY_VALUE"]
  have own: "?own \<noteq> (?fd, ?p)" using D(4) t0(2) by simp
  have others: "(?fd, ?p) \<notin> set (gather (locks ?pt) rest)" using D(5) t0(2) by simp
  have "sys_inv rinv rcap qrep k B S free ?bp d' (?t # rest)"
  proof (rule sys_inv_step [OF inv _ k])
    show "pool_core rinv rcap qrep k ?bp d' S free (set (moving ?t) \<union> set (gather moving rest))" using e(2) t0(1) t'(1) by simp
    show "page_at (file_of d' fd) (unat q) = page_at (file_of d fd) (unat q)"
      if "(fd, q) \<in> set (gather (victims ?pt) rest)" "opened d fd" for fd q
      using e(4) [OF that(2), of q] others that(1) subsetD [OF victims_locks(2)] by metis
    show "resident (bp_page_table ?bp) (ft_fd u) (ft_page u) = Some n"
      if "u \<in> set rest" "n \<in> set (pins_held u)" "resident ?pt (ft_fd u) (ft_page u) = Some n" for u n
    proof -
      have "GetPartitionId (pt_partitioner ?pt) (ft_page u) = k" using pinned_resident(3) [OF inv] that(1,2) by simp
      moreover have "resident ?pt ?fd ?p = None" using busy by (simp add: resident_def)
      ultimately show ?thesis using that(3) sl(2) [of "ft_page u" "ft_fd u"] by auto
    qed
    show "pt_word (bp_page_table ?bp) fd q = Some (mword BUSY_VALUE) \<longleftrightarrow>
        (fd, q) \<in> set (locks (bp_page_table ?bp) ?t) \<union> set (gather (locks ?pt) rest)"
      if "GetPartitionId (pt_partitioner ?pt) q = k" for fd q
      using sl(1) [OF that, of fd] D(6) [OF that, of fd] t0(2) t'(2) own others empty_busy by auto
    show "pt_word ?pt fd q = Some (mword BUSY_VALUE) \<or> shared_slot k ?pt fd q"
      if "pt_word (bp_page_table ?bp) fd q = Some (mword BUSY_VALUE)" for fd q
      using shared_slot_set [OF busy f(2)] that by simp
    show "thread_ok k B ?bp d' ?t" using D(7) t kept_request [OF k] by (auto simp: thread_ok_def)
    show "page_bytes ?bp d' fd q = B fd q"
      if o: "opened d fd" and q: "GetPartitionId (pt_partitioner ?pt) q = k"
        and nv: "(fd, q) \<notin> set (victims (bp_page_table ?bp) ?t) \<union> set (gather (victims ?pt) rest)" for fd q
    proof (cases "(fd, q) = (?fd, ?p)")
      case True
      then show ?thesis using sl(2) [OF q, of fd] e(5) f(3) by (simp add: page_bytes_def)
    next
      case False
      then have "resident (bp_page_table ?bp) fd q = resident ?pt fd q" using sl(2) [OF q, of fd] by auto
      moreover have "page_bytes bp d' fd q = page_bytes bp d fd q"
        by (rule page_bytes_step [OF e(3) o e(4) [OF o False]])
      moreover have "page_bytes bp d fd q = B fd q" using D(10) [OF o q] nv False t0(4) t'(4) by simp
      ultimately show ?thesis using page_bytes_eq [of ?bp fd q bp d'] by simp
    qed
  qed (use D(3,5,9) t0 t' in \<open>simp_all add: pt_simps\<close>)
  then show thesis using e(1) k that by blast
qed

lemma sys_release:
  assumes inv: "sys_inv rinv rcap qrep k B S free bp d (t # rest)" and t: "ft_stat t = End" "ft_ret t = Some m"
  defines "bp' \<equiv> bp\<lparr>bp_page_table := put_pte (bp_page_table bp) m (DecRefCount (pte_of (bp_page_table bp) m))\<rparr>"
  shows "FromPageId (bp_page_table bp) m = Inr (pte_of (bp_page_table bp) m)" "kept k bp d bp' d"
    "sys_inv rinv rcap qrep k B S free bp' d (t\<lparr>ft_ret := None\<rparr> # rest)"
proof -
  let ?pt = "bp_page_table bp" and ?w = "pte_of (bp_page_table bp) m" and ?t = "t\<lparr>ft_ret := None\<rparr>"
  note D = sys_invD [OF inv]
  have pin: "m \<in> S" using pinned_resident(2) [OF inv, of t m] t by (simp add: pins_held_def)
  note lt = pool_coreD(10) [OF D(1) pin]
  show "FromPageId ?pt m = Inr ?w" using lt by (simp add: pt_simps)
  have t0: "moving t = []" "locks pt t = []" "pins_held t = [m]" "victims pt t = []" for pt
    using t by (simp_all add: moving_def locks_def victims_def pins_held_def)
  have t': "moving ?t = []" "locks pt ?t = []" "pins_held ?t = []" "victims pt ?t = []" for pt
    using t by (simp_all add: moving_def locks_def victims_def pins_held_def)
  have cnt: "unat (pte_ref_count ?w) = Suc (count_list (gather pins_held rest) m)" using D(9) [OF pin] t0(3) by simp
  then have nz: "pte_ref_count ?w \<noteq> 0" by auto
  note rel = release_pte [OF nz]
  note core = pool_core_put_pte [OF D(1) pin rel(1)]
  show k: "kept k bp d bp' d" using lt pool_coreD(11) [OF D(1)] by (simp add: kept_def bp'_def pt_simps)
  have res: "resident (bp_page_table bp') fd p = resident ?pt fd p" for fd p
    using put_same_page(4) [OF rel(1) lt] by (simp add: bp'_def)
  show "sys_inv rinv rcap qrep k B S free bp' d (?t # rest)"
  proof (rule sys_inv_step [OF inv _ k])
    show "pool_core rinv rcap qrep k bp' d S free (set (moving ?t) \<union> set (gather moving rest))"
      using core(1) rel(2) t0(1) t'(1) by (simp add: bp'_def)
    show "pte_of (bp_page_table bp') m' = pte_of ?pt m' \<and> bp_memory_pool bp' ! m' = bp_memory_pool bp ! m'"
      if "m' \<in> set (gather moving rest)" for m'
    proof -
      have "m' \<noteq> m" using D(1) that pin by (auto simp: pool_core_def)
      then show ?thesis using lt by (simp add: bp'_def pt_simps)
    qed
    show "thread_ok k B bp' d ?t" using t by (simp add: thread_ok_def)
    show "unat (pte_ref_count (pte_of (bp_page_table bp') m')) = count_list (pins_held ?t) m' + count_list (gather pins_held rest) m'"
      if "m' \<in> S" for m'
    proof (cases "m' = m")
      case True
      have "unat (pte_ref_count ?w - 1) = unat (pte_ref_count ?w) - 1" using nz by (simp add: unat_minus_one)
      then show ?thesis using True lt rel(3) cnt t'(3) by (simp add: bp'_def pt_simps)
    next
      case False
      then show ?thesis using D(9) [OF that] t0(3) t'(3) lt by (simp add: bp'_def pt_simps)
    qed
    show "page_bytes bp' d fd p = B fd p"
      if "opened d fd" "GetPartitionId (pt_partitioner ?pt) p = k"
        "(fd, p) \<notin> set (victims (bp_page_table bp') ?t) \<union> set (gather (victims ?pt) rest)" for fd p
      using D(10) [OF that(1,2)] that(3) t0(4) t'(4) core(2) rel(2) by (simp add: bp'_def)
  qed (use D(6) t0 t' res in \<open>simp_all add: bp'_def pt_simps\<close>)
qed

context replacer
begin

lemma sys_victim:
  assumes inv: "sys_inv rinv rcap qrep k B S [] bp d (t # rest)" and t: "ft_stat t = Initing"
    and ex: "m0 \<in> S" "\<not> pinned (bp_page_table bp) m0"
  obtains m r' S' where "op_Victim ops (bp_replacer bp) (bp_page_table bp) = Inr ((True, m), r', lock_frame (bp_page_table bp) m)"
    "kept k bp d (bp\<lparr>bp_replacer := r', bp_page_table := lock_frame (bp_page_table bp) m\<rparr>) d"
    "sys_inv rinv rcap qrep k B S' [] (bp\<lparr>bp_replacer := r', bp_page_table := lock_frame (bp_page_table bp) m\<rparr>) d
      (t\<lparr>ft_stat := Evicting, ft_ret := Some m\<rparr> # rest)"
proof -
  let ?pt = "bp_page_table bp"
  note D = sys_invD [OF inv] and wf = pool_coreD(1) [OF sys_invD(1) [OF inv]]
  obtain m r' where m: "m \<in> S" "\<not> pinned ?pt m"
    "op_Victim ops (bp_replacer bp) ?pt = Inr ((True, m), r', lock_frame ?pt m)"
    "rinv r' (S - {m})" "rcap r' = rcap (bp_replacer bp)"
    using Victim_law [OF pool_coreD(4) [OF D(1)] wf pool_coreD(8) [OF D(1)] ex] by blast
  let ?w = "pte_of ?pt m" and ?t = "t\<lparr>ft_stat := Evicting, ft_ret := Some m\<rparr>" and ?own = "(ft_fd t, ft_page t)"
  let ?fd = "pte_fd_cur ?w" and ?p = "pte_fpage_id_cur ?w" and ?pt1 = "lock_frame ?pt m"
  let ?bp = "bp\<lparr>bp_replacer := r', bp_page_table := ?pt1\<rparr>"
  note h = pool_coreD(8) [OF D(1) m(1)] and lt = pool_coreD(10) [OF D(1) m(1)]
  note lf = lock_frame_wf [OF wf h]
  have part: "GetPartitionId (pt_partitioner ?pt) ?p = k" by (rule held_partition [OF wf h])
  have w: "pt_word ?pt ?fd ?p = Some (mword m)" using h by (simp add: held_def)
  have rm: "resident ?pt ?fd ?p = Some m" using w lt by (simp add: resident_eq [OF wf])
  have pt1: "pt_word ?pt1 fd q = pt_word (set_word ?pt ?fd ?p (mword BUSY_VALUE)) fd q"
    "resident ?pt1 fd q = resident (set_word ?pt ?fd ?p (mword BUSY_VALUE)) fd q" for fd q
    by (simp_all add: lock_frame_def pt_simps resident_def Let_def)
  note sl = slot_of_partition [OF wf w part, of _ "mword BUSY_VALUE", folded pt1]
  have k: "kept k bp d ?bp d" using w lf(4,5) pool_coreD(11) [OF D(1)]
    by (auto simp: kept_def pt1 pt_simps same_slot_word split: if_splits)
  have vp: "victim_page ?pt1 m = (?fd, ?p)" using lf(6) [of m] by (simp add: victim_page_def pt_simps)
  have t0: "moving t = []" "locks ?pt t = [?own]" "pins_held t = []" "victims ?pt t = []"
    using t by (simp_all add: moving_def locks_def victims_def pins_held_def)
  have t': "moving ?t = [m]" "locks ?pt1 ?t = [?own, (?fd, ?p)]" "pins_held ?t = []" "victims ?pt1 ?t = [(?fd, ?p)]"
    using vp by (simp_all add: moving_def locks_def victims_def pins_held_def)
  have nb: "pt_word ?pt ?fd ?p \<noteq> Some (mword BUSY_VALUE)" using w frame_id(5) [OF wf lt] by simp
  then have free: "?own \<noteq> (?fd, ?p)" "(?fd, ?p) \<notin> set (gather (locks ?pt) rest)"
    using D(6) [OF part, of ?fd] t0(2) by auto
  have mT: "m \<notin> set (gather moving rest)" using D(1) m(1) by (auto simp: pool_core_def)
  have fok: "frame_ok d ?pt1 (bp_memory_pool bp) m"
    using pool_coreD(9) [OF D(1) m(1)] lf(6) [of m] by (simp add: frame_ok_def pt_simps Let_def)
  then have op: "opened d ?fd" using lf(6) [of m] by (simp add: frame_ok_def in_file_def pt_simps Let_def)
  have "(?fd, ?p) \<notin> set (gather (victims ?pt) rest)" using free(2) subsetD [OF victims_locks(2)] by blast
  then have "(?fd, ?p) \<notin> set (victims ?pt t) \<union> set (gather (victims ?pt) rest)" using t0(4) by simp
  then have vis: "visible (file_of d ?fd) ?p (bp_memory_pool bp ! m) = B ?fd ?p"
    using D(10) [OF op part] rm by (simp add: page_bytes_def)
  have "sys_inv rinv rcap qrep k B (S - {m}) [] ?bp d (?t # rest)"
  proof (rule sys_inv_step [OF inv _ k])
    show "pool_core rinv rcap qrep k ?bp d (S - {m}) [] (set (moving ?t) \<union> set (gather moving rest))"
      using chosen_core [OF D(1) m(1,4,5)] t0(1) t'(1) by simp
    show "pte_of (bp_page_table ?bp) m' = pte_of ?pt m' \<and> bp_memory_pool ?bp ! m' = bp_memory_pool bp ! m'"
      if "m' \<in> set (gather moving rest)" for m'
      using that mT lf(6) [of m'] by auto
    show "resident (bp_page_table ?bp) (ft_fd u) (ft_page u) = Some n"
      if "u \<in> set rest" "n \<in> set (pins_held u)" "resident ?pt (ft_fd u) (ft_page u) = Some n" for u n
    proof -
      have p: "GetPartitionId (pt_partitioner ?pt) (ft_page u) = k" and n: "n \<in> S"
        using pinned_resident(2,3) [OF inv _ that(2)] that(1) by simp_all
      have "n \<in> set (gather pins_held rest)" using that(1,2) by auto
      then have "count_list (gather pins_held rest) n \<noteq> 0" by (simp add: count_list_0_iff)
      then have "pinned ?pt n" using D(9) [OF n] by (auto simp: pinned_def)
      then have "n \<noteq> m" using m(2) by auto
      then show ?thesis using that(3) rm sl(2) [OF p, of "ft_fd u"] by auto
    qed
    show "pt_word (bp_page_table ?bp) fd q = Some (mword BUSY_VALUE) \<longleftrightarrow>
        (fd, q) \<in> set (locks (bp_page_table ?bp) ?t) \<union> set (gather (locks ?pt) rest)"
      if "GetPartitionId (pt_partitioner ?pt) q = k" for fd q
      using sl(1) [OF that, of fd] D(6) [OF that, of fd] t0(2) t'(2) by auto
    show "pt_word ?pt fd q = Some (mword BUSY_VALUE) \<or> shared_slot k ?pt fd q"
      if "pt_word (bp_page_table ?bp) fd q = Some (mword BUSY_VALUE)" for fd q
      using shared_slot_set [OF w part] that pt1(1) by simp
    show "distinct (locks (bp_page_table ?bp) ?t)" using free(1) t'(2) by simp
    show "thread_ok k B ?bp d ?t"
      using D(7) t kept_request [OF k] fok vp vis part lf(5) by (auto simp: thread_ok_def)
    show "unat (pte_ref_count (pte_of (bp_page_table ?bp) m')) = count_list (pins_held ?t) m' + count_list (gather pins_held rest) m'"
      if "m' \<in> S - {m}" for m'
      using that D(9) [of m'] lf(6) [of m'] t0(3) t'(3) by simp
    show "page_bytes ?bp d fd q = B fd q"
      if o: "opened d fd" and q: "GetPartitionId (pt_partitioner ?pt) q = k"
        and nv: "(fd, q) \<notin> set (victims (bp_page_table ?bp) ?t) \<union> set (gather (victims ?pt) rest)" for fd q
    proof -
      have "resident (bp_page_table ?bp) fd q = resident ?pt fd q" using sl(2) [OF q, of fd] nv t'(4) by auto
      then show ?thesis using D(10) [OF o q] nv t0(4) page_bytes_eq [of ?bp fd q bp d] by simp
    qed
  qed (use D(5) free mT t0 t' in simp_all)
  then show thesis using m(3) k that by blast
qed

lemma sys_load:
  assumes inv: "sys_inv rinv rcap qrep k B S free bp d (t # rest)" and t: "ft_stat t = Loading" "ft_ret t = Some m"
  obtains bp' where
    "loading_phase ops (ft_page t) (ft_fd t) \<lparr>fs_stat = Loading, fs_ret = Some m, fs_bp = bp, fs_disk = d\<rparr> =
      Inr \<lparr>fs_stat = End, fs_ret = Some m, fs_bp = bp', fs_disk = d\<rparr>"
    "kept k bp d bp' d" "sys_inv rinv rcap qrep k B (insert m S) free bp' d (t\<lparr>ft_stat := End\<rparr> # rest)"
proof -
  let ?pt = "bp_page_table bp" and ?fd = "ft_fd t" and ?p = "ft_page t" and ?t = "t\<lparr>ft_stat := End\<rparr>"
  note D = sys_invD [OF inv] and wf = pool_coreD(1) [OF sys_invD(1) [OF inv]]
  have q: "request_ok k bp d ?fd ?p" using D(7) t by (auto simp: thread_ok_def)
  then have rq: "in_file d ?fd ?p" "?fd < 8192" "GetPartitionId (pt_partitioner ?pt) ?p = k" by (simp_all add: request_ok_def)
  have t0: "moving t = [m]" "locks pt t = [(?fd, ?p)]" "pins_held t = []" "victims pt t = []" for pt
    using t by (simp_all add: moving_def locks_def victims_def pins_held_def)
  have t': "moving ?t = []" "locks pt ?t = []" "pins_held ?t = [m]" "victims pt ?t = []" for pt
    using t by (simp_all add: moving_def locks_def victims_def pins_held_def)
  have busy: "pt_word ?pt ?fd ?p = Some (mword BUSY_VALUE)" using D(6) [OF rq(3), of ?fd] t0(2) by simp
  have mT: "m \<notin> set (gather moving rest)" using D(3) t0(1) by simp
  have c: "pool_core rinv rcap qrep k bp d S free (insert m (set (gather moving rest)))" using D(1) t0(1) by simp
  have m: "m < frames ?pt" "m \<notin> S" "unnamed ?pt m" using c by (auto simp: pool_core_def)
  let ?pt' = "set_word (put_pte ?pt m (loaded_pte ?fd ?p)) ?fd ?p (mword m)"
  obtain bp' where L: "loading_phase ops ?p ?fd \<lparr>fs_stat = Loading, fs_ret = Some m, fs_bp = bp, fs_disk = d\<rparr> =
      Inr \<lparr>fs_stat = End, fs_ret = Some m, fs_bp = bp', fs_disk = d\<rparr>"
    "pool_core rinv rcap qrep k bp' d (insert m S) free (set (gather moving rest))" "bp_page_table bp' = ?pt'"
    "bp_memory_pool bp' = (bp_memory_pool bp)[m := page_at (file_of d ?fd) (unat ?p)]"
    by (rule load_core [OF c mT busy rq])
  have pt': "pt_word ?pt' fd q = pt_word (set_word ?pt ?fd ?p (mword m)) fd q"
    "resident ?pt' fd q = resident (set_word ?pt ?fd ?p (mword m)) fd q" for fd q
    using busy by (simp_all add: pt_simps resident_def)
  note sl = slot_of_partition [OF wf busy rq(3), of _ "mword m", folded pt']
  have fid: "fst (FindMapping_word (mword m))" "snd (FindMapping_word (mword m)) = m"
    using frame_id [OF wf m(1)] by (simp_all add: FindMapping_word_def map_mpage_id_mword)
  have pte: "pte_of ?pt' m' = (if m' = m then loaded_pte ?fd ?p else pte_of ?pt m')" for m' using m(1) by (simp add: pt_simps)
  have k: "kept k bp d bp' d" using busy pool_coreD(11) [OF D(1)]
    by (auto simp: kept_def L(3) pt' pt_simps same_slot_word split: if_splits)
  have own: "(?fd, ?p) \<notin> set (gather (locks ?pt) rest)" using D(5) t0(2) by simp
  have pins: "m \<notin> set (gather pins_held rest)" using pinned_resident(2) [OF inv] m(2) by auto
  have "sys_inv rinv rcap qrep k B (insert m S) free bp' d (?t # rest)"
  proof (rule sys_inv_step [OF inv _ k])
    show "pool_core rinv rcap qrep k bp' d (insert m S) free (set (moving ?t) \<union> set (gather moving rest))" using L(2) t'(1) by simp
    show "pte_of (bp_page_table bp') m' = pte_of ?pt m' \<and> bp_memory_pool bp' ! m' = bp_memory_pool bp ! m'"
      if "m' \<in> set (gather moving rest)" for m'
      using that mT pte L(3,4) by auto
    show "resident (bp_page_table bp') (ft_fd u) (ft_page u) = Some n"
      if "u \<in> set rest" "n \<in> set (pins_held u)" "resident ?pt (ft_fd u) (ft_page u) = Some n" for u n
    proof -
      have "GetPartitionId (pt_partitioner ?pt) (ft_page u) = k" using pinned_resident(3) [OF inv] that(1,2) by simp
      moreover have "resident ?pt ?fd ?p = None" using busy by (simp add: resident_def)
      ultimately show ?thesis using that(3) sl(2) [of "ft_page u" "ft_fd u"] unfolding L(3) by auto
    qed
    show "pt_word (bp_page_table bp') fd q = Some (mword BUSY_VALUE) \<longleftrightarrow>
        (fd, q) \<in> set (locks (bp_page_table bp') ?t) \<union> set (gather (locks ?pt) rest)"
      if "GetPartitionId (pt_partitioner ?pt) q = k" for fd q
      using sl(1) [OF that, of fd] D(6) [OF that, of fd] t0(2) t'(2) own frame_id(5) [OF wf m(1)] unfolding L(3) by auto
    show "pt_word ?pt fd q = Some (mword BUSY_VALUE) \<or> shared_slot k ?pt fd q"
      if "pt_word (bp_page_table bp') fd q = Some (mword BUSY_VALUE)" for fd q
      using shared_slot_set [OF busy rq(3)] that unfolding L(3) pt'(1) by blast
    have "resident ?pt' ?fd ?p = Some m" using sl(2) [OF rq(3), of ?fd] fid by simp
    then show "thread_ok k B bp' d ?t" using q t kept_request [OF k] L(3) by (simp add: thread_ok_def)
    show "unat (pte_ref_count (pte_of (bp_page_table bp') m')) = count_list (pins_held ?t) m' + count_list (gather pins_held rest) m'"
      if "m' \<in> insert m S" for m'
    proof (cases "m' = m")
      case True
      moreover have "count_list (gather pins_held rest) m = 0" using pins by (simp add: count_list_0_iff)
      ultimately show ?thesis using pte [of m] loaded_pte_fields(6) t'(3) unfolding L(3) by simp
    next
      case False
      then show ?thesis using that D(9) [of m'] pte [of m'] t0(3) t'(3) unfolding L(3) by simp
    qed
    show "page_bytes bp' d fd q = B fd q"
      if o: "opened d fd" and q: "GetPartitionId (pt_partitioner ?pt) q = k"
        and nv: "(fd, q) \<notin> set (victims (bp_page_table bp') ?t) \<union> set (gather (victims ?pt) rest)" for fd q
    proof -
      have b: "page_bytes bp d fd q = B fd q" using D(10) [OF o q] nv t0(4) by simp
      show ?thesis
      proof (cases "(fd, q) = (?fd, ?p)")
        case True
        moreover have "resident ?pt ?fd ?p = None" using busy by (simp add: resident_def)
        ultimately show ?thesis
          using b sl(2) [OF q, of fd] fid m(1) pool_coreD(2) [OF D(1)] unfolding L(3) by (simp add: page_bytes_def L(3,4))
      next
        case False
        then have r: "resident (bp_page_table bp') fd q = resident ?pt fd q" using sl(2) [OF q, of fd] unfolding L(3) by auto
        have "bp_memory_pool bp' ! n = bp_memory_pool bp ! n" if "resident ?pt fd q = Some n" for n
        proof -
          have "n \<noteq> m" using that m(3) by (auto simp: resident_eq [OF wf] unnamed_def)
          then show ?thesis by (simp add: L(4))
        qed
        then show ?thesis using b page_bytes_eq [OF r] by simp
      qed
    qed
  qed (use D(5) t0 t' in simp_all)
  then show thesis using L(1) k that by blast
qed

end

section \<open>Schedules\<close>

text \<open>A thread that holds nothing may change its place.\<close>

lemma sys_thread:
  assumes inv: "sys_inv rinv rcap qrep k B S free bp d (t # rest)" and t: "moving t = []" "locks (bp_page_table bp) t = []" "pins_held t = []"
    and t': "moving t' = []" "locks (bp_page_table bp) t' = []" "pins_held t' = []" "thread_ok k B bp d t'"
  shows "sys_inv rinv rcap qrep k B S free bp d (t' # rest)"
proof -
  have v: "victims (bp_page_table bp) t = []" "victims (bp_page_table bp) t' = []" using t(2) t'(2) by (simp_all add: locks_def)
  show ?thesis using inv t t' v by (simp add: sys_inv_def)
qed

text \<open>A thread in the loop has no frame yet, so when there are as many frames as threads one is unpinned.\<close>

lemma gather_le: "length (gather moving ts) + length (gather pins_held ts) \<le> length ts"
proof (induction ts)
  case (Cons t ts)
  have "length (moving t) + length (pins_held t) \<le> 1" by (cases "ft_ret t") (auto simp: moving_def pins_held_def)
  then show ?case using Cons by simp
qed simp

lemma unpinned_frame:
  assumes inv: "sys_inv rinv rcap qrep k B S [] bp d (t # rest)" and t: "ft_stat t = Initing"
    and n: "length rest < frames (bp_page_table bp)"
  obtains m where "m \<in> S" "\<not> pinned (bp_page_table bp) m"
proof (rule ccontr)
  assume "\<not> thesis"
  then have a: "\<And>m. m \<in> S \<Longrightarrow> pinned (bp_page_table bp) m" using that by blast
  note D = sys_invD [OF inv]
  have t0: "moving t = []" "pins_held t = []" using t by (simp_all add: moving_def pins_held_def)
  have all: "S \<union> set (gather moving rest) = {..<frames (bp_page_table bp)}" using D(1) t0(1) by (simp add: pool_core_def)
  have "m \<in> set (gather pins_held rest)" if "m \<in> S" for m
  proof -
    have "pinned (bp_page_table bp) m" using a that by blast
    then have "0 < unat (pte_ref_count (pte_of (bp_page_table bp) m))" by (simp add: pinned_def unat_gt_0)
    then have "count_list (gather pins_held rest) m \<noteq> 0" using D(9) [OF that] t0(2) by simp
    then show ?thesis by (simp add: count_list_0_iff)
  qed
  then have "S \<subseteq> set (gather pins_held rest)" by blast
  then have "{..<frames (bp_page_table bp)} \<subseteq> set (gather pins_held rest @ gather moving rest)"
    unfolding all [symmetric] set_append by blast
  then have "card {..<frames (bp_page_table bp)} \<le> card (set (gather pins_held rest @ gather moving rest))"
    by (intro card_mono) simp_all
  also have "\<dots> \<le> length (gather pins_held rest @ gather moving rest)" by (rule card_length)
  also have "\<dots> \<le> length rest" using gather_le [of rest] by simp
  finally show False using n by simp
qed

text \<open>The rounds a call still needs when no lock keeps it waiting.\<close>

fun phases_left :: "phase \<Rightarrow> nat" where
  "phases_left Begin = 4"
| "phases_left Initing = 3"
| "phases_left Evicting = 2"
| "phases_left Loading = 1"
| "phases_left _ = 0"

lemma fetcher_ret: "ft_ret t = r \<Longrightarrow> t\<lparr>ft_stat := s, ft_ret := r\<rparr> = t\<lparr>ft_stat := s\<rparr>"
  by (cases t) simp

context replacer
begin

text \<open>One round of a thread: it goes on to its next phase, unless the page is locked by another.\<close>

lemma round_ok:
  assumes laws: "fifo_laws qops qrep" and inv: "sys_inv rinv rcap qrep k B S free bp d (t # rest)"
    and t: "ft_stat t \<noteq> End" and n: "length rest < frames (bp_page_table bp)" "length rest < 65535"
  obtains st b S' free' where
    "fetch_step ops qops (ft_page t) (ft_fd t) \<lparr>fs_stat = ft_stat t, fs_ret = ft_ret t, fs_bp = bp, fs_disk = d\<rparr> = Inr (b, st)"
    "kept k bp d (fs_bp st) (fs_disk st)"
    "sys_inv rinv rcap qrep k B S' free' (fs_bp st) (fs_disk st) (t\<lparr>ft_stat := fs_stat st, ft_ret := fs_ret st\<rparr> # rest)"
    "phases_left (fs_stat st) < phases_left (ft_stat t) \<or> ft_stat t = Begin \<and> pt_word (bp_page_table bp) (ft_fd t) (ft_page t) = Some (mword BUSY_VALUE)"
proof -
  let ?pt = "bp_page_table bp" and ?fd = "ft_fd t" and ?p = "ft_page t"
  note D = sys_invD [OF inv] and wf = pool_coreD(1) [OF sys_invD(1) [OF inv]]
  have q: "request_ok k bp d ?fd ?p" using D(7) t by (auto simp: thread_ok_def)
  then have p: "GetPartitionId (pt_partitioner ?pt) ?p = k" "pt_word ?pt ?fd ?p \<noteq> None" by (simp_all add: request_ok_def)
  consider "ft_stat t = Begin" | "ft_stat t = Initing" | "ft_stat t = Evicting" | "ft_stat t = Loading"
    using D(7) t by (cases "ft_stat t") (auto simp: thread_ok_def)
  then show thesis
  proof cases
    case 1
    have r: "ft_ret t = None" using D(7) 1 by (simp add: thread_ok_def)
    have te: "t\<lparr>ft_stat := Begin, ft_ret := None\<rparr> = t" using 1 r by (cases t) simp
    have t0: "moving t = []" "locks ?pt t = []" "pins_held t = []"
      using 1 by (simp_all add: moving_def locks_def victims_def pins_held_def)
    have b0: "(0::nat) \<noteq> BUSY_VALUE" by (simp add: BUSY_VALUE_def)
    show thesis
    proof (cases "resident ?pt ?fd ?p")
      case (Some m)
      obtain bp' where P: "Pin ops bp ?p ?fd = Inr (Some m, bp')" "kept k bp d bp' d"
        "sys_inv rinv rcap qrep k B S free bp' d (\<lparr>ft_fd = ?fd, ft_page = ?p, ft_stat = End, ft_ret = Some m\<rparr> # rest)"
        by (rule sys_hit [OF inv t0 q Some n(2)])
      have te': "t\<lparr>ft_stat := End, ft_ret := Some m\<rparr> = \<lparr>ft_fd = ?fd, ft_page = ?p, ft_stat = End, ft_ret = Some m\<rparr>" by (cases t) simp
      have "fetch_step ops qops ?p ?fd \<lparr>fs_stat = ft_stat t, fs_ret = ft_ret t, fs_bp = bp, fs_disk = d\<rparr> =
          Inr (False, \<lparr>fs_stat = End, fs_ret = Some m, fs_bp = bp', fs_disk = d\<rparr>)"
        using 1 P(1) b0 Lock_resident [OF wf Some p(1)]
        by (cases "pinned ?pt m") (simp_all add: fetch_step_def begin_phase_def pin_phase_def Let_def)
      then show thesis
        by (rule that [of False "\<lparr>fs_stat = End, fs_ret = Some m, fs_bp = bp', fs_disk = d\<rparr>" S free]) (use P(2,3) [folded te'] 1 in simp_all)
    next
      case None
      show thesis
      proof (cases "pt_word ?pt ?fd ?p = Some (mword BUSY_VALUE)")
        case True
        have "fetch_step ops qops ?p ?fd \<lparr>fs_stat = ft_stat t, fs_ret = ft_ret t, fs_bp = bp, fs_disk = d\<rparr> =
            Inr (False, \<lparr>fs_stat = Begin, fs_ret = None, fs_bp = bp, fs_disk = d\<rparr>)"
          using 1 b0 True Pin_miss [OF p(2) None, of ops] by (simp add: fetch_step_def begin_phase_def pin_phase_def pt_simps)
        then show thesis
          by (rule that [of False "\<lparr>fs_stat = Begin, fs_ret = None, fs_bp = bp, fs_disk = d\<rparr>" S free])
            (use inv te 1 True kept_refl [OF pool_coreD(11) [OF D(1)], of k bp] in simp_all)
      next
        case False
        then have w: "pt_word ?pt ?fd ?p = Some (mword EMPTY_VALUE)" using resident_None [OF wf p(2)] None by simp
        have "fetch_step ops qops ?p ?fd \<lparr>fs_stat = ft_stat t, fs_ret = ft_ret t, fs_bp = bp, fs_disk = d\<rparr> =
            Inr (False, \<lparr>fs_stat = Initing, fs_ret = None, fs_bp = bp\<lparr>bp_page_table := set_word ?pt ?fd ?p (mword BUSY_VALUE)\<rparr>, fs_disk = d\<rparr>)"
          using 1 r w by (simp add: fetch_step_def begin_phase_def pt_simps)
        then show thesis
          by (rule that [of False _ S free]) (use sys_lock [OF inv 1 w] 1 r in \<open>simp_all add: fetcher_ret\<close>)
      qed
    qed
  next
    case 2
    show thesis
    proof (cases free)
      case (Cons x xs)
      obtain qq where f: "lq_Poll qops (bp_free_list bp) = (Some x, qq)" "kept k bp d (bp\<lparr>bp_free_list := qq\<rparr>) d"
        "sys_inv rinv rcap qrep k B S xs (bp\<lparr>bp_free_list := qq\<rparr>) d (t\<lparr>ft_stat := Loading, ft_ret := Some x\<rparr> # rest)"
        by (rule sys_free [OF laws inv [unfolded Cons] 2])
      then show thesis
        by (intro that [of False "\<lparr>fs_stat = Loading, fs_ret = Some x, fs_bp = bp\<lparr>bp_free_list := qq\<rparr>, fs_disk = d\<rparr>" S xs])
          (use 2 in \<open>simp_all add: fetch_step_def initing_phase_def\<close>)
    next
      case Nil
      obtain m0 where "m0 \<in> S" "\<not> pinned ?pt m0" by (rule unpinned_frame [OF inv [unfolded Nil] 2 n(1)])
      from sys_victim [OF inv [unfolded Nil] 2 this] obtain m r' S' where
        v: "op_Victim ops (bp_replacer bp) ?pt = Inr ((True, m), r', lock_frame ?pt m)"
        "kept k bp d (bp\<lparr>bp_replacer := r', bp_page_table := lock_frame ?pt m\<rparr>) d"
        "sys_inv rinv rcap qrep k B S' [] (bp\<lparr>bp_replacer := r', bp_page_table := lock_frame ?pt m\<rparr>) d
          (t\<lparr>ft_stat := Evicting, ft_ret := Some m\<rparr> # rest)" by blast
      have e: "lq_Poll qops (bp_free_list bp) = (None, bp_free_list bp)"
        by (rule lq_Poll_empty [OF laws pool_coreD(6) [OF D(1) [unfolded Nil]]])
      show thesis
        by (rule that [of False "\<lparr>fs_stat = Evicting, fs_ret = Some m,
            fs_bp = bp\<lparr>bp_replacer := r', bp_page_table := lock_frame ?pt m\<rparr>, fs_disk = d\<rparr>" S' "[]"])
          (use 2 v e in \<open>simp_all add: fetch_step_def initing_phase_def\<close>)
    qed
  next
    case 3
    then obtain m where m: "ft_ret t = Some m" using D(7) by (auto simp: thread_ok_def)
    obtain bp' d' where e: "evicting_phase \<lparr>fs_stat = Evicting, fs_ret = Some m, fs_bp = bp, fs_disk = d\<rparr> =
        Inr \<lparr>fs_stat = Loading, fs_ret = Some m, fs_bp = bp', fs_disk = d'\<rparr>" "kept k bp d bp' d'"
      "sys_inv rinv rcap qrep k B S free bp' d' (t\<lparr>ft_stat := Loading\<rparr> # rest)" by (rule sys_evict [OF inv 3 m])
    then show thesis
      by (intro that [of False "\<lparr>fs_stat = Loading, fs_ret = Some m, fs_bp = bp', fs_disk = d'\<rparr>" S free])
        (use 3 m in \<open>simp_all add: fetch_step_def fetcher_ret\<close>)
  next
    case 4
    then obtain m where m: "ft_ret t = Some m" using D(7) by (auto simp: thread_ok_def)
    obtain bp' where e: "loading_phase ops ?p ?fd \<lparr>fs_stat = Loading, fs_ret = Some m, fs_bp = bp, fs_disk = d\<rparr> =
        Inr \<lparr>fs_stat = End, fs_ret = Some m, fs_bp = bp', fs_disk = d\<rparr>" "kept k bp d bp' d"
      "sys_inv rinv rcap qrep k B (insert m S) free bp' d (t\<lparr>ft_stat := End\<rparr> # rest)" by (rule sys_load [OF inv 4 m])
    then show thesis
      by (intro that [of True "\<lparr>fs_stat = End, fs_ret = Some m, fs_bp = bp', fs_disk = d\<rparr>" "insert m S" free])
        (use 4 m in \<open>simp_all add: fetch_step_def fetcher_ret\<close>)
  qed
qed

end

text \<open>An update of the page that a thread has pinned.\<close>

lemma sys_update:
  assumes inv: "sys_inv rinv rcap qrep k B S free bp d (t # rest)" and t: "ft_stat t = End" "ft_ret t = Some m"
    and len: "off + length data \<le> PAGE_SIZE_FILE"
  defines "bp' \<equiv> bp\<lparr>bp_memory_pool := (bp_memory_pool bp)[m := overlay off data (bp_memory_pool bp ! m)],
      bp_page_table := put_pte (bp_page_table bp) m (set_dirty True (pte_of (bp_page_table bp) m))\<rparr>"
  shows "FromPageId (bp_page_table bp) m = Inr (pte_of (bp_page_table bp) m)"
    "arr_get (bp_memory_pool bp) m = Inr (bp_memory_pool bp ! m)" "length (bp_memory_pool bp ! m) = PAGE_SIZE_FILE"
    "kept k bp d bp' d" "sys_inv rinv rcap qrep k (apply_update (ft_fd t, ft_page t, off, data) B) S free bp' d (t # rest)"
proof -
  let ?pt = "bp_page_table bp" and ?w = "pte_of (bp_page_table bp) m" and ?fd = "ft_fd t" and ?p = "ft_page t"
  let ?B = "apply_update (?fd, ?p, off, data) B" and ?f = "bp_memory_pool bp ! m"
  note D = sys_invD [OF inv]
  have q: "request_ok k bp d ?fd ?p" and r: "resident ?pt ?fd ?p = Some m" using D(7) t by (simp_all add: thread_ok_def)
  have p: "GetPartitionId (pt_partitioner ?pt) ?p = k" using q by (simp add: request_ok_def)
  note mS = resident_managed [OF D(1) r] and wf = pool_coreD(1) [OF D(1)]
  note lt = pool_coreD(10) [OF D(1) mS]
  show "FromPageId ?pt m = Inr ?w" using lt by (rule FromPageId_pte_of)
  show "arr_get (bp_memory_pool bp) m = Inr ?f" using lt pool_coreD(2) [OF D(1)] by simp
  show lf: "length ?f = PAGE_SIZE_FILE" by (rule pool_coreD(3) [OF D(1) lt])
  show k: "kept k bp d bp' d" using lt pool_coreD(11) [OF D(1)] by (simp add: kept_def bp'_def pt_simps)
  have sp: "same_page (set_dirty True ?w) ?w" by simp
  have core: "pool_core rinv rcap qrep k bp' d S free (set (moving t) \<union> set (gather moving rest))"
    unfolding bp'_def by (rule pool_core_write [OF D(1) mS sp]) (simp_all add: lf pt_simps)
  have res: "resident (bp_page_table bp') fd' q' = resident ?pt fd' q'" for fd' q'
    unfolding bp'_def using put_same_page(4) [OF sp lt] by simp
  have mT: "m \<notin> set (gather moving rest)" using D(1) mS by (auto simp: pool_core_def)
  have t0: "moving t = []" "victims pt t = []" "locks pt t = []" for pt
    using t by (simp_all add: moving_def victims_def locks_def)
  have nl: "(?fd, ?p) \<notin> set (gather (victims ?pt) rest)"
    using lock_partition(3) [OF inv, of ?fd ?p] r subsetD [OF victims_locks(2), of "(?fd, ?p)" ?pt rest] by auto
  show "sys_inv rinv rcap qrep k ?B S free bp' d (t # rest)"
  proof (rule sys_inv_step [OF inv core k])
    show "pte_of (bp_page_table bp') m' = pte_of ?pt m' \<and> bp_memory_pool bp' ! m' = bp_memory_pool bp ! m'"
      if "m' \<in> set (gather moving rest)" for m'
      using that mT lt by (auto simp: bp'_def pt_simps)
    show "?B fd' q' = B fd' q'" if "(fd', q') \<in> set (gather (victims ?pt) rest)" for fd' q'
      using that nl by auto
    show "thread_ok k ?B bp' d t" using D(7) t res kept_request [OF k] by (simp add: thread_ok_def)
    show "unat (pte_ref_count (pte_of (bp_page_table bp') m')) = count_list (pins_held t) m' + count_list (gather pins_held rest) m'"
      if "m' \<in> S" for m'
      using D(9) [OF that] lt by (cases "m' = m") (simp_all add: bp'_def pt_simps)
    show "page_bytes bp' d fd' q' = ?B fd' q'"
      if o: "opened d fd'" "GetPartitionId (pt_partitioner ?pt) q' = k"
        and v: "(fd', q') \<notin> set (victims (bp_page_table bp') t) \<union> set (gather (victims ?pt) rest)" for fd' q'
    proof -
      have b: "page_bytes bp d fd' q' = B fd' q'" using D(10) [OF o] v t0(2) by simp
      show ?thesis
      proof (cases "fd' = ?fd \<and> q' = ?p")
        case True
        then have "page_bytes bp' d fd' q' = visible (file_of d ?fd) ?p (overlay off data ?f)"
          using res r lt pool_coreD(2) [OF D(1)] by (simp add: page_bytes_def bp'_def)
        also have "\<dots> = overlay off data (visible (file_of d ?fd) ?p ?f)" by (simp add: visible_def overlay_take)
        also have "\<dots> = ?B fd' q'" using b r True by (simp add: page_bytes_def)
        finally show ?thesis .
      next
        case False
        have "page_bytes bp' d fd' q' = page_bytes bp d fd' q'"
        proof (rule page_bytes_eq)
          fix m' assume "resident ?pt fd' q' = Some m'"
          then have "m' \<noteq> m" using fetched_resident_unique [OF wf p o(2) r] False by auto
          then show "bp_memory_pool bp' ! m' = bp_memory_pool bp ! m'" by (simp add: bp'_def)
        qed (simp add: res)
        then show ?thesis using b False by auto
      qed
    qed
  qed (use D(2,3,6) t0 res in \<open>auto simp: bp'_def pt_simps\<close>)
qed


text \<open>The invariant of a system, whatever frames are managed and free.\<close>

definition system_ok where
  "system_ok rinv rcap qrep k B = (\<lambda>(bp, d, ths). \<exists>S free. sys_inv rinv rcap qrep k B S free bp d ths)"

lemma system_focus:
  assumes "i < length ths"
  shows "system_ok rinv rcap qrep k B (bp, d, ths) \<longleftrightarrow>
      (\<exists>S free. sys_inv rinv rcap qrep k B S free bp d (ths ! i # take i ths @ drop (Suc i) ths))"
    "system_ok rinv rcap qrep k B (bp', d', ths[i := t]) \<longleftrightarrow>
      (\<exists>S free. sys_inv rinv rcap qrep k B S free bp' d' (t # take i ths @ drop (Suc i) ths))"
  using sys_inv_focus [of rinv rcap qrep k B _ _ bp d "take i ths" "ths ! i" "drop (Suc i) ths"] assms
  by (simp_all add: system_ok_def sys_inv_focus upd_conv_take_nth_drop flip: id_take_nth_drop)

fun action_ok :: "partition_id \<Rightarrow> ('r, 'q) buffer_pool \<Rightarrow> disk \<Rightarrow> fetch_action \<Rightarrow> bool" where
  "action_ok k bp d (Call i fd p) = request_ok k bp d fd p"
| "action_ok k bp d (Round i) = True"
| "action_ok k bp d (Update i off data) \<longleftrightarrow> off + length data \<le> PAGE_SIZE_FILE"
| "action_ok k bp d (Release i) = True"

lemma kept_action: "kept k bp d bp' d' \<Longrightarrow> action_ok k bp' d' a = action_ok k bp d a"
  by (cases a) (simp_all add: kept_request)

context replacer
begin

lemma do_action_ok:
  assumes laws: "fifo_laws qops qrep" and ok: "system_ok rinv rcap qrep k B (bp, d, ths)" and a: "action_ok k bp d a"
    and n: "length ths \<le> frames (bp_page_table bp)" "length ths \<le> 65535"
  obtains us bp' d' ths' where "do_action ops qops a (bp, d, ths) = Inr (us, bp', d', ths')" "kept k bp d bp' d'"
    "system_ok rinv rcap qrep k (apply_updates us B) (bp', d', ths')" "length ths' = length ths"
proof -
  have wf: "disk_wf d" using ok by (auto simp: system_ok_def sys_inv_def pool_core_def)
  note found = that
  have stay: thesis if "do_action ops qops a (bp, d, ths) = Inr ([], bp, d, ths)"
    by (rule found [OF that kept_refl [OF wf]]) (simp_all add: ok)
  show thesis
  proof (cases a)
    case (Call i fd p)
    show thesis
    proof (cases "i < length ths \<and> idle (ths ! i)")
      case True
      let ?rest = "take i ths @ drop (Suc i) ths"
      have r: "length ?rest < 65535" using True n(2) by simp
      obtain S free where inv: "sys_inv rinv rcap qrep k B S free bp d (ths ! i # ?rest)"
        using ok system_focus(1) [of i ths] True by blast
      have t0: "moving (ths ! i) = []" "locks (bp_page_table bp) (ths ! i) = []" "pins_held (ths ! i) = []"
        using True by (simp_all add: idle_def moving_def locks_def victims_def pins_held_def)
      have q: "request_ok k bp d fd p" using a Call by simp
      show thesis
      proof (cases "resident (bp_page_table bp) fd p")
        case (Some m)
        obtain bp' where P: "Pin ops bp p fd = Inr (Some m, bp')" "kept k bp d bp' d"
          "sys_inv rinv rcap qrep k B S free bp' d (\<lparr>ft_fd = fd, ft_page = p, ft_stat = End, ft_ret = Some m\<rparr> # ?rest)"
          by (rule sys_hit [OF inv t0 q Some r])
        have e: "do_action ops qops a (bp, d, ths) =
            Inr ([], bp', d, ths[i := \<lparr>ft_fd = fd, ft_page = p, ft_stat = End, ft_ret = Some m\<rparr>])"
          using Call True P(1) by simp
        show thesis by (rule that [OF e P(2)]) (use P(3) True in \<open>auto simp: system_focus(2)\<close>)
      next
        case None
        let ?t = "\<lparr>ft_fd = fd, ft_page = p, ft_stat = Begin, ft_ret = None\<rparr>"
        have t': "moving ?t = []" "locks (bp_page_table bp) ?t = []" "pins_held ?t = []" "thread_ok k B bp d ?t"
          using q by (simp_all add: thread_ok_def moving_def locks_def victims_def pins_held_def)
        have "sys_inv rinv rcap qrep k B S free bp d (?t # ?rest)" by (rule sys_thread [OF inv t0 t'])
        then have ok': "system_ok rinv rcap qrep k B (bp, d, ths[i := ?t])" using True by (auto simp: system_focus(2))
        have e: "do_action ops qops a (bp, d, ths) = Inr ([], bp, d, ths[i := ?t])"
          using Call True Pin_miss [OF _ None, of ops] q by (simp add: request_ok_def)
        show thesis by (rule that [OF e kept_refl [OF wf]]) (simp_all add: ok')
      qed
    qed (rule stay, use Call in auto)
  next
    case (Round i)
    show thesis
    proof (cases "i < length ths \<and> ft_stat (ths ! i) \<noteq> End")
      case True
      let ?rest = "take i ths @ drop (Suc i) ths" and ?t = "ths ! i"
      have "length ?rest < length ths" using True by auto
      then have r: "length ?rest < frames (bp_page_table bp)" "length ?rest < 65535" using n by linarith+
      obtain S free where inv: "sys_inv rinv rcap qrep k B S free bp d (?t # ?rest)"
        using ok system_focus(1) [of i ths] True by blast
      obtain st b S' free' where st: "fetch_step ops qops (ft_page ?t) (ft_fd ?t)
          \<lparr>fs_stat = ft_stat ?t, fs_ret = ft_ret ?t, fs_bp = bp, fs_disk = d\<rparr> = Inr (b, st)"
        "kept k bp d (fs_bp st) (fs_disk st)"
        "sys_inv rinv rcap qrep k B S' free' (fs_bp st) (fs_disk st) (?t\<lparr>ft_stat := fs_stat st, ft_ret := fs_ret st\<rparr> # ?rest)"
        by (rule round_ok [OF laws inv _ r]) (use True in auto)
      have e: "do_action ops qops a (bp, d, ths) =
          Inr ([], fs_bp st, fs_disk st, ths[i := ?t\<lparr>ft_stat := fs_stat st, ft_ret := fs_ret st\<rparr>])"
        using Round True st(1) by (simp add: Let_def)
      show thesis by (rule that [OF e st(2)]) (use st(3) True in \<open>auto simp: system_focus(2)\<close>)
    qed (rule stay, use Round in auto)
  next
    case (Update i off data)
    show thesis
    proof (cases "i < length ths \<and> ft_stat (ths ! i) = End \<and> ft_ret (ths ! i) \<noteq> None")
      case True
      let ?rest = "take i ths @ drop (Suc i) ths" and ?t = "ths ! i"
      obtain m where m: "ft_ret ?t = Some m" using True by blast
      obtain S free where inv: "sys_inv rinv rcap qrep k B S free bp d (?t # ?rest)"
        using ok system_focus(1) [of i ths] True by blast
      have fin: "ft_stat ?t = End" and l: "off + length data \<le> PAGE_SIZE_FILE" using True a Update by simp_all
      note u = sys_update [OF inv fin m l]
      let ?bp = "bp\<lparr>bp_memory_pool := (bp_memory_pool bp)[m := overlay off data (bp_memory_pool bp ! m)],
        bp_page_table := put_pte (bp_page_table bp) m (set_dirty True (pte_of (bp_page_table bp) m))\<rparr>"
      have e: "do_action ops qops a (bp, d, ths) = Inr ([(ft_fd ?t, ft_page ?t, off, data)], ?bp, d, ths)"
        using Update True m u(1-3) l by (simp add: overlay_frame SetDirty_def)
      have "system_ok rinv rcap qrep k (apply_update (ft_fd ?t, ft_page ?t, off, data) B) (?bp, d, ths[i := ?t])"
        using u(5) True unfolding system_focus(2) [OF conjunct1 [OF True]] by blast
      then show thesis by (intro that [OF e u(4)]) (simp_all add: apply_updates_def)
    qed (rule stay, use Update in \<open>auto split: option.split\<close>)
  next
    case (Release i)
    show thesis
    proof (cases "i < length ths \<and> ft_stat (ths ! i) = End \<and> ft_ret (ths ! i) \<noteq> None")
      case True
      let ?rest = "take i ths @ drop (Suc i) ths" and ?t = "ths ! i"
      obtain m where m: "ft_ret ?t = Some m" using True by blast
      obtain S free where inv: "sys_inv rinv rcap qrep k B S free bp d (?t # ?rest)"
        using ok system_focus(1) [of i ths] True by blast
      have "ft_stat ?t = End" using True by simp
      note r = sys_release [OF inv this m]
      let ?bp = "bp\<lparr>bp_page_table := put_pte (bp_page_table bp) m (DecRefCount (pte_of (bp_page_table bp) m))\<rparr>"
      have e: "do_action ops qops a (bp, d, ths) = Inr ([], ?bp, d, ths[i := ?t\<lparr>ft_ret := None\<rparr>])"
        using Release True m r(1) by simp
      show thesis by (rule that [OF e r(2)]) (use r(3) True in \<open>auto simp: system_focus(2)\<close>)
    qed (rule stay, use Release in auto)
  qed
qed

lemma run_schedule_ok:
  assumes laws: "fifo_laws qops qrep" and "system_ok rinv rcap qrep k B (bp, d, ths)" and "\<And>a. a \<in> set acts \<Longrightarrow> action_ok k bp d a"
    and "length ths \<le> frames (bp_page_table bp)" "length ths \<le> 65535"
  obtains us bp' d' ths' where "run_schedule ops qops acts (bp, d, ths) = Inr (us, bp', d', ths')" "kept k bp d bp' d'"
    "system_ok rinv rcap qrep k (apply_updates us B) (bp', d', ths')" "length ths' = length ths"
  using assms(2-)
proof (induction acts arbitrary: B bp d ths thesis)
  case Nil
  have "disk_wf d" using Nil.prems(2) by (auto simp: system_ok_def sys_inv_def pool_core_def)
  then show ?case by (intro Nil.prems(1) [of "[]", OF _ kept_refl]) (simp_all add: Nil.prems(2))
next
  case (Cons a acts)
  obtain us1 bp1 d1 ths1 where 1: "do_action ops qops a (bp, d, ths) = Inr (us1, bp1, d1, ths1)" "kept k bp d bp1 d1"
    "system_ok rinv rcap qrep k (apply_updates us1 B) (bp1, d1, ths1)" "length ths1 = length ths"
    by (rule do_action_ok [OF laws Cons.prems(2) _ Cons.prems(4,5), of a]) (use Cons.prems(3) in auto)
  have f: "frames (bp_page_table bp1) = frames (bp_page_table bp)" using 1(2) by (simp add: kept_def)
  obtain us2 bp2 d2 ths2 where 2: "run_schedule ops qops acts (bp1, d1, ths1) = Inr (us2, bp2, d2, ths2)" "kept k bp1 d1 bp2 d2"
    "system_ok rinv rcap qrep k (apply_updates us2 (apply_updates us1 B)) (bp2, d2, ths2)" "length ths2 = length ths1"
    by (rule Cons.IH [OF _ 1(3)]) (use Cons.prems(3-) kept_action [OF 1(2)] 1(4) f in auto)
  have e: "run_schedule ops qops (a # acts) (bp, d, ths) = Inr (us1 @ us2, bp2, d2, ths2)" using 1(1) 2(1) by simp
  show ?case by (rule Cons.prems(1) [OF e kept_trans [OF 1(2) 2(2)]]) (use 1(4) 2(3,4) in simp_all)
qed

end

section \<open>From start to finish\<close>

lemma gather_idle: "gather moving (replicate n idle_fetcher) = []" "gather (locks pt) (replicate n idle_fetcher) = []"
  "gather (victims pt) (replicate n idle_fetcher) = []" "gather pins_held (replicate n idle_fetcher) = []"
  by (induction n) (simp_all add: moving_def locks_def victims_def pins_held_def idle_fetcher_def)

lemma system_start:
  assumes ok: "pool_ok rinv rcap qrep k bp d" and np: "\<And>m. m < frames (bp_page_table bp) \<Longrightarrow> \<not> pinned (bp_page_table bp) m"
  shows "system_ok rinv rcap qrep k (page_bytes bp d) (bp, d, replicate n idle_fetcher)"
proof -
  obtain S free where c: "pool_core rinv rcap qrep k bp d S free {}" and q: "quiet (bp_page_table bp)"
    using ok by (auto simp: pool_ok_def)
  have "thread_ok k (page_bytes bp d) bp d idle_fetcher" by (simp add: thread_ok_def idle_fetcher_def)
  moreover have "unat (pte_ref_count (pte_of (bp_page_table bp) m)) = 0" if "m \<in> S" for m
    using np [of m] pool_coreD(10) [OF c that] by (simp add: pinned_def)
  ultimately have "sys_inv rinv rcap qrep k (page_bytes bp d) S free bp d (replicate n idle_fetcher)"
    using c q unfolding sys_inv_def gather_idle by (simp add: quiet_def)
  then show ?thesis by (auto simp: system_ok_def)
qed

text \<open>What a thread that has returned holds.\<close>

lemma system_holder:
  assumes s: "system_ok rinv rcap qrep k B (bp, d, ths)" and t: "t \<in> set ths" "ft_stat t = End" "ft_ret t = Some m"
  shows "resident (bp_page_table bp) (ft_fd t) (ft_page t) = Some m" "pinned (bp_page_table bp) m"
    "visible (file_of d (ft_fd t)) (ft_page t) (bp_memory_pool bp ! m) = B (ft_fd t) (ft_page t)" "in_file d (ft_fd t) (ft_page t)"
proof -
  obtain S free where inv: "sys_inv rinv rcap qrep k B S free bp d ths" using s by (auto simp: system_ok_def)
  have p: "m \<in> set (pins_held t)" using t by (simp add: pins_held_def)
  show r: "resident (bp_page_table bp) (ft_fd t) (ft_page t) = Some m" by (rule pinned_resident(1) [OF inv t(1) p])
  have "m \<in> set (gather pins_held ths)" using p t(1) by auto
  then have "count_list (gather pins_held ths) m \<noteq> 0" by (simp add: count_list_0_iff)
  then have "unat (pte_ref_count (pte_of (bp_page_table bp) m)) \<noteq> 0"
    using inv pinned_resident(2) [OF inv t(1) p] by (simp add: sys_inv_def)
  then show "pinned (bp_page_table bp) m" by (auto simp: pinned_def)
  have "thread_ok k B bp d t" using inv t(1) by (simp add: sys_inv_def)
  then have q: "request_ok k bp d (ft_fd t) (ft_page t)" using t by (simp add: thread_ok_def)
  then show "in_file d (ft_fd t) (ft_page t)" by (simp add: request_ok_def)
  have "(ft_fd t, ft_page t) \<notin> set (gather (locks (bp_page_table bp)) ths)" using lock_partition(3) [OF inv, of "ft_fd t" "ft_page t"] r by auto
  then have "(ft_fd t, ft_page t) \<notin> set (gather (victims (bp_page_table bp)) ths)" using subsetD [OF victims_locks(2)] by blast
  then have "page_bytes bp d (ft_fd t) (ft_page t) = B (ft_fd t) (ft_page t)"
    using inv q unfolding sys_inv_def request_ok_def in_file_def by blast
  then show "visible (file_of d (ft_fd t)) (ft_page t) (bp_memory_pool bp ! m) = B (ft_fd t) (ft_page t)"
    using r by (simp add: page_bytes_def)
qed

text \<open>When all threads have returned and released, the pool is as it was between operations.\<close>

lemma idle_empty: "idle t \<Longrightarrow> moving t = [] \<and> locks pt t = [] \<and> victims pt t = []"
  by (simp add: idle_def moving_def locks_def victims_def)

lemma system_quiet:
  assumes s: "system_ok rinv rcap qrep k B (bp, d, ths)" and i: "\<And>t. t \<in> set ths \<Longrightarrow> idle t"
  shows "pool_ok rinv rcap qrep k bp d"
    "opened d fd \<Longrightarrow> GetPartitionId (pt_partitioner (bp_page_table bp)) p = k \<Longrightarrow> page_bytes bp d fd p = B fd p"
proof -
  obtain S free where inv: "sys_inv rinv rcap qrep k B S free bp d ths" using s by (auto simp: system_ok_def)
  have g: "gather moving ths = []" "gather (locks (bp_page_table bp)) ths = []" "gather (victims (bp_page_table bp)) ths = []"
    using i idle_empty by auto
  have "pt_word (bp_page_table bp) fd p \<noteq> Some (mword BUSY_VALUE)" for fd p
  proof
    assume w: "pt_word (bp_page_table bp) fd p = Some (mword BUSY_VALUE)"
    then have "shared_slot k (bp_page_table bp) fd p" using inv by (simp add: sys_inv_def)
    then obtain q where q: "GetPartitionId (pt_partitioner (bp_page_table bp)) q = k" "same_slot (bp_page_table bp) fd q fd p"
      by (auto simp: shared_slot_def)
    then have "pt_word (bp_page_table bp) fd q = Some (mword BUSY_VALUE)" using w same_slot_word by metis
    then have "(fd, q) \<in> set (gather (locks (bp_page_table bp)) ths)" using inv q(1) unfolding sys_inv_def by blast
    then show False using g(2) by simp
  qed
  then show "pool_ok rinv rcap qrep k bp d" using inv g(1) by (auto simp: sys_inv_def pool_ok_def quiet_def)
  show "opened d fd \<Longrightarrow> GetPartitionId (pt_partitioner (bp_page_table bp)) p = k \<Longrightarrow> page_bytes bp d fd p = B fd p"
    using inv g(3) by (simp add: sys_inv_def)
qed

text \<open>Some thread can always go on: one that holds a lock, or any of them when no lock is held.\<close>

lemma some_thread_runs:
  assumes inv: "sys_inv rinv rcap qrep k B S free bp d ths" and t: "t \<in> set ths" "ft_stat t \<noteq> End"
  obtains i where "i < length ths" "ft_stat (ths ! i) \<noteq> End"
    "\<not> (ft_stat (ths ! i) = Begin \<and> pt_word (bp_page_table bp) (ft_fd (ths ! i)) (ft_page (ths ! i)) = Some (mword BUSY_VALUE))"
proof (cases "\<exists>u\<in>set ths. ft_stat u \<noteq> End \<and> ft_stat u \<noteq> Begin")
  case True
  then show thesis using that by (auto simp: in_set_conv_nth)
next
  case False
  then have "locks (bp_page_table bp) u = []" if "u \<in> set ths" for u
    using that by (cases "ft_stat u = End"; cases "ft_stat u = Begin") (auto simp: locks_def victims_def)
  then have "gather (locks (bp_page_table bp)) ths = []" by auto
  moreover have "thread_ok k B bp d t" using inv t(1) by (simp add: sys_inv_def)
  then have "GetPartitionId (pt_partitioner (bp_page_table bp)) (ft_page t) = k" using t(2) by (auto simp: thread_ok_def request_ok_def)
  ultimately have "pt_word (bp_page_table bp) (ft_fd t) (ft_page t) \<noteq> Some (mword BUSY_VALUE)" using inv by (simp add: sys_inv_def)
  then show thesis using that t by (auto simp: in_set_conv_nth)
qed

lemma run_schedule_append:
  assumes "run_schedule ops qops as s = Inr (us, s')" "run_schedule ops qops bs s' = Inr (us', s'')"
  shows "run_schedule ops qops (as @ bs) s = Inr (us @ us', s'')"
  using assms
proof (induction as arbitrary: s us)
  case (Cons a as)
  obtain us1 s1 us2 where "do_action ops qops a s = Inr (us1, s1)" "run_schedule ops qops as s1 = Inr (us2, s')" "us = us1 @ us2"
    using Cons.prems(1) by (auto simp: bindE_def split: sum.splits prod.splits)
  then show ?case using Cons.IH Cons.prems(2) by simp
qed simp

context replacer
begin

lemma rounds_finish:
  assumes laws: "fifo_laws qops qrep" and "system_ok rinv rcap qrep k B (bp, d, ths)"
    and "length ths \<le> frames (bp_page_table bp)" "length ths \<le> 65535"
  shows "\<exists>acts bp' d' ths'. (\<forall>a\<in>set acts. \<exists>i. a = Round i) \<and> run_schedule ops qops acts (bp, d, ths) = Inr ([], bp', d', ths') \<and>
    (\<forall>t\<in>set ths'. ft_stat t = End) \<and> length ths' = length ths"
  using assms(2-)
proof (induction "sum_list (map (\<lambda>t. phases_left (ft_stat t)) ths)" arbitrary: bp d ths rule: less_induct)
  case less
  obtain S free where inv: "sys_inv rinv rcap qrep k B S free bp d ths" using less.prems(1) by (auto simp: system_ok_def)
  show ?case
  proof (cases "\<forall>t\<in>set ths. ft_stat t = End")
    case True
    then show ?thesis by (intro exI [of _ "[]"]) simp
  next
    case False
    then obtain i where i: "i < length ths" "ft_stat (ths ! i) \<noteq> End"
      "\<not> (ft_stat (ths ! i) = Begin \<and> pt_word (bp_page_table bp) (ft_fd (ths ! i)) (ft_page (ths ! i)) = Some (mword BUSY_VALUE))"
      using some_thread_runs [OF inv] by blast
    let ?rest = "take i ths @ drop (Suc i) ths" and ?t = "ths ! i"
    have "length ?rest < length ths" using i(1) by auto
    then have r: "length ?rest < frames (bp_page_table bp)" "length ?rest < 65535" using less.prems by linarith+
    obtain S1 free1 where inv1: "sys_inv rinv rcap qrep k B S1 free1 bp d (?t # ?rest)"
      using less.prems(1) system_focus(1) [OF i(1)] by blast
    obtain st b S' free' where st: "fetch_step ops qops (ft_page ?t) (ft_fd ?t)
        \<lparr>fs_stat = ft_stat ?t, fs_ret = ft_ret ?t, fs_bp = bp, fs_disk = d\<rparr> = Inr (b, st)"
      "kept k bp d (fs_bp st) (fs_disk st)"
      "sys_inv rinv rcap qrep k B S' free' (fs_bp st) (fs_disk st) (?t\<lparr>ft_stat := fs_stat st, ft_ret := fs_ret st\<rparr> # ?rest)"
      "phases_left (fs_stat st) < phases_left (ft_stat ?t)"
      by (rule round_ok [OF laws inv1 i(2) r]) (use i(3) in auto)
    let ?ths = "ths[i := ?t\<lparr>ft_stat := fs_stat st, ft_ret := fs_ret st\<rparr>]"
    have a: "do_action ops qops (Round i) (bp, d, ths) = Inr ([], fs_bp st, fs_disk st, ?ths)" using i st(1) by (simp add: Let_def)
    have ok: "system_ok rinv rcap qrep k B (fs_bp st, fs_disk st, ?ths)" using st(3) by (auto simp: system_focus(2) [OF i(1)])
    have "phases_left (ft_stat ?t) \<le> sum_list (map (\<lambda>t. phases_left (ft_stat t)) ths)"
      using i(1) elem_le_sum_list [of i "map (\<lambda>t. phases_left (ft_stat t)) ths"] by simp
    then have "sum_list (map (\<lambda>t. phases_left (ft_stat t)) ?ths) < sum_list (map (\<lambda>t. phases_left (ft_stat t)) ths)"
      using i(1) st(4) by (simp add: map_update sum_list_update)
    moreover have "frames (bp_page_table (fs_bp st)) = frames (bp_page_table bp)" using st(2) by (simp add: kept_def)
    ultimately obtain acts bp' d' ths' where "\<forall>a\<in>set acts. \<exists>i. a = Round i"
      "run_schedule ops qops acts (fs_bp st, fs_disk st, ?ths) = Inr ([], bp', d', ths')" "\<forall>t\<in>set ths'. ft_stat t = End" "length ths' = length ths"
      using less.hyps [OF _ ok] less.prems(2,3) by auto
    then show ?thesis using a by (intro exI [of _ "Round i # acts"]) auto
  qed
qed

end

section \<open>Properties\<close>

text \<open>C6: concurrent reads and writes of pages.  Let up to as many threads as the pool has frames call \<open>FetchPageSync\<close>,
  write into what they got and release it, in any interleaving of the phases.  No phase faults or aborts; a thread
  whose call has returned holds a frame that is pinned, is the one frame in which its page is, and shows the page's
  bytes at the start overwritten by all updates made so far, its own and the others'; and once all have released,
  the pool is as well formed as before, every page has the bytes the updates gave it, and no update is lost.\<close>

theorem concurrent_fetches:
  assumes "fifo_laws qops qrep" "pool_ok s3_inv s3_cap qrep k bp d"
    and "\<And>m. m < frames (bp_page_table bp) \<Longrightarrow> \<not> pinned (bp_page_table bp) m" "n \<le> frames (bp_page_table bp)" "n \<le> 65535"
    and "\<And>a. a \<in> set acts \<Longrightarrow> action_ok k bp d a"
  shows "\<exists>us bp' d' ths. run_schedule s3_ops qops acts (bp, d, replicate n idle_fetcher) = Inr (us, bp', d', ths) \<and>
    (\<forall>t\<in>set ths. \<forall>m. ft_stat t = End \<and> ft_ret t = Some m \<longrightarrow>
       resident (bp_page_table bp') (ft_fd t) (ft_page t) = Some m \<and> pinned (bp_page_table bp') m \<and>
       visible (file_of d (ft_fd t)) (ft_page t) (bp_memory_pool bp' ! m) =
         apply_updates us (page_bytes bp d) (ft_fd t) (ft_page t)) \<and>
    ((\<forall>t\<in>set ths. idle t) \<longrightarrow> pool_ok s3_inv s3_cap qrep k bp' d' \<and>
       (\<forall>fd p. opened d fd \<longrightarrow> GetPartitionId (pt_partitioner (bp_page_table bp)) p = k \<longrightarrow>
          page_bytes bp' d' fd p = apply_updates us (page_bytes bp d) fd p))"
proof -
  obtain us bp' d' ths where r: "run_schedule s3_ops qops acts (bp, d, replicate n idle_fetcher) = Inr (us, bp', d', ths)"
    "kept k bp d bp' d'" "system_ok s3_inv s3_cap qrep k (apply_updates us (page_bytes bp d)) (bp', d', ths)"
    by (rule sieve3.run_schedule_ok [OF assms(1) system_start [OF assms(2,3)] assms(6)]) (use assms(4,5) in auto)
  have o: "opened d' = opened d" "pt_partitioner (bp_page_table bp') = pt_partitioner (bp_page_table bp)"
    using r(2) by (auto simp: kept_def disk_step_def)
  have "resident (bp_page_table bp') (ft_fd t) (ft_page t) = Some m \<and> pinned (bp_page_table bp') m \<and>
      visible (file_of d (ft_fd t)) (ft_page t) (bp_memory_pool bp' ! m) = apply_updates us (page_bytes bp d) (ft_fd t) (ft_page t)"
    if "t \<in> set ths" "ft_stat t = End" "ft_ret t = Some m" for t m
    using system_holder [OF r(3) that] kept_visible [OF r(2)] o(1) by (simp add: in_file_def)
  then show ?thesis using r(1) system_quiet [OF r(3)] o by auto
qed

text \<open>Two threads on a pool of two frames: the second fetches page 0, writes into it, and reads page 1.\<close>

lemma small_request: "action_ok 0 (small_pool r) small_disk (Call i 0 0)" "action_ok 0 (small_pool r) small_disk (Call i 0 1)"
  using small_in_file small_pt_held(2)
  by (simp_all add: request_ok_def small_pt_word small_pt_sel GetPartitionId_def)

lemma small_unpinned: "m < frames small_pt \<Longrightarrow> \<not> pinned small_pt m"
  by (cases m) (auto simp: pinned_def small_pt_sel EMPTY_PTE_ref small_pt_held(2) less_Suc_eq mk_pte_def pt_simps)

lemma small_pool_frames: "m < frames (bp_page_table (small_pool r)) \<Longrightarrow> \<not> pinned (bp_page_table (small_pool r)) m"
  "2 \<le> frames (bp_page_table (small_pool r))"
  "GetPartitionId (pt_partitioner (bp_page_table (small_pool r))) q = 0"
  using small_unpinned by (simp_all add: small_pt_sel GetPartitionId_def)

lemma concurrent_fetches_witness:
  "\<exists>r us bp' d' ths. run_schedule s3_ops list_queue
     [Call 0 0 1, Call 1 0 0, Round 0, Round 0, Update 1 2 [7, 8], Release 1, Round 0, Call 1 0 1, Release 0, Release 1]
     (small_pool r, small_disk, replicate 2 idle_fetcher) = Inr (us, bp', d', ths) \<and>
     ((\<forall>t\<in>set ths. idle t) \<longrightarrow> page_bytes bp' d' 0 0 = apply_updates us (page_bytes (small_pool r) small_disk) 0 0)"
  (is "\<exists>r us bp' d' ths. run_schedule s3_ops list_queue ?acts _ = _ \<and> _")
proof -
  obtain r where r: "pool_ok s3_inv s3_cap (=) 0 (small_pool r) small_disk" by (rule small_pool_ok)
  have "action_ok 0 (small_pool r) small_disk a" if "a \<in> set ?acts" for a
    using that small_request by (auto simp: PAGE_SIZE_FILE_def)
  from concurrent_fetches [OF list_queue_laws r small_pool_frames(1,2) _ this]
  obtain us bp' d' ths where
    a: "run_schedule s3_ops list_queue ?acts (small_pool r, small_disk, replicate 2 idle_fetcher) = Inr (us, bp', d', ths)" and
    b: "(\<forall>t\<in>set ths. idle t) \<longrightarrow> (\<forall>fd p. opened small_disk fd \<longrightarrow>
        GetPartitionId (pt_partitioner (bp_page_table (small_pool r))) p = 0 \<longrightarrow>
        page_bytes bp' d' fd p = apply_updates us (page_bytes (small_pool r) small_disk) fd p)"
    by (rule exE) (assumption | simp | blast)+
  show ?thesis
    by (intro exI conjI) (rule a, use b small_pool_frames(3) small_disk_file(2) in blast)
qed

text \<open>C7: concurrent fetches do not deadlock.  From every state that threads reach by calling, writing and releasing
  in any order there is a schedule of rounds alone after which all calls have returned.\<close>

theorem concurrent_fetches_finish:
  assumes "fifo_laws qops qrep" "pool_ok s3_inv s3_cap qrep k bp d"
    and "\<And>m. m < frames (bp_page_table bp) \<Longrightarrow> \<not> pinned (bp_page_table bp) m" "n \<le> frames (bp_page_table bp)" "n \<le> 65535"
    and "\<And>a. a \<in> set acts \<Longrightarrow> action_ok k bp d a"
  shows "\<exists>rounds us bp' d' ths. (\<forall>a\<in>set rounds. \<exists>i. a = Round i) \<and>
    run_schedule s3_ops qops (acts @ rounds) (bp, d, replicate n idle_fetcher) = Inr (us, bp', d', ths) \<and>
    length ths = n \<and> (\<forall>t\<in>set ths. ft_stat t = End)"
proof -
  obtain us bp' d' ths where r: "run_schedule s3_ops qops acts (bp, d, replicate n idle_fetcher) = Inr (us, bp', d', ths)"
    "kept k bp d bp' d'" "system_ok s3_inv s3_cap qrep k (apply_updates us (page_bytes bp d)) (bp', d', ths)"
    "length ths = length (replicate n idle_fetcher)"
    by (rule sieve3.run_schedule_ok [OF assms(1) system_start [OF assms(2,3)] assms(6)]) (use assms(4,5) in auto)
  have "frames (bp_page_table bp') = frames (bp_page_table bp)" using r(2) by (simp add: kept_def)
  then obtain rounds bp2 d2 ths2 where f: "\<forall>a\<in>set rounds. \<exists>i. a = Round i"
    "run_schedule s3_ops qops rounds (bp', d', ths) = Inr ([], bp2, d2, ths2)" "\<forall>t\<in>set ths2. ft_stat t = End" "length ths2 = length ths"
    using sieve3.rounds_finish [OF assms(1) r(3)] r(4) assms(4,5) by auto
  show ?thesis using f r(4) run_schedule_append [OF r(1) f(2)] by auto
qed

lemma concurrent_fetches_finish_witness:
  "\<exists>r rounds us bp' d' ths. run_schedule s3_ops list_queue ([Call 0 0 1, Round 0, Call 1 0 1] @ rounds)
     (small_pool r, small_disk, replicate 2 idle_fetcher) = Inr (us, bp', d', ths) \<and> length ths = 2 \<and> (\<forall>t\<in>set ths. ft_stat t = End)"
  (is "\<exists>r rounds us bp' d' ths. run_schedule s3_ops list_queue (?acts @ rounds) _ = _ \<and> _")
proof -
  obtain r where r: "pool_ok s3_inv s3_cap (=) 0 (small_pool r) small_disk" by (rule small_pool_ok)
  have "action_ok 0 (small_pool r) small_disk a" if "a \<in> set ?acts" for a
    using that small_request by auto
  from concurrent_fetches_finish [OF list_queue_laws r small_pool_frames(1,2) _ this]
  have "\<exists>rounds us bp' d' ths. (\<forall>a\<in>set rounds. \<exists>i. a = Round i) \<and>
    run_schedule s3_ops list_queue (?acts @ rounds) (small_pool r, small_disk, replicate 2 idle_fetcher) = Inr (us, bp', d', ths) \<and>
    length ths = 2 \<and> (\<forall>t\<in>set ths. ft_stat t = End)"
    by (rule meta_mp) simp_all
  then show ?thesis by blast
qed

end
