(* ===== verification/AtomicPTE.thy ===== *)
theory AtomicPTE
  imports PTE
begin

text \<open>
  Several threads on one page-table entry.  The loops of \<^verbatim>\<open>include/page_table.h\<close> are run access by
  access: a step is one access of one thread to the shared word (a load, a
  \<open>compare_exchange_weak\<close>, a \<open>fetch_sub\<close>, \<open>fetch_or\<close> or \<open>fetch_and\<close>, or the store of a field) with the
  local computation that follows it, and the steps of the threads interleave in any order.  Between
  the load of a loop and its exchange the other threads may change the word, so an exchange that
  did not compare would lose their updates.
\<close>

section \<open>The calls and their accesses\<close>

text \<open>
  \<open>DecRefCount(is_write, write_to_ssd)\<close> is the calls \<open>OrDirty\<close> and \<open>AndDirty\<close>, each one atomic
  access, before the \<open>fetch_sub\<close>.  \<open>SetPage\<close> stands for the plain assignments to the file and page
  of the entry: a load and a store, without an exchange.
\<close>

datatype pte_call =
    IncCall fpage_id file_handle | DecCall | OrDirty | AndDirty
  | LockCall | UnLockCall | SetPage fpage_id file_handle

text \<open>A call run alone, as one step on the word.\<close>

definition pte_seq :: "pte_call \<Rightarrow> pte \<Rightarrow> bool \<times> pte" where
  "pte_seq call w = (case call of
      IncCall p fd \<Rightarrow> IncRefCount p fd w
    | DecCall \<Rightarrow> (True, DecRefCount w)
    | OrDirty \<Rightarrow> (True, w OR DIRTY_BIT)
    | AndDirty \<Rightarrow> (True, w AND NOT DIRTY_BIT)
    | LockCall \<Rightarrow> pte_Lock w
    | UnLockCall \<Rightarrow> pte_UnLock w
    | SetPage p fd \<Rightarrow> (True, set_fpage_id_cur p (set_fd_cur fd w)))"

text \<open>The bodies of the loops; the other calls have none.\<close>

definition call_body :: "pte_call \<Rightarrow> pte \<Rightarrow> (pte, bool) cas_body" where
  "call_body call = (case call of
      IncCall p fd \<Rightarrow> IncRefCount_body p fd
    | LockCall \<Rightarrow> Lock_body
    | UnLockCall \<Rightarrow> UnLock_body
    | _ \<Rightarrow> (\<lambda>w. GiveUp True))"

section \<open>Threads\<close>

text \<open>
  What a thread has got from the entry, and what it is doing: in a loop it keeps the word it has
  loaded, the new word it computed from it, and the result to return if the exchange succeeds.
\<close>

datatype hold = NoHold | HoldsPin fpage_id file_handle | HoldsLock

datatype activity = Resting | Trying pte_call pte pte bool | Storing pte_call pte

record pte_client =
  holds :: hold
  activity :: activity

text \<open>The entry, the threads, and the calls that have returned, with their results.\<close>

record pte_world =
  entry :: pte
  clients :: "pte_client list"
  returned :: "(nat \<times> pte_call \<times> bool) list"

definition pte_start :: "pte \<Rightarrow> nat \<Rightarrow> pte_world" where
  "pte_start w n = \<lparr>entry = w, clients = replicate n \<lparr>holds = NoHold, activity = Resting\<rparr>, returned = []\<rparr>"

definition holds_after :: "pte_call \<Rightarrow> bool \<Rightarrow> hold \<Rightarrow> hold" where
  "holds_after call r h = (if \<not> r then h else (case call of
      IncCall p fd \<Rightarrow> HoldsPin p fd | DecCall \<Rightarrow> NoHold
    | LockCall \<Rightarrow> HoldsLock | UnLockCall \<Rightarrow> NoHold | _ \<Rightarrow> h))"

definition set_activity :: "nat \<Rightarrow> activity \<Rightarrow> pte_world \<Rightarrow> pte_world" where
  "set_activity t a s = s\<lparr>clients := (clients s)[t := (clients s ! t)\<lparr>activity := a\<rparr>]\<rparr>"

text \<open>The call of thread \<open>t\<close> returns \<open>r\<close> and leaves the word \<open>w\<close>.\<close>

definition return_step :: "nat \<Rightarrow> pte_call \<Rightarrow> bool \<Rightarrow> pte \<Rightarrow> pte_world \<Rightarrow> pte_world" where
  "return_step t call r w s =
     s\<lparr>entry := w,
       clients := (clients s)[t := \<lparr>holds = holds_after call r (holds (clients s ! t)), activity = Resting\<rparr>],
       returned := returned s @ [(t, call, r)]\<rparr>"

text \<open>The body of a loop on the word that was loaded: return, or go on to the exchange.\<close>

definition body_step :: "nat \<Rightarrow> pte_call \<Rightarrow> pte_world \<Rightarrow> pte_world" where
  "body_step t call s =
     (case call_body call (entry s) of
        GiveUp r \<Rightarrow> return_step t call r (entry s) s
      | Propose new r \<Rightarrow> set_activity t (Trying call (entry s) new r) s)"

text \<open>The first access of a call.\<close>

definition first_step :: "nat \<Rightarrow> pte_call \<Rightarrow> pte_world \<Rightarrow> pte_world" where
  "first_step t call s =
     (case call of
        SetPage p fd \<Rightarrow> set_activity t (Storing call (snd (pte_seq call (entry s)))) s
      | DecCall \<Rightarrow> return_step t call True (snd (pte_seq call (entry s))) s
      | OrDirty \<Rightarrow> return_step t call True (snd (pte_seq call (entry s))) s
      | AndDirty \<Rightarrow> return_step t call True (snd (pte_seq call (entry s))) s
      | _ \<Rightarrow> body_step t call s)"

text \<open>
  The condition of a loop.  \<open>compare_exchange_weak\<close> stores the new word only if the memory
  still holds the word that was loaded; otherwise, and when it fails spuriously, the loop runs its body
  again on the word found.
\<close>

definition exchange_step :: "nat \<Rightarrow> bool \<Rightarrow> pte_world \<Rightarrow> pte_world" where
  "exchange_step t spurious s =
     (case activity (clients s ! t) of
        Trying call old new r \<Rightarrow>
          (case compare_exchange_weak old new spurious (entry s) of
             (True, w) \<Rightarrow> return_step t call r w s
           | (False, w) \<Rightarrow> body_step t call s)
      | _ \<Rightarrow> s)"

definition store_step :: "nat \<Rightarrow> pte_world \<Rightarrow> pte_world" where
  "store_step t s =
     (case activity (clients s ! t) of Storing call w \<Rightarrow> return_step t call True w s | _ \<Rightarrow> s)"

text \<open>
  The runs.  A resting thread may begin any call that \<open>may\<close> allows to a thread that holds what it
  holds; the rest is up to the scheduler.
\<close>

inductive pte_run :: "(hold \<Rightarrow> pte_call \<Rightarrow> bool) \<Rightarrow> pte \<Rightarrow> nat \<Rightarrow> pte_world \<Rightarrow> bool"
  for may w0 n where
  pte_run_start: "pte_run may w0 n (pte_start w0 n)"
| pte_run_begin: "pte_run may w0 n s \<Longrightarrow> t < n \<Longrightarrow> activity (clients s ! t) = Resting \<Longrightarrow>
    may (holds (clients s ! t)) call \<Longrightarrow> pte_run may w0 n (first_step t call s)"
| pte_run_exchange: "pte_run may w0 n s \<Longrightarrow> t < n \<Longrightarrow> pte_run may w0 n (exchange_step t spurious s)"
| pte_run_store: "pte_run may w0 n s \<Longrightarrow> t < n \<Longrightarrow> pte_run may w0 n (store_step t s)"

text \<open>The calls executed one after another, each as a single step, with the results they gave.\<close>

fun replay :: "pte \<Rightarrow> (nat \<times> pte_call \<times> bool) list \<Rightarrow> pte option" where
  "replay w [] = Some w"
| "replay w ((t, call, r) # cs) =
     (case pte_seq call w of (r', w') \<Rightarrow> if r' = r then replay w' cs else None)"

text \<open>
  The rules of the buffer pool: pin or lock when holding nothing, unpin what one has pinned, and
  change the page of the entry or unlock it when holding the lock.
\<close>

definition pool_rules :: "hold \<Rightarrow> pte_call \<Rightarrow> bool" where
  "pool_rules h call = (case call of
      IncCall p fd \<Rightarrow> h = NoHold
    | LockCall \<Rightarrow> h = NoHold
    | UnLockCall \<Rightarrow> h = HoldsLock
    | SetPage p fd \<Rightarrow> h = HoldsLock
    | _ \<Rightarrow> (case h of HoldsPin p fd \<Rightarrow> True | _ \<Rightarrow> False))"

text \<open>What the calls promise of the unpacked entry, and a sequence of them.\<close>

definition spec_call :: "pte_call \<Rightarrow> UnpackedPTE \<Rightarrow> bool \<times> UnpackedPTE" where
  "spec_call call u = (case call of
      IncCall p fd \<Rightarrow> inc_spec p fd u
    | DecCall \<Rightarrow> (True, u\<lparr>ref_count := ref_count u - 1\<rparr>)
    | OrDirty \<Rightarrow> (True, u\<lparr>dirty := True\<rparr>)
    | AndDirty \<Rightarrow> (True, u\<lparr>dirty := False\<rparr>)
    | LockCall \<Rightarrow> lock_spec u
    | UnLockCall \<Rightarrow> unlock_spec u
    | SetPage p fd \<Rightarrow> (True, u\<lparr>fd_cur := take_bit 13 fd, fpage_id_cur := p\<rparr>))"

fun spec_replay :: "UnpackedPTE \<Rightarrow> (nat \<times> pte_call \<times> bool) list \<Rightarrow> UnpackedPTE option" where
  "spec_replay u [] = Some u"
| "spec_replay u ((t, call, r) # cs) =
     (case spec_call call u of (r', u') \<Rightarrow> if r' = r then spec_replay u' cs else None)"

definition pinning :: "pte_client \<Rightarrow> bool" where
  "pinning c \<longleftrightarrow> (\<exists>p fd. holds c = HoldsPin p fd)"

definition locking :: "pte_client \<Rightarrow> bool" where
  "locking c \<longleftrightarrow> holds c = HoldsLock"

section \<open>Steps and the calls run alone\<close>

lemma call_body_seq:
  "call_body call w = Propose new r \<Longrightarrow> pte_seq call w = (r, new)"
  "call_body call w = GiveUp r \<Longrightarrow> call \<in> {LockCall, UnLockCall} \<union> range (case_prod IncCall) \<Longrightarrow> pte_seq call w = (r, w)"
  by (auto simp: call_body_def pte_seq_def IncRefCount_def pte_Lock_def pte_UnLock_def cas_seq_def split: pte_call.splits)

lemma loop_call_iff:
  "call \<in> {LockCall, UnLockCall} \<union> range (case_prod IncCall) \<longleftrightarrow>
   call \<notin> {DecCall, OrDirty, AndDirty} \<and> (\<forall>p fd. call \<noteq> SetPage p fd)"
  by (cases call) auto

lemma return_step_sel [simp]:
  "entry (return_step t call r w s) = w"
  "returned (return_step t call r w s) = returned s @ [(t, call, r)]"
  "clients (return_step t call r w s) =
     (clients s)[t := \<lparr>holds = holds_after call r (holds (clients s ! t)), activity = Resting\<rparr>]"
  by (simp_all add: return_step_def)

lemma set_activity_sel [simp]:
  "entry (set_activity t a s) = entry s"
  "returned (set_activity t a s) = returned s"
  "clients (set_activity t a s) = (clients s)[t := (clients s ! t)\<lparr>activity := a\<rparr>]"
  by (simp_all add: set_activity_def)

text \<open>
  A step either only changes what the thread is doing, or returns with the effect the call has
  when it runs alone on the word found in memory.
\<close>

definition trying_ok :: "activity \<Rightarrow> bool" where
  "trying_ok a = (case a of Trying call old new r \<Rightarrow> call_body call old = Propose new r | _ \<Rightarrow> True)"

lemma body_step_cases:
  assumes "call \<in> {LockCall, UnLockCall} \<union> range (case_prod IncCall)"
  obtains (returns) r w where "pte_seq call (entry s) = (r, w)" "body_step t call s = return_step t call r w s"
  | (loops) new r where "call_body call (entry s) = Propose new r"
      "body_step t call s = set_activity t (Trying call (entry s) new r) s"
  using call_body_seq(2) [OF _ assms] by (cases "call_body call (entry s)") (auto simp: body_step_def)

lemma first_step_cases:
  obtains (returns) r w where "pte_seq call (entry s) = (r, w)" "first_step t call s = return_step t call r w s"
  | (loops) new r where "call_body call (entry s) = Propose new r"
      "first_step t call s = set_activity t (Trying call (entry s) new r) s"
  | (stores) p fd where "call = SetPage p fd"
      "first_step t call s = set_activity t (Storing call (snd (pte_seq call (entry s)))) s"
proof (cases "call \<in> {LockCall, UnLockCall} \<union> range (case_prod IncCall)")
  case True
  then have "first_step t call s = body_step t call s" by (auto simp: first_step_def)
  then show thesis using body_step_cases [OF True, of s t] returns loops by metis
next
  case False
  then consider "call \<in> {DecCall, OrDirty, AndDirty}" | p fd where "call = SetPage p fd"
    unfolding loop_call_iff by blast
  then show thesis
  proof cases
    case 1
    then have "pte_seq call (entry s) = (True, snd (pte_seq call (entry s)))"
      "first_step t call s = return_step t call True (snd (pte_seq call (entry s))) s"
      by (auto simp: first_step_def pte_seq_def)
    then show thesis by (rule returns)
  next
    case 2
    then show thesis by (intro stores) (simp_all add: first_step_def)
  qed
qed

lemma exchange_step_cases:
  assumes "trying_ok (activity (clients s ! t))"
  obtains (idle) "exchange_step t spurious s = s"
  | (returns) call old new r r' w where "activity (clients s ! t) = Trying call old new r"
      "pte_seq call (entry s) = (r', w)" "exchange_step t spurious s = return_step t call r' w s"
  | (loops) call old new r new' r' where "activity (clients s ! t) = Trying call old new r"
      "call_body call (entry s) = Propose new' r'"
      "exchange_step t spurious s = set_activity t (Trying call (entry s) new' r') s"
proof (cases "activity (clients s ! t)")
  case (Trying call old new r)
  then have b: "call_body call old = Propose new r" using assms by (simp add: trying_ok_def)
  have loop: "call \<in> {LockCall, UnLockCall} \<union> range (case_prod IncCall)"
    unfolding loop_call_iff using b by (auto simp: call_body_def)
  show thesis
  proof (cases "entry s = old \<and> \<not> spurious")
    case True
    then show thesis
      using returns [OF Trying] call_body_seq(1) [OF b] Trying
      by (simp add: exchange_step_def compare_exchange_weak_def)
  next
    case False
    then have e: "exchange_step t spurious s = body_step t call s"
      using Trying by (auto simp: exchange_step_def compare_exchange_weak_def)
    show thesis
      using body_step_cases [OF loop, of s t] returns [OF Trying] loops [OF Trying] unfolding e by metis
  qed
next
  case Resting
  then show thesis using idle by (simp add: exchange_step_def)
next
  case (Storing call w)
  then show thesis using idle by (simp add: exchange_step_def)
qed

lemma store_step_cases:
  obtains (idle) "store_step t s = s"
  | (returns) call w where "activity (clients s ! t) = Storing call w" "store_step t s = return_step t call True w s"
  by (cases "activity (clients s ! t)") (auto simp: store_step_def)

section \<open>Linearization\<close>

lemma replay_append:
  "replay w (h @ [(t, call, r)]) =
   (case replay w h of None \<Rightarrow> None
    | Some v \<Rightarrow> (case pte_seq call v of (r', w') \<Rightarrow> if r' = r then Some w' else None))"
  by (induction w h rule: replay.induct) (auto split: prod.splits option.splits)

definition loop_only :: "pte_client \<Rightarrow> bool" where
  "loop_only c \<longleftrightarrow> trying_ok (activity c) \<and> (\<forall>call w. activity c \<noteq> Storing call w)"

definition linear :: "pte \<Rightarrow> nat \<Rightarrow> pte_world \<Rightarrow> bool" where
  "linear w0 n s \<longleftrightarrow> length (clients s) = n \<and> replay w0 (returned s) = Some (entry s) \<and>
     (\<forall>c\<in>set (clients s). loop_only c)"

lemma linear_update:
  assumes "linear w0 n s" "loop_only c" "replay w0 (returned s') = Some (entry s')" "clients s' = (clients s)[t := c]"
  shows "linear w0 n s'"
proof -
  have "\<forall>x\<in>set (clients s'). loop_only x"
    using assms(1,2) set_update_subset_insert [of "clients s" t c] unfolding assms(4) linear_def by blast
  then show ?thesis using assms(1,3,4) by (simp add: linear_def)
qed

lemma linear_return:
  assumes "linear w0 n s" "pte_seq call (entry s) = (r, w)"
  shows "linear w0 n (return_step t call r w s)"
  by (rule linear_update [OF assms(1) _ _ return_step_sel(3)])
    (use assms in \<open>simp_all add: linear_def replay_append loop_only_def trying_ok_def\<close>)

lemma linear_try:
  assumes "linear w0 n s" "call_body call (entry s) = Propose new r"
  shows "linear w0 n (set_activity t (Trying call (entry s) new r) s)"
  by (rule linear_update [OF assms(1) _ _ set_activity_sel(3)])
    (use assms in \<open>simp_all add: linear_def loop_only_def trying_ok_def\<close>)

lemma pte_run_linear:
  assumes "pte_run may w0 n s" and no_store: "\<And>h p fd. \<not> may h (SetPage p fd)"
  shows "linear w0 n s"
  using assms(1)
proof induction
  case pte_run_start
  then show ?case by (simp add: linear_def pte_start_def loop_only_def trying_ok_def)
next
  case (pte_run_begin s t call)
  show ?case
    by (cases rule: first_step_cases [of call s t])
      (use linear_return [OF pte_run_begin.IH] linear_try [OF pte_run_begin.IH] pte_run_begin(4) no_store in auto)
next
  case (pte_run_exchange s t spurious)
  then have "trying_ok (activity (clients s ! t))" by (simp add: linear_def loop_only_def)
  then show ?case
    by (cases rule: exchange_step_cases [of s t spurious])
      (use linear_return [OF pte_run_exchange.IH] linear_try [OF pte_run_exchange.IH] pte_run_exchange.IH in auto)
next
  case (pte_run_store s t)
  then have "store_step t s = s" by (cases rule: store_step_cases [of t s]) (auto simp: linear_def loop_only_def)
  then show ?case using pte_run_store.IH by simp
qed


section \<open>Pins and the lock\<close>

definition client_ok :: "pte \<Rightarrow> pte_client \<Rightarrow> bool" where
  "client_ok w c \<longleftrightarrow>
     (\<forall>p fd. holds c = HoldsPin p fd \<longrightarrow> pte_fpage_id_cur w = p \<and> pte_fd_cur w = fd) \<and>
     trying_ok (activity c) \<and>
     (\<forall>call old new r. activity c = Trying call old new r \<longrightarrow> pool_rules (holds c) call) \<and>
     (\<forall>call v. activity c = Storing call v \<longrightarrow> pool_rules (holds c) call \<and> locking c \<and> pte_seq call w = (True, v))"

definition guarded :: "nat \<Rightarrow> pte_world \<Rightarrow> bool" where
  "guarded n s \<longleftrightarrow> length (clients s) = n \<and> pte_initialized (entry s) \<and>
     (\<forall>u<n. client_ok (entry s) (clients s ! u)) \<and>
     length (filter pinning (clients s)) = unat (pte_ref_count (entry s)) \<and>
     length (filter locking (clients s)) = of_bool (pte_busy (entry s)) \<and>
     (pte_busy (entry s) \<longrightarrow> pte_ref_count (entry s) = 0)"

lemma guardedD:
  assumes "guarded n s"
  shows "length (clients s) = n" "pte_initialized (entry s)" "u < n \<Longrightarrow> client_ok (entry s) (clients s ! u)"
    "length (filter pinning (clients s)) = unat (pte_ref_count (entry s))"
    "length (filter locking (clients s)) = of_bool (pte_busy (entry s))"
    "pte_busy (entry s) \<Longrightarrow> pte_ref_count (entry s) = 0"
  using assms by (simp_all add: guarded_def)

lemma count_update:
  "t < length xs \<Longrightarrow>
   length (filter P (xs[t := x])) + of_bool (P (xs ! t)) = length (filter P xs) + of_bool (P x)"
proof (induction xs arbitrary: t)
  case (Cons y ys)
  then show ?case
  proof (cases t)
    case (Suc m)
    then show ?thesis using Cons.IH [of m] Cons.prems by auto
  qed simp
qed simp

lemma count_two:
  assumes "t < length xs" "u < length xs" "t \<noteq> u" "P (xs ! t)" "P (xs ! u)"
  shows "2 \<le> length (filter P xs)"
proof -
  have "{t, u} \<subseteq> {i. i < length xs \<and> P (xs ! i)}" using assms by auto
  from card_mono [OF _ this] show ?thesis using assms(3) by (simp add: length_filter_conv_card)
qed

lemma count_one: "t < length xs \<Longrightarrow> P (xs ! t) \<Longrightarrow> 0 < length (filter P xs)"
  by (simp add: length_filter_conv_card card_gt_0_iff) blast

lemma guarded_update:
  assumes "guarded n s" "t < n" "clients s' = (clients s)[t := c]"
    and "\<And>u. u < n \<Longrightarrow> u \<noteq> t \<Longrightarrow> client_ok (entry s') (clients s ! u)" "client_ok (entry s') c"
    and "pte_initialized (entry s')"
    and "unat (pte_ref_count (entry s')) + of_bool (pinning (clients s ! t)) =
      unat (pte_ref_count (entry s)) + of_bool (pinning c)"
    and "of_bool (pte_busy (entry s')) + of_bool (locking (clients s ! t)) =
      (of_bool (pte_busy (entry s)) + of_bool (locking c) :: nat)"
    and "pte_busy (entry s') \<Longrightarrow> pte_ref_count (entry s') = 0"
  shows "guarded n s'"
proof -
  note g = guardedD [OF assms(1)]
  have "client_ok (entry s') (clients s' ! u)" if "u < n" for u
    using assms(4,5) g(1) that assms(2) by (simp add: assms(3) nth_list_update)
  moreover have "length (filter pinning (clients s')) = unat (pte_ref_count (entry s'))"
    using count_update [of t "clients s" pinning c] assms(2,7) g(1,4) by (simp add: assms(3))
  moreover have "length (filter locking (clients s')) = of_bool (pte_busy (entry s'))"
    using count_update [of t "clients s" locking c] assms(2,8) g(1,5) by (simp add: assms(3))
  ultimately show ?thesis using assms(6,9) g(1) by (simp add: guarded_def assms(3))
qed

text \<open>The lock excludes the other threads.\<close>

lemma lock_alone:
  assumes "guarded n s" "t < n" "locking (clients s ! t)"
  shows "pte_busy (entry s)" "u < n \<Longrightarrow> \<not> pinning (clients s ! u)" "u < n \<Longrightarrow> u \<noteq> t \<Longrightarrow> \<not> locking (clients s ! u)"
proof -
  note g = guardedD [OF assms(1)]
  show b: "pte_busy (entry s)"
    using count_one [of t "clients s" locking] assms(2,3) g(1,5) by (auto split: if_splits)
  show "\<not> pinning (clients s ! u)" if "u < n"
    using count_one [of u "clients s" pinning] that g(1,4) g(6) [OF b] by auto
  show "\<not> locking (clients s ! u)" if "u < n" "u \<noteq> t"
    using count_two [of u "clients s" t locking] that assms(2,3) g(1,5) by (cases "pte_busy (entry s)") auto
qed

lemma not_busy_no_lock:
  assumes "guarded n s" "u < n" "\<not> pte_busy (entry s)"
  shows "\<not> locking (clients s ! u)"
  using lock_alone(1) [OF assms(1,2)] assms(3) by blast

lemma client_ok_cong:
  assumes "client_ok w c" "pinning c \<Longrightarrow> pte_fpage_id_cur v = pte_fpage_id_cur w \<and> pte_fd_cur v = pte_fd_cur w"
    and "\<not> locking c"
  shows "client_ok v c"
  using assms unfolding client_ok_def pinning_def by blast

lemma client_ok_rest:
  "client_ok w \<lparr>holds = h, activity = Resting\<rparr> \<longleftrightarrow>
     (\<forall>p fd. h = HoldsPin p fd \<longrightarrow> pte_fpage_id_cur w = p \<and> pte_fd_cur w = fd)"
  by (simp add: client_ok_def trying_ok_def)


lemma seq_False: "pte_seq call w = (False, w') \<Longrightarrow> w' = w"
  by (auto simp: pte_seq_def IncRefCount_def pte_Lock_def pte_UnLock_def cas_seq_def IncRefCount_body_def
      Lock_body_def UnLock_body_def split: pte_call.splits if_splits)

text \<open>A step that changes neither the entry nor what the thread holds.\<close>

lemma guarded_same:
  assumes "guarded n s" "t < n" "clients s' = (clients s)[t := c]" "entry s' = entry s"
    and "holds c = holds (clients s ! t)" "client_ok (entry s) c"
  shows "guarded n s'"
proof -
  note g = guardedD [OF assms(1)]
  show ?thesis
    by (rule guarded_update [OF assms(1-3)]) (use g assms in \<open>simp_all add: pinning_def locking_def\<close>)
qed

text \<open>A successful call of a thread that obeys the rules.\<close>

lemma guarded_success:
  assumes g: "guarded n s" and t: "t < n" and n: "n < 65536"
    and rules: "pool_rules (holds (clients s ! t)) call" and seq: "pte_seq call (entry s) = (True, w)"
  shows "guarded n (return_step t call True w s)"
proof -
  note G = guardedD [OF g]
  let ?w = "entry s" and ?h = "holds (clients s ! t)"
  let ?c = "\<lparr>holds = holds_after call True ?h, activity = Resting\<rparr>"
  have pins: "length (filter pinning (clients s)) < n" if "\<not> pinning (clients s ! t)"
  proof -
    have "{i. i < n \<and> pinning (clients s ! i)} \<subset> {..<n}" using that t by auto
    from psubset_card_mono [OF _ this] show ?thesis using G(1) by (simp add: length_filter_conv_card)
  qed
  have up: "guarded n (return_step t call True w s)"
    if "\<And>u. u < n \<Longrightarrow> u \<noteq> t \<Longrightarrow> client_ok w (clients s ! u)" "client_ok w ?c" "pte_initialized w"
      "unat (pte_ref_count w) + of_bool (pinning (clients s ! t)) = unat (pte_ref_count ?w) + of_bool (pinning ?c)"
      "of_bool (pte_busy w) + of_bool (locking (clients s ! t)) = (of_bool (pte_busy ?w) + of_bool (locking ?c) :: nat)"
      "pte_busy w \<Longrightarrow> pte_ref_count w = 0"
    by (rule guarded_update [OF g t return_step_sel(3)]) (use that in simp_all)
  have others: "client_ok v (clients s ! u)"
    if "u < n" "\<not> pte_busy ?w" "pte_fpage_id_cur v = pte_fpage_id_cur ?w" "pte_fd_cur v = pte_fd_cur ?w" for u v
    by (rule client_ok_cong [OF G(3) [OF that(1)]]) (use that not_busy_no_lock [OF g] in simp_all)
  have alone: "client_ok v (clients s ! u)" if "locking (clients s ! t)" "u < n" "u \<noteq> t" for u v
    by (rule client_ok_cong [OF G(3) [OF that(2)]]) (use lock_alone [OF g t that(1)] that(2,3) in blast)+
  have unpin: "guarded n (return_step t call True w s)"
    if "pinning (clients s ! t)" "pte_fpage_id_cur w = pte_fpage_id_cur ?w" "pte_fd_cur w = pte_fd_cur ?w"
      "pte_initialized w = pte_initialized ?w" "pte_busy w = pte_busy ?w"
      "unat (pte_ref_count w) + 1 = unat (pte_ref_count ?w) + of_bool (pinning ?c)" "\<not> locking ?c"
      "pinning ?c \<Longrightarrow> holds_after call True ?h = ?h"
  proof -
    have nb: "\<not> pte_busy ?w"
      using count_one [of t "clients s" pinning] t that(1) G(1,4,6) by auto
    have "client_ok w ?c"
      using that(2,3,7,8) G(3) [OF t] that(1) unfolding client_ok_rest client_ok_def pinning_def locking_def
      by (auto split: hold.splits simp: trying_ok_def)
    moreover have "\<not> locking (clients s ! t)" using not_busy_no_lock [OF g t nb] .
    ultimately show ?thesis
      by (intro up) (use that nb G(2) others in \<open>simp_all\<close>)
  qed
  show ?thesis
  proof (cases call)
    case (IncCall p fd)
    then have w: "w = ?w + 1" and nb: "\<not> pte_busy ?w" "pte_fpage_id_cur ?w = p" "pte_fd_cur ?w = fd"
      using seq by (auto simp: pte_seq_def IncRefCount_def cas_seq_def IncRefCount_body_def split: if_splits)
    have h: "?h = NoHold" using rules IncCall by (simp add: pool_rules_def)
    then have "unat (pte_ref_count ?w) < 65535" using pins G(4) n by (simp add: pinning_def)
    then have r: "pte_ref_count ?w < 65535" by (simp add: word_less_nat_alt)
    note f = inc_fields [OF r]
    have "unat (pte_ref_count ?w + 1) = unat (pte_ref_count ?w) + 1"
      using \<open>unat (pte_ref_count ?w) < 65535\<close> by (simp add: unat_word_ariths)
    then show ?thesis
      by (intro up) (use f w nb h G(2) others IncCall in \<open>simp_all add: client_ok_rest holds_after_def pinning_def locking_def\<close>)
  next
    case DecCall
    then have w: "w = ?w - 1" using seq by (simp add: pte_seq_def DecRefCount_def)
    have p: "pinning (clients s ! t)" using rules DecCall by (simp add: pool_rules_def pinning_def split: hold.splits)
    then have nz: "0 < unat (pte_ref_count ?w)"
      using count_one [of t "clients s" pinning] t G(1,4) by simp
    then have z: "pte_ref_count ?w \<noteq> 0" by auto
    have "unat (pte_ref_count ?w - 1) + 1 = unat (pte_ref_count ?w)" using unat_minus_one [OF z] nz by simp
    then show ?thesis
      by (intro unpin [OF p]) (use dec_fields [OF z] w DecCall in \<open>simp_all add: holds_after_def pinning_def locking_def\<close>)
  next
    case OrDirty
    have p: "pinning (clients s ! t)" using rules OrDirty by (simp add: pool_rules_def pinning_def split: hold.splits)
    then show ?thesis
      by (intro unpin [OF p]) (use seq OrDirty in \<open>auto simp: pte_seq_def set_dirty_or pt_simps holds_after_def pinning_def locking_def\<close>)
  next
    case AndDirty
    have p: "pinning (clients s ! t)" using rules AndDirty by (simp add: pool_rules_def pinning_def split: hold.splits)
    then show ?thesis
      by (intro unpin [OF p]) (use seq AndDirty in \<open>auto simp: pte_seq_def clear_dirty_and pt_simps holds_after_def pinning_def locking_def\<close>)
  next
    case LockCall
    then have w: "w = set_busy True ?w" and nb: "\<not> pte_busy ?w" "pte_ref_count ?w = 0"
      using seq G(2) by (auto simp: pte_seq_def pte_Lock_def cas_seq_def Lock_body_def split: if_splits)
    have h: "?h = NoHold" using rules LockCall by (simp add: pool_rules_def)
    show ?thesis
      by (intro up) (use w nb h G(2) others LockCall in \<open>simp_all add: pt_simps client_ok_rest holds_after_def pinning_def locking_def\<close>)
  next
    case UnLockCall
    then have w: "w = set_ref_count 0 (set_busy False ?w)" and b: "pte_busy ?w"
      using seq by (auto simp: pte_seq_def pte_UnLock_def cas_seq_def UnLock_body_def split: if_splits)
    have h: "?h = HoldsLock" using rules UnLockCall by (simp add: pool_rules_def)
    then have l: "locking (clients s ! t)" by (simp add: locking_def)
    show ?thesis
      by (intro up) (use w b h l G(2) G(6) [OF b] alone UnLockCall in
          \<open>simp_all add: pt_simps client_ok_rest holds_after_def pinning_def locking_def\<close>)
  next
    case (SetPage p fd)
    then have w: "w = set_fpage_id_cur p (set_fd_cur fd ?w)" using seq by (simp add: pte_seq_def)
    have h: "?h = HoldsLock" using rules SetPage by (simp add: pool_rules_def)
    then have l: "locking (clients s ! t)" by (simp add: locking_def)
    note b = lock_alone(1) [OF g t l]
    show ?thesis
      by (intro up) (use w b h l G(2) G(6) [OF b] alone SetPage in
          \<open>simp_all add: pt_simps client_ok_rest holds_after_def pinning_def locking_def\<close>)
  qed
qed

lemma guarded_return:
  assumes g: "guarded n s" and t: "t < n" and n: "n < 65536"
    and rules: "pool_rules (holds (clients s ! t)) call" and seq: "pte_seq call (entry s) = (r, w)"
  shows "guarded n (return_step t call r w s)"
proof (cases r)
  case True
  then show ?thesis using guarded_success [OF g t n rules] seq by simp
next
  case False
  show ?thesis
  proof (rule guarded_same [OF g t return_step_sel(3)])
    show "entry (return_step t call r w s) = entry s" using seq seq_False False by simp
    show "client_ok (entry s) \<lparr>holds = holds_after call r (holds (clients s ! t)), activity = Resting\<rparr>"
      using guardedD(3) [OF g t] False unfolding client_ok_rest by (simp add: client_ok_def holds_after_def)
  qed (simp add: False holds_after_def)
qed

lemma guarded_activity:
  assumes g: "guarded n s" and t: "t < n" and rules: "pool_rules (holds (clients s ! t)) call"
  shows "call_body call (entry s) = Propose new r \<Longrightarrow> guarded n (set_activity t (Trying call (entry s) new r) s)"
    and "call = SetPage p fd \<Longrightarrow> guarded n (set_activity t (Storing call (snd (pte_seq call (entry s)))) s)"
  by (rule guarded_same [OF g t set_activity_sel(3)];
      use guardedD(3) [OF g t] rules in \<open>simp add: client_ok_def trying_ok_def pool_rules_def pte_seq_def locking_def\<close>)+

lemma spec_replay_append:
  "spec_replay u (h @ [(t, call, r)]) =
   (case spec_replay u h of None \<Rightarrow> None
    | Some v \<Rightarrow> (case spec_call call v of (r', u') \<Rightarrow> if r' = r then Some u' else None))"
  by (induction u h rule: spec_replay.induct) (auto split: prod.splits option.splits)

text \<open>Under the rules the count stays in its field, so every call does what it promises.\<close>

lemma pins_less:
  assumes "guarded n s" "t < n" "n < 65536" "\<not> pinning (clients s ! t)"
  shows "pte_ref_count (entry s) < 65535"
proof -
  note G = guardedD [OF assms(1)]
  have "{i. i < n \<and> pinning (clients s ! i)} \<subset> {..<n}" using assms(2,4) by auto
  from psubset_card_mono [OF _ this] show ?thesis
    using G(1,4) assms(3) by (simp add: length_filter_conv_card word_less_nat_alt)
qed

lemma pins_positive:
  assumes "guarded n s" "t < n" "pinning (clients s ! t)"
  shows "pte_ref_count (entry s) \<noteq> 0"
  using count_one [of t "clients s" pinning] guardedD(1,4) [OF assms(1)] assms(2,3) by auto

lemma seq_spec:
  assumes g: "guarded n s" and t: "t < n" "n < 65536" and rules: "pool_rules (holds (clients s ! t)) call"
  shows "map_prod id ToUnpacked (pte_seq call (entry s)) = spec_call call (ToUnpacked (entry s))"
proof (cases call)
  case (IncCall p fd)
  then have "\<not> pinning (clients s ! t)" using rules by (simp add: pool_rules_def pinning_def)
  from IncRefCount_spec [OF pins_less [OF g t this]] show ?thesis
    using IncCall by (simp add: pte_seq_def spec_call_def)
next
  case DecCall
  then have "pinning (clients s ! t)" using rules by (simp add: pool_rules_def pinning_def split: hold.splits)
  from ToUnpacked_sub_one [OF pins_positive [OF g t(1) this]] show ?thesis
    using DecCall by (simp add: pte_seq_def spec_call_def DecRefCount_def pt_simps)
qed (simp_all add: pte_seq_def spec_call_def Lock_spec UnLock_spec set_dirty_or clear_dirty_and ToUnpacked_set)

definition refines :: "pte \<Rightarrow> pte_world \<Rightarrow> bool" where
  "refines w0 s \<longleftrightarrow> spec_replay (ToUnpacked w0) (returned s) = Some (ToUnpacked (entry s))"

lemma refines_return:
  assumes "refines w0 s" "guarded n s" "t < n" "n < 65536" "pool_rules (holds (clients s ! t)) call"
    and "pte_seq call (entry s) = (r, w)"
  shows "refines w0 (return_step t call r w s)"
proof -
  have "spec_call call (ToUnpacked (entry s)) = (r, ToUnpacked w)" using seq_spec [OF assms(2-5)] assms(6) by simp
  then show ?thesis using assms(1) by (simp add: refines_def spec_replay_append)
qed

lemma refines_activity: "refines w0 s \<Longrightarrow> refines w0 (set_activity t a s)"
  by (simp add: refines_def)

lemma pte_run_guarded:
  assumes "pte_run pool_rules w0 n s" "n < 65536" "pte_initialized w0" "\<not> pte_busy w0" "pte_ref_count w0 = 0"
  shows "guarded n s \<and> refines w0 s"
  using assms(1)
proof induction
  case pte_run_start
  have "filter pinning (clients (pte_start w0 n)) = []" "filter locking (clients (pte_start w0 n)) = []"
    by (auto simp: pte_start_def pinning_def locking_def filter_empty_conv)
  then show ?case
    using assms(3-5) by (simp add: guarded_def refines_def pte_start_def client_ok_def trying_ok_def)
next
  case (pte_run_begin s t call)
  note t = pte_run_begin.hyps(2) and rules = pte_run_begin.hyps(4)
  have g: "guarded n s" "refines w0 s" using pte_run_begin.IH by simp_all
  show ?case
    by (cases rule: first_step_cases [of call s t])
      (use guarded_return [OF g(1) t assms(2) rules] refines_return [OF g(2,1) t assms(2) rules]
        guarded_activity [OF g(1) t rules] refines_activity [OF g(2)] in auto)
next
  case (pte_run_exchange s t spurious)
  note t = pte_run_exchange.hyps(2)
  have g: "guarded n s" "refines w0 s" using pte_run_exchange.IH by simp_all
  have ok: "client_ok (entry s) (clients s ! t)" using guardedD(3) [OF g(1) t] .
  then have "trying_ok (activity (clients s ! t))" by (simp add: client_ok_def)
  then show ?case
  proof (cases rule: exchange_step_cases [of s t spurious])
    case idle
    then show ?thesis using g by simp
  next
    case (returns call old new r r' w)
    then have rules: "pool_rules (holds (clients s ! t)) call" using ok by (simp add: client_ok_def)
    show ?thesis
      unfolding returns(3) using guarded_return [OF g(1) t assms(2) rules returns(2)]
        refines_return [OF g(2,1) t assms(2) rules returns(2)] by simp
  next
    case (loops call old new r new' r')
    then have rules: "pool_rules (holds (clients s ! t)) call" using ok by (simp add: client_ok_def)
    show ?thesis
      unfolding loops(3) using guarded_activity(1) [OF g(1) t rules loops(2)] refines_activity [OF g(2)] by simp
  qed
next
  case (pte_run_store s t)
  note t = pte_run_store.hyps(2)
  have g: "guarded n s" "refines w0 s" using pte_run_store.IH by simp_all
  have ok: "client_ok (entry s) (clients s ! t)" using guardedD(3) [OF g(1) t] .
  show ?case
  proof (cases rule: store_step_cases [of t s])
    case idle
    then show ?thesis using g by simp
  next
    case (returns call w)
    then have rules: "pool_rules (holds (clients s ! t)) call" and seq: "pte_seq call (entry s) = (True, w)"
      using ok by (simp_all add: client_ok_def)
    show ?thesis
      unfolding returns(2) using guarded_return [OF g(1) t assms(2) rules seq]
        refines_return [OF g(2,1) t assms(2) rules seq] by simp
  qed
qed

section \<open>Properties\<close>

text \<open>C27: no update of a page-table entry is lost.  However the single accesses of any number of threads
  interleave, with exchanges that fail spuriously and whatever calls each thread makes, the word is
  at any time what the calls that have returned give when they are executed one
  after another in the order of their last access, each as one atomic step, and each of them has
  returned what it then returns: an increment succeeds exactly when the entry is not busy and holds
  its page, and then adds one to the count the others left.  The plain assignments to fields are not
  among the calls here.\<close>

theorem IncRefCount_atomic:
  assumes "pte_run may w0 n s" "\<And>h p fd. \<not> may h (SetPage p fd)"
  shows "replay w0 (returned s) = Some (entry s)"
  using pte_run_linear [OF assms] by (simp add: linear_def)

text \<open>Two threads load the same word; the exchange of the second one fails once and then counts both.\<close>

lemma IncRefCount_atomic_witness:
  "\<exists>s. pte_run (\<lambda>h call. call = IncCall 7 2) (mk_pte 0 2 True False False 7) 2 s \<and>
     returned s = [(0, IncCall 7 2, True), (1, IncCall 7 2, True)] \<and>
     replay (mk_pte 0 2 True False False 7) (returned s) = Some (mk_pte 2 2 True False False 7)"
proof -
  let ?may = "\<lambda>(h :: hold) call. call = IncCall 7 2" and ?w = "mk_pte 0 2 True False False 7"
  define s where "s = exchange_step 1 False (exchange_step 1 False (exchange_step 0 False
    (first_step 1 (IncCall 7 2) (first_step 0 (IncCall 7 2) (pte_start ?w 2)))))"
  have "pte_run ?may ?w 2 s"
    unfolding s_def
    by (intro pte_run_exchange pte_run_begin pte_run_start) (code_simp | simp)+
  moreover have e: "returned s = [(0, IncCall 7 2, True), (1, IncCall 7 2, True)] \<and>
      entry s = mk_pte 2 2 True False False 7" unfolding s_def by code_simp
  ultimately show ?thesis using IncRefCount_atomic [of ?may ?w 2 s] by auto
qed



end
