(* ===== verification/Uring.thy ===== *)
theory Uring
  imports Disk "HOL-Library.Multiset"
begin

text \<open>
  \<open>IOURing\<close>, the asynchronous backend of \<^verbatim>\<open>include/io_backend.h\<close>.  The rings that it shares with the kernel are
  those of liburing, outside the repository: operations of a record \<open>uring_ops\<close> on a state of their own, with the
  documented behaviour stated by \<open>uring_laws\<close>.  The kernel may complete the requests in flight in any order and at any
  time.  Proved: in every interleaving with the kernel each accepted request is carried out and its message posted at most
  once, the message after the transfer, and when the counters are zero all have been posted.
\<close>

definition IOURing_MAX_DEPTH :: nat where
  "IOURing_MAX_DEPTH = 32"

definition PAGE_SIZE_MEMORY :: nat where
  "PAGE_SIZE_MEMORY = 4096"

section \<open>The rings\<close>

datatype sqe_op = Prep_read | Prep_write | Prep_readv | Prep_writev

text \<open>A request: the handle of the operating system, the buffers with their lengths, and the message to post.\<close>

record sqe =
  sq_op :: sqe_op
  sq_file :: nat
  sq_offset :: u64
  sq_bufs :: "(nat \<times> nat) list"
  sq_finish :: "nat option"

text \<open>
  \<open>ur_prep\<close> fills the entry that \<open>ur_get_sqe\<close> gave; \<open>ur_submit\<close> returns the number of requests taken over or a negative
  error; \<open>ur_complete\<close> is the kernel's: the request in flight at a position is done.
\<close>

record 'g uring_ops =
  ur_get_sqe :: "'g \<Rightarrow> nat option"
  ur_prep :: "nat \<Rightarrow> sqe \<Rightarrow> 'g \<Rightarrow> 'g"
  ur_submit :: "'g \<Rightarrow> int \<times> 'g"
  ur_peek :: "nat \<Rightarrow> 'g \<Rightarrow> sqe list"
  ur_advance :: "nat \<Rightarrow> 'g \<Rightarrow> 'g"
  ur_complete :: "nat \<Rightarrow> 'g \<Rightarrow> (sqe \<times> 'g) option"

text \<open>\<open>rep g sq fl cq\<close>: the requests prepared, in flight, and complete but not yet taken from the ring.\<close>

definition uring_laws :: "'g uring_ops \<Rightarrow> ('g \<Rightarrow> sqe list \<Rightarrow> sqe list \<Rightarrow> sqe list \<Rightarrow> bool) \<Rightarrow> bool" where
  "uring_laws u rep \<longleftrightarrow> (\<forall>g sq fl cq. rep g sq fl cq \<longrightarrow>
     (\<forall>s e. ur_get_sqe u g = Some s \<longrightarrow> rep (ur_prep u s e g) (sq @ [e]) fl cq) \<and>
     (\<forall>r g'. ur_submit u g = (r, g') \<longrightarrow> r \<le> int (length sq) \<and> rep g' (drop (nat r) sq) (fl @ take (nat r) sq) cq) \<and>
     (\<forall>n. ur_peek u n g = take n cq) \<and>
     (\<forall>n \<le> length cq. rep (ur_advance u n g) sq fl (drop n cq)) \<and>
     (\<forall>i. case ur_complete u i g of None \<Rightarrow> length fl \<le> i
        | Some (e, g') \<Rightarrow> i < length fl \<and> e = fl ! i \<and> rep g' sq (take i fl @ drop (Suc i) fl) (cq @ [e])))"

text \<open>What the kernel does for a request, on the files and the buffers; a closed or unknown handle is left alone.\<close>

definition io_perform :: "sqe \<Rightarrow> byte list list \<times> (nat \<Rightarrow> byte list) \<Rightarrow> byte list list \<times> (nat \<Rightarrow> byte list)" where
  "io_perform e = (\<lambda>(files, bufs).
     if sq_file e \<ge> length files then (files, bufs)
     else let f = files ! sq_file e; parts = map (\<lambda>(b, n). take n (bufs b)) (sq_bufs e) in
       (case sq_op e of
          Prep_write \<Rightarrow> (files[sq_file e := pwrite f (concat parts) (unat (sq_offset e))], bufs)
        | Prep_writev \<Rightarrow> (files[sq_file e := pwrite f (concat parts) (unat (sq_offset e))], bufs)
        | _ \<Rightarrow> (files, fold (\<lambda>((b, n), xs) m. m(b := xs @ drop n (m b)))
              (zip (sq_bufs e) (preadv f parts (unat (sq_offset e)))) bufs)))"

section \<open>IOURing\<close>

text \<open>The object, with the descriptors of its disk manager and the messages posted so far.\<close>

record 'g iouring =
  io_ring :: 'g
  num_preparing :: nat
  num_processing :: nat
  io_fds :: "(nat \<times> bool) list"
  io_posted :: "nat list"

definition IOURing_new :: "'g \<Rightarrow> (nat \<times> bool) list \<Rightarrow> 'g iouring" where
  "IOURing_new g fds = \<lparr>io_ring = g, num_preparing = 0, num_processing = 0, io_fds = fds, io_posted = []\<rparr>"

definition submit_prepared :: "'g uring_ops \<Rightarrow> 'g iouring \<Rightarrow> 'g iouring" where
  "submit_prepared u st =
     (if num_preparing st \<noteq> 0 then
        let (ret, g) = ur_submit u (io_ring st); st = st\<lparr>io_ring := g\<rparr> in
        if ret > 0 then st\<lparr>num_preparing := num_preparing st - nat ret, num_processing := num_processing st + nat ret\<rparr> else st
      else st)"

definition reap_completions :: "'g uring_ops \<Rightarrow> 'g iouring \<Rightarrow> 'g iouring" where
  "reap_completions u st =
     (let ready = ur_peek u IOURing_MAX_DEPTH (io_ring st)
      in st\<lparr>io_ring := ur_advance u (length ready) (io_ring st), num_processing := num_processing st - length ready,
        io_posted := io_posted st @ List.map_filter sq_finish ready\<rparr>)"

definition IOURing_Progress :: "'g uring_ops \<Rightarrow> 'g iouring \<Rightarrow> bool \<times> 'g iouring" where
  "IOURing_Progress u st = (let st = reap_completions u (submit_prepared u st) in (num_processing st \<noteq> 0, st))"

text \<open>The requests differ in what they prepare; a full ring makes room and refuses.\<close>

definition prep_request ::
  "'g uring_ops \<Rightarrow> sqe_op \<Rightarrow> u64 \<Rightarrow> (nat \<times> nat) list \<Rightarrow> file_handle \<Rightarrow> nat option \<Rightarrow> 'g iouring \<Rightarrow> (bool \<times> 'g iouring) res" where
  "prep_request u k offset bufs fd finish st =
     (case ur_get_sqe u (io_ring st) of
        None \<Rightarrow> Inr (False, snd (IOURing_Progress u st))
      | Some s \<Rightarrow>
          bindE (arr_get (io_fds st) (unat fd)) (\<lambda>(h, _).
          Inr (True, st\<lparr>io_ring := ur_prep u s \<lparr>sq_op = k, sq_file = h, sq_offset = offset, sq_bufs = bufs, sq_finish = finish\<rparr> (io_ring st),
            num_preparing := Suc (num_preparing st)\<rparr>)))"

text \<open>The size given is not used: a page is transferred.\<close>

definition IOURing_Write where
  "IOURing_Write u offset data n fd finish st = prep_request u Prep_write offset [(data, PAGE_SIZE_MEMORY)] fd finish st"

definition IOURing_Writev where
  "IOURing_Writev u offset io_info fd finish st = prep_request u Prep_writev offset [io_info] fd finish st"

definition IOURing_Read where
  "IOURing_Read u offset data n fd finish st = prep_request u Prep_read offset [(data, PAGE_SIZE_FILE)] fd finish st"

definition IOURing_Readv where
  "IOURing_Readv u offset io_info cnt fd finish st = prep_request u Prep_readv offset (take cnt io_info) fd finish st"

definition IOURing_Write_view :: "(bool \<times> 'g iouring) res" where
  "IOURing_Write_view = bindE (assertE False) (\<lambda>_. Inl AssertFail)"

definition IOURing_Read_view :: "(bool \<times> 'g iouring) res" where
  "IOURing_Read_view = bindE (assertE False) (\<lambda>_. Inl AssertFail)"

section \<open>The rest of the synchronous backend\<close>

text \<open>Of a vectored write \<open>RWSysCall\<close> writes the first buffer, \<open>data\<close>; reads into a string view fill it up with zeros too.\<close>

definition RWSysCall_Write_iov :: "disk \<Rightarrow> u64 \<Rightarrow> byte list \<Rightarrow> file_handle \<Rightarrow> (bool \<times> disk) res" where
  "RWSysCall_Write_iov d offset data fd =
     bindE (arr_get (fd_oss d) (unat fd)) (\<lambda>(h, valid).
     bindE (os_write d h valid data (unat offset)) (\<lambda>d.
     bindE (arr_get (file_size_inBytes d) (unat fd)) (\<lambda>sz.
     bindE (if sz - offset < word_of_nat (length data) then disk_Resize d fd sz else Inr d) (\<lambda>d.
     Inr (True, d)))))"

definition RWSysCall_Read_view :: "disk \<Rightarrow> u64 \<Rightarrow> byte list \<Rightarrow> file_handle \<Rightarrow> (bool \<times> byte list) res" where
  "RWSysCall_Read_view d offset buf fd =
     bindE (arr_get (fd_oss d) (unat fd)) (\<lambda>(h, valid).
     if \<not> valid then Inr (True, buf)
     else bindE (arr_get (os_files d) h) (\<lambda>f.
       let r = pread f (length buf) (unat offset)
       in Inr (True, r @ replicate (length buf - length r) 0)))"

definition RWSysCall_Progress :: bool where
  "RWSysCall_Progress = True"

lemma RWSysCall_overloads: "RWSysCall_Write_iov = RWSysCall_Write" "RWSysCall_Read_view = RWSysCall_Read"
  by (simp_all add: fun_eq_iff RWSysCall_Write_iov_def RWSysCall_Write_def RWSysCall_Read_view_def RWSysCall_Read_def)

section \<open>Clients and the kernel\<close>

datatype ring_act =
    Ask_write u64 nat nat file_handle "nat option"
  | Ask_writev u64 "nat \<times> nat" file_handle "nat option"
  | Ask_read u64 nat nat file_handle "nat option"
  | Ask_readv u64 "(nat \<times> nat) list" nat file_handle "nat option"
  | Make_progress
  | Kernel nat

fun ask :: "'g uring_ops \<Rightarrow> ring_act \<Rightarrow> 'g iouring \<Rightarrow> (bool \<times> 'g iouring) res" where
  "ask u (Ask_write offset data n fd finish) st = IOURing_Write u offset data n fd finish st"
| "ask u (Ask_writev offset io_info fd finish) st = IOURing_Writev u offset io_info fd finish st"
| "ask u (Ask_read offset data n fd finish) st = IOURing_Read u offset data n fd finish st"
| "ask u (Ask_readv offset io_info cnt fd finish) st = IOURing_Readv u offset io_info cnt fd finish st"
| "ask u Make_progress st = Inr (False, snd (IOURing_Progress u st))"
| "ask u (Kernel i) st = Inr (False, st)"

text \<open>The request that a call stands for.\<close>

fun request_of :: "(nat \<times> bool) list \<Rightarrow> ring_act \<Rightarrow> sqe list" where
  "request_of fds (Ask_write offset data n fd finish) =
     [\<lparr>sq_op = Prep_write, sq_file = fst (fds ! unat fd), sq_offset = offset, sq_bufs = [(data, PAGE_SIZE_MEMORY)], sq_finish = finish\<rparr>]"
| "request_of fds (Ask_writev offset io_info fd finish) =
     [\<lparr>sq_op = Prep_writev, sq_file = fst (fds ! unat fd), sq_offset = offset, sq_bufs = [io_info], sq_finish = finish\<rparr>]"
| "request_of fds (Ask_read offset data n fd finish) =
     [\<lparr>sq_op = Prep_read, sq_file = fst (fds ! unat fd), sq_offset = offset, sq_bufs = [(data, PAGE_SIZE_FILE)], sq_finish = finish\<rparr>]"
| "request_of fds (Ask_readv offset io_info cnt fd finish) =
     [\<lparr>sq_op = Prep_readv, sq_file = fst (fds ! unat fd), sq_offset = offset, sq_bufs = take cnt io_info, sq_finish = finish\<rparr>]"
| "request_of fds _ = []"

text \<open>The system: the object, the files and buffers, the requests accepted, and those the kernel has carried out in order.\<close>

record 'g ring_system =
  rs_io :: "'g iouring"
  rs_world :: "byte list list \<times> (nat \<Rightarrow> byte list)"
  rs_accepted :: "sqe list"
  rs_done :: "sqe list"

fun ring_step :: "'g uring_ops \<Rightarrow> ring_act \<Rightarrow> 'g ring_system \<Rightarrow> 'g ring_system res" where
  "ring_step u (Kernel i) s =
     (case ur_complete u i (io_ring (rs_io s)) of
        None \<Rightarrow> Inr s
      | Some (e, g) \<Rightarrow> Inr (s\<lparr>rs_io := (rs_io s)\<lparr>io_ring := g\<rparr>, rs_world := io_perform e (rs_world s), rs_done := rs_done s @ [e]\<rparr>))"
| "ring_step u a s =
     bindE (ask u a (rs_io s)) (\<lambda>(ok, st).
     Inr (s\<lparr>rs_io := st, rs_accepted := rs_accepted s @ (if ok then request_of (io_fds (rs_io s)) a else [])\<rparr>))"

fun ring_run :: "'g uring_ops \<Rightarrow> ring_act list \<Rightarrow> 'g ring_system \<Rightarrow> 'g ring_system res" where
  "ring_run u [] s = Inr s"
| "ring_run u (a # as) s = bindE (ring_step u a s) (ring_run u as)"

definition ring_start :: "'g \<Rightarrow> (nat \<times> bool) list \<Rightarrow> byte list list \<times> (nat \<Rightarrow> byte list) \<Rightarrow> 'g ring_system" where
  "ring_start g fds w = \<lparr>rs_io = IOURing_new g fds, rs_world = w, rs_accepted = [], rs_done = []\<rparr>"

fun handle_ok :: "nat \<Rightarrow> ring_act \<Rightarrow> bool" where
  "handle_ok l (Ask_write offset data n fd finish) \<longleftrightarrow> unat fd < l"
| "handle_ok n (Ask_writev offset io_info fd finish) \<longleftrightarrow> unat fd < n"
| "handle_ok l (Ask_read offset data n fd finish) \<longleftrightarrow> unat fd < l"
| "handle_ok n (Ask_readv offset io_info cnt fd finish) \<longleftrightarrow> unat fd < n"
| "handle_ok n _ \<longleftrightarrow> True"

section \<open>The invariant\<close>

definition ring_inv where
  "ring_inv rep fds w s \<longleftrightarrow> (\<exists>sq fl cq reaped. rep (io_ring (rs_io s)) sq fl cq \<and> io_fds (rs_io s) = fds \<and>
     num_preparing (rs_io s) = length sq \<and> num_processing (rs_io s) = length fl + length cq \<and>
     mset (rs_accepted s) = mset sq + mset fl + mset (rs_done s) \<and> rs_done s = reaped @ cq \<and>
     io_posted (rs_io s) = List.map_filter sq_finish reaped \<and> rs_world s = fold io_perform (rs_done s) w)"

lemma uring_lawsD:
  assumes "uring_laws u rep" "rep g sq fl cq"
  shows "ur_get_sqe u g = Some s \<Longrightarrow> rep (ur_prep u s e g) (sq @ [e]) fl cq"
    "ur_submit u g = (r, g') \<Longrightarrow> r \<le> int (length sq) \<and> rep g' (drop (nat r) sq) (fl @ take (nat r) sq) cq"
    "ur_peek u n g = take n cq" "n \<le> length cq \<Longrightarrow> rep (ur_advance u n g) sq fl (drop n cq)"
    "ur_complete u i g = Some (x, g') \<Longrightarrow> i < length fl \<and> x = fl ! i \<and> rep g' sq (take i fl @ drop (Suc i) fl) (cq @ [x])"
proof -
  note l = assms(1) [unfolded uring_laws_def, rule_format, OF assms(2)]
  show "ur_get_sqe u g = Some s \<Longrightarrow> rep (ur_prep u s e g) (sq @ [e]) fl cq"
    "ur_submit u g = (r, g') \<Longrightarrow> r \<le> int (length sq) \<and> rep g' (drop (nat r) sq) (fl @ take (nat r) sq) cq"
    "ur_peek u n g = take n cq" "n \<le> length cq \<Longrightarrow> rep (ur_advance u n g) sq fl (drop n cq)"
    using l by blast+
  assume "ur_complete u i g = Some (x, g')"
  then show "i < length fl \<and> x = fl ! i \<and> rep g' sq (take i fl @ drop (Suc i) fl) (cq @ [x])"
    using conjunct2 [OF conjunct2 [OF conjunct2 [OF conjunct2 [OF l]]], rule_format, of i] by auto
qed

lemma map_filter_append: "List.map_filter f (xs @ ys) = List.map_filter f xs @ List.map_filter f ys"
  by (simp add: List.map_filter_def)

lemma Progress_inv:
  assumes laws: "uring_laws u rep" and inv: "ring_inv rep fds w s"
  shows "ring_inv rep fds w (s\<lparr>rs_io := snd (IOURing_Progress u (rs_io s))\<rparr>)"
proof -
  obtain sq fl cq reaped where i: "rep (io_ring (rs_io s)) sq fl cq" "io_fds (rs_io s) = fds"
    "num_preparing (rs_io s) = length sq" "num_processing (rs_io s) = length fl + length cq"
    "mset (rs_accepted s) = mset sq + mset fl + mset (rs_done s)" "rs_done s = reaped @ cq"
    "io_posted (rs_io s) = List.map_filter sq_finish reaped" "rs_world s = fold io_perform (rs_done s) w"
    using inv by (auto simp: ring_inv_def)
  let ?st1 = "submit_prepared u (rs_io s)"
  obtain sq1 fl1 where 1: "rep (io_ring ?st1) sq1 fl1 cq" "io_fds ?st1 = fds" "num_preparing ?st1 = length sq1"
    "num_processing ?st1 = length fl1 + length cq" "mset sq1 + mset fl1 = mset sq + mset fl" "io_posted ?st1 = io_posted (rs_io s)"
  proof (cases "num_preparing (rs_io s) \<noteq> 0")
    case True
    obtain r g where r: "ur_submit u (io_ring (rs_io s)) = (r, g)" by force
    have "mset (drop (nat r) sq) + (mset fl + mset (take (nat r) sq)) = mset sq + mset fl"
      by (metis add.commute add.left_commute append_take_drop_id mset_append)
    then show thesis
      using that [of "drop (nat r) sq" "fl @ take (nat r) sq"] uring_lawsD(2) [OF laws i(1) r] True r i
      by (cases "r > 0") (auto simp: submit_prepared_def min_absorb2 nat_le_iff)
  next
    case False
    then show thesis using that [of sq fl] i by (simp add: submit_prepared_def)
  qed
  let ?n = "min IOURing_MAX_DEPTH (length cq)"
  have p: "ur_peek u IOURing_MAX_DEPTH (io_ring ?st1) = take IOURing_MAX_DEPTH cq" by (rule uring_lawsD(3) [OF laws 1(1)])
  have a: "rep (ur_advance u ?n (io_ring ?st1)) sq1 fl1 (drop ?n cq)" by (rule uring_lawsD(4) [OF laws 1(1)]) simp
  have e: "snd (IOURing_Progress u (rs_io s)) = ?st1\<lparr>io_ring := ur_advance u ?n (io_ring ?st1),
      num_processing := num_processing ?st1 - ?n, io_posted := io_posted ?st1 @ List.map_filter sq_finish (take IOURing_MAX_DEPTH cq)\<rparr>"
    using p by (simp add: IOURing_Progress_def reap_completions_def Let_def min.commute)
  have "rs_done s = (reaped @ take IOURing_MAX_DEPTH cq) @ drop ?n cq"
    using i(6) append_take_drop_id [of IOURing_MAX_DEPTH cq] by (simp add: min_def)
  then show ?thesis unfolding ring_inv_def e
    using a 1 i by (intro exI [of _ sq1] exI [of _ fl1] exI [of _ "drop ?n cq"] exI [of _ "reaped @ take IOURing_MAX_DEPTH cq"])
      (simp add: map_filter_append)
qed

lemma prep_inv:
  assumes laws: "uring_laws u rep" and inv: "ring_inv rep fds w s" and fd: "unat fd < length fds"
  obtains ok st where "prep_request u k offset bufs fd finish (rs_io s) = Inr (ok, st)"
    "ring_inv rep fds w (s\<lparr>rs_io := st, rs_accepted := rs_accepted s @
      (if ok then [\<lparr>sq_op = k, sq_file = fst (fds ! unat fd), sq_offset = offset, sq_bufs = bufs, sq_finish = finish\<rparr>] else [])\<rparr>)"
proof (cases "ur_get_sqe u (io_ring (rs_io s))")
  case None
  then show thesis using that [of False "snd (IOURing_Progress u (rs_io s))"] Progress_inv [OF laws inv]
    by (simp add: prep_request_def)
next
  case (Some p)
  obtain sq fl cq reaped where i: "rep (io_ring (rs_io s)) sq fl cq" "io_fds (rs_io s) = fds"
    "num_preparing (rs_io s) = length sq" "num_processing (rs_io s) = length fl + length cq"
    "mset (rs_accepted s) = mset sq + mset fl + mset (rs_done s)" "rs_done s = reaped @ cq"
    "io_posted (rs_io s) = List.map_filter sq_finish reaped" "rs_world s = fold io_perform (rs_done s) w"
    using inv by (auto simp: ring_inv_def)
  let ?e = "\<lparr>sq_op = k, sq_file = fst (fds ! unat fd), sq_offset = offset, sq_bufs = bufs, sq_finish = finish\<rparr>"
  let ?st = "(rs_io s)\<lparr>io_ring := ur_prep u p ?e (io_ring (rs_io s)), num_preparing := Suc (num_preparing (rs_io s))\<rparr>"
  have "prep_request u k offset bufs fd finish (rs_io s) = Inr (True, ?st)"
    using Some fd i(2) by (simp add: prep_request_def split: prod.split)
  moreover have "ring_inv rep fds w (s\<lparr>rs_io := ?st, rs_accepted := rs_accepted s @ [?e]\<rparr>)"
    unfolding ring_inv_def
    by (intro exI [of _ "sq @ [?e]"] exI [of _ fl] exI [of _ cq] exI [of _ reaped])
      (use i uring_lawsD(1) [OF laws i(1) Some] in simp)
  ultimately show thesis using that by simp
qed

lemma uring_step_inv:
  assumes laws: "uring_laws u rep" and inv: "ring_inv rep fds w s" and a: "handle_ok (length fds) a"
  obtains s' where "ring_step u a s = Inr s'" "ring_inv rep fds w s'"
proof -
  have f: "io_fds (rs_io s) = fds" using inv by (auto simp: ring_inv_def)
  show thesis
  proof (cases a)
    case (Ask_write offset data n fd finish)
    then have "unat fd < length fds" using a by simp
    then obtain ok st where
      "prep_request u Prep_write offset ([(data, PAGE_SIZE_MEMORY)]) fd finish (rs_io s) = Inr (ok, st)"
      "ring_inv rep fds w (s\<lparr>rs_io := st, rs_accepted := rs_accepted s @ (if ok then request_of fds a else [])\<rparr>)"
      by (rule prep_inv [OF laws inv, of fd Prep_write offset "[(data, PAGE_SIZE_MEMORY)]" finish]) (simp only: Ask_write request_of.simps)
    then show thesis using that unfolding Ask_write by (simp add: IOURing_Write_def f cong: if_cong)
  next
    case (Ask_writev offset io_info fd finish)
    then have "unat fd < length fds" using a by simp
    then obtain ok st where
      "prep_request u Prep_writev offset ([io_info]) fd finish (rs_io s) = Inr (ok, st)"
      "ring_inv rep fds w (s\<lparr>rs_io := st, rs_accepted := rs_accepted s @ (if ok then request_of fds a else [])\<rparr>)"
      by (rule prep_inv [OF laws inv, of fd Prep_writev offset "[io_info]" finish]) (simp only: Ask_writev request_of.simps)
    then show thesis using that unfolding Ask_writev by (simp add: IOURing_Writev_def f cong: if_cong)
  next
    case (Ask_read offset data n fd finish)
    then have "unat fd < length fds" using a by simp
    then obtain ok st where
      "prep_request u Prep_read offset ([(data, PAGE_SIZE_FILE)]) fd finish (rs_io s) = Inr (ok, st)"
      "ring_inv rep fds w (s\<lparr>rs_io := st, rs_accepted := rs_accepted s @ (if ok then request_of fds a else [])\<rparr>)"
      by (rule prep_inv [OF laws inv, of fd Prep_read offset "[(data, PAGE_SIZE_FILE)]" finish]) (simp only: Ask_read request_of.simps)
    then show thesis using that unfolding Ask_read by (simp add: IOURing_Read_def f cong: if_cong)
  next
    case (Ask_readv offset io_info cnt fd finish)
    then have "unat fd < length fds" using a by simp
    then obtain ok st where
      "prep_request u Prep_readv offset (take cnt io_info) fd finish (rs_io s) = Inr (ok, st)"
      "ring_inv rep fds w (s\<lparr>rs_io := st, rs_accepted := rs_accepted s @ (if ok then request_of fds a else [])\<rparr>)"
      by (rule prep_inv [OF laws inv, of fd Prep_readv offset "take cnt io_info" finish]) (simp only: Ask_readv request_of.simps)
    then show thesis using that unfolding Ask_readv by (simp add: IOURing_Readv_def f cong: if_cong)
  next
    case Make_progress
    then show thesis using that Progress_inv [OF laws inv] by simp
  next
    case (Kernel i)
    show thesis
    proof (cases "ur_complete u i (io_ring (rs_io s))")
      case None
      then show thesis using that inv Kernel by simp
    next
      case (Some r)
      obtain x g where r: "r = (x, g)" by force
      obtain sq fl cq reaped where v: "rep (io_ring (rs_io s)) sq fl cq" "io_fds (rs_io s) = fds"
        "num_preparing (rs_io s) = length sq" "num_processing (rs_io s) = length fl + length cq"
        "mset (rs_accepted s) = mset sq + mset fl + mset (rs_done s)" "rs_done s = reaped @ cq"
        "io_posted (rs_io s) = List.map_filter sq_finish reaped" "rs_world s = fold io_perform (rs_done s) w"
        using inv by (auto simp: ring_inv_def)
      have c: "i < length fl" "x = fl ! i" "rep g sq (take i fl @ drop (Suc i) fl) (cq @ [x])"
        using uring_lawsD(5) [OF laws v(1) Some [unfolded r]] by auto
      have m: "mset fl = mset (take i fl @ drop (Suc i) fl) + {#x#}"
        using arg_cong [OF id_take_nth_drop [OF c(1)], of mset] c(2) by simp
      have "ring_inv rep fds w (s\<lparr>rs_io := (rs_io s)\<lparr>io_ring := g\<rparr>, rs_world := io_perform x (rs_world s), rs_done := rs_done s @ [x]\<rparr>)"
        unfolding ring_inv_def
        by (intro exI [of _ sq] exI [of _ "take i fl @ drop (Suc i) fl"] exI [of _ "cq @ [x]"] exI [of _ reaped])
          (use v c m in \<open>simp add: min_def\<close>)
      then show thesis using that Kernel Some r by simp
    qed
  qed
qed

section \<open>Properties\<close>

lemma uring_run_inv:
  assumes laws: "uring_laws u rep" and "ring_inv rep fds w s" and "\<And>a. a \<in> set acts \<Longrightarrow> handle_ok (length fds) a"
  obtains s' where "ring_run u acts s = Inr s'" "ring_inv rep fds w s'"
  using assms(2,3)
proof (induction acts arbitrary: s thesis)
  case Nil
  then show ?case by simp
next
  case (Cons a acts)
  obtain s1 where 1: "ring_step u a s = Inr s1" "ring_inv rep fds w s1"
    by (rule uring_step_inv [OF laws Cons.prems(2), of a]) (use Cons.prems(3) in auto)
  obtain s2 where "ring_run u acts s1 = Inr s2" "ring_inv rep fds w s2"
    by (rule Cons.IH [OF _ 1(2)]) (use Cons.prems(3) in auto)
  then show ?case using Cons.prems(1) 1(1) by simp
qed

text \<open>C12: the io_uring backend serves each request once.  However calls of several kinds, \<open>Progress\<close> and the kernel
  interleave, no call faults; the kernel carries out only requests that were accepted, each at most once; their messages
  are posted in the order of completion, each after its transfer, which the files and buffers show; and when both counters
  are zero, every accepted request has been carried out and its message posted.\<close>

theorem IOURing_answers_once:
  assumes "uring_laws u rep" "rep g [] [] []" and "\<And>a. a \<in> set acts \<Longrightarrow> handle_ok (length fds) a"
  shows "\<exists>s reaped rest. ring_run u acts (ring_start g fds w) = Inr s \<and>
    mset (rs_done s) \<subseteq># mset (rs_accepted s) \<and> rs_world s = fold io_perform (rs_done s) w \<and>
    rs_done s = reaped @ rest \<and> io_posted (rs_io s) = List.map_filter sq_finish reaped \<and>
    (num_preparing (rs_io s) = 0 \<and> num_processing (rs_io s) = 0 \<longrightarrow> mset reaped = mset (rs_accepted s))"
proof -
  have "ring_inv rep fds w (ring_start g fds w)"
    unfolding ring_inv_def using assms(2)
    by (intro exI [of _ "[]"]) (simp add: ring_start_def IOURing_new_def List.map_filter_def)
  then obtain s where s: "ring_run u acts (ring_start g fds w) = Inr s" "ring_inv rep fds w s"
    by (rule uring_run_inv [OF assms(1) _ assms(3)])
  obtain sq fl cq reaped where i: "num_preparing (rs_io s) = length sq" "num_processing (rs_io s) = length fl + length cq"
    "mset (rs_accepted s) = mset sq + mset fl + mset (rs_done s)" "rs_done s = reaped @ cq"
    "io_posted (rs_io s) = List.map_filter sq_finish reaped" "rs_world s = fold io_perform (rs_done s) w"
    using s(2) by (auto simp: ring_inv_def)
  have "mset (rs_done s) \<subseteq># mset (rs_accepted s)" unfolding i(3) by simp
  moreover have "mset reaped = mset (rs_accepted s)" if "num_preparing (rs_io s) = 0 \<and> num_processing (rs_io s) = 0"
    using that i(1-4) by simp
  ultimately show ?thesis using s(1) i(4-6) by blast
qed

text \<open>Rings as lists, with room for 32 requests to prepare.\<close>

type_synonym list_ring = "sqe list \<times> sqe list \<times> sqe list"

definition list_uring :: "list_ring uring_ops" where
  "list_uring = \<lparr>
     ur_get_sqe = (\<lambda>(sq, fl, cq). if length sq < IOURing_MAX_DEPTH then Some (length sq) else None),
     ur_prep = (\<lambda>s e (sq, fl, cq). (sq @ [e], fl, cq)),
     ur_submit = (\<lambda>(sq, fl, cq). (int (length sq), ([], fl @ sq, cq))),
     ur_peek = (\<lambda>n (sq, fl, cq). take n cq),
     ur_advance = (\<lambda>n (sq, fl, cq). (sq, fl, drop n cq)),
     ur_complete = (\<lambda>i (sq, fl, cq). if i < length fl then Some (fl ! i, (sq, take i fl @ drop (Suc i) fl, cq @ [fl ! i])) else None)\<rparr>"

lemma list_uring_laws: "uring_laws list_uring (\<lambda>g sq fl cq. g = (sq, fl, cq))"
  by (auto simp: uring_laws_def list_uring_def split: if_splits)

lemma IOURing_answers_once_witness:
  "\<exists>s. ring_run list_uring [Ask_write 0 0 4096 0 (Some 7), Ask_read 0 1 4096 0 (Some 8), Make_progress, Kernel 0, Kernel 0, Make_progress]
     (ring_start ([], [], []) [(0, True)] ([replicate 4096 0], \<lambda>b. replicate 4096 5)) = Inr s \<and>
     io_posted (rs_io s) = [7, 8]"
proof -
  let ?acts = "[Ask_write 0 0 4096 0 (Some 7), Ask_read 0 1 4096 0 (Some 8), Make_progress, Kernel 0, Kernel 0, Make_progress]"
  let ?w = "([replicate 4096 0], \<lambda>b. replicate 4096 5)"
  have "handle_ok (length [(0::nat, True)]) a" if "a \<in> set ?acts" for a using that by auto
  from IOURing_answers_once [OF list_uring_laws refl this, where w = ?w]
  obtain s reaped rest where s: "ring_run list_uring ?acts (ring_start ([], [], []) [(0, True)] ?w) = Inr s"
    "rs_done s = reaped @ rest" "io_posted (rs_io s) = List.map_filter sq_finish reaped"
    "num_preparing (rs_io s) = 0 \<and> num_processing (rs_io s) = 0 \<longrightarrow> mset reaped = mset (rs_accepted s)"
    by blast
  have "io_posted (rs_io s) = [7, 8]"
    using s(1) by (auto simp: ring_start_def IOURing_new_def list_uring_def IOURing_Write_def IOURing_Read_def prep_request_def
        IOURing_Progress_def submit_prepared_def reap_completions_def IOURing_MAX_DEPTH_def Let_def List.map_filter_def)
  then show ?thesis using s(1) by blast
qed

end
