(* ===== verification/Values.thy ===== *)
theory Values
  imports Disk
begin

text \<open>
  \<open>Value\<close> of \<^verbatim>\<open>include/value.h\<close>: a byte string that either owns a block of the heap, refers to memory of others, or holds
  up to 64 bytes in itself.  The memory is explicit: blocks of the heap, which \<open>malloc\<close> and \<open>free\<close> manage, blocks of the callers,
  and the small arrays inside the objects.  Proved: over any sequence of operations no memory is freed twice or used after it has been
  freed, and the values behave as independent byte strings; where assignment forgets to free a block.
\<close>

section \<open>Memory\<close>

definition STACK_SIZE :: nat where
  "STACK_SIZE = 64"

datatype place = Block nat | StackOf nat

type_synonym pointer = "(place \<times> nat) option"

record val_obj =
  v_data :: pointer
  v_size :: nat
  v_need_delete :: bool
  v_stack :: "byte list"

text \<open>A block has its bytes and whether it comes from \<open>malloc\<close>; fresh memory holds any bytes.\<close>

record vmem =
  vs_vals :: "val_obj list"
  vs_blocks :: "nat \<Rightarrow> (bool \<times> byte list) option"
  vs_next :: nat
  vs_junk :: "nat \<Rightarrow> nat \<Rightarrow> byte"

definition fresh_bytes :: "vmem \<Rightarrow> nat \<Rightarrow> byte list" where
  "fresh_bytes m s = map (vs_junk m (vs_next m)) [0..<s]"

definition mem_at :: "vmem \<Rightarrow> place \<Rightarrow> byte list res" where
  "mem_at m pl = (case pl of
     Block b \<Rightarrow> (case vs_blocks m b of None \<Rightarrow> Inl OutOfBounds | Some (_, bs) \<Rightarrow> Inr bs)
   | StackOf k \<Rightarrow> if k < length (vs_vals m) then Inr (v_stack (vs_vals m ! k)) else Inl OutOfBounds)"

text \<open>The two sides of \<open>memcpy\<close>; nothing is touched when no byte is copied.\<close>

definition read_mem :: "vmem \<Rightarrow> pointer \<Rightarrow> nat \<Rightarrow> byte list res" where
  "read_mem m p n = (if n = 0 then Inr [] else
     (case p of
        None \<Rightarrow> Inl NullDeref
      | Some (pl, off) \<Rightarrow>
          bindE (mem_at m pl) (\<lambda>bs. if off + n \<le> length bs then Inr (take n (drop off bs)) else Inl OutOfBounds)))"

definition write_mem :: "pointer \<Rightarrow> byte list \<Rightarrow> vmem \<Rightarrow> vmem res" where
  "write_mem p xs m = (if xs = [] then Inr m else
     (case p of
        None \<Rightarrow> Inl NullDeref
      | Some (pl, off) \<Rightarrow>
          bindE (mem_at m pl) (\<lambda>bs.
          if off + length xs \<le> length bs then
            let bs' = take off bs @ xs @ drop (off + length xs) bs in
            (case pl of
               Block b \<Rightarrow> Inr (m\<lparr>vs_blocks := (vs_blocks m)(b := map_option (\<lambda>(h, _). (h, bs')) (vs_blocks m b))\<rparr>)
             | StackOf k \<Rightarrow> Inr (m\<lparr>vs_vals := (vs_vals m)[k := (vs_vals m ! k)\<lparr>v_stack := bs'\<rparr>]\<rparr>))
          else Inl OutOfBounds)))"

text \<open>\<open>malloc\<close> does not fail; \<open>realloc\<close> to no bytes frees the block and returns the null pointer.\<close>

definition LBMalloc :: "nat \<Rightarrow> vmem \<Rightarrow> pointer \<times> vmem" where
  "LBMalloc s m = (Some (Block (vs_next m), 0),
     m\<lparr>vs_next := Suc (vs_next m), vs_blocks := (vs_blocks m)(vs_next m := Some (True, fresh_bytes m s))\<rparr>)"

definition LBFree :: "pointer \<Rightarrow> vmem \<Rightarrow> vmem res" where
  "LBFree p m = (case p of
     None \<Rightarrow> Inr m
   | Some (Block b, 0) \<Rightarrow>
       (case vs_blocks m b of
          Some (True, _) \<Rightarrow> Inr (m\<lparr>vs_blocks := (vs_blocks m)(b := None)\<rparr>)
        | _ \<Rightarrow> Inl OutOfBounds)
   | _ \<Rightarrow> Inl OutOfBounds)"

definition LBRealloc :: "pointer \<Rightarrow> nat \<Rightarrow> vmem \<Rightarrow> (pointer \<times> vmem) res" where
  "LBRealloc p s m = (case p of
     None \<Rightarrow> Inr (LBMalloc s m)
   | Some (pl, off) \<Rightarrow>
       bindE (mem_at m pl) (\<lambda>bs.
       bindE (LBFree p m) (\<lambda>m'.
       if s = 0 then Inr (None, m')
       else let (q, m'') = LBMalloc s m' in
         bindE (write_mem q (take s bs) m'') (\<lambda>m''. Inr (q, m'')))))"

section \<open>The object\<close>

abbreviation val :: "vmem \<Rightarrow> nat \<Rightarrow> val_obj" where
  "val m i \<equiv> vs_vals m ! i"

definition upd_val :: "nat \<Rightarrow> (val_obj \<Rightarrow> val_obj) \<Rightarrow> vmem \<Rightarrow> vmem" where
  "upd_val i f m = m\<lparr>vs_vals := (vs_vals m)[i := f (val m i)]\<rparr>"

text \<open>\<open>data_ = p; size_ = s; need_delete_ = own\<close>\<close>

definition set_val :: "nat \<Rightarrow> pointer \<Rightarrow> nat \<Rightarrow> bool \<Rightarrow> vmem \<Rightarrow> vmem" where
  "set_val i p s own = upd_val i (\<lambda>v. v\<lparr>v_data := p, v_size := s, v_need_delete := own\<rparr>)"

definition is_stack :: "vmem \<Rightarrow> nat \<Rightarrow> bool" where
  "is_stack m i \<longleftrightarrow> v_data (val m i) = Some (StackOf i, 0)"

definition free_own :: "nat \<Rightarrow> vmem \<Rightarrow> vmem res" where
  "free_own i m = (if v_need_delete (val m i) then LBFree (v_data (val m i)) m else Inr m)"

definition v_Malloc :: "nat \<Rightarrow> nat \<Rightarrow> vmem \<Rightarrow> vmem" where
  "v_Malloc i s m =
     (if s \<le> STACK_SIZE then set_val i (Some (StackOf i, 0)) s False m
      else let (p, m) = LBMalloc s m in set_val i p s True m)"

definition copy_from :: "nat \<Rightarrow> byte list \<Rightarrow> vmem \<Rightarrow> vmem res" where
  "copy_from i xs m = write_mem (v_data (val m i)) xs m"

text \<open>A new object, at the end of the list, before the body of its constructor runs.\<close>

definition value_new :: "vmem \<Rightarrow> vmem" where
  "value_new m = m\<lparr>vs_vals := vs_vals m @ [\<lparr>v_data = None, v_size = 0, v_need_delete = False, v_stack = fresh_bytes m STACK_SIZE\<rparr>],
     vs_next := Suc (vs_next m)\<rparr>"

definition value_size :: "nat \<Rightarrow> vmem \<Rightarrow> vmem" where
  "value_size s m = (let i = length (vs_vals m); (p, m) = LBMalloc s (value_new m) in set_val i p s True m)"

definition value_fill :: "nat \<Rightarrow> byte \<Rightarrow> vmem \<Rightarrow> vmem res" where
  "value_fill s fill m = (let i = length (vs_vals m) in copy_from i (replicate s fill) (v_Malloc i s (value_new m)))"

definition value_ref :: "pointer \<Rightarrow> nat \<Rightarrow> vmem \<Rightarrow> vmem" where
  "value_ref buf s m = set_val (length (vs_vals m)) buf s False (value_new m)"

definition value_string :: "byte list \<Rightarrow> vmem \<Rightarrow> vmem res" where
  "value_string buf m = (let i = length (vs_vals m) in copy_from i buf (v_Malloc i (length buf) (value_new m)))"

definition str_len :: "vmem \<Rightarrow> pointer \<Rightarrow> nat res" where
  "str_len m p = (case p of
     None \<Rightarrow> Inl NullDeref
   | Some (pl, off) \<Rightarrow>
       bindE (mem_at m pl) (\<lambda>bs. if 0 \<in> set (drop off bs) then Inr (length (takeWhile (\<lambda>c. c \<noteq> 0) (drop off bs))) else Inl OutOfBounds))"

definition value_cstr :: "pointer \<Rightarrow> vmem \<Rightarrow> vmem res" where
  "value_cstr buf m = bindE (str_len m buf) (\<lambda>s. Inr (value_ref buf s m))"

text \<open>\<open>memcpy(stack_, rhs.stack_, rhs.size_); data_ = stack_\<close>\<close>

definition copy_stack :: "nat \<Rightarrow> nat \<Rightarrow> vmem \<Rightarrow> vmem res" where
  "copy_stack i j m = bindE (read_mem m (Some (StackOf j, 0)) (v_size (val m j))) (\<lambda>xs.
     write_mem (Some (StackOf i, 0)) xs m)"

definition value_copy :: "nat \<Rightarrow> vmem \<Rightarrow> vmem res" where
  "value_copy j m = (let i = length (vs_vals m); m = value_new m; rhs = val m j in
     if v_need_delete rhs then
       bindE (read_mem m (v_data rhs) (v_size rhs)) (\<lambda>xs. copy_from i xs (v_Malloc i (v_size rhs) m))
     else if v_size rhs > 0 \<and> is_stack m j then
       bindE (copy_stack i j m) (\<lambda>m. Inr (set_val i (Some (StackOf i, 0)) (v_size rhs) False m))
     else Inr (set_val i (v_data rhs) (v_size rhs) False m))"

definition value_move :: "nat \<Rightarrow> vmem \<Rightarrow> vmem res" where
  "value_move j m = (let i = length (vs_vals m); m = value_new m; rhs = val m j in
     if v_size rhs > 0 \<and> is_stack m j then
       bindE (copy_stack i j m) (\<lambda>m. Inr (set_val i (Some (StackOf i, 0)) (v_size rhs) (v_need_delete rhs) m))
     else Inr (set_val j None 0 False (set_val i (v_data rhs) (v_size rhs) (v_need_delete rhs) m)))"

definition AssignConstRef :: "nat \<Rightarrow> pointer \<Rightarrow> nat \<Rightarrow> vmem \<Rightarrow> vmem res" where
  "AssignConstRef i buf s m = bindE (free_own i m) (\<lambda>m. Inr (set_val i buf s False m))"

definition TakeOwnershipFrom :: "nat \<Rightarrow> pointer \<Rightarrow> nat \<Rightarrow> vmem \<Rightarrow> vmem res" where
  "TakeOwnershipFrom i buf s m = bindE (free_own i m) (\<lambda>m. Inr (set_val i buf s True m))"

definition value_assign :: "nat \<Rightarrow> nat \<Rightarrow> vmem \<Rightarrow> vmem res" where
  "value_assign i j m = (let rhs = val m j in
     if i = j then Inr m
     else if v_need_delete rhs then
       bindE (if v_need_delete (val m i)
              then bindE (LBRealloc (v_data (val m i)) (v_size rhs) m) (\<lambda>(p, m). Inr (set_val i p (v_size rhs) True m))
              else Inr (v_Malloc i (v_size rhs) m)) (\<lambda>m.
       bindE (read_mem m (v_data rhs) (v_size rhs)) (\<lambda>xs. copy_from i xs m))
     else if v_size rhs > 0 \<and> is_stack m j then
       bindE (free_own i m) (\<lambda>m.
       bindE (copy_stack i j m) (\<lambda>m. Inr (set_val i (Some (StackOf i, 0)) (v_size rhs) False m)))
     else Inr (set_val i (v_data rhs) (v_size rhs) False m))"

definition value_move_assign :: "nat \<Rightarrow> nat \<Rightarrow> vmem \<Rightarrow> vmem res" where
  "value_move_assign i j m =
     (if i = j then Inr m
      else bindE (free_own i m) (\<lambda>m. let rhs = val m j in
        if v_size rhs > 0 \<and> is_stack m j then
          bindE (copy_stack i j m) (\<lambda>m. Inr (set_val i (Some (StackOf i, 0)) (v_size rhs) (v_need_delete rhs) m))
        else Inr (upd_val j (\<lambda>v. v\<lparr>v_size := 0, v_need_delete := False\<rparr>)
          (set_val i (v_data rhs) (v_size rhs) (v_need_delete rhs) m))))"

definition value_Clear :: "nat \<Rightarrow> vmem \<Rightarrow> vmem res" where
  "value_Clear i m = bindE (free_own i m) (\<lambda>m. Inr (set_val i None 0 False m))"

text \<open>The object is gone after its destructor; its place in the list stays.\<close>

definition value_destroy :: "nat \<Rightarrow> vmem \<Rightarrow> vmem res" where
  "value_destroy i m = bindE (free_own i m) (\<lambda>m. Inr (set_val i None 0 False m))"

definition value_Resize :: "nat \<Rightarrow> nat \<Rightarrow> nat \<Rightarrow> vmem \<Rightarrow> vmem res" where
  "value_Resize i s reserve m = (let msize = max reserve s; v = val m i in
     bindE
       (if v_need_delete v then
          if msize > v_size v
          then bindE (LBRealloc (v_data v) msize m) (\<lambda>(p, m). Inr (upd_val i (\<lambda>v. v\<lparr>v_data := p\<rparr>) m))
          else Inr m
        else if v_data v \<noteq> None then
          (let oldp = v_data v; olds = v_size v; m = v_Malloc i msize m in
           if oldp \<noteq> v_data (val m i)
           then bindE (read_mem m oldp (min olds s)) (\<lambda>xs. copy_from i xs m)
           else Inr m)
        else Inr (v_Malloc i msize m))
       (\<lambda>m. Inr (upd_val i (\<lambda>v. v\<lparr>v_size := s\<rparr>) m)))"

definition value_Copy_bytes :: "nat \<Rightarrow> byte list \<Rightarrow> vmem \<Rightarrow> vmem res" where
  "value_Copy_bytes i d m = bindE (value_Resize i (length d) 0 m) (copy_from i d)"

definition value_Copy_buf :: "nat \<Rightarrow> pointer \<Rightarrow> nat \<Rightarrow> vmem \<Rightarrow> vmem res" where
  "value_Copy_buf i buf s m = bindE (value_Resize i s 0 m) (\<lambda>m. bindE (read_mem m buf s) (\<lambda>xs. copy_from i xs m))"

definition value_Copy :: "nat \<Rightarrow> nat \<Rightarrow> vmem \<Rightarrow> vmem res" where
  "value_Copy i j m = bindE (value_Resize i (v_size (val m j)) 0 m) (\<lambda>m.
     bindE (read_mem m (v_data (val m j)) (v_size (val m j))) (\<lambda>xs. copy_from i xs m))"

definition value_MakeCopy :: "nat \<Rightarrow> vmem \<Rightarrow> vmem res" where
  "value_MakeCopy j m = value_Copy (length (vs_vals m)) j (value_new m)"

definition value_Size :: "vmem \<Rightarrow> nat \<Rightarrow> nat" where
  "value_Size m i = v_size (val m i)"

definition value_Empty :: "vmem \<Rightarrow> nat \<Rightarrow> bool" where
  "value_Empty m i \<longleftrightarrow> v_size (val m i) = 0"

definition value_eq :: "vmem \<Rightarrow> nat \<Rightarrow> nat \<Rightarrow> bool res" where
  "value_eq m i j =
     (if value_Size m i \<noteq> value_Size m j then Inr False
      else bindE (read_mem m (v_data (val m i)) (value_Size m i)) (\<lambda>xs.
        bindE (read_mem m (v_data (val m j)) (value_Size m i)) (\<lambda>ys. Inr (xs = ys))))"

text \<open>An object of a type of \<open>n\<close> bytes; another size ends the program.\<close>

definition value_AsType :: "vmem \<Rightarrow> nat \<Rightarrow> nat \<Rightarrow> byte list res" where
  "value_AsType m i n = (if n \<noteq> v_size (val m i) then Inl Thrown else read_mem m (v_data (val m i)) (v_size (val m i)))"

definition value_ConstRef :: "nat \<Rightarrow> vmem \<Rightarrow> vmem" where
  "value_ConstRef j m = value_ref (v_data (val m j)) (v_size (val m j)) m"

definition hex_digit :: "byte \<Rightarrow> char" where
  "hex_digit n = ''0123456789ABCDEF'' ! unat n"

definition debug_string :: "nat \<Rightarrow> byte list \<Rightarrow> string" where
  "debug_string line_width bs = concat (map (\<lambda>i.
     (if i mod line_width = 0 \<and> i \<noteq> 0 then [CHR 0x0A] else []) @
     [hex_digit (drop_bit 4 (bs ! i)), hex_digit (and (bs ! i) 0xF)] @
     (if i \<noteq> length bs - 1 then [CHR '' ''] else [])) [0..<length bs])"

section \<open>The invariant\<close>

definition owner :: "vmem \<Rightarrow> nat \<Rightarrow> nat \<Rightarrow> bool" where
  "owner m i b \<longleftrightarrow> v_need_delete (val m i) \<and> v_data (val m i) = Some (Block b, 0)"

text \<open>An empty value that owns nothing may point anywhere.\<close>

definition val_ok :: "vmem \<Rightarrow> nat \<Rightarrow> bool" where
  "val_ok m i \<longleftrightarrow> (let v = val m i in length (v_stack v) = STACK_SIZE \<and>
     (v_need_delete v \<and> v_data v = None \<and> v_size v = 0 \<or>
      (\<exists>b bs. v_need_delete v \<and> v_data v = Some (Block b, 0) \<and> vs_blocks m b = Some (True, bs) \<and> v_size v \<le> length bs) \<or>
      \<not> v_need_delete v \<and> v_size v = 0 \<or>
      \<not> v_need_delete v \<and> v_size v \<noteq> 0 \<and> v_data v = Some (StackOf i, 0) \<and> v_size v \<le> STACK_SIZE \<or>
      (\<exists>b off bs. \<not> v_need_delete v \<and> v_size v \<noteq> 0 \<and> v_data v = Some (Block b, off) \<and>
         vs_blocks m b = Some (False, bs) \<and> off + v_size v \<le> length bs)))"

definition values_ok :: "vmem \<Rightarrow> bool" where
  "values_ok m \<longleftrightarrow> (\<forall>i < length (vs_vals m). val_ok m i) \<and>
     (\<forall>i < length (vs_vals m). \<forall>j < length (vs_vals m). \<forall>b. owner m i b \<and> owner m j b \<longrightarrow> i = j) \<and>
     (\<forall>b \<ge> vs_next m. vs_blocks m b = None)"

text \<open>The bytes of a value.\<close>

definition val_bytes :: "vmem \<Rightarrow> nat \<Rightarrow> byte list" where
  "val_bytes m i = (case read_mem m (v_data (val m i)) (v_size (val m i)) of Inr xs \<Rightarrow> xs | Inl _ \<Rightarrow> [])"

text \<open>An operation on one value leaves the others and what they point to alone, and gets no block but a fresh one.\<close>

definition change :: "nat \<Rightarrow> vmem \<Rightarrow> vmem \<Rightarrow> bool" where
  "change i m m' \<longleftrightarrow> length (vs_vals m') = length (vs_vals m) \<and>
     (\<forall>k < length (vs_vals m). k \<noteq> i \<longrightarrow> val m' k = val m k) \<and>
     (\<forall>b. vs_blocks m b \<noteq> None \<and> \<not> owner m i b \<longrightarrow> vs_blocks m' b = vs_blocks m b) \<and>
     (\<forall>b. owner m' i b \<longrightarrow> owner m i b \<or> vs_next m \<le> b) \<and>
     vs_next m \<le> vs_next m' \<and> (\<forall>b \<ge> vs_next m'. vs_blocks m' b = None)"

lemma values_okD:
  assumes "values_ok m" "i < length (vs_vals m)"
  shows "val_ok m i" "owner m i b \<Longrightarrow> j < length (vs_vals m) \<Longrightarrow> owner m j b \<Longrightarrow> j = i"
    "owner m i b \<Longrightarrow> \<exists>bs. vs_blocks m b = Some (True, bs) \<and> v_size (val m i) \<le> length bs"
    "vs_blocks m b \<noteq> None \<Longrightarrow> b < vs_next m"
proof -
  show "val_ok m i" "owner m i b \<Longrightarrow> j < length (vs_vals m) \<Longrightarrow> owner m j b \<Longrightarrow> j = i" "vs_blocks m b \<noteq> None \<Longrightarrow> b < vs_next m"
    using assms unfolding values_ok_def by (blast, blast, meson not_le)
  then show "owner m i b \<Longrightarrow> \<exists>bs. vs_blocks m b = Some (True, bs) \<and> v_size (val m i) \<le> length bs"
    by (auto simp: owner_def val_ok_def Let_def)
qed

lemma val_ok_cases:
  assumes "val_ok m i"
  obtains (Null) "v_need_delete (val m i)" "v_data (val m i) = None" "v_size (val m i) = 0"
  | (Owned) b bs where "v_need_delete (val m i)" "v_data (val m i) = Some (Block b, 0)" "vs_blocks m b = Some (True, bs)"
      "v_size (val m i) \<le> length bs"
  | (Empty) "\<not> v_need_delete (val m i)" "v_size (val m i) = 0"
  | (Small) "\<not> v_need_delete (val m i)" "v_size (val m i) \<noteq> 0" "v_data (val m i) = Some (StackOf i, 0)"
      "v_size (val m i) \<le> STACK_SIZE"
  | (Reference) b off bs where "\<not> v_need_delete (val m i)" "v_size (val m i) \<noteq> 0" "v_data (val m i) = Some (Block b, off)"
      "vs_blocks m b = Some (False, bs)" "off + v_size (val m i) \<le> length bs"
  using conjunct2 [OF assms [unfolded val_ok_def Let_def]]
  by (elim disjE exE conjE) (rule that; assumption)+

lemma val_ok_stack: "val_ok m i \<Longrightarrow> length (v_stack (val m i)) = STACK_SIZE"
  by (simp add: val_ok_def Let_def)

lemma read_val:
  assumes "val_ok m i" "i < length (vs_vals m)"
  shows "read_mem m (v_data (val m i)) (v_size (val m i)) = Inr (val_bytes m i)" "length (val_bytes m i) = v_size (val m i)"
proof -
  have "\<exists>xs. read_mem m (v_data (val m i)) (v_size (val m i)) = Inr xs \<and> length xs = v_size (val m i)"
    using assms(2) val_ok_stack [OF assms(1)] by (cases rule: val_ok_cases [OF assms(1)]) (simp_all add: read_mem_def mem_at_def)
  then show "read_mem m (v_data (val m i)) (v_size (val m i)) = Inr (val_bytes m i)" "length (val_bytes m i) = v_size (val m i)"
    by (auto simp: val_bytes_def)
qed

lemma change_refl: "values_ok m \<Longrightarrow> change i m m"
  by (simp add: change_def values_ok_def)

lemma change_block: "change i m m' \<Longrightarrow> \<not> owner m i b \<Longrightarrow> vs_blocks m b = Some x \<Longrightarrow> vs_blocks m' b = Some x"
  unfolding change_def by (metis option.distinct(1))

lemma change_trans:
  assumes "values_ok m" "change i m m'" "change i m' m''"
  shows "change i m m''"
proof -
  have "vs_blocks m'' b = vs_blocks m b" if "vs_blocks m b \<noteq> None" "\<not> owner m i b" for b
  proof -
    have "b < vs_next m" using assms(1) that(1) by (meson values_ok_def not_le)
    then have "\<not> owner m' i b" using assms(2) that by (auto simp: change_def)
    then show ?thesis using assms(2,3) that by (simp add: change_def)
  qed
  moreover have "owner m i b \<or> vs_next m \<le> b" if "owner m'' i b" for b
    using assms(2,3) that unfolding change_def by (meson order_trans)
  ultimately show ?thesis using assms(2,3) by (simp add: change_def)
qed

lemma change_other:
  assumes ok: "values_ok m" and c: "change i m m'" and i: "i < length (vs_vals m)" and k: "k < length (vs_vals m)" "k \<noteq> i"
  shows "val m' k = val m k" "owner m' k b = owner m k b" "val_ok m' k" "val_bytes m' k = val_bytes m k"
    "read_mem m' (v_data (val m k)) (v_size (val m k)) = Inr (val_bytes m k)"
proof -
  show v: "val m' k = val m k" using c k by (simp add: change_def)
  then show "owner m' k b = owner m k b" by (simp add: owner_def)
  have b: "vs_blocks m' b = vs_blocks m b" if "v_data (val m k) = Some (Block b, off)" "vs_blocks m b = Some (h, bs)"
    "h = v_need_delete (val m k)" "h \<Longrightarrow> off = 0" for b off bs h
  proof -
    have "\<not> owner m i b"
      using that values_okD(2) [OF ok k(1), of b i] values_okD(3) [OF ok i, of b] i k by (auto simp: owner_def)
    then show ?thesis using c that(2) by (simp add: change_def)
  qed
  have vk: "val_ok m k" by (rule values_okD(1) [OF ok k(1)])
  note st = val_ok_stack [OF vk]
  show "val_ok m' k"
    using vk
  proof (cases rule: val_ok_cases)
    case (Owned c bs)
    then show ?thesis using b [of c 0 True bs] st by (simp add: val_ok_def v)
  next
    case (Reference c off bs)
    then show ?thesis using b [of c off False bs] st by (simp add: val_ok_def v)
  qed (use st in \<open>simp_all add: val_ok_def v\<close>)
  have l: "length (vs_vals m') = length (vs_vals m)" using c by (simp add: change_def)
  have "read_mem m' (v_data (val m k)) (v_size (val m k)) = read_mem m (v_data (val m k)) (v_size (val m k))"
    using vk
  proof (cases rule: val_ok_cases)
    case (Owned c bs)
    then show ?thesis using b [of c 0 True bs] by (simp add: read_mem_def mem_at_def)
  next
    case (Reference c off bs)
    then show ?thesis using b [of c off False bs] by (simp add: read_mem_def mem_at_def)
  qed (use k v l in \<open>simp_all add: read_mem_def mem_at_def\<close>)
  then have r: "read_mem m' (v_data (val m k)) (v_size (val m k)) = Inr (val_bytes m k)"
    by (simp only: read_val(1) [OF vk k(1)])
  then show "read_mem m' (v_data (val m k)) (v_size (val m k)) = Inr (val_bytes m k)" .
  show "val_bytes m' k = val_bytes m k" by (subst val_bytes_def) (simp only: v r sum.case)
qed

lemma change_ok:
  assumes ok: "values_ok m" and c: "change i m m'" and i: "i < length (vs_vals m)" and v: "val_ok m' i"
  shows "values_ok m'"
proof -
  have l: "length (vs_vals m') = length (vs_vals m)" using c by (simp add: change_def)
  note o = change_other [OF ok c i]
  have u: "j = k" if "j < length (vs_vals m)" "k < length (vs_vals m)" "owner m' j b" "owner m' k b" for j k b
  proof -
    have new: "owner m i b \<or> vs_next m \<le> b" if "owner m' i b" using c that by (simp add: change_def)
    have old: "owner m n b" "b < vs_next m" if "n \<noteq> i" "n < length (vs_vals m)" "owner m' n b" for n
      using o(2) [OF that(2,1)] that values_okD(3,4) [OF ok that(2), of b] by auto
    show ?thesis
      using that new old values_okD(2) [OF ok] i by (metis not_le)
  qed
  have "val_ok m' k" if "k < length (vs_vals m)" for k using o(3) [OF that] v by (cases "k = i") auto
  moreover have "\<forall>b \<ge> vs_next m'. vs_blocks m' b = None" using c by (simp add: change_def)
  ultimately show ?thesis using u unfolding values_ok_def l by blast
qed

section \<open>The primitives on one value\<close>

definition freed :: "nat \<Rightarrow> vmem \<Rightarrow> vmem" where
  "freed i m = m\<lparr>vs_blocks := (\<lambda>b. if owner m i b then None else vs_blocks m b)\<rparr>"

text \<open>The value may be written: it does not refer to memory of others.\<close>

definition writable :: "vmem \<Rightarrow> nat \<Rightarrow> bool" where
  "writable m i \<longleftrightarrow> v_need_delete (val m i) \<or> v_data (val m i) = Some (StackOf i, 0)"

lemma set_val_simps [simp]:
  "length (vs_vals (set_val i p s own m)) = length (vs_vals m)" "vs_blocks (set_val i p s own m) = vs_blocks m"
  "vs_next (set_val i p s own m) = vs_next m" "vs_junk (set_val i p s own m) = vs_junk m"
  "k \<noteq> i \<Longrightarrow> val (set_val i p s own m) k = val m k"
  "i < length (vs_vals m) \<Longrightarrow> val (set_val i p s own m) i = (val m i)\<lparr>v_data := p, v_size := s, v_need_delete := own\<rparr>"
  by (simp_all add: set_val_def upd_val_def)

lemma freed_simps [simp]:
  "vs_vals (freed i m) = vs_vals m" "vs_next (freed i m) = vs_next m" "vs_junk (freed i m) = vs_junk m"
  by (simp_all add: freed_def)

lemma free_own_ok:
  assumes "values_ok m" "i < length (vs_vals m)"
  shows "free_own i m = Inr (freed i m)"
  using values_okD(1) [OF assms]
proof (cases rule: val_ok_cases)
  case (Owned b bs)
  moreover have "(\<lambda>c. if b = c then None else vs_blocks m c) = (vs_blocks m)(b := None)" by auto
  ultimately show ?thesis by (simp add: free_own_def LBFree_def freed_def owner_def)
qed (simp_all add: free_own_def LBFree_def freed_def owner_def)

lemma drop_own:
  assumes "values_ok m" "i < length (vs_vals m)"
  shows "change i m (set_val i p s False (freed i m))"
  using assms by (auto simp: change_def values_ok_def owner_def freed_def)

lemma malloc_ok:
  assumes ok: "values_ok m" and i: "i < length (vs_vals m)"
  shows "change i m (v_Malloc i s m)" "val_ok (v_Malloc i s m) i" "writable (v_Malloc i s m) i" "v_size (val (v_Malloc i s m) i) = s"
    "vs_blocks m b \<noteq> None \<Longrightarrow> vs_blocks (v_Malloc i s m) b = vs_blocks m b" "k \<noteq> i \<Longrightarrow> val (v_Malloc i s m) k = val m k"
    "v_stack (val (v_Malloc i s m) i) = v_stack (val m i)"
proof -
  note st = val_ok_stack [OF values_okD(1) [OF ok i]]
  have n: "vs_blocks m b = None" if "b \<ge> vs_next m" for b using ok that by (simp add: values_ok_def)
  show "change i m (v_Malloc i s m)"
  proof (cases "s \<le> STACK_SIZE")
    case True
    then show ?thesis using i n by (auto simp: v_Malloc_def change_def owner_def)
  next
    case False
    then show ?thesis using i n by (auto simp: v_Malloc_def change_def owner_def LBMalloc_def)
  qed
  show "val_ok (v_Malloc i s m) i" "writable (v_Malloc i s m) i" "v_size (val (v_Malloc i s m) i) = s"
    "v_stack (val (v_Malloc i s m) i) = v_stack (val m i)"
    using i st by (auto simp: v_Malloc_def val_ok_def writable_def LBMalloc_def fresh_bytes_def Let_def)
  show "vs_blocks m b \<noteq> None \<Longrightarrow> vs_blocks (v_Malloc i s m) b = vs_blocks m b"
    using n [of "vs_next m"] by (auto simp: v_Malloc_def LBMalloc_def)
  show "k \<noteq> i \<Longrightarrow> val (v_Malloc i s m) k = val m k" by (simp add: v_Malloc_def LBMalloc_def)
qed

lemma copy_from_ok:
  assumes ok: "values_ok m" and i: "i < length (vs_vals m)" and w: "writable m i" and l: "length xs \<le> v_size (val m i)"
  obtains m' where "copy_from i xs m = Inr m'" "change i m m'" "val_ok m' i" "writable m' i" "v_size (val m' i) = v_size (val m i)"
    "val_bytes m' i = xs @ drop (length xs) (val_bytes m i)"
proof (cases "xs = []")
  case True
  then have "copy_from i xs m = Inr m" by (simp add: copy_from_def write_mem_def)
  then show thesis using that [of m] change_refl [OF ok] values_okD(1) [OF ok i] w True by simp
next
  case False
  note st = val_ok_stack [OF values_okD(1) [OF ok i]]
  have n: "vs_blocks m b = None" if "b \<ge> vs_next m" for b using ok that by (simp add: values_ok_def)
  have nz: "v_size (val m i) \<noteq> 0" using l False by (cases xs) simp_all
  from values_okD(1) [OF ok i] show thesis
  proof (cases rule: val_ok_cases)
    case (Owned b bs)
    let ?m = "m\<lparr>vs_blocks := (vs_blocks m)(b := Some (True, xs @ drop (length xs) bs))\<rparr>"
    have "copy_from i xs m = Inr ?m" using Owned l by (simp add: copy_from_def write_mem_def mem_at_def False Let_def)
    moreover have "b < vs_next m" using n [of b] Owned(3) by (cases "b < vs_next m") auto
    then have "change i m ?m" using n Owned by (auto simp: change_def owner_def)
    moreover have "val_ok ?m i" using Owned l st by (simp add: val_ok_def)
    moreover have "val_bytes m i = take (v_size (val m i)) bs" using Owned nz by (simp add: val_bytes_def read_mem_def mem_at_def)
    then have "val_bytes ?m i = xs @ drop (length xs) (val_bytes m i)"
      using Owned l nz by (simp add: val_bytes_def read_mem_def mem_at_def drop_take)
    ultimately show thesis using that [of ?m] w by (simp add: writable_def)
  next
    case Small
    let ?st = "xs @ drop (length xs) (v_stack (val m i))"
    let ?m = "m\<lparr>vs_vals := (vs_vals m)[i := (val m i)\<lparr>v_stack := ?st\<rparr>]\<rparr>"
    have "copy_from i xs m = Inr ?m"
      using Small l st i by (simp add: copy_from_def write_mem_def mem_at_def False Let_def)
    moreover have "change i m ?m" using n Small i by (auto simp: change_def owner_def)
    moreover have "val_ok ?m i" using Small l st i by (simp add: val_ok_def)
    moreover have "val_bytes ?m i = xs @ drop (length xs) (val_bytes m i)"
      using Small l st i by (simp add: val_bytes_def read_mem_def mem_at_def drop_take)
    ultimately show thesis using that [of ?m] Small(3) i by (simp add: writable_def)
  qed (use w l False in \<open>simp_all add: writable_def\<close>)
qed

lemma realloc_ok:
  assumes ok: "values_ok m" and i: "i < length (vs_vals m)" and d: "v_need_delete (val m i)" and s: "s' \<le> s"
  obtains p m' where "LBRealloc (v_data (val m i)) s m = Inr (p, m')" "change i m (set_val i p s' True m')"
    "val_ok (set_val i p s' True m') i" "take (v_size (val m i)) (val_bytes (set_val i p s' True m') i) = take s' (val_bytes m i)"
    "vs_vals m' = vs_vals m"
proof -
  note st = val_ok_stack [OF values_okD(1) [OF ok i]]
  have n: "vs_blocks m b = None" if "b \<ge> vs_next m" for b using ok that by (simp add: values_ok_def)
  from values_okD(1) [OF ok i] show thesis
  proof (cases rule: val_ok_cases)
    case Null
    let ?m = "m\<lparr>vs_next := Suc (vs_next m), vs_blocks := (vs_blocks m)(vs_next m := Some (True, fresh_bytes m s))\<rparr>"
    let ?p = "Some (Block (vs_next m), 0)"
    have "LBRealloc (v_data (val m i)) s m = Inr (?p, ?m)" using Null by (simp add: LBRealloc_def LBMalloc_def)
    moreover have "change i m (set_val i ?p s' True ?m)" using n i by (auto simp: change_def owner_def)
    moreover have "val_ok (set_val i ?p s' True ?m) i" using i st s by (simp add: val_ok_def fresh_bytes_def)
    ultimately show thesis using that Null(3) by (simp add: val_bytes_def read_mem_def)
  next
    case (Owned b bs)
    have bn: "b < vs_next m" using n [of b] Owned(3) by (cases "b < vs_next m") auto
    have ob: "owner m i c \<longleftrightarrow> c = b" for c using Owned by (auto simp: owner_def)
    have f: "LBFree (v_data (val m i)) m = Inr (m\<lparr>vs_blocks := (vs_blocks m)(b := None)\<rparr>)" using Owned by (simp add: LBFree_def)
    show thesis
    proof (cases "s = 0")
      case True
      let ?m = "m\<lparr>vs_blocks := (vs_blocks m)(b := None)\<rparr>"
      have "LBRealloc (v_data (val m i)) s m = Inr (None, ?m)" using Owned f True by (simp add: LBRealloc_def mem_at_def)
      moreover have "change i m (set_val i None s' True ?m)" using n i ob by (auto simp: change_def owner_def)
      moreover have "val_ok (set_val i None s' True ?m) i" using i st s True by (simp add: val_ok_def)
      ultimately show thesis using that [of None ?m] s True i by (simp add: val_bytes_def read_mem_def)
    next
      case False
      let ?c = "vs_next m" and ?cs = "take s bs @ drop (length (take s bs)) (fresh_bytes m s)"
      let ?m = "m\<lparr>vs_next := Suc ?c, vs_blocks := (vs_blocks m)(b := None, ?c := Some (True, ?cs))\<rparr>" and ?p = "Some (Block ?c, 0)"
      have "LBRealloc (v_data (val m i)) s m = Inr (?p, ?m)"
        using Owned f False by (simp add: LBRealloc_def mem_at_def LBMalloc_def write_mem_def fresh_bytes_def Let_def)
      moreover have "change i m (set_val i ?p s' True ?m)" using n i ob bn by (auto simp: change_def owner_def)
      moreover have "val_ok (set_val i ?p s' True ?m) i" using i st s by (simp add: val_ok_def fresh_bytes_def)
      moreover have "val_bytes m i = take (v_size (val m i)) bs" using Owned by (simp add: val_bytes_def read_mem_def mem_at_def)
      moreover have "val_bytes (set_val i ?p s' True ?m) i = take s' ?cs"
        using i s by (simp add: val_bytes_def read_mem_def mem_at_def fresh_bytes_def)
      ultimately show thesis using that [of ?p ?m] s Owned(4) by (simp add: min_def take_append)
    qed
  qed (use d in simp_all)
qed

lemma shrink_ok:
  assumes ok: "values_ok m" and i: "i < length (vs_vals m)" and w: "writable m i" and s: "s \<le> v_size (val m i)"
  defines "m' \<equiv> upd_val i (\<lambda>v. v\<lparr>v_size := s\<rparr>) m"
  shows "change i m m'" "val_ok m' i" "writable m' i" "v_size (val m' i) = s" "val_bytes m' i = take s (val_bytes m i)"
proof -
  note st = val_ok_stack [OF values_okD(1) [OF ok i]]
  show "change i m m'" using ok i by (auto simp: m'_def upd_val_def change_def values_ok_def owner_def)
  show "writable m' i" "v_size (val m' i) = s" using w i by (simp_all add: m'_def upd_val_def writable_def)
  from values_okD(1) [OF ok i] show "val_ok m' i"
    by (cases rule: val_ok_cases) (use w i s st in \<open>auto simp: m'_def upd_val_def val_ok_def writable_def\<close>)
  from values_okD(1) [OF ok i] show "val_bytes m' i = take s (val_bytes m i)"
    by (cases rule: val_ok_cases)
      (use w i s st in \<open>auto simp: m'_def upd_val_def val_bytes_def read_mem_def mem_at_def writable_def min_def\<close>)
qed

text \<open>What an operation makes of a value, the others being left alone.\<close>

definition turns :: "nat \<Rightarrow> vmem \<Rightarrow> byte list \<Rightarrow> vmem res \<Rightarrow> bool" where
  "turns i m xs r \<longleftrightarrow> (\<exists>m'. r = Inr m' \<and> change i m m' \<and> val_ok m' i \<and> val_bytes m' i = xs)"

lemma turnsI: "r = Inr m' \<Longrightarrow> change i m m' \<Longrightarrow> val_ok m' i \<Longrightarrow> val_bytes m' i = xs \<Longrightarrow> turns i m xs r"
  by (auto simp: turns_def)

lemma change_length: "change i m m' \<Longrightarrow> length (vs_vals m') = length (vs_vals m)"
  by (simp add: change_def)

lemma fill_ok:
  assumes ok: "values_ok m" and i: "i < length (vs_vals m)" and c: "change i m m1" "val_ok m1 i" "writable m1 i" "v_size (val m1 i) = length xs"
  shows "turns i m xs (copy_from i xs m1)"
proof -
  have ok1: "values_ok m1" and i1: "i < length (vs_vals m1)" using change_ok [OF ok c(1) i c(2)] change_length [OF c(1)] i by auto
  obtain m' where m': "copy_from i xs m1 = Inr m'" "change i m1 m'" "val_ok m' i" "val_bytes m' i = xs @ drop (length xs) (val_bytes m1 i)"
    by (rule copy_from_ok [OF ok1 i1 c(3), of xs]) (use c(4) in auto)
  have "drop (length xs) (val_bytes m1 i) = []" using read_val(2) [OF c(2) i1] c(4) by simp
  then show ?thesis using m' change_trans [OF ok c(1)] by (auto simp: turns_def)
qed

text \<open>A reference to memory of the caller, and an empty value, with or without freeing what was owned.\<close>

lemma set_ref_ok:
  assumes ok: "values_ok m" and i: "i < length (vs_vals m)" and m': "m' = m \<or> m' = freed i m"
    and p: "s = 0 \<and> xs = [] \<or> (\<exists>b off bs. p = Some (Block b, off) \<and> vs_blocks m b = Some (False, bs) \<and> off + s \<le> length bs \<and>
      xs = take s (drop off bs))"
  shows "turns i m xs (Inr (set_val i p s False m'))"
proof (rule turnsI [OF refl])
  note st = val_ok_stack [OF values_okD(1) [OF ok i]]
  have v: "vs_vals m' = vs_vals m" using m' by auto
  show "change i m (set_val i p s False m')" using m' drop_own [OF ok i] ok i
    by (auto simp: change_def values_ok_def owner_def)
  have b: "vs_blocks m' b = Some (False, bs)" if "vs_blocks m b = Some (False, bs)" for b bs
    using values_okD(3) [OF ok i, of b] m' that by (auto simp: freed_def)
  show "val_ok (set_val i p s False m') i" using p b st i v by (cases "s = 0") (auto simp: val_ok_def)
  show "val_bytes (set_val i p s False m') i = xs"
    using p b i v by (cases "s = 0") (auto simp: val_bytes_def read_mem_def mem_at_def)
qed

lemma ref_bytes:
  assumes ok: "values_ok m" and j: "j < length (vs_vals m)" and "\<not> v_need_delete (val m j)" "\<not> (v_size (val m j) > 0 \<and> is_stack m j)"
  shows "v_size (val m j) = 0 \<and> val_bytes m j = [] \<or> (\<exists>b off bs. v_data (val m j) = Some (Block b, off) \<and>
    vs_blocks m b = Some (False, bs) \<and> off + v_size (val m j) \<le> length bs \<and> val_bytes m j = take (v_size (val m j)) (drop off bs))"
  using values_okD(1) [OF ok j]
proof (cases rule: val_ok_cases)
  case (Reference b off bs)
  then show ?thesis by (auto simp: val_bytes_def read_mem_def mem_at_def)
qed (use assms(3,4) in \<open>simp_all add: is_stack_def val_bytes_def read_mem_def\<close>)

lemma small_bytes:
  assumes ok: "values_ok m" and j: "j < length (vs_vals m)" and "v_size (val m j) > 0" "is_stack m j"
  shows "\<not> v_need_delete (val m j)" "v_size (val m j) \<le> STACK_SIZE" "val_bytes m j = take (v_size (val m j)) (v_stack (val m j))"
proof -
  from values_okD(1) [OF ok j]
  have "\<not> v_need_delete (val m j) \<and> v_size (val m j) \<le> STACK_SIZE \<and> v_data (val m j) = Some (StackOf j, 0)"
    by (cases rule: val_ok_cases) (use assms(3,4) in \<open>simp_all add: is_stack_def\<close>)
  then show "\<not> v_need_delete (val m j)" "v_size (val m j) \<le> STACK_SIZE" "val_bytes m j = take (v_size (val m j)) (v_stack (val m j))"
    using j val_ok_stack [OF values_okD(1) [OF ok j]] assms(3) by (auto simp: val_bytes_def read_mem_def mem_at_def)
qed

text \<open>The bytes of a small value go into the array of another.\<close>

lemma copy_stack_ok:
  assumes ok: "values_ok m" and i: "i < length (vs_vals m)" and j: "j < length (vs_vals m)" and m': "m' = m \<or> m' = freed i m"
    and s: "v_size (val m j) > 0" "is_stack m j"
  shows "turns i m (val_bytes m j)
    (bindE (copy_stack i j m') (\<lambda>m. Inr (set_val i (Some (StackOf i, 0)) (v_size (val m' j)) False m)))"
proof -
  let ?n = "v_size (val m j)"
  define xs where "xs = val_bytes m j"
  note b = small_bytes [OF ok j s, folded xs_def] and st = val_ok_stack [OF values_okD(1) [OF ok i]] val_ok_stack [OF values_okD(1) [OF ok j]]
  have v: "vs_vals m' = vs_vals m" "vs_next m' = vs_next m" using m' by auto
  have l: "length xs = ?n" "xs \<noteq> []" using b s(1) st(2) by auto
  let ?m = "m'\<lparr>vs_vals := (vs_vals m)[i := (val m i)\<lparr>v_stack := xs @ drop ?n (v_stack (val m i))\<rparr>]\<rparr>"
  have r: "copy_stack i j m' = Inr ?m"
    using v i j b l st s(1) by (simp add: copy_stack_def read_mem_def write_mem_def mem_at_def Let_def)
  let ?m2 = "set_val i (Some (StackOf i, 0)) ?n False ?m"
  have "change i m ?m2"
    using drop_own [OF ok i] m' v i ok by (auto simp: change_def values_ok_def owner_def)
  moreover have "val_ok ?m2 i" using i l st b(2) by (auto simp: val_ok_def)
  moreover have "val_bytes ?m2 i = xs" using i l st b(2) s(1) by (simp add: val_bytes_def read_mem_def mem_at_def)
  ultimately show ?thesis unfolding xs_def [symmetric] using r v by (auto intro!: turnsI)
qed

lemma Resize_ok:
  assumes ok: "values_ok m" and i: "i < length (vs_vals m)"
  obtains m' where "value_Resize i s reserve m = Inr m'" "change i m m'" "val_ok m' i" "writable m' i" "v_size (val m' i) = s"
    "take (v_size (val m i)) (val_bytes m' i) = take s (val_bytes m i)"
proof -
  let ?v = "val m i" and ?ms = "max reserve s"
  note vi = values_okD(1) [OF ok i] and ml = malloc_ok [OF ok i, where s = ?ms]
  note rl = read_val(2) [OF vi i]
  have ok1: "values_ok (v_Malloc i ?ms m)" and i1: "i < length (vs_vals (v_Malloc i ?ms m))"
    using change_ok [OF ok ml(1) i ml(2)] change_length [OF ml(1)] i by auto
  note found = that
  have grown: thesis
    if b: "change i m m1" "val_ok m1 i" "writable m1 i" "v_size (val m1 i) = ?ms"
      "take (v_size ?v) (take s (val_bytes m1 i)) = take s (val_bytes m i)"
      and r: "value_Resize i s reserve m = Inr (upd_val i (\<lambda>v. v\<lparr>v_size := s\<rparr>) m1)" for m1
  proof -
    have ok1: "values_ok m1" and i1: "i < length (vs_vals m1)" using change_ok [OF ok b(1) i b(2)] change_length [OF b(1)] i by auto
    have le: "s \<le> v_size (val m1 i)" using b(4) by simp
    note sh = shrink_ok [OF ok1 i1 b(3) le]
    show thesis
      by (rule found [OF r change_trans [OF ok b(1) sh(1)] sh(2,3,4)]) (use b(4,5) sh(5) in simp_all)
  qed
  show thesis
  proof (cases "v_need_delete ?v")
    case need: True
    show thesis
    proof (cases "?ms > v_size ?v")
      case True
      obtain p m' where q: "LBRealloc (v_data ?v) ?ms m = Inr (p, m')" "change i m (set_val i p s True m')"
        "val_ok (set_val i p s True m') i" "take (v_size ?v) (val_bytes (set_val i p s True m') i) = take s (val_bytes m i)"
        "vs_vals m' = vs_vals m"
        by (rule realloc_ok [OF ok i need, of s ?ms]) auto
      have same: "v_need_delete v \<Longrightarrow> v\<lparr>v_data := p, v_size := s\<rparr> = v\<lparr>v_data := p, v_size := s, v_need_delete := True\<rparr>" for v :: val_obj
        by (cases v) simp
      have "upd_val i (\<lambda>v. v\<lparr>v_size := s\<rparr>) (upd_val i (\<lambda>v. v\<lparr>v_data := p\<rparr>) m') = set_val i p s True m'"
        using same [OF need] q(5) i by (simp add: upd_val_def set_val_def)
      then have "value_Resize i s reserve m = Inr (set_val i p s True m')"
        using need True q(1) by (simp add: value_Resize_def Let_def)
      then show thesis by (rule that [OF _ q(2,3) _ _ q(4)]) (use q(5) i in \<open>simp_all add: writable_def\<close>)
    next
      case False
      then have "value_Resize i s reserve m = Inr (upd_val i (\<lambda>v. v\<lparr>v_size := s\<rparr>) m)"
        using need by (simp add: value_Resize_def Let_def)
      moreover have "writable m i" using need by (simp add: writable_def)
      moreover have "s \<le> v_size ?v" using False by simp
      ultimately show thesis using that shrink_ok [OF ok i, of s] rl by simp
    qed
  next
    case own: False
    show thesis
    proof (cases "v_data ?v \<noteq> None \<and> v_data ?v \<noteq> v_data (val (v_Malloc i ?ms m) i)")
      case True
      let ?xs = "take s (val_bytes m i)"
      have "read_mem (v_Malloc i ?ms m) (v_data ?v) (min (v_size ?v) s) = Inr ?xs"
        using vi
      proof (cases rule: val_ok_cases)
        case Small
        then show ?thesis using ml(7) i1 val_ok_stack [OF vi] i
          by (auto simp: read_mem_def mem_at_def val_bytes_def min_def)
      next
        case (Reference b off bs)
        then show ?thesis using ml(5) [where b = b]
          by (auto simp: read_mem_def mem_at_def val_bytes_def min_def)
      qed (use own rl in \<open>simp_all add: read_mem_def\<close>)
      moreover obtain m1 where m1: "copy_from i ?xs (v_Malloc i ?ms m) = Inr m1" "change i (v_Malloc i ?ms m) m1" "val_ok m1 i"
        "writable m1 i" "v_size (val m1 i) = v_size (val (v_Malloc i ?ms m) i)"
        "val_bytes m1 i = ?xs @ drop (length ?xs) (val_bytes (v_Malloc i ?ms m) i)"
        by (rule copy_from_ok [OF ok1 i1 ml(3), of ?xs]) (use ml(4) in auto)
      ultimately have r: "value_Resize i s reserve m = Inr (upd_val i (\<lambda>v. v\<lparr>v_size := s\<rparr>) m1)"
        using own True by (simp add: value_Resize_def Let_def)
      show thesis
        by (rule grown [OF change_trans [OF ok ml(1) m1(2)] m1(3,4) _ _ r]) (use m1(5,6) ml(4) rl in \<open>simp_all add: min_def\<close>)
    next
      case False
      then have r: "value_Resize i s reserve m = Inr (upd_val i (\<lambda>v. v\<lparr>v_size := s\<rparr>) (v_Malloc i ?ms m))"
        using own by (auto simp: value_Resize_def Let_def)
      have "take (v_size ?v) (take s (val_bytes (v_Malloc i ?ms m) i)) = take s (val_bytes m i)"
        using vi
      proof (cases rule: val_ok_cases)
        case Small
        then have d: "v_data (val (v_Malloc i ?ms m) i) = Some (StackOf i, 0)" using False by auto
        show ?thesis using Small d ml(4,7) i1 i val_ok_stack [OF vi]
          by (auto simp: val_bytes_def read_mem_def mem_at_def min_def v_Malloc_def LBMalloc_def split: if_splits)
      next
        case (Reference b off bs)
        have "vs_blocks m (vs_next m) = None" using ok by (simp add: values_ok_def)
        then have "b \<noteq> vs_next m" using Reference(4) by auto
        then have "v_data ?v \<noteq> v_data (val (v_Malloc i ?ms m) i)"
          using Reference(3) i by (auto simp: v_Malloc_def LBMalloc_def)
        then show ?thesis using False Reference(3) by simp
      qed (use own rl in simp_all)
      then show thesis by (rule grown [OF ml(1,2,3,4) _ r])
    qed
  qed
qed

section \<open>The operations on one value\<close>

lemma Copy_bytes_ok:
  assumes ok: "values_ok m" and i: "i < length (vs_vals m)"
  shows "turns i m d (value_Copy_bytes i d m)"
proof -
  obtain m1 where m1: "value_Resize i (length d) 0 m = Inr m1" "change i m m1" "val_ok m1 i" "writable m1 i" "v_size (val m1 i) = length d"
    by (rule Resize_ok [OF ok i, of "length d" 0])
  show ?thesis using fill_ok [OF ok i m1(2-5)] m1(1) by (simp add: value_Copy_bytes_def)
qed

lemma Copy_ok:
  assumes ok: "values_ok m" and i: "i < length (vs_vals m)" and j: "j < length (vs_vals m)"
  shows "turns i m (val_bytes m j) (value_Copy i j m)"
proof -
  let ?n = "v_size (val m j)"
  obtain m1 where m1: "value_Resize i ?n 0 m = Inr m1" "change i m m1" "val_ok m1 i" "writable m1 i" "v_size (val m1 i) = ?n"
    "take (v_size (val m i)) (val_bytes m1 i) = take ?n (val_bytes m i)"
    by (rule Resize_ok [OF ok i, of ?n 0])
  have i1: "i < length (vs_vals m1)" using change_length [OF m1(2)] i by simp
  have l: "length (val_bytes m j) = ?n" by (rule read_val(2) [OF values_okD(1) [OF ok j] j])
  have "read_mem m1 (v_data (val m1 j)) (v_size (val m1 j)) = Inr (val_bytes m j)"
  proof (cases "j = i")
    case True
    then have "val_bytes m1 i = val_bytes m i" using m1(5,6) l read_val(2) [OF m1(3) i1] by simp
    then show ?thesis using True read_val(1) [OF m1(3) i1] by simp
  next
    case False
    then show ?thesis using change_other(1,5) [OF ok m1(2) i j] by simp
  qed
  then show ?thesis using fill_ok [OF ok i m1(2-4), of "val_bytes m j"] m1(1,5) l by (simp add: value_Copy_def)
qed

lemma Copy_buf_ok:
  assumes ok: "values_ok m" and i: "i < length (vs_vals m)" and b: "vs_blocks m b = Some (False, bs)" "off + s \<le> length bs"
  shows "turns i m (take s (drop off bs)) (value_Copy_buf i (Some (Block b, off)) s m)"
proof -
  obtain m1 where m1: "value_Resize i s 0 m = Inr m1" "change i m m1" "val_ok m1 i" "writable m1 i" "v_size (val m1 i) = s"
    by (rule Resize_ok [OF ok i, of s 0])
  have "\<not> owner m i b" using values_okD(3) [OF ok i, of b] b by auto
  then have "vs_blocks m1 b = Some (False, bs)" by (rule change_block [OF m1(2) _ b(1)])
  then have "read_mem m1 (Some (Block b, off)) s = Inr (take s (drop off bs))"
    using b(2) by (simp add: read_mem_def mem_at_def)
  then show ?thesis using fill_ok [OF ok i m1(2-4), of "take s (drop off bs)"] m1(1,5) b(2) by (simp add: value_Copy_buf_def)
qed

lemma Clear_ok:
  assumes ok: "values_ok m" and i: "i < length (vs_vals m)"
  shows "turns i m [] (value_Clear i m)" "turns i m [] (value_destroy i m)"
  using set_ref_ok [OF ok i, of "freed i m" 0 "[]" None] by (simp_all add: value_Clear_def value_destroy_def free_own_ok [OF ok i])

lemma assign_ok:
  assumes ok: "values_ok m" and i: "i < length (vs_vals m)" and j: "j < length (vs_vals m)"
  shows "turns i m (val_bytes m j) (value_assign i j m)"
proof (cases "i = j")
  case True
  then show ?thesis using turnsI [OF refl change_refl [OF ok] values_okD(1) [OF ok i] refl] by (simp add: value_assign_def Let_def)
next
  case False
  let ?n = "v_size (val m j)"
  have l: "length (val_bytes m j) = ?n" by (rule read_val(2) [OF values_okD(1) [OF ok j] j])
  show ?thesis
  proof (cases "v_need_delete (val m j)")
    case need: True
    have fin: "turns i m (val_bytes m j) (bindE (read_mem m1 (v_data (val m j)) ?n) (\<lambda>xs. copy_from i xs m1))"
      if "change i m m1" "val_ok m1 i" "writable m1 i" "v_size (val m1 i) = ?n" for m1
      using fill_ok [OF ok i that(1-3), of "val_bytes m j"] that(4) l change_other(5) [OF ok that(1) i j] False by simp
    show ?thesis
    proof (cases "v_need_delete (val m i)")
      case True
      obtain p m' where q: "LBRealloc (v_data (val m i)) ?n m = Inr (p, m')" "change i m (set_val i p ?n True m')"
        "val_ok (set_val i p ?n True m') i" "vs_vals m' = vs_vals m"
        by (rule realloc_ok [OF ok i True, of ?n ?n]) auto
      then show ?thesis using fin [OF q(2,3)] need True False i by (simp add: value_assign_def writable_def Let_def)
    next
      case own: False
      show ?thesis using fin [OF malloc_ok(1-4) [OF ok i]] need own False by (simp add: value_assign_def Let_def)
    qed
  next
    case own: False
    show ?thesis
    proof (cases "?n > 0 \<and> is_stack m j")
      case True
      then show ?thesis using copy_stack_ok [OF ok i j, of "freed i m"] own False
        by (simp add: value_assign_def Let_def free_own_ok [OF ok i])
    next
      case no: False
      then show ?thesis using set_ref_ok [OF ok i disjI1 [OF refl] ref_bytes [OF ok j own no]] own False no
        by (auto simp: value_assign_def Let_def)
    qed
  qed
qed

lemma own_ok:
  assumes ok: "values_ok m" and i: "i < length (vs_vals m)"
  shows "turns i m bs (let (p, m1) = LBMalloc (length bs) m in bindE (write_mem p bs m1) (TakeOwnershipFrom i p (length bs)))"
proof -
  let ?c = "vs_next m"
  let ?m1 = "m\<lparr>vs_next := Suc ?c, vs_blocks := (vs_blocks m)(?c := Some (True, bs))\<rparr>" and ?p = "Some (Block ?c, 0)"
  have n: "vs_blocks m b = None" if "b \<ge> ?c" for b using ok that by (simp add: values_ok_def)
  have w: "(let (p, m1) = LBMalloc (length bs) m in bindE (write_mem p bs m1) (TakeOwnershipFrom i p (length bs))) =
      TakeOwnershipFrom i ?p (length bs) ?m1"
    by (cases "bs = []") (simp_all add: LBMalloc_def write_mem_def mem_at_def fresh_bytes_def Let_def)
  have o: "owner m k b = owner ?m1 k b" for k b by (simp add: owner_def)
  have "change i m ?m1" using n by (auto simp: change_def o)
  moreover have "val_ok ?m1 i"
    using values_okD(1) [OF ok i]
  proof (cases rule: val_ok_cases)
    case (Owned b xs)
    then have "b \<noteq> ?c" using n [of b] by auto
    then show ?thesis using Owned val_ok_stack [OF values_okD(1) [OF ok i]] by (simp add: val_ok_def)
  next
    case (Reference b off xs)
    then have "b \<noteq> ?c" using n [of b] by auto
    then show ?thesis using Reference val_ok_stack [OF values_okD(1) [OF ok i]] by (simp add: val_ok_def)
  qed (use val_ok_stack [OF values_okD(1) [OF ok i]] in \<open>simp_all add: val_ok_def\<close>)
  ultimately have ok1: "values_ok ?m1" by (intro change_ok [OF ok _ i])
  have no: "\<not> owner m i ?c" using values_okD(3) [OF ok i, of ?c] n [of ?c] by auto
  let ?m2 = "set_val i ?p (length bs) True (freed i ?m1)"
  have r: "TakeOwnershipFrom i ?p (length bs) ?m1 = Inr ?m2"
    using free_own_ok [OF ok1] i by (simp add: TakeOwnershipFrom_def)
  have "change i m ?m2" using n i no by (auto simp: change_def freed_def owner_def)
  moreover have "val_ok ?m2 i" using i no val_ok_stack [OF values_okD(1) [OF ok i]] by (auto simp: val_ok_def freed_def o)
  moreover have "val_bytes ?m2 i = bs" using i no by (auto simp: val_bytes_def read_mem_def mem_at_def freed_def o)
  ultimately show ?thesis unfolding w r by (intro turnsI [OF refl])
qed

section \<open>New and moved values\<close>

lemma value_new_ok:
  assumes ok: "values_ok m"
  shows "values_ok (value_new m)" "vs_blocks (value_new m) = vs_blocks m" "length (vs_vals (value_new m)) = Suc (length (vs_vals m))"
    "k < length (vs_vals m) \<Longrightarrow> val (value_new m) k = val m k \<and> val_bytes (value_new m) k = val_bytes m k"
    "val_bytes (value_new m) (length (vs_vals m)) = []" "v_need_delete (val (value_new m) (length (vs_vals m))) = False"
proof -
  let ?n = "length (vs_vals m)" and ?m = "value_new m"
  show b: "vs_blocks ?m = vs_blocks m" and l: "length (vs_vals ?m) = Suc ?n" by (simp_all add: value_new_def)
  have v: "val ?m k = val m k" if "k < ?n" for k using that by (simp add: value_new_def nth_append)
  have n: "val ?m ?n = \<lparr>v_data = None, v_size = 0, v_need_delete = False, v_stack = fresh_bytes m STACK_SIZE\<rparr>"
    by (simp add: value_new_def)
  have o: "owner ?m k c = (k < ?n \<and> owner m k c)" if "k < Suc ?n" for k c
    using v [of k] n that by (cases "k = ?n") (auto simp: owner_def)
  have old: "val_ok ?m k" "val_bytes ?m k = val_bytes m k" if "k < ?n" for k
  proof -
    have vk: "val_ok m k" by (rule values_okD(1) [OF ok that])
    then show "val_ok ?m k" by (simp add: val_ok_def b v [OF that])
    have "read_mem ?m (v_data (val m k)) (v_size (val m k)) = read_mem m (v_data (val m k)) (v_size (val m k))"
      using vk by (cases rule: val_ok_cases) (use that v [OF that] l in \<open>simp_all add: read_mem_def mem_at_def b\<close>)
    then show "val_bytes ?m k = val_bytes m k" by (simp add: val_bytes_def v [OF that])
  qed
  then show "k < ?n \<Longrightarrow> val ?m k = val m k \<and> val_bytes ?m k = val_bytes m k" using v by simp
  show "val_bytes ?m ?n = []" "v_need_delete (val ?m ?n) = False" by (simp_all add: val_bytes_def read_mem_def n)
  have "val_ok ?m ?n" by (simp add: val_ok_def n fresh_bytes_def)
  then have "val_ok ?m k" if "k < Suc ?n" for k using old(1) that by (cases "k = ?n") auto
  moreover have "\<forall>c \<ge> vs_next ?m. vs_blocks ?m c = None" using ok by (simp add: b values_ok_def) (simp add: value_new_def)
  ultimately show "values_ok ?m" using o values_okD(2) [OF ok] unfolding values_ok_def l by blast
qed

lemma freed_idle: "\<not> v_need_delete (val m i) \<Longrightarrow> freed i m = m"
  by (simp add: freed_def owner_def)

text \<open>A move hands over the pointer and leaves the source empty.\<close>

lemma hand_over_ok:
  fixes p :: pointer
  assumes ok: "values_ok m" and i: "i < length (vs_vals m)" and j: "j < length (vs_vals m)" and ij: "i \<noteq> j"
    and e: "\<not> v_need_delete (val m i)" and no: "\<not> (v_size (val m j) > 0 \<and> is_stack m j)"
  defines "m' \<equiv> set_val j p 0 False (set_val i (v_data (val m j)) (v_size (val m j)) (v_need_delete (val m j)) m)"
  shows "values_ok m'" "k < length (vs_vals m) \<Longrightarrow> val_bytes m' k = (if k = j then [] else if k = i then val_bytes m j else val_bytes m k)"
    "vs_blocks m' = vs_blocks m" "length (vs_vals m') = length (vs_vals m)"
proof -
  let ?n = "length (vs_vals m)"
  show b: "vs_blocks m' = vs_blocks m" and l: "length (vs_vals m') = ?n" by (simp_all add: m'_def)
  have vi: "val m' i = (val m i)\<lparr>v_data := v_data (val m j), v_size := v_size (val m j), v_need_delete := v_need_delete (val m j)\<rparr>"
    and vj: "val m' j = (val m j)\<lparr>v_data := p, v_size := 0, v_need_delete := False\<rparr>"
    and vk: "k \<noteq> i \<Longrightarrow> k \<noteq> j \<Longrightarrow> val m' k = val m k" for k
    using i j ij by (simp_all add: m'_def)
  note sti = val_ok_stack [OF values_okD(1) [OF ok i]] and stj = val_ok_stack [OF values_okD(1) [OF ok j]]
  have i': "val_ok m' i" "val_bytes m' i = val_bytes m j"
    using values_okD(1) [OF ok j]
    by (cases rule: val_ok_cases; use no sti in \<open>simp add: val_ok_def val_bytes_def read_mem_def mem_at_def is_stack_def vi b\<close>)+
  have j': "val_ok m' j" "val_bytes m' j = []" using stj by (simp_all add: val_ok_def val_bytes_def read_mem_def vj)
  have k': "val_ok m' k" "val_bytes m' k = val_bytes m k" if "k < ?n" "k \<noteq> i" "k \<noteq> j" for k
  proof -
    have ok_k: "val_ok m k" by (rule values_okD(1) [OF ok that(1)])
    then show "val_ok m' k" by (simp add: val_ok_def b vk [OF that(2,3)])
    have "read_mem m' (v_data (val m k)) (v_size (val m k)) = read_mem m (v_data (val m k)) (v_size (val m k))"
      using ok_k by (cases rule: val_ok_cases) (use that vk [OF that(2,3)] l in \<open>simp_all add: read_mem_def mem_at_def b\<close>)
    then show "val_bytes m' k = val_bytes m k" by (simp add: val_bytes_def vk [OF that(2,3)])
  qed
  show "k < ?n \<Longrightarrow> val_bytes m' k = (if k = j then [] else if k = i then val_bytes m j else val_bytes m k)"
    using i' j' k' by simp
  have "val_ok m' k" if "k < ?n" for k using i' j' k' that by (cases "k = i"; cases "k = j") auto
  moreover have o: "owner m' k c = (if k = i then owner m j c else if k = j then False else owner m k c)" for k c
    using vi vj vk [of k] ij by (auto simp: owner_def)
  then have "k = k'" if "k < ?n" "k' < ?n" "owner m' k c" "owner m' k' c" for k k' c
    using that values_okD(2) [OF ok] i j by (metis (full_types))
  moreover have "\<forall>c \<ge> vs_next m'. vs_blocks m' c = None" using ok by (simp add: b values_ok_def) (simp add: m'_def)
  ultimately show "values_ok m'" unfolding values_ok_def l by blast
qed

section \<open>Programs over values\<close>

datatype value_op =
    New | NewSize nat | NewFill nat byte | NewRef nat nat nat | NewString "byte list" | NewCopy nat | NewMove nat | NewMakeCopy nat
  | SetRef nat nat nat nat | Own nat "byte list" | Assign nat nat | MoveAssign nat nat | Clear nat | Destroy nat
  | ResizeTo nat nat nat | CopyBytes nat "byte list" | CopyBuf nat nat nat nat | CopyValue nat nat

fun run_op :: "value_op \<Rightarrow> vmem \<Rightarrow> vmem res" where
  "run_op New m = Inr (value_new m)"
| "run_op (NewSize s) m = Inr (value_size s m)"
| "run_op (NewFill s c) m = value_fill s c m"
| "run_op (NewRef b off s) m = Inr (value_ref (Some (Block b, off)) s m)"
| "run_op (NewString bs) m = value_string bs m"
| "run_op (NewCopy j) m = value_copy j m"
| "run_op (NewMove j) m = value_move j m"
| "run_op (NewMakeCopy j) m = value_MakeCopy j m"
| "run_op (SetRef i b off s) m = AssignConstRef i (Some (Block b, off)) s m"
| "run_op (Own i bs) m = (let (p, m1) = LBMalloc (length bs) m in bindE (write_mem p bs m1) (TakeOwnershipFrom i p (length bs)))"
| "run_op (Assign i j) m = value_assign i j m"
| "run_op (MoveAssign i j) m = value_move_assign i j m"
| "run_op (Clear i) m = value_Clear i m"
| "run_op (Destroy i) m = value_destroy i m"
| "run_op (ResizeTo i s reserve) m = value_Resize i s reserve m"
| "run_op (CopyBytes i d) m = value_Copy_bytes i d m"
| "run_op (CopyBuf i b off s) m = value_Copy_buf i (Some (Block b, off)) s m"
| "run_op (CopyValue i j) m = value_Copy i j m"

fun run_ops :: "value_op list \<Rightarrow> vmem \<Rightarrow> vmem res" where
  "run_ops [] m = Inr m"
| "run_ops (x # xs) m = bindE (run_op x m) (run_ops xs)"

text \<open>The reference: a list of byte strings.  \<open>e\<close> is the memory of the callers, which the values may refer to.\<close>

type_synonym ext_mem = "nat \<Rightarrow> byte list option"

definition in_ext :: "ext_mem \<Rightarrow> nat \<Rightarrow> nat \<Rightarrow> nat \<Rightarrow> bool" where
  "in_ext e b off s \<longleftrightarrow> (case e b of None \<Rightarrow> False | Some bs \<Rightarrow> off + s \<le> length bs)"

definition ext_bytes :: "ext_mem \<Rightarrow> nat \<Rightarrow> nat \<Rightarrow> nat \<Rightarrow> byte list" where
  "ext_bytes e b off s = take s (drop off (the (e b)))"

fun op_ok :: "ext_mem \<Rightarrow> nat \<Rightarrow> value_op \<Rightarrow> bool" where
  "op_ok e n (NewRef b off s) = in_ext e b off s"
| "op_ok e n (NewCopy j) \<longleftrightarrow> j < n"
| "op_ok e n (NewMove j) \<longleftrightarrow> j < n"
| "op_ok e n (NewMakeCopy j) \<longleftrightarrow> j < n"
| "op_ok e n (SetRef i b off s) \<longleftrightarrow> i < n \<and> in_ext e b off s"
| "op_ok e n (Own i bs) \<longleftrightarrow> i < n"
| "op_ok e n (Assign i j) \<longleftrightarrow> i < n \<and> j < n"
| "op_ok e n (MoveAssign i j) \<longleftrightarrow> i < n \<and> j < n"
| "op_ok e n (Clear i) \<longleftrightarrow> i < n"
| "op_ok e n (Destroy i) \<longleftrightarrow> i < n"
| "op_ok e n (ResizeTo i s reserve) \<longleftrightarrow> i < n"
| "op_ok e n (CopyBytes i d) \<longleftrightarrow> i < n"
| "op_ok e n (CopyBuf i b off s) \<longleftrightarrow> i < n \<and> in_ext e b off s"
| "op_ok e n (CopyValue i j) \<longleftrightarrow> i < n \<and> j < n"
| "op_ok e n _ \<longleftrightarrow> True"

text \<open>New memory holds any bytes, and the source of a move keeps its bytes or is left empty.\<close>

fun spec_op :: "ext_mem \<Rightarrow> value_op \<Rightarrow> byte list list \<Rightarrow> byte list list \<Rightarrow> bool" where
  "spec_op e New xs xs' \<longleftrightarrow> xs' = xs @ [[]]"
| "spec_op e (NewSize s) xs xs' \<longleftrightarrow> (\<exists>ys. length ys = s \<and> xs' = xs @ [ys])"
| "spec_op e (NewFill s c) xs xs' \<longleftrightarrow> xs' = xs @ [replicate s c]"
| "spec_op e (NewRef b off s) xs xs' \<longleftrightarrow> xs' = xs @ [ext_bytes e b off s]"
| "spec_op e (NewString bs) xs xs' \<longleftrightarrow> xs' = xs @ [bs]"
| "spec_op e (NewCopy j) xs xs' \<longleftrightarrow> xs' = xs @ [xs ! j]"
| "spec_op e (NewMove j) xs xs' \<longleftrightarrow> (\<exists>y\<in>{xs ! j, []}. xs' = xs[j := y] @ [xs ! j])"
| "spec_op e (NewMakeCopy j) xs xs' \<longleftrightarrow> xs' = xs @ [xs ! j]"
| "spec_op e (SetRef i b off s) xs xs' \<longleftrightarrow> xs' = xs[i := ext_bytes e b off s]"
| "spec_op e (Own i bs) xs xs' \<longleftrightarrow> xs' = xs[i := bs]"
| "spec_op e (Assign i j) xs xs' \<longleftrightarrow> xs' = xs[i := xs ! j]"
| "spec_op e (MoveAssign i j) xs xs' \<longleftrightarrow> (if i = j then xs' = xs else \<exists>y\<in>{xs ! j, []}. xs' = xs[i := xs ! j, j := y])"
| "spec_op e (Clear i) xs xs' \<longleftrightarrow> xs' = xs[i := []]"
| "spec_op e (Destroy i) xs xs' \<longleftrightarrow> xs' = xs[i := []]"
| "spec_op e (ResizeTo i s reserve) xs xs' \<longleftrightarrow> (\<exists>ys. length ys = s \<and> take (length (xs ! i)) ys = take s (xs ! i) \<and> xs' = xs[i := ys])"
| "spec_op e (CopyBytes i d) xs xs' \<longleftrightarrow> xs' = xs[i := d]"
| "spec_op e (CopyBuf i b off s) xs xs' \<longleftrightarrow> xs' = xs[i := ext_bytes e b off s]"
| "spec_op e (CopyValue i j) xs xs' \<longleftrightarrow> xs' = xs[i := xs ! j]"

fun spec_ops :: "ext_mem \<Rightarrow> value_op list \<Rightarrow> byte list list \<Rightarrow> byte list list \<Rightarrow> bool" where
  "spec_ops e [] xs xs' \<longleftrightarrow> xs' = xs"
| "spec_ops e (x # ops) xs xs' \<longleftrightarrow> (\<exists>ys. spec_op e x xs ys \<and> spec_ops e ops ys xs')"

definition is_new :: "value_op \<Rightarrow> bool" where
  "is_new x = (case x of New \<Rightarrow> True | NewSize _ \<Rightarrow> True | NewFill _ _ \<Rightarrow> True | NewRef _ _ _ \<Rightarrow> True | NewString _ \<Rightarrow> True
     | NewCopy _ \<Rightarrow> True | NewMove _ \<Rightarrow> True | NewMakeCopy _ \<Rightarrow> True | _ \<Rightarrow> False)"

fun ops_ok :: "ext_mem \<Rightarrow> nat \<Rightarrow> value_op list \<Rightarrow> bool" where
  "ops_ok e n [] = True"
| "ops_ok e n (x # xs) \<longleftrightarrow> op_ok e n x \<and> ops_ok e (if is_new x then Suc n else n) xs"

definition contents :: "vmem \<Rightarrow> byte list list" where
  "contents m = map (val_bytes m) [0..<length (vs_vals m)]"

definition has_ext :: "ext_mem \<Rightarrow> vmem \<Rightarrow> bool" where
  "has_ext e m \<longleftrightarrow> (\<forall>b bs. e b = Some bs \<longrightarrow> vs_blocks m b = Some (False, bs))"

lemma contents_nth [simp]: "i < length (vs_vals m) \<Longrightarrow> contents m ! i = val_bytes m i" "length (contents m) = length (vs_vals m)"
  by (simp_all add: contents_def)

lemma turns_step:
  assumes ok: "values_ok m" and i: "i < length (vs_vals m)" and x: "has_ext e m" and t: "turns i m xs r"
  obtains m' where "r = Inr m'" "values_ok m'" "has_ext e m'" "length (vs_vals m') = length (vs_vals m)" "contents m' = (contents m)[i := xs]"
proof -
  obtain m' where m': "r = Inr m'" "change i m m'" "val_ok m' i" "val_bytes m' i = xs" using t by (auto simp: turns_def)
  have l: "length (vs_vals m') = length (vs_vals m)" by (rule change_length [OF m'(2)])
  have "vs_blocks m' b = Some (False, bs)" if "e b = Some bs" for b bs
  proof -
    have b: "vs_blocks m b = Some (False, bs)" using x that by (simp add: has_ext_def)
    then have "\<not> owner m i b" using values_okD(3) [OF ok i, of b] by auto
    then show ?thesis by (rule change_block [OF m'(2) _ b])
  qed
  then have "has_ext e m'" by (simp add: has_ext_def)
  moreover have "contents m' = (contents m)[i := xs]"
    by (rule nth_equalityI) (use change_other(4) [OF ok m'(2) i] m'(4) l i in \<open>auto simp: nth_list_update\<close>)
  ultimately show thesis using that m'(1) l change_ok [OF ok m'(2) i m'(3)] by blast
qed

lemma new_step:
  assumes ok: "values_ok m" and x: "has_ext e m" and t: "turns (length (vs_vals m)) (value_new m) xs r"
  obtains m' where "r = Inr m'" "values_ok m'" "has_ext e m'" "length (vs_vals m') = Suc (length (vs_vals m))" "contents m' = contents m @ [xs]"
proof -
  note n = value_new_ok [OF ok]
  have c: "contents (value_new m) = contents m @ [[]]"
    by (rule nth_equalityI) (use n in \<open>auto simp: nth_append less_Suc_eq\<close>)
  have "has_ext e (value_new m)" using x n(2) by (simp add: has_ext_def)
  then obtain m' where "r = Inr m'" "values_ok m'" "has_ext e m'" "length (vs_vals m') = length (vs_vals (value_new m))"
    "contents m' = (contents (value_new m))[length (vs_vals m) := xs]"
    by (rule turns_step [OF n(1) _ _ t, rotated]) (use n(3) in auto)
  then show thesis using that n(3) c by (simp add: list_update_append)
qed

lemma in_extD: "has_ext e m \<Longrightarrow> in_ext e b off s \<Longrightarrow> \<exists>bs. vs_blocks m b = Some (False, bs) \<and> off + s \<le> length bs \<and> ext_bytes e b off s = take s (drop off bs)"
  by (auto simp: has_ext_def in_ext_def ext_bytes_def split: option.splits)

lemma size_ok:
  assumes ok: "values_ok m" and i: "i < length (vs_vals m)"
  shows "turns i m (fresh_bytes m s) (Inr (set_val i (Some (Block (vs_next m), 0)) s True (snd (LBMalloc s m))))"
proof (rule turnsI [OF refl])
  have n: "vs_blocks m b = None" if "b \<ge> vs_next m" for b using ok that by (simp add: values_ok_def)
  let ?m = "set_val i (Some (Block (vs_next m), 0)) s True (snd (LBMalloc s m))"
  show "change i m ?m" using i n by (auto simp: change_def owner_def LBMalloc_def)
  show "val_ok ?m i" using i val_ok_stack [OF values_okD(1) [OF ok i]] by (simp add: val_ok_def LBMalloc_def fresh_bytes_def)
  show "val_bytes ?m i = fresh_bytes m s" using i by (simp add: val_bytes_def read_mem_def mem_at_def LBMalloc_def fresh_bytes_def)
qed

lemma Malloc_fill_ok:
  assumes ok: "values_ok m" and i: "i < length (vs_vals m)"
  shows "turns i m xs (copy_from i xs (v_Malloc i (length xs) m))"
  by (rule fill_ok [OF ok i malloc_ok(1-4) [OF ok i]])

lemma value_copy_ok:
  assumes ok: "values_ok m" and j: "j < length (vs_vals m)"
  shows "turns (length (vs_vals m)) (value_new m) (val_bytes m j) (value_copy j m)"
proof -
  let ?i = "length (vs_vals m)" and ?m = "value_new m"
  note n = value_new_ok [OF ok]
  have i: "?i < length (vs_vals ?m)" and j': "j < length (vs_vals ?m)" and b: "val_bytes ?m j = val_bytes m j" using n(3,4) j by auto
  note vj = values_okD(1) [OF n(1) j']
  consider (own) "v_need_delete (val ?m j)" | (small) "\<not> v_need_delete (val ?m j)" "v_size (val ?m j) > 0" "is_stack ?m j"
    | (ref) "\<not> v_need_delete (val ?m j)" "\<not> (v_size (val ?m j) > 0 \<and> is_stack ?m j)" by satx
  then show ?thesis
  proof cases
    case own
    then show ?thesis using Malloc_fill_ok [OF n(1) i, of "val_bytes m j"] read_val [OF vj j'] b by (simp add: value_copy_def Let_def)
  next
    case small
    then show ?thesis using copy_stack_ok [OF n(1) i j' disjI1 [OF refl] small(2,3)] b by (simp add: value_copy_def Let_def)
  next
    case ref
    then show ?thesis using set_ref_ok [OF n(1) i disjI1 [OF refl] ref_bytes [OF n(1) j' ref]] b
      by (auto simp: value_copy_def Let_def)
  qed
qed

text \<open>Moves.\<close>

lemma value_move_ok:
  assumes ok: "values_ok m" and x: "has_ext e m" and j: "j < length (vs_vals m)"
  obtains m' where "value_move j m = Inr m'" "values_ok m'" "has_ext e m'" "length (vs_vals m') = Suc (length (vs_vals m))"
    "spec_op e (NewMove j) (contents m) (contents m')"
proof -
  let ?i = "length (vs_vals m)" and ?m = "value_new m"
  note n = value_new_ok [OF ok]
  have i: "?i < length (vs_vals ?m)" and j': "j < length (vs_vals ?m)" and b: "val_bytes ?m j = val_bytes m j" using n(3,4) j by auto
  show thesis
  proof (cases "v_size (val ?m j) > 0 \<and> is_stack ?m j")
    case True
    then have t: "turns ?i ?m (val_bytes m j) (value_move j m)"
      using copy_stack_ok [OF n(1) i j' disjI1 [OF refl]] small_bytes(1) [OF n(1) j'] b by (simp add: value_move_def Let_def)
    obtain m' where "value_move j m = Inr m'" "values_ok m'" "has_ext e m'" "length (vs_vals m') = Suc (length (vs_vals m))"
      "contents m' = contents m @ [val_bytes m j]" by (rule new_step [OF ok x t])
    moreover have "(contents m)[j := val_bytes m j] = contents m" using list_update_id [of "contents m" j] j by simp
    ultimately show thesis using that j by simp
  next
    case False
    let ?m' = "set_val j None 0 False (set_val ?i (v_data (val ?m j)) (v_size (val ?m j)) (v_need_delete (val ?m j)) ?m)"
    have "?i \<noteq> j" using j by simp
    note h = hand_over_ok [OF n(1) i j' this _ False, where p = None]
    have "value_move j m = Inr ?m'" using False by (auto simp: value_move_def Let_def)
    moreover have "values_ok ?m'" and bl: "vs_blocks ?m' = vs_blocks m" using h(1,3) n(2,6) by auto
    moreover have "has_ext e ?m'" using x bl by (simp add: has_ext_def)
    moreover have "contents ?m' = (contents m)[j := []] @ [val_bytes m j]"
      by (rule nth_equalityI) (use h(2,4) n j b in \<open>auto simp: nth_append nth_list_update less_Suc_eq\<close>)
    ultimately show thesis using that n(3) j by simp
  qed
qed

lemma value_move_assign_ok:
  assumes ok: "values_ok m" and x: "has_ext e m" and i: "i < length (vs_vals m)" and j: "j < length (vs_vals m)"
  obtains m' where "value_move_assign i j m = Inr m'" "values_ok m'" "has_ext e m'" "length (vs_vals m') = length (vs_vals m)"
    "spec_op e (MoveAssign i j) (contents m) (contents m')"
proof (cases "i = j")
  case True
  then show thesis using that [of m] ok x by (simp add: value_move_assign_def)
next
  case ij: False
  note f = free_own_ok [OF ok i]
  show thesis
  proof (cases "v_size (val m j) > 0 \<and> is_stack m j")
    case True
    then have s: "v_size (val m j) > 0" "is_stack m j" by auto
    have "is_stack (freed i m) j" using s(2) by (simp add: is_stack_def)
    then have t: "turns i m (val_bytes m j) (value_move_assign i j m)"
      using copy_stack_ok [OF ok i j disjI2 [OF refl] s] small_bytes(1) [OF ok j s] ij s f
      by (simp add: value_move_assign_def Let_def)
    obtain m' where "value_move_assign i j m = Inr m'" "values_ok m'" "has_ext e m'" "length (vs_vals m') = length (vs_vals m)"
      "contents m' = (contents m)[i := val_bytes m j]" by (rule turns_step [OF ok i x t])
    moreover have "(contents m)[i := val_bytes m j, j := val_bytes m j] = (contents m)[i := val_bytes m j]"
      using j ij by (intro nth_equalityI) (auto simp: nth_list_update)
    ultimately show thesis using that i j ij by auto
  next
    case False
    let ?m1 = "set_val i None 0 False (freed i m)"
    obtain m1 where m1: "Inr ?m1 = Inr m1" "values_ok m1" "has_ext e m1" "length (vs_vals m1) = length (vs_vals m)"
      "contents m1 = (contents m)[i := []]"
      by (rule turns_step [OF ok i x set_ref_ok [OF ok i disjI2 [OF refl], of 0 "[]" None]]) auto
    have e1: "m1 = ?m1" using m1(1) by simp
    let ?m' = "set_val j (v_data (val m j)) 0 False (set_val i (v_data (val m1 j)) (v_size (val m1 j)) (v_need_delete (val m1 j)) m1)"
    have v: "val m1 j = val m j" "\<not> v_need_delete (val m1 i)" using ij i by (simp_all add: e1)
    have b: "val_bytes m1 k = (if k = i then [] else val_bytes m k)" if "k < length (vs_vals m)" for k
      using arg_cong [OF m1(5), of "\<lambda>xs. xs ! k"] that m1(4) by (simp add: nth_list_update)
    have i1: "i < length (vs_vals m1)" "j < length (vs_vals m1)" using i j m1(4) by auto
    have no: "\<not> (v_size (val m1 j) > 0 \<and> is_stack m1 j)" using False v(1) by (simp add: is_stack_def)
    note h = hand_over_ok [OF m1(2) i1 ij v(2) no, where p = "v_data (val m j)"]
    have "value_move_assign i j m = Inr ?m'"
      using ij i j False f by (auto simp: value_move_assign_def Let_def is_stack_def e1 set_val_def upd_val_def)
    moreover have "has_ext e ?m'" using m1(3) h(3) by (simp add: has_ext_def)
    moreover have "contents ?m' = (contents m)[i := val_bytes m j, j := []]"
      by (rule nth_equalityI) (use h(2,4) m1(4) b j ij in \<open>auto simp: nth_list_update\<close>)
    ultimately show thesis using that h(1,4) m1(4) i j ij by simp
  qed
qed

section \<open>Every program\<close>

text \<open>An operation does what the reference says.\<close>

definition refines_op :: "ext_mem \<Rightarrow> value_op \<Rightarrow> vmem \<Rightarrow> bool" where
  "refines_op e a m \<longleftrightarrow> (\<exists>m'. run_op a m = Inr m' \<and> values_ok m' \<and> has_ext e m' \<and>
     length (vs_vals m') = (if is_new a then Suc (length (vs_vals m)) else length (vs_vals m)) \<and>
     spec_op e a (contents m) (contents m'))"

lemma refines_new:
  assumes ok: "values_ok m" and x: "has_ext e m" and t: "turns (length (vs_vals m)) (value_new m) xs (run_op a m)"
    and a: "is_new a" "spec_op e a (contents m) (contents m @ [xs])"
  shows "refines_op e a m"
proof -
  obtain m' where "run_op a m = Inr m'" "values_ok m'" "has_ext e m'" "length (vs_vals m') = Suc (length (vs_vals m))"
    "contents m' = contents m @ [xs]" by (rule new_step [OF ok x t])
  then show ?thesis using a unfolding refines_op_def by auto
qed

lemma refines_old:
  assumes ok: "values_ok m" and x: "has_ext e m" and i: "i < length (vs_vals m)" and t: "turns i m xs (run_op a m)"
    and a: "\<not> is_new a" "spec_op e a (contents m) ((contents m)[i := xs])"
  shows "refines_op e a m"
proof -
  obtain m' where "run_op a m = Inr m'" "values_ok m'" "has_ext e m'" "length (vs_vals m') = length (vs_vals m)"
    "contents m' = (contents m)[i := xs]" by (rule turns_step [OF ok i x t])
  then show ?thesis using a unfolding refines_op_def by auto
qed

lemma Resize_turns:
  assumes ok: "values_ok m" and i: "i < length (vs_vals m)"
  obtains ys where "turns i m ys (value_Resize i s reserve m)" "length ys = s" "take (length (val_bytes m i)) ys = take s (val_bytes m i)"
proof -
  obtain m' where m': "value_Resize i s reserve m = Inr m'" "change i m m'" "val_ok m' i" "v_size (val m' i) = s"
    "take (v_size (val m i)) (val_bytes m' i) = take s (val_bytes m i)" by (rule Resize_ok [OF ok i, of s reserve])
  have "i < length (vs_vals m')" using change_length [OF m'(2)] i by simp
  then show thesis
    using that [OF turnsI [OF m'(1-3) refl]] m'(4,5) read_val(2) [OF m'(3)] read_val(2) [OF values_okD(1) [OF ok i] i] by simp
qed

lemma run_op_ok:
  assumes ok: "values_ok m" and x: "has_ext e m" and a: "op_ok e (length (vs_vals m)) a"
  shows "refines_op e a m"
proof -
  let ?n = "length (vs_vals m)" and ?m = "value_new m"
  note n = value_new_ok [OF ok]
  have i: "?n < length (vs_vals ?m)" using n(3) by simp
  have x1: "has_ext e ?m" using x n(2) by (simp add: has_ext_def)
  note new = refines_new [OF ok x] and old = refines_old [OF ok x] and idle = freed_idle [of ?m ?n]
  show ?thesis
  proof (cases a)
    case New
    have "turns ?n ?m [] (Inr ?m)" by (rule turnsI [OF refl change_refl [OF n(1)] values_okD(1) [OF n(1) i] n(5)])
    then show ?thesis by (intro new [of "[]"]) (simp_all add: New is_new_def)
  next
    case (NewSize s)
    have "run_op a m = Inr (set_val ?n (Some (Block (vs_next ?m), 0)) s True (snd (LBMalloc s ?m)))"
      by (simp add: NewSize value_size_def LBMalloc_def Let_def)
    then have "turns ?n ?m (fresh_bytes ?m s) (run_op a m)" using size_ok [OF n(1) i, of s] by simp
    then show ?thesis by (rule new) (simp_all add: NewSize is_new_def fresh_bytes_def)
  next
    case (NewFill s c)
    have "turns ?n ?m (replicate s c) (run_op a m)"
      using Malloc_fill_ok [OF n(1) i, of "replicate s c"] by (simp add: NewFill value_fill_def Let_def)
    then show ?thesis by (rule new) (simp_all add: NewFill is_new_def)
  next
    case (NewRef b off s)
    then obtain bs where "vs_blocks ?m b = Some (False, bs)" "off + s \<le> length bs" "ext_bytes e b off s = take s (drop off bs)"
      using in_extD [OF x1, of b off s] a NewRef by auto
    then have "turns ?n ?m (ext_bytes e b off s) (run_op a m)"
      using set_ref_ok [OF n(1) i disjI1 [OF refl], of s "ext_bytes e b off s" "Some (Block b, off)"] by (simp add: NewRef value_ref_def)
    then show ?thesis by (rule new) (simp_all add: NewRef is_new_def)
  next
    case (NewString bs)
    have "turns ?n ?m bs (run_op a m)"
      using Malloc_fill_ok [OF n(1) i, of bs] by (simp add: NewString value_string_def Let_def)
    then show ?thesis by (rule new) (simp_all add: NewString is_new_def)
  next
    case (NewCopy j)
    then show ?thesis using value_copy_ok [OF ok, of j] a by (intro new [of "val_bytes m j"]) (simp_all add: is_new_def)
  next
    case (NewMove j)
    then have j: "j < ?n" using a by simp
    obtain m' where "value_move j m = Inr m'" "values_ok m'" "has_ext e m'" "length (vs_vals m') = Suc ?n"
      "spec_op e (NewMove j) (contents m) (contents m')" by (rule value_move_ok [OF ok x j])
    then show ?thesis unfolding refines_op_def NewMove by (simp add: is_new_def)
  next
    case (NewMakeCopy j)
    then have j: "j < length (vs_vals ?m)" "j < ?n" using a n(3) by simp_all
    have "turns ?n ?m (val_bytes m j) (run_op a m)"
      using Copy_ok [OF n(1) i j(1)] n(4) [OF j(2)] by (simp add: NewMakeCopy value_MakeCopy_def)
    then show ?thesis by (rule new) (use j in \<open>simp_all add: NewMakeCopy is_new_def\<close>)
  next
    case (SetRef i b off s)
    then have i: "i < ?n" using a by simp
    obtain bs where "vs_blocks m b = Some (False, bs)" "off + s \<le> length bs" "ext_bytes e b off s = take s (drop off bs)"
      using in_extD [OF x, of b off s] a SetRef by auto
    then have "turns i m (ext_bytes e b off s) (run_op a m)"
      using set_ref_ok [OF ok i disjI2 [OF refl], of s "ext_bytes e b off s" "Some (Block b, off)"]
      by (simp add: SetRef AssignConstRef_def free_own_ok [OF ok i])
    then show ?thesis by (rule old [OF i]) (simp_all add: SetRef is_new_def)
  next
    case (Own i bs)
    then show ?thesis using own_ok [OF ok, of i bs] a by (intro old [of i bs]) (simp_all add: is_new_def)
  next
    case (Assign i j)
    then show ?thesis using assign_ok [OF ok, of i j] a by (intro old [of i "val_bytes m j"]) (simp_all add: is_new_def)
  next
    case (MoveAssign i j)
    then have ij: "i < ?n" "j < ?n" using a by simp_all
    obtain m' where "value_move_assign i j m = Inr m'" "values_ok m'" "has_ext e m'" "length (vs_vals m') = ?n"
      "spec_op e (MoveAssign i j) (contents m) (contents m')" by (rule value_move_assign_ok [OF ok x ij])
    then show ?thesis unfolding refines_op_def MoveAssign by (simp add: is_new_def)
  next
    case (Clear i)
    then show ?thesis using Clear_ok(1) [OF ok, of i] a by (intro old [of i "[]"]) (simp_all add: is_new_def)
  next
    case (Destroy i)
    then show ?thesis using Clear_ok(2) [OF ok, of i] a by (intro old [of i "[]"]) (simp_all add: is_new_def)
  next
    case (ResizeTo i s reserve)
    then have i: "i < ?n" using a by simp
    obtain ys where "turns i m ys (value_Resize i s reserve m)" "length ys = s" "take (length (val_bytes m i)) ys = take s (val_bytes m i)"
      by (rule Resize_turns [OF ok i])
    then show ?thesis using i by (intro old [OF i, of ys]) (auto simp: ResizeTo is_new_def)
  next
    case (CopyBytes i d)
    then show ?thesis using Copy_bytes_ok [OF ok, of i d] a by (intro old [of i d]) (simp_all add: is_new_def)
  next
    case (CopyBuf i b off s)
    then have i: "i < ?n" using a by simp
    obtain bs where "vs_blocks m b = Some (False, bs)" "off + s \<le> length bs" "ext_bytes e b off s = take s (drop off bs)"
      using in_extD [OF x, of b off s] a CopyBuf by auto
    then have "turns i m (ext_bytes e b off s) (run_op a m)"
      using Copy_buf_ok [OF ok i, of b bs off s] by (simp add: CopyBuf)
    then show ?thesis by (rule old [OF i]) (simp_all add: CopyBuf is_new_def)
  next
    case (CopyValue i j)
    then show ?thesis using Copy_ok [OF ok, of i j] a by (intro old [of i "val_bytes m j"]) (simp_all add: is_new_def)
  qed
qed

lemma value_eq_ok:
  assumes ok: "values_ok m" and ij: "i < length (vs_vals m)" "j < length (vs_vals m)"
  shows "value_eq m i j = Inr (contents m ! i = contents m ! j)"
proof -
  note r = read_val [OF values_okD(1) [OF ok ij(1)] ij(1)] read_val [OF values_okD(1) [OF ok ij(2)] ij(2)]
  show ?thesis
  proof (cases "v_size (val m i) = v_size (val m j)")
    case True
    then show ?thesis using r(1,3) ij by (simp add: value_eq_def value_Size_def)
  next
    case False
    then have "val_bytes m i \<noteq> val_bytes m j" using r(2,4) by auto
    then show ?thesis using False ij by (simp add: value_eq_def value_Size_def)
  qed
qed

text \<open>C39: values are independent byte strings.  Whatever sequence of constructors, copies, moves, assignments, resizings and
  destructors a program makes, in which references point into memory of the caller that stays, nothing is freed twice or
  used after it has been freed; the contents of all values are those of a list of byte strings on which the same operations are
  made; and \<open>==\<close> compares the contents.\<close>

theorem Value_refines_bytes:
  assumes "values_ok m" "has_ext e m" "ops_ok e (length (vs_vals m)) ops"
  shows "\<exists>m'. run_ops ops m = Inr m' \<and> spec_ops e ops (contents m) (contents m') \<and>
    (\<forall>i < length (contents m'). \<forall>j < length (contents m'). value_eq m' i j = Inr (contents m' ! i = contents m' ! j))"
proof -
  have "\<exists>m'. run_ops ops m = Inr m' \<and> spec_ops e ops (contents m) (contents m') \<and> values_ok m'"
    using assms
  proof (induction ops arbitrary: m)
    case (Cons a ops)
    obtain m1 where 1: "run_op a m = Inr m1" "values_ok m1" "has_ext e m1"
      "length (vs_vals m1) = (if is_new a then Suc (length (vs_vals m)) else length (vs_vals m))"
      "spec_op e a (contents m) (contents m1)"
      using run_op_ok [OF Cons.prems(1,2), of a] Cons.prems(3) unfolding refines_op_def by auto
    have "ops_ok e (length (vs_vals m1)) ops" using Cons.prems(3) 1(4) by (auto split: if_splits)
    then obtain m2 where "run_ops ops m1 = Inr m2" "spec_ops e ops (contents m1) (contents m2)" "values_ok m2"
      using Cons.IH [OF 1(2,3)] by blast
    then show ?case using 1(1,5) by auto
  qed simp
  then show ?thesis using value_eq_ok by auto
qed

text \<open>A program without values, and a block of 100 bytes of the caller.\<close>

definition no_values :: vmem where
  "no_values = \<lparr>vs_vals = [], vs_blocks = (\<lambda>b. if b = 0 then Some (False, replicate 100 7) else None), vs_next = 1, vs_junk = (\<lambda>_ _. 0)\<rparr>"

lemma Value_refines_bytes_witness:
  "\<exists>m'. run_ops [NewString [1, 2, 3], NewRef 0 10 90, Assign 0 1, NewMove 0, CopyBytes 2 [5], Destroy 1] no_values = Inr m' \<and>
     (\<exists>y. contents m' = [y, [], [5]])"
proof -
  let ?e = "\<lambda>b. if b = 0 then Some (replicate 100 7) else None"
  have "values_ok no_values" "has_ext ?e no_values" by (simp_all add: values_ok_def has_ext_def no_values_def)
  moreover have "ops_ok ?e (length (vs_vals no_values))
      [NewString [1, 2, 3], NewRef 0 10 90, Assign 0 1, NewMove 0, CopyBytes 2 [5], Destroy 1]"
    by (simp add: no_values_def is_new_def in_ext_def)
  ultimately obtain m' where m': "run_ops [NewString [1, 2, 3], NewRef 0 10 90, Assign 0 1, NewMove 0, CopyBytes 2 [5], Destroy 1] no_values = Inr m'"
    "spec_ops ?e [NewString [1, 2, 3], NewRef 0 10 90, Assign 0 1, NewMove 0, CopyBytes 2 [5], Destroy 1] (contents no_values) (contents m')"
    using Value_refines_bytes [of no_values ?e] by blast
  have "contents no_values = []" by (simp add: contents_def no_values_def)
  then have "\<exists>y. contents m' = [y, [], [5]]" using m'(2) by auto
  then show ?thesis using m'(1) by blast
qed

text \<open>Assigning a reference to a value that owns a block forgets the block.\<close>

lemma value_assign_leaks:
  assumes ok: "values_ok m" and i: "i < length (vs_vals m)" and j: "j < length (vs_vals m)" and b: "owner m i b"
    and r: "\<not> v_need_delete (val m j)" "\<not> (v_size (val m j) > 0 \<and> is_stack m j)"
  shows "\<exists>m'. value_assign i j m = Inr m' \<and> vs_blocks m' b = vs_blocks m b \<and> vs_blocks m' b \<noteq> None \<and>
    (\<forall>k < length (vs_vals m'). \<not> owner m' k b)"
proof -
  let ?m = "set_val i (v_data (val m j)) (v_size (val m j)) False m"
  have ij: "i \<noteq> j" using b r(1) by (auto simp: owner_def)
  have "value_assign i j m = Inr ?m" using ij r by (auto simp: value_assign_def Let_def)
  moreover have "vs_blocks m b \<noteq> None" using values_okD(3) [OF ok i b] by auto
  moreover have "\<not> owner ?m k b" if "k < length (vs_vals m)" for k
    using values_okD(2) [OF ok i b that] i by (cases "k = i") (auto simp: owner_def)
  ultimately show ?thesis by simp
qed

end
