(* ===== verification/CsvReader.thy ===== *)
theory CsvReader
  imports Prelude
begin

text \<open>
  \<open>CSVLoader\<close> of \<^verbatim>\<open>include/csv_reader.h\<close>, which reads a table from a text file into memory.  A text is a list of
  characters, \<open>fs\<close> gives the text of a file that can be opened.  Proved: a table that is written out is read back,
  with its fields where \<open>get_element\<close> finds them, and what the splitting of a line loses when a line ends in a delimiter.
\<close>

section \<open>Streams\<close>

text \<open>\<open>std::getline\<close>: up to the delimiter, which is taken off the stream; failing at the end of the stream.\<close>

fun get_line :: "char \<Rightarrow> string \<Rightarrow> (string \<times> string) option" where
  "get_line d [] = None"
| "get_line d cs = Some (takeWhile (\<lambda>c. c \<noteq> d) cs, drop 1 (dropWhile (\<lambda>c. c \<noteq> d) cs))"

lemma get_line_shorter: "get_line d cs = Some (t, rest) \<Longrightarrow> length rest < length cs"
  using length_dropWhile_le [of "\<lambda>c. c \<noteq> d" cs] by (cases cs) auto

function split_line :: "char \<Rightarrow> string \<Rightarrow> string list" where
  "split_line d line = (case get_line d line of None \<Rightarrow> [] | Some (token, rest) \<Rightarrow> token # split_line d rest)"
  by pat_completeness auto
termination by (relation "measure (length \<circ> snd)") (auto dest: get_line_shorter)

declare split_line.simps [simp del]

section \<open>The loader\<close>

record csv_loader =
  csv_headers :: "string list"
  csv_data :: "string list list"

definition csv_new :: csv_loader where
  "csv_new = \<lparr>csv_headers = [], csv_data = []\<rparr>"

function push_rows :: "char \<Rightarrow> string \<Rightarrow> csv_loader \<Rightarrow> csv_loader" where
  "push_rows d file l =
     (case get_line CHR 0x0A file of
        None \<Rightarrow> l
      | Some (line, rest) \<Rightarrow> push_rows d rest (l\<lparr>csv_data := csv_data l @ [split_line d line]\<rparr>))"
  by pat_completeness auto
termination by (relation "measure (\<lambda>(d, file, l). length file)") (auto dest: get_line_shorter)

declare push_rows.simps [simp del]

text \<open>A second file replaces the headers and adds its rows to those of the first.\<close>

definition csv_load :: "(string \<Rightarrow> string option) \<Rightarrow> string \<Rightarrow> char \<Rightarrow> csv_loader \<Rightarrow> bool \<times> csv_loader" where
  "csv_load fs file_path d l =
     (case fs file_path of
        None \<Rightarrow> (False, l)
      | Some file \<Rightarrow>
          (case get_line CHR 0x0A file of
             None \<Rightarrow> (False, l)
           | Some (header_line, rest) \<Rightarrow> (True, push_rows d rest (l\<lparr>csv_headers := split_line d header_line\<rparr>))))"

text \<open>The constructor asserts that the file was read.\<close>

definition csv_open :: "(string \<Rightarrow> string option) \<Rightarrow> string \<Rightarrow> char \<Rightarrow> csv_loader res" where
  "csv_open fs file_path d = (let (ok, l) = csv_load fs file_path d csv_new in bindE (assertE ok) (\<lambda>_. Inr l))"

definition get_headers :: "csv_loader \<Rightarrow> string list" where
  "get_headers l = csv_headers l"

definition get_row :: "csv_loader \<Rightarrow> nat \<Rightarrow> string list" where
  "get_row l i = (if i \<ge> length (csv_data l) then [] else csv_data l ! i)"

definition get_column :: "csv_loader \<Rightarrow> nat \<Rightarrow> string list" where
  "get_column l i = (if i \<ge> length (csv_headers l) then []
     else concat (map (\<lambda>row. if i < length row then [row ! i] else []) (csv_data l)))"

definition get_element :: "csv_loader \<Rightarrow> nat \<Rightarrow> nat \<Rightarrow> string" where
  "get_element l i j =
     (if i \<ge> length (csv_data l) \<or> j \<ge> length (csv_headers l) then []
      else if j \<ge> length (csv_data l ! i) then []
      else csv_data l ! i ! j)"

definition row_count :: "csv_loader \<Rightarrow> nat" where
  "row_count l = length (csv_data l)"

definition column_count :: "csv_loader \<Rightarrow> nat" where
  "column_count l = length (csv_headers l)"

section \<open>Splitting is the inverse of joining\<close>

text \<open>The reference: the fields of a line with delimiters between them.\<close>

fun join_fields :: "char \<Rightarrow> string list \<Rightarrow> string" where
  "join_fields d [] = []"
| "join_fields d [t] = t"
| "join_fields d (t # ts) = t @ d # join_fields d ts"

lemma get_line_stop: "d \<notin> set t \<Longrightarrow> get_line d (t @ d # rest) = Some (t, rest)"
proof -
  assume d: "d \<notin> set t"
  have "get_line d (t @ d # rest) = Some (takeWhile (\<lambda>c. c \<noteq> d) (t @ d # rest), drop 1 (dropWhile (\<lambda>c. c \<noteq> d) (t @ d # rest)))"
    by (cases t) simp_all
  moreover have "takeWhile (\<lambda>c. c \<noteq> d) (t @ d # rest) = t" "dropWhile (\<lambda>c. c \<noteq> d) (t @ d # rest) = d # rest"
    using d by (induction t) auto
  ultimately show ?thesis by simp
qed

lemma get_line_all: "d \<notin> set t \<Longrightarrow> t \<noteq> [] \<Longrightarrow> get_line d t = Some (t, [])"
proof -
  assume a: "d \<notin> set t" "t \<noteq> []"
  then have "takeWhile (\<lambda>c. c \<noteq> d) t = t" "dropWhile (\<lambda>c. c \<noteq> d) t = []" by (induction t) auto
  moreover obtain c cs where "t = c # cs" using a(2) by (cases t) simp_all
  ultimately show ?thesis by (simp add: get_line.simps)
qed

lemma split_nil [simp]: "split_line d [] = []"
  by (simp add: split_line.simps)

text \<open>An empty field at the end of a line is not read.\<close>

lemma split_join_any:
  assumes "\<And>t. t \<in> set ts \<Longrightarrow> d \<notin> set t"
  shows "split_line d (join_fields d ts) = (if ts \<noteq> [] \<and> last ts = [] then butlast ts else ts)"
  using assms
proof (induction d ts rule: join_fields.induct)
  case (2 d t)
  then show ?case by (cases "t = []") (simp_all add: split_line.simps [of d t] get_line_all)
next
  case (3 d t u ts)
  have "split_line d (join_fields d (t # u # ts)) = t # split_line d (join_fields d (u # ts))"
    using 3(2) [of t] by (simp add: split_line.simps [of d "t @ d # _"] get_line_stop)
  then show ?case using 3 by simp
qed simp

definition row_ok :: "char \<Rightarrow> string list \<Rightarrow> bool" where
  "row_ok d ts \<longleftrightarrow> (\<forall>t\<in>set ts. d \<notin> set t \<and> CHR 0x0A \<notin> set t) \<and> (ts \<noteq> [] \<longrightarrow> last ts \<noteq> [])"

lemma split_join: "row_ok d ts \<Longrightarrow> split_line d (join_fields d ts) = ts"
  using split_join_any [of ts d] by (auto simp: row_ok_def)

lemma join_no_newline: "row_ok d ts \<Longrightarrow> d \<noteq> CHR 0x0A \<Longrightarrow> CHR 0x0A \<notin> set (join_fields d ts)"
  by (induction d ts rule: join_fields.induct) (auto simp: row_ok_def split: if_splits)

text \<open>A table as text: a line for the headers and one for each row.\<close>

definition render :: "char \<Rightarrow> string list list \<Rightarrow> string" where
  "render d rows = concat (map (\<lambda>ts. join_fields d ts @ [CHR 0x0A]) rows)"

lemma get_line_render:
  assumes "row_ok d ts" "d \<noteq> CHR 0x0A"
  shows "get_line CHR 0x0A (render d (ts # rows)) = Some (join_fields d ts, render d rows)"
  using get_line_stop [OF join_no_newline [OF assms], of "render d rows"] by (simp add: render_def)

lemma push_rows_render:
  assumes "\<And>ts. ts \<in> set rows \<Longrightarrow> row_ok d ts" "d \<noteq> CHR 0x0A"
  shows "push_rows d (render d rows) l = l\<lparr>csv_data := csv_data l @ rows\<rparr>"
  using assms(1)
proof (induction rows arbitrary: l)
  case Nil
  then show ?case by (simp add: render_def push_rows.simps)
next
  case (Cons ts rows)
  have "push_rows d (render d (ts # rows)) l = push_rows d (render d rows) (l\<lparr>csv_data := csv_data l @ [ts]\<rparr>)"
    using Cons.prems [of ts] assms(2)
    by (subst push_rows.simps) (simp add: get_line_render split_join)
  then show ?case using Cons by simp
qed

text \<open>C40: a table written out is read back.  Let no field of a table contain the delimiter or a line break and no row
  end in an empty field.  Then \<open>load\<close> succeeds on its text; the headers are those written, the rows are added to
  the ones already there, and \<open>get_element\<close> finds every field that has a header.\<close>

theorem CSVLoader_roundtrip:
  assumes "\<And>ts. ts \<in> set (hs # rows) \<Longrightarrow> row_ok d ts" "d \<noteq> CHR 0x0A" "fs path = Some (render d (hs # rows))"
  shows "\<exists>l'. csv_load fs path d l = (True, l') \<and> get_headers l' = hs \<and> csv_data l' = csv_data l @ rows \<and>
    row_count l' = row_count l + length rows \<and>
    (\<forall>i < length rows. \<forall>j < length (rows ! i). j < length hs \<longrightarrow> get_element l' (row_count l + i) j = rows ! i ! j)"
proof -
  have "csv_load fs path d l = (True, l\<lparr>csv_headers := hs, csv_data := csv_data l @ rows\<rparr>)"
    using assms(1) [of hs] assms(1) push_rows_render [of rows d "l\<lparr>csv_headers := hs\<rparr>"] assms(2)
    by (simp add: csv_load_def assms(3) get_line_render split_join)
  then show ?thesis by (auto simp: get_headers_def row_count_def get_element_def nth_append)
qed

lemma CSVLoader_roundtrip_witness:
  "\<exists>l'. csv_load (\<lambda>_. Some ''id|name\<newline>1|a\<newline>2|b\<newline>'') ''f.csv'' CHR ''|'' csv_new = (True, l') \<and> get_element l' 1 1 = ''b''"
proof -
  have e: "render CHR ''|'' [[''id'', ''name''], [''1'', ''a''], [''2'', ''b'']] = ''id|name\<newline>1|a\<newline>2|b\<newline>''"
    by (simp add: render_def)
  let ?f = "\<lambda>_. Some ''id|name\<newline>1|a\<newline>2|b\<newline>''"
  have r: "row_ok CHR ''|'' ts" if "ts \<in> set [[''id'', ''name''], [''1'', ''a''], [''2'', ''b'']]" for ts
    using that by (auto simp: row_ok_def)
  have f: "?f path = Some (render CHR ''|'' [[''id'', ''name''], [''1'', ''a''], [''2'', ''b'']])" for path :: string 
    by (simp only: e)
  from CSVLoader_roundtrip [where hs = "[''id'', ''name'']" and rows = "[[''1'', ''a''], [''2'', ''b'']]" and d = "CHR ''|''"
      and path = "''f.csv''" and l = csv_new and fs = ?f, OF r _ f]
  show ?thesis by (auto simp: csv_new_def row_count_def)
qed

text \<open>A line that ends in a delimiter loses its last field, and the assertion of the constructor stops a missing file.\<close>

lemma split_loses_last: "split_line CHR ''|'' ''a|'' = [''a'']" "split_line CHR ''|'' ''a||b'' = [''a'', [], ''b'']"
proof -
  have "split_line CHR ''|'' (join_fields CHR ''|'' [''a'', []]) = [''a'']" by (subst split_join_any) auto
  then show "split_line CHR ''|'' ''a|'' = [''a'']" by simp
  have "split_line CHR ''|'' (join_fields CHR ''|'' [''a'', [], ''b'']) = [''a'', [], ''b'']" by (subst split_join_any) auto
  then show "split_line CHR ''|'' ''a||b'' = [''a'', [], ''b'']" by simp
qed

lemma csv_open_missing: "fs path = None \<Longrightarrow> csv_open fs path d = Inl AssertFail"
  by (simp add: csv_open_def csv_load_def)

end
