(* ===== verification/Spec2Isabelle.thy ===== *)
theory Spec2Isabelle
  imports Requests Clients MemoryPool AsyncBlocks QueueVersions Clock ClockArray TwoQueue Eviction
    ExtendibleHash RWLocks RingQueue MmapArray PoolObjects LFU SievePtr BlockVariants Signals Concurrent AtomicPTE
    Uring Values CsvReader
begin

text \<open>
  This development models a buffer pool for graph storage (\<^verbatim>\<open>src/include\<close>, \<^verbatim>\<open>src/src\<close>): the pages of
  files are cached in frames of memory, shared by threads through page-table entries of one machine
  word, replaced by a choice of policies, and handed to clients as blocks that point into the frames.
  It says what every operation does on every branch, and proves that clients see the files.

  \<^bold>\<open>The parts and how they interact.\<close>  A client asks \<open>BufferPoolManager\<close> for a range of bytes of an open file.
  The manager cuts it into pages, finds the pool of each page with \<open>RoundRobinPartitioner\<close>, and asks that
  \<open>BufferPool\<close> to pin the page.  The pool looks the page up in its \<open>PageTable\<close>; when it is absent it
  locks the mapping, takes a frame from the free list or from the replacement policy, writes the
  old page back through \<open>DiskManager\<close>, reads the new one and publishes the mapping.  The manager returns the
  bytes, or a \<open>BufferBlock\<close> of pointers into frames, each holding a pin, perhaps through the
  per-thread \<open>DirectCache\<close>.  Servers run asynchronous reads, fetches and evictions.

  \<^bold>\<open>Theories and sources.\<close>
  \<^item> \<open>Prelude\<close>: machine integers, faults (\<open>err\<close>), sequencing (\<open>bindE\<close>), arrays with bounds.
  \<^item> \<open>Cas\<close>, \<open>PTE\<close>, \<open>PageTable\<close>: \<^verbatim>\<open>page_table.h\<close>.  Entries are records of the bit fields, packed into a 64-bit
    word; a compare-and-swap loop is a body, run with an environment of interfering writes.  \<open>AtomicPTE\<close>: threads whose
    single loads, exchanges and stores on one entry interleave.  \<open>Partitioner\<close>: \<^verbatim>\<open>partitioner.h\<close>.
  \<^item> \<open>Utils\<close>, \<open>Disk\<close>, \<open>MemoryPool\<close>: the containers of \<^verbatim>\<open>utils.h\<close> (its messages, flags and counters: \<open>Signals\<close>), the files and system calls of
    \<^verbatim>\<open>io_backend.h\<close> (its io_uring backend: \<open>Uring\<close>), the memory of \<^verbatim>\<open>memory_pool.h\<close>.
  \<^item> \<open>Replacer\<close> holds the interface of a policy and its contract, the locale \<open>replacer\<close> (extended by
    \<open>erasable_replacer\<close>).  \<open>ListArray\<close>, \<open>Sieve\<close>, \<open>QueuePolicies\<close> and \<open>ClockArray\<close> are the policies over
    arrays; \<open>Dll\<close>, \<open>NodeHeap\<close>, \<open>PtrPolicies\<close>, \<open>Clock\<close>, \<open>NullList\<close>, \<open>SievePtr\<close>, \<open>LFU\<close> those over heap nodes;
    \<open>TwoQueue\<close> the one over two lists (all in \<^verbatim>\<open>include/replacer\<close>).  \<open>QueueVersions\<close> compares the two
    versions of a policy, \<open>BatchVictims\<close> treats the batch evictions, \<open>Eviction\<close> the server that calls them.
  \<^item> \<open>BufferPool\<close>, \<open>Requests\<close>, \<open>PoolObjects\<close>: the operations of \<^verbatim>\<open>buffer_pool.h\<close> and \<^verbatim>\<open>buffer_pool.cpp\<close>;
    \<open>PoolInv\<close> and \<open>Fetch\<close>: their invariant and abstract contents; \<open>Pool\<close>: the properties of one pool;
    \<open>Concurrent\<close>: threads whose calls of \<open>FetchPageSync\<close>, updates and releases interleave.
  \<^item> \<open>Manager\<close>, \<open>Access\<close>, \<open>Blocks\<close>: \<^verbatim>\<open>buffer_pool_manager.h\<close>, \<^verbatim>\<open>buffer_pool_manager.cpp\<close>; \<open>BufferBlock\<close>, \<open>DirectCache\<close>:
    \<^verbatim>\<open>buffer_block_imp9.h\<close> and \<^verbatim>\<open>directcache/\<close>; \<open>BlockOps\<close>, \<open>BlockPins\<close>, \<open>SyncBlocks\<close>, \<open>CachedBlocks\<close>,
    \<open>AsyncBlocks\<close>, \<open>Clients\<close>: the operations that hand out blocks, and clients that hold them.
    \<open>BlockVariants\<close>: the blocks without marks of \<^verbatim>\<open>buffer_block_imp8.h\<close>, used without the direct cache.
  \<^item> \<open>Servers\<close>: the threads of \<^verbatim>\<open>io_server.h\<close>, \<^verbatim>\<open>buffer_pool.h\<close>, \<^verbatim>\<open>eviction_server.h\<close>.
  \<^item> \<open>MmapArray\<close>: \<^verbatim>\<open>mmap_array.h\<close>; \<open>ExtendibleHash\<close>: \<^verbatim>\<open>extendible_hash.cpp\<close>; \<open>RWLocks\<close>: \<^verbatim>\<open>rw_lock.h\<close>,
    \<^verbatim>\<open>rwmutex.h\<close>; \<open>RingQueue\<close>: \<^verbatim>\<open>lockfree_queue.h\<close>; \<open>Values\<close>: \<^verbatim>\<open>value.h\<close>; \<open>CsvReader\<close>: \<^verbatim>\<open>csv_reader.h\<close>.

  \<^bold>\<open>Conventions.\<close>  An operation that may fault returns \<open>err + 'a\<close>; a state that it changes is an argument and
  part of the result.  \<open>assert\<close> is active, as in the build, while the code's \<open>ASSERT_ENABLE\<close>
  blocks are compiled out and absent.  Integers that the code stores in 8 to 64 bits are words of that width where
  they can wrap; indices are \<open>nat\<close>.  A pointer into a frame is the number of the frame and an offset.

  \<^bold>\<open>What the lemmas show.\<close>
  \<^item> Words: however the accesses of threads to an entry interleave, no update is lost: pins, unpins, locks and
    unlocks act one after another, the count is the number of pins held, and a locked entry has one owner and no pin; \<open>LockMapping\<close> undoes its lock when it cannot have the entry.
  \<^item> Policies: each meets the contract that the pool relies on: it evicts only managed, unpinned frames
    and leaves their mapping locked.  Where the code can fail to return, or aborts, that is proved too.
  \<^item> A pool: its invariant is kept, its contents (\<open>page_bytes\<close>: the frame if the page is in memory,
    the file otherwise) are changed by no fetch, eviction, flush or warm-up.
  \<^item> Concurrent fetches: with at least as many frames as threads, no interleaving of the phases of fetches, of
    updates and of releases faults, puts a page into two frames, loses an update or deadlocks; every reader sees the
    updates made so far.
  \<^item> The manager: to clients every file is an array of bytes which \<open>GetBlock\<close> reads and \<open>SetBlock\<close> writes.
  \<^item> Blocks: every pin has one owner, a slice of a block or a cache, over any sequence of client
    calls; a block goes on showing its bytes while it is held, and no pin is left when all are given back.
  \<^item> Servers and the io_uring backend answer every request once; a \<open>Value\<close> is a byte string, without double frees; the locks exclude; the ring buffer is first-in first-out; the hash table is
    a map; the equivalences between the variants of blocks, caches, fetches and policies hold as far as stated.

  \<^bold>\<open>Bounds and fuel.\<close>  A loop whose end depends on state takes fuel and returns \<open>OutOfFuel\<close> when it runs out; each
  claim that it returns is proved with a bound.  A fetch needs 4 rounds of its phases; \<open>SieveReplacer_v3\<close>
  counts its own steps, as the code does, and its inner loop is a total function; a scan of a list needs one step
  more than its length; \<open>ClockReplacer_v2\<close> two turns of its hand; \<open>SieveReplacer\<close> \<open>4n + 1\<close> steps for \<open>n\<close> frames (it ages each at
  most once and counts \<open>3n\<close>); \<open>ExtendibleHash\<close> at most 31 splits before a shift of its code overflows, so 32 rounds.
  Requests are polled as long as the latency of their transfer says.

  \<^bold>\<open>Parameters.\<close>  Code outside the repository is an argument of the definitions that use it: the
  queues and channels of the Boost library (\<open>queue_ops\<close> with \<open>fifo_laws\<close>, \<open>channel_ops\<close> with \<open>channel_laws\<close>), the
  rings of liburing (\<open>uring_ops\<close> with \<open>uring_laws\<close>; to the fetches a transfer is \<open>aio\<close> after a \<open>latency\<close>), \<open>std::hash\<close>, the bytes of the memory that a constructor leaves uninitialised.
  The operating system's files follow the POSIX meaning of their calls and report no error.

  \<^bold>\<open>Not modelled.\<close>  Threads interleave inside the page-table words, the locks, the ring buffer, between the rounds of the servers
  and between the phases of fetches.  A phase is one step there: its races with other phases are covered only
  as far as the theorems on words and locks go, and the replacement policy's own lock makes its operations atomic.  An update of a
  block is one step too: a reader that copies while another thread writes the same bytes is outside, and so are
  fetches beside flushes or resizing, and the plain store of \<open>SetDirty\<close> to the word of an entry.  Weak memory orders are treated as sequentially consistent.  Logging, statistics of the operating
  system, clocks and date parsing (I/O and calls of Boost), the benchmarks, and the older block implementations that
  the configuration does not select are left out, as are the statistics of the manager and code that is commented out.
\<close>

end
